(* ===== verification/Mds_Prelude.thy ===== *)
theory Mds_Prelude
  imports
    Complex_Main
    "HOL-Library.Word"
    "HOL-Library.Char_ord"
    "HOL-Library.List_Lexorder"
    "HOL-Library.Product_Lexorder"
    "HOL-Library.Monad_Syntax"
begin

text \<open>
  Shared material of the development: the types that name the code's scalars, the
  treatment of \<^verbatim>\<open>assert\<close>, and the standard containers the metadata server is built on.

  \<^item> An aborting \<^verbatim>\<open>assert\<close> is the value \<open>None\<close>; a function that may abort returns an
    option and is written in the option monad.
  \<^item> \<^verbatim>\<open>std::map\<close> is an association list kept strictly sorted by key (\<open>om_\<close> operations),
    so that iteration order is list order; \<^verbatim>\<open>std::multimap\<close> is an association list
    sorted by key where an insertion goes behind the equal keys (\<open>mm_insert\<close>);
    \<^verbatim>\<open>std::set\<close> is a strictly sorted list (\<open>os_insert\<close>).
  \<^item> \<^verbatim>\<open>uint64_t\<close>, \<^verbatim>\<open>uint32_t\<close> are words and wrap; \<^verbatim>\<open>int\<close> and \<^verbatim>\<open>int64_t\<close> are integers (their
    overflow is undefined behaviour in the code); \<^verbatim>\<open>double\<close>, \<^verbatim>\<open>float\<close> and the clock are
    exact rationals (a time is its value in seconds).
\<close>

section \<open>Scalars\<close>

type_synonym version_t = "64 word"
type_synonym snapid_t = "64 word"
type_synonym inodeno_t = "64 word"
type_synonym u32 = "32 word"
type_synonym u64 = "64 word"
type_synonym mds_rank_t = int
type_synonym client_t = int
type_synonym double = rat
type_synonym utime_t = rat
type_synonym context_t = nat

named_theorems mds_defs \<open>definitions of operations, unfolded together\<close>
named_theorems om_simps \<open>facts on sorted association lists\<close>
named_theorems frame_simps \<open>fields an operation leaves alone\<close>

unbundle bit_operations_syntax

section \<open>C strings\<close>

text \<open>\<^verbatim>\<open>s.c_str()\<close> read as a C string: up to the first NUL.\<close>

definition c_str :: "string \<Rightarrow> string" where
  "c_str s = takeWhile (\<lambda>c. c \<noteq> CHR 0x00) s"

text \<open>An unsigned number as a stream prints it.\<close>

fun decimal :: "nat \<Rightarrow> string" where
  "decimal n = (if n < 10 then [char_of (48 + n)] else decimal (n div 10) @ [char_of (48 + n mod 10)])"

declare decimal.simps [simp del]

section \<open>Assertions\<close>

definition assert_that :: "bool \<Rightarrow> unit option" where
  "assert_that b = (if b then Some () else None)"

lemma assert_that_simps [simp]:
  "assert_that True = Some ()" "assert_that False = None"
  by (simp_all add: assert_that_def)

lemma assert_that_eq_Some [simp]: "assert_that b = Some u \<longleftrightarrow> b"
  by (simp add: assert_that_def)

lemma assert_that_eq_None [simp]: "assert_that b = None \<longleftrightarrow> \<not> b"
  by (simp add: assert_that_def)

lemma bind_assert_eq_Some [simp]:
  "Option.bind (assert_that b) f = Some y \<longleftrightarrow> b \<and> f () = Some y"
  by (cases b) simp_all

lemma bind_assert_if: "Option.bind (assert_that b) f = (if b then f () else None)"
  by simp

lemma bind_eq_SomeE:
  assumes "Option.bind x f = Some y"
  obtains z where "x = Some z" "f z = Some y"
  using assms by (auto simp: bind_eq_Some_conv)

section \<open>Words\<close>

lemma word_less_Suc: "(x :: 'a::len word) < - 1 \<Longrightarrow> x < x + 1"
proof -
  assume "x < - 1"
  then have "1 + x \<noteq> 0" by (metis add.commute eq_neg_iff_add_eq_0 less_irrefl)
  then have "unat (1 + x) = Suc (unat x)" by (rule unatSuc)
  then show ?thesis by (simp add: word_less_nat_alt add.commute)
qed

end
