(* ===== verification/Ordered_Containers.thy ===== *)
theory Ordered_Containers
  imports Mds_Prelude
begin

text \<open>
  The standard containers of the code. A \<^verbatim>\<open>std::map\<close> is a strictly sorted association
  list; the locale \<open>dict\<close> states what its users rely on, and the interpretation \<open>om\<close>
  discharges those laws for the \<open>om_\<close> operations. The counting lemmas proved in the
  locale are what the directory and cache-object invariants rest on.
\<close>

section \<open>Maps\<close>

abbreviation om_ok :: "('k::linorder \<times> 'v) list \<Rightarrow> bool" where
  "om_ok m \<equiv> sorted_wrt (<) (map fst m)"

text \<open>\<^verbatim>\<open>m[k] = v\<close>\<close>

fun om_set :: "'k::linorder \<Rightarrow> 'v \<Rightarrow> ('k \<times> 'v) list \<Rightarrow> ('k \<times> 'v) list" where
  "om_set k v [] = [(k, v)]"
| "om_set k v (p # m) =
     (if fst p < k then p # om_set k v m
      else if fst p = k then (k, v) # m
      else (k, v) # p # m)"

text \<open>\<^verbatim>\<open>m.erase(k)\<close>\<close>

definition om_erase :: "'k \<Rightarrow> ('k \<times> 'v) list \<Rightarrow> ('k \<times> 'v) list" where
  "om_erase k m = filter (\<lambda>p. fst p \<noteq> k) m"

text \<open>\<^verbatim>\<open>m[k]\<close> read through \<^verbatim>\<open>operator[]\<close>, which value-initialises a missing key.\<close>

definition om_get :: "'v \<Rightarrow> 'k \<Rightarrow> ('k \<times> 'v) list \<Rightarrow> 'v" where
  "om_get d k m = (case map_of m k of None \<Rightarrow> d | Some v \<Rightarrow> v)"

text \<open>The entries from \<^verbatim>\<open>m.lower_bound(k)\<close> to \<^verbatim>\<open>m.end()\<close>.\<close>

definition om_lower_bound :: "'k::linorder \<Rightarrow> ('k \<times> 'v) list \<Rightarrow> ('k \<times> 'v) list" where
  "om_lower_bound k m = dropWhile (\<lambda>p. fst p < k) m"

lemma om_set_keys [simp]: "fst ` set (om_set k v m) = insert k (fst ` set m)"
  by (induction m) auto

lemma om_set_entries: "set (om_set k v m) \<subseteq> insert (k, v) (set m)"
  by (induction m) auto

lemma om_ok_set [simp, intro]: "om_ok m \<Longrightarrow> om_ok (om_set k v m)"
proof (induction m)
  case (Cons p m)
  then have IH: "om_ok (om_set k v m)" and sm: "\<forall>q\<in>set m. fst p < fst q" by auto
  have "fst q = k \<or> fst q \<in> fst ` set m" if "q \<in> set (om_set k v m)" for q
    using that om_set_keys [of k v m] by (metis image_eqI insertE)
  with sm IH Cons.prems show ?case by fastforce
qed simp

lemma om_ok_filter [simp, intro]: "om_ok m \<Longrightarrow> om_ok (filter P m)"
  by (induction m) auto

lemma om_ok_erase [simp, intro]: "om_ok m \<Longrightarrow> om_ok (om_erase k m)"
  by (simp add: om_erase_def)

lemma om_ok_distinct: "om_ok m \<Longrightarrow> distinct (map fst m)"
  by (induction m) auto

lemma map_of_om_set [simp]: "om_ok m \<Longrightarrow> map_of (om_set k v m) = (map_of m)(k \<mapsto> v)"
proof (induction m)
  case (Cons p m)
  obtain a b where p: "p = (a, b)" by (cases p)
  from Cons.prems p have above: "\<forall>q\<in>set m. a < fst q" by auto
  have no_k: "map_of m k = None" if "\<not> a < k" "a \<noteq> k"
    using that above by (fastforce simp: map_of_eq_None_iff)
  show ?case using Cons p no_k by (auto simp: fun_eq_iff)
qed (simp add: fun_eq_iff)

lemma map_of_om_erase [simp]: "map_of (om_erase k m) = (map_of m)(k := None)"
  by (induction m) (auto simp: om_erase_def fun_eq_iff)

lemma om_erase_notin: "map_of m k = None \<Longrightarrow> om_erase k m = m"
  by (auto simp: om_erase_def filter_id_conv map_of_eq_None_iff)

lemma om_get_set [simp]:
  "om_ok m \<Longrightarrow> om_get d k (om_set k' v m) = (if k = k' then v else om_get d k m)"
  by (simp add: om_get_def)

lemma om_get_erase [simp]: "om_get d k (om_erase k' m) = (if k = k' then d else om_get d k m)"
  by (simp add: om_get_def)

lemma om_set_twice [simp]: "om_set k v (om_set k w m) = om_set k v m"
  by (induction m) auto

lemma om_set_split:
  assumes "om_ok m" "map_of m k = Some v"
  obtains xs ys where "m = xs @ (k, v) # ys" "k \<notin> fst ` set xs" "k \<notin> fst ` set ys"
proof -
  from assms(2) have "(k, v) \<in> set m" by (rule map_of_SomeD)
  then obtain xs ys where m: "m = xs @ (k, v) # ys" by (meson split_list)
  from om_ok_distinct [OF assms(1)] m have "k \<notin> fst ` set xs" "k \<notin> fst ` set ys" by auto
  with m that show thesis by blast
qed

lemma om_set_new:
  "om_ok m \<Longrightarrow> map_of m k = None \<Longrightarrow>
     om_set k v m = takeWhile (\<lambda>p. fst p < k) m @ (k, v) # dropWhile (\<lambda>p. fst p < k) m"
  by (induction m) (auto split: if_splits)

lemma om_set_old:
  "sorted_wrt (<) (map fst (xs @ (k, w) # ys)) \<Longrightarrow>
     om_set k v (xs @ (k, w) # ys) = xs @ (k, v) # ys"
  by (induction xs) auto

lemma length_om_set:
  "om_ok m \<Longrightarrow> length (om_set k v m) = (if map_of m k = None then Suc (length m) else length m)"
proof (induction m)
  case (Cons p m)
  have "map_of m k = None" if "\<not> fst p < k" "fst p \<noteq> k"
  proof -
    from Cons.prems have "\<forall>q\<in>set m. fst p < fst q" by auto
    with that show ?thesis by (fastforce simp: map_of_eq_None_iff)
  qed
  with Cons show ?case by auto
qed simp

lemma length_om_erase:
  assumes "om_ok m" "map_of m k = Some v"
  shows "Suc (length (om_erase k m)) = length m"
proof -
  obtain xs ys where m: "m = xs @ (k, v) # ys" "k \<notin> fst ` set xs" "k \<notin> fst ` set ys"
    by (rule om_set_split [OF assms])
  then have "filter (\<lambda>p. fst p \<noteq> k) xs = xs" "filter (\<lambda>p. fst p \<noteq> k) ys = ys"
    by (auto simp: filter_id_conv)
  with m(1) show ?thesis by (simp add: om_erase_def)
qed

section \<open>The contract of a map, and counting over its entries\<close>

text \<open>
  What the components assume of a \<^verbatim>\<open>std::map\<close>: looking a key up after an assignment or
  an erase, and the entries the two leave in the container.
\<close>

locale dict =
  fixes lookup :: "'m \<Rightarrow> 'k \<Rightarrow> 'v option"
    and assign :: "'k \<Rightarrow> 'v \<Rightarrow> 'm \<Rightarrow> 'm"
    and erase :: "'k \<Rightarrow> 'm \<Rightarrow> 'm"
    and entries :: "'m \<Rightarrow> ('k \<times> 'v) list"
    and invar :: "'m \<Rightarrow> bool"
  assumes invar_assign: "invar m \<Longrightarrow> invar (assign k v m)"
    and invar_erase: "invar m \<Longrightarrow> invar (erase k m)"
    and lookup_assign: "invar m \<Longrightarrow> lookup (assign k v m) = (lookup m)(k \<mapsto> v)"
    and lookup_erase: "invar m \<Longrightarrow> lookup (erase k m) = (lookup m)(k := None)"
    and lookup_entries: "invar m \<Longrightarrow> lookup m k = map_of (entries m) k"
    and distinct_entries: "invar m \<Longrightarrow> distinct (map fst (entries m))"
begin

definition total :: "('k \<times> 'v \<Rightarrow> 'n::ab_group_add) \<Rightarrow> 'm \<Rightarrow> 'n" where
  "total f m = (\<Sum>p\<leftarrow>entries m. f p)"

lemma total_set: "invar m \<Longrightarrow> total f m = (\<Sum>p\<in>set (entries m). f p)"
  using distinct_entries [of m]
  by (simp add: total_def sum_list_distinct_conv_sum_set distinct_map)

lemma entries_lookup: "invar m \<Longrightarrow> set (entries m) = {(k, v). lookup m k = Some v}"
  using distinct_entries [of m] by (auto simp: lookup_entries)

lemma set_assign:
  "invar m \<Longrightarrow> set (entries (assign k v m)) = insert (k, v) (set (entries m) - {p. fst p = k})"
  by (auto simp: entries_lookup invar_assign lookup_assign split: if_splits)

lemma set_erase: "invar m \<Longrightarrow> set (entries (erase k m)) = set (entries m) - {p. fst p = k}"
  by (auto simp: entries_lookup invar_erase lookup_erase split: if_splits)

lemma set_key: "invar m \<Longrightarrow> set (entries m) \<inter> {p. fst p = k} = (case lookup m k of None \<Rightarrow> {} | Some v \<Rightarrow> {(k, v)})"
  by (auto simp: entries_lookup split: option.splits)

lemma total_erase:
  assumes "invar m"
  shows "total f (erase k m) = total f m - (case lookup m k of None \<Rightarrow> 0 | Some v \<Rightarrow> f (k, v))"
proof -
  have "total f m = (\<Sum>p\<in>set (entries m) - {p. fst p = k}. f p)
      + (\<Sum>p\<in>set (entries m) \<inter> {p. fst p = k}. f p)"
    unfolding total_set [OF assms]
    by (subst sum.union_disjoint [symmetric]) (auto intro: arg_cong2 [where f = sum])
  then show ?thesis
    using assms by (simp add: total_set [OF invar_erase] set_erase set_key split: option.splits)
qed

lemma total_assign:
  assumes "invar m"
  shows "total f (assign k v m) =
    total f m - (case lookup m k of None \<Rightarrow> 0 | Some w \<Rightarrow> f (k, w)) + f (k, v)"
proof -
  have "total f (assign k v m) = total f (erase k m) + f (k, v)"
    using assms by (simp add: total_set invar_assign invar_erase set_assign set_erase)
  then show ?thesis by (simp add: total_erase [OF assms])
qed

end

interpretation om: dict map_of "om_set :: 'k::linorder \<Rightarrow> 'v \<Rightarrow> _" om_erase "\<lambda>m. m" om_ok
  by unfold_locales (auto intro: om_ok_distinct)

lemma om_total [simp]: "om.total f m = (\<Sum>p\<leftarrow>m. f p)"
  by (simp add: om.total_def)

lemmas om_sum_assign = om.total_assign [unfolded om_total]
lemmas om_sum_erase = om.total_erase [unfolded om_total]

section \<open>Range scans\<close>

lemma om_lower_bound_filter: "sorted (map fst m) \<Longrightarrow> om_lower_bound k m = filter (\<lambda>p. k \<le> fst p) m"
proof (induction m)
  case (Cons p m)
  show ?case
  proof (cases "fst p < k")
    case True
    with Cons show ?thesis by (simp add: om_lower_bound_def)
  next
    case False
    with Cons.prems have "\<forall>q\<in>set (p # m). k \<le> fst q" by fastforce
    then have "filter (\<lambda>q. k \<le> fst q) (p # m) = p # m" by (rule filter_True)
    with False show ?thesis by (simp add: om_lower_bound_def)
  qed
qed (simp add: om_lower_bound_def)

lemma om_ok_sorted: "om_ok m \<Longrightarrow> sorted (map fst m)"
  by (simp add: strict_sorted_imp_sorted)

section \<open>Multimaps and sets\<close>

text \<open>\<^verbatim>\<open>multimap::insert\<close> places a pair behind the pairs with an equal key.\<close>

definition mm_insert :: "'k::linorder \<Rightarrow> 'v \<Rightarrow> ('k \<times> 'v) list \<Rightarrow> ('k \<times> 'v) list" where
  "mm_insert k v m = takeWhile (\<lambda>p. fst p \<le> k) m @ (k, v) # dropWhile (\<lambda>p. fst p \<le> k) m"

lemma mm_insert_set [simp]: "set (mm_insert k v m) = insert (k, v) (set m)"
proof -
  have "set m = set (takeWhile (\<lambda>p. fst p \<le> k) m) \<union> set (dropWhile (\<lambda>p. fst p \<le> k) m)"
    by (metis set_append takeWhile_dropWhile_id)
  then show ?thesis by (auto simp: mm_insert_def)
qed

lemma mm_insert_nonempty [simp]: "mm_insert k v m \<noteq> []"
  by (simp add: mm_insert_def)

lemma mm_insert_length [simp]: "length (mm_insert k v m) = Suc (length m)"
  by (metis add_Suc_right length_Cons length_append mm_insert_def takeWhile_dropWhile_id)

lemma sorted_mm_insert [simp, intro]:
  "sorted (map fst m) \<Longrightarrow> sorted (map fst (mm_insert k v m))"
proof (induction m)
  case (Cons p m)
  then show ?case
    by (cases "fst p \<le> k") (auto simp: mm_insert_def dest!: set_takeWhileD set_dropWhileD)
qed (simp add: mm_insert_def)

lemma filter_mm_insert:
  "filter P (mm_insert k v m) =
     (if P (k, v) then filter P (takeWhile (\<lambda>p. fst p \<le> k) m) @ (k, v) # filter P (dropWhile (\<lambda>p. fst p \<le> k) m)
      else filter P m)"
  by (auto simp: mm_insert_def) (metis filter_append takeWhile_dropWhile_id)

fun os_insert :: "'a::linorder \<Rightarrow> 'a list \<Rightarrow> 'a list" where
  "os_insert x [] = [x]"
| "os_insert x (y # ys) =
     (if y < x then y # os_insert x ys else if x = y then y # ys else x # y # ys)"

lemma os_insert_set [simp]: "set (os_insert x ys) = insert x (set ys)"
  by (induction ys) auto

lemma os_insert_sorted [simp, intro]: "sorted_wrt (<) ys \<Longrightarrow> sorted_wrt (<) (os_insert x ys)"
  by (induction ys) (auto simp: not_less less_le)

end
