(* ===== verification/Cache_Object.thy ===== *)
theory Cache_Object
  imports Ordered_Containers
begin

text \<open>
  \<^verbatim>\<open>MDSCacheObject\<close> (\<^verbatim>\<open>src/src/mds/mdstypes.h\<close>), the base class of everything in the
  metadata cache: its state bits, its reference count with the per-reason pin map
  (\<^verbatim>\<open>MDS_REF_SET\<close> is defined, \<^verbatim>\<open>MDS_AUTHPIN_SET\<close> is not), the replica map of an
  authoritative object and its multimap of waiters.

  The class is an extensible record, so the operations apply to the derived classes too.
  The virtual functions \<^verbatim>\<open>first_get\<close>, \<^verbatim>\<open>last_put\<close> and \<^verbatim>\<open>_put\<close> are arguments of the operations
  that call them; the locale \<open>co_hooks\<close> states what an overrider must respect, and the
  lemmas of the component are proved in it once for every derived class.
\<close>

section \<open>State\<close>

record mdsco =
  co_state :: u32
  co_ref :: int
  co_ref_map :: "(int \<times> int) list"
  co_replica_nonce :: u32
  co_replica_map :: "(mds_rank_t \<times> u32) list"
  co_waiting :: "(u64 \<times> context_t) list"

definition mdsco_new :: mdsco where
  "mdsco_new = \<lparr>co_state = 0, co_ref = 0, co_ref_map = [], co_replica_nonce = 0,
     co_replica_map = [], co_waiting = []\<rparr>"

definition PIN_REPLICATED :: int where "PIN_REPLICATED = 1000"
definition PIN_DIRTY :: int where "PIN_DIRTY = 1001"
definition PIN_LOCK :: int where "PIN_LOCK = -1002"
definition PIN_REQUEST :: int where "PIN_REQUEST = -1003"
definition PIN_WAITER :: int where "PIN_WAITER = 1004"
definition PIN_DIRTYSCATTERED :: int where "PIN_DIRTYSCATTERED = -1005"
definition PIN_AUTHPIN :: int where "PIN_AUTHPIN = 1006"
definition PIN_PTRWAITER :: int where "PIN_PTRWAITER = -1007"
definition PIN_TEMPEXPORTING :: int where "PIN_TEMPEXPORTING = 1008"
definition PIN_CLIENTLEASE :: int where "PIN_CLIENTLEASE = 1009"

lemmas co_pin_defs = PIN_REPLICATED_def PIN_DIRTY_def PIN_LOCK_def PIN_REQUEST_def PIN_WAITER_def
  PIN_DIRTYSCATTERED_def PIN_AUTHPIN_def PIN_PTRWAITER_def PIN_TEMPEXPORTING_def PIN_CLIENTLEASE_def

definition generic_pin_name :: "int \<Rightarrow> string option" where
  "generic_pin_name p =
     (if p = PIN_REPLICATED then Some ''replicated''
      else if p = PIN_DIRTY then Some ''dirty''
      else if p = PIN_LOCK then Some ''lock''
      else if p = PIN_REQUEST then Some ''request''
      else if p = PIN_WAITER then Some ''waiter''
      else if p = PIN_DIRTYSCATTERED then Some ''dirtyscattered''
      else if p = PIN_AUTHPIN then Some ''authpin''
      else if p = PIN_PTRWAITER then Some ''ptrwaiter''
      else if p = PIN_TEMPEXPORTING then Some ''tempexporting''
      else if p = PIN_CLIENTLEASE then Some ''clientlease''
      else None)"

definition STATE_AUTH :: u32 where "STATE_AUTH = push_bit 30 1"
definition STATE_DIRTY :: u32 where "STATE_DIRTY = push_bit 29 1"
definition STATE_NOTIFYREF :: u32 where "STATE_NOTIFYREF = push_bit 28 1"
definition STATE_REJOINING :: u32 where "STATE_REJOINING = push_bit 27 1"
definition STATE_REJOINUNDEF :: u32 where "STATE_REJOINUNDEF = push_bit 26 1"

definition WAIT_SINGLEAUTH :: u64 where "WAIT_SINGLEAUTH = push_bit 60 1"
definition WAIT_UNFREEZE :: u64 where "WAIT_UNFREEZE = push_bit 59 1"

section \<open>State bits\<close>

definition state_test :: "u32 \<Rightarrow> 'a mdsco_scheme \<Rightarrow> bool" where
  "state_test msk c \<longleftrightarrow> co_state c AND msk \<noteq> 0"

definition state_clear :: "u32 \<Rightarrow> 'a mdsco_scheme \<Rightarrow> 'a mdsco_scheme" where
  "state_clear msk c = c\<lparr>co_state := co_state c AND NOT msk\<rparr>"

definition state_set :: "u32 \<Rightarrow> 'a mdsco_scheme \<Rightarrow> 'a mdsco_scheme" where
  "state_set msk c = c\<lparr>co_state := co_state c OR msk\<rparr>"

definition state_reset :: "u32 \<Rightarrow> 'a mdsco_scheme \<Rightarrow> 'a mdsco_scheme" where
  "state_reset s c = c\<lparr>co_state := s\<rparr>"

definition is_auth :: "'a mdsco_scheme \<Rightarrow> bool" where
  "is_auth c = state_test STATE_AUTH c"

definition is_dirty :: "'a mdsco_scheme \<Rightarrow> bool" where
  "is_dirty c = state_test STATE_DIRTY c"

definition is_clean :: "'a mdsco_scheme \<Rightarrow> bool" where
  "is_clean c \<longleftrightarrow> \<not> is_dirty c"

definition is_rejoining :: "'a mdsco_scheme \<Rightarrow> bool" where
  "is_rejoining c = state_test STATE_REJOINING c"

section \<open>Pins\<close>

definition get_num_ref :: "int \<Rightarrow> 'a mdsco_scheme \<Rightarrow> int" where
  "get_num_ref by c =
     (if by \<ge> 0 then (case map_of (co_ref_map c) by of None \<Rightarrow> 0 | Some n \<Rightarrow> n) else co_ref c)"

definition get_pin_totals :: "'a mdsco_scheme \<Rightarrow> int" where
  "get_pin_totals c = (\<Sum>p\<leftarrow>co_ref_map c. snd p)"

definition co_get :: "('a mdsco_scheme \<Rightarrow> 'a mdsco_scheme) \<Rightarrow> int \<Rightarrow> 'a mdsco_scheme
    \<Rightarrow> 'a mdsco_scheme option" where
  "co_get first_get by c =
     (let c1 = (if co_ref c = 0 then first_get c else c);
          c2 = c1\<lparr>co_ref := co_ref c1 + 1\<rparr>;
          rm = (if map_of (co_ref_map c2) by = None then om_set by 0 (co_ref_map c2)
                else co_ref_map c2);
          c3 = c2\<lparr>co_ref_map := om_set by (om_get 0 by rm + 1) rm\<rparr>
      in do { assert_that (co_ref c3 = get_pin_totals c3); Some c3 })"

definition bad_put :: "int \<Rightarrow> 'a mdsco_scheme \<Rightarrow> 'a mdsco_scheme option" where
  "bad_put by c =
     do { assert_that (om_get 0 by (co_ref_map c) > 0);
          assert_that (co_ref c > 0);
          Some c }"

definition co_put :: "('a mdsco_scheme \<Rightarrow> 'a mdsco_scheme) \<Rightarrow>
    ('a mdsco_scheme \<Rightarrow> 'a mdsco_scheme) \<Rightarrow> int \<Rightarrow> 'a mdsco_scheme \<Rightarrow> 'a mdsco_scheme option" where
  "co_put last_put put_hook by c =
     (if co_ref c = 0 \<or> om_get 0 by (co_ref_map c) = 0 then bad_put by c
      else
        let c1 = c\<lparr>co_ref := co_ref c - 1,
                   co_ref_map := om_set by (om_get 0 by (co_ref_map c) - 1) (co_ref_map c)\<rparr>
        in do { assert_that (co_ref c1 = get_pin_totals c1);
                let c2 = (if co_ref c1 = 0 then last_put c1 else c1);
                Some (if state_test STATE_NOTIFYREF c2 then put_hook c2 else c2) })"

section \<open>Replicas\<close>

definition is_replicated :: "'a mdsco_scheme \<Rightarrow> bool" where
  "is_replicated c \<longleftrightarrow> co_replica_map c \<noteq> []"

definition is_replica :: "mds_rank_t \<Rightarrow> 'a mdsco_scheme \<Rightarrow> bool" where
  "is_replica mds c \<longleftrightarrow> map_of (co_replica_map c) mds \<noteq> None"

definition num_replicas :: "'a mdsco_scheme \<Rightarrow> nat" where
  "num_replicas c = length (co_replica_map c)"

definition add_replica :: "('a mdsco_scheme \<Rightarrow> 'a mdsco_scheme) \<Rightarrow> mds_rank_t \<Rightarrow> 'a mdsco_scheme
    \<Rightarrow> (u32 \<times> 'a mdsco_scheme) option" where
  "add_replica first_get mds c =
     (case map_of (co_replica_map c) mds of
        Some n \<Rightarrow> Some (n + 1, c\<lparr>co_replica_map := om_set mds (n + 1) (co_replica_map c)\<rparr>)
      | None \<Rightarrow>
          do { c1 \<leftarrow> (if co_replica_map c = [] then co_get first_get PIN_REPLICATED c else Some c);
               Some (1, c1\<lparr>co_replica_map := om_set mds 1 (co_replica_map c1)\<rparr>) })"

definition add_replica_nonce :: "('a mdsco_scheme \<Rightarrow> 'a mdsco_scheme) \<Rightarrow> mds_rank_t \<Rightarrow> u32
    \<Rightarrow> 'a mdsco_scheme \<Rightarrow> 'a mdsco_scheme option" where
  "add_replica_nonce first_get mds nonce c =
     do { c1 \<leftarrow> (if co_replica_map c = [] then co_get first_get PIN_REPLICATED c else Some c);
          Some (c1\<lparr>co_replica_map := om_set mds nonce (co_replica_map c1)\<rparr>) }"

definition get_replica_nonce :: "mds_rank_t \<Rightarrow> 'a mdsco_scheme \<Rightarrow> u32 option" where
  "get_replica_nonce mds c = map_of (co_replica_map c) mds"

definition remove_replica :: "('a mdsco_scheme \<Rightarrow> 'a mdsco_scheme) \<Rightarrow>
    ('a mdsco_scheme \<Rightarrow> 'a mdsco_scheme) \<Rightarrow> mds_rank_t \<Rightarrow> 'a mdsco_scheme
    \<Rightarrow> 'a mdsco_scheme option" where
  "remove_replica last_put put_hook mds c =
     do { assert_that (map_of (co_replica_map c) mds \<noteq> None);
          let c1 = c\<lparr>co_replica_map := om_erase mds (co_replica_map c)\<rparr>;
          if co_replica_map c1 = [] then co_put last_put put_hook PIN_REPLICATED c1 else Some c1 }"

definition clear_replica_map :: "('a mdsco_scheme \<Rightarrow> 'a mdsco_scheme) \<Rightarrow>
    ('a mdsco_scheme \<Rightarrow> 'a mdsco_scheme) \<Rightarrow> 'a mdsco_scheme \<Rightarrow> 'a mdsco_scheme option" where
  "clear_replica_map last_put put_hook c =
     do { c1 \<leftarrow> (if co_replica_map c \<noteq> [] then co_put last_put put_hook PIN_REPLICATED c else Some c);
          Some (c1\<lparr>co_replica_map := []\<rparr>) }"

definition list_replicas :: "mds_rank_t list \<Rightarrow> 'a mdsco_scheme \<Rightarrow> mds_rank_t list" where
  "list_replicas ls c = fold (\<lambda>p. os_insert (fst p)) (co_replica_map c) ls"

section \<open>Waiters\<close>

text \<open>The loop of \<^verbatim>\<open>is_waiter_for\<close> that clears the lowest set bit while two are set.\<close>

lemma clear_lsb_less: "x AND (x - 1) \<noteq> 0 \<Longrightarrow> unat (x AND (x - 1)) < unat (x :: 'a::len word)"
proof -
  assume "x AND (x - 1) \<noteq> 0"
  then have x: "x \<noteq> 0" by auto
  have "x AND (x - 1) \<le> x - 1" by (rule word_and_le1)
  also have "x - 1 < x" using x by (simp add: word_less_nat_alt unat_minus_one unat_gt_0)
  finally show ?thesis by (simp add: word_less_nat_alt)
qed

function clear_low_bits :: "u64 \<Rightarrow> u64" where
  "clear_low_bits m = (if m AND (m - 1) \<noteq> 0 then clear_low_bits (m AND (m - 1)) else m)"
  by pat_completeness auto
termination
  by (relation "measure unat") (auto intro: clear_lsb_less)

declare clear_low_bits.simps [simp del]

fun waiter_scan :: "u64 \<Rightarrow> (u64 \<times> context_t) list \<Rightarrow> bool" where
  "waiter_scan msk [] = False"
| "waiter_scan msk (p # ps) =
     (if fst p AND msk \<noteq> 0 then True
      else if fst p > msk then False
      else waiter_scan msk ps)"

definition is_waiter_for :: "u64 \<Rightarrow> u64 \<Rightarrow> 'a mdsco_scheme \<Rightarrow> bool" where
  "is_waiter_for msk mn c =
     (let lo = (if mn = 0 then clear_low_bits msk else mn)
      in waiter_scan msk (om_lower_bound lo (co_waiting c)))"

definition co_add_waiter :: "('a mdsco_scheme \<Rightarrow> 'a mdsco_scheme) \<Rightarrow> u64 \<Rightarrow> context_t
    \<Rightarrow> 'a mdsco_scheme \<Rightarrow> 'a mdsco_scheme option" where
  "co_add_waiter first_get msk ctx c =
     do { c1 \<leftarrow> (if co_waiting c = [] then co_get first_get PIN_WAITER c else Some c);
          Some (c1\<lparr>co_waiting := mm_insert msk ctx (co_waiting c1)\<rparr>) }"

text \<open>The iteration of \<^verbatim>\<open>take_waiting\<close>: matching entries move to \<open>ls\<close>, in key order.\<close>

fun take_loop :: "u64 \<Rightarrow> (u64 \<times> context_t) list \<Rightarrow> context_t list
    \<Rightarrow> (u64 \<times> context_t) list \<times> context_t list" where
  "take_loop msk [] ls = ([], ls)"
| "take_loop msk (p # ps) ls =
     (if fst p AND msk \<noteq> 0 then take_loop msk ps (ls @ [snd p])
      else (let (rest, ls') = take_loop msk ps ls in (p # rest, ls')))"

definition co_take_waiting :: "('a mdsco_scheme \<Rightarrow> 'a mdsco_scheme) \<Rightarrow>
    ('a mdsco_scheme \<Rightarrow> 'a mdsco_scheme) \<Rightarrow> u64 \<Rightarrow> context_t list \<Rightarrow> 'a mdsco_scheme
    \<Rightarrow> (context_t list \<times> 'a mdsco_scheme) option" where
  "co_take_waiting last_put put_hook msk ls c =
     (if co_waiting c = [] then Some (ls, c)
      else
        let (rest, ls') = take_loop msk (co_waiting c) ls;
            c1 = c\<lparr>co_waiting := rest\<rparr>
        in do { c2 \<leftarrow> (if co_waiting c1 = [] then co_put last_put put_hook PIN_WAITER c1 else Some c1);
                Some (ls', c2) })"

section \<open>Pin accounting\<close>

definition pins :: "'a mdsco_scheme \<Rightarrow> int \<Rightarrow> int" where
  "pins c by = om_get 0 by (co_ref_map c)"

definition bump :: "int \<Rightarrow> int \<Rightarrow> 'a mdsco_scheme \<Rightarrow> 'a mdsco_scheme" where
  "bump by n c = c\<lparr>co_ref := co_ref c + n,
                    co_ref_map := om_set by (pins c by + n) (co_ref_map c)\<rparr>"

text \<open>Well-formed pins: the count is the sum of the per-reason counts, none negative.\<close>

definition co_wf :: "'a mdsco_scheme \<Rightarrow> bool" where
  "co_wf c \<longleftrightarrow> om_ok (co_ref_map c) \<and> co_ref c = get_pin_totals c \<and> (\<forall>by. 0 \<le> pins c by)"

definition co_inv :: "'a mdsco_scheme \<Rightarrow> bool" where
  "co_inv c \<longleftrightarrow> co_wf c \<and> om_ok (co_replica_map c) \<and> sorted (map fst (co_waiting c)) \<and>
     pins c PIN_REPLICATED = (if co_replica_map c = [] then 0 else 1) \<and>
     pins c PIN_WAITER = (if co_waiting c = [] then 0 else 1)"

lemma pins_upd [frame_simps]:
  "pins (c\<lparr>co_state := s\<rparr>) = pins c"
  "pins (c\<lparr>co_replica_nonce := n\<rparr>) = pins c"
  "pins (c\<lparr>co_replica_map := r\<rparr>) = pins c"
  "pins (c\<lparr>co_waiting := w\<rparr>) = pins c"
  by (simp_all add: pins_def fun_eq_iff)

lemma co_wf_upd [frame_simps]:
  "co_wf (c\<lparr>co_state := s\<rparr>) = co_wf c"
  "co_wf (c\<lparr>co_replica_nonce := n\<rparr>) = co_wf c"
  "co_wf (c\<lparr>co_replica_map := r\<rparr>) = co_wf c"
  "co_wf (c\<lparr>co_waiting := w\<rparr>) = co_wf c"
  by (simp_all add: co_wf_def get_pin_totals_def frame_simps)

lemma bump_fields [frame_simps]:
  "co_state (bump by n c) = co_state c"
  "co_ref (bump by n c) = co_ref c + n"
  "co_replica_nonce (bump by n c) = co_replica_nonce c"
  "co_replica_map (bump by n c) = co_replica_map c"
  "co_waiting (bump by n c) = co_waiting c"
  by (simp_all add: bump_def)

lemma pins_bump: "co_wf c \<Longrightarrow> pins (bump by n c) = (pins c)(by := pins c by + n)"
  by (simp add: bump_def pins_def co_wf_def fun_eq_iff)

lemma totals_bump: "co_wf c \<Longrightarrow> get_pin_totals (bump by n c) = get_pin_totals c + n"
  by (simp add: get_pin_totals_def bump_def co_wf_def om_sum_assign pins_def om_get_def
      split: option.splits)

lemma co_wf_bump: "co_wf c \<Longrightarrow> 0 \<le> pins c by + n \<Longrightarrow> co_wf (bump by n c)"
  by (simp add: co_wf_def totals_bump [unfolded co_wf_def] pins_bump [unfolded co_wf_def]
      frame_simps) (simp add: bump_def)

lemma pins_le_ref: "co_wf c \<Longrightarrow> pins c by \<le> co_ref c"
proof -
  assume wf: "co_wf c"
  have "(\<Sum>p\<leftarrow>om_erase by (co_ref_map c). snd p) = co_ref c - pins c by"
    using wf by (simp add: co_wf_def om_sum_erase get_pin_totals_def pins_def om_get_def
        split: option.splits)
  moreover have "0 \<le> snd p" if "p \<in> set (co_ref_map c)" for p
  proof -
    have "map_of (co_ref_map c) (fst p) = Some (snd p)"
      using that wf by (intro map_of_is_SomeI) (auto simp: co_wf_def intro: om_ok_distinct)
    moreover have "0 \<le> pins c (fst p)" using wf by (simp add: co_wf_def)
    ultimately show ?thesis by (simp add: pins_def om_get_def)
  qed
  then have "0 \<le> (\<Sum>p\<leftarrow>om_erase by (co_ref_map c). snd p)"
    by (intro sum_list_nonneg) (auto simp: om_erase_def)
  ultimately show ?thesis by linarith
qed

lemma co_ref_nonneg: "co_wf c \<Longrightarrow> 0 \<le> co_ref c"
  using pins_le_ref [of c 0] by (meson co_wf_def order_trans)

section \<open>What a derived class may override\<close>

text \<open>
  An overrider of \<^verbatim>\<open>first_get\<close>, \<^verbatim>\<open>last_put\<close> or \<^verbatim>\<open>_put\<close> runs in the middle of \<^verbatim>\<open>get\<close> and \<^verbatim>\<open>put\<close>;
  it must leave the base object alone.
\<close>

locale co_hooks =
  fixes first_get last_put put_hook :: "'a mdsco_scheme \<Rightarrow> 'a mdsco_scheme"
  assumes first_get_base: "mdsco.truncate (first_get c) = mdsco.truncate c"
    and last_put_base: "mdsco.truncate (last_put c) = mdsco.truncate c"
    and put_hook_base: "mdsco.truncate (put_hook c) = mdsco.truncate c"
begin

lemma base_fields:
  "h \<in> {first_get, last_put, put_hook} \<Longrightarrow> co_state (h c) = co_state c"
  "h \<in> {first_get, last_put, put_hook} \<Longrightarrow> co_ref (h c) = co_ref c"
  "h \<in> {first_get, last_put, put_hook} \<Longrightarrow> co_ref_map (h c) = co_ref_map c"
  "h \<in> {first_get, last_put, put_hook} \<Longrightarrow> co_replica_nonce (h c) = co_replica_nonce c"
  "h \<in> {first_get, last_put, put_hook} \<Longrightarrow> co_replica_map (h c) = co_replica_map c"
  "h \<in> {first_get, last_put, put_hook} \<Longrightarrow> co_waiting (h c) = co_waiting c"
  using first_get_base [of c] last_put_base [of c] put_hook_base [of c]
  by (auto simp: mdsco.truncate_def)

lemma hook_fields:
  "co_state (first_get c) = co_state c" "co_state (last_put c) = co_state c"
  "co_state (put_hook c) = co_state c"
  "co_ref (first_get c) = co_ref c" "co_ref (last_put c) = co_ref c" "co_ref (put_hook c) = co_ref c"
  "co_ref_map (first_get c) = co_ref_map c" "co_ref_map (last_put c) = co_ref_map c"
  "co_ref_map (put_hook c) = co_ref_map c"
  "co_replica_map (first_get c) = co_replica_map c" "co_replica_map (last_put c) = co_replica_map c"
  "co_replica_map (put_hook c) = co_replica_map c"
  "co_waiting (first_get c) = co_waiting c" "co_waiting (last_put c) = co_waiting c"
  "co_waiting (put_hook c) = co_waiting c"
  by (simp_all add: base_fields)

lemma hook_pins:
  "pins (first_get c) = pins c" "pins (last_put c) = pins c" "pins (put_hook c) = pins c"
  "co_wf (first_get c) = co_wf c" "co_wf (last_put c) = co_wf c" "co_wf (put_hook c) = co_wf c"
  by (simp_all add: pins_def co_wf_def get_pin_totals_def fun_eq_iff hook_fields)

lemmas hook_simps = hook_fields hook_pins

lemma co_get_eq:
  assumes "co_wf c"
  shows "co_get first_get by c = Some (bump by 1 (if co_ref c = 0 then first_get c else c))"
proof -
  obtain d where d: "(if co_ref c = 0 then first_get c else c) = d" by blast
  then have wf: "co_wf d" using assms by (auto simp: hook_simps)
  have "get_pin_totals (bump by 1 d) = co_ref d + 1"
    using wf by (simp add: totals_bump) (simp add: co_wf_def)
  then have tot: "get_pin_totals (d\<lparr>co_ref := co_ref d + 1,
      co_ref_map := om_set by (om_get 0 by (co_ref_map d) + 1) (co_ref_map d)\<rparr>) = co_ref d + 1"
    by (simp add: bump_def pins_def)
  have get0: "om_get 0 by (om_set by 0 (co_ref_map d)) = om_get 0 by (co_ref_map d)"
    if "map_of (co_ref_map d) by = None"
    using that wf by (simp add: om_get_def co_wf_def)
  show ?thesis
    unfolding co_get_def Let_def d using tot get0
    by (cases "map_of (co_ref_map d) by") (simp_all add: bump_def pins_def)
qed

lemma co_put_eq:
  assumes "co_wf c" "0 < pins c by"
  shows "co_put last_put put_hook by c =
    (let c1 = bump by (-1) c; c2 = (if co_ref c1 = 0 then last_put c1 else c1)
     in Some (if state_test STATE_NOTIFYREF c2 then put_hook c2 else c2))"
proof -
  have "co_ref c \<noteq> 0" using pins_le_ref [OF assms(1), of "by"] assms(2) by linarith
  moreover have "co_wf (bump by (-1) c)" using assms by (intro co_wf_bump) simp_all
  ultimately show ?thesis
    using assms(2) by (simp add: co_put_def co_wf_def pins_def bump_def Let_def)
qed

lemma co_put_unpinned: "co_wf c \<Longrightarrow> pins c by = 0 \<Longrightarrow> co_put last_put put_hook by c = None"
  by (simp add: co_put_def bad_put_def pins_def)

text \<open>The two pin operations, as the updates they make to the base object.\<close>

lemma co_get_ok:
  assumes "co_wf c"
  obtains c' where "co_get first_get by c = Some c'" "co_wf c'"
    "pins c' = (pins c)(by := pins c by + 1)" "co_state c' = co_state c"
    "co_replica_map c' = co_replica_map c" "co_waiting c' = co_waiting c"
    "co_ref c' = co_ref c + 1"
proof (rule that [OF co_get_eq [OF assms]])
  have "0 \<le> pins c by + 1" using assms by (simp add: co_wf_def add_nonneg_nonneg)
  then show "co_wf (bump by 1 (if co_ref c = 0 then first_get c else c))"
    using assms by (simp add: co_wf_bump hook_simps)
  show "pins (bump by 1 (if co_ref c = 0 then first_get c else c)) = (pins c)(by := pins c by + 1)"
    using assms by (simp add: pins_bump hook_simps)
qed (simp_all add: frame_simps hook_simps)

lemma co_put_ok:
  assumes "co_wf c" "0 < pins c by"
  obtains c' where "co_put last_put put_hook by c = Some c'" "co_wf c'"
    "pins c' = (pins c)(by := pins c by - 1)" "co_state c' = co_state c"
    "co_replica_map c' = co_replica_map c" "co_waiting c' = co_waiting c"
    "co_ref c' = co_ref c - 1"
proof (rule that [OF co_put_eq [OF assms, unfolded Let_def]])
  have "co_wf (bump by (- 1) c)" using assms by (intro co_wf_bump) simp_all
  then show "co_wf (if state_test STATE_NOTIFYREF (if co_ref (bump by (- 1) c) = 0
      then last_put (bump by (- 1) c) else bump by (- 1) c)
      then put_hook (if co_ref (bump by (- 1) c) = 0 then last_put (bump by (- 1) c) else bump by (- 1) c)
      else if co_ref (bump by (- 1) c) = 0 then last_put (bump by (- 1) c) else bump by (- 1) c)"
    by (simp add: hook_simps)
qed (simp_all add: frame_simps pins_bump assms hook_simps)

end

section \<open>Replica and waiter operations keep the invariant\<close>

lemma take_loop_eq:
  "take_loop msk ws ls =
     (filter (\<lambda>p. fst p AND msk = 0) ws, ls @ map snd (filter (\<lambda>p. fst p AND msk \<noteq> 0) ws))"
  by (induction ws arbitrary: ls) auto

lemma pin_reasons_differ [simp]: "PIN_REPLICATED \<noteq> PIN_WAITER" "PIN_WAITER \<noteq> PIN_REPLICATED"
  by (simp_all add: co_pin_defs)

lemma om_set_not_Nil [simp]: "om_set k v m \<noteq> []"
  by (induction m) auto

lemma co_inv_frame [frame_simps]:
  "co_inv (c\<lparr>co_state := s\<rparr>) = co_inv c" "co_inv (c\<lparr>co_replica_nonce := n\<rparr>) = co_inv c"
  by (simp_all add: co_inv_def frame_simps)

lemma co_inv_wf: "co_inv c \<Longrightarrow> co_wf c"
  by (simp add: co_inv_def)

lemma sorted_map_filter: "sorted (map f xs) \<Longrightarrow> sorted (map f (filter P xs))"
  by (induction xs) auto

context co_hooks
begin

lemma add_replica_ok:
  assumes "co_inv c"
  obtains c' where
    "add_replica first_get mds c =
       Some (case map_of (co_replica_map c) mds of None \<Rightarrow> 1 | Some n \<Rightarrow> n + 1, c')"
    "co_inv c'"
    "map_of (co_replica_map c') = (map_of (co_replica_map c))
       (mds \<mapsto> (case map_of (co_replica_map c) mds of None \<Rightarrow> 1 | Some n \<Rightarrow> n + 1))"
    "co_waiting c' = co_waiting c"
proof (cases "map_of (co_replica_map c) mds")
  case (Some n)
  then have "co_replica_map c \<noteq> []" by auto
  with Some assms show thesis
    by (intro that [of "c\<lparr>co_replica_map := om_set mds (n + 1) (co_replica_map c)\<rparr>"])
      (auto simp: add_replica_def co_inv_def frame_simps)
next
  case None
  show thesis
  proof (cases "co_replica_map c = []")
    case True
    obtain c1 where "co_get first_get PIN_REPLICATED c = Some c1" "co_wf c1"
      "pins c1 = (pins c)(PIN_REPLICATED := pins c PIN_REPLICATED + 1)"
      "co_replica_map c1 = co_replica_map c" "co_waiting c1 = co_waiting c"
      by (rule co_get_ok [OF co_inv_wf [OF assms], of PIN_REPLICATED])
    with True assms show thesis
      by (intro that [of "c1\<lparr>co_replica_map := om_set mds 1 (co_replica_map c1)\<rparr>"])
        (auto simp: add_replica_def co_inv_def frame_simps)
  next
    case False
    with None assms show thesis
      by (intro that [of "c\<lparr>co_replica_map := om_set mds 1 (co_replica_map c)\<rparr>"])
        (auto simp: add_replica_def co_inv_def frame_simps)
  qed
qed

lemma add_replica_nonce_ok:
  assumes "co_inv c"
  obtains c' where "add_replica_nonce first_get mds n c = Some c'" "co_inv c'"
    "map_of (co_replica_map c') = (map_of (co_replica_map c))(mds \<mapsto> n)"
    "co_waiting c' = co_waiting c"
proof (cases "co_replica_map c = []")
  case True
  obtain c1 where "co_get first_get PIN_REPLICATED c = Some c1" "co_wf c1"
    "pins c1 = (pins c)(PIN_REPLICATED := pins c PIN_REPLICATED + 1)"
    "co_replica_map c1 = co_replica_map c" "co_waiting c1 = co_waiting c"
    by (rule co_get_ok [OF co_inv_wf [OF assms], of PIN_REPLICATED])
  with True assms show thesis
    by (intro that [of "c1\<lparr>co_replica_map := om_set mds n (co_replica_map c1)\<rparr>"])
      (auto simp: add_replica_nonce_def co_inv_def frame_simps)
next
  case False
  with assms show thesis
    by (intro that [of "c\<lparr>co_replica_map := om_set mds n (co_replica_map c)\<rparr>"])
      (auto simp: add_replica_nonce_def co_inv_def frame_simps)
qed

lemma remove_replica_ok:
  assumes "co_inv c" "map_of (co_replica_map c) mds \<noteq> None"
  obtains c' where "remove_replica last_put put_hook mds c = Some c'" "co_inv c'"
    "map_of (co_replica_map c') = (map_of (co_replica_map c))(mds := None)"
    "co_waiting c' = co_waiting c"
proof -
  let ?c1 = "c\<lparr>co_replica_map := om_erase mds (co_replica_map c)\<rparr>"
  from assms(2) have ne: "co_replica_map c \<noteq> []" by auto
  show thesis
  proof (cases "om_erase mds (co_replica_map c) = []")
    case True
    have "co_wf ?c1" "0 < pins ?c1 PIN_REPLICATED"
      using assms ne by (simp_all add: co_inv_def frame_simps)
    then obtain c2 where "co_put last_put put_hook PIN_REPLICATED ?c1 = Some c2" "co_wf c2"
      "pins c2 = (pins ?c1)(PIN_REPLICATED := pins ?c1 PIN_REPLICATED - 1)"
      "co_replica_map c2 = co_replica_map ?c1" "co_waiting c2 = co_waiting ?c1"
      by (rule co_put_ok)
    moreover have "(map_of (co_replica_map c))(mds := None) = Map.empty"
      using True by (metis map_of.simps(1) map_of_om_erase)
    ultimately show thesis
      using True assms ne by (intro that [of c2]) (auto simp: remove_replica_def co_inv_def frame_simps)
  next
    case False
    with assms ne show thesis
      by (intro that [of ?c1]) (auto simp: remove_replica_def co_inv_def frame_simps)
  qed
qed

lemma clear_replica_map_ok:
  assumes "co_inv c"
  obtains c' where "clear_replica_map last_put put_hook c = Some c'" "co_inv c'"
    "co_replica_map c' = []" "co_waiting c' = co_waiting c"
proof (cases "co_replica_map c = []")
  case True
  with assms show thesis
    by (intro that [of "c\<lparr>co_replica_map := []\<rparr>"])
      (auto simp: clear_replica_map_def co_inv_def frame_simps)
next
  case False
  then have "0 < pins c PIN_REPLICATED" using assms by (simp add: co_inv_def)
  then obtain c2 where "co_put last_put put_hook PIN_REPLICATED c = Some c2" "co_wf c2"
    "pins c2 = (pins c)(PIN_REPLICATED := pins c PIN_REPLICATED - 1)" "co_waiting c2 = co_waiting c"
    by (rule co_put_ok [OF co_inv_wf [OF assms]])
  with False assms show thesis
    by (intro that [of "c2\<lparr>co_replica_map := []\<rparr>"])
      (auto simp: clear_replica_map_def co_inv_def frame_simps)
qed

lemma add_waiter_ok:
  assumes "co_inv c"
  obtains c' where "co_add_waiter first_get msk ctx c = Some c'" "co_inv c'"
    "co_waiting c' = mm_insert msk ctx (co_waiting c)" "co_replica_map c' = co_replica_map c"
    "co_state c' = co_state c"
proof (cases "co_waiting c = []")
  case True
  obtain c1 where "co_get first_get PIN_WAITER c = Some c1" "co_wf c1"
    "pins c1 = (pins c)(PIN_WAITER := pins c PIN_WAITER + 1)" "co_state c1 = co_state c"
    "co_replica_map c1 = co_replica_map c" "co_waiting c1 = co_waiting c"
    by (rule co_get_ok [OF co_inv_wf [OF assms], of PIN_WAITER])
  with True assms show thesis
    by (intro that [of "c1\<lparr>co_waiting := mm_insert msk ctx (co_waiting c1)\<rparr>"])
      (auto simp: co_add_waiter_def co_inv_def frame_simps)
next
  case False
  with assms show thesis
    by (intro that [of "c\<lparr>co_waiting := mm_insert msk ctx (co_waiting c)\<rparr>"])
      (auto simp: co_add_waiter_def co_inv_def frame_simps)
qed

lemma take_waiting_ok:
  assumes "co_inv c"
  obtains c' where
    "co_take_waiting last_put put_hook msk ls c =
       Some (ls @ map snd (filter (\<lambda>p. fst p AND msk \<noteq> 0) (co_waiting c)), c')"
    "co_inv c'" "co_waiting c' = filter (\<lambda>p. fst p AND msk = 0) (co_waiting c)"
    "co_replica_map c' = co_replica_map c" "co_state c' = co_state c"
proof -
  let ?rest = "filter (\<lambda>p. fst p AND msk = 0) (co_waiting c)"
  let ?c1 = "c\<lparr>co_waiting := ?rest\<rparr>"
  have so: "sorted (map fst ?rest)" using assms by (simp add: co_inv_def sorted_map_filter)
  consider "co_waiting c = []" | "co_waiting c \<noteq> []" "?rest = []" | "co_waiting c \<noteq> []" "?rest \<noteq> []"
    by blast
  then show thesis
  proof cases
    case 1
    with assms show thesis by (intro that [of c]) (auto simp: co_take_waiting_def)
  next
    case 2
    have "co_wf ?c1" "0 < pins ?c1 PIN_WAITER" using assms 2 by (simp_all add: co_inv_def frame_simps)
    then obtain c2 where "co_put last_put put_hook PIN_WAITER ?c1 = Some c2" "co_wf c2"
      "pins c2 = (pins ?c1)(PIN_WAITER := pins ?c1 PIN_WAITER - 1)" "co_state c2 = co_state ?c1"
      "co_replica_map c2 = co_replica_map ?c1" "co_waiting c2 = co_waiting ?c1"
      by (rule co_put_ok)
    with 2 assms show thesis
      by (intro that [of c2])
        (simp_all add: co_take_waiting_def take_loop_eq Let_def co_inv_def frame_simps)
  next
    case 3
    with assms so show thesis
      by (intro that [of ?c1])
        (simp_all add: co_take_waiting_def take_loop_eq Let_def co_inv_def frame_simps)
  qed
qed

end

section \<open>Runs of a plain cache object\<close>

interpretation base_co: co_hooks "\<lambda>c :: mdsco. c" "\<lambda>c. c" "\<lambda>c. c"
  by unfold_locales simp_all

datatype co_op =
    CoGet int
  | CoPut int
  | CoAddReplica mds_rank_t
  | CoAddReplicaNonce mds_rank_t u32
  | CoRemoveReplica mds_rank_t
  | CoClearReplicas
  | CoAddWaiter u64 context_t
  | CoTakeWaiting u64

primrec co_step :: "co_op \<Rightarrow> mdsco \<Rightarrow> mdsco option" where
  "co_step (CoGet by) c = co_get (\<lambda>c. c) by c"
| "co_step (CoPut by) c = co_put (\<lambda>c. c) (\<lambda>c. c) by c"
| "co_step (CoAddReplica m) c = map_option snd (add_replica (\<lambda>c. c) m c)"
| "co_step (CoAddReplicaNonce m n) c = add_replica_nonce (\<lambda>c. c) m n c"
| "co_step (CoRemoveReplica m) c = remove_replica (\<lambda>c. c) (\<lambda>c. c) m c"
| "co_step CoClearReplicas c = clear_replica_map (\<lambda>c. c) (\<lambda>c. c) c"
| "co_step (CoAddWaiter m x) c = co_add_waiter (\<lambda>c. c) m x c"
| "co_step (CoTakeWaiting m) c = map_option snd (co_take_waiting (\<lambda>c. c) (\<lambda>c. c) m [] c)"

text \<open>
  The discipline of the callers: a pin is dropped only while it is held, the two pins the
  object manages itself are not touched from outside, and only a known replica is removed.
\<close>

definition co_legal :: "co_op \<Rightarrow> mdsco \<Rightarrow> bool" where
  "co_legal opn c = (case opn of
       CoGet by \<Rightarrow> by \<noteq> PIN_REPLICATED \<and> by \<noteq> PIN_WAITER
     | CoPut by \<Rightarrow> by \<noteq> PIN_REPLICATED \<and> by \<noteq> PIN_WAITER \<and> pins c by > 0
     | CoRemoveReplica m \<Rightarrow> is_replica m c
     | _ \<Rightarrow> True)"

inductive co_reach :: "mdsco \<Rightarrow> bool" where
  co_start: "co_reach mdsco_new"
| co_next: "co_reach c \<Longrightarrow> co_legal opn c \<Longrightarrow> co_step opn c = Some c' \<Longrightarrow> co_reach c'"

inductive_cases co_reachE: "co_reach c"

lemma co_inv_new: "co_inv mdsco_new"
  by (simp add: co_inv_def co_wf_def mdsco_new_def pins_def om_get_def get_pin_totals_def)

lemma co_step_legal:
  assumes "co_inv c" "co_legal opn c"
  shows "\<exists>c'. co_step opn c = Some c' \<and> co_inv c'"
proof (cases opn)
  case (CoGet b)
  obtain c' where "co_get (\<lambda>c. c) b c = Some c'" "co_wf c'" "pins c' = (pins c)(b := pins c b + 1)"
    "co_replica_map c' = co_replica_map c" "co_waiting c' = co_waiting c"
    by (rule base_co.co_get_ok [OF co_inv_wf [OF assms(1)], of b])
  with CoGet assms show ?thesis by (auto simp: co_inv_def co_legal_def)
next
  case (CoPut b)
  with assms(2) have "0 < pins c b" by (simp add: co_legal_def)
  then obtain c' where "co_put (\<lambda>c. c) (\<lambda>c. c) b c = Some c'" "co_wf c'"
    "pins c' = (pins c)(b := pins c b - 1)"
    "co_replica_map c' = co_replica_map c" "co_waiting c' = co_waiting c"
    by (rule base_co.co_put_ok [OF co_inv_wf [OF assms(1)]])
  with CoPut assms show ?thesis by (auto simp: co_inv_def co_legal_def)
next
  case (CoAddReplica m)
  then show ?thesis by (auto intro: base_co.add_replica_ok [OF assms(1), of m])
next
  case (CoAddReplicaNonce m n)
  then show ?thesis by (auto intro: base_co.add_replica_nonce_ok [OF assms(1), of m n])
next
  case (CoRemoveReplica m)
  with assms(2) have "map_of (co_replica_map c) m \<noteq> None" by (simp add: co_legal_def is_replica_def)
  with CoRemoveReplica show ?thesis by (auto intro: base_co.remove_replica_ok [OF assms(1)])
next
  case CoClearReplicas
  then show ?thesis by (auto intro: base_co.clear_replica_map_ok [OF assms(1)])
next
  case (CoAddWaiter m x)
  then show ?thesis by (auto intro: base_co.add_waiter_ok [OF assms(1), of m x])
next
  case (CoTakeWaiting m)
  then show ?thesis by (auto intro: base_co.take_waiting_ok [OF assms(1), of m "[]"])
qed

lemma co_reach_inv: "co_reach c \<Longrightarrow> co_inv c"
proof (induction rule: co_reach.induct)
  case (co_next c opn c')
  then show ?case using co_step_legal [of c opn] by auto
qed (rule co_inv_new)

section \<open>Single-bit waiter queries\<close>

lemma and_pow2_eq_0: "(k :: u64) AND 2 ^ i = 0 \<longleftrightarrow> \<not> bit k i"
proof
  assume "k AND 2 ^ i = 0"
  then have "bit (k AND 2 ^ i) i = bit (0 :: u64) i" by simp
  then show "\<not> bit k i" by (auto simp: bit_and_iff bit_exp_iff dest: bit_imp_le_length)
next
  assume "\<not> bit k i"
  then show "k AND 2 ^ i = 0" by (auto intro!: bit_word_eqI simp: bit_and_iff bit_exp_iff)
qed

lemma pow2_and_pred: "i < 64 \<Longrightarrow> (2 ^ i :: u64) AND (2 ^ i - 1) = 0"
  by (auto intro!: bit_word_eqI simp: bit_and_iff bit_exp_iff bit_mask_iff simp flip: mask_eq_exp_minus_1)

lemma pow2_inject: "i < 64 \<Longrightarrow> j < 64 \<Longrightarrow> (2 ^ i :: u64) = 2 ^ j \<longleftrightarrow> i = j"
proof
  assume "i < 64" "j < 64" "(2 ^ i :: u64) = 2 ^ j"
  then have "bit (2 ^ i :: u64) i = bit (2 ^ j :: u64) i" by simp
  with \<open>i < 64\<close> show "i = j" by (simp add: bit_exp_iff)
qed simp

lemma clear_low_bits_single: "i < 64 \<Longrightarrow> clear_low_bits (2 ^ i) = 2 ^ i"
  by (subst clear_low_bits.simps) (simp add: pow2_and_pred)

lemma waiter_scan_single:
  assumes "\<forall>p\<in>set ws. \<exists>j<64. fst p = (2 ^ j :: u64)" "i < 64"
    and "\<forall>p\<in>set ws. 2 ^ i \<le> fst p"
  shows "waiter_scan (2 ^ i) ws \<longleftrightarrow> (ws \<noteq> [] \<and> fst (hd ws) = 2 ^ i)"
proof (cases ws)
  case (Cons p ps)
  with assms(1) obtain j where j: "j < 64" "fst p = 2 ^ j" by auto
  have "fst p AND 2 ^ i \<noteq> 0 \<longleftrightarrow> j = i"
    using j assms(2) by (auto simp: and_pow2_eq_0 bit_exp_iff)
  moreover have "j \<noteq> i \<Longrightarrow> 2 ^ i < fst p"
    using assms(2,3) Cons j pow2_inject [of i j] by (auto simp: order_less_le)
  ultimately show ?thesis using Cons j by auto
qed simp

lemma sorted_head_eq:
  "sorted (map fst m) \<Longrightarrow> (\<exists>p\<in>set m. fst p = k) \<longleftrightarrow>
     (om_lower_bound k m \<noteq> [] \<and> fst (hd (om_lower_bound k m)) = k)"
proof (induction m)
  case (Cons p m)
  then show ?case by (cases "fst p < k") (auto simp: om_lower_bound_def)
qed (simp add: om_lower_bound_def)

section \<open>Properties\<close>

lemmas co_eval = mdsco_new_def co_get_def co_put_def add_replica_def co_add_waiter_def
  co_take_waiting_def get_pin_totals_def om_get_def mm_insert_def pins_def co_pin_defs Let_def

text \<open>An object with a replica on rank 3 and a waiter on bit 0, built by two operations.\<close>

definition co_example :: mdsco where
  "co_example = \<lparr>co_state = 0, co_ref = 2, co_ref_map = [(1000, 1), (1004, 1)],
     co_replica_nonce = 0, co_replica_map = [(3, 1)], co_waiting = [(1, 7)]\<rparr>"

lemma co_example_reach: "co_reach co_example"
proof (rule co_next)
  show "co_reach \<lparr>co_state = 0, co_ref = 1, co_ref_map = [(1000, 1)], co_replica_nonce = 0,
      co_replica_map = [(3, 1)], co_waiting = []\<rparr>"
    by (rule co_next [OF co_start, of "CoAddReplica 3"]) (simp_all add: co_legal_def co_eval)
  show "co_step (CoAddWaiter 1 7) \<lparr>co_state = 0, co_ref = 1, co_ref_map = [(1000, 1)],
      co_replica_nonce = 0, co_replica_map = [(3, 1)], co_waiting = []\<rparr> = Some co_example"
    by (simp add: co_example_def co_eval)
qed (simp add: co_legal_def)

text \<open>C6: in every state a cache object reaches, the reference count is the sum of the
  per-reason pins, it is pinned once as replicated exactly while its replica map is
  non-empty, and once for waiters exactly while a context waits on it.\<close>

theorem co_reach_pins:
  assumes "co_reach c"
  shows "co_ref c = get_pin_totals c \<and>
    get_num_ref PIN_REPLICATED c = (if is_replicated c then 1 else 0) \<and>
    get_num_ref PIN_WAITER c = (if co_waiting c \<noteq> [] then 1 else 0)"
proof -
  have "get_num_ref PIN_REPLICATED c = pins c PIN_REPLICATED" "get_num_ref PIN_WAITER c = pins c PIN_WAITER"
    by (simp_all add: get_num_ref_def pins_def om_get_def co_pin_defs)
  then show ?thesis
    using co_reach_inv [OF assms] by (simp add: co_inv_def co_wf_def is_replicated_def)
qed

theorem co_reach_pins_witness:
  "co_reach co_example \<and> co_ref co_example = get_pin_totals co_example \<and>
   get_num_ref PIN_REPLICATED co_example = 1 \<and> get_num_ref PIN_WAITER co_example = 1"
  using co_reach_pins [OF co_example_reach] co_example_reach
  by (simp add: is_replicated_def co_example_def)

text \<open>No reachable cache object aborts on a legal operation, and the operation leads
  to a reachable object again.\<close>

lemma co_no_abort:
  assumes "co_reach c" "co_legal opn c"
  shows "\<exists>c'. co_step opn c = Some c' \<and> co_reach c'"
  using co_step_legal [OF co_reach_inv [OF assms(1)] assms(2)] co_next [OF assms] by blast

lemma co_no_abort_witness:
  "co_reach co_example \<and> co_legal (CoRemoveReplica 3) co_example \<and>
   (\<exists>c'. co_step (CoRemoveReplica 3) co_example = Some c' \<and> co_reach c')"
proof -
  have l: "co_legal (CoRemoveReplica 3) co_example"
    by (simp add: co_legal_def is_replica_def co_example_def)
  from co_no_abort [OF co_example_reach l] show ?thesis using l co_example_reach by simp
qed

text \<open>Dropping a pin that is not held aborts, whatever the state of the object.\<close>

lemma put_unheld_aborts:
  assumes "co_reach c" "get_num_ref by c = 0" "0 \<le> by"
  shows "co_step (CoPut by) c = None"
proof -
  have "pins c by = 0" using assms(2,3) by (simp add: get_num_ref_def pins_def om_get_def)
  then show ?thesis
    using base_co.co_put_unpinned [OF co_inv_wf [OF co_reach_inv [OF assms(1)]]] by simp
qed

lemma put_unheld_aborts_witness:
  "co_reach co_example \<and> get_num_ref PIN_DIRTY co_example = 0 \<and> co_step (CoPut PIN_DIRTY) co_example = None"
proof -
  have h: "get_num_ref PIN_DIRTY co_example = 0" "0 \<le> PIN_DIRTY"
    by (simp_all add: get_num_ref_def co_example_def co_pin_defs)
  show ?thesis using put_unheld_aborts [OF co_example_reach h] h co_example_reach by simp
qed

text \<open>\<^verbatim>\<open>take_waiting\<close> hands over exactly the contexts whose tag meets the mask, in tag
  order behind what the list already holds, keeps all others, and never aborts.\<close>

lemma take_waiting_exact:
  assumes "co_reach c"
  shows "\<exists>c'. co_take_waiting (\<lambda>c. c) (\<lambda>c. c) msk ls c =
      Some (ls @ map snd (filter (\<lambda>p. fst p AND msk \<noteq> 0) (co_waiting c)), c') \<and>
    co_waiting c' = filter (\<lambda>p. fst p AND msk = 0) (co_waiting c) \<and>
    co_replica_map c' = co_replica_map c \<and> co_state c' = co_state c"
  by (rule base_co.take_waiting_ok [OF co_reach_inv [OF assms], of msk ls]) blast

lemma take_waiting_exact_witness:
  "co_reach co_example \<and>
   (\<exists>c'. co_take_waiting (\<lambda>c. c) (\<lambda>c. c) 3 [5] co_example = Some ([5, 7], c') \<and> co_waiting c' = [])"
  using take_waiting_exact [OF co_example_reach, of 3 "[5]"] co_example_reach
  by (simp add: co_example_def) blast

text \<open>Where every waiter waits on one bit and one bit is asked for, \<^verbatim>\<open>is_waiter_for\<close>
  answers whether some waiter's tag meets the mask.\<close>

lemma is_waiter_for_single_bit:
  assumes "co_reach c" "\<forall>p\<in>set (co_waiting c). \<exists>j<64. fst p = (2 ^ j :: u64)" "i < 64"
  shows "is_waiter_for (2 ^ i) 0 c \<longleftrightarrow> (\<exists>p\<in>set (co_waiting c). fst p AND 2 ^ i \<noteq> 0)"
proof -
  let ?lb = "om_lower_bound (2 ^ i) (co_waiting c)"
  have so: "sorted (map fst (co_waiting c))" using co_reach_inv [OF assms(1)] by (simp add: co_inv_def)
  have lb: "\<forall>p\<in>set ?lb. 2 ^ i \<le> fst p" "\<forall>p\<in>set ?lb. \<exists>j<64. fst p = (2 ^ j :: u64)"
    using assms(2) by (auto simp: om_lower_bound_filter [OF so])
  have meet: "(\<exists>p\<in>set (co_waiting c). fst p AND 2 ^ i \<noteq> 0) \<longleftrightarrow> (\<exists>p\<in>set (co_waiting c). fst p = 2 ^ i)"
  proof -
    have "fst p AND 2 ^ i \<noteq> 0 \<longleftrightarrow> fst p = 2 ^ i" if "p \<in> set (co_waiting c)" for p
    proof -
      from assms(2) that obtain j where "j < 64" "fst p = 2 ^ j" by blast
      with assms(3) show ?thesis by (auto simp: and_pow2_eq_0 bit_exp_iff pow2_inject)
    qed
    then show ?thesis by blast
  qed
  show ?thesis
    using waiter_scan_single [OF lb(2) assms(3) lb(1)] sorted_head_eq [OF so] meet
    by (simp add: is_waiter_for_def clear_low_bits_single assms(3))
qed

lemma is_waiter_for_single_bit_witness:
  "co_reach co_example \<and> is_waiter_for (2 ^ 0) 0 co_example"
proof -
  have h: "\<forall>p\<in>set (co_waiting co_example). \<exists>j<64. fst p = (2 ^ j :: u64)"
    by (auto simp: co_example_def intro: exI [of _ 0])
  show ?thesis
    using is_waiter_for_single_bit [OF co_example_reach h, of 0] co_example_reach
    by (simp add: co_example_def)
qed

text \<open>Asked for two bits at once, \<^verbatim>\<open>is_waiter_for\<close> misses a waiter: the loop that should
  find the lowest tag worth looking at keeps the highest bit of the mask, so a waiter on a
  lower bit of the mask is skipped, although \<^verbatim>\<open>take_waiting\<close> with the same mask takes it.\<close>

lemma is_waiter_for_misses_low_bit:
  "co_reach co_example \<and> \<not> is_waiter_for 3 0 co_example \<and>
   map_option fst (co_take_waiting (\<lambda>c. c) (\<lambda>c. c) 3 [] co_example) = Some [7]"
proof -
  have "clear_low_bits 3 = 2"
    by (subst clear_low_bits.simps, simp) (subst clear_low_bits.simps, simp)
  then show ?thesis using co_example_reach
    by (simp add: is_waiter_for_def om_lower_bound_def co_example_def co_eval)
qed

text \<open>Granting a replica returns nonce 1 to a rank that holds none and the next nonce to
  one that does, the new nonce is what \<^verbatim>\<open>get_replica_nonce\<close> reports, and no other rank's
  nonce changes.\<close>

lemma add_replica_nonces:
  assumes "co_reach c"
  shows "\<exists>n c'. add_replica (\<lambda>c. c) mds c = Some (n, c') \<and>
    n = (case get_replica_nonce mds c of None \<Rightarrow> 1 | Some k \<Rightarrow> k + 1) \<and>
    get_replica_nonce mds c' = Some n \<and>
    (\<forall>m. m \<noteq> mds \<longrightarrow> get_replica_nonce m c' = get_replica_nonce m c)"
  by (rule base_co.add_replica_ok [OF co_reach_inv [OF assms], of mds])
    (auto simp: get_replica_nonce_def)

lemma add_replica_nonces_witness:
  "co_reach co_example \<and> (\<exists>c'. add_replica (\<lambda>c. c) 3 co_example = Some (2, c'))"
  using add_replica_nonces [OF co_example_reach, of 3] co_example_reach
  by (auto simp: get_replica_nonce_def co_example_def)

end
