(* ===== verification/Ino_Layout.thy ===== *)
theory Ino_Layout
  imports Mds_Prelude
begin

text \<open>
  The layout of the reserved inode numbers (the macros at the head of
  \<^verbatim>\<open>src/src/mds/mdstypes.h\<close>): each rank owns one system directory, \<^verbatim>\<open>NUM_STRAY\<close> stray
  directories and three journal inodes. The macros that build an inode number compute in
  32-bit unsigned arithmetic; the ones that test a number compare it as it is.
\<close>

definition MAX_MDS :: u32 where "MAX_MDS = 0x100"
definition NUM_STRAY :: u32 where "NUM_STRAY = 10"
definition MDS_INO_ROOT :: u32 where "MDS_INO_ROOT = 1"
definition MDS_INO_CEPH :: u32 where "MDS_INO_CEPH = 2"
definition MDS_INO_MDSDIR_OFFSET :: u32 where "MDS_INO_MDSDIR_OFFSET = 1 * MAX_MDS"
definition MDS_INO_STRAY_OFFSET :: u32 where "MDS_INO_STRAY_OFFSET = 6 * MAX_MDS"
definition MDS_INO_LOG_OFFSET :: u32 where "MDS_INO_LOG_OFFSET = 2 * MAX_MDS"
definition MDS_INO_LOG_BACKUP_OFFSET :: u32 where "MDS_INO_LOG_BACKUP_OFFSET = 3 * MAX_MDS"
definition MDS_INO_LOG_POINTER_OFFSET :: u32 where "MDS_INO_LOG_POINTER_OFFSET = 4 * MAX_MDS"
definition MDS_INO_SYSTEM_BASE :: u32 where
  "MDS_INO_SYSTEM_BASE = 6 * MAX_MDS + MAX_MDS * NUM_STRAY"

definition MDS_INO_STRAY :: "u32 \<Rightarrow> u32 \<Rightarrow> u32" where
  "MDS_INO_STRAY x i = MDS_INO_STRAY_OFFSET + (x * NUM_STRAY + i)"

definition MDS_INO_MDSDIR :: "u32 \<Rightarrow> u32" where
  "MDS_INO_MDSDIR x = MDS_INO_MDSDIR_OFFSET + x"

definition MDS_INO_IS_STRAY :: "inodeno_t \<Rightarrow> bool" where
  "MDS_INO_IS_STRAY i \<longleftrightarrow>
     i \<ge> ucast MDS_INO_STRAY_OFFSET \<and> i < ucast (MDS_INO_STRAY_OFFSET + MAX_MDS * NUM_STRAY)"

definition MDS_INO_IS_MDSDIR :: "inodeno_t \<Rightarrow> bool" where
  "MDS_INO_IS_MDSDIR i \<longleftrightarrow>
     i \<ge> ucast MDS_INO_MDSDIR_OFFSET \<and> i < ucast (MDS_INO_MDSDIR_OFFSET + MAX_MDS)"

definition MDS_INO_IS_BASE :: "inodeno_t \<Rightarrow> bool" where
  "MDS_INO_IS_BASE i \<longleftrightarrow> ucast MDS_INO_ROOT = i \<or> MDS_INO_IS_MDSDIR i"

definition MDS_INO_STRAY_OWNER :: "inodeno_t \<Rightarrow> int" where
  "MDS_INO_STRAY_OWNER i = sint ((ucast i - MDS_INO_STRAY_OFFSET) div NUM_STRAY)"

definition MDS_INO_STRAY_INDEX :: "inodeno_t \<Rightarrow> u32" where
  "MDS_INO_STRAY_INDEX i = (ucast i - MDS_INO_STRAY_OFFSET) mod NUM_STRAY"

lemmas ino_consts = MAX_MDS_def NUM_STRAY_def MDS_INO_ROOT_def MDS_INO_CEPH_def
  MDS_INO_MDSDIR_OFFSET_def MDS_INO_STRAY_OFFSET_def MDS_INO_LOG_OFFSET_def
  MDS_INO_LOG_BACKUP_OFFSET_def MDS_INO_LOG_POINTER_OFFSET_def MDS_INO_SYSTEM_BASE_def

section \<open>Lemmas\<close>

lemma ucast32_64_unat: "unat (ucast (w :: u32) :: u64) = unat w"
  using unsigned_less [of w, where 'a = nat]
  by (simp add: unsigned_ucast_eq take_bit_nat_eq_self)

lemma ucast32_64_id: "ucast (ucast (w :: u32) :: u64) = w"
  by (simp add: ucast_up_ucast_id is_up)

lemma stray_unat:
  assumes "x < MAX_MDS" "i < NUM_STRAY"
  shows "unat (x * NUM_STRAY + i) = unat x * 10 + unat i"
    and "unat (MDS_INO_STRAY x i) = 1536 + (unat x * 10 + unat i)"
proof -
  from assms have b: "unat x < 256" "unat i < 10"
    by (simp_all add: ino_consts word_less_nat_alt)
  show s: "unat (x * NUM_STRAY + i) = unat x * 10 + unat i"
    using b by (simp add: ino_consts unat_word_ariths)
  show "unat (MDS_INO_STRAY x i) = 1536 + (unat x * 10 + unat i)"
    using b by (simp add: MDS_INO_STRAY_def ino_consts unat_word_ariths)
qed

section \<open>Properties\<close>

text \<open>The stray inode numbers of a rank below the cluster maximum decode to the rank
  and the stray index they were built from, are recognised as stray, are not a system
  directory, and lie below the first number free for files.\<close>

lemma stray_ino_roundtrip:
  assumes "x < MAX_MDS" "i < NUM_STRAY"
  shows "MDS_INO_STRAY_OWNER (ucast (MDS_INO_STRAY x i)) = int (unat x) \<and>
    MDS_INO_STRAY_INDEX (ucast (MDS_INO_STRAY x i)) = i \<and>
    MDS_INO_IS_STRAY (ucast (MDS_INO_STRAY x i)) \<and>
    \<not> MDS_INO_IS_BASE (ucast (MDS_INO_STRAY x i)) \<and>
    MDS_INO_STRAY x i < MDS_INO_SYSTEM_BASE"
proof -
  from assms have b: "unat x < 256" "unat i < 10"
    by (simp_all add: ino_consts word_less_nat_alt)
  have off: "MDS_INO_STRAY x i - MDS_INO_STRAY_OFFSET = x * NUM_STRAY + i"
    by (simp add: MDS_INO_STRAY_def)
  have q: "unat ((x * NUM_STRAY + i) div NUM_STRAY) = unat x" "unat ((x * NUM_STRAY + i) mod NUM_STRAY) = unat i"
    using b by (simp_all add: unat_div unat_mod stray_unat [OF assms]) (simp_all add: ino_consts)
  have "(x * NUM_STRAY + i) div NUM_STRAY = x" "(x * NUM_STRAY + i) mod NUM_STRAY = i"
    using q by (simp_all add: word_unat_eq_iff)
  moreover have "sint x = int (unat x)"
  proof -
    have u: "uint x = int (unat x)" by (rule uint_nat)
    with b(1) have "uint x < 256" by linarith
    then have "signed_take_bit (LENGTH(32) - Suc 0) (uint x) = uint x"
      by (intro signed_take_bit_int_eq_self order_trans [OF _ uint_ge_0]) simp_all
    then show ?thesis by (simp only: sint_uint u)
  qed
  moreover have "unat (ucast (MDS_INO_STRAY x i) :: u64) = 1536 + (unat x * 10 + unat i)"
    using stray_unat(2) [OF assms] ucast32_64_unat by simp
  ultimately have dec: "MDS_INO_STRAY_OWNER (ucast (MDS_INO_STRAY x i)) = int (unat x)"
    "MDS_INO_STRAY_INDEX (ucast (MDS_INO_STRAY x i)) = i"
    and u64: "unat (ucast (MDS_INO_STRAY x i) :: u64) = 1536 + (unat x * 10 + unat i)"
    by (simp_all add: MDS_INO_STRAY_OWNER_def MDS_INO_STRAY_INDEX_def off ucast32_64_id)
  show ?thesis
    using b stray_unat(2) [OF assms] u64
    by (simp add: dec MDS_INO_IS_STRAY_def MDS_INO_IS_BASE_def MDS_INO_IS_MDSDIR_def
        word_less_nat_alt word_le_nat_alt word_unat_eq_iff ino_consts)
qed

lemma stray_ino_roundtrip_witness:
  "(3 :: u32) < MAX_MDS \<and> (7 :: u32) < NUM_STRAY \<and>
   MDS_INO_STRAY_OWNER (ucast (MDS_INO_STRAY 3 7)) = 3"
proof -
  have h: "(3 :: u32) < MAX_MDS" "(7 :: u32) < NUM_STRAY" by (simp_all add: ino_consts)
  show ?thesis using h stray_ino_roundtrip [OF h] by simp
qed

end
