(* ===== verification/Stat_Types.thy ===== *)
theory Stat_Types
  imports Ordered_Containers
begin

text \<open>
  The accounting records of \<^verbatim>\<open>src/src/mds/mdstypes.h\<close>: \<^verbatim>\<open>frag_info_t\<close> (what a directory
  fragment holds), \<^verbatim>\<open>nest_info_t\<close> (what the tree below it holds), quotas, the byte ranges
  clients may write, the inode with its truncation and size bookkeeping, and the fragment
  node \<^verbatim>\<open>fnode_t\<close>. The two layout structs are declared outside the sources; they are the
  raw bytes the code treats them as, and the two members of the file layout that are read
  are accessor arguments.
\<close>

section \<open>Fragment and nested statistics\<close>

record scatter_info_t =
  si_version :: version_t

record frag_info_t = scatter_info_t +
  fi_mtime :: utime_t
  nfiles :: int
  nsubdirs :: int

record nest_info_t = scatter_info_t +
  rctime :: utime_t
  rbytes :: int
  rfiles :: int
  rsubdirs :: int
  rsnaprealms :: int

definition frag_info_zero :: frag_info_t where
  "frag_info_zero = \<lparr>si_version = 0, fi_mtime = 0, nfiles = 0, nsubdirs = 0\<rparr>"

definition frag_info_size :: "frag_info_t \<Rightarrow> int" where
  "frag_info_size f = nfiles f + nsubdirs f"

text \<open>\<^verbatim>\<open>touched_mtime\<close> is passed by reference: its value is the second component.\<close>

definition frag_info_add_delta :: "frag_info_t \<Rightarrow> frag_info_t \<Rightarrow> frag_info_t \<Rightarrow> bool \<Rightarrow> frag_info_t \<times> bool" where
  "frag_info_add_delta f cur acc touched_mtime =
     (let (f1, t1) = (if fi_mtime cur \<noteq> fi_mtime acc then (f\<lparr>fi_mtime := fi_mtime cur\<rparr>, True)
                      else (f, touched_mtime))
      in (f1\<lparr>nfiles := nfiles f1 + (nfiles cur - nfiles acc),
             nsubdirs := nsubdirs f1 + (nsubdirs cur - nsubdirs acc)\<rparr>, t1))"

definition frag_info_add :: "frag_info_t \<Rightarrow> frag_info_t \<Rightarrow> frag_info_t" where
  "frag_info_add f other =
     (let f1 = (if fi_mtime other > fi_mtime f then f\<lparr>fi_mtime := fi_mtime other\<rparr> else f)
      in f1\<lparr>nfiles := nfiles f1 + nfiles other, nsubdirs := nsubdirs f1 + nsubdirs other\<rparr>)"

definition nest_info_zero :: nest_info_t where
  "nest_info_zero = \<lparr>si_version = 0, rctime = 0, rbytes = 0, rfiles = 0, rsubdirs = 0, rsnaprealms = 0\<rparr>"

definition rsize :: "nest_info_t \<Rightarrow> int" where
  "rsize n = rfiles n + rsubdirs n"

definition nest_info_add :: "nest_info_t \<Rightarrow> int \<Rightarrow> nest_info_t \<Rightarrow> nest_info_t" where
  "nest_info_add other fac n =
     (let n1 = (if rctime other > rctime n then n\<lparr>rctime := rctime other\<rparr> else n)
      in n1\<lparr>rbytes := rbytes n1 + fac * rbytes other,
            rfiles := rfiles n1 + fac * rfiles other,
            rsubdirs := rsubdirs n1 + fac * rsubdirs other,
            rsnaprealms := rsnaprealms n1 + fac * rsnaprealms other\<rparr>)"

definition nest_info_sub :: "nest_info_t \<Rightarrow> nest_info_t \<Rightarrow> nest_info_t" where
  "nest_info_sub other n = nest_info_add other (-1) n"

definition nest_info_add_delta :: "nest_info_t \<Rightarrow> nest_info_t \<Rightarrow> nest_info_t \<Rightarrow> nest_info_t" where
  "nest_info_add_delta cur acc n =
     (let n1 = (if rctime cur > rctime n then n\<lparr>rctime := rctime cur\<rparr> else n)
      in n1\<lparr>rbytes := rbytes n1 + (rbytes cur - rbytes acc),
            rfiles := rfiles n1 + (rfiles cur - rfiles acc),
            rsubdirs := rsubdirs n1 + (rsubdirs cur - rsubdirs acc),
            rsnaprealms := rsnaprealms n1 + (rsnaprealms cur - rsnaprealms acc)\<rparr>)"

definition same_sums :: "nest_info_t \<Rightarrow> nest_info_t \<Rightarrow> bool" where
  "same_sums n x \<longleftrightarrow> rctime n = rctime x \<and> rbytes n = rbytes x \<and> rfiles n = rfiles x \<and>
     rsubdirs n = rsubdirs x \<and> rsnaprealms n = rsnaprealms x"

lemmas stat_defs = frag_info_zero_def frag_info_size_def frag_info_add_delta_def
  frag_info_add_def nest_info_zero_def rsize_def nest_info_add_def nest_info_sub_def
  nest_info_add_delta_def same_sums_def Let_def

section \<open>Quotas and client ranges\<close>

record quota_info_t =
  max_bytes :: int
  max_files :: int

definition quota_is_valid :: "quota_info_t \<Rightarrow> bool" where
  "quota_is_valid q \<longleftrightarrow> max_bytes q \<ge> 0 \<and> max_files q \<ge> 0"

definition quota_is_enable :: "quota_info_t \<Rightarrow> bool" where
  "quota_is_enable q \<longleftrightarrow> max_bytes q \<noteq> 0 \<or> max_files q \<noteq> 0"

record byte_range_t =
  range_first :: u64
  range_last :: u64

record client_writeable_range_t =
  cwr_range :: byte_range_t
  cwr_follows :: snapid_t

section \<open>The inode\<close>

record inode_t =
  i_ino :: inodeno_t
  i_rdev :: u32
  i_ctime :: utime_t
  i_mode :: u32
  i_uid :: u32
  i_gid :: u32
  i_nlink :: int
  i_dir_layout :: "8 word list"
  i_layout :: "8 word list"
  i_old_pools :: "int list"
  i_size :: u64
  i_max_size_ever :: u64
  i_truncate_seq :: u32
  i_truncate_size :: u64
  i_truncate_from :: u64
  i_truncate_pending :: u32
  i_mtime :: utime_t
  i_atime :: utime_t
  i_time_warp_seq :: u32
  i_inline_data :: "8 word list"
  i_inline_version :: version_t
  i_client_ranges :: "(client_t \<times> client_writeable_range_t) list"
  i_dirstat :: frag_info_t
  i_rstat :: nest_info_t
  i_accounted_rstat :: nest_info_t
  i_quota :: quota_info_t
  i_version :: version_t
  i_file_data_version :: version_t
  i_xattr_version :: version_t
  i_backtrace_version :: version_t
  i_oldest_snap :: snapid_t

text \<open>The constructor; the sizes of the two layout structs are arguments.\<close>

definition inode_new :: "nat \<Rightarrow> nat \<Rightarrow> inode_t" where
  "inode_new sizeof_dir_layout sizeof_layout =
     \<lparr>i_ino = 0, i_rdev = 0, i_ctime = 0, i_mode = 0, i_uid = 0, i_gid = 0, i_nlink = 0,
      i_dir_layout = replicate sizeof_dir_layout 0, i_layout = replicate sizeof_layout 0,
      i_old_pools = [], i_size = 0, i_max_size_ever = 0, i_truncate_seq = 0,
      i_truncate_size = 0, i_truncate_from = 0, i_truncate_pending = 0, i_mtime = 0,
      i_atime = 0, i_time_warp_seq = 0, i_inline_data = [], i_inline_version = 1,
      i_client_ranges = [], i_dirstat = frag_info_zero, i_rstat = nest_info_zero,
      i_accounted_rstat = nest_info_zero, i_quota = \<lparr>max_bytes = 0, max_files = 0\<rparr>,
      i_version = 0, i_file_data_version = 0, i_xattr_version = 0, i_backtrace_version = 0,
      i_oldest_snap = 0\<rparr>"

definition S_IFMT :: u32 where "S_IFMT = 0xF000"
definition S_IFLNK :: u32 where "S_IFLNK = 0xA000"
definition S_IFREG :: u32 where "S_IFREG = 0x8000"
definition S_IFDIR :: u32 where "S_IFDIR = 0x4000"

definition is_symlink :: "inode_t \<Rightarrow> bool" where
  "is_symlink i \<longleftrightarrow> i_mode i AND S_IFMT = S_IFLNK"

definition is_dir :: "inode_t \<Rightarrow> bool" where
  "is_dir i \<longleftrightarrow> i_mode i AND S_IFMT = S_IFDIR"

definition is_file :: "inode_t \<Rightarrow> bool" where
  "is_file i \<longleftrightarrow> i_mode i AND S_IFMT = S_IFREG"

definition is_truncating :: "inode_t \<Rightarrow> bool" where
  "is_truncating i \<longleftrightarrow> i_truncate_pending i > 0"

definition truncate_inode :: "u64 \<Rightarrow> u64 \<Rightarrow> inode_t \<Rightarrow> inode_t option" where
  "truncate_inode old_size new_size i =
     do { assert_that (new_size < old_size);
          let i1 = (if old_size > i_max_size_ever i then i\<lparr>i_max_size_ever := old_size\<rparr> else i);
          let i2 = i1\<lparr>i_truncate_from := old_size, i_size := new_size,
                      i_rstat := (i_rstat i1)\<lparr>rbytes := sint new_size\<rparr>\<rparr>;
          Some (i2\<lparr>i_truncate_size := i_size i2, i_truncate_seq := i_truncate_seq i2 + 1,
                   i_truncate_pending := i_truncate_pending i2 + 1\<rparr>) }"

fun any_nonzero :: "8 word list \<Rightarrow> bool" where
  "any_nonzero [] = False"
| "any_nonzero (b # bs) = (if b \<noteq> 0 then True else any_nonzero bs)"

definition has_layout :: "inode_t \<Rightarrow> bool" where
  "has_layout i = any_nonzero (i_layout i)"

definition clear_layout :: "inode_t \<Rightarrow> inode_t" where
  "clear_layout i = i\<lparr>i_layout := replicate (length (i_layout i)) 0\<rparr>"

definition get_layout_size_increment :: "(8 word list \<Rightarrow> u32) \<Rightarrow> (8 word list \<Rightarrow> u32) \<Rightarrow> inode_t \<Rightarrow> u64" where
  "get_layout_size_increment fl_object_size fl_stripe_count i =
     ucast (fl_object_size (i_layout i)) * ucast (fl_stripe_count (i_layout i))"

definition is_dirty_rstat :: "inode_t \<Rightarrow> bool" where
  "is_dirty_rstat i \<longleftrightarrow> i_rstat i \<noteq> i_accounted_rstat i"

fun max_last :: "(client_t \<times> client_writeable_range_t) list \<Rightarrow> u64 \<Rightarrow> u64" where
  "max_last [] mx = mx"
| "max_last (p # ps) mx =
     max_last ps (if range_last (cwr_range (snd p)) > mx then range_last (cwr_range (snd p)) else mx)"

definition get_max_size :: "inode_t \<Rightarrow> u64" where
  "get_max_size i = max_last (i_client_ranges i) 0"

definition set_last :: "u64 \<Rightarrow> client_writeable_range_t \<Rightarrow> client_writeable_range_t" where
  "set_last new_max r = r\<lparr>cwr_range := (cwr_range r)\<lparr>range_last := new_max\<rparr>\<rparr>"

definition set_max_size :: "u64 \<Rightarrow> inode_t \<Rightarrow> inode_t" where
  "set_max_size new_max i =
     (if new_max = 0 then i\<lparr>i_client_ranges := []\<rparr>
      else i\<lparr>i_client_ranges := map (\<lambda>p. (fst p, set_last new_max (snd p))) (i_client_ranges i)\<rparr>)"

fun trim_ranges :: "snapid_t \<Rightarrow> (client_t \<times> client_writeable_range_t) list
    \<Rightarrow> (client_t \<times> client_writeable_range_t) list" where
  "trim_ranges lst [] = []"
| "trim_ranges lst (p # ps) =
     (if cwr_follows (snd p) \<ge> lst then trim_ranges lst ps else p # trim_ranges lst ps)"

definition trim_client_ranges :: "snapid_t \<Rightarrow> inode_t \<Rightarrow> inode_t" where
  "trim_client_ranges lst i = i\<lparr>i_client_ranges := trim_ranges lst (i_client_ranges i)\<rparr>"

definition is_backtrace_updated :: "inode_t \<Rightarrow> bool" where
  "is_backtrace_updated i \<longleftrightarrow> i_backtrace_version i = i_version i"

definition update_backtrace :: "version_t \<Rightarrow> inode_t \<Rightarrow> inode_t" where
  "update_backtrace pv i = i\<lparr>i_backtrace_version := (if pv \<noteq> 0 then pv else i_version i)\<rparr>"

definition add_old_pool :: "int \<Rightarrow> inode_t \<Rightarrow> inode_t" where
  "add_old_pool l i = i\<lparr>i_backtrace_version := i_version i, i_old_pools := i_old_pools i @ [l]\<rparr>"

section \<open>Fragment nodes\<close>

record fnode_t =
  fn_version :: version_t
  snap_purged_thru :: snapid_t
  fragstat :: frag_info_t
  accounted_fragstat :: frag_info_t
  fn_rstat :: nest_info_t
  fn_accounted_rstat :: nest_info_t

definition fnode_new :: fnode_t where
  "fnode_new = \<lparr>fn_version = 0, snap_purged_thru = 0, fragstat = frag_info_zero,
     accounted_fragstat = frag_info_zero, fn_rstat = nest_info_zero, fn_accounted_rstat = nest_info_zero\<rparr>"

record old_rstat_t =
  or_first :: snapid_t
  or_rstat :: nest_info_t
  or_accounted_rstat :: nest_info_t

section \<open>Lemmas\<close>

lemma frag_add_delta_fields:
  "nfiles (fst (frag_info_add_delta f cur acc t)) = nfiles f + (nfiles cur - nfiles acc)"
  "nsubdirs (fst (frag_info_add_delta f cur acc t)) = nsubdirs f + (nsubdirs cur - nsubdirs acc)"
  "snd (frag_info_add_delta f cur acc t) = (fi_mtime cur \<noteq> fi_mtime acc \<or> t)"
  "fi_mtime (fst (frag_info_add_delta f cur acc t)) = (if fi_mtime cur \<noteq> fi_mtime acc then fi_mtime cur else fi_mtime f)"
  by (simp_all add: stat_defs)

lemma frag_add_fields:
  "nfiles (frag_info_add f x) = nfiles f + nfiles x"
  "nsubdirs (frag_info_add f x) = nsubdirs f + nsubdirs x"
  "fi_mtime (frag_info_add f x) = max (fi_mtime f) (fi_mtime x)"
  by (simp_all add: stat_defs max_def)

lemma nest_add_fields:
  "rbytes (nest_info_add x k n) = rbytes n + k * rbytes x"
  "rfiles (nest_info_add x k n) = rfiles n + k * rfiles x"
  "rsubdirs (nest_info_add x k n) = rsubdirs n + k * rsubdirs x"
  "rsnaprealms (nest_info_add x k n) = rsnaprealms n + k * rsnaprealms x"
  "rctime (nest_info_add x k n) = max (rctime n) (rctime x)"
  by (simp_all add: stat_defs max_def)

lemma nest_add_delta_fields:
  "rbytes (nest_info_add_delta cur acc n) = rbytes n + (rbytes cur - rbytes acc)"
  "rfiles (nest_info_add_delta cur acc n) = rfiles n + (rfiles cur - rfiles acc)"
  "rsubdirs (nest_info_add_delta cur acc n) = rsubdirs n + (rsubdirs cur - rsubdirs acc)"
  "rsnaprealms (nest_info_add_delta cur acc n) = rsnaprealms n + (rsnaprealms cur - rsnaprealms acc)"
  "rctime (nest_info_add_delta cur acc n) = max (rctime n) (rctime cur)"
  by (simp_all add: stat_defs max_def)

lemmas stat_fields = frag_add_delta_fields frag_add_fields nest_add_fields nest_add_delta_fields

lemma max_last_ge: "mx \<le> max_last ps mx"
proof (induction ps arbitrary: mx)
  case (Cons p ps)
  then show ?case using Cons.IH [of "range_last (cwr_range (snd p))"]
    by (auto intro: order_trans less_imp_le)
qed simp

lemma max_last_bound: "p \<in> set ps \<Longrightarrow> range_last (cwr_range (snd p)) \<le> max_last ps mx"
proof (induction ps arbitrary: mx)
  case (Cons q ps)
  then show ?case
    by (auto intro: order_trans [OF _ max_last_ge] simp: not_less)
qed simp

lemma max_last_in: "max_last ps mx = mx \<or> (\<exists>p\<in>set ps. max_last ps mx = range_last (cwr_range (snd p)))"
proof (induction ps arbitrary: mx)
  case (Cons q ps)
  show ?case using Cons.IH [of "if range_last (cwr_range (snd q)) > mx then range_last (cwr_range (snd q)) else mx"]
    by (auto split: if_splits)
qed simp

lemma max_last_const:
  "\<forall>p\<in>set ps. range_last (cwr_range (snd p)) = m \<Longrightarrow> ps \<noteq> [] \<Longrightarrow> max_last ps 0 = m"
proof -
  assume a: "\<forall>p\<in>set ps. range_last (cwr_range (snd p)) = m" and ne: "ps \<noteq> []"
  from ne obtain p where "p \<in> set ps" by (cases ps) auto
  with a max_last_bound [of p ps 0] have "m \<le> max_last ps 0" by auto
  with a max_last_in [of ps 0] show ?thesis by auto
qed

lemma trim_ranges_filter: "trim_ranges lst ps = filter (\<lambda>p. cwr_follows (snd p) < lst) ps"
  by (induction ps) auto

lemma any_nonzero_iff: "any_nonzero bs \<longleftrightarrow> (\<exists>b\<in>set bs. b \<noteq> 0)"
  by (induction bs) auto

section \<open>Properties\<close>

text \<open>truncation to a size that is not smaller aborts; otherwise it records the two sizes,
  bumps the sequence number and the pending count once each, the high-water mark of the size
  never falls and covers the old size, and every range, quota and version is left alone.\<close>

lemma truncate_inode_effect:
  "(case truncate_inode old_size new_size i of
      None \<Rightarrow> old_size \<le> new_size
    | Some j \<Rightarrow> new_size < old_size \<and> i_size j = new_size \<and> i_truncate_size j = new_size \<and>
        i_truncate_from j = old_size \<and> i_max_size_ever j = max (i_max_size_ever i) old_size \<and>
        i_truncate_seq j = i_truncate_seq i + 1 \<and> i_truncate_pending j = i_truncate_pending i + 1 \<and>
        rbytes (i_rstat j) = sint new_size \<and> i_client_ranges j = i_client_ranges i \<and>
        i_quota j = i_quota i \<and> i_version j = i_version i)"
  by (simp add: truncate_inode_def bind_assert_if Let_def max_def not_less split: option.splits)
    (auto split: if_splits)

text \<open>\<^verbatim>\<open>get_max_size\<close> bounds every client's writeable range and is attained by one or is 0;
  setting a maximum is what reading it gives back, unless no client holds a range, and setting 0
  revokes every range; trimming at a snapshot keeps exactly the ranges not yet flushed through
  it and can only lower the maximum.\<close>

lemma client_ranges_max_size:
  "(\<forall>(c, r) \<in> set (i_client_ranges i). range_last (cwr_range r) \<le> get_max_size i) \<and>
   (get_max_size i = 0 \<or> (\<exists>(c, r) \<in> set (i_client_ranges i). range_last (cwr_range r) = get_max_size i)) \<and>
   get_max_size (set_max_size m i) = (if i_client_ranges i = [] then 0 else m) \<and>
   i_client_ranges (set_max_size 0 i) = [] \<and>
   set (i_client_ranges (trim_client_ranges lst i)) = {p \<in> set (i_client_ranges i). cwr_follows (snd p) < lst} \<and>
   get_max_size (trim_client_ranges lst i) \<le> get_max_size i"
proof (intro conjI)
  show "\<forall>(c, r) \<in> set (i_client_ranges i). range_last (cwr_range r) \<le> get_max_size i"
    using max_last_bound by (fastforce simp: get_max_size_def)
  show "get_max_size i = 0 \<or> (\<exists>(c, r) \<in> set (i_client_ranges i). range_last (cwr_range r) = get_max_size i)"
    using max_last_in [of "i_client_ranges i" 0] by (fastforce simp: get_max_size_def)
  show "get_max_size (set_max_size m i) = (if i_client_ranges i = [] then 0 else m)"
    using max_last_const [of "map (\<lambda>p. (fst p, set_last m (snd p))) (i_client_ranges i)" m]
    by (auto simp: get_max_size_def set_max_size_def set_last_def)
  show "i_client_ranges (set_max_size 0 i) = []" by (simp add: set_max_size_def)
  show "set (i_client_ranges (trim_client_ranges lst i)) = {p \<in> set (i_client_ranges i). cwr_follows (snd p) < lst}"
    by (simp add: trim_client_ranges_def trim_ranges_filter)
  show "get_max_size (trim_client_ranges lst i) \<le> get_max_size i"
    using max_last_in [of "trim_ranges lst (i_client_ranges i)" 0] max_last_bound [of _ "i_client_ranges i" 0]
    by (auto simp: get_max_size_def trim_client_ranges_def trim_ranges_filter)
qed

lemma client_ranges_max_size_witness:
  "get_max_size (set_max_size 4096 ((inode_new 4 48)\<lparr>i_client_ranges :=
      [(7, \<lparr>cwr_range = \<lparr>range_first = 0, range_last = 10\<rparr>, cwr_follows = 1\<rparr>)]\<rparr>)) = 4096"
  using client_ranges_max_size [where m = 4096 and i = "(inode_new 4 48)\<lparr>i_client_ranges :=
      [(7, \<lparr>cwr_range = \<lparr>range_first = 0, range_last = 10\<rparr>, cwr_follows = 1\<rparr>)]\<rparr>"]
  by simp

text \<open>Removing a subtree's recursive statistics after adding them restores every sum, and
  propagating the difference between a child's current and accounted statistics to a parent that
  held the accounted ones gives what the parent would hold with the current ones; the recursive
  change time only moves forward.\<close>

lemma nest_info_algebra:
  "same_sums (nest_info_sub x (nest_info_add x 1 n)) (n\<lparr>rctime := max (rctime n) (rctime x)\<rparr>) \<and>
   same_sums (nest_info_add_delta cur acc (nest_info_add acc 1 n))
     ((nest_info_add cur 1 n)\<lparr>rctime := max (max (rctime n) (rctime acc)) (rctime cur)\<rparr>) \<and>
   rctime n \<le> rctime (nest_info_add_delta cur acc n) \<and>
   rsize (nest_info_add x k n) = rsize n + k * rsize x"
  by (simp add: same_sums_def nest_info_sub_def stat_fields rsize_def algebra_simps)

end
