(* ===== verification/Dentry_Key.thy ===== *)
theory Dentry_Key
  imports Mds_Prelude
begin

text \<open>
  The identifiers of \<^verbatim>\<open>src/src/mds/mdstypes.h\<close>: the dentry key with its on-disk text form,
  the orders the cache's maps are keyed by (dentry keys, versioned inode numbers, request ids,
  directory fragments), the comparison of cache-object infos, and the printed capability sets.
  \<^verbatim>\<open>CEPH_NOSNAP\<close> and the capability constants are declared outside the sources and are
  arguments; \<^verbatim>\<open>frag_t\<close> and \<^verbatim>\<open>entity_name_t\<close> are type parameters with their orders.
\<close>

section \<open>Dentry keys\<close>

text \<open>The key's \<^verbatim>\<open>name\<close> is the C string it points to.\<close>

datatype dentry_key_t = DKey (dk_snapid: snapid_t) (dk_name: string)

text \<open>\<^verbatim>\<open>strcmp\<close> orders by unsigned character, as the order on \<open>string\<close> does.\<close>

definition strcmp :: "string \<Rightarrow> string \<Rightarrow> int" where
  "strcmp a b = (if a < b then -1 else if a = b then 0 else 1)"

definition dentry_key_less :: "dentry_key_t \<Rightarrow> dentry_key_t \<Rightarrow> bool" where
  "dentry_key_less k1 k2 \<longleftrightarrow> (let c = strcmp (dk_name k1) (dk_name k2)
     in c < 0 \<or> (c = 0 \<and> dk_snapid k1 < dk_snapid k2))"

instantiation dentry_key_t :: linorder
begin

definition less_dentry_key_t :: "dentry_key_t \<Rightarrow> dentry_key_t \<Rightarrow> bool" where
  "k1 < k2 \<longleftrightarrow> dentry_key_less k1 k2"

definition less_eq_dentry_key_t :: "dentry_key_t \<Rightarrow> dentry_key_t \<Rightarrow> bool" where
  "k1 \<le> k2 \<longleftrightarrow> k1 < k2 \<or> k1 = (k2 :: dentry_key_t)"

instance
proof
  fix x y z :: dentry_key_t
  show "(x < y) = (x \<le> y \<and> \<not> y \<le> x)"
    by (auto simp: less_eq_dentry_key_t_def less_dentry_key_t_def dentry_key_less_def strcmp_def Let_def)
  show "x \<le> x" by (simp add: less_eq_dentry_key_t_def)
  show "x \<le> y \<Longrightarrow> y \<le> z \<Longrightarrow> x \<le> z"
    by (auto simp: less_eq_dentry_key_t_def less_dentry_key_t_def dentry_key_less_def strcmp_def Let_def split: if_splits)
  show "x \<le> y \<Longrightarrow> y \<le> x \<Longrightarrow> x = y"
    by (auto simp: less_eq_dentry_key_t_def less_dentry_key_t_def dentry_key_less_def strcmp_def Let_def split: if_splits)
  show "x \<le> y \<or> y \<le> x"
    by (cases x; cases y)
      (auto simp: less_eq_dentry_key_t_def less_dentry_key_t_def dentry_key_less_def strcmp_def Let_def)
qed

end

lemma less_dentry_key_iff:
  "k1 < k2 \<longleftrightarrow> dk_name k1 < dk_name k2 \<or> dk_name k1 = dk_name k2 \<and> dk_snapid k1 < dk_snapid k2"
  by (auto simp: less_dentry_key_t_def dentry_key_less_def strcmp_def Let_def)

section \<open>The text form\<close>

text \<open>\<^verbatim>\<open>snprintf("%llx")\<close>: lower-case hexadecimal without leading zeros.\<close>

definition hex_digit :: "nat \<Rightarrow> char" where
  "hex_digit n = ''0123456789abcdef'' ! n"

fun hex_of_nat :: "nat \<Rightarrow> string" where
  "hex_of_nat n = (if n < 16 then [hex_digit n] else hex_of_nat (n div 16) @ [hex_digit (n mod 16)])"

declare hex_of_nat.simps [simp del]

text \<open>\<^verbatim>\<open>snprintf\<close> into a buffer of \<open>n\<close> bytes keeps \<open>n - 1\<close> characters.\<close>

definition snprintf_buf :: "nat \<Rightarrow> string \<Rightarrow> string" where
  "snprintf_buf n s = take (n - 1) s"

definition dentry_key_encode :: "snapid_t \<Rightarrow> dentry_key_t \<Rightarrow> string" where
  "dentry_key_encode nosnap k =
     (let b = (if dk_snapid k \<noteq> nosnap then snprintf_buf 20 (hex_of_nat (unat (dk_snapid k)))
               else snprintf_buf 20 ''head'')
      in dk_name k @ ''_'' @ b)"

text \<open>\<^verbatim>\<open>find_last_of\<close>: the position of the last occurrence; \<open>None\<close> is \<^verbatim>\<open>npos\<close>.\<close>

fun find_last_of :: "char \<Rightarrow> string \<Rightarrow> nat option" where
  "find_last_of c [] = None"
| "find_last_of c (x # xs) =
     (case find_last_of c xs of Some i \<Rightarrow> Some (Suc i) | None \<Rightarrow> if x = c then Some 0 else None)"

definition hex_val :: "char \<Rightarrow> nat option" where
  "hex_val c =
     (let n = of_char c :: nat
      in if 48 \<le> n \<and> n \<le> 57 then Some (n - 48)
         else if 97 \<le> n \<and> n \<le> 102 then Some (n - 87)
         else if 65 \<le> n \<and> n \<le> 70 then Some (n - 55)
         else None)"

definition is_space :: "char \<Rightarrow> bool" where
  "is_space c \<longleftrightarrow> (let n = of_char c :: nat in n = 32 \<or> (9 \<le> n \<and> n \<le> 13))"

fun hex_run :: "string \<Rightarrow> nat \<Rightarrow> nat" where
  "hex_run [] acc = acc"
| "hex_run (c # cs) acc = (case hex_val c of None \<Rightarrow> acc | Some d \<Rightarrow> hex_run cs (16 * acc + d))"

text \<open>
  \<^verbatim>\<open>sscanf(s, "%llx", &x)\<close> with \<open>x = 0\<close> before the call: white space, an optional sign, an
  optional \<open>0x\<close>, then digits; a value beyond 64 bits saturates, a minus sign negates, and
  without a digit \<open>x\<close> keeps its value.
\<close>

definition sscanf_llx :: "string \<Rightarrow> u64" where
  "sscanf_llx s0 =
     (let s = dropWhile is_space (c_str s0);
          neg = (s \<noteq> [] \<and> hd s = CHR ''-'');
          s1 = (if s \<noteq> [] \<and> (hd s = CHR ''-'' \<or> hd s = CHR ''+'') then tl s else s);
          s2 = (if length s1 \<ge> 2 \<and> hd s1 = CHR ''0'' \<and> (s1 ! 1 = CHR ''x'' \<or> s1 ! 1 = CHR ''X'')
                then drop 2 s1 else s1);
          v = hex_run s2 0
      in if v \<ge> 2 ^ 64 then - 1 else if neg then - of_nat v else of_nat v)"

definition dentry_key_decode :: "snapid_t \<Rightarrow> string \<Rightarrow> (string \<times> snapid_t) option" where
  "dentry_key_decode nosnap key =
     do { i \<leftarrow> find_last_of (CHR ''_'') key;
          let sn = (if drop (i + 1) key = ''head'' then nosnap else sscanf_llx (drop (i + 1) key));
          Some (take i key, sn) }"

section \<open>Lemmas on the text form\<close>

lemma hex_digit_cases:
  "n < 16 \<Longrightarrow> hex_val (hex_digit n) = Some n \<and> hex_digit n \<noteq> CHR ''_'' \<and> hex_digit n \<noteq> CHR ''h'' \<and>
     \<not> is_space (hex_digit n) \<and> hex_digit n \<noteq> CHR ''-'' \<and> hex_digit n \<noteq> CHR ''+'' \<and>
     hex_digit n \<noteq> CHR ''x'' \<and> hex_digit n \<noteq> CHR ''X'' \<and> hex_digit n \<noteq> CHR 0x00"
proof -
  assume n: "n < 16"
  have all: "\<forall>k\<in>set [0..<16]. hex_val (hex_digit k) = Some k \<and> hex_digit k \<noteq> CHR ''_'' \<and> hex_digit k \<noteq> CHR ''h'' \<and>
     \<not> is_space (hex_digit k) \<and> hex_digit k \<noteq> CHR ''-'' \<and> hex_digit k \<noteq> CHR ''+'' \<and>
     hex_digit k \<noteq> CHR ''x'' \<and> hex_digit k \<noteq> CHR ''X'' \<and> hex_digit k \<noteq> CHR 0x00"
    by code_simp
  from all n show ?thesis by simp
qed

lemma hex_of_nat_chars: "c \<in> set (hex_of_nat n) \<Longrightarrow> \<exists>d<16. c = hex_digit d"
proof (induction n rule: hex_of_nat.induct)
  case (1 n)
  show ?case
  proof (cases "n < 16")
    case True
    with "1.prems" show ?thesis by (auto simp: hex_of_nat.simps [of n])
  next
    case False
    with "1.prems" consider "c \<in> set (hex_of_nat (n div 16))" | "c = hex_digit (n mod 16)"
      by (auto simp: hex_of_nat.simps [of n])
    then show ?thesis using "1.IH" [OF False] by cases (auto intro: exI [of _ "n mod 16"])
  qed
qed

lemma hex_of_nat_nonempty: "hex_of_nat n \<noteq> []"
  by (simp add: hex_of_nat.simps [of n])

lemma hex_run_append:
  "\<forall>c\<in>set xs. \<exists>d<16. c = hex_digit d \<Longrightarrow> hex_run (xs @ ys) acc = hex_run ys (hex_run xs acc)"
proof (induction xs arbitrary: acc)
  case (Cons x xs)
  then obtain d where "d < 16" "x = hex_digit d" by auto
  with Cons show ?case by (simp add: hex_digit_cases)
qed simp

lemma hex_run_hex: "hex_run (hex_of_nat n) 0 = n"
proof (induction n rule: hex_of_nat.induct)
  case (1 n)
  show ?case
  proof (cases "n < 16")
    case True
    then show ?thesis by (simp add: hex_of_nat.simps [of n] hex_digit_cases)
  next
    case False
    have "hex_run (hex_of_nat (n div 16) @ [hex_digit (n mod 16)]) 0 = 16 * (n div 16) + n mod 16"
      using "1.IH" [OF False] by (subst hex_run_append) (auto dest: hex_of_nat_chars simp: hex_digit_cases)
    with False show ?thesis by (simp add: hex_of_nat.simps [of n])
  qed
qed

lemma length_hex_of_nat: "n < 16 ^ k \<Longrightarrow> 0 < k \<Longrightarrow> length (hex_of_nat n) \<le> k"
proof (induction k arbitrary: n)
  case (Suc k)
  show ?case
  proof (cases "n < 16")
    case False
    then have k: "0 < k" using Suc.prems(1) by (cases k) auto
    have "n div 16 < 16 ^ k" using Suc.prems(1) by (simp add: less_mult_imp_div_less mult.commute)
    from Suc.IH [OF this k] False show ?thesis by (simp add: hex_of_nat.simps [of n])
  qed (simp add: hex_of_nat.simps [of n])
qed simp

lemma hex_fits_buffer: "snprintf_buf 20 (hex_of_nat (unat (w :: u64))) = hex_of_nat (unat w)"
proof -
  have "unat w < 16 ^ 16" using unsigned_less [of w, where 'a = nat] by simp
  then have "length (hex_of_nat (unat w)) \<le> 16" by (rule length_hex_of_nat) simp
  then show ?thesis by (simp add: snprintf_buf_def)
qed

lemma find_last_of_append:
  "c \<notin> set ys \<Longrightarrow> find_last_of c (xs @ c # ys) = Some (length xs)"
proof (induction xs)
  case Nil
  then have "find_last_of c ys = None" by (induction ys) auto
  then show ?case by simp
qed simp

lemma find_last_of_None: "find_last_of c xs = None \<longleftrightarrow> c \<notin> set xs"
  by (induction xs) (auto split: option.splits)

lemma hex_of_nat_hd: "\<exists>d<16. hd (hex_of_nat n) = hex_digit d"
  using hex_of_nat_chars [of "hd (hex_of_nat n)" n] hex_of_nat_nonempty by simp

lemma sscanf_hex: "sscanf_llx (hex_of_nat (unat (w :: u64))) = w"
proof -
  let ?s = "hex_of_nat (unat w)"
  have ch: "\<forall>c\<in>set ?s. \<exists>d<16. c = hex_digit d" using hex_of_nat_chars by blast
  have "c \<noteq> CHR 0x00" if "c \<in> set ?s" for c
  proof -
    from ch that obtain d where "d < 16" "c = hex_digit d" by blast
    then show ?thesis by (simp add: hex_digit_cases)
  qed
  then have nz: "c_str ?s = ?s"
    by (auto simp: c_str_def takeWhile_eq_all_conv)
  obtain d where d: "d < 16" "hd ?s = hex_digit d" using hex_of_nat_hd by blast
  have ds: "dropWhile is_space ?s = ?s"
    using d hex_of_nat_nonempty [of "unat w"]
    by (cases ?s) (auto simp: hex_digit_cases)
  have nx: "\<not> (length ?s \<ge> 2 \<and> hd ?s = CHR ''0'' \<and> (?s ! 1 = CHR ''x'' \<or> ?s ! 1 = CHR ''X''))"
  proof
    assume a: "length ?s \<ge> 2 \<and> hd ?s = CHR ''0'' \<and> (?s ! 1 = CHR ''x'' \<or> ?s ! 1 = CHR ''X'')"
    then have "?s ! 1 \<in> set ?s" by simp
    with ch obtain e where "e < 16" "?s ! 1 = hex_digit e" by blast
    with a show False by (simp add: hex_digit_cases)
  qed
  have lt: "unat w < 2 ^ 64" using unsigned_less [of w, where 'a = nat] by simp
  show ?thesis
    unfolding sscanf_llx_def Let_def nz ds
    using d nx lt hex_run_hex [of "unat w"] by (auto simp: hex_digit_cases)
qed

section \<open>Other identifiers and their orders\<close>

datatype vinodeno_t = VIno (vi_ino: inodeno_t) (vi_snapid: snapid_t)

definition vinodeno_less :: "vinodeno_t \<Rightarrow> vinodeno_t \<Rightarrow> bool" where
  "vinodeno_less l r \<longleftrightarrow> vi_ino l < vi_ino r \<or> (vi_ino l = vi_ino r \<and> vi_snapid l < vi_snapid r)"

instantiation vinodeno_t :: linorder
begin

definition less_vinodeno_t :: "vinodeno_t \<Rightarrow> vinodeno_t \<Rightarrow> bool" where
  "l < r \<longleftrightarrow> vinodeno_less l r"

definition less_eq_vinodeno_t :: "vinodeno_t \<Rightarrow> vinodeno_t \<Rightarrow> bool" where
  "l \<le> r \<longleftrightarrow> l < r \<or> l = (r :: vinodeno_t)"

instance
proof
  fix x y z :: vinodeno_t
  show "x \<le> y \<or> y \<le> x"
    by (cases x; cases y) (auto simp: less_eq_vinodeno_t_def less_vinodeno_t_def vinodeno_less_def)
qed (auto simp: less_eq_vinodeno_t_def less_vinodeno_t_def vinodeno_less_def)

end

datatype 'n metareqid_t = MReq (mr_name: 'n) (mr_tid: u64)

definition metareqid_less :: "'n::linorder metareqid_t \<Rightarrow> 'n metareqid_t \<Rightarrow> bool" where
  "metareqid_less l r \<longleftrightarrow> mr_name l < mr_name r \<or> (mr_name l = mr_name r \<and> mr_tid l < mr_tid r)"

definition metareqid_less_eq :: "'n::linorder metareqid_t \<Rightarrow> 'n metareqid_t \<Rightarrow> bool" where
  "metareqid_less_eq l r \<longleftrightarrow> mr_name l < mr_name r \<or> (mr_name l = mr_name r \<and> mr_tid l \<le> mr_tid r)"

instantiation metareqid_t :: (linorder) linorder
begin

definition less_metareqid_t :: "'a metareqid_t \<Rightarrow> 'a metareqid_t \<Rightarrow> bool" where
  "l < r \<longleftrightarrow> metareqid_less l r"

definition less_eq_metareqid_t :: "'a metareqid_t \<Rightarrow> 'a metareqid_t \<Rightarrow> bool" where
  "l \<le> r \<longleftrightarrow> metareqid_less_eq l r"

instance
proof
  fix x y z :: "'a metareqid_t"
  show "x \<le> y \<Longrightarrow> y \<le> x \<Longrightarrow> x = y"
    by (cases x; cases y) (auto simp: less_eq_metareqid_t_def metareqid_less_eq_def)
  show "x \<le> y \<or> y \<le> x"
    by (cases x; cases y) (auto simp: less_eq_metareqid_t_def metareqid_less_eq_def)
qed (auto simp: less_eq_metareqid_t_def metareqid_less_eq_def less_metareqid_t_def metareqid_less_def)

end

datatype 'f dirfrag_t = DirFrag (df_ino: inodeno_t) (df_frag: 'f)

definition dirfrag_less :: "'f::linorder dirfrag_t \<Rightarrow> 'f dirfrag_t \<Rightarrow> bool" where
  "dirfrag_less l r \<longleftrightarrow>
     (if df_ino l < df_ino r then True
      else if df_ino l = df_ino r \<and> df_frag l < df_frag r then True else False)"

instantiation dirfrag_t :: (linorder) linorder
begin

definition less_dirfrag_t :: "'a dirfrag_t \<Rightarrow> 'a dirfrag_t \<Rightarrow> bool" where
  "l < r \<longleftrightarrow> dirfrag_less l r"

definition less_eq_dirfrag_t :: "'a dirfrag_t \<Rightarrow> 'a dirfrag_t \<Rightarrow> bool" where
  "l \<le> r \<longleftrightarrow> l < r \<or> l = (r :: 'a dirfrag_t)"

instance
proof
  fix x y z :: "'a dirfrag_t"
  show "x \<le> y \<or> y \<le> x"
    by (cases x; cases y) (auto simp: less_eq_dirfrag_t_def less_dirfrag_t_def dirfrag_less_def)
  show "x \<le> y \<Longrightarrow> y \<le> x \<Longrightarrow> x = y"
    by (auto simp: less_eq_dirfrag_t_def less_dirfrag_t_def dirfrag_less_def split: if_splits)
qed (auto simp: less_eq_dirfrag_t_def less_dirfrag_t_def dirfrag_less_def split: if_splits)

end

text \<open>\<^verbatim>\<open>string_snap_t\<close> compares the C strings of its names, up to the first NUL.\<close>

datatype string_snap_t = StringSnap (ss_name: string) (ss_snapid: snapid_t)

definition string_snap_less :: "string_snap_t \<Rightarrow> string_snap_t \<Rightarrow> bool" where
  "string_snap_less l r =
     (let c = strcmp (c_str (ss_name l)) (c_str (ss_name r))
      in c < 0 \<or> (c = 0 \<and> ss_snapid l < ss_snapid r))"

record 'f cache_object_info =
  coi_ino :: inodeno_t
  coi_dirfrag :: "'f dirfrag_t"
  coi_dname :: string
  coi_snapid :: snapid_t

definition object_info_eq :: "'f cache_object_info \<Rightarrow> 'f cache_object_info \<Rightarrow> bool" where
  "object_info_eq l r =
     (if coi_ino l \<noteq> 0 \<or> coi_ino r \<noteq> 0 then coi_ino l = coi_ino r \<and> coi_snapid l = coi_snapid r
      else coi_dirfrag l = coi_dirfrag r \<and> coi_dname l = coi_dname r)"

section \<open>Printed capabilities\<close>

record cap_consts =
  cap_gshared :: int
  cap_gexcl :: int
  cap_gcache :: int
  cap_grd :: int
  cap_gwr :: int
  cap_gbuffer :: int
  cap_gwrextend :: int
  cap_glazyio :: int
  cap_pin :: int
  cap_sauth :: nat
  cap_slink :: nat
  cap_sxattr :: nat
  cap_sfile :: nat

definition gcap_string :: "cap_consts \<Rightarrow> int \<Rightarrow> string" where
  "gcap_string k cap =
     (if cap AND cap_gshared k \<noteq> 0 then ''s'' else '''') @
     (if cap AND cap_gexcl k \<noteq> 0 then ''x'' else '''') @
     (if cap AND cap_gcache k \<noteq> 0 then ''c'' else '''') @
     (if cap AND cap_grd k \<noteq> 0 then ''r'' else '''') @
     (if cap AND cap_gwr k \<noteq> 0 then ''w'' else '''') @
     (if cap AND cap_gbuffer k \<noteq> 0 then ''b'' else '''') @
     (if cap AND cap_gwrextend k \<noteq> 0 then ''a'' else '''') @
     (if cap AND cap_glazyio k \<noteq> 0 then ''l'' else '''')"

definition cap_part :: "cap_consts \<Rightarrow> char \<Rightarrow> int \<Rightarrow> string" where
  "cap_part k c a = (if a \<noteq> 0 then c # gcap_string k a else '''')"

definition ccap_string :: "cap_consts \<Rightarrow> int \<Rightarrow> string" where
  "ccap_string k cap =
     (let s = (if cap AND cap_pin k \<noteq> 0 then ''p'' else '''') @
            cap_part k (CHR ''A'') (drop_bit (cap_sauth k) cap AND 3) @
            cap_part k (CHR ''L'') (drop_bit (cap_slink k) cap AND 3) @
            cap_part k (CHR ''X'') (drop_bit (cap_sxattr k) cap AND 3) @
            cap_part k (CHR ''F'') (drop_bit (cap_sfile k) cap)
      in if s = '''' then ''-'' else s)"

section \<open>Properties\<close>

lemma decode_of_encode:
  "dentry_key_decode nosnap (dentry_key_encode nosnap (DKey sn nm)) = Some (nm, sn)"
proof (cases "sn = nosnap")
  case True
  then show ?thesis
    using find_last_of_append [of "CHR ''_''" "''head''" nm]
    by (simp add: dentry_key_encode_def dentry_key_decode_def snprintf_buf_def)
next
  case False
  let ?h = "hex_of_nat (unat sn)"
  have "CHR ''_'' \<notin> set ?h" "?h \<noteq> ''head''"
    using hex_of_nat_chars [of _ "unat sn"] hex_digit_cases by (metis, metis list.set_intros(1))
  with False show ?thesis
    using find_last_of_append [of "CHR ''_''" ?h nm]
    by (simp add: dentry_key_encode_def dentry_key_decode_def hex_fits_buffer sscanf_hex)
qed

lemma dentry_key_encode_inj [simp]: "dentry_key_encode nosnap a = dentry_key_encode nosnap b \<longleftrightarrow> a = b"
proof
  assume "dentry_key_encode nosnap a = dentry_key_encode nosnap b"
  then show "a = b"
    using decode_of_encode [of nosnap] by (cases a; cases b) (metis Pair_inject option.inject)
qed simp

text \<open>C37: a dentry key's on-disk text decodes to the name and snapshot it was built from, for
  every name (underscores included), every snapshot and whatever number denotes the head.\<close>

theorem dentry_key_roundtrip:
  "dentry_key_decode nosnap (dentry_key_encode nosnap (DKey sn nm)) = Some (nm, sn)"
  by (rule decode_of_encode)

text \<open>Decoding fails exactly on a text without an underscore, and what it returns for any
  other text is the part before the last underscore.\<close>

lemma dentry_key_decode_total:
  "(case dentry_key_decode nosnap key of
      None \<Rightarrow> CHR ''_'' \<notin> set key
    | Some (nm, sn) \<Rightarrow> \<exists>rest. key = nm @ CHR ''_'' # rest \<and> CHR ''_'' \<notin> set rest)"
proof (cases "find_last_of (CHR ''_'') key")
  case None
  then show ?thesis using find_last_of_None [of "CHR ''_''" key] by (simp add: dentry_key_decode_def)
next
  case (Some i)
  then have "CHR ''_'' \<in> set key" using find_last_of_None [of "CHR ''_''" key] by auto
  then obtain nm rest where k: "key = nm @ CHR ''_'' # rest" "CHR ''_'' \<notin> set rest"
    by (meson split_list_last)
  with Some find_last_of_append [of "CHR ''_''" rest nm] have "i = length nm" by simp
  with Some k show ?thesis by (auto simp: dentry_key_decode_def)
qed

text \<open>The comparison of cache-object infos is an equivalence relation.\<close>

lemma object_info_equivalence: "equivp (object_info_eq :: 'f cache_object_info \<Rightarrow> _)"
proof (rule equivpI)
  show "reflp (object_info_eq :: 'f cache_object_info \<Rightarrow> _)"
    by (simp add: reflp_def object_info_eq_def)
  show "symp (object_info_eq :: 'f cache_object_info \<Rightarrow> _)"
    by (auto simp: symp_def object_info_eq_def split: if_splits)
  show "transp (object_info_eq :: 'f cache_object_info \<Rightarrow> _)"
    by (auto simp: transp_def object_info_eq_def split: if_splits)
qed

end
