(* ===== verification/Load_Vectors.thy ===== *)
theory Load_Vectors
  imports Mds_Prelude
begin

text \<open>
  The load vectors of \<^verbatim>\<open>src/src/mds/mdstypes.h\<close>: \<^verbatim>\<open>inode_load_vec_t\<close>, \<^verbatim>\<open>dirfrag_load_vec_t\<close>
  with the scripted \<^verbatim>\<open>meta_load\<close>, \<^verbatim>\<open>mds_load_t\<close> and \<^verbatim>\<open>load_spread_t\<close>. \<^verbatim>\<open>DecayCounter\<close> is declared
  outside the sources: its operations are the record \<open>decay_api\<close>, an argument of what uses
  them, over a type \<open>'d\<close> of counters (a \<^verbatim>\<open>DecayRate\<close> is the half-life it is built from).
  Running a Lua chunk is the argument \<open>lua\<close>: the chunk and its global array \<^verbatim>\<open>arg\<close> give the
  number on top of the stack, or \<open>None\<close> when \<^verbatim>\<open>luaL_dostring\<close> reports an error.
\<close>

section \<open>Decay counters and Lua\<close>

record 'd decay_api =
  dc_new :: "utime_t \<Rightarrow> 'd"
  dc_reset :: "utime_t \<Rightarrow> 'd \<Rightarrow> 'd"
  dc_get :: "utime_t \<Rightarrow> double \<Rightarrow> 'd \<Rightarrow> double \<times> 'd"
  dc_get_last :: "'d \<Rightarrow> double"
  dc_hit :: "utime_t \<Rightarrow> double \<Rightarrow> double \<Rightarrow> 'd \<Rightarrow> double \<times> 'd"
  dc_adjust :: "double \<Rightarrow> 'd \<Rightarrow> 'd"
  dc_adjust_now :: "utime_t \<Rightarrow> double \<Rightarrow> double \<Rightarrow> 'd \<Rightarrow> 'd"
  dc_scale :: "double \<Rightarrow> 'd \<Rightarrow> 'd"

type_synonym lua_run = "string \<Rightarrow> double list \<Rightarrow> double option"

section \<open>Vectors\<close>

definition META_POP_IRD :: nat where "META_POP_IRD = 0"
definition META_POP_IWR :: nat where "META_POP_IWR = 1"
definition META_POP_READDIR :: nat where "META_POP_READDIR = 2"
definition META_POP_FETCH :: nat where "META_POP_FETCH = 3"
definition META_POP_STORE :: nat where "META_POP_STORE = 4"
definition META_NPOP :: nat where "META_NPOP = 5"

lemmas meta_pop_defs = META_POP_IRD_def META_POP_IWR_def META_POP_READDIR_def META_POP_FETCH_def
  META_POP_STORE_def META_NPOP_def

definition INODE_LOAD_NUM :: nat where "INODE_LOAD_NUM = 2"
definition DIRFRAG_LOAD_NUM :: nat where "DIRFRAG_LOAD_NUM = 5"

definition inode_load_new :: "'d decay_api \<Rightarrow> utime_t \<Rightarrow> 'd list" where
  "inode_load_new api now = replicate INODE_LOAD_NUM (dc_new api now)"

definition inode_load_get :: "nat \<Rightarrow> 'd list \<Rightarrow> 'd option" where
  "inode_load_get t vec = do { assert_that (t < INODE_LOAD_NUM); Some (vec ! t) }"

definition inode_load_zero :: "'d decay_api \<Rightarrow> utime_t \<Rightarrow> 'd list \<Rightarrow> 'd list" where
  "inode_load_zero api now vec = map (dc_reset api now) vec"

definition dirfrag_load_new :: "'d decay_api \<Rightarrow> utime_t \<Rightarrow> 'd list" where
  "dirfrag_load_new api now = replicate DIRFRAG_LOAD_NUM (dc_new api now)"

definition dirfrag_load_get :: "nat \<Rightarrow> 'd list \<Rightarrow> 'd option" where
  "dirfrag_load_get t vec = do { assert_that (t < DIRFRAG_LOAD_NUM); Some (vec ! t) }"

definition dirfrag_load_adjust :: "'d decay_api \<Rightarrow> utime_t \<Rightarrow> double \<Rightarrow> double \<Rightarrow> 'd list \<Rightarrow> 'd list" where
  "dirfrag_load_adjust api now rate d vec = map (dc_adjust_now api now rate d) vec"

definition dirfrag_load_zero :: "'d decay_api \<Rightarrow> utime_t \<Rightarrow> 'd list \<Rightarrow> 'd list" where
  "dirfrag_load_zero api now vec = map (dc_reset api now) vec"

text \<open>\<^verbatim>\<open>add\<close> and \<^verbatim>\<open>sub\<close> read the other vector through \<^verbatim>\<open>get\<close>, which decays it: both vectors are
  results.\<close>

definition dirfrag_load_add :: "'d decay_api \<Rightarrow> utime_t \<Rightarrow> double \<Rightarrow> 'd list \<Rightarrow> 'd list \<Rightarrow> 'd list \<times> 'd list" where
  "dirfrag_load_add api now rate vec r =
     (let gs = map (dc_get api now rate) r
      in (map2 (\<lambda>c g. dc_adjust api (fst g) c) vec gs, map snd gs))"

definition dirfrag_load_sub :: "'d decay_api \<Rightarrow> utime_t \<Rightarrow> double \<Rightarrow> 'd list \<Rightarrow> 'd list \<Rightarrow> 'd list \<times> 'd list" where
  "dirfrag_load_sub api now rate vec r =
     (let gs = map (dc_get api now rate) r
      in (map2 (\<lambda>c g. dc_adjust api (- fst g) c) vec gs, map snd gs))"

definition dirfrag_load_scale :: "'d decay_api \<Rightarrow> double \<Rightarrow> 'd list \<Rightarrow> 'd list" where
  "dirfrag_load_scale api f vec = map (dc_scale api f) vec"

section \<open>The scripted metadata load\<close>

definition nl :: string where "nl = [CHR 0x0A]"

definition metaload_script0 :: string where
  "metaload_script0 = ''IRD = arg[1]'' @ nl @ ''IWR = arg[2]'' @ nl @ ''READDIR = arg[3]'' @ nl @
     ''FETCH = arg[4]'' @ nl @ ''STORE = arg[5]'' @ nl @ ''return ''"

definition underscores_to_spaces :: "string \<Rightarrow> string" where
  "underscores_to_spaces s = map (\<lambda>c. if c = CHR ''_'' then CHR '' '' else c) s"

text \<open>
  A C array of \<open>size\<close> characters filled by \<^verbatim>\<open>strcpy\<close> and then \<^verbatim>\<open>strcat\<close>s: \<open>None\<close> is a write
  beyond its end (the terminating NUL included).
\<close>

definition fill_buffer :: "nat \<Rightarrow> string list \<Rightarrow> string option" where
  "fill_buffer n parts =
     (if length (concat parts) + 1 \<le> n then Some (concat parts) else None)"

definition metaload_script :: "string \<Rightarrow> string option" where
  "metaload_script mds_bal_metaload =
     fill_buffer (100 + length (c_str mds_bal_metaload))
       [metaload_script0, c_str (underscores_to_spaces mds_bal_metaload)]"

definition run_metaload :: "lua_run \<Rightarrow> string \<Rightarrow> double list \<Rightarrow> double option" where
  "run_metaload lua mds_bal_metaload args =
     do { script \<leftarrow> metaload_script mds_bal_metaload;
          Some (case lua script args of Some v \<Rightarrow> v | None \<Rightarrow> -1) }"

definition meta_load_now :: "'d decay_api \<Rightarrow> lua_run \<Rightarrow> string \<Rightarrow> utime_t \<Rightarrow> double \<Rightarrow> 'd list
    \<Rightarrow> (double \<times> 'd list) option" where
  "meta_load_now api lua mds_bal_metaload now rate vec =
     (let gs = map (\<lambda>i. dc_get api now rate (vec ! i))
                 [META_POP_IRD, META_POP_IWR, META_POP_READDIR, META_POP_FETCH, META_POP_STORE]
      in do { ret \<leftarrow> run_metaload lua mds_bal_metaload (map fst gs);
              Some (ret, map snd gs) })"

definition meta_load :: "'d decay_api \<Rightarrow> lua_run \<Rightarrow> string \<Rightarrow> 'd list \<Rightarrow> double option" where
  "meta_load api lua mds_bal_metaload vec =
     run_metaload lua mds_bal_metaload
       (map (\<lambda>i. dc_get_last api (vec ! i))
          [META_POP_IRD, META_POP_IWR, META_POP_READDIR, META_POP_FETCH, META_POP_STORE])"

section \<open>The load of a server\<close>

record 'd mds_load_t =
  ld_auth :: "'d list"
  ld_all :: "'d list"
  req_rate :: double
  cache_hit_rate :: double
  queue_len :: double
  cpu_load_avg :: double

definition mds_load_new :: "'d decay_api \<Rightarrow> utime_t \<Rightarrow> 'd mds_load_t" where
  "mds_load_new api t = \<lparr>ld_auth = dirfrag_load_new api t, ld_all = dirfrag_load_new api t,
     req_rate = 0, cache_hit_rate = 0, queue_len = 0, cpu_load_avg = 0\<rparr>"

section \<open>Spread of requesters\<close>

definition SPREAD_MAX :: nat where "SPREAD_MAX = 4"

record 'd load_spread_t =
  sp_last :: "int list"
  sp_p :: nat
  sp_n :: nat
  sp_count :: 'd

definition load_spread_new :: "'d \<Rightarrow> 'd load_spread_t" where
  "load_spread_new c = \<lparr>sp_last = replicate SPREAD_MAX (-1), sp_p = 0, sp_n = 0, sp_count = c\<rparr>"

text \<open>\<open>None\<close> is a write outside the array \<^verbatim>\<open>last\<close>.\<close>

definition load_spread_hit :: "'d decay_api \<Rightarrow> utime_t \<Rightarrow> double \<Rightarrow> int \<Rightarrow> 'd load_spread_t
    \<Rightarrow> (double \<times> 'd load_spread_t) option" where
  "load_spread_hit api now rate who s =
     (if who \<in> set (take (sp_n s) (sp_last s)) then Some (dc_get_last api (sp_count s), s)
      else do {
        assert_that (sp_p s < SPREAD_MAX);
        let s1 = s\<lparr>sp_last := (sp_last s)[sp_p s := who], sp_p := sp_p s + 1\<rparr>;
        let s2 = (if sp_n s1 < SPREAD_MAX then s1\<lparr>sp_n := sp_n s1 + 1\<rparr> else s1);
        if sp_n s2 = 1 then Some (0, s2)
        else
          let s3 = (if sp_p s2 = SPREAD_MAX then s2\<lparr>sp_p := 0\<rparr> else s2);
              (v, c) = dc_hit api now rate 1 (sp_count s3)
          in Some (v, s3\<lparr>sp_count := c\<rparr>) })"

definition load_spread_get :: "'d decay_api \<Rightarrow> utime_t \<Rightarrow> double \<Rightarrow> 'd load_spread_t
    \<Rightarrow> double \<times> 'd load_spread_t" where
  "load_spread_get api now rate s =
     (let (v, c) = dc_get api now rate (sp_count s) in (v, s\<lparr>sp_count := c\<rparr>))"

text \<open>A run of hits.\<close>

fun spread_hits :: "'d decay_api \<Rightarrow> double \<Rightarrow> (utime_t \<times> int) list \<Rightarrow> 'd load_spread_t
    \<Rightarrow> 'd load_spread_t option" where
  "spread_hits api rate [] s = Some s"
| "spread_hits api rate ((now, who) # hs) s =
     do { (v, s') \<leftarrow> load_spread_hit api now rate who s; spread_hits api rate hs s' }"

section \<open>Lemmas\<close>

lemma length_script0: "length metaload_script0 = 80"
  by (simp add: metaload_script0_def nl_def)

lemma c_str_underscores: "length (c_str (underscores_to_spaces s)) = length (c_str s)"
  by (induction s) (auto simp: c_str_def underscores_to_spaces_def)

definition spread_inv :: "'d load_spread_t \<Rightarrow> bool" where
  "spread_inv s \<longleftrightarrow> length (sp_last s) = SPREAD_MAX \<and> sp_p s < SPREAD_MAX \<and> sp_n s \<le> SPREAD_MAX \<and>
     (sp_n s < SPREAD_MAX \<longrightarrow> sp_p s = sp_n s) \<and> distinct (take (sp_n s) (sp_last s))"

lemma spread_inv_new: "spread_inv (load_spread_new c)"
  by (simp add: spread_inv_def load_spread_new_def SPREAD_MAX_def)

lemma distinct_overwrite: "distinct xs \<Longrightarrow> x \<notin> set xs \<Longrightarrow> distinct (xs[i := x])"
  by (simp add: distinct_list_update)

lemma load_spread_hit_ok:
  assumes "spread_inv s"
  obtains v s' where "load_spread_hit api now rate who s = Some (v, s')" "spread_inv s'"
    "who \<in> set (take (sp_n s') (sp_last s'))"
    "set (take (sp_n s') (sp_last s')) \<subseteq> insert who (set (take (sp_n s) (sp_last s)))"
proof (cases "who \<in> set (take (sp_n s) (sp_last s))")
  case True
  show ?thesis by (rule that) (use True assms in \<open>auto simp: load_spread_hit_def\<close>)
next
  case new: False
  obtain v c where hit: "dc_hit api now rate 1 (sp_count s) = (v, c)" by fastforce
  have p: "sp_p s < 4" "length (sp_last s) = 4" "sp_n s \<le> 4" "sp_n s < 4 \<longrightarrow> sp_p s = sp_n s"
    "distinct (take (sp_n s) (sp_last s))"
    using assms by (auto simp: spread_inv_def SPREAD_MAX_def)
  show ?thesis
  proof (cases "sp_n s < 4")
    case True
    then have t: "take (Suc (sp_n s)) ((sp_last s)[sp_p s := who]) = take (sp_n s) (sp_last s) @ [who]"
      using p by (simp add: take_Suc_conv_app_nth)
    show ?thesis
    proof (cases "sp_n s = 0")
      case z: True
      show ?thesis
        by (rule that [of 0 "s\<lparr>sp_last := (sp_last s)[sp_p s := who], sp_p := sp_p s + 1, sp_n := 1\<rparr>"])
          (use new p t z in \<open>auto simp: load_spread_hit_def SPREAD_MAX_def spread_inv_def\<close>)
    next
      case nz: False
      show ?thesis
        by (rule that [of v "s\<lparr>sp_last := (sp_last s)[sp_p s := who],
               sp_p := (if sp_p s + 1 = 4 then 0 else sp_p s + 1), sp_n := sp_n s + 1, sp_count := c\<rparr>"])
          (use new p t nz True hit in \<open>auto simp: load_spread_hit_def SPREAD_MAX_def spread_inv_def\<close>)
    qed
  next
    case False
    then have n4: "sp_n s = 4" "take 4 (sp_last s) = sp_last s" using p by auto
    show ?thesis
      by (rule that [of v "s\<lparr>sp_last := (sp_last s)[sp_p s := who],
             sp_p := (if sp_p s + 1 = 4 then 0 else sp_p s + 1), sp_count := c\<rparr>"])
        (use new p n4 hit in \<open>auto simp: load_spread_hit_def SPREAD_MAX_def spread_inv_def
           set_update_memI dest: set_update_subset_insert [THEN subsetD] intro: distinct_overwrite\<close>)
  qed
qed

lemma spread_hits_inv:
  "spread_inv s \<Longrightarrow> \<exists>s'. spread_hits api rate hs s = Some s' \<and> spread_inv s' \<and>
     set (take (sp_n s') (sp_last s')) \<subseteq> snd ` set hs \<union> set (take (sp_n s) (sp_last s)) \<and>
     (hs \<noteq> [] \<longrightarrow> snd (last hs) \<in> set (take (sp_n s') (sp_last s')))"
proof (induction hs arbitrary: s)
  case (Cons h hs)
  obtain now who where h: "h = (now, who)" by (cases h)
  obtain v s1 where s1: "load_spread_hit api now rate who s = Some (v, s1)" "spread_inv s1"
    "who \<in> set (take (sp_n s1) (sp_last s1))"
    "set (take (sp_n s1) (sp_last s1)) \<subseteq> insert who (set (take (sp_n s) (sp_last s)))"
    by (rule load_spread_hit_ok [OF Cons.prems])
  from Cons.IH [OF s1(2)] obtain s2 where s2: "spread_hits api rate hs s1 = Some s2" "spread_inv s2"
    "set (take (sp_n s2) (sp_last s2)) \<subseteq> snd ` set hs \<union> set (take (sp_n s1) (sp_last s1))"
    "hs \<noteq> [] \<longrightarrow> snd (last hs) \<in> set (take (sp_n s2) (sp_last s2))" by blast
  show ?case
  proof (intro exI conjI)
    show "spread_hits api rate (h # hs) s = Some s2" using h s1(1) s2(1) by simp
    show "spread_inv s2" by (rule s2(2))
    show "set (take (sp_n s2) (sp_last s2)) \<subseteq> snd ` set (h # hs) \<union> set (take (sp_n s) (sp_last s))"
      using s1(4) s2(3) h by auto
    show "h # hs \<noteq> [] \<longrightarrow> snd (last (h # hs)) \<in> set (take (sp_n s2) (sp_last s2))"
      using s1 s2 h by (cases hs) auto
  qed
qed simp

section \<open>Properties\<close>

text \<open>The script of \<^verbatim>\<open>meta_load\<close> always fits the array it is built in, whatever the configured
  expression, so the load is computed, and it is -1 when Lua reports an error.\<close>

lemma metaload_script_fits:
  "metaload_script expr = Some (metaload_script0 @ c_str (underscores_to_spaces expr)) \<and>
   run_metaload lua expr args =
     Some (case lua (metaload_script0 @ c_str (underscores_to_spaces expr)) args of Some v \<Rightarrow> v | None \<Rightarrow> -1)"
  by (simp add: metaload_script_def fill_buffer_def length_script0 c_str_underscores run_metaload_def)

text \<open>However the hits on a fresh spread counter arrive, the ring is never written out of
  bounds, at most four requesters are remembered, they are distinct and all have hit, and the
  last one to hit is among them.\<close>

lemma load_spread_bounded:
  "\<exists>s. spread_hits api rate hs (load_spread_new c) = Some s \<and>
     length (sp_last s) = SPREAD_MAX \<and> sp_n s \<le> SPREAD_MAX \<and>
     distinct (take (sp_n s) (sp_last s)) \<and>
     set (take (sp_n s) (sp_last s)) \<subseteq> snd ` set hs \<and>
     (hs = [] \<or> snd (last hs) \<in> set (take (sp_n s) (sp_last s)))"
  using spread_hits_inv [OF spread_inv_new [of c], of api rate hs]
  by (auto simp: spread_inv_def load_spread_new_def)

end
