(* ===== verification/CDir_Base.thy ===== *)
theory CDir_Base
  imports Cache_Object Stat_Types Dentry_Key Load_Vectors
begin

text \<open>
  The directory fragment \<^verbatim>\<open>CDir\<close> (\<^verbatim>\<open>src/src/mds/CDir.h\<close>, \<^verbatim>\<open>src/src/mds/CDir.cc\<close>): its constants, its
  state, its constructor and its reference counting.

  A directory calls into objects whose classes are declared outside the sources (its inode, its
  dentries and their inodes, the journal segment, the cache's LRU, the objecter). Of those objects
  the model keeps what the directory reads: \<open>inode_view\<close> for the directory's own inode, \<open>dentry\<close>
  for an entry (identified by its key in \<^verbatim>\<open>items\<close>), \<open>cinode\<close> for the inode an entry links. What
  the directory calls on them is recorded, in order, in \<open>cd_log\<close>, so that the theorems can say
  which calls are made.
\<close>

section \<open>Constants\<close>

definition PIN_DNWAITER :: int where "PIN_DNWAITER = 1"
definition PIN_INOWAITER :: int where "PIN_INOWAITER = 2"
definition PIN_CHILD :: int where "PIN_CHILD = 3"
definition PIN_FROZEN :: int where "PIN_FROZEN = 4"
definition PIN_SUBTREE :: int where "PIN_SUBTREE = 5"
definition PIN_IMPORTING :: int where "PIN_IMPORTING = 7"
definition PIN_IMPORTBOUND :: int where "PIN_IMPORTBOUND = 9"
definition PIN_EXPORTBOUND :: int where "PIN_EXPORTBOUND = 10"
definition PIN_STICKY :: int where "PIN_STICKY = 11"
definition PIN_SUBTREETEMP :: int where "PIN_SUBTREETEMP = 12"

lemmas cdir_pin_defs = PIN_DNWAITER_def PIN_INOWAITER_def PIN_CHILD_def PIN_FROZEN_def PIN_SUBTREE_def
  PIN_IMPORTING_def PIN_IMPORTBOUND_def PIN_EXPORTBOUND_def PIN_STICKY_def PIN_SUBTREETEMP_def

definition pin_name :: "int \<Rightarrow> string option" where
  "pin_name p =
     (if p = PIN_DNWAITER then Some ''dnwaiter''
      else if p = PIN_INOWAITER then Some ''inowaiter''
      else if p = PIN_CHILD then Some ''child''
      else if p = PIN_FROZEN then Some ''frozen''
      else if p = PIN_SUBTREE then Some ''subtree''
      else if p = PIN_IMPORTING then Some ''importing''
      else if p = PIN_IMPORTBOUND then Some ''importbound''
      else if p = PIN_EXPORTBOUND then Some ''exportbound''
      else if p = PIN_STICKY then Some ''sticky''
      else if p = PIN_SUBTREETEMP then Some ''subtreetemp''
      else generic_pin_name p)"

definition STATE_COMPLETE :: u32 where "STATE_COMPLETE = push_bit 1 1"
definition STATE_FROZENTREE :: u32 where "STATE_FROZENTREE = push_bit 2 1"
definition STATE_FREEZINGTREE :: u32 where "STATE_FREEZINGTREE = push_bit 3 1"
definition STATE_FROZENDIR :: u32 where "STATE_FROZENDIR = push_bit 4 1"
definition STATE_FREEZINGDIR :: u32 where "STATE_FREEZINGDIR = push_bit 5 1"
definition STATE_COMMITTING :: u32 where "STATE_COMMITTING = push_bit 6 1"
definition STATE_FETCHING :: u32 where "STATE_FETCHING = push_bit 7 1"
definition STATE_IMPORTBOUND :: u32 where "STATE_IMPORTBOUND = push_bit 10 1"
definition STATE_EXPORTBOUND :: u32 where "STATE_EXPORTBOUND = push_bit 11 1"
definition STATE_EXPORTING :: u32 where "STATE_EXPORTING = push_bit 12 1"
definition STATE_IMPORTING :: u32 where "STATE_IMPORTING = push_bit 13 1"
definition STATE_FRAGMENTING :: u32 where "STATE_FRAGMENTING = push_bit 14 1"
definition STATE_STICKY :: u32 where "STATE_STICKY = push_bit 15 1"
definition STATE_DNPINNEDFRAG :: u32 where "STATE_DNPINNEDFRAG = push_bit 16 1"
definition STATE_ASSIMRSTAT :: u32 where "STATE_ASSIMRSTAT = push_bit 17 1"
definition STATE_DIRTYDFT :: u32 where "STATE_DIRTYDFT = push_bit 18 1"
definition STATE_BADFRAG :: u32 where "STATE_BADFRAG = push_bit 19 1"
definition STATE_INITIAL :: u32 where "STATE_INITIAL = 0"

definition MASK_STATE_EXPORTED :: u32 where
  "MASK_STATE_EXPORTED = STATE_COMPLETE OR STATE_DIRTY OR STATE_DIRTYDFT OR STATE_BADFRAG"

definition MASK_STATE_IMPORT_KEPT :: u32 where
  "MASK_STATE_IMPORT_KEPT =
     STATE_IMPORTING OR STATE_IMPORTBOUND OR STATE_EXPORTBOUND OR STATE_FROZENTREE OR STATE_STICKY"

definition MASK_STATE_EXPORT_KEPT :: u32 where
  "MASK_STATE_EXPORT_KEPT =
     STATE_EXPORTING OR STATE_IMPORTBOUND OR STATE_EXPORTBOUND OR STATE_FROZENTREE OR
     STATE_FROZENDIR OR STATE_STICKY"

definition MASK_STATE_FRAGMENT_KEPT :: u32 where
  "MASK_STATE_FRAGMENT_KEPT =
     STATE_DIRTY OR STATE_EXPORTBOUND OR STATE_IMPORTBOUND OR STATE_REJOINUNDEF"

lemmas state_bits = STATE_AUTH_def STATE_DIRTY_def STATE_NOTIFYREF_def STATE_REJOINING_def
  STATE_REJOINUNDEF_def STATE_COMPLETE_def STATE_FROZENTREE_def STATE_FREEZINGTREE_def
  STATE_FROZENDIR_def STATE_FREEZINGDIR_def STATE_COMMITTING_def STATE_FETCHING_def
  STATE_IMPORTBOUND_def STATE_EXPORTBOUND_def STATE_EXPORTING_def STATE_IMPORTING_def
  STATE_FRAGMENTING_def STATE_STICKY_def STATE_DNPINNEDFRAG_def STATE_ASSIMRSTAT_def
  STATE_DIRTYDFT_def STATE_BADFRAG_def STATE_INITIAL_def

definition REP_NONE :: int where "REP_NONE = 0"
definition REP_ALL :: int where "REP_ALL = 1"
definition REP_LIST :: int where "REP_LIST = 2"

definition WAIT_DENTRY :: u64 where "WAIT_DENTRY = push_bit 0 1"
definition WAIT_COMPLETE :: u64 where "WAIT_COMPLETE = push_bit 1 1"
definition WAIT_FROZEN :: u64 where "WAIT_FROZEN = push_bit 2 1"
definition WAIT_ANY_MASK :: u64 where "WAIT_ANY_MASK = - 1"
definition WAIT_ATFREEZEROOT :: u64 where "WAIT_ATFREEZEROOT = WAIT_UNFREEZE"
definition WAIT_ATSUBTREEROOT :: u64 where "WAIT_ATSUBTREEROOT = WAIT_SINGLEAUTH"

type_synonym mds_authority_t = "mds_rank_t \<times> mds_rank_t"

definition CDIR_AUTH_PARENT :: mds_rank_t where "CDIR_AUTH_PARENT = -1"
definition CDIR_AUTH_UNKNOWN :: mds_rank_t where "CDIR_AUTH_UNKNOWN = -2"
definition CDIR_AUTH_DEFAULT :: mds_authority_t where "CDIR_AUTH_DEFAULT = (CDIR_AUTH_PARENT, CDIR_AUTH_UNKNOWN)"
definition CDIR_AUTH_UNDEF :: mds_authority_t where "CDIR_AUTH_UNDEF = (CDIR_AUTH_UNKNOWN, CDIR_AUTH_UNKNOWN)"

lemmas cdir_auth_defs = CDIR_AUTH_PARENT_def CDIR_AUTH_UNKNOWN_def CDIR_AUTH_DEFAULT_def CDIR_AUTH_UNDEF_def

section \<open>State\<close>

text \<open>\<^verbatim>\<open>frag_t\<close> by its 32-bit encoding; what the code computes with it is an argument.\<close>

type_synonym frag_t = u32

record cinode =
  ci_ino :: inodeno_t
  ci_num_ref :: int
  ci_auth_pins :: int
  ci_nested_auth_pins :: int
  ci_snaprealm :: bool
  ci_dirty :: bool
  ci_is_dir :: bool
  ci_dirty_rstat :: bool
  ci_accounted_rstat :: nest_info_t
  ci_projected_accounted_rstat :: nest_info_t
  ci_version :: version_t
  ci_auth :: bool
  ci_last :: snapid_t
  ci_multiversion :: bool
  ci_rejoinundef :: bool
  ci_nlink :: int

text \<open>The linkage of a dentry; a remote one may have its inode bound.\<close>

datatype linkage = LNull | LRemote inodeno_t nat bool | LPrimary cinode

record dentry =
  dn_name :: string
  dn_first :: snapid_t
  dn_last :: snapid_t
  dn_linkage :: linkage
  dn_state :: u32
  dn_num_ref :: int
  dn_version :: version_t
  dn_new :: bool
  dn_projected :: bool
  dn_leases :: nat
  dn_auth_pins :: int
  dn_nested_auth_pins :: int
  dn_dir_auth_pins :: int

definition dn_key :: "dentry \<Rightarrow> dentry_key_t" where
  "dn_key dn = DKey (dn_last dn) (c_str (dn_name dn))"

definition dn_is_dirty :: "dentry \<Rightarrow> bool" where
  "dn_is_dirty dn \<longleftrightarrow> dn_state dn AND STATE_DIRTY \<noteq> 0"

definition is_null :: "dentry \<Rightarrow> bool" where
  "is_null dn \<longleftrightarrow> (case dn_linkage dn of LNull \<Rightarrow> True | _ \<Rightarrow> False)"

definition is_primary :: "dentry \<Rightarrow> bool" where
  "is_primary dn \<longleftrightarrow> (case dn_linkage dn of LPrimary _ \<Rightarrow> True | _ \<Rightarrow> False)"

definition is_remote :: "dentry \<Rightarrow> bool" where
  "is_remote dn \<longleftrightarrow> (case dn_linkage dn of LRemote _ _ _ \<Rightarrow> True | _ \<Rightarrow> False)"

record inode_view =
  iv_ino :: inodeno_t
  iv_auth :: bool
  iv_authority :: mds_authority_t
  iv_frozen :: bool
  iv_frozen_dir :: bool
  iv_nlink :: int
  iv_snaprealm :: bool
  iv_is_dir :: bool
  iv_rstat_version :: version_t
  iv_dirstat_version :: version_t

text \<open>
  Calls a directory makes on the objects around it: on its inode, on an entry (by key), on the
  inode an entry links (by number), on the current journal segment and the locker, on the parent
  directory, and on the cache, the journal and the object store.
\<close>

datatype inode_call =
    GetDirfrag | PutDirfrag | AdjustNestedAuthPins int | AuthPin | AuthUnpin | WaitUnfreeze
  | AddDirfrag frag_t | CloseDirfrag frag_t

datatype dentry_call =
    LruInsertMid | LruRemove | TouchBottom | MarkClean | RemoveLeases | UnlinkRemote
  | BindRemote | TouchDentry
  | AdjustNested int int

datatype child_call =
    SetPrimaryParent dentry_key_t | RemovePrimaryParent dentry_key_t | ChildMarkClean | RemoveInode
  | AdjustRealmParent | AddInode | MarkDirtyRstat | SetOrphan | OpenedUndefInode

datatype segment_call =
    PushDirty | PushNew | PushDirtyNest | PushDirtyDir | PushDirtyFragtree
  | MarkUpdatedNestlock | MarkUpdatedFilelock | MarkUpdatedFragtreelock

text \<open>
  The fragment in the object store: a header with the fragment node and an ordered map from encoded
  keys to entries. The encoders of the basic types are outside the sources: a \<^verbatim>\<open>bufferlist\<close> is the list
  of the values put into it. \<open>osd_op\<close> is a write: whether it first checks that the object exists, the
  header it sets, the keys it sets and those it removes.
\<close>

datatype disk_field = DSnap snapid_t | DChar char | DIno inodeno_t | DByte nat | DInode cinode

record osd_op =
  oo_stat :: bool
  oo_header :: "fnode_t option"
  oo_set :: "(string \<times> disk_field list) list"
  oo_rm :: "string list"

datatype server_call =
    QueueWaiters "context_t list" | FinishContexts "context_t list" int
  | LogFlush | LogWaitSafe version_t
  | OmapFetch string | TmapFetch string | Mutate osd_op version_t
  | MaybeEvalStray | WriteError int | ObjectMissing | OpenedUndefDirfrag | DupInode inodeno_t

datatype dir_call =
    OnInode inode_call
  | OnDentry dentry_key_t dentry_call
  | OnChild inodeno_t child_call
  | OnSegment segment_call
  | OnParentDir u64 context_t
  | OnServer server_call

text \<open>The representation of a \<^verbatim>\<open>DecayCounter\<close> is opaque: all that is done with one goes through
  a \<open>decay_api\<close>.\<close>

type_synonym decay_counter = rat
type_synonym dir_api = "decay_counter decay_api"

record cdir = mdsco +
  cd_inode :: inode_view
  cd_frag :: frag_t
  fnode :: fnode_t
  cd_first :: snapid_t
  dirty_old_rstat :: "(snapid_t \<times> old_rstat_t) list"
  dirty_rstat_inodes :: "inodeno_t list"
  projected_version :: version_t
  projected_fnode :: "fnode_t list"
  item_dirty :: bool
  item_new :: bool
  items :: "(dentry_key_t \<times> dentry) list"
  num_head_items :: u32
  num_head_null :: u32
  num_snap_items :: u32
  num_snap_null :: u32
  num_dirty :: int
  committing_version :: version_t
  committed_version :: version_t
  auth_pins :: int
  nested_auth_pins :: int
  dir_auth_pins :: int
  request_pins :: int
  dir_rep :: int
  dir_rep_by :: "int list"
  pop_me :: "decay_counter list"
  pop_nested :: "decay_counter list"
  pop_auth_subtree :: "decay_counter list"
  pop_auth_subtree_nested :: "decay_counter list"
  pop_spread :: "decay_counter load_spread_t"
  bloom :: "string list option"
  dir_auth :: mds_authority_t
  waiting_for_commit :: "(version_t \<times> context_t list) list"
  waiting_on_dentry :: "(dentry_key_t \<times> context_t list) list"
  cd_log :: "dir_call list"

definition log_call :: "dir_call \<Rightarrow> cdir \<Rightarrow> cdir" where
  "log_call e c = c\<lparr>cd_log := cd_log c @ [e]\<rparr>"

definition cdir_new :: "dir_api \<Rightarrow> utime_t \<Rightarrow> inode_view \<Rightarrow> frag_t \<Rightarrow> bool \<Rightarrow> cdir option" where
  "cdir_new api now inode fg auth =
     do { assert_that (iv_is_dir inode);
          Some \<lparr>co_state = (if auth then STATE_INITIAL OR STATE_AUTH else STATE_INITIAL),
            co_ref = 0, co_ref_map = [], co_replica_nonce = 0, co_replica_map = [], co_waiting = [],
            cd_inode = inode, cd_frag = fg, fnode = fnode_new, cd_first = 2,
            dirty_old_rstat = [], dirty_rstat_inodes = [], projected_version = 0,
            projected_fnode = [], item_dirty = False, item_new = False, items = [],
            num_head_items = 0, num_head_null = 0, num_snap_items = 0, num_snap_null = 0,
            num_dirty = 0, committing_version = 0, committed_version = 0,
            auth_pins = 0, nested_auth_pins = 0, dir_auth_pins = 0, request_pins = 0,
            dir_rep = REP_NONE, dir_rep_by = [],
            pop_me = dirfrag_load_new api now, pop_nested = dirfrag_load_new api now,
            pop_auth_subtree = dirfrag_load_new api now,
            pop_auth_subtree_nested = dirfrag_load_new api now,
            pop_spread = load_spread_new (dc_new api now), bloom = None, dir_auth = CDIR_AUTH_DEFAULT,
            waiting_for_commit = [], waiting_on_dentry = [], cd_log = []\<rparr> }"

section \<open>Reference counting\<close>

definition first_get :: "cdir \<Rightarrow> cdir" where
  "first_get c = log_call (OnInode GetDirfrag) c"

definition last_put :: "cdir \<Rightarrow> cdir" where
  "last_put c = log_call (OnInode PutDirfrag) c"

text \<open>\<^verbatim>\<open>CDir\<close> does not override \<^verbatim>\<open>_put\<close>: the third hook is the identity.\<close>

definition dget :: "int \<Rightarrow> cdir \<Rightarrow> cdir option" where
  "dget by c = co_get first_get by c"

definition dput :: "int \<Rightarrow> cdir \<Rightarrow> cdir option" where
  "dput by c = co_put last_put (\<lambda>c. c) by c"

definition request_pin_get :: "cdir \<Rightarrow> cdir option" where
  "request_pin_get c =
     do { c1 \<leftarrow> (if request_pins c = 0 then dget PIN_REQUEST c else Some c);
          Some (c1\<lparr>request_pins := request_pins c1 + 1\<rparr>) }"

definition request_pin_put :: "cdir \<Rightarrow> cdir option" where
  "request_pin_put c =
     (let c1 = c\<lparr>request_pins := request_pins c - 1\<rparr>
      in if request_pins c1 = 0 then dput PIN_REQUEST c1 else Some c1)"

interpretation dir_co: co_hooks first_get last_put "\<lambda>c. c"
  by unfold_locales (simp_all add: first_get_def last_put_def log_call_def mdsco.truncate_def)

section \<open>Accessors and predicates\<close>

definition get_version :: "cdir \<Rightarrow> version_t" where
  "get_version c = fn_version (fnode c)"

definition set_version :: "version_t \<Rightarrow> cdir \<Rightarrow> cdir option" where
  "set_version v c =
     do { assert_that (projected_fnode c = []);
          Some (c\<lparr>projected_version := v, fnode := (fnode c)\<lparr>fn_version := v\<rparr>\<rparr>) }"

definition get_projected_fnode :: "cdir \<Rightarrow> fnode_t" where
  "get_projected_fnode c = (if projected_fnode c = [] then fnode c else last (projected_fnode c))"

text \<open>Writing through the pointer \<^verbatim>\<open>get_projected_fnode()\<close> returns.\<close>

definition upd_projected_fnode :: "(fnode_t \<Rightarrow> fnode_t) \<Rightarrow> cdir \<Rightarrow> cdir" where
  "upd_projected_fnode f c =
     (if projected_fnode c = [] then c\<lparr>fnode := f (fnode c)\<rparr>
      else c\<lparr>projected_fnode := butlast (projected_fnode c) @ [f (last (projected_fnode c))]\<rparr>)"

definition is_projected :: "cdir \<Rightarrow> bool" where
  "is_projected c \<longleftrightarrow> projected_fnode c \<noteq> []"

definition get_num_any :: "cdir \<Rightarrow> u32" where
  "get_num_any c = num_head_items c + num_head_null c + num_snap_items c + num_snap_null c"

definition inc_num_dirty :: "cdir \<Rightarrow> cdir" where
  "inc_num_dirty c = c\<lparr>num_dirty := num_dirty c + 1\<rparr>"

definition dec_num_dirty :: "cdir \<Rightarrow> cdir option" where
  "dec_num_dirty c = do { assert_that (num_dirty c > 0); Some (c\<lparr>num_dirty := num_dirty c - 1\<rparr>) }"

definition get_frag_size :: "cdir \<Rightarrow> int" where
  "get_frag_size c = frag_info_size (fragstat (get_projected_fnode c))"

text \<open>\<^verbatim>\<open>(int)get_frag_size()\<close> narrows to 32 bits.\<close>

definition should_split :: "int \<Rightarrow> cdir \<Rightarrow> bool" where
  "should_split mds_bal_split_size c \<longleftrightarrow> signed_take_bit 31 (get_frag_size c) > mds_bal_split_size"

definition should_merge :: "int \<Rightarrow> cdir \<Rightarrow> bool" where
  "should_merge mds_bal_merge_size c \<longleftrightarrow> signed_take_bit 31 (get_frag_size c) < mds_bal_merge_size"

definition is_complete :: "cdir \<Rightarrow> bool" where "is_complete c = state_test STATE_COMPLETE c"
definition is_exporting :: "cdir \<Rightarrow> bool" where "is_exporting c = state_test STATE_EXPORTING c"
definition is_importing :: "cdir \<Rightarrow> bool" where "is_importing c = state_test STATE_IMPORTING c"
definition is_dirty_dft :: "cdir \<Rightarrow> bool" where "is_dirty_dft c = state_test STATE_DIRTYDFT c"
definition is_bad :: "cdir \<Rightarrow> bool" where "is_bad c = state_test STATE_BADFRAG c"

definition is_rep :: "cdir \<Rightarrow> bool" where
  "is_rep c = (if dir_rep c = REP_NONE then False else True)"

definition is_ambiguous_dir_auth :: "cdir \<Rightarrow> bool" where
  "is_ambiguous_dir_auth c \<longleftrightarrow> snd (dir_auth c) \<noteq> CDIR_AUTH_UNKNOWN"

definition is_full_dir_auth :: "cdir \<Rightarrow> bool" where
  "is_full_dir_auth c \<longleftrightarrow> is_auth c \<and> \<not> is_ambiguous_dir_auth c"

definition is_full_dir_nonauth :: "cdir \<Rightarrow> bool" where
  "is_full_dir_nonauth c \<longleftrightarrow> \<not> is_auth c \<and> \<not> is_ambiguous_dir_auth c"

definition is_subtree_root :: "cdir \<Rightarrow> bool" where
  "is_subtree_root c \<longleftrightarrow> dir_auth c \<noteq> CDIR_AUTH_DEFAULT"

definition authority :: "cdir \<Rightarrow> mds_authority_t" where
  "authority c = (if is_subtree_root c then dir_auth c else iv_authority (cd_inode c))"

definition get_dist_spec :: "mds_rank_t list \<Rightarrow> mds_rank_t \<Rightarrow> cdir \<Rightarrow> mds_rank_t list" where
  "get_dist_spec ls auth c =
     (if is_rep c then
        let ls1 = fold (\<lambda>p. os_insert (fst p)) (co_replica_map c) ls
        in if ls1 \<noteq> [] then os_insert auth ls1 else ls1
      else ls)"

section \<open>Lemmas on the frame\<close>

text \<open>What a directory's reference counting leaves alone: everything but the base object and
  the call log.\<close>

definition same_dir :: "cdir \<Rightarrow> cdir \<Rightarrow> bool" where
  "same_dir c d \<longleftrightarrow> c = d\<lparr>co_state := co_state c, co_ref := co_ref c, co_ref_map := co_ref_map c,
     co_replica_nonce := co_replica_nonce c, co_replica_map := co_replica_map c,
     co_waiting := co_waiting c, cd_log := cd_log c\<rparr>"

lemma same_dir_fields:
  assumes "same_dir c d"
  shows "cd_inode c = cd_inode d" "cd_frag c = cd_frag d" "fnode c = fnode d" "cd_first c = cd_first d"
    "dirty_old_rstat c = dirty_old_rstat d" "dirty_rstat_inodes c = dirty_rstat_inodes d"
    "projected_version c = projected_version d" "projected_fnode c = projected_fnode d"
    "item_dirty c = item_dirty d" "item_new c = item_new d" "items c = items d"
    "num_head_items c = num_head_items d" "num_head_null c = num_head_null d"
    "num_snap_items c = num_snap_items d" "num_snap_null c = num_snap_null d"
    "num_dirty c = num_dirty d" "committing_version c = committing_version d"
    "committed_version c = committed_version d" "auth_pins c = auth_pins d"
    "nested_auth_pins c = nested_auth_pins d" "dir_auth_pins c = dir_auth_pins d"
    "request_pins c = request_pins d" "dir_rep c = dir_rep d" "dir_rep_by c = dir_rep_by d"
    "pop_me c = pop_me d" "pop_nested c = pop_nested d" "pop_auth_subtree c = pop_auth_subtree d"
    "pop_auth_subtree_nested c = pop_auth_subtree_nested d" "pop_spread c = pop_spread d"
    "bloom c = bloom d" "dir_auth c = dir_auth d"
    "waiting_for_commit c = waiting_for_commit d" "waiting_on_dentry c = waiting_on_dentry d"
  using assms unfolding same_dir_def by - (erule ssubst, simp)+


text \<open>The base object does not see the fields of the directory.\<close>

lemma cdir_frame [frame_simps]:
  "pins (c\<lparr>cd_inode := x0\<rparr>) = pins c" "co_wf (c\<lparr>cd_inode := x0\<rparr>) = co_wf c"
  "co_inv (c\<lparr>cd_inode := x0\<rparr>) = co_inv c" "state_test m (c\<lparr>cd_inode := x0\<rparr>) = state_test m c"
  "pins (c\<lparr>cd_frag := x1\<rparr>) = pins c" "co_wf (c\<lparr>cd_frag := x1\<rparr>) = co_wf c"
  "co_inv (c\<lparr>cd_frag := x1\<rparr>) = co_inv c" "state_test m (c\<lparr>cd_frag := x1\<rparr>) = state_test m c"
  "pins (c\<lparr>fnode := x2\<rparr>) = pins c" "co_wf (c\<lparr>fnode := x2\<rparr>) = co_wf c"
  "co_inv (c\<lparr>fnode := x2\<rparr>) = co_inv c" "state_test m (c\<lparr>fnode := x2\<rparr>) = state_test m c"
  "pins (c\<lparr>cd_first := x3\<rparr>) = pins c" "co_wf (c\<lparr>cd_first := x3\<rparr>) = co_wf c"
  "co_inv (c\<lparr>cd_first := x3\<rparr>) = co_inv c" "state_test m (c\<lparr>cd_first := x3\<rparr>) = state_test m c"
  "pins (c\<lparr>dirty_old_rstat := x4\<rparr>) = pins c" "co_wf (c\<lparr>dirty_old_rstat := x4\<rparr>) = co_wf c"
  "co_inv (c\<lparr>dirty_old_rstat := x4\<rparr>) = co_inv c" "state_test m (c\<lparr>dirty_old_rstat := x4\<rparr>) = state_test m c"
  "pins (c\<lparr>dirty_rstat_inodes := x5\<rparr>) = pins c" "co_wf (c\<lparr>dirty_rstat_inodes := x5\<rparr>) = co_wf c"
  "co_inv (c\<lparr>dirty_rstat_inodes := x5\<rparr>) = co_inv c" "state_test m (c\<lparr>dirty_rstat_inodes := x5\<rparr>) = state_test m c"
  "pins (c\<lparr>projected_version := x6\<rparr>) = pins c" "co_wf (c\<lparr>projected_version := x6\<rparr>) = co_wf c"
  "co_inv (c\<lparr>projected_version := x6\<rparr>) = co_inv c" "state_test m (c\<lparr>projected_version := x6\<rparr>) = state_test m c"
  "pins (c\<lparr>projected_fnode := x7\<rparr>) = pins c" "co_wf (c\<lparr>projected_fnode := x7\<rparr>) = co_wf c"
  "co_inv (c\<lparr>projected_fnode := x7\<rparr>) = co_inv c" "state_test m (c\<lparr>projected_fnode := x7\<rparr>) = state_test m c"
  "pins (c\<lparr>item_dirty := x8\<rparr>) = pins c" "co_wf (c\<lparr>item_dirty := x8\<rparr>) = co_wf c"
  "co_inv (c\<lparr>item_dirty := x8\<rparr>) = co_inv c" "state_test m (c\<lparr>item_dirty := x8\<rparr>) = state_test m c"
  "pins (c\<lparr>item_new := x9\<rparr>) = pins c" "co_wf (c\<lparr>item_new := x9\<rparr>) = co_wf c"
  "co_inv (c\<lparr>item_new := x9\<rparr>) = co_inv c" "state_test m (c\<lparr>item_new := x9\<rparr>) = state_test m c"
  "pins (c\<lparr>items := x10\<rparr>) = pins c" "co_wf (c\<lparr>items := x10\<rparr>) = co_wf c"
  "co_inv (c\<lparr>items := x10\<rparr>) = co_inv c" "state_test m (c\<lparr>items := x10\<rparr>) = state_test m c"
  "pins (c\<lparr>num_head_items := x11\<rparr>) = pins c" "co_wf (c\<lparr>num_head_items := x11\<rparr>) = co_wf c"
  "co_inv (c\<lparr>num_head_items := x11\<rparr>) = co_inv c" "state_test m (c\<lparr>num_head_items := x11\<rparr>) = state_test m c"
  "pins (c\<lparr>num_head_null := x12\<rparr>) = pins c" "co_wf (c\<lparr>num_head_null := x12\<rparr>) = co_wf c"
  "co_inv (c\<lparr>num_head_null := x12\<rparr>) = co_inv c" "state_test m (c\<lparr>num_head_null := x12\<rparr>) = state_test m c"
  "pins (c\<lparr>num_snap_items := x13\<rparr>) = pins c" "co_wf (c\<lparr>num_snap_items := x13\<rparr>) = co_wf c"
  "co_inv (c\<lparr>num_snap_items := x13\<rparr>) = co_inv c" "state_test m (c\<lparr>num_snap_items := x13\<rparr>) = state_test m c"
  "pins (c\<lparr>num_snap_null := x14\<rparr>) = pins c" "co_wf (c\<lparr>num_snap_null := x14\<rparr>) = co_wf c"
  "co_inv (c\<lparr>num_snap_null := x14\<rparr>) = co_inv c" "state_test m (c\<lparr>num_snap_null := x14\<rparr>) = state_test m c"
  "pins (c\<lparr>num_dirty := x15\<rparr>) = pins c" "co_wf (c\<lparr>num_dirty := x15\<rparr>) = co_wf c"
  "co_inv (c\<lparr>num_dirty := x15\<rparr>) = co_inv c" "state_test m (c\<lparr>num_dirty := x15\<rparr>) = state_test m c"
  "pins (c\<lparr>committing_version := x16\<rparr>) = pins c" "co_wf (c\<lparr>committing_version := x16\<rparr>) = co_wf c"
  "co_inv (c\<lparr>committing_version := x16\<rparr>) = co_inv c" "state_test m (c\<lparr>committing_version := x16\<rparr>) = state_test m c"
  "pins (c\<lparr>committed_version := x17\<rparr>) = pins c" "co_wf (c\<lparr>committed_version := x17\<rparr>) = co_wf c"
  "co_inv (c\<lparr>committed_version := x17\<rparr>) = co_inv c" "state_test m (c\<lparr>committed_version := x17\<rparr>) = state_test m c"
  "pins (c\<lparr>auth_pins := x18\<rparr>) = pins c" "co_wf (c\<lparr>auth_pins := x18\<rparr>) = co_wf c"
  "co_inv (c\<lparr>auth_pins := x18\<rparr>) = co_inv c" "state_test m (c\<lparr>auth_pins := x18\<rparr>) = state_test m c"
  "pins (c\<lparr>nested_auth_pins := x19\<rparr>) = pins c" "co_wf (c\<lparr>nested_auth_pins := x19\<rparr>) = co_wf c"
  "co_inv (c\<lparr>nested_auth_pins := x19\<rparr>) = co_inv c" "state_test m (c\<lparr>nested_auth_pins := x19\<rparr>) = state_test m c"
  "pins (c\<lparr>dir_auth_pins := x20\<rparr>) = pins c" "co_wf (c\<lparr>dir_auth_pins := x20\<rparr>) = co_wf c"
  "co_inv (c\<lparr>dir_auth_pins := x20\<rparr>) = co_inv c" "state_test m (c\<lparr>dir_auth_pins := x20\<rparr>) = state_test m c"
  "pins (c\<lparr>request_pins := x21\<rparr>) = pins c" "co_wf (c\<lparr>request_pins := x21\<rparr>) = co_wf c"
  "co_inv (c\<lparr>request_pins := x21\<rparr>) = co_inv c" "state_test m (c\<lparr>request_pins := x21\<rparr>) = state_test m c"
  "pins (c\<lparr>dir_rep := x22\<rparr>) = pins c" "co_wf (c\<lparr>dir_rep := x22\<rparr>) = co_wf c"
  "co_inv (c\<lparr>dir_rep := x22\<rparr>) = co_inv c" "state_test m (c\<lparr>dir_rep := x22\<rparr>) = state_test m c"
  "pins (c\<lparr>dir_rep_by := x23\<rparr>) = pins c" "co_wf (c\<lparr>dir_rep_by := x23\<rparr>) = co_wf c"
  "co_inv (c\<lparr>dir_rep_by := x23\<rparr>) = co_inv c" "state_test m (c\<lparr>dir_rep_by := x23\<rparr>) = state_test m c"
  "pins (c\<lparr>pop_me := x24\<rparr>) = pins c" "co_wf (c\<lparr>pop_me := x24\<rparr>) = co_wf c"
  "co_inv (c\<lparr>pop_me := x24\<rparr>) = co_inv c" "state_test m (c\<lparr>pop_me := x24\<rparr>) = state_test m c"
  "pins (c\<lparr>pop_nested := x25\<rparr>) = pins c" "co_wf (c\<lparr>pop_nested := x25\<rparr>) = co_wf c"
  "co_inv (c\<lparr>pop_nested := x25\<rparr>) = co_inv c" "state_test m (c\<lparr>pop_nested := x25\<rparr>) = state_test m c"
  "pins (c\<lparr>pop_auth_subtree := x26\<rparr>) = pins c" "co_wf (c\<lparr>pop_auth_subtree := x26\<rparr>) = co_wf c"
  "co_inv (c\<lparr>pop_auth_subtree := x26\<rparr>) = co_inv c" "state_test m (c\<lparr>pop_auth_subtree := x26\<rparr>) = state_test m c"
  "pins (c\<lparr>pop_auth_subtree_nested := x27\<rparr>) = pins c" "co_wf (c\<lparr>pop_auth_subtree_nested := x27\<rparr>) = co_wf c"
  "co_inv (c\<lparr>pop_auth_subtree_nested := x27\<rparr>) = co_inv c" "state_test m (c\<lparr>pop_auth_subtree_nested := x27\<rparr>) = state_test m c"
  "pins (c\<lparr>pop_spread := x28\<rparr>) = pins c" "co_wf (c\<lparr>pop_spread := x28\<rparr>) = co_wf c"
  "co_inv (c\<lparr>pop_spread := x28\<rparr>) = co_inv c" "state_test m (c\<lparr>pop_spread := x28\<rparr>) = state_test m c"
  "pins (c\<lparr>bloom := x29\<rparr>) = pins c" "co_wf (c\<lparr>bloom := x29\<rparr>) = co_wf c"
  "co_inv (c\<lparr>bloom := x29\<rparr>) = co_inv c" "state_test m (c\<lparr>bloom := x29\<rparr>) = state_test m c"
  "pins (c\<lparr>dir_auth := x30\<rparr>) = pins c" "co_wf (c\<lparr>dir_auth := x30\<rparr>) = co_wf c"
  "co_inv (c\<lparr>dir_auth := x30\<rparr>) = co_inv c" "state_test m (c\<lparr>dir_auth := x30\<rparr>) = state_test m c"
  "pins (c\<lparr>waiting_for_commit := x31\<rparr>) = pins c" "co_wf (c\<lparr>waiting_for_commit := x31\<rparr>) = co_wf c"
  "co_inv (c\<lparr>waiting_for_commit := x31\<rparr>) = co_inv c" "state_test m (c\<lparr>waiting_for_commit := x31\<rparr>) = state_test m c"
  "pins (c\<lparr>waiting_on_dentry := x32\<rparr>) = pins c" "co_wf (c\<lparr>waiting_on_dentry := x32\<rparr>) = co_wf c"
  "co_inv (c\<lparr>waiting_on_dentry := x32\<rparr>) = co_inv c" "state_test m (c\<lparr>waiting_on_dentry := x32\<rparr>) = state_test m c"
  "pins (c\<lparr>cd_log := x33\<rparr>) = pins c" "co_wf (c\<lparr>cd_log := x33\<rparr>) = co_wf c"
  "co_inv (c\<lparr>cd_log := x33\<rparr>) = co_inv c" "state_test m (c\<lparr>cd_log := x33\<rparr>) = state_test m c"
  by (simp_all add: pins_def co_wf_def co_inv_def get_pin_totals_def state_test_def fun_eq_iff)

lemma log_call_fields [frame_simps]:
  "co_state (log_call e c) = co_state c" "co_ref (log_call e c) = co_ref c"
  "co_ref_map (log_call e c) = co_ref_map c" "co_replica_map (log_call e c) = co_replica_map c"
  "co_waiting (log_call e c) = co_waiting c" "cd_log (log_call e c) = cd_log c @ [e]"
  by (simp_all add: log_call_def)

lemma log_call_pins [frame_simps]:
  "pins (log_call e c) = pins c" "co_wf (log_call e c) = co_wf c" "co_inv (log_call e c) = co_inv c"
  by (simp_all add: pins_def co_wf_def co_inv_def get_pin_totals_def frame_simps fun_eq_iff)

lemma same_dir_refl [simp]: "same_dir c c"
  by (simp add: same_dir_def)

lemma same_dir_trans:
  assumes "same_dir a b" "same_dir b c"
  shows "same_dir a c"
proof -
  let ?U = "\<lambda>d. d\<lparr>co_state := co_state a, co_ref := co_ref a, co_ref_map := co_ref_map a,
     co_replica_nonce := co_replica_nonce a, co_replica_map := co_replica_map a,
     co_waiting := co_waiting a, cd_log := cd_log a\<rparr>"
  have "?U b = ?U c" by (subst assms(2) [unfolded same_dir_def]) simp
  moreover have "a = ?U b" using assms(1) unfolding same_dir_def .
  ultimately show ?thesis unfolding same_dir_def by (rule trans [rotated])
qed

lemma same_dir_log: "same_dir (log_call e c) c"
  by (simp add: same_dir_def log_call_def)

lemma same_dir_bump: "same_dir (bump by n c) c"
  by (simp add: same_dir_def bump_def)

text \<open>Taking and dropping a pin of a directory.\<close>

lemma dget_ok:
  assumes "co_wf c"
  obtains c' where "dget by c = Some c'" "same_dir c' c" "co_wf c'"
    "pins c' = (pins c)(by := pins c by + 1)" "co_state c' = co_state c"
    "co_replica_map c' = co_replica_map c" "co_waiting c' = co_waiting c" "co_ref c' = co_ref c + 1"
    "cd_log c' = (if co_ref c = 0 then cd_log c @ [OnInode GetDirfrag] else cd_log c)"
proof -
  have eq: "dget by c = Some (bump by 1 (if co_ref c = 0 then first_get c else c))"
    using dir_co.co_get_eq [OF assms] by (simp add: dget_def)
  have sd: "same_dir (bump by 1 (if co_ref c = 0 then first_get c else c)) c"
    by (auto intro: same_dir_trans same_dir_bump same_dir_log simp: first_get_def)
  have lg: "cd_log (bump by 1 (if co_ref c = 0 then first_get c else c)) =
      (if co_ref c = 0 then cd_log c @ [OnInode GetDirfrag] else cd_log c)"
    by (simp add: bump_def first_get_def log_call_def)
  show thesis
    by (rule dir_co.co_get_ok [OF assms, of "by"], rule that [OF eq sd])
      (use eq lg in \<open>simp_all add: dget_def\<close>)
qed

lemma dput_ok:
  assumes "co_wf c" "0 < pins c by"
  obtains c' where "dput by c = Some c'" "same_dir c' c" "co_wf c'"
    "pins c' = (pins c)(by := pins c by - 1)" "co_state c' = co_state c"
    "co_replica_map c' = co_replica_map c" "co_waiting c' = co_waiting c" "co_ref c' = co_ref c - 1"
    "cd_log c' = (if co_ref c = 1 then cd_log c @ [OnInode PutDirfrag] else cd_log c)"
proof -
  let ?d = "bump by (-1) c"
  have eq: "dput by c = Some (if co_ref ?d = 0 then last_put ?d else ?d)"
    using dir_co.co_put_eq [OF assms] by (simp add: dput_def Let_def)
  have sd: "same_dir (if co_ref ?d = 0 then last_put ?d else ?d) c"
    by (auto intro: same_dir_trans same_dir_bump same_dir_log simp: last_put_def)
  have lg: "cd_log (if co_ref ?d = 0 then last_put ?d else ?d) =
      (if co_ref c = 1 then cd_log c @ [OnInode PutDirfrag] else cd_log c)"
    by (simp add: bump_def last_put_def log_call_def)
  show thesis
    by (rule dir_co.co_put_ok [OF assms], rule that [OF eq sd])
      (use eq lg in \<open>simp_all add: dput_def\<close>)
qed

lemma dput_unpinned: "co_wf c \<Longrightarrow> pins c by = 0 \<Longrightarrow> dput by c = None"
  by (simp add: dput_def dir_co.co_put_unpinned)


section \<open>Concrete parameters for the examples\<close>

text \<open>Counters without decay, and the inode of a directory that is authoritative here.\<close>

definition plain_api :: dir_api where
  "plain_api = \<lparr>dc_new = (\<lambda>t. 0), dc_reset = (\<lambda>t c. 0), dc_get = (\<lambda>t r c. (c, c)),
     dc_get_last = (\<lambda>c. c), dc_hit = (\<lambda>t r v c. (c + v, c + v)), dc_adjust = (\<lambda>v c. c + v),
     dc_adjust_now = (\<lambda>t r v c. c + v), dc_scale = (\<lambda>f c. f * c)\<rparr>"

definition plain_inode :: inode_view where
  "plain_inode = \<lparr>iv_ino = 0x10000000000, iv_auth = True, iv_authority = (0, -2), iv_frozen = False,
     iv_frozen_dir = False, iv_nlink = 1, iv_snaprealm = False, iv_is_dir = True,
     iv_rstat_version = 0, iv_dirstat_version = 0\<rparr>"

definition plain_dir :: cdir where
  "plain_dir = the (cdir_new plain_api 0 plain_inode 0 True)"

lemma plain_dir_new: "cdir_new plain_api 0 plain_inode 0 True = Some plain_dir"
  by (simp add: plain_dir_def cdir_new_def plain_inode_def)

end
