(* ===== verification/CDir_Versions.thy ===== *)
theory CDir_Versions
  imports CDir_Base
begin

text \<open>
  The version bookkeeping of a directory: projected fragment nodes, \<^verbatim>\<open>pre_dirty\<close>, \<^verbatim>\<open>mark_dirty\<close>,
  \<^verbatim>\<open>mark_clean\<close>, the resynchronisation of accounted statistics, and the export and import of the
  directory's own state. A journal segment pointer is the flag saying whether it is non-null.
\<close>

section \<open>Operations\<close>

definition set_dirty_flag :: "cdir \<Rightarrow> cdir option" where
  "set_dirty_flag c =
     (if \<not> state_test STATE_DIRTY c then dget PIN_DIRTY (state_set STATE_DIRTY c) else Some c)"

definition mark_dirty_work :: "bool \<Rightarrow> cdir \<Rightarrow> cdir option" where
  "mark_dirty_work ls c =
     do { c1 \<leftarrow> (if \<not> state_test STATE_DIRTY c then
                  do { d \<leftarrow> set_dirty_flag c; assert_that ls; Some d }
                else Some c);
          if ls then
            let c2 = log_call (OnSegment PushDirty) (c1\<lparr>item_dirty := True\<rparr>)
            in Some (if committed_version c2 = 0 \<and> \<not> item_new c2
                     then log_call (OnSegment PushNew) (c2\<lparr>item_new := True\<rparr>) else c2)
          else Some c1 }"

definition project_fnode :: "cdir \<Rightarrow> cdir option" where
  "project_fnode c =
     do { assert_that (get_version c \<noteq> 0);
          Some (c\<lparr>projected_fnode := projected_fnode c @ [get_projected_fnode c]\<rparr>) }"

definition pop_and_dirty_projected_fnode :: "bool \<Rightarrow> cdir \<Rightarrow> cdir option" where
  "pop_and_dirty_projected_fnode ls c =
     do { assert_that (projected_fnode c \<noteq> []);
          c1 \<leftarrow> mark_dirty_work ls (c\<lparr>fnode := hd (projected_fnode c)\<rparr>);
          Some (c1\<lparr>projected_fnode := tl (projected_fnode c1)\<rparr>) }"

definition pre_dirty :: "version_t \<Rightarrow> cdir \<Rightarrow> version_t \<times> cdir" where
  "pre_dirty mn c =
     (let c1 = (if mn > projected_version c then c\<lparr>projected_version := mn\<rparr> else c);
          c2 = c1\<lparr>projected_version := projected_version c1 + 1\<rparr>
      in (projected_version c2, c2))"

definition mark_dirty :: "version_t \<Rightarrow> bool \<Rightarrow> cdir \<Rightarrow> cdir option" where
  "mark_dirty pv ls c =
     do { assert_that (get_version c < pv);
          assert_that (pv \<le> projected_version c);
          mark_dirty_work ls (c\<lparr>fnode := (fnode c)\<lparr>fn_version := pv\<rparr>\<rparr>) }"

definition mark_new :: "cdir \<Rightarrow> cdir" where
  "mark_new c = log_call (OnSegment PushNew) (c\<lparr>item_new := True\<rparr>)"

definition mark_clean :: "cdir \<Rightarrow> cdir option" where
  "mark_clean c =
     (if state_test STATE_DIRTY c then
        dput PIN_DIRTY (state_clear STATE_DIRTY (c\<lparr>item_dirty := False, item_new := False\<rparr>))
      else Some c)"

definition log_mark_dirty :: "cdir \<Rightarrow> cdir" where
  "log_mark_dirty c =
     (let (pv, c1) = pre_dirty 0 c
      in log_call (OnServer (LogWaitSafe pv)) (log_call (OnServer LogFlush) c1))"

definition remove_bloom :: "cdir \<Rightarrow> cdir" where
  "remove_bloom c = c\<lparr>bloom := None\<rparr>"

definition mark_complete :: "cdir \<Rightarrow> cdir" where
  "mark_complete c = remove_bloom (state_set STATE_COMPLETE c)"

definition resync_accounted_fragstat :: "cdir \<Rightarrow> cdir" where
  "resync_accounted_fragstat c =
     (let pf = get_projected_fnode c; v = iv_dirstat_version (cd_inode c)
      in if si_version (accounted_fragstat pf) \<noteq> v then
           upd_projected_fnode (\<lambda>f. let f1 = f\<lparr>fragstat := (fragstat f)\<lparr>si_version := v\<rparr>\<rparr>
                                    in f1\<lparr>accounted_fragstat := fragstat f1\<rparr>) c
         else c)"

definition resync_accounted_rstat :: "cdir \<Rightarrow> cdir" where
  "resync_accounted_rstat c =
     (let pf = get_projected_fnode c; v = iv_rstat_version (cd_inode c)
      in if si_version (fn_accounted_rstat pf) \<noteq> v then
           (upd_projected_fnode (\<lambda>f. let f1 = f\<lparr>fn_rstat := (fn_rstat f)\<lparr>si_version := v\<rparr>\<rparr>
                                     in f1\<lparr>fn_accounted_rstat := fn_rstat f1\<rparr>) c)\<lparr>dirty_old_rstat := []\<rparr>
         else c)"

section \<open>Export and import\<close>

text \<open>What \<^verbatim>\<open>encode_export\<close> writes and \<^verbatim>\<open>decode_import\<close> reads, field by field.\<close>

record dir_export =
  ex_first :: snapid_t
  ex_fnode :: fnode_t
  ex_dirty_old_rstat :: "(snapid_t \<times> old_rstat_t) list"
  ex_committed_version :: version_t
  ex_state :: u32
  ex_dir_rep :: int
  ex_pop_me :: "decay_counter list"
  ex_pop_auth_subtree :: "decay_counter list"
  ex_dir_rep_by :: "int list"
  ex_replica_map :: "(mds_rank_t \<times> u32) list"

definition encode_export :: "cdir \<Rightarrow> (dir_export \<times> cdir) option" where
  "encode_export c =
     do { assert_that (\<not> is_projected c);
          c1 \<leftarrow> dget PIN_TEMPEXPORTING c;
          Some (\<lparr>ex_first = cd_first c, ex_fnode = fnode c, ex_dirty_old_rstat = dirty_old_rstat c,
                 ex_committed_version = committed_version c, ex_state = co_state c,
                 ex_dir_rep = dir_rep c, ex_pop_me = pop_me c,
                 ex_pop_auth_subtree = pop_auth_subtree c, ex_dir_rep_by = dir_rep_by c,
                 ex_replica_map = co_replica_map c\<rparr>, c1) }"

definition finish_export :: "dir_api \<Rightarrow> double \<Rightarrow> utime_t \<Rightarrow> cdir \<Rightarrow> cdir option" where
  "finish_export api decayrate now c =
     (let c1 = c\<lparr>co_state := co_state c AND MASK_STATE_EXPORT_KEPT\<rparr>;
          (nested, sub) = dirfrag_load_sub api now decayrate (pop_auth_subtree_nested c1) (pop_auth_subtree c1);
          c2 = c1\<lparr>pop_auth_subtree_nested := nested, pop_me := dirfrag_load_zero api now (pop_me c1),
                  pop_auth_subtree := dirfrag_load_zero api now sub\<rparr>
      in do { c3 \<leftarrow> dput PIN_TEMPEXPORTING c2; Some (c3\<lparr>dirty_old_rstat := []\<rparr>) })"

definition abort_export :: "cdir \<Rightarrow> cdir option" where
  "abort_export c = dput PIN_TEMPEXPORTING c"

text \<open>
  The end of \<^verbatim>\<open>decode_import\<close>: imported statistics that are not yet accounted mark the inode's
  scatter locks. \<open>dft_stale\<close> is the test of the inode's fragment-tree lock: its state is not
  \<^verbatim>\<open>LOCK_MIX\<close> and it is stable.
\<close>

definition import_finish :: "bool \<Rightarrow> cdir \<Rightarrow> cdir" where
  "import_finish dft_stale c5 =
     (let c6 = (if dirty_old_rstat c5 \<noteq> [] \<or> fn_rstat (fnode c5) \<noteq> fn_accounted_rstat (fnode c5)
                then log_call (OnSegment PushDirtyNest) (log_call (OnSegment MarkUpdatedNestlock) c5)
                else c5);
          c7 = (if fragstat (fnode c6) \<noteq> accounted_fragstat (fnode c6)
                then log_call (OnSegment PushDirtyDir) (log_call (OnSegment MarkUpdatedFilelock) c6)
                else c6)
      in if is_dirty_dft c7 then
           if dft_stale then state_clear STATE_DIRTYDFT c7
           else log_call (OnSegment PushDirtyFragtree) (log_call (OnSegment MarkUpdatedFragtreelock) c7)
         else c7)"

text \<open>Decoding a load vector brings its counters to the time \<open>now\<close> (\<open>decode_vec\<close>).\<close>

definition decode_import :: "dir_api \<Rightarrow> double \<Rightarrow> (utime_t \<Rightarrow> decay_counter list \<Rightarrow> decay_counter list) \<Rightarrow>
    bool \<Rightarrow> dir_export \<Rightarrow> utime_t \<Rightarrow> bool \<Rightarrow> cdir \<Rightarrow> cdir option" where
  "decode_import api decayrate decode_vec dft_stale ex now ls c =
     (let c1 = c\<lparr>cd_first := ex_first ex, fnode := ex_fnode ex,
                 dirty_old_rstat := ex_dirty_old_rstat ex, projected_version := fn_version (ex_fnode ex),
                 committed_version := ex_committed_version ex,
                 committing_version := ex_committed_version ex,
                 co_state := (co_state c AND MASK_STATE_IMPORT_KEPT) OR (ex_state ex AND MASK_STATE_EXPORTED)\<rparr>
      in do {
        c2 \<leftarrow> (if is_dirty c1 then do { d \<leftarrow> dget PIN_DIRTY c1; mark_dirty_work ls d } else Some c1);
        let sub = decode_vec now (ex_pop_auth_subtree ex);
        let (nested, sub') = dirfrag_load_add api now decayrate (pop_auth_subtree_nested c2) sub;
        let c3 = c2\<lparr>dir_rep := ex_dir_rep ex, pop_me := decode_vec now (ex_pop_me ex),
                    pop_auth_subtree := sub', pop_auth_subtree_nested := nested,
                    dir_rep_by := ex_dir_rep_by ex, co_replica_map := ex_replica_map ex\<rparr>;
        c4 \<leftarrow> (if co_replica_map c3 \<noteq> [] then dget PIN_REPLICATED c3 else Some c3);
        Some (import_finish dft_stale (c4\<lparr>co_replica_nonce := 0\<rparr>)) })"

section \<open>State bits\<close>

lemma state_test_set: "state_test m (state_set m' c) \<longleftrightarrow> state_test m c \<or> m' AND m \<noteq> 0"
  by (auto simp: state_test_def state_set_def bit_eq_iff bit_simps)

lemma state_test_clear_same [simp]: "\<not> state_test m (state_clear m c)"
  by (simp add: state_test_def state_clear_def bit_eq_iff bit_simps)

lemma state_test_clear_other: "m AND m' = 0 \<Longrightarrow> state_test m (state_clear m' c) = state_test m c"
proof -
  assume "m AND m' = 0"
  then have "(co_state c AND NOT m') AND m = co_state c AND m"
    by (auto simp: bit_eq_iff bit_simps)
  then show ?thesis by (simp add: state_test_def state_clear_def)
qed

lemma state_ops_pins [frame_simps]:
  "pins (state_set m c) = pins c" "co_wf (state_set m c) = co_wf c" "co_ref (state_set m c) = co_ref c"
  "pins (state_clear m c) = pins c" "co_wf (state_clear m c) = co_wf c" "co_ref (state_clear m c) = co_ref c"
  "co_replica_map (state_set m c) = co_replica_map c" "co_replica_map (state_clear m c) = co_replica_map c"
  "co_waiting (state_set m c) = co_waiting c" "co_waiting (state_clear m c) = co_waiting c"
  by (simp_all add: state_set_def state_clear_def frame_simps)

lemma same_dir_state [simp]: "same_dir (state_set m c) c" "same_dir (state_clear m c) c"
  by (simp_all add: same_dir_def state_set_def state_clear_def)

lemmas state_set_fields = same_dir_fields [OF same_dir_state(1)]
lemmas state_clear_fields = same_dir_fields [OF same_dir_state(2)]
lemmas log_call_dir_fields = same_dir_fields [OF same_dir_log]

lemma state_log [frame_simps]:
  "cd_log (state_set m c) = cd_log c" "cd_log (state_clear m c) = cd_log c"
  by (simp_all add: state_set_def state_clear_def)

lemma state_test_log [frame_simps]: "state_test m (log_call e c) = state_test m c"
  by (simp add: state_test_def frame_simps)

section \<open>The dirty flag\<close>

definition dirty_inv :: "cdir \<Rightarrow> bool" where
  "dirty_inv c \<longleftrightarrow> co_wf c \<and> pins c PIN_DIRTY = (if state_test STATE_DIRTY c then 1 else 0)"

text \<open>What \<^verbatim>\<open>_mark_dirty\<close> leaves alone.\<close>

definition same_versions :: "cdir \<Rightarrow> cdir \<Rightarrow> bool" where
  "same_versions c d \<longleftrightarrow> fnode c = fnode d \<and> projected_fnode c = projected_fnode d \<and>
     projected_version c = projected_version d \<and> committed_version c = committed_version d \<and>
     committing_version c = committing_version d \<and> items c = items d"

lemma set_dirty_flag_ok:
  assumes "dirty_inv c"
  obtains c' where "set_dirty_flag c = Some c'" "dirty_inv c'" "state_test STATE_DIRTY c'" "same_dir c' c"
proof (cases "state_test STATE_DIRTY c")
  case True
  show thesis by (rule that [of c]) (use True assms in \<open>simp_all add: set_dirty_flag_def\<close>)
next
  case False
  have "co_wf (state_set STATE_DIRTY c)" using assms by (simp add: dirty_inv_def frame_simps)
  then obtain d where d: "dget PIN_DIRTY (state_set STATE_DIRTY c) = Some d" "same_dir d (state_set STATE_DIRTY c)"
    "co_wf d" "pins d = (pins (state_set STATE_DIRTY c))(PIN_DIRTY := pins (state_set STATE_DIRTY c) PIN_DIRTY + 1)"
    "co_state d = co_state (state_set STATE_DIRTY c)"
    by (rule dget_ok [of _ PIN_DIRTY])
  have t: "state_test STATE_DIRTY d"
    using state_test_set [of STATE_DIRTY STATE_DIRTY c] d(5) by (simp add: state_test_def state_bits)
  show thesis
  proof (rule that [of d])
    show "dirty_inv d" using d(3,4) t False assms by (simp add: dirty_inv_def frame_simps)
    show "same_dir d c" using d(2) same_dir_state(1) by (rule same_dir_trans)
  qed (use d t False in \<open>simp_all add: set_dirty_flag_def\<close>)
qed

lemma mark_dirty_work_ok:
  assumes "dirty_inv c" "ls \<or> state_test STATE_DIRTY c"
  obtains c' where "mark_dirty_work ls c = Some c'" "dirty_inv c'" "state_test STATE_DIRTY c'"
    "same_versions c' c" "ls \<Longrightarrow> item_dirty c'"
    "ls \<Longrightarrow> committed_version c = 0 \<Longrightarrow> item_new c'"
proof -
  obtain d where d: "set_dirty_flag c = Some d" "dirty_inv d" "state_test STATE_DIRTY d" "same_dir d c"
    by (rule set_dirty_flag_ok [OF assms(1)])
  have eq: "(if \<not> state_test STATE_DIRTY c then Option.bind (set_dirty_flag c) (\<lambda>d. Option.bind (assert_that ls) (\<lambda>_. Some d))
      else Some c) = Some d"
    using d(1) assms(2) by (auto simp: set_dirty_flag_def)
  note f = same_dir_fields [OF d(4)]
  show thesis
  proof (cases ls)
    case False
    with assms(2) have dc: "state_test STATE_DIRTY c" by simp
    with d(1) have "d = c" by (simp add: set_dirty_flag_def)
    then show thesis
      by (intro that [of c]) (use assms(1) False dc in \<open>simp_all add: mark_dirty_work_def same_versions_def\<close>)
  next
    case True
    let ?c2 = "log_call (OnSegment PushDirty) (d\<lparr>item_dirty := True\<rparr>)"
    let ?c3 = "if committed_version ?c2 = 0 \<and> \<not> item_new ?c2
               then log_call (OnSegment PushNew) (?c2\<lparr>item_new := True\<rparr>) else ?c2"
    have "dirty_inv ?c3" "state_test STATE_DIRTY ?c3"
      using d(2,3) by (simp_all add: dirty_inv_def frame_simps state_test_def)
    moreover have "same_versions ?c3 c" "item_dirty ?c3" "committed_version c = 0 \<longrightarrow> item_new ?c3"
      using f by (simp_all add: same_versions_def log_call_dir_fields)
    moreover have "mark_dirty_work ls c = Some ?c3"
      unfolding mark_dirty_work_def eq using True by (simp add: Let_def)
    ultimately show thesis by (intro that [of ?c3]) blast+
  qed
qed

lemma mark_clean_ok:
  assumes "dirty_inv c"
  obtains c' where "mark_clean c = Some c'" "dirty_inv c'" "\<not> state_test STATE_DIRTY c'" "same_versions c' c"
    "state_test STATE_DIRTY c \<Longrightarrow> \<not> item_dirty c'"
proof (cases "state_test STATE_DIRTY c")
  case False
  show thesis
    by (rule that [of c]) (use False assms in \<open>simp_all add: mark_clean_def same_versions_def\<close>)
next
  case True
  let ?d = "state_clear STATE_DIRTY (c\<lparr>item_dirty := False, item_new := False\<rparr>)"
  have w: "co_wf ?d" "0 < pins ?d PIN_DIRTY" using assms True by (simp_all add: dirty_inv_def frame_simps)
  obtain d where d: "dput PIN_DIRTY ?d = Some d" "same_dir d ?d" "co_wf d"
    "pins d = (pins ?d)(PIN_DIRTY := pins ?d PIN_DIRTY - 1)" "co_state d = co_state ?d"
    by (rule dput_ok [OF w])
  have t: "\<not> state_test STATE_DIRTY d"
    using state_test_clear_same [of STATE_DIRTY "c\<lparr>item_dirty := False, item_new := False\<rparr>"] d(5)
    by (simp add: state_test_def)
  note f = same_dir_fields [OF d(2)]
  show thesis
  proof (rule that [of d])
    show "mark_clean c = Some d" using d(1) True by (simp add: mark_clean_def)
    show "dirty_inv d" using d(3,4) t True assms by (simp add: dirty_inv_def frame_simps)
    show "same_versions d c" using f by (simp add: same_versions_def state_clear_fields)
    show "\<not> item_dirty d" using f by (simp add: state_clear_fields)
  qed (rule t)
qed


section \<open>Runs of the version protocol\<close>

text \<open>
  The ways the server drives a directory's versions: projecting a fragment node and numbering it
  (\<^verbatim>\<open>pf = dir->project_fnode(); pf->version = dir->pre_dirty()\<close>, \<^verbatim>\<open>src/src/mds/MDCache.cc\<close>), popping
  the oldest projection once it is journaled, dirtying the directory directly at a version handed
  out by \<^verbatim>\<open>pre_dirty\<close>, and marking it clean.
\<close>

datatype ver_op = VProject version_t | VPreDirty version_t | VPop bool | VMarkDirty version_t bool | VMarkClean

definition project_and_number :: "version_t \<Rightarrow> cdir \<Rightarrow> cdir option" where
  "project_and_number mn c =
     do { c1 \<leftarrow> project_fnode c;
          let (pv, c2) = pre_dirty mn c1;
          Some (upd_projected_fnode (\<lambda>f. f\<lparr>fn_version := pv\<rparr>) c2) }"

primrec ver_step :: "ver_op \<Rightarrow> cdir \<Rightarrow> cdir option" where
  "ver_step (VProject mn) c = project_and_number mn c"
| "ver_step (VPreDirty mn) c = Some (snd (pre_dirty mn c))"
| "ver_step (VPop ls) c = pop_and_dirty_projected_fnode ls c"
| "ver_step (VMarkDirty pv ls) c = mark_dirty pv ls c"
| "ver_step VMarkClean c = mark_clean c"

text \<open>
  The callers' discipline: version numbers do not wrap, only an outstanding projection is popped,
  a directory that becomes dirty is given a segment, and a direct dirtying comes before the
  projections that are numbered after it.
\<close>

definition ver_legal :: "ver_op \<Rightarrow> cdir \<Rightarrow> bool" where
  "ver_legal opn c = (case opn of
       VProject mn \<Rightarrow> max mn (projected_version c) < - 1
     | VPreDirty mn \<Rightarrow> max mn (projected_version c) < - 1
     | VPop ls \<Rightarrow> is_projected c \<and> (ls \<or> is_dirty c)
     | VMarkDirty pv ls \<Rightarrow> get_version c < pv \<and> pv \<le> projected_version c \<and>
         (\<forall>f\<in>set (projected_fnode c). pv < fn_version f) \<and> (ls \<or> is_dirty c)
     | VMarkClean \<Rightarrow> True)"

text \<open>A new directory that has been given its first version.\<close>

inductive ver_reach :: "cdir \<Rightarrow> bool" where
  ver_start: "cdir_new api now inode fg auth = Some c0 \<Longrightarrow> v \<noteq> 0 \<Longrightarrow> set_version v c0 = Some c \<Longrightarrow> ver_reach c"
| ver_next: "ver_reach c \<Longrightarrow> ver_legal opn c \<Longrightarrow> ver_step opn c = Some c' \<Longrightarrow> ver_reach c'"

definition versions :: "cdir \<Rightarrow> version_t list" where
  "versions c = get_version c # map fn_version (projected_fnode c)"

definition ver_inv :: "cdir \<Rightarrow> bool" where
  "ver_inv c \<longleftrightarrow> dirty_inv c \<and> get_version c \<noteq> 0 \<and> sorted_wrt (<) (versions c) \<and>
     (\<forall>v\<in>set (versions c). v \<le> projected_version c)"

lemma pre_dirty_ok:
  assumes "max mn (projected_version c) < - 1"
  obtains pv where "pre_dirty mn c = (pv, c\<lparr>projected_version := pv\<rparr>)" "projected_version c < pv" "mn < pv"
proof -
  have "pre_dirty mn c = (max mn (projected_version c) + 1, c\<lparr>projected_version := max mn (projected_version c) + 1\<rparr>)"
    by (auto simp: pre_dirty_def max_def Let_def)
  moreover have "max mn (projected_version c) < max mn (projected_version c) + 1"
    using assms by (rule word_less_Suc)
  ultimately show thesis by (intro that) auto
qed

lemma dirty_inv_upd [frame_simps]:
  "dirty_inv (c\<lparr>fnode := x1\<rparr>) = dirty_inv c" "dirty_inv (c\<lparr>projected_fnode := x2\<rparr>) = dirty_inv c"
  "dirty_inv (c\<lparr>projected_version := v\<rparr>) = dirty_inv c"
  by (simp_all add: dirty_inv_def frame_simps state_test_def)

lemma ver_step_legal:
  assumes "ver_inv c" "ver_legal opn c"
  shows "\<exists>c'. ver_step opn c = Some c' \<and> ver_inv c' \<and> get_version c \<le> get_version c'"
proof (cases opn)
  case (VProject mn)
  then obtain pv where pv: "pre_dirty mn (c\<lparr>projected_fnode := projected_fnode c @ [get_projected_fnode c]\<rparr>) =
      (pv, c\<lparr>projected_fnode := projected_fnode c @ [get_projected_fnode c], projected_version := pv\<rparr>)"
      "projected_version c < pv"
    using assms(2) pre_dirty_ok [of mn "c\<lparr>projected_fnode := projected_fnode c @ [get_projected_fnode c]\<rparr>"]
    by (auto simp: ver_legal_def)
  let ?c = "c\<lparr>projected_fnode := projected_fnode c @ [(get_projected_fnode c)\<lparr>fn_version := pv\<rparr>], projected_version := pv\<rparr>"
  have step: "ver_step opn c = Some ?c"
    using VProject pv(1) assms(1)
    by (simp add: project_and_number_def project_fnode_def upd_projected_fnode_def ver_inv_def)
  have "versions ?c = versions c @ [pv]" by (simp add: versions_def get_version_def)
  then have "ver_inv ?c"
    using assms(1) pv(2) by (fastforce simp: ver_inv_def frame_simps sorted_wrt_append get_version_def)
  with step show ?thesis by (auto simp: get_version_def)
next
  case (VPreDirty mn)
  then obtain pv where pv: "pre_dirty mn c = (pv, c\<lparr>projected_version := pv\<rparr>)" "projected_version c < pv"
    using assms(2) pre_dirty_ok [of mn c] by (auto simp: ver_legal_def)
  have "ver_inv (c\<lparr>projected_version := pv\<rparr>)"
    using assms(1) pv(2) by (fastforce simp: ver_inv_def frame_simps versions_def get_version_def)
  with VPreDirty pv show ?thesis by (auto simp: get_version_def)
next
  case (VPop ls)
  then obtain f fs where pf: "projected_fnode c = f # fs" and l: "ls \<or> is_dirty c"
    using assms(2) by (cases "projected_fnode c") (auto simp: ver_legal_def is_projected_def)
  have "dirty_inv (c\<lparr>fnode := f\<rparr>)" using assms(1) by (simp add: ver_inv_def frame_simps)
  moreover have "ls \<or> state_test STATE_DIRTY (c\<lparr>fnode := f\<rparr>)" using l by (simp add: is_dirty_def state_test_def)
  ultimately obtain d where d: "mark_dirty_work ls (c\<lparr>fnode := f\<rparr>) = Some d" "dirty_inv d" "same_versions d (c\<lparr>fnode := f\<rparr>)"
    by (rule mark_dirty_work_ok)
  let ?c = "d\<lparr>projected_fnode := fs\<rparr>"
  have v: "versions c = get_version c # versions ?c" "projected_version ?c = projected_version c"
    using d(3) pf by (simp_all add: versions_def get_version_def same_versions_def)
  have nz: "get_version ?c \<noteq> 0" "get_version c < get_version ?c"
    using assms(1) v by (auto simp: ver_inv_def versions_def)
  have "ver_inv ?c" using assms(1) d(2) v nz by (simp add: ver_inv_def frame_simps)
  with nz VPop pf d show ?thesis by (auto simp: pop_and_dirty_projected_fnode_def same_versions_def)
next
  case (VMarkDirty pv ls)
  let ?c1 = "c\<lparr>fnode := (fnode c)\<lparr>fn_version := pv\<rparr>\<rparr>"
  from VMarkDirty assms(2) have l: "get_version c < pv" "pv \<le> projected_version c"
    "\<forall>f\<in>set (projected_fnode c). pv < fn_version f" "ls \<or> is_dirty c" by (auto simp: ver_legal_def)
  have "dirty_inv ?c1" using assms(1) by (simp add: ver_inv_def frame_simps)
  moreover have "ls \<or> state_test STATE_DIRTY ?c1" using l by (simp add: is_dirty_def state_test_def)
  ultimately obtain d where d: "mark_dirty_work ls ?c1 = Some d" "dirty_inv d" "same_versions d ?c1"
    by (rule mark_dirty_work_ok)
  have "get_version d = pv" "versions d = pv # map fn_version (projected_fnode c)" "projected_version d = projected_version c"
    using d(3) by (simp_all add: same_versions_def get_version_def versions_def)
  moreover have "pv \<noteq> 0" using l(1) by auto
  ultimately have "ver_inv d"
    using assms(1) d(2) l by (simp add: ver_inv_def versions_def)
  with VMarkDirty d l \<open>get_version d = pv\<close> show ?thesis by (auto simp: mark_dirty_def)
next
  case VMarkClean
  obtain d where d: "mark_clean c = Some d" "dirty_inv d" "same_versions d c"
    using assms(1) by (auto simp: ver_inv_def elim: mark_clean_ok)
  have "get_version d = get_version c" "versions d = versions c" "projected_version d = projected_version c"
    using d(3) by (simp_all add: same_versions_def get_version_def versions_def)
  with VMarkClean d assms(1) show ?thesis by (auto simp: ver_inv_def)
qed

lemma ver_start_inv:
  assumes "cdir_new api now inode fg auth = Some c0" "v \<noteq> 0" "set_version v c0 = Some c"
  shows "ver_inv c"
  using assms
  by (auto simp: cdir_new_def set_version_def ver_inv_def dirty_inv_def versions_def get_version_def
      co_wf_def pins_def om_get_def get_pin_totals_def state_test_def state_bits split: if_splits)

lemma ver_reach_inv: "ver_reach c \<Longrightarrow> ver_inv c"
proof (induction rule: ver_reach.induct)
  case (ver_next c opn c')
  from ver_step_legal [OF ver_next.IH ver_next.hyps(2)] ver_next.hyps(3) show ?case by auto
qed (rule ver_start_inv)


section \<open>Importing what was exported\<close>

lemma state_test_pow2:
  assumes "i < 32"
  shows "state_test (push_bit i 1) c \<longleftrightarrow> bit (co_state c) i"
  by (simp add: state_test_def and_exp_eq_0_iff_not_bit push_bit_of_1)

lemmas state_test_bit = state_test_pow2 [of 1, folded STATE_COMPLETE_def, simplified]
  state_test_pow2 [of 2, folded STATE_FROZENTREE_def, simplified]
  state_test_pow2 [of 18, folded STATE_DIRTYDFT_def, simplified]
  state_test_pow2 [of 19, folded STATE_BADFRAG_def, simplified]
  state_test_pow2 [of 29, folded STATE_DIRTY_def, simplified]
  state_test_pow2 [of 30, folded STATE_AUTH_def, simplified]


lemma bit_single: "i < 32 \<Longrightarrow> bit (push_bit i (1 :: u32)) n \<longleftrightarrow> n = i"
  by (auto simp: push_bit_of_1 bit_exp_iff)

lemmas bit_dirtydft = bit_single [of 18, folded STATE_DIRTYDFT_def, simplified]

lemma mark_dirty_work_already:
  assumes "state_test STATE_DIRTY c"
  obtains c' where "mark_dirty_work True c = Some c'" "co_state c' = co_state c" "pins c' = pins c"
    "co_wf c' = co_wf c" "fnode c' = fnode c" "projected_version c' = projected_version c"
    "committed_version c' = committed_version c" "committing_version c' = committing_version c"
    "item_dirty c'"
proof -
  let ?c2 = "log_call (OnSegment PushDirty) (c\<lparr>item_dirty := True\<rparr>)"
  show thesis
    by (rule that [of "if committed_version ?c2 = 0 \<and> \<not> item_new ?c2
        then log_call (OnSegment PushNew) (?c2\<lparr>item_new := True\<rparr>) else ?c2"])
      (use assms in \<open>simp_all add: mark_dirty_work_def Let_def frame_simps log_call_dir_fields\<close>)
qed

definition imported_state :: "u32 \<Rightarrow> u32 \<Rightarrow> u32" where
  "imported_state s x = (s AND MASK_STATE_IMPORT_KEPT) OR (x AND MASK_STATE_EXPORTED)"

lemma imported_state_bits:
  "bit (imported_state s x) 29 = bit x 29" "bit (imported_state s x) 1 = bit x 1"
  "bit (imported_state s x) 18 = bit x 18" "bit (imported_state s x) 19 = bit x 19"
  "bit (imported_state s x) 2 = bit s 2" "\<not> bit (imported_state s x) 30"
  by (simp_all add: imported_state_def MASK_STATE_IMPORT_KEPT_def MASK_STATE_EXPORTED_def state_bits
      bit_simps push_bit_of_1 del: push_bit_numeral_minus_1)


text \<open>The two stages of \<^verbatim>\<open>decode_import\<close>: the dirty flag, then the replicas.\<close>

lemma import_dirty_stage:
  assumes "co_wf c" "pins c PIN_DIRTY = 0" "co_state c = imported_state s (co_state src)"
  obtains c' where
    "(if is_dirty c then Option.bind (dget PIN_DIRTY c) (mark_dirty_work True) else Some c) = Some c'"
    "co_wf c'" "pins c' = (pins c)(PIN_DIRTY := if is_dirty src then 1 else 0)" "co_state c' = co_state c"
    "fnode c' = fnode c" "projected_version c' = projected_version c"
    "committed_version c' = committed_version c" "committing_version c' = committing_version c"
proof -
  have d: "is_dirty c = is_dirty src"
    using assms(3) by (simp add: is_dirty_def state_test_bit imported_state_bits)
  show thesis
  proof (cases "is_dirty c")
    case False
    show thesis by (rule that [of c]) (use False assms d in auto)
  next
    case True
    obtain c1 where c1: "dget PIN_DIRTY c = Some c1" "same_dir c1 c" "co_wf c1"
      "pins c1 = (pins c)(PIN_DIRTY := pins c PIN_DIRTY + 1)" "co_state c1 = co_state c"
      by (rule dget_ok [OF assms(1), of PIN_DIRTY])
    have "state_test STATE_DIRTY c1" using True c1(5) by (simp add: is_dirty_def state_test_def)
    then obtain c2 where c2: "mark_dirty_work True c1 = Some c2" "co_state c2 = co_state c1" "pins c2 = pins c1"
      "co_wf c2 = co_wf c1" "fnode c2 = fnode c1" "projected_version c2 = projected_version c1"
      "committed_version c2 = committed_version c1" "committing_version c2 = committing_version c1"
      by (rule mark_dirty_work_already)
    show thesis
      by (rule that [of c2]) (use True d c1 c2 assms(2) same_dir_fields [OF c1(2)] in simp_all)
  qed
qed

lemma import_replica_stage:
  assumes "co_wf c" "pins c PIN_REPLICATED = 0"
  obtains c' where
    "(if co_replica_map c \<noteq> [] then dget PIN_REPLICATED c else Some c) = Some c'"
    "co_wf c'" "pins c' = (pins c)(PIN_REPLICATED := if co_replica_map c \<noteq> [] then 1 else 0)"
    "co_state c' = co_state c" "co_replica_map c' = co_replica_map c"
    "fnode c' = fnode c" "projected_version c' = projected_version c"
    "committed_version c' = committed_version c" "committing_version c' = committing_version c"
    "dirty_old_rstat c' = dirty_old_rstat c"
proof (cases "co_replica_map c = []")
  case True
  show thesis by (rule that [of c]) (use True assms in auto)
next
  case False
  obtain c1 where c1: "dget PIN_REPLICATED c = Some c1" "same_dir c1 c" "co_wf c1"
    "pins c1 = (pins c)(PIN_REPLICATED := pins c PIN_REPLICATED + 1)" "co_state c1 = co_state c"
    "co_replica_map c1 = co_replica_map c"
    by (rule dget_ok [OF assms(1), of PIN_REPLICATED])
  show thesis
    by (rule that [of c1]) (use False c1 assms(2) same_dir_fields [OF c1(2)] in simp_all)
qed

lemma get_num_ref_pins: "0 \<le> by \<Longrightarrow> get_num_ref by c = pins c by"
  by (simp add: get_num_ref_def pins_def om_get_def)

lemma import_finish_fields:
  "fnode (import_finish b d) = fnode d" "projected_version (import_finish b d) = projected_version d"
  "committed_version (import_finish b d) = committed_version d"
  "committing_version (import_finish b d) = committing_version d"
  "co_replica_map (import_finish b d) = co_replica_map d"
  "co_replica_nonce (import_finish b d) = co_replica_nonce d" "pins (import_finish b d) = pins d"
  "co_state (import_finish b d) = co_state d AND (if bit (co_state d) 18 \<and> b then NOT STATE_DIRTYDFT else - 1)"
  by (simp_all add: import_finish_def Let_def frame_simps log_call_dir_fields state_clear_fields
      is_dirty_dft_def state_test_bit) (simp_all add: log_call_def state_clear_def)

lemma decode_import_ok:
  assumes "encode_export src = Some (ex, src')" "co_wf c" "pins c PIN_DIRTY = 0" "pins c PIN_REPLICATED = 0"
  obtains c' where "decode_import api rate decode_vec dft_stale ex now True c = Some c'"
    "fnode c' = fnode src" "projected_version c' = get_version src"
    "committed_version c' = committed_version src" "committing_version c' = committed_version src"
    "co_replica_map c' = co_replica_map src" "co_replica_nonce c' = 0"
    "co_state c' = imported_state (co_state c) (co_state src) AND
       (if bit (co_state src) 18 \<and> dft_stale then NOT STATE_DIRTYDFT else - 1)"
    "pins c' PIN_DIRTY = (if is_dirty src then 1 else 0)"
    "pins c' PIN_REPLICATED = (if co_replica_map src \<noteq> [] then 1 else 0)"
proof -
  have ex: "ex_fnode ex = fnode src" "ex_committed_version ex = committed_version src"
    "ex_state ex = co_state src" "ex_replica_map ex = co_replica_map src"
    using assms(1) by (auto simp: encode_export_def bind_eq_Some_conv)
  define c1 where "c1 = c\<lparr>cd_first := ex_first ex, fnode := ex_fnode ex,
       dirty_old_rstat := ex_dirty_old_rstat ex, projected_version := fn_version (ex_fnode ex),
       committed_version := ex_committed_version ex, committing_version := ex_committed_version ex,
       co_state := (co_state c AND MASK_STATE_IMPORT_KEPT) OR (ex_state ex AND MASK_STATE_EXPORTED)\<rparr>"
  have s1: "co_wf c1" "pins c1 = pins c" "co_state c1 = imported_state (co_state c) (co_state src)"
    using assms(2) ex by (simp_all add: c1_def frame_simps imported_state_def)
  have p1: "pins c1 PIN_DIRTY = 0" using assms(3) s1(2) by simp
  obtain c2 where c2: "(if is_dirty c1 then Option.bind (dget PIN_DIRTY c1) (mark_dirty_work True) else Some c1) = Some c2"
    "co_wf c2" "pins c2 = (pins c1)(PIN_DIRTY := if is_dirty src then 1 else 0)" "co_state c2 = co_state c1"
    "fnode c2 = fnode c1" "projected_version c2 = projected_version c1"
    "committed_version c2 = committed_version c1" "committing_version c2 = committing_version c1"
    by (rule import_dirty_stage [OF s1(1) p1 s1(3)])
  obtain nested sub' where ld: "dirfrag_load_add api now rate (pop_auth_subtree_nested c2)
      (decode_vec now (ex_pop_auth_subtree ex)) = (nested, sub')" by fastforce
  define c3 where "c3 = c2\<lparr>dir_rep := ex_dir_rep ex, pop_me := decode_vec now (ex_pop_me ex),
       pop_auth_subtree := sub', pop_auth_subtree_nested := nested,
       dir_rep_by := ex_dir_rep_by ex, co_replica_map := ex_replica_map ex\<rparr>"
  have s3: "co_wf c3" "pins c3 = pins c2" "co_replica_map c3 = co_replica_map src" "co_state c3 = co_state c2"
    "fnode c3 = fnode c2" "projected_version c3 = projected_version c2"
    "committed_version c3 = committed_version c2" "committing_version c3 = committing_version c2"
    using c2(2) ex by (simp_all add: c3_def frame_simps)
  have p3: "pins c3 PIN_REPLICATED = 0" using s3 c2(3) s1(2) assms(4) by (simp add: co_pin_defs)
  obtain c4 where c4: "(if co_replica_map c3 \<noteq> [] then dget PIN_REPLICATED c3 else Some c3) = Some c4"
    "pins c4 = (pins c3)(PIN_REPLICATED := if co_replica_map c3 \<noteq> [] then 1 else 0)"
    "co_state c4 = co_state c3" "co_replica_map c4 = co_replica_map c3"
    "fnode c4 = fnode c3" "projected_version c4 = projected_version c3"
    "committed_version c4 = committed_version c3" "committing_version c4 = committing_version c3"
    by (rule import_replica_stage [OF s3(1) p3])
  note sum = c4(2-) s3 c2(3-) s1 ex
  let ?r = "decode_import api rate decode_vec dft_stale ex now True c"
  have r: "?r = Some (import_finish dft_stale (c4\<lparr>co_replica_nonce := 0\<rparr>))"
    unfolding decode_import_def Let_def c1_def [symmetric] c2(1)
    by (simp only: bind.bind_lunit ld prod.case c3_def [symmetric] c4(1))
  show thesis
    by (rule that [OF r])
      (use sum in \<open>simp_all add: import_finish_fields frame_simps imported_state_bits get_version_def c1_def co_pin_defs\<close>)
qed

section \<open>Properties\<close>

text \<open>C5: however a directory's versions are driven within the callers' discipline, no step aborts;
  the version never goes back; the outstanding projections carry strictly increasing versions above
  the current one and none beyond the projected version; and the directory holds exactly one dirty
  pin while it is dirty and none otherwise.\<close>

theorem version_protocol:
  assumes "ver_reach c" "ver_legal opn c"
  shows "\<exists>c'. ver_step opn c = Some c' \<and> get_version c \<le> get_version c' \<and>
    sorted_wrt (<) (get_version c' # map fn_version (projected_fnode c')) \<and>
    (\<forall>f\<in>set (projected_fnode c'). fn_version f \<le> projected_version c') \<and>
    get_num_ref PIN_DIRTY c' = (if is_dirty c' then 1 else 0)"
  using ver_step_legal [OF ver_reach_inv [OF assms(1)] assms(2)]
  by (auto simp: ver_inv_def versions_def dirty_inv_def is_dirty_def get_num_ref_pins co_pin_defs)

theorem version_protocol_witness:
  "ver_reach (plain_dir\<lparr>projected_version := 1, fnode := fnode_new\<lparr>fn_version := 1\<rparr>\<rparr>) \<and>
   (\<exists>c'. ver_step (VProject 7) (plain_dir\<lparr>projected_version := 1, fnode := fnode_new\<lparr>fn_version := 1\<rparr>\<rparr>) = Some c' \<and>
      get_version c' \<ge> 1)"
proof -
  let ?c = "plain_dir\<lparr>projected_version := 1, fnode := fnode_new\<lparr>fn_version := 1\<rparr>\<rparr>"
  have n: "projected_fnode plain_dir = []" "fnode plain_dir = fnode_new"
    by (simp_all add: plain_dir_def cdir_new_def plain_inode_def)
  have r: "ver_reach ?c"
    by (rule ver_start [OF plain_dir_new, of 1]) (simp_all add: set_version_def n)
  have "max 7 1 < (- 1 :: version_t)" by code_simp
  then have l: "ver_legal (VProject 7) ?c" by (simp add: ver_legal_def)
  show ?thesis using version_protocol [OF r l] r by (auto simp: get_version_def)
qed

text \<open>C36: importing what a directory exported reproduces its fragment node and versions, its
  completeness, dirtiness and replicas (a dirty fragment tree is dropped when the lock shows it
  stale), leaves the importer's own freeze alone, does not make it authoritative, and takes exactly
  the pins that go with the imported state.\<close>

theorem import_of_export:
  assumes "encode_export src = Some (ex, src')" "co_wf c"
    "get_num_ref PIN_DIRTY c = 0" "get_num_ref PIN_REPLICATED c = 0"
  shows "\<exists>c'. decode_import api rate decode_vec dft_stale ex now True c = Some c' \<and>
    fnode c' = fnode src \<and> projected_version c' = get_version src \<and>
    committed_version c' = committed_version src \<and> committing_version c' = committed_version src \<and>
    co_replica_map c' = co_replica_map src \<and> co_replica_nonce c' = 0 \<and>
    is_complete c' = is_complete src \<and> is_dirty c' = is_dirty src \<and> is_bad c' = is_bad src \<and>
    is_dirty_dft c' = (is_dirty_dft src \<and> \<not> dft_stale) \<and>
    state_test STATE_FROZENTREE c' = state_test STATE_FROZENTREE c \<and> \<not> is_auth c' \<and>
    get_num_ref PIN_DIRTY c' = (if is_dirty src then 1 else 0) \<and>
    get_num_ref PIN_REPLICATED c' = (if is_replicated src then 1 else 0)"
proof -
  have "pins c PIN_DIRTY = 0" "pins c PIN_REPLICATED = 0"
    using assms(3,4) by (simp_all add: get_num_ref_pins co_pin_defs)
  then obtain c' where c': "decode_import api rate decode_vec dft_stale ex now True c = Some c'"
    "fnode c' = fnode src" "projected_version c' = get_version src"
    "committed_version c' = committed_version src" "committing_version c' = committed_version src"
    "co_replica_map c' = co_replica_map src" "co_replica_nonce c' = 0"
    "co_state c' = imported_state (co_state c) (co_state src) AND
       (if bit (co_state src) 18 \<and> dft_stale then NOT STATE_DIRTYDFT else - 1)"
    "pins c' PIN_DIRTY = (if is_dirty src then 1 else 0)"
    "pins c' PIN_REPLICATED = (if co_replica_map src \<noteq> [] then 1 else 0)"
    by (rule decode_import_ok [OF assms(1,2)])
  show ?thesis
    by (rule exI [of _ c'])
      (use c' in \<open>auto simp: is_complete_def is_dirty_def is_bad_def is_dirty_dft_def is_auth_def
         is_replicated_def state_test_bit get_num_ref_pins co_pin_defs bit_simps imported_state_bits
         imported_state_bits(2) [unfolded One_nat_def] bit_dirtydft\<close>)
qed

theorem import_of_export_witness:
  "\<exists>ex src' c'. encode_export plain_dir = Some (ex, src') \<and>
     decode_import plain_api 1 (\<lambda>t v. v) True ex 5 True plain_dir = Some c' \<and> \<not> is_auth c'"
proof -
  have wf: "co_wf plain_dir"
    by (simp add: plain_dir_def cdir_new_def plain_inode_def co_wf_def pins_def om_get_def get_pin_totals_def)
  obtain d where d: "dget PIN_TEMPEXPORTING plain_dir = Some d" by (rule dget_ok [OF wf, of PIN_TEMPEXPORTING])
  have "projected_fnode plain_dir = []" by (simp add: plain_dir_def cdir_new_def plain_inode_def)
  then obtain ex src' where e: "encode_export plain_dir = Some (ex, src')"
    using d by (simp add: encode_export_def is_projected_def)
  have "get_num_ref PIN_DIRTY plain_dir = 0" "get_num_ref PIN_REPLICATED plain_dir = 0"
    by (simp_all add: plain_dir_def cdir_new_def plain_inode_def get_num_ref_def co_pin_defs)
  from import_of_export [OF e wf this] show ?thesis using e by blast
qed

end
