(* ===== verification/CDir_Items.thy ===== *)
theory CDir_Items
  imports CDir_Versions
begin

text \<open>
  The contents of a directory: looking an entry up, adding, linking, unlinking and removing
  entries, the four entry counters, the trimming of null and snapped entries, the consistency
  check of the statistics and the bloom filter. An entry is passed by its key in \<^verbatim>\<open>items\<close>.

  What \<^verbatim>\<open>CDentry\<close> contributes is the record \<open>dentry_env\<close>: the number of the head snapshot, the
  entry its constructor makes (the arguments are written into it), its fragmenting state bit and
  its \<^verbatim>\<open>mark_clean\<close> and \<^verbatim>\<open>remove_client_leases\<close>.
\<close>

record dentry_env =
  nosnap :: snapid_t
  blank_dentry :: dentry
  dn_STATE_FRAGMENTING :: u32
  x_mark_clean :: "dentry \<Rightarrow> dentry"
  x_remove_leases :: "dentry \<Rightarrow> dentry"

section \<open>Lookup\<close>

definition lookup_exact_snap :: "string \<Rightarrow> snapid_t \<Rightarrow> cdir \<Rightarrow> dentry option" where
  "lookup_exact_snap dname lst c = map_of (items c) (DKey lst (c_str dname))"

definition lookup :: "string \<Rightarrow> snapid_t \<Rightarrow> cdir \<Rightarrow> dentry option" where
  "lookup name snap c =
     (case om_lower_bound (DKey snap name) (items c) of
        [] \<Rightarrow> None
      | p # _ \<Rightarrow> if dn_name (snd p) = name \<and> dn_first (snd p) \<le> snap then Some (snd p) else None)"

section \<open>Adding\<close>

definition pin_fragmenting :: "dentry_env \<Rightarrow> cdir \<Rightarrow> dentry \<Rightarrow> dentry" where
  "pin_fragmenting env c dn =
     (if state_test STATE_DNPINNEDFRAG c
      then dn\<lparr>dn_num_ref := dn_num_ref dn + 1, dn_state := dn_state dn OR dn_STATE_FRAGMENTING env\<rparr>
      else dn)"

text \<open>The part the three \<^verbatim>\<open>add_\<close> functions share: the new entry, before it is linked.\<close>

definition new_dentry :: "dentry_env \<Rightarrow> string \<Rightarrow> snapid_t \<Rightarrow> snapid_t \<Rightarrow> linkage \<Rightarrow> cdir \<Rightarrow> dentry" where
  "new_dentry env dname fst' lst lk c =
     (let dn = (blank_dentry env)\<lparr>dn_name := dname, dn_first := fst', dn_last := lst, dn_linkage := lk\<rparr>;
          dn1 = (if is_auth c then dn\<lparr>dn_state := dn_state dn OR STATE_AUTH\<rparr> else dn)
      in dn1\<lparr>dn_version := projected_version c\<rparr>)"

definition pin_child_and_check :: "cdir \<Rightarrow> cdir option" where
  "pin_child_and_check c =
     do { c1 \<leftarrow> (if get_num_any c = 1 then dget PIN_CHILD c else Some c);
          assert_that (unat (get_num_any c1) = length (items c1));
          Some c1 }"

definition count_null :: "dentry_env \<Rightarrow> snapid_t \<Rightarrow> u32 \<Rightarrow> cdir \<Rightarrow> cdir" where
  "count_null env lst n c =
     (if lst = nosnap env then c\<lparr>num_head_null := num_head_null c + n\<rparr>
      else c\<lparr>num_snap_null := num_snap_null c + n\<rparr>)"

definition count_item :: "dentry_env \<Rightarrow> snapid_t \<Rightarrow> u32 \<Rightarrow> cdir \<Rightarrow> cdir" where
  "count_item env lst n c =
     (if lst = nosnap env then c\<lparr>num_head_items := num_head_items c + n\<rparr>
      else c\<lparr>num_snap_items := num_snap_items c + n\<rparr>)"

definition add_null_dentry :: "dentry_env \<Rightarrow> string \<Rightarrow> snapid_t \<Rightarrow> snapid_t \<Rightarrow> cdir
    \<Rightarrow> (dentry \<times> cdir) option" where
  "add_null_dentry env dname fst' lst c =
     do { assert_that (lookup_exact_snap dname lst c = None);
          let dn = new_dentry env dname fst' lst LNull c;
          let c1 = log_call (OnDentry (dn_key dn) LruInsertMid) c;
          assert_that (map_of (items c1) (dn_key dn) = None);
          let c2 = count_null env lst 1 c1;
          let dn' = pin_fragmenting env c2 dn;
          c3 \<leftarrow> pin_child_and_check (c2\<lparr>items := om_set (dn_key dn) dn' (items c2)\<rparr>);
          Some (dn', c3) }"

text \<open>
  \<^verbatim>\<open>link_inode_work\<close>: a pinned inode pins its entry, its auth pins are nested in it, and its
  snap realm is told. The two assertions at its head hold by the assignments of its callers.
\<close>

definition link_inode_work :: "dentry \<Rightarrow> cinode \<Rightarrow> cdir \<Rightarrow> dentry \<times> cdir" where
  "link_inode_work dn ci c =
     (let dn1 = (if ci_num_ref ci \<noteq> 0 then dn\<lparr>dn_num_ref := dn_num_ref dn + 1\<rparr> else dn);
          c1 = (if ci_auth_pins ci + ci_nested_auth_pins ci \<noteq> 0
                then log_call (OnDentry (dn_key dn)
                       (AdjustNested (ci_auth_pins ci + ci_nested_auth_pins ci) (ci_auth_pins ci))) c
                else c);
          c2 = (if ci_snaprealm ci then log_call (OnChild (ci_ino ci) AdjustRealmParent) c1 else c1)
      in (dn1, c2))"

definition add_primary_dentry :: "dentry_env \<Rightarrow> string \<Rightarrow> cinode \<Rightarrow> snapid_t \<Rightarrow> snapid_t \<Rightarrow> cdir
    \<Rightarrow> (dentry \<times> cdir) option" where
  "add_primary_dentry env dname ci fst' lst c =
     do { assert_that (lookup_exact_snap dname lst c = None);
          let dn = new_dentry env dname fst' lst (LPrimary ci) c;
          let c1 = log_call (OnDentry (dn_key dn) LruInsertMid) c;
          assert_that (map_of (items c1) (dn_key dn) = None);
          let c2 = log_call (OnChild (ci_ino ci) (SetPrimaryParent (dn_key dn))) c1;
          let (dn1, c3) = link_inode_work dn ci c2;
          let c4 = count_item env lst 1 c3;
          let dn' = pin_fragmenting env c4 dn1;
          c5 \<leftarrow> pin_child_and_check (c4\<lparr>items := om_set (dn_key dn) dn' (items c4)\<rparr>);
          Some (dn', c5) }"

definition add_remote_dentry :: "dentry_env \<Rightarrow> string \<Rightarrow> inodeno_t \<Rightarrow> nat \<Rightarrow> snapid_t \<Rightarrow> snapid_t \<Rightarrow> cdir
    \<Rightarrow> (dentry \<times> cdir) option" where
  "add_remote_dentry env dname ino d_type fst' lst c =
     do { assert_that (lookup_exact_snap dname lst c = None);
          let dn = new_dentry env dname fst' lst (LRemote ino d_type False) c;
          let c1 = log_call (OnDentry (dn_key dn) LruInsertMid) c;
          assert_that (map_of (items c1) (dn_key dn) = None);
          let c2 = count_item env lst 1 c1;
          let dn' = pin_fragmenting env c2 dn;
          c3 \<leftarrow> pin_child_and_check (c2\<lparr>items := om_set (dn_key dn) dn' (items c2)\<rparr>);
          Some (dn', c3) }"

section \<open>Linking, unlinking and removing\<close>

definition unlink_inode_work :: "dentry \<Rightarrow> cdir \<Rightarrow> (dentry \<times> cdir) option" where
  "unlink_inode_work dn c =
     (case dn_linkage dn of
        LRemote ino d_type bound \<Rightarrow>
          Some (dn\<lparr>dn_linkage := LNull\<rparr>,
                if bound then log_call (OnDentry (dn_key dn) UnlinkRemote) c else c)
      | LPrimary ci \<Rightarrow>
          let dn1 = (if ci_num_ref ci \<noteq> 0 then dn\<lparr>dn_num_ref := dn_num_ref dn - 1\<rparr> else dn);
              c1 = (if ci_auth_pins ci + ci_nested_auth_pins ci \<noteq> 0
                    then log_call (OnDentry (dn_key dn)
                           (AdjustNested (0 - (ci_auth_pins ci + ci_nested_auth_pins ci)) (0 - ci_auth_pins ci))) c
                    else c)
          in Some (dn1\<lparr>dn_linkage := LNull\<rparr>,
                   log_call (OnChild (ci_ino ci) (RemovePrimaryParent (dn_key dn))) c1)
      | LNull \<Rightarrow> None)"

definition unpin_child_and_check :: "cdir \<Rightarrow> cdir option" where
  "unpin_child_and_check c =
     do { c1 \<leftarrow> (if get_num_any c = 0 then dput PIN_CHILD c else Some c);
          assert_that (unat (get_num_any c1) = length (items c1));
          Some c1 }"

definition remove_dentry :: "dentry_env \<Rightarrow> dentry_key_t \<Rightarrow> cdir \<Rightarrow> cdir option" where
  "remove_dentry env k c =
     do { dn \<leftarrow> map_of (items c) k;
          assert_that (dn_leases dn = 0);
          let dn1 = (if state_test STATE_DNPINNEDFRAG c
                     then dn\<lparr>dn_num_ref := dn_num_ref dn - 1,
                             dn_state := dn_state dn AND NOT (dn_STATE_FRAGMENTING env)\<rparr>
                     else dn);
          let c1 = (if is_null dn1 then count_null env (dn_last dn1) (-1) c
                    else count_item env (dn_last dn1) (-1) c);
          (dn2, c2) \<leftarrow> (if \<not> is_null dn1 then unlink_inode_work dn1 c1 else Some (dn1, c1));
          let c3 = c2\<lparr>items := om_erase k (items c2)\<rparr>;
          let c4 = (if dn_is_dirty dn2 then log_call (OnDentry k MarkClean) c3 else c3);
          unpin_child_and_check (log_call (OnDentry k LruRemove) c4) }"

definition link_remote_inode :: "dentry_env \<Rightarrow> dentry_key_t \<Rightarrow> inodeno_t \<Rightarrow> nat \<Rightarrow> cdir \<Rightarrow> cdir option" where
  "link_remote_inode env k ino d_type c =
     do { dn \<leftarrow> map_of (items c) k;
          assert_that (is_null dn);
          let c1 = c\<lparr>items := om_set k (dn\<lparr>dn_linkage := LRemote ino d_type False\<rparr>) (items c)\<rparr>;
          let c2 = count_null env (dn_last dn) (-1) (count_item env (dn_last dn) 1 c1);
          assert_that (unat (get_num_any c2) = length (items c2));
          Some c2 }"

definition link_primary_inode :: "dentry_env \<Rightarrow> dentry_key_t \<Rightarrow> cinode \<Rightarrow> cdir \<Rightarrow> cdir option" where
  "link_primary_inode env k ci c =
     do { dn \<leftarrow> map_of (items c) k;
          assert_that (is_null dn);
          let c1 = log_call (OnChild (ci_ino ci) (SetPrimaryParent k)) c;
          let (dn1, c2) = link_inode_work (dn\<lparr>dn_linkage := LPrimary ci\<rparr>) ci c1;
          let c3 = c2\<lparr>items := om_set k dn1 (items c2)\<rparr>;
          let c4 = count_null env (dn_last dn) (-1) (count_item env (dn_last dn) 1 c3);
          assert_that (unat (get_num_any c4) = length (items c4));
          Some c4 }"

definition unlink_inode :: "dentry_env \<Rightarrow> dentry_key_t \<Rightarrow> cdir \<Rightarrow> cdir option" where
  "unlink_inode env k c =
     do { dn \<leftarrow> map_of (items c) k;
          (dn1, c1) \<leftarrow> unlink_inode_work dn c;
          let c2 = c1\<lparr>items := om_set k dn1 (items c1)\<rparr>;
          let c3 = count_null env (dn_last dn) 1 (count_item env (dn_last dn) (-1) c2);
          assert_that (unat (get_num_any c3) = length (items c3));
          Some c3 }"

definition bool_int :: "bool \<Rightarrow> int" where
  "bool_int b = (if b then 1 else 0)"

definition try_remove_unlinked_dn :: "dentry_env \<Rightarrow> dentry_key_t \<Rightarrow> cdir \<Rightarrow> cdir option" where
  "try_remove_unlinked_dn env k c =
     do { dn \<leftarrow> map_of (items c) k;
          assert_that (is_null dn);
          if dn_num_ref dn \<noteq> bool_int (dn_is_dirty dn) then Some c
          else if dn_new dn then
            let c1 = (if dn_is_dirty dn
                      then log_call (OnDentry k MarkClean) (c\<lparr>items := om_set k (x_mark_clean env dn) (items c)\<rparr>)
                      else c)
            in remove_dentry env k c1
          else Some c }"

section \<open>Sweeps over the entries\<close>

text \<open>
  The sweeps advance their iterator before they may remove the entry it was on: they visit the
  keys the directory had at the start, and each visit removes at most its own entry.
\<close>

fun remove_nulls :: "dentry_env \<Rightarrow> dentry_key_t list \<Rightarrow> cdir \<Rightarrow> cdir option" where
  "remove_nulls env [] c = Some c"
| "remove_nulls env (k # ks) c =
     do { dn \<leftarrow> map_of (items c) k;
          c1 \<leftarrow> (if is_null dn \<and> \<not> dn_projected dn then remove_dentry env k c else Some c);
          remove_nulls env ks c1 }"

definition remove_null_dentries :: "dentry_env \<Rightarrow> cdir \<Rightarrow> cdir option" where
  "remove_null_dentries env c =
     do { c1 \<leftarrow> remove_nulls env (map fst (items c)) c;
          assert_that (num_snap_null c1 = 0);
          assert_that (num_head_null c1 = 0);
          assert_that (unat (get_num_any c1) = length (items c1));
          Some c1 }"

definition try_trim_snap_dentry :: "dentry_env \<Rightarrow> snapid_t list \<Rightarrow> dentry_key_t \<Rightarrow> cdir
    \<Rightarrow> (bool \<times> cdir) option" where
  "try_trim_snap_dentry env snaps k c =
     do { dn \<leftarrow> map_of (items c) k;
          assert_that (dn_last dn \<noteq> nosnap env);
          let rest = dropWhile (\<lambda>s. s < dn_first dn) snaps;
          let ci = (case dn_linkage dn of LPrimary ci \<Rightarrow> Some ci | _ \<Rightarrow> None);
          if (rest = [] \<or> hd rest > dn_last dn) \<and> dn_num_ref dn = bool_int (dn_is_dirty dn) \<and>
             (case ci of None \<Rightarrow> True | Some ci \<Rightarrow> ci_num_ref ci = bool_int (ci_dirty ci))
          then do {
            let c1 = (case ci of Some ci \<Rightarrow> if ci_dirty ci then log_call (OnChild (ci_ino ci) ChildMarkClean) c else c
                      | None \<Rightarrow> c);
            c2 \<leftarrow> remove_dentry env k c1;
            Some (True, case ci of Some ci \<Rightarrow> log_call (OnChild (ci_ino ci) RemoveInode) c2 | None \<Rightarrow> c2) }
          else Some (False, c) }"

fun purge_loop :: "dentry_env \<Rightarrow> snapid_t list \<Rightarrow> dentry_key_t list \<Rightarrow> cdir \<Rightarrow> cdir option" where
  "purge_loop env snaps [] c = Some c"
| "purge_loop env snaps (k # ks) c =
     do { dn \<leftarrow> map_of (items c) k;
          c1 \<leftarrow> (if dn_last dn = nosnap env then Some c
                else map_option snd (try_trim_snap_dentry env snaps k c));
          purge_loop env snaps ks c1 }"

definition purge_stale_snap_data :: "dentry_env \<Rightarrow> snapid_t list \<Rightarrow> cdir \<Rightarrow> cdir option" where
  "purge_stale_snap_data env snaps c = purge_loop env snaps (map fst (items c)) c"

definition touch_dentries_bottom :: "cdir \<Rightarrow> cdir" where
  "touch_dentries_bottom c = fold (\<lambda>p. log_call (OnDentry (fst p) TouchBottom)) (items c) c"

text \<open>One visit of \<^verbatim>\<open>try_remove_dentries_for_stray\<close>.\<close>

definition stray_visit :: "dentry_env \<Rightarrow> bool \<Rightarrow> dentry_key_t \<Rightarrow> cdir \<Rightarrow> cdir option" where
  "stray_visit env clear_dirty k c =
     do { dn \<leftarrow> map_of (items c) k;
          if dn_last dn = nosnap env then
            if \<not> is_null dn \<or> dn_projected dn then Some c
            else
              let clean = clear_dirty \<and> dn_is_dirty dn;
                  dn1 = (if clean then x_mark_clean env dn else dn);
                  c1 = (if clean then log_call (OnDentry k MarkClean) c else c);
                  leased = dn_leases dn1 \<noteq> 0;
                  dn2 = (if leased then x_remove_leases env dn1 else dn1);
                  c2 = (if leased then log_call (OnDentry k RemoveLeases) c1 else c1);
                  c3 = c2\<lparr>items := om_set k dn2 (items c2)\<rparr>
              in if dn_num_ref dn2 = 0 then remove_dentry env k c3 else Some c3
          else if dn_projected dn then Some c
          else
            let ci = (case dn_linkage dn of LPrimary ci \<Rightarrow> Some ci | _ \<Rightarrow> None);
                c1 = (case ci of Some ci \<Rightarrow> if clear_dirty \<and> ci_dirty ci
                                           then log_call (OnChild (ci_ino ci) ChildMarkClean) c else c
                      | None \<Rightarrow> c);
                clean = clear_dirty \<and> dn_is_dirty dn;
                dn1 = (if clean then x_mark_clean env dn else dn);
                c2 = (if clean then log_call (OnDentry k MarkClean) c1 else c1);
                c3 = c2\<lparr>items := om_set k dn1 (items c2)\<rparr>
            in if dn_num_ref dn1 = 0 then
                 do { c4 \<leftarrow> remove_dentry env k c3;
                      Some (case ci of Some ci \<Rightarrow> log_call (OnChild (ci_ino ci) RemoveInode) c4 | None \<Rightarrow> c4) }
               else Some c3 }"

fun stray_loop :: "dentry_env \<Rightarrow> bool \<Rightarrow> dentry_key_t list \<Rightarrow> cdir \<Rightarrow> cdir option" where
  "stray_loop env clear_dirty [] c = Some c"
| "stray_loop env clear_dirty (k # ks) c =
     do { c1 \<leftarrow> stray_visit env clear_dirty k c; stray_loop env clear_dirty ks c1 }"

definition try_remove_dentries_for_stray :: "dentry_env \<Rightarrow> cdir \<Rightarrow> cdir option" where
  "try_remove_dentries_for_stray env c =
     do { assert_that (iv_nlink (cd_inode c) = 0);
          let clear_dirty = (\<not> iv_snaprealm (cd_inode c));
          c1 \<leftarrow> stray_loop env clear_dirty (map fst (items c)) c;
          if clear_dirty \<and> is_dirty c1 then mark_clean c1 else Some c1 }"

section \<open>Consistency of the statistics, bloom filter\<close>

fun sum_rstats :: "dentry_env \<Rightarrow> (dentry_key_t \<times> dentry) list \<Rightarrow> nest_info_t \<Rightarrow> nest_info_t" where
  "sum_rstats env [] n = n"
| "sum_rstats env (p # ps) n =
     sum_rstats env ps
       (case dn_linkage (snd p) of
          LPrimary ci \<Rightarrow> if dn_last (snd p) = nosnap env then nest_info_add (ci_accounted_rstat ci) 1 n else n
        | _ \<Rightarrow> n)"

text \<open>\<open>frozen\<close> is \<^verbatim>\<open>is_frozen()\<close>.\<close>

definition check_rstats :: "dentry_env \<Rightarrow> bool \<Rightarrow> bool \<Rightarrow> cdir \<Rightarrow> bool option" where
  "check_rstats env mds_debug_scatterstat frozen c =
     (if \<not> mds_debug_scatterstat then Some True
      else if \<not> is_complete c \<or> \<not> is_auth c \<or> frozen then Some True
      else do {
        assert_that (int (unat (num_head_items c)) = nfiles (fragstat (fnode c)) + nsubdirs (fragstat (fnode c)));
        let sub_info = sum_rstats env (items c) nest_info_zero;
        assert_that (rbytes sub_info = rbytes (fn_rstat (fnode c)));
        assert_that (rfiles sub_info = rfiles (fn_rstat (fnode c)));
        assert_that (rsubdirs sub_info = rsubdirs (fn_rstat (fnode c)));
        Some True })"

text \<open>The filter itself is outside the sources: it is the list of the names put into it.\<close>

definition add_to_bloom :: "string \<Rightarrow> cdir \<Rightarrow> cdir" where
  "add_to_bloom name c =
     (case bloom c of
        None \<Rightarrow> if \<not> is_complete c then c else c\<lparr>bloom := Some [name]\<rparr>
      | Some ns \<Rightarrow> c\<lparr>bloom := Some (ns @ [name])\<rparr>)"

definition is_in_bloom :: "(string list \<Rightarrow> string \<Rightarrow> bool) \<Rightarrow> string \<Rightarrow> cdir \<Rightarrow> bool" where
  "is_in_bloom contains name c = (case bloom c of None \<Rightarrow> False | Some ns \<Rightarrow> contains ns name)"


section \<open>Counting the entries\<close>

definition head_item :: "dentry_env \<Rightarrow> dentry \<Rightarrow> bool" where
  "head_item env dn \<longleftrightarrow> \<not> is_null dn \<and> dn_last dn = nosnap env"
definition head_null :: "dentry_env \<Rightarrow> dentry \<Rightarrow> bool" where
  "head_null env dn \<longleftrightarrow> is_null dn \<and> dn_last dn = nosnap env"
definition snap_item :: "dentry_env \<Rightarrow> dentry \<Rightarrow> bool" where
  "snap_item env dn \<longleftrightarrow> \<not> is_null dn \<and> dn_last dn \<noteq> nosnap env"
definition snap_null :: "dentry_env \<Rightarrow> dentry \<Rightarrow> bool" where
  "snap_null env dn \<longleftrightarrow> is_null dn \<and> dn_last dn \<noteq> nosnap env"

lemmas kind_defs = head_item_def head_null_def snap_item_def snap_null_def

definition ind :: "bool \<Rightarrow> u32" where
  "ind b = (if b then 1 else 0)"

definition tally :: "(dentry \<Rightarrow> bool) \<Rightarrow> (dentry_key_t \<times> dentry) list \<Rightarrow> u32" where
  "tally P m = (\<Sum>p\<leftarrow>m. ind (P (snd p)))"

lemma tally_length: "tally P m = of_nat (length (filter (\<lambda>p. P (snd p)) m))"
  by (induction m) (auto simp: tally_def ind_def)

lemma tally_set:
  "om_ok m \<Longrightarrow> tally P (om_set k v m) =
     tally P m - (case map_of m k of None \<Rightarrow> 0 | Some w \<Rightarrow> ind (P w)) + ind (P v)"
  unfolding tally_def by (subst om_sum_assign) (auto split: option.splits)

lemma tally_erase:
  "om_ok m \<Longrightarrow> tally P (om_erase k m) =
     tally P m - (case map_of m k of None \<Rightarrow> 0 | Some w \<Rightarrow> ind (P w))"
  unfolding tally_def by (subst om_sum_erase) (auto split: option.splits)

lemma tally_kinds:
  "tally (head_item env) m + tally (head_null env) m + tally (snap_item env) m + tally (snap_null env) m
   = of_nat (length m)"
  by (induction m) (auto simp: tally_def ind_def kind_defs ac_simps)

definition counts_ok :: "dentry_env \<Rightarrow> cdir \<Rightarrow> bool" where
  "counts_ok env c \<longleftrightarrow> num_head_items c = tally (head_item env) (items c) \<and>
     num_head_null c = tally (head_null env) (items c) \<and>
     num_snap_items c = tally (snap_item env) (items c) \<and>
     num_snap_null c = tally (snap_null env) (items c)"

definition items_inv :: "dentry_env \<Rightarrow> cdir \<Rightarrow> bool" where
  "items_inv env c \<longleftrightarrow> co_wf c \<and> om_ok (items c) \<and> (\<forall>p\<in>set (items c). fst p = dn_key (snd p)) \<and>
     counts_ok env c \<and> pins c PIN_CHILD = (if items c = [] then 0 else 1) \<and> length (items c) < 2 ^ 32"

lemma num_any: "counts_ok env c \<Longrightarrow> get_num_any c = of_nat (length (items c))"
  using tally_kinds [of env "items c"] by (simp add: counts_ok_def get_num_any_def)

lemma unat_of_nat32: "n < 2 ^ 32 \<Longrightarrow> unat (of_nat n :: u32) = n"
  by (simp add: unat_of_nat take_bit_nat_eq_self)

lemma count_fields [frame_simps]:
  "items (count_null env l n c) = items c" "items (count_item env l n c) = items c"
  "pins (count_null env l n c) = pins c" "pins (count_item env l n c) = pins c"
  "co_wf (count_null env l n c) = co_wf c" "co_wf (count_item env l n c) = co_wf c"
  "state_test m (count_null env l n c) = state_test m c" "state_test m (count_item env l n c) = state_test m c"
  by (simp_all add: count_null_def count_item_def frame_simps)

lemma count_nums [frame_simps]:
  "num_head_null (count_null env l n c) = num_head_null c + (if l = nosnap env then n else 0)"
  "num_snap_null (count_null env l n c) = num_snap_null c + (if l = nosnap env then 0 else n)"
  "num_head_items (count_null env l n c) = num_head_items c"
  "num_snap_items (count_null env l n c) = num_snap_items c"
  "num_head_items (count_item env l n c) = num_head_items c + (if l = nosnap env then n else 0)"
  "num_snap_items (count_item env l n c) = num_snap_items c + (if l = nosnap env then 0 else n)"
  "num_head_null (count_item env l n c) = num_head_null c"
  "num_snap_null (count_item env l n c) = num_snap_null c"
  by (simp_all add: count_null_def count_item_def)

lemma pin_child_ok:
  assumes "co_wf c" "counts_ok env c" "length (items c) < 2 ^ 32" "items c \<noteq> []"
    "pins c PIN_CHILD = (if length (items c) = 1 then 0 else 1)"
  obtains c' where "pin_child_and_check c = Some c'" "same_dir c' c" "co_wf c'"
    "pins c' PIN_CHILD = 1" "co_state c' = co_state c"
proof -
  have any: "get_num_any c = of_nat (length (items c))" by (rule num_any [OF assms(2)])
  have u: "unat (get_num_any c) = length (items c)" using any assms(3) by (simp add: unat_of_nat32)
  have one: "get_num_any c = 1 \<longleftrightarrow> length (items c) = 1"
    using u by (simp add: word_unat_eq_iff)
  show thesis
  proof (cases "length (items c) = 1")
    case True
    obtain d where d: "dget PIN_CHILD c = Some d" "same_dir d c" "co_wf d"
      "pins d = (pins c)(PIN_CHILD := pins c PIN_CHILD + 1)" "co_state d = co_state c"
      by (rule dget_ok [OF assms(1), of PIN_CHILD])
    have "get_num_any d = get_num_any c" "items d = items c"
      using same_dir_fields [OF d(2)] by (simp_all add: get_num_any_def)
    then show thesis
      by (intro that [of d]) (use d True one u assms(5) in \<open>simp_all add: pin_child_and_check_def\<close>)
  next
    case False
    show thesis
      by (rule that [of c]) (use False one u assms in \<open>simp_all add: pin_child_and_check_def\<close>)
  qed
qed

lemma unpin_child_ok:
  assumes "co_wf c" "counts_ok env c" "length (items c) < 2 ^ 32" "pins c PIN_CHILD = 1"
  obtains c' where "unpin_child_and_check c = Some c'" "same_dir c' c" "co_wf c'"
    "pins c' PIN_CHILD = (if items c = [] then 0 else 1)" "co_state c' = co_state c"
proof -
  have any: "get_num_any c = of_nat (length (items c))" by (rule num_any [OF assms(2)])
  have u: "unat (get_num_any c) = length (items c)" using any assms(3) by (simp add: unat_of_nat32)
  have zero: "get_num_any c = 0 \<longleftrightarrow> items c = []" using u by (metis length_0_conv unat_eq_zero)
  show thesis
  proof (cases "items c = []")
    case True
    have "0 < pins c PIN_CHILD" using assms(4) by simp
    then obtain d where d: "dput PIN_CHILD c = Some d" "same_dir d c" "co_wf d"
      "pins d = (pins c)(PIN_CHILD := pins c PIN_CHILD - 1)" "co_state d = co_state c"
      by (rule dput_ok [OF assms(1)])
    have "get_num_any d = get_num_any c" "items d = items c"
      using same_dir_fields [OF d(2)] by (simp_all add: get_num_any_def)
    then show thesis
      by (intro that [of d]) (use d True zero u assms(4) in \<open>simp_all add: unpin_child_and_check_def\<close>)
  next
    case False
    show thesis
      by (rule that [of c]) (use False zero u assms in \<open>simp_all add: unpin_child_and_check_def\<close>)
  qed
qed

lemma items_inv_same_dir:
  assumes "same_dir c' c" "co_wf c'" "om_ok (items c)" "\<forall>p\<in>set (items c). fst p = dn_key (snd p)"
    "counts_ok env c" "pins c' PIN_CHILD = (if items c = [] then 0 else 1)" "length (items c) < 2 ^ 32"
  shows "items_inv env c'"
  using assms(2-) same_dir_fields [OF assms(1)] by (simp add: items_inv_def counts_ok_def)


section \<open>Each operation keeps the entries and their counters in step\<close>

lemma put_new_entry:
  assumes inv: "items_inv env c" and new: "map_of (items c) (dn_key dn) = None"
    and room: "Suc (length (items c)) < 2 ^ 32"
    and d: "co_wf d" "pins d = pins c" "items d = items c"
      "num_head_items d = num_head_items c + ind (head_item env dn)"
      "num_head_null d = num_head_null c + ind (head_null env dn)"
      "num_snap_items d = num_snap_items c + ind (snap_item env dn)"
      "num_snap_null d = num_snap_null c + ind (snap_null env dn)"
  obtains c' where "pin_child_and_check (d\<lparr>items := om_set (dn_key dn) dn (items d)\<rparr>) = Some c'"
    "items_inv env c'" "items c' = om_set (dn_key dn) dn (items c)"
proof -
  let ?e = "d\<lparr>items := om_set (dn_key dn) dn (items d)\<rparr>"
  have ok: "om_ok (items c)" "counts_ok env c" using inv by (simp_all add: items_inv_def)
  have cnt: "counts_ok env ?e"
    using ok d new by (simp add: counts_ok_def tally_set)
  have len: "length (items ?e) = Suc (length (items c))" using ok(1) new d(3) by (simp add: length_om_set)
  have keys: "\<forall>p\<in>set (items ?e). fst p = dn_key (snd p)"
    using inv om_set_entries [of "dn_key dn" dn "items c"] d(3) by (auto simp: items_inv_def)
  have "pins ?e PIN_CHILD = (if length (items ?e) = 1 then 0 else 1)"
    using inv d(2) len by (auto simp: items_inv_def frame_simps)
  then obtain c' where c': "pin_child_and_check ?e = Some c'" "same_dir c' ?e" "co_wf c'" "pins c' PIN_CHILD = 1"
    by (rule pin_child_ok [OF _ cnt, rotated 3]) (use d(1) len room in \<open>simp_all add: frame_simps\<close>)
  show thesis
  proof (rule that [OF c'(1)])
    show "items_inv env c'"
      by (rule items_inv_same_dir [OF c'(2,3) _ keys cnt]) (use ok d(3) c'(4) len room in simp_all)
    show "items c' = om_set (dn_key dn) dn (items c)"
      using same_dir_fields(11) [OF c'(2)] d(3) by simp
  qed
qed

lemma pin_fragmenting_fields [simp]:
  "dn_key (pin_fragmenting env c dn) = dn_key dn" "is_null (pin_fragmenting env c dn) = is_null dn"
  "dn_last (pin_fragmenting env c dn) = dn_last dn" "dn_first (pin_fragmenting env c dn) = dn_first dn"
  "dn_linkage (pin_fragmenting env c dn) = dn_linkage dn" "dn_name (pin_fragmenting env c dn) = dn_name dn"
  "dn_version (pin_fragmenting env c dn) = dn_version dn"
  by (simp_all add: pin_fragmenting_def dn_key_def is_null_def)

lemma new_dentry_fields [simp]:
  "dn_key (new_dentry env n f l lk c) = DKey l (c_str n)" "dn_last (new_dentry env n f l lk c) = l"
  "dn_first (new_dentry env n f l lk c) = f" "dn_linkage (new_dentry env n f l lk c) = lk"
  "dn_name (new_dentry env n f l lk c) = n" "dn_version (new_dentry env n f l lk c) = projected_version c"
  "is_null (new_dentry env n f l lk c) = (lk = LNull)"
  by (auto simp: new_dentry_def Let_def dn_key_def is_null_def split: linkage.splits)

lemma link_inode_work_fields [simp]:
  "dn_key (fst (link_inode_work dn ci c)) = dn_key dn" "dn_last (fst (link_inode_work dn ci c)) = dn_last dn"
  "dn_linkage (fst (link_inode_work dn ci c)) = dn_linkage dn" "is_null (fst (link_inode_work dn ci c)) = is_null dn"
  "dn_name (fst (link_inode_work dn ci c)) = dn_name dn" "dn_first (fst (link_inode_work dn ci c)) = dn_first dn"
  by (simp_all add: link_inode_work_def Let_def dn_key_def is_null_def)

lemma link_inode_work_dir: "same_dir (snd (link_inode_work dn ci c)) c"
  by (auto simp: link_inode_work_def Let_def intro: same_dir_trans [OF same_dir_log] same_dir_log)

lemma link_inode_work_frame [frame_simps]:
  "co_wf (snd (link_inode_work dn ci c)) = co_wf c" "pins (snd (link_inode_work dn ci c)) = pins c"
  "co_state (snd (link_inode_work dn ci c)) = co_state c"
  by (simp_all add: link_inode_work_def Let_def frame_simps)

lemmas link_inode_work_dir_fields = same_dir_fields [OF link_inode_work_dir]

text \<open>What an \<^verbatim>\<open>add_\<close> leaves behind: the new entry under its key, with the linkage it was given.\<close>

definition added :: "dentry_env \<Rightarrow> string \<Rightarrow> snapid_t \<Rightarrow> snapid_t \<Rightarrow> linkage \<Rightarrow> dentry \<Rightarrow> cdir \<Rightarrow> cdir \<Rightarrow> bool" where
  "added env dname fst' lst lk dn c c' \<longleftrightarrow> items_inv env c' \<and>
     items c' = om_set (DKey lst (c_str dname)) dn (items c) \<and>
     dn_name dn = dname \<and> dn_first dn = fst' \<and> dn_last dn = lst \<and> dn_linkage dn = lk"

lemma add_null_dentry_ok:
  assumes "items_inv env c" "lookup_exact_snap dname lst c = None" "Suc (length (items c)) < 2 ^ 32"
  obtains dn c' where "add_null_dentry env dname fst' lst c = Some (dn, c')" "added env dname fst' lst LNull dn c c'"
proof -
  define dn0 where "dn0 = new_dentry env dname fst' lst LNull c"
  define d where "d = count_null env lst 1 (log_call (OnDentry (dn_key dn0) LruInsertMid) c)"
  define dn where "dn = pin_fragmenting env d dn0"
  have k: "dn_key dn = DKey lst (c_str dname)" "map_of (items c) (dn_key dn) = None" "dn_key dn0 = dn_key dn"
    using assms(2) by (simp_all add: dn_def dn0_def lookup_exact_snap_def)
  obtain c' where c': "pin_child_and_check (d\<lparr>items := om_set (dn_key dn) dn (items d)\<rparr>) = Some c'"
    "items_inv env c'" "items c' = om_set (dn_key dn) dn (items c)"
    by (rule put_new_entry [OF assms(1) k(2) assms(3), of d])
      (use assms(1) in \<open>simp_all add: d_def dn_def dn0_def frame_simps log_call_dir_fields items_inv_def kind_defs ind_def\<close>)
  show thesis
  proof (rule that [of dn c'])
    show "add_null_dentry env dname fst' lst c = Some (dn, c')"
      unfolding add_null_dentry_def Let_def dn0_def [symmetric] d_def [symmetric] dn_def [symmetric]
      using assms(2) k c'(1) by (simp add: log_call_dir_fields d_def [symmetric])
    show "added env dname fst' lst LNull dn c c'"
      using c' k by (simp add: added_def dn_def dn0_def)
  qed
qed

lemma add_remote_dentry_ok:
  assumes "items_inv env c" "lookup_exact_snap dname lst c = None" "Suc (length (items c)) < 2 ^ 32"
  obtains dn c' where "add_remote_dentry env dname ino d_type fst' lst c = Some (dn, c')"
    "added env dname fst' lst (LRemote ino d_type False) dn c c'"
proof -
  define dn0 where "dn0 = new_dentry env dname fst' lst (LRemote ino d_type False) c"
  define d where "d = count_item env lst 1 (log_call (OnDentry (dn_key dn0) LruInsertMid) c)"
  define dn where "dn = pin_fragmenting env d dn0"
  have k: "dn_key dn = DKey lst (c_str dname)" "map_of (items c) (dn_key dn) = None" "dn_key dn0 = dn_key dn"
    using assms(2) by (simp_all add: dn_def dn0_def lookup_exact_snap_def)
  obtain c' where c': "pin_child_and_check (d\<lparr>items := om_set (dn_key dn) dn (items d)\<rparr>) = Some c'"
    "items_inv env c'" "items c' = om_set (dn_key dn) dn (items c)"
    by (rule put_new_entry [OF assms(1) k(2) assms(3), of d])
      (use assms(1) in \<open>simp_all add: d_def dn_def dn0_def frame_simps log_call_dir_fields items_inv_def kind_defs ind_def\<close>)
  show thesis
  proof (rule that [of dn c'])
    show "add_remote_dentry env dname ino d_type fst' lst c = Some (dn, c')"
      unfolding add_remote_dentry_def Let_def dn0_def [symmetric] d_def [symmetric] dn_def [symmetric]
      using assms(2) k c'(1) by (simp add: log_call_dir_fields d_def [symmetric])
    show "added env dname fst' lst (LRemote ino d_type False) dn c c'"
      using c' k by (simp add: added_def dn_def dn0_def)
  qed
qed

lemma add_primary_dentry_ok:
  assumes "items_inv env c" "lookup_exact_snap dname lst c = None" "Suc (length (items c)) < 2 ^ 32"
  obtains dn c' where "add_primary_dentry env dname ci fst' lst c = Some (dn, c')"
    "added env dname fst' lst (LPrimary ci) dn c c'"
proof -
  define dn0 where "dn0 = new_dentry env dname fst' lst (LPrimary ci) c"
  define c2 where "c2 = log_call (OnChild (ci_ino ci) (SetPrimaryParent (dn_key dn0)))
      (log_call (OnDentry (dn_key dn0) LruInsertMid) c)"
  define d where "d = count_item env lst 1 (snd (link_inode_work dn0 ci c2))"
  define dn where "dn = pin_fragmenting env d (fst (link_inode_work dn0 ci c2))"
  have k: "dn_key dn = DKey lst (c_str dname)" "map_of (items c) (dn_key dn) = None" "dn_key dn0 = dn_key dn"
    using assms(2) by (simp_all add: dn_def dn0_def lookup_exact_snap_def)
  obtain c' where c': "pin_child_and_check (d\<lparr>items := om_set (dn_key dn) dn (items d)\<rparr>) = Some c'"
    "items_inv env c'" "items c' = om_set (dn_key dn) dn (items c)"
    by (rule put_new_entry [OF assms(1) k(2) assms(3), of d])
      (use assms(1) in \<open>simp_all add: d_def c2_def dn_def dn0_def frame_simps log_call_dir_fields
         link_inode_work_dir_fields items_inv_def kind_defs ind_def\<close>)
  show thesis
  proof (rule that [of dn c'])
    show "add_primary_dentry env dname ci fst' lst c = Some (dn, c')"
      unfolding add_primary_dentry_def Let_def case_prod_beta dn0_def [symmetric] c2_def [symmetric]
        d_def [symmetric] dn_def [symmetric]
      using assms(2) k c'(1) by (simp add: log_call_dir_fields)
    show "added env dname fst' lst (LPrimary ci) dn c c'"
      using c' k by (simp add: added_def dn_def dn0_def)
  qed
qed


lemma unlink_work_ok:
  assumes "\<not> is_null dn"
  obtains dn' c' where "unlink_inode_work dn c = Some (dn', c')" "same_dir c' c" "co_wf c' = co_wf c"
    "pins c' = pins c" "dn_linkage dn' = LNull" "dn_key dn' = dn_key dn" "dn_last dn' = dn_last dn"
    "dn_name dn' = dn_name dn" "dn_first dn' = dn_first dn"
proof (cases "dn_linkage dn")
  case LNull
  with assms show thesis by (simp add: is_null_def)
next
  case (LRemote ino t b)
  show thesis
    by (rule that [of "dn\<lparr>dn_linkage := LNull\<rparr>" "if b then log_call (OnDentry (dn_key dn) UnlinkRemote) c else c"])
      (use LRemote in \<open>simp_all add: unlink_inode_work_def frame_simps same_dir_log dn_key_def\<close>)
next
  case (LPrimary ci)
  show thesis
    by (rule that, unfold unlink_inode_work_def LPrimary Let_def linkage.case, rule refl)
      (auto simp: frame_simps dn_key_def intro: same_dir_trans [OF same_dir_log] same_dir_log)
qed

lemma remove_dentry_ok:
  assumes "items_inv env c" "map_of (items c) k = Some dn" "dn_leases dn = 0"
  obtains c' where "remove_dentry env k c = Some c'" "items_inv env c'" "items c' = om_erase k (items c)"
proof -
  define dn1 where "dn1 = (if state_test STATE_DNPINNEDFRAG c
     then dn\<lparr>dn_num_ref := dn_num_ref dn - 1, dn_state := dn_state dn AND NOT (dn_STATE_FRAGMENTING env)\<rparr> else dn)"
  define c1 where "c1 = (if is_null dn1 then count_null env (dn_last dn1) (-1) c else count_item env (dn_last dn1) (-1) c)"
  have dn1: "is_null dn1 = is_null dn" "dn_last dn1 = dn_last dn" by (simp_all add: dn1_def is_null_def)
  obtain dn2 c2 where u: "(if \<not> is_null dn1 then unlink_inode_work dn1 c1 else Some (dn1, c1)) = Some (dn2, c2)"
    "same_dir c2 c1" "co_wf c2 = co_wf c1" "pins c2 = pins c1"
  proof (cases "is_null dn1")
    case True
    show ?thesis by (rule that [of dn1 c1]) (use True in simp_all)
  next
    case False
    obtain dn' c' where "unlink_inode_work dn1 c1 = Some (dn', c')" "same_dir c' c1" "co_wf c' = co_wf c1"
      "pins c' = pins c1" by (rule unlink_work_ok [OF False, of c1])
    with False show ?thesis by (intro that [of dn' c']) simp_all
  qed
  define c4 where "c4 = log_call (OnDentry k LruRemove) (if dn_is_dirty dn2
     then log_call (OnDentry k MarkClean) (c2\<lparr>items := om_erase k (items c2)\<rparr>)
     else c2\<lparr>items := om_erase k (items c2)\<rparr>)"
  have ok: "om_ok (items c)" "counts_ok env c" "items c \<noteq> []" using assms(1,2) by (auto simp: items_inv_def)
  have it: "items c4 = om_erase k (items c)"
    using same_dir_fields(11) [OF u(2)] by (simp add: c4_def log_call_dir_fields c1_def frame_simps)
  have w: "co_wf c4" "pins c4 PIN_CHILD = 1"
    using assms(1) ok(3) u(3,4) by (simp_all add: c4_def frame_simps c1_def items_inv_def)
  have cnt: "counts_ok env c4"
    using ok same_dir_fields [OF u(2)] assms(2)
    by (simp add: counts_ok_def it tally_erase) 
      (simp add: c4_def log_call_dir_fields c1_def frame_simps dn1 kind_defs ind_def)
  have len: "length (items c4) < 2 ^ 32"
    using length_om_erase [OF ok(1) assms(2)] assms(1) it by (simp add: items_inv_def)
  obtain c' where c': "unpin_child_and_check c4 = Some c'" "same_dir c' c4" "co_wf c'"
    "pins c' PIN_CHILD = (if items c4 = [] then 0 else 1)"
    by (rule unpin_child_ok [OF w(1) cnt len w(2)])
  show thesis
  proof (rule that [of c'])
    show "remove_dentry env k c = Some c'"
      unfolding remove_dentry_def assms(2) bind.bind_lunit Let_def dn1_def [symmetric] c1_def [symmetric] u(1)
      using assms(3) c'(1) by (simp add: c4_def)
    have "\<forall>p\<in>set (items c4). fst p = dn_key (snd p)"
      using assms(1) by (auto simp: it om_erase_def items_inv_def)
    with ok(1) it show "items_inv env c'"
      by (intro items_inv_same_dir [OF c'(2,3) _ _ cnt c'(4) len]) auto
    show "items c' = om_erase k (items c)" using same_dir_fields(11) [OF c'(2)] it by simp
  qed
qed

text \<open>An entry whose linkage changes in place.\<close>

lemma relink_entry:
  assumes inv: "items_inv env c" and old: "map_of (items c) k = Some dn"
    and dn': "dn_key dn' = dn_key dn" "dn_last dn' = dn_last dn"
    and d: "co_wf d" "pins d = pins c" "items d = om_set k dn' (items c)"
      "num_head_items d = num_head_items c - ind (head_item env dn) + ind (head_item env dn')"
      "num_head_null d = num_head_null c - ind (head_null env dn) + ind (head_null env dn')"
      "num_snap_items d = num_snap_items c - ind (snap_item env dn) + ind (snap_item env dn')"
      "num_snap_null d = num_snap_null c - ind (snap_null env dn) + ind (snap_null env dn')"
  shows "items_inv env d \<and> unat (get_num_any d) = length (items d)"
proof -
  have ok: "om_ok (items c)" "counts_ok env c" "items c \<noteq> []" using inv old by (auto simp: items_inv_def)
  have kk: "k = dn_key dn" using inv map_of_SomeD [OF old] by (auto simp: items_inv_def)
  have cnt: "counts_ok env d" using ok d old by (simp add: counts_ok_def tally_set)
  have len: "length (items d) = length (items c)" using ok(1) old d(3) by (simp add: length_om_set)
  have keys: "\<forall>p\<in>set (items d). fst p = dn_key (snd p)"
    using inv om_set_entries [of k dn' "items c"] d(3) kk dn'(1) by (auto simp: items_inv_def)
  have "items_inv env d"
    using inv d(1-3) cnt len keys ok by (auto simp: items_inv_def)
  then show ?thesis using num_any [OF cnt] by (simp add: items_inv_def unat_of_nat32)
qed

lemma link_remote_inode_ok:
  assumes "items_inv env c" "map_of (items c) k = Some dn" "is_null dn"
  obtains c' where "link_remote_inode env k ino d_type c = Some c'" "items_inv env c'"
    "items c' = om_set k (dn\<lparr>dn_linkage := LRemote ino d_type False\<rparr>) (items c)"
proof -
  define d where "d = count_null env (dn_last dn) (-1) (count_item env (dn_last dn) 1
     (c\<lparr>items := om_set k (dn\<lparr>dn_linkage := LRemote ino d_type False\<rparr>) (items c)\<rparr>))"
  have "items_inv env d \<and> unat (get_num_any d) = length (items d)"
    by (rule relink_entry [OF assms(1,2), of "dn\<lparr>dn_linkage := LRemote ino d_type False\<rparr>"])
      (use assms(1,3) in \<open>simp_all add: d_def frame_simps items_inv_def kind_defs ind_def is_null_def dn_key_def\<close>)
  then show thesis
    by (intro that [of d]) (use assms in \<open>simp_all add: link_remote_inode_def d_def [symmetric]\<close>,
        simp add: d_def frame_simps)
qed

lemma link_primary_inode_ok:
  assumes "items_inv env c" "map_of (items c) k = Some dn" "is_null dn"
  obtains dn' c' where "link_primary_inode env k ci c = Some c'" "items_inv env c'"
    "items c' = om_set k dn' (items c)" "dn_linkage dn' = LPrimary ci" "dn_key dn' = dn_key dn"
proof -
  define c1 where "c1 = log_call (OnChild (ci_ino ci) (SetPrimaryParent k)) c"
  define dn' where "dn' = fst (link_inode_work (dn\<lparr>dn_linkage := LPrimary ci\<rparr>) ci c1)"
  define c2 where "c2 = snd (link_inode_work (dn\<lparr>dn_linkage := LPrimary ci\<rparr>) ci c1)"
  define d where "d = count_null env (dn_last dn) (-1) (count_item env (dn_last dn) 1
     (c2\<lparr>items := om_set k dn' (items c2)\<rparr>))"
  have f: "dn_key dn' = dn_key dn" "dn_last dn' = dn_last dn" "dn_linkage dn' = LPrimary ci" "\<not> is_null dn'"
    by (simp_all add: dn'_def) (simp_all add: dn_key_def is_null_def)
  have g: "items c2 = items c" "num_head_items c2 = num_head_items c" "num_head_null c2 = num_head_null c"
    "num_snap_items c2 = num_snap_items c" "num_snap_null c2 = num_snap_null c" "pins c2 = pins c" "co_wf c2 = co_wf c"
    by (simp_all add: c2_def c1_def link_inode_work_dir_fields log_call_dir_fields frame_simps)
  have r: "items_inv env d \<and> unat (get_num_any d) = length (items d)"
    by (rule relink_entry [OF assms(1,2) f(1,2)])
      (use assms(1,3) f g in \<open>simp_all add: d_def frame_simps items_inv_def kind_defs ind_def\<close>)
  show thesis
  proof (rule that [of d dn'])
    show "link_primary_inode env k ci c = Some d"
      unfolding link_primary_inode_def assms(2) bind.bind_lunit Let_def case_prod_beta
        c1_def [symmetric] dn'_def [symmetric] c2_def [symmetric] d_def [symmetric]
      using assms(3) r by simp
    show "items d = om_set k dn' (items c)" by (simp add: d_def frame_simps g)
  qed (use r f in simp_all)
qed

lemma unlink_inode_ok:
  assumes "items_inv env c" "map_of (items c) k = Some dn" "\<not> is_null dn"
  obtains dn' c' where "unlink_inode env k c = Some c'" "items_inv env c'"
    "items c' = om_set k dn' (items c)" "dn_linkage dn' = LNull" "dn_key dn' = dn_key dn"
proof -
  obtain dn' c1 where u: "unlink_inode_work dn c = Some (dn', c1)" "same_dir c1 c" "co_wf c1 = co_wf c"
    "pins c1 = pins c" "dn_linkage dn' = LNull" "dn_key dn' = dn_key dn" "dn_last dn' = dn_last dn"
    by (rule unlink_work_ok [OF assms(3), of c])
  define d where "d = count_null env (dn_last dn) 1 (count_item env (dn_last dn) (-1)
     (c1\<lparr>items := om_set k dn' (items c1)\<rparr>))"
  have n: "is_null dn'" using u(5) by (simp add: is_null_def)
  have r: "items_inv env d \<and> unat (get_num_any d) = length (items d)"
    by (rule relink_entry [OF assms(1,2) u(6,7)])
      (use assms(1,3) u n same_dir_fields [OF u(2)] in
        \<open>simp_all add: d_def frame_simps items_inv_def kind_defs ind_def\<close>)
  show thesis
  proof (rule that [of d dn'])
    show "unlink_inode env k c = Some d"
      unfolding unlink_inode_def assms(2) bind.bind_lunit u(1) Let_def prod.case d_def [symmetric]
      using r by simp
    show "items d = om_set k dn' (items c)" using same_dir_fields(11) [OF u(2)] by (simp add: d_def frame_simps)
  qed (use r u in simp_all)
qed


section \<open>The directory as a finite map\<close>

text \<open>
  What a directory promises its users: it is a map from keys to linkages. \<open>item_spec\<close> says what
  each operation does to that map and when it is defined at all.
\<close>

datatype item_op =
    AddNull string snapid_t snapid_t
  | AddPrimary string cinode snapid_t snapid_t
  | AddRemote string inodeno_t nat snapid_t snapid_t
  | Remove dentry_key_t
  | LinkRemote dentry_key_t inodeno_t nat
  | LinkPrimary dentry_key_t cinode
  | Unlink dentry_key_t

primrec item_step :: "dentry_env \<Rightarrow> item_op \<Rightarrow> cdir \<Rightarrow> cdir option" where
  "item_step env (AddNull n f l) c = map_option snd (add_null_dentry env n f l c)"
| "item_step env (AddPrimary n ci f l) c = map_option snd (add_primary_dentry env n ci f l c)"
| "item_step env (AddRemote n i t f l) c = map_option snd (add_remote_dentry env n i t f l c)"
| "item_step env (Remove k) c = remove_dentry env k c"
| "item_step env (LinkRemote k i t) c = link_remote_inode env k i t c"
| "item_step env (LinkPrimary k ci) c = link_primary_inode env k ci c"
| "item_step env (Unlink k) c = unlink_inode env k c"

type_synonym dir_map = "dentry_key_t \<rightharpoonup> linkage"

definition contents :: "cdir \<Rightarrow> dir_map" where
  "contents c k = map_option dn_linkage (map_of (items c) k)"

fun item_spec :: "item_op \<Rightarrow> dir_map \<Rightarrow> dir_map option" where
  "item_spec (AddNull n f l) m =
     (if m (DKey l (c_str n)) = None then Some (m(DKey l (c_str n) \<mapsto> LNull)) else None)"
| "item_spec (AddPrimary n ci f l) m =
     (if m (DKey l (c_str n)) = None then Some (m(DKey l (c_str n) \<mapsto> LPrimary ci)) else None)"
| "item_spec (AddRemote n i t f l) m =
     (if m (DKey l (c_str n)) = None then Some (m(DKey l (c_str n) \<mapsto> LRemote i t False)) else None)"
| "item_spec (Remove k) m = (if m k = None then None else Some (m(k := None)))"
| "item_spec (LinkRemote k i t) m = (if m k = Some LNull then Some (m(k \<mapsto> LRemote i t False)) else None)"
| "item_spec (LinkPrimary k ci) m = (if m k = Some LNull then Some (m(k \<mapsto> LPrimary ci)) else None)"
| "item_spec (Unlink k) m = (if m k = None \<or> m k = Some LNull then None else Some (m(k \<mapsto> LNull)))"

definition item_room :: "cdir \<Rightarrow> bool" where
  "item_room c \<longleftrightarrow> Suc (length (items c)) < 2 ^ 32"

definition no_leases :: "item_op \<Rightarrow> cdir \<Rightarrow> bool" where
  "no_leases opn c \<longleftrightarrow> (case opn of Remove k \<Rightarrow> (\<forall>dn. map_of (items c) k = Some dn \<longrightarrow> dn_leases dn = 0) | _ \<Rightarrow> True)"

inductive item_reach :: "dentry_env \<Rightarrow> cdir \<Rightarrow> bool" for env where
  item_start: "cdir_new api now inode fg auth = Some c \<Longrightarrow> item_reach env c"
| item_next: "item_reach env c \<Longrightarrow> item_room c \<Longrightarrow> no_leases opn c \<Longrightarrow>
     item_step env opn c = Some c' \<Longrightarrow> item_reach env c'"

lemma contents_set: "items_inv env c \<Longrightarrow> items c' = om_set k dn (items c) \<Longrightarrow>
    contents c' = (contents c)(k \<mapsto> dn_linkage dn)"
  by (auto simp: contents_def fun_eq_iff items_inv_def)

lemma contents_erase: "items c' = om_erase k (items c) \<Longrightarrow> contents c' = (contents c)(k := None)"
  by (auto simp: contents_def fun_eq_iff)

lemma added_contents: "items_inv env c \<Longrightarrow> added env n f l lk dn c c' \<Longrightarrow>
    contents c' = (contents c)(DKey l (c_str n) \<mapsto> lk)"
  using contents_set by (auto simp: added_def)

lemma contents_linkage: "map_of (items c) k = Some dn \<Longrightarrow> contents c k = Some (dn_linkage dn)"
  by (simp add: contents_def)

lemma is_null_linkage: "is_null dn \<longleftrightarrow> dn_linkage dn = LNull"
  by (auto simp: is_null_def split: linkage.splits)

text \<open>One step: defined exactly when the specification is, with the same effect, and the invariant.\<close>

definition refines :: "dentry_env \<Rightarrow> cdir option \<Rightarrow> dir_map option \<Rightarrow> bool" where
  "refines env r s \<longleftrightarrow> map_option contents r = s \<and> (\<forall>c'. r = Some c' \<longrightarrow> items_inv env c')"

lemma add_step_refines:
  assumes inv: "items_inv env c" and room: "item_room c" and k: "k = DKey l (c_str n)"
    and ok: "lookup_exact_snap n l c = None \<Longrightarrow> \<exists>dn c'. r = Some (dn, c') \<and> added env n f l lk dn c c'"
    and bad: "lookup_exact_snap n l c \<noteq> None \<Longrightarrow> r = None"
  shows "refines env (map_option snd r) (if contents c k = None then Some ((contents c)(k \<mapsto> lk)) else None)"
proof (cases "lookup_exact_snap n l c = None")
  case True
  from ok [OF True] obtain dn c' where r: "r = Some (dn, c')" "added env n f l lk dn c c'" by blast
  have "contents c k = None" using True by (simp add: contents_def lookup_exact_snap_def k)
  with r added_contents [OF inv r(2)] show ?thesis by (auto simp: refines_def added_def k)
next
  case False
  then have "contents c k \<noteq> None" by (auto simp: contents_def lookup_exact_snap_def k)
  with bad [OF False] show ?thesis by (simp add: refines_def)
qed

lemma item_step_refines:
  assumes inv: "items_inv env c" and room: "item_room c" and nl: "no_leases opn c"
  shows "refines env (item_step env opn c) (item_spec opn (contents c))"
proof (cases opn)
  case (AddNull n f l)
  show ?thesis unfolding AddNull item_step.simps item_spec.simps
    by (rule add_step_refines [OF inv room refl])
      (use add_null_dentry_ok [OF inv _ room [unfolded item_room_def]] in \<open>blast\<close>, auto simp: add_null_dentry_def bind_assert_if)
next
  case (AddPrimary n ci f l)
  show ?thesis unfolding AddPrimary item_step.simps item_spec.simps
    by (rule add_step_refines [OF inv room refl])
      (use add_primary_dentry_ok [OF inv _ room [unfolded item_room_def]] in \<open>blast\<close>, auto simp: add_primary_dentry_def bind_assert_if)
next
  case (AddRemote n i t f l)
  show ?thesis unfolding AddRemote item_step.simps item_spec.simps
    by (rule add_step_refines [OF inv room refl])
      (use add_remote_dentry_ok [OF inv _ room [unfolded item_room_def]] in \<open>blast\<close>, auto simp: add_remote_dentry_def bind_assert_if)
next
  case (Remove k)
  show ?thesis
  proof (cases "map_of (items c) k")
    case None
    then show ?thesis by (simp add: Remove refines_def remove_dentry_def contents_def)
  next
    case (Some dn)
    then have "dn_leases dn = 0" using nl by (simp add: Remove no_leases_def)
    from remove_dentry_ok [OF inv Some this] obtain c' where "remove_dentry env k c = Some c'"
      "items_inv env c'" "items c' = om_erase k (items c)" .
    with Some show ?thesis by (simp add: Remove refines_def contents_linkage contents_erase)
  qed
next
  case (LinkRemote k i t)
  show ?thesis
  proof (cases "map_of (items c) k")
    case None
    then show ?thesis by (simp add: LinkRemote refines_def link_remote_inode_def contents_def)
  next
    case (Some dn)
    show ?thesis
    proof (cases "is_null dn")
      case True
      from link_remote_inode_ok [OF inv Some True, of i t] obtain c' where
        "link_remote_inode env k i t c = Some c'" "items_inv env c'"
        "items c' = om_set k (dn\<lparr>dn_linkage := LRemote i t False\<rparr>) (items c)" .
      with Some True contents_set [OF inv this(3)] show ?thesis
        by (simp add: LinkRemote refines_def contents_linkage is_null_linkage)
    next
      case False
      with Some show ?thesis
        by (simp add: LinkRemote refines_def link_remote_inode_def contents_linkage is_null_linkage)
    qed
  qed
next
  case (LinkPrimary k ci)
  show ?thesis
  proof (cases "map_of (items c) k")
    case None
    then show ?thesis by (simp add: LinkPrimary refines_def link_primary_inode_def contents_def)
  next
    case (Some dn)
    show ?thesis
    proof (cases "is_null dn")
      case True
      from link_primary_inode_ok [OF inv Some True, of ci] obtain dn' c' where
        "link_primary_inode env k ci c = Some c'" "items_inv env c'"
        "items c' = om_set k dn' (items c)" "dn_linkage dn' = LPrimary ci" .
      with Some True contents_set [OF inv this(3)] show ?thesis
        by (simp add: LinkPrimary refines_def contents_linkage is_null_linkage)
    next
      case False
      with Some show ?thesis
        by (simp add: LinkPrimary refines_def link_primary_inode_def contents_linkage is_null_linkage)
    qed
  qed
next
  case (Unlink k)
  show ?thesis
  proof (cases "map_of (items c) k")
    case None
    then show ?thesis by (simp add: Unlink refines_def unlink_inode_def contents_def)
  next
    case (Some dn)
    show ?thesis
    proof (cases "is_null dn")
      case False
      from unlink_inode_ok [OF inv Some False] obtain dn' c' where
        "unlink_inode env k c = Some c'" "items_inv env c'"
        "items c' = om_set k dn' (items c)" "dn_linkage dn' = LNull" .
      with Some False contents_set [OF inv this(3)] show ?thesis
        by (simp add: Unlink refines_def contents_linkage is_null_linkage)
    next
      case True
      with Some show ?thesis
        by (simp add: Unlink refines_def unlink_inode_def unlink_inode_work_def contents_linkage is_null_linkage)
    qed
  qed
qed

lemma items_inv_new: "cdir_new api now inode fg auth = Some c \<Longrightarrow> items_inv env c"
  by (auto simp: cdir_new_def items_inv_def counts_ok_def tally_def co_wf_def pins_def om_get_def get_pin_totals_def)

lemma item_reach_inv: "item_reach env c \<Longrightarrow> items_inv env c"
proof (induction rule: item_reach.induct)
  case (item_next c opn c')
  from item_step_refines [OF item_next.IH item_next.hyps(2,3)] item_next.hyps(4) show ?case
    by (simp add: refines_def)
qed (rule items_inv_new)

section \<open>Finding the entry of a snapshot\<close>

text \<open>
  The entries of one name cover disjoint ranges of snapshots, as the server creates them: an entry
  ends before the next one of its name begins. Names hold no NUL.
\<close>

definition snaps_disjoint :: "cdir \<Rightarrow> bool" where
  "snaps_disjoint c \<longleftrightarrow> (\<forall>p\<in>set (items c). c_str (dn_name (snd p)) = dn_name (snd p)) \<and>
     (\<forall>p\<in>set (items c). \<forall>q\<in>set (items c). dn_name (snd p) = dn_name (snd q) \<longrightarrow>
        dn_last (snd p) < dn_last (snd q) \<longrightarrow> dn_last (snd p) < dn_first (snd q))"

lemma lower_bound_cases:
  assumes "sorted (map fst m)"
  shows "(om_lower_bound k m = [] \<and> (\<forall>p\<in>set m. fst p < k)) \<or>
    (\<exists>p ps. om_lower_bound k m = p # ps \<and> p \<in> set m \<and> k \<le> fst p \<and> (\<forall>q\<in>set m. k \<le> fst q \<longrightarrow> fst p \<le> fst q))"
proof (cases "om_lower_bound k m")
  case Nil
  then have "\<forall>p\<in>set m. \<not> k \<le> fst p" using om_lower_bound_filter [OF assms, of k] by (simp add: filter_empty_conv)
  with Nil show ?thesis by auto
next
  case (Cons p ps)
  have f: "om_lower_bound k m = filter (\<lambda>p. k \<le> fst p) m" by (rule om_lower_bound_filter [OF assms])
  have "sorted (map fst (p # ps))" using sorted_map_filter [OF assms, of "\<lambda>p. k \<le> fst p"] f Cons by simp
  then have "\<forall>q\<in>set (p # ps). fst p \<le> fst q" by auto
  moreover have s: "set (p # ps) = {q \<in> set m. k \<le> fst q}" using f Cons by (metis set_filter)
  moreover have "p \<in> set m" "k \<le> fst p" using s by auto
  ultimately show ?thesis using Cons by (auto simp del: list.set)
qed

lemma lookup_iff:
  assumes inv: "items_inv env c" and dis: "snaps_disjoint c" and n: "c_str name = name"
  shows "lookup name snap c = Some dn \<longleftrightarrow>
    (dn_key dn, dn) \<in> set (items c) \<and> dn_name dn = name \<and> dn_first dn \<le> snap \<and> snap \<le> dn_last dn"
proof -
  have so: "sorted (map fst (items c))" and keys: "\<forall>p\<in>set (items c). fst p = dn_key (snd p)"
    using inv by (auto simp: items_inv_def om_ok_sorted)
  have kn: "dn_key (snd p) = DKey (dn_last (snd p)) (dn_name (snd p))" if "p \<in> set (items c)" for p
    using dis that by (auto simp: snaps_disjoint_def dn_key_def)
  have le: "DKey snap name \<le> DKey l m \<longleftrightarrow> name < m \<or> name = m \<and> snap \<le> l" for l m
    by (auto simp: less_eq_dentry_key_t_def less_dentry_key_iff)
  from lower_bound_cases [OF so, of "DKey snap name"] show ?thesis
  proof (elim disjE exE conjE)
    assume lb: "om_lower_bound (DKey snap name) (items c) = []" and al: "\<forall>p\<in>set (items c). fst p < DKey snap name"
    have "\<not> (dn_name dn = name \<and> snap \<le> dn_last dn)" if "(dn_key dn, dn) \<in> set (items c)"
      using al that kn [OF that] by (force simp: less_dentry_key_iff)
    with lb show ?thesis by (auto simp: lookup_def)
  next
    fix p ps assume lb: "om_lower_bound (DKey snap name) (items c) = p # ps" and p: "p \<in> set (items c)"
      and ge: "DKey snap name \<le> fst p" and mn: "\<forall>q\<in>set (items c). DKey snap name \<le> fst q \<longrightarrow> fst p \<le> fst q"
    have fp: "fst p = DKey (dn_last (snd p)) (dn_name (snd p))" using keys kn p by simp
    have hit: "lookup name snap c = (if dn_name (snd p) = name \<and> dn_first (snd p) \<le> snap then Some (snd p) else None)"
      by (simp add: lookup_def lb)
    have uniq: "dn = snd p" if q: "(dn_key dn, dn) \<in> set (items c)" "dn_name dn = name" "dn_first dn \<le> snap" "snap \<le> dn_last dn"
    proof -
      have kd: "dn_key dn = DKey (dn_last dn) name" using kn [OF q(1)] q(2) by simp
      then have "DKey snap name \<le> dn_key dn" using q(4) le by simp
      then have pm: "fst p \<le> dn_key dn" using mn q(1) by fastforce
      with ge fp kd le have nm: "dn_name (snd p) = name" "dn_last (snd p) \<le> dn_last dn" "snap \<le> dn_last (snd p)"
        by (auto simp: less_eq_dentry_key_t_def less_dentry_key_iff)
      have "\<not> dn_last (snd p) < dn_last dn"
      proof
        assume "dn_last (snd p) < dn_last dn"
        then have "dn_last (snd p) < dn_first dn"
          using dis p q(1,2) nm(1) unfolding snaps_disjoint_def by (metis snd_conv)
        with q(3) nm(3) show False by auto
      qed
      with nm kd fp have "fst p = dn_key dn" by auto
      then have "(dn_key dn, snd p) \<in> set (items c)" "(dn_key dn, dn) \<in> set (items c)"
        using p q(1) by (metis prod.collapse, simp)
      moreover have "distinct (map fst (items c))" using inv by (auto simp: items_inv_def intro: om_ok_distinct)
      ultimately show ?thesis by (metis eq_key_imp_eq_value)
    qed
    have "snap \<le> dn_last (snd p)" if "dn_name (snd p) = name" using ge fp le that by auto
    moreover have "(dn_key (snd p), snd p) \<in> set (items c)" using p keys by (metis prod.collapse)
    ultimately show ?thesis using hit uniq by (auto split: if_splits)
  qed
qed

section \<open>Properties\<close>

text \<open>Parameters for the examples: the head is a large number, entries start empty.\<close>

definition plain_env :: dentry_env where
  "plain_env = \<lparr>nosnap = - 2,
     blank_dentry = \<lparr>dn_name = [], dn_first = 0, dn_last = 0, dn_linkage = LNull, dn_state = 0,
       dn_num_ref = 0, dn_version = 0, dn_new = False, dn_projected = False, dn_leases = 0,
       dn_auth_pins = 0, dn_nested_auth_pins = 0, dn_dir_auth_pins = 0\<rparr>,
     dn_STATE_FRAGMENTING = 1, x_mark_clean = (\<lambda>dn. dn\<lparr>dn_state := dn_state dn AND NOT STATE_DIRTY\<rparr>),
     x_remove_leases = (\<lambda>dn. dn\<lparr>dn_leases := 0\<rparr>)\<rparr>"

lemma plain_item_reach: "item_reach plain_env plain_dir"
  by (rule item_start [OF plain_dir_new])

lemma plain_item_room: "item_room plain_dir"
  by (simp add: item_room_def plain_dir_def cdir_new_def plain_inode_def)

text \<open>C1: the directory refines a finite map from keys to linkages. In every state it reaches, each
  operation that adds, links, unlinks or removes an entry aborts exactly when the operation on the
  map is undefined (a key added twice, an entry that is missing or not in the state the operation
  needs), and otherwise changes the contents exactly as the map operation does.\<close>

theorem directory_refines_map:
  assumes "item_reach env c" "item_room c" "no_leases opn c"
  shows "map_option contents (item_step env opn c) = item_spec opn (contents c)"
  using item_step_refines [OF item_reach_inv [OF assms(1)] assms(2,3)] by (simp add: refines_def)

theorem directory_refines_map_witness:
  "item_reach plain_env plain_dir \<and>
   map_option contents (item_step plain_env (AddNull ''a'' 2 (-2)) plain_dir) = Some [DKey (-2) ''a'' \<mapsto> LNull]"
proof -
  have "contents plain_dir = Map.empty"
    by (simp add: contents_def plain_dir_def cdir_new_def plain_inode_def fun_eq_iff)
  moreover have "no_leases (AddNull ''a'' 2 (-2)) plain_dir" by (simp add: no_leases_def)
  ultimately show ?thesis
    using directory_refines_map [OF plain_item_reach plain_item_room, of "AddNull ''a'' 2 (-2)"] plain_item_reach
    by (simp add: c_str_def)
qed

text \<open>C4: in every state a directory reaches, each of its four counters is the number of entries of
  its kind, together they are the number of entries, every entry lies under its own key, and the
  directory is pinned once for its children exactly while it has any.\<close>

theorem directory_counters:
  assumes "item_reach env c"
  shows "num_head_items c = of_nat (length (filter (\<lambda>p. \<not> is_null (snd p) \<and> dn_last (snd p) = nosnap env) (items c))) \<and>
    num_head_null c = of_nat (length (filter (\<lambda>p. is_null (snd p) \<and> dn_last (snd p) = nosnap env) (items c))) \<and>
    num_snap_items c = of_nat (length (filter (\<lambda>p. \<not> is_null (snd p) \<and> dn_last (snd p) \<noteq> nosnap env) (items c))) \<and>
    num_snap_null c = of_nat (length (filter (\<lambda>p. is_null (snd p) \<and> dn_last (snd p) \<noteq> nosnap env) (items c))) \<and>
    unat (get_num_any c) = length (items c) \<and>
    (\<forall>p\<in>set (items c). fst p = dn_key (snd p)) \<and>
    get_num_ref PIN_CHILD c = (if items c = [] then 0 else 1)"
proof -
  have inv: "items_inv env c" by (rule item_reach_inv [OF assms])
  then have "counts_ok env c" "length (items c) < 2 ^ 32" by (simp_all add: items_inv_def)
  then show ?thesis
    using inv num_any [of env c]
    by (simp add: items_inv_def counts_ok_def tally_length kind_defs unat_of_nat32 get_num_ref_pins cdir_pin_defs)
qed

theorem directory_counters_witness:
  "item_reach plain_env plain_dir \<and> get_num_ref PIN_CHILD plain_dir = 0 \<and> unat (get_num_any plain_dir) = 0"
proof -
  have "items plain_dir = []" by (simp add: plain_dir_def cdir_new_def plain_inode_def)
  then show ?thesis using directory_counters [OF plain_item_reach] plain_item_reach by simp
qed

text \<open>Where the entries of a name cover disjoint snapshot ranges, \<^verbatim>\<open>lookup\<close> finds the entry of a
  name at a snapshot if and only if one covers that snapshot, although it inspects a single entry.\<close>

lemma lookup_finds_covering:
  assumes "item_reach env c" "snaps_disjoint c" "c_str name = name"
  shows "lookup name snap c = Some dn \<longleftrightarrow>
    (dn_key dn, dn) \<in> set (items c) \<and> dn_name dn = name \<and> dn_first dn \<le> snap \<and> snap \<le> dn_last dn"
  by (rule lookup_iff [OF item_reach_inv [OF assms(1)] assms(2,3)])

lemma lookup_finds_covering_witness:
  "\<exists>dn c. item_step plain_env (AddNull ''a'' 2 (-2)) plain_dir = Some c \<and> lookup ''a'' 5 c = Some dn"
proof -
  have ex: "lookup_exact_snap ''a'' (-2) plain_dir = None"
    by (simp add: lookup_exact_snap_def plain_dir_def cdir_new_def plain_inode_def)
  obtain dn c where a: "add_null_dentry plain_env ''a'' 2 (-2) plain_dir = Some (dn, c)"
    "added plain_env ''a'' 2 (-2) LNull dn plain_dir c"
    by (rule add_null_dentry_ok [OF item_reach_inv [OF plain_item_reach] ex plain_item_room [unfolded item_room_def]])
  then have st: "item_step plain_env (AddNull ''a'' 2 (-2)) plain_dir = Some c" by simp
  have i0: "items plain_dir = []" by (simp add: plain_dir_def cdir_new_def plain_inode_def)
  have it: "items c = [(DKey (-2) ''a'', dn)]" "dn_name dn = ''a''" "dn_first dn = 2" "dn_last dn = -2"
    using a(2) i0 by (auto simp: added_def c_str_def)
  have r: "item_reach plain_env c"
    by (rule item_next [OF plain_item_reach plain_item_room _ st]) (simp add: no_leases_def)
  have d: "snaps_disjoint c" using it by (simp add: snaps_disjoint_def c_str_def)
  have le: "(2 :: snapid_t) \<le> 5" "(5 :: snapid_t) \<le> -2" by code_simp+
  have n: "c_str ''a'' = ''a''" by (simp add: c_str_def)
  have "lookup ''a'' 5 c = Some dn"
    using lookup_finds_covering [OF r d n, of 5 dn] it le by (simp add: dn_key_def c_str_def)
  then show ?thesis using st by blast
qed

section \<open>Sweeping null entries\<close>

lemma remove_nulls_ok:
  "items_inv env c \<Longrightarrow> distinct ks \<Longrightarrow> set ks \<subseteq> fst ` set (items c) \<Longrightarrow>
   \<forall>p\<in>set (items c). is_null (snd p) \<longrightarrow> dn_leases (snd p) = 0 \<Longrightarrow>
   \<exists>c'. remove_nulls env ks c = Some c' \<and> items_inv env c' \<and>
     items c' = filter (\<lambda>p. \<not> (fst p \<in> set ks \<and> is_null (snd p) \<and> \<not> dn_projected (snd p))) (items c)"
proof (induction ks arbitrary: c)
  case (Cons k ks)
  have ok: "om_ok (items c)" using Cons.prems(1) by (simp add: items_inv_def)
  then have di: "distinct (map fst (items c))" by (rule om_ok_distinct)
  from Cons.prems(3) obtain dn where m: "map_of (items c) k = Some dn"
    using di by (fastforce simp: map_of_eq_None_iff)
  have sole: "p = (k, dn)" if "p \<in> set (items c)" "fst p = k" for p
    using that m di by (metis map_of_is_SomeI option.inject prod.collapse)
  show ?case
  proof (cases "is_null dn \<and> \<not> dn_projected dn")
    case True
    have "dn_leases dn = 0" using Cons.prems(4) map_of_SomeD [OF m] True by auto
    then obtain c1 where c1: "remove_dentry env k c = Some c1" "items_inv env c1" "items c1 = om_erase k (items c)"
      by (rule remove_dentry_ok [OF Cons.prems(1) m])
    have sub: "set ks \<subseteq> fst ` set (items c1)"
    proof
      fix x assume x: "x \<in> set ks"
      with Cons.prems(3) obtain p where "p \<in> set (items c)" "fst p = x" by auto
      moreover have "x \<noteq> k" using x Cons.prems(2) by auto
      ultimately show "x \<in> fst ` set (items c1)" by (auto simp: c1(3) om_erase_def)
    qed
    have lf: "\<forall>p\<in>set (items c1). is_null (snd p) \<longrightarrow> dn_leases (snd p) = 0"
      using Cons.prems(4) by (auto simp: c1(3) om_erase_def)
    from Cons.IH [OF c1(2) _ sub lf] Cons.prems(2) obtain c' where c': "remove_nulls env ks c1 = Some c'" "items_inv env c'"
      "items c' = filter (\<lambda>p. \<not> (fst p \<in> set ks \<and> is_null (snd p) \<and> \<not> dn_projected (snd p))) (items c1)" by auto
    have "items c' = filter (\<lambda>p. \<not> (fst p \<in> set (k # ks) \<and> is_null (snd p) \<and> \<not> dn_projected (snd p))) (items c)"
      unfolding c'(3) c1(3) om_erase_def filter_filter using sole True by (intro filter_cong) auto
    with c1 c' m True show ?thesis by auto
  next
    case False
    from Cons.IH [of c] Cons.prems obtain c' where c': "remove_nulls env ks c = Some c'" "items_inv env c'"
      "items c' = filter (\<lambda>p. \<not> (fst p \<in> set ks \<and> is_null (snd p) \<and> \<not> dn_projected (snd p))) (items c)" by auto
    have "items c' = filter (\<lambda>p. \<not> (fst p \<in> set (k # ks) \<and> is_null (snd p) \<and> \<not> dn_projected (snd p))) (items c)"
      unfolding c'(3) using sole False by (intro filter_cong) auto
    with c' m False show ?thesis by auto
  qed
qed simp

lemma tally_zero: "length m < 2 ^ 32 \<Longrightarrow> tally P m = 0 \<longleftrightarrow> (\<forall>p\<in>set m. \<not> P (snd p))"
proof -
  assume "length m < 2 ^ 32"
  then have "length (filter (\<lambda>p. P (snd p)) m) < 2 ^ 32" using le_less_trans [OF length_filter_le] by blast
  then have "unat (tally P m) = length (filter (\<lambda>p. P (snd p)) m)" by (simp add: tally_length unat_of_nat32)
  then show ?thesis by (metis filter_empty_conv length_0_conv unat_eq_zero)
qed

text \<open>\<^verbatim>\<open>remove_null_dentries\<close> on a directory whose null entries hold no lease leaves exactly the
  linked entries, unless a null entry is projected, and then it aborts.\<close>

lemma remove_null_dentries_exact:
  assumes "item_reach env c" "\<forall>p\<in>set (items c). is_null (snd p) \<longrightarrow> dn_leases (snd p) = 0"
  shows "(case remove_null_dentries env c of
      Some c' \<Rightarrow> items c' = filter (\<lambda>p. \<not> is_null (snd p)) (items c) \<and>
        \<not> (\<exists>p\<in>set (items c). is_null (snd p) \<and> dn_projected (snd p))
    | None \<Rightarrow> \<exists>p\<in>set (items c). is_null (snd p) \<and> dn_projected (snd p))"
proof -
  have inv: "items_inv env c" by (rule item_reach_inv [OF assms(1)])
  have di: "distinct (map fst (items c))" using inv by (auto simp: items_inv_def intro: om_ok_distinct)
  from remove_nulls_ok [OF inv di _ assms(2)] obtain c1 where c1: "remove_nulls env (map fst (items c)) c = Some c1"
    "items_inv env c1" "items c1 = filter (\<lambda>p. \<not> (fst p \<in> set (map fst (items c)) \<and> is_null (snd p) \<and> \<not> dn_projected (snd p))) (items c)"
    by auto
  have it: "items c1 = filter (\<lambda>p. \<not> is_null (snd p) \<or> dn_projected (snd p)) (items c)"
    unfolding c1(3) by (intro filter_cong) auto
  have len: "length (items c1) < 2 ^ 32" and cnt: "counts_ok env c1" using c1(2) by (simp_all add: items_inv_def)
  have nulls: "num_snap_null c1 = 0 \<and> num_head_null c1 = 0 \<longleftrightarrow> \<not> (\<exists>p\<in>set (items c). is_null (snd p) \<and> dn_projected (snd p))"
  proof -
    have "num_snap_null c1 = 0 \<longleftrightarrow> (\<forall>p\<in>set (items c1). \<not> snap_null env (snd p))"
      "num_head_null c1 = 0 \<longleftrightarrow> (\<forall>p\<in>set (items c1). \<not> head_null env (snd p))"
      using cnt tally_zero [OF len] by (simp_all add: counts_ok_def)
    then have "num_snap_null c1 = 0 \<and> num_head_null c1 = 0 \<longleftrightarrow> (\<forall>p\<in>set (items c1). \<not> is_null (snd p))"
      by (auto simp: kind_defs)
    also have "\<dots> \<longleftrightarrow> \<not> (\<exists>p\<in>set (items c). is_null (snd p) \<and> dn_projected (snd p))"
      unfolding it set_filter by blast
    finally show ?thesis .
  qed
  have any: "unat (get_num_any c1) = length (items c1)" using num_any [OF cnt] len by (simp add: unat_of_nat32)
  show ?thesis
  proof (cases "\<exists>p\<in>set (items c). is_null (snd p) \<and> dn_projected (snd p)")
    case True
    with nulls have "remove_null_dentries env c = None"
      by (auto simp: remove_null_dentries_def c1(1) bind_assert_if)
    with True show ?thesis by simp
  next
    case False
    then have "items c1 = filter (\<lambda>p. \<not> is_null (snd p)) (items c)"
      unfolding it by (intro filter_cong) auto
    with False nulls any show ?thesis by (simp add: remove_null_dentries_def c1(1))
  qed
qed

lemma remove_null_dentries_exact_witness:
  "\<exists>c c'. item_step plain_env (AddNull ''a'' 2 (-2)) plain_dir = Some c \<and> items c \<noteq> [] \<and>
     remove_null_dentries plain_env c = Some c' \<and> items c' = []"
proof -
  have ex: "lookup_exact_snap ''a'' (-2) plain_dir = None"
    by (simp add: lookup_exact_snap_def plain_dir_def cdir_new_def plain_inode_def)
  obtain dn c where a: "add_null_dentry plain_env ''a'' 2 (-2) plain_dir = Some (dn, c)"
    "added plain_env ''a'' 2 (-2) LNull dn plain_dir c"
    by (rule add_null_dentry_ok [OF item_reach_inv [OF plain_item_reach] ex plain_item_room [unfolded item_room_def]])
  then have st: "item_step plain_env (AddNull ''a'' 2 (-2)) plain_dir = Some c" by simp
  have "items plain_dir = []" by (simp add: plain_dir_def cdir_new_def plain_inode_def)
  then have it: "items c = [(DKey (-2) ''a'', dn)]" "dn_linkage dn = LNull"
    using a(2) by (auto simp: added_def c_str_def)
  have dn: "dn_leases dn = 0" "\<not> dn_projected dn" "is_null dn"
    using a(1) it(2) by (auto simp: add_null_dentry_def bind_assert_if Let_def pin_fragmenting_def new_dentry_def
        plain_env_def is_null_linkage bind_eq_Some_conv split: if_splits)
  have r: "item_reach plain_env c"
    by (rule item_next [OF plain_item_reach plain_item_room _ st]) (simp add: no_leases_def)
  have "\<forall>p\<in>set (items c). is_null (snd p) \<longrightarrow> dn_leases (snd p) = 0" using it dn by simp
  from remove_null_dentries_exact [OF r this] st it dn show ?thesis
    by (auto split: option.splits)
qed

end
