(* ===== verification/CDir_Freeze.thy ===== *)
theory CDir_Freeze
  imports CDir_Items
begin

text \<open>
  Waiters, authority, auth pins and freezing of a directory. The ancestors a walk up the tree
  passes (through the inodes and dentries outside the sources) are a list of what the walk reads
  of each: its state bits and its \<^verbatim>\<open>dir_auth\<close>. A wait that is passed on to the parent directory and
  the calls on the inode are recorded in the log. \<^verbatim>\<open>auth_unpin\<close> and \<^verbatim>\<open>maybe_finish_freeze\<close> call each
  other; the fuel of the pair is the depth of that recursion, and it never exceeds four.
\<close>

section \<open>Waiters\<close>

definition is_waiting_for_dentry :: "string \<Rightarrow> snapid_t \<Rightarrow> cdir \<Rightarrow> bool" where
  "is_waiting_for_dentry dname snap c \<longleftrightarrow> map_of (waiting_on_dentry c) (DKey snap (c_str dname)) \<noteq> None"

definition add_dentry_waiter :: "string \<Rightarrow> snapid_t \<Rightarrow> context_t \<Rightarrow> cdir \<Rightarrow> cdir option" where
  "add_dentry_waiter dname snap ctx c =
     do { c1 \<leftarrow> (if waiting_on_dentry c = [] then dget PIN_DNWAITER c else Some c);
          let k = DKey snap (c_str dname);
          Some (c1\<lparr>waiting_on_dentry :=
                     om_set k (om_get [] k (waiting_on_dentry c1) @ [ctx]) (waiting_on_dentry c1)\<rparr>) }"

fun take_range :: "dentry_key_t \<Rightarrow> (dentry_key_t \<times> context_t list) list \<Rightarrow> context_t list
    \<Rightarrow> (dentry_key_t \<times> context_t list) list \<times> context_t list" where
  "take_range ub [] ls = ([], ls)"
| "take_range ub (p # ps) ls = (if \<not> ub < fst p then take_range ub ps (ls @ snd p) else (p # ps, ls))"

definition take_dentry_waiting :: "string \<Rightarrow> snapid_t \<Rightarrow> snapid_t \<Rightarrow> context_t list \<Rightarrow> cdir
    \<Rightarrow> (context_t list \<times> cdir) option" where
  "take_dentry_waiting dname fst' lst ls c =
     (if waiting_on_dentry c = [] then Some (ls, c)
      else
        let lb = DKey fst' (c_str dname); ub = DKey lst (c_str dname); m = waiting_on_dentry c;
            (rest, ls') = take_range ub (om_lower_bound lb m) ls;
            c1 = c\<lparr>waiting_on_dentry := takeWhile (\<lambda>p. fst p < lb) m @ rest\<rparr>
        in do { c2 \<leftarrow> (if waiting_on_dentry c1 = [] then dput PIN_DNWAITER c1 else Some c1);
                Some (ls', c2) })"

definition take_sub_waiting :: "context_t list \<Rightarrow> cdir \<Rightarrow> (context_t list \<times> cdir) option" where
  "take_sub_waiting ls c =
     (if waiting_on_dentry c \<noteq> [] then
        do { c1 \<leftarrow> dput PIN_DNWAITER (c\<lparr>waiting_on_dentry := []\<rparr>);
             Some (ls @ concat (map snd (waiting_on_dentry c)), c1) }
      else Some (ls, c))"

definition take_waiting :: "u64 \<Rightarrow> context_t list \<Rightarrow> cdir \<Rightarrow> (context_t list \<times> cdir) option" where
  "take_waiting msk ls c =
     do { (ls1, c1) \<leftarrow> (if msk AND WAIT_DENTRY \<noteq> 0 \<and> waiting_on_dentry c \<noteq> [] then
                         do { d \<leftarrow> dput PIN_DNWAITER (c\<lparr>waiting_on_dentry := []\<rparr>);
                              Some (ls @ concat (map snd (waiting_on_dentry c)), d) }
                       else Some (ls, c));
          co_take_waiting last_put (\<lambda>c. c) msk ls1 c1 }"

definition finish_waiting :: "u64 \<Rightarrow> int \<Rightarrow> cdir \<Rightarrow> cdir option" where
  "finish_waiting msk result c =
     do { (finished, c1) \<leftarrow> take_waiting msk [] c;
          Some (if result < 0 then log_call (OnServer (FinishContexts finished result)) c1
                else log_call (OnServer (QueueWaiters finished)) c1) }"

section \<open>Freeze and authority predicates\<close>

type_synonym dir_view = "u32 \<times> mds_authority_t"

fun tree_walk :: "u32 \<Rightarrow> dir_view list \<Rightarrow> bool" where
  "tree_walk root_bit [] = False"
| "tree_walk root_bit ((s, a) # up) =
     (if s AND root_bit \<noteq> 0 then True
      else if a \<noteq> CDIR_AUTH_DEFAULT then False
      else tree_walk root_bit up)"

definition is_freezing_tree_root :: "cdir \<Rightarrow> bool" where
  "is_freezing_tree_root c = state_test STATE_FREEZINGTREE c"
definition is_frozen_tree_root :: "cdir \<Rightarrow> bool" where
  "is_frozen_tree_root c = state_test STATE_FROZENTREE c"
definition is_freezing_dir :: "cdir \<Rightarrow> bool" where
  "is_freezing_dir c = state_test STATE_FREEZINGDIR c"
definition is_frozen_dir :: "cdir \<Rightarrow> bool" where
  "is_frozen_dir c = state_test STATE_FROZENDIR c"

definition is_freezing_tree :: "dir_view list \<Rightarrow> cdir \<Rightarrow> bool" where
  "is_freezing_tree up c = tree_walk STATE_FREEZINGTREE ((co_state c, dir_auth c) # up)"

definition is_frozen_tree :: "dir_view list \<Rightarrow> cdir \<Rightarrow> bool" where
  "is_frozen_tree up c = tree_walk STATE_FROZENTREE ((co_state c, dir_auth c) # up)"

definition is_freezing :: "dir_view list \<Rightarrow> cdir \<Rightarrow> bool" where
  "is_freezing up c \<longleftrightarrow> is_freezing_tree up c \<or> is_freezing_dir c"

definition is_frozen :: "dir_view list \<Rightarrow> cdir \<Rightarrow> bool" where
  "is_frozen up c \<longleftrightarrow> is_frozen_dir c \<or> is_frozen_tree up c"

text \<open>The position of the frozen root in the walk; running out of ancestors is an abort.\<close>

fun frozen_root :: "dir_view list \<Rightarrow> nat option" where
  "frozen_root [] = None"
| "frozen_root ((s, a) # up) = (if s AND STATE_FROZENTREE \<noteq> 0 then Some 0 else map_option Suc (frozen_root up))"

definition get_frozen_tree_root :: "dir_view list \<Rightarrow> cdir \<Rightarrow> nat option" where
  "get_frozen_tree_root up c =
     do { assert_that (is_frozen up c); frozen_root ((co_state c, dir_auth c) # up) }"

definition can_auth_pin :: "dir_view list \<Rightarrow> cdir \<Rightarrow> bool" where
  "can_auth_pin up c \<longleftrightarrow> is_auth c \<and> \<not> (is_frozen up c \<or> is_freezing up c)"

definition get_cum_auth_pins :: "cdir \<Rightarrow> int" where
  "get_cum_auth_pins c = auth_pins c + nested_auth_pins c"

definition is_freezeable :: "bool \<Rightarrow> cdir \<Rightarrow> bool" where
  "is_freezeable freezing c =
     (if auth_pins c - bool_int freezing > 0 \<or> nested_auth_pins c > 0 then False
      else if \<not> is_subtree_root c \<and> iv_frozen (cd_inode c) then False
      else True)"

definition is_freezeable_dir :: "bool \<Rightarrow> cdir \<Rightarrow> bool" where
  "is_freezeable_dir freezing c =
     (if auth_pins c - bool_int freezing > 0 \<or> dir_auth_pins c > 0 then False
      else if \<not> is_subtree_root c \<and> iv_frozen (cd_inode c) \<and> \<not> iv_frozen_dir (cd_inode c) then False
      else True)"

definition add_waiter :: "u64 \<Rightarrow> context_t \<Rightarrow> cdir \<Rightarrow> cdir option" where
  "add_waiter tag ctx c =
     (if tag AND WAIT_ATFREEZEROOT \<noteq> 0 \<and>
         \<not> (is_freezing_tree_root c \<or> is_frozen_tree_root c \<or> is_freezing_dir c \<or> is_frozen_dir c)
      then Some (log_call (OnParentDir tag ctx) c)
      else if tag AND WAIT_ATSUBTREEROOT \<noteq> 0 \<and> \<not> is_subtree_root c
      then Some (log_call (OnParentDir tag ctx) c)
      else co_add_waiter first_get tag ctx c)"

text \<open>\<^verbatim>\<open>contains(x)\<close>: \<open>x\<close> is given by itself and its ancestors, nearest first.\<close>

fun contains :: "frag_t dirfrag_t \<Rightarrow> frag_t dirfrag_t list \<Rightarrow> bool" where
  "contains this [] = False"
| "contains this (x # up) = (if x = this then True else contains this up)"

section \<open>Auth pins and freezing\<close>

definition auth_pin :: "cdir \<Rightarrow> cdir option" where
  "auth_pin c =
     do { c1 \<leftarrow> (if auth_pins c = 0 then dget PIN_AUTHPIN c else Some c);
          let c2 = c1\<lparr>auth_pins := auth_pins c1 + 1\<rparr>;
          Some (if \<not> is_subtree_root c2 \<and> get_cum_auth_pins c2 = 1
                then log_call (OnInode (AdjustNestedAuthPins 1)) c2 else c2) }"

definition freeze_tree_work :: "cdir \<Rightarrow> cdir option" where
  "freeze_tree_work c =
     do { assert_that (is_freezeable True c);
          c1 \<leftarrow> dget PIN_FROZEN (state_set STATE_FROZENTREE (state_clear STATE_FREEZINGTREE c));
          Some (if is_auth c1 \<and> \<not> is_subtree_root c1 then log_call (OnInode AuthPin) c1 else c1) }"

definition freeze_dir_work :: "cdir \<Rightarrow> cdir option" where
  "freeze_dir_work c =
     do { c1 \<leftarrow> dget PIN_FROZEN (state_set STATE_FROZENDIR (state_clear STATE_FREEZINGDIR c));
          Some (if is_auth c1 \<and> \<not> is_subtree_root c1 then log_call (OnInode AuthPin) c1 else c1) }"

fun auth_unpin_f :: "nat \<Rightarrow> cdir \<Rightarrow> cdir option"
  and maybe_finish_freeze_f :: "nat \<Rightarrow> cdir \<Rightarrow> cdir option" where
  "auth_unpin_f 0 c = None"
| "auth_unpin_f (Suc n) c =
     do { let c1 = c\<lparr>auth_pins := auth_pins c - 1\<rparr>;
          c2 \<leftarrow> (if auth_pins c1 = 0 then dput PIN_AUTHPIN c1 else Some c1);
          assert_that (auth_pins c2 \<ge> 0);
          let newcum = get_cum_auth_pins c2;
          c3 \<leftarrow> maybe_finish_freeze_f n c2;
          Some (if \<not> is_subtree_root c3 \<and> newcum = 0
                then log_call (OnInode (AdjustNestedAuthPins (-1))) c3 else c3) }"
| "maybe_finish_freeze_f 0 c = None"
| "maybe_finish_freeze_f (Suc n) c =
     (if auth_pins c \<noteq> 1 \<or> dir_auth_pins c \<noteq> 0 then Some c
      else do {
        c1 \<leftarrow> (if state_test STATE_FREEZINGDIR c then
                do { d \<leftarrow> freeze_dir_work c; d1 \<leftarrow> auth_unpin_f n d; finish_waiting WAIT_FROZEN 0 d1 }
              else Some c);
        if nested_auth_pins c1 \<noteq> 0 then Some c1
        else if state_test STATE_FREEZINGTREE c1 then
          if \<not> is_subtree_root c1 \<and> iv_frozen (cd_inode c1) then
            do { d \<leftarrow> auth_pin c1; Some (log_call (OnInode WaitUnfreeze) d) }
          else do { d \<leftarrow> freeze_tree_work c1; d1 \<leftarrow> auth_unpin_f n d; finish_waiting WAIT_FROZEN 0 d1 }
        else Some c1 })"

declare auth_unpin_f.simps [simp del] maybe_finish_freeze_f.simps [simp del]

definition auth_unpin :: "cdir \<Rightarrow> cdir option" where
  "auth_unpin c = auth_unpin_f 4 c"

definition maybe_finish_freeze :: "cdir \<Rightarrow> cdir option" where
  "maybe_finish_freeze c = maybe_finish_freeze_f 3 c"

definition adjust_nested_auth_pins :: "int \<Rightarrow> int \<Rightarrow> cdir \<Rightarrow> cdir option" where
  "adjust_nested_auth_pins inc dirinc c =
     do { assert_that (inc \<noteq> 0);
          let c1 = c\<lparr>nested_auth_pins := nested_auth_pins c + inc, dir_auth_pins := dir_auth_pins c + dirinc\<rparr>;
          assert_that (nested_auth_pins c1 \<ge> 0);
          assert_that (dir_auth_pins c1 \<ge> 0);
          let newcum = get_cum_auth_pins c1;
          c2 \<leftarrow> maybe_finish_freeze c1;
          Some (if \<not> is_subtree_root c2 then
                  if newcum = 0 then log_call (OnInode (AdjustNestedAuthPins (-1))) c2
                  else if newcum = inc then log_call (OnInode (AdjustNestedAuthPins 1)) c2
                  else c2
                else c2) }"

definition freeze_tree :: "dir_view list \<Rightarrow> cdir \<Rightarrow> (bool \<times> cdir) option" where
  "freeze_tree up c =
     do { assert_that (\<not> is_frozen up c);
          assert_that (\<not> is_freezing up c);
          c1 \<leftarrow> auth_pin c;
          if is_freezeable True c1 then
            do { c2 \<leftarrow> freeze_tree_work c1; c3 \<leftarrow> auth_unpin c2; Some (True, c3) }
          else Some (False, state_set STATE_FREEZINGTREE c1) }"

definition unfreeze_tree :: "cdir \<Rightarrow> cdir option" where
  "unfreeze_tree c =
     (if state_test STATE_FROZENTREE c then
        do { c1 \<leftarrow> dput PIN_FROZEN (state_clear STATE_FROZENTREE c);
             let c2 = (if is_auth c1 \<and> \<not> is_subtree_root c1 then log_call (OnInode AuthUnpin) c1 else c1);
             finish_waiting WAIT_UNFREEZE 0 c2 }
      else
        do { c1 \<leftarrow> finish_waiting WAIT_FROZEN (-1) c;
             assert_that (state_test STATE_FREEZINGTREE c1);
             c2 \<leftarrow> auth_unpin (state_clear STATE_FREEZINGTREE c1);
             finish_waiting WAIT_UNFREEZE 0 c2 })"

definition freeze_dir :: "dir_view list \<Rightarrow> cdir \<Rightarrow> (bool \<times> cdir) option" where
  "freeze_dir up c =
     do { assert_that (\<not> is_frozen up c);
          assert_that (\<not> is_freezing up c);
          c1 \<leftarrow> auth_pin c;
          if is_freezeable_dir True c1 then
            do { c2 \<leftarrow> freeze_dir_work c1; c3 \<leftarrow> auth_unpin c2; Some (True, c3) }
          else Some (False, state_set STATE_FREEZINGDIR c1) }"

definition unfreeze_dir :: "cdir \<Rightarrow> cdir option" where
  "unfreeze_dir c =
     (if state_test STATE_FROZENDIR c then
        do { c1 \<leftarrow> dput PIN_FROZEN (state_clear STATE_FROZENDIR c);
             let c2 = (if is_auth c1 \<and> \<not> is_subtree_root c1 then log_call (OnInode AuthUnpin) c1 else c1);
             finish_waiting WAIT_UNFREEZE 0 c2 }
      else
        do { c1 \<leftarrow> finish_waiting WAIT_FROZEN (-1) c;
             assert_that (state_test STATE_FREEZINGDIR c1);
             c2 \<leftarrow> auth_unpin (state_clear STATE_FREEZINGDIR c1);
             finish_waiting WAIT_UNFREEZE 0 c2 })"

text \<open>The two branches of \<^verbatim>\<open>set_dir_auth\<close>: the directory becomes a subtree root, or stops being one.\<close>

definition new_subtree_root :: "cdir \<Rightarrow> cdir" where
  "new_subtree_root c =
     (let d = (if get_cum_auth_pins c \<noteq> 0 then log_call (OnInode (AdjustNestedAuthPins (-1))) c else c)
      in if iv_auth (cd_inode d) \<and> (is_frozen_tree_root d \<or> is_frozen_dir d)
         then log_call (OnInode AuthUnpin) d else d)"

definition old_subtree_root :: "cdir \<Rightarrow> cdir" where
  "old_subtree_root c =
     (let d = (if get_cum_auth_pins c \<noteq> 0 then log_call (OnInode (AdjustNestedAuthPins 1)) c else c)
      in if iv_auth (cd_inode d) \<and> (is_frozen_tree_root d \<or> is_frozen_dir d)
         then log_call (OnInode AuthPin) d else d)"

definition set_dir_auth :: "mds_authority_t \<Rightarrow> cdir \<Rightarrow> cdir option" where
  "set_dir_auth a c =
     (let was_subtree = is_subtree_root c;
          was_ambiguous = (snd (dir_auth c) \<ge> 0);
          c1 = c\<lparr>dir_auth := a\<rparr>;
          c2 = (if \<not> was_subtree \<and> is_subtree_root c1 then new_subtree_root c1 else c1);
          c3 = (if was_subtree \<and> \<not> is_subtree_root c2 then old_subtree_root c2 else c2)
      in if was_ambiguous \<and> snd (dir_auth c3) = CDIR_AUTH_UNKNOWN then
           do { (ls, c4) \<leftarrow> take_waiting WAIT_SINGLEAUTH [] c3;
                Some (log_call (OnServer (QueueWaiters ls)) c4) }
         else Some c3)"

section \<open>The abstract freeze machine\<close>

text \<open>
  What freezing promises: a directory is unfrozen, freezing or frozen, as a tree or as a single
  directory; while it is freezing it holds one auth pin of its own, and the freeze completes when
  that pin is the last one that counts (nested pins count for a tree, the pins of its own entries
  for a directory).
\<close>

datatype fmode = Unfrozen | FreezingTree | FrozenTree | FreezingDir | FrozenDir

record fspec =
  fs_mode :: fmode
  fs_ap :: int
  fs_nap :: int
  fs_dap :: int
  fs_root :: bool
  fs_auth :: bool
  fs_inode :: inode_view

definition frozen_mode :: "fmode \<Rightarrow> bool" where
  "frozen_mode m \<longleftrightarrow> m = FrozenTree \<or> m = FrozenDir"

definition blocked :: "fspec \<Rightarrow> bool" where
  "blocked s \<longleftrightarrow> \<not> fs_root s \<and> iv_frozen (fs_inode s)"

definition spec_pin :: "fspec \<Rightarrow> fspec" where
  "spec_pin s = s\<lparr>fs_ap := fs_ap s + 1\<rparr>"

definition spec_settle :: "fspec \<Rightarrow> fspec" where
  "spec_settle s =
     (if fs_ap s \<noteq> 1 \<or> fs_dap s \<noteq> 0 then s
      else if fs_mode s = FreezingDir then s\<lparr>fs_mode := FrozenDir, fs_ap := 0\<rparr>
      else if fs_mode s = FreezingTree \<and> fs_nap s = 0 then
        (if blocked s then s\<lparr>fs_ap := 2\<rparr> else s\<lparr>fs_mode := FrozenTree, fs_ap := 0\<rparr>)
      else s)"

definition spec_unpin :: "fspec \<Rightarrow> fspec" where
  "spec_unpin s = spec_settle (s\<lparr>fs_ap := fs_ap s - 1\<rparr>)"

definition spec_adjust :: "int \<Rightarrow> int \<Rightarrow> fspec \<Rightarrow> fspec" where
  "spec_adjust inc dirinc s = spec_settle (s\<lparr>fs_nap := fs_nap s + inc, fs_dap := fs_dap s + dirinc\<rparr>)"

definition spec_freeze_tree :: "fspec \<Rightarrow> fspec" where
  "spec_freeze_tree s =
     (if fs_ap s = 0 \<and> fs_nap s = 0 \<and> \<not> blocked s then s\<lparr>fs_mode := FrozenTree\<rparr>
      else s\<lparr>fs_mode := FreezingTree, fs_ap := fs_ap s + 1\<rparr>)"

definition spec_freeze_dir :: "fspec \<Rightarrow> fspec" where
  "spec_freeze_dir s =
     (if fs_ap s = 0 \<and> fs_dap s = 0 \<and> \<not> (blocked s \<and> \<not> iv_frozen_dir (fs_inode s))
      then s\<lparr>fs_mode := FrozenDir\<rparr>
      else s\<lparr>fs_mode := FreezingDir, fs_ap := fs_ap s + 1\<rparr>)"

definition spec_unfreeze :: "fspec \<Rightarrow> fspec" where
  "spec_unfreeze s =
     (if frozen_mode (fs_mode s) then s\<lparr>fs_mode := Unfrozen\<rparr>
      else s\<lparr>fs_mode := Unfrozen, fs_ap := fs_ap s - 1\<rparr>)"

text \<open>What the inode is owed: one nested auth pin while a directory that is not a subtree root has
  any, and one auth pin while an authoritative such directory is frozen.\<close>

definition nest_due :: "fspec \<Rightarrow> int" where
  "nest_due s = (if \<not> fs_root s \<and> fs_ap s + fs_nap s \<noteq> 0 then 1 else 0)"

definition auth_due :: "fspec \<Rightarrow> int" where
  "auth_due s = (if \<not> fs_root s \<and> fs_auth s \<and> frozen_mode (fs_mode s) then 1 else 0)"

section \<open>The directory as an instance of the machine\<close>

definition fmode_of :: "cdir \<Rightarrow> fmode" where
  "fmode_of c =
     (if state_test STATE_FROZENTREE c then FrozenTree
      else if state_test STATE_FREEZINGTREE c then FreezingTree
      else if state_test STATE_FROZENDIR c then FrozenDir
      else if state_test STATE_FREEZINGDIR c then FreezingDir
      else Unfrozen)"

definition mode_ok :: "cdir \<Rightarrow> bool" where
  "mode_ok c \<longleftrightarrow> (state_test STATE_FREEZINGTREE c \<longleftrightarrow> fmode_of c = FreezingTree) \<and>
     (state_test STATE_FROZENDIR c \<longleftrightarrow> fmode_of c = FrozenDir) \<and>
     (state_test STATE_FREEZINGDIR c \<longleftrightarrow> fmode_of c = FreezingDir)"

definition fz_abs :: "cdir \<Rightarrow> fspec" where
  "fz_abs c = \<lparr>fs_mode = fmode_of c, fs_ap = auth_pins c, fs_nap = nested_auth_pins c,
     fs_dap = dir_auth_pins c, fs_root = is_subtree_root c, fs_auth = is_auth c, fs_inode = cd_inode c\<rparr>"

definition call_nested :: "dir_call \<Rightarrow> int" where
  "call_nested e = (case e of OnInode (AdjustNestedAuthPins n) \<Rightarrow> n | _ \<Rightarrow> 0)"

definition call_auth :: "dir_call \<Rightarrow> int" where
  "call_auth e = (case e of OnInode AuthPin \<Rightarrow> 1 | OnInode AuthUnpin \<Rightarrow> -1 | _ \<Rightarrow> 0)"

definition net_nested :: "dir_call list \<Rightarrow> int" where
  "net_nested l = (\<Sum>e\<leftarrow>l. call_nested e)"

definition net_auth :: "dir_call list \<Rightarrow> int" where
  "net_auth l = (\<Sum>e\<leftarrow>l. call_auth e)"

lemma net_append [simp]:
  "net_nested (l @ l') = net_nested l + net_nested l'" "net_auth (l @ l') = net_auth l + net_auth l'"
  "net_nested [e] = call_nested e" "net_auth [e] = call_auth e"
  "net_nested [] = 0" "net_auth [] = 0"
  by (simp_all add: net_nested_def net_auth_def)

lemma call_simps [simp]:
  "call_nested (OnInode (AdjustNestedAuthPins n)) = n" "call_auth (OnInode (AdjustNestedAuthPins n)) = 0"
  "call_nested (OnInode AuthPin) = 0" "call_auth (OnInode AuthPin) = 1"
  "call_nested (OnInode AuthUnpin) = 0" "call_auth (OnInode AuthUnpin) = -1"
  "call_nested (OnInode GetDirfrag) = 0" "call_auth (OnInode GetDirfrag) = 0"
  "call_nested (OnInode PutDirfrag) = 0" "call_auth (OnInode PutDirfrag) = 0"
  "call_nested (OnInode WaitUnfreeze) = 0" "call_auth (OnInode WaitUnfreeze) = 0"
  "call_nested (OnServer x) = 0" "call_auth (OnServer x) = 0"
  "call_nested (OnParentDir t y) = 0" "call_auth (OnParentDir t y) = 0"
  by (simp_all add: call_nested_def call_auth_def)

text \<open>The waiters of a directory and the pins that go with them.\<close>

definition wait_inv :: "cdir \<Rightarrow> bool" where
  "wait_inv c \<longleftrightarrow> co_inv c \<and> om_ok (waiting_on_dentry c) \<and>
     pins c PIN_DNWAITER = (if waiting_on_dentry c = [] then 0 else 1)"

text \<open>The invariant of the machine, with what the inode has been given as a parameter: in the
  middle of an operation it lags behind what is due.\<close>

definition core_at :: "int \<Rightarrow> int \<Rightarrow> cdir \<Rightarrow> bool" where
  "core_at n a c \<longleftrightarrow> wait_inv c \<and> mode_ok c \<and> 0 \<le> auth_pins c \<and> 0 \<le> nested_auth_pins c \<and> 0 \<le> dir_auth_pins c \<and>
     pins c PIN_AUTHPIN = (if auth_pins c \<noteq> 0 then 1 else 0) \<and>
     pins c PIN_FROZEN = (if frozen_mode (fmode_of c) then 1 else 0) \<and>
     net_nested (cd_log c) = n \<and> net_auth (cd_log c) = a"

abbreviation core :: "cdir \<Rightarrow> bool" where
  "core c \<equiv> core_at (nest_due (fz_abs c)) (auth_due (fz_abs c)) c"

section \<open>Primitive steps\<close>

lemmas all_pin_defs = co_pin_defs cdir_pin_defs

lemma fz_abs_cong:
  "co_state c = co_state d \<Longrightarrow> auth_pins c = auth_pins d \<Longrightarrow> nested_auth_pins c = nested_auth_pins d \<Longrightarrow>
   dir_auth_pins c = dir_auth_pins d \<Longrightarrow> dir_auth c = dir_auth d \<Longrightarrow> cd_inode c = cd_inode d \<Longrightarrow>
   fz_abs c = fz_abs d"
  by (simp add: fz_abs_def fmode_of_def state_test_def is_subtree_root_def is_auth_def)

lemma mode_cong: "co_state c = co_state d \<Longrightarrow> mode_ok c = mode_ok d \<and> fmode_of c = fmode_of d"
  by (simp add: mode_ok_def fmode_of_def state_test_def)

lemma same_dir_fz: "same_dir c d \<Longrightarrow> co_state c = co_state d \<Longrightarrow> fz_abs c = fz_abs d"
  by (rule fz_abs_cong) (auto dest: same_dir_fields)

lemma wait_inv_cong:
  assumes "same_dir c d" "co_wf c" "co_replica_map c = co_replica_map d" "co_waiting c = co_waiting d"
    "pins c PIN_REPLICATED = pins d PIN_REPLICATED" "pins c PIN_WAITER = pins d PIN_WAITER"
    "pins c PIN_DNWAITER = pins d PIN_DNWAITER" "wait_inv d"
  shows "wait_inv c"
  using assms same_dir_fields(33) [OF assms(1)] by (auto simp: wait_inv_def co_inv_def dest: same_dir_fields)

lemma dget_core:
  assumes "wait_inv c" "by \<notin> {PIN_REPLICATED, PIN_WAITER, PIN_DNWAITER}"
  obtains c' where "dget by c = Some c'" "same_dir c' c" "wait_inv c'" "co_state c' = co_state c"
    "pins c' = (pins c)(by := pins c by + 1)" "net_nested (cd_log c') = net_nested (cd_log c)"
    "net_auth (cd_log c') = net_auth (cd_log c)"
proof -
  have wf: "co_wf c" using assms(1) by (simp add: wait_inv_def co_inv_wf)
  obtain c' where c': "dget by c = Some c'" "same_dir c' c" "co_wf c'"
    "pins c' = (pins c)(by := pins c by + 1)" "co_state c' = co_state c"
    "co_replica_map c' = co_replica_map c" "co_waiting c' = co_waiting c"
    "cd_log c' = (if co_ref c = 0 then cd_log c @ [OnInode GetDirfrag] else cd_log c)"
    by (rule dget_ok [OF wf, of "by"])
  have "wait_inv c'"
    by (rule wait_inv_cong [OF c'(2,3)]) (use c' assms in auto)
  with c' show thesis by (intro that [of c']) auto
qed

lemma dput_core:
  assumes "wait_inv c" "by \<notin> {PIN_REPLICATED, PIN_WAITER, PIN_DNWAITER}" "0 < pins c by"
  obtains c' where "dput by c = Some c'" "same_dir c' c" "wait_inv c'" "co_state c' = co_state c"
    "pins c' = (pins c)(by := pins c by - 1)" "net_nested (cd_log c') = net_nested (cd_log c)"
    "net_auth (cd_log c') = net_auth (cd_log c)"
proof -
  have wf: "co_wf c" using assms(1) by (simp add: wait_inv_def co_inv_wf)
  obtain c' where c': "dput by c = Some c'" "same_dir c' c" "co_wf c'"
    "pins c' = (pins c)(by := pins c by - 1)" "co_state c' = co_state c"
    "co_replica_map c' = co_replica_map c" "co_waiting c' = co_waiting c"
    "cd_log c' = (if co_ref c = 1 then cd_log c @ [OnInode PutDirfrag] else cd_log c)"
    by (rule dput_ok [OF wf assms(3)])
  have "wait_inv c'"
    by (rule wait_inv_cong [OF c'(2,3)]) (use c' assms in auto)
  with c' show thesis by (intro that [of c']) auto
qed

text \<open>Equal up to the base object, the log and the dentry waiters.\<close>

definition same_dirw :: "cdir \<Rightarrow> cdir \<Rightarrow> bool" where
  "same_dirw c d \<longleftrightarrow> same_dir c (d\<lparr>waiting_on_dentry := waiting_on_dentry c\<rparr>)"

lemma same_dirw_fields:
  assumes "same_dirw c d"
  shows "cd_inode c = cd_inode d" "fnode c = fnode d" "projected_version c = projected_version d"
    "projected_fnode c = projected_fnode d" "items c = items d"
    "num_head_items c = num_head_items d" "num_head_null c = num_head_null d"
    "num_snap_items c = num_snap_items d" "num_snap_null c = num_snap_null d"
    "committing_version c = committing_version d" "committed_version c = committed_version d"
    "auth_pins c = auth_pins d" "nested_auth_pins c = nested_auth_pins d"
    "dir_auth_pins c = dir_auth_pins d" "dir_auth c = dir_auth d"
    "waiting_for_commit c = waiting_for_commit d"
  using same_dir_fields [OF assms [unfolded same_dirw_def]] by simp_all

lemma same_dir_dirw: "same_dir c d \<Longrightarrow> same_dirw c d"
proof -
  assume s: "same_dir c d"
  have "d\<lparr>waiting_on_dentry := waiting_on_dentry c\<rparr> = d" using same_dir_fields(33) [OF s] by simp
  with s show ?thesis by (simp add: same_dirw_def)
qed

lemma same_dir_upd_waiters:
  assumes "same_dir c d"
  shows "same_dir (c\<lparr>waiting_on_dentry := w\<rparr>) (d\<lparr>waiting_on_dentry := w\<rparr>)"
proof -
  have "c\<lparr>waiting_on_dentry := w\<rparr> = (d\<lparr>co_state := co_state c, co_ref := co_ref c, co_ref_map := co_ref_map c,
     co_replica_nonce := co_replica_nonce c, co_replica_map := co_replica_map c,
     co_waiting := co_waiting c, cd_log := cd_log c\<rparr>)\<lparr>waiting_on_dentry := w\<rparr>"
    using assms unfolding same_dir_def by (rule arg_cong)
  then show ?thesis unfolding same_dir_def by simp
qed

lemma same_dirw_trans: "same_dirw a b \<Longrightarrow> same_dirw b c \<Longrightarrow> same_dirw a c"
proof -
  assume ab: "same_dirw a b" and bc: "same_dirw b c"
  have "same_dir (b\<lparr>waiting_on_dentry := waiting_on_dentry a\<rparr>) (c\<lparr>waiting_on_dentry := waiting_on_dentry a\<rparr>)"
    using same_dir_upd_waiters [OF bc [unfolded same_dirw_def], of "waiting_on_dentry a"] by simp
  then show ?thesis using ab unfolding same_dirw_def by (blast intro: same_dir_trans)
qed

lemma same_dirw_log [simp]: "same_dirw (log_call e c) c"
  by (rule same_dir_dirw [OF same_dir_log])

lemma same_dirw_fz: "same_dirw c d \<Longrightarrow> co_state c = co_state d \<Longrightarrow> fz_abs c = fz_abs d"
  by (rule fz_abs_cong) (auto dest: same_dirw_fields)

text \<open>What taking waiters does to a directory: nothing but waiters and their pins.\<close>

definition quiet :: "cdir \<Rightarrow> cdir \<Rightarrow> bool" where
  "quiet c' c \<longleftrightarrow> wait_inv c' \<and> same_dirw c' c \<and> co_state c' = co_state c \<and>
     co_replica_map c' = co_replica_map c \<and>
     (\<forall>p. p \<notin> {PIN_WAITER, PIN_DNWAITER} \<longrightarrow> pins c' p = pins c p) \<and>
     net_nested (cd_log c') = net_nested (cd_log c) \<and> net_auth (cd_log c') = net_auth (cd_log c)"

lemma quiet_refl: "wait_inv c \<Longrightarrow> quiet c c"
  by (simp add: quiet_def same_dir_dirw)

lemma quiet_trans: "quiet a b \<Longrightarrow> quiet b c \<Longrightarrow> quiet a c"
  by (auto simp: quiet_def intro: same_dirw_trans)

lemma wait_inv_log [frame_simps]: "wait_inv (log_call e c) = wait_inv c"
  by (simp add: wait_inv_def frame_simps log_call_dir_fields)

lemma quiet_log: "wait_inv c \<Longrightarrow> call_nested e = 0 \<Longrightarrow> call_auth e = 0 \<Longrightarrow> quiet (log_call e c) c"
  by (simp add: quiet_def frame_simps)

lemma quiet_core: "quiet c' c \<Longrightarrow> core_at n a c \<Longrightarrow> core_at n a c' \<and> fz_abs c' = fz_abs c"
  using mode_cong [of c' c] by (auto simp: quiet_def core_at_def all_pin_defs dest: same_dirw_fields same_dirw_fz)

lemma co_take_waiting_quiet:
  assumes "wait_inv c"
  obtains c' where "co_take_waiting last_put (\<lambda>c. c) msk ls c =
      Some (ls @ map snd (filter (\<lambda>p. fst p AND msk \<noteq> 0) (co_waiting c)), c')" "quiet c' c"
    "co_waiting c' = filter (\<lambda>p. fst p AND msk = 0) (co_waiting c)" "waiting_on_dentry c' = waiting_on_dentry c"
proof -
  let ?rest = "filter (\<lambda>p. fst p AND msk = 0) (co_waiting c)"
  let ?c1 = "c\<lparr>co_waiting := ?rest\<rparr>"
  have so: "sorted (map fst ?rest)" using assms by (simp add: wait_inv_def co_inv_def sorted_map_filter)
  have s1: "same_dir ?c1 c" by (simp add: same_dir_def)
  consider "co_waiting c = []" | "co_waiting c \<noteq> []" "?rest = []" | "co_waiting c \<noteq> []" "?rest \<noteq> []"
    by blast
  then show thesis
  proof cases
    case 1
    show thesis by (rule that [of c]) (use 1 assms in \<open>auto simp: co_take_waiting_def quiet_refl\<close>)
  next
    case 2
    have "co_wf ?c1" "0 < pins ?c1 PIN_WAITER" using assms 2 by (simp_all add: wait_inv_def co_inv_def frame_simps)
    then obtain c2 where c2: "dput PIN_WAITER ?c1 = Some c2" "same_dir c2 ?c1" "co_wf c2"
      "pins c2 = (pins ?c1)(PIN_WAITER := pins ?c1 PIN_WAITER - 1)" "co_state c2 = co_state ?c1"
      "co_replica_map c2 = co_replica_map ?c1" "co_waiting c2 = co_waiting ?c1"
      "cd_log c2 = (if co_ref ?c1 = 1 then cd_log ?c1 @ [OnInode PutDirfrag] else cd_log ?c1)"
      by (rule dput_ok)
    have sd: "same_dir c2 c" using c2(2) s1 by (rule same_dir_trans)
    have w: "wait_inv c2"
      using c2 2 assms same_dir_fields(33) [OF sd] by (simp add: wait_inv_def co_inv_def frame_simps all_pin_defs)
    have "quiet c2 c" using w sd c2 by (auto simp: quiet_def frame_simps same_dir_dirw)
    then show thesis
      by (intro that [of c2]) (use 2 c2 same_dir_fields(33) [OF sd] in
          \<open>simp_all add: co_take_waiting_def take_loop_eq Let_def dput_def\<close>)
  next
    case 3
    have w: "wait_inv ?c1" using assms 3 so by (simp add: wait_inv_def co_inv_def frame_simps)
    have "quiet ?c1 c" using w s1 by (simp add: quiet_def frame_simps same_dir_dirw)
    then show thesis
      by (intro that [of ?c1]) (use 3 in \<open>simp_all add: co_take_waiting_def take_loop_eq Let_def\<close>)
  qed
qed

lemma drop_dentry_waiters:
  assumes "wait_inv c" "waiting_on_dentry c \<noteq> []"
  obtains c' where "dput PIN_DNWAITER (c\<lparr>waiting_on_dentry := []\<rparr>) = Some c'" "quiet c' c"
    "waiting_on_dentry c' = []" "co_waiting c' = co_waiting c"
proof -
  let ?c1 = "c\<lparr>waiting_on_dentry := []\<rparr>"
  have "co_wf ?c1" "0 < pins ?c1 PIN_DNWAITER" using assms by (simp_all add: wait_inv_def co_inv_def frame_simps)
  then obtain c2 where c2: "dput PIN_DNWAITER ?c1 = Some c2" "same_dir c2 ?c1" "co_wf c2"
    "pins c2 = (pins ?c1)(PIN_DNWAITER := pins ?c1 PIN_DNWAITER - 1)" "co_state c2 = co_state ?c1"
    "co_replica_map c2 = co_replica_map ?c1" "co_waiting c2 = co_waiting ?c1"
    "cd_log c2 = (if co_ref ?c1 = 1 then cd_log ?c1 @ [OnInode PutDirfrag] else cd_log ?c1)"
    by (rule dput_ok)
  have wd: "waiting_on_dentry c2 = []" using same_dir_fields(33) [OF c2(2)] by simp
  have w: "wait_inv c2" using c2 assms wd by (simp add: wait_inv_def co_inv_def frame_simps all_pin_defs)
  have "same_dirw c2 c" using c2(2) wd by (simp add: same_dirw_def)
  with w c2 have "quiet c2 c" by (auto simp: quiet_def frame_simps)
  then show thesis using that c2 wd by simp
qed

lemma take_waiting_quiet:
  assumes "wait_inv c"
  obtains c' where "take_waiting msk ls c = Some (ls @
      (if msk AND WAIT_DENTRY \<noteq> 0 then concat (map snd (waiting_on_dentry c)) else []) @
      map snd (filter (\<lambda>p. fst p AND msk \<noteq> 0) (co_waiting c)), c')" "quiet c' c"
    "co_waiting c' = filter (\<lambda>p. fst p AND msk = 0) (co_waiting c)"
    "waiting_on_dentry c' = (if msk AND WAIT_DENTRY \<noteq> 0 then [] else waiting_on_dentry c)"
proof (cases "msk AND WAIT_DENTRY \<noteq> 0 \<and> waiting_on_dentry c \<noteq> []")
  case True
  then obtain d where d: "dput PIN_DNWAITER (c\<lparr>waiting_on_dentry := []\<rparr>) = Some d" "quiet d c"
    "waiting_on_dentry d = []" "co_waiting d = co_waiting c" using drop_dentry_waiters [OF assms] by blast
  have "wait_inv d" using d(2) by (simp add: quiet_def)
  then obtain c' where c': "co_take_waiting last_put (\<lambda>c. c) msk (ls @ concat (map snd (waiting_on_dentry c))) d =
      Some ((ls @ concat (map snd (waiting_on_dentry c))) @ map snd (filter (\<lambda>p. fst p AND msk \<noteq> 0) (co_waiting d)), c')"
    "quiet c' d" "co_waiting c' = filter (\<lambda>p. fst p AND msk = 0) (co_waiting d)"
    "waiting_on_dentry c' = waiting_on_dentry d" by (rule co_take_waiting_quiet)
  show thesis
    by (rule that [of c']) (use True d c' quiet_trans [OF c'(2) d(2)] in \<open>simp_all add: take_waiting_def\<close>)
next
  case False
  obtain c' where c': "co_take_waiting last_put (\<lambda>c. c) msk ls c =
      Some (ls @ map snd (filter (\<lambda>p. fst p AND msk \<noteq> 0) (co_waiting c)), c')" "quiet c' c"
    "co_waiting c' = filter (\<lambda>p. fst p AND msk = 0) (co_waiting c)" "waiting_on_dentry c' = waiting_on_dentry c"
    by (rule co_take_waiting_quiet [OF assms])
  show thesis by (rule that [of c']) (use False c' in \<open>auto simp: take_waiting_def\<close>)
qed

lemma finish_waiting_quiet:
  assumes "wait_inv c"
  obtains c' where "finish_waiting msk r c = Some c'" "quiet c' c"
    "co_waiting c' = filter (\<lambda>p. fst p AND msk = 0) (co_waiting c)"
    "\<exists>c1. take_waiting msk [] c = Some ((if msk AND WAIT_DENTRY \<noteq> 0 then concat (map snd (waiting_on_dentry c)) else []) @
       map snd (filter (\<lambda>p. fst p AND msk \<noteq> 0) (co_waiting c)), c1)"
proof -
  obtain d where d: "take_waiting msk [] c = Some ([] @
      (if msk AND WAIT_DENTRY \<noteq> 0 then concat (map snd (waiting_on_dentry c)) else []) @
      map snd (filter (\<lambda>p. fst p AND msk \<noteq> 0) (co_waiting c)), d)" "quiet d c"
    "co_waiting d = filter (\<lambda>p. fst p AND msk = 0) (co_waiting c)"
    by (rule take_waiting_quiet [OF assms])
  have w: "wait_inv d" using d(2) by (simp add: quiet_def)
  obtain ls where ls: "take_waiting msk [] c = Some (ls, d)" using d(1) by blast
  let ?e = "if r < 0 then OnServer (FinishContexts ls r) else OnServer (QueueWaiters ls)"
  have "quiet (log_call ?e d) c" by (rule quiet_trans [OF quiet_log [OF w] d(2)]) auto
  then show thesis
    by (intro that [of "log_call ?e d"]) (use ls d in \<open>auto simp: finish_waiting_def frame_simps\<close>)
qed

section \<open>Mode bits\<close>

lemma mode_bits_disjoint:
  "STATE_FROZENTREE AND STATE_FREEZINGTREE = 0" "STATE_FROZENTREE AND STATE_FROZENDIR = 0"
  "STATE_FROZENTREE AND STATE_FREEZINGDIR = 0" "STATE_FREEZINGTREE AND STATE_FROZENTREE = 0"
  "STATE_FREEZINGTREE AND STATE_FROZENDIR = 0" "STATE_FREEZINGTREE AND STATE_FREEZINGDIR = 0"
  "STATE_FROZENDIR AND STATE_FROZENTREE = 0" "STATE_FROZENDIR AND STATE_FREEZINGTREE = 0"
  "STATE_FROZENDIR AND STATE_FREEZINGDIR = 0" "STATE_FREEZINGDIR AND STATE_FROZENTREE = 0"
  "STATE_FREEZINGDIR AND STATE_FREEZINGTREE = 0" "STATE_FREEZINGDIR AND STATE_FROZENDIR = 0"
  "STATE_AUTH AND STATE_FROZENTREE = 0" "STATE_AUTH AND STATE_FREEZINGTREE = 0"
  "STATE_AUTH AND STATE_FROZENDIR = 0" "STATE_AUTH AND STATE_FREEZINGDIR = 0"
  "STATE_FROZENTREE AND STATE_AUTH = 0" "STATE_FREEZINGTREE AND STATE_AUTH = 0"
  "STATE_FROZENDIR AND STATE_AUTH = 0" "STATE_FREEZINGDIR AND STATE_AUTH = 0"
  by (simp_all add: state_bits)

lemma mode_bits_nonzero:
  "STATE_FROZENTREE \<noteq> 0" "STATE_FREEZINGTREE \<noteq> 0" "STATE_FROZENDIR \<noteq> 0" "STATE_FREEZINGDIR \<noteq> 0"
  by (simp_all add: state_bits)

lemmas mode_simps = state_test_set state_test_clear_other mode_bits_disjoint mode_bits_nonzero

lemma mode_moves:
  assumes "mode_ok c"
  shows "fmode_of c \<in> {Unfrozen, FreezingDir} \<Longrightarrow>
      mode_ok (state_set STATE_FROZENDIR (state_clear STATE_FREEZINGDIR c)) \<and>
      fmode_of (state_set STATE_FROZENDIR (state_clear STATE_FREEZINGDIR c)) = FrozenDir"
    and "fmode_of c \<in> {Unfrozen, FreezingTree} \<Longrightarrow>
      mode_ok (state_set STATE_FROZENTREE (state_clear STATE_FREEZINGTREE c)) \<and>
      fmode_of (state_set STATE_FROZENTREE (state_clear STATE_FREEZINGTREE c)) = FrozenTree"
    and "fmode_of c = Unfrozen \<Longrightarrow>
      mode_ok (state_set STATE_FREEZINGTREE c) \<and> fmode_of (state_set STATE_FREEZINGTREE c) = FreezingTree"
    and "fmode_of c = Unfrozen \<Longrightarrow>
      mode_ok (state_set STATE_FREEZINGDIR c) \<and> fmode_of (state_set STATE_FREEZINGDIR c) = FreezingDir"
    and "fmode_of c = FrozenTree \<Longrightarrow>
      mode_ok (state_clear STATE_FROZENTREE c) \<and> fmode_of (state_clear STATE_FROZENTREE c) = Unfrozen"
    and "fmode_of c = FreezingTree \<Longrightarrow>
      mode_ok (state_clear STATE_FREEZINGTREE c) \<and> fmode_of (state_clear STATE_FREEZINGTREE c) = Unfrozen"
    and "fmode_of c = FrozenDir \<Longrightarrow>
      mode_ok (state_clear STATE_FROZENDIR c) \<and> fmode_of (state_clear STATE_FROZENDIR c) = Unfrozen"
    and "fmode_of c = FreezingDir \<Longrightarrow>
      mode_ok (state_clear STATE_FREEZINGDIR c) \<and> fmode_of (state_clear STATE_FREEZINGDIR c) = Unfrozen"
  using assms by (auto simp: mode_ok_def fmode_of_def mode_simps split: if_splits)

lemma mode_tests:
  "mode_ok c \<Longrightarrow> state_test STATE_FROZENTREE c \<longleftrightarrow> fmode_of c = FrozenTree"
  "mode_ok c \<Longrightarrow> state_test STATE_FREEZINGTREE c \<longleftrightarrow> fmode_of c = FreezingTree"
  "mode_ok c \<Longrightarrow> state_test STATE_FROZENDIR c \<longleftrightarrow> fmode_of c = FrozenDir"
  "mode_ok c \<Longrightarrow> state_test STATE_FREEZINGDIR c \<longleftrightarrow> fmode_of c = FreezingDir"
  by (auto simp: mode_ok_def fmode_of_def split: if_splits)

lemma auth_mode_set:
  "is_auth (state_set STATE_FROZENTREE c) = is_auth c" "is_auth (state_clear STATE_FROZENTREE c) = is_auth c"
  "is_auth (state_set STATE_FREEZINGTREE c) = is_auth c" "is_auth (state_clear STATE_FREEZINGTREE c) = is_auth c"
  "is_auth (state_set STATE_FROZENDIR c) = is_auth c" "is_auth (state_clear STATE_FROZENDIR c) = is_auth c"
  "is_auth (state_set STATE_FREEZINGDIR c) = is_auth c" "is_auth (state_clear STATE_FREEZINGDIR c) = is_auth c"
  by (simp_all add: is_auth_def mode_simps)

lemma wait_inv_state [frame_simps]:
  "wait_inv (state_set m c) = wait_inv c" "wait_inv (state_clear m c) = wait_inv c"
  by (simp_all add: wait_inv_def co_inv_def frame_simps state_set_fields state_clear_fields)

lemma wait_inv_upd [frame_simps]:
  "wait_inv (c\<lparr>auth_pins := x\<rparr>) = wait_inv c" "wait_inv (c\<lparr>nested_auth_pins := y\<rparr>) = wait_inv c"
  "wait_inv (c\<lparr>dir_auth_pins := z\<rparr>) = wait_inv c" "wait_inv (c\<lparr>dir_auth := w\<rparr>) = wait_inv c"
  by (simp_all add: wait_inv_def frame_simps)

section \<open>Steps of the machine\<close>

lemma fz_abs_fields [simp]:
  "fs_mode (fz_abs c) = fmode_of c" "fs_ap (fz_abs c) = auth_pins c" "fs_nap (fz_abs c) = nested_auth_pins c"
  "fs_dap (fz_abs c) = dir_auth_pins c" "fs_root (fz_abs c) = is_subtree_root c"
  "fs_auth (fz_abs c) = is_auth c" "fs_inode (fz_abs c) = cd_inode c"
  by (simp_all add: fz_abs_def)

lemma fz_abs_upd [frame_simps]:
  "fz_abs (c\<lparr>auth_pins := x\<rparr>) = (fz_abs c)\<lparr>fs_ap := x\<rparr>"
  "fz_abs (c\<lparr>nested_auth_pins := x\<rparr>) = (fz_abs c)\<lparr>fs_nap := x\<rparr>"
  "fz_abs (c\<lparr>dir_auth_pins := x\<rparr>) = (fz_abs c)\<lparr>fs_dap := x\<rparr>"
  by (simp_all add: fz_abs_def fmode_of_def is_subtree_root_def is_auth_def frame_simps)

lemma fz_abs_log [frame_simps]: "fz_abs (log_call e c) = fz_abs c"
  by (rule fz_abs_cong) (simp_all add: frame_simps log_call_dir_fields)

lemma mode_log [frame_simps]: "mode_ok (log_call e c) = mode_ok c" "fmode_of (log_call e c) = fmode_of c"
  using mode_cong [of "log_call e c" c] by (simp_all add: frame_simps)

lemma core_log:
  "core_at n a (log_call e c) \<longleftrightarrow> core_at (n - call_nested e) (a - call_auth e) c"
  by (auto simp: core_at_def frame_simps log_call_dir_fields)

lemma auth_pin_ok:
  assumes "core c"
  obtains c' where "auth_pin c = Some c'" "core c'" "fz_abs c' = spec_pin (fz_abs c)"
proof -
  have w: "wait_inv c" and nn: "0 \<le> auth_pins c" "0 \<le> nested_auth_pins c" using assms by (auto simp: core_at_def)
  obtain c1 where c1: "(if auth_pins c = 0 then dget PIN_AUTHPIN c else Some c) = Some c1" "same_dir c1 c" "wait_inv c1"
    "co_state c1 = co_state c" "pins c1 PIN_AUTHPIN = 1" "pins c1 PIN_FROZEN = pins c PIN_FROZEN"
    "net_nested (cd_log c1) = net_nested (cd_log c)" "net_auth (cd_log c1) = net_auth (cd_log c)"
  proof (cases "auth_pins c = 0")
    case True
    obtain d where "dget PIN_AUTHPIN c = Some d" "same_dir d c" "wait_inv d" "co_state d = co_state c"
      "pins d = (pins c)(PIN_AUTHPIN := pins c PIN_AUTHPIN + 1)" "net_nested (cd_log d) = net_nested (cd_log c)"
      "net_auth (cd_log d) = net_auth (cd_log c)"
      by (rule dget_core [OF w, of PIN_AUTHPIN]) (simp_all add: all_pin_defs)
    with True assms show thesis by (intro that [of d]) (auto simp: core_at_def all_pin_defs)
  next
    case False
    with assms w show thesis by (intro that [of c]) (auto simp: core_at_def)
  qed
  let ?c2 = "c1\<lparr>auth_pins := auth_pins c1 + 1\<rparr>"
  note f = same_dir_fields [OF c1(2)]
  have abs2: "fz_abs ?c2 = spec_pin (fz_abs c)"
    using same_dir_fz [OF c1(2,4)] f by (simp add: frame_simps spec_pin_def)
  have core2: "core_at (nest_due (fz_abs c)) (auth_due (fz_abs c)) ?c2"
    using assms c1 f mode_cong [OF c1(4)] mode_cong [of ?c2 c1]
    by (simp add: core_at_def frame_simps)
  let ?c3 = "if \<not> is_subtree_root ?c2 \<and> get_cum_auth_pins ?c2 = 1
    then log_call (OnInode (AdjustNestedAuthPins 1)) ?c2 else ?c2"
  show thesis
  proof (rule that [of ?c3])
    show "auth_pin c = Some ?c3" using c1(1) by (simp add: auth_pin_def)
    show abs3: "fz_abs ?c3 = spec_pin (fz_abs c)" using abs2 by (simp add: frame_simps)
    have due: "nest_due (spec_pin (fz_abs c)) =
        nest_due (fz_abs c) + (if \<not> is_subtree_root ?c2 \<and> get_cum_auth_pins ?c2 = 1 then 1 else 0)"
      using nn f by (auto simp: nest_due_def spec_pin_def get_cum_auth_pins_def is_subtree_root_def)
    have "auth_due (spec_pin (fz_abs c)) = auth_due (fz_abs c)" by (simp add: auth_due_def spec_pin_def)
    then show "core ?c3" unfolding abs3 due using core2 by (auto simp: core_log)
  qed
qed

text \<open>Dropping the last own pin: the freeze check that follows finds nothing to do.\<close>

lemma unpin_last:
  assumes "core c" "auth_pins c = 1"
  obtains c' where "auth_unpin_f (Suc (Suc n)) c = Some c'" "core c'" "fz_abs c' = (fz_abs c)\<lparr>fs_ap := 0\<rparr>"
proof -
  let ?c1 = "c\<lparr>auth_pins := 0\<rparr>"
  have w: "wait_inv ?c1" "0 < pins ?c1 PIN_AUTHPIN" using assms by (simp_all add: core_at_def frame_simps)
  obtain c2 where c2: "dput PIN_AUTHPIN ?c1 = Some c2" "same_dir c2 ?c1" "wait_inv c2" "co_state c2 = co_state ?c1"
    "pins c2 = (pins ?c1)(PIN_AUTHPIN := pins ?c1 PIN_AUTHPIN - 1)" "net_nested (cd_log c2) = net_nested (cd_log ?c1)"
    "net_auth (cd_log c2) = net_auth (cd_log ?c1)"
    by (rule dput_core [OF w(1) _ w(2)]) (simp_all add: all_pin_defs)
  note f = same_dir_fields [OF c2(2)]
  have abs2: "fz_abs c2 = (fz_abs c)\<lparr>fs_ap := 0\<rparr>"
    using same_dir_fz [OF c2(2,4)] by (simp add: frame_simps)
  have core2: "core_at (nest_due (fz_abs c)) (auth_due (fz_abs c)) c2"
    using assms c2 f mode_cong [of c2 c] by (simp add: core_at_def frame_simps all_pin_defs)
  have f2: "auth_pins c2 = 0" "nested_auth_pins c2 = nested_auth_pins c" "is_subtree_root c2 = is_subtree_root c"
    using f by (simp_all add: is_subtree_root_def)
  let ?c3 = "if \<not> is_subtree_root c2 \<and> get_cum_auth_pins c2 = 0
    then log_call (OnInode (AdjustNestedAuthPins (-1))) c2 else c2"
  show thesis
  proof (rule that [of ?c3])
    show "auth_unpin_f (Suc (Suc n)) c = Some ?c3" using c2(1) f2(1) assms(2) by (simp add: Let_def auth_unpin_f.simps maybe_finish_freeze_f.simps)
    show abs3: "fz_abs ?c3 = (fz_abs c)\<lparr>fs_ap := 0\<rparr>" using abs2 by (simp add: frame_simps)
    have "0 \<le> nested_auth_pins c" using assms(1) by (simp add: core_at_def)
    then have due: "nest_due ((fz_abs c)\<lparr>fs_ap := 0\<rparr>) =
        nest_due (fz_abs c) - (if \<not> is_subtree_root c2 \<and> get_cum_auth_pins c2 = 0 then 1 else 0)"
      using f2 assms(2) by (auto simp: nest_due_def get_cum_auth_pins_def)
    have "auth_due ((fz_abs c)\<lparr>fs_ap := 0\<rparr>) = auth_due (fz_abs c)" by (simp add: auth_due_def)
    then show "core ?c3" unfolding abs3 due using core2 by (auto simp: core_log)
  qed
qed

lemma fz_abs_state:
  "same_dir d c \<Longrightarrow> is_auth d = is_auth c \<Longrightarrow> fz_abs d = (fz_abs c)\<lparr>fs_mode := fmode_of d\<rparr>"
  by (simp add: fz_abs_def is_subtree_root_def same_dir_fields)

lemma enter_frozen:
  assumes c: "core c" "\<not> frozen_mode (fmode_of c)"
    and d: "same_dir d c" "is_auth d = is_auth c" "mode_ok d" "frozen_mode (fmode_of d)" "wait_inv d"
      "pins d = pins c" "cd_log d = cd_log c"
  obtains c1 where "dget PIN_FROZEN d = Some c1"
    "core (if is_auth c1 \<and> \<not> is_subtree_root c1 then log_call (OnInode AuthPin) c1 else c1)"
    "fz_abs (if is_auth c1 \<and> \<not> is_subtree_root c1 then log_call (OnInode AuthPin) c1 else c1) =
       (fz_abs c)\<lparr>fs_mode := fmode_of d\<rparr>"
proof -
  obtain c1 where c1: "dget PIN_FROZEN d = Some c1" "same_dir c1 d" "wait_inv c1" "co_state c1 = co_state d"
    "pins c1 = (pins d)(PIN_FROZEN := pins d PIN_FROZEN + 1)" "net_nested (cd_log c1) = net_nested (cd_log d)"
    "net_auth (cd_log c1) = net_auth (cd_log d)"
    by (rule dget_core [OF d(5), of PIN_FROZEN]) (simp_all add: all_pin_defs)
  note f = same_dir_fields [OF same_dir_trans [OF c1(2) d(1)]]
  have abs1: "fz_abs c1 = (fz_abs c)\<lparr>fs_mode := fmode_of d\<rparr>"
    using same_dir_fz [OF c1(2,4)] fz_abs_state [OF d(1,2)] by simp
  have core1: "core_at (nest_due (fz_abs c)) (auth_due (fz_abs c)) c1"
    using c d c1 f mode_cong [OF c1(4)] by (simp add: core_at_def all_pin_defs)
  let ?e = "if is_auth c1 \<and> \<not> is_subtree_root c1 then log_call (OnInode AuthPin) c1 else c1"
  have abs2: "fz_abs ?e = (fz_abs c)\<lparr>fs_mode := fmode_of d\<rparr>" using abs1 by (simp add: frame_simps)
  have fl: "is_auth c1 = is_auth c" "is_subtree_root c1 = is_subtree_root c"
    using abs1 fz_abs_fields(5,6) [of c1] by simp_all
  have "nest_due ((fz_abs c)\<lparr>fs_mode := fmode_of d\<rparr>) = nest_due (fz_abs c)"
    "auth_due ((fz_abs c)\<lparr>fs_mode := fmode_of d\<rparr>) = auth_due (fz_abs c) + (if is_auth c1 \<and> \<not> is_subtree_root c1 then 1 else 0)"
    using c(2) d(4) fl by (simp_all add: nest_due_def auth_due_def)
  then have "core ?e" unfolding abs2 using core1 by (auto simp: core_log)
  from that [OF c1(1) this abs2] show thesis .
qed

lemma freeze_dir_work_ok:
  assumes "core c" "fmode_of c \<in> {Unfrozen, FreezingDir}"
  obtains c' where "freeze_dir_work c = Some c'" "core c'" "fz_abs c' = (fz_abs c)\<lparr>fs_mode := FrozenDir\<rparr>"
proof -
  let ?d = "state_set STATE_FROZENDIR (state_clear STATE_FREEZINGDIR c)"
  have m: "mode_ok c" using assms(1) by (simp add: core_at_def)
  have d: "mode_ok ?d" "fmode_of ?d = FrozenDir" using mode_moves(1) [OF m assms(2)] by auto
  have fd: "frozen_mode (fmode_of ?d)" "\<not> frozen_mode (fmode_of c)" using d(2) assms(2) by (auto simp: frozen_mode_def)
  have sd: "same_dir ?d c" by (rule same_dir_trans [OF same_dir_state(1) same_dir_state(2)])
  have w: "wait_inv ?d" "pins ?d = pins c" "cd_log ?d = cd_log c" "is_auth ?d = is_auth c"
    using assms(1) by (simp_all add: core_at_def frame_simps auth_mode_set)
  show thesis
    by (rule enter_frozen [OF assms(1) fd(2) sd w(4) d(1) fd(1) w(1,2,3)], rule that)
      (simp_all add: freeze_dir_work_def d(2))
qed

lemma freezeable_spec:
  "is_freezeable True c \<longleftrightarrow> auth_pins c \<le> 1 \<and> nested_auth_pins c \<le> 0 \<and> \<not> blocked (fz_abs c)"
  "is_freezeable_dir True c \<longleftrightarrow> auth_pins c \<le> 1 \<and> dir_auth_pins c \<le> 0 \<and>
     \<not> (blocked (fz_abs c) \<and> \<not> iv_frozen_dir (cd_inode c))"
  by (auto simp: is_freezeable_def is_freezeable_dir_def bool_int_def blocked_def)

lemma freeze_tree_work_ok:
  assumes "core c" "fmode_of c \<in> {Unfrozen, FreezingTree}" "is_freezeable True c"
  obtains c' where "freeze_tree_work c = Some c'" "core c'" "fz_abs c' = (fz_abs c)\<lparr>fs_mode := FrozenTree\<rparr>"
proof -
  let ?d = "state_set STATE_FROZENTREE (state_clear STATE_FREEZINGTREE c)"
  have m: "mode_ok c" using assms(1) by (simp add: core_at_def)
  have d: "mode_ok ?d" "fmode_of ?d = FrozenTree" using mode_moves(2) [OF m assms(2)] by auto
  have fd: "frozen_mode (fmode_of ?d)" "\<not> frozen_mode (fmode_of c)" using d(2) assms(2) by (auto simp: frozen_mode_def)
  have sd: "same_dir ?d c" by (rule same_dir_trans [OF same_dir_state(1) same_dir_state(2)])
  have w: "wait_inv ?d" "pins ?d = pins c" "cd_log ?d = cd_log c" "is_auth ?d = is_auth c"
    using assms(1) by (simp_all add: core_at_def frame_simps auth_mode_set)
  show thesis
    by (rule enter_frozen [OF assms(1) fd(2) sd w(4) d(1) fd(1) w(1,2,3)], rule that)
      (simp_all add: freeze_tree_work_def d(2) assms(3))
qed

text \<open>The freeze check, where it is made.\<close>

lemma maybe_finish_freeze_ok:
  assumes "core c"
  obtains c' where "maybe_finish_freeze_f (Suc (Suc (Suc n))) c = Some c'" "core c'" "fz_abs c' = spec_settle (fz_abs c)"
proof (cases "auth_pins c \<noteq> 1 \<or> dir_auth_pins c \<noteq> 0")
  case True
  show thesis by (rule that [of c]) (use True assms in \<open>auto simp: spec_settle_def maybe_finish_freeze_f.simps\<close>)
next
  case False
  then have ap: "auth_pins c = 1" "dir_auth_pins c = 0" by auto
  have m: "mode_ok c" and nn: "0 \<le> nested_auth_pins c" using assms by (simp_all add: core_at_def)
  consider (dir) "fmode_of c = FreezingDir" | (tree) "fmode_of c = FreezingTree" "nested_auth_pins c = 0"
    | (other) "fmode_of c \<noteq> FreezingDir" "\<not> (fmode_of c = FreezingTree \<and> nested_auth_pins c = 0)" by blast
  then show thesis
  proof cases
    case dir
    obtain d where d: "freeze_dir_work c = Some d" "core d" "fz_abs d = (fz_abs c)\<lparr>fs_mode := FrozenDir\<rparr>"
      by (rule freeze_dir_work_ok [OF assms]) (use dir in auto)
    have "auth_pins d = 1" using d(3) ap fz_abs_fields(2) [of d] by simp
    then obtain d1 where d1: "auth_unpin_f (Suc (Suc n)) d = Some d1" "core d1" "fz_abs d1 = (fz_abs d)\<lparr>fs_ap := 0\<rparr>"
      by (rule unpin_last [OF d(2)])
    have "wait_inv d1" using d1(2) by (simp add: core_at_def)
    then obtain e where e: "finish_waiting WAIT_FROZEN 0 d1 = Some e" "quiet e d1" by (rule finish_waiting_quiet)
    have ce: "core e" "fz_abs e = fz_abs d1" using quiet_core [OF e(2) d1(2)] by simp_all
    have fe: "fz_abs e = (fz_abs c)\<lparr>fs_mode := FrozenDir, fs_ap := 0\<rparr>" using ce(2) d1(3) d(3) by simp
    have "mode_ok e" using ce(1) by (simp add: core_at_def)
    then have nt: "\<not> state_test STATE_FREEZINGTREE e"
      using fe fz_abs_fields(1) [of e] by (simp add: mode_tests)
    show thesis
      by (rule that [OF _ ce(1)])
        (use ap dir d d1 e nt fe m in \<open>simp_all add: mode_tests spec_settle_def maybe_finish_freeze_f.simps\<close>)
  next
    case tree
    have t: "state_test STATE_FREEZINGTREE c" "\<not> state_test STATE_FREEZINGDIR c"
      using m tree(1) by (simp_all add: mode_tests)
    show thesis
    proof (cases "blocked (fz_abs c)")
      case True
      then have bl: "\<not> is_subtree_root c \<and> iv_frozen (cd_inode c)" by (simp add: blocked_def)
      obtain d where d: "auth_pin c = Some d" "core d" "fz_abs d = spec_pin (fz_abs c)" by (rule auth_pin_ok [OF assms])
      show thesis
        by (rule that [of "log_call (OnInode WaitUnfreeze) d"])
          (use d t tree ap bl True in \<open>simp_all add: core_log frame_simps spec_settle_def spec_pin_def maybe_finish_freeze_f.simps\<close>)
    next
      case False
      then have bl: "\<not> (\<not> is_subtree_root c \<and> iv_frozen (cd_inode c))" by (auto simp: blocked_def)
      have fr: "is_freezeable True c" using False ap tree(2) by (simp add: freezeable_spec)
      obtain d where d: "freeze_tree_work c = Some d" "core d" "fz_abs d = (fz_abs c)\<lparr>fs_mode := FrozenTree\<rparr>"
        by (rule freeze_tree_work_ok [OF assms _ fr]) (use tree in auto)
      have "auth_pins d = 1" using d(3) ap fz_abs_fields(2) [of d] by simp
      then obtain d1 where d1: "auth_unpin_f (Suc (Suc n)) d = Some d1" "core d1" "fz_abs d1 = (fz_abs d)\<lparr>fs_ap := 0\<rparr>"
        by (rule unpin_last [OF d(2)])
      have "wait_inv d1" using d1(2) by (simp add: core_at_def)
      then obtain e where e: "finish_waiting WAIT_FROZEN 0 d1 = Some e" "quiet e d1" by (rule finish_waiting_quiet)
      have ce: "core e" "fz_abs e = fz_abs d1" using quiet_core [OF e(2) d1(2)] by simp_all
      show thesis
        by (rule that [OF _ ce(1)])
          (use ap tree t bl False d d1 e ce(2) in \<open>auto simp: spec_settle_def maybe_finish_freeze_f.simps\<close>)
    qed
  next
    case other
    then have t: "\<not> state_test STATE_FREEZINGDIR c" "nested_auth_pins c \<noteq> 0 \<or> \<not> state_test STATE_FREEZINGTREE c"
      using m by (auto simp: mode_tests)
    show thesis
      by (rule that [OF _ assms]) (use ap other t in \<open>auto simp: spec_settle_def maybe_finish_freeze_f.simps\<close>)
  qed
qed

lemma settle_idle: "fs_ap s \<noteq> 1 \<Longrightarrow> spec_settle s = s"
  by (simp add: spec_settle_def)

text \<open>What the freeze check may owe the inode: settling changes the nested pin due only where it
  completes the freeze, and that is accounted for by the unpin inside.\<close>

lemma core_set_ap:
  assumes "core c" "1 < auth_pins c"
  shows "core (c\<lparr>auth_pins := auth_pins c - 1\<rparr>)"
proof -
  have m: "mode_ok (c\<lparr>auth_pins := auth_pins c - 1\<rparr>) = mode_ok c" "fmode_of (c\<lparr>auth_pins := auth_pins c - 1\<rparr>) = fmode_of c"
    using mode_cong [of "c\<lparr>auth_pins := auth_pins c - 1\<rparr>" c] by simp_all
  have "nest_due ((fz_abs c)\<lparr>fs_ap := auth_pins c - 1\<rparr>) = nest_due (fz_abs c)"
    "auth_due ((fz_abs c)\<lparr>fs_ap := auth_pins c - 1\<rparr>) = auth_due (fz_abs c)"
    using assms by (auto simp: nest_due_def auth_due_def core_at_def)
  with assms m show ?thesis by (simp add: core_at_def frame_simps)
qed

lemma auth_unpin_ok:
  assumes "core c" "1 \<le> auth_pins c"
  obtains c' where "auth_unpin c = Some c'" "core c'" "fz_abs c' = spec_unpin (fz_abs c)"
proof (cases "auth_pins c = 1")
  case True
  obtain c' where "auth_unpin_f (Suc (Suc 2)) c = Some c'" "core c'" "fz_abs c' = (fz_abs c)\<lparr>fs_ap := 0\<rparr>"
    by (rule unpin_last [OF assms(1) True])
  with True show thesis by (intro that [of c']) (simp_all add: auth_unpin_def spec_unpin_def settle_idle)
next
  case False
  let ?c1 = "c\<lparr>auth_pins := auth_pins c - 1\<rparr>"
  have c1: "core ?c1" using core_set_ap [OF assms(1)] assms(2) False by simp
  obtain c' where c': "maybe_finish_freeze_f (Suc (Suc (Suc 0))) ?c1 = Some c'" "core c'"
    "fz_abs c' = spec_settle (fz_abs ?c1)"
    by (rule maybe_finish_freeze_ok [OF c1])
  have "get_cum_auth_pins ?c1 \<noteq> 0" using assms False by (simp add: get_cum_auth_pins_def core_at_def)
  then have "auth_unpin c = Some c'"
    using c'(1) False assms(2) by (simp add: auth_unpin_def numeral_eq_Suc auth_unpin_f.simps)
  with c' show thesis by (intro that [of c']) (simp_all add: spec_unpin_def frame_simps)
qed

lemma adjust_nested_ok:
  assumes "core c" "inc \<noteq> 0" "0 \<le> nested_auth_pins c + inc" "0 \<le> dir_auth_pins c + dirinc"
  obtains c' where "adjust_nested_auth_pins inc dirinc c = Some c'" "core c'"
    "fz_abs c' = spec_adjust inc dirinc (fz_abs c)"
proof -
  let ?c1 = "c\<lparr>nested_auth_pins := nested_auth_pins c + inc, dir_auth_pins := dir_auth_pins c + dirinc\<rparr>"
  let ?s1 = "(fz_abs c)\<lparr>fs_nap := nested_auth_pins c + inc, fs_dap := dir_auth_pins c + dirinc\<rparr>"
  have a1: "fz_abs ?c1 = ?s1" by (simp add: frame_simps)
  have m: "mode_ok ?c1 = mode_ok c" "fmode_of ?c1 = fmode_of c" using mode_cong [of ?c1 c] by simp_all
  have nn: "0 \<le> auth_pins c" "0 \<le> nested_auth_pins c" using assms(1) by (simp_all add: core_at_def)
  have at1: "core_at (nest_due (fz_abs c)) (auth_due (fz_abs c)) ?c1"
    using assms m by (simp add: core_at_def frame_simps)
  have ad: "auth_due ?s1 = auth_due (fz_abs c)" by (simp add: auth_due_def)
  show thesis
  proof (cases "auth_pins c = 0")
    case True
    have idle: "maybe_finish_freeze ?c1 = Some ?c1"
      using True by (simp add: maybe_finish_freeze_def numeral_eq_Suc maybe_finish_freeze_f.simps)
    let ?c2 = "if \<not> is_subtree_root ?c1 then
        if get_cum_auth_pins ?c1 = 0 then log_call (OnInode (AdjustNestedAuthPins (-1))) ?c1
        else if get_cum_auth_pins ?c1 = inc then log_call (OnInode (AdjustNestedAuthPins 1)) ?c1 else ?c1
      else ?c1"
    have abs2: "fz_abs ?c2 = ?s1" using a1 by (simp add: frame_simps)
    have rt: "is_subtree_root ?c1 = is_subtree_root c" by (simp add: is_subtree_root_def)
    have cum: "get_cum_auth_pins ?c1 = nested_auth_pins c + inc" using True by (simp add: get_cum_auth_pins_def)
    have due: "nest_due ?s1 = nest_due (fz_abs c) + (if \<not> is_subtree_root ?c1 then
        if get_cum_auth_pins ?c1 = 0 then -1 else if get_cum_auth_pins ?c1 = inc then 1 else 0 else 0)"
      unfolding rt cum using True nn assms(2,3) by (auto simp: nest_due_def)
    have "core ?c2" unfolding abs2 due ad using at1 by (auto simp: core_log)
    moreover have "adjust_nested_auth_pins inc dirinc c = Some ?c2"
      unfolding adjust_nested_auth_pins_def Let_def using assms(2-4) idle by simp
    ultimately show thesis
      using abs2 True by (intro that [of ?c2]) (simp_all add: spec_adjust_def settle_idle)
  next
    case False
    then have pos: "0 < auth_pins c" using nn by simp
    have "nest_due ?s1 = nest_due (fz_abs c)" using pos nn assms(3) by (auto simp: nest_due_def)
    with at1 a1 ad have c1: "core ?c1" by simp
    obtain c' where c': "maybe_finish_freeze_f (Suc (Suc (Suc 0))) ?c1 = Some c'" "core c'"
      "fz_abs c' = spec_settle (fz_abs ?c1)"
      by (rule maybe_finish_freeze_ok [OF c1])
    have "get_cum_auth_pins ?c1 \<noteq> 0" "get_cum_auth_pins ?c1 \<noteq> inc"
      using pos nn assms(3) by (simp_all add: get_cum_auth_pins_def)
    then have "adjust_nested_auth_pins inc dirinc c = Some c'"
      using assms(2-4) c'(1) by (simp add: adjust_nested_auth_pins_def Let_def maybe_finish_freeze_def numeral_eq_Suc)
    with c' a1 show thesis by (intro that [of c']) (simp_all add: spec_adjust_def)
  qed
qed

lemma unfrozen_mode:
  assumes "core c" "\<not> is_frozen up c" "\<not> is_freezing up c"
  shows "fmode_of c = Unfrozen"
  using assms by (auto simp: is_frozen_def is_freezing_def is_frozen_dir_def is_freezing_dir_def is_frozen_tree_def
      is_freezing_tree_def fmode_of_def state_test_def split: if_splits)

lemma core_enter_freezing:
  assumes "core c" "same_dir d c" "is_auth d = is_auth c" "mode_ok d" "fmode_of c = Unfrozen"
    "\<not> frozen_mode (fmode_of d)" "wait_inv d" "pins d = pins c" "cd_log d = cd_log c"
  shows "core d \<and> fz_abs d = (fz_abs c)\<lparr>fs_mode := fmode_of d\<rparr>"
proof -
  have a: "fz_abs d = (fz_abs c)\<lparr>fs_mode := fmode_of d\<rparr>" by (rule fz_abs_state [OF assms(2,3)])
  have "nest_due (fz_abs d) = nest_due (fz_abs c)" "auth_due (fz_abs d) = auth_due (fz_abs c)"
    using assms(5,6) by (simp_all add: a nest_due_def auth_due_def frozen_mode_def)
  with assms same_dir_fields [OF assms(2)] a show ?thesis
    by (simp add: core_at_def frozen_mode_def)
qed

lemma freeze_tree_ok:
  assumes "core c" "\<not> is_frozen up c" "\<not> is_freezing up c"
  obtains b c' where "freeze_tree up c = Some (b, c')" "core c'" "fz_abs c' = spec_freeze_tree (fz_abs c)"
    "b = (fmode_of c' = FrozenTree)"
proof -
  have un: "fmode_of c = Unfrozen" by (rule unfrozen_mode [OF assms])
  have nn: "0 \<le> auth_pins c" "0 \<le> nested_auth_pins c" using assms(1) by (simp_all add: core_at_def)
  obtain c1 where c1: "auth_pin c = Some c1" "core c1" "fz_abs c1 = spec_pin (fz_abs c)" by (rule auth_pin_ok [OF assms(1)])
  have f1: "fmode_of c1 = Unfrozen" "auth_pins c1 = auth_pins c + 1" "nested_auth_pins c1 = nested_auth_pins c"
    using c1(3) un fz_abs_fields(1-3) [of c1] by (simp_all add: spec_pin_def)
  have bl: "blocked (fz_abs c1) = blocked (fz_abs c)" using c1(3) by (simp add: spec_pin_def blocked_def)
  have fr: "is_freezeable True c1 \<longleftrightarrow> auth_pins c = 0 \<and> nested_auth_pins c = 0 \<and> \<not> blocked (fz_abs c)"
    using freezeable_spec(1) [of c1] f1 nn bl by auto
  show thesis
  proof (cases "is_freezeable True c1")
    case True
    obtain c2 where c2: "freeze_tree_work c1 = Some c2" "core c2" "fz_abs c2 = (fz_abs c1)\<lparr>fs_mode := FrozenTree\<rparr>"
      by (rule freeze_tree_work_ok [OF c1(2) _ True]) (simp add: f1)
    have "auth_pins c2 = 1" using c2(3) c1(3) fr True fz_abs_fields(2) [of c2] by (simp add: spec_pin_def)
    then obtain c3 where c3: "auth_unpin c2 = Some c3" "core c3" "fz_abs c3 = spec_unpin (fz_abs c2)"
      using auth_unpin_ok [OF c2(2)] by (metis order_refl)
    have "fz_abs c3 = spec_freeze_tree (fz_abs c)"
      using c3(3) c2(3) c1(3) fr True by (simp add: spec_unpin_def spec_pin_def settle_idle spec_freeze_tree_def)
    moreover from this have "fmode_of c3 = FrozenTree" using fr True fz_abs_fields(1) [of c3] by (simp add: spec_freeze_tree_def)
    ultimately show thesis
      using c1 c2 c3 True assms(2,3) by (intro that [of True c3]) (simp_all add: freeze_tree_def)
  next
    case False
    let ?d = "state_set STATE_FREEZINGTREE c1"
    have m1: "mode_ok c1" using c1(2) by (simp add: core_at_def)
    have md: "mode_ok ?d" "fmode_of ?d = FreezingTree" using mode_moves(3) [OF m1 f1(1)] by auto
    have both: "core ?d \<and> fz_abs ?d = (fz_abs c1)\<lparr>fs_mode := fmode_of ?d\<rparr>"
      by (rule core_enter_freezing [OF c1(2)]) (use c1(2) md f1 in \<open>simp_all add: auth_mode_set frozen_mode_def core_at_def frame_simps\<close>)
    then have cd: "core ?d" by blast
    have sp: "spec_freeze_tree (fz_abs c) = (fz_abs c)\<lparr>fs_mode := FreezingTree, fs_ap := auth_pins c + 1\<rparr>"
      using fr False by (auto simp: spec_freeze_tree_def)
    show thesis
      by (rule that [OF _ cd]) (use both sp c1 md False assms(2,3) in \<open>simp_all add: freeze_tree_def spec_pin_def\<close>)
  qed
qed

lemma freeze_dir_ok:
  assumes "core c" "\<not> is_frozen up c" "\<not> is_freezing up c"
  obtains b c' where "freeze_dir up c = Some (b, c')" "core c'" "fz_abs c' = spec_freeze_dir (fz_abs c)"
    "b = (fmode_of c' = FrozenDir)"
proof -
  have un: "fmode_of c = Unfrozen" by (rule unfrozen_mode [OF assms])
  have nn: "0 \<le> auth_pins c" "0 \<le> dir_auth_pins c" using assms(1) by (simp_all add: core_at_def)
  obtain c1 where c1: "auth_pin c = Some c1" "core c1" "fz_abs c1 = spec_pin (fz_abs c)" by (rule auth_pin_ok [OF assms(1)])
  have f1: "fmode_of c1 = Unfrozen" "auth_pins c1 = auth_pins c + 1" "dir_auth_pins c1 = dir_auth_pins c" "cd_inode c1 = cd_inode c"
    using c1(3) un fz_abs_fields(1,2,4,7) [of c1] by (simp_all add: spec_pin_def)
  have bl: "blocked (fz_abs c1) = blocked (fz_abs c)" using c1(3) by (simp add: spec_pin_def blocked_def)
  have fr: "is_freezeable_dir True c1 \<longleftrightarrow> auth_pins c = 0 \<and> dir_auth_pins c = 0 \<and>
      \<not> (blocked (fz_abs c) \<and> \<not> iv_frozen_dir (cd_inode c))"
    using freezeable_spec(2) [of c1] f1 nn bl by auto
  show thesis
  proof (cases "is_freezeable_dir True c1")
    case True
    obtain c2 where c2: "freeze_dir_work c1 = Some c2" "core c2" "fz_abs c2 = (fz_abs c1)\<lparr>fs_mode := FrozenDir\<rparr>"
      by (rule freeze_dir_work_ok [OF c1(2)]) (simp add: f1)
    have "auth_pins c2 = 1" using c2(3) c1(3) fr True fz_abs_fields(2) [of c2] by (simp add: spec_pin_def)
    then obtain c3 where c3: "auth_unpin c2 = Some c3" "core c3" "fz_abs c3 = spec_unpin (fz_abs c2)"
      using auth_unpin_ok [OF c2(2)] by (metis order_refl)
    have "fz_abs c3 = spec_freeze_dir (fz_abs c)"
      using c3(3) c2(3) c1(3) fr True by (simp add: spec_unpin_def spec_pin_def settle_idle spec_freeze_dir_def)
    moreover from this have "fmode_of c3 = FrozenDir" using fr True fz_abs_fields(1) [of c3] by (simp add: spec_freeze_dir_def)
    ultimately show thesis
      using c1 c2 c3 True assms(2,3) by (intro that [of True c3]) (simp_all add: freeze_dir_def)
  next
    case False
    let ?d = "state_set STATE_FREEZINGDIR c1"
    have m1: "mode_ok c1" using c1(2) by (simp add: core_at_def)
    have md: "mode_ok ?d" "fmode_of ?d = FreezingDir" using mode_moves(4) [OF m1 f1(1)] by auto
    have both: "core ?d \<and> fz_abs ?d = (fz_abs c1)\<lparr>fs_mode := fmode_of ?d\<rparr>"
      by (rule core_enter_freezing [OF c1(2)]) (use c1(2) md f1 in \<open>simp_all add: auth_mode_set frozen_mode_def core_at_def frame_simps\<close>)
    then have cd: "core ?d" by blast
    have sp: "spec_freeze_dir (fz_abs c) = (fz_abs c)\<lparr>fs_mode := FreezingDir, fs_ap := auth_pins c + 1\<rparr>"
      using fr False by (auto simp: spec_freeze_dir_def)
    show thesis
      by (rule that [OF _ cd]) (use both sp c1 md False assms(2,3) in \<open>simp_all add: freeze_dir_def spec_pin_def\<close>)
  qed
qed

text \<open>Leaving a frozen state, for either kind of freeze.\<close>

lemma leave_frozen:
  assumes c: "core c" "frozen_mode (fmode_of c)"
    and d: "same_dir d c" "is_auth d = is_auth c" "mode_ok d" "fmode_of d = Unfrozen" "wait_inv d"
      "pins d = pins c" "cd_log d = cd_log c"
  obtains c1 c' where "dput PIN_FROZEN d = Some c1"
    "finish_waiting WAIT_UNFREEZE 0 (if is_auth c1 \<and> \<not> is_subtree_root c1 then log_call (OnInode AuthUnpin) c1 else c1) = Some c'"
    "core c'" "fz_abs c' = (fz_abs c)\<lparr>fs_mode := Unfrozen\<rparr>"
proof -
  have "0 < pins d PIN_FROZEN" using c d(6) by (simp add: core_at_def)
  then obtain c1 where c1: "dput PIN_FROZEN d = Some c1" "same_dir c1 d" "wait_inv c1" "co_state c1 = co_state d"
    "pins c1 = (pins d)(PIN_FROZEN := pins d PIN_FROZEN - 1)" "net_nested (cd_log c1) = net_nested (cd_log d)"
    "net_auth (cd_log c1) = net_auth (cd_log d)"
    by (rule dput_core [OF d(5), rotated]) (simp_all add: all_pin_defs)
  note f = same_dir_fields [OF same_dir_trans [OF c1(2) d(1)]]
  have abs1: "fz_abs c1 = (fz_abs c)\<lparr>fs_mode := Unfrozen\<rparr>"
    using same_dir_fz [OF c1(2,4)] fz_abs_state [OF d(1,2)] d(4) by simp
  have core1: "core_at (nest_due (fz_abs c)) (auth_due (fz_abs c)) c1"
    using c d c1 f mode_cong [OF c1(4)] by (simp add: core_at_def all_pin_defs frozen_mode_def)
  let ?e = "if is_auth c1 \<and> \<not> is_subtree_root c1 then log_call (OnInode AuthUnpin) c1 else c1"
  have abs2: "fz_abs ?e = (fz_abs c)\<lparr>fs_mode := Unfrozen\<rparr>" using abs1 by (simp add: frame_simps)
  have fl: "is_auth c1 = is_auth c" "is_subtree_root c1 = is_subtree_root c"
    using abs1 fz_abs_fields(5,6) [of c1] by simp_all
  have "nest_due ((fz_abs c)\<lparr>fs_mode := Unfrozen\<rparr>) = nest_due (fz_abs c)"
    "auth_due ((fz_abs c)\<lparr>fs_mode := Unfrozen\<rparr>) = auth_due (fz_abs c) - (if is_auth c1 \<and> \<not> is_subtree_root c1 then 1 else 0)"
    using c(2) fl by (simp_all add: nest_due_def auth_due_def frozen_mode_def)
  then have ce: "core ?e" unfolding abs2 using core1 by (auto simp: core_log)
  then have "wait_inv ?e" by (simp add: core_at_def)
  then obtain c' where c': "finish_waiting WAIT_UNFREEZE 0 ?e = Some c'" "quiet c' ?e" by (rule finish_waiting_quiet)
  with quiet_core [OF c'(2) ce] abs2 have "core c'" "fz_abs c' = (fz_abs c)\<lparr>fs_mode := Unfrozen\<rparr>" by simp_all
  from that [OF c1(1) c'(1) this] show thesis .
qed

text \<open>Giving up a freeze that has not completed.\<close>

lemma leave_freezing:
  assumes "core c" "1 \<le> auth_pins c"
    and d: "same_dir d c" "is_auth d = is_auth c" "mode_ok d" "fmode_of d = Unfrozen" "wait_inv d"
      "pins d = pins c" "cd_log d = cd_log c" "\<not> frozen_mode (fmode_of c)"
  obtains c1 c' where "auth_unpin d = Some c1" "finish_waiting WAIT_UNFREEZE 0 c1 = Some c'" "core c'"
    "fz_abs c' = (fz_abs c)\<lparr>fs_mode := Unfrozen, fs_ap := auth_pins c - 1\<rparr>"
proof -
  have a: "fz_abs d = (fz_abs c)\<lparr>fs_mode := Unfrozen\<rparr>" using fz_abs_state [OF d(1,2)] d(4) by simp
  have "nest_due (fz_abs d) = nest_due (fz_abs c)" "auth_due (fz_abs d) = auth_due (fz_abs c)"
    using d(8) by (simp_all add: a nest_due_def auth_due_def frozen_mode_def)
  with assms(1) d same_dir_fields [OF d(1)] have cd: "core d" by (simp add: core_at_def frozen_mode_def)
  have "1 \<le> auth_pins d" using assms(2) same_dir_fields [OF d(1)] by simp
  then obtain c1 where c1: "auth_unpin d = Some c1" "core c1" "fz_abs c1 = spec_unpin (fz_abs d)"
    by (rule auth_unpin_ok [OF cd])
  have "wait_inv c1" using c1(2) by (simp add: core_at_def)
  then obtain c' where c': "finish_waiting WAIT_UNFREEZE 0 c1 = Some c'" "quiet c' c1" by (rule finish_waiting_quiet)
  have "fz_abs c1 = (fz_abs c)\<lparr>fs_mode := Unfrozen, fs_ap := auth_pins c - 1\<rparr>"
    using c1(3) a by (simp add: spec_unpin_def spec_settle_def)
  with quiet_core [OF c'(2) c1(2)] have "core c'" "fz_abs c' = (fz_abs c)\<lparr>fs_mode := Unfrozen, fs_ap := auth_pins c - 1\<rparr>"
    by simp_all
  from that [OF c1(1) c'(1) this] show thesis .
qed

lemma wait_inv_core: "core_at n a c \<Longrightarrow> wait_inv c" and mode_ok_core: "core_at n a c \<Longrightarrow> mode_ok c"
  by (simp_all add: core_at_def)

lemma unfreeze_tree_ok:
  assumes "core c" "fmode_of c \<in> {FrozenTree, FreezingTree}" "fmode_of c = FreezingTree \<Longrightarrow> 1 \<le> auth_pins c"
  obtains c' where "unfreeze_tree c = Some c'" "core c'" "fz_abs c' = spec_unfreeze (fz_abs c)"
proof (cases "fmode_of c = FrozenTree")
  case True
  let ?d = "state_clear STATE_FROZENTREE c"
  have m: "mode_ok ?d" "fmode_of ?d = Unfrozen" using mode_moves(5) [OF mode_ok_core [OF assms(1)] True] by auto
  have fc: "frozen_mode (fmode_of c)" using True by (simp add: frozen_mode_def)
  obtain c1 c' where r: "dput PIN_FROZEN ?d = Some c1"
    "finish_waiting WAIT_UNFREEZE 0 (if is_auth c1 \<and> \<not> is_subtree_root c1 then log_call (OnInode AuthUnpin) c1 else c1) = Some c'"
    "core c'" "fz_abs c' = (fz_abs c)\<lparr>fs_mode := Unfrozen\<rparr>"
    by (rule leave_frozen [OF assms(1) fc same_dir_state(2) _ m])
      (use wait_inv_core [OF assms(1)] in \<open>simp_all add: auth_mode_set frame_simps\<close>)
  have "state_test STATE_FROZENTREE c" using True mode_tests(1) [OF mode_ok_core [OF assms(1)]] by simp
  with r True show thesis
    by (intro that [of c']) (simp_all add: unfreeze_tree_def Let_def spec_unfreeze_def frozen_mode_def)
next
  case False
  then have fz: "fmode_of c = FreezingTree" using assms(2) by simp
  have nt: "\<not> state_test STATE_FROZENTREE c" "state_test STATE_FREEZINGTREE c"
    using fz mode_tests(1,2) [OF mode_ok_core [OF assms(1)]] by simp_all
  obtain e where e: "finish_waiting WAIT_FROZEN (-1) c = Some e" "quiet e c" by (rule finish_waiting_quiet [OF wait_inv_core [OF assms(1)]])
  have ce: "core e" "fz_abs e = fz_abs c" using quiet_core [OF e(2) assms(1)] by simp_all
  have fe: "fmode_of e = FreezingTree" "auth_pins e = auth_pins c" "state_test STATE_FREEZINGTREE e"
    using ce(2) fz fz_abs_fields(1,2) [of e] mode_tests(2) [OF mode_ok_core [OF ce(1)]] by simp_all
  let ?d = "state_clear STATE_FREEZINGTREE e"
  have m: "mode_ok ?d" "fmode_of ?d = Unfrozen" using mode_moves(6) [OF mode_ok_core [OF ce(1)] fe(1)] by auto
  have ap: "1 \<le> auth_pins e" using assms(3) [OF fz] fe(2) by simp
  obtain c1 c' where r: "auth_unpin ?d = Some c1" "finish_waiting WAIT_UNFREEZE 0 c1 = Some c'" "core c'"
    "fz_abs c' = (fz_abs e)\<lparr>fs_mode := Unfrozen, fs_ap := auth_pins e - 1\<rparr>"
    by (rule leave_freezing [OF ce(1) ap same_dir_state(2) _ m])
      (use wait_inv_core [OF ce(1)] fe in \<open>simp_all add: auth_mode_set frame_simps frozen_mode_def\<close>)
  show thesis
    by (rule that [OF _ r(3)]) (use r e nt fe ce fz in \<open>simp_all add: unfreeze_tree_def spec_unfreeze_def frozen_mode_def\<close>)
qed

lemma unfreeze_dir_ok:
  assumes "core c" "fmode_of c \<in> {FrozenDir, FreezingDir}" "fmode_of c = FreezingDir \<Longrightarrow> 1 \<le> auth_pins c"
  obtains c' where "unfreeze_dir c = Some c'" "core c'" "fz_abs c' = spec_unfreeze (fz_abs c)"
proof (cases "fmode_of c = FrozenDir")
  case True
  let ?d = "state_clear STATE_FROZENDIR c"
  have m: "mode_ok ?d" "fmode_of ?d = Unfrozen" using mode_moves(7) [OF mode_ok_core [OF assms(1)] True] by auto
  have fc: "frozen_mode (fmode_of c)" using True by (simp add: frozen_mode_def)
  obtain c1 c' where r: "dput PIN_FROZEN ?d = Some c1"
    "finish_waiting WAIT_UNFREEZE 0 (if is_auth c1 \<and> \<not> is_subtree_root c1 then log_call (OnInode AuthUnpin) c1 else c1) = Some c'"
    "core c'" "fz_abs c' = (fz_abs c)\<lparr>fs_mode := Unfrozen\<rparr>"
    by (rule leave_frozen [OF assms(1) fc same_dir_state(2) _ m])
      (use wait_inv_core [OF assms(1)] in \<open>simp_all add: auth_mode_set frame_simps\<close>)
  have "state_test STATE_FROZENDIR c" using True mode_tests(3) [OF mode_ok_core [OF assms(1)]] by simp
  with r True show thesis
    by (intro that [of c']) (simp_all add: unfreeze_dir_def Let_def spec_unfreeze_def frozen_mode_def)
next
  case False
  then have fz: "fmode_of c = FreezingDir" using assms(2) by simp
  have nt: "\<not> state_test STATE_FROZENDIR c" "state_test STATE_FREEZINGDIR c"
    using fz mode_tests(3,4) [OF mode_ok_core [OF assms(1)]] by simp_all
  obtain e where e: "finish_waiting WAIT_FROZEN (-1) c = Some e" "quiet e c" by (rule finish_waiting_quiet [OF wait_inv_core [OF assms(1)]])
  have ce: "core e" "fz_abs e = fz_abs c" using quiet_core [OF e(2) assms(1)] by simp_all
  have fe: "fmode_of e = FreezingDir" "auth_pins e = auth_pins c" "state_test STATE_FREEZINGDIR e"
    using ce(2) fz fz_abs_fields(1,2) [of e] mode_tests(4) [OF mode_ok_core [OF ce(1)]] by simp_all
  let ?d = "state_clear STATE_FREEZINGDIR e"
  have m: "mode_ok ?d" "fmode_of ?d = Unfrozen" using mode_moves(8) [OF mode_ok_core [OF ce(1)] fe(1)] by auto
  have ap: "1 \<le> auth_pins e" using assms(3) [OF fz] fe(2) by simp
  obtain c1 c' where r: "auth_unpin ?d = Some c1" "finish_waiting WAIT_UNFREEZE 0 c1 = Some c'" "core c'"
    "fz_abs c' = (fz_abs e)\<lparr>fs_mode := Unfrozen, fs_ap := auth_pins e - 1\<rparr>"
    by (rule leave_freezing [OF ce(1) ap same_dir_state(2) _ m])
      (use wait_inv_core [OF ce(1)] fe in \<open>simp_all add: auth_mode_set frame_simps frozen_mode_def\<close>)
  show thesis
    by (rule that [OF _ r(3)]) (use r e nt fe ce fz in \<open>simp_all add: unfreeze_dir_def spec_unfreeze_def frozen_mode_def\<close>)
qed

text \<open>Changing the authority: only the subtree-root status enters the machine.\<close>

lemma set_dir_auth_ok:
  assumes "core c" "is_auth c = iv_auth (cd_inode c)"
  obtains c' where "set_dir_auth a c = Some c'" "core c'"
    "fz_abs c' = (fz_abs c)\<lparr>fs_root := (a \<noteq> CDIR_AUTH_DEFAULT)\<rparr>" "dir_auth c' = a"
proof -
  let ?c1 = "c\<lparr>dir_auth := a\<rparr>"
  define r where "r = is_subtree_root c"
  define r' where "r' = (a \<noteq> CDIR_AUTH_DEFAULT)"
  define fzn where "fzn = frozen_mode (fmode_of c)"
  have rt: "is_subtree_root ?c1 = r'" by (simp add: is_subtree_root_def r'_def)
  have md: "mode_ok ?c1 = mode_ok c" "fmode_of ?c1 = fmode_of c" using mode_cong [of ?c1 c] by simp_all
  have at: "core_at (nest_due (fz_abs c)) (auth_due (fz_abs c)) ?c1" using assms(1) md by (simp add: core_at_def frame_simps)
  have abs1: "fz_abs ?c1 = (fz_abs c)\<lparr>fs_root := r'\<rparr>"
    by (simp add: fz_abs_def md rt) (simp add: is_auth_def frame_simps)
  define c3 where "c3 = (if \<not> r \<and> r' then new_subtree_root ?c1 else if r \<and> \<not> r' then old_subtree_root ?c1 else ?c1)"
  have fl: "is_subtree_root (log_call x d) = is_subtree_root d" "get_cum_auth_pins (log_call x d) = get_cum_auth_pins d"
    "is_frozen_tree_root (log_call x d) = is_frozen_tree_root d" "is_frozen_dir (log_call x d) = is_frozen_dir d"
    "dir_auth (log_call x d) = dir_auth d" for x d
    by (simp_all add: is_subtree_root_def get_cum_auth_pins_def is_frozen_tree_root_def is_frozen_dir_def
        log_call_dir_fields frame_simps)
  have frz: "is_frozen_tree_root ?c1 \<or> is_frozen_dir ?c1 \<longleftrightarrow> fzn"
    using mode_tests(1,3) [of ?c1] mode_ok_core [OF at] md(2)
    by (auto simp: is_frozen_tree_root_def is_frozen_dir_def fzn_def frozen_mode_def)
  have cum: "get_cum_auth_pins ?c1 = auth_pins c + nested_auth_pins c" by (simp add: get_cum_auth_pins_def)
  have n: "nest_due ((fz_abs c)\<lparr>fs_root := r'\<rparr>) = nest_due (fz_abs c) +
      (if auth_pins c + nested_auth_pins c \<noteq> 0 then (if \<not> r \<and> r' then -1 else if r \<and> \<not> r' then 1 else 0) else 0)"
    "auth_due ((fz_abs c)\<lparr>fs_root := r'\<rparr>) = auth_due (fz_abs c) +
      (if iv_auth (cd_inode c) \<and> fzn then (if \<not> r \<and> r' then -1 else if r \<and> \<not> r' then 1 else 0) else 0)"
    using assms(2) by (auto simp: nest_due_def auth_due_def r_def fzn_def)
  have a3: "fz_abs c3 = (fz_abs c)\<lparr>fs_root := r'\<rparr>" using abs1 by (simp add: c3_def new_subtree_root_def old_subtree_root_def Let_def frame_simps)
  have "core c3" unfolding a3 n using at frz cum
    by (auto simp: c3_def new_subtree_root_def old_subtree_root_def Let_def core_log fl log_call_dir_fields)
  moreover have d3: "dir_auth c3 = a" by (simp add: c3_def new_subtree_root_def old_subtree_root_def Let_def fl)
  ultimately have w: "core c3" "wait_inv c3" "dir_auth c3 = a" by (simp_all add: wait_inv_core)
  have kept: "is_subtree_root (new_subtree_root ?c1) = r'"
    using rt by (simp add: new_subtree_root_def Let_def fl)
  have def: "set_dir_auth a c = (if snd (dir_auth c) \<ge> 0 \<and> snd (dir_auth c3) = CDIR_AUTH_UNKNOWN then
       do { (ls, c4) \<leftarrow> take_waiting WAIT_SINGLEAUTH [] c3; Some (log_call (OnServer (QueueWaiters ls)) c4) }
     else Some c3)"
    unfolding set_dir_auth_def Let_def c3_def r_def [symmetric] rt
    using kept by (cases r; cases r') (simp_all add: rt)
  show thesis
  proof (cases "snd (dir_auth c) \<ge> 0 \<and> snd (dir_auth c3) = CDIR_AUTH_UNKNOWN")
    case False
    show thesis by (rule that [of c3]) (use def False w a3 in \<open>auto simp: r'_def\<close>)
  next
    case True
    obtain ls c4 where c4: "take_waiting WAIT_SINGLEAUTH [] c3 = Some (ls, c4)" "quiet c4 c3"
      using take_waiting_quiet [OF w(2), of WAIT_SINGLEAUTH "[]"] by metis
    have q: "core c4" "fz_abs c4 = fz_abs c3" using quiet_core [OF c4(2) w(1)] by simp_all
    have "dir_auth c4 = a" using c4(2) w(3) by (auto simp: quiet_def dest: same_dirw_fields)
    then show thesis
      by (intro that [of "log_call (OnServer (QueueWaiters ls)) c4"])
        (use def True c4 q a3 in \<open>simp_all add: core_log frame_simps r'_def fl\<close>)
  qed
qed

section \<open>Runs of the machine\<close>

text \<open>The operations, with the ancestors a walk would read, and a change of the inode underneath.\<close>

datatype fz_op =
    FPin "dir_view list" | FUnpin | FAdjust int int
  | FFreezeTree "dir_view list" | FFreezeDir "dir_view list" | FUnfreezeTree | FUnfreezeDir
  | FSetAuth mds_authority_t | FInode inode_view

fun fz_step :: "fz_op \<Rightarrow> cdir \<Rightarrow> cdir option" where
  "fz_step (FPin up) c = auth_pin c"
| "fz_step FUnpin c = auth_unpin c"
| "fz_step (FAdjust inc dirinc) c = adjust_nested_auth_pins inc dirinc c"
| "fz_step (FFreezeTree up) c = map_option snd (freeze_tree up c)"
| "fz_step (FFreezeDir up) c = map_option snd (freeze_dir up c)"
| "fz_step FUnfreezeTree c = unfreeze_tree c"
| "fz_step FUnfreezeDir c = unfreeze_dir c"
| "fz_step (FSetAuth a) c = set_dir_auth a c"
| "fz_step (FInode iv) c = Some (c\<lparr>cd_inode := iv\<rparr>)"

fun fz_spec :: "fz_op \<Rightarrow> fspec \<Rightarrow> fspec" where
  "fz_spec (FPin up) s = spec_pin s"
| "fz_spec FUnpin s = spec_unpin s"
| "fz_spec (FAdjust inc dirinc) s = spec_adjust inc dirinc s"
| "fz_spec (FFreezeTree up) s = spec_freeze_tree s"
| "fz_spec (FFreezeDir up) s = spec_freeze_dir s"
| "fz_spec FUnfreezeTree s = spec_unfreeze s"
| "fz_spec FUnfreezeDir s = spec_unfreeze s"
| "fz_spec (FSetAuth a) s = s\<lparr>fs_root := (a \<noteq> CDIR_AUTH_DEFAULT)\<rparr>"
| "fz_spec (FInode iv) s = s\<lparr>fs_inode := iv\<rparr>"

text \<open>
  What callers owe: a pin is taken only where \<^verbatim>\<open>can_auth_pin\<close> allows it and dropped only by its
  holder (the freeze itself holds one while it is under way); pins below a frozen tree, and on
  entries of a frozen directory, are not added; a freeze is undone only where one was begun.
\<close>

definition freezing_mode :: "fmode \<Rightarrow> bool" where
  "freezing_mode m \<longleftrightarrow> m = FreezingTree \<or> m = FreezingDir"

fun fz_legal :: "fz_op \<Rightarrow> cdir \<Rightarrow> bool" where
  "fz_legal (FPin up) c \<longleftrightarrow> can_auth_pin up c"
| "fz_legal FUnpin c \<longleftrightarrow> 1 \<le> auth_pins c - bool_int (freezing_mode (fmode_of c))"
| "fz_legal (FAdjust inc dirinc) c \<longleftrightarrow> inc \<noteq> 0 \<and> 0 \<le> nested_auth_pins c + inc \<and> 0 \<le> dir_auth_pins c + dirinc \<and>
     (fmode_of c = FrozenTree \<longrightarrow> inc < 0) \<and> (fmode_of c = FrozenDir \<longrightarrow> dirinc \<le> 0)"
| "fz_legal (FFreezeTree up) c \<longleftrightarrow> \<not> is_frozen up c \<and> \<not> is_freezing up c"
| "fz_legal (FFreezeDir up) c \<longleftrightarrow> \<not> is_frozen up c \<and> \<not> is_freezing up c"
| "fz_legal FUnfreezeTree c \<longleftrightarrow> fmode_of c \<in> {FrozenTree, FreezingTree}"
| "fz_legal FUnfreezeDir c \<longleftrightarrow> fmode_of c \<in> {FrozenDir, FreezingDir}"
| "fz_legal (FSetAuth a) c \<longleftrightarrow> is_auth c = iv_auth (cd_inode c)"
| "fz_legal (FInode iv) c \<longleftrightarrow> True"

text \<open>
  Not all callers keep to the rules for pins: the cache pins the frozen results of a split while it stores them
  (\<^verbatim>\<open>MDCache::_fragment_logged\<close>), and their pins count on the directories above. In an open run pins are taken and
  nested pins are adjusted at any time.
\<close>

fun fz_open :: "fz_op \<Rightarrow> cdir \<Rightarrow> bool" where
  "fz_open (FPin up) c \<longleftrightarrow> True"
| "fz_open (FAdjust inc dirinc) c \<longleftrightarrow> inc \<noteq> 0 \<and> 0 \<le> nested_auth_pins c + inc \<and> 0 \<le> dir_auth_pins c + dirinc"
| "fz_open opn c \<longleftrightarrow> fz_legal opn c"

inductive fz_reach_open :: "cdir \<Rightarrow> bool" where
  fz_open_start: "cdir_new api now inode fg auth = Some c \<Longrightarrow> fz_reach_open c"
| fz_open_next: "fz_reach_open c \<Longrightarrow> fz_open opn c \<Longrightarrow> fz_step opn c = Some c' \<Longrightarrow> fz_reach_open c'"

inductive fz_reach :: "cdir \<Rightarrow> bool" where
  fz_start: "cdir_new api now inode fg auth = Some c \<Longrightarrow> fz_reach c"
| fz_next: "fz_reach c \<Longrightarrow> fz_legal opn c \<Longrightarrow> fz_step opn c = Some c' \<Longrightarrow> fz_reach c'"

text \<open>The invariant of the abstract machine.\<close>

definition spec_inv :: "fspec \<Rightarrow> bool" where
  "spec_inv s \<longleftrightarrow> 0 \<le> fs_ap s \<and> 0 \<le> fs_nap s \<and> 0 \<le> fs_dap s \<and>
     (freezing_mode (fs_mode s) \<longrightarrow> 1 \<le> fs_ap s) \<and>
     (fs_mode s = FrozenTree \<longrightarrow> fs_ap s = 0 \<and> fs_nap s = 0) \<and>
     (fs_mode s = FrozenDir \<longrightarrow> fs_ap s = 0 \<and> fs_dap s = 0)"

definition spec_base :: "fspec \<Rightarrow> bool" where
  "spec_base s \<longleftrightarrow> 0 \<le> fs_ap s \<and> 0 \<le> fs_nap s \<and> 0 \<le> fs_dap s \<and> (freezing_mode (fs_mode s) \<longrightarrow> 1 \<le> fs_ap s)"

lemma spec_inv_base: "spec_inv s \<Longrightarrow> spec_base s"
  by (simp add: spec_inv_def spec_base_def)

lemma legal_open: "fz_legal opn c \<Longrightarrow> fz_open opn c"
  by (cases opn) simp_all

lemmas spec_defs = spec_pin_def spec_unpin_def spec_adjust_def spec_settle_def spec_freeze_tree_def
  spec_freeze_dir_def spec_unfreeze_def frozen_mode_def freezing_mode_def bool_int_def

lemma spec_inv_step:
  assumes "core c" "spec_inv (fz_abs c)" "fz_legal opn c"
  shows "spec_inv (fz_spec opn (fz_abs c))"
proof (cases opn)
  case (FPin up)
  with assms unfrozen_mode [OF assms(1), of up] show ?thesis
    by (auto simp: can_auth_pin_def spec_inv_def spec_defs)
next
  case FUnpin
  with assms show ?thesis by (cases "fmode_of c") (auto simp: spec_inv_def spec_defs)
next
  case (FAdjust inc dirinc)
  with assms show ?thesis by (cases "fmode_of c") (auto simp: spec_inv_def spec_defs)
next
  case (FFreezeTree up)
  with assms unfrozen_mode [OF assms(1), of up] show ?thesis by (auto simp: spec_inv_def spec_defs)
next
  case (FFreezeDir up)
  with assms unfrozen_mode [OF assms(1), of up] show ?thesis by (auto simp: spec_inv_def spec_defs)
next
  case FUnfreezeTree
  with assms show ?thesis by (auto simp: spec_inv_def spec_defs)
next
  case FUnfreezeDir
  with assms show ?thesis by (auto simp: spec_inv_def spec_defs)
qed (use assms in \<open>auto simp: spec_inv_def\<close>)

lemma spec_base_step:
  assumes "core c" "spec_base (fz_abs c)" "fz_open opn c"
  shows "spec_base (fz_spec opn (fz_abs c))"
proof (cases opn)
  case FUnpin
  with assms show ?thesis by (cases "fmode_of c") (auto simp: spec_base_def spec_defs)
next
  case (FAdjust inc dirinc)
  with assms show ?thesis by (cases "fmode_of c") (auto simp: spec_base_def spec_defs)
qed (use assms in \<open>auto simp: spec_base_def spec_defs\<close>)

lemma fz_step_open:
  assumes "core c" "spec_base (fz_abs c)" "fz_open opn c"
  obtains c' where "fz_step opn c = Some c'" "core c'" "fz_abs c' = fz_spec opn (fz_abs c)"
proof (cases opn)
  case (FPin up)
  obtain c' where "auth_pin c = Some c'" "core c'" "fz_abs c' = spec_pin (fz_abs c)" by (rule auth_pin_ok [OF assms(1)])
  with FPin show thesis by (intro that [of c']) simp_all
next
  case FUnpin
  then have "1 \<le> auth_pins c" using assms(3) by (simp add: bool_int_def split: if_splits)
  then obtain c' where "auth_unpin c = Some c'" "core c'" "fz_abs c' = spec_unpin (fz_abs c)"
    by (rule auth_unpin_ok [OF assms(1)])
  with FUnpin show thesis by (intro that [of c']) simp_all
next
  case (FAdjust inc dirinc)
  then have l: "inc \<noteq> 0" "0 \<le> nested_auth_pins c + inc" "0 \<le> dir_auth_pins c + dirinc" using assms(3) by simp_all
  obtain c' where "adjust_nested_auth_pins inc dirinc c = Some c'" "core c'"
    "fz_abs c' = spec_adjust inc dirinc (fz_abs c)" by (rule adjust_nested_ok [OF assms(1) l])
  with FAdjust show thesis by (intro that [of c']) simp_all
next
  case (FFreezeTree up)
  then have l: "\<not> is_frozen up c" "\<not> is_freezing up c" using assms(3) by simp_all
  obtain b c' where "freeze_tree up c = Some (b, c')" "core c'" "fz_abs c' = spec_freeze_tree (fz_abs c)"
    by (rule freeze_tree_ok [OF assms(1) l])
  with FFreezeTree show thesis by (intro that [of c']) simp_all
next
  case (FFreezeDir up)
  then have l: "\<not> is_frozen up c" "\<not> is_freezing up c" using assms(3) by simp_all
  obtain b c' where "freeze_dir up c = Some (b, c')" "core c'" "fz_abs c' = spec_freeze_dir (fz_abs c)"
    by (rule freeze_dir_ok [OF assms(1) l])
  with FFreezeDir show thesis by (intro that [of c']) simp_all
next
  case FUnfreezeTree
  obtain c' where "unfreeze_tree c = Some c'" "core c'" "fz_abs c' = spec_unfreeze (fz_abs c)"
    by (rule unfreeze_tree_ok [OF assms(1)]) (use assms(2,3) FUnfreezeTree in \<open>auto simp: spec_base_def spec_defs\<close>)
  with FUnfreezeTree show thesis by (intro that [of c']) simp_all
next
  case FUnfreezeDir
  obtain c' where "unfreeze_dir c = Some c'" "core c'" "fz_abs c' = spec_unfreeze (fz_abs c)"
    by (rule unfreeze_dir_ok [OF assms(1)]) (use assms(2,3) FUnfreezeDir in \<open>auto simp: spec_base_def spec_defs\<close>)
  with FUnfreezeDir show thesis by (intro that [of c']) simp_all
next
  case (FSetAuth a)
  then have l: "is_auth c = iv_auth (cd_inode c)" using assms(3) by simp
  obtain c' where "set_dir_auth a c = Some c'" "core c'"
    "fz_abs c' = (fz_abs c)\<lparr>fs_root := (a \<noteq> CDIR_AUTH_DEFAULT)\<rparr>" by (rule set_dir_auth_ok [OF assms(1) l])
  with FSetAuth show thesis by (intro that [of c']) simp_all
next
  case (FInode iv)
  have a: "fz_abs (c\<lparr>cd_inode := iv\<rparr>) = (fz_abs c)\<lparr>fs_inode := iv\<rparr>"
    by (simp add: fz_abs_def fmode_of_def is_subtree_root_def is_auth_def frame_simps)
  have "core (c\<lparr>cd_inode := iv\<rparr>)"
    using assms(1) mode_cong [of "c\<lparr>cd_inode := iv\<rparr>" c]
    by (simp add: a core_at_def nest_due_def auth_due_def wait_inv_def frame_simps)
  with a FInode show thesis by (intro that [of "c\<lparr>cd_inode := iv\<rparr>"]) simp_all
qed

lemma fz_step_ok:
  assumes "core c" "spec_inv (fz_abs c)" "fz_legal opn c"
  obtains c' where "fz_step opn c = Some c'" "core c'" "fz_abs c' = fz_spec opn (fz_abs c)"
  by (rule fz_step_open [OF assms(1) spec_inv_base [OF assms(2)] legal_open [OF assms(3)]])

lemma cdir_new_core:
  assumes "cdir_new api now inode fg auth = Some c"
  shows "core c" "spec_inv (fz_abs c)"
proof -
  have c: "co_state c = (if auth then STATE_INITIAL OR STATE_AUTH else STATE_INITIAL)" "auth_pins c = 0"
    "nested_auth_pins c = 0" "dir_auth_pins c = 0" "cd_log c = []" "co_ref c = 0" "co_ref_map c = []"
    "co_waiting c = []" "co_replica_map c = []" "waiting_on_dentry c = []" "is_subtree_root c = False"
    using assms by (auto simp: cdir_new_def is_subtree_root_def split: if_splits)
  have m: "mode_ok c" "fmode_of c = Unfrozen"
    by (cases auth; simp add: mode_ok_def fmode_of_def state_test_def c; code_simp)+
  have "co_wf c" "pins c = (\<lambda>_. 0)" by (simp_all add: co_wf_def pins_def om_get_def get_pin_totals_def c fun_eq_iff)
  with c m show "core c" "spec_inv (fz_abs c)"
    by (simp_all add: core_at_def wait_inv_def co_inv_def frozen_mode_def nest_due_def auth_due_def spec_inv_def
        freezing_mode_def)
qed

lemma fz_reach_inv: "fz_reach c \<Longrightarrow> core c \<and> spec_inv (fz_abs c)"
proof (induction rule: fz_reach.induct)
  case (fz_start api now inode fg auth c)
  then show ?case using cdir_new_core by blast
next
  case (fz_next c opn c')
  then obtain d where "fz_step opn c = Some d" "core d" "fz_abs d = fz_spec opn (fz_abs c)"
    using fz_step_ok by blast
  with fz_next spec_inv_step [of c opn] show ?case by simp
qed

lemma fz_reach_open_inv: "fz_reach_open c \<Longrightarrow> core c \<and> spec_base (fz_abs c)"
proof (induction rule: fz_reach_open.induct)
  case (fz_open_start api now inode fg auth c)
  then show ?case using cdir_new_core spec_inv_base by blast
next
  case (fz_open_next c opn c')
  then obtain d where "fz_step opn c = Some d" "core d" "fz_abs d = fz_spec opn (fz_abs c)"
    using fz_step_open by blast
  with fz_open_next spec_base_step [of c opn] show ?case by simp
qed

lemma fz_reach_is_open: "fz_reach c \<Longrightarrow> fz_reach_open c"
  by (induction rule: fz_reach.induct) (auto intro: fz_reach_open.intros legal_open)

section \<open>Waiters on entries\<close>

lemma take_range_filter:
  "sorted (map fst m) \<Longrightarrow> take_range ub m ls =
     (filter (\<lambda>p. ub < fst p) m, ls @ concat (map snd (filter (\<lambda>p. fst p \<le> ub) m)))"
proof (induction m arbitrary: ls)
  case (Cons p m)
  show ?case
  proof (cases "ub < fst p")
    case True
    with Cons.prems have "\<forall>q\<in>set (p # m). ub < fst q" by (auto simp: intro: order_less_le_trans)
    then have "filter (\<lambda>q. ub < fst q) (p # m) = p # m" "filter (\<lambda>q. fst q \<le> ub) (p # m) = []"
      by (auto simp: filter_empty_conv filter_id_conv leD)
    with True show ?thesis by (simp only: take_range.simps if_not_P not_not simp_thms list.map concat.simps append_Nil2 if_False)
  next
    case False
    with Cons show ?thesis by (simp add: not_less)
  qed
qed simp

definition of_dentry :: "string \<Rightarrow> snapid_t \<Rightarrow> snapid_t \<Rightarrow> dentry_key_t \<Rightarrow> bool" where
  "of_dentry dname f l k \<longleftrightarrow> dk_name k = c_str dname \<and> f \<le> dk_snapid k \<and> dk_snapid k \<le> l"

lemma of_dentry_range: "f \<le> l \<Longrightarrow> of_dentry dname f l k \<longleftrightarrow> DKey f (c_str dname) \<le> k \<and> k \<le> DKey l (c_str dname)"
  by (cases k) (auto simp: of_dentry_def less_eq_dentry_key_t_def less_dentry_key_t_def dentry_key_less_def strcmp_def Let_def)

lemma sorted_filter_range:
  "sorted (map fst m) \<Longrightarrow> lb \<le> ub \<Longrightarrow>
   takeWhile (\<lambda>p. fst p < lb) m @ filter (\<lambda>p. ub < fst p) (om_lower_bound lb m) =
   filter (\<lambda>p. \<not> (lb \<le> fst p \<and> fst p \<le> (ub :: 'k::linorder))) m"
proof (induction m)
  case (Cons p m)
  show ?case
  proof (cases "fst p < lb")
    case True
    with Cons show ?thesis by (auto simp: om_lower_bound_def)
  next
    case False
    with Cons.prems have "\<forall>q\<in>set (p # m). lb \<le> fst q" by auto
    then have "filter (\<lambda>p. \<not> (lb \<le> fst p \<and> fst p \<le> ub)) (p # m) = filter (\<lambda>p. ub < fst p) (p # m)"
      by (intro filter_cong) auto
    with False show ?thesis by (simp add: om_lower_bound_def)
  qed
qed (simp add: om_lower_bound_def)

lemma take_dentry_waiting_ok:
  assumes "wait_inv c" "f \<le> l"
  obtains c' where "take_dentry_waiting dname f l ls c =
      Some (ls @ concat (map snd (filter (\<lambda>p. of_dentry dname f l (fst p)) (waiting_on_dentry c))), c')"
    "wait_inv c'" "waiting_on_dentry c' = filter (\<lambda>p. \<not> of_dentry dname f l (fst p)) (waiting_on_dentry c)"
    "co_waiting c' = co_waiting c" "same_dirw c' c"
proof (cases "waiting_on_dentry c = []")
  case True
  show thesis by (rule that [of c]) (use True assms in \<open>simp_all add: take_dentry_waiting_def same_dir_dirw\<close>)
next
  case ne: False
  let ?m = "waiting_on_dentry c" and ?lb = "DKey f (c_str dname)" and ?ub = "DKey l (c_str dname)"
  let ?rest = "filter (\<lambda>p. \<not> of_dentry dname f l (fst p)) ?m"
  let ?out = "ls @ concat (map snd (filter (\<lambda>p. of_dentry dname f l (fst p)) ?m))"
  have ok: "om_ok ?m" and so: "sorted (map fst ?m)"
    using assms(1) by (simp_all add: wait_inv_def strict_sorted_imp_sorted)
  have le: "?lb \<le> ?ub" using assms(2) by (auto simp: less_eq_dentry_key_t_def less_dentry_key_t_def dentry_key_less_def strcmp_def)
  have sl: "sorted (map fst (om_lower_bound ?lb ?m))" using so by (simp add: om_lower_bound_filter sorted_map_filter)
  have r: "take_range ?ub (om_lower_bound ?lb ?m) ls = (filter (\<lambda>p. ?ub < fst p) (om_lower_bound ?lb ?m), ?out)"
    unfolding take_range_filter [OF sl]
    by (simp add: om_lower_bound_filter [OF so] of_dentry_range [OF assms(2)] conj_commute)
  have w: "takeWhile (\<lambda>p. fst p < ?lb) ?m @ filter (\<lambda>p. ?ub < fst p) (om_lower_bound ?lb ?m) = ?rest"
    unfolding sorted_filter_range [OF so le] by (simp add: of_dentry_range [OF assms(2)])
  have def: "take_dentry_waiting dname f l ls c =
     do { c2 \<leftarrow> (if ?rest = [] then dput PIN_DNWAITER (c\<lparr>waiting_on_dentry := []\<rparr>)
              else Some (c\<lparr>waiting_on_dentry := ?rest\<rparr>)); Some (?out, c2) }"
    unfolding take_dentry_waiting_def Let_def r prod.case w if_not_P [OF ne] by (cases "?rest = []") simp_all
  show thesis
  proof (cases "?rest = []")
    case True
    obtain d where d: "dput PIN_DNWAITER (c\<lparr>waiting_on_dentry := []\<rparr>) = Some d" "quiet d c"
      "waiting_on_dentry d = []" "co_waiting d = co_waiting c" by (rule drop_dentry_waiters [OF assms(1) ne])
    show thesis by (rule that [of d]) (use def True d in \<open>simp_all add: quiet_def\<close>)
  next
    case False
    let ?d = "c\<lparr>waiting_on_dentry := ?rest\<rparr>"
    have wd: "wait_inv ?d" using assms(1) ne False ok by (simp add: wait_inv_def frame_simps)
    show thesis by (rule that [OF _ wd]) (use def False in \<open>simp_all add: same_dirw_def\<close>)
  qed
qed

section \<open>Properties\<close>

fun fz_run :: "fz_op list \<Rightarrow> cdir \<Rightarrow> cdir option" where
  "fz_run [] c = Some c"
| "fz_run (opn # opns) c = Option.bind (fz_step opn c) (fz_run opns)"

lemma fz_run_unpins:
  assumes "fz_reach c" "fs_mode (fz_abs c) = FreezingTree" "nested_auth_pins c = 0" "dir_auth_pins c = 0"
    "\<not> blocked (fz_abs c)" "auth_pins c = int n + 2"
  shows "\<exists>c'. fz_run (replicate (Suc n) FUnpin) c = Some c' \<and> fz_reach c' \<and> fmode_of c' = FrozenTree \<and> auth_pins c' = 0"
  using assms
proof (induction n arbitrary: c)
  case 0
  have l: "fz_legal FUnpin c" using 0 by (simp add: freezing_mode_def bool_int_def)
  obtain c' where c': "fz_step FUnpin c = Some c'" "fz_abs c' = fz_spec FUnpin (fz_abs c)"
    using fz_step_ok [of c FUnpin] fz_reach_inv [OF 0(1)] l by blast
  have "fz_abs c' = (fz_abs c)\<lparr>fs_mode := FrozenTree, fs_ap := 0\<rparr>"
    using c'(2) 0 by (auto simp: spec_unpin_def spec_settle_def blocked_def)
  then have "fmode_of c' = FrozenTree" "auth_pins c' = 0" using fz_abs_fields(1,2) [of c'] by simp_all
  with c'(1) fz_next [OF 0(1) l c'(1)] show ?case by simp
next
  case (Suc n)
  have l: "fz_legal FUnpin c" using Suc.prems by (simp add: freezing_mode_def bool_int_def)
  obtain c' where c': "fz_step FUnpin c = Some c'" "fz_abs c' = fz_spec FUnpin (fz_abs c)"
    using fz_step_ok [of c FUnpin] fz_reach_inv [OF Suc.prems(1)] l by blast
  have a: "fz_abs c' = (fz_abs c)\<lparr>fs_ap := int n + 2\<rparr>"
    using c'(2) Suc.prems(6) by (simp add: spec_unpin_def settle_idle)
  have "fz_reach c'" by (rule fz_next [OF Suc.prems(1) l c'(1)])
  then have "\<exists>d. fz_run (replicate (Suc n) FUnpin) c' = Some d \<and> fz_reach d \<and> fmode_of d = FrozenTree \<and> auth_pins d = 0"
    by (rule Suc.IH)
      (use a Suc.prems fz_abs_fields(1-4) [of c'] in \<open>simp_all add: blocked_def\<close>)
  with c'(1) show ?case by simp
qed

text \<open>C2: however auth pins, nested pins, freezes, unfreezes and changes of authority follow each
  other within the callers' discipline, no step aborts (the recursion of unpinning and finishing a
  freeze ends within its fuel), and each step changes the directory as the abstract freeze machine
  says.\<close>

theorem freeze_machine_refines:
  assumes "fz_reach c" "fz_legal opn c"
  shows "\<exists>c'. fz_step opn c = Some c' \<and> fz_abs c' = fz_spec opn (fz_abs c)"
  using fz_step_ok fz_reach_inv [OF assms(1)] assms(2) by blast

theorem freeze_machine_refines_witness:
  "fz_reach plain_dir \<and> fz_legal (FFreezeTree []) plain_dir \<and>
   (\<exists>c'. fz_step (FFreezeTree []) plain_dir = Some c' \<and> fmode_of c' = FrozenTree)"
proof -
  have r: "fz_reach plain_dir" by (rule fz_start [OF plain_dir_new])
  have l: "fz_legal (FFreezeTree []) plain_dir"
    by (simp add: is_frozen_def is_freezing_def is_frozen_dir_def is_freezing_dir_def is_frozen_tree_def
        is_freezing_tree_def state_test_def plain_dir_def cdir_new_def plain_inode_def) code_simp
  obtain c' where c': "fz_step (FFreezeTree []) plain_dir = Some c'"
    "fz_abs c' = fz_spec (FFreezeTree []) (fz_abs plain_dir)"
    using freeze_machine_refines [OF r l] by blast
  have "fs_mode (fz_abs c') = FrozenTree"
    unfolding c'(2) by (simp add: spec_freeze_tree_def blocked_def) (simp add: plain_dir_def cdir_new_def plain_inode_def)
  then have "fmode_of c' = FrozenTree" by (simp only: fz_abs_fields)
  with c'(1) r l show ?thesis by blast
qed

text \<open>C3: freezing is safe. In every run, also when callers pin a directory that cannot be auth-pinned (as the
  cache pins the frozen results of a split while it stores them) or count such pins on the directories above, at
  most one of the four freeze bits is set; the object is pinned once while it has auth pins and once while it is
  frozen; and the calls made on the inode add up to one nested auth pin while a directory that is no subtree root
  has any, and to one auth pin while an authoritative such directory is frozen. If moreover callers kept to
  \<^verbatim>\<open>can_auth_pin\<close> and added no pins below a frozen tree or on entries of a frozen directory, then a frozen tree has
  neither auth pins nor nested ones and a frozen directory neither auth pins nor pins of its own entries.\<close>

theorem freeze_safety:
  assumes "fz_reach_open c"
  shows "bool_int (is_freezing_tree_root c) + bool_int (is_frozen_tree_root c) +
      bool_int (is_freezing_dir c) + bool_int (is_frozen_dir c) \<le> 1 \<and>
    get_num_ref PIN_AUTHPIN c = bool_int (auth_pins c \<noteq> 0) \<and>
    get_num_ref PIN_FROZEN c = bool_int (is_frozen_tree_root c \<or> is_frozen_dir c) \<and>
    net_nested (cd_log c) = bool_int (\<not> is_subtree_root c \<and> get_cum_auth_pins c \<noteq> 0) \<and>
    net_auth (cd_log c) = bool_int (\<not> is_subtree_root c \<and> is_auth c \<and> (is_frozen_tree_root c \<or> is_frozen_dir c)) \<and>
    (fz_reach c \<longrightarrow>
       (is_frozen_tree_root c \<longrightarrow> auth_pins c = 0 \<and> nested_auth_pins c = 0) \<and>
       (is_frozen_dir c \<longrightarrow> auth_pins c = 0 \<and> dir_auth_pins c = 0))"
proof -
  have c: "core c" "spec_base (fz_abs c)" using fz_reach_open_inv [OF assms] by auto
  have t: "is_frozen_tree_root c \<longleftrightarrow> fmode_of c = FrozenTree" "is_freezing_tree_root c \<longleftrightarrow> fmode_of c = FreezingTree"
    "is_frozen_dir c \<longleftrightarrow> fmode_of c = FrozenDir" "is_freezing_dir c \<longleftrightarrow> fmode_of c = FreezingDir"
    using mode_tests [OF mode_ok_core [OF c(1)]]
    by (simp_all add: is_frozen_tree_root_def is_freezing_tree_root_def is_frozen_dir_def is_freezing_dir_def)
  have "fz_reach c \<Longrightarrow> spec_inv (fz_abs c)" using fz_reach_inv by blast
  then show ?thesis unfolding t using c
    by (auto simp: core_at_def spec_inv_def spec_base_def nest_due_def auth_due_def bool_int_def frozen_mode_def
        get_cum_auth_pins_def get_num_ref_pins all_pin_defs)
qed

theorem freeze_safety_witness:
  "\<exists>c' c''. freeze_tree [] plain_dir = Some (True, c') \<and> get_num_ref PIN_FROZEN c' = 1 \<and> net_auth (cd_log c') = 1 \<and> auth_pins c' = 0 \<and>
     auth_pin c' = Some c'' \<and> is_frozen_tree_root c'' \<and> get_num_ref PIN_AUTHPIN c'' = 1 \<and> get_num_ref PIN_FROZEN c'' = 1"
proof -
  have r: "fz_reach plain_dir" by (rule fz_start [OF plain_dir_new])
  have n: "\<not> is_frozen [] plain_dir" "\<not> is_freezing [] plain_dir"
    by (simp_all add: is_frozen_def is_freezing_def is_frozen_dir_def is_freezing_dir_def is_frozen_tree_def
        is_freezing_tree_def state_test_def plain_dir_def cdir_new_def plain_inode_def) code_simp+
  have p: "auth_pins plain_dir = 0" "nested_auth_pins plain_dir = 0" "iv_frozen (cd_inode plain_dir) = False"
    "is_subtree_root plain_dir = False" "is_auth plain_dir = True"
    by (simp_all add: plain_dir_def cdir_new_def plain_inode_def is_subtree_root_def is_auth_def state_test_def) code_simp
  have k: "core plain_dir" using fz_reach_inv [OF r] by blast
  obtain b c' where f: "freeze_tree [] plain_dir = Some (b, c')" "core c'"
    "fz_abs c' = spec_freeze_tree (fz_abs plain_dir)" "b = (fmode_of c' = FrozenTree)"
    by (rule freeze_tree_ok [OF k n])
  have s: "fz_abs c' = (fz_abs plain_dir)\<lparr>fs_mode := FrozenTree\<rparr>" using f(3) p by (simp add: spec_freeze_tree_def blocked_def)
  have m: "fmode_of c' = FrozenTree" "is_subtree_root c' = False" "is_auth c' = True" "auth_pins c' = 0"
    using s p fz_abs_fields(1,2,5,6) [of c'] by simp_all
  then have fr: "is_frozen_tree_root c'" using mode_tests(1) [OF mode_ok_core [OF f(2)]] by (simp add: is_frozen_tree_root_def)
  have r': "fz_reach_open c'" by (rule fz_reach_is_open [OF fz_next [OF r, of "FFreezeTree []"]]) (use n f in simp_all)
  obtain c'' where g: "auth_pin c' = Some c''" "core c''" "fz_abs c'' = spec_pin (fz_abs c')" by (rule auth_pin_ok [OF f(2)])
  have r'': "fz_reach_open c''" by (rule fz_open_next [OF r', of "FPin []"]) (use g in simp_all)
  have m2: "fmode_of c'' = FrozenTree" "auth_pins c'' = 1"
    using g(3) m fz_abs_fields(1,2) [of c''] fz_abs_fields(1,2) [of c'] by (simp_all add: spec_pin_def)
  then have fr2: "is_frozen_tree_root c''" using mode_tests(1) [OF mode_ok_core [OF g(2)]] by (simp add: is_frozen_tree_root_def)
  have "get_num_ref PIN_FROZEN c' = 1" "net_auth (cd_log c') = 1"
    using freeze_safety [OF r'] m fr by (auto simp: bool_int_def)
  moreover have "get_num_ref PIN_AUTHPIN c'' = 1" "get_num_ref PIN_FROZEN c'' = 1"
    using freeze_safety [OF r''] m2 fr2 by (auto simp: bool_int_def)
  ultimately show ?thesis using f m g fr2 by auto
qed

text \<open>C35: a tree that is freezing, with nothing pinned below it and an inode that is not itself
  frozen, becomes frozen as soon as the holders of its auth pins have dropped them: as many unpins
  as there are pins beside the freeze's own lead to the frozen state, with no pin left.\<close>

theorem freeze_completes:
  assumes "fz_reach c" "is_freezing_tree_root c" "nested_auth_pins c = 0" "dir_auth_pins c = 0"
    "is_subtree_root c \<or> \<not> iv_frozen (cd_inode c)" "2 \<le> auth_pins c"
  shows "\<exists>c'. fz_run (replicate (nat (auth_pins c) - 1) FUnpin) c = Some c' \<and>
    is_frozen_tree_root c' \<and> \<not> is_freezing_tree_root c' \<and> auth_pins c' = 0"
proof -
  have k: "core c" using fz_reach_inv [OF assms(1)] by blast
  have m: "fs_mode (fz_abs c) = FreezingTree"
    using assms(2) mode_tests(2) [OF mode_ok_core [OF k]] by (simp add: is_freezing_tree_root_def)
  let ?n = "nat (auth_pins c) - 2"
  obtain c' where c': "fz_run (replicate (Suc ?n) FUnpin) c = Some c'" "fz_reach c'" "fmode_of c' = FrozenTree"
    "auth_pins c' = 0"
    using fz_run_unpins [OF assms(1) m assms(3,4), of ?n] assms(5,6) by (auto simp: blocked_def)
  have e: "Suc ?n = nat (auth_pins c) - 1" using assms(6) by simp
  have "core c'" using fz_reach_inv [OF c'(2)] by blast
  with c'(3) have "is_frozen_tree_root c'" "\<not> is_freezing_tree_root c'"
    using mode_tests(1,2) [OF mode_ok_core] by (auto simp: is_frozen_tree_root_def is_freezing_tree_root_def)
  with c' e show ?thesis by auto
qed

text \<open>A directory with one auth pin on which a freeze of the tree was begun.\<close>

lemma freezing_example:
  obtains c where "fz_run [FPin [], FFreezeTree []] plain_dir = Some c" "fz_reach c" "is_freezing_tree_root c"
    "nested_auth_pins c = 0" "dir_auth_pins c = 0" "\<not> iv_frozen (cd_inode c)" "auth_pins c = 2"
proof -
  have r: "fz_reach plain_dir" by (rule fz_start [OF plain_dir_new])
  have p: "auth_pins plain_dir = 0" "nested_auth_pins plain_dir = 0" "dir_auth_pins plain_dir = 0"
    "iv_frozen (cd_inode plain_dir) = False" "dir_auth plain_dir = CDIR_AUTH_DEFAULT"
    by (simp_all add: plain_dir_def cdir_new_def plain_inode_def)
  have l: "fz_legal (FPin []) plain_dir"
    by (simp add: can_auth_pin_def is_auth_def is_frozen_def is_freezing_def is_frozen_dir_def is_freezing_dir_def is_frozen_tree_def
        is_freezing_tree_def state_test_def plain_dir_def cdir_new_def plain_inode_def) code_simp
  have k: "core plain_dir" "spec_inv (fz_abs plain_dir)" using fz_reach_inv [OF r] by auto
  obtain c1 where c1: "fz_step (FPin []) plain_dir = Some c1" "core c1" "fz_abs c1 = fz_spec (FPin []) (fz_abs plain_dir)"
    by (rule fz_step_ok [OF k l])
  have r1: "fz_reach c1" by (rule fz_next [OF r l c1(1)])
  have m: "fmode_of plain_dir = Unfrozen" by (simp add: fmode_of_def state_test_def plain_dir_def cdir_new_def plain_inode_def) code_simp
  have m1: "fmode_of c1 = Unfrozen" "auth_pins c1 = 1" "nested_auth_pins c1 = 0" "dir_auth_pins c1 = 0" "cd_inode c1 = cd_inode plain_dir"
    using c1(3) p m fz_abs_fields [of c1] by (simp_all add: spec_pin_def)
  have l1: "fz_legal (FFreezeTree []) c1"
    using m1(1) mode_tests [OF mode_ok_core [OF c1(2)]]
    by (simp add: is_frozen_def is_freezing_def is_frozen_dir_def is_freezing_dir_def is_frozen_tree_def
        is_freezing_tree_def state_test_def)
  have k1: "core c1" "spec_inv (fz_abs c1)" using fz_reach_inv [OF r1] by auto
  obtain c where c: "fz_step (FFreezeTree []) c1 = Some c" "core c" "fz_abs c = fz_spec (FFreezeTree []) (fz_abs c1)"
    by (rule fz_step_ok [OF k1 l1])
  have s: "fz_abs c = (fz_abs c1)\<lparr>fs_mode := FreezingTree, fs_ap := 2\<rparr>"
    using c(3) m1 by (simp add: spec_freeze_tree_def)
  have f: "fmode_of c = FreezingTree" "auth_pins c = 2" "nested_auth_pins c = 0" "dir_auth_pins c = 0" "cd_inode c = cd_inode plain_dir"
    using s m1 fz_abs_fields [of c] by simp_all
  show thesis
    by (rule that [OF _ fz_next [OF r1 l1 c(1)]])
      (use c1(1) c(1) f p mode_tests(2) [OF mode_ok_core [OF c(2)]] in \<open>auto simp: is_freezing_tree_root_def\<close>)
qed

theorem freeze_completes_witness:
  "\<exists>c c'. fz_run [FPin [], FFreezeTree []] plain_dir = Some c \<and> fz_run [FUnpin] c = Some c' \<and> is_frozen_tree_root c'"
proof -
  obtain c where c: "fz_run [FPin [], FFreezeTree []] plain_dir = Some c" "fz_reach c" "is_freezing_tree_root c"
    "nested_auth_pins c = 0" "dir_auth_pins c = 0" "\<not> iv_frozen (cd_inode c)" "auth_pins c = 2"
    by (rule freezing_example)
  show ?thesis using freeze_completes [OF c(2-5)] c by auto
qed

text \<open>Taking the waiters of an entry hands over, in key order, exactly the waiters on that name
  with a snapshot in the given range, keeps every other waiter, and drops the pin that dentry
  waiters hold when none is left.\<close>

lemma take_dentry_waiting_exact:
  assumes "wait_inv c" "f \<le> l"
  shows "\<exists>c'. take_dentry_waiting dname f l ls c =
      Some (ls @ concat (map snd (filter (\<lambda>p. of_dentry dname f l (fst p)) (waiting_on_dentry c))), c') \<and>
    waiting_on_dentry c' = filter (\<lambda>p. \<not> of_dentry dname f l (fst p)) (waiting_on_dentry c) \<and>
    co_waiting c' = co_waiting c \<and>
    get_num_ref PIN_DNWAITER c' = bool_int (waiting_on_dentry c' \<noteq> [])"
proof -
  obtain c' where c': "take_dentry_waiting dname f l ls c =
      Some (ls @ concat (map snd (filter (\<lambda>p. of_dentry dname f l (fst p)) (waiting_on_dentry c))), c')"
    "wait_inv c'" "waiting_on_dentry c' = filter (\<lambda>p. \<not> of_dentry dname f l (fst p)) (waiting_on_dentry c)"
    "co_waiting c' = co_waiting c" "same_dirw c' c"
    by (rule take_dentry_waiting_ok [OF assms])
  have "get_num_ref PIN_DNWAITER c' = bool_int (waiting_on_dentry c' \<noteq> [])"
    using c'(2) by (simp add: wait_inv_def get_num_ref_pins all_pin_defs bool_int_def)
  with c' show ?thesis by blast
qed

lemma waiter_example: "add_dentry_waiter ''f'' 5 7 plain_dir = Some c \<Longrightarrow> wait_inv c \<and> waiting_on_dentry c = [(DKey 5 ''f'', [7])]"
proof -
  assume a: "add_dentry_waiter ''f'' 5 7 plain_dir = Some c"
  have w: "wait_inv plain_dir" using cdir_new_core(1) [OF plain_dir_new] by (rule wait_inv_core)
  have e: "waiting_on_dentry plain_dir = []" by (simp add: plain_dir_def cdir_new_def plain_inode_def)
  have "co_wf plain_dir" using w by (simp add: wait_inv_def co_inv_def)
  then obtain d where d: "dget PIN_DNWAITER plain_dir = Some d" "same_dir d plain_dir" "co_wf d"
    "pins d = (pins plain_dir)(PIN_DNWAITER := pins plain_dir PIN_DNWAITER + 1)"
    "co_state d = co_state plain_dir" "co_replica_map d = co_replica_map plain_dir" "co_waiting d = co_waiting plain_dir"
    by (rule dget_ok)
  have "c_str ''f'' = ''f''" by code_simp
  moreover have "waiting_on_dentry d = []" using e same_dir_fields(33) [OF d(2)] by simp
  ultimately have "c = d\<lparr>waiting_on_dentry := [(DKey 5 ''f'', [7])]\<rparr>"
    using a e d(1) by (simp add: add_dentry_waiter_def Let_def om_get_def)
  then show ?thesis using w d e by (simp add: wait_inv_def co_inv_def frame_simps all_pin_defs)
qed

lemma take_dentry_waiting_exact_witness:
  "\<exists>c c'. add_dentry_waiter ''f'' 5 7 plain_dir = Some c \<and> take_dentry_waiting ''f'' 3 9 [] c = Some ([7], c') \<and>
     get_num_ref PIN_DNWAITER c' = 0"
proof -
  have "co_wf plain_dir" using wait_inv_core [OF cdir_new_core(1) [OF plain_dir_new]] by (simp add: wait_inv_def co_inv_def)
  then obtain d where "dget PIN_DNWAITER plain_dir = Some d" by (rule dget_ok)
  then obtain c where c: "add_dentry_waiter ''f'' 5 7 plain_dir = Some c" unfolding add_dentry_waiter_def
    by (cases "waiting_on_dentry plain_dir = []") (simp_all add: Let_def)
  have w: "wait_inv c" "waiting_on_dentry c = [(DKey 5 ''f'', [7])]" using waiter_example [OF c] by auto
  have o: "of_dentry ''f'' 3 9 (DKey 5 ''f'')" by code_simp
  have le: "(3 :: snapid_t) \<le> 9" by code_simp
  show ?thesis using take_dentry_waiting_exact [OF w(1) le, of "''f''" "[]"] w(2) o c by (auto simp: bool_int_def)
qed

text \<open>Finishing waiters wakes exactly those whose tag meets the mask, in tag order and after the
  waiters on entries when the mask includes them, keeps the others, never aborts, and passes the
  woken ones either to the run queue or, for an error, to their completion with that error.\<close>

lemma finish_waiting_exact:
  assumes "wait_inv c"
  shows "\<exists>c' ls. finish_waiting msk r c = Some c' \<and>
    ls = (if msk AND WAIT_DENTRY \<noteq> 0 then concat (map snd (waiting_on_dentry c)) else []) @
       map snd (filter (\<lambda>p. fst p AND msk \<noteq> 0) (co_waiting c)) \<and>
    last (cd_log c') = OnServer (if r < 0 then FinishContexts ls r else QueueWaiters ls) \<and>
    co_waiting c' = filter (\<lambda>p. fst p AND msk = 0) (co_waiting c) \<and>
    waiting_on_dentry c' = (if msk AND WAIT_DENTRY \<noteq> 0 then [] else waiting_on_dentry c) \<and>
    get_num_ref PIN_WAITER c' = bool_int (co_waiting c' \<noteq> []) \<and> fz_abs c' = fz_abs c"
proof -
  obtain d where d: "take_waiting msk [] c = Some ([] @
      (if msk AND WAIT_DENTRY \<noteq> 0 then concat (map snd (waiting_on_dentry c)) else []) @
      map snd (filter (\<lambda>p. fst p AND msk \<noteq> 0) (co_waiting c)), d)" "quiet d c"
    "co_waiting d = filter (\<lambda>p. fst p AND msk = 0) (co_waiting c)"
    "waiting_on_dentry d = (if msk AND WAIT_DENTRY \<noteq> 0 then [] else waiting_on_dentry c)"
    by (rule take_waiting_quiet [OF assms])
  have w: "wait_inv d" "fz_abs d = fz_abs c" using d(2) by (auto simp: quiet_def intro: same_dirw_fz)
  then have "get_num_ref PIN_WAITER d = bool_int (co_waiting d \<noteq> [])"
    by (simp add: wait_inv_def co_inv_def get_num_ref_pins all_pin_defs bool_int_def)
  moreover have "get_num_ref p (log_call e d) = get_num_ref p d" "last (cd_log (log_call e d)) = e" for p e
    by (simp_all add: get_num_ref_def log_call_def)
  moreover obtain ls where ls: "ls = (if msk AND WAIT_DENTRY \<noteq> 0 then concat (map snd (waiting_on_dentry c)) else []) @
      map snd (filter (\<lambda>p. fst p AND msk \<noteq> 0) (co_waiting c))" by blast
  moreover have "take_waiting msk [] c = Some (ls, d)" using d(1) ls by simp
  ultimately show ?thesis
    by (intro exI [of _ "log_call (OnServer (if r < 0 then FinishContexts ls r else QueueWaiters ls)) d"] exI [of _ ls])
      (use d(3,4) w in \<open>simp add: finish_waiting_def frame_simps log_call_dir_fields\<close>)
qed

lemma finish_waiting_exact_witness:
  "\<exists>c c'. add_dentry_waiter ''f'' 5 7 plain_dir = Some c \<and> finish_waiting WAIT_FROZEN 0 c = Some c' \<and>
     co_waiting c' = [] \<and> waiting_on_dentry c' = [(DKey 5 ''f'', [7])]"
proof -
  have w0: "wait_inv plain_dir" "co_waiting plain_dir = []"
    using wait_inv_core [OF cdir_new_core(1) [OF plain_dir_new]] by (simp_all add: plain_dir_def cdir_new_def plain_inode_def)
  then have "co_wf plain_dir" by (simp add: wait_inv_def co_inv_def)
  then obtain d where d: "dget PIN_DNWAITER plain_dir = Some d" "co_waiting d = co_waiting plain_dir" by (rule dget_ok)
  then obtain c where c: "add_dentry_waiter ''f'' 5 7 plain_dir = Some c" "co_waiting c = []" unfolding add_dentry_waiter_def
    using w0(2) by (cases "waiting_on_dentry plain_dir = []") (simp_all add: Let_def)
  have w: "wait_inv c" "waiting_on_dentry c = [(DKey 5 ''f'', [7])]" using waiter_example [OF c(1)] by auto
  have "WAIT_FROZEN AND WAIT_DENTRY = 0" by code_simp
  then show ?thesis using finish_waiting_exact [OF w(1), of WAIT_FROZEN 0] w(2) c by auto
qed

end
