(* ===== verification/CDir_Frame.thy ===== *)
theory CDir_Frame
  imports CDir_Freeze
begin

text \<open>
  What the operations on pins, waiters and freezes leave alone. A view of a directory that does not
  look at what reference counting touches is kept by \<^verbatim>\<open>get\<close> and \<^verbatim>\<open>put\<close>; one that also does not look at
  auth pins, waiters, authority and the freeze bits is kept by every operation of the freeze machine,
  whenever it returns. The locales state this once; the components interpret them for the views they
  need.
\<close>

locale pin_view =
  fixes view :: "cdir \<Rightarrow> 'v"
  assumes view_inode_call: "view (log_call (OnInode x) c) = view c"
    and view_ref: "view (c\<lparr>co_ref := n\<rparr>) = view c"
    and view_ref_map: "view (c\<lparr>co_ref_map := rm\<rparr>) = view c"
begin

lemmas pin_simps [simp] = view_inode_call view_ref view_ref_map

lemma dget_view: "dget by c = Some c' \<Longrightarrow> view c' = view c"
  by (auto simp: dget_def co_get_def Let_def first_get_def bind_eq_Some_conv)

lemma dput_view: "dput by c = Some c' \<Longrightarrow> view c' = view c"
  by (auto simp: dput_def co_put_def bad_put_def Let_def last_put_def bind_eq_Some_conv split: if_splits)

end

definition mode_bit :: "u32 \<Rightarrow> bool" where
  "mode_bit m \<longleftrightarrow> m = STATE_FROZENTREE \<or> m = STATE_FREEZINGTREE \<or> m = STATE_FROZENDIR \<or> m = STATE_FREEZINGDIR"

lemma mode_bit_simps [simp]:
  "mode_bit STATE_FROZENTREE" "mode_bit STATE_FREEZINGTREE" "mode_bit STATE_FROZENDIR" "mode_bit STATE_FREEZINGDIR"
  by (simp_all add: mode_bit_def)

locale freeze_view = pin_view +
  assumes view_set: "mode_bit m \<Longrightarrow> view (state_set m c) = view c"
    and view_clear: "mode_bit m \<Longrightarrow> view (state_clear m c) = view c"
    and view_auth_pins: "view (c\<lparr>auth_pins := i\<rparr>) = view c"
    and view_nested: "view (c\<lparr>nested_auth_pins := i\<rparr>) = view c"
    and view_dir_auth_pins: "view (c\<lparr>dir_auth_pins := i\<rparr>) = view c"
    and view_dir_auth: "view (c\<lparr>dir_auth := a\<rparr>) = view c"
    and view_dentry_waiters: "view (c\<lparr>waiting_on_dentry := w\<rparr>) = view c"
    and view_waiters: "view (c\<lparr>co_waiting := cw\<rparr>) = view c"
    and view_queue: "view (log_call (OnServer (QueueWaiters ls)) c) = view c"
    and view_finish: "view (log_call (OnServer (FinishContexts ls r)) c) = view c"
    and view_parent: "view (log_call (OnParentDir t y) c) = view c"
begin

lemmas freeze_simps [simp] = view_set view_clear view_auth_pins view_nested view_dir_auth_pins view_dir_auth
  view_dentry_waiters view_waiters view_queue view_finish view_parent

lemma co_take_waiting_view: "co_take_waiting last_put (\<lambda>c. c) msk ls c = Some (ls', c') \<Longrightarrow> view c' = view c"
  by (auto simp: co_take_waiting_def Let_def bind_eq_Some_conv dput_def [symmetric] dest!: dput_view
      split: if_splits prod.splits)

lemma take_waiting_view: "take_waiting msk ls c = Some (ls', c') \<Longrightarrow> view c' = view c"
  by (auto simp: take_waiting_def bind_eq_Some_conv dest!: co_take_waiting_view dput_view split: if_splits)

lemma finish_waiting_view: "finish_waiting msk r c = Some c' \<Longrightarrow> view c' = view c"
  by (auto simp: finish_waiting_def bind_eq_Some_conv dest!: take_waiting_view split: if_splits)

lemma auth_pin_view: "auth_pin c = Some c' \<Longrightarrow> view c' = view c"
  by (auto simp: auth_pin_def Let_def bind_eq_Some_conv dest!: dget_view split: if_splits)

lemma freeze_work_view:
  "freeze_tree_work c = Some c' \<Longrightarrow> view c' = view c" "freeze_dir_work c = Some c' \<Longrightarrow> view c' = view c"
  by (auto simp: freeze_tree_work_def freeze_dir_work_def bind_eq_Some_conv dest!: dget_view split: if_splits)

lemma finish_freezing_view:
  assumes "\<And>d d'. auth_unpin_f n d = Some d' \<Longrightarrow> view d' = view d" "maybe_finish_freeze_f (Suc n) c = Some c'"
  shows "view c' = view c"
proof (cases "auth_pins c \<noteq> 1 \<or> dir_auth_pins c \<noteq> 0")
  case False
  let ?dir = "if state_test STATE_FREEZINGDIR c then
      do { d \<leftarrow> freeze_dir_work c; d1 \<leftarrow> auth_unpin_f n d; finish_waiting WAIT_FROZEN 0 d1 } else Some c"
  have dir: "view c1 = view c" if "?dir = Some c1" for c1
    using that assms(1)
    by (auto simp: bind_eq_Some_conv dest!: freeze_work_view(2) finish_waiting_view split: if_splits)
  obtain c1 where c1: "?dir = Some c1"
    using assms(2) False by (auto simp: maybe_finish_freeze_f.simps bind_eq_Some_conv split: if_splits)
  have "view c' = view c1"
    using assms False c1
    by (auto simp: maybe_finish_freeze_f.simps bind_eq_Some_conv dest!: freeze_work_view(1) finish_waiting_view auth_pin_view
        split: if_splits)
  with dir [OF c1] show ?thesis by simp
qed (use assms in \<open>simp add: maybe_finish_freeze_f.simps\<close>)

lemma auth_unpin_f_view: "auth_unpin_f n c = Some c' \<Longrightarrow> view c' = view c"
proof (induction n arbitrary: c c' rule: less_induct)
  case (less n)
  show ?case
  proof (cases n)
    case (Suc m)
    have m: "view d' = view d" if "maybe_finish_freeze_f m d = Some d'" for d d'
    proof (cases m)
      case (Suc j)
      with less.IH [of j] \<open>n = Suc m\<close> that finish_freezing_view [of j d d'] show ?thesis by simp
    qed (use that in \<open>simp add: maybe_finish_freeze_f.simps\<close>)
    from less.prems Suc show ?thesis
      by (auto simp: auth_unpin_f.simps Let_def bind_eq_Some_conv dest!: m dput_view split: if_splits)
  qed (use less.prems in \<open>simp add: auth_unpin_f.simps\<close>)
qed

lemma maybe_finish_freeze_view: "maybe_finish_freeze c = Some c' \<Longrightarrow> view c' = view c"
  using finish_freezing_view [of 2 c c'] auth_unpin_f_view by (simp add: maybe_finish_freeze_def numeral_3_eq_3 numeral_2_eq_2)

lemma auth_unpin_view: "auth_unpin c = Some c' \<Longrightarrow> view c' = view c"
  by (simp add: auth_unpin_def auth_unpin_f_view)

lemma adjust_nested_view: "adjust_nested_auth_pins inc dirinc c = Some c' \<Longrightarrow> view c' = view c"
  by (auto simp: adjust_nested_auth_pins_def Let_def bind_eq_Some_conv dest!: maybe_finish_freeze_view split: if_splits)

lemma unfreeze_dir_view: "unfreeze_dir c = Some c' \<Longrightarrow> view c' = view c"
  by (auto simp: unfreeze_dir_def Let_def bind_eq_Some_conv dest!: finish_waiting_view dput_view auth_unpin_view split: if_splits)

lemma set_dir_auth_view: "set_dir_auth a c = Some c' \<Longrightarrow> view c' = view c"
  by (auto simp: set_dir_auth_def new_subtree_root_def old_subtree_root_def Let_def bind_eq_Some_conv
      dest!: take_waiting_view split: if_splits)

lemma add_waiter_view: "add_waiter tag x c = Some c' \<Longrightarrow> view c' = view c"
  by (auto simp: add_waiter_def co_add_waiter_def bind_eq_Some_conv dget_def [symmetric] dest!: dget_view split: if_splits)

end

end
