(* ===== verification/CDir_Fragment.thy ===== *)
theory CDir_Fragment
  imports CDir_Frame
begin

text \<open>
  Fragmentation: a directory fragment is split into the fragments its \<^verbatim>\<open>frag_t\<close> divides into, or
  fragments are merged into one, and the entries move to their new fragment with their pins and
  statistics. The arithmetic of \<^verbatim>\<open>frag_t\<close> and the fragment tree of the inode are outside the
  sources: the record \<open>frag_api\<close> holds what is used of them.

  The loops that empty a fragment take its first entry until none is left; since a theft removes
  exactly the entry it is called with, they visit the keys the fragment had at the start.
\<close>

record frag_api =
  fr_split :: "nat \<Rightarrow> frag_t \<Rightarrow> frag_t list"
  fr_value :: "frag_t \<Rightarrow> u32"
  fr_mask :: "frag_t \<Rightarrow> u32"
  fr_mask_shift :: "frag_t \<Rightarrow> nat"
  pick_dirfrag :: "string \<Rightarrow> frag_t"

definition DT_DIR :: nat where "DT_DIR = 4"

section \<open>Moving an entry\<close>

definition add_fragstat :: "bool \<Rightarrow> fnode_t \<Rightarrow> fnode_t" where
  "add_fragstat subdir f =
     (if subdir then f\<lparr>fragstat := (fragstat f)\<lparr>nsubdirs := nsubdirs (fragstat f) + 1\<rparr>\<rparr>
      else f\<lparr>fragstat := (fragstat f)\<lparr>nfiles := nfiles (fragstat f) + 1\<rparr>\<rparr>)"

definition steal_count :: "dentry_env \<Rightarrow> dentry \<Rightarrow> cdir \<Rightarrow> cdir" where
  "steal_count env dn c =
     (if is_null dn then count_null env (dn_last dn) 1 c
      else if dn_last dn = nosnap env then
        let c1 = c\<lparr>num_head_items := num_head_items c + 1\<rparr>
        in case dn_linkage dn of
             LPrimary ci \<Rightarrow>
               let f1 = add_fragstat (ci_is_dir ci) (fnode c1);
                   f2 = f1\<lparr>fn_rstat := nest_info_add (ci_projected_accounted_rstat ci) 1 (fn_rstat f1)\<rparr>;
                   c2 = c1\<lparr>fnode := f2\<rparr>
               in if ci_dirty_rstat ci
                  then c2\<lparr>dirty_rstat_inodes := dirty_rstat_inodes c2 @ [ci_ino ci]\<rparr> else c2
           | LRemote ino d_type bound \<Rightarrow> c1\<lparr>fnode := add_fragstat (d_type = DT_DIR) (fnode c1)\<rparr>
           | LNull \<Rightarrow> c1
      else c\<lparr>num_snap_items := num_snap_items c + 1\<rparr>)"

text \<open>An inode is on one list of dirty statistics at a time: entering a new one leaves the old one.\<close>

definition drop_dirty_rstat :: "dentry_env \<Rightarrow> dentry \<Rightarrow> cdir \<Rightarrow> cdir" where
  "drop_dirty_rstat env dn c =
     (case dn_linkage dn of
        LPrimary ci \<Rightarrow> if dn_last dn = nosnap env \<and> ci_dirty_rstat ci
                       then c\<lparr>dirty_rstat_inodes := removeAll (ci_ino ci) (dirty_rstat_inodes c)\<rparr> else c
      | _ \<Rightarrow> c)"

definition steal_pins :: "dentry \<Rightarrow> cdir \<Rightarrow> cdir \<Rightarrow> (cdir \<times> cdir) option" where
  "steal_pins dn c d =
     (if dn_auth_pins dn \<noteq> 0 \<or> dn_nested_auth_pins dn \<noteq> 0 then
        do { let ap = dn_auth_pins dn + dn_nested_auth_pins dn;
             let dap = dn_dir_auth_pins dn;
             assert_that (dap \<le> ap);
             c1 \<leftarrow> adjust_nested_auth_pins ap dap c;
             d1 \<leftarrow> adjust_nested_auth_pins (- ap) (- dap) d;
             Some (c1, d1) }
      else Some (c, d))"

text \<open>\<^verbatim>\<open>this->steal_dentry(dn)\<close> with \<open>c\<close> for \<^verbatim>\<open>this\<close> and \<open>d\<close> for the directory \<^verbatim>\<open>dn->dir\<close> it leaves.\<close>

definition steal_dentry :: "dentry_env \<Rightarrow> dentry_key_t \<Rightarrow> cdir \<Rightarrow> cdir \<Rightarrow> (cdir \<times> cdir) option" where
  "steal_dentry env k c d =
     do { dn \<leftarrow> map_of (items d) k;
          let c1 = c\<lparr>items := om_set k dn (items c)\<rparr>;
          let d1 = d\<lparr>items := om_erase k (items d)\<rparr>;
          d2 \<leftarrow> (if items d1 = [] then dput PIN_CHILD d1 else Some d1);
          c2 \<leftarrow> (if get_num_any c1 = 0 then dget PIN_CHILD c1 else Some c1);
          let c3 = steal_count env dn c2;
          let d3 = drop_dirty_rstat env dn d2;
          (c4, d4) \<leftarrow> steal_pins dn c3 d3;
          let c5 = (if dn_is_dirty dn then c4\<lparr>num_dirty := num_dirty c4 + 1\<rparr> else c4);
          Some (c5, d4) }"

fun steal_all :: "dentry_env \<Rightarrow> dentry_key_t list \<Rightarrow> cdir \<Rightarrow> cdir \<Rightarrow> (cdir \<times> cdir) option" where
  "steal_all env [] c d = Some (c, d)"
| "steal_all env (k # ks) c d = do { (c1, d1) \<leftarrow> steal_dentry env k c d; steal_all env ks c1 d1 }"

section \<open>Preparing and finishing\<close>

definition prepare_old_fragment :: "bool \<Rightarrow> cdir \<Rightarrow> cdir option" where
  "prepare_old_fragment replay c = (if \<not> replay \<and> is_auth c then auth_pin c else Some c)"

definition prepare_new_fragment :: "bool \<Rightarrow> cdir \<Rightarrow> cdir option" where
  "prepare_new_fragment replay c =
     (if \<not> replay \<and> is_auth c then map_option mark_complete (freeze_dir_work c) else Some c)"

definition put_if :: "bool \<Rightarrow> int \<Rightarrow> cdir \<Rightarrow> cdir option" where
  "put_if b by c = (if b then dput by c else Some c)"

definition get_if :: "bool \<Rightarrow> int \<Rightarrow> cdir \<Rightarrow> cdir option" where
  "get_if b by c = (if b then dget by c else Some c)"

definition release_old :: "context_t list \<Rightarrow> bool \<Rightarrow> cdir \<Rightarrow> (context_t list \<times> cdir) option" where
  "release_old waiters replay c =
     (if \<not> replay then
        do { (ws, d) \<leftarrow> take_waiting WAIT_ANY_MASK waiters c;
             d1 \<leftarrow> (if is_auth d then
                     do { e \<leftarrow> auth_unpin d; assert_that (is_frozen_dir e); unfreeze_dir e }
                   else Some d);
             Some (ws, d1) }
      else Some (waiters, c))"

text \<open>This mirrors \<^verbatim>\<open>init_fragment_pins\<close>.\<close>

definition drop_fragment_pins :: "cdir \<Rightarrow> cdir option" where
  "drop_fragment_pins c =
     do { c1 \<leftarrow> (if is_auth c then clear_replica_map last_put (\<lambda>c. c) c else Some c);
          c2 \<leftarrow> (if is_dirty c1 then mark_clean c1 else Some c1);
          c3 \<leftarrow> put_if (state_test STATE_IMPORTBOUND c2) PIN_IMPORTBOUND c2;
          c4 \<leftarrow> put_if (state_test STATE_EXPORTBOUND c3) PIN_EXPORTBOUND c3;
          c5 \<leftarrow> put_if (is_subtree_root c4) PIN_SUBTREE c4;
          put_if (auth_pins c5 > 0) PIN_AUTHPIN c5 }"

definition finish_old_fragment :: "context_t list \<Rightarrow> bool \<Rightarrow> cdir \<Rightarrow> (context_t list \<times> cdir) option" where
  "finish_old_fragment waiters replay c =
     do { (ws, c1) \<leftarrow> release_old waiters replay c;
          assert_that (nested_auth_pins c1 = 0);
          assert_that (dir_auth_pins c1 = 0);
          assert_that (auth_pins c1 = 0);
          c2 \<leftarrow> drop_fragment_pins
                 (c1\<lparr>num_head_items := 0, num_head_null := 0, num_snap_items := 0, num_snap_null := 0\<rparr>);
          assert_that (get_num_ref (-1) c2 = bool_int (state_test STATE_STICKY c2));
          Some (ws, c2) }"

definition init_fragment_pins :: "cdir \<Rightarrow> cdir option" where
  "init_fragment_pins c =
     do { c1 \<leftarrow> get_if (co_replica_map c \<noteq> []) PIN_REPLICATED c;
          c2 \<leftarrow> get_if (state_test STATE_DIRTY c1) PIN_DIRTY c1;
          c3 \<leftarrow> get_if (state_test STATE_EXPORTBOUND c2) PIN_EXPORTBOUND c2;
          c4 \<leftarrow> get_if (state_test STATE_IMPORTBOUND c3) PIN_IMPORTBOUND c3;
          get_if (is_subtree_root c4) PIN_SUBTREE c4 }"

section \<open>Split\<close>

text \<open>What is outstanding between the statistics and what the inode accounts for.\<close>

definition diff_rstat :: "version_t \<Rightarrow> cdir \<Rightarrow> nest_info_t \<Rightarrow> nest_info_t" where
  "diff_rstat v c n =
     (if si_version (fn_accounted_rstat (fnode c)) = v
      then nest_info_add_delta (fn_accounted_rstat (fnode c)) (fn_rstat (fnode c)) n else n)"

definition diff_fragstat :: "version_t \<Rightarrow> cdir \<Rightarrow> frag_info_t \<times> bool \<Rightarrow> frag_info_t \<times> bool" where
  "diff_fragstat v c a =
     (if si_version (accounted_fragstat (fnode c)) = v
      then frag_info_add_delta (fst a) (accounted_fragstat (fnode c)) (fragstat (fnode c)) (snd a) else a)"

definition new_subfrag :: "dir_api \<Rightarrow> utime_t \<Rightarrow> double \<Rightarrow> bool \<Rightarrow> cdir \<Rightarrow> frag_t \<Rightarrow> cdir option" where
  "new_subfrag api now fac replay c p =
     do { f \<leftarrow> cdir_new api now (cd_inode c) p (is_auth c);
          let f1 = (state_set (co_state c AND (MASK_STATE_FRAGMENT_KEPT OR STATE_COMPLETE)) f)
                     \<lparr>co_replica_map := co_replica_map c, dir_auth := dir_auth c\<rparr>;
          f2 \<leftarrow> init_fragment_pins f1;
          f3 \<leftarrow> set_version (get_version c) f2;
          let f4 = f3\<lparr>pop_me := dirfrag_load_scale api fac (pop_me c),
                      pop_nested := dirfrag_load_scale api fac (pop_nested c),
                      pop_auth_subtree := dirfrag_load_scale api fac (pop_auth_subtree c),
                      pop_auth_subtree_nested := dirfrag_load_scale api fac (pop_auth_subtree_nested c)\<rparr>;
          let f5 = log_call (OnInode (AddDirfrag p)) f4;
          f6 \<leftarrow> set_dir_auth (dir_auth c) f5;
          prepare_new_fragment replay f6 }"

fun new_subfrags :: "dir_api \<Rightarrow> utime_t \<Rightarrow> double \<Rightarrow> bool \<Rightarrow> cdir \<Rightarrow> frag_t list \<Rightarrow> cdir list option" where
  "new_subfrags api now fac replay c [] = Some []"
| "new_subfrags api now fac replay c (p # ps) =
     do { f \<leftarrow> new_subfrag api now fac replay c p;
          fs \<leftarrow> new_subfrags api now fac replay c ps;
          Some (f # fs) }"

definition subfrag_index :: "frag_api \<Rightarrow> frag_t \<Rightarrow> string \<Rightarrow> nat" where
  "subfrag_index fa frag name =
     (let subfrag = pick_dirfrag fa name
      in unat (drop_bit (fr_mask_shift fa subfrag)
                 (fr_value fa subfrag AND (fr_mask fa subfrag XOR fr_mask fa frag))))"

text \<open>The vector of the new fragments has a slot per fragment of the split; reading beyond them is
  an abort.\<close>

fun repartition :: "dentry_env \<Rightarrow> frag_api \<Rightarrow> dentry_key_t list \<Rightarrow> cdir list \<Rightarrow> cdir
    \<Rightarrow> (cdir list \<times> cdir) option" where
  "repartition env fa [] fs c = Some (fs, c)"
| "repartition env fa (k # ks) fs c =
     do { dn \<leftarrow> map_of (items c) k;
          let n = subfrag_index fa (cd_frag c) (dn_name dn);
          assert_that (n < length fs);
          (f, c1) \<leftarrow> steal_dentry env k (fs ! n) c;
          repartition env fa ks (fs[n := f]) c1 }"

definition fix_fragstats :: "version_t \<Rightarrow> version_t \<Rightarrow> cdir \<Rightarrow> cdir" where
  "fix_fragstats rstat_version dirstat_version f =
     (let g = fnode f;
          r = (fn_rstat g)\<lparr>si_version := rstat_version\<rparr>;
          s = (fragstat g)\<lparr>si_version := dirstat_version\<rparr>
      in f\<lparr>fnode := g\<lparr>fn_rstat := r, fn_accounted_rstat := r, fragstat := s, accounted_fragstat := s\<rparr>\<rparr>)"

definition give_diff :: "nest_info_t \<Rightarrow> frag_info_t \<Rightarrow> cdir \<Rightarrow> cdir" where
  "give_diff rd fd f =
     f\<lparr>fnode := (fnode f)\<lparr>fn_accounted_rstat := nest_info_add rd 1 (fn_accounted_rstat (fnode f)),
                          accounted_fragstat := frag_info_add (accounted_fragstat (fnode f)) fd\<rparr>\<rparr>"

definition split :: "dentry_env \<Rightarrow> frag_api \<Rightarrow> dir_api \<Rightarrow> utime_t \<Rightarrow> nat \<Rightarrow> context_t list \<Rightarrow> bool \<Rightarrow> cdir
    \<Rightarrow> (cdir list \<times> context_t list \<times> cdir) option" where
  "split env fa api now bits waiters replay c =
     do { assert_that (replay \<or> is_complete c \<or> \<not> is_auth c);
          let frags = fr_split fa bits (cd_frag c);
          let fac = 1 / 2 ^ bits;
          let rv = iv_rstat_version (cd_inode c);
          let dv = iv_dirstat_version (cd_inode c);
          let rd = diff_rstat rv c nest_info_zero;
          let fd = fst (diff_fragstat dv c (frag_info_zero, False));
          c1 \<leftarrow> prepare_old_fragment replay c;
          assert_that (length frags \<le> 2 ^ bits);
          fs \<leftarrow> new_subfrags api now fac replay c1 frags;
          (fs1, c2) \<leftarrow> repartition env fa (map fst (items c1)) fs c1;
          let fs2 = map (fix_fragstats rv dv) fs1;
          assert_that (fs2 \<noteq> []);
          let fs3 = fs2[0 := give_diff rd fd (hd fs2)];
          (ws, c3) \<leftarrow> finish_old_fragment waiters replay c2;
          Some (fs3, ws, c3) }"

section \<open>Merge\<close>

definition merge_replicas :: "(mds_rank_t \<times> u32) list \<Rightarrow> (mds_rank_t \<times> u32) list \<Rightarrow> (mds_rank_t \<times> u32) list" where
  "merge_replicas from into = fold (\<lambda>p m. om_set (fst p) (max (om_get 0 (fst p) m) (snd p)) m) from into"

fun merge_subs :: "dentry_env \<Rightarrow> bool \<Rightarrow> version_t \<Rightarrow> version_t \<Rightarrow> cdir list
    \<Rightarrow> nest_info_t \<Rightarrow> frag_info_t \<times> bool \<Rightarrow> context_t list \<Rightarrow> cdir
    \<Rightarrow> (nest_info_t \<times> frag_info_t \<times> context_t list \<times> cdir list \<times> cdir) option" where
  "merge_subs env replay rv dv [] rd fd ws c = Some (rd, fst fd, ws, [], c)"
| "merge_subs env replay rv dv (d # ds) rd fd ws c =
     do { assert_that (\<not> is_auth d \<or> is_complete d \<or> replay);
          let rd' = diff_rstat rv d rd;
          let fd' = diff_fragstat dv d fd;
          d1 \<leftarrow> prepare_old_fragment replay d;
          (c1, d2) \<leftarrow> steal_all env (map fst (items d1)) c d1;
          let c2 = c1\<lparr>co_replica_map := merge_replicas (co_replica_map d2) (co_replica_map c1)\<rparr>;
          c3 \<leftarrow> (if get_version d2 > get_version c2 then set_version (get_version d2) c2 else Some c2);
          let c4 = (state_set (co_state d2 AND MASK_STATE_FRAGMENT_KEPT) c3)\<lparr>dir_auth := dir_auth d2\<rparr>;
          (ws', d3) \<leftarrow> finish_old_fragment ws replay d2;
          let c5 = log_call (OnInode (CloseDirfrag (cd_frag d3))) c4;
          (rd2, fd2, ws2, gone, c6) \<leftarrow> merge_subs env replay rv dv ds rd' fd' ws' c5;
          Some (rd2, fd2, ws2, d3 # gone, c6) }"

definition merge :: "dentry_env \<Rightarrow> cdir list \<Rightarrow> context_t list \<Rightarrow> bool \<Rightarrow> cdir
    \<Rightarrow> (context_t list \<times> cdir list \<times> cdir) option" where
  "merge env subs waiters replay c =
     do { assert_that (subs \<noteq> []);
          c1 \<leftarrow> set_dir_auth (dir_auth (hd subs)) c;
          c2 \<leftarrow> prepare_new_fragment replay c1;
          let rv = iv_rstat_version (cd_inode c2);
          let dv = iv_dirstat_version (cd_inode c2);
          (rd, fd, ws, gone, c3) \<leftarrow> merge_subs env replay rv dv subs nest_info_zero (frag_info_zero, False) waiters c2;
          let c4 = (if is_auth c3 \<and> \<not> replay then mark_complete c3 else c3);
          let c5 = give_diff rd fd (fix_fragstats rv dv c4);
          c6 \<leftarrow> init_fragment_pins c5;
          Some (ws, gone, c6) }"

section \<open>What the surrounding operations leave alone\<close>

text \<open>The contents of a directory with their counters and statistics, and what does not change.\<close>

definition body :: "cdir \<Rightarrow> (dentry_key_t \<times> dentry) list \<times> fnode_t \<times> u32 \<times> u32 \<times> u32 \<times> u32 \<times> frag_t \<times> inode_view \<times> fnode_t list" where
  "body c = (items c, fnode c, num_head_items c, num_head_null c, num_snap_items c, num_snap_null c,
     cd_frag c, cd_inode c, projected_fnode c)"

lemma body_fields:
  assumes "body c' = body c"
  shows "items c' = items c" "fnode c' = fnode c" "num_head_items c' = num_head_items c"
    "num_head_null c' = num_head_null c" "num_snap_items c' = num_snap_items c" "num_snap_null c' = num_snap_null c"
    "cd_frag c' = cd_frag c" "cd_inode c' = cd_inode c" "projected_fnode c' = projected_fnode c"
    "get_num_any c' = get_num_any c"
  using assms by (simp_all add: body_def get_num_any_def)

lemma body_simps [simp]:
  "body (log_call e c) = body c" "body (state_set m c) = body c" "body (state_clear m c) = body c"
  "body (c\<lparr>auth_pins := n\<rparr>) = body c" "body (c\<lparr>nested_auth_pins := n\<rparr>) = body c"
  "body (c\<lparr>dir_auth_pins := n\<rparr>) = body c" "body (c\<lparr>dir_auth := a\<rparr>) = body c"
  "body (c\<lparr>waiting_on_dentry := w\<rparr>) = body c" "body (c\<lparr>co_waiting := cw\<rparr>) = body c"
  "body (c\<lparr>co_replica_map := r\<rparr>) = body c" "body (c\<lparr>co_ref := n\<rparr>) = body c"
  "body (c\<lparr>co_ref_map := rm\<rparr>) = body c" "body (c\<lparr>num_dirty := n\<rparr>) = body c"
  "body (c\<lparr>item_dirty := b\<rparr>) = body c" "body (c\<lparr>item_new := b\<rparr>) = body c"
  "body (c\<lparr>bloom := bl\<rparr>) = body c" "body (c\<lparr>dirty_rstat_inodes := di\<rparr>) = body c"
  by (simp_all add: body_def log_call_def state_set_def state_clear_def)

interpretation body: freeze_view body
  by unfold_locales simp_all

lemmas dget_body = body.dget_view
lemmas dput_body = body.dput_view
lemmas take_waiting_body = body.take_waiting_view
lemmas auth_pin_body = body.auth_pin_view
lemmas freeze_work_body = body.freeze_work_view
lemmas auth_unpin_body = body.auth_unpin_view
lemmas adjust_nested_body = body.adjust_nested_view
lemmas unfreeze_dir_body = body.unfreeze_dir_view
lemmas set_dir_auth_body = body.set_dir_auth_view

lemma get_if_body: "get_if b by c = Some c' \<Longrightarrow> body c' = body c"
  by (auto simp: get_if_def dest: dget_body split: if_splits)

lemma put_if_body: "put_if b by c = Some c' \<Longrightarrow> body c' = body c"
  by (auto simp: put_if_def dest: dput_body split: if_splits)

lemma prepare_body:
  "prepare_old_fragment replay c = Some c' \<Longrightarrow> body c' = body c"
  "prepare_new_fragment replay c = Some c' \<Longrightarrow> body c' = body c"
  by (auto simp: prepare_old_fragment_def prepare_new_fragment_def mark_complete_def remove_bloom_def
      dest!: auth_pin_body freeze_work_body split: if_splits)

section \<open>Balanced books\<close>

text \<open>
  A directory's books are balanced when its counters and its statistics are the sums over its
  entries: this is what fragmentation promises of every fragment it makes.
\<close>

definition esum :: "(dentry \<Rightarrow> int) \<Rightarrow> (dentry_key_t \<times> dentry) list \<Rightarrow> int" where
  "esum f m = (\<Sum>p\<leftarrow>m. f (snd p))"

definition e_subdirs :: "dentry_env \<Rightarrow> dentry \<Rightarrow> int" where
  "e_subdirs env dn = (if dn_last dn \<noteq> nosnap env then 0
     else case dn_linkage dn of LPrimary ci \<Rightarrow> bool_int (ci_is_dir ci)
          | LRemote ino d_type bound \<Rightarrow> bool_int (d_type = DT_DIR) | LNull \<Rightarrow> 0)"

definition e_files :: "dentry_env \<Rightarrow> dentry \<Rightarrow> int" where
  "e_files env dn = bool_int (head_item env dn) - e_subdirs env dn"

definition e_rstat :: "dentry_env \<Rightarrow> dentry \<Rightarrow> nest_info_t" where
  "e_rstat env dn = (if dn_last dn \<noteq> nosnap env then nest_info_zero
     else case dn_linkage dn of LPrimary ci \<Rightarrow> ci_projected_accounted_rstat ci | _ \<Rightarrow> nest_info_zero)"

definition stats_ok :: "dentry_env \<Rightarrow> cdir \<Rightarrow> bool" where
  "stats_ok env c \<longleftrightarrow>
     nfiles (fragstat (fnode c)) = esum (e_files env) (items c) \<and>
     nsubdirs (fragstat (fnode c)) = esum (e_subdirs env) (items c) \<and>
     rbytes (fn_rstat (fnode c)) = esum (\<lambda>dn. rbytes (e_rstat env dn)) (items c) \<and>
     rfiles (fn_rstat (fnode c)) = esum (\<lambda>dn. rfiles (e_rstat env dn)) (items c) \<and>
     rsubdirs (fn_rstat (fnode c)) = esum (\<lambda>dn. rsubdirs (e_rstat env dn)) (items c) \<and>
     rsnaprealms (fn_rstat (fnode c)) = esum (\<lambda>dn. rsnaprealms (e_rstat env dn)) (items c)"

definition books :: "dentry_env \<Rightarrow> cdir \<Rightarrow> bool" where
  "books env c \<longleftrightarrow> om_ok (items c) \<and> counts_ok env c \<and> stats_ok env c"

lemma esum_set: "om_ok m \<Longrightarrow> map_of m k = None \<Longrightarrow> esum f (om_set k v m) = esum f m + f v"
  unfolding esum_def by (subst om_sum_assign) simp_all

lemma tally_new: "om_ok m \<Longrightarrow> map_of m k = None \<Longrightarrow> tally P (om_set k v m) = tally P m + ind (P v)"
  by (simp add: tally_set)

lemma books_body:
  assumes "body c' = body c"
  shows "books env c' = books env c"
  using body_fields [OF assms] by (simp add: books_def counts_ok_def stats_ok_def)

text \<open>One theft, on the directory that receives the entry.\<close>

lemma steal_count_books:
  assumes "books env c" "map_of (items c) k = None"
  shows "books env (steal_count env dn (c\<lparr>items := om_set k dn (items c)\<rparr>))"
proof -
  have b: "om_ok (items c)" "counts_ok env c" "stats_ok env c" using assms(1) by (simp_all add: books_def)
  note adds = esum_set [OF b(1) assms(2)] tally_new [OF b(1) assms(2)]
  let ?c1 = "c\<lparr>items := om_set k dn (items c)\<rparr>"
  have it: "items (steal_count env dn ?c1) = om_set k dn (items c)"
    by (simp add: steal_count_def count_null_def Let_def split: linkage.splits)
  have "counts_ok env (steal_count env dn ?c1)"
    using b(2) by (auto simp: counts_ok_def it adds steal_count_def count_null_def Let_def is_null_def kind_defs ind_def
        split: linkage.splits)
  moreover have "stats_ok env (steal_count env dn ?c1)"
    using b(3) by (auto simp: stats_ok_def it adds steal_count_def count_null_def Let_def is_null_def kind_defs
        add_fragstat_def nest_info_add_def nest_info_zero_def e_files_def e_subdirs_def e_rstat_def bool_int_def split: linkage.splits)
  ultimately show ?thesis using b(1) by (simp add: books_def it)
qed

lemma steal_count_fields:
  "items (steal_count env dn c) = items c" "cd_frag (steal_count env dn c) = cd_frag c"
  "cd_inode (steal_count env dn c) = cd_inode c" "projected_fnode (steal_count env dn c) = projected_fnode c"
  "fn_accounted_rstat (fnode (steal_count env dn c)) = fn_accounted_rstat (fnode c)"
  "accounted_fragstat (fnode (steal_count env dn c)) = accounted_fragstat (fnode c)"
  "fn_version (fnode (steal_count env dn c)) = fn_version (fnode c)"
  by (auto simp: steal_count_def count_null_def Let_def add_fragstat_def split: linkage.splits)

lemma steal_count_body:
  assumes "body c' = body c"
  shows "body (steal_count env dn c') = body (steal_count env dn c)"
  using body_fields [OF assms]
  by (simp add: body_def steal_count_def count_null_def Let_def add_fragstat_def split: linkage.splits)

lemma drop_dirty_rstat_body: "body (drop_dirty_rstat env dn d) = body d"
  by (simp add: drop_dirty_rstat_def split: linkage.splits)

lemma steal_pins_body: "steal_pins dn c d = Some (c', d') \<Longrightarrow> body c' = body c \<and> body d' = body d"
  by (auto simp: steal_pins_def Let_def bind_eq_Some_conv dest!: adjust_nested_body split: if_splits)

lemma body_items: "body c' = body c \<Longrightarrow> body (c'\<lparr>items := m\<rparr>) = body (c\<lparr>items := m\<rparr>)"
  by (simp add: body_def)

lemma steal_dentry_body:
  assumes "steal_dentry env k c d = Some (c', d')"
  obtains dn where "map_of (items d) k = Some dn"
    "body c' = body (steal_count env dn (c\<lparr>items := om_set k dn (items c)\<rparr>))"
    "body d' = body (d\<lparr>items := om_erase k (items d)\<rparr>)"
proof -
  obtain dn where dn: "map_of (items d) k = Some dn"
    using assms by (cases "map_of (items d) k") (simp_all add: steal_dentry_def)
  let ?c1 = "c\<lparr>items := om_set k dn (items c)\<rparr>" and ?d1 = "d\<lparr>items := om_erase k (items d)\<rparr>"
  obtain d2 c2 c4 where s: "(if items ?d1 = [] then dput PIN_CHILD ?d1 else Some ?d1) = Some d2"
    "(if get_num_any ?c1 = 0 then dget PIN_CHILD ?c1 else Some ?c1) = Some c2"
    "steal_pins dn (steal_count env dn c2) (drop_dirty_rstat env dn d2) = Some (c4, d')"
    "c' = (if dn_is_dirty dn then c4\<lparr>num_dirty := num_dirty c4 + 1\<rparr> else c4)"
    using assms dn unfolding steal_dentry_def Let_def bind_eq_Some_conv by (auto simp only: prod.case option.inject prod.inject split_paired_Ex)
  have "body d2 = body ?d1" using s(1) by (auto dest: dput_body split: if_splits)
  moreover have c2: "body c2 = body ?c1" using s(2) by (auto dest: dget_body split: if_splits)
  ultimately have "body d' = body ?d1" "body c4 = body (steal_count env dn ?c1)"
    using steal_pins_body [OF s(3)] steal_count_body [OF c2] by (simp_all add: drop_dirty_rstat_body)
  then show thesis using that [OF dn] s(4) by simp
qed

lemma steal_dentry_ok:
  assumes "steal_dentry env k c d = Some (c', d')" "books env c" "map_of (items c) k = None"
  obtains dn where "map_of (items d) k = Some dn" "books env c'" "items c' = om_set k dn (items c)"
    "items d' = om_erase k (items d)" "cd_frag d' = cd_frag d" "fnode d' = fnode d"
    "cd_frag c' = cd_frag c" "cd_inode c' = cd_inode c" "projected_fnode c' = projected_fnode c"
    "fn_accounted_rstat (fnode c') = fn_accounted_rstat (fnode c)"
    "accounted_fragstat (fnode c') = accounted_fragstat (fnode c)" "fn_version (fnode c') = fn_version (fnode c)"
    "cd_inode d' = cd_inode d"
proof -
  obtain dn where dn: "map_of (items d) k = Some dn"
    "body c' = body (steal_count env dn (c\<lparr>items := om_set k dn (items c)\<rparr>))"
    "body d' = body (d\<lparr>items := om_erase k (items d)\<rparr>)" by (rule steal_dentry_body [OF assms(1)])
  have "books env c'" using steal_count_books [OF assms(2,3), of dn] books_body [OF dn(2)] by simp
  then show thesis
    by (rule that [OF dn(1)])
      (use body_fields [OF dn(2)] body_fields [OF dn(3)] in \<open>simp_all add: steal_count_fields\<close>)
qed

lemma steal_all_ok:
  assumes "steal_all env ks c d = Some (c', d')" "books env c" "om_ok (items d)" "distinct ks"
    "\<forall>k\<in>set ks. map_of (items c) k = None"
  shows "books env c' \<and> items d' = fold om_erase ks (items d) \<and>
    map_of (items c') = map_of (items c) ++ (map_of (items d) |` set ks) \<and> set ks \<subseteq> dom (map_of (items d)) \<and>
    cd_frag c' = cd_frag c \<and> cd_inode c' = cd_inode c \<and> projected_fnode c' = projected_fnode c \<and>
    fn_accounted_rstat (fnode c') = fn_accounted_rstat (fnode c) \<and>
    accounted_fragstat (fnode c') = accounted_fragstat (fnode c) \<and> fn_version (fnode c') = fn_version (fnode c) \<and>
    fnode d' = fnode d \<and> cd_frag d' = cd_frag d"
  using assms
proof (induction ks arbitrary: c d)
  case (Cons k ks)
  obtain c1 d1 where s: "steal_dentry env k c d = Some (c1, d1)" "steal_all env ks c1 d1 = Some (c', d')"
    using Cons.prems(1) by (auto simp: bind_eq_Some_conv)
  have nk: "map_of (items c) k = None" using Cons.prems(5) by simp
  obtain dn where dn: "map_of (items d) k = Some dn" "books env c1" "items c1 = om_set k dn (items c)"
    "items d1 = om_erase k (items d)" "cd_frag d1 = cd_frag d" "fnode d1 = fnode d"
    "cd_frag c1 = cd_frag c" "cd_inode c1 = cd_inode c" "projected_fnode c1 = projected_fnode c"
    "fn_accounted_rstat (fnode c1) = fn_accounted_rstat (fnode c)"
    "accounted_fragstat (fnode c1) = accounted_fragstat (fnode c)" "fn_version (fnode c1) = fn_version (fnode c)"
    by (rule steal_dentry_ok [OF s(1) Cons.prems(2) nk])
  have ok: "om_ok (items c)" using Cons.prems(2) by (simp add: books_def)
  have m: "map_of (items c1) = (map_of (items c))(k \<mapsto> dn)" using ok dn(3) by simp
  have IH: "books env c' \<and> items d' = fold om_erase ks (items d1) \<and>
    map_of (items c') = map_of (items c1) ++ (map_of (items d1) |` set ks) \<and> set ks \<subseteq> dom (map_of (items d1)) \<and>
    cd_frag c' = cd_frag c1 \<and> cd_inode c' = cd_inode c1 \<and> projected_fnode c' = projected_fnode c1 \<and>
    fn_accounted_rstat (fnode c') = fn_accounted_rstat (fnode c1) \<and>
    accounted_fragstat (fnode c') = accounted_fragstat (fnode c1) \<and> fn_version (fnode c') = fn_version (fnode c1) \<and>
    fnode d' = fnode d1 \<and> cd_frag d' = cd_frag d1"
    by (rule Cons.IH [OF s(2) dn(2)]) (use Cons.prems dn m in \<open>auto simp: om_ok_erase\<close>)
  have "map_of (items d1) |` set ks = map_of (items d) |` set ks"
    using dn(4) Cons.prems(4) by (auto simp: fun_eq_iff restrict_map_def)
  moreover have "(map_of (items c))(k \<mapsto> dn) ++ (map_of (items d) |` set ks) =
      map_of (items c) ++ (map_of (items d) |` insert k (set ks))"
    using dn(1) Cons.prems(4) by (auto simp: fun_eq_iff restrict_map_def map_add_def split: option.splits)
  moreover have "set ks \<subseteq> dom (map_of (items d))" using IH dn(4) by (auto simp: dom_def split: if_splits)
  ultimately show ?case using IH dn m by (auto simp: dom_def)
qed (simp add: restrict_map_def)

lemma fold_erase_all: "fold om_erase ks m = filter (\<lambda>p. fst p \<notin> set ks) m"
  by (induction ks arbitrary: m) (auto simp: om_erase_def intro: filter_cong)

lemma fold_erase_own: "fold om_erase (map fst m) m = []"
  by (simp add: fold_erase_all filter_empty_conv)

text \<open>The share of a fragment: the entries whose name it is picked for.\<close>

definition share :: "frag_api \<Rightarrow> frag_t \<Rightarrow> nat \<Rightarrow> (dentry_key_t \<rightharpoonup> dentry) \<Rightarrow> (dentry_key_t \<rightharpoonup> dentry)" where
  "share fa frag i m = (\<lambda>k. case m k of Some dn \<Rightarrow> if subfrag_index fa frag (dn_name dn) = i then Some dn else None | None \<Rightarrow> None)"

definition side :: "cdir \<Rightarrow> frag_t \<times> inode_view \<times> fnode_t list \<times> nest_info_t \<times> frag_info_t \<times> version_t" where
  "side c = (cd_frag c, cd_inode c, projected_fnode c, fn_accounted_rstat (fnode c), accounted_fragstat (fnode c),
     fn_version (fnode c))"

lemma repartition_ok:
  assumes "repartition env fa ks fs c = Some (fs', c')" "\<forall>f\<in>set fs. books env f" "om_ok (items c)" "distinct ks"
    "\<forall>i<length fs. \<forall>k\<in>set ks. map_of (items (fs ! i)) k = None"
  shows "length fs' = length fs \<and> (\<forall>f\<in>set fs'. books env f) \<and> items c' = fold om_erase ks (items c) \<and> fnode c' = fnode c \<and>
    (\<forall>i<length fs. map_of (items (fs' ! i)) = map_of (items (fs ! i)) ++ share fa (cd_frag c) i (map_of (items c) |` set ks)) \<and>
    (\<forall>k\<in>set ks. \<exists>dn. map_of (items c) k = Some dn \<and> subfrag_index fa (cd_frag c) (dn_name dn) < length fs) \<and>
    map side fs' = map side fs"
  using assms
proof (induction ks arbitrary: fs c)
  case Nil
  then show ?case by (simp add: share_def fun_eq_iff map_add_def restrict_map_def)
next
  case (Cons k ks)
  obtain dn f c1 where s: "map_of (items c) k = Some dn" "subfrag_index fa (cd_frag c) (dn_name dn) < length fs"
    "steal_dentry env k (fs ! subfrag_index fa (cd_frag c) (dn_name dn)) c = Some (f, c1)"
    "repartition env fa ks (fs[subfrag_index fa (cd_frag c) (dn_name dn) := f]) c1 = Some (fs', c')"
    using Cons.prems(1) by (auto simp: bind_eq_Some_conv Let_def)
  define n where "n = subfrag_index fa (cd_frag c) (dn_name dn)"
  note s = s [folded n_def]
  have bn: "books env (fs ! n)" "map_of (items (fs ! n)) k = None" using Cons.prems(2,5) s(2) by auto
  obtain dn' where d': "map_of (items c) k = Some dn'" "books env f" "items f = om_set k dn' (items (fs ! n))"
    "items c1 = om_erase k (items c)" "cd_frag c1 = cd_frag c" "fnode c1 = fnode c"
    "cd_frag f = cd_frag (fs ! n)" "cd_inode f = cd_inode (fs ! n)" "projected_fnode f = projected_fnode (fs ! n)"
    "fn_accounted_rstat (fnode f) = fn_accounted_rstat (fnode (fs ! n))"
    "accounted_fragstat (fnode f) = accounted_fragstat (fnode (fs ! n))" "fn_version (fnode f) = fn_version (fnode (fs ! n))"
    by (rule steal_dentry_ok [OF s(3) bn])
  have dd: "dn' = dn" using d'(1) s(1) by simp
  let ?fs = "fs[n := f]"
  have mf: "map_of (items (?fs ! i)) = (if i = n then (map_of (items (fs ! n)))(k \<mapsto> dn) else map_of (items (fs ! i)))"
    if "i < length fs" for i
    using that s(2) d'(3) dd bn(1) by (simp add: books_def)
  have IH: "length fs' = length ?fs \<and> (\<forall>f\<in>set fs'. books env f) \<and> items c' = fold om_erase ks (items c1) \<and> fnode c' = fnode c1 \<and>
    (\<forall>i<length ?fs. map_of (items (fs' ! i)) = map_of (items (?fs ! i)) ++ share fa (cd_frag c1) i (map_of (items c1) |` set ks)) \<and>
    (\<forall>k\<in>set ks. \<exists>dn. map_of (items c1) k = Some dn \<and> subfrag_index fa (cd_frag c1) (dn_name dn) < length ?fs) \<and>
    map side fs' = map side ?fs"
    by (rule Cons.IH [OF s(4)])
      (use Cons.prems d'(2,4) mf in \<open>auto simp: om_ok_erase dest!: set_update_subset_insert [THEN subsetD]\<close>)
  have r: "map_of (items c1) |` set ks = map_of (items c) |` set ks"
    using d'(4) Cons.prems(4) by (auto simp: fun_eq_iff restrict_map_def)
  have "map_of (items (?fs ! i)) ++ share fa (cd_frag c) i (map_of (items c) |` set ks) =
      map_of (items (fs ! i)) ++ share fa (cd_frag c) i (map_of (items c) |` set (k # ks))" if "i < length fs" for i
    unfolding mf [OF that] using s(1) Cons.prems(4)
    by (auto simp: n_def [symmetric] share_def fun_eq_iff map_add_def restrict_map_def split: option.splits)
  moreover have "map side ?fs = map side fs"
  proof -
    have "side f = side (fs ! n)" using d' by (simp add: side_def)
    then show ?thesis by (simp add: map_update list_update_same_conv s(2))
  qed
  moreover have "\<forall>k\<in>set ks. \<exists>dn. map_of (items c) k = Some dn \<and> subfrag_index fa (cd_frag c) (dn_name dn) < length fs"
  proof
    fix k' assume "k' \<in> set ks"
    then obtain e where "map_of (items c1) k' = Some e" "subfrag_index fa (cd_frag c1) (dn_name e) < length ?fs" using IH by blast
    then show "\<exists>dn. map_of (items c) k' = Some dn \<and> subfrag_index fa (cd_frag c) (dn_name dn) < length fs"
      using d'(4,5) by (auto split: if_splits)
  qed
  ultimately show ?case using IH r d'(4,5,6) s(1,2) n_def by auto
qed

section \<open>Outstanding differences\<close>

datatype stat_kind = RBytes | RFiles | RSubdirs | RSnaprealms | NFiles | NSubdirs

fun stat_of :: "stat_kind \<Rightarrow> nest_info_t \<Rightarrow> frag_info_t \<Rightarrow> int" where
  "stat_of RBytes n f = rbytes n"
| "stat_of RFiles n f = rfiles n"
| "stat_of RSubdirs n f = rsubdirs n"
| "stat_of RSnaprealms n f = rsnaprealms n"
| "stat_of NFiles n f = nfiles f"
| "stat_of NSubdirs n f = nsubdirs f"

text \<open>What a fragment accounts for beyond its statistics, and what of it counts: a difference against
  an older version of the inode's statistics is void.\<close>

definition owed :: "stat_kind \<Rightarrow> cdir \<Rightarrow> int" where
  "owed s c = stat_of s (fn_accounted_rstat (fnode c)) (accounted_fragstat (fnode c)) -
     stat_of s (fn_rstat (fnode c)) (fragstat (fnode c))"

definition valid_owed :: "stat_kind \<Rightarrow> cdir \<Rightarrow> int" where
  "valid_owed s c =
     (if (if s = NFiles \<or> s = NSubdirs then si_version (accounted_fragstat (fnode c)) = iv_dirstat_version (cd_inode c)
          else si_version (fn_accounted_rstat (fnode c)) = iv_rstat_version (cd_inode c))
      then owed s c else 0)"

lemma stat_diff:
  "rv = iv_rstat_version (cd_inode c) \<Longrightarrow> dv = iv_dirstat_version (cd_inode c) \<Longrightarrow>
   stat_of s (diff_rstat rv c n) (fst (diff_fragstat dv c a)) = stat_of s n (fst a) + valid_owed s c"
  by (cases s; cases a) (auto simp: diff_rstat_def diff_fragstat_def valid_owed_def owed_def nest_info_add_delta_def
      frag_info_add_delta_def Let_def)

lemma owed_fix [simp]: "owed s (fix_fragstats rv dv f) = 0"
  by (cases s) (simp_all add: owed_def fix_fragstats_def Let_def)

lemma owed_give [simp]: "owed s (give_diff rd fd f) = owed s f + stat_of s rd fd"
  by (cases s) (auto simp: owed_def give_diff_def nest_info_add_def frag_info_add_def Let_def)

lemma stat_zero [simp]: "stat_of s nest_info_zero frag_info_zero = 0"
  by (cases s) (simp_all add: nest_info_zero_def frag_info_zero_def)

lemma books_fix [simp]: "books env (fix_fragstats rv dv f) = books env f"
  by (simp add: books_def counts_ok_def stats_ok_def fix_fragstats_def Let_def)

lemma books_give [simp]: "books env (give_diff rd fd f) = books env f"
  by (simp add: books_def counts_ok_def stats_ok_def give_diff_def)

lemma items_fix [simp]: "items (fix_fragstats rv dv f) = items f" "items (give_diff rd fd f) = items f"
  by (simp_all add: fix_fragstats_def give_diff_def Let_def)

lemma valid_fix:
  "rv = iv_rstat_version (cd_inode f) \<Longrightarrow> dv = iv_dirstat_version (cd_inode f) \<Longrightarrow>
   valid_owed s (fix_fragstats rv dv f) = owed s (fix_fragstats rv dv f)"
  "rv = iv_rstat_version (cd_inode f) \<Longrightarrow> dv = iv_dirstat_version (cd_inode f) \<Longrightarrow>
   valid_owed s (give_diff rd fd (fix_fragstats rv dv f)) = owed s (give_diff rd fd (fix_fragstats rv dv f))"
  by (auto simp: valid_owed_def fix_fragstats_def give_diff_def nest_info_add_def frag_info_add_def Let_def)

section \<open>New and finished fragments\<close>

lemma init_fragment_pins_body: "init_fragment_pins c = Some c' \<Longrightarrow> body c' = body c"
  by (auto simp: init_fragment_pins_def bind_eq_Some_conv dest!: get_if_body)

lemma books_empty:
  "items c = [] \<Longrightarrow> num_head_items c = 0 \<Longrightarrow> num_head_null c = 0 \<Longrightarrow> num_snap_items c = 0 \<Longrightarrow> num_snap_null c = 0 \<Longrightarrow>
   fragstat (fnode c) = frag_info_zero \<Longrightarrow> fn_rstat (fnode c) = nest_info_zero \<Longrightarrow> books env c"
  by (simp add: books_def counts_ok_def stats_ok_def tally_def esum_def frag_info_zero_def nest_info_zero_def)

lemma new_subfrag_ok:
  assumes "new_subfrag api now fac replay c p = Some f"
  shows "items f = [] \<and> books env f \<and> cd_frag f = p \<and> cd_inode f = cd_inode c"
proof -
  obtain f0 f2 f3 f6 where s: "cdir_new api now (cd_inode c) p (is_auth c) = Some f0"
    "init_fragment_pins ((state_set (co_state c AND (MASK_STATE_FRAGMENT_KEPT OR STATE_COMPLETE)) f0)
        \<lparr>co_replica_map := co_replica_map c, dir_auth := dir_auth c\<rparr>) = Some f2"
    "set_version (get_version c) f2 = Some f3"
    "set_dir_auth (dir_auth c) (log_call (OnInode (AddDirfrag p))
       (f3\<lparr>pop_me := dirfrag_load_scale api fac (pop_me c), pop_nested := dirfrag_load_scale api fac (pop_nested c),
           pop_auth_subtree := dirfrag_load_scale api fac (pop_auth_subtree c),
           pop_auth_subtree_nested := dirfrag_load_scale api fac (pop_auth_subtree_nested c)\<rparr>)) = Some f6"
    "prepare_new_fragment replay f6 = Some f"
    using assms unfolding new_subfrag_def Let_def bind_eq_Some_conv by blast
  have pops: "body (x\<lparr>pop_me := a, pop_nested := b, pop_auth_subtree := e, pop_auth_subtree_nested := g\<rparr>) = body x" for x a b e g
    by (simp add: body_def)
  have b2: "body f2 = body f0" using init_fragment_pins_body [OF s(2)] by simp
  have b6: "body f = body f3" using prepare_body(2) [OF s(5)] set_dir_auth_body [OF s(4)] by (simp add: pops)
  have n0: "items f0 = []" "fnode f0 = fnode_new" "num_head_items f0 = 0" "num_head_null f0 = 0" "num_snap_items f0 = 0"
    "num_snap_null f0 = 0" "cd_frag f0 = p" "cd_inode f0 = cd_inode c"
    using s(1) by (auto simp: cdir_new_def bind_eq_Some_conv)
  have v3: "f3 = f2\<lparr>projected_version := get_version c, fnode := (fnode f2)\<lparr>fn_version := get_version c\<rparr>\<rparr>"
    using s(3) by (simp add: set_version_def bind_eq_Some_conv)
  have f: "items f = []" "num_head_items f = 0" "num_head_null f = 0" "num_snap_items f = 0" "num_snap_null f = 0"
    "cd_frag f = p" "cd_inode f = cd_inode c" "fragstat (fnode f) = fragstat fnode_new" "fn_rstat (fnode f) = fn_rstat fnode_new"
    using body_fields [OF b6] body_fields [OF b2] n0 v3 by simp_all
  then have "books env f" by (intro books_empty) (simp_all add: fnode_new_def)
  with f show ?thesis by simp
qed

lemma new_subfrags_ok:
  "new_subfrags api now fac replay c ps = Some fs \<Longrightarrow> length fs = length ps \<and>
     (\<forall>f\<in>set fs. items f = [] \<and> books env f \<and> cd_inode f = cd_inode c) \<and> map cd_frag fs = ps"
proof (induction ps arbitrary: fs)
  case (Cons p ps)
  then obtain f gs where "new_subfrag api now fac replay c p = Some f" "new_subfrags api now fac replay c ps = Some gs" "fs = f # gs"
    by (auto simp: bind_eq_Some_conv)
  with Cons.IH [of gs] new_subfrag_ok [of api now fac replay c p f env] show ?case by auto
qed simp

lemma clear_replica_map_body: "clear_replica_map last_put (\<lambda>c. c) c = Some c' \<Longrightarrow> body c' = body c"
  by (auto simp: clear_replica_map_def bind_eq_Some_conv dput_def [symmetric] dest!: dput_body split: if_splits)

lemma mark_clean_body: "mark_clean c = Some c' \<Longrightarrow> body c' = body c"
  by (auto simp: mark_clean_def dest!: dput_body split: if_splits)

lemma release_old_body: "release_old ws replay c = Some (ws', c') \<Longrightarrow> body c' = body c"
  by (auto simp: release_old_def bind_eq_Some_conv dest!: take_waiting_body auth_unpin_body unfreeze_dir_body split: if_splits)

lemma drop_fragment_pins_body: "drop_fragment_pins c = Some c' \<Longrightarrow> body c' = body c"
  by (auto simp: drop_fragment_pins_def bind_eq_Some_conv dest!: clear_replica_map_body mark_clean_body put_if_body split: if_splits)

lemma finish_old_fragment_items:
  assumes "finish_old_fragment ws replay c = Some (ws', c')"
  shows "items c' = items c" "num_head_items c' = 0 \<and> num_head_null c' = 0 \<and> num_snap_items c' = 0 \<and> num_snap_null c' = 0"
    "get_num_ref (-1) c' = bool_int (state_test STATE_STICKY c')" "cd_frag c' = cd_frag c"
proof -
  obtain c1 where s: "release_old ws replay c = Some (ws', c1)"
    "drop_fragment_pins (c1\<lparr>num_head_items := 0, num_head_null := 0, num_snap_items := 0, num_snap_null := 0\<rparr>) = Some c'"
    "get_num_ref (-1) c' = bool_int (state_test STATE_STICKY c')"
    using assms by (auto simp: finish_old_fragment_def bind_eq_Some_conv)
  show "items c' = items c" "num_head_items c' = 0 \<and> num_head_null c' = 0 \<and> num_snap_items c' = 0 \<and> num_snap_null c' = 0"
    "cd_frag c' = cd_frag c"
    using body_fields [OF release_old_body [OF s(1)]] body_fields [OF drop_fragment_pins_body [OF s(2)]] by simp_all
  show "get_num_ref (-1) c' = bool_int (state_test STATE_STICKY c')" by (rule s(3))
qed

section \<open>Split and merge as a whole\<close>

lemma split_ok:
  assumes sp: "split env fa api now bits ws replay c = Some (fs, ws', c')" and ok: "om_ok (items c)"
  shows "length fs = length (fr_split fa bits (cd_frag c))"
    "\<forall>i<length fs. books env (fs ! i) \<and> map_of (items (fs ! i)) = share fa (cd_frag c) i (map_of (items c)) \<and>
       cd_inode (fs ! i) = cd_inode c \<and> cd_frag (fs ! i) = fr_split fa bits (cd_frag c) ! i"
    "items c' = []" "get_num_ref (-1) c' = bool_int (state_test STATE_STICKY c')"
    "\<forall>k dn. map_of (items c) k = Some dn \<longrightarrow> subfrag_index fa (cd_frag c) (dn_name dn) < length fs"
    "(\<Sum>f\<leftarrow>fs. valid_owed s f) = valid_owed s c"
proof -
  let ?frags = "fr_split fa bits (cd_frag c)" and ?rv = "iv_rstat_version (cd_inode c)" and ?dv = "iv_dirstat_version (cd_inode c)"
  let ?rd = "diff_rstat ?rv c nest_info_zero" and ?fd = "fst (diff_fragstat ?dv c (frag_info_zero, False))"
  obtain c1 gs fs1 c2 where s: "prepare_old_fragment replay c = Some c1"
    "new_subfrags api now (1 / 2 ^ bits) replay c1 ?frags = Some gs"
    "repartition env fa (map fst (items c1)) gs c1 = Some (fs1, c2)" "fs1 \<noteq> []"
    "fs = (map (fix_fragstats ?rv ?dv) fs1)[0 := give_diff ?rd ?fd (hd (map (fix_fragstats ?rv ?dv) fs1))]"
    "finish_old_fragment ws replay c2 = Some (ws', c')"
    using sp by (auto simp: split_def Let_def bind_eq_Some_conv)
  note b1 = body_fields [OF prepare_body(1) [OF s(1)]]
  have g: "length gs = length ?frags" "\<forall>f\<in>set gs. items f = [] \<and> books env f \<and> cd_inode f = cd_inode c" "map cd_frag gs = ?frags"
    using new_subfrags_ok [OF s(2), of env] b1 by auto
  have dk: "distinct (map fst (items c1))" "om_ok (items c1)" using ok b1 om_ok_distinct by auto
  have r: "length fs1 = length gs \<and> (\<forall>f\<in>set fs1. books env f) \<and> items c2 = fold om_erase (map fst (items c1)) (items c1) \<and> fnode c2 = fnode c1 \<and>
    (\<forall>i<length gs. map_of (items (fs1 ! i)) = map_of (items (gs ! i)) ++ share fa (cd_frag c1) i (map_of (items c1) |` set (map fst (items c1)))) \<and>
    (\<forall>k\<in>set (map fst (items c1)). \<exists>dn. map_of (items c1) k = Some dn \<and> subfrag_index fa (cd_frag c1) (dn_name dn) < length gs) \<and>
    map side fs1 = map side gs"
    by (rule repartition_ok [OF s(3) _ dk(2,1)]) (use g in auto)
  have full: "map_of (items c) |` (fst ` set (items c)) = map_of (items c)"
    by (simp add: restrict_map_def fun_eq_iff) (metis map_of_eq_None_iff)
  have sd: "side (fs1 ! i) = side (gs ! i)" if "i < length gs" for i
    using r that by (metis nth_map)
  have inode: "cd_inode (fs1 ! i) = cd_inode c \<and> cd_frag (fs1 ! i) = ?frags ! i" if "i < length gs" for i
    using sd [OF that] g that nth_map [OF that, of cd_frag] by (auto simp: side_def)
  obtain x xs where x: "fs1 = x # xs" using s(4) by (cases fs1) auto
  have fs: "fs = give_diff ?rd ?fd (fix_fragstats ?rv ?dv x) # map (fix_fragstats ?rv ?dv) xs" using s(5) x by simp
  have inx: "cd_inode f = cd_inode c" if "f \<in> set fs1" for f using that inode r by (metis in_set_conv_nth)
  show "length fs = length ?frags" using fs x r g by simp
  show "\<forall>i<length fs. books env (fs ! i) \<and> map_of (items (fs ! i)) = share fa (cd_frag c) i (map_of (items c)) \<and>
       cd_inode (fs ! i) = cd_inode c \<and> cd_frag (fs ! i) = ?frags ! i"
  proof (intro allI impI)
    fix i assume i: "i < length fs"
    then have l: "i < length gs" "i < length fs1" using fs x r g by auto
    have e: "fs ! i = (if i = 0 then give_diff ?rd ?fd (fix_fragstats ?rv ?dv (fs1 ! i)) else fix_fragstats ?rv ?dv (fs1 ! i))"
      using fs x l by (cases i) auto
    have keep: "cd_inode (fix_fragstats a b y) = cd_inode y" "cd_frag (fix_fragstats a b y) = cd_frag y"
      "cd_inode (give_diff u v y) = cd_inode y" "cd_frag (give_diff u v y) = cd_frag y" for a b u v y
      by (simp_all add: fix_fragstats_def give_diff_def Let_def)
    have mi: "map_of (items (fs1 ! i)) = share fa (cd_frag c) i (map_of (items c))"
      using r l g b1 full by (auto simp: map_add_def fun_eq_iff split: option.splits)
    have "books env (fs1 ! i)" using r l by auto
    with e inode [OF l(1)] mi show "books env (fs ! i) \<and> map_of (items (fs ! i)) = share fa (cd_frag c) i (map_of (items c)) \<and>
       cd_inode (fs ! i) = cd_inode c \<and> cd_frag (fs ! i) = ?frags ! i" by (cases "i = 0") (simp_all add: keep)
  qed
  show "items c' = []" using finish_old_fragment_items(1) [OF s(6)] r by (simp add: fold_erase_own)
  show "get_num_ref (-1) c' = bool_int (state_test STATE_STICKY c')" by (rule finish_old_fragment_items(3) [OF s(6)])
  show "\<forall>k dn. map_of (items c) k = Some dn \<longrightarrow> subfrag_index fa (cd_frag c) (dn_name dn) < length fs"
  proof (intro allI impI)
    fix k dn assume m: "map_of (items c) k = Some dn"
    then have "k \<in> set (map fst (items c1))" using b1(1) by (auto dest: map_of_SomeD intro: rev_image_eqI)
    then obtain e where "map_of (items c1) k = Some e" "subfrag_index fa (cd_frag c1) (dn_name e) < length gs" using r by blast
    moreover have "length fs = length gs" using fs x r by auto
    ultimately show "subfrag_index fa (cd_frag c) (dn_name dn) < length fs" using m b1(1,7) by simp
  qed
  have "valid_owed s (fix_fragstats ?rv ?dv y) = 0" if "y \<in> set xs" for y
    using inx [of y] that x by (subst valid_fix(1)) simp_all
  then have "(\<Sum>f\<leftarrow>map (fix_fragstats ?rv ?dv) xs. valid_owed s f) = 0"
    by (simp add: comp_def cong: map_cong)
  moreover have "valid_owed s (give_diff ?rd ?fd (fix_fragstats ?rv ?dv x)) = valid_owed s c"
    using valid_fix(2) [of ?rv x ?dv s ?rd ?fd] inx [of x] x stat_diff [of ?rv c ?dv s nest_info_zero "(frag_info_zero, False)"] by simp
  ultimately show "(\<Sum>f\<leftarrow>fs. valid_owed s f) = valid_owed s c" by (simp add: fs)
qed

lemma books_version: "books env (c\<lparr>projected_version := v, fnode := (fnode c)\<lparr>fn_version := v\<rparr>\<rparr>) = books env c"
  by (simp add: books_def counts_ok_def stats_ok_def)

lemma valid_owed_body: "body c' = body c \<Longrightarrow> valid_owed s c' = valid_owed s c"
  using body_fields [of c' c] by (simp add: valid_owed_def owed_def)

lemma merge_subs_ok:
  assumes "merge_subs env replay rv dv ds rd fd ws c = Some (rd', fd', ws', gone, c')"
    "books env c" "\<forall>d\<in>set ds. om_ok (items d) \<and> cd_inode d = iv" "rv = iv_rstat_version iv" "dv = iv_dirstat_version iv"
    "distinct (map fst (items c) @ map fst (concat (map items ds)))"
  shows "books env c' \<and> map_of (items c') = map_of (items c) ++ map_of (concat (map items ds)) \<and>
    stat_of s rd' fd' = stat_of s rd (fst fd) + (\<Sum>d\<leftarrow>ds. valid_owed s d) \<and> cd_inode c' = cd_inode c \<and>
    length gone = length ds \<and> (\<forall>d\<in>set gone. items d = [] \<and> get_num_ref (-1) d = bool_int (state_test STATE_STICKY d))"
  using assms
proof (induction ds arbitrary: rd fd ws c gone)
  case Nil
  then show ?case by simp
next
  case (Cons d ds)
  let ?rd = "diff_rstat rv d rd" and ?fd = "diff_fragstat dv d fd"
  obtain d1 c1 d2 c3 ws1 d3 gone1 where s: "prepare_old_fragment replay d = Some d1"
    "steal_all env (map fst (items d1)) c d1 = Some (c1, d2)"
    "(let c2 = c1\<lparr>co_replica_map := merge_replicas (co_replica_map d2) (co_replica_map c1)\<rparr>
      in if get_version d2 > get_version c2 then set_version (get_version d2) c2 else Some c2) = Some c3"
    "finish_old_fragment ws replay d2 = Some (ws1, d3)"
    "merge_subs env replay rv dv ds ?rd ?fd ws1
       (log_call (OnInode (CloseDirfrag (cd_frag d3)))
         ((state_set (co_state d2 AND MASK_STATE_FRAGMENT_KEPT) c3)\<lparr>dir_auth := dir_auth d2\<rparr>)) = Some (rd', fd', ws', gone1, c')"
    "gone = d3 # gone1"
    using Cons.prems(1) by (auto simp: Let_def bind_eq_Some_conv)
  let ?c5 = "log_call (OnInode (CloseDirfrag (cd_frag d3))) ((state_set (co_state d2 AND MASK_STATE_FRAGMENT_KEPT) c3)\<lparr>dir_auth := dir_auth d2\<rparr>)"
  note b1 = body_fields [OF prepare_body(1) [OF s(1)]]
  have okd: "om_ok (items d)" "om_ok (items d1)" "cd_inode d = iv" using Cons.prems(3) b1 by auto
  have fresh: "\<forall>k\<in>set (map fst (items d1)). map_of (items c) k = None"
    using Cons.prems(6) b1 by (auto simp: map_of_eq_None_iff)
  have st: "books env c1 \<and> items d2 = fold om_erase (map fst (items d1)) (items d1) \<and>
    map_of (items c1) = map_of (items c) ++ (map_of (items d1) |` set (map fst (items d1))) \<and> set (map fst (items d1)) \<subseteq> dom (map_of (items d1)) \<and>
    cd_frag c1 = cd_frag c \<and> cd_inode c1 = cd_inode c \<and> projected_fnode c1 = projected_fnode c \<and>
    fn_accounted_rstat (fnode c1) = fn_accounted_rstat (fnode c) \<and>
    accounted_fragstat (fnode c1) = accounted_fragstat (fnode c) \<and> fn_version (fnode c1) = fn_version (fnode c) \<and>
    fnode d2 = fnode d1 \<and> cd_frag d2 = cd_frag d1"
    by (rule steal_all_ok [OF s(2) Cons.prems(2) okd(2) om_ok_distinct [OF okd(2)] fresh])
  have full: "map_of (items d) |` (fst ` set (items d)) = map_of (items d)"
    by (simp add: restrict_map_def fun_eq_iff) (metis map_of_eq_None_iff)
  have m1: "map_of (items c1) = map_of (items c) ++ map_of (items d)" using st b1 full by simp
  have d3: "items d3 = []" "get_num_ref (-1) d3 = bool_int (state_test STATE_STICKY d3)"
    using finish_old_fragment_items(1,3) [OF s(4)] st by (simp_all add: fold_erase_own)
  let ?r = "c1\<lparr>co_replica_map := merge_replicas (co_replica_map d2) (co_replica_map c1)\<rparr>"
  have c3: "c3 = ?r \<or> c3 = ?r\<lparr>projected_version := get_version d2, fnode := (fnode ?r)\<lparr>fn_version := get_version d2\<rparr>\<rparr>"
    using s(3) by (auto simp: Let_def set_version_def bind_eq_Some_conv split: if_splits)
  have b3: "books env c3" "items c3 = items c1" "cd_inode c3 = cd_inode c1"
    using c3 st books_body [of ?r c1 env] books_version [where c = ?r and env = env] by auto
  have b5: "books env ?c5" "items ?c5 = items c1" "cd_inode ?c5 = cd_inode c"
    using b3 st books_body [of ?c5 c3 env] body_fields(1,8) [of ?c5 c3] by simp_all
  have keys: "set (map fst (items ?c5)) = set (map fst (items c)) \<union> set (map fst (items d))"
  proof -
    have "dom (map_of (items c1)) = dom (map_of (items c)) \<union> dom (map_of (items d))" using m1 by auto
    then show ?thesis using b5(2) by (simp add: dom_map_of_conv_image_fst)
  qed
  have "distinct (map fst (items ?c5))" using b5(1) om_ok_distinct by (auto simp: books_def)
  moreover have "distinct (map fst (concat (map items ds)))"
    "set (map fst (items c)) \<inter> set (map fst (concat (map items ds))) = {}"
    "set (map fst (items d)) \<inter> set (map fst (concat (map items ds))) = {}"
    using Cons.prems(6) unfolding list.map concat.simps map_append distinct_append set_append by blast+
  ultimately have dist: "distinct (map fst (items ?c5) @ map fst (concat (map items ds)))"
    unfolding distinct_append keys by blast
  have IH: "books env c' \<and> map_of (items c') = map_of (items ?c5) ++ map_of (concat (map items ds)) \<and>
    stat_of s rd' fd' = stat_of s ?rd (fst ?fd) + (\<Sum>d\<leftarrow>ds. valid_owed s d) \<and> cd_inode c' = cd_inode ?c5 \<and>
    length gone1 = length ds \<and> (\<forall>d\<in>set gone1. items d = [] \<and> get_num_ref (-1) d = bool_int (state_test STATE_STICKY d))"
    by (rule Cons.IH [OF s(5) b5(1) _ Cons.prems(4,5) dist]) (use Cons.prems(3) in simp)
  have "map_of (items c) ++ map_of (items d) ++ map_of (concat (map items ds)) = map_of (items c) ++ map_of (items d @ concat (map items ds))"
  proof -
    have "set (map fst (items d)) \<inter> set (map fst (concat (map items ds))) = {}" using Cons.prems(6) by auto
    then have "map_of (items d) ++ map_of (concat (map items ds)) = map_of (concat (map items ds)) ++ map_of (items d)"
      by (intro map_add_comm) (simp add: dom_map_of_conv_image_fst)
    then show ?thesis unfolding map_of_append by (metis map_add_assoc)
  qed
  moreover have "stat_of s ?rd (fst ?fd) = stat_of s rd (fst fd) + valid_owed s d"
    using stat_diff [of rv d dv s rd fd] Cons.prems(4,5) okd(3) by simp
  ultimately show ?case using IH m1 b5 d3 s(6) by simp
qed

lemma merge_ok:
  assumes "merge env subs ws replay c = Some (ws', gone, c')" "books env c" "items c = []"
    "\<forall>d\<in>set subs. om_ok (items d) \<and> cd_inode d = cd_inode c" "distinct (map fst (concat (map items subs)))"
  shows "books env c'" "map_of (items c') = map_of (concat (map items subs))"
    "valid_owed s c' = (\<Sum>d\<leftarrow>subs. valid_owed s d)" "length gone = length subs"
    "\<forall>d\<in>set gone. items d = [] \<and> get_num_ref (-1) d = bool_int (state_test STATE_STICKY d)"
proof -
  let ?rv = "iv_rstat_version (cd_inode c)" and ?dv = "iv_dirstat_version (cd_inode c)"
  obtain c1 c2 rd fd c3 where s: "set_dir_auth (dir_auth (hd subs)) c = Some c1" "prepare_new_fragment replay c1 = Some c2"
    "merge_subs env replay (iv_rstat_version (cd_inode c2)) (iv_dirstat_version (cd_inode c2)) subs nest_info_zero
       (frag_info_zero, False) ws c2 = Some (rd, fd, ws', gone, c3)"
    "init_fragment_pins (give_diff rd fd (fix_fragstats (iv_rstat_version (cd_inode c2)) (iv_dirstat_version (cd_inode c2))
       (if is_auth c3 \<and> \<not> replay then mark_complete c3 else c3))) = Some c'"
    using assms(1) by (auto simp: merge_def Let_def bind_eq_Some_conv)
  have b2: "body c2 = body c" using set_dir_auth_body [OF s(1)] prepare_body(2) [OF s(2)] by simp
  note f2 = body_fields [OF b2]
  have bk: "books env c2" using books_body [OF b2] assms(2) by simp
  have m: "books env c3 \<and> map_of (items c3) = map_of (items c2) ++ map_of (concat (map items subs)) \<and>
    stat_of s rd fd = stat_of s nest_info_zero (fst (frag_info_zero, False)) + (\<Sum>d\<leftarrow>subs. valid_owed s d) \<and> cd_inode c3 = cd_inode c2 \<and>
    length gone = length subs \<and> (\<forall>d\<in>set gone. items d = [] \<and> get_num_ref (-1) d = bool_int (state_test STATE_STICKY d))"
    by (rule merge_subs_ok [OF s(3) bk, where iv = "cd_inode c"]) (use assms f2 in auto)
  let ?c4 = "if is_auth c3 \<and> \<not> replay then mark_complete c3 else c3"
  have b4: "body ?c4 = body c3" by (simp add: mark_complete_def remove_bloom_def)
  note f4 = body_fields [OF b4]
  let ?c5 = "give_diff rd fd (fix_fragstats (iv_rstat_version (cd_inode c2)) (iv_dirstat_version (cd_inode c2)) ?c4)"
  have b5: "body c' = body ?c5" by (rule init_fragment_pins_body [OF s(4)])
  show "books env c'" using books_body [OF b5] books_body [OF b4] m by simp
  show "map_of (items c') = map_of (concat (map items subs))"
    using body_fields(1) [OF b5] f4(1) m f2(1) assms(3) by simp
  have "cd_inode ?c4 = cd_inode c2" using f4 m by simp
  then have "valid_owed s ?c5 = (\<Sum>d\<leftarrow>subs. valid_owed s d)" using valid_fix(2) [of _ ?c4] m by simp
  then show "valid_owed s c' = (\<Sum>d\<leftarrow>subs. valid_owed s d)" using valid_owed_body [OF b5] by simp
  show "length gone = length subs" "\<forall>d\<in>set gone. items d = [] \<and> get_num_ref (-1) d = bool_int (state_test STATE_STICKY d)"
    using m by auto
qed

section \<open>Split, then merge\<close>

lemma distinct_concat_tagged:
  "(\<forall>i<length xss. distinct (xss ! i) \<and> (\<forall>x\<in>set (xss ! i). tag x = i + off)) \<Longrightarrow> distinct (concat xss)"
proof (induction xss arbitrary: off)
  case (Cons xs xss)
  have hd: "distinct xs" "\<forall>x\<in>set xs. tag x = off" using Cons.prems [rule_format, of 0] by auto
  have tl: "distinct (xss ! i) \<and> (\<forall>x\<in>set (xss ! i). tag x = i + Suc off)" if "i < length xss" for i
    using Cons.prems [rule_format, of "Suc i"] that by auto
  then have "distinct (concat xss)" using Cons.IH [of "Suc off"] by blast
  moreover have "off < tag x" if "x \<in> set (concat xss)" for x
    using that tl by (auto simp: in_set_conv_nth [of _ xss] set_concat)
  ultimately show ?case using hd by fastforce
qed simp

lemma om_ext:
  assumes "om_ok m" "om_ok m'" "map_of m = map_of m'"
  shows "m = m'"
proof -
  have d: "distinct (map fst m)" "distinct (map fst m')" using assms om_ok_distinct by auto
  have "p \<in> set m \<longleftrightarrow> p \<in> set m'" for p
    using map_of_eq_Some_iff [OF d(1), of "fst p" "snd p"] map_of_eq_Some_iff [OF d(2), of "fst p" "snd p"] assms(3) by simp
  then have e: "set m = set m'" by blast
  have "inj_on fst (set m \<union> set m')" using d(1) e by (simp add: distinct_map)
  then show ?thesis
    by (rule map_sorted_distinct_set_unique [OF _ om_ok_sorted [OF assms(1)] d(1) om_ok_sorted [OF assms(2)] d(2) e])
qed

lemma shares_union:
  assumes sh: "\<forall>i<length fs. om_ok (items (fs ! i)) \<and> map_of (items (fs ! i)) = share fa frag i m"
    and ix: "\<forall>k dn. m k = Some dn \<longrightarrow> subfrag_index fa frag (dn_name dn) < length fs"
  shows "distinct (map fst (concat (map items fs)))" "map_of (concat (map items fs)) = m"
proof -
  let ?tag = "\<lambda>k. case m k of Some dn \<Rightarrow> subfrag_index fa frag (dn_name dn) | None \<Rightarrow> 0"
  have mem: "(k, v) \<in> set (items (fs ! i)) \<longleftrightarrow> m k = Some v \<and> subfrag_index fa frag (dn_name v) = i" if "i < length fs" for i k v
  proof -
    have "(k, v) \<in> set (items (fs ! i)) \<longleftrightarrow> map_of (items (fs ! i)) k = Some v"
      using sh that map_of_eq_Some_iff [OF om_ok_distinct, of "items (fs ! i)"] by simp
    then show ?thesis using sh that by (auto simp: share_def split: option.splits if_splits)
  qed
  have "distinct (concat (map (map fst \<circ> items) fs))"
  proof (rule distinct_concat_tagged [where tag = ?tag and off = 0], intro allI impI conjI ballI)
    fix i assume "i < length (map (map fst \<circ> items) fs)"
    then have i: "i < length fs" by simp
    then show "distinct (map (map fst \<circ> items) fs ! i)" using sh om_ok_distinct [of "items (fs ! i)"] by simp
    fix k assume "k \<in> set (map (map fst \<circ> items) fs ! i)"
    then obtain v where "(k, v) \<in> set (items (fs ! i))" using i by auto
    then show "?tag k = i + 0" using mem [OF i] by simp
  qed
  then show d: "distinct (map fst (concat (map items fs)))" by (simp add: map_concat comp_def)
  have "map_of (concat (map items fs)) k = Some v \<longleftrightarrow> m k = Some v" for k v
  proof -
    have "map_of (concat (map items fs)) k = Some v \<longleftrightarrow> (k, v) \<in> set (concat (map items fs))" using d by simp
    also have "\<dots> \<longleftrightarrow> (\<exists>i<length fs. (k, v) \<in> set (items (fs ! i)))" by simp (metis in_set_conv_nth)
    also have "\<dots> \<longleftrightarrow> m k = Some v" using mem ix by blast
    finally show ?thesis .
  qed
  then show "map_of (concat (map items fs)) = m" by (metis (no_types) ext not_Some_eq)
qed

lemma cdir_new_books: "cdir_new api now iv fg auth = Some n \<Longrightarrow> items n = [] \<and> books env n \<and> cd_inode n = iv"
  by (auto simp: cdir_new_def bind_eq_Some_conv fnode_new_def intro!: books_empty)

section \<open>Properties\<close>

text \<open>A fragment with two entries, frozen and complete, and a fragment tree that divides names by
  their first letter.\<close>

definition plain_frags :: frag_api where
  "plain_frags = \<lparr>fr_split = (\<lambda>b f. map of_nat [0..<2 ^ b]), fr_value = (\<lambda>f. f),
     fr_mask = (\<lambda>f. if f = 256 then 0 else 1), fr_mask_shift = (\<lambda>f. 0),
     pick_dirfrag = (\<lambda>n. if hd n = CHR ''a'' then 0 else 1)\<rparr>"

definition frag_example :: "cdir option" where
  "frag_example =
     do { c \<leftarrow> cdir_new plain_api 0 plain_inode 256 True;
          (_, c1) \<leftarrow> add_remote_dentry plain_env ''b'' 7 DT_DIR 2 (- 2) c;
          (_, c2) \<leftarrow> add_remote_dentry plain_env ''a'' 9 8 2 (- 2) c1;
          (_, c3) \<leftarrow> freeze_dir [] c2;
          Some (mark_complete c3) }"

definition split_example :: "(cdir list \<times> context_t list \<times> cdir) option" where
  "split_example = do { c \<leftarrow> frag_example; split plain_env plain_frags plain_api 0 1 [] False c }"

definition merge_example :: "(context_t list \<times> cdir list \<times> cdir) option" where
  "merge_example =
     do { (fs, ws, c) \<leftarrow> split_example;
          n \<leftarrow> cdir_new plain_api 0 plain_inode 256 True;
          merge plain_env fs ws False n }"

lemma split_example_eval:
  "(case split_example of None \<Rightarrow> False
    | Some (fs, ws, c) \<Rightarrow> map (\<lambda>f. map fst (items f)) fs = [[DKey (- 2) ''a''], [DKey (- 2) ''b'']])"
  by code_simp

lemma merge_example_eval:
  "(case merge_example of None \<Rightarrow> False | Some (ws, gone, m) \<Rightarrow> map fst (items m) = [DKey (- 2) ''a'', DKey (- 2) ''b''])"
  by code_simp

text \<open>C7: a split hands every entry of a fragment to exactly one new fragment, the one its name is
  picked for, and leaves none behind; each new fragment's four counters and its statistics are the
  sums over the entries it received, so its number of head entries is its number of files and
  subdirectories; and the old fragment ends with no reference but the sticky one.\<close>

theorem split_partitions:
  assumes "split env fa api now bits ws replay c = Some (fs, ws', c')" "om_ok (items c)"
  shows "length fs = length (fr_split fa bits (cd_frag c)) \<and>
    (\<forall>i<length fs. map_of (items (fs ! i)) = share fa (cd_frag c) i (map_of (items c)) \<and>
       counts_ok env (fs ! i) \<and> stats_ok env (fs ! i) \<and>
       of_int (nfiles (fragstat (fnode (fs ! i))) + nsubdirs (fragstat (fnode (fs ! i)))) = num_head_items (fs ! i)) \<and>
    (\<forall>k dn. map_of (items c) k = Some dn \<longrightarrow> subfrag_index fa (cd_frag c) (dn_name dn) < length fs) \<and>
    items c' = [] \<and> get_num_ref (-1) c' = bool_int (state_test STATE_STICKY c')"
proof -
  note r = split_ok [OF assms]
  have heads: "of_int (esum (e_files env) m + esum (e_subdirs env) m) = tally (head_item env) m" for m
    by (induction m) (auto simp: esum_def tally_def e_files_def bool_int_def ind_def algebra_simps)
  have "of_int (nfiles (fragstat (fnode f)) + nsubdirs (fragstat (fnode f))) = num_head_items f" if "books env f" for f
    using that heads [of "items f"] by (simp add: books_def counts_ok_def stats_ok_def)
  then show ?thesis using r(1,3,4,5) r(2) by (auto simp: books_def)
qed

lemma case_some3E:
  assumes "case x of None \<Rightarrow> False | Some (a, b, c) \<Rightarrow> P a b c"
  obtains a b c where "x = Some (a, b, c)" "P a b c"
  using assms by (auto split: option.splits)

lemma split_example_some:
  obtains c fs ws c' where "frag_example = Some c" "split plain_env plain_frags plain_api 0 1 [] False c = Some (fs, ws, c')"
    "map (\<lambda>f. map fst (items f)) fs = [[DKey (- 2) ''a''], [DKey (- 2) ''b'']]" "om_ok (items c)"
proof -
  have "case frag_example of None \<Rightarrow> False | Some c \<Rightarrow> map fst (items c) = [DKey (- 2) ''a'', DKey (- 2) ''b'']" by code_simp
  then obtain c where c: "frag_example = Some c" "map fst (items c) = [DKey (- 2) ''a'', DKey (- 2) ''b'']"
    by (auto split: option.splits)
  have "DKey (- 2) ''a'' < DKey (- 2) ''b''" by code_simp
  with c(2) have "om_ok (items c)" by simp
  moreover have "case split plain_env plain_frags plain_api 0 1 [] False c of None \<Rightarrow> False
      | Some (fs, ws, c') \<Rightarrow> map (\<lambda>f. map fst (items f)) fs = [[DKey (- 2) ''a''], [DKey (- 2) ''b'']]"
    using split_example_eval unfolding split_example_def c(1) bind.bind_lunit .
  then obtain fs ws c' where "split plain_env plain_frags plain_api 0 1 [] False c = Some (fs, ws, c')"
    "map (\<lambda>f. map fst (items f)) fs = [[DKey (- 2) ''a''], [DKey (- 2) ''b'']]"
    by (rule case_some3E)
  ultimately show thesis by (intro that [OF c(1)])
qed

theorem split_partitions_witness:
  "\<exists>c fs ws c'. frag_example = Some c \<and> split plain_env plain_frags plain_api 0 1 [] False c = Some (fs, ws, c') \<and>
     map (\<lambda>f. map fst (items f)) fs = [[DKey (- 2) ''a''], [DKey (- 2) ''b'']] \<and> items c' = [] \<and> counts_ok plain_env (fs ! 1)"
proof -
  obtain c fs ws c' where e: "frag_example = Some c" "split plain_env plain_frags plain_api 0 1 [] False c = Some (fs, ws, c')"
    "map (\<lambda>f. map fst (items f)) fs = [[DKey (- 2) ''a''], [DKey (- 2) ''b'']]" "om_ok (items c)" by (rule split_example_some)
  have "length fs = 2" using arg_cong [OF e(3), of length] by simp
  then have "items c' = []" "counts_ok plain_env (fs ! 1)" using split_partitions [OF e(2,4)] by simp_all
  then show ?thesis by (intro exI conjI) (rule e(1-3) | assumption)+
qed

text \<open>C8: a split neither loses nor invents accounting: what the new fragments account for beyond
  their statistics adds up, for every statistic, to what the old fragment did, as far as that
  difference was still valid against the inode's version.\<close>

theorem split_conserves_owed:
  assumes "split env fa api now bits ws replay c = Some (fs, ws', c')" "om_ok (items c)"
  shows "(\<Sum>f\<leftarrow>fs. valid_owed s f) = valid_owed s c"
  by (rule split_ok(6) [OF assms])

theorem split_conserves_owed_witness:
  "\<exists>c fs ws c'. frag_example = Some c \<and> split plain_env plain_frags plain_api 0 1 [] False c = Some (fs, ws, c') \<and>
     valid_owed NFiles c = 0 \<and> (\<Sum>f\<leftarrow>fs. valid_owed NFiles f) = 0"
proof -
  obtain c fs ws c' where e: "frag_example = Some c" "split plain_env plain_frags plain_api 0 1 [] False c = Some (fs, ws, c')"
    "map (\<lambda>f. map fst (items f)) fs = [[DKey (- 2) ''a''], [DKey (- 2) ''b'']]" "om_ok (items c)" by (rule split_example_some)
  have "case frag_example of None \<Rightarrow> False | Some c \<Rightarrow> valid_owed NFiles c = 0" by code_simp
  then have z: "valid_owed NFiles c = 0" unfolding e(1) option.case .
  show ?thesis
    by (rule exI [of _ c], rule exI [of _ fs], rule exI [of _ ws], rule exI [of _ c'])
      (intro conjI e(1,2) z split_conserves_owed [OF e(2,4), of NFiles, unfolded z])
qed

text \<open>C9: merging the fragments of a split into a new fragment of the same inode gives back exactly
  the entries of the original, in the same order, with balanced counters and statistics and with the
  original's outstanding accounting; each merged fragment ends empty.\<close>

theorem merge_of_split:
  assumes "split env fa api now bits ws replay c = Some (fs, ws', c')" "om_ok (items c)"
    "cdir_new api' now' (cd_inode c) fg auth = Some n" "merge env fs ws'' replay' n = Some (ws3, gone, m)"
  shows "items m = items c \<and> counts_ok env m \<and> stats_ok env m \<and> valid_owed s m = valid_owed s c \<and>
    length gone = length fs \<and> (\<forall>d\<in>set gone. items d = [])"
proof -
  note r = split_ok [OF assms(1,2)]
  have n: "items n = []" "books env n" "cd_inode n = cd_inode c" using cdir_new_books [OF assms(3)] by auto
  have sh: "\<forall>i<length fs. om_ok (items (fs ! i)) \<and> map_of (items (fs ! i)) = share fa (cd_frag c) i (map_of (items c))"
    using r(2) by (simp add: books_def)
  note u = shares_union [OF sh r(5)]
  have subs: "\<forall>d\<in>set fs. om_ok (items d) \<and> cd_inode d = cd_inode n"
    using r(2) n(3) by (metis (no_types, lifting) books_def in_set_conv_nth)
  note m = merge_ok [OF assms(4) n(2,1) subs u(1)]
  have "om_ok (items m)" using m(1) by (simp add: books_def)
  then have "items m = items c" using assms(2) m(2) u(2) by (intro om_ext) simp_all
  with m r(6) show ?thesis by (auto simp: books_def)
qed

theorem merge_of_split_witness:
  "\<exists>c fs ws c' n ws3 gone m. frag_example = Some c \<and> split plain_env plain_frags plain_api 0 1 [] False c = Some (fs, ws, c') \<and>
     merge plain_env fs ws False n = Some (ws3, gone, m) \<and> items m = items c"
proof -
  obtain c fs ws c' where e: "frag_example = Some c" "split plain_env plain_frags plain_api 0 1 [] False c = Some (fs, ws, c')"
    "map (\<lambda>f. map fst (items f)) fs = [[DKey (- 2) ''a''], [DKey (- 2) ''b'']]" "om_ok (items c)" by (rule split_example_some)
  have "case frag_example of None \<Rightarrow> False | Some c \<Rightarrow> cd_inode c = plain_inode" by code_simp
  then have i: "cd_inode c = plain_inode" unfolding e(1) option.case .
  have "merge_example \<noteq> None" by (rule notI) (use merge_example_eval in \<open>simp only: option.case\<close>)
  then obtain n ws3 gone m where n: "cdir_new plain_api 0 plain_inode 256 True = Some n" "merge plain_env fs ws False n = Some (ws3, gone, m)"
    unfolding merge_example_def split_example_def e(1) bind.bind_lunit e(2) prod.case by (auto simp: bind_eq_Some_conv)
  have "items m = items c" using merge_of_split [OF e(2,4) n(1) [folded i] n(2)] by blast
  then show ?thesis by (intro exI conjI) (rule e(1,2) n(2) | assumption)+
qed

end
