(* ===== verification/CDir_Commit.thy ===== *)
theory CDir_Commit
  imports CDir_Frame
begin

text \<open>
  Reading a fragment from the object store and writing it back. A write is a sequence of operations
  on the object, each below a size limit but for its last entry, and the header that makes the
  version durable goes into the last of them. Completions are operations of their own: between the
  start of a fetch or commit and its completion the directory can change.

  \<open>disk_env\<close> holds what is read of the objects outside the sources: the snap realm, the state of the
  cache, the sizes of encoded entries, and what \<^verbatim>\<open>CInode\<close> does to itself.
\<close>

record disk_env =
  de_past_parents_open :: bool
  de_last_destroyed :: snapid_t
  de_snaps :: "snapid_t list"
  de_stray :: bool
  de_rejoin :: bool
  de_max_write :: nat
  de_size :: "disk_field list \<Rightarrow> nat"
  de_ci_mark_clean :: "cinode \<Rightarrow> cinode"
  de_purge_stale :: "snapid_t list \<Rightarrow> cinode \<Rightarrow> cinode"
  de_have_inode :: "inodeno_t \<Rightarrow> snapid_t \<Rightarrow> bool"
  de_new_inode :: "cinode \<Rightarrow> snapid_t \<Rightarrow> snapid_t \<Rightarrow> cinode"
  de_reload_inode :: "cinode \<Rightarrow> snapid_t \<Rightarrow> cinode \<Rightarrow> cinode"
  de_remote_undef :: "inodeno_t \<Rightarrow> bool"
  de_dn_STRAY :: u32

definition ENOENT :: int where "ENOENT = 2"
definition ENODATA :: int where "ENODATA = 61"

section \<open>Fetch\<close>

definition tmap_fetch :: "string \<Rightarrow> cdir \<Rightarrow> cdir" where
  "tmap_fetch want_dn c = log_call (OnServer (TmapFetch want_dn)) c"

definition omap_fetch :: "string \<Rightarrow> cdir \<Rightarrow> cdir" where
  "omap_fetch want_dn c = log_call (OnServer (OmapFetch want_dn)) c"

definition fetch :: "dir_view list \<Rightarrow> context_t option \<Rightarrow> string \<Rightarrow> bool \<Rightarrow> cdir \<Rightarrow> cdir option" where
  "fetch up ctx want_dn ignore_authpinnability c =
     do { assert_that (is_auth c);
          assert_that (\<not> is_complete c);
          if \<not> can_auth_pin up c \<and> \<not> ignore_authpinnability then
            (case ctx of Some x \<Rightarrow> add_waiter WAIT_UNFREEZE x c | None \<Rightarrow> Some c)
          else if iv_nlink (cd_inode c) = 0 \<and> \<not> iv_snaprealm (cd_inode c) then
            do { c1 \<leftarrow> (if get_version c = 0 then set_version 1 c else Some c);
                 let c2 = mark_complete c1;
                 Some (case ctx of Some x \<Rightarrow> log_call (OnServer (QueueWaiters [x])) c2 | None \<Rightarrow> c2) }
          else
            do { c1 \<leftarrow> (case ctx of Some x \<Rightarrow> add_waiter WAIT_COMPLETE x c | None \<Rightarrow> Some c);
                 if state_test STATE_FETCHING c1 then Some c1
                 else do { c2 \<leftarrow> auth_pin c1; Some (omap_fetch want_dn (state_set STATE_FETCHING c2)) } } }"

text \<open>Which snapshots stale entries are recognised by, if any.\<close>

definition purge_snaps :: "disk_env \<Rightarrow> cdir \<Rightarrow> snapid_t list option" where
  "purge_snaps de c =
     (if \<not> de_past_parents_open de then None
      else if snap_purged_thru (fnode c) < de_last_destroyed de then Some (de_snaps de)
      else None)"

definition is_stale :: "dentry_env \<Rightarrow> snapid_t list option \<Rightarrow> snapid_t \<Rightarrow> snapid_t \<Rightarrow> bool" where
  "is_stale env snaps fst' lst =
     (case snaps of
        None \<Rightarrow> False
      | Some ss \<Rightarrow> lst \<noteq> nosnap env \<and> (case dropWhile (\<lambda>s. s < fst') ss of [] \<Rightarrow> True | s # _ \<Rightarrow> s > lst))"

text \<open>The entry's own part of \<^verbatim>\<open>_omap_fetched\<close>: what a link or an inode on disk adds. \<open>Inl\<close> is the
  \<^verbatim>\<open>continue\<close> that skips the rest of the iteration, \<open>Inr\<close> goes on with the entry at hand.\<close>

type_synonym fetch_state = "inodeno_t list \<times> cdir"

definition load_link :: "dentry_env \<Rightarrow> disk_env \<Rightarrow> string \<Rightarrow> snapid_t \<Rightarrow> snapid_t \<Rightarrow> inodeno_t \<Rightarrow> nat \<Rightarrow> dentry option
    \<Rightarrow> fetch_state \<Rightarrow> (dentry \<times> fetch_state) option" where
  "load_link env de dname fst' lst ino d_type dn0 s =
     (case dn0 of
        Some dn \<Rightarrow> Some (dn, s)
      | None \<Rightarrow>
          do { (dn, c) \<leftarrow> add_remote_dentry env dname ino d_type fst' lst (snd s);
               if de_have_inode de ino (nosnap env) then
                 let dn1 = dn\<lparr>dn_linkage := LRemote ino d_type True\<rparr>;
                     c1 = c\<lparr>items := om_set (dn_key dn) dn1 (items c)\<rparr>
                 in Some (dn1, fst s, log_call (OnDentry (dn_key dn) BindRemote) c1)
               else Some (dn, fst s, c) })"

definition undef_inode :: "disk_env \<Rightarrow> dentry option \<Rightarrow> inodeno_t option" where
  "undef_inode de dn0 =
     (case dn0 of
        None \<Rightarrow> None
      | Some dn \<Rightarrow> (case dn_linkage dn of
            LPrimary ci \<Rightarrow> if ci_rejoinundef ci then Some (ci_ino ci) else None
          | LRemote ino d_type bound \<Rightarrow> if bound \<and> de_remote_undef de ino then Some ino else None
          | LNull \<Rightarrow> None))"

definition finish_inode :: "disk_env \<Rightarrow> dentry_key_t \<Rightarrow> cinode \<Rightarrow> cdir \<Rightarrow> cdir" where
  "finish_inode de k ci c =
     (let c1 = (if ci_dirty_rstat ci then log_call (OnChild (ci_ino ci) MarkDirtyRstat) c else c)
      in if de_stray de then
           let c2 = (case map_of (items c1) k of
                       Some dn \<Rightarrow> c1\<lparr>items := om_set k (dn\<lparr>dn_state := dn_state dn OR de_dn_STRAY de\<rparr>) (items c1)\<rparr>
                     | None \<Rightarrow> c1)
           in if ci_nlink ci = 0 then log_call (OnChild (ci_ino ci) SetOrphan) c2 else c2
         else c1)"

definition load_inode :: "dentry_env \<Rightarrow> disk_env \<Rightarrow> snapid_t list option \<Rightarrow> string \<Rightarrow> snapid_t \<Rightarrow> snapid_t \<Rightarrow> cinode
    \<Rightarrow> dentry option \<Rightarrow> fetch_state \<Rightarrow> (fetch_state + dentry \<times> fetch_state) option" where
  "load_inode env de snaps dname fst' lst data dn0 s =
     (let u = undef_inode de dn0;
          und = fst s @ (case u of Some i \<Rightarrow> [i] | None \<Rightarrow> []);
          have_in = de_have_inode de (ci_ino data) lst;
          purge = (\<lambda>ci. case snaps of Some ss \<Rightarrow> if ci_snaprealm ci then ci else de_purge_stale de ss ci | None \<Rightarrow> ci)
      in case dn0 of
           Some dn \<Rightarrow>
             if u = None then Some (Inr (dn, und, snd s))
             else
               let ci = purge (case dn_linkage dn of
                                 LPrimary old \<Rightarrow> if have_in \<and> ci_ino old = ci_ino data then de_reload_inode de data fst' old
                                                 else de_new_inode de data fst' lst
                               | _ \<Rightarrow> de_new_inode de data fst' lst);
                   c1 = (if have_in \<and> (case dn_linkage dn of LPrimary old \<Rightarrow> ci_ino old = ci_ino data | _ \<Rightarrow> False)
                         then (snd s)\<lparr>items := om_set (dn_key dn) (dn\<lparr>dn_linkage := LPrimary ci\<rparr>) (items (snd s))\<rparr>
                         else snd s);
                   c2 = finish_inode de (dn_key dn) ci c1
               in do { dn' \<leftarrow> map_of (items c2) (dn_key dn); Some (Inr (dn', und, c2)) }
         | None \<Rightarrow>
             if \<not> have_in then
               let ci = purge (de_new_inode de data fst' lst);
                   c0 = log_call (OnChild (ci_ino ci) AddInode) (snd s)
               in do { (dn, c1) \<leftarrow> add_primary_dentry env dname ci fst' lst c0;
                       let c2 = finish_inode de (dn_key dn) ci c1;
                       dn' \<leftarrow> map_of (items c2) (dn_key dn);
                       Some (Inr (dn', und, c2)) }
             else Some (Inl (und, log_call (OnServer (DupInode (ci_ino data))) (snd s))))"

text \<open>The end of an iteration: the wanted entry is touched, and an entry that journal replay left
  dirty although it is on disk becomes clean.\<close>

definition settle_entry :: "dentry_env \<Rightarrow> disk_env \<Rightarrow> version_t \<Rightarrow> string \<Rightarrow> string \<Rightarrow> dentry \<Rightarrow> cdir \<Rightarrow> cdir option" where
  "settle_entry env de got want_dn dname dn c =
     (let c1 = (if want_dn \<noteq> [] \<and> want_dn = dname then log_call (OnDentry (dn_key dn) TouchDentry) c else c)
      in if committed_version c1 = 0 \<and> dn_version dn \<le> got \<and> dn_is_dirty dn then
           let dn1 = x_mark_clean env dn;
               c2 = log_call (OnDentry (dn_key dn) MarkClean) (c1\<lparr>items := om_set (dn_key dn) dn1 (items c1)\<rparr>)
           in case dn_linkage dn1 of
                LPrimary ci \<Rightarrow>
                  do { assert_that (ci_version ci \<le> got);
                       Some (log_call (OnChild (ci_ino ci) ChildMarkClean)
                         (c2\<lparr>items := om_set (dn_key dn) (dn1\<lparr>dn_linkage := LPrimary (de_ci_mark_clean de ci)\<rparr>) (items c2)\<rparr>)) }
              | _ \<Rightarrow> Some c2
         else Some c1)"

definition load_entry :: "dentry_env \<Rightarrow> disk_env \<Rightarrow> snapid_t list option \<Rightarrow> version_t \<Rightarrow> string
    \<Rightarrow> string \<times> disk_field list \<Rightarrow> fetch_state \<Rightarrow> fetch_state option" where
  "load_entry env de snaps got want_dn p s =
     do { (dname, lst) \<leftarrow> dentry_key_decode (nosnap env) (fst p);
          (case snd p of
             DSnap fst' # DChar t # rest \<Rightarrow>
               let stale = is_stale env snaps fst' lst;
                   dn0 = (if stale then None else lookup (c_str dname) lst (snd s))
               in if t = CHR ''L'' then
                    (case rest of
                       DIno ino # DByte d_type # _ \<Rightarrow>
                         if stale then Some s
                         else do { (dn, und, c) \<leftarrow> load_link env de dname fst' lst ino d_type dn0 s;
                                   c1 \<leftarrow> settle_entry env de got want_dn dname dn c;
                                   Some (und, c1) }
                     | _ \<Rightarrow> None)
                  else if t = CHR ''I'' then
                    (case rest of
                       DInode data # _ \<Rightarrow>
                         if stale then Some s
                         else do { r \<leftarrow> load_inode env de snaps dname fst' lst data dn0 s;
                                   (case r of
                                      Inl s' \<Rightarrow> Some s'
                                    | Inr (dn, und, c) \<Rightarrow>
                                        do { c1 \<leftarrow> settle_entry env de got want_dn dname dn c; Some (und, c1) }) }
                     | _ \<Rightarrow> None)
                  else None
           | _ \<Rightarrow> None) }"

fun load_entries :: "dentry_env \<Rightarrow> disk_env \<Rightarrow> snapid_t list option \<Rightarrow> version_t \<Rightarrow> string
    \<Rightarrow> (string \<times> disk_field list) list \<Rightarrow> fetch_state \<Rightarrow> fetch_state option" where
  "load_entries env de snaps got want_dn [] s = Some s"
| "load_entries env de snaps got want_dn (p # ps) s =
     do { s1 \<leftarrow> load_entry env de snaps got want_dn p s; load_entries env de snaps got want_dn ps s1 }"

definition take_fnode :: "disk_env \<Rightarrow> fnode_t \<Rightarrow> cdir \<Rightarrow> cdir option" where
  "take_fnode de got c =
     (if get_version c = 0 then
        do { assert_that (\<not> is_projected c);
             assert_that (\<not> state_test STATE_COMMITTING c);
             let c1 = c\<lparr>fnode := got, projected_version := fn_version got, committing_version := fn_version got,
                        committed_version := fn_version got\<rparr>;
             if state_test STATE_REJOINUNDEF c1 then
               do { assert_that (de_rejoin de);
                    Some (log_call (OnServer OpenedUndefDirfrag) (state_clear STATE_REJOINUNDEF c1)) }
             else Some c1 }
      else Some c)"

definition omap_fetched :: "dentry_env \<Rightarrow> disk_env \<Rightarrow> dir_view list \<Rightarrow> fnode_t option
    \<Rightarrow> (string \<times> disk_field list) list \<Rightarrow> string \<Rightarrow> int \<Rightarrow> cdir \<Rightarrow> cdir option" where
  "omap_fetched env de up hdr omap want_dn r c =
     do { assert_that (r = 0 \<or> r = - ENOENT \<or> r = - ENODATA);
          assert_that (is_auth c);
          assert_that (\<not> is_frozen up c);
          (case hdr of
             None \<Rightarrow>
               if r \<noteq> - ENODATA then Some (tmap_fetch want_dn c)
               else do {
                 let c1 = log_call (OnServer ObjectMissing) c;
                 let c2 = state_clear STATE_FETCHING (mark_complete (state_set STATE_BADFRAG c1));
                 c3 \<leftarrow> auth_unpin c2;
                 finish_waiting WAIT_COMPLETE 0 c3 }
           | Some got \<Rightarrow>
               do { c1 \<leftarrow> take_fnode de got c;
                    let snaps = purge_snaps de c1;
                    let c2 = (if snaps \<noteq> None
                              then c1\<lparr>fnode := (fnode c1)\<lparr>snap_purged_thru := de_last_destroyed de\<rparr>\<rparr> else c1);
                    (und, c3) \<leftarrow> load_entries env de snaps (fn_version got) want_dn (rev omap) ([], c2);
                    let c4 = state_clear STATE_FETCHING (mark_complete c3);
                    let c5 = fold (\<lambda>i. log_call (OnChild i OpenedUndefInode)) und c4;
                    c6 \<leftarrow> auth_unpin c5;
                    finish_waiting WAIT_COMPLETE 0 c6 }) }"

text \<open>The older representation: one buffer with the header and the map.\<close>

definition tmap_fetched :: "dentry_env \<Rightarrow> disk_env \<Rightarrow> dir_view list
    \<Rightarrow> (fnode_t option \<times> (string \<times> disk_field list) list) option \<Rightarrow> string \<Rightarrow> int \<Rightarrow> cdir \<Rightarrow> cdir option" where
  "tmap_fetched env de up bl want_dn r c =
     do { assert_that (r = 0 \<or> r = - ENOENT);
          assert_that (is_auth c);
          assert_that (\<not> is_frozen up c);
          (case bl of
             None \<Rightarrow> omap_fetched env de up None [] want_dn (- ENODATA) c
           | Some (hdr, omap) \<Rightarrow> omap_fetched env de up hdr omap want_dn r c) }"

text \<open>The result handed on by the completion of the read.\<close>

definition fetch_result :: "int \<Rightarrow> int \<Rightarrow> int \<Rightarrow> int" where
  "fetch_result r ret1 ret2 =
     (let r1 = (if r \<ge> 0 then ret1 else r) in if r1 \<ge> 0 then ret2 else r1)"

section \<open>Commit\<close>

text \<open>An encoded entry, and what encoding does to the entry it encodes.\<close>

definition encode_dentry :: "disk_env \<Rightarrow> snapid_t list option \<Rightarrow> dentry \<Rightarrow> (disk_field list \<times> dentry) option" where
  "encode_dentry de snaps dn =
     (let dn1 = dn\<lparr>dn_new := False\<rparr>
      in case dn_linkage dn1 of
           LRemote ino d_type bound \<Rightarrow> Some ([DSnap (dn_first dn1), DChar (CHR ''L''), DIno ino, DByte d_type], dn1)
         | LPrimary ci \<Rightarrow>
             let ci1 = (case snaps of
                          Some ss \<Rightarrow> if ci_multiversion ci \<and> \<not> ci_snaprealm ci then de_purge_stale de ss ci else ci
                        | None \<Rightarrow> ci)
             in Some ([DSnap (dn_first dn1), DChar (CHR ''I''), DInode ci1], dn1\<lparr>dn_linkage := LPrimary ci1\<rparr>)
         | LNull \<Rightarrow> None)"

definition commit_op :: "cdir \<Rightarrow> fnode_t option \<Rightarrow> (string \<times> disk_field list) list \<Rightarrow> string list \<Rightarrow> osd_op" where
  "commit_op c header to_set to_remove =
     \<lparr>oo_stat = (\<not> item_new c \<and> \<not> state_test STATE_FRAGMENTING c), oo_header = header,
      oo_set = to_set, oo_rm = to_remove\<rparr>"

text \<open>What is gathered for the next write: its size, the keys to set and the keys to remove.\<close>

record write_batch =
  wb_size :: nat
  wb_set :: "(string \<times> disk_field list) list"
  wb_rm :: "string list"

definition batch_empty :: write_batch where
  "batch_empty = \<lparr>wb_size = 0, wb_set = [], wb_rm = []\<rparr>"

text \<open>One entry of the loop: it is trimmed, skipped, removed or set. A trimmed or skipped entry is a
  \<^verbatim>\<open>continue\<close> (the flag is false): the size is looked at only after an entry that was written.\<close>

definition commit_entry :: "dentry_env \<Rightarrow> disk_env \<Rightarrow> snapid_t list option \<Rightarrow> dentry_key_t
    \<Rightarrow> write_batch \<times> cdir \<Rightarrow> (bool \<times> write_batch \<times> cdir) option" where
  "commit_entry env de snaps k s =
     do { let (b, c) = s;
          dn \<leftarrow> map_of (items c) k;
          let key = dentry_key_encode (nosnap env) (dn_key dn);
          (trimmed, c1) \<leftarrow> (case snaps of
                              Some ss \<Rightarrow> if dn_last dn \<noteq> nosnap env then try_trim_snap_dentry env ss k c else Some (False, c)
                            | None \<Rightarrow> Some (False, c));
          if trimmed then
            Some (False, b\<lparr>wb_size := wb_size b + length key, wb_rm := os_insert key (wb_rm b)\<rparr>, c1)
          else if \<not> dn_is_dirty dn \<and> (dn_state dn AND dn_STATE_FRAGMENTING env = 0 \<or> is_null dn) then
            Some (False, b, c1)
          else if is_null dn then
            Some (True, b\<lparr>wb_size := wb_size b + length key, wb_rm := os_insert key (wb_rm b)\<rparr>, c1)
          else do {
            (dnbl, dn') \<leftarrow> encode_dentry de snaps dn;
            Some (True, b\<lparr>wb_size := wb_size b + (length key + de_size de dnbl), wb_set := om_set key dnbl (wb_set b)\<rparr>,
                  c1\<lparr>items := om_set k dn' (items c1)\<rparr>) } }"

definition send_op :: "osd_op \<Rightarrow> cdir \<Rightarrow> cdir" where
  "send_op oop c = log_call (OnServer (Mutate oop (get_version c))) c"

fun commit_loop :: "dentry_env \<Rightarrow> disk_env \<Rightarrow> snapid_t list option \<Rightarrow> dentry_key_t list
    \<Rightarrow> write_batch \<times> cdir \<Rightarrow> (write_batch \<times> cdir) option" where
  "commit_loop env de snaps [] s = Some s"
| "commit_loop env de snaps (k # ks) s =
     do { (wrote, b, c) \<leftarrow> commit_entry env de snaps k s;
          if wrote \<and> wb_size b \<ge> de_max_write de
          then commit_loop env de snaps ks (batch_empty, send_op (commit_op c None (wb_set b) (wb_rm b)) c)
          else commit_loop env de snaps ks (b, c) }"

definition omap_commit :: "dentry_env \<Rightarrow> disk_env \<Rightarrow> cdir \<Rightarrow> cdir option" where
  "omap_commit env de c =
     do { let snaps = purge_snaps de c;
          (b, c1) \<leftarrow> commit_loop env de snaps (map fst (items c)) (batch_empty, c);
          Some (send_op (commit_op c1 (Some (fnode c1)) (wb_set b) (wb_rm b)) c1) }"

definition commit_work :: "dentry_env \<Rightarrow> disk_env \<Rightarrow> version_t \<Rightarrow> cdir \<Rightarrow> cdir option" where
  "commit_work env de want c =
     do { assert_that (want \<le> get_version c \<or> get_version c = 0);
          assert_that (is_auth c);
          if committed_version c \<ge> want then Some c
          else if committing_version c \<ge> want then do { assert_that (state_test STATE_COMMITTING c); Some c }
          else if committing_version c > committed_version c then Some c
          else
            let c1 = c\<lparr>committing_version := get_version c\<rparr>;
                c2 = (if \<not> state_test STATE_COMMITTING c1 then state_set STATE_COMMITTING c1 else c1)
            in omap_commit env de c2 }"

definition NOOP :: context_t where "NOOP = 0"

definition commit :: "dentry_env \<Rightarrow> disk_env \<Rightarrow> dir_view list \<Rightarrow> version_t \<Rightarrow> context_t option \<Rightarrow> bool \<Rightarrow> cdir
    \<Rightarrow> cdir option" where
  "commit env de up want0 ctx ignore_authpinnability c =
     do { let want = (if want0 = 0 then get_version c else want0);
          assert_that (want \<le> get_version c \<or> get_version c = 0);
          assert_that (want > committed_version c);
          assert_that (is_auth c);
          assert_that (ignore_authpinnability \<or> can_auth_pin up c);
          if iv_nlink (cd_inode c) = 0 \<and> \<not> iv_snaprealm (cd_inode c) then
            do { c1 \<leftarrow> try_remove_dentries_for_stray env c;
                 Some (case ctx of Some x \<Rightarrow> log_call (OnServer (QueueWaiters [x])) c1 | None \<Rightarrow> c1) }
          else
            do { let x = (case ctx of Some x \<Rightarrow> x | None \<Rightarrow> NOOP);
                 c1 \<leftarrow> (if waiting_for_commit c = [] then auth_pin c else Some c);
                 let w = waiting_for_commit c1;
                 commit_work env de want (c1\<lparr>waiting_for_commit := om_set want (om_get [] want w @ [x]) w\<rparr>) } }"

section \<open>Completion of a commit\<close>

definition clean_inode :: "dentry_env \<Rightarrow> disk_env \<Rightarrow> version_t \<Rightarrow> dentry_key_t \<Rightarrow> cdir \<Rightarrow> cdir option" where
  "clean_inode env de v k c =
     do { dn \<leftarrow> map_of (items c) k;
          (case dn_linkage dn of
             LPrimary ci \<Rightarrow>
               do { assert_that (ci_auth ci);
                    if v \<ge> ci_version ci then
                      Some (if ci_dirty ci
                            then log_call (OnChild (ci_ino ci) ChildMarkClean)
                                   (c\<lparr>items := om_set k (dn\<lparr>dn_linkage := LPrimary (de_ci_mark_clean de ci)\<rparr>) (items c)\<rparr>)
                            else c)
                    else do { assert_that (ci_dirty ci \<or> ci_last ci < nosnap env); Some c } }
           | _ \<Rightarrow> Some c) }"

definition clean_dentry :: "dentry_env \<Rightarrow> disk_env \<Rightarrow> version_t \<Rightarrow> dentry_key_t \<Rightarrow> cdir \<Rightarrow> cdir option" where
  "clean_dentry env de v k c =
     do { dn \<leftarrow> map_of (items c) k;
          if v \<ge> dn_version dn \<and> dn_is_dirty dn then
            let dn1 = x_mark_clean env dn;
                c1 = log_call (OnDentry k MarkClean) (c\<lparr>items := om_set k dn1 (items c)\<rparr>)
            in if de_stray de \<and> dn_num_ref dn1 = 0 \<and> \<not> dn_projected dn1 \<and> is_null dn1
               then remove_dentry env k c1 else Some c1
          else Some c }"

fun clean_loop :: "dentry_env \<Rightarrow> disk_env \<Rightarrow> version_t \<Rightarrow> dentry_key_t list \<Rightarrow> cdir \<Rightarrow> cdir option" where
  "clean_loop env de v [] c = Some c"
| "clean_loop env de v (k # ks) c =
     do { c1 \<leftarrow> clean_inode env de v k c; c2 \<leftarrow> clean_dentry env de v k c1; clean_loop env de v ks c2 }"

text \<open>Waiters in the order of the version they want; the first that wants more starts another commit.\<close>

fun kick_waiters :: "dentry_env \<Rightarrow> disk_env \<Rightarrow> (version_t \<times> context_t list) list \<Rightarrow> cdir \<Rightarrow> cdir option" where
  "kick_waiters env de [] c = Some c"
| "kick_waiters env de (p # ps) c =
     (if fst p > committed_version c then commit_work env de (fst p) c
      else kick_waiters env de ps
             (log_call (OnServer (QueueWaiters (snd p)))
               (c\<lparr>waiting_for_commit := om_erase (fst p) (waiting_for_commit c)\<rparr>)))"

definition committed :: "dentry_env \<Rightarrow> disk_env \<Rightarrow> int \<Rightarrow> version_t \<Rightarrow> cdir \<Rightarrow> cdir option" where
  "committed env de r v c =
     (if r < 0 then Some (log_call (OnServer (WriteError r)) c)
      else do {
        assert_that (is_auth c);
        assert_that (v > committed_version c);
        assert_that (v \<le> committing_version c);
        let c1 = c\<lparr>committed_version := v\<rparr>;
        let c2 = (if committing_version c1 = committed_version c1 then state_clear STATE_COMMITTING c1 else c1);
        let c3 = c2\<lparr>item_new := False\<rparr>;
        c4 \<leftarrow> (if committed_version c3 = get_version c3 then mark_clean c3 else Some c3);
        c5 \<leftarrow> clean_loop env de v (map fst (items c4)) c4;
        let were_waiters = (waiting_for_commit c5 \<noteq> []);
        c6 \<leftarrow> kick_waiters env de (waiting_for_commit c5) c5;
        let c7 = (if iv_nlink (cd_inode c6) = 0 \<and> iv_snaprealm (cd_inode c6)
                  then log_call (OnServer MaybeEvalStray) c6 else c6);
        if were_waiters \<and> waiting_for_commit c7 = [] then auth_unpin c7 else Some c7 })"

end
