(* ===== verification/CDir_Store.thy ===== *)
theory CDir_Store
  imports CDir_Commit
begin

text \<open>
  What a commit makes of the object in the store. The reference writes every entry straight to the
  object; the operations a commit sends, whatever the size limit cuts them into, have the same
  effect, and none but the last of them touches the header.
\<close>

section \<open>The object\<close>

type_synonym object_map = "string \<rightharpoonup> disk_field list"
type_synonym object_state = "fnode_t option \<times> object_map"

definition apply_op :: "osd_op \<Rightarrow> object_state \<Rightarrow> object_state" where
  "apply_op x s = (case oo_header x of Some h \<Rightarrow> Some h | None \<Rightarrow> fst s,
     (snd s ++ map_of (oo_set x)) |` (- set (oo_rm x)))"

text \<open>The writes a directory has asked for, with the version each belongs to.\<close>

definition mutation :: "dir_call \<Rightarrow> (osd_op \<times> version_t) option" where
  "mutation e = (case e of OnServer (Mutate x v) \<Rightarrow> Some (x, v) | _ \<Rightarrow> None)"

definition mutations :: "cdir \<Rightarrow> (osd_op \<times> version_t) list" where
  "mutations c = List.map_filter mutation (cd_log c)"

lemma map_filter_append: "List.map_filter f (xs @ ys) = List.map_filter f xs @ List.map_filter f ys"
  by (simp add: map_filter_def)

lemma mutations_log [simp]:
  "mutations (log_call e c) = mutations c @ (case mutation e of Some m \<Rightarrow> [m] | None \<Rightarrow> [])"
  by (simp add: mutations_def log_call_def map_filter_append map_filter_simps split: option.split)

lemma mutation_simps [simp]:
  "mutation (OnServer (Mutate x v)) = Some (x, v)" "mutation (OnInode a) = None" "mutation (OnDentry k b) = None"
  "mutation (OnChild i d) = None" "mutation (OnSegment g) = None" "mutation (OnParentDir t y) = None"
  "mutation (OnServer (QueueWaiters ws)) = None" "mutation (OnServer (FinishContexts ws r)) = None"
  "mutation (OnServer MaybeEvalStray) = None" "mutation (OnServer (WriteError r)) = None"
  by (simp_all add: mutation_def)

section \<open>The reference\<close>

text \<open>What becomes of an entry: nothing, its removal (\<open>Some None\<close>) or its new value.\<close>

definition can_trim :: "dentry_env \<Rightarrow> snapid_t list option \<Rightarrow> dentry \<Rightarrow> bool" where
  "can_trim env snaps dn \<longleftrightarrow> is_stale env snaps (dn_first dn) (dn_last dn) \<and>
     dn_num_ref dn = bool_int (dn_is_dirty dn) \<and>
     (case dn_linkage dn of LPrimary ci \<Rightarrow> ci_num_ref ci = bool_int (ci_dirty ci) | _ \<Rightarrow> True)"

definition entry_write :: "dentry_env \<Rightarrow> disk_env \<Rightarrow> snapid_t list option \<Rightarrow> dentry \<Rightarrow> disk_field list option option" where
  "entry_write env de snaps dn =
     (if can_trim env snaps dn then Some None
      else if is_null dn then if dn_is_dirty dn then Some None else None
      else if dn_is_dirty dn \<or> dn_state dn AND dn_STATE_FRAGMENTING env \<noteq> 0
        then Some (map_option fst (encode_dentry de snaps dn))
      else None)"

definition write_entry :: "dentry_env \<Rightarrow> disk_env \<Rightarrow> snapid_t list option \<Rightarrow> dentry_key_t \<times> dentry \<Rightarrow> object_map \<Rightarrow> object_map" where
  "write_entry env de snaps p m =
     (case entry_write env de snaps (snd p) of
        None \<Rightarrow> m | Some v \<Rightarrow> m(dentry_key_encode (nosnap env) (fst p) := v))"

definition write_entries :: "dentry_env \<Rightarrow> disk_env \<Rightarrow> snapid_t list option \<Rightarrow> (dentry_key_t \<times> dentry) list
    \<Rightarrow> object_map \<Rightarrow> object_map" where
  "write_entries env de snaps = fold (write_entry env de snaps)"

section \<open>What the loop over the entries leaves alone\<close>

definition store_view :: "cdir \<Rightarrow> fnode_t \<times> version_t \<times> version_t \<times> version_t \<times> (version_t \<times> context_t list) list
    \<times> u32 \<times> fnode_t list \<times> inode_view \<times> bool" where
  "store_view c = (fnode c, projected_version c, committing_version c, committed_version c, waiting_for_commit c,
     co_state c AND (STATE_AUTH OR STATE_COMMITTING OR STATE_FRAGMENTING), projected_fnode c, cd_inode c, item_new c)"

lemma store_view_simps [simp]:
  "store_view (log_call e c) = store_view c" "store_view (c\<lparr>co_ref := n\<rparr>) = store_view c"
  "store_view (c\<lparr>co_ref_map := rm\<rparr>) = store_view c" "store_view (c\<lparr>items := it\<rparr>) = store_view c"
  "store_view (count_null env l u c) = store_view c" "store_view (count_item env l u c) = store_view c"
  by (simp_all add: store_view_def log_call_def count_null_def count_item_def)

lemma items_simps [simp]:
  "items (log_call e c) = items c" "items (count_null env l u c) = items c" "items (count_item env l u c) = items c"
  "mutations (count_null env l u c) = mutations c" "mutations (count_item env l u c) = mutations c"
  "mutations (c\<lparr>items := it\<rparr>) = mutations c" "mutations (c\<lparr>co_ref := n\<rparr>) = mutations c" "mutations (c\<lparr>co_ref_map := rm\<rparr>) = mutations c"
  by (simp_all add: log_call_def count_null_def count_item_def mutations_def)

interpretation store: pin_view "\<lambda>c. (store_view c, mutations c)"
  by unfold_locales simp_all

lemma unlink_work_store:
  "unlink_inode_work dn c = Some (dn', c') \<Longrightarrow> store_view c' = store_view c \<and> mutations c' = mutations c"
  by (auto simp: unlink_inode_work_def Let_def split: linkage.splits if_splits)

lemma remove_dentry_store:
  assumes "remove_dentry env k c = Some c'"
  shows "store_view c' = store_view c \<and> mutations c' = mutations c"
  using assms
  by (auto simp: remove_dentry_def unpin_child_and_check_def Let_def bind_eq_Some_conv split_paired_Ex
      dest!: unlink_work_store store.dput_view split: if_splits)

section \<open>One entry\<close>

lemma encode_dentry_Some:
  "\<not> is_null dn \<Longrightarrow> \<exists>bl dn'. encode_dentry de snaps dn = Some (bl, dn') \<and> dn_key dn' = dn_key dn \<and>
     dn_last dn' = dn_last dn \<and> is_null dn' = is_null dn"
  by (cases "dn_linkage dn") (auto simp: encode_dentry_def is_null_def Let_def dn_key_def)

lemma is_stale_Some:
  "is_stale env (Some ss) f l \<longleftrightarrow> l \<noteq> nosnap env \<and>
     (dropWhile (\<lambda>s. s < f) ss = [] \<or> hd (dropWhile (\<lambda>s. s < f) ss) > l)"
  by (cases "dropWhile (\<lambda>s. s < f) ss") (simp_all add: is_stale_def del: dropWhile_eq_Nil_conv)

lemma is_stale_None [simp]: "\<not> is_stale env None f l"
  by (simp add: is_stale_def)

lemma trim_ok:
  assumes inv: "items_inv env c" and k: "map_of (items c) k = Some dn" and l: "dn_last dn \<noteq> nosnap env \<longrightarrow> dn_leases dn = 0"
  obtains c' where "(case snaps of
        Some ss \<Rightarrow> if dn_last dn \<noteq> nosnap env then try_trim_snap_dentry env ss k c else Some (False, c)
      | None \<Rightarrow> Some (False, c)) = Some (can_trim env snaps dn, c')"
    "items_inv env c'" "items c' = (if can_trim env snaps dn then om_erase k (items c) else items c)"
    "store_view c' = store_view c" "mutations c' = mutations c" "\<not> can_trim env snaps dn \<longrightarrow> c' = c"
proof (cases "can_trim env snaps dn")
  case False
  show thesis
    by (rule that [of c])
      (use False inv k in \<open>auto simp: can_trim_def is_stale_Some try_trim_snap_dentry_def Let_def
        simp del: dropWhile_eq_Nil_conv split: option.splits linkage.splits if_splits\<close>)
next
  case True
  then obtain ss where ss: "snaps = Some ss" "dn_last dn \<noteq> nosnap env"
    by (auto simp: can_trim_def is_stale_def split: option.splits)
  let ?ci = "case dn_linkage dn of LPrimary ci \<Rightarrow> Some ci | _ \<Rightarrow> None"
  let ?c1 = "case ?ci of Some ci \<Rightarrow> if ci_dirty ci then log_call (OnChild (ci_ino ci) ChildMarkClean) c else c | None \<Rightarrow> c"
  have c1: "items_inv env ?c1" "items ?c1 = items c" "store_view ?c1 = store_view c" "mutations ?c1 = mutations c"
    using inv by (auto simp: items_inv_def counts_ok_def frame_simps log_call_dir_fields split: option.split)
  obtain c2 where c2: "remove_dentry env k ?c1 = Some c2" "items_inv env c2" "items c2 = om_erase k (items ?c1)"
    by (rule remove_dentry_ok [OF c1(1)]) (use k l ss c1(2) in auto)
  let ?c' = "case ?ci of Some ci \<Rightarrow> log_call (OnChild (ci_ino ci) RemoveInode) c2 | None \<Rightarrow> c2"
  have g: "try_trim_snap_dentry env ss k c = Some (True, ?c')"
    using k ss True c2(1)
    by (auto simp: try_trim_snap_dentry_def can_trim_def is_stale_Some Let_def simp del: dropWhile_eq_Nil_conv
        split: linkage.splits)
  show thesis
  proof (rule that [of ?c'])
    show "items_inv env ?c'"
      using c2(2) by (auto simp: items_inv_def counts_ok_def frame_simps log_call_dir_fields split: option.split)
  qed (use True ss g c1 c2(3) remove_dentry_store [OF c2(1)] in \<open>auto split: option.split\<close>)
qed

definition batch_put :: "string \<Rightarrow> disk_field list option option \<Rightarrow> write_batch \<Rightarrow> (string \<times> disk_field list) list \<times> string list" where
  "batch_put key v b = (case v of None \<Rightarrow> (wb_set b, wb_rm b)
     | Some None \<Rightarrow> (wb_set b, os_insert key (wb_rm b))
     | Some (Some bl) \<Rightarrow> (om_set key bl (wb_set b), wb_rm b))"

lemma commit_entry_ok:
  assumes inv: "items_inv env c" and k: "map_of (items c) k = Some dn" and l: "dn_last dn \<noteq> nosnap env \<longrightarrow> dn_leases dn = 0"
  obtains w b' c' where "commit_entry env de snaps k (b, c) = Some (w, b', c')"
    "items_inv env c'" "\<And>k'. k' \<noteq> k \<Longrightarrow> map_of (items c') k' = map_of (items c) k'"
    "store_view c' = store_view c" "mutations c' = mutations c"
    "(wb_set b', wb_rm b') = batch_put (dentry_key_encode (nosnap env) k) (entry_write env de snaps dn) b"
proof -
  have kk: "dn_key dn = k" "om_ok (items c)" using inv map_of_SomeD [OF k] by (auto simp: items_inv_def)
  obtain c1 where c1: "(case snaps of
        Some ss \<Rightarrow> if dn_last dn \<noteq> nosnap env then try_trim_snap_dentry env ss k c else Some (False, c)
      | None \<Rightarrow> Some (False, c)) = Some (can_trim env snaps dn, c1)"
    "items_inv env c1" "items c1 = (if can_trim env snaps dn then om_erase k (items c) else items c)"
    "store_view c1 = store_view c" "mutations c1 = mutations c" "\<not> can_trim env snaps dn \<longrightarrow> c1 = c"
    by (rule trim_ok [OF inv k l, where snaps = snaps])
  note unf = commit_entry_def prod.case Let_def k bind.bind_lunit c1(1)
  let ?key = "dentry_key_encode (nosnap env) k"
  let ?rm = "b\<lparr>wb_size := wb_size b + length ?key, wb_rm := os_insert ?key (wb_rm b)\<rparr>"
  consider (trim) "can_trim env snaps dn"
    | (skip) "\<not> can_trim env snaps dn" "\<not> dn_is_dirty dn" "dn_state dn AND dn_STATE_FRAGMENTING env = 0 \<or> is_null dn"
    | (rm) "\<not> can_trim env snaps dn" "dn_is_dirty dn" "is_null dn"
    | (wr) "\<not> can_trim env snaps dn" "\<not> is_null dn" "dn_is_dirty dn \<or> dn_state dn AND dn_STATE_FRAGMENTING env \<noteq> 0"
    by blast
  then show thesis
  proof cases
    case trim
    show thesis
      by (rule that [of False ?rm c1], unfold unf) (use trim c1 kk in \<open>simp_all add: entry_write_def batch_put_def\<close>)
  next
    case skip
    show thesis
      by (rule that [of False b c1], unfold unf) (use skip c1 kk in \<open>auto simp: entry_write_def batch_put_def\<close>)
  next
    case rm
    show thesis
      by (rule that [of True ?rm c1], unfold unf) (use rm c1 kk in \<open>simp_all add: entry_write_def batch_put_def\<close>)
  next
    case wr
    obtain bl dn' where e: "encode_dentry de snaps dn = Some (bl, dn')" "dn_key dn' = dn_key dn"
      "dn_last dn' = dn_last dn" "is_null dn' = is_null dn"
      using encode_dentry_Some [OF wr(2)] by blast
    let ?c = "c1\<lparr>items := om_set k dn' (items c1)\<rparr>"
    let ?b = "b\<lparr>wb_size := wb_size b + (length ?key + de_size de bl), wb_set := om_set ?key bl (wb_set b)\<rparr>"
    have i: "items_inv env ?c"
      using relink_entry [of env c k dn dn' ?c] inv k e c1(6) wr(1) 
      by (simp add: items_inv_def frame_simps kind_defs)
    show thesis
      by (rule that [of True ?b ?c], unfold unf)
        (use wr e c1 kk i in \<open>auto simp: entry_write_def batch_put_def\<close>)
  qed
qed

section \<open>The loop\<close>

text \<open>What the object will hold once the gathered batch has been applied too.\<close>

definition batch_map :: "write_batch \<Rightarrow> object_map \<Rightarrow> object_map" where
  "batch_map b m = (m ++ map_of (wb_set b)) |` (- set (wb_rm b))"

definition batch_ok :: "string set \<Rightarrow> write_batch \<Rightarrow> bool" where
  "batch_ok K b \<longleftrightarrow> om_ok (wb_set b) \<and> fst ` set (wb_set b) \<subseteq> K \<and> set (wb_rm b) \<subseteq> K"

lemma batch_empty_simps [simp]: "batch_map batch_empty m = m" "batch_ok K batch_empty"
  by (simp_all add: batch_map_def batch_ok_def batch_empty_def restrict_map_def)

lemma batch_put_map:
  assumes "batch_ok K b" "key \<notin> K" "(wb_set b', wb_rm b') = batch_put key v b"
  shows "batch_map b' m = (case v of None \<Rightarrow> batch_map b m | Some x \<Rightarrow> (batch_map b m)(key := x)) \<and> batch_ok (insert key K) b'"
proof -
  have "key \<notin> fst ` set (wb_set b)" "key \<notin> set (wb_rm b)" using assms(1,2) by (auto simp: batch_ok_def)
  with assms(1,3) show ?thesis
    by (auto simp: batch_put_def batch_map_def batch_ok_def fun_eq_iff restrict_map_def map_add_def
        split: option.splits)
qed

lemma apply_op_batch:
  "apply_op (commit_op c h (wb_set b) (wb_rm b)) s = (case h of Some x \<Rightarrow> Some x | None \<Rightarrow> fst s, batch_map b (snd s))"
  by (simp add: apply_op_def commit_op_def batch_map_def)

lemma commit_op_header: "oo_header (commit_op c h a b) = h"
  by (simp add: commit_op_def)

lemma mutations_send: "mutations (send_op x c) = mutations c @ [(x, get_version c)]"
  by (simp add: send_op_def)

lemma store_view_fields:
  assumes "store_view c' = store_view c"
  shows "fnode c' = fnode c" "projected_version c' = projected_version c" "committing_version c' = committing_version c"
    "committed_version c' = committed_version c" "waiting_for_commit c' = waiting_for_commit c" "cd_inode c' = cd_inode c"
    "item_new c' = item_new c" "projected_fnode c' = projected_fnode c" "get_version c' = get_version c"
    "is_projected c' = is_projected c"
  using assms by (simp_all add: store_view_def get_version_def is_projected_def)

lemma commit_loop_ok:
  assumes "items_inv env c" "\<forall>p\<in>set ps. map_of (items c) (fst p) = Some (snd p) \<and>
      (dn_last (snd p) \<noteq> nosnap env \<longrightarrow> dn_leases (snd p) = 0)"
    "distinct (map fst ps)" "batch_ok K b" "dentry_key_encode (nosnap env) ` fst ` set ps \<inter> K = {}"
  shows "\<exists>b' c' ops. commit_loop env de snaps (map fst ps) (b, c) = Some (b', c') \<and> items_inv env c' \<and>
     store_view c' = store_view c \<and> mutations c' = mutations c @ map (\<lambda>x. (x, get_version c)) ops \<and>
     (\<forall>x\<in>set ops. oo_header x = None) \<and>
     batch_map b' (snd (fold apply_op ops s)) = write_entries env de snaps ps (batch_map b (snd s))"
  using assms
proof (induction ps arbitrary: b c K s)
  case Nil
  then show ?case by (auto simp: write_entries_def intro: exI [of _ "[]"])
next
  case (Cons p ps)
  let ?key = "dentry_key_encode (nosnap env) (fst p)"
  obtain w b1 c1 where e: "commit_entry env de snaps (fst p) (b, c) = Some (w, b1, c1)" "items_inv env c1"
      "\<And>k'. k' \<noteq> fst p \<Longrightarrow> map_of (items c1) k' = map_of (items c) k'"
      "store_view c1 = store_view c" "mutations c1 = mutations c"
      "(wb_set b1, wb_rm b1) = batch_put ?key (entry_write env de snaps (snd p)) b"
    by (rule commit_entry_ok [OF Cons.prems(1), of "fst p" "snd p" de snaps b]) (use Cons.prems(2) in auto)
  have b1: "batch_map b1 m = write_entry env de snaps p (batch_map b m)" "batch_ok (insert ?key K) b1" for m
    using batch_put_map [OF Cons.prems(4) _ e(6)] Cons.prems(5) by (auto simp: write_entry_def)
  have ps: "\<forall>q\<in>set ps. map_of (items c1) (fst q) = Some (snd q) \<and>
      (dn_last (snd q) \<noteq> nosnap env \<longrightarrow> dn_leases (snd q) = 0)"
  proof
    fix q assume q: "q \<in> set ps"
    then have "fst q \<noteq> fst p" using Cons.prems(3) by (auto simp: image_iff)
    with q Cons.prems(2) e(3) show "map_of (items c1) (fst q) = Some (snd q) \<and>
      (dn_last (snd q) \<noteq> nosnap env \<longrightarrow> dn_leases (snd q) = 0)" by simp
  qed
  have dj: "dentry_key_encode (nosnap env) ` fst ` set ps \<inter> insert ?key K = {}"
    using Cons.prems(3,5) by (auto simp: image_iff)
  note v = store_view_fields(9) [OF e(4)]
  show ?case
  proof (cases "w \<and> wb_size b1 \<ge> de_max_write de")
    case True
    let ?op = "commit_op c1 None (wb_set b1) (wb_rm b1)"
    let ?c2 = "send_op ?op c1"
    have c2: "items_inv env ?c2" "items ?c2 = items c1" "store_view ?c2 = store_view c1" "get_version ?c2 = get_version c1"
      using e(2) by (simp_all add: send_op_def items_inv_def counts_ok_def frame_simps log_call_dir_fields store_view_fields(9) [of "log_call _ _"])
    obtain b' c' ops where r: "commit_loop env de snaps (map fst ps) (batch_empty, ?c2) = Some (b', c')" "items_inv env c'"
      "store_view c' = store_view ?c2" "mutations c' = mutations ?c2 @ map (\<lambda>x. (x, get_version ?c2)) ops"
      "\<forall>x\<in>set ops. oo_header x = None"
      "batch_map b' (snd (fold apply_op ops (apply_op ?op s))) = write_entries env de snaps ps (batch_map batch_empty (snd (apply_op ?op s)))"
      using Cons.IH [of ?c2 K batch_empty "apply_op ?op s"] Cons.prems(3,5) c2 ps by auto
    show ?thesis
      by (rule exI [of _ b'], rule exI [of _ c'], rule exI [of _ "?op # ops"])
        (use True e r c2 v in \<open>simp add: apply_op_batch b1 write_entries_def commit_op_header mutations_send\<close>)
  next
    case False
    obtain b' c' ops where r: "commit_loop env de snaps (map fst ps) (b1, c1) = Some (b', c')" "items_inv env c'"
      "store_view c' = store_view c1" "mutations c' = mutations c1 @ map (\<lambda>x. (x, get_version c1)) ops"
      "\<forall>x\<in>set ops. oo_header x = None"
      "batch_map b' (snd (fold apply_op ops s)) = write_entries env de snaps ps (batch_map b1 (snd s))"
      using Cons.IH [of c1 "insert ?key K" b1 s] Cons.prems(3) e(2) b1(2) dj ps by auto
    show ?thesis
      by (rule exI [of _ b'], rule exI [of _ c'], rule exI [of _ ops])
        (use False e r v in \<open>auto simp: b1 write_entries_def\<close>)
  qed
qed

lemma fold_header:
  "\<forall>x\<in>set ops. oo_header x = None \<Longrightarrow> fst (fold apply_op ops s) = fst s"
  by (induction ops arbitrary: s) (simp_all add: apply_op_def)

lemma omap_commit_ok:
  assumes "items_inv env c" "\<forall>p\<in>set (items c). dn_last (snd p) \<noteq> nosnap env \<longrightarrow> dn_leases (snd p) = 0"
  obtains c' ops where "omap_commit env de c = Some c'" "items_inv env c'" "store_view c' = store_view c"
    "mutations c' = mutations c @ map (\<lambda>x. (x, get_version c)) ops" "ops \<noteq> []"
    "\<forall>x\<in>set (butlast ops). oo_header x = None"
    "\<And>h m. fold apply_op ops (h, m) = (Some (fnode c), write_entries env de (purge_snaps de c) (items c) m)"
proof -
  have it: "om_ok (items c)" using assms(1) by (simp add: items_inv_def)
  have ps: "\<forall>p\<in>set (items c). map_of (items c) (fst p) = Some (snd p) \<and>
      (dn_last (snd p) \<noteq> nosnap env \<longrightarrow> dn_leases (snd p) = 0)"
    using assms(2) om_ok_distinct [OF it] by auto
  note loop = commit_loop_ok [OF assms(1) ps om_ok_distinct [OF it] batch_empty_simps(2) Int_empty_right, of de "purge_snaps de c"]
  obtain b c1 ops where r: "commit_loop env de (purge_snaps de c) (map fst (items c)) (batch_empty, c) = Some (b, c1)"
    "items_inv env c1" "store_view c1 = store_view c" "mutations c1 = mutations c @ map (\<lambda>x. (x, get_version c)) ops"
    "\<forall>x\<in>set ops. oo_header x = None"
    using loop by blast
  have m: "batch_map b (snd (fold apply_op ops (h, m))) = write_entries env de (purge_snaps de c) (items c) m" for h m
  proof -
    obtain b' c' ops' where r': "commit_loop env de (purge_snaps de c) (map fst (items c)) (batch_empty, c) = Some (b', c')"
      "mutations c' = mutations c @ map (\<lambda>x. (x, get_version c)) ops'"
      "batch_map b' (snd (fold apply_op ops' (h, m))) = write_entries env de (purge_snaps de c) (items c) (batch_map batch_empty (snd (h, m)))"
      using loop [of "(h, m)"] by blast
    have "map (\<lambda>x. (x, get_version c)) ops' = map (\<lambda>x. (x, get_version c)) ops" using r(1,4) r'(1,2) by simp
    from arg_cong [OF this, of "map fst"] have "ops' = ops" by (simp add: comp_def)
    then show ?thesis using r(1) r'(1,3) by simp
  qed
  let ?op = "commit_op c1 (Some (fnode c1)) (wb_set b) (wb_rm b)"
  note f = store_view_fields [OF r(3)]
  show thesis
  proof (rule that [of "send_op ?op c1" "ops @ [?op]"])
    show "omap_commit env de c = Some (send_op ?op c1)" by (simp add: omap_commit_def r(1))
    show "items_inv env (send_op ?op c1)"
      using r(2) by (simp add: send_op_def items_inv_def counts_ok_def frame_simps log_call_dir_fields)
    show "fold apply_op (ops @ [?op]) (h, m) = (Some (fnode c), write_entries env de (purge_snaps de c) (items c) m)" for h m
      by (simp add: apply_op_batch m f)
  qed (use r f in \<open>simp_all add: mutations_send send_op_def\<close>)
qed

text \<open>C10: whatever the size limit cuts it into, a commit does to the object what writing every
  entry directly would: it returns, each operation belongs to the version committed, and after all
  of them the header is the fragment node and each entry is set, removed or untouched according to
  its state. After any proper prefix of the operations the header is still the old one, so a crash
  in between never leaves a header that claims more than was written.\<close>

theorem commit_equals_direct_write:
  assumes "items_inv env c" "\<forall>p\<in>set (items c). dn_last (snd p) \<noteq> nosnap env \<longrightarrow> dn_leases (snd p) = 0"
  shows "\<exists>c' ops. omap_commit env de c = Some c' \<and> ops \<noteq> [] \<and>
     mutations c' = mutations c @ map (\<lambda>x. (x, get_version c)) ops \<and>
     fold apply_op ops (h, m) = (Some (fnode c), write_entries env de (purge_snaps de c) (items c) m) \<and>
     (\<forall>i < length ops. fst (fold apply_op (take i ops) (h, m)) = h)"
proof -
  obtain c' ops where r: "omap_commit env de c = Some c'" "ops \<noteq> []"
    "mutations c' = mutations c @ map (\<lambda>x. (x, get_version c)) ops"
    "\<forall>x\<in>set (butlast ops). oo_header x = None"
    "fold apply_op ops (h, m) = (Some (fnode c), write_entries env de (purge_snaps de c) (items c) m)"
    by (rule omap_commit_ok [OF assms, of de]) blast
  have "fst (fold apply_op (take i ops) (h, m)) = h" if "i < length ops" for i
  proof -
    from that have "take i (butlast ops) = take i ops" by (simp add: take_butlast)
    then have "set (take i ops) \<subseteq> set (butlast ops)" by (metis set_take_subset)
    with r(4) show ?thesis using fold_header [of "take i ops" "(h, m)"] by auto
  qed
  with r show ?thesis by blast
qed

text \<open>Parameters for the examples: entries start dirty, an encoded field is one byte long, and every
  entry fills a write.\<close>

definition dirty_env :: dentry_env where
  "dirty_env = plain_env\<lparr>blank_dentry := (blank_dentry plain_env)\<lparr>dn_state := STATE_DIRTY\<rparr>\<rparr>"

definition plain_disk :: disk_env where
  "plain_disk = \<lparr>de_past_parents_open = False, de_last_destroyed = 0, de_snaps = [], de_stray = False,
     de_rejoin = False, de_max_write = 1, de_size = length, de_ci_mark_clean = (\<lambda>ci. ci\<lparr>ci_dirty := False\<rparr>),
     de_purge_stale = (\<lambda>ss ci. ci), de_have_inode = (\<lambda>i s. False), de_new_inode = (\<lambda>d f l. d),
     de_reload_inode = (\<lambda>d f ci. d), de_remote_undef = (\<lambda>i. False), de_dn_STRAY = 2\<rparr>"

definition store_example :: "cdir option" where
  "store_example =
     do { c1 \<leftarrow> item_step dirty_env (AddRemote ''a'' 7 8 2 (-2)) plain_dir;
          c2 \<leftarrow> item_step dirty_env (AddNull ''b'' 2 (-2)) c1;
          set_version 5 c2 }"

lemma store_example_ok:
  obtains c where "store_example = Some c" "items_inv dirty_env c" "is_auth c" "get_version c = 5"
    "map (\<lambda>p. (fst p, dn_last (snd p))) (items c) = [(DKey (-2) ''a'', -2), (DKey (-2) ''b'', -2)]"
proof -
  have r0: "item_reach dirty_env plain_dir" by (rule item_start [OF plain_dir_new])
  have "\<not> Option.is_none (item_step dirty_env (AddRemote ''a'' 7 8 2 (-2)) plain_dir)" by code_simp
  then obtain c1 where c1: "item_step dirty_env (AddRemote ''a'' 7 8 2 (-2)) plain_dir = Some c1"
    by (auto simp: Option.is_none_def)
  have r1: "item_reach dirty_env c1" by (rule item_next [OF r0 plain_item_room _ c1]) (simp add: no_leases_def)
  have e: "case store_example of None \<Rightarrow> False | Some c \<Rightarrow> is_auth c \<and> get_version c = 5 \<and>
      map (\<lambda>p. (fst p, dn_last (snd p))) (items c) = [(DKey (-2) ''a'', -2), (DKey (-2) ''b'', -2)]" by code_simp
  have u: "store_example = item_step dirty_env (AddNull ''b'' 2 (-2)) c1 \<bind> set_version 5"
    by (simp add: store_example_def c1 del: item_step.simps)
  with e obtain c2 c where c2: "item_step dirty_env (AddNull ''b'' 2 (-2)) c1 = Some c2" "set_version 5 c2 = Some c"
    by (cases "item_step dirty_env (AddNull ''b'' 2 (-2)) c1"; cases store_example) auto
  have "case item_step dirty_env (AddRemote ''a'' 7 8 2 (-2)) plain_dir of None \<Rightarrow> False | Some c \<Rightarrow> length (items c) = 1"
    by code_simp
  then have "item_room c1" unfolding c1 option.case by (simp add: item_room_def)
  then have "item_reach dirty_env c2" by (rule item_next [OF r1 _ _ c2(1)]) (simp add: no_leases_def)
  then have "items_inv dirty_env c2" by (rule item_reach_inv)
  then have "items_inv dirty_env c"
    using c2(2) by (auto simp: set_version_def items_inv_def counts_ok_def frame_simps)
  moreover have s: "store_example = Some c" unfolding u c2(1) bind.bind_lunit by (rule c2(2))
  ultimately show thesis using e unfolding s option.case by (intro that [OF s]) simp_all
qed

theorem commit_equals_direct_write_witness:
  "\<exists>c c' ops. store_example = Some c \<and> omap_commit dirty_env plain_disk c = Some c' \<and> ops \<noteq> [] \<and>
     (let s = fold apply_op ops (None, [''b_head'' \<mapsto> []]) in fst s = Some (fnode c) \<and>
        snd s ''a_head'' = Some [DSnap 2, DChar (CHR ''L''), DIno 7, DByte 8] \<and> snd s ''b_head'' = None)"
proof -
  obtain c where c: "store_example = Some c" "items_inv dirty_env c" "is_auth c" "get_version c = 5"
    "map (\<lambda>p. (fst p, dn_last (snd p))) (items c) = [(DKey (-2) ''a'', -2), (DKey (-2) ''b'', -2)]"
    by (rule store_example_ok)
  have l: "\<forall>p\<in>set (items c). dn_last (snd p) \<noteq> nosnap dirty_env \<longrightarrow> dn_leases (snd p) = 0"
    using c(5) by (auto simp: dirty_env_def plain_env_def)
  let ?w = "\<lambda>c. write_entries dirty_env plain_disk (purge_snaps plain_disk c) (items c) [''b_head'' \<mapsto> []]"
  have "case store_example of None \<Rightarrow> False
      | Some c \<Rightarrow> ?w c ''a_head'' = Some [DSnap 2, DChar (CHR ''L''), DIno 7, DByte 8] \<and> ?w c ''b_head'' = None"
    by code_simp
  then have w: "?w c ''a_head'' = Some [DSnap 2, DChar (CHR ''L''), DIno 7, DByte 8]" "?w c ''b_head'' = None"
    unfolding c(1) option.case by simp_all
  obtain c' ops where "omap_commit dirty_env plain_disk c = Some c'" "ops \<noteq> []"
    "fold apply_op ops (None, [''b_head'' \<mapsto> []]) = (Some (fnode c), ?w c)"
    using commit_equals_direct_write [OF c(2) l, of plain_disk None "[''b_head'' \<mapsto> []]"] by blast
  with c(1) w show ?thesis by (intro exI [of _ c] exI [of _ c'] exI [of _ ops]) (simp add: Let_def)
qed

end
