(* ===== verification/CDir_Protocol.thy ===== *)
theory CDir_Protocol
  imports CDir_Store
begin

text \<open>
  The commit protocol of a fragment. Three versions move: the current one, the one being written and
  the one known to be on disk. At most one write is in flight; a request that comes while one is
  waits for it, and its completion starts the next one. The completion of a write is a step of its
  own, and so is every other operation that lets the version grow.
\<close>

section \<open>What the protocol looks at\<close>

definition commit_view :: "cdir \<Rightarrow> version_t \<times> version_t \<times> version_t \<times> (version_t \<times> context_t list) list \<times> bool" where
  "commit_view c = (get_version c, committing_version c, committed_version c, waiting_for_commit c,
     state_test STATE_COMMITTING c)"

text \<open>The contexts handed to the server so far, in order.\<close>

definition queue_part :: "dir_call \<Rightarrow> context_t list option" where
  "queue_part e = (case e of OnServer (QueueWaiters ws) \<Rightarrow> Some ws | _ \<Rightarrow> None)"

definition queued :: "cdir \<Rightarrow> context_t list" where
  "queued c = concat (List.map_filter queue_part (cd_log c))"

lemma queued_log [simp]:
  "queued (log_call e c) = queued c @ (case queue_part e of Some ws \<Rightarrow> ws | None \<Rightarrow> [])"
  by (simp add: queued_def log_call_def map_filter_append map_filter_simps split: option.split)

lemma queue_part_simps [simp]:
  "queue_part (OnServer (QueueWaiters ws)) = Some ws" "queue_part (OnInode a) = None" "queue_part (OnDentry k b) = None"
  "queue_part (OnChild i d) = None" "queue_part (OnServer (Mutate x v)) = None"
  "queue_part (OnServer MaybeEvalStray) = None" "queue_part (OnServer (WriteError r)) = None"
  by (simp_all add: queue_part_def)

lemma commit_view_simps [simp]:
  "commit_view (log_call e c) = commit_view c" "commit_view (c\<lparr>co_ref := n\<rparr>) = commit_view c"
  "commit_view (c\<lparr>co_ref_map := rm\<rparr>) = commit_view c" "commit_view (c\<lparr>items := it\<rparr>) = commit_view c"
  "commit_view (count_null env l u c) = commit_view c" "commit_view (count_item env l u c) = commit_view c"
  "commit_view (c\<lparr>item_dirty := x\<rparr>) = commit_view c" "commit_view (c\<lparr>item_new := y\<rparr>) = commit_view c"
  "commit_view (c\<lparr>auth_pins := i\<rparr>) = commit_view c" "commit_view (c\<lparr>nested_auth_pins := i\<rparr>) = commit_view c"
  "commit_view (c\<lparr>dir_auth_pins := i\<rparr>) = commit_view c" "commit_view (c\<lparr>dir_auth := a\<rparr>) = commit_view c"
  "commit_view (c\<lparr>waiting_on_dentry := w\<rparr>) = commit_view c" "commit_view (c\<lparr>co_waiting := cw\<rparr>) = commit_view c"
  "m AND STATE_COMMITTING = 0 \<Longrightarrow> commit_view (state_set m c) = commit_view c"
  "STATE_COMMITTING AND m = 0 \<Longrightarrow> commit_view (state_clear m c) = commit_view c"
  by (simp_all add: commit_view_def log_call_def count_null_def count_item_def get_version_def state_test_set
      state_test_clear_other) (simp_all add: state_test_def state_set_def state_clear_def)

lemma queued_simps [simp]:
  "queued (c\<lparr>co_ref := n\<rparr>) = queued c" "queued (c\<lparr>co_ref_map := rm\<rparr>) = queued c" "queued (c\<lparr>items := it\<rparr>) = queued c"
  "queued (count_null env l u c) = queued c" "queued (count_item env l u c) = queued c"
  "queued (c\<lparr>item_dirty := x\<rparr>) = queued c" "queued (c\<lparr>item_new := y\<rparr>) = queued c"
  "queued (state_set m c) = queued c" "queued (state_clear m c) = queued c"
  "queued (c\<lparr>committing_version := v\<rparr>) = queued c" "queued (c\<lparr>committed_version := v\<rparr>) = queued c"
  "queued (c\<lparr>waiting_for_commit := wfc\<rparr>) = queued c"
  by (simp_all add: queued_def count_null_def count_item_def state_set_def state_clear_def)

text \<open>The auth pins and how far a freeze is.\<close>

definition held :: "cdir \<Rightarrow> int \<times> int \<times> int \<times> fmode" where
  "held c = (auth_pins c, nested_auth_pins c, dir_auth_pins c, fmode_of c)"

lemma held_simps [simp]:
  "held (log_call e c) = held c" "held (c\<lparr>co_ref := n\<rparr>) = held c" "held (c\<lparr>co_ref_map := rm\<rparr>) = held c" "held (c\<lparr>items := it\<rparr>) = held c"
  "held (count_null env l u c) = held c" "held (count_item env l u c) = held c"
  "held (c\<lparr>item_dirty := x\<rparr>) = held c" "held (c\<lparr>item_new := y\<rparr>) = held c"
  "held (c\<lparr>committing_version := v\<rparr>) = held c" "held (c\<lparr>committed_version := v\<rparr>) = held c"
  "held (c\<lparr>waiting_for_commit := wfc\<rparr>) = held c"
  by (simp_all add: held_def fmode_of_def state_test_def log_call_def count_null_def count_item_def)

lemma held_bits [simp]:
  "held (state_set STATE_COMMITTING c) = held c" "held (state_clear STATE_COMMITTING c) = held c" "held (state_clear STATE_DIRTY c) = held c"
  by (simp_all add: held_def fmode_of_def state_test_set state_test_clear_other state_bits) (simp_all add: state_set_def state_clear_def)

lemma mode_bit_committing: "mode_bit m \<Longrightarrow> m AND STATE_COMMITTING = 0" "mode_bit m \<Longrightarrow> STATE_COMMITTING AND m = 0"
  by (auto simp: mode_bit_def state_bits)

interpretation commit: freeze_view commit_view
  by unfold_locales (simp_all add: mode_bit_committing)

interpretation wake: pin_view "\<lambda>c. (commit_view c, queued c, held c)"
  by unfold_locales simp_all

lemma unlink_work_wake:
  "unlink_inode_work dn c = Some (dn', c') \<Longrightarrow> commit_view c' = commit_view c \<and> queued c' = queued c \<and> held c' = held c"
  by (auto simp: unlink_inode_work_def Let_def split: linkage.splits if_splits)

lemma remove_dentry_wake:
  "remove_dentry env k c = Some c' \<Longrightarrow> commit_view c' = commit_view c \<and> queued c' = queued c \<and> held c' = held c"
  by (auto simp: remove_dentry_def unpin_child_and_check_def Let_def bind_eq_Some_conv split_paired_Ex
      dest!: unlink_work_wake wake.dput_view split: if_splits)

lemma try_trim_wake:
  "try_trim_snap_dentry env ss k c = Some (t, c') \<Longrightarrow> commit_view c' = commit_view c \<and> queued c' = queued c \<and> held c' = held c"
  by (auto simp: try_trim_snap_dentry_def Let_def bind_eq_Some_conv dest!: remove_dentry_wake
      split: if_splits linkage.splits)

lemma commit_entry_wake:
  "commit_entry env de snaps k (b, c) = Some (w, b', c') \<Longrightarrow> commit_view c' = commit_view c \<and> queued c' = queued c \<and> held c' = held c"
  by (auto simp: commit_entry_def Let_def bind_eq_Some_conv split_paired_Ex dest!: try_trim_wake
      split: if_splits option.splits)

lemma commit_loop_wake:
  "commit_loop env de snaps ks (b, c) = Some (b', c') \<Longrightarrow> commit_view c' = commit_view c \<and> queued c' = queued c \<and> held c' = held c"
  by (induction ks arbitrary: b c)
    (auto simp: bind_eq_Some_conv send_op_def dest!: commit_entry_wake split: if_splits)

lemma omap_commit_wake:
  "omap_commit env de c = Some c' \<Longrightarrow> commit_view c' = commit_view c \<and> queued c' = queued c \<and> held c' = held c"
  by (auto simp: omap_commit_def Let_def bind_eq_Some_conv send_op_def dest!: commit_loop_wake)

lemma mark_clean_wake: "mark_clean c = Some c' \<Longrightarrow> commit_view c' = commit_view c \<and> queued c' = queued c \<and> held c' = held c"
  by (auto simp: mark_clean_def dest!: wake.dput_view split: if_splits) (auto simp: state_bits)

lemma clean_inode_wake: "clean_inode env de v k c = Some c' \<Longrightarrow> commit_view c' = commit_view c \<and> queued c' = queued c \<and> held c' = held c"
  by (cases "map_of (items c) k"; cases "dn_linkage (the (map_of (items c) k))")
    (auto simp: clean_inode_def split: if_splits)

lemma clean_dentry_wake: "clean_dentry env de v k c = Some c' \<Longrightarrow> commit_view c' = commit_view c \<and> queued c' = queued c \<and> held c' = held c"
  by (auto simp: clean_dentry_def Let_def bind_eq_Some_conv dest!: remove_dentry_wake split: if_splits)

lemma clean_loop_wake: "clean_loop env de v ks c = Some c' \<Longrightarrow> commit_view c' = commit_view c \<and> queued c' = queued c \<and> held c' = held c"
  by (induction ks arbitrary: c) (auto simp: bind_eq_Some_conv dest!: clean_inode_wake clean_dentry_wake)

lemma commit_view_if [simp]: "commit_view (if b then x else y) = (if b then commit_view x else commit_view y)"
  by simp

lemma remove_or_keep: "(if b then remove_dentry env k d else Some d) = Some c' \<Longrightarrow> commit_view c' = commit_view d"
  by (auto dest: remove_dentry_wake split: if_splits)

lemma remove_log_or_keep:
  "(if b then do { x \<leftarrow> remove_dentry env k d; Some (case ci of None \<Rightarrow> x | Some i \<Rightarrow> log_call (e i) x) } else Some d) = Some c'
   \<Longrightarrow> commit_view c' = commit_view d"
  by (auto simp: bind_eq_Some_conv dest!: remove_dentry_wake split: if_splits option.splits)

lemma stray_visit_view:
  assumes "stray_visit env cd k c = Some c'"
  shows "commit_view c' = commit_view c"
proof (cases "map_of (items c) k")
  case (Some dn)
  show ?thesis
  proof (cases "dn_last dn = nosnap env")
    case True
    with assms Some show ?thesis
      by (cases "\<not> is_null dn \<or> dn_projected dn") (simp_all add: stray_visit_def Let_def, drule remove_or_keep, simp)
  next
    case False
    with assms Some show ?thesis
      by (cases "dn_projected dn"; cases "dn_linkage dn")
        (simp_all add: stray_visit_def Let_def del: option.case, (drule remove_log_or_keep, simp)+)
  qed
qed (use assms in \<open>simp add: stray_visit_def\<close>)

lemma stray_loop_view: "stray_loop env cd ks c = Some c' \<Longrightarrow> commit_view c' = commit_view c"
  by (induction ks arbitrary: c) (auto simp: bind_eq_Some_conv dest!: stray_visit_view)

lemma try_remove_stray_view: "try_remove_dentries_for_stray env c = Some c' \<Longrightarrow> commit_view c' = commit_view c"
  by (auto simp: try_remove_dentries_for_stray_def Let_def bind_eq_Some_conv dest!: stray_loop_view mark_clean_wake
      split: if_splits)

section \<open>The invariant\<close>

text \<open>
  The three versions are ordered; the state bit says whether a write is in flight; every waiter wants
  a version that is not on disk yet and that exists; and whoever waits, waits for a write in flight.
\<close>

definition view_ok :: "version_t \<times> version_t \<times> version_t \<times> (version_t \<times> context_t list) list \<times> bool \<Rightarrow> bool" where
  "view_ok x = (case x of (cur, ing, ed, ws, flag) \<Rightarrow>
     ed \<le> ing \<and> ing \<le> cur \<and> (flag \<longleftrightarrow> ed < ing) \<and> om_ok ws \<and> (\<forall>p\<in>set ws. ed < fst p \<and> fst p \<le> cur) \<and>
     (ws \<noteq> [] \<longrightarrow> ed < ing))"

definition commit_inv :: "cdir \<Rightarrow> bool" where
  "commit_inv c \<longleftrightarrow> view_ok (commit_view c)"

lemma commit_inv_cong: "commit_view c' = commit_view c \<Longrightarrow> commit_inv c' = commit_inv c"
  by (simp add: commit_inv_def)

lemma commit_work_view:
  assumes "commit_work env de want c = Some c'"
  shows "queued c' = queued c \<and> held c' = held c \<and> commit_view c' =
    (if committing_version c \<le> committed_version c \<and> committed_version c < want
     then (get_version c, get_version c, committed_version c, waiting_for_commit c, True)
     else commit_view c)"
proof (cases "committed_version c \<ge> want \<or> committing_version c \<ge> want \<or> committing_version c > committed_version c")
  case True
  with assms show ?thesis by (auto simp: commit_work_def split: if_splits)
next
  case False
  let ?c1 = "c\<lparr>committing_version := get_version c\<rparr>"
  have t: "commit_view (state_set STATE_COMMITTING ?c1) = (get_version c, get_version c, committed_version c, waiting_for_commit c, True)"
    "state_test STATE_COMMITTING ?c1 \<Longrightarrow> commit_view ?c1 = (get_version c, get_version c, committed_version c, waiting_for_commit c, True)"
    by (simp_all add: commit_view_def get_version_def state_test_set)
      (simp_all add: state_set_def state_bits)
  from False assms obtain d where d: "omap_commit env de d = Some c'" "queued d = queued c" "held d = held c"
    "commit_view d = (get_version c, get_version c, committed_version c, waiting_for_commit c, True)"
    using t by (auto simp: commit_work_def Let_def split: if_splits)
  with omap_commit_wake [OF d(1)] False show ?thesis by auto
qed

lemma commit_linked:
  assumes "commit env de up want0 ctx ign c = Some c'" "\<not> (iv_nlink (cd_inode c) = 0 \<and> \<not> iv_snaprealm (cd_inode c))"
    "want = (if want0 = 0 then get_version c else want0)" "x = (case ctx of Some x \<Rightarrow> x | None \<Rightarrow> NOOP)"
  obtains d where "commit_work env de want d = Some c'" "committed_version c < want"
    "commit_view d = (get_version c, committing_version c, committed_version c,
       om_set want (om_get [] want (waiting_for_commit c) @ [x]) (waiting_for_commit c), state_test STATE_COMMITTING c)"
proof -
  obtain c1 where c1: "(if waiting_for_commit c = [] then auth_pin c else Some c) = Some c1" "committed_version c < want"
      "commit_work env de want (c1\<lparr>waiting_for_commit := om_set want (om_get [] want (waiting_for_commit c1) @ [x]) (waiting_for_commit c1)\<rparr>) = Some c'"
    using assms by (auto simp: commit_def Let_def bind_eq_Some_conv)
  have "commit_view c1 = commit_view c" using c1(1) by (auto dest: commit.auth_pin_view split: if_splits)
  then show thesis by (intro that [OF c1(3,2)]) (simp add: commit_view_def get_version_def state_test_def)
qed

lemma commit_keeps_inv:
  assumes "commit_inv c" "commit env de up want0 ctx ign c = Some c'" "want0 \<le> get_version c"
  shows "commit_inv c'"
proof (cases "iv_nlink (cd_inode c) = 0 \<and> \<not> iv_snaprealm (cd_inode c)")
  case True
  with assms show ?thesis
    by (auto simp: commit_def Let_def bind_eq_Some_conv commit_inv_def dest!: try_remove_stray_view split: option.splits)
next
  case False
  let ?w = "if want0 = 0 then get_version c else want0"
  obtain x d where d: "commit_work env de ?w d = Some c'" "committed_version c < ?w"
    "commit_view d = (get_version c, committing_version c, committed_version c,
       om_set ?w (om_get [] ?w (waiting_for_commit c) @ [x]) (waiting_for_commit c), state_test STATE_COMMITTING c)"
    by (rule commit_linked [OF assms(2) False refl refl]) blast
  have w: "?w \<le> get_version c" using assms(3) by simp
  have f: "get_version d = get_version c" "committing_version d = committing_version c" "committed_version d = committed_version c"
    "waiting_for_commit d = om_set ?w (om_get [] ?w (waiting_for_commit c) @ [x]) (waiting_for_commit c)"
    using d(3) by (simp_all add: commit_view_def)
  have inv: "view_ok (commit_view c)" using assms(1) by (simp add: commit_inv_def)
  have ws: "om_ok (waiting_for_commit d)" "\<forall>p\<in>set (waiting_for_commit d). committed_version c < fst p \<and> fst p \<le> get_version c"
    using inv d(2) w om_set_entries [of ?w "om_get [] ?w (waiting_for_commit c) @ [x]" "waiting_for_commit c"]
    by (auto simp: f view_ok_def commit_view_def simp del: om_set.simps)
  from inv ws d(2) w commit_work_view [OF d(1)] show ?thesis
    unfolding commit_inv_def d(3) f by (auto simp: view_ok_def commit_view_def f)
qed

section \<open>Completion\<close>

lemma kick_waiters_view:
  assumes "kick_waiters env de ws c = Some c'" "waiting_for_commit c = ws" "om_ok ws"
  shows "queued c' = queued c @ concat (map snd (takeWhile (\<lambda>p. fst p \<le> committed_version c) ws)) \<and> held c' = held c \<and>
     commit_view c' =
       (case dropWhile (\<lambda>p. fst p \<le> committed_version c) ws of
          [] \<Rightarrow> (get_version c, committing_version c, committed_version c, [], state_test STATE_COMMITTING c)
        | p # ps \<Rightarrow> if committing_version c \<le> committed_version c
            then (get_version c, get_version c, committed_version c, p # ps, True)
            else (get_version c, committing_version c, committed_version c, p # ps, state_test STATE_COMMITTING c))"
  using assms
proof (induction ws arbitrary: c)
  case Nil
  then show ?case by (simp add: commit_view_def)
next
  case (Cons p ws)
  show ?case
  proof (cases "fst p > committed_version c")
    case True
    with Cons.prems commit_work_view [of env de "fst p" c c'] show ?thesis by (auto simp: commit_view_def)
  next
    case False
    let ?d = "log_call (OnServer (QueueWaiters (snd p))) (c\<lparr>waiting_for_commit := om_erase (fst p) (waiting_for_commit c)\<rparr>)"
    have e: "om_erase (fst p) (p # ws) = ws"
      using Cons.prems(3) by (auto simp: om_erase_def intro!: filter_True)
    have k: "kick_waiters env de ws ?d = Some c'" "waiting_for_commit ?d = ws" "om_ok ws"
      using Cons.prems False e by (simp_all add: log_call_def)
    have f: "get_version ?d = get_version c" "committing_version ?d = committing_version c"
      "committed_version ?d = committed_version c" "state_test STATE_COMMITTING ?d = state_test STATE_COMMITTING c"
      by (simp_all add: log_call_def get_version_def state_test_def)
    from Cons.IH [OF k] False show ?thesis unfolding f by (simp add: not_less)
  qed
qed

text \<open>The waiters are sorted by the version they want, so those that are served are a prefix.\<close>

lemma served_prefix:
  assumes "om_ok (ws :: (version_t \<times> context_t list) list)"
  shows "takeWhile (\<lambda>p. fst p \<le> v) ws = filter (\<lambda>p. fst p \<le> v) ws" "dropWhile (\<lambda>p. fst p \<le> v) ws = filter (\<lambda>p. v < fst p) ws"
proof -
  have "takeWhile (\<lambda>p. fst p \<le> v) ws = filter (\<lambda>p. fst p \<le> v) ws \<and> dropWhile (\<lambda>p. fst p \<le> v) ws = filter (\<lambda>p. v < fst p) ws"
    using assms
  proof (induction ws)
    case (Cons p ws)
    show ?case
    proof (cases "fst p \<le> v")
      case False
      then have "\<forall>q\<in>set ws. v < fst q" using Cons.prems by auto
      with False show ?thesis by (auto simp: filter_empty_conv not_le)
    qed (use Cons in auto)
  qed simp
  then show "takeWhile (\<lambda>p. fst p \<le> v) ws = filter (\<lambda>p. fst p \<le> v) ws" "dropWhile (\<lambda>p. fst p \<le> v) ws = filter (\<lambda>p. v < fst p) ws"
    by simp_all
qed

definition still_waiting :: "version_t \<Rightarrow> cdir \<Rightarrow> (version_t \<times> context_t list) list" where
  "still_waiting v c = filter (\<lambda>p. v < fst p) (waiting_for_commit c)"

lemma committed_view:
  assumes inv: "commit_inv c" and run: "committed env de r (committing_version c) c = Some c'" and r: "r \<ge> 0"
  obtains c7 where "queued c7 = queued c @ concat (map snd (filter (\<lambda>p. fst p \<le> committing_version c) (waiting_for_commit c)))"
    "commit_view c7 = commit_view c'" "held c7 = held c"
    "commit_view c' = (let v = committing_version c; ws = still_waiting v c
       in (get_version c, if ws = [] then v else get_version c, v, ws, ws \<noteq> []))"
    "if waiting_for_commit c \<noteq> [] \<and> still_waiting (committing_version c) c = [] then auth_unpin c7 = Some c' else c' = c7"
proof -
  let ?v = "committing_version c"
  let ?c1 = "c\<lparr>committed_version := ?v\<rparr>"
  let ?c3 = "(if committing_version ?c1 = committed_version ?c1 then state_clear STATE_COMMITTING ?c1 else ?c1)\<lparr>item_new := False\<rparr>"
  from r have nr: "\<not> r < 0" by simp
  obtain c4 c5 c6 where s: "(if committed_version ?c3 = get_version ?c3 then mark_clean ?c3 else Some ?c3) = Some c4"
      "clean_loop env de ?v (map fst (items c4)) c4 = Some c5"
      "kick_waiters env de (waiting_for_commit c5) c5 = Some c6"
      "(let c7 = (if iv_nlink (cd_inode c6) = 0 \<and> iv_snaprealm (cd_inode c6)
                  then log_call (OnServer MaybeEvalStray) c6 else c6)
        in if waiting_for_commit c5 \<noteq> [] \<and> waiting_for_commit c7 = [] then auth_unpin c7 else Some c7) = Some c'"
    using run unfolding committed_def Let_def if_not_P [OF nr] bind_assert_eq_Some bind_eq_Some_conv by blast
  have c3: "commit_view ?c3 = (get_version c, ?v, ?v, waiting_for_commit c, False)" "queued ?c3 = queued c" "held ?c3 = held c"
    using state_test_clear_same [of STATE_COMMITTING ?c1]
    by (simp_all add: commit_view_def get_version_def state_test_def) (simp_all add: state_clear_def)
  have c4: "commit_view c4 = commit_view ?c3" "queued c4 = queued ?c3" "held c4 = held ?c3"
    using s(1) mark_clean_wake by (auto split: if_splits)
  have c5: "commit_view c5 = commit_view ?c3" "queued c5 = queued c" "held c5 = held c" using clean_loop_wake [OF s(2)] c4 c3 by auto
  then have f: "get_version c5 = get_version c" "committing_version c5 = ?v" "committed_version c5 = ?v"
    "waiting_for_commit c5 = waiting_for_commit c" "\<not> state_test STATE_COMMITTING c5"
    using c3 by (simp_all add: commit_view_def)
  have ok: "om_ok (waiting_for_commit c)" using inv by (simp add: commit_inv_def view_ok_def commit_view_def)
  have c6: "queued c6 = queued c @ concat (map snd (filter (\<lambda>p. fst p \<le> ?v) (waiting_for_commit c)))" "held c6 = held c"
    "commit_view c6 = (let ws = still_waiting ?v c in (get_version c, if ws = [] then ?v else get_version c, ?v, ws, ws \<noteq> []))"
    using kick_waiters_view [OF s(3) refl] ok
    by (auto simp: f c5 served_prefix still_waiting_def Let_def split: list.splits)
  let ?c7 = "if iv_nlink (cd_inode c6) = 0 \<and> iv_snaprealm (cd_inode c6) then log_call (OnServer MaybeEvalStray) c6 else c6"
  have c7: "queued ?c7 = queued c6" "commit_view ?c7 = commit_view c6" "held ?c7 = held c6" by simp_all
  then have w7: "waiting_for_commit ?c7 = still_waiting ?v c" using c6(3) by (simp add: commit_view_def Let_def)
  have fin: "if waiting_for_commit c \<noteq> [] \<and> still_waiting ?v c = [] then auth_unpin ?c7 = Some c' else c' = ?c7"
    using s(4) unfolding Let_def f(4) w7 by (auto split: if_splits)
  then have "commit_view c' = commit_view ?c7" using commit.auth_unpin_view by (auto split: if_splits)
  with c6 c7 fin show thesis by (intro that [of ?c7]) (simp_all add: Let_def)
qed

lemma still_waiting_ok: "commit_inv c \<Longrightarrow> om_ok (still_waiting v c) \<and> (\<forall>p\<in>set (still_waiting v c). v < fst p \<and> fst p \<le> get_version c)"
  by (auto simp: still_waiting_def commit_inv_def view_ok_def commit_view_def)

lemma committed_keeps_inv:
  assumes "commit_inv c" "committed env de r (committing_version c) c = Some c'"
  shows "commit_inv c'"
proof (cases "r < 0")
  case True
  with assms show ?thesis by (auto simp: committed_def commit_inv_def)
next
  case False
  let ?v = "committing_version c"
  have v: "commit_view c' = (let v = ?v; ws = still_waiting v c in (get_version c, if ws = [] then v else get_version c, v, ws, ws \<noteq> []))"
    by (rule committed_view [OF assms]) (use False in \<open>simp_all\<close>)
  have "?v \<le> get_version c" using assms(1) by (simp add: commit_inv_def view_ok_def commit_view_def)
  moreover have "?v < get_version c" if "still_waiting ?v c \<noteq> []"
    using still_waiting_ok [OF assms(1), of ?v] that by (cases "still_waiting ?v c") auto
  ultimately show ?thesis
    using still_waiting_ok [OF assms(1), of ?v] unfolding commit_inv_def v by (auto simp: view_ok_def Let_def)
qed

lemma rejoin_committing: "STATE_COMMITTING AND STATE_REJOINUNDEF = 0"
  by (simp add: state_bits)

lemma take_fnode_keeps_inv:
  assumes "commit_inv c" "take_fnode de got c = Some c'"
  shows "commit_inv c'"
proof (cases "get_version c = 0")
  case True
  then have ws: "waiting_for_commit c = []"
    using assms(1) by (cases "waiting_for_commit c") (auto simp: commit_inv_def view_ok_def commit_view_def)
  have "commit_view c' = (fn_version got, fn_version got, fn_version got, [], False)"
    using assms(2) True ws rejoin_committing
    by (auto simp: take_fnode_def Let_def bind_eq_Some_conv split: if_splits)
      (simp_all add: commit_view_def get_version_def state_test_def)
  then show ?thesis by (simp add: commit_inv_def view_ok_def)
qed (use assms in \<open>simp add: take_fnode_def\<close>)

section \<open>The protocol as a machine\<close>

text \<open>
  The steps: a request, the completion of the write in flight (with its result), a fetched header,
  and any operation that leaves the protocol's own state alone and does not take the version back,
  such as \<^verbatim>\<open>mark_dirty\<close>. A request for a version that does not exist yet is left out: the code lets it
  through on a fragment without a version, and then aborts (\<open>commit_unversioned_aborts\<close>).
\<close>

inductive commit_reach :: "dentry_env \<Rightarrow> disk_env \<Rightarrow> cdir \<Rightarrow> bool" for env de where
  commit_start: "cdir_new api now inode fg auth = Some c \<Longrightarrow> commit_reach env de c"
| commit_request: "commit_reach env de c \<Longrightarrow> want \<le> get_version c \<Longrightarrow>
     commit env de up want ctx ign c = Some c' \<Longrightarrow> commit_reach env de c'"
| commit_complete: "commit_reach env de c \<Longrightarrow> state_test STATE_COMMITTING c \<Longrightarrow>
     committed env de r (committing_version c) c = Some c' \<Longrightarrow> commit_reach env de c'"
| commit_fetched: "commit_reach env de c \<Longrightarrow> take_fnode de got c = Some c' \<Longrightarrow> commit_reach env de c'"
| commit_other: "commit_reach env de c \<Longrightarrow> get_version c \<le> get_version c' \<Longrightarrow>
     commit_view c' = (get_version c', snd (commit_view c)) \<Longrightarrow> commit_reach env de c'"

lemma commit_reach_inv: "commit_reach env de c \<Longrightarrow> commit_inv c"
proof (induction rule: commit_reach.induct)
  case (commit_start api now inode fg auth c)
  then show ?case
    by (auto simp: cdir_new_def commit_inv_def view_ok_def commit_view_def get_version_def state_test_def state_bits fnode_new_def
        split: if_splits)
next
  case (commit_request c want up ctx ign c')
  then show ?case by (auto intro: commit_keeps_inv)
next
  case (commit_complete c r c')
  then show ?case by (auto intro: committed_keeps_inv)
next
  case (commit_fetched c got c')
  then show ?case by (auto intro: take_fnode_keeps_inv)
next
  case (commit_other c c')
  then show ?case by (fastforce simp: commit_inv_def view_ok_def commit_view_def)
qed

section \<open>An example\<close>

definition commit_example :: "cdir option" where
  "commit_example = do { c \<leftarrow> store_example; commit dirty_env plain_disk [] 0 (Some 42) False c }"

lemma commit_example_ok:
  obtains c where "commit_example = Some c" "commit_reach dirty_env plain_disk c" "waiting_for_commit c = [(5, [42])]"
proof -
  have e: "case store_example of None \<Rightarrow> False | Some c \<Rightarrow> commit_view c = (5, 0, 0, [], False)" by code_simp
  then obtain s where s: "store_example = Some s" "commit_view s = (5, 0, 0, [], False)"
    by (auto split: option.splits)
  have p: "commit_view plain_dir = (0, 0, 0, [], False)" by code_simp
  have r: "commit_reach dirty_env plain_disk s"
    by (rule commit_other [OF commit_start [OF plain_dir_new]]) (use s(2) p in \<open>simp_all add: commit_view_def\<close>)
  have "case commit_example of None \<Rightarrow> False | Some c \<Rightarrow> waiting_for_commit c = [(5, [42])]" by code_simp
  then obtain c where c: "commit_example = Some c" "waiting_for_commit c = [(5, [42])]" by (auto split: option.splits)
  have "commit dirty_env plain_disk [] 0 (Some 42) False s = Some c"
    using c(1) unfolding commit_example_def s(1) bind.bind_lunit .
  then have "commit_reach dirty_env plain_disk c" by (rule commit_request [OF r, rotated]) (rule word_zero_le)
  then show thesis by (rule that [OF c(1) _ c(2)])
qed

section \<open>Properties\<close>

text \<open>C11: in every state the commit protocol reaches, the version on disk is at most the version
  being written, which is at most the current one; the committing flag is set exactly while a write
  is in flight; and every waiter wants an existing version that is not on disk yet and waits for a
  write in flight.\<close>

theorem commit_protocol:
  assumes "commit_reach env de c"
  shows "committed_version c \<le> committing_version c \<and> committing_version c \<le> get_version c \<and>
    (state_test STATE_COMMITTING c \<longleftrightarrow> committed_version c < committing_version c) \<and>
    (\<forall>p\<in>set (waiting_for_commit c). committed_version c < fst p \<and> fst p \<le> get_version c) \<and>
    (waiting_for_commit c \<noteq> [] \<longrightarrow> committed_version c < committing_version c)"
  using commit_reach_inv [OF assms] by (simp add: commit_inv_def view_ok_def commit_view_def)

theorem commit_protocol_witness:
  "\<exists>c. commit_example = Some c \<and> waiting_for_commit c = [(5, [42])] \<and> committed_version c < committing_version c \<and>
     state_test STATE_COMMITTING c"
proof -
  obtain c where c: "commit_example = Some c" "commit_reach dirty_env plain_disk c" "waiting_for_commit c = [(5, [42])]"
    by (rule commit_example_ok)
  have "committed_version c < committing_version c" "state_test STATE_COMMITTING c"
    using commit_protocol [OF c(2)] c(3) by simp_all
  then show ?thesis by (intro exI conjI) (rule c(1,3) | assumption)+
qed

text \<open>C12: the completion of the write in flight makes its version the one on disk and wakes exactly
  the waiters for versions up to it, in the order of the versions; the others keep waiting, and if
  there are any the next write is in flight and covers all of them. Up to that point the auth pins of
  the fragment, its nested pins and the state of a freeze are those before the completion; if the last
  waiter was woken the fragment is then auth-unpinned once, and otherwise that is the result.\<close>

theorem completion_wakes_exactly:
  assumes "commit_reach env de c" "r \<ge> 0" "committed env de r (committing_version c) c = Some c'"
  shows "\<exists>c7. let v = committing_version c; ws = waiting_for_commit c; rest = filter (\<lambda>p. v < fst p) ws in
     queued c7 = queued c @ concat (map snd (filter (\<lambda>p. fst p \<le> v) ws)) \<and>
     auth_pins c7 = auth_pins c \<and> nested_auth_pins c7 = nested_auth_pins c \<and> dir_auth_pins c7 = dir_auth_pins c \<and>
     fmode_of c7 = fmode_of c \<and>
     (if ws \<noteq> [] \<and> rest = [] then auth_unpin c7 = Some c' else c' = c7) \<and>
     committed_version c' = v \<and> waiting_for_commit c' = rest \<and> get_version c' = get_version c \<and>
     state_test STATE_COMMITTING c' = (rest \<noteq> []) \<and>
     committing_version c' = (if rest = [] then v else get_version c)"
proof -
  obtain c7 where "queued c7 = queued c @ concat (map snd (filter (\<lambda>p. fst p \<le> committing_version c) (waiting_for_commit c)))"
    and v: "commit_view c' = (let v = committing_version c; ws = still_waiting v c
       in (get_version c, if ws = [] then v else get_version c, v, ws, ws \<noteq> []))"
    and "held c7 = held c"
    and "if waiting_for_commit c \<noteq> [] \<and> still_waiting (committing_version c) c = [] then auth_unpin c7 = Some c' else c' = c7"
    by (rule committed_view [OF commit_reach_inv [OF assms(1)] assms(3,2)])
  then show ?thesis
    by (intro exI [of _ c7]) (simp add: Let_def still_waiting_def commit_view_def held_def)
qed

theorem completion_wakes_exactly_witness:
  "\<exists>c c' c7. commit_example = Some c \<and> committed dirty_env plain_disk 0 (committing_version c) c = Some c' \<and>
     queued c7 = queued c @ [42] \<and> auth_pins c7 = auth_pins c \<and> auth_unpin c7 = Some c' \<and> committed_version c' = 5 \<and> waiting_for_commit c' = []"
proof -
  obtain c where c: "commit_example = Some c" "commit_reach dirty_env plain_disk c" "waiting_for_commit c = [(5, [42])]"
    by (rule commit_example_ok)
  have "case commit_example of None \<Rightarrow> False | Some c \<Rightarrow> committing_version c = 5 \<and>
      \<not> Option.is_none (committed dirty_env plain_disk 0 (committing_version c) c)" by code_simp
  then have v: "committing_version c = 5" and "\<not> Option.is_none (committed dirty_env plain_disk 0 (committing_version c) c)"
    unfolding c(1) option.case by (rule conjunct1, rule conjunct2)
  then obtain c' where c': "committed dirty_env plain_disk 0 (committing_version c) c = Some c'"
    by (auto simp: Option.is_none_def)
  obtain c7 where "queued c7 = queued c @ [42]" "auth_pins c7 = auth_pins c" "auth_unpin c7 = Some c'" "committed_version c' = 5" "waiting_for_commit c' = []"
    using completion_wakes_exactly [OF c(2) order_refl c'] c(3) v by (auto simp: Let_def)
  then show ?thesis by (intro exI conjI) (rule c(1) c' | assumption)+
qed

text \<open>A request for a version on a fragment that has none passes the checks of \<^verbatim>\<open>commit\<close> and is
  written with version 0; the completion of that write aborts in whatever state it finds.\<close>

lemma commit_unversioned_aborts:
  assumes "commit env de up want ctx ign c = Some c'" "get_version c = 0" "committing_version c = 0" "committed_version c = 0"
    "iv_nlink (cd_inode c) \<noteq> 0"
  shows "want \<noteq> 0 \<and> committing_version c' = 0 \<and> state_test STATE_COMMITTING c' \<and>
     (r \<ge> 0 \<longrightarrow> committed env de r (committing_version c') d = None)"
proof -
  have l: "\<not> (iv_nlink (cd_inode c) = 0 \<and> \<not> iv_snaprealm (cd_inode c))" using assms(5) by simp
  obtain x d' where d: "commit_work env de (if want = 0 then get_version c else want) d' = Some c'"
    "committed_version c < (if want = 0 then get_version c else want)"
    "commit_view d' = (get_version c, committing_version c, committed_version c,
       om_set (if want = 0 then get_version c else want) (om_get [] (if want = 0 then get_version c else want) (waiting_for_commit c) @ [x]) (waiting_for_commit c), state_test STATE_COMMITTING c)"
    by (rule commit_linked [OF assms(1) l refl refl]) blast
  have "want \<noteq> 0" using d(2) assms(2,4) by auto
  moreover have "commit_view c' = (0, 0, 0, waiting_for_commit d', True)"
    using commit_work_view [OF d(1)] d(2,3) assms(2-4) by (auto simp: commit_view_def)
  ultimately show ?thesis by (auto simp: commit_view_def committed_def)
qed

lemma commit_unversioned_aborts_witness:
  "\<exists>c'. commit dirty_env plain_disk [] 3 None False plain_dir = Some c' \<and>
     committed dirty_env plain_disk 0 (committing_version c') c' = None"
proof -
  have "\<not> Option.is_none (commit dirty_env plain_disk [] 3 None False plain_dir)" by code_simp
  then obtain c' where c': "commit dirty_env plain_disk [] 3 None False plain_dir = Some c'"
    by (auto simp: Option.is_none_def)
  have "get_version plain_dir = 0" "committing_version plain_dir = 0" "committed_version plain_dir = 0"
    "iv_nlink (cd_inode plain_dir) \<noteq> 0" by code_simp+
  from commit_unversioned_aborts [OF c' this, of 0 c'] c' show ?thesis by auto
qed

end
