(* ===== verification/Balancer_Plan.thy ===== *)
theory Balancer_Plan
  imports CDir_Base
begin

text \<open>
  The balancer (\<^verbatim>\<open>src/src/mds/MDBalancer.h\<close>, \<^verbatim>\<open>MDBalancer.cc\<close>): its state, the load of a server, and
  the plan of \<^verbatim>\<open>prep_rebalance\<close>, which decides how much load each overloaded server sends to which
  underloaded one.

  \<open>bal_conf\<close> is the part of \<^verbatim>\<open>g_conf\<close> the balancer reads; \<open>bal_env\<close> is what it asks of the daemon, the
  cluster map and the clock. \<^verbatim>\<open>operator[]\<close> on a map inserts a zero for a missing key: reading a value
  that way (\<open>om_ref\<close>) returns the map too.
\<close>

section \<open>State\<close>

record bal_conf =
  mds_bal_sample_interval :: double
  mds_bal_replicate_threshold :: double
  mds_bal_unreplicate_threshold :: double
  mds_bal_frag :: bool
  mds_bal_split_size :: int
  mds_bal_split_rd :: double
  mds_bal_split_wr :: double
  mds_bal_split_bits :: nat
  mds_bal_merge_size :: int
  mds_bal_interval :: int
  mds_bal_fragment_interval :: int
  mds_bal_idle_threshold :: double
  mds_bal_max :: int
  mds_bal_max_until :: int
  mds_bal_mode :: int
  mds_bal_min_rebalance :: double
  mds_bal_min_start :: double
  mds_bal_need_min :: double
  mds_bal_need_max :: double
  mds_bal_midchunk :: double
  mds_bal_minchunk :: double
  mds_bal_target_removal_min :: int
  mds_bal_target_removal_max :: int
  mds_bal_minoffload :: int
  mds_bal_lua :: int
  mds_bal_metaload :: string
  mds_bal_mdsload :: string
  mds_bal_when :: string
  mds_bal_where :: string
  mds_bal_howmuch :: string
  mds_bal_print_dfs :: nat
  mds_bal_print_dfs_metaload :: double
  mds_bal_print_dfs_depth :: int
  mds_thrash_exports :: bool
  mds_thrash_fragments :: bool

text \<open>
  Scripts that return a string: the chunk, then the global array \<^verbatim>\<open>arg\<close> (the log file first, then
  numbers). \<open>be_uninit\<close> is what an uninitialised character array happens to hold.
\<close>

datatype lua_result = LuaError | LuaNil | LuaString string

record bal_env =
  be_conf :: bal_conf
  be_whoami :: mds_rank_t
  be_num_in :: nat
  be_up_mds :: "mds_rank_t list"
  be_now :: utime_t
  be_decayrate :: double
  be_api :: dir_api
  be_lua :: lua_run
  be_lua_str :: "string \<Rightarrow> string \<Rightarrow> double list \<Rightarrow> lua_result"
  be_log_file :: string
  be_uninit :: string

type_synonym bal_dirfrag = "frag_t dirfrag_t"
type_synonym bal_load = "decay_counter mds_load_t"

text \<open>What the balancer asks of the others; a directory fragment is named by a number.\<close>

datatype bal_call =
    ClearExportQueue | ShowSubtrees
  | SendHeartbeat mds_rank_t bal_load int "(mds_rank_t \<times> double) list"
  | WaitForOpen | RetryMessage
  | ExportDirNicely nat mds_rank_t
  | SendLoadTargets "mds_rank_t list"
  | SplitDir bal_dirfrag nat | MergeDir inodeno_t frag_t
  | SendDirUpdates nat bool

record balancer =
  beat_epoch :: int
  last_epoch_under :: int
  last_epoch_over :: int
  last_heartbeat :: utime_t
  last_fragment :: utime_t
  last_sample :: utime_t
  rebalance_time :: utime_t
  bal_cpu_load_avg :: double
  cpu_work_prev :: double
  cpu_total_prev :: double
  total_meta_load :: double
  split_queue :: "bal_dirfrag list"
  merge_queue :: "bal_dirfrag list"
  mds_load :: "(mds_rank_t \<times> bal_load) list"
  mds_meta_load :: "(mds_rank_t \<times> double) list"
  mds_import_map :: "(mds_rank_t \<times> (mds_rank_t \<times> double) list) list"
  bal_nfiles :: double
  my_load :: double
  target_load :: double
  my_targets :: "(mds_rank_t \<times> double) list"
  imported :: "(mds_rank_t \<times> double) list"
  exported :: "(mds_rank_t \<times> double) list"
  old_prev_targets :: "(mds_rank_t \<times> int) list"
  bal_log :: "bal_call list"

definition bal_new :: balancer where
  "bal_new = \<lparr>beat_epoch = 0, last_epoch_under = 0, last_epoch_over = 0, last_heartbeat = 0, last_fragment = 0,
     last_sample = 0, rebalance_time = 0, bal_cpu_load_avg = 0, cpu_work_prev = 0, cpu_total_prev = 0,
     total_meta_load = 0, split_queue = [], merge_queue = [], mds_load = [], mds_meta_load = [],
     mds_import_map = [], bal_nfiles = 0, my_load = 0, target_load = 0, my_targets = [], imported = [],
     exported = [], old_prev_targets = [], bal_log = []\<rparr>"

definition bal_do :: "bal_call \<Rightarrow> balancer \<Rightarrow> balancer" where
  "bal_do e b = b\<lparr>bal_log := bal_log b @ [e]\<rparr>"

definition om_ref :: "'v \<Rightarrow> 'k::linorder \<Rightarrow> ('k \<times> 'v) list \<Rightarrow> ('k \<times> 'v) list" where
  "om_ref d k m = (if map_of m k = None then om_set k d m else m)"

definition om_insert :: "'k::linorder \<Rightarrow> 'v \<Rightarrow> ('k \<times> 'v) list \<Rightarrow> ('k \<times> 'v) list" where
  "om_insert k v m = (if map_of m k = None then om_set k v m else m)"

definition om_incr :: "'k::linorder \<Rightarrow> double \<Rightarrow> ('k \<times> double) list \<Rightarrow> ('k \<times> double) list" where
  "om_incr k x m = om_set k (om_get 0 k m + x) m"

section \<open>The load of a server\<close>

definition mds_load_value :: "bal_env \<Rightarrow> bal_load \<Rightarrow> double option" where
  "mds_load_value e ld =
     (let ml = meta_load (be_api e) (be_lua e) (mds_bal_metaload (be_conf e))
      in if mds_bal_mode (be_conf e) = 0 then
           do { a \<leftarrow> ml (ld_auth ld);
                l \<leftarrow> ml (ld_all ld);
                Some (8 / 10 * a + 2 / 10 * l + req_rate ld + 10 * queue_len ld) }
         else if mds_bal_mode (be_conf e) = 1 then Some (req_rate ld + 10 * queue_len ld)
         else if mds_bal_mode (be_conf e) = 2 then Some (cpu_load_avg ld)
         else None)"

section \<open>Matching exporters with importers\<close>

definition get_maxim :: "mds_rank_t \<Rightarrow> balancer \<Rightarrow> double \<times> balancer" where
  "get_maxim im b =
     (target_load b - om_get 0 im (mds_meta_load b) - om_get 0 im (imported b),
      b\<lparr>mds_meta_load := om_ref 0 im (mds_meta_load b), imported := om_ref 0 im (imported b)\<rparr>)"

definition get_maxex :: "mds_rank_t \<Rightarrow> balancer \<Rightarrow> double \<times> balancer" where
  "get_maxex ex b =
     (om_get 0 ex (mds_meta_load b) - target_load b - om_get 0 ex (exported b),
      b\<lparr>mds_meta_load := om_ref 0 ex (mds_meta_load b), exported := om_ref 0 ex (exported b)\<rparr>)"

text \<open>\<open>try_match\<close> returns what it moves and the two limits it has lowered.\<close>

definition try_match :: "bal_env \<Rightarrow> mds_rank_t \<Rightarrow> double \<Rightarrow> mds_rank_t \<Rightarrow> double \<Rightarrow> balancer
    \<Rightarrow> double \<times> double \<times> double \<times> balancer" where
  "try_match e ex maxex im maxim b =
     (if maxex \<le> 0 \<or> maxim \<le> 0 then (0, maxex, maxim, b)
      else
        let howmuch = min maxex maxim
        in if howmuch \<le> 0 then (0, maxex, maxim, b)
           else
             let b1 = (if ex = be_whoami e then b\<lparr>my_targets := om_incr im howmuch (my_targets b)\<rparr> else b);
                 b2 = b1\<lparr>exported := om_incr ex howmuch (exported b1), imported := om_incr im howmuch (imported b1)\<rparr>
             in (howmuch, maxex - howmuch, maxim - howmuch, b2))"

definition EPS :: double where "EPS = 1 / 1000"

text \<open>The importers an exporter imported from, until it has nothing left to give.\<close>

fun match_sources :: "bal_env \<Rightarrow> mds_rank_t \<Rightarrow> (mds_rank_t \<times> double) list \<Rightarrow> double \<Rightarrow> balancer \<Rightarrow> balancer" where
  "match_sources e ex [] maxex b = b"
| "match_sources e ex (im # ims) maxex b =
     (let (maxim, b1) = get_maxim (fst im) b
      in if maxim \<le> EPS then match_sources e ex ims maxex b1
         else
           let (_, maxex', _, b2) = try_match e ex maxex (fst im) maxim b1
           in if maxex' \<le> EPS then b2 else match_sources e ex ims maxex' b2)"

fun match_imports :: "bal_env \<Rightarrow> (double \<times> mds_rank_t) list \<Rightarrow> balancer \<Rightarrow> balancer" where
  "match_imports e [] b = b"
| "match_imports e (ex # exs) b =
     (let (maxex, b1) = get_maxex (snd ex) b
      in if maxex \<le> EPS then match_imports e exs b1
         else
           let b2 = b1\<lparr>mds_import_map := om_ref [] (snd ex) (mds_import_map b1)\<rparr>
           in match_imports e exs (match_sources e (snd ex) (om_get [] (snd ex) (mds_import_map b2)) maxex b2))"

text \<open>The loop that walks the two lists in step; not returning is the value \<open>None\<close>.\<close>

partial_function (option) match_pairs :: "bal_env \<Rightarrow> (double \<times> mds_rank_t) list \<Rightarrow> (double \<times> mds_rank_t) list
    \<Rightarrow> balancer \<Rightarrow> balancer option" where
  "match_pairs e exs ims b =
     (if exs = [] \<or> ims = [] then Some b
      else
        let ex = snd (hd exs);
            im = snd (hd ims);
            (maxex, b1) = get_maxex ex b;
            (maxim, b2) = get_maxim im b1
        in if maxex < EPS \<or> maxim < EPS then Some b2
           else
             let (_, maxex', maxim', b3) = try_match e ex maxex im maxim b2
             in match_pairs e (if maxex' \<le> EPS then tl exs else exs) (if maxim' \<le> EPS then tl ims else ims) b3)"

lemma match_pairs_code [code]:
  "match_pairs e [] ims b = Some b"
  "match_pairs e (p # exs) [] b = Some b"
  "match_pairs e (p # exs) (q # ims) b =
     (let (maxex, b1) = get_maxex (snd p) b;
          (maxim, b2) = get_maxim (snd q) b1
      in if maxex < EPS \<or> maxim < EPS then Some b2
         else
           let (_, maxex', maxim', b3) = try_match e (snd p) maxex (snd q) maxim b2
           in match_pairs e (if maxex' \<le> EPS then exs else p # exs) (if maxim' \<le> EPS then ims else q # ims) b3)"
  by (subst match_pairs.simps; simp add: Let_def split: prod.split)+

section \<open>The plan\<close>

text \<open>The factor that turns the load of a server into units of metadata load.\<close>

definition load_factor :: "bal_env \<Rightarrow> balancer \<Rightarrow> (double \<times> balancer) option" where
  "load_factor e b =
     (case map_of (mds_load b) (be_whoami e) of
        None \<Rightarrow> Some (1, b)
      | Some ld \<Rightarrow>
          do { v \<leftarrow> mds_load_value e ld;
               if v > 0 then
                 do { (metald, vec) \<leftarrow> meta_load_now (be_api e) (be_lua e) (mds_bal_metaload (be_conf e))
                                       (rebalance_time b) (be_decayrate e) (ld_auth ld);
                      let ld1 = ld\<lparr>ld_auth := vec\<rparr>;
                      mdsld \<leftarrow> mds_load_value e ld1;
                      Some (metald / mdsld, b\<lparr>mds_load := om_set (be_whoami e) ld1 (mds_load b)\<rparr>) }
               else Some (1, b) })"

fun load_loop :: "bal_env \<Rightarrow> double \<Rightarrow> mds_rank_t list \<Rightarrow> double \<times> (double \<times> mds_rank_t) list \<times> balancer
    \<Rightarrow> (double \<times> (double \<times> mds_rank_t) list \<times> balancer) option" where
  "load_loop e load_fac [] s = Some s"
| "load_loop e load_fac (i # is) (total_load, load_map, b) =
     do { let b1 = b\<lparr>mds_load := om_insert i (mds_load_new (be_api e) (be_now e)) (mds_load b)\<rparr>;
          ld \<leftarrow> map_of (mds_load b1) i;
          v \<leftarrow> mds_load_value e ld;
          let l = v * load_fac;
          let b2 = b1\<lparr>mds_meta_load := om_set i l (mds_meta_load b1)\<rparr>;
          let b3 = (if be_whoami e = i then b2\<lparr>my_load := l\<rparr> else b2);
          load_loop e load_fac is (total_load + l, mm_insert l i load_map, b3) }"

text \<open>\<open>load_map\<close> is sorted by load, so inserting its entries in order into the two multimaps is
  filtering it.\<close>

definition importers :: "double \<Rightarrow> (double \<times> mds_rank_t) list \<Rightarrow> (double \<times> mds_rank_t) list" where
  "importers target load_map = fold (\<lambda>p m. if fst p < target then mm_insert (fst p) (snd p) m else m) load_map []"

definition exporters :: "double \<Rightarrow> (double \<times> mds_rank_t) list \<Rightarrow> (double \<times> mds_rank_t) list" where
  "exporters target load_map = fold (\<lambda>p m. if \<not> fst p < target then mm_insert (fst p) (snd p) m else m) load_map []"

definition match_all :: "bal_env \<Rightarrow> int \<Rightarrow> (double \<times> mds_rank_t) list \<Rightarrow> balancer \<Rightarrow> balancer option" where
  "match_all e beat load_map b =
     (let ims = importers (target_load b) load_map;
          exs = exporters (target_load b) load_map;
          b1 = match_imports e (rev exs) b
      in if beat > 0 \<and> beat mod 2 = 1 then match_pairs e (rev exs) ims b1 else match_pairs e exs ims b1)"

text \<open>\<open>prep_rebalance\<close> up to its call of \<^verbatim>\<open>try_rebalance\<close>: whether that call is reached, and the state
  it finds.\<close>

definition prep_plan :: "bal_env \<Rightarrow> int \<Rightarrow> balancer \<Rightarrow> (bool \<times> balancer) option" where
  "prep_plan e beat b =
     (if mds_thrash_exports (be_conf e) then
        Some (True, b\<lparr>my_targets := fold (\<lambda>i m. om_set i 0 m) (be_up_mds e) []\<rparr>)
      else do {
        let b1 = bal_do ClearExportQueue (b\<lparr>rebalance_time := be_now e, my_targets := [], imported := [], exported := []\<rparr>);
        (load_fac, b2) \<leftarrow> load_factor e b1;
        (total_load, load_map, b3) \<leftarrow> load_loop e load_fac (map int [0..<be_num_in e]) (0, [], b2);
        let b4 = b3\<lparr>target_load := total_load / of_nat (be_num_in e)\<rparr>;
        if my_load b4 < target_load b4 * (1 + mds_bal_min_rebalance (be_conf e)) then
          Some (False, bal_do ShowSubtrees (b4\<lparr>last_epoch_under := beat_epoch b4\<rparr>))
        else
          let b5 = b4\<lparr>last_epoch_over := beat_epoch b4\<rparr>
          in if last_epoch_under b5 \<noteq> 0 \<and> beat_epoch b5 - last_epoch_under b5 < 2 then Some (False, b5)
             else do { b6 \<leftarrow> match_all e beat load_map b5; Some (True, b6) } })"

section \<open>Facts on the maps\<close>

lemma om_ref_ok [simp, intro]: "om_ok m \<Longrightarrow> om_ok (om_ref d k m)"
  by (simp add: om_ref_def)

lemma om_get_ref [simp]: "om_ok m \<Longrightarrow> om_get d k' (om_ref d k m) = om_get d k' m"
  by (auto simp: om_ref_def om_get_def)

lemma om_incr_ok [simp, intro]: "om_ok m \<Longrightarrow> om_ok (om_incr k x m)"
  by (simp add: om_incr_def)

lemma om_get_incr [simp]: "om_ok m \<Longrightarrow> om_get 0 k' (om_incr k x m) = om_get 0 k' m + (if k' = k then x else 0)"
  by (simp add: om_incr_def)

definition msum :: "(mds_rank_t \<times> double) list \<Rightarrow> double" where
  "msum m = (\<Sum>p\<leftarrow>m. snd p)"

lemma msum_set: "om_ok m \<Longrightarrow> msum (om_set k x m) = msum m - om_get 0 k m + x"
  unfolding msum_def by (subst om_sum_assign) (auto simp: om_get_def split: option.splits)

lemma msum_ref [simp]: "om_ok m \<Longrightarrow> msum (om_ref 0 k m) = msum m"
  by (simp add: om_ref_def msum_set om_get_def)

lemma msum_incr [simp]: "om_ok m \<Longrightarrow> msum (om_incr k x m) = msum m + x"
  by (simp add: om_incr_def msum_set)

lemma msum_pos:
  assumes "om_ok m" "\<And>k. 0 \<le> om_get 0 k m" "0 < om_get 0 k m"
  shows "0 < msum m"
proof -
  have nn: "0 \<le> x" if "x \<in> set (map snd m)" for x
  proof -
    from that obtain j where "(j, x) \<in> set m" by auto
    then have "om_get 0 j m = x" using om_ok_distinct [OF assms(1)] by (simp add: om_get_def)
    with assms(2) show ?thesis by metis
  qed
  obtain v where v: "map_of m k = Some v" "0 < v"
    using assms(3) by (cases "map_of m k") (auto simp: om_get_def)
  then have "v \<in> set (map snd m)" by (metis map_of_SomeD image_eqI list.set_map snd_conv)
  then have "v \<le> msum m" unfolding msum_def using nn by (intro member_le_sum_list) auto
  with v(2) show ?thesis by simp
qed

section \<open>What a plan promises\<close>

text \<open>
  \<open>surplus\<close> and \<open>deficit\<close> are what a server may still give or take. In a sound plan nobody gives below
  or takes above the target, what is given is what is taken, and the targets of this server are its
  share.
\<close>

definition surplus :: "balancer \<Rightarrow> mds_rank_t \<Rightarrow> double" where
  "surplus b k = om_get 0 k (mds_meta_load b) - target_load b - om_get 0 k (exported b)"

definition deficit :: "balancer \<Rightarrow> mds_rank_t \<Rightarrow> double" where
  "deficit b k = target_load b - om_get 0 k (mds_meta_load b) - om_get 0 k (imported b)"

definition plan_ok :: "bal_env \<Rightarrow> balancer \<Rightarrow> bool" where
  "plan_ok e b \<longleftrightarrow> om_ok (my_targets b) \<and> om_ok (imported b) \<and> om_ok (exported b) \<and> om_ok (mds_meta_load b) \<and>
     (\<forall>k. 0 \<le> om_get 0 k (exported b) \<and> (om_get 0 k (exported b) = 0 \<or> 0 \<le> surplus b k)) \<and>
     (\<forall>k. 0 \<le> om_get 0 k (imported b) \<and> (om_get 0 k (imported b) = 0 \<or> 0 \<le> deficit b k)) \<and>
     (\<forall>k. 0 \<le> om_get 0 k (my_targets b) \<and> om_get 0 k (my_targets b) \<le> om_get 0 k (imported b)) \<and>
     msum (my_targets b) = om_get 0 (be_whoami e) (exported b) \<and> msum (exported b) = msum (imported b)"

text \<open>What matching leaves alone: everything but the three tables and zeroes put into the loads.\<close>

definition plan_view :: "balancer \<Rightarrow> int \<times> int \<times> int \<times> double \<times> double \<times> (mds_rank_t \<Rightarrow> double) \<times> (mds_rank_t \<times> bal_load) list \<times> bal_call list" where
  "plan_view b = (beat_epoch b, last_epoch_under b, last_epoch_over b, target_load b, my_load b,
     (\<lambda>k. om_get 0 k (mds_meta_load b)), mds_load b, bal_log b)"

lemma plan_view_fields:
  assumes "plan_view b' = plan_view b"
  shows "target_load b' = target_load b" "om_get 0 k (mds_meta_load b') = om_get 0 k (mds_meta_load b)"
    "my_load b' = my_load b" "beat_epoch b' = beat_epoch b" "last_epoch_under b' = last_epoch_under b"
  using assms by (auto simp: plan_view_def dest: fun_cong)

lemma get_maxex_ok:
  assumes "get_maxex k b = (x, b')" "plan_ok e b"
  shows "x = surplus b k" "plan_ok e b'" "plan_view b' = plan_view b" "surplus b' = surplus b" "deficit b' = deficit b"
    "\<And>j. om_get 0 j (exported b') = om_get 0 j (exported b)" "\<And>j. om_get 0 j (imported b') = om_get 0 j (imported b)"
    "mds_import_map b' = mds_import_map b"
  using assms by (auto simp: get_maxex_def plan_ok_def surplus_def deficit_def plan_view_def fun_eq_iff)

lemma get_maxim_ok:
  assumes "get_maxim k b = (x, b')" "plan_ok e b"
  shows "x = deficit b k" "plan_ok e b'" "plan_view b' = plan_view b" "surplus b' = surplus b" "deficit b' = deficit b"
    "\<And>j. om_get 0 j (exported b') = om_get 0 j (exported b)" "\<And>j. om_get 0 j (imported b') = om_get 0 j (imported b)"
    "mds_import_map b' = mds_import_map b"
  using assms by (auto simp: get_maxim_def plan_ok_def surplus_def deficit_def plan_view_def fun_eq_iff)

lemma try_match_ok:
  assumes m: "try_match e ex (surplus b ex) im (deficit b im) b = (h, x, y, b')" and ok: "plan_ok e b"
  shows "plan_ok e b'" "plan_view b' = plan_view b" "x = surplus b' ex" "y = deficit b' im" "0 \<le> h"
    "\<And>k. om_get 0 k (exported b') = om_get 0 k (exported b) + (if k = ex then h else 0)"
    "\<And>k. om_get 0 k (imported b') = om_get 0 k (imported b) + (if k = im then h else 0)"
    "0 < surplus b ex \<Longrightarrow> 0 < deficit b im \<Longrightarrow> x = 0 \<or> y = 0"
    "mds_import_map b' = mds_import_map b"
proof -
  have ok': "om_ok (my_targets b)" "om_ok (imported b)" "om_ok (exported b)" using ok by (simp_all add: plan_ok_def)
  show all: "plan_view b' = plan_view b" "x = surplus b' ex" "y = deficit b' im" "0 \<le> h"
    "\<And>k. om_get 0 k (exported b') = om_get 0 k (exported b) + (if k = ex then h else 0)"
    "\<And>k. om_get 0 k (imported b') = om_get 0 k (imported b) + (if k = im then h else 0)"
    "0 < surplus b ex \<Longrightarrow> 0 < deficit b im \<Longrightarrow> x = 0 \<or> y = 0" "mds_import_map b' = mds_import_map b"
    using m ok' by (auto simp: try_match_def Let_def surplus_def deficit_def plan_view_def min_def split: if_splits)
  have h: "h = 0 \<or> h \<le> surplus b ex \<and> h \<le> deficit b im \<and> 0 < h"
    using m by (auto simp: try_match_def Let_def split: if_splits)
  have s: "surplus b' k = surplus b k - (if k = ex then h else 0)" "deficit b' k = deficit b k - (if k = im then h else 0)" for k
    using all(5,6) plan_view_fields(1,2) [OF all(1)] by (simp_all add: surplus_def deficit_def)
  have t: "om_ok (my_targets b')" "om_ok (imported b')" "om_ok (exported b')" "om_ok (mds_meta_load b')"
    "msum (my_targets b') = msum (my_targets b) + (if ex = be_whoami e then h else 0)"
    "om_get 0 k (my_targets b') = om_get 0 k (my_targets b) + (if ex = be_whoami e \<and> k = im then h else 0)"
    "msum (exported b') = msum (exported b) + h" "msum (imported b') = msum (imported b) + h" for k
    using m ok by (auto simp: try_match_def Let_def plan_ok_def split: if_splits)
  have "om_get 0 im (my_targets b) \<le> om_get 0 im (imported b) + h"
    using ok all(4) by (auto simp: plan_ok_def intro: add_increasing2)
  then show "plan_ok e b'"
    using ok h by (auto simp: plan_ok_def t all(5,6) s intro: add_nonneg_nonneg add_mono)
qed

section \<open>The loops keep the plan sound\<close>

lemma match_sources_ok:
  assumes "plan_ok e b" "x = surplus b ex"
  shows "plan_ok e (match_sources e ex ims x b) \<and> plan_view (match_sources e ex ims x b) = plan_view b"
  using assms
proof (induction ims arbitrary: x b)
  case (Cons im ims)
  obtain y b1 where g: "get_maxim (fst im) b = (y, b1)" by fastforce
  note g1 = get_maxim_ok [OF g Cons.prems(1)]
  obtain h x' y' b2 where t: "try_match e ex x (fst im) y b1 = (h, x', y', b2)" by (metis prod_cases4)
  have "try_match e ex (surplus b1 ex) (fst im) (deficit b1 (fst im)) b1 = (h, x', y', b2)"
    using t g1(1,4,5) Cons.prems(2) by simp
  note t1 = try_match_ok [OF this g1(2)]
  show ?case
    using Cons.IH [OF g1(2)] Cons.IH [OF t1(1,3)] g g1 t t1(1,2) Cons.prems(2)
    by (simp add: Let_def)
qed simp

lemma match_imports_ok:
  assumes "plan_ok e b"
  shows "plan_ok e (match_imports e exs b) \<and> plan_view (match_imports e exs b) = plan_view b"
  using assms
proof (induction exs arbitrary: b)
  case (Cons ex exs)
  obtain x b1 where g: "get_maxex (snd ex) b = (x, b1)" by fastforce
  note g1 = get_maxex_ok [OF g Cons.prems]
  let ?b2 = "b1\<lparr>mds_import_map := om_ref [] (snd ex) (mds_import_map b1)\<rparr>"
  have b2: "plan_ok e ?b2" "plan_view ?b2 = plan_view b" "x = surplus ?b2 (snd ex)"
    using g1 by (simp_all add: plan_ok_def plan_view_def surplus_def deficit_def fun_eq_iff)
  let ?b3 = "match_sources e (snd ex) (om_get [] (snd ex) (mds_import_map ?b2)) x ?b2"
  have b3: "plan_ok e ?b3" "plan_view ?b3 = plan_view b"
    using match_sources_ok [OF b2(1,3)] b2(2) by simp_all
  show ?case using Cons.IH [OF g1(2)] Cons.IH [OF b3(1)] g g1(3) b3(2) by (simp add: Let_def)
qed simp

text \<open>One round of the loop over pairs: it stops, or at least one of the two lists gets shorter.\<close>

lemma EPS_pos: "0 < EPS"
  by (simp add: EPS_def)

lemma match_pairs_round:
  assumes "plan_ok e b" "exs \<noteq> []" "ims \<noteq> []"
  obtains b1 where "match_pairs e exs ims b = Some b1" "plan_ok e b1" "plan_view b1 = plan_view b"
      "surplus b1 = surplus b" "deficit b1 = deficit b"
      "\<And>k. om_get 0 k (exported b1) = om_get 0 k (exported b)" "\<And>k. om_get 0 k (imported b1) = om_get 0 k (imported b)"
      "surplus b (snd (hd exs)) < EPS \<or> deficit b (snd (hd ims)) < EPS"
  | b1 h where "match_pairs e exs ims b = match_pairs e (if surplus b1 (snd (hd exs)) \<le> EPS then tl exs else exs)
        (if deficit b1 (snd (hd ims)) \<le> EPS then tl ims else ims) b1"
      "surplus b1 (snd (hd exs)) \<le> EPS \<or> deficit b1 (snd (hd ims)) \<le> EPS"
      "plan_ok e b1" "plan_view b1 = plan_view b"
      "\<And>k. om_get 0 k (exported b1) = om_get 0 k (exported b) + (if k = snd (hd exs) then h else 0)"
      "\<And>k. om_get 0 k (imported b1) = om_get 0 k (imported b) + (if k = snd (hd ims) then h else 0)"
proof -
  let ?ex = "snd (hd exs)" and ?im = "snd (hd ims)"
  obtain x b1 where g: "get_maxex ?ex b = (x, b1)" by fastforce
  note g1 = get_maxex_ok [OF g assms(1)]
  obtain y b2 where k: "get_maxim ?im b1 = (y, b2)" by fastforce
  note k1 = get_maxim_ok [OF k g1(2)]
  obtain h x' y' b3 where t: "try_match e ?ex x ?im y b2 = (h, x', y', b3)" by (metis prod_cases4)
  have "try_match e ?ex (surplus b2 ?ex) ?im (deficit b2 ?im) b2 = (h, x', y', b3)"
    using t g1(1,4) k1(1,4,5) by simp
  note t1 = try_match_ok [OF this k1(2)]
  show thesis
  proof (cases "x < EPS \<or> y < EPS")
    case True
    then have "match_pairs e exs ims b = Some b2"
      using assms(2,3) g k by (subst match_pairs.simps) (simp add: Let_def)
    then show thesis
      by (rule that(1)) (use True g1 k1 in \<open>auto simp: fun_eq_iff\<close>)
  next
    case False
    then have "match_pairs e exs ims b = match_pairs e (if x' \<le> EPS then tl exs else exs) (if y' \<le> EPS then tl ims else ims) b3"
      using assms(2,3) g k t by (subst match_pairs.simps) (simp add: Let_def)
    moreover have "x' = 0 \<or> y' = 0"
      by (rule t1(8)) (use False g1 k1 EPS_pos in auto)
    ultimately show thesis
      by (intro that(2) [of b3 h]) (use t1 g1 k1 EPS_pos in auto)
  qed
qed

lemma match_pairs_ok:
  assumes "plan_ok e b"
  shows "\<exists>b'. match_pairs e exs ims b = Some b' \<and> plan_ok e b' \<and> plan_view b' = plan_view b"
  using assms
proof (induction "length exs + length ims" arbitrary: exs ims b rule: less_induct)
  case less
  show ?case
  proof (cases "exs = [] \<or> ims = []")
    case True
    with less.prems show ?thesis by (subst match_pairs.simps) auto
  next
    case False
    then have ne: "exs \<noteq> []" "ims \<noteq> []" by simp_all
    show ?thesis
    proof (rule match_pairs_round [OF less.prems ne], goal_cases)
      case (1 b1)
      then show ?case by blast
    next
      case (2 b1 h)
      let ?exs = "if surplus b1 (snd (hd exs)) \<le> EPS then tl exs else exs"
      let ?ims = "if deficit b1 (snd (hd ims)) \<le> EPS then tl ims else ims"
      have "length ?exs + length ?ims < length exs + length ims"
        using 2(2) ne by (cases exs; cases ims) auto
      from less.hyps [OF this 2(3)] 2(1,4) show ?case by auto
    qed
  qed
qed

section \<open>Matching biggest exporters first is exhaustive\<close>

text \<open>
  Along the loop the exporters behind the head are untouched and in order of their load, and a head
  that has been used still has something to give; the same holds of the importers. \<open>E\<close> and \<open>I\<close> are the
  exporters and importers at the start.
\<close>

definition lined_up :: "(mds_rank_t \<Rightarrow> double) \<Rightarrow> (mds_rank_t \<Rightarrow> double) \<Rightarrow> (double \<times> mds_rank_t) list \<Rightarrow> bool" where
  "lined_up given left xs \<longleftrightarrow> distinct (map snd xs) \<and> (\<forall>p\<in>set (tl xs). given (snd p) = 0) \<and>
     (xs \<noteq> [] \<longrightarrow> given (snd (hd xs)) = 0 \<or> EPS < left (snd (hd xs)))"

lemma lined_up_tl: "lined_up given left xs \<Longrightarrow> (\<forall>k\<in>snd ` set (tl xs). given' k = given k) \<Longrightarrow> lined_up given' left' (tl xs)"
  by (cases xs; cases "tl xs") (auto simp: lined_up_def)

lemma lined_up_keep:
  "lined_up given left xs \<Longrightarrow> (\<forall>k\<in>snd ` set (tl xs). given' k = given k) \<Longrightarrow> EPS < left' (snd (hd xs)) \<Longrightarrow> lined_up given' left' xs"
  by (cases xs) (auto simp: lined_up_def)

lemma lined_up_next:
  assumes "lined_up given left xs" "xs \<noteq> []" "\<And>k. k \<noteq> snd (hd xs) \<Longrightarrow> given' k = given k"
  shows "lined_up given' left' (if left' (snd (hd xs)) \<le> EPS then tl xs else xs)"
proof -
  have "snd (hd xs) \<notin> snd ` set (tl xs)" using assms(1,2) by (cases xs) (auto simp: lined_up_def)
  then have "\<forall>k\<in>snd ` set (tl xs). given' k = given k" using assms(3) by metis
  with assms(1) show ?thesis by (auto intro: lined_up_tl lined_up_keep)
qed

lemma sum_plus_one:
  "finite A \<Longrightarrow> a \<in> A \<Longrightarrow> (\<And>k. f' k = f k + (if k = a then h else (0::double))) \<Longrightarrow> sum f' A = sum f A + h"
  by (simp add: sum.distrib sum.delta)

abbreviation given_of :: "balancer \<Rightarrow> mds_rank_t \<Rightarrow> double" where
  "given_of b k \<equiv> om_get 0 k (exported b)"

abbreviation taken_of :: "balancer \<Rightarrow> mds_rank_t \<Rightarrow> double" where
  "taken_of b k \<equiv> om_get 0 k (imported b)"

lemma match_pairs_complete:
  assumes "plan_ok e b" "lined_up (given_of b) (surplus b) exs" "lined_up (taken_of b) (deficit b) ims"
    "sorted_wrt (\<lambda>p q. om_get 0 (snd q) (mds_meta_load b) \<le> om_get 0 (snd p) (mds_meta_load b)) exs"
    "sorted_wrt (\<lambda>p q. om_get 0 (snd p) (mds_meta_load b) \<le> om_get 0 (snd q) (mds_meta_load b)) ims"
    "finite E" "finite I" "snd ` set exs \<subseteq> E" "snd ` set ims \<subseteq> I"
  shows "\<exists>b'. match_pairs e exs ims b = Some b' \<and> plan_ok e b' \<and> plan_view b' = plan_view b \<and>
     (\<forall>k. k \<notin> snd ` set exs \<longrightarrow> given_of b' k = given_of b k) \<and>
     (\<forall>k. k \<notin> snd ` set ims \<longrightarrow> taken_of b' k = taken_of b k) \<and>
     ((\<forall>p\<in>set exs. surplus b' (snd p) \<le> EPS) \<or> (\<forall>p\<in>set ims. deficit b' (snd p) \<le> EPS)) \<and>
     sum (given_of b') E - sum (taken_of b') I = sum (given_of b) E - sum (taken_of b) I"
  using assms(1-5,8,9)
proof (induction "length exs + length ims" arbitrary: exs ims b rule: less_induct)
  case less
  show ?case
  proof (cases "exs = [] \<or> ims = []")
    case True
    with less.prems show ?thesis by (subst match_pairs.simps) auto
  next
    case False
    then have ne: "exs \<noteq> []" "ims \<noteq> []" by simp_all
    let ?ex = "snd (hd exs)" and ?im = "snd (hd ims)"
    show ?thesis
    proof (rule match_pairs_round [OF less.prems(1) ne], goal_cases)
      case (1 b1)
      have "\<forall>p\<in>set exs. surplus b (snd p) \<le> EPS" if "surplus b ?ex < EPS"
        using that less.prems(2,4) ne(1) by (cases exs) (fastforce simp: lined_up_def surplus_def)+
      moreover have "\<forall>p\<in>set ims. deficit b (snd p) \<le> EPS" if "deficit b ?im < EPS"
        using that less.prems(3,5) ne(2) by (cases ims) (fastforce simp: lined_up_def deficit_def)+
      ultimately show ?case using 1 by (intro exI [of _ b1]) auto
    next
      case (2 b1 h)
      let ?exs = "if surplus b1 ?ex \<le> EPS then tl exs else exs"
      let ?ims = "if deficit b1 ?im \<le> EPS then tl ims else ims"
      have len: "length ?exs + length ?ims < length exs + length ims"
        using 2(2) ne by (cases exs; cases ims) auto
      have lu: "lined_up (given_of b1) (surplus b1) ?exs" "lined_up (taken_of b1) (deficit b1) ?ims"
        by (rule lined_up_next [OF less.prems(2) ne(1)], simp add: 2(5))
          (rule lined_up_next [OF less.prems(3) ne(2)], simp add: 2(6))
      note lv = plan_view_fields(2) [OF 2(4)]
      have so: "sorted_wrt (\<lambda>p q. om_get 0 (snd q) (mds_meta_load b1) \<le> om_get 0 (snd p) (mds_meta_load b1)) ?exs"
        "sorted_wrt (\<lambda>p q. om_get 0 (snd p) (mds_meta_load b1) \<le> om_get 0 (snd q) (mds_meta_load b1)) ?ims"
        using less.prems(4,5) ne by (cases exs; cases ims; simp add: lv)+
      have sub: "set ?exs \<subseteq> set exs" "set ?ims \<subseteq> set ims" using ne by (auto dest: list.set_sel(2))
      then have sub': "snd ` set ?exs \<subseteq> E" "snd ` set ?ims \<subseteq> I"
        using less.prems(6,7) by (meson image_mono order_trans)+
      from less.hyps [OF len 2(3) lu so sub'] obtain b' where b': "match_pairs e ?exs ?ims b1 = Some b'" "plan_ok e b'"
        "plan_view b' = plan_view b1" "\<forall>k. k \<notin> snd ` set ?exs \<longrightarrow> given_of b' k = given_of b1 k"
        "\<forall>k. k \<notin> snd ` set ?ims \<longrightarrow> taken_of b' k = taken_of b1 k"
        "(\<forall>p\<in>set ?exs. surplus b' (snd p) \<le> EPS) \<or> (\<forall>p\<in>set ?ims. deficit b' (snd p) \<le> EPS)"
        "sum (given_of b') E - sum (taken_of b') I = sum (given_of b1) E - sum (taken_of b1) I" by blast
      have hd: "?ex \<in> snd ` set exs" "?im \<in> snd ` set ims" using ne by simp_all
      have fr: "given_of b' k = given_of b k" if "k \<notin> snd ` set exs" for k
      proof -
        have "k \<notin> snd ` set ?exs" using that image_mono [OF sub(1), of snd] by (rule contra_subsetD [rotated])
        then have "given_of b' k = given_of b1 k" using b'(4) by blast
        then show ?thesis using that hd(1) 2(5) by auto
      qed
      have fr': "taken_of b' k = taken_of b k" if "k \<notin> snd ` set ims" for k
      proof -
        have "k \<notin> snd ` set ?ims" using that image_mono [OF sub(2), of snd] by (rule contra_subsetD [rotated])
        then have "taken_of b' k = taken_of b1 k" using b'(5) by blast
        then show ?thesis using that hd(2) 2(6) by auto
      qed
      have sums: "sum (given_of b1) E = sum (given_of b) E + h" "sum (taken_of b1) I = sum (taken_of b) I + h"
        by (rule sum_plus_one, use hd less.prems(6,7) assms(6,7) in blast, use hd less.prems(6,7) in blast, rule 2(5) 2(6))+
      have tl: "set exs = insert (hd exs) (set (tl exs))" "set ims = insert (hd ims) (set (tl ims))"
        using ne by (metis list.collapse list.set(2))+
      have nin: "?ex \<notin> snd ` set (tl exs)" "?im \<notin> snd ` set (tl ims)"
        using less.prems(2,3) ne by (cases exs; cases ims; auto simp: lined_up_def)+
      have "surplus b' ?ex \<le> EPS" if "surplus b1 ?ex \<le> EPS"
        using that b'(4) nin(1) plan_view_fields(1,2) [OF b'(3)] by (simp add: surplus_def)
      moreover have "deficit b' ?im \<le> EPS" if "deficit b1 ?im \<le> EPS"
        using that b'(5) nin(2) plan_view_fields(1,2) [OF b'(3)] by (simp add: deficit_def)
      ultimately have "(\<forall>p\<in>set exs. surplus b' (snd p) \<le> EPS) \<or> (\<forall>p\<in>set ims. deficit b' (snd p) \<le> EPS)"
        using b'(6) by (auto simp: tl split: if_splits)
      then show ?case using 2(1,4) b' fr fr' sums by (intro exI [of _ b']) simp
    qed
  qed
qed

section \<open>Exporters, importers and the loads they come from\<close>

lemma mm_insert_last: "\<forall>p\<in>set m. fst p \<le> k \<Longrightarrow> mm_insert k v m = m @ [(k, v)]"
  by (induction m) (auto simp: mm_insert_def)

lemma fold_mm_insert:
  "sorted (map fst (acc @ lm)) \<Longrightarrow>
   fold (\<lambda>p m. if P p then mm_insert (fst p) (snd p) m else m) lm acc = acc @ filter P lm"
proof (induction lm arbitrary: acc)
  case (Cons p lm)
  have "sorted (map fst (acc @ lm))" "sorted (map fst ((acc @ [p]) @ lm))" "\<forall>q\<in>set acc. fst q \<le> fst p"
    using Cons.prems by (auto simp: sorted_append)
  then show ?case using Cons.IH [of acc] Cons.IH [of "acc @ [p]"] by (simp add: mm_insert_last)
qed simp

lemma importers_filter: "sorted (map fst lm) \<Longrightarrow> importers t lm = filter (\<lambda>p. fst p < t) lm"
  using fold_mm_insert [of "[]" lm "\<lambda>p. fst p < t"] by (simp add: importers_def)

lemma exporters_filter: "sorted (map fst lm) \<Longrightarrow> exporters t lm = filter (\<lambda>p. \<not> fst p < t) lm"
  using fold_mm_insert [of "[]" lm "\<lambda>p. \<not> fst p < t"] by (simp add: exporters_def)

text \<open>The table of loads that the loop over the cluster builds.\<close>

definition loads_ok :: "double \<times> (double \<times> mds_rank_t) list \<times> balancer \<Rightarrow> bool" where
  "loads_ok s = (case s of (t, lm, b) \<Rightarrow> om_ok (mds_meta_load b) \<and> sorted (map fst lm) \<and> distinct (map snd lm) \<and>
     (\<forall>p\<in>set lm. om_get 0 (snd p) (mds_meta_load b) = fst p) \<and> t = (\<Sum>k\<in>snd ` set lm. om_get 0 k (mds_meta_load b)))"

lemma distinct_mm_insert: "distinct (map snd (mm_insert k v m)) \<longleftrightarrow> v \<notin> snd ` set m \<and> distinct (map snd m)"
proof -
  obtain xs ys where "m = xs @ ys" "mm_insert k v m = xs @ (k, v) # ys"
    by (metis mm_insert_def takeWhile_dropWhile_id)
  then show ?thesis by (auto simp: image_Un)
qed

lemma load_loop_ok:
  assumes "load_loop e fac is (t, lm, b) = Some (t', lm', b')" "loads_ok (t, lm, b)" "distinct is" "set is \<inter> snd ` set lm = {}"
  shows "loads_ok (t', lm', b') \<and> snd ` set lm' = snd ` set lm \<union> set is \<and>
     (be_whoami e \<in> set is \<longrightarrow> my_load b' = om_get 0 (be_whoami e) (mds_meta_load b')) \<and>
     (\<forall>k. k \<notin> set is \<longrightarrow> om_get 0 k (mds_meta_load b') = om_get 0 k (mds_meta_load b)) \<and>
     beat_epoch b' = beat_epoch b \<and> last_epoch_under b' = last_epoch_under b \<and> my_targets b' = my_targets b \<and>
     imported b' = imported b \<and> exported b' = exported b \<and> mds_import_map b' = mds_import_map b \<and>
     (be_whoami e \<notin> set is \<longrightarrow> my_load b' = my_load b)"
  using assms
proof (induction "is" arbitrary: t lm b)
  case (Cons i "is")
  obtain ld v where ld: "map_of (om_insert i (mds_load_new (be_api e) (be_now e)) (mds_load b)) i = Some ld"
    "mds_load_value e ld = Some v"
    using Cons.prems(1) by (auto simp: Let_def bind_eq_Some_conv)
  let ?l = "v * fac"
  let ?b1 = "b\<lparr>mds_load := om_insert i (mds_load_new (be_api e) (be_now e)) (mds_load b), mds_meta_load := om_set i ?l (mds_meta_load b)\<rparr>"
  let ?b = "if be_whoami e = i then ?b1\<lparr>my_load := ?l\<rparr> else ?b1"
  have r: "load_loop e fac is (t + ?l, mm_insert ?l i lm, ?b) = Some (t', lm', b')"
    using Cons.prems(1) ld by (auto simp: Let_def split: if_splits)
  have ok: "om_ok (mds_meta_load b)" using Cons.prems(2) by (simp add: loads_ok_def)
  have i: "i \<notin> snd ` set lm" "i \<notin> set is" using Cons.prems(3,4) by auto
  have g: "om_get 0 k (mds_meta_load ?b) = (if k = i then ?l else om_get 0 k (mds_meta_load b))" for k
    using ok by simp
  have "(\<Sum>k\<in>snd ` set lm. om_get 0 k (mds_meta_load ?b)) = (\<Sum>k\<in>snd ` set lm. om_get 0 k (mds_meta_load b))"
    by (rule sum.cong) (use i g in auto)
  then have "loads_ok (t + ?l, mm_insert ?l i lm, ?b)"
    using Cons.prems(2) i g ok by (auto simp: loads_ok_def distinct_mm_insert)
  from Cons.IH [OF r this] Cons.prems(3,4) i g show ?case
    by (auto simp: insert_commute)
qed auto

section \<open>The plan as a whole\<close>

lemma plan_ok_start:
  "om_ok (mds_meta_load b) \<Longrightarrow> my_targets b = [] \<Longrightarrow> imported b = [] \<Longrightarrow> exported b = [] \<Longrightarrow> plan_ok e b"
  by (simp add: plan_ok_def om_get_def msum_def)

lemma match_all_ok:
  assumes "plan_ok e b"
  shows "\<exists>b'. match_all e beat lm b = Some b' \<and> plan_ok e b' \<and> plan_view b' = plan_view b"
  using match_imports_ok [OF assms] match_pairs_ok [of e "match_imports e (rev (exporters (target_load b) lm)) b"]
  by (simp add: match_all_def Let_def)

lemma load_factor_fields:
  assumes "load_factor e b = Some (f, b')"
  shows "b' = b\<lparr>mds_load := mds_load b'\<rparr>"
  using assms by (auto simp: load_factor_def bind_eq_Some_conv Let_def split: option.splits if_splits)

lemma load_loop_log: "load_loop e f is (t, lm, b) = Some (t', lm', b') \<Longrightarrow> bal_log b' = bal_log b"
proof (induction "is" arbitrary: t lm b)
  case (Cons i "is")
  then show ?case by (auto simp: Let_def bind_eq_Some_conv split: if_splits dest!: Cons.IH)
qed simp

lemma prep_plan_cases:
  assumes "prep_plan e beat b = Some (True, b')" "\<not> mds_thrash_exports (be_conf e)" "om_ok (mds_meta_load b)"
  obtains lm b5 where "match_all e beat lm b5 = Some b'" "plan_ok e b5" "sorted (map fst lm)" "distinct (map snd lm)"
    "\<forall>p\<in>set lm. om_get 0 (snd p) (mds_meta_load b5) = fst p" "snd ` set lm = {0..<int (be_num_in e)}"
    "of_nat (be_num_in e) * target_load b5 = (\<Sum>k\<in>{0..<int (be_num_in e)}. om_get 0 k (mds_meta_load b5)) \<or> be_num_in e = 0"
    "target_load b5 * (1 + mds_bal_min_rebalance (be_conf e)) \<le> my_load b5"
    "last_epoch_under b = 0 \<or> 2 \<le> beat_epoch b - last_epoch_under b"
    "be_whoami e \<in> {0..<int (be_num_in e)} \<Longrightarrow> my_load b5 = om_get 0 (be_whoami e) (mds_meta_load b5)"
    "mds_import_map b5 = mds_import_map b" "my_targets b5 = []" "imported b5 = []" "exported b5 = []"
    "bal_log b5 = bal_log b @ [ClearExportQueue]"
proof -
  let ?b1 = "bal_do ClearExportQueue (b\<lparr>rebalance_time := be_now e, my_targets := [], imported := [], exported := []\<rparr>)"
  obtain f b2 t lm b3 where s: "load_factor e ?b1 = Some (f, b2)"
    "load_loop e f (map int [0..<be_num_in e]) (0, [], b2) = Some (t, lm, b3)"
    using assms(1,2) by (auto simp: prep_plan_def Let_def bind_eq_Some_conv)
  let ?b5 = "b3\<lparr>target_load := t / of_nat (be_num_in e), last_epoch_over := beat_epoch b3\<rparr>"
  have m: "match_all e beat lm ?b5 = Some b'" "target_load ?b5 * (1 + mds_bal_min_rebalance (be_conf e)) \<le> my_load ?b5"
    "last_epoch_under b3 = 0 \<or> 2 \<le> beat_epoch b3 - last_epoch_under b3"
    using assms(1,2) s by (auto simp: prep_plan_def Let_def bind_eq_Some_conv split: if_splits)
  have b2: "mds_meta_load b2 = mds_meta_load b" "my_targets b2 = []" "imported b2 = []" "exported b2 = []"
    "mds_import_map b2 = mds_import_map b" "beat_epoch b2 = beat_epoch b" "last_epoch_under b2 = last_epoch_under b"
    "bal_log b2 = bal_log b @ [ClearExportQueue]"
    by (subst load_factor_fields [OF s(1)], simp add: bal_do_def)+
  have ok: "loads_ok (0, [], b2)" using assms(3) b2(1) by (simp add: loads_ok_def)
  have r: "set (map int [0..<be_num_in e]) = {0..<int (be_num_in e)}"
    by (simp add: image_int_atLeastLessThan)
  have d: "distinct (map int [0..<be_num_in e])" by (simp add: distinct_map)
  note l = load_loop_ok [OF s(2) ok d, unfolded r, simplified]
  show thesis
  proof (rule that [OF m(1)])
    show "plan_ok e ?b5" by (rule plan_ok_start) (use l b2 in \<open>simp_all add: loads_ok_def\<close>)
    show "of_nat (be_num_in e) * target_load ?b5 = (\<Sum>k\<in>{0..<int (be_num_in e)}. om_get 0 k (mds_meta_load ?b5)) \<or> be_num_in e = 0"
      using l by (auto simp: loads_ok_def)
  qed (use l b2 m(2,3) load_loop_log [OF s(2)] in \<open>simp_all add: loads_ok_def\<close>)
qed

text \<open>Without anything imported before, the first phase matches nothing.\<close>

lemma match_imports_none:
  assumes "plan_ok e b" "\<forall>k. om_get [] k (mds_import_map b) = []" "om_ok (mds_import_map b)"
  shows "given_of (match_imports e exs b) = given_of b \<and> taken_of (match_imports e exs b) = taken_of b \<and>
     my_targets (match_imports e exs b) = my_targets b"
  using assms
proof (induction exs arbitrary: b)
  case (Cons ex exs)
  obtain x b1 where g: "get_maxex (snd ex) b = (x, b1)" by fastforce
  note g1 = get_maxex_ok [OF g Cons.prems(1)]
  have t: "my_targets b1 = my_targets b" using g by (auto simp: get_maxex_def)
  let ?b2 = "b1\<lparr>mds_import_map := om_ref [] (snd ex) (mds_import_map b1)\<rparr>"
  have b2: "plan_ok e ?b2" "\<forall>k. om_get [] k (mds_import_map ?b2) = []" "om_ok (mds_import_map ?b2)"
    using g1 Cons.prems(2,3) by (simp_all add: plan_ok_def plan_view_def surplus_def deficit_def fun_eq_iff)
  show ?case
    using Cons.IH [OF g1(2)] Cons.IH [OF b2] g g1(6-8) Cons.prems(2,3) b2(2) t by (simp add: Let_def fun_eq_iff)
qed simp

lemma match_all_odd:
  assumes ok: "plan_ok e b" and st: "imported b = []" "exported b = []" and lm: "sorted (map fst lm)" "distinct (map snd lm)"
    "\<forall>p\<in>set lm. om_get 0 (snd p) (mds_meta_load b) = fst p" and none: "\<forall>k. om_get [] k (mds_import_map b) = []" "om_ok (mds_import_map b)"
    and beat: "beat > 0" "beat mod 2 = 1" and run: "match_all e beat lm b = Some b'"
  shows "(\<forall>k\<in>snd ` set lm. surplus b' k \<le> EPS) \<or> (\<forall>k\<in>snd ` set lm. deficit b' k \<le> EPS)"
    "sum (given_of b') (snd ` set lm) = sum (taken_of b') (snd ` set lm)"
proof -
  let ?exs = "filter (\<lambda>p. \<not> fst p < target_load b) lm" and ?ims = "filter (\<lambda>p. fst p < target_load b) lm"
  let ?b1 = "match_imports e (rev ?exs) b"
  note m1 = match_imports_ok [OF ok, of "rev ?exs"] match_imports_none [OF ok none, of "rev ?exs"]
  have z: "given_of ?b1 k = 0" "taken_of ?b1 k = 0" for k
    using m1(2) st by (auto simp: om_get_def dest: fun_cong [of _ _ k])
  note lv = plan_view_fields(1,2) [OF conjunct2 [OF m1(1)]]
  have dist: "distinct (map snd (filter P lm))" for P
    using lm(2) by (simp add: distinct_map_filter)
  have so: "sorted_wrt (\<lambda>p q. fst p \<le> fst q) lm" using lm(1) by (simp add: sorted_map)
  have s1: "sorted_wrt (\<lambda>p q. om_get 0 (snd q) (mds_meta_load ?b1) \<le> om_get 0 (snd p) (mds_meta_load ?b1)) (rev ?exs)"
    unfolding sorted_wrt_rev by (rule sorted_wrt_mono_rel [OF _ sorted_wrt_filter [OF so]]) (use lm(3) in \<open>auto simp: lv\<close>)
  have s2: "sorted_wrt (\<lambda>p q. om_get 0 (snd p) (mds_meta_load ?b1) \<le> om_get 0 (snd q) (mds_meta_load ?b1)) ?ims"
    by (rule sorted_wrt_mono_rel [OF _ sorted_wrt_filter [OF so]]) (use lm(3) in \<open>auto simp: lv\<close>)
  have lu: "lined_up (given_of ?b1) (surplus ?b1) (rev ?exs)" "lined_up (taken_of ?b1) (deficit ?b1) ?ims"
    using dist [of "\<lambda>p. fst p < target_load b"] dist [of "\<lambda>p. \<not> fst p < target_load b"]
    by (simp_all add: lined_up_def z rev_map [symmetric])
  have sub: "snd ` set (rev ?exs) \<subseteq> snd ` set lm" "snd ` set ?ims \<subseteq> snd ` set lm" by auto
  have "match_pairs e (rev ?exs) ?ims ?b1 = Some b'"
    using run beat lm(1) by (simp add: match_all_def Let_def importers_filter exporters_filter)
  moreover obtain b2 where b2: "match_pairs e (rev ?exs) ?ims ?b1 = Some b2" "plan_ok e b2" "plan_view b2 = plan_view ?b1"
    "(\<forall>p\<in>set (rev ?exs). surplus b2 (snd p) \<le> EPS) \<or> (\<forall>p\<in>set ?ims. deficit b2 (snd p) \<le> EPS)"
    "sum (given_of b2) (snd ` set lm) - sum (taken_of b2) (snd ` set lm) = sum (given_of ?b1) (snd ` set lm) - sum (taken_of ?b1) (snd ` set lm)"
    using match_pairs_complete [OF conjunct1 [OF m1(1)] lu s1 s2 finite_imageI finite_imageI sub, OF finite_set finite_set] by blast
  ultimately have b': "plan_ok e b'" "plan_view b' = plan_view b"
    "(\<forall>p\<in>set ?exs. surplus b' (snd p) \<le> EPS) \<or> (\<forall>p\<in>set ?ims. deficit b' (snd p) \<le> EPS)"
    "sum (given_of b') (snd ` set lm) - sum (taken_of b') (snd ` set lm) = 0"
    using m1(1) by (auto simp: z)
  note lv' = plan_view_fields(1,2) [OF b'(2)]
  have nn: "0 \<le> given_of b' k" "0 \<le> taken_of b' k" for k using b'(1) by (simp_all add: plan_ok_def)
  have at: "om_get 0 (snd p) (mds_meta_load b') = fst p" if "p \<in> set lm" for p using that lm(3) lv' by auto
  have "surplus b' (snd p) \<le> EPS" if "p \<in> set ?ims" for p
    using that at [of p] nn(1) [of "snd p"] EPS_pos lv'(1) unfolding surplus_def by simp
  moreover have "deficit b' (snd p) \<le> EPS" if "p \<in> set ?exs" for p
    using that at [of p] nn(2) [of "snd p"] EPS_pos lv'(1) unfolding deficit_def by simp
  ultimately show "(\<forall>k\<in>snd ` set lm. surplus b' k \<le> EPS) \<or> (\<forall>k\<in>snd ` set lm. deficit b' k \<le> EPS)"
    using b'(3) by fastforce
  show "sum (given_of b') (snd ` set lm) = sum (taken_of b') (snd ` set lm)" using b'(4) by simp
qed

text \<open>What a server holds once the plan is carried out.\<close>

definition planned :: "balancer \<Rightarrow> mds_rank_t \<Rightarrow> double" where
  "planned b k = om_get 0 k (mds_meta_load b) - given_of b k + taken_of b k"

text \<open>The surpluses and the deficits add up to the same, so small ones on one side are small on both.\<close>

lemma planned_close:
  assumes ok: "plan_ok e b" and K: "finite K" and mean: "of_nat (card K) * target_load b = (\<Sum>k\<in>K. om_get 0 k (mds_meta_load b))"
    and flow: "sum (given_of b) K = sum (taken_of b) K"
    and one: "(\<forall>k\<in>K. surplus b k \<le> EPS) \<or> (\<forall>k\<in>K. deficit b k \<le> EPS)" and k: "k \<in> K"
  shows "\<bar>planned b k - target_load b\<bar> \<le> of_nat (card K) * EPS"
proof -
  let ?d = "\<lambda>k. planned b k - target_load b"
  have tot: "sum ?d K = 0"
    using mean flow by (simp add: planned_def sum_subtractf sum.distrib)
  have off: "given_of b j = 0 \<or> taken_of b j = 0" for j
  proof -
    have "given_of b j = 0 \<or> 0 \<le> surplus b j" "taken_of b j = 0 \<or> 0 \<le> deficit b j" "0 \<le> given_of b j" "0 \<le> taken_of b j"
      using ok by (simp_all add: plan_ok_def)
    then show ?thesis unfolding surplus_def deficit_def by linarith
  qed
  have d: "(?d j \<le> surplus b j \<or> ?d j \<le> 0) \<and> (- ?d j \<le> deficit b j \<or> - ?d j \<le> 0)" for j
  proof -
    have "given_of b j = 0 \<or> 0 \<le> surplus b j" "taken_of b j = 0 \<or> 0 \<le> deficit b j" "0 \<le> given_of b j" "0 \<le> taken_of b j"
      using ok by (simp_all add: plan_ok_def)
    with off [of j] show ?thesis unfolding surplus_def deficit_def planned_def by linarith
  qed
  have bound: "\<bar>f k\<bar> \<le> of_nat (card K) * EPS" if "sum f K = 0" "\<forall>j\<in>K. f j \<le> EPS" for f :: "mds_rank_t \<Rightarrow> double"
  proof -
    have "sum f (K - {k}) \<le> of_nat (card (K - {k})) * EPS"
      by (rule sum_bounded_above) (use that(2) in auto)
    moreover have "of_nat (card (K - {k})) * EPS \<le> of_nat (card K) * EPS"
      using EPS_pos by (intro mult_right_mono) (simp_all add: card_Diff1_le)
    moreover have "f k = - sum f (K - {k})" using that(1) K k by (simp add: sum_diff1)
    moreover have "1 \<le> card K" using K k by (auto simp: Suc_le_eq card_gt_0_iff)
    then have "1 * EPS \<le> of_nat (card K) * EPS" using EPS_pos by (intro mult_right_mono) simp_all
    moreover have "f k \<le> EPS" using that(2) k by blast
    ultimately show ?thesis unfolding abs_le_iff by linarith
  qed
  show ?thesis
    using one
  proof
    assume "\<forall>k\<in>K. surplus b k \<le> EPS"
    then have "\<forall>j\<in>K. ?d j \<le> EPS" using d EPS_pos by (meson less_imp_le order_trans)
    with bound [of ?d] tot show ?thesis by simp
  next
    assume "\<forall>k\<in>K. deficit b k \<le> EPS"
    then have "\<forall>j\<in>K. - ?d j \<le> EPS" using d EPS_pos by (meson less_imp_le order_trans)
    moreover have "sum (\<lambda>j. - ?d j) K = 0" using tot by (simp only: sum_negf minus_zero)
    ultimately have "\<bar>- ?d k\<bar> \<le> of_nat (card K) * EPS" by (rule bound [rotated])
    then show ?thesis by (simp only: abs_minus_cancel)
  qed
qed

section \<open>Properties\<close>

definition plain_conf :: bal_conf where
  "plain_conf = \<lparr>mds_bal_sample_interval = 3, mds_bal_replicate_threshold = 8000, mds_bal_unreplicate_threshold = 0,
     mds_bal_frag = False, mds_bal_split_size = 10000, mds_bal_split_rd = 25000, mds_bal_split_wr = 10000,
     mds_bal_split_bits = 3, mds_bal_merge_size = 50, mds_bal_interval = 10, mds_bal_fragment_interval = 5,
     mds_bal_idle_threshold = 0, mds_bal_max = -1, mds_bal_max_until = -1, mds_bal_mode = 1,
     mds_bal_min_rebalance = 1 / 10, mds_bal_min_start = 2 / 10, mds_bal_need_min = 8 / 10, mds_bal_need_max = 12 / 10,
     mds_bal_midchunk = 3 / 10, mds_bal_minchunk = 1 / 1000, mds_bal_target_removal_min = 5,
     mds_bal_target_removal_max = 10, mds_bal_minoffload = 10, mds_bal_lua = 0, mds_bal_metaload = [],
     mds_bal_mdsload = ''-1'', mds_bal_when = [], mds_bal_where = [], mds_bal_howmuch = [], mds_bal_print_dfs = 10,
     mds_bal_print_dfs_metaload = 0, mds_bal_print_dfs_depth = 4, mds_thrash_exports = False, mds_thrash_fragments = False\<rparr>"

text \<open>Three servers with loads 30, 20 and 10, in the units of the first. Their heartbeats have come in, and reported no
  imports.\<close>

definition plain_bal :: bal_env where
  "plain_bal = \<lparr>be_conf = plain_conf, be_whoami = 0, be_num_in = 3, be_up_mds = [0, 1, 2], be_now = 100, be_decayrate = 5,
     be_api = plain_api, be_lua = (\<lambda>s a. Some 30),
     be_lua_str = (\<lambda>s f a. LuaError), be_log_file = [], be_uninit = []\<rparr>"

definition bal_example :: balancer where
  "bal_example = bal_new\<lparr>beat_epoch := 7, mds_load :=
     map (\<lambda>(i, r). (i, (mds_load_new plain_api 0)\<lparr>req_rate := r\<rparr>)) [(0, 30), (1, 20), (2, 10)],
     mds_import_map := [(0, []), (1, []), (2, [])]\<rparr>"

lemma plan_example:
  obtains b' where "prep_plan plain_bal 1 bal_example = Some (True, b')" "my_targets b' = [(2, 10)]"
proof -
  have "case prep_plan plain_bal 1 bal_example of None \<Rightarrow> False | Some (g, b') \<Rightarrow> g \<and> my_targets b' = [(2, 10)]" by code_simp
  then show thesis by (cases "prep_plan plain_bal 1 bal_example") (auto intro: that)
qed

text \<open>No server has reported imports: the entry that its heartbeat left in \<^verbatim>\<open>mds_import_map\<close> is empty.\<close>

definition no_imports :: "balancer \<Rightarrow> bool" where
  "no_imports b \<longleftrightarrow> om_ok (mds_import_map b) \<and> (\<forall>k. om_get [] k (mds_import_map b) = [])"

lemma plain_bal_fields:
  "\<not> mds_thrash_exports (be_conf plain_bal)" "om_ok (mds_meta_load bal_example)" "be_whoami plain_bal = 0" "be_num_in plain_bal = 3"
  "no_imports bal_example"
  by (simp_all add: plain_bal_def plain_conf_def bal_example_def bal_new_def no_imports_def om_get_def)

lemma plan_safe:
  assumes "prep_plan e beat b = Some (True, b')" "\<not> mds_thrash_exports (be_conf e)" "om_ok (mds_meta_load b)"
    "0 \<le> be_whoami e" "be_whoami e < int (be_num_in e)"
  shows "target_load b' * (1 + mds_bal_min_rebalance (be_conf e)) \<le> my_load b' \<and>
     (last_epoch_under b = 0 \<or> 2 \<le> beat_epoch b - last_epoch_under b) \<and>
     (\<forall>k. 0 \<le> om_get 0 k (my_targets b') \<and> (0 < om_get 0 k (my_targets b') \<longrightarrow>
        k \<noteq> be_whoami e \<and> om_get 0 k (mds_meta_load b') + om_get 0 k (my_targets b') \<le> target_load b')) \<and>
     (msum (my_targets b') = 0 \<or> target_load b' \<le> my_load b' - msum (my_targets b'))"
proof -
  obtain lm b5 where p: "match_all e beat lm b5 = Some b'" "plan_ok e b5"
    "target_load b5 * (1 + mds_bal_min_rebalance (be_conf e)) \<le> my_load b5"
    "last_epoch_under b = 0 \<or> 2 \<le> beat_epoch b - last_epoch_under b"
    "my_load b5 = om_get 0 (be_whoami e) (mds_meta_load b5)"
    by (rule prep_plan_cases [OF assms(1-3)]) (use assms(4,5) in auto)
  have ok: "plan_ok e b'" "plan_view b' = plan_view b5" using match_all_ok [OF p(2), of beat lm] p(1) by auto
  note v = plan_view_fields [OF ok(2)]
  have t: "0 \<le> om_get 0 k (my_targets b')" "om_get 0 k (my_targets b') \<le> taken_of b' k"
    "taken_of b' k = 0 \<or> 0 \<le> deficit b' k" "given_of b' k = 0 \<or> 0 \<le> surplus b' k" "0 \<le> given_of b' k" for k
    using ok(1) by (simp_all add: plan_ok_def)
  have s: "msum (my_targets b') = given_of b' (be_whoami e)" using ok(1) by (simp add: plan_ok_def)
  have pos: "k \<noteq> be_whoami e \<and> om_get 0 k (mds_meta_load b') + om_get 0 k (my_targets b') \<le> target_load b'"
    if "0 < om_get 0 k (my_targets b')" for k
  proof -
    have d: "0 \<le> deficit b' k" "0 < taken_of b' k" using that t(2,3) [of k] by auto
    have "msum (my_targets b') \<noteq> 0"
      using msum_pos [OF _ t(1) that] ok(1) by (simp add: plan_ok_def)
    then have "0 \<le> surplus b' (be_whoami e)" "0 < given_of b' (be_whoami e)"
      using t(4,5) [of "be_whoami e"] s by auto
    with d have "k \<noteq> be_whoami e" unfolding surplus_def deficit_def by (auto simp: not_less)
    with d t(2) [of k] show ?thesis unfolding deficit_def by linarith
  qed
  have "msum (my_targets b') = 0 \<or> target_load b' \<le> my_load b' - msum (my_targets b')"
    using t(4) [of "be_whoami e"] s v p(5) unfolding surplus_def by auto
  with p(3,4) v t(1) pos show ?thesis by simp
qed

text \<open>C29: a plan that is carried out is safe. It is made only by a server whose load exceeds the target
  by the configured margin and that has not been underloaded in the last two epochs; every server it
  sends load to is another one and ends at most at the target, and what is sent away in all leaves
  this server at least at the target.\<close>

theorem plan_sound:
  assumes "prep_plan e beat b = Some (True, b')" "\<not> mds_thrash_exports (be_conf e)" "om_ok (mds_meta_load b)"
    "0 \<le> be_whoami e" "be_whoami e < int (be_num_in e)"
  shows "target_load b' * (1 + mds_bal_min_rebalance (be_conf e)) \<le> my_load b' \<and>
     (last_epoch_under b = 0 \<or> 2 \<le> beat_epoch b - last_epoch_under b) \<and>
     (\<forall>k. 0 \<le> om_get 0 k (my_targets b') \<and> (0 < om_get 0 k (my_targets b') \<longrightarrow>
        k \<noteq> be_whoami e \<and> om_get 0 k (mds_meta_load b') + om_get 0 k (my_targets b') \<le> target_load b')) \<and>
     (msum (my_targets b') = 0 \<or> target_load b' \<le> my_load b' - msum (my_targets b'))"
  by (rule plan_safe [OF assms])

theorem plan_sound_witness:
  "\<exists>b'. prep_plan plain_bal 1 bal_example = Some (True, b') \<and> my_targets b' = [(2, 10)] \<and>
     om_get 0 2 (mds_meta_load b') + 10 \<le> target_load b' \<and> target_load b' \<le> my_load b' - 10"
proof -
  obtain b' where b': "prep_plan plain_bal 1 bal_example = Some (True, b')" "my_targets b' = [(2, 10)]" by (rule plan_example)
  have g: "om_get 0 2 (my_targets b') = 10" "msum (my_targets b') = 10" using b'(2) by (simp_all add: om_get_def msum_def)
  have t: "\<forall>k. 0 \<le> om_get 0 k (my_targets b') \<and> (0 < om_get 0 k (my_targets b') \<longrightarrow>
        k \<noteq> be_whoami plain_bal \<and> om_get 0 k (mds_meta_load b') + om_get 0 k (my_targets b') \<le> target_load b')"
    "msum (my_targets b') = 0 \<or> target_load b' \<le> my_load b' - msum (my_targets b')"
    using plan_sound [OF b'(1) plain_bal_fields(1,2)] by (simp_all add: plain_bal_fields(3,4))
  have "om_get 0 2 (mds_meta_load b') + 10 \<le> target_load b'" using spec [OF t(1), of 2] g(1) by simp
  moreover have "target_load b' \<le> my_load b' - 10" using t(2) g(2) by simp
  ultimately show ?thesis using b' by blast
qed

text \<open>The matching always ends, whatever the loads and the import histories: each round of its loop
  drops an exporter or an importer.\<close>

lemma matching_terminates:
  assumes "om_ok (mds_meta_load b)" "my_targets b = []" "imported b = []" "exported b = []"
  shows "\<exists>b'. match_all e beat load_map b = Some b'"
  using match_all_ok [OF plan_ok_start [OF assms]] by blast

lemma matching_terminates_witness:
  "\<exists>b'. match_all plain_bal 1 [(10, 2), (20, 1), (30, 0)] bal_new = Some b'"
  by (rule matching_terminates) (simp_all add: bal_new_def)

text \<open>C31: in an odd epoch, outside the thrash mode for tests and when the heartbeats of all servers reported no imports
  (the import map then holds empty entries), the plan made by an overloaded server
  balances the whole cluster: carried out, it leaves every server within a thousandth of a unit per
  server of the target.\<close>

theorem odd_beat_balances:
  assumes "prep_plan e beat b = Some (True, b')" "\<not> mds_thrash_exports (be_conf e)" "om_ok (mds_meta_load b)"
    "no_imports b" "beat > 0" "beat mod 2 = 1" "0 \<le> k" "k < int (be_num_in e)"
  shows "\<bar>planned b' k - target_load b'\<bar> \<le> of_nat (be_num_in e) * EPS"
proof -
  obtain lm b5 where p: "match_all e beat lm b5 = Some b'" "plan_ok e b5" "sorted (map fst lm)" "distinct (map snd lm)"
    "\<forall>p\<in>set lm. om_get 0 (snd p) (mds_meta_load b5) = fst p" "snd ` set lm = {0..<int (be_num_in e)}"
    "of_nat (be_num_in e) * target_load b5 = (\<Sum>k\<in>{0..<int (be_num_in e)}. om_get 0 k (mds_meta_load b5))"
    "mds_import_map b5 = mds_import_map b" "imported b5 = []" "exported b5 = []"
    by (rule prep_plan_cases [OF assms(1-3)]) (use assms(7,8) in auto)
  have n: "\<forall>k. om_get [] k (mds_import_map b5) = []" "om_ok (mds_import_map b5)" using assms(4) by (simp_all add: p(8) no_imports_def)
  note o = match_all_odd [OF p(2,9,10,3,4,5) n assms(5,6) p(1), unfolded p(6)]
  have ok: "plan_ok e b'" "plan_view b' = plan_view b5" using match_all_ok [OF p(2), of beat lm] p(1) by auto
  note v = plan_view_fields [OF ok(2)]
  have "\<bar>planned b' k - target_load b'\<bar> \<le> of_nat (card {0..<int (be_num_in e)}) * EPS"
    by (rule planned_close [OF ok(1) _ _ o(2) o(1)]) (use assms(7,8) p(7) v in auto)
  then show ?thesis by simp
qed

theorem odd_beat_balances_witness:
  "\<exists>b'. prep_plan plain_bal 1 bal_example = Some (True, b') \<and> \<bar>planned b' 0 - target_load b'\<bar> \<le> 3 * EPS"
proof -
  obtain b' where b': "prep_plan plain_bal 1 bal_example = Some (True, b')" "my_targets b' = [(2, 10)]" by (rule plan_example)
  have "\<bar>planned b' 0 - target_load b'\<bar> \<le> of_nat (be_num_in plain_bal) * EPS"
    by (rule odd_beat_balances [OF b'(1) plain_bal_fields(1,2,5)]) (simp_all add: plain_bal_fields(4))
  with b'(1) show ?thesis by (auto simp: plain_bal_fields(4))
qed

text \<open>In an even epoch the least loaded exporter comes first, and the loop stops at a pair it cannot
  match. So when no server reported imports and some server sits on the target, or less than a
  thousandth above it, an overloaded server plans to send nothing at all.\<close>

lemma even_beat_stalls:
  assumes "prep_plan e beat b = Some (True, b')" "\<not> mds_thrash_exports (be_conf e)" "om_ok (mds_meta_load b)"
    "no_imports b" "beat mod 2 = 0" "0 \<le> k" "k < int (be_num_in e)"
    "target_load b' \<le> om_get 0 k (mds_meta_load b')" "om_get 0 k (mds_meta_load b') < target_load b' + EPS"
  shows "my_targets b' = []"
proof -
  obtain lm b5 where p: "match_all e beat lm b5 = Some b'" "plan_ok e b5" "sorted (map fst lm)"
    "\<forall>p\<in>set lm. om_get 0 (snd p) (mds_meta_load b5) = fst p" "snd ` set lm = {0..<int (be_num_in e)}"
    "mds_import_map b5 = mds_import_map b" "imported b5 = []" "exported b5 = []" "my_targets b5 = []"
    by (rule prep_plan_cases [OF assms(1-3)]) auto
  have n: "\<forall>k. om_get [] k (mds_import_map b5) = []" "om_ok (mds_import_map b5)" using assms(4) by (simp_all add: p(6) no_imports_def)
  let ?exs = "filter (\<lambda>p. \<not> fst p < target_load b5) lm" and ?ims = "filter (\<lambda>p. fst p < target_load b5) lm"
  let ?b1 = "match_imports e (rev ?exs) b5"
  have m1: "plan_ok e ?b1" "plan_view ?b1 = plan_view b5" using match_imports_ok [OF p(2)] by simp_all
  have z: "given_of ?b1 j = 0" "my_targets ?b1 = []" for j
    using match_imports_none [OF p(2) n, of "rev ?exs"] p(8,9) by (auto simp: om_get_def dest: fun_cong [of _ _ j])
  have run: "match_pairs e ?exs ?ims ?b1 = Some b'"
    using p(1,3) assms(5) by (simp add: match_all_def Let_def importers_filter exporters_filter)
  have v: "plan_view b' = plan_view b5" using match_all_ok [OF p(2), of beat lm] p(1) by auto
  obtain x where x: "x \<in> set lm" "snd x = k" using p(5) assms(6,7) by (metis atLeastLessThan_iff imageE)
  have kx: "fst x = om_get 0 k (mds_meta_load b')" "target_load b' = target_load b5"
    using x p(4) plan_view_fields(1,2) [OF v] by auto
  show ?thesis
  proof (cases "?ims = []")
    case True
    then show ?thesis using run z(2) by (subst (asm) match_pairs.simps) simp
  next
    case False
    obtain h ps where ex: "?exs = h # ps"
      using x kx assms(8) by (cases ?exs) (auto simp: filter_empty_conv)
    have "sorted (map fst ?exs)" using p(3) by (metis sorted_filter)
    moreover have "x \<in> set ?exs" using x kx assms(8) by simp
    ultimately have "fst h \<le> fst x" unfolding ex by auto
    moreover have "h \<in> set ?exs" unfolding ex by simp
    then have "h \<in> set lm" by simp
    ultimately have "surplus ?b1 (snd h) < EPS"
      using assms(9) kx p(4) z(1) plan_view_fields(1,2) [OF m1(2)] by (auto simp: surplus_def)
    then show ?thesis
      using run False z(2) ex m1(1)
      by (subst (asm) match_pairs.simps) (auto simp: get_maxex_def get_maxim_def surplus_def Let_def split: if_splits)
  qed
qed

lemma even_beat_stalls_witness:
  "\<exists>b'. prep_plan plain_bal 2 bal_example = Some (True, b') \<and> my_targets b' = [] \<and> target_load b' = 20 \<and> my_load b' = 30"
proof -
  have "case prep_plan plain_bal 2 bal_example of None \<Rightarrow> False
      | Some (g, b') \<Rightarrow> g \<and> target_load b' = 20 \<and> my_load b' = 30 \<and> om_get 0 1 (mds_meta_load b') = 20" by code_simp
  then obtain b' where b': "prep_plan plain_bal 2 bal_example = Some (True, b')" "target_load b' = 20" "my_load b' = 30"
    "om_get 0 1 (mds_meta_load b') = 20"
    by (cases "prep_plan plain_bal 2 bal_example") auto
  have "my_targets b' = []"
    by (rule even_beat_stalls [OF b'(1) plain_bal_fields(1,2,5), of 1]) (simp_all add: b'(2,4) plain_bal_fields(4) EPS_pos)
  with b' show ?thesis by blast
qed

end
