(* ===== verification/Balancer_Targets.thy ===== *)
theory Balancer_Targets
  imports Balancer_Plan
begin

text \<open>
  \<^verbatim>\<open>MDBalancer::check_targets\<close>: a server may export only to servers the cluster map lists as its
  targets. Each epoch it compares the plan with the map, counts for how many epochs a listed server
  has not been a target, and asks the monitors for a new list when a target is missing or a listed
  server has been idle for long.
\<close>

definition note_map_target :: "(mds_rank_t \<times> double) list \<Rightarrow> mds_rank_t \<Rightarrow> (mds_rank_t \<times> int) list \<Rightarrow> (mds_rank_t \<times> int) list" where
  "note_map_target targets p m =
     (let m1 = (if map_of m p = None then om_set p 0 m else m)
      in if map_of targets p = None then om_set p (om_get 0 p m1 + 1) m1 else m1)"

fun note_my_targets :: "mds_rank_t list \<Rightarrow> mds_rank_t list \<Rightarrow> mds_rank_t list \<times> (mds_rank_t \<times> int) list \<times> bool
    \<Rightarrow> mds_rank_t list \<times> (mds_rank_t \<times> int) list \<times> bool" where
  "note_my_targets map_targets [] s = s"
| "note_my_targets map_targets (i # is) (need, m, missing) =
     note_my_targets map_targets is (os_insert i need, om_set i 0 m, missing \<or> i \<notin> set map_targets)"

text \<open>The sweep over the counters: an entry is erased, or it may be wanted and may cause a message.\<close>

fun sweep_targets :: "bal_conf \<Rightarrow> mds_rank_t list \<Rightarrow> mds_rank_t list \<Rightarrow> (mds_rank_t \<times> int) list
    \<Rightarrow> mds_rank_t list \<times> (mds_rank_t \<times> int) list \<times> bool \<Rightarrow> mds_rank_t list \<times> (mds_rank_t \<times> int) list \<times> bool" where
  "sweep_targets cf map_targets need [] s = s"
| "sweep_targets cf map_targets need (p # ps) (want, m, send) =
     (if fst p \<notin> set map_targets \<and> fst p \<notin> set need
      then sweep_targets cf map_targets need ps (want, om_erase (fst p) m, send)
      else sweep_targets cf map_targets need ps
             (if snd p < mds_bal_target_removal_min cf then os_insert (fst p) want else want, m,
              send \<or> snd p \<ge> mds_bal_target_removal_max cf))"

definition check_targets :: "bal_env \<Rightarrow> mds_rank_t list \<Rightarrow> balancer \<Rightarrow> bool \<times> balancer" where
  "check_targets e map_targets b =
     (let m1 = fold (note_map_target (my_targets b)) map_targets (old_prev_targets b);
          (need, m2, missing) = note_my_targets map_targets (map fst (my_targets b)) ([], m1, False);
          (want, m3, send) = sweep_targets (be_conf e) map_targets need m2 (need, m2, missing);
          b1 = b\<lparr>old_prev_targets := m3\<rparr>
      in (\<not> missing, if send then bal_do (SendLoadTargets want) b1 else b1))"

section \<open>What the three loops compute\<close>

lemma note_map_target_ok:
  "om_ok m \<Longrightarrow> om_ok (note_map_target t p m) \<and>
   map_of (note_map_target t p m) = (map_of m)(p \<mapsto> om_get 0 p m + (if map_of t p = None then 1 else 0))"
  by (auto simp: note_map_target_def Let_def om_get_def fun_eq_iff split: option.splits)

lemma note_map_fold:
  "om_ok m \<Longrightarrow> distinct ps \<Longrightarrow> om_ok (fold (note_map_target t) ps m) \<and>
   (\<forall>k. map_of (fold (note_map_target t) ps m) k =
     (if k \<in> set ps then Some (om_get 0 k m + (if map_of t k = None then 1 else 0)) else map_of m k))"
proof (induction ps arbitrary: m)
  case (Cons p ps)
  have "om_ok (note_map_target t p m)" using note_map_target_ok [OF Cons.prems(1)] by simp
  from Cons.IH [OF this] Cons.prems show ?case
    by (auto simp: note_map_target_ok om_get_def)
qed simp

lemma note_my_targets_ok:
  assumes "note_my_targets mt is (need, m, missing) = (need', m', missing')" "om_ok m" "sorted_wrt (<) need"
  shows "sorted_wrt (<) need' \<and> set need' = set need \<union> set is \<and> om_ok m' \<and>
     (\<forall>k. map_of m' k = (if k \<in> set is then Some 0 else map_of m k)) \<and> (missing' \<longleftrightarrow> missing \<or> \<not> set is \<subseteq> set mt)"
  using assms
proof (induction "is" arbitrary: need m missing)
  case (Cons i "is")
  have "note_my_targets mt is (os_insert i need, om_set i 0 m, missing \<or> i \<notin> set mt) = (need', m', missing')"
    using Cons.prems(1) by simp
  from Cons.IH [OF this] Cons.prems(2,3) show ?case by auto
qed auto

lemma sweep_targets_ok:
  assumes "sweep_targets cf mt need ps (want, m, send) = (want', m', send')" "om_ok m" "sorted_wrt (<) want"
  shows "sorted_wrt (<) want' \<and> om_ok m' \<and>
     set want' = set want \<union> {k. \<exists>v. (k, v) \<in> set ps \<and> (k \<in> set mt \<or> k \<in> set need) \<and> v < mds_bal_target_removal_min cf} \<and>
     (\<forall>k. map_of m' k = (if k \<in> fst ` set ps \<and> k \<notin> set mt \<and> k \<notin> set need then None else map_of m k)) \<and>
     (send' \<longleftrightarrow> send \<or> (\<exists>k v. (k, v) \<in> set ps \<and> (k \<in> set mt \<or> k \<in> set need) \<and> mds_bal_target_removal_max cf \<le> v))"
  using assms
proof (induction ps arbitrary: want m send)
  case (Cons p ps)
  show ?case
  proof (cases "fst p \<notin> set mt \<and> fst p \<notin> set need")
    case True
    then have "sweep_targets cf mt need ps (want, om_erase (fst p) m, send) = (want', m', send')"
      using Cons.prems(1) by simp
    from Cons.IH [OF this] Cons.prems(2,3) True show ?thesis by (cases p) auto
  next
    case False
    let ?w = "if snd p < mds_bal_target_removal_min cf then os_insert (fst p) want else want"
    have "sweep_targets cf mt need ps (?w, m, send \<or> snd p \<ge> mds_bal_target_removal_max cf) = (want', m', send')"
      using Cons.prems(1) False by auto
    from Cons.IH [OF this] Cons.prems(2,3) False show ?thesis by (cases p) (auto split: if_splits)
  qed
qed auto

section \<open>Properties\<close>

text \<open>\<^verbatim>\<open>check_targets\<close> answers whether every target of the plan is listed in the cluster map. It
  keeps a counter exactly for the listed servers and the targets: zero for a target, one more than
  before for a listed server that is not a target. It asks for a new list exactly when a target is
  missing or a counter has reached the upper limit, and the list it asks for is the targets with
  those listed servers whose counter is below the lower limit.\<close>

lemma check_targets_exact:
  assumes "check_targets e map_targets b = (ok, b')" "om_ok (my_targets b)" "om_ok (old_prev_targets b)"
    "sorted_wrt (<) map_targets" "0 < mds_bal_target_removal_min (be_conf e)" "0 < mds_bal_target_removal_max (be_conf e)"
  shows "let T = fst ` set (my_targets b);
             count = (\<lambda>k. if k \<in> T then 0 else om_get 0 k (old_prev_targets b) + 1);
             idle = (\<exists>k\<in>set map_targets. mds_bal_target_removal_max (be_conf e) \<le> count k)
         in ok = (T \<subseteq> set map_targets) \<and>
            (\<forall>k. map_of (old_prev_targets b') k = (if k \<in> T \<union> set map_targets then Some (count k) else None)) \<and>
            (if ok \<and> \<not> idle then bal_log b' = bal_log b
             else \<exists>want. bal_log b' = bal_log b @ [SendLoadTargets want] \<and> sorted_wrt (<) want \<and>
               set want = T \<union> {k \<in> set map_targets. count k < mds_bal_target_removal_min (be_conf e)})"
proof -
  define T where "T = fst ` set (my_targets b)"
  define count where "count = (\<lambda>k. if k \<in> T then 0 else om_get 0 k (old_prev_targets b) + 1)"
  define m1 where "m1 = fold (note_map_target (my_targets b)) map_targets (old_prev_targets b)"
  obtain need m2 missing where n: "note_my_targets map_targets (map fst (my_targets b)) ([], m1, False) = (need, m2, missing)"
    by (metis prod_cases3)
  obtain want m3 send where w: "sweep_targets (be_conf e) map_targets need m2 (need, m2, missing) = (want, m3, send)"
    by (metis prod_cases3)
  have d: "distinct map_targets" using assms(4) strict_sorted_iff by blast
  have tn: "map_of (my_targets b) k = None \<longleftrightarrow> k \<notin> T" for k by (simp add: map_of_eq_None_iff T_def)
  have m1: "om_ok m1" "map_of m1 k = (if k \<in> set map_targets then Some (om_get 0 k (old_prev_targets b) + (if k \<in> T then 0 else 1))
      else map_of (old_prev_targets b) k)" for k
    using note_map_fold [OF assms(3) d, of "my_targets b"] tn by (auto simp: m1_def)
  have m2: "sorted_wrt (<) need" "set need = T" "om_ok m2" "missing \<longleftrightarrow> \<not> T \<subseteq> set map_targets"
    "map_of m2 k = (if k \<in> T then Some 0 else map_of m1 k)" for k
    using note_my_targets_ok [OF n m1(1)] by (auto simp: T_def)
  have in2: "(k, v) \<in> set m2 \<longleftrightarrow> map_of m2 k = Some v" for k v
    using om_ok_distinct [OF m2(3)] by (auto dest: map_of_SomeD)
  have c: "map_of m2 k = Some (count k)" if "k \<in> T \<union> set map_targets" for k
    using that m1(2) m2(5) by (auto simp: count_def)
  have m3: "sorted_wrt (<) want" "set want = T \<union> {k \<in> set map_targets. count k < mds_bal_target_removal_min (be_conf e)}"
    "map_of m3 k = (if k \<in> T \<union> set map_targets then Some (count k) else None)"
    "send \<longleftrightarrow> missing \<or> (\<exists>k\<in>set map_targets. mds_bal_target_removal_max (be_conf e) \<le> count k)" for k
  proof -
    note sw = sweep_targets_ok [OF w m2(3,1)]
    show "sorted_wrt (<) want" using sw by blast
    have "{k. \<exists>v. (k, v) \<in> set m2 \<and> (k \<in> set map_targets \<or> k \<in> set need) \<and> v < mds_bal_target_removal_min (be_conf e)} =
        {k \<in> T \<union> set map_targets. count k < mds_bal_target_removal_min (be_conf e)}"
      using c by (fastforce simp: in2 m2(2))
    with sw show "set want = T \<union> {k \<in> set map_targets. count k < mds_bal_target_removal_min (be_conf e)}"
      using m2(2) assms(5) by (auto simp: count_def)
    show "map_of m3 k = (if k \<in> T \<union> set map_targets then Some (count k) else None)"
      using sw c [of k] m2(2) by (auto simp: map_of_eq_None_iff [symmetric])
    have "(\<exists>k v. (k, v) \<in> set m2 \<and> (k \<in> set map_targets \<or> k \<in> set need) \<and> mds_bal_target_removal_max (be_conf e) \<le> v) \<longleftrightarrow>
        (\<exists>k\<in>set map_targets. mds_bal_target_removal_max (be_conf e) \<le> count k)"
      using c assms(6) by (fastforce simp: in2 m2(2) count_def)
    with sw show "send \<longleftrightarrow> missing \<or> (\<exists>k\<in>set map_targets. mds_bal_target_removal_max (be_conf e) \<le> count k)" by blast
  qed
  have r: "ok = (\<not> missing)" "b' = (if send then bal_do (SendLoadTargets want) (b\<lparr>old_prev_targets := m3\<rparr>) else b\<lparr>old_prev_targets := m3\<rparr>)"
    using assms(1) n w by (auto simp: check_targets_def Let_def m1_def)
  show ?thesis
    unfolding Let_def T_def [symmetric] using m2(4) m3 r by (auto simp: bal_do_def count_def)
qed

lemma check_targets_exact_witness:
  "check_targets plain_bal [1] (bal_new\<lparr>my_targets := [(2, 10)], old_prev_targets := [(1, 4)]\<rparr>) =
     (False, bal_new\<lparr>my_targets := [(2, 10)], old_prev_targets := [(1, 5), (2, 0)], bal_log := [SendLoadTargets [2]]\<rparr>) \<and>
   (\<exists>want. bal_log (snd (check_targets plain_bal [1] (bal_new\<lparr>my_targets := [(2, 10)], old_prev_targets := [(1, 4)]\<rparr>))) =
      [SendLoadTargets want] \<and> set want = {2})"
proof -
  let ?b = "bal_new\<lparr>my_targets := [(2, 10)], old_prev_targets := [(1, 4)]\<rparr>"
  let ?b' = "bal_new\<lparr>my_targets := [(2, 10)], old_prev_targets := [(1, 5), (2, 0)], bal_log := [SendLoadTargets [2]]\<rparr>"
  have r: "check_targets plain_bal [1] ?b = (False, ?b')"
    by (simp add: check_targets_def note_map_target_def om_get_def bal_do_def bal_new_def plain_bal_def plain_conf_def)
  have "\<exists>want. bal_log ?b' = bal_log ?b @ [SendLoadTargets want] \<and> set want = {2}"
    using check_targets_exact [OF r] by (auto simp: Let_def plain_bal_def plain_conf_def bal_new_def om_get_def)
  with r show ?thesis by (simp add: bal_new_def)
qed

end
