(* ===== verification/C_Strings.thy ===== *)
theory C_Strings
  imports Mds_Prelude
begin

text \<open>
  The conversions between numbers and text that the sources take from the C library: \<^verbatim>\<open>atof\<close>,
  \<^verbatim>\<open>sscanf\<close> of a pair of integers, \<^verbatim>\<open>strcasecmp\<close>, \<^verbatim>\<open>snprintf\<close> into a buffer and the output of integers
  and floating-point numbers to a stream.
\<close>

section \<open>Reading numbers\<close>

text \<open>\<^verbatim>\<open>atof\<close>: blanks, a sign, digits with a point, an exponent; what follows is ignored.\<close>

definition is_digit :: "char \<Rightarrow> bool" where
  "is_digit c \<longleftrightarrow> CHR ''0'' \<le> c \<and> c \<le> CHR ''9''"

definition digit_of :: "char \<Rightarrow> nat" where
  "digit_of c = of_char c - of_char (CHR ''0'')"

definition nat_of_digits :: "string \<Rightarrow> nat" where
  "nat_of_digits s = foldl (\<lambda>n c. 10 * n + digit_of c) 0 s"

definition is_blank :: "char \<Rightarrow> bool" where
  "is_blank c \<longleftrightarrow> c = CHR '' '' \<or> c = CHR 0x09 \<or> c = CHR 0x0A \<or> c = CHR 0x0B \<or> c = CHR 0x0C \<or> c = CHR 0x0D"

definition read_sign :: "string \<Rightarrow> bool \<times> string" where
  "read_sign s = (case s of [] \<Rightarrow> (False, [])
     | c # cs \<Rightarrow> if c = CHR ''-'' then (True, cs) else if c = CHR ''+'' then (False, cs) else (False, s))"

definition read_exponent :: "string \<Rightarrow> int" where
  "read_exponent s =
     (case s of [] \<Rightarrow> 0
      | c # cs \<Rightarrow>
          if c = CHR ''e'' \<or> c = CHR ''E'' then
            let (neg, r) = read_sign cs;
                n = int (nat_of_digits (takeWhile is_digit r))
            in if neg then - n else n
          else 0)"

definition atof :: "string \<Rightarrow> double" where
  "atof s =
     (let (neg, r) = read_sign (dropWhile is_blank s);
          whole = takeWhile is_digit r;
          r1 = dropWhile is_digit r;
          frac = (case r1 of c # cs \<Rightarrow> if c = CHR ''.'' then takeWhile is_digit cs else [] | [] \<Rightarrow> []);
          r2 = (case r1 of c # cs \<Rightarrow> if c = CHR ''.'' then dropWhile is_digit cs else r1 | [] \<Rightarrow> []);
          m = of_nat (nat_of_digits (whole @ frac)) / 10 ^ length frac;
          x = read_exponent r2;
          v = (if whole = [] \<and> frac = [] then 0
               else if x \<ge> 0 then m * 10 ^ nat x else m / 10 ^ nat (- x))
      in if neg then - v else v)"

text \<open>Conversion of a \<^verbatim>\<open>double\<close> to an \<^verbatim>\<open>int\<close> drops the fraction.\<close>

definition trunc_int :: "double \<Rightarrow> int" where
  "trunc_int x = (if x \<ge> 0 then \<lfloor>x\<rfloor> else \<lceil>x\<rceil>)"

section \<open>Writing integers\<close>

definition int_str :: "int \<Rightarrow> string" where
  "int_str n = (if n < 0 then CHR ''-'' # decimal (nat (- n)) else decimal (nat n))"

lemma digit_char: "d < 10 \<Longrightarrow> is_digit (char_of (48 + d)) \<and> digit_of (char_of (48 + d :: nat)) = d"
  by (simp add: is_digit_def digit_of_def less_eq_char_def)

lemma nat_of_digits_snoc: "nat_of_digits (s @ [c]) = 10 * nat_of_digits s + digit_of c"
  by (simp add: nat_of_digits_def)

lemma decimal_digits: "(\<forall>c\<in>set (decimal n). is_digit c) \<and> decimal n \<noteq> [] \<and> nat_of_digits (decimal n) = n"
proof (induction n rule: decimal.induct)
  case (1 n)
  show ?case
  proof (cases "n < 10")
    case True
    then show ?thesis using digit_char [OF True] by (simp add: decimal.simps [of n] nat_of_digits_def)
  next
    case False
    have "n mod 10 < 10" by simp
    from digit_char [OF this] 1 [OF False] False show ?thesis
      by (simp add: decimal.simps [of n] nat_of_digits_snoc)
  qed
qed

lemma digit_plain: "is_digit c \<Longrightarrow> \<not> is_blank c \<and> c \<noteq> CHR ''-'' \<and> c \<noteq> CHR ''+''"
  by (auto simp: is_digit_def is_blank_def less_eq_char_def)

lemma takeWhile_digits: "\<forall>c\<in>set w. is_digit c \<Longrightarrow> takeWhile is_digit (w @ '' '') = w \<and> dropWhile is_digit (w @ '' '') = '' ''"
  by (induction w) (auto simp: is_digit_def less_eq_char_def)

lemma atof_decimal: "atof (decimal n @ '' '') = of_nat n"
proof -
  note d = decimal_digits [of n]
  obtain c cs where w: "decimal n = c # cs" using d by (cases "decimal n") auto
  then have c: "is_digit c" using d by simp
  have "dropWhile is_blank (decimal n @ '' '') = decimal n @ '' ''" using digit_plain [OF c] w by simp
  moreover have "read_sign (decimal n @ '' '') = (False, decimal n @ '' '')" using digit_plain [OF c] w by (simp add: read_sign_def)
  ultimately show ?thesis using takeWhile_digits [of "decimal n"] d by (simp add: atof_def read_exponent_def)
qed

section \<open>Scanning a pair of integers\<close>

text \<open>\<^verbatim>\<open>%d\<close>: blanks, a sign and at least one digit.\<close>

definition read_int :: "string \<Rightarrow> (int \<times> string) option" where
  "read_int s =
     (let (neg, r) = read_sign (dropWhile is_blank s);
          ds = takeWhile is_digit r
      in if ds = [] then None
         else Some (if neg then - int (nat_of_digits ds) else int (nat_of_digits ds), dropWhile is_digit r))"

text \<open>\<^verbatim>\<open>sscanf(s, "%d/%d", ...)\<close>: the integers that were stored; their number is the result (where
  the call returns \<^verbatim>\<open>EOF\<close> none is).\<close>

definition scan_pair :: "string \<Rightarrow> int list" where
  "scan_pair s =
     (case read_int s of None \<Rightarrow> []
      | Some (a, r) \<Rightarrow>
          (case r of [] \<Rightarrow> [a]
           | c # cs \<Rightarrow> if c = CHR ''/'' then (case read_int cs of None \<Rightarrow> [a] | Some (b, _) \<Rightarrow> [a, b]) else [a]))"

lemma decimal_append:
  assumes "\<forall>c\<in>set (take 1 r). \<not> is_digit c"
  shows "takeWhile is_digit (decimal n @ r) = decimal n" "dropWhile is_digit (decimal n @ r) = r"
proof -
  have r: "takeWhile is_digit r = []" "dropWhile is_digit r = r" using assms by (cases r; simp)+
  have d: "\<And>c. c \<in> set (decimal n) \<Longrightarrow> is_digit c" using decimal_digits by blast
  show "takeWhile is_digit (decimal n @ r) = decimal n" "dropWhile is_digit (decimal n @ r) = r"
    using d r by (simp_all add: takeWhile_append2 dropWhile_append2)
qed

lemma read_int_str:
  assumes "\<forall>c\<in>set (take 1 r). \<not> is_digit c"
  shows "read_int (int_str i @ r) = Some (i, r)"
proof -
  note d = decimal_digits [of "nat \<bar>i\<bar>"]
  obtain c cs where w: "decimal (nat \<bar>i\<bar>) = c # cs" using d by (cases "decimal (nat \<bar>i\<bar>)") auto
  then have c: "is_digit c" using d by simp
  note a = decimal_append [OF assms, of "nat \<bar>i\<bar>"]
  note p = digit_plain [OF c]
  show ?thesis
  proof (cases "i < 0")
    case True
    then have "int_str i = CHR ''-'' # decimal (nat \<bar>i\<bar>)" by (simp add: int_str_def)
    then show ?thesis using True a d by (simp add: read_int_def is_blank_def read_sign_def)
  next
    case False
    then have "int_str i = decimal (nat \<bar>i\<bar>)" by (simp add: int_str_def)
    moreover have "dropWhile is_blank (decimal (nat \<bar>i\<bar>) @ r) = decimal (nat \<bar>i\<bar>) @ r" using p w by simp
    moreover have "read_sign (decimal (nat \<bar>i\<bar>) @ r) = (False, decimal (nat \<bar>i\<bar>) @ r)" using p w by (simp add: read_sign_def)
    ultimately show ?thesis using False a d by (simp add: read_int_def)
  qed
qed

lemma scan_pair_printed: "scan_pair (int_str a @ ''/'' @ int_str b) = [a, b]"
proof -
  have "\<not> is_digit (CHR ''/'')" by (simp add: is_digit_def less_eq_char_def)
  then show ?thesis
    using read_int_str [of "''/'' @ int_str b" a] read_int_str [of "[]" b] by (simp add: scan_pair_def)
qed

section \<open>Comparing without case, bounded output\<close>

definition to_lower :: "char \<Rightarrow> char" where
  "to_lower c = (if CHR ''A'' \<le> c \<and> c \<le> CHR ''Z'' then char_of (of_char c + 32 :: nat) else c)"

text \<open>\<^verbatim>\<open>strcasecmp(a, b) == 0\<close>\<close>

definition strcaseeq :: "string \<Rightarrow> string \<Rightarrow> bool" where
  "strcaseeq a b \<longleftrightarrow> map to_lower a = map to_lower b"

text \<open>\<^verbatim>\<open>snprintf(buf, len, "%s", s)\<close>: what is in the buffer afterwards, read as a C string; the result
  is the length that was wanted. Without room not even the terminator is written.\<close>

definition snprintf :: "string \<Rightarrow> nat \<Rightarrow> string \<Rightarrow> string \<times> nat" where
  "snprintf old len s = (if len = 0 then old else take (len - 1) s, length s)"

section \<open>Writing floating-point numbers\<close>

text \<open>A stream prints a \<^verbatim>\<open>double\<close> in the style of \<^verbatim>\<open>%g\<close>: six significant digits, without trailing
  zeros, with an exponent below \<open>-4\<close> and from \<open>6\<close> on.\<close>

definition pow10 :: "int \<Rightarrow> double" where
  "pow10 i = (if i \<ge> 0 then 10 ^ nat i else 1 / 10 ^ nat (- i))"

definition round_even :: "double \<Rightarrow> int" where
  "round_even x = (let f = \<lfloor>x\<rfloor>; d = x - of_int f
     in if d < 1 / 2 \<or> (d = 1 / 2 \<and> even f) then f else f + 1)"

definition strip_zeros :: "string \<Rightarrow> string" where
  "strip_zeros s = rev (dropWhile (\<lambda>c. c = CHR ''0'') (rev s))"

text \<open>The six digits of a positive number and the exponent of the first.\<close>

definition digits6 :: "double \<Rightarrow> string \<times> int" where
  "digits6 a =
     (let (p, q) = quotient_of a;
          x0 = int (length (decimal (nat p))) - int (length (decimal (nat q)));
          x = (if a < pow10 x0 then x0 - 1 else x0);
          n = round_even (a * pow10 (5 - x))
      in if n = 1000000 then (''100000'', x + 1) else (decimal (nat n), x))"

definition with_point :: "string \<Rightarrow> string \<Rightarrow> string" where
  "with_point whole dec = (if dec = [] then whole else whole @ ''.'' @ dec)"

definition double_str :: "double \<Rightarrow> string" where
  "double_str v =
     (if v = 0 then ''0''
      else
        let (ds, x) = digits6 \<bar>v\<bar>;
            body = (if x < -4 \<or> x \<ge> 6 then
                      with_point (take 1 ds) (strip_zeros (drop 1 ds)) @ ''e'' @ (if x < 0 then ''-'' else ''+'') @
                      (if \<bar>x\<bar> < 10 then ''0'' else []) @ decimal (nat \<bar>x\<bar>)
                    else if x < 0 then with_point ''0'' (replicate (nat (- x - 1)) (CHR ''0'') @ strip_zeros ds)
                    else with_point (take (nat x + 1) ds) (strip_zeros (drop (nat x + 1) ds)))
        in if v < 0 then CHR ''-'' # body else body)"

end
