(* ===== verification/Balancer_Exports.thy ===== *)
theory Balancer_Exports
  imports Balancer_Targets C_Strings
begin

text \<open>
  Choosing what to export (\<^verbatim>\<open>find_exports\<close>, \<^verbatim>\<open>fragment_selector_luahook\<close>). A directory fragment is a
  node of a tree: its number, its popularity at the time of the rebalance (\<^verbatim>\<open>pop_auth_subtree.meta_load\<close>,
  which is always computed, see \<open>metaload_script_fits\<close>), the flags that are read, and the fragments of
  the directories among its entries, in order.
\<close>

datatype dir_tree = DirTree (dt_id: nat) (dt_pop: double) (dt_auth: bool) (dt_frozen: bool) (dt_rep: bool)
  (dt_subdirs: "dir_tree list")

record export_state =
  ex_exports :: "dir_tree list"
  ex_have :: double
  ex_already :: "nat list"

definition take_export :: "dir_tree \<Rightarrow> export_state \<Rightarrow> export_state" where
  "take_export d s = \<lparr>ex_exports = ex_exports s @ [d], ex_have = ex_have s + dt_pop d,
     ex_already = List.insert (dt_id d) (ex_already s)\<rparr>"

section \<open>The Lua selector\<close>

fun split_on :: "char \<Rightarrow> string \<Rightarrow> string list" where
  "split_on d [] = [[]]"
| "split_on d (c # cs) =
     (if c = d then [] # split_on d cs
      else case split_on d cs of [] \<Rightarrow> [[c]] | w # ws \<Rightarrow> (c # w) # ws)"

definition strtok_all :: "char \<Rightarrow> string \<Rightarrow> string list" where
  "strtok_all d s = filter (\<lambda>w. w \<noteq> []) (split_on d s)"

definition LINE_MAX :: nat where "LINE_MAX = 2048"

definition LUA_PREPARE_HOWMUCH :: string where
  "LUA_PREPARE_HOWMUCH = ''package.path = package.path .. '' @ [CHR 0x27] @
     '';/home/msevilla/code/ceph/src/mds/balancers/modules/?.lua;'' @ [CHR 0x27] @ nl @
     ''require '' @ [CHR 0x22] @ ''MDSBinPacker'' @ [CHR 0x22] @ nl @ ''-- begin MDS_BAL_HOWMUCH --'' @ nl @ ''strategies = ''"

definition LUA_RETURN_HOWMUCH :: string where
  "LUA_RETURN_HOWMUCH = nl @ ''-- end   MDS_BAL_HOWMUCH --'' @ nl @ ''return MDSBinPacker.pack(strategies, arg)''"

text \<open>The array has no room for the terminating NUL (\<open>howmuch_script_overflows\<close> below); the text the
  interpreter reads is the concatenation all the same.\<close>

definition howmuch_parts :: "string \<Rightarrow> string list" where
  "howmuch_parts howmuch = [LUA_PREPARE_HOWMUCH, c_str howmuch, LUA_RETURN_HOWMUCH]"

definition howmuch_buffer :: "string \<Rightarrow> string option" where
  "howmuch_buffer howmuch =
     fill_buffer (length LUA_PREPARE_HOWMUCH + length (c_str howmuch) + length LUA_RETURN_HOWMUCH) (howmuch_parts howmuch)"

text \<open>\<^verbatim>\<open>strcpy(ret, lua_tostring(...))\<close> into \<^verbatim>\<open>LINE_MAX\<close> characters; on an error \<^verbatim>\<open>ret\<close> is never written.\<close>

definition lua_return :: "bal_env \<Rightarrow> lua_result \<Rightarrow> string option" where
  "lua_return e r =
     (case r of
        LuaError \<Rightarrow> Some (be_uninit e)
      | LuaNil \<Rightarrow> None
      | LuaString s \<Rightarrow> do { assert_that (length (c_str s) < LINE_MAX); Some (c_str s) })"

fun take_selected :: "dir_tree list \<Rightarrow> string list \<Rightarrow> export_state \<Rightarrow> export_state option" where
  "take_selected frags [] s = Some s"
| "take_selected frags (tok # toks) s =
     do { let df_index = trunc_int (atof tok - 1);
          assert_that (0 \<le> df_index \<and> df_index < int (length frags));
          take_selected frags toks (take_export (frags ! nat df_index) s) }"

definition fragment_selector_luahook :: "bal_env \<Rightarrow> (double \<times> dir_tree) list \<Rightarrow> double \<Rightarrow> export_state \<Rightarrow> export_state option" where
  "fragment_selector_luahook e smaller amount s =
     (if smaller = [] then Some s
      else do {
        let script = concat (howmuch_parts (mds_bal_howmuch (be_conf e)));
        let frags = map snd (rev smaller);
        ret \<leftarrow> lua_return e (be_lua_str e script (be_log_file e) (amount # map fst (rev smaller)));
        if ret = ''-1'' then Some s else take_selected frags (strtok_all (CHR '' '') ret) s })"

definition use_lua_howmuch :: "bal_env \<Rightarrow> bool" where
  "use_lua_howmuch e \<longleftrightarrow> mds_bal_lua (be_conf e) = 1 \<and> mds_bal_howmuch (be_conf e) \<noteq> []"

section \<open>Drilling down\<close>

text \<open>The scan of the subdirectories: \<open>Inl\<close> is the \<^verbatim>\<open>return\<close> on a fragment of the right size.\<close>

fun scan_subdirs :: "double \<Rightarrow> double \<Rightarrow> double \<Rightarrow> double \<Rightarrow> dir_tree list \<Rightarrow> export_state
    \<Rightarrow> dir_tree list \<times> dir_tree list \<times> (double \<times> dir_tree) list
    \<Rightarrow> export_state + dir_tree list \<times> dir_tree list \<times> (double \<times> dir_tree) list" where
  "scan_subdirs need needmin needmax minchunk [] s acc = Inr acc"
| "scan_subdirs need needmin needmax minchunk (d # ds) s (rep, unrep, smaller) =
     (if \<not> dt_auth d \<or> dt_id d \<in> set (ex_already s) \<or> dt_frozen d \<or> dt_pop d < minchunk
      then scan_subdirs need needmin needmax minchunk ds s (rep, unrep, smaller)
      else if dt_pop d > needmin \<and> dt_pop d < needmax then Inl (take_export d s)
      else if dt_pop d > need then
        (if dt_rep d then scan_subdirs need needmin needmax minchunk ds s (rep @ [d], unrep, smaller)
         else scan_subdirs need needmin needmax minchunk ds s (rep, unrep @ [d], smaller))
      else scan_subdirs need needmin needmax minchunk ds s (rep, unrep, mm_insert (dt_pop d) d smaller))"

text \<open>The loops over the smaller ones, biggest first: whether the function returns, what is left, the state.\<close>

fun take_big :: "double \<Rightarrow> double \<Rightarrow> (double \<times> dir_tree) list \<Rightarrow> export_state
    \<Rightarrow> bool \<times> (double \<times> dir_tree) list \<times> export_state" where
  "take_big midchunk needmin [] s = (False, [], s)"
| "take_big midchunk needmin (p # ps) s =
     (if fst p < midchunk then (False, p # ps, s)
      else
        let s1 = take_export (snd p) s
        in if ex_have s1 > needmin then (True, ps, s1) else take_big midchunk needmin ps s1)"

fun take_rest :: "double \<Rightarrow> (double \<times> dir_tree) list \<Rightarrow> export_state \<Rightarrow> bool \<times> export_state" where
  "take_rest needmin [] s = (False, s)"
| "take_rest needmin (p # ps) s =
     (let s1 = take_export (snd p) s
      in if ex_have s1 > needmin then (True, s1) else take_rest needmin ps s1)"

definition pick_smaller :: "bal_env \<Rightarrow> double \<Rightarrow> double \<Rightarrow> double \<Rightarrow> (double \<times> dir_tree) list \<Rightarrow> export_state
    \<Rightarrow> (bool \<times> (double \<times> dir_tree) list \<times> export_state) option" where
  "pick_smaller e amount midchunk needmin smaller s =
     (if use_lua_howmuch e then
        do { s1 \<leftarrow> fragment_selector_luahook e smaller amount s; Some (ex_have s1 > needmin, [], s1) }
      else Some (take_big midchunk needmin (rev smaller) s))"

lemma scan_sizes:
  "scan_subdirs need mn mx ch ds s (rep, unrep, smaller) = Inr (rep', unrep', smaller') \<Longrightarrow>
   size_list size rep' \<le> size_list size rep + size_list size ds \<and> size_list size unrep' \<le> size_list size unrep + size_list size ds"
proof (induction ds arbitrary: rep unrep smaller)
  case (Cons d ds)
  from Cons.prems show ?case
    by (auto dest!: Cons.IH split: if_splits)
qed simp

function find_exports :: "bal_env \<Rightarrow> dir_tree \<Rightarrow> double \<Rightarrow> export_state \<Rightarrow> export_state option"
  and descend :: "bal_env \<Rightarrow> double \<Rightarrow> dir_tree list \<Rightarrow> double \<Rightarrow> export_state \<Rightarrow> (bool \<times> export_state) option" where
  "find_exports e dir amount s =
     (let need = amount - ex_have s; cf = be_conf e
      in if need < amount * mds_bal_min_start cf then Some s
         else
           let needmin = need * mds_bal_need_min cf
           in case scan_subdirs need needmin (need * mds_bal_need_max cf) (need * mds_bal_minchunk cf) (dt_subdirs dir) s ([], [], []) of
                Inl s' \<Rightarrow> Some s'
              | Inr (rep, unrep, smaller) \<Rightarrow>
                  do { (ret, rest, s1) \<leftarrow> pick_smaller e amount (need * mds_bal_midchunk cf) needmin smaller s;
                       if ret then Some s1
                       else do {
                         (ret2, s2) \<leftarrow> descend e needmin unrep amount s1;
                         if ret2 then Some s2
                         else
                           let (ret3, s3) = take_rest needmin rest s2
                           in if ret3 then Some s3
                              else map_option snd (descend e needmin rep amount s3) } })"
| "descend e needmin [] amount s = Some (False, s)"
| "descend e needmin (d # ds) amount s =
     do { s1 \<leftarrow> find_exports e d amount s;
          if ex_have s1 > needmin then Some (True, s1) else descend e needmin ds amount s1 }"
  by pat_completeness auto

termination
proof (relation "measure (\<lambda>x. case x of Inl (e, d, a, s) \<Rightarrow> size d | Inr (e, m, ds, a, s) \<Rightarrow> size_list size ds)", goal_cases)
  case 1
  show ?case by simp
next
  case (2 e dir amount s)
  then show ?case by (cases dir) (auto dest!: scan_sizes)
next
  case (3 e dir amount s)
  then show ?case by (cases dir) (auto dest!: scan_sizes)
qed (auto)

section \<open>What is chosen\<close>

text \<open>\<open>below\<close> lists what lies under a fragment, \<open>fam\<close> the fragment too.\<close>

fun below :: "dir_tree \<Rightarrow> dir_tree list" where
  "below (DirTree i p a f r ds) = concat (map (\<lambda>d. d # below d) ds)"

abbreviation fam :: "dir_tree \<Rightarrow> dir_tree list" where
  "fam d \<equiv> d # below d"

abbreviation fams :: "dir_tree list \<Rightarrow> dir_tree list" where
  "fams ds \<equiv> concat (map fam ds)"

definition under :: "dir_tree \<Rightarrow> nat set" where
  "under d = dt_id ` set (below d)"

lemma below_subdirs: "below d = fams (dt_subdirs d)"
  by (cases d) simp

lemma below_trans: "y \<in> set (below c) \<Longrightarrow> set (below y) \<subseteq> set (below c)"
  by (induction c rule: below.induct) auto

text \<open>
  \<open>chosen C new\<close>: everything in \<open>new\<close> is in the family of a member of \<open>C\<close>, nothing is chosen twice, and
  nothing chosen lies under something chosen.
\<close>

definition chosen :: "dir_tree set \<Rightarrow> dir_tree list \<Rightarrow> bool" where
  "chosen C new \<longleftrightarrow> set new \<subseteq> (\<Union>c\<in>C. set (fam c)) \<and> distinct (map dt_id new) \<and>
     (\<forall>x\<in>set new. \<forall>y\<in>set new. dt_id x \<notin> under y)"

lemma chosen_mono:
  assumes "chosen C new" "C \<subseteq> D"
  shows "chosen D new"
proof -
  have "(\<Union>c\<in>C. set (fam c)) \<subseteq> (\<Union>c\<in>D. set (fam c))" by (rule UN_mono [OF assms(2) order_refl])
  with assms(1) show ?thesis unfolding chosen_def by (meson order_trans)
qed

lemma chosen_Nil [simp]: "chosen C []"
  by (simp add: chosen_def)

lemma fams_indep:
  assumes "distinct (map dt_id (fams ds))" "c \<in> set ds" "d \<in> set ds" "c \<noteq> d" "x \<in> set (fam c)" "y \<in> set (fam d)"
  shows "dt_id x \<noteq> dt_id y"
  using assms
proof (induction ds)
  case (Cons a ds)
  show ?case
  proof (cases "c = a \<or> d = a")
    case True
    have sub: "dt_id ` set (fam b) \<subseteq> dt_id ` set (fams ds)" if "b \<in> set ds" for b using that by auto
    have dj: "dt_id ` set (fam a) \<inter> dt_id ` set (fams ds) = {}" using Cons.prems(1) by auto
    have "dt_id x \<in> dt_id ` set (fam c)" "dt_id y \<in> dt_id ` set (fam d)" using Cons.prems(5,6) by blast+
    with True dj sub Cons.prems(2-4) show ?thesis by (metis disjoint_iff set_ConsD subsetD)
  qed (use Cons in auto)
qed simp

lemma fams_indep_below:
  assumes "distinct (map dt_id (fams ds))" "c \<in> set ds" "d \<in> set ds" "c \<noteq> d" "x \<in> set (fam c)" "y \<in> set (fam d)"
  shows "dt_id x \<notin> under y"
proof
  assume "dt_id x \<in> under y"
  then obtain z where z: "z \<in> set (below y)" "dt_id x = dt_id z" by (auto simp: under_def)
  then have "z \<in> set (fam d)" using assms(6) below_trans [of y d] by auto
  with fams_indep [OF assms(1-5), of z] z(2) show False by simp
qed

lemma chosen_append:
  assumes dist: "distinct (map dt_id (fams ds))" and C: "C \<subseteq> set ds" "D \<subseteq> set ds" "C \<inter> D = {}"
    and n: "chosen C m" "chosen D n"
  shows "chosen (C \<union> D) (m @ n)"
proof -
  have ind: "dt_id x \<noteq> dt_id y" "dt_id x \<notin> under y" "dt_id y \<notin> under x"
    if "x \<in> set m" "y \<in> set n" for x y
  proof -
    have "x \<in> (\<Union>c\<in>C. set (fam c))" "y \<in> (\<Union>c\<in>D. set (fam c))"
      using that n by (auto simp only: chosen_def dest!: subsetD)
    then obtain c d where cd: "c \<in> C" "x \<in> set (fam c)" "d \<in> D" "y \<in> set (fam d)" by (elim UN_E)
    moreover have "c \<noteq> d" using cd(1,3) C(3) by blast
    ultimately show "dt_id x \<noteq> dt_id y" "dt_id x \<notin> under y" "dt_id y \<notin> under x"
      using fams_indep [OF dist, of c d x y] fams_indep_below [OF dist, of c d x y] fams_indep_below [OF dist, of d c y x] C(1,2)
      by (blast intro: subsetD)+
  qed
  then have "dt_id ` set m \<inter> dt_id ` set n = {}" by (auto simp: disjoint_iff)
  with n ind show ?thesis by (auto simp: chosen_def)
qed

lemma own_id_not_below: "distinct (map dt_id (fams ds)) \<Longrightarrow> d \<in> set ds \<Longrightarrow> dt_id d \<notin> under d"
  by (induction ds) (auto simp: under_def)

lemma fams_distinct: "distinct (map dt_id (fams ds)) \<Longrightarrow> distinct ds"
proof (induction ds)
  case (Cons d ds)
  then have "dt_id d \<notin> dt_id ` set (fams ds)" by auto
  then have "d \<notin> set ds" by auto
  with Cons show ?case by auto
qed simp

lemma chosen_single: "distinct (map dt_id (fams ds)) \<Longrightarrow> d \<in> set ds \<Longrightarrow> chosen {d} [d]"
  by (simp add: chosen_def own_id_not_below)

lemma chosen_children: "distinct (map dt_id (fams ds)) \<Longrightarrow> distinct cs \<Longrightarrow> set cs \<subseteq> set ds \<Longrightarrow> chosen (set cs) cs"
proof (induction cs)
  case (Cons c cs)
  then have "chosen {c} [c]" "chosen (set cs) cs" by (simp_all add: chosen_single)
  from chosen_append [OF Cons.prems(1) _ _ _ this] Cons.prems show ?case by simp
qed simp

section \<open>How the state grows\<close>

definition grows :: "export_state \<Rightarrow> export_state \<Rightarrow> dir_tree list \<Rightarrow> bool" where
  "grows s s' new \<longleftrightarrow> ex_exports s' = ex_exports s @ new \<and> ex_have s' = ex_have s + (\<Sum>d\<leftarrow>new. dt_pop d) \<and>
     set (ex_already s') = set (ex_already s) \<union> dt_id ` set new"

definition may_export :: "export_state \<Rightarrow> dir_tree \<Rightarrow> bool" where
  "may_export s d \<longleftrightarrow> dt_auth d \<and> \<not> dt_frozen d \<and> dt_id d \<notin> set (ex_already s)"

lemma grows_refl [simp]: "grows s s []"
  by (simp add: grows_def)

lemma grows_take: "grows s (take_export d s) [d]"
  by (simp add: grows_def take_export_def)

lemma grows_trans: "grows s s1 m \<Longrightarrow> grows s1 s2 n \<Longrightarrow> grows s s2 (m @ n)"
  by (auto simp: grows_def)

lemma grows_may: "grows s s1 m \<Longrightarrow> may_export s1 d \<Longrightarrow> may_export s d"
  by (simp add: grows_def may_export_def)

lemma take_big_grows:
  "take_big mid nm ps s = (r, rest, s') \<Longrightarrow> \<exists>k. rest = drop k ps \<and> grows s s' (map snd (take k ps))"
proof (induction ps arbitrary: s)
  case (Cons p ps)
  show ?case
  proof (cases "fst p < mid")
    case True
    with Cons.prems show ?thesis by (intro exI [of _ 0]) auto
  next
    case False
    show ?thesis
    proof (cases "ex_have (take_export (snd p) s) > nm")
      case True
      with Cons.prems False show ?thesis by (intro exI [of _ 1]) (auto simp: Let_def grows_take)
    next
      case nr: False
      with Cons.prems False have "take_big mid nm ps (take_export (snd p) s) = (r, rest, s')" by (simp add: Let_def)
      from Cons.IH [OF this] obtain k where "rest = drop k ps" "grows (take_export (snd p) s) s' (map snd (take k ps))" by blast
      then show ?thesis using grows_trans [OF grows_take [of s "snd p"]] by (intro exI [of _ "Suc k"]) auto
    qed
  qed
qed (auto intro: exI [of _ 0])

lemma take_rest_grows:
  "take_rest nm ps s = (r, s') \<Longrightarrow> \<exists>k. grows s s' (map snd (take k ps))"
proof (induction ps arbitrary: s)
  case (Cons p ps)
  show ?case
  proof (cases "ex_have (take_export (snd p) s) > nm")
    case True
    with Cons.prems show ?thesis by (intro exI [of _ 1]) (auto simp: Let_def grows_take)
  next
    case False
    with Cons.prems have "take_rest nm ps (take_export (snd p) s) = (r, s')" by (simp add: Let_def)
    from Cons.IH [OF this] obtain k where "grows (take_export (snd p) s) s' (map snd (take k ps))" by blast
    then show ?thesis using grows_trans [OF grows_take [of s "snd p"]] by (intro exI [of _ "Suc k"]) auto
  qed
qed auto

text \<open>The scan sorts the fragments that may be exported into three disjoint lists.\<close>

lemma scan_Inl:
  "scan_subdirs need mn mx ch ds s acc = Inl s' \<Longrightarrow>
   \<exists>d\<in>set ds. may_export s d \<and> mn < dt_pop d \<and> dt_pop d < mx \<and> s' = take_export d s"
proof (induction ds arbitrary: acc)
  case (Cons d ds)
  obtain rep unrep smaller where acc: "acc = (rep, unrep, smaller)" by (metis prod_cases3)
  show ?case
  proof (cases "\<exists>acc'. scan_subdirs need mn mx ch ds s acc' = Inl s'")
    case True
    with Cons.IH show ?thesis by auto
  next
    case False
    with Cons.prems show ?thesis by (auto simp: acc may_export_def split: if_splits)
  qed
qed simp

lemma scan_Cons:
  assumes "scan_subdirs need mn mx ch (d # ds) s (rep, unrep, smaller) = Inr r"
  obtains acc where "scan_subdirs need mn mx ch ds s acc = Inr r"
    "acc = (rep, unrep, smaller) \<or> may_export s d \<and> (acc = (rep @ [d], unrep, smaller) \<or> acc = (rep, unrep @ [d], smaller) \<or>
       acc = (rep, unrep, mm_insert (dt_pop d) d smaller) \<and> dt_pop d \<le> need)"
proof (cases "\<not> dt_auth d \<or> dt_id d \<in> set (ex_already s) \<or> dt_frozen d \<or> dt_pop d < ch")
  case True
  with assms show ?thesis by (intro that [of "(rep, unrep, smaller)"]) simp_all
next
  case False
  then have m: "may_export s d" by (simp add: may_export_def)
  show ?thesis
  proof (cases "dt_pop d > need")
    case True
    with assms False m show ?thesis
      by (cases "dt_rep d") (intro that [of "(rep @ [d], unrep, smaller)"] that [of "(rep, unrep @ [d], smaller)"]; simp split: if_splits)+
  next
    case n: False
    with assms False m show ?thesis
      by (intro that [of "(rep, unrep, mm_insert (dt_pop d) d smaller)"]) (simp_all split: if_splits)
  qed
qed

lemma distinct_mm_insert_snd: "distinct (map snd (mm_insert k v m)) \<longleftrightarrow> v \<notin> snd ` set m \<and> distinct (map snd m)"
proof -
  obtain xs ys where "m = xs @ ys" "mm_insert k v m = xs @ (k, v) # ys"
    by (metis mm_insert_def takeWhile_dropWhile_id)
  then show ?thesis by (auto simp: image_Un)
qed

lemma scan_Inr:
  assumes "scan_subdirs need mn mx ch ds s (rep, unrep, smaller) = Inr (rep', unrep', smaller')"
    "distinct (rep @ unrep @ map snd smaller @ ds)"
  shows "distinct (rep' @ unrep' @ map snd smaller') \<and>
    set rep' \<union> set unrep' \<union> snd ` set smaller' \<subseteq> set rep \<union> set unrep \<union> snd ` set smaller \<union> set ds \<and>
    (\<forall>p\<in>set smaller'. p \<in> set smaller \<or> may_export s (snd p) \<and> fst p = dt_pop (snd p) \<and> fst p \<le> need)"
  using assms
proof (induction ds arbitrary: rep unrep smaller)
  case (Cons d ds)
  obtain rep1 unrep1 smaller1 where a: "scan_subdirs need mn mx ch ds s (rep1, unrep1, smaller1) = Inr (rep', unrep', smaller')"
    "(rep1, unrep1, smaller1) = (rep, unrep, smaller) \<or> may_export s d \<and> ((rep1, unrep1, smaller1) = (rep @ [d], unrep, smaller) \<or>
       (rep1, unrep1, smaller1) = (rep, unrep @ [d], smaller) \<or>
       (rep1, unrep1, smaller1) = (rep, unrep, mm_insert (dt_pop d) d smaller) \<and> dt_pop d \<le> need)"
    by (rule scan_Cons [OF Cons.prems(1)]) (metis prod_cases3)
  have "distinct (rep1 @ unrep1 @ map snd smaller1 @ ds)"
    using a(2) Cons.prems(2) by (elim disjE conjE) (auto simp: distinct_mm_insert_snd)
  note ih = Cons.IH [OF a(1) this]
  have b: "set rep1 \<union> set unrep1 \<union> snd ` set smaller1 \<subseteq> set rep \<union> set unrep \<union> snd ` set smaller \<union> set (d # ds)"
    "\<forall>p\<in>set smaller1. p \<in> set smaller \<or> may_export s (snd p) \<and> fst p = dt_pop (snd p) \<and> fst p \<le> need"
    using a(2) by (elim disjE conjE; auto)+
  show ?case
  proof (intro conjI)
    show "distinct (rep' @ unrep' @ map snd smaller')" using ih by blast
    show "set rep' \<union> set unrep' \<union> snd ` set smaller' \<subseteq> set rep \<union> set unrep \<union> snd ` set smaller \<union> set (d # ds)"
      by (rule order_trans [OF conjunct1 [OF conjunct2 [OF ih]]]) (rule Un_least [OF b(1)], auto)
    show "\<forall>p\<in>set smaller'. p \<in> set smaller \<or> may_export s (snd p) \<and> fst p = dt_pop (snd p) \<and> fst p \<le> need"
      using conjunct2 [OF conjunct2 [OF ih]] b(2) by blast
  qed
qed simp

section \<open>Soundness of the drill-down\<close>

definition picks :: "dir_tree set \<Rightarrow> export_state \<Rightarrow> export_state \<Rightarrow> bool" where
  "picks C s s' \<longleftrightarrow> (\<exists>new. grows s s' new \<and> chosen C new \<and> (\<forall>d\<in>set new. may_export s d))"

lemma picks_refl [simp]: "picks C s s"
  by (auto simp: picks_def intro!: exI [of _ "[]"])

lemma picks_mono: "picks C s s' \<Longrightarrow> C \<subseteq> D \<Longrightarrow> picks D s s'"
  unfolding picks_def using chosen_mono by blast

lemma picks_trans:
  assumes "distinct (map dt_id (fams ds))" "C \<subseteq> set ds" "D \<subseteq> set ds" "C \<inter> D = {}" "picks C s s1" "picks D s1 s2"
  shows "picks (C \<union> D) s s2"
proof -
  obtain m n where m: "grows s s1 m" "chosen C m" "\<forall>d\<in>set m. may_export s d"
    and n: "grows s1 s2 n" "chosen D n" "\<forall>d\<in>set n. may_export s1 d"
    using assms(5,6) unfolding picks_def by blast
  have "\<forall>d\<in>set (m @ n). may_export s d" using m(3) n(3) grows_may [OF m(1)] by auto
  with grows_trans [OF m(1) n(1)] chosen_append [OF assms(1-4) m(2) n(2)] show ?thesis unfolding picks_def by blast
qed

lemma picks_children:
  assumes "distinct (map dt_id (fams ds))" "distinct cs" "set cs \<subseteq> set ds" "\<forall>d\<in>set cs. may_export s d" "grows s s' cs"
  shows "picks (set cs) s s'"
  using chosen_children [OF assms(1-3)] assms(4,5) unfolding picks_def by blast

lemma picks_below:
  assumes "picks (set ds) s s'" "dt_subdirs d = ds"
  shows "picks {d} s s'"
proof -
  obtain new where n: "grows s s' new" "chosen (set ds) new" "\<forall>x\<in>set new. may_export s x"
    using assms(1) unfolding picks_def by blast
  have "(\<Union>c\<in>set ds. set (fam c)) \<subseteq> (\<Union>c\<in>{d}. set (fam c))" using assms(2) by (auto simp: below_subdirs [of d])
  then have "chosen {d} new" using n(2) unfolding chosen_def by (meson order_trans)
  with n show ?thesis unfolding picks_def by blast
qed

lemma fams_subdirs: "distinct (map dt_id (fams ds)) \<Longrightarrow> d \<in> set ds \<Longrightarrow> distinct (map dt_id (fams (dt_subdirs d)))"
  by (induction ds) (auto simp: below_subdirs [symmetric])

lemma fam_distinct: "distinct (map dt_id (fams ds)) \<Longrightarrow> c \<in> set ds \<Longrightarrow> distinct (map dt_id (fam c))"
  by (induction ds) auto

lemma fams_sub:
  assumes "distinct (map dt_id (fams ds))" "distinct cs" "set cs \<subseteq> set ds"
  shows "distinct (map dt_id (fams cs))"
  using assms(2,3)
proof (induction cs)
  case (Cons c cs)
  have "distinct (map dt_id (fam c))" by (rule fam_distinct [OF assms(1)]) (use Cons.prems(2) in simp)
  moreover have "dt_id ` set (fam c) \<inter> dt_id ` set (fams cs) = {}"
  proof -
    have "dt_id x \<noteq> dt_id y" if "x \<in> set (fam c)" "y \<in> set (fams cs)" for x y
    proof -
      from that(2) obtain d where d: "d \<in> set cs" "y \<in> set (fam d)" by auto
      with Cons.prems have "d \<in> set ds" "c \<in> set ds" "c \<noteq> d" by auto
      with fams_indep [OF assms(1)] that(1) d(2) show ?thesis by blast
    qed
    then show ?thesis by (auto simp: disjoint_iff)
  qed
  ultimately show ?case using Cons by simp
qed simp

lemma picks_may:
  assumes dist: "distinct (map dt_id (fams ds))" and p: "picks C s s'" and C: "C \<subseteq> set ds" and d: "d \<in> set ds" "d \<notin> C" "may_export s d"
  shows "may_export s' d"
proof -
  obtain new where n: "grows s s' new" "chosen C new" using p unfolding picks_def by blast
  have "dt_id x \<noteq> dt_id d" if "x \<in> set new" for x
  proof -
    have "x \<in> (\<Union>c\<in>C. set (fam c))" using that n(2) by (auto simp only: chosen_def dest!: subsetD)
    then obtain c where c: "c \<in> C" "x \<in> set (fam c)" by (elim UN_E)
    with C d(2) have "c \<in> set ds" "c \<noteq> d" by auto
    from fams_indep [OF dist this(1) d(1) this(2) c(2)] show ?thesis by simp
  qed
  then show ?thesis using n(1) d(3) by (auto simp: may_export_def grows_def)
qed

text \<open>The smaller fragments are taken from the front of the reversed list, with the drill-down in between.\<close>

lemma find_exports_picks:
  "\<not> use_lua_howmuch e \<Longrightarrow> find_exports e d amount s = Some s' \<Longrightarrow> distinct (map dt_id (fams (dt_subdirs d))) \<Longrightarrow>
     picks (set (dt_subdirs d)) s s'"
  "\<not> use_lua_howmuch e \<Longrightarrow> descend e nm ds amount s = Some (r, s') \<Longrightarrow> distinct (map dt_id (fams ds)) \<Longrightarrow> picks (set ds) s s'"
proof (induction e d amount s and e nm ds amount s arbitrary: s' and r s' rule: find_exports_descend.induct)
  case (1 e dir amount s)
  let ?ds = "dt_subdirs dir"
  let ?need = "amount - ex_have s"
  let ?nm = "?need * mds_bal_need_min (be_conf e)"
  let ?scan = "scan_subdirs ?need ?nm (?need * mds_bal_need_max (be_conf e)) (?need * mds_bal_minchunk (be_conf e)) ?ds s ([], [], [])"
  note dist = 1(5)
  show ?case
  proof (cases "?need < amount * mds_bal_min_start (be_conf e)")
    case True
    with 1(4) show ?thesis by (simp add: Let_def)
  next
    case start: False
    show ?thesis
    proof (cases ?scan)
      case (Inl s1)
      then have "s' = s1" using 1(4) start by (simp add: Let_def)
      with scan_Inl [OF Inl] obtain x where x: "x \<in> set ?ds" "may_export s x" "s' = take_export x s" by blast
      have "picks (set [x]) s s'"
        by (rule picks_children [OF dist]) (use x grows_take in auto)
      then show ?thesis by (rule picks_mono) (use x(1) in simp)
    next
      case (Inr acc)
      obtain rep unrep smaller where acc: "acc = (rep, unrep, smaller)" by (metis prod_cases3)
      note sc = Inr [unfolded acc]
      have d0: "distinct ([] @ [] @ map snd ([] :: (double \<times> dir_tree) list) @ ?ds)" using fams_distinct [OF dist] by simp
      have q: "distinct (rep @ unrep @ map snd smaller)" "set rep \<union> set unrep \<union> snd ` set smaller \<subseteq> set ?ds"
        "\<forall>p\<in>set smaller. may_export s (snd p)"
        using scan_Inr [OF sc d0] by auto
      obtain ret rest s1 where tb: "take_big (?need * mds_bal_midchunk (be_conf e)) ?nm (rev smaller) s = (ret, rest, s1)"
        by (metis prod_cases3)
      have pk: "pick_smaller e amount (?need * mds_bal_midchunk (be_conf e)) ?nm smaller s = Some (ret, rest, s1)"
        using tb 1(3) by (simp add: pick_smaller_def)
      obtain k where k: "rest = drop k (rev smaller)" "grows s s1 (map snd (take k (rev smaller)))"
        using take_big_grows [OF tb] by blast
      let ?B = "map snd (take k (rev smaller))" and ?R = "map snd (drop k (rev smaller))"
      have BR: "?B @ ?R = rev (map snd smaller)" by (simp flip: map_append add: rev_map)
      have BRd: "distinct (?B @ ?R)" unfolding BR using q(1) by simp
      have "set (?B @ ?R) = set (rev (map snd smaller))" by (simp only: BR)
      then have BRs: "set ?B \<union> set ?R = snd ` set smaller" by simp
      have dj: "set ?B \<inter> set ?R = {}" "(set ?B \<union> set ?R) \<inter> (set unrep \<union> set rep) = {}" "set unrep \<inter> set rep = {}"
        using BRd BRs q(1) by (simp_all, blast+)
      have sub: "set ?B \<subseteq> set ?ds" "set ?R \<subseteq> set ?ds" "set unrep \<subseteq> set ?ds" "set rep \<subseteq> set ?ds" using q(2) BRs by blast+
      have may: "\<forall>x\<in>set ?B \<union> set ?R. may_export s x" unfolding BRs using q(3) by simp
      have p1: "picks (set ?B) s s1"
        by (rule picks_children [OF dist _ sub(1) _ k(2)]) (use BRd may in auto)
      show ?thesis
      proof (cases ret)
        case True
        then have "s' = s1" using 1(4) start sc pk by (simp add: Let_def)
        with picks_mono [OF p1 sub(1)] show ?thesis by simp
      next
        case r1: False
        then obtain ret2 s2 where d2: "descend e ?nm unrep amount s1 = Some (ret2, s2)"
          using 1(4) start sc pk by (auto simp: Let_def bind_eq_Some_conv)
        have fd: "distinct (map dt_id (fams unrep))" "distinct (map dt_id (fams rep))"
          using fams_sub [OF dist] sub(3,4) q(1) by auto
        have pu: "picks (set unrep) s1 s2"
          by (rule 1(1) [OF refl refl start refl sc refl refl pk refl refl r1 1(3) d2 fd(1)])
        have p2: "picks (set ?B \<union> set unrep) s s2" by (rule picks_trans [OF dist sub(1,3) _ p1 pu]) (use dj in blast)
        show ?thesis
        proof (cases ret2)
          case True
          then have "s' = s2" using 1(4) start sc pk r1 d2 by (simp add: Let_def)
          from p2 have "picks (set ?ds) s s2" by (rule picks_mono) (use sub in blast)
          with \<open>s' = s2\<close> show ?thesis by simp
        next
          case r2: False
          obtain ret3 s3 where t3: "take_rest ?nm rest s2 = (ret3, s3)" by fastforce
          obtain j where j: "grows s2 s3 (map snd (take j rest))" using take_rest_grows [OF t3] by blast
          have jR: "set (map snd (take j rest)) \<subseteq> set ?R" using k(1) by (auto dest: in_set_takeD)
          have "picks (set (map snd (take j rest))) s2 s3"
          proof (rule picks_children [OF dist _ _ _ j])
            show "distinct (map snd (take j rest))" using BRd k(1) by (simp add: take_map [symmetric] del: take_map)
            show "set (map snd (take j rest)) \<subseteq> set ?ds" using jR sub(2) by blast
            show "\<forall>x\<in>set (map snd (take j rest)). may_export s2 x"
            proof
              fix x assume "x \<in> set (map snd (take j rest))"
              then have x: "x \<in> set ?R" using jR by blast
              show "may_export s2 x"
                by (rule picks_may [OF dist p2]) (use x sub may dj in blast)+
            qed
          qed
          then have pr: "picks (set ?R) s2 s3" by (rule picks_mono [OF _ jR])
          have p3: "picks (set ?B \<union> set unrep \<union> set ?R) s s3"
            by (rule picks_trans [OF dist _ sub(2) _ p2 pr]) (use dj sub in blast)+
          show ?thesis
          proof (cases ret3)
            case True
            then have "s' = s3" using 1(4) start sc pk r1 d2 r2 t3 by (simp add: Let_def)
            from p3 have "picks (set ?ds) s s3" by (rule picks_mono) (use sub in blast)
            with \<open>s' = s3\<close> show ?thesis by simp
          next
            case r3: False
            then obtain ret4 where d4: "descend e ?nm rep amount s3 = Some (ret4, s')"
              using 1(4) start sc pk r1 d2 r2 t3 by (auto simp: Let_def)
            have pe: "picks (set rep) s3 s'"
              by (rule 1(2) [OF refl refl start refl sc refl refl pk refl refl r1 d2 refl r2 t3 [symmetric] _ r3 1(3) d4 fd(2)]) simp
            have "picks (set ?B \<union> set unrep \<union> set ?R \<union> set rep) s s'"
              by (rule picks_trans [OF dist _ sub(4) _ p3 pe]) (use dj sub in blast)+
            then show ?thesis by (rule picks_mono) (use sub in blast)
          qed
        qed
      qed
    qed
  qed
next
  case (2 e needmin amount s)
  then show ?case by simp
next
  case (3 e needmin d ds amount s)
  obtain s1 where s1: "find_exports e d amount s = Some s1" using 3(4) by (auto simp: bind_eq_Some_conv)
  have dd: "distinct (map dt_id (fams (dt_subdirs d)))" "distinct (map dt_id (fams ds))"
    using fams_subdirs [OF 3(5), of d] 3(5) by auto
  have a: "picks {d} s s1" by (rule picks_below [OF 3(1) [OF 3(3) s1 dd(1)] refl])
  have dn: "d \<notin> set ds" using fams_distinct [OF 3(5)] by simp
  show ?case
  proof (cases "ex_have s1 > needmin")
    case True
    then have "picks {d} s s'" using 3(4) s1 a by auto
    then show ?thesis by (rule picks_mono) simp
  next
    case False
    then have "picks (set ds) s1 s'" using 3(2) [OF s1 False 3(3) _ dd(2)] 3(4) s1 by auto
    from picks_trans [OF 3(5) _ _ _ a this] dn show ?thesis by auto
  qed
qed

lemma scan_Inl_or_Inr:
  obtains s' where "scan_subdirs need mn mx ch ds s acc = Inl s'"
  | rep unrep smaller where "scan_subdirs need mn mx ch ds s acc = Inr (rep, unrep, smaller)"
  by (metis prod_cases3 sum.exhaust)

text \<open>Without the Lua selector nothing in the drill-down can fail.\<close>

lemma find_exports_total:
  "\<not> use_lua_howmuch e \<Longrightarrow> find_exports e d amount s \<noteq> None"
  "\<not> use_lua_howmuch e \<Longrightarrow> descend e nm ds amount s \<noteq> None"
proof (induction e d amount s and e nm ds amount s rule: find_exports_descend.induct)
  case (1 e dir amount s)
  let ?need = "amount - ex_have s"
  let ?nm = "?need * mds_bal_need_min (be_conf e)"
  let ?scan = "scan_subdirs ?need ?nm (?need * mds_bal_need_max (be_conf e)) (?need * mds_bal_minchunk (be_conf e)) (dt_subdirs dir) s ([], [], [])"
  show ?case
  proof (cases "?need < amount * mds_bal_min_start (be_conf e)")
    case start: False
    show ?thesis
    proof (rule scan_Inl_or_Inr [of ?need ?nm "?need * mds_bal_need_max (be_conf e)" "?need * mds_bal_minchunk (be_conf e)" "dt_subdirs dir" s "([], [], [])"])
      fix rep unrep smaller assume sc: "?scan = Inr (rep, unrep, smaller)"
      obtain ret rest s1 where "take_big (?need * mds_bal_midchunk (be_conf e)) ?nm (rev smaller) s = (ret, rest, s1)"
        by (metis prod_cases3)
      then have pk: "pick_smaller e amount (?need * mds_bal_midchunk (be_conf e)) ?nm smaller s = Some (ret, rest, s1)"
        using 1(3) by (simp add: pick_smaller_def)
      show ?thesis
      proof (cases ret)
        case r1: False
        obtain ret2 s2 where d2: "descend e ?nm unrep amount s1 = Some (ret2, s2)"
          using 1(1) [OF refl refl start refl sc refl refl pk refl refl r1 1(3)] by auto
        obtain ret3 s3 where t3: "take_rest ?nm rest s2 = (ret3, s3)" by fastforce
        show ?thesis
        proof (cases "ret2 \<or> ret3")
          case False
          then have r: "\<not> ret2" "\<not> ret3" by auto
          have "descend e ?nm rep amount s3 \<noteq> None"
            by (rule 1(2) [OF refl refl start refl sc refl refl pk refl refl r1 d2 refl r(1) t3 [symmetric] _ r(2) 1(3)]) simp
          then show ?thesis using start sc pk r1 d2 t3 r by (auto simp: Let_def)
        qed (use start sc pk r1 d2 t3 in \<open>auto simp: Let_def\<close>)
      qed (use start sc pk in \<open>simp add: Let_def\<close>)
    qed (use start in \<open>simp add: Let_def\<close>)
  qed (simp add: Let_def)
next
  case (3 e needmin d ds amount s)
  then show ?case by (auto simp: bind_eq_None_conv split: if_splits)
qed simp

text \<open>C33: Drilling down (without a Lua selector) always returns, and what it adds to the export list lies
  below the directory it was started on, is authoritative, not frozen and not being exported already;
  nothing is added twice, and no fragment is added that lies under another one added. \<open>have\<close> grows by
  exactly the popularity of what is added.\<close>

theorem find_exports_sound:
  assumes "\<not> use_lua_howmuch e" "distinct (map dt_id (below d))"
  shows "\<exists>s' new. find_exports e d amount s = Some s' \<and> ex_exports s' = ex_exports s @ new \<and>
    ex_have s' = ex_have s + (\<Sum>x\<leftarrow>new. dt_pop x) \<and> set (ex_already s') = set (ex_already s) \<union> dt_id ` set new \<and>
    set new \<subseteq> set (below d) \<and> distinct (map dt_id new) \<and>
    (\<forall>x\<in>set new. dt_auth x \<and> \<not> dt_frozen x \<and> dt_id x \<notin> set (ex_already s)) \<and>
    (\<forall>x\<in>set new. \<forall>y\<in>set new. dt_id x \<notin> dt_id ` set (below y))"
proof -
  obtain s' where s': "find_exports e d amount s = Some s'" using find_exports_total(1) [OF assms(1)] by blast
  have "distinct (map dt_id (fams (dt_subdirs d)))" using assms(2) by (simp add: below_subdirs [of d])
  from find_exports_picks(1) [OF assms(1) s' this] obtain new
    where n: "grows s s' new" "chosen (set (dt_subdirs d)) new" "\<forall>x\<in>set new. may_export s x"
    unfolding picks_def by blast
  have "set new \<subseteq> set (below d)" using n(2) by (simp add: chosen_def below_subdirs [of d])
  then show ?thesis
    using s' n by (intro exI [of _ s'] exI [of _ new]) (simp add: grows_def may_export_def chosen_def under_def)
qed

definition export_tree :: dir_tree where
  "export_tree = DirTree 0 200 True False False
     [DirTree 1 6 True False False [], DirTree 2 150 True False False [DirTree 3 80 True True False [], DirTree 4 45 True False False []],
      DirTree 5 20 True False False [], DirTree 6 40 False False False []]"

definition no_exports :: export_state where
  "no_exports = \<lparr>ex_exports = [], ex_have = 0, ex_already = []\<rparr>"

lemma export_example:
  "\<not> use_lua_howmuch plain_bal" "distinct (map dt_id (below export_tree))"
  "case find_exports plain_bal export_tree 60 no_exports of
     None \<Rightarrow> False | Some s' \<Rightarrow> map dt_id (ex_exports s') = [5, 4] \<and> ex_have s' = 65"
  by code_simp+

theorem find_exports_sound_witness:
  "\<exists>s'. find_exports plain_bal export_tree 60 no_exports = Some s' \<and> map dt_id (ex_exports s') = [5, 4] \<and>
     set (ex_exports s') \<subseteq> set (below export_tree) \<and> (\<forall>x\<in>set (ex_exports s'). dt_auth x \<and> \<not> dt_frozen x)"
proof -
  obtain s' where s': "find_exports plain_bal export_tree 60 no_exports = Some s'" "map dt_id (ex_exports s') = [5, 4]"
    using export_example(3) by (cases "find_exports plain_bal export_tree 60 no_exports") auto
  moreover have "ex_exports no_exports = []" by (simp add: no_exports_def)
  ultimately have "set (ex_exports s') \<subseteq> set (below export_tree) \<and> (\<forall>x\<in>set (ex_exports s'). dt_auth x \<and> \<not> dt_frozen x)"
    using find_exports_sound [OF export_example(1,2), of 60 no_exports] by auto
  with s' show ?thesis by (intro exI [of _ s'] conjI) simp_all
qed

section \<open>How far the drill-down overshoots\<close>

text \<open>\<open>rises B s s'\<close>: \<open>have\<close> never falls, and it rises at most to \<open>B\<close>.\<close>

definition rises :: "double \<Rightarrow> export_state \<Rightarrow> export_state \<Rightarrow> bool" where
  "rises B s s' \<longleftrightarrow> ex_have s \<le> ex_have s' \<and> ex_have s' \<le> max (ex_have s) B"

lemma rises_refl [simp]: "rises B s s"
  by (simp add: rises_def)

lemma rises_trans [trans]: "rises B s s1 \<Longrightarrow> rises B s1 s2 \<Longrightarrow> rises B s s2"
  by (auto simp: rises_def)

lemma rises_take: "0 \<le> dt_pop d \<Longrightarrow> ex_have s + dt_pop d \<le> B \<Longrightarrow> rises B s (take_export d s)"
  by (simp add: rises_def take_export_def)

lemma take_big_rises:
  assumes "take_big mid nm ps s = (r, rest, s')" "\<forall>p\<in>set ps. 0 \<le> dt_pop (snd p) \<and> dt_pop (snd p) \<le> L"
    "ex_have s \<le> M" "nm \<le> M" "M + L \<le> B"
  shows "rises B s s' \<and> set rest \<subseteq> set ps \<and> (r \<or> ex_have s' \<le> M)"
  using assms
proof (induction ps arbitrary: s)
  case (Cons p ps)
  let ?s1 = "take_export (snd p) s"
  have t: "rises B s ?s1" using Cons.prems(2,3,5) by (intro rises_take) auto
  show ?case
  proof (cases "fst p < mid \<or> ex_have ?s1 > nm")
    case True
    with Cons.prems t show ?thesis by (auto simp: Let_def split: if_splits)
  next
    case False
    then have "take_big mid nm ps ?s1 = (r, rest, s')" using Cons.prems(1) by (simp add: Let_def)
    then have "rises B ?s1 s' \<and> set rest \<subseteq> set ps \<and> (r \<or> ex_have s' \<le> M)"
      using Cons.prems False by (intro Cons.IH) auto
    then show ?thesis using rises_trans [OF t] by auto
  qed
qed auto

lemma take_rest_rises:
  assumes "take_rest nm ps s = (r, s')" "\<forall>p\<in>set ps. 0 \<le> dt_pop (snd p) \<and> dt_pop (snd p) \<le> L"
    "ex_have s \<le> M" "nm \<le> M" "M + L \<le> B"
  shows "rises B s s' \<and> (r \<or> ex_have s' \<le> M)"
  using assms
proof (induction ps arbitrary: s)
  case (Cons p ps)
  let ?s1 = "take_export (snd p) s"
  have t: "rises B s ?s1" using Cons.prems(2,3,5) by (intro rises_take) auto
  show ?case
  proof (cases "ex_have ?s1 > nm")
    case True
    with Cons.prems t show ?thesis by (auto simp: Let_def)
  next
    case False
    then have "take_rest nm ps ?s1 = (r, s')" using Cons.prems(1) by (simp add: Let_def)
    then have "rises B ?s1 s' \<and> (r \<or> ex_have s' \<le> M)"
      using Cons.prems False by (intro Cons.IH) auto
    then show ?thesis using rises_trans [OF t] by auto
  qed
qed auto

text \<open>The fragments the scan sets aside are among those it looked at.\<close>

lemma scan_Inr_sets:
  "scan_subdirs need mn mx ch ds s (rep, unrep, smaller) = Inr (rep', unrep', smaller') \<Longrightarrow>
   set rep' \<union> set unrep' \<union> snd ` set smaller' \<subseteq> set rep \<union> set unrep \<union> snd ` set smaller \<union> set ds \<and>
   (\<forall>p\<in>set smaller'. p \<in> set smaller \<or> fst p = dt_pop (snd p) \<and> fst p \<le> need)"
proof (induction ds arbitrary: rep unrep smaller)
  case (Cons d ds)
  show ?case
    by (rule scan_Cons [OF Cons.prems]) (elim disjE conjE; hypsubst; drule Cons.IH; auto)
qed simp

lemma fams_all_mono: "\<forall>x\<in>set (fams ds). P x \<Longrightarrow> set cs \<subseteq> set ds \<Longrightarrow> \<forall>x\<in>set (fams cs). P x"
  by auto

text \<open>The factor by which a drill-down may exceed the amount it was asked for.\<close>

definition overshoot :: "bal_env \<Rightarrow> double" where
  "overshoot e = max (mds_bal_need_max (be_conf e)) (1 + mds_bal_need_min (be_conf e))"

lemma overshoot_arith:
  fixes amount h mx mn :: double
  assumes "0 \<le> h" "0 \<le> amount" "1 \<le> mx" "0 \<le> mn" "ov = max mx (1 + mn)"
  shows "amount \<le> amount * ov" "h + (amount - h) * mx \<le> amount * ov" "(amount - h) * mn + (amount - h) \<le> amount * ov"
proof -
  have m: "amount * mx \<le> amount * ov" "amount * (1 + mn) \<le> amount * ov"
    using assms(2,5) by (simp_all add: mult_left_mono)
  have "amount * 1 \<le> amount * mx" by (intro mult_left_mono assms)
  with m(1) show "amount \<le> amount * ov" by simp
  have "h * 1 \<le> h * mx" by (intro mult_left_mono assms)
  with m(1) show "h + (amount - h) * mx \<le> amount * ov" by (simp add: algebra_simps)
  have "0 \<le> h * (1 + mn)" using assms by simp
  with m(2) show "(amount - h) * mn + (amount - h) \<le> amount * ov" by (simp add: algebra_simps)
qed

lemma find_exports_rises:
  "\<lbrakk>\<not> use_lua_howmuch e; 1 \<le> mds_bal_need_max (be_conf e); 0 \<le> mds_bal_need_min (be_conf e); 0 \<le> amount; 0 \<le> ex_have s;
    find_exports e d amount s = Some s'; \<forall>x\<in>set (below d). 0 \<le> dt_pop x\<rbrakk> \<Longrightarrow> rises (amount * overshoot e) s s'"
  "\<lbrakk>\<not> use_lua_howmuch e; 1 \<le> mds_bal_need_max (be_conf e); 0 \<le> mds_bal_need_min (be_conf e); 0 \<le> amount; 0 \<le> ex_have s;
    descend e nm ds amount s = Some (r, s'); \<forall>x\<in>set (fams ds). 0 \<le> dt_pop x\<rbrakk>
    \<Longrightarrow> rises (amount * overshoot e) s s' \<and> (r \<or> ex_have s' \<le> max (ex_have s) nm)"
proof (induction e d amount s and e nm ds amount s arbitrary: s' and r s' rule: find_exports_descend.induct)
  case (1 e dir amount s)
  let ?ds = "dt_subdirs dir"
  let ?B = "amount * overshoot e"
  let ?need = "amount - ex_have s"
  let ?nm = "?need * mds_bal_need_min (be_conf e)"
  let ?M = "max (ex_have s) ?nm"
  let ?scan = "scan_subdirs ?need ?nm (?need * mds_bal_need_max (be_conf e)) (?need * mds_bal_minchunk (be_conf e)) ?ds s ([], [], [])"
  note par = 1(3,4,5,6)
  have pos: "\<forall>x\<in>set (fams ?ds). 0 \<le> dt_pop x" using 1(9) unfolding below_subdirs [of dir] .
  note ar = overshoot_arith [OF 1(7) 1(6) 1(4) 1(5) overshoot_def]
  have MB: "?M + ?need \<le> ?B" using ar by (simp add: max_def)
  show ?case
  proof (cases "?need < amount * mds_bal_min_start (be_conf e)")
    case True
    with 1(8) show ?thesis by (simp add: Let_def)
  next
    case start: False
    show ?thesis
    proof (rule scan_Inl_or_Inr [of ?need ?nm "?need * mds_bal_need_max (be_conf e)" "?need * mds_bal_minchunk (be_conf e)" ?ds s "([], [], [])"])
      fix s1 assume sc: "?scan = Inl s1"
      then have "s' = s1" using 1(8) start by (simp add: Let_def)
      with scan_Inl [OF sc] obtain x where "x \<in> set ?ds" "dt_pop x < ?need * mds_bal_need_max (be_conf e)" "s' = take_export x s" by blast
      then show ?thesis using ar(2) pos by (auto intro!: rises_take)
    next
      fix rep unrep smaller assume sc: "?scan = Inr (rep, unrep, smaller)"
      note q = scan_Inr_sets [OF sc]
      have sm: "\<forall>p\<in>set smaller. 0 \<le> dt_pop (snd p) \<and> dt_pop (snd p) \<le> ?need"
      proof
        fix p assume p: "p \<in> set smaller"
        with q have "snd p \<in> set ?ds" "dt_pop (snd p) \<le> ?need" by auto
        then show "0 \<le> dt_pop (snd p) \<and> dt_pop (snd p) \<le> ?need" using pos by auto
      qed
      have sub: "\<forall>x\<in>set (fams unrep). 0 \<le> dt_pop x" "\<forall>x\<in>set (fams rep). 0 \<le> dt_pop x"
        using q by (auto intro!: fams_all_mono [OF pos] simp del: set_concat)
      obtain ret rest s1 where tb: "take_big (?need * mds_bal_midchunk (be_conf e)) ?nm (rev smaller) s = (ret, rest, s1)"
        by (metis prod_cases3)
      have pk: "pick_smaller e amount (?need * mds_bal_midchunk (be_conf e)) ?nm smaller s = Some (ret, rest, s1)"
        using tb 1(3) by (simp add: pick_smaller_def)
      have b: "rises ?B s s1" "set rest \<subseteq> set smaller" "ret \<or> ex_have s1 \<le> ?M"
        using take_big_rises [OF tb _ _ _ MB] sm by auto
      have h1: "0 \<le> ex_have s1" using b(1) 1(7) by (simp add: rises_def)
      show ?thesis
      proof (cases ret)
        case True
        with b(1) 1(8) start sc pk show ?thesis by (simp add: Let_def)
      next
        case r1: False
        then obtain ret2 s2 where d2: "descend e ?nm unrep amount s1 = Some (ret2, s2)"
          using 1(8) start sc pk by (auto simp: Let_def bind_eq_Some_conv)
        have u: "rises ?B s1 s2 \<and> (ret2 \<or> ex_have s2 \<le> max (ex_have s1) ?nm)"
          by (rule 1(1) [OF refl refl start refl sc refl refl pk refl refl r1 par h1 d2 sub(1)])
        have p2: "rises ?B s s2" using rises_trans [OF b(1)] u by blast
        show ?thesis
        proof (cases ret2)
          case True
          with p2 1(8) start sc pk r1 d2 show ?thesis by (simp add: Let_def)
        next
          case r2: False
          obtain ret3 s3 where t3: "take_rest ?nm rest s2 = (ret3, s3)" by fastforce
          have "ex_have s2 \<le> ?M" using u r2 b(3) r1 by auto
          then have "rises ?B s2 s3" using take_rest_rises [OF t3 _ _ _ MB] sm b(2) by auto
          from rises_trans [OF p2 this] have p3: "rises ?B s s3" .
          have h3: "0 \<le> ex_have s3" using p3 1(7) by (simp add: rises_def)
          show ?thesis
          proof (cases ret3)
            case True
            with p3 1(8) start sc pk r1 d2 r2 t3 show ?thesis by (simp add: Let_def)
          next
            case r3: False
            then obtain ret4 where d4: "descend e ?nm rep amount s3 = Some (ret4, s')"
              using 1(8) start sc pk r1 d2 r2 t3 by (auto simp: Let_def)
            have "rises ?B s3 s' \<and> (ret4 \<or> ex_have s' \<le> max (ex_have s3) ?nm)"
              by (rule 1(2) [OF refl refl start refl sc refl refl pk refl refl r1 d2 refl r2 t3 [symmetric] _ r3 par h3 d4 sub(2)]) simp
            with p3 show ?thesis using rises_trans by blast
          qed
        qed
      qed
    qed
  qed
next
  case (2 e needmin amount s)
  then show ?case by simp
next
  case (3 e needmin d ds amount s)
  obtain s1 where s1: "find_exports e d amount s = Some s1" using 3(8) by (auto simp: bind_eq_Some_conv)
  have a: "rises (amount * overshoot e) s s1" by (rule 3(1) [OF 3(3-7) s1]) (use 3(9) in auto)
  then have h1: "0 \<le> ex_have s1" using 3(7) by (simp add: rises_def)
  show ?case
  proof (cases "ex_have s1 > needmin")
    case True
    with 3(8) s1 a show ?thesis by auto
  next
    case False
    have "rises (amount * overshoot e) s1 s' \<and> (r \<or> ex_have s' \<le> max (ex_have s1) needmin)"
      by (rule 3(2) [OF s1 False 3(3-6) h1]) (use 3(8,9) s1 False in auto)
    with rises_trans [OF a] False show ?thesis by auto
  qed
qed

text \<open>C34: How much the built-in selection takes. When no script selects the fragments (\<^verbatim>\<open>mds_bal_lua\<close> is not 1 or \<^verbatim>\<open>mds_bal_howmuch\<close>
  is empty), \<^verbatim>\<open>mds_bal_need_max\<close> is at least 1 and \<^verbatim>\<open>mds_bal_need_min\<close> not negative, and the amount, what is
  already selected and the popularities of the directories below are not negative, a drill-down asked for
  \<open>amount\<close> returns, never lowers \<open>have\<close>, and never takes it beyond the larger of what it was and \<open>amount\<close>
  times the larger of \<^verbatim>\<open>mds_bal_need_max\<close> and 1 + \<^verbatim>\<open>mds_bal_need_min\<close>. A script may name a fragment any
  number of times, and no such bound holds for it.\<close>

theorem find_exports_bounded:
  assumes "\<not> use_lua_howmuch e" "1 \<le> mds_bal_need_max (be_conf e)" "0 \<le> mds_bal_need_min (be_conf e)"
    "0 \<le> amount" "0 \<le> ex_have s" "\<forall>x\<in>set (below d). 0 \<le> dt_pop x"
  shows "\<exists>s'. find_exports e d amount s = Some s' \<and> ex_have s \<le> ex_have s' \<and>
    ex_have s' \<le> max (ex_have s) (amount * max (mds_bal_need_max (be_conf e)) (1 + mds_bal_need_min (be_conf e)))"
proof -
  obtain s' where s': "find_exports e d amount s = Some s'" using find_exports_total(1) [OF assms(1)] by blast
  from find_exports_rises(1) [OF assms(1-5) s' assms(6)] s' show ?thesis by (auto simp: rises_def overshoot_def)
qed

theorem find_exports_bounded_witness:
  "\<exists>s'. find_exports plain_bal export_tree 60 no_exports = Some s' \<and> ex_have s' \<le> 108"
proof -
  have h: "\<not> use_lua_howmuch plain_bal" "1 \<le> mds_bal_need_max (be_conf plain_bal)" "0 \<le> mds_bal_need_min (be_conf plain_bal)"
    "(0::double) \<le> 60" "0 \<le> ex_have no_exports" "\<forall>x\<in>set (below export_tree). 0 \<le> dt_pop x"
    by code_simp+
  have v: "max (mds_bal_need_max (be_conf plain_bal)) (1 + mds_bal_need_min (be_conf plain_bal)) = 9 / 5" "ex_have no_exports = 0"
    by (simp_all add: plain_bal_def plain_conf_def no_exports_def)
  from find_exports_bounded [OF h] show ?thesis unfolding v by auto
qed

section \<open>Stopping early\<close>

text \<open>
  The tests \<^verbatim>\<open>have > needmin\<close> compare the running total, which counts what earlier calls selected, with a
  share of what was still missing when the call began.
\<close>

definition at_most_one :: "export_state \<Rightarrow> export_state \<Rightarrow> bool" where
  "at_most_one s s' \<longleftrightarrow> ex_have s \<le> ex_have s' \<and> (\<exists>new. ex_exports s' = ex_exports s @ new \<and> length new \<le> 1)"

lemma at_most_one_refl [simp]: "at_most_one s s"
  by (simp add: at_most_one_def)

lemma at_most_one_take [simp]: "0 \<le> dt_pop d \<Longrightarrow> at_most_one s (take_export d s)"
  by (simp add: at_most_one_def take_export_def)

lemma take_big_early:
  assumes "take_big mid nm ps s = (r, rest, s')" "nm < ex_have s" "\<forall>p\<in>set ps. 0 \<le> dt_pop (snd p)"
  shows "at_most_one s s' \<and> (r \<or> s' = s \<and> rest = ps)"
proof (cases ps)
  case (Cons p ps')
  then have "0 \<le> dt_pop (snd p)" using assms(3) by simp
  moreover from this have "nm < ex_have (take_export (snd p) s)" using assms(2) by (simp add: take_export_def)
  ultimately show ?thesis using assms(1) Cons by (auto simp: Let_def split: if_splits)
qed (use assms in auto)

lemma take_rest_early:
  assumes "take_rest nm ps s = (r, s')" "nm < ex_have s" "\<forall>p\<in>set ps. 0 \<le> dt_pop (snd p)"
  shows "at_most_one s s' \<and> (r \<or> s' = s)"
proof (cases ps)
  case (Cons p ps')
  then have "0 \<le> dt_pop (snd p)" using assms(3) by simp
  moreover from this have "nm < ex_have (take_export (snd p) s)" using assms(2) by (simp add: take_export_def)
  ultimately show ?thesis using assms(1) Cons by (auto simp: Let_def split: if_splits)
qed (use assms in auto)

lemma find_exports_early:
  "\<lbrakk>\<not> use_lua_howmuch e; (amount - ex_have s) * mds_bal_need_min (be_conf e) < ex_have s;
    find_exports e d amount s = Some s'; \<forall>x\<in>set (below d). 0 \<le> dt_pop x\<rbrakk> \<Longrightarrow> at_most_one s s'"
  "\<lbrakk>\<not> use_lua_howmuch e; (amount - ex_have s) * mds_bal_need_min (be_conf e) < ex_have s; nm < ex_have s;
    descend e nm ds amount s = Some (r, s'); \<forall>x\<in>set (fams ds). 0 \<le> dt_pop x\<rbrakk> \<Longrightarrow> at_most_one s s' \<and> (r \<or> s' = s)"
proof (induction e d amount s and e nm ds amount s arbitrary: s' and r s' rule: find_exports_descend.induct)
  case (1 e dir amount s)
  let ?ds = "dt_subdirs dir"
  let ?need = "amount - ex_have s"
  let ?nm = "?need * mds_bal_need_min (be_conf e)"
  let ?scan = "scan_subdirs ?need ?nm (?need * mds_bal_need_max (be_conf e)) (?need * mds_bal_minchunk (be_conf e)) ?ds s ([], [], [])"
  have pos: "\<forall>x\<in>set (fams ?ds). 0 \<le> dt_pop x" using 1(6) unfolding below_subdirs [of dir] .
  show ?case
  proof (cases "?need < amount * mds_bal_min_start (be_conf e)")
    case True
    with 1(5) show ?thesis by (simp add: Let_def)
  next
    case start: False
    show ?thesis
    proof (rule scan_Inl_or_Inr [of ?need ?nm "?need * mds_bal_need_max (be_conf e)" "?need * mds_bal_minchunk (be_conf e)" ?ds s "([], [], [])"])
      fix s1 assume sc: "?scan = Inl s1"
      then have "s' = s1" using 1(5) start by (simp add: Let_def)
      with scan_Inl [OF sc] obtain x where "x \<in> set ?ds" "s' = take_export x s" by blast
      then show ?thesis using pos by auto
    next
      fix rep unrep smaller assume sc: "?scan = Inr (rep, unrep, smaller)"
      note q = scan_Inr_sets [OF sc]
      have sm: "\<forall>p\<in>set smaller. 0 \<le> dt_pop (snd p)"
      proof
        fix p assume "p \<in> set smaller"
        with q have "snd p \<in> set ?ds" by auto
        then show "0 \<le> dt_pop (snd p)" using pos by auto
      qed
      have sub: "\<forall>x\<in>set (fams unrep). 0 \<le> dt_pop x" "\<forall>x\<in>set (fams rep). 0 \<le> dt_pop x"
        using q by (auto intro!: fams_all_mono [OF pos] simp del: set_concat)
      obtain ret rest s1 where tb: "take_big (?need * mds_bal_midchunk (be_conf e)) ?nm (rev smaller) s = (ret, rest, s1)"
        by (metis prod_cases3)
      have pk: "pick_smaller e amount (?need * mds_bal_midchunk (be_conf e)) ?nm smaller s = Some (ret, rest, s1)"
        using tb 1(3) by (simp add: pick_smaller_def)
      have b: "at_most_one s s1" "ret \<or> s1 = s \<and> rest = rev smaller" using take_big_early [OF tb 1(4)] sm by auto
      show ?thesis
      proof (cases ret)
        case True
        with b(1) 1(5) start sc pk show ?thesis by (simp add: Let_def)
      next
        case r1: False
        with b(2) have s1: "s1 = s" "rest = rev smaller" by auto
        obtain ret2 s2 where d2: "descend e ?nm unrep amount s1 = Some (ret2, s2)"
          using 1(5) start sc pk r1 by (auto simp: Let_def bind_eq_Some_conv)
        have u: "at_most_one s1 s2 \<and> (ret2 \<or> s2 = s1)"
          by (rule 1(1) [OF refl refl start refl sc refl refl pk refl refl r1 1(3) _ _ d2 sub(1)]) (use s1 1(4) in auto)
        show ?thesis
        proof (cases ret2)
          case True
          with u s1(1) 1(5) start sc pk r1 d2 show ?thesis by (simp add: Let_def)
        next
          case r2: False
          with u s1 have s2: "s2 = s" by simp
          obtain ret3 s3 where t3: "take_rest ?nm rest s2 = (ret3, s3)" by fastforce
          have v: "at_most_one s2 s3 \<and> (ret3 \<or> s3 = s2)"
            by (rule take_rest_early [OF t3]) (use 1(4) s2 s1(2) sm in auto)
          show ?thesis
          proof (cases ret3)
            case True
            with v s2 1(5) start sc pk r1 d2 r2 t3 show ?thesis by (simp add: Let_def)
          next
            case r3: False
            with v s2 have s3: "s3 = s" by simp
            obtain ret4 where d4: "descend e ?nm rep amount s3 = Some (ret4, s')"
              using 1(5) start sc pk r1 d2 r2 t3 r3 by (auto simp: Let_def)
            have "at_most_one s3 s' \<and> (ret4 \<or> s' = s3)"
              by (rule 1(2) [OF refl refl start refl sc refl refl pk refl refl r1 d2 refl r2 t3 [symmetric] _ r3 1(3) _ _ d4 sub(2)])
                (use s3 1(4) in auto)
            with s3 show ?thesis by simp
          qed
        qed
      qed
    qed
  qed
next
  case (2 e needmin amount s)
  then show ?case by simp
next
  case (3 e needmin d ds amount s)
  obtain s1 where s1: "find_exports e d amount s = Some s1" using 3(6) by (auto simp: bind_eq_Some_conv)
  have a: "at_most_one s s1" by (rule 3(1) [OF 3(3,4) s1]) (use 3(7) in auto)
  then have "needmin < ex_have s1" using 3(5) by (simp add: at_most_one_def)
  with 3(6) s1 a show ?case by auto
qed

text \<open>The running total stops a drill-down early: when what earlier calls selected already exceeds
  the share \<^verbatim>\<open>mds_bal_need_min\<close> of what is still missing, a call selects at most one more
  fragment, however small, whatever is left below the directory.\<close>

lemma find_exports_stops_early:
  assumes "\<not> use_lua_howmuch e" "(amount - ex_have s) * mds_bal_need_min (be_conf e) < ex_have s"
    "\<forall>x\<in>set (below d). 0 \<le> dt_pop x"
  shows "\<exists>s'. find_exports e d amount s = Some s' \<and> length (ex_exports s') \<le> length (ex_exports s) + 1"
proof -
  obtain s' where s': "find_exports e d amount s = Some s'" using find_exports_total(1) [OF assms(1)] by blast
  from find_exports_early(1) [OF assms(1,2) s' assms(3)] s' show ?thesis by (auto simp: at_most_one_def)
qed

text \<open>Fifty of a hundred units are selected; one of two fragments of twenty is added and the call ends.\<close>

lemma find_exports_stops_early_witness:
  "\<exists>s'. find_exports plain_bal (DirTree 0 40 True False False [DirTree 1 20 True False False [], DirTree 2 20 True False False []])
      100 (no_exports\<lparr>ex_have := 50\<rparr>) = Some s' \<and> length (ex_exports s') \<le> 1 \<and> ex_have s' = 70"
proof -
  let ?d = "DirTree 0 40 True False False [DirTree 1 20 True False False [], DirTree 2 20 True False False []]"
  let ?s = "no_exports\<lparr>ex_have := 50\<rparr>"
  have h: "\<not> use_lua_howmuch plain_bal" "(100 - ex_have ?s) * mds_bal_need_min (be_conf plain_bal) < ex_have ?s"
    "\<forall>x\<in>set (below ?d). 0 \<le> dt_pop x" "ex_exports ?s = []"
    "map_option ex_have (find_exports plain_bal ?d 100 ?s) = Some 70" by code_simp+
  from find_exports_stops_early [OF h(1-3)] h(4,5) show ?thesis by auto
qed

section \<open>The selector script\<close>

text \<open>
  The array for the script is as long as its three parts together, with no room for the terminating
  NUL that \<^verbatim>\<open>strcat\<close> writes: every call of the selector writes past it.
\<close>
lemma howmuch_script_overflows: "howmuch_buffer howmuch = None"
proof -
  have "length (concat (howmuch_parts howmuch)) = length LUA_PREPARE_HOWMUCH + length (c_str howmuch) + length LUA_RETURN_HOWMUCH"
    by (simp add: howmuch_parts_def)
  then show ?thesis unfolding howmuch_buffer_def by (simp add: fill_buffer_def)
qed

end
