(* ===== verification/Balancer_Rebalance.thy ===== *)
theory Balancer_Rebalance
  imports Balancer_Exports
begin

text \<open>
  Carrying out a plan (\<^verbatim>\<open>MDBalancer::try_rebalance\<close>, \<^verbatim>\<open>prep_rebalance\<close>). What the cache holds may change
  with every export that is handed to the migrator, so the cache is a function of what has been asked
  for so far: \<open>re_fullauth\<close> lists the roots of the subtrees this server is fully responsible for, in the
  order of the set, and \<open>re_look\<close> shows one of them. \<^verbatim>\<open>MIN_OFFLOAD\<close> is a static variable that holds the
  value the option had at the first call. \<^verbatim>\<open>import_pop_map\<close> is left out: the code that reads it stands
  under \<^verbatim>\<open>if (false)\<close>.
\<close>

record subtree =
  st_tree :: dir_tree
  st_path :: string
  st_stray :: bool
  st_base :: bool
  st_root :: bool
  st_freezing :: bool
  st_from :: mds_rank_t

record rebal_env =
  re_fullauth :: "bal_call list \<Rightarrow> nat list"
  re_look :: "bal_call list \<Rightarrow> nat \<Rightarrow> subtree"
  re_map_targets :: "mds_rank_t list"
  re_min_offload :: int

abbreviation look :: "rebal_env \<Rightarrow> balancer \<Rightarrow> nat \<Rightarrow> subtree" where
  "look c b i \<equiv> re_look c (bal_log b) i"

abbreviation pop_of :: "subtree \<Rightarrow> double" where
  "pop_of t \<equiv> dt_pop (st_tree t)"

section \<open>Imports\<close>

text \<open>Idle imports go back at once; the others are filed under the server they came from.\<close>

definition is_idle :: "bal_env \<Rightarrow> subtree \<Rightarrow> bool" where
  "is_idle e im \<longleftrightarrow> mds_bal_idle_threshold (be_conf e) > 0 \<and> pop_of im < mds_bal_idle_threshold (be_conf e) \<and>
     \<not> st_root im \<and> st_from im \<noteq> be_whoami e"

fun sort_imports :: "bal_env \<Rightarrow> rebal_env \<Rightarrow> nat list \<Rightarrow> (mds_rank_t \<times> nat) list \<Rightarrow> balancer
    \<Rightarrow> (mds_rank_t \<times> nat) list \<times> balancer" where
  "sort_imports e c [] from_map b = (from_map, b)"
| "sort_imports e c (i # is) from_map b =
     (let im = look c b i
      in if st_stray im then sort_imports e c is from_map b
         else if is_idle e im then sort_imports e c is from_map (bal_do (ExportDirNicely i (st_from im)) b)
         else sort_imports e c is (mm_insert (st_from im) i from_map) b)"

text \<open>Imports from the target are sent back while they fit into what is still to be moved.\<close>

fun reexport :: "rebal_env \<Rightarrow> mds_rank_t \<Rightarrow> double \<Rightarrow> nat list \<Rightarrow> double \<Rightarrow> (mds_rank_t \<times> nat) list \<Rightarrow> balancer
    \<Rightarrow> (double \<times> (mds_rank_t \<times> nat) list \<times> balancer) option" where
  "reexport c target amount [] got from_map b = Some (got, from_map, b)"
| "reexport c target amount (i # is) got from_map b =
     (let d = look c b i
      in if st_base d \<or> st_stray d \<or> st_freezing d \<or> dt_frozen (st_tree d)
         then reexport c target amount is got from_map b
         else do {
           assert_that (st_from d = target);
           let (have1, map1, b1) =
             (if pop_of d \<le> amount - got
              then (got + pop_of d, remove1 (target, i) from_map, bal_do (ExportDirNicely i target) b)
              else (got, from_map, b));
           if amount - have1 < of_int (re_min_offload c) then Some (have1, map1, b1)
           else reexport c target amount is have1 map1 b1 })"

section \<open>Selecting fragments of the workload\<close>

definition tilde :: "string \<Rightarrow> bool" where
  "tilde p \<longleftrightarrow> p \<noteq> [] \<and> hd p = CHR ''~''"

definition root_fits :: "double \<Rightarrow> export_state \<Rightarrow> subtree \<Rightarrow> bool" where
  "root_fits amount s d \<longleftrightarrow> \<not> tilde (st_path d) \<and> \<not> st_stray d \<and> dt_auth (st_tree d) \<and> dt_id (st_tree d) \<notin> set (ex_already s) \<and>
     \<not> dt_frozen (st_tree d) \<and> pop_of d < amount - ex_have s"

definition small_roots :: "double \<Rightarrow> export_state \<Rightarrow> subtree list \<Rightarrow> (double \<times> dir_tree) list" where
  "small_roots amount s ds =
     fold (\<lambda>d m. if root_fits amount s d then mm_insert (pop_of d) (st_tree d) m else m) ds []"

text \<open>The biggest ones first; they are not entered into \<^verbatim>\<open>already_exporting\<close>.\<close>

fun take_roots :: "double \<Rightarrow> (double \<times> dir_tree) list \<Rightarrow> export_state \<Rightarrow> export_state" where
  "take_roots enough [] s = s"
| "take_roots enough (p # ps) s =
     (let s1 = s\<lparr>ex_exports := ex_exports s @ [snd p], ex_have := ex_have s + fst p\<rparr>
      in if ex_have s1 > enough then s1 else take_roots enough ps s1)"

fun drill :: "bal_env \<Rightarrow> double \<Rightarrow> double \<Rightarrow> dir_tree list \<Rightarrow> export_state \<Rightarrow> export_state option" where
  "drill e amount enough [] s = Some s"
| "drill e amount enough (d # ds) s =
     (if dt_id d \<in> set (ex_already s) then drill e amount enough ds s
      else do {
        s1 \<leftarrow> (if dt_id d \<in> dt_id ` set (ex_exports s) then Some s else find_exports e d amount s);
        if ex_have s1 > enough then Some s1 else drill e amount enough ds s1 })"

definition select_exports :: "bal_env \<Rightarrow> int \<Rightarrow> subtree list \<Rightarrow> double \<Rightarrow> export_state \<Rightarrow> export_state option" where
  "select_exports e min_offload candidates amount s =
     do { let smaller = small_roots amount s candidates;
          let enough = amount - of_int min_offload;
          s1 \<leftarrow> (if use_lua_howmuch e then fragment_selector_luahook e smaller amount s
                 else Some (take_roots enough (rev smaller) s));
          if ex_have s1 < enough then drill e amount enough (map st_tree candidates) s1 else Some s1 }"

section \<open>The exports\<close>

definition rebalance_target :: "bal_env \<Rightarrow> rebal_env \<Rightarrow> mds_rank_t \<Rightarrow> double \<Rightarrow> (mds_rank_t \<times> nat) list \<times> nat list \<times> balancer
    \<Rightarrow> ((mds_rank_t \<times> nat) list \<times> nat list \<times> balancer) option" where
  "rebalance_target e c target amount s =
     (case s of (from_map, already, b) \<Rightarrow>
       if amount < of_int (re_min_offload c) then Some s
       else do {
         let b1 = bal_do ShowSubtrees b;
         (got, from_map1, b2) \<leftarrow>
           reexport c target amount (map snd (filter (\<lambda>p. fst p = target) from_map)) 0 from_map b1;
         if amount - got < of_int (re_min_offload c) then Some (from_map1, already, b2)
         else do {
           s1 \<leftarrow> select_exports e (re_min_offload c) (map (look c b2) (re_fullauth c (bal_log b2))) amount
                   \<lparr>ex_exports = [], ex_have = got, ex_already = already\<rparr>;
           Some (from_map1, ex_already s1,
                 fold (\<lambda>d b. bal_do (ExportDirNicely (dt_id d) target) b) (ex_exports s1) b2) } })"

fun rebalance_targets :: "bal_env \<Rightarrow> rebal_env \<Rightarrow> (mds_rank_t \<times> double) list \<Rightarrow> (mds_rank_t \<times> nat) list \<times> nat list \<times> balancer
    \<Rightarrow> ((mds_rank_t \<times> nat) list \<times> nat list \<times> balancer) option" where
  "rebalance_targets e c [] s = Some s"
| "rebalance_targets e c (t # ts) s =
     do { s1 \<leftarrow> rebalance_target e c (fst t) (snd t) s; rebalance_targets e c ts s1 }"

definition try_rebalance :: "bal_env \<Rightarrow> rebal_env \<Rightarrow> balancer \<Rightarrow> balancer option" where
  "try_rebalance e c b =
     (let (ok, b1) = check_targets e (re_map_targets c) b
      in if \<not> ok \<or> mds_thrash_exports (be_conf e) then Some b1
         else do {
           let (from_map, b2) = sort_imports e c (re_fullauth c (bal_log b1)) [] b1;
           (_, _, b3) \<leftarrow> rebalance_targets e c (my_targets b2) (from_map, [], b2);
           Some (bal_do ShowSubtrees b3) })"

definition prep_rebalance :: "bal_env \<Rightarrow> rebal_env \<Rightarrow> int \<Rightarrow> balancer \<Rightarrow> balancer option" where
  "prep_rebalance e c beat b =
     do { (go, b1) \<leftarrow> prep_plan e beat b; if go then try_rebalance e c b1 else Some b1 }"

section \<open>Auditing the exports\<close>

text \<open>
  \<open>audited J L xs\<close>: every export in the calls \<open>xs\<close>, made after the calls \<open>L\<close>, was justified by what had
  been asked for up to then.
\<close>

fun audited :: "(bal_call list \<Rightarrow> nat \<Rightarrow> mds_rank_t \<Rightarrow> bool) \<Rightarrow> bal_call list \<Rightarrow> bal_call list \<Rightarrow> bool" where
  "audited J L [] = True"
| "audited J L (x # xs) = ((case x of ExportDirNicely d t \<Rightarrow> J L d t | _ \<Rightarrow> True) \<and> audited J (L @ [x]) xs)"

lemma audited_append [simp]: "audited J L (xs @ ys) \<longleftrightarrow> audited J L xs \<and> audited J (L @ xs) ys"
  by (induction xs arbitrary: L) auto

text \<open>\<open>asks J b b'\<close>: only the log has grown, and by justified exports.\<close>

definition asks :: "(bal_call list \<Rightarrow> nat \<Rightarrow> mds_rank_t \<Rightarrow> bool) \<Rightarrow> balancer \<Rightarrow> balancer \<Rightarrow> bool" where
  "asks J b b' \<longleftrightarrow> (\<exists>new. b' = b\<lparr>bal_log := bal_log b @ new\<rparr> \<and> audited J (bal_log b) new)"

lemma asks_refl [simp]: "asks J b b"
  unfolding asks_def by (rule exI [of _ "[]"]) simp

lemma asks_trans [trans]:
  assumes "asks J b b1" "asks J b1 b2"
  shows "asks J b b2"
proof -
  obtain xs ys where "b1 = b\<lparr>bal_log := bal_log b @ xs\<rparr>" "audited J (bal_log b) xs"
    "b2 = b1\<lparr>bal_log := bal_log b1 @ ys\<rparr>" "audited J (bal_log b1) ys"
    using assms unfolding asks_def by blast
  then show ?thesis unfolding asks_def by (intro exI [of _ "xs @ ys"]) simp
qed

lemma asks_show [simp]: "asks J b (bal_do ShowSubtrees b)"
  unfolding asks_def bal_do_def by (rule exI [of _ "[ShowSubtrees]"]) simp

lemma asks_export: "J (bal_log b) d t \<Longrightarrow> asks J b (bal_do (ExportDirNicely d t) b)"
  unfolding asks_def bal_do_def by (rule exI [of _ "[ExportDirNicely d t]"]) simp

lemma asks_log: "asks J b b' \<Longrightarrow> \<exists>new. bal_log b' = bal_log b @ new \<and> audited J (bal_log b) new"
  by (auto simp: asks_def)

lemma asks_targets: "asks J b b' \<Longrightarrow> my_targets b' = my_targets b"
  by (auto simp: asks_def)

text \<open>
  Why an export may be asked for after the calls \<open>L\<close>: the fragment is an idle import going back, it is an
  import that goes back to a server that is a target, or it lies in a subtree this server is fully
  responsible for, is authoritative and not frozen.
\<close>

definition idle_return :: "bal_env \<Rightarrow> rebal_env \<Rightarrow> bal_call list \<Rightarrow> nat \<Rightarrow> mds_rank_t \<Rightarrow> bool" where
  "idle_return e c L d t \<longleftrightarrow> is_idle e (re_look c L d) \<and> st_from (re_look c L d) = t"

definition returned :: "rebal_env \<Rightarrow> bal_call list \<Rightarrow> nat \<Rightarrow> mds_rank_t \<Rightarrow> bool" where
  "returned c L d t \<longleftrightarrow> (let im = re_look c L d
     in st_from im = t \<and> \<not> st_base im \<and> \<not> st_stray im \<and> \<not> st_freezing im \<and> \<not> dt_frozen (st_tree im))"

definition offered :: "rebal_env \<Rightarrow> bal_call list \<Rightarrow> nat \<Rightarrow> bool" where
  "offered c L d \<longleftrightarrow> (\<exists>r\<in>set (re_fullauth c L). \<exists>x\<in>set (fam (st_tree (re_look c L r))).
     dt_id x = d \<and> dt_auth x \<and> \<not> dt_frozen x)"

definition planned_target :: "rebal_env \<Rightarrow> (mds_rank_t \<times> double) list \<Rightarrow> mds_rank_t \<Rightarrow> bool" where
  "planned_target c targets t \<longleftrightarrow> t \<in> set (re_map_targets c) \<and> (\<exists>amount. (t, amount) \<in> set targets \<and> of_int (re_min_offload c) \<le> amount)"

definition justified :: "bal_env \<Rightarrow> rebal_env \<Rightarrow> (mds_rank_t \<times> double) list \<Rightarrow> bal_call list \<Rightarrow> nat \<Rightarrow> mds_rank_t \<Rightarrow> bool" where
  "justified e c targets L d t \<longleftrightarrow> idle_return e c L d t \<or>
     planned_target c targets t \<and> (returned c L d t \<or> (\<exists>n\<le>length L. offered c (take n L) d))"

lemma sort_imports_asks:
  "sort_imports e c is m b = (m', b') \<Longrightarrow> asks (justified e c ts) b b'"
proof (induction "is" arbitrary: m b)
  case (Cons i "is")
  let ?b1 = "bal_do (ExportDirNicely i (st_from (look c b i))) b"
  show ?case
  proof (cases "\<not> st_stray (look c b i) \<and> is_idle e (look c b i)")
    case True
    then have "asks (justified e c ts) b ?b1" by (intro asks_export) (simp add: justified_def idle_return_def)
    also have "asks (justified e c ts) ?b1 b'" by (rule Cons.IH) (use Cons.prems True in \<open>simp add: Let_def\<close>)
    finally show ?thesis .
  next
    case False
    with Cons show ?thesis by (auto simp: Let_def split: if_splits)
  qed
qed simp

lemma reexport_asks:
  assumes "reexport c target amount is got m b = Some (got', m', b')" "planned_target c ts target"
  shows "asks (justified e c ts) b b'"
  using assms(1)
proof (induction "is" arbitrary: got m b)
  case (Cons i "is")
  let ?d = "look c b i"
  let ?b1 = "if pop_of ?d \<le> amount - got then bal_do (ExportDirNicely i target) b else b"
  show ?case
  proof (cases "st_base ?d \<or> st_stray ?d \<or> st_freezing ?d \<or> dt_frozen (st_tree ?d)")
    case True
    with Cons show ?thesis by (auto simp: Let_def)
  next
    case False
    then have f: "st_from ?d = target" using Cons.prems by (auto simp: Let_def)
    have a: "asks (justified e c ts) b ?b1"
      using False f assms(2) by (auto intro!: asks_export simp: justified_def returned_def Let_def)
    have "asks (justified e c ts) ?b1 b'"
      using Cons.prems False f by (auto simp: Let_def intro: Cons.IH split: if_splits)
    with a show ?thesis by (rule asks_trans)
  qed
qed simp

section \<open>The selection only offers what may be exported\<close>

definition eligible :: "subtree list \<Rightarrow> dir_tree \<Rightarrow> bool" where
  "eligible ds x \<longleftrightarrow> (\<exists>r\<in>set ds. x \<in> set (fam (st_tree r))) \<and> dt_auth x \<and> \<not> dt_frozen x"

text \<open>\<open>adds P s s'\<close>: what has been added to the exports has the property \<open>P\<close>, and nothing is taken back.\<close>

definition adds :: "(dir_tree \<Rightarrow> bool) \<Rightarrow> export_state \<Rightarrow> export_state \<Rightarrow> bool" where
  "adds P s s' \<longleftrightarrow> (\<exists>new. ex_exports s' = ex_exports s @ new \<and> (\<forall>x\<in>set new. P x))"

lemma adds_refl [simp]: "adds P s s"
  by (simp add: adds_def)

lemma adds_trans [trans]: "adds P s s1 \<Longrightarrow> adds P s1 s2 \<Longrightarrow> adds P s s2"
  unfolding adds_def by (metis UnE append_assoc set_append)

lemma adds_mono: "adds P s s' \<Longrightarrow> (\<And>x. P x \<Longrightarrow> Q x) \<Longrightarrow> adds Q s s'"
  unfolding adds_def by blast

lemma eligible_below:
  "(\<exists>d\<in>set (map st_tree ds). x \<in> set (below d)) \<and> dt_auth x \<and> \<not> dt_frozen x \<Longrightarrow> eligible ds x"
  unfolding eligible_def by auto

lemma eligible_offered:
  assumes "eligible (map (re_look c L) (re_fullauth c L)) x"
  shows "offered c L (dt_id x)"
proof -
  obtain r where "r \<in> set (re_fullauth c L)" "x \<in> set (fam (st_tree (re_look c L r)))" "dt_auth x" "\<not> dt_frozen x"
    using assms by (auto simp only: eligible_def set_map)
  then show ?thesis unfolding offered_def by blast
qed

lemma adds_start: "adds P s s' \<Longrightarrow> ex_exports s = [] \<Longrightarrow> \<forall>x\<in>set (ex_exports s'). P x"
  by (auto simp: adds_def)

lemma small_roots_fit:
  "p \<in> set (small_roots amount s ds) \<Longrightarrow> \<exists>d\<in>set ds. root_fits amount s d \<and> p = (pop_of d, st_tree d)"
proof -
  have "p \<in> set (fold (\<lambda>d m. if root_fits amount s d then mm_insert (pop_of d) (st_tree d) m else m) ds m) \<Longrightarrow>
    p \<in> set m \<or> (\<exists>d\<in>set ds. root_fits amount s d \<and> p = (pop_of d, st_tree d))" for m
    by (induction ds arbitrary: m) (fastforce split: if_splits)+
  then show "p \<in> set (small_roots amount s ds) \<Longrightarrow> ?thesis" by (fastforce simp: small_roots_def)
qed

lemma take_roots_adds: "\<forall>p\<in>set ps. P (snd p) \<Longrightarrow> adds P s (take_roots enough ps s)"
proof (induction ps arbitrary: s)
  case (Cons p ps)
  let ?s1 = "s\<lparr>ex_exports := ex_exports s @ [snd p], ex_have := ex_have s + fst p\<rparr>"
  have "adds P s ?s1" using Cons.prems by (simp add: adds_def)
  with Cons show ?case by (auto simp: Let_def intro: adds_trans)
qed simp

lemma find_exports_adds:
  assumes "\<not> use_lua_howmuch e" "find_exports e d amount s = Some s'" "distinct (map dt_id (below d))"
  shows "adds (\<lambda>x. x \<in> set (below d) \<and> dt_auth x \<and> \<not> dt_frozen x) s s'"
proof -
  have "distinct (map dt_id (fams (dt_subdirs d)))" using assms(3) by (simp add: below_subdirs [of d])
  from find_exports_picks(1) [OF assms(1,2) this] obtain new
    where n: "grows s s' new" "chosen (set (dt_subdirs d)) new" "\<forall>x\<in>set new. may_export s x"
    unfolding picks_def by blast
  have "set new \<subseteq> set (below d)" using n(2) by (simp add: chosen_def below_subdirs [of d])
  with n show ?thesis by (auto simp: adds_def grows_def may_export_def)
qed

lemma drill_adds:
  assumes "\<not> use_lua_howmuch e" "drill e amount enough ds s = Some s'" "\<forall>d\<in>set ds. distinct (map dt_id (below d))"
  shows "adds (\<lambda>x. (\<exists>d\<in>set ds. x \<in> set (below d)) \<and> dt_auth x \<and> \<not> dt_frozen x) s s'"
proof -
  have "drill e amount enough cs s = Some s' \<Longrightarrow> set cs \<subseteq> set ds \<Longrightarrow>
    adds (\<lambda>x. (\<exists>d\<in>set ds. x \<in> set (below d)) \<and> dt_auth x \<and> \<not> dt_frozen x) s s'" for cs
  proof (induction cs arbitrary: s)
    case (Cons d cs)
    show ?case
    proof (cases "dt_id d \<in> set (ex_already s)")
      case False
      then obtain s1 where s1: "(if dt_id d \<in> dt_id ` set (ex_exports s) then Some s else find_exports e d amount s) = Some s1"
        "(if ex_have s1 > enough then Some s1 else drill e amount enough cs s1) = Some s'"
        using Cons.prems(1) by (auto simp: bind_eq_Some_conv)
      have "adds (\<lambda>x. x \<in> set (below d) \<and> dt_auth x \<and> \<not> dt_frozen x) s s1"
        using s1(1) find_exports_adds [OF assms(1), of d amount s s1] assms(3) Cons.prems(2) by (auto split: if_splits)
      then have a: "adds (\<lambda>x. (\<exists>d\<in>set ds. x \<in> set (below d)) \<and> dt_auth x \<and> \<not> dt_frozen x) s s1"
        using Cons.prems(2) by (auto simp: adds_def)
      show ?thesis
      proof (cases "ex_have s1 > enough")
        case True
        with a s1(2) show ?thesis by simp
      next
        case False
        with s1(2) Cons.prems(2) have "adds (\<lambda>x. (\<exists>d\<in>set ds. x \<in> set (below d)) \<and> dt_auth x \<and> \<not> dt_frozen x) s1 s'"
          by (intro Cons.IH) auto
        with a show ?thesis by (rule adds_trans)
      qed
    qed (use Cons in auto)
  qed simp
  then show ?thesis using assms(2) by blast
qed

lemma select_exports_adds:
  assumes "\<not> use_lua_howmuch e" "select_exports e mo ds amount s = Some s'" "\<forall>d\<in>set ds. distinct (map dt_id (below (st_tree d)))"
  shows "adds (eligible ds) s s'"
proof -
  let ?s1 = "take_roots (amount - of_int mo) (rev (small_roots amount s ds)) s"
  have s': "(if ex_have ?s1 < amount - of_int mo then drill e amount (amount - of_int mo) (map st_tree ds) ?s1 else Some ?s1) = Some s'"
    using assms(1,2) by (simp add: select_exports_def Let_def)
  have a: "adds (eligible ds) s ?s1"
    by (rule take_roots_adds) (auto dest!: small_roots_fit simp: root_fits_def eligible_def)
  show ?thesis
  proof (cases "ex_have ?s1 < amount - of_int mo")
    case True
    then have "adds (\<lambda>x. (\<exists>d\<in>set (map st_tree ds). x \<in> set (below d)) \<and> dt_auth x \<and> \<not> dt_frozen x) ?s1 s'"
      using s' assms(3) by (intro drill_adds [OF assms(1)]) auto
    then have "adds (eligible ds) ?s1 s'" by (rule adds_mono) (rule eligible_below)
    with a show ?thesis by (rule adds_trans)
  qed (use s' a in simp)
qed

section \<open>The exports are justified\<close>

definition snapshots_ok :: "rebal_env \<Rightarrow> bool" where
  "snapshots_ok c \<longleftrightarrow> (\<forall>L. \<forall>r\<in>set (re_fullauth c L). distinct (map dt_id (below (st_tree (re_look c L r)))))"

lemma export_all_asks:
  assumes "planned_target c ts target" "\<forall>x\<in>set xs. offered c L (dt_id x)" "L = take n (bal_log b)" "n \<le> length (bal_log b)"
  shows "asks (justified e c ts) b (fold (\<lambda>d b. bal_do (ExportDirNicely (dt_id d) target) b) xs b)"
  using assms(2-4)
proof (induction xs arbitrary: b)
  case (Cons x xs)
  let ?b1 = "bal_do (ExportDirNicely (dt_id x) target) b"
  have "asks (justified e c ts) b ?b1"
    by (rule asks_export) (use Cons.prems assms(1) in \<open>auto simp: justified_def\<close>)
  also have "asks (justified e c ts) ?b1 (fold (\<lambda>d b. bal_do (ExportDirNicely (dt_id d) target) b) xs ?b1)"
    by (rule Cons.IH) (use Cons.prems in \<open>simp_all add: bal_do_def\<close>)
  finally show ?case by simp
qed simp

lemma rebalance_target_asks:
  assumes "rebalance_target e c target amount (m, al, b) = Some (m', al', b')" "\<not> use_lua_howmuch e" "snapshots_ok c"
    "target \<in> set (re_map_targets c)" "(target, amount) \<in> set ts"
  shows "asks (justified e c ts) b b'"
proof (cases "amount < of_int (re_min_offload c)")
  case False
  then have pt: "planned_target c ts target" using assms(4,5) by (auto simp: planned_target_def)
  let ?b1 = "bal_do ShowSubtrees b"
  obtain got m1 b2 where r: "reexport c target amount (map snd (filter (\<lambda>p. fst p = target) m)) 0 m ?b1 = Some (got, m1, b2)"
    using assms(1) False by (auto simp: rebalance_target_def Let_def bind_eq_Some_conv)
  have "asks (justified e c ts) b ?b1" by simp
  also have "asks (justified e c ts) ?b1 b2" by (rule reexport_asks [OF r pt])
  finally have a: "asks (justified e c ts) b b2" .
  show ?thesis
  proof (cases "amount - got < of_int (re_min_offload c)")
    case True
    with assms(1) False r a show ?thesis by (simp add: rebalance_target_def Let_def)
  next
    case go: False
    let ?ds = "map (look c b2) (re_fullauth c (bal_log b2))"
    let ?s = "\<lparr>ex_exports = [], ex_have = got, ex_already = al\<rparr>"
    obtain s1 where s: "select_exports e (re_min_offload c) ?ds amount ?s = Some s1"
      "b' = fold (\<lambda>d b. bal_do (ExportDirNicely (dt_id d) target) b) (ex_exports s1) b2"
      using assms(1) False r go by (auto simp: rebalance_target_def Let_def bind_eq_Some_conv)
    have "adds (eligible ?ds) ?s s1"
      by (rule select_exports_adds [OF assms(2) s(1)]) (use assms(3) in \<open>auto simp: snapshots_ok_def\<close>)
    then have "\<forall>x\<in>set (ex_exports s1). eligible ?ds x" by (rule adds_start) simp
    then have "\<forall>x\<in>set (ex_exports s1). offered c (bal_log b2) (dt_id x)" by (blast intro: eligible_offered)
    then have "asks (justified e c ts) b2 b'"
      unfolding s(2) by (intro export_all_asks [OF pt, where n = "length (bal_log b2)"]) simp_all
    with a show ?thesis by (rule asks_trans)
  qed
qed (use assms(1) in \<open>simp add: rebalance_target_def\<close>)

lemma rebalance_targets_asks:
  "\<lbrakk>rebalance_targets e c ws (m, al, b) = Some (m', al', b'); \<not> use_lua_howmuch e; snapshots_ok c;
    set ws \<subseteq> set ts; fst ` set ts \<subseteq> set (re_map_targets c)\<rbrakk> \<Longrightarrow> asks (justified e c ts) b b'"
proof (induction ws arbitrary: m al b)
  case (Cons w ws)
  obtain m1 al1 b1 where 1: "rebalance_target e c (fst w) (snd w) (m, al, b) = Some (m1, al1, b1)"
    "rebalance_targets e c ws (m1, al1, b1) = Some (m', al', b')"
    using Cons.prems(1) by (auto simp: bind_eq_Some_conv)
  have "asks (justified e c ts) b b1"
    by (rule rebalance_target_asks [OF 1(1) Cons.prems(2,3)]) (use Cons.prems(4,5) in auto)
  also have "asks (justified e c ts) b1 b'"
    by (rule Cons.IH [OF 1(2) Cons.prems(2,3)]) (use Cons.prems(4,5) in auto)
  finally show ?case .
qed simp

lemma note_my_targets_missing:
  "note_my_targets mt is (need, m, missing) = (need', m', missing') \<Longrightarrow> missing' \<longleftrightarrow> missing \<or> \<not> set is \<subseteq> set mt"
  by (induction "is" arbitrary: need m missing) auto

lemma check_targets_frame:
  assumes "check_targets e mt b = (ok, b1)"
  shows "ok \<longleftrightarrow> fst ` set (my_targets b) \<subseteq> set mt"
    "\<exists>new. b1 = b\<lparr>old_prev_targets := old_prev_targets b1, bal_log := bal_log b @ new\<rparr> \<and> audited J (bal_log b) new"
proof -
  obtain need m2 missing where n: "note_my_targets mt (map fst (my_targets b))
      ([], fold (note_map_target (my_targets b)) mt (old_prev_targets b), False) = (need, m2, missing)"
    by (metis prod_cases3)
  show "ok \<longleftrightarrow> fst ` set (my_targets b) \<subseteq> set mt"
    using note_my_targets_missing [OF n] assms n by (auto simp: check_targets_def Let_def split: prod.splits)
  show "\<exists>new. b1 = b\<lparr>old_prev_targets := old_prev_targets b1, bal_log := bal_log b @ new\<rparr> \<and> audited J (bal_log b) new"
  proof (cases "bal_log b1 = bal_log b")
    case True
    with assms n show ?thesis
      by (intro exI [of _ "[]"]) (auto simp: check_targets_def Let_def bal_do_def split: prod.splits if_splits)
  next
    case False
    then obtain want where "bal_log b1 = bal_log b @ [SendLoadTargets want]"
      using assms n by (auto simp: check_targets_def Let_def bal_do_def split: prod.splits if_splits)
    with assms n show ?thesis
      by (intro exI [of _ "[SendLoadTargets want]"]) (auto simp: check_targets_def Let_def bal_do_def split: prod.splits if_splits)
  qed
qed

lemma sweep_targets_sends: "sweep_targets cf mt need ps (want, m, True) = (want', m', send') \<Longrightarrow> send'"
  by (induction ps arbitrary: want m) (auto split: if_splits)

text \<open>A missing target always makes it ask for a new list.\<close>

lemma check_targets_asks:
  assumes "check_targets e mt b = (ok, b1)" "\<not> ok"
  shows "\<exists>want. bal_log b1 = bal_log b @ [SendLoadTargets want]"
proof -
  obtain need m2 missing where n: "note_my_targets mt (map fst (my_targets b))
      ([], fold (note_map_target (my_targets b)) mt (old_prev_targets b), False) = (need, m2, missing)"
    by (metis prod_cases3)
  obtain want m3 send where w: "sweep_targets (be_conf e) mt need m2 (need, m2, missing) = (want, m3, send)"
    by (metis prod_cases3)
  have "missing" using assms n w by (auto simp: check_targets_def Let_def)
  with w have "send" using sweep_targets_sends by (cases missing) auto
  with assms n w show ?thesis by (auto simp: check_targets_def Let_def bal_do_def)
qed

text \<open>The rebalance changes the counters of \<^verbatim>\<open>check_targets\<close> and asks for justified exports, nothing else.\<close>

lemma try_rebalance_asks:
  assumes "try_rebalance e c b = Some b'" "\<not> use_lua_howmuch e" "snapshots_ok c"
  shows "\<exists>new. b' = b\<lparr>old_prev_targets := old_prev_targets b', bal_log := bal_log b @ new\<rparr> \<and>
    audited (justified e c (my_targets b)) (bal_log b) new"
proof -
  let ?J = "justified e c (my_targets b)"
  obtain ok b1 where ct: "check_targets e (re_map_targets c) b = (ok, b1)" by fastforce
  obtain xs where b1: "b1 = b\<lparr>old_prev_targets := old_prev_targets b1, bal_log := bal_log b @ xs\<rparr>" "audited ?J (bal_log b) xs"
    using check_targets_frame(2) [OF ct] by blast
  have mt: "my_targets b1 = my_targets b" by (subst b1(1)) simp
  have lg: "bal_log b1 = bal_log b @ xs" by (subst b1(1)) simp
  have "asks ?J b1 b'"
  proof (cases "\<not> ok \<or> mds_thrash_exports (be_conf e)")
    case False
    obtain m b2 where s: "sort_imports e c (re_fullauth c (bal_log b1)) [] b1 = (m, b2)" by fastforce
    have a: "asks ?J b1 b2" by (rule sort_imports_asks [OF s])
    then have t: "my_targets b2 = my_targets b" using asks_targets mt by metis
    obtain m3 al3 b3 where r: "rebalance_targets e c (my_targets b2) (m, [], b2) = Some (m3, al3, b3)" "b' = bal_do ShowSubtrees b3"
      using assms(1) ct s False by (auto simp: try_rebalance_def Let_def bind_eq_Some_conv)
    note a
    also have "asks ?J b2 b3"
      by (rule rebalance_targets_asks [OF r(1) assms(2,3)]) (use t check_targets_frame(1) [OF ct] False in auto)
    also have "asks ?J b3 b'" using r(2) by simp
    finally show ?thesis .
  qed (use assms(1) ct in \<open>auto simp: try_rebalance_def Let_def\<close>)
  then obtain ys where ys: "b' = b1\<lparr>bal_log := bal_log b1 @ ys\<rparr>" "audited ?J (bal_log b1) ys" unfolding asks_def by blast
  have "b' = b\<lparr>old_prev_targets := old_prev_targets b', bal_log := bal_log b @ xs @ ys\<rparr>"
    unfolding ys(1) by (subst b1(1)) (simp add: lg)
  with ys(2) b1(2) lg show ?thesis by (intro exI [of _ "xs @ ys"]) simp
qed

lemma prep_plan_log:
  assumes "prep_plan e beat b = Some (go, b')" "\<not> mds_thrash_exports (be_conf e)" "om_ok (mds_meta_load b)"
  shows "\<exists>new. bal_log b' = bal_log b @ new \<and> set new \<subseteq> {ClearExportQueue, ShowSubtrees}"
proof -
  let ?b1 = "bal_do ClearExportQueue (b\<lparr>rebalance_time := be_now e, my_targets := [], imported := [], exported := []\<rparr>)"
  obtain f b2 t lm b3 where s: "load_factor e ?b1 = Some (f, b2)"
    "load_loop e f (map int [0..<be_num_in e]) (0, [], b2) = Some (t, lm, b3)"
    using assms(1,2) by (auto simp: prep_plan_def Let_def bind_eq_Some_conv)
  have "bal_log b2 = bal_log ?b1" by (subst load_factor_fields [OF s(1)]) simp
  with load_loop_log [OF s(2)] have l: "bal_log b3 = bal_log b @ [ClearExportQueue]" by (simp add: bal_do_def)
  show ?thesis
  proof (cases go)
    case True
    then have go: "prep_plan e beat b = Some (True, b')" using assms(1) by simp
    obtain lm' b5 where p: "match_all e beat lm' b5 = Some b'" "plan_ok e b5" "bal_log b5 = bal_log b @ [ClearExportQueue]"
      by (rule prep_plan_cases [OF go assms(2,3)])
    have "plan_view b' = plan_view b5" using match_all_ok [OF p(2), of beat lm'] p(1) by auto
    with p(3) show ?thesis by (simp add: plan_view_def)
  next
    case False
    with assms(1,2) s l show ?thesis by (auto simp: prep_plan_def Let_def bind_eq_Some_conv bal_do_def split: if_splits)
  qed
qed

lemma audited_mono: "audited J L xs \<Longrightarrow> (\<And>L d t. J L d t \<Longrightarrow> K L d t) \<Longrightarrow> audited K L xs"
  by (induction xs arbitrary: L) (auto split: bal_call.splits)

lemma audited_no_exports: "set xs \<subseteq> {ClearExportQueue, ShowSubtrees} \<Longrightarrow> audited J L xs"
  by (induction xs arbitrary: L) auto

lemma prep_plan_ok:
  assumes "prep_plan e beat b = Some (True, b')" "\<not> mds_thrash_exports (be_conf e)" "om_ok (mds_meta_load b)"
  shows "plan_ok e b'"
proof -
  obtain lm b5 where p: "match_all e beat lm b5 = Some b'" "plan_ok e b5" by (rule prep_plan_cases [OF assms])
  from match_all_ok [OF p(2), of beat lm] p(1) show ?thesis by auto
qed

section \<open>Properties\<close>

text \<open>C30: The exports of a rebalance follow the plan. No fragment is ever sent to this server itself. Every
  export is an idle import that goes back where it came from, or goes to a server that the cluster map
  lists, that the plan gives at least \<^verbatim>\<open>MIN_OFFLOAD\<close>, and that ends at most at the target load; and it is
  an import from that server or a fragment that was, when it was chosen, in a subtree this server is
  fully responsible for, authoritative and not frozen.\<close>

theorem rebalance_sound:
  assumes "prep_rebalance e c beat b = Some b'" "\<not> mds_thrash_exports (be_conf e)" "om_ok (mds_meta_load b)"
    "0 \<le> be_whoami e" "be_whoami e < int (be_num_in e)" "\<not> use_lua_howmuch e" "snapshots_ok c" "0 < re_min_offload c"
  shows "\<exists>new. bal_log b' = bal_log b @ new \<and>
    audited (\<lambda>L d t. t \<noteq> be_whoami e \<and> (idle_return e c L d t \<or>
      t \<in> set (re_map_targets c) \<and> of_int (re_min_offload c) \<le> om_get 0 t (my_targets b') \<and>
      om_get 0 t (mds_meta_load b') + om_get 0 t (my_targets b') \<le> target_load b' \<and>
      (returned c L d t \<or> (\<exists>n\<le>length L. offered c (take n L) d)))) (bal_log b) new"
    (is "\<exists>new. _ \<and> audited ?K _ new")
proof -
  obtain go b1 where p: "prep_plan e beat b = Some (go, b1)" "(if go then try_rebalance e c b1 else Some b1) = Some b'"
    using assms(1) by (auto simp: prep_rebalance_def bind_eq_Some_conv)
  obtain xs where xs: "bal_log b1 = bal_log b @ xs" "set xs \<subseteq> {ClearExportQueue, ShowSubtrees}"
    using prep_plan_log [OF p(1) assms(2,3)] by blast
  show ?thesis
  proof (cases go)
    case False
    with p(2) xs audited_no_exports [OF xs(2)] show ?thesis by auto
  next
    case True
    then have pl: "prep_plan e beat b = Some (True, b1)" and tr: "try_rebalance e c b1 = Some b'" using p by auto
    note safe = plan_safe [OF pl assms(2-5)]
    have ok: "om_ok (my_targets b1)" using prep_plan_ok [OF pl assms(2,3)] by (simp add: plan_ok_def)
    obtain ys where ys: "b' = b1\<lparr>old_prev_targets := old_prev_targets b', bal_log := bal_log b1 @ ys\<rparr>"
      "audited (justified e c (my_targets b1)) (bal_log b1) ys"
      using try_rebalance_asks [OF tr assms(6,7)] by blast
    have f: "my_targets b' = my_targets b1" "mds_meta_load b' = mds_meta_load b1" "target_load b' = target_load b1"
      "bal_log b' = bal_log b1 @ ys"
      by (subst ys(1), simp)+
    have K: "?K L d t" if J: "justified e c (my_targets b1) L d t" for L d t
    proof (cases "idle_return e c L d t")
      case True
      then show ?thesis by (auto simp: idle_return_def is_idle_def)
    next
      case False
      with J obtain amount where a: "(t, amount) \<in> set (my_targets b1)" "of_int (re_min_offload c) \<le> amount"
        "t \<in> set (re_map_targets c)" "returned c L d t \<or> (\<exists>n\<le>length L. offered c (take n L) d)"
        by (auto simp: justified_def planned_target_def)
      have g: "om_get 0 t (my_targets b1) = amount"
        using a(1) om_ok_distinct [OF ok] by (simp add: om_get_def)
      have "0 < om_get 0 t (my_targets b1)" using a(2) g assms(8) by (simp add: less_le_trans [of 0 "of_int (re_min_offload c)"])
      with safe a g f show ?thesis by auto
    qed
    have "audited ?K (bal_log b1) ys" by (rule audited_mono [OF ys(2)]) (rule K)
    with xs audited_no_exports [OF xs(2)] f(4) show ?thesis by (intro exI [of _ "xs @ ys"]) simp
  qed
qed

definition one_subtree :: subtree where
  "one_subtree = \<lparr>st_tree = DirTree 5 6 True False False [], st_path = ''/a'', st_stray = False, st_base = False, st_root = False,
     st_freezing = False, st_from = 0\<rparr>"

definition plain_rebal :: rebal_env where
  "plain_rebal = \<lparr>re_fullauth = (\<lambda>L. [5]), re_look = (\<lambda>L i. one_subtree), re_map_targets = [1, 2], re_min_offload = 10\<rparr>"

theorem rebalance_sound_witness:
  "\<exists>b'. prep_rebalance plain_bal plain_rebal 1 bal_example = Some b' \<and>
     bal_log b' = [ClearExportQueue, ShowSubtrees, ExportDirNicely 5 2, ShowSubtrees] \<and>
     om_get 0 2 (mds_meta_load b') + om_get 0 2 (my_targets b') \<le> target_load b'"
proof -
  have "case prep_rebalance plain_bal plain_rebal 1 bal_example of None \<Rightarrow> False
      | Some b' \<Rightarrow> bal_log b' = [ClearExportQueue, ShowSubtrees, ExportDirNicely 5 2, ShowSubtrees]" by code_simp
  then obtain b' where b': "prep_rebalance plain_bal plain_rebal 1 bal_example = Some b'"
    "bal_log b' = [ClearExportQueue, ShowSubtrees, ExportDirNicely 5 2, ShowSubtrees]"
    by (cases "prep_rebalance plain_bal plain_rebal 1 bal_example") auto
  have h: "0 \<le> be_whoami plain_bal" "be_whoami plain_bal < int (be_num_in plain_bal)" "\<not> use_lua_howmuch plain_bal"
    "0 < re_min_offload plain_rebal" "bal_log bal_example = []" by code_simp+
  have s: "snapshots_ok plain_rebal" by (simp add: snapshots_ok_def plain_rebal_def one_subtree_def)
  have i: "\<not> idle_return plain_bal plain_rebal L d t" for L d t
    by (simp add: idle_return_def is_idle_def plain_bal_def plain_conf_def)
  from rebalance_sound [OF b'(1) plain_bal_fields(1,2) h(1-3) s h(4)] b'(2) h(5) i
  have "om_get 0 2 (mds_meta_load b') + om_get 0 2 (my_targets b') \<le> target_load b'" by auto
  with b' show ?thesis by blast
qed

section \<open>A subtree exported twice\<close>

lemma take_roots_frame: "ex_already (take_roots enough ps s) = ex_already s"
  by (induction ps arbitrary: s) (auto simp: Let_def)

lemma take_roots_grows: "\<forall>p\<in>set ps. 0 \<le> fst p \<Longrightarrow> ex_have s \<le> ex_have (take_roots enough ps s)"
proof (induction ps arbitrary: s)
  case (Cons p ps)
  let ?s1 = "s\<lparr>ex_exports := ex_exports s @ [snd p], ex_have := ex_have s + fst p\<rparr>"
  have "ex_have ?s1 \<le> ex_have (take_roots enough ps ?s1)" by (rule Cons.IH) (use Cons.prems in simp)
  moreover have "ex_have s \<le> ex_have ?s1" using Cons.prems by simp
  ultimately show ?case by (auto simp: Let_def)
qed simp

lemma take_roots_first:
  assumes "\<forall>p\<in>set ps. 0 \<le> fst p" "ps \<noteq> []"
  shows "ex_have s + fst (hd ps) \<le> ex_have (take_roots enough ps s)" "ex_exports (take_roots enough ps s) \<noteq> []"
proof -
  obtain p ps' where ps: "ps = p # ps'" using assms(2) by (cases ps) auto
  let ?s1 = "s\<lparr>ex_exports := ex_exports s @ [snd p], ex_have := ex_have s + fst p\<rparr>"
  have "ex_have ?s1 \<le> ex_have (take_roots enough ps' ?s1)" using assms(1) ps by (intro take_roots_grows) simp
  then show "ex_have s + fst (hd ps) \<le> ex_have (take_roots enough ps s)" using ps by (auto simp: Let_def)
  have "adds (\<lambda>_. True) ?s1 (take_roots enough ps' ?s1)" by (rule take_roots_adds) simp
  then show "ex_exports (take_roots enough ps s) \<noteq> []" using ps by (auto simp: Let_def adds_def)
qed

lemma small_roots_sorted: "sorted (map fst (small_roots amount s ds))"
proof -
  have "sorted (map fst m) \<Longrightarrow> sorted (map fst (fold (\<lambda>d m. if root_fits amount s d then mm_insert (pop_of d) (st_tree d) m else m) ds m))" for m
    by (induction ds arbitrary: m) (simp_all add: sorted_mm_insert)
  then show ?thesis by (simp add: small_roots_def)
qed

lemma small_roots_has:
  assumes "d \<in> set ds" "root_fits amount s d"
  shows "(pop_of d, st_tree d) \<in> set (small_roots amount s ds)"
proof -
  let ?f = "\<lambda>d m. if root_fits amount s d then mm_insert (pop_of d) (st_tree d) m else m"
  have mono: "set m \<subseteq> set (fold ?f ds m)" for m ds
  proof (induction ds arbitrary: m)
    case (Cons a ds)
    have "set m \<subseteq> set (?f a m)" by auto
    also have "\<dots> \<subseteq> set (fold ?f ds (?f a m))" by (rule Cons.IH)
    finally show ?case by simp
  qed simp
  have "d \<in> set ds \<Longrightarrow> (pop_of d, st_tree d) \<in> set (fold ?f ds m)" for m
  proof (induction ds arbitrary: m)
    case (Cons a ds)
    show ?case
    proof (cases "d = a")
      case True
      then have "(pop_of d, st_tree d) \<in> set (?f a m)" using assms(2) by simp
      with mono [of "?f a m" ds] show ?thesis by auto
    qed (use Cons in auto)
  qed simp
  with assms(1) show ?thesis by (simp add: small_roots_def)
qed

lemma sorted_last_ge: "sorted (map fst ps) \<Longrightarrow> p \<in> set ps \<Longrightarrow> fst p \<le> fst (last ps)"
  by (induction ps) auto

text \<open>When one root covers the need, the drill-down is not reached and \<^verbatim>\<open>already_exporting\<close> stays as it is.\<close>

lemma select_exports_roots:
  assumes "\<not> use_lua_howmuch e" "\<forall>d\<in>set ds. 0 \<le> pop_of d" "d \<in> set ds" "root_fits amount s d"
    "amount - of_int mo \<le> ex_have s + pop_of d"
  shows "\<exists>s1. select_exports e mo ds amount s = Some s1 \<and> ex_already s1 = ex_already s \<and> ex_exports s1 \<noteq> []"
proof -
  let ?ps = "rev (small_roots amount s ds)"
  let ?s1 = "take_roots (amount - of_int mo) ?ps s"
  have m: "(pop_of d, st_tree d) \<in> set (small_roots amount s ds)" by (rule small_roots_has [OF assms(3,4)])
  then have ne: "?ps \<noteq> []" by auto
  have nn: "\<forall>p\<in>set ?ps. 0 \<le> fst p" using assms(2) by (auto dest!: small_roots_fit)
  have "pop_of d \<le> fst (hd ?ps)"
    using m ne sorted_last_ge [OF small_roots_sorted, of _ amount s ds] by (auto simp: hd_rev)
  with take_roots_first(1) [OF nn ne, of s "amount - of_int mo"] assms(5)
  have "\<not> ex_have ?s1 < amount - of_int mo" by simp
  then show ?thesis
    using assms(1) take_roots_first(2) [OF nn ne] by (simp add: select_exports_def Let_def take_roots_frame)
qed

lemma bal_log_do: "bal_log (bal_do x b) = bal_log b @ [x]"
  by (simp add: bal_do_def)

lemma rebalance_target_direct:
  assumes "of_int (re_min_offload c) \<le> amount" "\<forall>p\<in>set m. fst p \<noteq> t"
    "select_exports e (re_min_offload c) (map (re_look c (bal_log b @ [ShowSubtrees])) (re_fullauth c (bal_log b @ [ShowSubtrees]))) amount
       \<lparr>ex_exports = [], ex_have = 0, ex_already = al\<rparr> = Some s1"
  shows "rebalance_target e c t amount (m, al, b) =
    Some (m, ex_already s1, fold (\<lambda>d b. bal_do (ExportDirNicely (dt_id d) t) b) (ex_exports s1) (bal_do ShowSubtrees b))"
proof -
  have f: "filter (\<lambda>p. fst p = t) m = []" using assms(2) by (simp add: filter_empty_conv)
  show ?thesis using assms(1,3) by (simp add: rebalance_target_def f Let_def bal_log_do)
qed

lemma fold_export_log:
  "bal_log (fold (\<lambda>d b. bal_do (ExportDirNicely (dt_id d) t) b) xs b) = bal_log b @ map (\<lambda>d. ExportDirNicely (dt_id d) t) xs"
  by (induction xs arbitrary: b) (simp_all add: bal_log_do)

text \<open>The roots that are exported whole are not remembered: when two targets want the same amount, one
  root covers it, nothing was imported from either, and the migrator has not begun the first export yet
  when the second target is served, the same subtree is exported to both.\<close>

lemma root_exported_twice:
  assumes "\<not> use_lua_howmuch e" "\<forall>L. re_fullauth c L = ids" "\<forall>L. re_look c L = lk" "\<forall>i\<in>set ids. 0 \<le> pop_of (lk i)"
    "i \<in> set ids" "root_fits amount \<lparr>ex_exports = [], ex_have = 0, ex_already = []\<rparr> (lk i)"
    "amount - of_int (re_min_offload c) \<le> pop_of (lk i)" "of_int (re_min_offload c) \<le> amount"
    "\<forall>p\<in>set m. fst p \<noteq> t \<and> fst p \<noteq> u"
  shows "\<exists>b' x. rebalance_targets e c [(t, amount), (u, amount)] (m, [], b) = Some (m, [], b') \<and>
    {ExportDirNicely x t, ExportDirNicely x u} \<subseteq> set (bal_log b')"
proof -
  let ?s = "\<lparr>ex_exports = [], ex_have = 0, ex_already = []\<rparr>"
  let ?go = "\<lambda>t s1 b. fold (\<lambda>d b. bal_do (ExportDirNicely (dt_id d) t) b) (ex_exports s1) (bal_do ShowSubtrees b)"
  obtain s1 where s1: "select_exports e (re_min_offload c) (map lk ids) amount ?s = Some s1" "ex_already s1 = []" "ex_exports s1 \<noteq> []"
    using select_exports_roots [OF assms(1), of "map lk ids" "lk i" amount ?s "re_min_offload c"] assms(4-7) by auto
  have r: "rebalance_target e c v amount (m, [], b) = Some (m, [], ?go v s1 b)" if "v \<in> {t, u}" for v b
    using rebalance_target_direct [OF assms(8), of m v e b "[]" s1] s1 that assms(2,3,9) by auto
  have "rebalance_targets e c [(t, amount), (u, amount)] (m, [], b) = Some (m, [], ?go u s1 (?go t s1 b))"
    using r [of t b] r [of u "?go t s1 b"] by simp
  moreover obtain x where "x \<in> set (ex_exports s1)" using s1(3) by (cases "ex_exports s1") auto
  then have "{ExportDirNicely (dt_id x) t, ExportDirNicely (dt_id x) u} \<subseteq> set (bal_log (?go u s1 (?go t s1 b)))"
    by (auto simp: fold_export_log bal_log_do)
  ultimately show ?thesis by blast
qed

lemma root_exported_twice_witness:
  "\<exists>b' x. rebalance_targets plain_bal plain_rebal [(1, 12), (2, 12)] ([], [], bal_new) = Some ([], [], b') \<and>
     {ExportDirNicely x 1, ExportDirNicely x 2} \<subseteq> set (bal_log b')"
proof -
  have h: "\<not> use_lua_howmuch plain_bal" "\<forall>L. re_fullauth plain_rebal L = [5]" "\<forall>L. re_look plain_rebal L = (\<lambda>i. one_subtree)"
    by (simp_all add: use_lua_howmuch_def plain_bal_def plain_conf_def plain_rebal_def)
  show ?thesis
    by (rule root_exported_twice [OF h, of 5])
      (simp_all add: one_subtree_def plain_rebal_def root_fits_def tilde_def)
qed

end
