(* ===== verification/Balancer_Custom.thy ===== *)
theory Balancer_Custom
  imports Balancer_Rebalance
begin

text \<open>
  The programmable balancer (\<^verbatim>\<open>MDBalancer::custom_balancer\<close>, \<^verbatim>\<open>pause_balancer\<close>): the script is assembled from
  fixed Lua text and the configured snippets, run with the loads of all servers as arguments, and the
  string it returns is cut into the targets of this server.
\<close>

section \<open>The script\<close>

definition dq :: string where "dq = [CHR 0x22]"
definition sq :: string where "sq = [CHR 0x27]"
definition bs :: string where "bs = [CHR 0x5C]"

definition LUA_IMPORT :: string where
  "LUA_IMPORT =
     ''package.path = package.path .. '' @ sq @ '';/home/msevilla/code/ceph/src/mds/balancers/modules/?.lua;'' @ sq @ nl
     @ ''require '' @ dq @ ''MDSParser'' @ dq @ nl
     @ ''function WRState(x)'' @ nl
     @ ''  stateF = io.open('' @ dq @ ''/tmp/balancer_state'' @ dq @ '', '' @ dq @ ''w'' @ dq @ '')'' @ nl
     @ ''  stateF:write(x)'' @ nl
     @ ''  io.close(stateF)'' @ nl
     @ ''end'' @ nl
     @ ''function RDState(x)'' @ nl
     @ ''  stateF = io.open('' @ dq @ ''/tmp/balancer_state'' @ dq @ '', '' @ dq @ ''r'' @ dq @ '')'' @ nl
     @ ''  state = stateF:read('' @ dq @ ''*all'' @ dq @ '')'' @ nl
     @ ''  io.close(stateF)'' @ nl
     @ ''  return state'' @ nl
     @ ''end'' @ nl
     @ ''function Max(x, y) if x > y then return x else return y end end'' @ nl
     @ ''function Min(x, y) if x < y then return x else return y end end'' @ nl
     @ ''whoami, MDSs, authmetaload, nfiles, allmetaload = MDSParser.parse_args(arg)'' @ nl
     @ ''i=whoami'' @ nl
     @ ''-- begin MDS_BAL_MDSLOAD --'' @ nl
     @ ''MDSs[whoami]['' @ dq @ ''load'' @ dq @ ''] = ''"

definition LUA_CALCULATE_LOAD :: string where
  "LUA_CALCULATE_LOAD =
     nl
     @ ''-- end   MDS_BAL_MDSLOAD --'' @ nl
     @ ''total = 0'' @ nl
     @ ''for i=1,#MDSs do'' @ nl
     @ ''  -- begin MDS_BAL_MDSLOAD --'' @ nl
     @ ''  load = ''"

definition LUA_PREPARE_WHEN :: string where
  "LUA_PREPARE_WHEN =
     nl
     @ ''  -- end   MDS_BAL_MDSLOAD --'' @ nl
     @ ''  MDSs[i]['' @ dq @ ''load'' @ dq @ ''] = load'' @ nl
     @ ''  total = total + load'' @ nl
     @ ''end'' @ nl
     @ ''f = io.open(arg[1], '' @ dq @ ''a'' @ dq @ '')'' @ nl
     @ ''io.output(f)'' @ nl
     @ ''targets = {}'' @ nl
     @ ''for i=1,#MDSs do targets[i] = 0 end'' @ nl
     @ ''-- begin MDS_BAL_WHEN --'' @ nl"

definition LUA_PREPARE_WHERE :: string where
  "LUA_PREPARE_WHERE =
     '' '' @ nl
     @ ''-- end   MDS_BAL_WHEN --'' @ nl
     @ ''   io.write(string.format('' @ dq @ ''  [Lua5.2] migrating! (whoami=%d authmetaload=%f nfiles=%f allmetaload=%f total=%f)'' @ bs @ ''n'' @ dq @ '', whoami, authmetaload, nfiles, allmetaload, total))'' @ nl
     @ ''   E = {}; I = {}'' @ nl
     @ ''   for i=1,#MDSs do'' @ nl
     @ ''     metaload = MDSs[i]['' @ dq @ ''load'' @ dq @ '']'' @ nl
     @ ''     if metaload > total / #MDSs then E[i] = metaload'' @ nl
     @ ''     else I[i] = metaload end'' @ nl
     @ ''   end'' @ nl
     @ '' else'' @ nl
     @ ''   io.close(f)'' @ nl
     @ ''   MDSParser.print_metrics(arg[1], MDSs)'' @ nl
     @ ''   f = io.open(arg[1], '' @ dq @ ''a'' @ dq @ '')'' @ nl
     @ ''   io.output(f)'' @ nl
     @ ''   io.write(string.format('' @ dq @ ''  [Lua5.2] not migrating! (whoami=%d authmetaload=%f nfiles=%f allmetaload=%f total=%f)'' @ bs @ ''n'' @ dq @ '', whoami, authmetaload, nfiles, allmetaload, total))'' @ nl
     @ ''   ret = '' @ dq @ dq @ nl
     @ ''   for i=1,#targets do ret = ret..targets[i]..'' @ dq @ '' '' @ dq @ '' end'' @ nl
     @ ''   return ret'' @ nl
     @ '' end'' @ nl
     @ ''io.close(f)'' @ nl
     @ ''MDSParser.print_metrics(arg[1], MDSs)'' @ nl
     @ ''f = io.open(arg[1], '' @ dq @ ''a'' @ dq @ '')'' @ nl
     @ ''io.output(f)'' @ nl
     @ ''-- begin MDS_BAL_WHERE --'' @ nl"

definition LUA_RETURN :: string where
  "LUA_RETURN =
     nl
     @ ''-- end   MDS_BAL_WHERE --'' @ nl
     @ ''ret = '' @ dq @ dq @ nl
     @ ''if targets[whoami] ~= 0 then'' @ nl
     @ ''  for i=1,#targets do targets[i] = 0 end'' @ nl
     @ ''  io.write('' @ dq @ ''  [Lua5.2] Uh oh... trying to send load to myself, zeroing out targets array.'' @ bs @ ''n'' @ dq @ '')'' @ nl
     @ ''end'' @ nl
     @ ''for i=1,#targets do ret = ret..targets[i]..'' @ dq @ '' '' @ dq @ '' end'' @ nl
     @ ''io.close(f)'' @ nl
     @ ''return ret''"


text \<open>Underscores stand for blanks and the two characters backslash, n for a blank and a line break.\<close>

fun unescape :: "string \<Rightarrow> string" where
  "unescape (c # d # cs) = (if c = CHR 0x5C \<and> d = CHR ''n'' then CHR '' '' # CHR 0x0A # unescape cs else c # unescape (d # cs))"
| "unescape cs = cs"

definition snippet :: "string \<Rightarrow> string" where
  "snippet s = unescape (underscores_to_spaces s)"

definition custom_parts :: "bal_conf \<Rightarrow> string list" where
  "custom_parts cf = [LUA_IMPORT, c_str (snippet (mds_bal_mdsload cf)), LUA_CALCULATE_LOAD, c_str (snippet (mds_bal_mdsload cf)),
     LUA_PREPARE_WHEN, c_str (snippet (mds_bal_when cf)), LUA_PREPARE_WHERE, c_str (snippet (mds_bal_where cf)), LUA_RETURN]"

definition custom_buffer :: "bal_conf \<Rightarrow> string option" where
  "custom_buffer cf =
     fill_buffer (length LUA_IMPORT + length (c_str (mds_bal_mdsload cf)) + length LUA_CALCULATE_LOAD +
        length (c_str (mds_bal_mdsload cf)) + length LUA_PREPARE_WHEN + length (c_str (mds_bal_when cf)) +
        length LUA_PREPARE_WHERE + length (c_str (mds_bal_where cf)) + length LUA_RETURN) (custom_parts cf)"

section \<open>Arguments and result\<close>

text \<open>Six numbers per server; a server without a load gets a fresh one.\<close>

fun push_loads :: "bal_env \<Rightarrow> mds_rank_t list \<Rightarrow> double list \<times> balancer \<Rightarrow> (double list \<times> balancer) option" where
  "push_loads e [] s = Some s"
| "push_loads e (i # is) (args, b) =
     do { let b1 = b\<lparr>mds_load := om_insert i (mds_load_new (be_api e) (be_now e)) (mds_load b)\<rparr>;
          ld \<leftarrow> map_of (mds_load b1) i;
          a \<leftarrow> meta_load (be_api e) (be_lua e) (mds_bal_metaload (be_conf e)) (ld_auth ld);
          l \<leftarrow> meta_load (be_api e) (be_lua e) (mds_bal_metaload (be_conf e)) (ld_all ld);
          push_loads e is (args @ [a, l, req_rate ld, queue_len ld, cpu_load_avg ld, -1], b1) }"

text \<open>Every piece that ends in a blank or a line break is the target of the next server; what follows the
  last one is dropped.\<close>

fun read_targets :: "string \<Rightarrow> string \<Rightarrow> mds_rank_t \<Rightarrow> (mds_rank_t \<times> double) list \<Rightarrow> (mds_rank_t \<times> double) list" where
  "read_targets [] cur m targets = targets"
| "read_targets (c # cs) cur m targets =
     (if c = CHR '' '' \<or> c = CHR 0x0A then read_targets cs [] (m + 1) (om_set m (atof (cur @ [c])) targets)
      else read_targets cs (cur @ [c]) m targets)"

text \<open>\<open>root_loads\<close> are the loads of the fragments of the root; without a root the code dereferences a null
  pointer. As in the selector, the script array overflows by one (\<open>custom_script_overflows\<close>), and the
  interpreter reads the concatenation.\<close>

definition custom_plan :: "bal_env \<Rightarrow> double list option \<Rightarrow> balancer \<Rightarrow> (bool \<times> balancer) option" where
  "custom_plan e root_loads b =
     (let b1 = bal_do ClearExportQueue (b\<lparr>rebalance_time := be_now e, my_targets := [], imported := [], exported := []\<rparr>);
          cf = be_conf e
      in if snippet (mds_bal_when cf) = [] \<or> snippet (mds_bal_where cf) = [] then Some (False, b1)
         else do {
           loads \<leftarrow> root_loads;
           (args, b2) \<leftarrow> push_loads e (map int [0..<be_num_in e])
                          ([of_int (be_whoami e) + 1, sum_list loads, bal_nfiles b1, total_meta_load b1], b1);
           ret \<leftarrow> lua_return e (be_lua_str e (concat (custom_parts cf)) (be_log_file e) args);
           Some (True, b2\<lparr>my_targets := read_targets ret [] 0 (my_targets b2)\<rparr>) })"

definition custom_balancer :: "bal_env \<Rightarrow> rebal_env \<Rightarrow> double list option \<Rightarrow> balancer \<Rightarrow> balancer option" where
  "custom_balancer e c root_loads b =
     do { (go, b1) \<leftarrow> custom_plan e root_loads b; if go then try_rebalance e c b1 else Some b1 }"

text \<open>Waiting until the option is changed: \<open>samples\<close> are the values it has when it is read.\<close>

fun pause_balancer :: "bal_env \<Rightarrow> rebal_env \<Rightarrow> double list option \<Rightarrow> int list \<Rightarrow> balancer \<Rightarrow> balancer option" where
  "pause_balancer e c root_loads [] b = None"
| "pause_balancer e c root_loads (v # vs) b =
     (if v = 2 then pause_balancer e c root_loads vs b
      else custom_balancer (e\<lparr>be_conf := (be_conf e)\<lparr>mds_bal_lua := v\<rparr>\<rparr>) c root_loads b)"

section \<open>The script array\<close>

lemma unescape_c_str: "length (c_str (unescape s)) = length (c_str s)"
  by (induction s rule: unescape.induct) (auto simp: c_str_def)

lemma snippet_c_str [simp]: "length (c_str (snippet s)) = length (c_str s)"
  by (simp add: snippet_def unescape_c_str c_str_underscores)

text \<open>The array has room for the characters of the nine parts, not for the terminating NUL.\<close>

lemma custom_script_overflows: "custom_buffer cf = None"
proof -
  have "length (concat (custom_parts cf)) = length LUA_IMPORT + length (c_str (mds_bal_mdsload cf)) + length LUA_CALCULATE_LOAD +
        length (c_str (mds_bal_mdsload cf)) + length LUA_PREPARE_WHEN + length (c_str (mds_bal_when cf)) +
        length LUA_PREPARE_WHERE + length (c_str (mds_bal_where cf)) + length LUA_RETURN"
    by (simp add: custom_parts_def)
  then show ?thesis unfolding custom_buffer_def fill_buffer_def by simp
qed

section \<open>Reading the targets\<close>

definition breaks :: "char \<Rightarrow> bool" where
  "breaks c \<longleftrightarrow> c = CHR '' '' \<or> c = CHR 0x0A"

lemma read_targets_piece:
  "\<forall>x\<in>set w. \<not> breaks x \<Longrightarrow> breaks c \<Longrightarrow>
   read_targets (w @ c # cs) cur m ts = read_targets cs [] (m + 1) (om_set m (atof (cur @ w @ [c])) ts)"
  by (induction w arbitrary: cur) (auto simp: breaks_def)

lemma om_set_last: "om_ok ts \<Longrightarrow> \<forall>k\<in>fst ` set ts. k < m \<Longrightarrow> om_set m v ts = ts @ [(m, v)]"
  by (induction ts) auto

lemma om_ok_snoc: "om_ok ts \<Longrightarrow> \<forall>k\<in>fst ` set ts. k < m \<Longrightarrow> om_ok (ts @ [(m, v)])"
  by (metis om_ok_set om_set_last)

lemma read_targets_pieces:
  "\<forall>w\<in>set ws. \<forall>x\<in>set w. \<not> breaks x \<Longrightarrow> om_ok ts \<Longrightarrow> \<forall>k\<in>fst ` set ts. k < m \<Longrightarrow>
   read_targets (concat (map (\<lambda>w. w @ '' '') ws)) [] m ts =
     ts @ zip (map (\<lambda>i. m + int i) [0..<length ws]) (map (\<lambda>w. atof (w @ '' '')) ws)"
proof (induction ws arbitrary: m ts)
  case (Cons w ws)
  let ?ts = "ts @ [(m, atof (w @ '' ''))]"
  have b: "breaks (CHR '' '')" by (simp add: breaks_def)
  have "read_targets (concat (map (\<lambda>w. w @ '' '') (w # ws))) [] m ts =
      read_targets (concat (map (\<lambda>w. w @ '' '') ws)) [] (m + 1) ?ts"
    using read_targets_piece [OF _ b, of w] Cons.prems by (simp add: om_set_last)
  also have "\<dots> = ?ts @ zip (map (\<lambda>i. m + 1 + int i) [0..<length ws]) (map (\<lambda>w. atof (w @ '' '')) ws)"
    by (rule Cons.IH) (use Cons.prems om_ok_snoc [OF Cons.prems(2,3)] in auto)
  also have "map (\<lambda>i. m + 1 + int i) [0..<length ws] = map (\<lambda>i. m + int i) [Suc 0..<Suc (length ws)]"
    by (rule nth_equalityI) (auto simp del: upt_Suc)
  finally show ?case by (simp add: upt_conv_Cons del: upt_Suc)
qed simp

section \<open>Numbers as Lua prints them\<close>

lemma digit_breaks: "is_digit c \<Longrightarrow> \<not> breaks c"
  by (auto simp: is_digit_def breaks_def less_eq_char_def)

text \<open>The string the script returns for its target table.\<close>

definition printed :: "nat list \<Rightarrow> string" where
  "printed ns = concat (map (\<lambda>n. decimal n @ '' '') ns)"

lemma printed_text: "CHR 0x00 \<notin> set (printed ns)"
proof -
  have "\<not> is_digit (CHR 0x00)" by (simp add: is_digit_def less_eq_char_def)
  then show ?thesis using decimal_digits by (auto simp: printed_def)
qed

lemma printed_targets: "read_targets (printed ns) [] 0 [] = zip (map int [0..<length ns]) (map of_nat ns)"
proof -
  have "\<forall>w\<in>set (map decimal ns). \<forall>x\<in>set w. \<not> breaks x" using decimal_digits digit_breaks by fastforce
  from read_targets_pieces [OF this, of "[]" 0] show ?thesis by (simp add: printed_def o_def atof_decimal)
qed

section \<open>The plan of the script\<close>

lemma meta_load_Some: "\<exists>v. meta_load api lua expr vec = Some v"
  by (simp add: meta_load_def run_metaload_def metaload_script_def fill_buffer_def length_script0 c_str_underscores)

lemma map_of_om_set_same: "map_of (om_set k v m) k = Some v"
  by (induction m) auto

lemma push_loads_total: "\<exists>args' b'. push_loads e is (args, b) = Some (args', b') \<and> (\<exists>x. b' = b\<lparr>mds_load := x\<rparr>)"
proof (induction "is" arbitrary: args b)
  case Nil
  show ?case by (simp, rule exI [of _ "mds_load b"], simp)
next
  case (Cons i "is")
  let ?b1 = "b\<lparr>mds_load := om_insert i (mds_load_new (be_api e) (be_now e)) (mds_load b)\<rparr>"
  obtain ld where ld: "map_of (mds_load ?b1) i = Some ld"
    by (cases "map_of (mds_load b) i") (auto simp: om_insert_def map_of_om_set_same)
  obtain a l where m: "meta_load (be_api e) (be_lua e) (mds_bal_metaload (be_conf e)) (ld_auth ld) = Some a"
    "meta_load (be_api e) (be_lua e) (mds_bal_metaload (be_conf e)) (ld_all ld) = Some l"
    using meta_load_Some by metis
  from Cons.IH [of "args @ [a, l, req_rate ld, queue_len ld, cpu_load_avg ld, -1]" ?b1] ld m
  show ?case by (auto simp: Let_def)
qed

definition asks_script :: "bal_env \<Rightarrow> bool" where
  "asks_script e \<longleftrightarrow> mds_bal_when (be_conf e) \<noteq> [] \<and> mds_bal_where (be_conf e) \<noteq> []"

lemma snippet_Nil [simp]: "snippet s = [] \<longleftrightarrow> s = []"
proof -
  have "unescape t = [] \<longleftrightarrow> t = []" for t by (cases t rule: unescape.cases) auto
  then show ?thesis by (simp add: snippet_def underscores_to_spaces_def)
qed

lemma custom_plan_reads:
  assumes "asks_script e" "root_loads = Some loads" "\<And>args. be_lua_str e (concat (custom_parts (be_conf e))) (be_log_file e) args = LuaString ret"
    "CHR 0x00 \<notin> set ret" "length ret < LINE_MAX"
  shows "\<exists>b'. custom_plan e root_loads b = Some (True, b') \<and> my_targets b' = read_targets ret [] 0 [] \<and>
    bal_log b' = bal_log b @ [ClearExportQueue]"
proof -
  let ?b1 = "bal_do ClearExportQueue (b\<lparr>rebalance_time := be_now e, my_targets := [], imported := [], exported := []\<rparr>)"
  obtain args b2 x where p: "push_loads e (map int [0..<be_num_in e])
      ([of_int (be_whoami e) + 1, sum_list loads, bal_nfiles ?b1, total_meta_load ?b1], ?b1) = Some (args, b2)"
    "b2 = ?b1\<lparr>mds_load := x\<rparr>"
    using push_loads_total by metis
  have "c_str ret = ret" using assms(4) by (auto simp: c_str_def takeWhile_eq_all_conv)
  then have r: "lua_return e (be_lua_str e (concat (custom_parts (be_conf e))) (be_log_file e) args) = Some ret"
    using assms(3,5) by (simp add: lua_return_def)
  show ?thesis
    using assms(1,2) p r by (simp add: custom_plan_def asks_script_def Let_def bal_do_def)
qed

section \<open>Properties\<close>

text \<open>What the script returns is what the balancer plans: when it returns the numbers of its target
  table, each followed by a blank, the load planned for the server of rank i is the number at position
  i, for every rank.\<close>

lemma custom_targets_roundtrip:
  assumes "asks_script e" "root_loads = Some loads"
    "\<And>args. be_lua_str e (concat (custom_parts (be_conf e))) (be_log_file e) args = LuaString (printed ns)"
    "length (printed ns) < LINE_MAX"
  shows "\<exists>b'. custom_plan e root_loads b = Some (True, b') \<and>
    my_targets b' = zip (map int [0..<length ns]) (map of_nat ns)"
  using custom_plan_reads [OF assms(1-3) printed_text assms(4), of b] printed_targets by auto

definition lua_bal :: bal_env where
  "lua_bal = plain_bal\<lparr>be_conf := plain_conf\<lparr>mds_bal_lua := 1, mds_bal_when := ''if MDSs[whoami][1] > 1 then'',
     mds_bal_where := ''targets[2] = 7''\<rparr>, be_lua_str := (\<lambda>s f a. LuaString ''0 7 12 '')\<rparr>"

lemma lua_bal_facts: "asks_script lua_bal" "printed [0, 7, 12] = ''0 7 12 ''"
  by code_simp+

lemma custom_targets_roundtrip_witness:
  "\<exists>b'. custom_plan lua_bal (Some [3]) bal_new = Some (True, b') \<and> my_targets b' = [(0, 0), (1, 7), (2, 12)]"
proof -
  have "\<exists>b'. custom_plan lua_bal (Some [3]) bal_new = Some (True, b') \<and>
      my_targets b' = zip (map int [0..<length [0, 7, 12::nat]]) (map of_nat [0, 7, 12])"
    by (rule custom_targets_roundtrip [OF lua_bal_facts(1) refl]) (simp_all only: lua_bal_facts(2), simp_all add: lua_bal_def LINE_MAX_def)
  then show ?thesis by (simp add: upt_rec)
qed

text \<open>A plan of the script names every rank, this server's own and those with nothing to receive
  included, and \<^verbatim>\<open>try_rebalance\<close> waits until the cluster map lists them all: while the map misses one of the
  ranks the script has a number for, nothing is exported, and the monitors are asked for targets.\<close>

lemma custom_waits_for_all:
  assumes "asks_script e" "root_loads = Some loads"
    "\<And>args. be_lua_str e (concat (custom_parts (be_conf e))) (be_log_file e) args = LuaString (printed ns)"
    "length (printed ns) < LINE_MAX"
    "k < length ns" "int k \<notin> set (re_map_targets c)"
  shows "\<exists>b' want. custom_balancer e c root_loads b = Some b' \<and>
    bal_log b' = bal_log b @ [ClearExportQueue, SendLoadTargets want]"
proof -
  obtain b1 where b1: "custom_plan e root_loads b = Some (True, b1)" "my_targets b1 = zip (map int [0..<length ns]) (map of_nat ns)"
    "bal_log b1 = bal_log b @ [ClearExportQueue]"
    using custom_plan_reads [OF assms(1-3) printed_text assms(4), of b] printed_targets by auto
  obtain ok b2 where ct: "check_targets e (re_map_targets c) b1 = (ok, b2)" by fastforce
  have "int k \<in> fst ` set (my_targets b1)"
    unfolding b1(2) using assms(5) by (force simp: set_zip)
  then have "\<not> ok" using check_targets_frame(1) [OF ct] assms(6) by auto
  moreover obtain want where "bal_log b2 = bal_log b1 @ [SendLoadTargets want]"
    using check_targets_asks [OF ct] \<open>\<not> ok\<close> by blast
  ultimately show ?thesis using b1 ct by (simp add: custom_balancer_def try_rebalance_def)
qed

lemma custom_waits_for_all_witness:
  "\<exists>b' want. custom_balancer lua_bal plain_rebal (Some [3]) bal_new = Some b' \<and>
     bal_log b' = [ClearExportQueue, SendLoadTargets want]"
proof -
  have "\<exists>b' want. custom_balancer lua_bal plain_rebal (Some [3]) bal_new = Some b' \<and>
      bal_log b' = bal_log bal_new @ [ClearExportQueue, SendLoadTargets want]"
    by (rule custom_waits_for_all [OF lua_bal_facts(1) refl, of "[0, 7, 12]" 0])
      (simp_all only: lua_bal_facts(2), simp_all add: lua_bal_def LINE_MAX_def plain_rebal_def)
  then show ?thesis by (simp add: bal_new_def)
qed

end
