(* ===== verification/Balancer_Beat.thy ===== *)
theory Balancer_Beat
  imports Balancer_Custom
begin

text \<open>
  The heartbeats of the balancer (\<^verbatim>\<open>get_load\<close>, \<^verbatim>\<open>send_heartbeat\<close>, \<^verbatim>\<open>handle_heartbeat\<close>, \<^verbatim>\<open>dump_subtree_loads\<close>,
  \<^verbatim>\<open>tick\<close>, \<^verbatim>\<open>proc_message\<close>). In every epoch rank 0 sends its load to the others, each of which answers to
  all; a server that has the loads of the whole cluster rebalances.

  \<open>beat_env\<close> is what the heartbeat code reads of the daemon, the cluster map, the cache and
  \<^verbatim>\<open>/proc/stat\<close> (its words; \<open>None\<close> when it cannot be opened).
\<close>

text \<open>A directory fragment with its load and the fragments of the directories among its entries that are not
  stray, in order.\<close>

datatype load_tree = LoadTree (lt_id: nat) (lt_load: double) (lt_subs: "load_tree list")

record beat_env =
  hb_degraded :: bool
  hb_open :: bool
  hb_active :: bool
  hb_root :: "(decay_counter list \<times> decay_counter list) list option"
  hb_req_rate :: double
  hb_queue_len :: double
  hb_proc_stat :: "string list option"
  hb_auth_subtrees :: "(mds_rank_t \<times> bool \<times> double) list"
  hb_mds_set :: "mds_rank_t list"
  hb_fullauth :: "(string \<times> load_tree) list"

section \<open>The load of this server\<close>

text \<open>Reading words from a stream: at the end of the file the variable keeps what it had.\<close>

fun read_words :: "nat \<Rightarrow> string \<Rightarrow> string list \<Rightarrow> string list" where
  "read_words 0 temp ws = []"
| "read_words (Suc n) temp [] = temp # read_words n temp []"
| "read_words (Suc n) temp (w # ws) = w # read_words n w ws"

text \<open>The values of usr, nice, sys, idle, iowait, irq, softirq, steal.\<close>

definition cpu_times :: "string list \<Rightarrow> double list" where
  "cpu_times ws = map (\<lambda>w. atof (c_str w)) (tl (read_words 9 [] ws))"

definition sample_cpu :: "string list \<Rightarrow> balancer \<Rightarrow> balancer" where
  "sample_cpu ws b =
     (let v = cpu_times ws;
          cpu_total = sum_list v;
          cpu_work = v ! 0 + v ! 1 + v ! 2;
          cpu_work_period = cpu_work - cpu_work_prev b;
          cpu_total_period = cpu_total - cpu_total_prev b
      in if cpu_total_period > 100 \<and> cpu_work_period > 100
         then b\<lparr>bal_cpu_load_avg := 100 * cpu_work_period / cpu_total_period, cpu_work_prev := cpu_work, cpu_total_prev := cpu_total\<rparr>
         else b)"

definition get_load :: "bal_env \<Rightarrow> beat_env \<Rightarrow> balancer \<Rightarrow> bal_load \<times> balancer" where
  "get_load e h b =
     (let load0 = mds_load_new (be_api e) (be_now e);
          load1 = (case hb_root h of
             None \<Rightarrow> load0
           | Some ls \<Rightarrow> fold (\<lambda>p l. l\<lparr>ld_auth := fst (dirfrag_load_add (be_api e) (be_now e) (be_decayrate e) (ld_auth l) (fst p)),
                              ld_all := fst (dirfrag_load_add (be_api e) (be_now e) (be_decayrate e) (ld_all l) (snd p))\<rparr>) ls load0);
          load2 = load1\<lparr>req_rate := hb_req_rate h, queue_len := hb_queue_len h\<rparr>
      in case hb_proc_stat h of
           None \<Rightarrow> (load2, b)
         | Some ws \<Rightarrow> let b1 = sample_cpu ws b in (load2\<lparr>cpu_load_avg := bal_cpu_load_avg b1\<rparr>, b1))"

section \<open>Sending\<close>

definition import_map_of :: "bal_env \<Rightarrow> beat_env \<Rightarrow> (mds_rank_t \<times> double) list" where
  "import_map_of e h =
     fold (\<lambda>(from, stray, pop) m. if from = be_whoami e \<or> stray then m else om_incr from pop m) (hb_auth_subtrees h) []"

definition send_heartbeat :: "bal_env \<Rightarrow> beat_env \<Rightarrow> balancer \<Rightarrow> balancer" where
  "send_heartbeat e h b =
     (if hb_degraded h then b
      else if \<not> hb_open h then bal_do WaitForOpen b
      else
        let b1 = b\<lparr>mds_load := []\<rparr>;
            b2 = (if be_whoami e = 0 then b1\<lparr>beat_epoch := beat_epoch b1 + 1\<rparr> else b1);
            (load, b3) = get_load e h b2;
            b4 = b3\<lparr>mds_load := om_insert (be_whoami e) load (mds_load b3)\<rparr>;
            import_map = import_map_of e h;
            b5 = b4\<lparr>mds_import_map := om_set (be_whoami e) import_map (mds_import_map b4)\<rparr>
        in fold (\<lambda>p b. if p = be_whoami e then b else bal_do (SendHeartbeat p load (beat_epoch b) import_map) b)
             (hb_mds_set h) b5)"

section \<open>Receiving\<close>

record heartbeat =
  hm_who :: mds_rank_t
  hm_load :: bal_load
  hm_beat :: int
  hm_import_map :: "(mds_rank_t \<times> double) list"

text \<open>The listing of the loads: the fragments of one level above the threshold, then the next levels, until
  there are more than \<^verbatim>\<open>mds_bal_print_dfs\<close>. \<open>push_level\<close> says whether the function returns.\<close>

fun push_level :: "bal_conf \<Rightarrow> load_tree list \<Rightarrow> nat list \<Rightarrow> bool \<times> nat list" where
  "push_level cf [] acc = (False, acc)"
| "push_level cf (d # ds) acc =
     (if lt_load d \<ge> mds_bal_print_dfs_metaload cf then
        let acc1 = acc @ [lt_id d]
        in if length acc1 > mds_bal_print_dfs cf then (True, acc1) else push_level cf ds acc1
      else push_level cf ds acc)"

fun subtree_loads :: "bal_conf \<Rightarrow> int \<Rightarrow> load_tree \<Rightarrow> nat list \<Rightarrow> nat list"
  and subtree_levels :: "bal_conf \<Rightarrow> int \<Rightarrow> load_tree list \<Rightarrow> nat list \<Rightarrow> nat list" where
  "subtree_loads cf depth (LoadTree i l subs) acc =
     (if depth > mds_bal_print_dfs_depth cf then acc
      else
        let (ret, acc1) = push_level cf subs acc
        in if ret then acc1 else subtree_levels cf depth subs acc1)"
| "subtree_levels cf depth [] acc = acc"
| "subtree_levels cf depth (d # ds) acc =
     (let acc1 = subtree_loads cf (depth + 1) d acc
      in if length acc1 > mds_bal_print_dfs cf then acc1 else subtree_levels cf depth ds acc1)"

text \<open>The roots whose path begins with a tilde are left out. The vector \<^verbatim>\<open>subtrees\<close> is empty again at the end;
  \<open>dump_listing\<close> is what is printed of it.\<close>

definition dump_listing :: "bal_conf \<Rightarrow> beat_env \<Rightarrow> nat list list" where
  "dump_listing cf h = map (\<lambda>p. subtree_loads cf 1 (snd p) [lt_id (snd p)]) (filter (\<lambda>p. \<not> tilde (fst p)) (hb_fullauth h))"

definition dump_subtree_loads :: "beat_env \<Rightarrow> balancer \<Rightarrow> balancer" where
  "dump_subtree_loads h b = b\<lparr>total_meta_load := (\<Sum>p\<leftarrow>filter (\<lambda>p. \<not> tilde (fst p)) (hb_fullauth h). lt_load (snd p))\<rparr>"

lemma push_level_bounded:
  "push_level cf ds acc = (r, acc') \<Longrightarrow> length acc \<le> mds_bal_print_dfs cf \<Longrightarrow>
   length acc' \<le> Suc (mds_bal_print_dfs cf) \<and> (\<not> r \<longrightarrow> length acc' \<le> mds_bal_print_dfs cf)"
  by (induction ds arbitrary: acc) (auto simp: Let_def split: if_splits)

text \<open>At most one more than the configured number is listed per root, whatever the depth of the tree.\<close>

lemma subtree_loads_bounded:
  "length acc \<le> mds_bal_print_dfs cf \<Longrightarrow> length (subtree_loads cf depth t acc) \<le> Suc (mds_bal_print_dfs cf)"
  "length acc \<le> mds_bal_print_dfs cf \<Longrightarrow> length (subtree_levels cf depth ts acc) \<le> Suc (mds_bal_print_dfs cf)"
proof (induction cf depth t acc and cf depth ts acc rule: subtree_loads_subtree_levels.induct)
  case (1 cf depth i l subs acc)
  obtain r acc1 where p: "push_level cf subs acc = (r, acc1)" by fastforce
  from push_level_bounded [OF p 1(2)] 1(1) p 1(2) show ?case by (auto simp: Let_def)
next
  case (3 cf depth d ds acc)
  show ?case
  proof (cases "length (subtree_loads cf (depth + 1) d acc) > mds_bal_print_dfs cf")
    case True
    with 3(1) [OF 3(3)] show ?thesis by (simp add: Let_def)
  next
    case False
    with 3(2) [OF refl False] show ?thesis by (simp add: Let_def)
  qed
qed simp

text \<open>Everything up to the rebalance: whether the loads of the whole cluster are there, and the state.\<close>

definition note_heartbeat :: "bal_env \<Rightarrow> beat_env \<Rightarrow> heartbeat \<Rightarrow> balancer \<Rightarrow> bool \<times> balancer" where
  "note_heartbeat e h m b =
     (if \<not> hb_active h then (False, b)
      else if \<not> hb_open h then (False, bal_do RetryMessage b)
      else if hb_degraded h then (False, b)
      else
        let b1 = (if hm_who m = 0 then bal_do ShowSubtrees (send_heartbeat e h (b\<lparr>beat_epoch := hm_beat m\<rparr>)) else b);
            b2 = b1\<lparr>mds_load := om_set (hm_who m) (hm_load m) (mds_load b1)\<rparr>;
            b3 = b2\<lparr>mds_import_map := om_set (hm_who m) (hm_import_map m) (mds_import_map b2)\<rparr>
        in if length (mds_load b3) = be_num_in e then (True, dump_subtree_loads h b3) else (False, b3))"

text \<open>What \<^verbatim>\<open>custom_balancer\<close> reads of the fragments of the root; \<open>None\<close> when there is none.\<close>

definition root_metaloads :: "bal_env \<Rightarrow> beat_env \<Rightarrow> double list option" where
  "root_metaloads e h =
     do { ls \<leftarrow> hb_root h;
          those (map (\<lambda>p. map_option fst (meta_load_now (be_api e) (be_lua e) (mds_bal_metaload (be_conf e)) (be_now e)
                                          (be_decayrate e) (fst p))) ls) }"

text \<open>\<open>samples\<close> are the values of the option the paused balancer reads (\<open>pause_balancer\<close>).\<close>

definition handle_heartbeat :: "bal_env \<Rightarrow> beat_env \<Rightarrow> rebal_env \<Rightarrow> int list \<Rightarrow> heartbeat \<Rightarrow> balancer \<Rightarrow> balancer option" where
  "handle_heartbeat e h c samples m b =
     (let (go, b1) = note_heartbeat e h m b;
          root_loads = root_metaloads e h
      in if \<not> go then Some b1
         else if mds_bal_lua (be_conf e) = 0 then prep_rebalance e c (hm_beat m) b1
         else if mds_bal_lua (be_conf e) = 1 then custom_balancer e c root_loads b1
         else if mds_bal_lua (be_conf e) = 2 then pause_balancer e c root_loads samples b1
         else Some b1)"

text \<open>\<open>MSG_MDS_HEARTBEAT\<close> is the only message of the balancer; anything else fails an assertion.\<close>

datatype bal_message = MDS_HEARTBEAT heartbeat | OtherMessage nat

fun proc_message :: "bal_env \<Rightarrow> beat_env \<Rightarrow> rebal_env \<Rightarrow> int list \<Rightarrow> bal_message \<Rightarrow> balancer \<Rightarrow> balancer option" where
  "proc_message e h c samples (MDS_HEARTBEAT m) b = handle_heartbeat e h c samples m b"
| "proc_message e h c samples (OtherMessage t) b = None"

section \<open>The loads gathered\<close>

abbreviation gathered :: "balancer \<Rightarrow> mds_rank_t set" where
  "gathered b \<equiv> fst ` set (mds_load b)"

lemma get_load_frame: "get_load e h b = (ld, b') \<Longrightarrow> mds_load b' = mds_load b \<and> beat_epoch b' = beat_epoch b \<and> bal_log b' = bal_log b"
  by (auto simp: get_load_def sample_cpu_def Let_def split: option.splits if_splits)

lemma fold_sends:
  "mds_load (fold (\<lambda>p b. if p = me then b else bal_do (SendHeartbeat p ld (beat_epoch b) im) b) ps b) = mds_load b \<and>
   beat_epoch (fold (\<lambda>p b. if p = me then b else bal_do (SendHeartbeat p ld (beat_epoch b) im) b) ps b) = beat_epoch b \<and>
   bal_log (fold (\<lambda>p b. if p = me then b else bal_do (SendHeartbeat p ld (beat_epoch b) im) b) ps b) =
     bal_log b @ map (\<lambda>p. SendHeartbeat p ld (beat_epoch b) im) (filter (\<lambda>p. p \<noteq> me) ps)"
proof (induction ps arbitrary: b)
  case (Cons p ps)
  have "beat_epoch (bal_do x b) = beat_epoch b" "mds_load (bal_do x b) = mds_load b" "bal_log (bal_do x b) = bal_log b @ [x]" for x
    by (simp_all add: bal_do_def)
  with Cons [of "if p = me then b else bal_do (SendHeartbeat p ld (beat_epoch b) im) b"] show ?case by simp
qed simp

text \<open>Sending a heartbeat forgets every load but one's own.\<close>

lemma send_heartbeat_ok:
  assumes "\<not> hb_degraded h" "hb_open h"
  shows "\<exists>ld. mds_load (send_heartbeat e h b) = [(be_whoami e, ld)] \<and>
     beat_epoch (send_heartbeat e h b) = beat_epoch b + (if be_whoami e = 0 then 1 else 0) \<and>
     bal_log (send_heartbeat e h b) = bal_log b @
       map (\<lambda>p. SendHeartbeat p ld (beat_epoch (send_heartbeat e h b)) (import_map_of e h)) (filter (\<lambda>p. p \<noteq> be_whoami e) (hb_mds_set h))"
proof -
  let ?b2 = "(b\<lparr>mds_load := []\<rparr>)\<lparr>beat_epoch := beat_epoch b + (if be_whoami e = 0 then 1 else 0)\<rparr>"
  obtain ld b3 where g: "get_load e h ?b2 = (ld, b3)" by fastforce
  have e2: "(if be_whoami e = 0 then (b\<lparr>mds_load := []\<rparr>)\<lparr>beat_epoch := beat_epoch (b\<lparr>mds_load := []\<rparr>) + 1\<rparr> else b\<lparr>mds_load := []\<rparr>) = ?b2"
    by simp
  show ?thesis
    using assms g get_load_frame [OF g] unfolding send_heartbeat_def Let_def e2
    by (simp add: fold_sends om_insert_def)
qed

definition healthy :: "beat_env \<Rightarrow> bool" where
  "healthy h \<longleftrightarrow> hb_active h \<and> hb_open h \<and> \<not> hb_degraded h"

lemma om_card: "om_ok m \<Longrightarrow> length m = card (fst ` set m)"
  using om_ok_distinct by (metis distinct_card length_map list.set_map)

lemma note_later:
  assumes "note_heartbeat e h m b = (go, b')" "healthy h" "hm_who m \<noteq> 0" "om_ok (mds_load b)"
  shows "gathered b' = insert (hm_who m) (gathered b) \<and> om_ok (mds_load b') \<and> (go \<longleftrightarrow> card (gathered b') = be_num_in e) \<and>
     beat_epoch b' = beat_epoch b"
proof -
  let ?ld = "om_set (hm_who m) (hm_load m) (mds_load b)"
  have "mds_load b' = ?ld" "go \<longleftrightarrow> length ?ld = be_num_in e" "beat_epoch b' = beat_epoch b"
    using assms(1-3) by (auto simp: note_heartbeat_def healthy_def Let_def dump_subtree_loads_def split: if_splits)
  with om_ok_set [OF assms(4)] om_card [of ?ld] show ?thesis by (simp add: om_set_keys)
qed

lemma note_first:
  assumes "note_heartbeat e h m b = (go, b')" "healthy h" "hm_who m = 0"
  shows "gathered b' = {be_whoami e, 0} \<and> om_ok (mds_load b') \<and> (go \<longleftrightarrow> card (gathered b') = be_num_in e) \<and>
     beat_epoch b' = hm_beat m + (if be_whoami e = 0 then 1 else 0)"
proof -
  let ?b1 = "send_heartbeat e h (b\<lparr>beat_epoch := hm_beat m\<rparr>)"
  obtain ld where ld: "mds_load ?b1 = [(be_whoami e, ld)]" "beat_epoch ?b1 = hm_beat m + (if be_whoami e = 0 then 1 else 0)"
    using send_heartbeat_ok [of h e "b\<lparr>beat_epoch := hm_beat m\<rparr>"] assms(2) by (auto simp: healthy_def)
  have ok: "om_ok [(be_whoami e, ld)]" by simp
  note k = om_ok_set [OF ok, of 0 "hm_load m"]
  show ?thesis
    using assms ld om_card [OF k] k
    by (auto simp: note_heartbeat_def healthy_def Let_def dump_subtree_loads_def bal_do_def split: if_splits)
qed

text \<open>A run of heartbeats, each in the environment it meets.\<close>

fun note_all :: "bal_env \<Rightarrow> (beat_env \<times> heartbeat) list \<Rightarrow> balancer \<Rightarrow> bool list \<times> balancer" where
  "note_all e [] b = ([], b)"
| "note_all e ((h, m) # ms) b =
     (let (go, b1) = note_heartbeat e h m b; (gos, b2) = note_all e ms b1 in (go # gos, b2))"

lemma note_all_later:
  assumes "note_all e ms b = (gos, b')" "\<forall>(h, m)\<in>set ms. healthy h \<and> hm_who m \<noteq> 0" "om_ok (mds_load b)"
  shows "length gos = length ms \<and> gathered b' = gathered b \<union> (hm_who \<circ> snd) ` set ms \<and> beat_epoch b' = beat_epoch b \<and>
    (\<forall>i<length ms. gos ! i \<longleftrightarrow> card (gathered b \<union> (hm_who \<circ> snd) ` set (take (Suc i) ms)) = be_num_in e)"
  using assms
proof (induction ms arbitrary: b gos)
  case (Cons hm ms)
  obtain h m where hm: "hm = (h, m)" by fastforce
  obtain go b1 gos1 where r: "note_heartbeat e h m b = (go, b1)" "note_all e ms b1 = (gos1, b')" "gos = go # gos1"
    using Cons.prems(1) hm by (auto simp: Let_def split: prod.splits)
  have s: "gathered b1 = insert (hm_who m) (gathered b)" "om_ok (mds_load b1)" "go \<longleftrightarrow> card (gathered b1) = be_num_in e"
    "beat_epoch b1 = beat_epoch b"
    using note_later [OF r(1)] Cons.prems(2,3) hm by auto
  note ih = Cons.IH [OF r(2) _ s(2)]
  have un: "insert x A \<union> B = A \<union> insert x B" for x :: mds_rank_t and A B by blast
  show ?case
  proof (intro conjI allI impI)
    fix i assume "i < length (hm # ms)"
    then show "gos ! i \<longleftrightarrow> card (gathered b \<union> (hm_who \<circ> snd) ` set (take (Suc i) (hm # ms))) = be_num_in e"
      using ih Cons.prems(2) r(3) s(1,3) hm by (cases i) (auto simp: un)
  qed (use ih Cons.prems(2) r(3) s hm in auto)
qed simp

section \<open>Properties\<close>

text \<open>C32: The loads an epoch gathers. The heartbeat of rank 0 opens an epoch: whatever was gathered
  before is forgotten, so a heartbeat that overtakes it is lost. From then on the loads are those of rank
  0, of this server and of the servers heard since, in any order, and the balancing step is taken at
  exactly those heartbeats after which these are as many as the cluster has servers. This is the bookkeeping of
  \<^verbatim>\<open>handle_heartbeat\<close> alone: the entries the balancing step itself makes when it is taken are not part of it. The heartbeats
  are those the daemon acts on.\<close>

theorem epoch_gathers:
  assumes "note_all e ((h0, m0) # ms) b = (gos, b')" "healthy h0" "hm_who m0 = 0" "be_whoami e \<noteq> 0"
    "\<forall>(h, m)\<in>set ms. healthy h \<and> hm_who m \<noteq> 0"
  shows "gathered b' = {0, be_whoami e} \<union> (hm_who \<circ> snd) ` set ms \<and> beat_epoch b' = hm_beat m0 \<and>
    length gos = Suc (length ms) \<and>
    (\<forall>i\<le>length ms. gos ! i \<longleftrightarrow> card ({0, be_whoami e} \<union> (hm_who \<circ> snd) ` set (take i ms)) = be_num_in e)"
proof -
  obtain go b1 gos1 where r: "note_heartbeat e h0 m0 b = (go, b1)" "note_all e ms b1 = (gos1, b')" "gos = go # gos1"
    using assms(1) by (auto simp: Let_def split: prod.splits)
  have f: "gathered b1 = {0, be_whoami e}" "om_ok (mds_load b1)" "go \<longleftrightarrow> card (gathered b1) = be_num_in e" "beat_epoch b1 = hm_beat m0"
    using note_first [OF r(1) assms(2,3)] assms(4) by auto
  note l = note_all_later [OF r(2) assms(5) f(2)]
  show ?thesis
  proof (intro conjI allI impI)
    fix i assume i: "i \<le> length ms"
    show "gos ! i \<longleftrightarrow> card ({0, be_whoami e} \<union> (hm_who \<circ> snd) ` set (take i ms)) = be_num_in e"
    proof (cases i)
      case 0
      with r(3) f show ?thesis by simp
    next
      case (Suc j)
      with i have "gos1 ! j \<longleftrightarrow> card (gathered b1 \<union> (hm_who \<circ> snd) ` set (take (Suc j) ms)) = be_num_in e"
        using l by auto
      with Suc r(3) f(1) show ?thesis by simp
    qed
  qed (use l f r(3) in auto)
qed

definition plain_beat :: beat_env where
  "plain_beat = \<lparr>hb_degraded = False, hb_open = True, hb_active = True, hb_root = None, hb_req_rate = 5, hb_queue_len = 0,
     hb_proc_stat = None, hb_auth_subtrees = [], hb_mds_set = [0, 1, 2], hb_fullauth = []\<rparr>"

definition beat_from :: "mds_rank_t \<Rightarrow> int \<Rightarrow> heartbeat" where
  "beat_from who n = \<lparr>hm_who = who, hm_load = mds_load_new plain_api 0, hm_beat = n, hm_import_map = []\<rparr>"

text \<open>Of three servers, rank 1 hears rank 2 too early: that heartbeat does not count.\<close>

theorem epoch_gathers_witness:
  "\<exists>gos b' b0. note_all (plain_bal\<lparr>be_whoami := 1\<rparr>) [(plain_beat, beat_from 2 7)] bal_new = ([False], b0) \<and>
     note_all (plain_bal\<lparr>be_whoami := 1\<rparr>) [(plain_beat, beat_from 0 7), (plain_beat, beat_from 2 7)] b0 = (gos, b') \<and>
     gathered b' = {0, 1, 2} \<and> \<not> gos ! 0 \<and> gos ! 1"
proof -
  let ?e = "plain_bal\<lparr>be_whoami := 1\<rparr>"
  obtain g0 b0 where b0: "note_all ?e [(plain_beat, beat_from 2 7)] bal_new = (g0, b0)" by fastforce
  obtain gos b' where r: "note_all ?e [(plain_beat, beat_from 0 7), (plain_beat, beat_from 2 7)] b0 = (gos, b')" by fastforce
  have "fst (note_all ?e [(plain_beat, beat_from 2 7)] bal_new) = [False]" by code_simp
  then have g0: "g0 = [False]" using b0 by simp
  have h: "healthy plain_beat" "hm_who (beat_from 0 7) = 0" "hm_who (beat_from 2 7) = 2" "be_num_in ?e = 3" "be_whoami ?e = 1"
    by (simp_all add: healthy_def plain_beat_def beat_from_def plain_bal_def)
  have "\<forall>(h, m)\<in>set [(plain_beat, beat_from 2 7)]. healthy h \<and> hm_who m \<noteq> 0" using h by simp
  from epoch_gathers [OF r h(1,2) _ this] h have g: "gathered b' = {0, 1, 2}"
    "\<forall>i\<le>1. gos ! i \<longleftrightarrow> card ({0, 1} \<union> (hm_who \<circ> snd) ` set (take i [(plain_beat, beat_from 2 7)])) = 3"
    by (auto simp: insert_commute)
  then have "\<not> gos ! 0" "gos ! 1" using h(3) by (auto dest!: spec [of _ 0] spec [of _ 1])
  with b0 g0 r g(1) show ?thesis by blast
qed

end
