(* ===== verification/Balancer_Frag.thy ===== *)
theory Balancer_Frag
  imports Balancer_Rebalance
begin

text \<open>
  Fragmentation by the balancer (\<^verbatim>\<open>queue_split\<close>, \<^verbatim>\<open>queue_merge\<close>, \<^verbatim>\<open>do_fragmenting\<close>, \<^verbatim>\<open>export_empties\<close>). The
  arithmetic of \<^verbatim>\<open>frag_t\<close> is outside the sources and the cache changes with what it is asked for: both
  are in \<open>frag_env\<close>, the latter as a function of the calls made so far. The root fragment \<^verbatim>\<open>frag_t()\<close> is 0.
\<close>

record frag_dir =
  fd_auth :: bool
  fd_ino :: inodeno_t
  fd_frag :: frag_t

record frag_env =
  fe_sibling :: "frag_t \<Rightarrow> frag_t"
  fe_parent :: "frag_t \<Rightarrow> frag_t"
  fe_dir :: "bal_call list \<Rightarrow> bal_dirfrag \<Rightarrow> frag_dir option"
  fe_under :: "bal_call list \<Rightarrow> inodeno_t \<Rightarrow> frag_t \<Rightarrow> bool \<times> (bool \<times> bool) list"

definition queue_split :: "bal_dirfrag \<Rightarrow> balancer \<Rightarrow> balancer" where
  "queue_split df b = b\<lparr>split_queue := os_insert df (split_queue b)\<rparr>"

definition queue_merge :: "bal_dirfrag \<Rightarrow> balancer \<Rightarrow> balancer" where
  "queue_merge df b = b\<lparr>merge_queue := os_insert df (merge_queue b)\<rparr>"

definition split_one :: "bal_env \<Rightarrow> frag_env \<Rightarrow> bal_dirfrag \<Rightarrow> balancer \<Rightarrow> balancer" where
  "split_one e v df b =
     (case fe_dir v (bal_log b) df of
        None \<Rightarrow> b
      | Some d \<Rightarrow> if \<not> fd_auth d then b else bal_do (SplitDir df (mds_bal_split_bits (be_conf e))) b)"

text \<open>The siblings under a fragment are all in the cache, authoritative and small.\<close>

definition sibs_merge :: "frag_env \<Rightarrow> bal_call list \<Rightarrow> inodeno_t \<Rightarrow> frag_t \<Rightarrow> bool" where
  "sibs_merge v L ino fg = (let (complete, sibs) = fe_under v L ino (fe_sibling v fg) in complete \<and> (\<forall>s\<in>set sibs. fst s \<and> snd s))"

text \<open>The climb towards the root; not returning is the value \<open>None\<close>.\<close>

partial_function (option) climb :: "frag_env \<Rightarrow> bal_call list \<Rightarrow> inodeno_t \<Rightarrow> frag_t \<Rightarrow> frag_t option" where
  "climb v L ino fg =
     (if fg = 0 then Some fg
      else if \<not> sibs_merge v L ino fg then Some fg
      else climb v L ino (fe_parent v fg))"

declare climb.simps [code]

definition merge_one :: "frag_env \<Rightarrow> bal_dirfrag \<Rightarrow> balancer \<Rightarrow> balancer option" where
  "merge_one v df b =
     (case fe_dir v (bal_log b) df of
        None \<Rightarrow> Some b
      | Some d \<Rightarrow>
          if \<not> fd_auth d \<or> fd_frag d = 0 then Some b
          else do { fg \<leftarrow> climb v (bal_log b) (fd_ino d) (fd_frag d);
                    Some (if fg \<noteq> fd_frag d then bal_do (MergeDir (fd_ino d) fg) b else b) })"

fun merge_all :: "frag_env \<Rightarrow> bal_dirfrag list \<Rightarrow> balancer \<Rightarrow> balancer option" where
  "merge_all v [] b = Some b"
| "merge_all v (df # q) b = do { b1 \<leftarrow> merge_one v df b; merge_all v q b1 }"

definition do_fragmenting :: "bal_env \<Rightarrow> frag_env \<Rightarrow> balancer \<Rightarrow> balancer option" where
  "do_fragmenting e v b =
     (if split_queue b = [] \<and> merge_queue b = [] then Some b
      else
        let b1 = fold (split_one e v) (split_queue b) (b\<lparr>split_queue := []\<rparr>)
        in merge_all v (merge_queue b1) (b1\<lparr>merge_queue := []\<rparr>))"

text \<open>Imports without entries are sent back; the list is the subtree map in its order.\<close>

record empty_candidate =
  ec_id :: nat
  ec_auth :: bool
  ec_ambiguous :: bool
  ec_freezing :: bool
  ec_frozen :: bool
  ec_base :: bool
  ec_stray :: bool
  ec_head_items :: nat

definition export_empties :: "empty_candidate list \<Rightarrow> nat list" where
  "export_empties ds = map ec_id (filter (\<lambda>d. ec_auth d \<and> \<not> ec_ambiguous d \<and> \<not> ec_freezing d \<and> \<not> ec_frozen d \<and>
     \<not> ec_base d \<and> \<not> ec_stray d \<and> ec_head_items d = 0) ds)"

section \<open>The climb\<close>

text \<open>\<open>depth\<close> is the number of bits of a fragment; taking the parent drops one.\<close>

definition frag_law :: "frag_env \<Rightarrow> (frag_t \<Rightarrow> nat) \<Rightarrow> bool" where
  "frag_law v depth \<longleftrightarrow> (\<forall>fg. fg \<noteq> 0 \<longrightarrow> depth (fe_parent v fg) < depth fg)"

text \<open>The climb stops at the n-th ancestor, where n is the number of steps whose siblings agree.\<close>

lemma climb_ok:
  assumes "frag_law v depth"
  shows "\<exists>n. climb v L ino fg = Some ((fe_parent v ^^ n) fg) \<and>
    (\<forall>k<n. (fe_parent v ^^ k) fg \<noteq> 0 \<and> sibs_merge v L ino ((fe_parent v ^^ k) fg)) \<and>
    ((fe_parent v ^^ n) fg = 0 \<or> \<not> sibs_merge v L ino ((fe_parent v ^^ n) fg))"
proof (induction "depth fg" arbitrary: fg rule: less_induct)
  case less
  show ?case
  proof (cases "fg = 0 \<or> \<not> sibs_merge v L ino fg")
    case True
    then have "climb v L ino fg = Some fg" by (subst climb.simps) auto
    with True show ?thesis by (intro exI [of _ 0]) auto
  next
    case False
    then have "depth (fe_parent v fg) < depth fg" using assms by (simp add: frag_law_def)
    from less [OF this] obtain n where n: "climb v L ino (fe_parent v fg) = Some ((fe_parent v ^^ n) (fe_parent v fg))"
      "\<forall>k<n. (fe_parent v ^^ k) (fe_parent v fg) \<noteq> 0 \<and> sibs_merge v L ino ((fe_parent v ^^ k) (fe_parent v fg))"
      "(fe_parent v ^^ n) (fe_parent v fg) = 0 \<or> \<not> sibs_merge v L ino ((fe_parent v ^^ n) (fe_parent v fg))" by blast
    have sh: "(fe_parent v ^^ Suc k) fg = (fe_parent v ^^ k) (fe_parent v fg)" for k by (simp add: funpow_swap1)
    show ?thesis
    proof (intro exI [of _ "Suc n"] conjI allI impI)
      show "climb v L ino fg = Some ((fe_parent v ^^ Suc n) fg)" using n(1) False sh by (subst climb.simps) simp
      show "(fe_parent v ^^ Suc n) fg = 0 \<or> \<not> sibs_merge v L ino ((fe_parent v ^^ Suc n) fg)" using n(3) by (simp only: sh)
      fix k assume "k < Suc n"
      then show "(fe_parent v ^^ k) fg \<noteq> 0" "sibs_merge v L ino ((fe_parent v ^^ k) fg)"
        using False n(2) sh by (cases k; auto simp del: funpow.simps(2))+
    qed
  qed
qed

text \<open>Why a call of the fragmentation is made after the calls \<open>L\<close>.\<close>

definition split_reason :: "bal_env \<Rightarrow> frag_env \<Rightarrow> bal_dirfrag list \<Rightarrow> bal_call list \<Rightarrow> bal_dirfrag \<Rightarrow> nat \<Rightarrow> bool" where
  "split_reason e v q L df bits \<longleftrightarrow> df \<in> set q \<and> bits = mds_bal_split_bits (be_conf e) \<and> (\<exists>d. fe_dir v L df = Some d \<and> fd_auth d)"

definition merge_reason :: "frag_env \<Rightarrow> bal_dirfrag list \<Rightarrow> bal_call list \<Rightarrow> inodeno_t \<Rightarrow> frag_t \<Rightarrow> bool" where
  "merge_reason v q L ino fg \<longleftrightarrow> (\<exists>df\<in>set q. \<exists>d n. fe_dir v L df = Some d \<and> fd_auth d \<and> fd_ino d = ino \<and> 0 < n \<and>
     fg = (fe_parent v ^^ n) (fd_frag d) \<and>
     (\<forall>k<n. (fe_parent v ^^ k) (fd_frag d) \<noteq> 0 \<and> sibs_merge v L ino ((fe_parent v ^^ k) (fd_frag d))))"

fun fragment_audit :: "bal_env \<Rightarrow> frag_env \<Rightarrow> bal_dirfrag list \<Rightarrow> bal_dirfrag list \<Rightarrow> bal_call list \<Rightarrow> bal_call list \<Rightarrow> bool" where
  "fragment_audit e v sq mq L [] = True"
| "fragment_audit e v sq mq L (x # xs) =
     ((case x of SplitDir df bits \<Rightarrow> split_reason e v sq L df bits | MergeDir ino fg \<Rightarrow> merge_reason v mq L ino fg | _ \<Rightarrow> False) \<and>
      fragment_audit e v sq mq (L @ [x]) xs)"

lemma fragment_audit_append [simp]:
  "fragment_audit e v sq mq L (xs @ ys) \<longleftrightarrow> fragment_audit e v sq mq L xs \<and> fragment_audit e v sq mq (L @ xs) ys"
  by (induction xs arbitrary: L) auto

definition frag_asks :: "bal_env \<Rightarrow> frag_env \<Rightarrow> bal_dirfrag list \<Rightarrow> bal_dirfrag list \<Rightarrow> balancer \<Rightarrow> balancer \<Rightarrow> bool" where
  "frag_asks e v sq mq b b' \<longleftrightarrow> (\<exists>new. b' = b\<lparr>bal_log := bal_log b @ new\<rparr> \<and> fragment_audit e v sq mq (bal_log b) new)"

lemma frag_asks_refl [simp]: "frag_asks e v sq mq b b"
  unfolding frag_asks_def by (rule exI [of _ "[]"]) simp

lemma frag_asks_trans [trans]:
  assumes "frag_asks e v sq mq b b1" "frag_asks e v sq mq b1 b2"
  shows "frag_asks e v sq mq b b2"
proof -
  obtain xs ys where "b1 = b\<lparr>bal_log := bal_log b @ xs\<rparr>" "fragment_audit e v sq mq (bal_log b) xs"
    "b2 = b1\<lparr>bal_log := bal_log b1 @ ys\<rparr>" "fragment_audit e v sq mq (bal_log b1) ys"
    using assms unfolding frag_asks_def by blast
  then show ?thesis unfolding frag_asks_def by (intro exI [of _ "xs @ ys"]) simp
qed

lemma split_one_asks: "df \<in> set sq \<Longrightarrow> frag_asks e v sq mq b (split_one e v df b)"
  unfolding frag_asks_def split_one_def bal_do_def
  by (cases "fe_dir v (bal_log b) df")
    (auto intro: exI [of _ "[]"] exI [of _ "[SplitDir df (mds_bal_split_bits (be_conf e))]"] simp: split_reason_def)

lemma split_all_asks: "set q \<subseteq> set sq \<Longrightarrow> frag_asks e v sq mq b (fold (split_one e v) q b)"
proof (induction q arbitrary: b)
  case (Cons df q)
  have "frag_asks e v sq mq b (split_one e v df b)" by (rule split_one_asks) (use Cons.prems in simp)
  also have "frag_asks e v sq mq (split_one e v df b) (fold (split_one e v) q (split_one e v df b))"
    by (rule Cons.IH) (use Cons.prems in simp)
  finally show ?case by simp
qed simp

lemma merge_one_asks:
  assumes "frag_law v depth" "df \<in> set mq"
  shows "\<exists>b'. merge_one v df b = Some b' \<and> frag_asks e v sq mq b b'"
proof (cases "fe_dir v (bal_log b) df")
  case (Some d)
  show ?thesis
  proof (cases "\<not> fd_auth d \<or> fd_frag d = 0")
    case False
    obtain n where n: "climb v (bal_log b) (fd_ino d) (fd_frag d) = Some ((fe_parent v ^^ n) (fd_frag d))"
      "\<forall>k<n. (fe_parent v ^^ k) (fd_frag d) \<noteq> 0 \<and> sibs_merge v (bal_log b) (fd_ino d) ((fe_parent v ^^ k) (fd_frag d))"
      using climb_ok [OF assms(1)] by blast
    let ?fg = "(fe_parent v ^^ n) (fd_frag d)"
    show ?thesis
    proof (cases "?fg = fd_frag d")
      case True
      with Some False n show ?thesis by (intro exI [of _ b]) (simp add: merge_one_def)
    next
      case ne: False
      then have "n > 0" by (cases n) auto
      then have "merge_reason v mq (bal_log b) (fd_ino d) ?fg" using Some False n(2) assms(2) by (auto simp: merge_reason_def)
      with Some False n(1) ne show ?thesis
        by (intro exI [of _ "bal_do (MergeDir (fd_ino d) ?fg) b"])
          (auto simp: merge_one_def frag_asks_def bal_do_def intro: exI [of _ "[MergeDir (fd_ino d) ?fg]"])
    qed
  qed (use Some in \<open>auto simp: merge_one_def\<close>)
qed (simp add: merge_one_def)

lemma merge_all_asks:
  "frag_law v depth \<Longrightarrow> set q \<subseteq> set mq \<Longrightarrow> \<exists>b'. merge_all v q b = Some b' \<and> frag_asks e v sq mq b b'"
proof (induction q arbitrary: b)
  case (Cons df q)
  obtain b1 where b1: "merge_one v df b = Some b1" "frag_asks e v sq mq b b1"
    using merge_one_asks [OF Cons.prems(1), of df mq b e sq] Cons.prems(2) by auto
  obtain b' where "merge_all v q b1 = Some b'" "frag_asks e v sq mq b1 b'"
    using Cons.IH [of b1] Cons.prems by auto
  with b1 show ?case using frag_asks_trans by auto
qed simp

section \<open>Properties\<close>

text \<open>C38: Fragmentation always ends, provided the parent of a fragment has fewer bits, and empties both
  queues. It asks to split exactly with the configured number of bits and only fragments that were
  queued, cached and authoritative; and it asks to merge into an ancestor of a queued, authoritative
  fragment only when, at each step up to it, all siblings were cached, authoritative and small.\<close>

theorem do_fragmenting_ok:
  assumes "frag_law v depth"
  shows "\<exists>b' new. do_fragmenting e v b = Some b' \<and> b' = b\<lparr>split_queue := [], merge_queue := [], bal_log := bal_log b @ new\<rparr> \<and>
    fragment_audit e v (split_queue b) (merge_queue b) (bal_log b) new"
proof (cases "split_queue b = [] \<and> merge_queue b = []")
  case True
  then show ?thesis by (intro exI [of _ b] exI [of _ "[]"]) (simp add: do_fragmenting_def)
next
  case False
  let ?b0 = "b\<lparr>split_queue := []\<rparr>"
  let ?b1 = "fold (split_one e v) (split_queue b) ?b0"
  obtain xs where xs: "?b1 = ?b0\<lparr>bal_log := bal_log ?b0 @ xs\<rparr>" "fragment_audit e v (split_queue b) (merge_queue b) (bal_log ?b0) xs"
    using split_all_asks [of "split_queue b" "split_queue b" e v "merge_queue b" ?b0] unfolding frag_asks_def by blast
  have mq: "merge_queue ?b1 = merge_queue b" by (subst xs(1)) simp
  let ?b2 = "?b1\<lparr>merge_queue := []\<rparr>"
  obtain b' ys where ys: "merge_all v (merge_queue b) ?b2 = Some b'" "b' = ?b2\<lparr>bal_log := bal_log ?b2 @ ys\<rparr>"
    "fragment_audit e v (split_queue b) (merge_queue b) (bal_log ?b2) ys"
    using merge_all_asks [OF assms, of "merge_queue b" "merge_queue b" ?b2 e "split_queue b"] unfolding frag_asks_def by blast
  have l: "bal_log ?b2 = bal_log b @ xs" by (subst xs(1)) simp
  have "b' = b\<lparr>split_queue := [], merge_queue := [], bal_log := bal_log b @ xs @ ys\<rparr>"
    unfolding ys(2) l by (subst xs(1)) simp
  moreover have "do_fragmenting e v b = Some b'" using False ys(1) mq by (auto simp: do_fragmenting_def Let_def)
  ultimately show ?thesis using xs(2) ys(3) l by (intro exI [of _ b'] exI [of _ "xs @ ys"]) simp
qed

text \<open>Fragments are numbered like a binary heap; the siblings 2 and 3 may merge, 1 is the only other step.\<close>

definition heap_frags :: frag_env where
  "heap_frags = \<lparr>fe_sibling = (\<lambda>fg. fg XOR 1), fe_parent = (\<lambda>fg. drop_bit 1 fg), fe_dir = (\<lambda>L df. Some \<lparr>fd_auth = True, fd_ino = df_ino df, fd_frag = df_frag df\<rparr>),
     fe_under = (\<lambda>L ino fg. (fg = 3, [(True, True)]))\<rparr>"

theorem do_fragmenting_ok_witness:
  "\<exists>b' new. do_fragmenting plain_bal heap_frags (queue_split (DirFrag 9 5) (queue_merge (DirFrag 7 2) bal_new)) = Some b' \<and>
     bal_log b' = [SplitDir (DirFrag 9 5) 3, MergeDir 7 1] \<and> split_queue b' = [] \<and> merge_queue b' = [] \<and>
     fragment_audit plain_bal heap_frags [DirFrag 9 5] [DirFrag 7 2] [] new \<and> new = bal_log b'"
proof -
  let ?b = "queue_split (DirFrag 9 5) (queue_merge (DirFrag 7 2) bal_new)"
  have q: "split_queue ?b = [DirFrag 9 5]" "merge_queue ?b = [DirFrag 7 2]" "bal_log ?b = []" by code_simp+
  have law: "frag_law heap_frags unat"
    by (auto simp: frag_law_def heap_frags_def unat_div_distrib unat_gt_0 drop_bit_eq_div)
  obtain b' new where b': "do_fragmenting plain_bal heap_frags ?b = Some b'"
    "b' = ?b\<lparr>split_queue := [], merge_queue := [], bal_log := bal_log ?b @ new\<rparr>"
    "fragment_audit plain_bal heap_frags (split_queue ?b) (merge_queue ?b) (bal_log ?b) new"
    using do_fragmenting_ok [OF law] by blast
  have "map_option bal_log (do_fragmenting plain_bal heap_frags ?b) = Some [SplitDir (DirFrag 9 5) 3, MergeDir 7 1]" by code_simp
  with b'(1) have "bal_log b' = [SplitDir (DirFrag 9 5) 3, MergeDir 7 1]" by simp
  moreover have "bal_log b' = new" "split_queue b' = []" "merge_queue b' = []" by (subst b'(2), simp add: q)+
  ultimately show ?thesis using b'(1,3) q by metis
qed

end
