(* ===== verification/Balancer_Tick.thy ===== *)
theory Balancer_Tick
  imports Balancer_Beat Balancer_Frag
begin

text \<open>
  The periodic work of the balancer (\<^verbatim>\<open>MDBalancer::tick\<close>). Two variables of the function are static: they
  get their values at the first call, the number of rounds from the option and the start of time from
  the clock; \<open>None\<close> stands for not initialised yet.
\<close>

record tick_static =
  num_bal_times :: int
  tick_first :: utime_t

abbreviation sec :: "utime_t \<Rightarrow> int" where
  "sec t \<equiv> \<lfloor>t\<rfloor>"

definition static_init :: "bal_env \<Rightarrow> tick_static option \<Rightarrow> tick_static" where
  "static_init e st = (case st of None \<Rightarrow> \<lparr>num_bal_times = mds_bal_max (be_conf e), tick_first = be_now e\<rparr> | Some s \<Rightarrow> s)"

definition tick_sample :: "bal_env \<Rightarrow> balancer \<Rightarrow> balancer" where
  "tick_sample e b =
     (let b1 = (if be_now e - last_sample b > mds_bal_sample_interval (be_conf e) then b\<lparr>last_sample := be_now e\<rparr> else b)
      in if last_heartbeat b1 = 0 then b1\<lparr>last_heartbeat := be_now e\<rparr> else b1)"

definition beat_due :: "bal_env \<Rightarrow> beat_env \<Rightarrow> tick_static \<Rightarrow> balancer \<Rightarrow> bool" where
  "beat_due e h st b \<longleftrightarrow> be_whoami e = 0 \<and> mds_bal_interval (be_conf e) > 0 \<and>
     (num_bal_times st \<noteq> 0 \<or> mds_bal_max_until (be_conf e) \<ge> 0 \<and> sec (be_now e - tick_first st) > mds_bal_max_until (be_conf e)) \<and>
     hb_active h \<and> sec (be_now e) - sec (last_heartbeat b) \<ge> mds_bal_interval (be_conf e)"

definition fragment_due :: "bal_env \<Rightarrow> balancer \<Rightarrow> bool" where
  "fragment_due e b \<longleftrightarrow> (mds_bal_frag (be_conf e) \<or> mds_thrash_fragments (be_conf e)) \<and> mds_bal_fragment_interval (be_conf e) > 0 \<and>
     sec (be_now e) - sec (last_fragment b) > mds_bal_fragment_interval (be_conf e)"

definition tick :: "bal_env \<Rightarrow> beat_env \<Rightarrow> frag_env \<Rightarrow> tick_static option \<Rightarrow> balancer \<Rightarrow> (tick_static \<times> balancer) option" where
  "tick e h v st0 b =
     do { let st = static_init e st0;
          let b1 = tick_sample e b;
          let (st1, b2) = (if beat_due e h st b1
             then (st\<lparr>num_bal_times := num_bal_times st - 1\<rparr>, send_heartbeat e h (b1\<lparr>last_heartbeat := be_now e\<rparr>))
             else (st, b1));
          b3 \<leftarrow> (if fragment_due e b2 then do_fragmenting e v (b2\<lparr>last_fragment := be_now e\<rparr>) else Some b2);
          Some (st1, b3) }"

section \<open>Runs of ticks\<close>

text \<open>The times at which a run of ticks sends heartbeats, with the last state.\<close>

fun tick_run :: "(bal_env \<times> beat_env \<times> frag_env) list \<Rightarrow> tick_static option \<Rightarrow> balancer
    \<Rightarrow> (utime_t list \<times> tick_static option \<times> balancer) option" where
  "tick_run [] st b = Some ([], st, b)"
| "tick_run ((e, h, v) # es) st b =
     do { (st1, b1) \<leftarrow> tick e h v st b;
          (ts, r) \<leftarrow> tick_run es (Some st1) b1;
          Some (if beat_due e h (static_init e st) (tick_sample e b) then be_now e # ts else ts, r) }"

lemma frag_keeps_beat: "last_heartbeat (split_one e v df b) = last_heartbeat b"
  by (auto simp: split_one_def bal_do_def split: option.splits)

lemma split_fold_beat: "last_heartbeat (fold (split_one e v) q b) = last_heartbeat b"
  by (induction q arbitrary: b) (simp_all add: frag_keeps_beat)

lemma merge_all_beat: "merge_all v q b = Some b' \<Longrightarrow> last_heartbeat b' = last_heartbeat b"
  by (induction q arbitrary: b)
    (auto simp: merge_one_def bal_do_def bind_eq_Some_conv split: option.splits if_splits)

lemma do_fragmenting_beat: "do_fragmenting e v b = Some b' \<Longrightarrow> last_heartbeat b' = last_heartbeat b"
  by (auto simp: do_fragmenting_def Let_def split_fold_beat dest!: merge_all_beat split: if_splits)

lemma send_heartbeat_beat: "last_heartbeat (send_heartbeat e h b) = last_heartbeat b"
proof -
  have f: "last_heartbeat (fold (\<lambda>p b. if p = me then b else bal_do (SendHeartbeat p ld (beat_epoch b) im) b) ps b) = last_heartbeat b" for me ld im ps b
    by (induction ps arbitrary: b) (simp_all add: bal_do_def)
  show ?thesis
    by (auto simp: send_heartbeat_def Let_def f get_load_def sample_cpu_def bal_do_def split: option.splits)
qed

lemma tick_beat:
  assumes "tick e h v st b = Some (st', b')"
  shows "st' = (static_init e st)\<lparr>num_bal_times := num_bal_times (static_init e st) -
       (if beat_due e h (static_init e st) (tick_sample e b) then 1 else 0)\<rparr>"
    "last_heartbeat b' = (if beat_due e h (static_init e st) (tick_sample e b) then be_now e else last_heartbeat (tick_sample e b))"
  using assms
  by (auto simp: tick_def Let_def bind_eq_Some_conv send_heartbeat_beat dest!: do_fragmenting_beat split: if_splits)

text \<open>Successive times are at least \<open>n\<close> seconds apart, the first one that far from \<open>s\<close>.\<close>

fun spaced :: "int \<Rightarrow> utime_t \<Rightarrow> utime_t list \<Rightarrow> bool" where
  "spaced n s [] = True"
| "spaced n s (t # ts) \<longleftrightarrow> sec t - sec s \<ge> n \<and> spaced n t ts"

lemma tick_run_budget:
  assumes "tick_run es (Some st) b = Some (ts, r)" "\<forall>(e, h, v)\<in>set es. mds_bal_max_until (be_conf e) < 0" "num_bal_times st \<ge> 0"
  shows "int (length ts) \<le> num_bal_times st"
  using assms
proof (induction es arbitrary: st b ts)
  case (Cons x es)
  obtain e h v where x: "x = (e, h, v)" by (metis prod_cases3)
  obtain st1 b1 ts1 where r: "tick e h v (Some st) b = Some (st1, b1)" "tick_run es (Some st1) b1 = Some (ts1, r)"
    "ts = (if beat_due e h st (tick_sample e b) then be_now e # ts1 else ts1)"
    using Cons.prems(1) x by (auto simp: bind_eq_Some_conv static_init_def)
  have s1: "num_bal_times st1 = num_bal_times st - (if beat_due e h st (tick_sample e b) then 1 else 0)"
    using tick_beat(1) [OF r(1)] by (simp add: static_init_def)
  have nz: "num_bal_times st \<noteq> 0" if "beat_due e h st (tick_sample e b)"
    using that Cons.prems(2) x by (auto simp: beat_due_def)
  have "int (length ts1) \<le> num_bal_times st1"
    by (rule Cons.IH [OF r(2)]) (use Cons.prems s1 nz in auto)
  with s1 r(3) show ?case by auto
qed simp

lemma tick_sample_beat: "last_heartbeat b \<noteq> 0 \<Longrightarrow> last_heartbeat (tick_sample e b) = last_heartbeat b"
  "last_heartbeat b = 0 \<Longrightarrow> last_heartbeat (tick_sample e b) = be_now e"
  by (auto simp: tick_sample_def Let_def)

lemma tick_run_spaced:
  assumes "tick_run es st b = Some (ts, r)" "\<forall>(e, h, v)\<in>set es. mds_bal_interval (be_conf e) = n \<and> be_now e \<noteq> 0" "last_heartbeat b \<noteq> 0"
  shows "spaced n (last_heartbeat b) ts"
  using assms
proof (induction es arbitrary: st b ts)
  case (Cons x es)
  obtain e h v where x: "x = (e, h, v)" by (metis prod_cases3)
  obtain st1 b1 ts1 where r: "tick e h v st b = Some (st1, b1)" "tick_run es (Some st1) b1 = Some (ts1, r)"
    "ts = (if beat_due e h (static_init e st) (tick_sample e b) then be_now e # ts1 else ts1)"
    using Cons.prems(1) x by (auto simp: bind_eq_Some_conv)
  have l: "last_heartbeat b1 = (if beat_due e h (static_init e st) (tick_sample e b) then be_now e else last_heartbeat b)"
    using tick_beat(2) [OF r(1)] tick_sample_beat(1) [OF Cons.prems(3)] by simp
  then have nz: "last_heartbeat b1 \<noteq> 0" using Cons.prems(2,3) x by auto
  have "spaced n (last_heartbeat b1) ts1" by (rule Cons.IH [OF r(2) _ nz]) (use Cons.prems(2) in auto)
  moreover have "sec (be_now e) - sec (last_heartbeat b) \<ge> n" if "beat_due e h (static_init e st) (tick_sample e b)"
    using that tick_sample_beat(1) [OF Cons.prems(3)] Cons.prems(2) x by (auto simp: beat_due_def)
  ultimately show ?case using l r(3) by auto
qed simp

section \<open>Properties\<close>

text \<open>How often the balancer beats. With a limit on the number of rounds and no time after which the
  limit is lifted, a run of ticks from the start sends at most that many heartbeats; and whatever the
  limit, two heartbeats are at least \<^verbatim>\<open>mds_bal_interval\<close> seconds apart and the first one comes that long after
  the first tick.\<close>

lemma tick_rate_limited:
  assumes "tick_run ((e, h, v) # es) None b = Some (ts, r)" "last_heartbeat b = 0"
    "\<forall>(e', h, v)\<in>set ((e, h, v) # es). be_conf e' = be_conf e \<and> be_now e' > 0"
  shows "spaced (mds_bal_interval (be_conf e)) (be_now e) ts \<and>
    (mds_bal_max (be_conf e) \<ge> 0 \<and> mds_bal_max_until (be_conf e) < 0 \<longrightarrow> int (length ts) \<le> mds_bal_max (be_conf e))"
proof -
  let ?n = "mds_bal_interval (be_conf e)"
  obtain st1 b1 ts1 where r: "tick e h v None b = Some (st1, b1)" "tick_run es (Some st1) b1 = Some (ts1, r)"
    "ts = (if beat_due e h (static_init e None) (tick_sample e b) then be_now e # ts1 else ts1)"
    using assms(1) by (auto simp: bind_eq_Some_conv)
  have nd: "\<not> beat_due e h (static_init e None) (tick_sample e b)"
    using tick_sample_beat(2) [OF assms(2), of e] by (auto simp: beat_due_def)
  have l: "last_heartbeat b1 = be_now e" "num_bal_times st1 = mds_bal_max (be_conf e)"
    using tick_beat [OF r(1)] nd tick_sample_beat(2) [OF assms(2), of e] by (simp_all add: static_init_def)
  have "spaced ?n (last_heartbeat b1) ts1"
    by (rule tick_run_spaced [OF r(2)]) (use assms(3) l in auto)
  moreover have "int (length ts1) \<le> num_bal_times st1" if "mds_bal_max (be_conf e) \<ge> 0" "mds_bal_max_until (be_conf e) < 0"
    by (rule tick_run_budget [OF r(2)]) (use that assms(3) l in auto)
  ultimately show ?thesis using l r(3) nd by simp
qed

definition limited_bal :: "utime_t \<Rightarrow> bal_env" where
  "limited_bal t = plain_bal\<lparr>be_conf := plain_conf\<lparr>mds_bal_max := 1\<rparr>, be_now := t\<rparr>"

lemma tick_rate_limited_witness:
  "\<exists>ts r. tick_run (map (\<lambda>t. (limited_bal t, plain_beat, heap_frags)) [1, 8, 12, 30]) None bal_new = Some (ts, r) \<and>
     ts = [12] \<and> spaced 10 1 ts \<and> length ts \<le> 1"
proof -
  have "map_option fst (tick_run (map (\<lambda>t. (limited_bal t, plain_beat, heap_frags)) [1, 8, 12, 30]) None bal_new) = Some [12]"
    by code_simp
  then obtain r where r: "tick_run (map (\<lambda>t. (limited_bal t, plain_beat, heap_frags)) [1, 8, 12, 30]) None bal_new = Some ([12], r)"
    by auto
  have c: "be_conf (limited_bal t) = plain_conf\<lparr>mds_bal_max := 1\<rparr>" "be_now (limited_bal t) = t" for t
    by (simp_all add: limited_bal_def)
  have "spaced 10 1 [12] \<and> length [12] \<le> 1"
    using tick_rate_limited [OF r [unfolded list.map]] by (simp add: c plain_conf_def bal_new_def)
  with r show ?thesis by blast
qed

end
