(* ===== verification/Balancer_Hits.thy ===== *)
theory Balancer_Hits
  imports Balancer_Plan
begin

text \<open>
  The popularity counters (\<^verbatim>\<open>hit_inode\<close>, \<^verbatim>\<open>hit_dir\<close>, \<^verbatim>\<open>hit_nfiles\<close>, \<^verbatim>\<open>hit_nfiles_dir\<close>, \<^verbatim>\<open>subtract_export\<close>,
  \<^verbatim>\<open>add_import\<close>). A fragment and its ancestors, up to the root, are a list of directory objects,
  \<^verbatim>\<open>dir\<close> first.

  \<^verbatim>\<open>hit(now, amount)\<close> has two arguments: the second one is the decay rate and the increment is 1, the
  default; with three arguments the last one is the increment.
\<close>

section \<open>Counting files\<close>

text \<open>An inode of the cache: a directory has fragments, each with entries that may link an inode.\<close>

datatype file_tree = FileNode | DirNode "file_tree option list list"

definition hit_nfiles :: "double \<Rightarrow> balancer \<Rightarrow> balancer" where
  "hit_nfiles n b = b\<lparr>bal_nfiles := bal_nfiles b + n\<rparr>"

fun hit_nfiles_dir :: "file_tree \<Rightarrow> balancer \<Rightarrow> balancer"
  and hit_nfiles_frags :: "file_tree option list list \<Rightarrow> balancer \<Rightarrow> balancer"
  and hit_nfiles_entries :: "file_tree option list \<Rightarrow> balancer \<Rightarrow> balancer" where
  "hit_nfiles_dir FileNode b = hit_nfiles (-1) b"
| "hit_nfiles_dir (DirNode frags) b = hit_nfiles_frags frags b"
| "hit_nfiles_frags [] b = b"
| "hit_nfiles_frags (es # frags) b = hit_nfiles_frags frags (hit_nfiles_entries es b)"
| "hit_nfiles_entries [] b = b"
| "hit_nfiles_entries (None # es) b = hit_nfiles_entries es b"
| "hit_nfiles_entries (Some t # es) b = hit_nfiles_entries es (hit_nfiles_dir t b)"

text \<open>How many files lie below an inode.\<close>

fun count_files :: "file_tree \<Rightarrow> nat" where
  "count_files FileNode = 1"
| "count_files (DirNode frags) = (\<Sum>es\<leftarrow>frags. \<Sum>en\<leftarrow>es. case en of None \<Rightarrow> 0 | Some t \<Rightarrow> count_files t)"

lemma hit_nfiles_count:
  "hit_nfiles_dir t b = b\<lparr>bal_nfiles := bal_nfiles b - of_nat (count_files t)\<rparr>"
  "hit_nfiles_frags frags b = b\<lparr>bal_nfiles := bal_nfiles b - of_nat (\<Sum>es\<leftarrow>frags. \<Sum>en\<leftarrow>es. case en of None \<Rightarrow> 0 | Some t \<Rightarrow> count_files t)\<rparr>"
  "hit_nfiles_entries es b = b\<lparr>bal_nfiles := bal_nfiles b - of_nat (\<Sum>en\<leftarrow>es. case en of None \<Rightarrow> 0 | Some t \<Rightarrow> count_files t)\<rparr>"
  by (induction t b and frags b and es b rule: hit_nfiles_dir_hit_nfiles_frags_hit_nfiles_entries.induct)
    (simp_all add: hit_nfiles_def)

section \<open>Hitting a directory\<close>

text \<open>\<open>upd_load t f\<close> applies \<open>f\<close> to the counter of type \<open>t\<close>; the type is asserted to be in range.\<close>

definition upd_load :: "nat \<Rightarrow> ('d \<Rightarrow> 'd) \<Rightarrow> 'd list \<Rightarrow> 'd list option" where
  "upd_load t f vec = do { c \<leftarrow> dirfrag_load_get t vec; Some (vec[t := f c]) }"

text \<open>The part for splitting and merging; \<open>base\<close> says whether the inode is the root or a server's own
  directory.\<close>

definition hit_fragment :: "bal_env \<Rightarrow> bool \<Rightarrow> nat \<Rightarrow> double \<Rightarrow> cdir \<Rightarrow> balancer \<Rightarrow> balancer" where
  "hit_fragment e base t v dir b =
     (let cf = be_conf e; df = DirFrag (iv_ino (cd_inode dir)) (cd_frag dir)
      in if mds_bal_frag cf \<and> mds_bal_fragment_interval cf > 0 \<and> \<not> base \<and> is_auth dir then
           let b1 = (if mds_bal_split_size cf > 0 \<and>
                        (should_split (mds_bal_split_size cf) dir \<or> v > mds_bal_split_rd cf \<and> t = META_POP_IRD \<or>
                         v > mds_bal_split_wr cf \<and> t = META_POP_IWR) \<and> df \<notin> set (split_queue b)
                     then b\<lparr>split_queue := os_insert df (split_queue b)\<rparr> else b)
           in if cd_frag dir \<noteq> 0 \<and> should_merge (mds_bal_merge_size cf) dir \<and> df \<notin> set (merge_queue b1)
              then b1\<lparr>merge_queue := os_insert df (merge_queue b1)\<rparr> else b1
         else b)"

definition is_ambiguous_auth :: "cdir \<Rightarrow> bool" where
  "is_ambiguous_auth c \<longleftrightarrow> snd (authority c) \<noteq> CDIR_AUTH_UNKNOWN"

text \<open>Replicating and unreplicating a popular directory: the correction of the counters and the state.
  \<open>dir_pop\<close> is its popularity with the spread of its readers.\<close>

definition hit_replicate :: "bal_env \<Rightarrow> utime_t \<Rightarrow> double \<Rightarrow> cdir \<Rightarrow> balancer \<Rightarrow> (double \<times> cdir \<times> balancer) option" where
  "hit_replicate e now dir_pop dir b =
     (if is_auth dir \<and> \<not> is_ambiguous_auth dir then do {
        (rd_adj, dir1, b1) \<leftarrow>
          (if \<not> is_rep dir \<and> dir_pop \<ge> mds_bal_replicate_threshold (be_conf e) then do {
             c \<leftarrow> dirfrag_load_get META_POP_IRD (pop_me dir);
             let (rdp, c1) = dc_get (be_api e) now (be_decayrate e) c;
             let rd_adj = (rdp / of_nat (be_num_in e) - rdp) / 2;
             sub1 \<leftarrow> upd_load META_POP_IRD (dc_adjust (be_api e) rd_adj) (pop_auth_subtree dir);
             Some (rd_adj, dir\<lparr>dir_rep := REP_ALL, pop_me := (pop_me dir)[META_POP_IRD := dc_adjust (be_api e) rd_adj c1], pop_auth_subtree := sub1\<rparr>,
                   bal_do (SendDirUpdates (unat (iv_ino (cd_inode dir))) True) b) }
           else Some (0, dir, b));
        if iv_ino (cd_inode dir1) \<noteq> 1 \<and> is_rep dir1 \<and> dir_pop < mds_bal_unreplicate_threshold (be_conf e)
        then Some (rd_adj, dir1\<lparr>dir_rep := REP_NONE\<rparr>, bal_do (SendDirUpdates (unat (iv_ino (cd_inode dir1))) False) b1)
        else Some (rd_adj, dir1, b1) }
      else Some (0, dir, b))"

text \<open>The loop over the ancestors.\<close>

fun hit_ancestors :: "bal_env \<Rightarrow> utime_t \<Rightarrow> nat \<Rightarrow> double \<Rightarrow> double \<Rightarrow> bool \<Rightarrow> bool \<Rightarrow> cdir list \<Rightarrow> cdir list option" where
  "hit_ancestors e now t amount rd_adj hit_subtree hit_subtree_nested [] = Some []"
| "hit_ancestors e now t amount rd_adj hit_subtree hit_subtree_nested (dir # dirs) =
     do { let api = be_api e;
          let adj = (\<lambda>vec. if rd_adj \<noteq> 0 then upd_load META_POP_IRD (dc_adjust_now api now (be_decayrate e) rd_adj) vec else Some vec);
          n0 \<leftarrow> upd_load t (\<lambda>c. snd (dc_hit api now amount 1 c)) (pop_nested dir);
          n1 \<leftarrow> adj n0;
          s1 \<leftarrow> (if hit_subtree then do { s0 \<leftarrow> upd_load t (\<lambda>c. snd (dc_hit api now amount 1 c)) (pop_auth_subtree dir); adj s0 }
                else Some (pop_auth_subtree dir));
          m1 \<leftarrow> (if hit_subtree_nested then do { m0 \<leftarrow> upd_load t (\<lambda>c. snd (dc_hit api now (be_decayrate e) amount c)) (pop_auth_subtree_nested dir); adj m0 }
                else Some (pop_auth_subtree_nested dir));
          rest \<leftarrow> hit_ancestors e now t amount rd_adj (hit_subtree \<and> \<not> is_subtree_root dir) hit_subtree_nested dirs;
          Some (dir\<lparr>pop_nested := n1, pop_auth_subtree := s1, pop_auth_subtree_nested := m1\<rparr> # rest) }"

text \<open>\<open>lps\<close> is the field \<^verbatim>\<open>last_popularity_sample\<close> of the directory.\<close>

definition hit_dir :: "bal_env \<Rightarrow> utime_t \<Rightarrow> bool \<Rightarrow> nat \<Rightarrow> int \<Rightarrow> double \<Rightarrow> utime_t \<times> cdir list \<Rightarrow> balancer
    \<Rightarrow> (utime_t \<times> cdir list \<times> balancer) option" where
  "hit_dir e now base t who amount ls b =
     (case ls of
        (lps, []) \<Rightarrow> None
      | (lps, dir # dirs) \<Rightarrow> do {
          let api = be_api e;
          c \<leftarrow> dirfrag_load_get t (pop_me dir);
          let (v, c1) = dc_hit api now amount 1 c;
          let dir1 = dir\<lparr>pop_me := (pop_me dir)[t := c1]\<rparr>;
          let b1 = hit_fragment e base t v dir1 b;
          dir2 \<leftarrow> (if t = META_POP_IRD \<and> who \<ge> 0
                   then map_option (\<lambda>s. dir1\<lparr>pop_spread := snd s\<rparr>) (load_spread_hit api now (be_decayrate e) who (pop_spread dir1))
                   else Some dir1);
          (lps1, rd_adj, dir3, b2) \<leftarrow>
            (if t = META_POP_IRD \<and> lps < last_sample b1 then do {
               s \<leftarrow> dirfrag_load_get t (pop_auth_subtree dir2);
               let (dir_pop, s1) = dc_get api now (be_decayrate e) s;
               let (pop_sp, sp1) = load_spread_get api now (be_decayrate e) (pop_spread dir2);
               (rd_adj, d, b') \<leftarrow> hit_replicate e now (dir_pop + pop_sp * 10)
                   (dir2\<lparr>pop_auth_subtree := (pop_auth_subtree dir2)[t := s1], pop_spread := sp1\<rparr>) b1;
               Some (last_sample b1, rd_adj, d, b') }
             else Some (lps, 0, dir2, b1));
          chain \<leftarrow> hit_ancestors e now t amount rd_adj (is_auth dir3) (is_auth dir3) (dir3 # dirs);
          Some (lps1, chain, b2) })"

text \<open>An inode: its own counter, then the directory it is in, if any.\<close>

definition hit_inode :: "bal_env \<Rightarrow> utime_t \<Rightarrow> bool \<Rightarrow> nat \<Rightarrow> int \<Rightarrow> decay_counter list \<Rightarrow> utime_t \<times> cdir list \<Rightarrow> balancer
    \<Rightarrow> (decay_counter list \<times> (utime_t \<times> cdir list) \<times> balancer) option" where
  "hit_inode e now base t who pop ls b =
     do { c \<leftarrow> inode_load_get t pop;
          let pop1 = pop[t := snd (dc_hit (be_api e) now (be_decayrate e) 1 c)];
          if snd ls = [] then Some (pop1, ls, b)
          else do { (lps, chain, b1) \<leftarrow> hit_dir e now base t who 1 ls b; Some (pop1, (lps, chain), b1) } }"

section \<open>Exports and imports\<close>

fun sub_ancestors :: "dir_api \<Rightarrow> utime_t \<Rightarrow> double \<Rightarrow> decay_counter list \<Rightarrow> cdir list \<Rightarrow> cdir list" where
  "sub_ancestors api now rate subload [] = []"
| "sub_ancestors api now rate subload (dir # dirs) =
     (let (n, r1) = dirfrag_load_sub api now rate (pop_nested dir) subload;
          (m, r2) = dirfrag_load_sub api now rate (pop_auth_subtree_nested dir) r1
      in dir\<lparr>pop_nested := n, pop_auth_subtree_nested := m\<rparr> # sub_ancestors api now rate r2 dirs)"

fun add_ancestors :: "dir_api \<Rightarrow> utime_t \<Rightarrow> double \<Rightarrow> decay_counter list \<Rightarrow> cdir list \<Rightarrow> cdir list" where
  "add_ancestors api now rate subload [] = []"
| "add_ancestors api now rate subload (dir # dirs) =
     (let (n, r1) = dirfrag_load_add api now rate (pop_nested dir) subload;
          (m, r2) = dirfrag_load_add api now rate (pop_auth_subtree_nested dir) r1
      in dir\<lparr>pop_nested := n, pop_auth_subtree_nested := m\<rparr> # add_ancestors api now rate r2 dirs)"

text \<open>The popularity is copied before the walk, so the fragment itself is left alone.\<close>

definition subtract_export :: "bal_env \<Rightarrow> utime_t \<Rightarrow> cdir list \<Rightarrow> cdir list" where
  "subtract_export e now ds =
     (case ds of [] \<Rightarrow> [] | dir # dirs \<Rightarrow> dir # sub_ancestors (be_api e) now (be_decayrate e) (pop_auth_subtree dir) dirs)"

definition add_import :: "bal_env \<Rightarrow> utime_t \<Rightarrow> cdir list \<Rightarrow> cdir list" where
  "add_import e now ds =
     (case ds of [] \<Rightarrow> [] | dir # dirs \<Rightarrow> dir # add_ancestors (be_api e) now (be_decayrate e) (pop_auth_subtree dir) dirs)"

section \<open>What a hit reaches\<close>

definition hit_vec :: "bal_env \<Rightarrow> utime_t \<Rightarrow> nat \<Rightarrow> double \<Rightarrow> double \<Rightarrow> double \<Rightarrow> decay_counter list \<Rightarrow> decay_counter list" where
  "hit_vec e now t rate amount rd_adj vec =
     (let v1 = vec[t := snd (dc_hit (be_api e) now rate amount (vec ! t))]
      in if rd_adj = 0 then v1
         else v1[META_POP_IRD := dc_adjust_now (be_api e) now (be_decayrate e) rd_adj (v1 ! META_POP_IRD)])"

lemma upd_load_Some: "t < DIRFRAG_LOAD_NUM \<Longrightarrow> upd_load t f vec = Some (vec[t := f (vec ! t)])"
  by (simp add: upd_load_def dirfrag_load_get_def)

lemma pop_ird: "META_POP_IRD < DIRFRAG_LOAD_NUM"
  by (simp add: META_POP_IRD_def DIRFRAG_LOAD_NUM_def)

lemma hit_ancestors_Cons:
  assumes "t < DIRFRAG_LOAD_NUM"
  shows "hit_ancestors e now t amount rd_adj s n (dir # dirs) =
    map_option ((#) (dir\<lparr>pop_nested := hit_vec e now t amount 1 rd_adj (pop_nested dir),
      pop_auth_subtree := (if s then hit_vec e now t amount 1 rd_adj (pop_auth_subtree dir) else pop_auth_subtree dir),
      pop_auth_subtree_nested := (if n then hit_vec e now t (be_decayrate e) amount rd_adj (pop_auth_subtree_nested dir)
                                  else pop_auth_subtree_nested dir)\<rparr>))
      (hit_ancestors e now t amount rd_adj (s \<and> \<not> is_subtree_root dir) n dirs)"
  by (cases "hit_ancestors e now t amount rd_adj (s \<and> \<not> is_subtree_root dir) n dirs")
    (simp_all add: Let_def upd_load_Some [OF assms] upd_load_Some [OF pop_ird] hit_vec_def)

lemma hit_ancestors_exact:
  assumes "t < DIRFRAG_LOAD_NUM"
  shows "\<exists>ds'. hit_ancestors e now t amount rd_adj s n ds = Some ds' \<and> length ds' = length ds \<and>
    (\<forall>i<length ds. ds' ! i = (ds ! i)\<lparr>pop_nested := hit_vec e now t amount 1 rd_adj (pop_nested (ds ! i)),
      pop_auth_subtree := (if s \<and> (\<forall>j<i. \<not> is_subtree_root (ds ! j)) then hit_vec e now t amount 1 rd_adj (pop_auth_subtree (ds ! i))
                           else pop_auth_subtree (ds ! i)),
      pop_auth_subtree_nested := (if n then hit_vec e now t (be_decayrate e) amount rd_adj (pop_auth_subtree_nested (ds ! i))
                                  else pop_auth_subtree_nested (ds ! i))\<rparr>)"
proof (induction ds arbitrary: s)
  case (Cons d ds)
  from Cons.IH [of "s \<and> \<not> is_subtree_root d"] obtain ds' where d: "hit_ancestors e now t amount rd_adj (s \<and> \<not> is_subtree_root d) n ds = Some ds'"
    "length ds' = length ds"
    "\<forall>i<length ds. ds' ! i = (ds ! i)\<lparr>pop_nested := hit_vec e now t amount 1 rd_adj (pop_nested (ds ! i)),
      pop_auth_subtree := (if (s \<and> \<not> is_subtree_root d) \<and> (\<forall>j<i. \<not> is_subtree_root (ds ! j)) then hit_vec e now t amount 1 rd_adj (pop_auth_subtree (ds ! i))
                           else pop_auth_subtree (ds ! i)),
      pop_auth_subtree_nested := (if n then hit_vec e now t (be_decayrate e) amount rd_adj (pop_auth_subtree_nested (ds ! i))
                                  else pop_auth_subtree_nested (ds ! i))\<rparr>" by blast
  have all: "(\<forall>j<Suc i. \<not> is_subtree_root ((d # ds) ! j)) \<longleftrightarrow> \<not> is_subtree_root d \<and> (\<forall>j<i. \<not> is_subtree_root (ds ! j))" for i
    by (auto simp: All_less_Suc2)
  show ?case
    unfolding hit_ancestors_Cons [OF assms] d(1) option.map
  proof (intro exI conjI refl allI impI)
    fix i assume "i < length (d # ds)"
    then show "(d\<lparr>pop_nested := hit_vec e now t amount 1 rd_adj (pop_nested d),
        pop_auth_subtree := if s then hit_vec e now t amount 1 rd_adj (pop_auth_subtree d) else pop_auth_subtree d,
        pop_auth_subtree_nested := if n then hit_vec e now t (be_decayrate e) amount rd_adj (pop_auth_subtree_nested d)
          else pop_auth_subtree_nested d\<rparr> # ds') ! i = ((d # ds) ! i)\<lparr>pop_nested := hit_vec e now t amount 1 rd_adj (pop_nested ((d # ds) ! i)),
      pop_auth_subtree := (if s \<and> (\<forall>j<i. \<not> is_subtree_root ((d # ds) ! j)) then hit_vec e now t amount 1 rd_adj (pop_auth_subtree ((d # ds) ! i))
                           else pop_auth_subtree ((d # ds) ! i)),
      pop_auth_subtree_nested := (if n then hit_vec e now t (be_decayrate e) amount rd_adj (pop_auth_subtree_nested ((d # ds) ! i))
                                  else pop_auth_subtree_nested ((d # ds) ! i))\<rparr>"
      using d(3) by (cases i) (simp_all only: all nth_Cons_0 nth_Cons_Suc length_Cons Suc_less_eq conj_assoc, simp_all)
  qed (use d(2) in simp_all)
qed simp

section \<open>Exporting and importing the same load\<close>

text \<open>What \<^verbatim>\<open>DecayCounter\<close> promises: an adjustment is undone by its opposite, and reading a counter twice at
  the same time gives the same value.\<close>

definition decay_law :: "dir_api \<Rightarrow> utime_t \<Rightarrow> double \<Rightarrow> bool" where
  "decay_law api now rate \<longleftrightarrow> (\<forall>x c. dc_adjust api x (dc_adjust api (- x) c) = c) \<and>
     (\<forall>c. fst (dc_get api now rate (snd (dc_get api now rate c))) = fst (dc_get api now rate c))"

lemma sub_add_vec:
  assumes "decay_law api now rate" "map (\<lambda>c. fst (dc_get api now rate c)) r' = map (\<lambda>c. fst (dc_get api now rate c)) r"
    "length vec = length r"
  shows "fst (dirfrag_load_add api now rate (fst (dirfrag_load_sub api now rate vec r)) r') = vec"
proof (rule nth_equalityI)
  have l: "length r' = length r" using assms(2) by (metis length_map)
  show "length (fst (dirfrag_load_add api now rate (fst (dirfrag_load_sub api now rate vec r)) r')) = length vec"
    using l assms(3) by (simp add: dirfrag_load_add_def dirfrag_load_sub_def Let_def)
  fix i assume "i < length (fst (dirfrag_load_add api now rate (fst (dirfrag_load_sub api now rate vec r)) r'))"
  then have i: "i < length r" "i < length r'" "i < length vec"
    using l assms(3) by (simp_all add: dirfrag_load_add_def dirfrag_load_sub_def Let_def)
  have "fst (dc_get api now rate (r' ! i)) = fst (dc_get api now rate (r ! i))"
    using arg_cong [OF assms(2), of "\<lambda>xs. xs ! i"] i by simp
  then show "fst (dirfrag_load_add api now rate (fst (dirfrag_load_sub api now rate vec r)) r') ! i = vec ! i"
    using i assms(1) by (simp add: dirfrag_load_add_def dirfrag_load_sub_def Let_def decay_law_def)
qed

abbreviation readings :: "dir_api \<Rightarrow> utime_t \<Rightarrow> double \<Rightarrow> decay_counter list \<Rightarrow> double list" where
  "readings api now rate r \<equiv> map (\<lambda>c. fst (dc_get api now rate c)) r"

lemma readings_kept:
  assumes "decay_law api now rate"
  shows "readings api now rate (snd (dirfrag_load_sub api now rate vec r)) = readings api now rate r"
    "readings api now rate (snd (dirfrag_load_add api now rate vec r)) = readings api now rate r"
  using assms by (simp_all add: dirfrag_load_sub_def dirfrag_load_add_def Let_def decay_law_def)

lemma sub_add_ancestors:
  assumes "decay_law api now rate"
  shows "\<lbrakk>readings api now rate r' = readings api now rate r;
    \<forall>d\<in>set ds. length (pop_nested d) = length r \<and> length (pop_auth_subtree_nested d) = length r\<rbrakk>
    \<Longrightarrow> add_ancestors api now rate r' (sub_ancestors api now rate r ds) = ds"
proof (induction ds arbitrary: r r')
  case (Cons d ds)
  let ?s = "dirfrag_load_sub api now rate (pop_nested d) r"
  let ?m = "dirfrag_load_sub api now rate (pop_auth_subtree_nested d) (snd ?s)"
  let ?a = "dirfrag_load_add api now rate (fst ?s) r'"
  let ?b = "dirfrag_load_add api now rate (fst ?m) (snd ?a)"
  have len: "length (snd ?s) = length r" "length (snd ?m) = length r" by (simp_all add: dirfrag_load_sub_def Let_def)
  have rd: "readings api now rate (snd ?a) = readings api now rate (snd ?s)" "readings api now rate (snd ?b) = readings api now rate (snd ?m)"
    using Cons.prems(1) by (simp_all only: readings_kept [OF assms])
  have "fst ?a = pop_nested d" by (rule sub_add_vec [OF assms Cons.prems(1)]) (use Cons.prems(2) in simp)
  moreover have "fst ?b = pop_auth_subtree_nested d" by (rule sub_add_vec [OF assms rd(1)]) (use Cons.prems(2) len in simp)
  moreover have "add_ancestors api now rate (snd ?b) (sub_ancestors api now rate (snd ?m) ds) = ds"
    by (rule Cons.IH [OF rd(2)]) (use Cons.prems(2) len in simp)
  ultimately show ?case by (simp add: Let_def split_beta)
qed simp

section \<open>Properties\<close>

text \<open>A hit on a directory fragment is booked up the hierarchy exactly where it belongs: every
  ancestor's nested counter is hit; the counters of the authority's own subtree are hit in the fragments
  from the one hit up to and including the first subtree root, and only if the fragment is
  authoritative; the counters of nested authority are hit in every ancestor, on the same condition.\<close>

lemma hit_booked_exactly:
  assumes "t < DIRFRAG_LOAD_NUM"
  shows "\<exists>ds'. hit_ancestors e now t amount rd_adj auth auth ds = Some ds' \<and> length ds' = length ds \<and>
    (\<forall>i<length ds. pop_nested (ds' ! i) = hit_vec e now t amount 1 rd_adj (pop_nested (ds ! i)) \<and>
      pop_auth_subtree (ds' ! i) = (if auth \<and> (\<forall>j<i. \<not> is_subtree_root (ds ! j)) then hit_vec e now t amount 1 rd_adj (pop_auth_subtree (ds ! i))
                                    else pop_auth_subtree (ds ! i)) \<and>
      pop_auth_subtree_nested (ds' ! i) = (if auth then hit_vec e now t (be_decayrate e) amount rd_adj (pop_auth_subtree_nested (ds ! i))
                                           else pop_auth_subtree_nested (ds ! i)))"
proof -
  obtain ds' where "hit_ancestors e now t amount rd_adj auth auth ds = Some ds'" "length ds' = length ds"
    "\<forall>i<length ds. ds' ! i = (ds ! i)\<lparr>pop_nested := hit_vec e now t amount 1 rd_adj (pop_nested (ds ! i)),
      pop_auth_subtree := (if auth \<and> (\<forall>j<i. \<not> is_subtree_root (ds ! j)) then hit_vec e now t amount 1 rd_adj (pop_auth_subtree (ds ! i))
                           else pop_auth_subtree (ds ! i)),
      pop_auth_subtree_nested := (if auth then hit_vec e now t (be_decayrate e) amount rd_adj (pop_auth_subtree_nested (ds ! i))
                                  else pop_auth_subtree_nested (ds ! i))\<rparr>"
    using hit_ancestors_exact [OF assms] by blast
  then show ?thesis by (intro exI [of _ ds']) simp
qed

lemma hit_booked_exactly_witness:
  "\<exists>ds'. hit_ancestors plain_bal 1 0 1 0 True True [plain_dir, plain_dir] = Some ds' \<and> length ds' = 2 \<and>
     pop_nested (ds' ! 1) = hit_vec plain_bal 1 0 1 1 0 (pop_nested plain_dir)"
proof -
  have "0 < DIRFRAG_LOAD_NUM" by (simp add: DIRFRAG_LOAD_NUM_def)
  from hit_booked_exactly [OF this, of plain_bal 1 1 0 True "[plain_dir, plain_dir]"] show ?thesis
    by (auto simp: All_less_Suc2 numeral_2_eq_2)
qed

text \<open>C39: Importing what was exported restores the ancestors: if the popularity of a fragment is subtracted
  from its ancestors when it is exported and added when it is imported at the same time, every ancestor
  has the counters it had.\<close>

theorem import_undoes_export:
  assumes "decay_law (be_api e) now (be_decayrate e)"
    "\<forall>d\<in>set dirs. length (pop_nested d) = length (pop_auth_subtree dir) \<and> length (pop_auth_subtree_nested d) = length (pop_auth_subtree dir)"
  shows "add_import e now (subtract_export e now (dir # dirs)) = dir # dirs"
  using sub_add_ancestors [OF assms(1) refl assms(2)] by (simp add: add_import_def subtract_export_def)

theorem import_undoes_export_witness:
  "add_import plain_bal 1 (subtract_export plain_bal 1 [plain_dir\<lparr>pop_auth_subtree := [1, 2, 3, 4, 5]\<rparr>, plain_dir]) =
     [plain_dir\<lparr>pop_auth_subtree := [1, 2, 3, 4, 5]\<rparr>, plain_dir] \<and>
   subtract_export plain_bal 1 [plain_dir\<lparr>pop_auth_subtree := [1, 2, 3, 4, 5]\<rparr>, plain_dir] \<noteq>
     [plain_dir\<lparr>pop_auth_subtree := [1, 2, 3, 4, 5]\<rparr>, plain_dir]"
proof
  have "decay_law (be_api plain_bal) 1 (be_decayrate plain_bal)" by (simp add: decay_law_def plain_bal_def plain_api_def)
  then show "add_import plain_bal 1 (subtract_export plain_bal 1 [plain_dir\<lparr>pop_auth_subtree := [1, 2, 3, 4, 5]\<rparr>, plain_dir]) =
     [plain_dir\<lparr>pop_auth_subtree := [1, 2, 3, 4, 5]\<rparr>, plain_dir]"
    by (rule import_undoes_export) (simp add: plain_dir_def cdir_new_def plain_inode_def dirfrag_load_new_def DIRFRAG_LOAD_NUM_def)
  have "map (\<lambda>d. pop_nested d) (subtract_export plain_bal 1 [plain_dir\<lparr>pop_auth_subtree := [1, 2, 3, 4, 5]\<rparr>, plain_dir]) \<noteq>
      map (\<lambda>d. pop_nested d) [plain_dir\<lparr>pop_auth_subtree := [1, 2, 3, 4, 5]\<rparr>, plain_dir]" by code_simp
  then show "subtract_export plain_bal 1 [plain_dir\<lparr>pop_auth_subtree := [1, 2, 3, 4, 5]\<rparr>, plain_dir] \<noteq>
     [plain_dir\<lparr>pop_auth_subtree := [1, 2, 3, 4, 5]\<rparr>, plain_dir]" by metis
qed

end
