(* ===== verification/Beacon_Model.thy ===== *)
theory Beacon_Model
  imports Ordered_Containers C_Strings
begin

text \<open>
  The beacon (\<^verbatim>\<open>src/src/mds/Beacon.cc\<close>): the daemon tells the monitors at regular intervals that it is alive
  and in which state it wants to be, numbers these messages, and concludes from the acknowledgements
  whether it is laggy. The timer, the monitor client, the heartbeat map, the cluster map, the sessions
  and the locker are outside the sources; the calls on them are logged, what is read of them is in
  \<open>beacon_env\<close> and in arguments. Compatibility sets are opaque.
\<close>

section \<open>State\<close>

datatype health_kind = HEALTH_TRIM | HEALTH_CLIENT_LATE_RELEASE | HEALTH_CLIENT_LATE_RELEASE_MANY
  | HEALTH_CLIENT_RECALL | HEALTH_CLIENT_RECALL_MANY

record health_metric =
  hm_kind :: health_kind
  hm_message :: string
  hm_metadata :: "(string \<times> string) list"

record 'c beacon_msg =
  bm_epoch :: nat
  bm_want_state :: int
  bm_seq :: version_t
  bm_standby_for_rank :: mds_rank_t
  bm_standby_for_name :: string
  bm_health :: "health_metric list"
  bm_compat :: 'c

datatype 'c beacon_call = TimerInit | TimerCancel | TimerAddAfter double | TimerShutdown
  | SendMonMessage "'c beacon_msg" | ReopenSession

record 'c beacon_env =
  bc_now :: utime_t
  bc_beacon_interval :: double
  bc_beacon_grace :: double
  bc_healthy :: bool
  bc_compat_default :: 'c
  bc_compat_merge :: "'c \<Rightarrow> 'c \<Rightarrow> 'c"

record 'c beacon =
  want_state :: int
  last_seq :: version_t
  seq_stamp :: "(version_t \<times> utime_t) list"
  last_acked_stamp :: utime_t
  bc_sender :: bool
  was_laggy :: bool
  laggy_until :: utime_t
  last_mon_reconnect :: utime_t
  bc_epoch :: nat
  bc_compat :: 'c
  standby_for_rank :: mds_rank_t
  standby_for_name :: string
  bc_health :: "health_metric list"
  bc_log :: "'c beacon_call list"

text \<open>\<open>c0\<close> is a default constructed compatibility set, \<open>null\<close> and \<open>no_pref\<close> are the constants of \<^verbatim>\<open>MDSMap\<close> for no state
  and no preference.\<close>

definition beacon_new :: "int \<Rightarrow> mds_rank_t \<Rightarrow> 'c \<Rightarrow> 'c beacon" where
  "beacon_new null no_pref c0 = \<lparr>want_state = null, last_seq = 0, seq_stamp = [], last_acked_stamp = 0, bc_sender = False,
     was_laggy = False, laggy_until = 0, last_mon_reconnect = 0, bc_epoch = 0, bc_compat = c0,
     standby_for_rank = no_pref, standby_for_name = [], bc_health = [], bc_log = []\<rparr>"

definition bc_do :: "'c beacon_call \<Rightarrow> 'c beacon \<Rightarrow> 'c beacon" where
  "bc_do x b = b\<lparr>bc_log := bc_log b @ [x]\<rparr>"

section \<open>Sending\<close>

definition beacon_send :: "'c beacon_env \<Rightarrow> 'c beacon \<Rightarrow> 'c beacon" where
  "beacon_send e b =
     (let b1 = (if bc_sender b then bc_do TimerCancel b else b);
          b2 = bc_do (TimerAddAfter (bc_beacon_interval e)) (b1\<lparr>bc_sender := True\<rparr>)
      in if \<not> bc_healthy e then b2
         else
           let b3 = b2\<lparr>last_seq := last_seq b2 + 1\<rparr>;
               b4 = b3\<lparr>seq_stamp := om_set (last_seq b3) (bc_now e) (seq_stamp b3)\<rparr>
           in bc_do (SendMonMessage \<lparr>bm_epoch = bc_epoch b4, bm_want_state = want_state b4, bm_seq = last_seq b4,
                       bm_standby_for_rank = standby_for_rank b4, bm_standby_for_name = standby_for_name b4,
                       bm_health = bc_health b4, bm_compat = bc_compat b4\<rparr>) b4)"

definition notify_mdsmap :: "'c beacon_env \<Rightarrow> nat \<Rightarrow> 'c \<Rightarrow> 'c beacon \<Rightarrow> 'c beacon" where
  "notify_mdsmap e epoch map_compat b =
     b\<lparr>bc_epoch := epoch, bc_compat := bc_compat_merge e (bc_compat_default e) map_compat\<rparr>"

definition beacon_init :: "'c beacon_env \<Rightarrow> nat \<Rightarrow> 'c \<Rightarrow> int \<Rightarrow> mds_rank_t \<Rightarrow> string \<Rightarrow> 'c beacon \<Rightarrow> 'c beacon" where
  "beacon_init e epoch map_compat want rank nm b =
     (let b1 = notify_mdsmap e epoch map_compat (b\<lparr>want_state := want\<rparr>);
          b2 = b1\<lparr>standby_for_rank := rank, standby_for_name := nm\<rparr>
      in beacon_send e (bc_do TimerInit b2))"

definition beacon_shutdown :: "'c beacon \<Rightarrow> 'c beacon" where
  "beacon_shutdown b =
     (let b1 = (if bc_sender b then (bc_do TimerCancel b)\<lparr>bc_sender := False\<rparr> else b) in bc_do TimerShutdown b1)"

definition notify_want_state :: "int \<Rightarrow> 'c beacon \<Rightarrow> 'c beacon" where
  "notify_want_state s b = b\<lparr>want_state := s\<rparr>"

section \<open>Acknowledgements\<close>

fun drop_acked :: "version_t \<Rightarrow> (version_t \<times> utime_t) list \<Rightarrow> (version_t \<times> utime_t) list" where
  "drop_acked seq [] = []"
| "drop_acked seq (p # m) = (if fst p \<le> seq then drop_acked seq m else p # m)"

definition handle_mds_beacon :: "'c beacon_env \<Rightarrow> version_t \<Rightarrow> 'c beacon \<Rightarrow> 'c beacon option" where
  "handle_mds_beacon e seq b =
     (case map_of (seq_stamp b) seq of
        None \<Rightarrow> Some b
      | Some stamp \<Rightarrow> do {
          assert_that (stamp > last_acked_stamp b);
          let b1 = b\<lparr>last_acked_stamp := stamp\<rparr>;
          let rtt = bc_now e - stamp;
          let b2 = (if was_laggy b1 \<and> rtt < bc_beacon_grace e then b1\<lparr>was_laggy := False, laggy_until := bc_now e\<rparr> else b1);
          Some (b2\<lparr>seq_stamp := drop_acked seq (seq_stamp b2)\<rparr>) })"

text \<open>A beacon message of another daemon than a monitor is taken and ignored; the flag says whether the
  message was taken.\<close>

datatype beacon_in = BeaconAck bool version_t | OtherMsg

fun beacon_dispatch :: "'c beacon_env \<Rightarrow> beacon_in \<Rightarrow> 'c beacon \<Rightarrow> (bool \<times> 'c beacon) option" where
  "beacon_dispatch e (BeaconAck from_mon seq) b =
     (if from_mon then map_option (Pair True) (handle_mds_beacon e seq b) else Some (True, b))"
| "beacon_dispatch e OtherMsg b = Some (False, b)"

definition beacon_is_laggy :: "'c beacon_env \<Rightarrow> 'c beacon \<Rightarrow> bool \<times> 'c beacon" where
  "beacon_is_laggy e b =
     (if last_acked_stamp b = 0 then (False, b)
      else
        let since = bc_now e - last_acked_stamp b
        in if since > bc_beacon_grace e then
             let b1 = b\<lparr>was_laggy := True\<rparr>
             in (True, if since > bc_beacon_grace e * 2 \<and> bc_now e > last_mon_reconnect b1 + bc_beacon_interval e
                       then bc_do ReopenSession (b1\<lparr>last_mon_reconnect := bc_now e\<rparr>) else b1)
           else (False, b))"

definition get_laggy_until :: "'c beacon \<Rightarrow> utime_t" where
  "get_laggy_until b = laggy_until b"

section \<open>Health\<close>

text \<open>What is shown of the daemon: the length of the journal, the late clients in order with the name of
  their session if there is one, and the sessions with the time of a pending recall. How a number
  becomes a metadata string is declared with the metric, outside the sources (\<open>meta\<close>).\<close>

record session_view =
  sv_num :: nat
  sv_name :: string
  sv_recalled_at :: utime_t

record health_input =
  hi_num_segments :: nat
  hi_max_segments :: int
  hi_late_clients :: "(nat \<times> string option) list"
  hi_sessions :: "session_view list"
  hi_recall_timeout :: double
  hi_summarize_threshold :: int

definition size_t_of :: "int \<Rightarrow> nat" where
  "size_t_of n = nat (n mod 2 ^ 64)"

definition trim_metric :: "(int \<Rightarrow> string) \<Rightarrow> health_input \<Rightarrow> health_metric list" where
  "trim_metric meta i =
     (if hi_num_segments i > size_t_of (hi_max_segments i * 2)
      then [\<lparr>hm_kind = HEALTH_TRIM,
             hm_message = ''Behind on trimming ('' @ decimal (hi_num_segments i) @ ''/'' @ int_str (hi_max_segments i) @ '')'',
             hm_metadata = [(''max_segments'', meta (hi_max_segments i)), (''num_segments'', meta (int (hi_num_segments i)))]\<rparr>]
      else [])"

definition late_release_metrics :: "health_input \<Rightarrow> health_metric list" where
  "late_release_metrics i =
     concat (map (\<lambda>(c, s). case s of
        None \<Rightarrow> []
      | Some nm \<Rightarrow> [\<lparr>hm_kind = HEALTH_CLIENT_LATE_RELEASE,
                    hm_message = ''Client '' @ nm @ '' failing to respond to capability release'',
                    hm_metadata = [(''client_id'', decimal c)]\<rparr>]) (hi_late_clients i))"

definition late_recall_metrics :: "(int \<Rightarrow> string) \<Rightarrow> utime_t \<Rightarrow> health_input \<Rightarrow> health_metric list" where
  "late_recall_metrics meta now i =
     concat (map (\<lambda>s. if sv_recalled_at s \<noteq> 0 \<and> sv_recalled_at s < now - hi_recall_timeout i
        then [\<lparr>hm_kind = HEALTH_CLIENT_RECALL,
               hm_message = ''Client '' @ sv_name s @ '' failing to respond to cache pressure'',
               hm_metadata = [(''client_id'', meta (int (sv_num s)))]\<rparr>]
        else []) (hi_sessions i))"

text \<open>Up to the threshold every client is reported, beyond it one summary.\<close>

definition summarize :: "(int \<Rightarrow> string) \<Rightarrow> int \<Rightarrow> health_kind \<Rightarrow> string \<Rightarrow> health_metric list \<Rightarrow> health_metric list" where
  "summarize meta threshold kind what ms =
     (if length ms \<le> size_t_of threshold then ms
      else [\<lparr>hm_kind = kind, hm_message = ''Many clients ('' @ decimal (length ms) @ '') failing to respond to '' @ what,
             hm_metadata = [(''client_count'', meta (int (length ms)))]\<rparr>])"

definition notify_health :: "(int \<Rightarrow> string) \<Rightarrow> 'c beacon_env \<Rightarrow> bool \<Rightarrow> health_input \<Rightarrow> 'c beacon \<Rightarrow> 'c beacon option" where
  "notify_health meta e mds_locked i b =
     do { assert_that mds_locked;
          Some (b\<lparr>bc_health := trim_metric meta i @
             summarize meta (hi_summarize_threshold i) HEALTH_CLIENT_LATE_RELEASE_MANY ''capability release'' (late_release_metrics i) @
             summarize meta (hi_summarize_threshold i) HEALTH_CLIENT_RECALL_MANY ''cache pressure'' (late_recall_metrics meta (bc_now e) i)\<rparr>) }"

section \<open>Runs\<close>

text \<open>
  \<open>beacon_run b t S K\<close>: the beacon can be in state \<open>b\<close> at time \<open>t\<close>; \<open>S\<close> is the time at which each number was
  sent and \<open>K\<close> the set of sent numbers that have been acknowledged. The clock does not go back, it has
  advanced when a beacon is sent, and the numbers do not run out. What else is done to a beacon leaves
  this part of it alone.
\<close>

abbreviation ack_view :: "'c beacon \<Rightarrow> version_t \<times> (version_t \<times> utime_t) list \<times> utime_t" where
  "ack_view b \<equiv> (last_seq b, seq_stamp b, last_acked_stamp b)"

inductive beacon_run :: "'c beacon \<Rightarrow> utime_t \<Rightarrow> (version_t \<rightharpoonup> utime_t) \<Rightarrow> version_t set \<Rightarrow> bool" where
  run_start: "beacon_run (beacon_new null no_pref c0) 0 Map.empty {}"
| run_send: "beacon_run b t S K \<Longrightarrow> t < bc_now e \<Longrightarrow> last_seq b < -1 \<Longrightarrow>
     beacon_run (beacon_send e b) (bc_now e) (if bc_healthy e then S(last_seq b + 1 \<mapsto> bc_now e) else S) K"
| run_ack: "beacon_run b t S K \<Longrightarrow> t \<le> bc_now e \<Longrightarrow> handle_mds_beacon e seq b = Some b' \<Longrightarrow>
     beacon_run b' (bc_now e) S (if seq \<in> dom S then insert seq K else K)"
| run_check: "beacon_run b t S K \<Longrightarrow> t \<le> bc_now e \<Longrightarrow> beacon_run (snd (beacon_is_laggy e b)) (bc_now e) S K"
| run_other: "beacon_run b t S K \<Longrightarrow> ack_view b' = ack_view b \<Longrightarrow> beacon_run b' t S K"

lemma other_operations:
  "ack_view (notify_want_state s b) = ack_view b" "ack_view (notify_mdsmap e n c b) = ack_view b"
  "ack_view (beacon_shutdown b) = ack_view b" "notify_health meta e l i b = Some b' \<Longrightarrow> ack_view b' = ack_view b"
  "ack_view (snd (beacon_is_laggy e b)) = ack_view b"
  by (auto simp: notify_want_state_def notify_mdsmap_def beacon_shutdown_def notify_health_def beacon_is_laggy_def bc_do_def Let_def)

lemma beacon_send_view:
  "ack_view (beacon_send e b) = (if bc_healthy e then (last_seq b + 1, om_set (last_seq b + 1) (bc_now e) (seq_stamp b), last_acked_stamp b)
     else ack_view b)"
  by (simp add: beacon_send_def bc_do_def Let_def)

definition beacon_inv :: "'c beacon \<Rightarrow> utime_t \<Rightarrow> (version_t \<rightharpoonup> utime_t) \<Rightarrow> version_t set \<Rightarrow> bool" where
  "beacon_inv b t S K \<longleftrightarrow> om_ok (seq_stamp b) \<and> finite K \<and> K \<subseteq> dom S \<and> 0 \<le> t \<and>
     (\<forall>s u. S s = Some u \<longrightarrow> s \<le> last_seq b \<and> 0 < u \<and> u \<le> t) \<and>
     (\<forall>s s' u u'. S s = Some u \<longrightarrow> S s' = Some u' \<longrightarrow> s < s' \<longrightarrow> u < u') \<and>
     (\<forall>s. map_of (seq_stamp b) s = (if \<exists>k\<in>K. s \<le> k then None else S s)) \<and>
     last_acked_stamp b = (if K = {} then 0 else the (S (Max K)))"

lemma drop_acked_filter: "om_ok m \<Longrightarrow> drop_acked seq m = filter (\<lambda>p. seq < fst p) m"
proof (induction m)
  case (Cons p m)
  have "fst p \<le> fst q" if "q \<in> set m" for q using Cons.prems that by auto
  then have "\<forall>q\<in>set m. seq < fst q" if "seq < fst p" using that by fastforce
  then show ?case using Cons by (auto simp: not_le)
qed simp

lemma map_of_above: "map_of (filter (\<lambda>p. seq < fst p) m) s = (if seq < s then map_of m s else None)"
  by (induction m) auto

text \<open>The stamp of an outstanding number is later than that of every acknowledged one.\<close>

lemma outstanding_later:
  assumes inv: "beacon_inv b t S K" and s: "map_of (seq_stamp b) s = Some u"
  shows "S s = Some u" "\<forall>k\<in>K. k < s" "last_acked_stamp b < u"
proof -
  have m: "map_of (seq_stamp b) s = (if \<exists>k\<in>K. s \<le> k then None else S s)" using inv by (simp add: beacon_inv_def)
  with s show S: "S s = Some u" and K: "\<forall>k\<in>K. k < s" by (auto simp: not_le split: if_splits)
  show "last_acked_stamp b < u"
  proof (cases "K = {}")
    case True
    with inv S show ?thesis by (auto simp: beacon_inv_def)
  next
    case False
    then have "Max K \<in> K" using inv by (simp add: beacon_inv_def)
    moreover from this obtain v where "S (Max K) = Some v" using inv unfolding beacon_inv_def by blast
    ultimately show ?thesis using inv S K False unfolding beacon_inv_def by (metis option.sel)
  qed
qed

lemma acked_le:
  assumes "beacon_inv b t S K"
  shows "last_acked_stamp b \<le> t"
proof (cases "K = {}")
  case False
  then have "Max K \<in> K" using assms by (simp add: beacon_inv_def)
  then obtain u where "S (Max K) = Some u" using assms unfolding beacon_inv_def by blast
  with False assms show ?thesis unfolding beacon_inv_def by (metis option.sel)
qed (use assms in \<open>simp add: beacon_inv_def\<close>)

lemma ack_none:
  assumes inv: "beacon_inv b t S K" and s: "map_of (seq_stamp b) s = None" "s \<in> dom S"
  shows "\<exists>k\<in>K. s \<le> k"
  using assms by (auto simp: beacon_inv_def split: if_splits)

lemma Max_insert_below: "finite K \<Longrightarrow> k \<in> K \<Longrightarrow> s \<le> k \<Longrightarrow> Max (insert s K) = Max K"
  by (metis Max_ge Max_insert empty_iff max.absorb2 order_trans)

lemma beacon_run_inv: "beacon_run b t S K \<Longrightarrow> beacon_inv b t S K"
proof (induction rule: beacon_run.induct)
  case (run_start c0)
  show ?case by (simp add: beacon_inv_def beacon_new_def)
next
  case (run_send b t S K e)
  show ?case
  proof (cases "bc_healthy e")
    case False
    then have v: "ack_view (beacon_send e b) = ack_view b" by (simp add: beacon_send_view)
    have "u \<le> bc_now e" if "S s = Some u" for s u using run_send that unfolding beacon_inv_def by (meson less_imp_le order_trans)
    moreover have "0 \<le> bc_now e" using run_send unfolding beacon_inv_def by (meson less_imp_le order_trans)
    ultimately show ?thesis using run_send.IH v False by (simp add: beacon_inv_def)
  next
    case True
    let ?n = "last_seq b + 1"
    have v: "last_seq (beacon_send e b) = ?n" "seq_stamp (beacon_send e b) = om_set ?n (bc_now e) (seq_stamp b)"
      "last_acked_stamp (beacon_send e b) = last_acked_stamp b"
      using beacon_send_view [of e b] True by auto
    have n: "last_seq b < ?n" using run_send.hyps(3) by (rule word_less_Suc)
    note inv = run_send.IH [unfolded beacon_inv_def]
    have le: "s \<le> last_seq b" "0 < u" "u < bc_now e" if "S s = Some u" for s u
      using inv that run_send.hyps(2) by (metis order_le_less_trans)+
    have new: "S ?n = None" using le(1) n by (metis not_le option.exhaust)
    have K: "K \<subseteq> dom S" "finite K" using inv by auto
    have Kn: "k < ?n" if "k \<in> K" for k using that K le(1) n by (metis domD in_mono order_le_less_trans)
    have Sm: "(S(?n \<mapsto> bc_now e)) (Max K) = S (Max K)" if "K \<noteq> {}"
      using Kn [OF Max_in [OF K(2) that]] by auto
    show ?thesis
      unfolding beacon_inv_def v
    proof (intro conjI allI impI)
      show "om_ok (om_set ?n (bc_now e) (seq_stamp b))" using inv by simp
      show "finite K" "K \<subseteq> dom (if bc_healthy e then S(?n \<mapsto> bc_now e) else S)" using K by auto
      show "0 \<le> bc_now e" using inv run_send.hyps(2) by (meson less_imp_le order_trans)
      fix s u assume s: "(if bc_healthy e then S(?n \<mapsto> bc_now e) else S) s = Some u"
      have "S s = Some u \<Longrightarrow> s \<le> ?n \<and> 0 < u \<and> u \<le> bc_now e" using le n by (meson less_imp_le order_trans)
      moreover have "0 < bc_now e" using inv run_send.hyps(2) by (meson order_le_less_trans)
      ultimately show "s \<le> ?n" "0 < u" "u \<le> bc_now e" using s True by (auto split: if_splits)
      fix s' u' assume s': "(if bc_healthy e then S(?n \<mapsto> bc_now e) else S) s' = Some u'" "s < s'"
      have "s \<noteq> ?n"
      proof
        assume "s = ?n"
        with s' True have "S s' = Some u'" "?n < s'" by (auto split: if_splits)
        from le(1) [OF this(1)] this(2) n show False by (meson leD less_trans)
      qed
      then show "u < u'" using s s' True le(3) inv by (auto split: if_splits)
    next
      fix s show "map_of (om_set ?n (bc_now e) (seq_stamp b)) s = (if \<exists>k\<in>K. s \<le> k then None else (if bc_healthy e then S(?n \<mapsto> bc_now e) else S) s)"
        using inv True Kn by (auto simp: not_le dest: leD)
      show "last_acked_stamp b = (if K = {} then 0 else the ((if bc_healthy e then S(?n \<mapsto> bc_now e) else S) (Max K)))"
        using inv True Sm by auto
    qed
  qed
next
  case (run_ack b t S K e seq b')
  note inv = run_ack.IH [unfolded beacon_inv_def]
  have up: "u \<le> bc_now e" if "S s = Some u" for s u using inv that run_ack.hyps(2) by (metis order_trans)
  have nn: "0 \<le> bc_now e" using inv run_ack.hyps(2) by (meson order_trans)
  show ?case
  proof (cases "map_of (seq_stamp b) seq")
    case None
    then have b': "b' = b" using run_ack.hyps(3) by (simp add: handle_mds_beacon_def)
    show ?thesis
    proof (cases "seq \<in> dom S")
      case False
      with inv up nn b' show ?thesis by (simp add: beacon_inv_def)
    next
      case True
      with ack_none [OF run_ack.IH None] obtain k where k: "k \<in> K" "seq \<le> k" by blast
      then have "(\<exists>k\<in>insert seq K. s \<le> k) \<longleftrightarrow> (\<exists>k\<in>K. s \<le> k)" for s by (auto intro: order_trans)
      with k inv up nn b' True Max_insert_below [of K k seq] show ?thesis by (auto simp: beacon_inv_def)
    qed
  next
    case (Some u)
    note o = outstanding_later [OF run_ack.IH Some]
    have v: "ack_view b' = (last_seq b, drop_acked seq (seq_stamp b), u)"
      using run_ack.hyps(3) Some by (auto simp: handle_mds_beacon_def Let_def split: if_splits)
    have K: "finite K" "seq \<in> dom S" using inv o(1) by auto
    have M: "Max (insert seq K) = seq" using o(2) K(1) by (intro Max_eqI) (auto intro: less_imp_le)
    have "map_of (seq_stamp b') s = (if \<exists>k\<in>insert seq K. s \<le> k then None else S s)" for s
      using v inv o(2) by (auto simp: drop_acked_filter map_of_above not_le dest: order_le_less_trans)
    then show ?thesis
      using v inv up nn K M o(1) by (auto simp: beacon_inv_def drop_acked_filter)
  qed
next
  case (run_check b t S K e)
  then show ?case using other_operations(5) [of e b] by (auto simp: beacon_inv_def dest: order_trans)
next
  case (run_other b t S K b')
  then show ?case by (auto simp: beacon_inv_def)
qed

section \<open>Properties\<close>

text \<open>C40: What the beacon knows is what it should know. Along every run with a clock that advances between
  two beacons, an acknowledgement never fails an assertion; the outstanding numbers are exactly those
  sent after the newest acknowledged one, with their times; and the daemon takes itself for laggy exactly
  when a beacon has been acknowledged and the newest one that was, was sent longer ago than the grace
  period.\<close>

theorem beacon_refines:
  assumes "beacon_run b t S K" "t \<le> bc_now e"
  shows "(\<exists>b'. handle_mds_beacon e seq b = Some b') \<and>
    (\<forall>s. map_of (seq_stamp b) s = (if \<exists>k\<in>K. s \<le> k then None else S s)) \<and>
    (fst (beacon_is_laggy e b) \<longleftrightarrow> K \<noteq> {} \<and> bc_now e - the (S (Max K)) > bc_beacon_grace e)"
proof -
  have inv: "beacon_inv b t S K" by (rule beacon_run_inv [OF assms(1)])
  have ack: "\<exists>b'. handle_mds_beacon e seq b = Some b'"
    using outstanding_later(3) [OF inv, of seq] by (cases "map_of (seq_stamp b) seq") (auto simp: handle_mds_beacon_def Let_def)
  have pos: "0 < the (S (Max K))" if "K \<noteq> {}"
  proof -
    have "Max K \<in> K" using inv that by (simp add: beacon_inv_def)
    then obtain u where "S (Max K) = Some u" using inv unfolding beacon_inv_def by blast
    with inv show ?thesis unfolding beacon_inv_def by (metis option.sel)
  qed
  have "last_acked_stamp b = (if K = {} then 0 else the (S (Max K)))" using inv by (simp add: beacon_inv_def)
  then have "fst (beacon_is_laggy e b) \<longleftrightarrow> K \<noteq> {} \<and> bc_now e - the (S (Max K)) > bc_beacon_grace e"
    using pos by (cases "K = {}") (simp_all add: beacon_is_laggy_def Let_def)
  with ack inv show ?thesis by (simp add: beacon_inv_def)
qed

definition plain_beacon_env :: "utime_t \<Rightarrow> unit beacon_env" where
  "plain_beacon_env t = \<lparr>bc_now = t, bc_beacon_interval = 4, bc_beacon_grace = 15, bc_healthy = True,
     bc_compat_default = (), bc_compat_merge = (\<lambda>a b. ())\<rparr>"

lemma beacon_example:
  "\<exists>b :: unit beacon. beacon_run b 9 [1 \<mapsto> 4, 2 \<mapsto> 8] {1}"
proof -
  have w: "(0 :: version_t) < -1" "(1 :: version_t) < -1" by code_simp+
  let ?e = "plain_beacon_env"
  let ?b2 = "beacon_send (?e 8) (beacon_send (?e 4) (beacon_new (-1) (-1) ()))"
  have "beacon_run (beacon_new (-1) (-1) ()) 0 Map.empty {}" by (rule run_start)
  from run_send [OF this, of "?e 4"] have "beacon_run (beacon_send (?e 4) (beacon_new (-1) (-1) ())) 4 [1 \<mapsto> 4] {}"
    using w by (simp add: plain_beacon_env_def beacon_new_def)
  from run_send [OF this, of "?e 8"] have r: "beacon_run ?b2 8 [1 \<mapsto> 4, 2 \<mapsto> 8] {}"
    using w by (simp add: plain_beacon_env_def beacon_new_def beacon_send_def bc_do_def Let_def)
  obtain b' where "handle_mds_beacon (?e 9) 1 ?b2 = Some b'"
    using outstanding_later(3) [OF beacon_run_inv [OF r], of 1]
    by (cases "map_of (seq_stamp ?b2) 1") (auto simp: handle_mds_beacon_def Let_def)
  from run_ack [OF r _ this] show ?thesis by (auto simp: plain_beacon_env_def)
qed

theorem beacon_refines_witness:
  "\<exists>b :: unit beacon. beacon_run b 9 [1 \<mapsto> 4, 2 \<mapsto> 8] {1} \<and> map_of (seq_stamp b) 1 = None \<and> map_of (seq_stamp b) 2 = Some 8 \<and>
     fst (beacon_is_laggy (plain_beacon_env 20) b) \<and> \<not> fst (beacon_is_laggy (plain_beacon_env 19) b)"
proof -
  obtain b :: "unit beacon" where b: "beacon_run b 9 [1 \<mapsto> 4, 2 \<mapsto> 8] {1}" using beacon_example by blast
  have t: "bc_now (plain_beacon_env t) = t" "bc_beacon_grace (plain_beacon_env t) = 15" for t by (simp_all add: plain_beacon_env_def)
  have "map_of (seq_stamp b) s = (if \<exists>k\<in>{1}. s \<le> k then None else [1 \<mapsto> 4, 2 \<mapsto> 8] s)" for s
    using beacon_refines [OF b, of "plain_beacon_env 20"] t by auto
  moreover have "\<not> (2 :: version_t) \<le> 1" by code_simp
  ultimately have "map_of (seq_stamp b) 1 = None" "map_of (seq_stamp b) 2 = Some 8" by simp_all
  moreover have "fst (beacon_is_laggy (plain_beacon_env 20) b)" "\<not> fst (beacon_is_laggy (plain_beacon_env 19) b)"
    using beacon_refines [OF b, of "plain_beacon_env 20"] beacon_refines [OF b, of "plain_beacon_env 19"] t by auto
  ultimately show ?thesis using b by blast
qed

text \<open>The clock matters: if it has not advanced between two beacons, because it stood still or was set
  back, and both are acknowledged in order, the second acknowledgement fails the assertion and the
  daemon aborts.\<close>

lemma beacon_clock_back_aborts:
  assumes "beacon_run b t S K" "t < bc_now e1" "bc_now e2 \<le> bc_now e1" "bc_healthy e1" "bc_healthy e2" "last_seq b < -2"
  shows "\<exists>b1. handle_mds_beacon e (last_seq b + 1) (beacon_send e2 (beacon_send e1 b)) = Some b1 \<and>
    handle_mds_beacon e (last_seq b + 2) b1 = None"
proof -
  let ?n = "last_seq b + 1" and ?b2 = "beacon_send e2 (beacon_send e1 b)"
  have lt: "last_seq b < -1" using assms(6) by (rule less_trans) simp
  have n: "last_seq b < ?n" by (rule word_less_Suc [OF lt])
  have "?n \<noteq> -1"
  proof
    assume "?n = -1"
    then have "last_seq b = -1 - 1" by (metis add_diff_cancel_right')
    with assms(6) show False by simp
  qed
  then have "?n < -1" by (simp only: word_order.not_eq_extremum)
  from word_less_Suc [OF this] have n2: "?n < ?n + 1" .
  have inv: "beacon_inv b t S K" by (rule beacon_run_inv [OF assms(1)])
  then have ok: "om_ok (seq_stamp b)" by (simp add: beacon_inv_def)
  have v: "seq_stamp ?b2 = om_set (?n + 1) (bc_now e2) (om_set ?n (bc_now e1) (seq_stamp b))" "last_acked_stamp ?b2 = last_acked_stamp b"
    using beacon_send_view [of e1 b] beacon_send_view [of e2 "beacon_send e1 b"] assms(4,5) by auto
  let ?m = "om_set (?n + 1) (bc_now e2) (om_set ?n (bc_now e1) (seq_stamp b))"
  have m: "om_ok ?m" "map_of ?m ?n = Some (bc_now e1)" "map_of ?m (?n + 1) = Some (bc_now e2)" using ok n2 by auto
  have "last_acked_stamp b < bc_now e1" using acked_le [OF inv] assms(2) by (rule order_le_less_trans)
  then obtain b1 where b1: "handle_mds_beacon e ?n ?b2 = Some b1" "last_acked_stamp b1 = bc_now e1" "seq_stamp b1 = drop_acked ?n ?m"
    using m v by (auto simp: handle_mds_beacon_def Let_def)
  have "map_of (seq_stamp b1) (?n + 1) = Some (bc_now e2)"
    using m n2 unfolding b1(3) by (simp only: drop_acked_filter map_of_above if_True)
  then have "handle_mds_beacon e (?n + 1) b1 = None" using assms(3) b1(2) by (simp add: handle_mds_beacon_def)
  moreover have "?n + 1 = last_seq b + 2" by simp
  ultimately show ?thesis using b1(1) by auto
qed

lemma beacon_clock_back_aborts_witness:
  "\<exists>b1. handle_mds_beacon (plain_beacon_env 5) 1 (beacon_send (plain_beacon_env 3) (beacon_send (plain_beacon_env 4) (beacon_new (-1) (-1) ()))) = Some b1 \<and>
     handle_mds_beacon (plain_beacon_env 5) 2 b1 = None"
proof -
  have r: "beacon_run (beacon_new (-1) (-1) ()) 0 Map.empty {}" by (rule run_start)
  have "(0 :: version_t) < -2" by code_simp
  then show ?thesis
    using beacon_clock_back_aborts [OF r, of "plain_beacon_env 4" "plain_beacon_env 3" "plain_beacon_env 5"]
    by (simp add: plain_beacon_env_def beacon_new_def)
qed

lemma summarize_length: "length (summarize meta thr kind what ms) \<le> max (size_t_of thr) 1"
  by (auto simp: summarize_def max_def)

text \<open>The health report stays short: whatever the number of clients, a beacon carries at most one
  metric on trimming and, for each of the two conditions on clients, as many as the threshold of the
  summary allows, or the summary alone.\<close>

lemma health_report_bounded:
  assumes "notify_health meta e mds_locked i b = Some b'" "0 \<le> hi_summarize_threshold i" "hi_summarize_threshold i < 2 ^ 64"
  shows "length (bc_health b') \<le> 1 + 2 * nat (max (hi_summarize_threshold i) 1)"
proof -
  let ?n = "hi_summarize_threshold i"
  have t: "size_t_of ?n = nat ?n" using assms(2,3) by (simp add: size_t_of_def)
  have m: "length (trim_metric meta i) \<le> 1" by (simp add: trim_metric_def)
  have s: "length (summarize meta ?n k w ms) \<le> nat (max ?n 1)" for k w ms
    using summarize_length [of meta ?n k w ms] unfolding t by (auto simp: max_def split: if_splits)
  obtain k1 w1 m1 k2 w2 m2 where
    "bc_health b' = trim_metric meta i @ summarize meta ?n k1 w1 m1 @ summarize meta ?n k2 w2 m2"
    using assms(1) by (auto simp: notify_health_def split: if_splits)
  then show ?thesis using m s [of k1 w1 m1] s [of k2 w2 m2] by simp
qed

lemma health_report_bounded_witness:
  "\<exists>b'. notify_health int_str (plain_beacon_env 100) True
      \<lparr>hi_num_segments = 80, hi_max_segments = 30, hi_late_clients = [(4, Some ''a''), (5, None)],
       hi_sessions = [], hi_recall_timeout = 60, hi_summarize_threshold = 10\<rparr> (beacon_new (-1) (-1) ()) = Some b' \<and>
     length (bc_health b') = 2 \<and> length (bc_health b') \<le> 21"
proof -
  let ?i = "\<lparr>hi_num_segments = 80, hi_max_segments = 30, hi_late_clients = [(4, Some ''a''), (5, None)],
       hi_sessions = [], hi_recall_timeout = 60, hi_summarize_threshold = 10\<rparr>"
  obtain b' where b': "notify_health int_str (plain_beacon_env 100) True ?i (beacon_new (-1) (-1) ()) = Some b'"
    by (simp add: notify_health_def)
  moreover have "length (bc_health b') = 2"
    using b' by (auto simp: notify_health_def trim_metric_def size_t_of_def summarize_def late_release_metrics_def late_recall_metrics_def)
  ultimately show ?thesis using health_report_bounded [OF b'] by auto
qed

end
