(* ===== verification/Subtree_Map.thy ===== *)
theory Subtree_Map
  imports CDir_Frame
begin

text \<open>
  The subtree map of \<^verbatim>\<open>MDCache\<close> (\<^verbatim>\<open>src/src/mds/MDCache.cc\<close>): which directory fragments are the roots of
  subtrees, who is responsible for each, and the bounds where nested subtrees begin.

  The directory objects live in a store, \<open>mc_dirs\<close>, by address; the operations on them are those of
  the component \<^verbatim>\<open>CDir\<close>. Where the inode of a directory is linked is known to the inode alone, whose class is
  outside the sources: \<open>me_up e d\<close> is the chain of directories one meets climbing from \<open>d\<close> with
  \<^verbatim>\<open>get_parent_dir\<close>, nearest first; the chain is finite because the hierarchy has no cycle. \<open>me_base\<close> and
  \<open>me_inode_authority\<close> are \<^verbatim>\<open>CInode::is_base\<close> and \<^verbatim>\<open>CInode::authority\<close>; the latter depends on the authorities
  of the directories. What is called on the inode, the locker and the journal is recorded in \<open>mc_log\<close>.
\<close>

section \<open>State\<close>

type_synonym dir_ptr = nat

datatype mdc_call =
    TryEval dir_ptr | InodeAuthPin dir_ptr | InodeAuthUnpin dir_ptr | ProjectInode dir_ptr
  | StartEntry string | AddDirContext dir_ptr | JournalDirtyInode dir_ptr | SubmitEntry dir_ptr | JournalFlush
  | PopProjectedInode dir_ptr | MutationApply | DropLocks | MutationCleanup

record mdc_env =
  me_up :: "dir_ptr \<Rightarrow> dir_ptr list"
  me_projected_up :: "dir_ptr \<Rightarrow> dir_ptr list"
  me_base :: "dir_ptr \<Rightarrow> bool"
  me_inode_authority :: "(dir_ptr \<Rightarrow> mds_authority_t) \<Rightarrow> dir_ptr \<Rightarrow> mds_authority_t"
  me_can_auth_pin :: "dir_ptr \<Rightarrow> bool"
  me_api :: dir_api
  me_now :: utime_t
  me_decayrate :: double
  me_any_replay :: bool
  me_resolve :: bool
  me_clientreplay :: bool
  me_active :: bool
  me_stopping :: bool

record mdcache =
  mc_dirs :: "dir_ptr \<Rightarrow> cdir"
  mc_subtrees :: "(dir_ptr \<times> dir_ptr list) list"
  mc_renames :: "(nat \<times> (dir_ptr \<times> dir_ptr) list) list"
  mc_log :: "mdc_call list"

definition mc_do :: "mdc_call \<Rightarrow> mdcache \<Rightarrow> mdcache" where
  "mc_do x m = m\<lparr>mc_log := mc_log m @ [x]\<rparr>"

definition on_dir :: "dir_ptr \<Rightarrow> (cdir \<Rightarrow> cdir option) \<Rightarrow> mdcache \<Rightarrow> mdcache option" where
  "on_dir d f m = do { c \<leftarrow> f (mc_dirs m d); Some (m\<lparr>mc_dirs := (mc_dirs m)(d := c)\<rparr>) }"

text \<open>\<^verbatim>\<open>subtrees.count(d)\<close>, \<^verbatim>\<open>subtrees[d]\<close> and what is done to the set it denotes; \<open>sub_touch\<close> is the entry
  the subscript creates when there is none.\<close>

definition is_subtree :: "dir_ptr \<Rightarrow> mdcache \<Rightarrow> bool" where
  "is_subtree d m \<longleftrightarrow> map_of (mc_subtrees m) d \<noteq> None"

definition sub_bounds :: "dir_ptr \<Rightarrow> mdcache \<Rightarrow> dir_ptr list" where
  "sub_bounds d m = om_get [] d (mc_subtrees m)"

definition put_bounds :: "dir_ptr \<Rightarrow> dir_ptr list \<Rightarrow> mdcache \<Rightarrow> mdcache" where
  "put_bounds d bs m = m\<lparr>mc_subtrees := om_set d bs (mc_subtrees m)\<rparr>"

definition sub_touch :: "dir_ptr \<Rightarrow> mdcache \<Rightarrow> mdcache" where
  "sub_touch d m = (if is_subtree d m then m else put_bounds d [] m)"

definition add_bound :: "dir_ptr \<Rightarrow> dir_ptr \<Rightarrow> mdcache \<Rightarrow> mdcache" where
  "add_bound r x m = put_bounds r (os_insert x (sub_bounds r m)) m"

definition del_bound :: "dir_ptr \<Rightarrow> dir_ptr \<Rightarrow> mdcache \<Rightarrow> mdcache" where
  "del_bound r x m = put_bounds r (removeAll x (sub_bounds r m)) m"

definition erase_subtree :: "dir_ptr \<Rightarrow> mdcache \<Rightarrow> mdcache" where
  "erase_subtree d m = m\<lparr>mc_subtrees := om_erase d (mc_subtrees m)\<rparr>"

section \<open>Finding the sroot of a subtree\<close>

definition dir_root :: "mdcache \<Rightarrow> dir_ptr \<Rightarrow> bool" where
  "dir_root m d \<longleftrightarrow> is_subtree_root (mc_dirs m d)"

definition get_parent_dir :: "mdc_env \<Rightarrow> dir_ptr \<Rightarrow> dir_ptr option" where
  "get_parent_dir e d = (case me_up e d of [] \<Rightarrow> None | p # _ \<Rightarrow> Some p)"

definition get_subtree_root :: "mdc_env \<Rightarrow> mdcache \<Rightarrow> dir_ptr \<Rightarrow> dir_ptr option" where
  "get_subtree_root e m d = find (dir_root m) (d # me_up e d)"

definition get_projected_subtree_root :: "mdc_env \<Rightarrow> mdcache \<Rightarrow> dir_ptr \<Rightarrow> dir_ptr option" where
  "get_projected_subtree_root e m d = find (dir_root m) (d # me_projected_up e d)"

text \<open>\<^verbatim>\<open>get_subtree_root(d->get_parent_dir())\<close> where the result is used: \<open>None\<close> when one of the two is null.\<close>

definition parent_root :: "mdc_env \<Rightarrow> mdcache \<Rightarrow> dir_ptr \<Rightarrow> dir_ptr option" where
  "parent_root e m d = do { p \<leftarrow> get_parent_dir e d; get_subtree_root e m p }"

definition dir_authority :: "mdc_env \<Rightarrow> mdcache \<Rightarrow> dir_ptr \<Rightarrow> mds_authority_t" where
  "dir_authority e m d =
     (if dir_root m d then dir_auth (mc_dirs m d) else me_inode_authority e (\<lambda>x. dir_auth (mc_dirs m x)) d)"

section \<open>Changing the authority\<close>

definition eval_subtree_root :: "dir_ptr \<Rightarrow> mdcache \<Rightarrow> mdcache" where
  "eval_subtree_root d m = (if iv_auth (cd_inode (mc_dirs m d)) then mc_do (TryEval d) m else m)"

definition no_eval :: "mdc_env \<Rightarrow> bool" where
  "no_eval e \<longleftrightarrow> me_any_replay e \<or> me_resolve e"

text \<open>The bounds of the old root that lie beneath the new one move under it.\<close>

fun claim_bounds :: "mdc_env \<Rightarrow> dir_ptr \<Rightarrow> dir_ptr \<Rightarrow> dir_ptr list \<Rightarrow> mdcache \<Rightarrow> mdcache option" where
  "claim_bounds e dir sroot [] m = Some m"
| "claim_bounds e dir sroot (p # ps) m =
     do { q \<leftarrow> get_parent_dir e p;
          claim_bounds e dir sroot ps
            (if get_subtree_root e m q = Some dir then del_bound sroot p (add_bound dir p m) else m) }"

text \<open>The popularity of the directory leaves, or enters, its ancestors up to the next subtree root.\<close>

fun pop_walk :: "(decay_counter list \<Rightarrow> decay_counter list \<Rightarrow> decay_counter list \<times> decay_counter list) \<Rightarrow>
    dir_ptr \<Rightarrow> dir_ptr list \<Rightarrow> mdcache \<Rightarrow> mdcache" where
  "pop_walk f d [] m = m"
| "pop_walk f d (p # ps) m =
     (let (n, r) = f (pop_auth_subtree (mc_dirs m p)) (pop_auth_subtree (mc_dirs m d));
          dirs1 = (mc_dirs m)(p := (mc_dirs m p)\<lparr>pop_auth_subtree := n\<rparr>);
          m1 = m\<lparr>mc_dirs := dirs1(d := (dirs1 d)\<lparr>pop_auth_subtree := r\<rparr>)\<rparr>
      in if dir_root m1 p then m1 else pop_walk f d ps m1)"

definition pop_sub :: "mdc_env \<Rightarrow> dir_ptr \<Rightarrow> mdcache \<Rightarrow> mdcache" where
  "pop_sub e d m =
     (if is_auth (mc_dirs m d) then pop_walk (dirfrag_load_sub (me_api e) (me_now e) (me_decayrate e)) d (me_up e d) m else m)"

definition pop_add :: "mdc_env \<Rightarrow> dir_ptr \<Rightarrow> mdcache \<Rightarrow> mdcache" where
  "pop_add e d m =
     (if is_auth (mc_dirs m d) then pop_walk (dirfrag_load_add (me_api e) (me_now e) (me_decayrate e)) d (me_up e d) m else m)"

text \<open>The part common to the two adjustments: \<open>boot\<close> says that the directory is where the hierarchy
  starts. The result tells whether the directory became a subtree.\<close>

definition set_subtree_auth :: "mdc_env \<Rightarrow> bool \<Rightarrow> dir_ptr \<Rightarrow> mds_authority_t \<Rightarrow> mdcache \<Rightarrow> (bool \<times> mdcache) option" where
  "set_subtree_auth e boot dir auth m =
     do { m1 \<leftarrow> (if boot \<and> \<not> is_subtree dir m then on_dir dir (dget PIN_SUBTREE) (put_bounds dir [] m) else Some m);
          sroot \<leftarrow> (if boot then Some dir else get_subtree_root e m1 dir);
          assert_that (is_subtree sroot m1);
          if sroot = dir then do { m2 \<leftarrow> on_dir dir (set_dir_auth auth) m1; Some (False, m2) }
          else do {
            assert_that (\<not> is_subtree dir m1);
            m2 \<leftarrow> on_dir dir (dget PIN_SUBTREE) (put_bounds dir [] m1);
            m3 \<leftarrow> on_dir dir (set_dir_auth auth) m2;
            m4 \<leftarrow> claim_bounds e dir sroot (sub_bounds sroot m3) m3;
            Some (True, add_bound sroot dir m4) } }"

definition adjust_subtree_auth :: "mdc_env \<Rightarrow> dir_ptr \<Rightarrow> mds_authority_t \<Rightarrow> bool \<Rightarrow> mdcache \<Rightarrow> mdcache option" where
  "adjust_subtree_auth e dir auth do_eval m =
     do { (new, m1) \<leftarrow> set_subtree_auth e (me_base e dir) dir auth m;
          Some (if new then
                  let m2 = pop_sub e dir m1
                  in if do_eval \<and> \<not> no_eval e then eval_subtree_root dir m2 else m2
                else m1) }"

section \<open>Merging subtrees\<close>

text \<open>A merge is journaled, so that changes of the fragmentation reach the disk before the fragments are
  closed.\<close>

definition merge_writebehind :: "mdc_env \<Rightarrow> dir_ptr \<Rightarrow> mdcache \<Rightarrow> mdcache" where
  "merge_writebehind e d m =
     (if iv_auth (cd_inode (mc_dirs m d)) \<and> me_can_auth_pin e d \<and> (me_clientreplay e \<or> me_active e \<or> me_stopping e)
      then fold mc_do [InodeAuthPin d, ProjectInode d, StartEntry ''subtree merge writebehind'',
             AddDirContext d, JournalDirtyInode d, SubmitEntry d, JournalFlush] m
      else m)"

definition subtree_merge_writebehind_finish :: "dir_ptr \<Rightarrow> mdcache \<Rightarrow> mdcache" where
  "subtree_merge_writebehind_finish d m =
     fold mc_do [PopProjectedInode d, MutationApply, DropLocks, MutationCleanup, InodeAuthUnpin d] m"

definition try_subtree_merge_at :: "mdc_env \<Rightarrow> dir_ptr \<Rightarrow> bool \<Rightarrow> mdcache \<Rightarrow> mdcache option" where
  "try_subtree_merge_at e dir do_eval m =
     do { assert_that (is_subtree dir m);
          parent \<leftarrow> (if me_base e dir then Some dir else parent_root e m dir);
          if parent \<noteq> dir \<and> dir_auth (mc_dirs m parent) = dir_auth (mc_dirs m dir) \<and>
             snd (dir_auth (mc_dirs m dir)) = CDIR_AUTH_UNKNOWN \<and> \<not> state_test STATE_EXPORTBOUND (mc_dirs m dir)
          then do {
            m1 \<leftarrow> on_dir dir (set_dir_auth CDIR_AUTH_DEFAULT) m;
            let m2 = fold (add_bound parent) (sub_bounds dir m1) m1;
            m3 \<leftarrow> on_dir dir (dput PIN_SUBTREE) m2;
            let m4 = del_bound parent dir (erase_subtree dir m3);
            let m5 = pop_add e dir m4;
            let m6 = (if do_eval \<and> \<not> no_eval e then eval_subtree_root dir m5 else m5);
            Some (merge_writebehind e dir m6) }
          else Some m }"

text \<open>\<open>each_dir\<close> runs over a list of directories.\<close>

fun each_dir :: "(dir_ptr \<Rightarrow> mdcache \<Rightarrow> mdcache option) \<Rightarrow> dir_ptr list \<Rightarrow> mdcache \<Rightarrow> mdcache option" where
  "each_dir f [] m = Some m"
| "each_dir f (d # ds) m = do { m1 \<leftarrow> f d m; each_dir f ds m1 }"

definition try_subtree_merge :: "mdc_env \<Rightarrow> dir_ptr \<Rightarrow> mdcache \<Rightarrow> mdcache option" where
  "try_subtree_merge e dir m =
     do { assert_that (is_subtree dir m);
          let oldbounds = sub_bounds dir m;
          m1 \<leftarrow> try_subtree_merge_at e dir True m;
          each_dir (\<lambda>p. try_subtree_merge_at e p True) oldbounds m1 }"

section \<open>Reading the map\<close>

definition remove_subtree :: "mdc_env \<Rightarrow> dir_ptr \<Rightarrow> mdcache \<Rightarrow> mdcache option" where
  "remove_subtree e dir m =
     do { assert_that (is_subtree dir m);
          assert_that (sub_bounds dir m = []);
          m1 \<leftarrow> on_dir dir (dput PIN_SUBTREE) (erase_subtree dir m);
          case get_parent_dir e dir of
            None \<Rightarrow> Some m1
          | Some q \<Rightarrow> do { p \<leftarrow> get_subtree_root e m1 q;
                          assert_that (dir \<in> set (sub_bounds p m1));
                          Some (del_bound p dir m1) } }"

definition list_subtrees :: "mdcache \<Rightarrow> dir_ptr list" where
  "list_subtrees m = map fst (mc_subtrees m)"

definition is_leaf_subtree :: "dir_ptr \<Rightarrow> mdcache \<Rightarrow> bool option" where
  "is_leaf_subtree d m = do { assert_that (is_subtree d m); Some (sub_bounds d m = []) }"

definition get_subtree_bounds :: "dir_ptr \<Rightarrow> mdcache \<Rightarrow> dir_ptr list option" where
  "get_subtree_bounds d m = do { assert_that (is_subtree d m); Some (sub_bounds d m) }"

text \<open>The climb from a bound \<open>p\<close> to the root; it goes on after it met \<open>dir\<close>.\<close>

fun climb_past :: "dir_ptr \<Rightarrow> dir_ptr \<Rightarrow> dir_ptr \<Rightarrow> dir_ptr list \<Rightarrow> dir_ptr \<Rightarrow> dir_ptr list \<Rightarrow> dir_ptr list option" where
  "climb_past dir sroot p up t bounds =
     (if t = sroot then Some bounds
      else case up of
        [] \<Rightarrow> None
      | t1 # up1 \<Rightarrow> climb_past dir sroot p up1 t1 (if t1 = dir then os_insert p bounds else bounds))"

fun wouldbe_bounds :: "mdc_env \<Rightarrow> dir_ptr \<Rightarrow> dir_ptr \<Rightarrow> dir_ptr list \<Rightarrow> dir_ptr list \<Rightarrow> dir_ptr list option" where
  "wouldbe_bounds e dir sroot [] bounds = Some bounds"
| "wouldbe_bounds e dir sroot (p # ps) bounds =
     do { b1 \<leftarrow> climb_past dir sroot p (me_up e p) p bounds; wouldbe_bounds e dir sroot ps b1 }"

definition get_wouldbe_subtree_bounds :: "mdc_env \<Rightarrow> dir_ptr \<Rightarrow> mdcache \<Rightarrow> dir_ptr list option" where
  "get_wouldbe_subtree_bounds e dir m =
     (if is_subtree dir m then get_subtree_bounds dir m
      else do { sroot \<leftarrow> get_subtree_root e m dir; wouldbe_bounds e dir sroot (sub_bounds sroot m) [] })"

definition verify_subtree_bounds :: "dir_ptr \<Rightarrow> dir_ptr list \<Rightarrow> mdcache \<Rightarrow> unit option" where
  "verify_subtree_bounds d bounds m = do { assert_that (is_subtree d m); assert_that (bounds = sub_bounds d m) }"

definition get_fullauth_subtrees :: "mdcache \<Rightarrow> dir_ptr list \<Rightarrow> dir_ptr list" where
  "get_fullauth_subtrees m s =
     fold (\<lambda>p s. if is_full_dir_auth (mc_dirs m (fst p)) then os_insert (fst p) s else s) (mc_subtrees m) s"

definition get_auth_subtrees :: "mdcache \<Rightarrow> dir_ptr list \<Rightarrow> dir_ptr list" where
  "get_auth_subtrees m s =
     fold (\<lambda>p s. if is_auth (mc_dirs m (fst p)) then os_insert (fst p) s else s) (mc_subtrees m) s"

definition num_subtrees :: "mdcache \<Rightarrow> nat" where
  "num_subtrees m = length (mc_subtrees m)"

definition num_subtrees_fullauth :: "mdcache \<Rightarrow> nat" where
  "num_subtrees_fullauth m = length (filter (\<lambda>p. is_full_dir_auth (mc_dirs m (fst p))) (mc_subtrees m))"

definition num_subtrees_fullnonauth :: "mdcache \<Rightarrow> nat" where
  "num_subtrees_fullnonauth m = length (filter (\<lambda>p. is_full_dir_nonauth (mc_dirs m (fst p))) (mc_subtrees m))"

section \<open>Chains of ancestors\<close>

text \<open>The chain of a parent is the rest of the chain.\<close>

definition up_ok :: "('a \<Rightarrow> 'a list) \<Rightarrow> bool" where
  "up_ok up \<longleftrightarrow> (\<forall>x p ps. up x = p # ps \<longrightarrow> up p = ps)"

lemma find_split: "find P xs = Some y \<Longrightarrow> \<exists>us vs. xs = us @ y # vs \<and> P y \<and> (\<forall>u\<in>set us. \<not> P u)"
proof (induction xs)
  case (Cons x xs)
  show ?case
  proof (cases "P x")
    case True
    with Cons.prems have "x # xs = [] @ y # xs \<and> P y \<and> (\<forall>u\<in>set []. \<not> P u)" by simp
    then show ?thesis by blast
  next
    case False
    with Cons obtain us vs where "xs = us @ y # vs" "P y" "\<forall>u\<in>set us. \<not> P u" by auto
    with False have "x # xs = (x # us) @ y # vs \<and> P y \<and> (\<forall>u\<in>set (x # us). \<not> P u)" by simp
    then show ?thesis by blast
  qed
qed simp

lemma find_none: "find P xs = None \<longleftrightarrow> (\<forall>x\<in>set xs. \<not> P x)"
  by (induction xs) auto

lemma find_app: "find P (xs @ ys) = (case find P xs of None \<Rightarrow> find P ys | Some y \<Rightarrow> Some y)"
  by (induction xs) auto

lemma find_cong_on: "(\<And>x. x \<in> set xs \<Longrightarrow> P x = Q x) \<Longrightarrow> find P xs = find Q xs"
  by (induction xs) auto

lemma up_step: "up_ok up \<Longrightarrow> up x = p # ps \<Longrightarrow> up p = ps"
  unfolding up_ok_def by blast

lemma up_rest:
  assumes "up_ok up" "up x = ys @ d # zs"
  shows "up d = zs"
  using assms(2)
proof (induction ys arbitrary: x)
  case Nil
  from up_step [OF assms(1) Nil [simplified]] show ?case .
next
  case (Cons y ys)
  have "up y = ys @ d # zs" by (rule up_step [OF assms(1) Cons.prems [simplified]])
  then show ?case by (rule Cons.IH)
qed

lemma up_split: "up_ok up \<Longrightarrow> d \<in> set (up x) \<Longrightarrow> \<exists>ys. up x = ys @ d # up d"
  using split_list [of d "up x"] up_rest [of up x _ d] by blast

lemma up_less: "up_ok up \<Longrightarrow> d \<in> set (up x) \<Longrightarrow> length (up d) < length (up x)"
  using up_split [of up d x] by auto

lemma up_irrefl: "up_ok up \<Longrightarrow> d \<notin> set (up d)"
  using up_less by fastforce

lemma up_trans: "up_ok up \<Longrightarrow> y \<in> set (up x) \<Longrightarrow> z \<in> set (up y) \<Longrightarrow> z \<in> set (up x)"
  using up_split [of up y x] by auto

lemma up_linear:
  assumes "up_ok up" "y \<in> set (up x)" "z \<in> set (up x)"
  shows "y = z \<or> y \<in> set (up z) \<or> z \<in> set (up y)"
proof -
  obtain ys where ys: "up x = ys @ y # up y" using up_split [OF assms(1,2)] by blast
  show ?thesis
  proof (cases "z \<in> set ys")
    case True
    then obtain us vs where "ys = us @ z # vs" by (meson split_list)
    then have "up z = vs @ y # up y" using ys up_rest [OF assms(1), of x us z "vs @ y # up y"] by simp
    then show ?thesis by simp
  qed (use assms(3) ys in auto)
qed

text \<open>The nearest member of \<open>R\<close> strictly above a directory, and from it on.\<close>

definition above :: "('a \<Rightarrow> bool) \<Rightarrow> ('a \<Rightarrow> 'a list) \<Rightarrow> 'a \<Rightarrow> 'a option" where
  "above R up x = find R (up x)"

definition near :: "('a \<Rightarrow> bool) \<Rightarrow> ('a \<Rightarrow> 'a list) \<Rightarrow> 'a \<Rightarrow> 'a option" where
  "near R up x = (if R x then Some x else above R up x)"

lemma near_find: "near R up x = find R (x # up x)"
  by (simp add: near_def above_def)

lemma above_SomeD: "above R up x = Some y \<Longrightarrow> R y \<and> y \<in> set (up x)"
  by (auto simp: above_def dest!: find_split)

lemma near_SomeD: "near R up x = Some y \<Longrightarrow> R y \<and> (y = x \<or> y \<in> set (up x))"
  by (auto simp: near_def dest: above_SomeD split: if_splits)

lemma above_None: "above R up x = None \<longleftrightarrow> (\<forall>y\<in>set (up x). \<not> R y)"
  by (simp add: above_def find_none)

text \<open>Whatever member is above \<open>x\<close> is at or above the nearest one.\<close>

lemma above_nearest:
  assumes "up_ok up" "above R up x = Some y" "z \<in> set (up x)" "R z"
  shows "z = y \<or> z \<in> set (up y)"
proof -
  obtain us vs where s: "up x = us @ y # vs" "\<forall>u\<in>set us. \<not> R u" using assms(2) by (auto simp: above_def dest!: find_split)
  moreover have "up y = vs" by (rule up_rest [OF assms(1) s(1)])
  ultimately show ?thesis using assms(3,4) by auto
qed

lemma above_via:
  assumes "up_ok up" "d \<in> set (up x)" "above R up x \<noteq> above R up d"
  shows "(\<exists>y. above R up x = Some y \<and> (y = d \<or> d \<in> set (up y)))"
proof -
  obtain ys where ys: "up x = ys @ d # up d" using up_split [OF assms(1,2)] by blast
  show ?thesis
  proof (cases "find R ys")
    case None
    then have "above R up x = (if R d then Some d else above R up d)" by (simp add: above_def ys find_app)
    with assms(3) show ?thesis by (auto split: if_splits)
  next
    case (Some y)
    then have a: "above R up x = Some y" by (simp add: above_def ys find_app)
    from Some obtain us vs where "ys = us @ y # vs" by (auto dest!: find_split)
    then have "up y = vs @ d # up d" using up_rest [OF assms(1), of x us y "vs @ d # up d"] ys by simp
    with a show ?thesis by auto
  qed
qed

lemma above_add:
  assumes "up_ok up" "\<not> R d"
  shows "above (R(d := True)) up x = (if d \<in> set (up x) \<and> above R up x = above R up d then Some d else above R up x)"
proof (cases "d \<in> set (up x)")
  case True
  then obtain ys where ys: "up x = ys @ d # up d" using up_split [OF assms(1)] by blast
  have nd: "d \<notin> set ys"
  proof
    assume "d \<in> set ys"
    then obtain us vs where "ys = us @ d # vs" by (meson split_list)
    then have "up d = vs @ d # up d" using up_rest [OF assms(1), of x us d "vs @ d # up d"] ys by simp
    then show False by (simp add: append_eq_conv_conj)
  qed
  then have f: "find (R(d := True)) ys = find R ys" by (intro find_cong_on) auto
  show ?thesis
  proof (cases "find R ys")
    case None
    with True f assms(2) show ?thesis by (simp add: above_def ys find_app)
  next
    case (Some y)
    have "above R up x = Some y" using Some by (simp add: above_def ys find_app)
    moreover have "above R up d \<noteq> Some y"
    proof
      assume "above R up d = Some y"
      then have "y \<in> set (up d)" by (auto dest: above_SomeD)
      moreover from Some obtain us vs where "ys = us @ y # vs" by (auto dest!: find_split)
      then have "up y = vs @ d # up d" using up_rest [OF assms(1), of x us y "vs @ d # up d"] ys by simp
      ultimately show False using up_less [OF assms(1), of y d] by simp
    qed
    ultimately show ?thesis using True Some f by (simp add: above_def ys find_app)
  qed
next
  case False
  then have "find (R(d := True)) (up x) = find R (up x)" by (intro find_cong_on) auto
  with False show ?thesis by (simp add: above_def)
qed

lemma above_del:
  assumes "up_ok up"
  shows "above (R(d := False)) up x = (if above R up x = Some d then above R up d else above R up x)"
proof (cases "above R up x")
  case None
  then have "above (R(d := False)) up x = None" by (auto simp: above_None)
  with None show ?thesis by simp
next
  case (Some y)
  then obtain us vs where s: "up x = us @ y # vs" "\<forall>u\<in>set us. \<not> R u" "R y" by (auto simp: above_def dest!: find_split)
  have u: "up y = vs" by (rule up_rest [OF assms s(1)])
  have f: "find (R(d := False)) us = None" using s(2) by (auto simp: find_none)
  show ?thesis
  proof (cases "y = d")
    case True
    have "find (R(d := False)) vs = find R vs"
      using u True up_irrefl [OF assms, of d] by (intro find_cong_on) auto
    with Some True f u show ?thesis by (simp add: above_def s(1) find_app)
  next
    case False
    with Some f s(3) show ?thesis by (simp add: above_def s(1) find_app)
  qed
qed

section \<open>The invariant\<close>

text \<open>
  The laws of the classes outside the sources: the chains are those of a hierarchy, the base inodes are
  those that are linked nowhere, and an inode has the authority of the directory it is linked in.
\<close>

definition env_ok :: "mdc_env \<Rightarrow> bool" where
  "env_ok e \<longleftrightarrow> up_ok (me_up e) \<and> (\<forall>d. me_base e d \<longleftrightarrow> me_up e d = []) \<and>
     (\<forall>A d p ps. me_up e d = p # ps \<longrightarrow>
        me_inode_authority e A d = (if A p \<noteq> CDIR_AUTH_DEFAULT then A p else me_inode_authority e A p))"

lemma env_inode_authority:
  "env_ok e \<Longrightarrow> me_up e d = p # ps \<Longrightarrow>
   me_inode_authority e A d = (if A p \<noteq> CDIR_AUTH_DEFAULT then A p else me_inode_authority e A p)"
  unfolding env_ok_def by blast

lemma env_up [simp, intro]: "env_ok e \<Longrightarrow> up_ok (me_up e)"
  by (simp add: env_ok_def)

lemma env_base: "env_ok e \<Longrightarrow> me_base e d \<longleftrightarrow> me_up e d = []"
  unfolding env_ok_def by blast

text \<open>The map lists the subtree roots \<open>R\<close>, each with the roots next below it.\<close>

definition subs_exact :: "mdc_env \<Rightarrow> (dir_ptr \<Rightarrow> bool) \<Rightarrow> mdcache \<Rightarrow> bool" where
  "subs_exact e R m \<longleftrightarrow> om_ok (mc_subtrees m) \<and> (\<forall>d. is_subtree d m \<longleftrightarrow> R d) \<and>
     (\<forall>r. R r \<longrightarrow> sorted_wrt (<) (sub_bounds r m) \<and> set (sub_bounds r m) = {d. R d \<and> above R (me_up e) d = Some r})"

definition dirs_pinned :: "(dir_ptr \<Rightarrow> bool) \<Rightarrow> mdcache \<Rightarrow> bool" where
  "dirs_pinned R m \<longleftrightarrow> (\<forall>d. wait_inv (mc_dirs m d) \<and> pins (mc_dirs m d) PIN_SUBTREE = (if R d then 1 else 0))"

definition rooted :: "mdc_env \<Rightarrow> (dir_ptr \<Rightarrow> bool) \<Rightarrow> bool" where
  "rooted e R \<longleftrightarrow> (\<forall>d. R d \<and> me_up e d \<noteq> [] \<longrightarrow> above R (me_up e) d \<noteq> None)"

definition subtree_inv :: "mdc_env \<Rightarrow> mdcache \<Rightarrow> bool" where
  "subtree_inv e m \<longleftrightarrow> subs_exact e (dir_root m) m \<and> dirs_pinned (dir_root m) m \<and> rooted e (dir_root m)"

text \<open>The abstract state: the authority set on each directory; it determines the roots and who is
  responsible for a directory.\<close>

definition auths :: "mdcache \<Rightarrow> dir_ptr \<Rightarrow> mds_authority_t" where
  "auths m d = dir_auth (mc_dirs m d)"

abbreviation roots :: "(dir_ptr \<Rightarrow> mds_authority_t) \<Rightarrow> dir_ptr \<Rightarrow> bool" where
  "roots A \<equiv> \<lambda>d. A d \<noteq> CDIR_AUTH_DEFAULT"

definition responsible :: "mdc_env \<Rightarrow> (dir_ptr \<Rightarrow> mds_authority_t) \<Rightarrow> dir_ptr \<Rightarrow> mds_authority_t option" where
  "responsible e A d = map_option A (near (roots A) (me_up e) d)"

lemma dir_root_auths: "dir_root m = roots (auths m)"
  by (auto simp: dir_root_def is_subtree_root_def auths_def)

lemma get_subtree_root_near: "get_subtree_root e m d = near (dir_root m) (me_up e) d"
  by (simp add: get_subtree_root_def near_def above_def)

lemma parent_root_above:
  assumes "env_ok e"
  shows "parent_root e m d = above (dir_root m) (me_up e) d"
proof (cases "me_up e d")
  case (Cons p ps)
  moreover have "me_up e p = ps" by (rule up_step [OF env_up [OF assms] Cons])
  ultimately show ?thesis by (simp add: parent_root_def get_parent_dir_def get_subtree_root_def above_def)
qed (simp add: parent_root_def get_parent_dir_def above_def)

lemma authority_near:
  assumes "env_ok e" "near (dir_root m) (me_up e) d = Some r"
  shows "dir_authority e m d = auths m r"
proof (cases "dir_root m d")
  case False
  have "me_inode_authority e (auths m) x = auths m r" if "above (dir_root m) (me_up e) x = Some r" for x
    using that
  proof (induction "me_up e x" arbitrary: x)
    case (Cons p ps)
    have u: "me_up e p = ps" by (rule up_step [OF env_up [OF assms(1)] Cons.hyps(2) [symmetric]])
    have law: "me_inode_authority e (auths m) x = (if dir_root m p then auths m p else me_inode_authority e (auths m) p)"
      unfolding dir_root_auths by (rule env_inode_authority [OF assms(1) Cons.hyps(2) [symmetric]])
    show ?case
    proof (cases "dir_root m p")
      case True
      then have "r = p" using Cons.prems Cons.hyps(2) [symmetric] by (simp add: above_def)
      with True law show ?thesis by simp
    next
      case False
      then have "above (dir_root m) (me_up e) p = Some r" using Cons.prems Cons.hyps(2) [symmetric] u by (simp add: above_def)
      from Cons.hyps(1) [OF u [symmetric] this] False law show ?thesis by simp
    qed
  qed (simp add: above_def)
  moreover have "above (dir_root m) (me_up e) d = Some r" using assms(2) False by (simp add: near_def)
  moreover have "(\<lambda>x. dir_auth (mc_dirs m x)) = auths m" by (simp add: auths_def fun_eq_iff)
  ultimately show ?thesis using False by (simp add: dir_authority_def)
qed (use assms in \<open>auto simp: dir_authority_def near_def auths_def\<close>)

section \<open>Steps on one directory\<close>

text \<open>\<open>m'\<close> differs from \<open>m\<close> in the directory \<open>d\<close> only, which keeps its state bits and inode.\<close>

definition touched :: "dir_ptr \<Rightarrow> mdcache \<Rightarrow> mdcache \<Rightarrow> bool" where
  "touched d m m' \<longleftrightarrow> mc_subtrees m' = mc_subtrees m \<and> mc_renames m' = mc_renames m \<and> mc_log m' = mc_log m \<and>
     (\<forall>x. x \<noteq> d \<longrightarrow> mc_dirs m' x = mc_dirs m x) \<and> wait_inv (mc_dirs m' d) \<and>
     co_state (mc_dirs m' d) = co_state (mc_dirs m d) \<and> cd_inode (mc_dirs m' d) = cd_inode (mc_dirs m d)"

lemma wait_inv_pins:
  assumes "wait_inv c" "co_wf c'" "pins c' = (pins c)(PIN_SUBTREE := n)" "same_dir c' c"
    "co_replica_map c' = co_replica_map c" "co_waiting c' = co_waiting c"
  shows "wait_inv c'"
  using assms same_dir_fields [OF assms(4)]
  by (auto simp: wait_inv_def co_inv_def all_pin_defs cdir_pin_defs)

lemma on_dget:
  assumes "wait_inv (mc_dirs m d)"
  obtains m' where "on_dir d (dget PIN_SUBTREE) m = Some m'" "touched d m m'"
    "pins (mc_dirs m' d) PIN_SUBTREE = pins (mc_dirs m d) PIN_SUBTREE + 1" "auths m' = auths m"
proof -
  have "co_wf (mc_dirs m d)" using assms by (simp add: wait_inv_def co_inv_def)
  from dget_ok [OF this, of PIN_SUBTREE] obtain c where c: "dget PIN_SUBTREE (mc_dirs m d) = Some c" "same_dir c (mc_dirs m d)" "co_wf c"
    "pins c = (pins (mc_dirs m d))(PIN_SUBTREE := pins (mc_dirs m d) PIN_SUBTREE + 1)" "co_state c = co_state (mc_dirs m d)"
    "co_replica_map c = co_replica_map (mc_dirs m d)" "co_waiting c = co_waiting (mc_dirs m d)" by blast
  have "wait_inv c" by (rule wait_inv_pins [OF assms c(3,4,2,6,7)])
  then show thesis
    by (intro that [of "m\<lparr>mc_dirs := (mc_dirs m)(d := c)\<rparr>"])
      (use c same_dir_fields [OF c(2)] in \<open>auto simp: on_dir_def touched_def auths_def\<close>)
qed

lemma on_dput:
  assumes "wait_inv (mc_dirs m d)" "0 < pins (mc_dirs m d) PIN_SUBTREE"
  obtains m' where "on_dir d (dput PIN_SUBTREE) m = Some m'" "touched d m m'"
    "pins (mc_dirs m' d) PIN_SUBTREE = pins (mc_dirs m d) PIN_SUBTREE - 1" "auths m' = auths m"
proof -
  have "co_wf (mc_dirs m d)" using assms(1) by (simp add: wait_inv_def co_inv_def)
  from dput_ok [OF this assms(2)] obtain c where c: "dput PIN_SUBTREE (mc_dirs m d) = Some c" "same_dir c (mc_dirs m d)" "co_wf c"
    "pins c = (pins (mc_dirs m d))(PIN_SUBTREE := pins (mc_dirs m d) PIN_SUBTREE - 1)" "co_state c = co_state (mc_dirs m d)"
    "co_replica_map c = co_replica_map (mc_dirs m d)" "co_waiting c = co_waiting (mc_dirs m d)" by blast
  have "wait_inv c" by (rule wait_inv_pins [OF assms(1) c(3,4,2,6,7)])
  then show thesis
    by (intro that [of "m\<lparr>mc_dirs := (mc_dirs m)(d := c)\<rparr>"])
      (use c same_dir_fields [OF c(2)] in \<open>auto simp: on_dir_def touched_def auths_def\<close>)
qed

lemma subtree_root_logs:
  "new_subtree_root c = c\<lparr>cd_log := cd_log (new_subtree_root c)\<rparr>" "old_subtree_root c = c\<lparr>cd_log := cd_log (old_subtree_root c)\<rparr>"
  by (simp_all add: new_subtree_root_def old_subtree_root_def Let_def log_call_def)

lemma set_dir_auth_wait:
  assumes "wait_inv c"
  obtains c' where "set_dir_auth a c = Some c'" "wait_inv c'" "dir_auth c' = a" "co_state c' = co_state c" "cd_inode c' = cd_inode c"
    "pins c' PIN_SUBTREE = pins c PIN_SUBTREE"
proof -
  let ?c1 = "c\<lparr>dir_auth := a\<rparr>"
  define c2 where "c2 = (if \<not> is_subtree_root c \<and> is_subtree_root ?c1 then new_subtree_root ?c1 else ?c1)"
  define c3 where "c3 = (if is_subtree_root c \<and> \<not> is_subtree_root c2 then old_subtree_root c2 else c2)"
  have l2: "c2 = ?c1\<lparr>cd_log := cd_log c2\<rparr>" using subtree_root_logs(1) [of ?c1] by (simp add: c2_def)
  have l3: "c3 = c2\<lparr>cd_log := cd_log c3\<rparr>" using subtree_root_logs(2) [of c2] by (simp add: c3_def)
  have w2: "wait_inv c2" "dir_auth c2 = a" "co_state c2 = co_state c" "cd_inode c2 = cd_inode c" "pins c2 = pins c"
    using assms by (subst l2, simp add: wait_inv_def frame_simps)+
  have w3: "wait_inv c3" "dir_auth c3 = a" "co_state c3 = co_state c" "cd_inode c3 = cd_inode c" "pins c3 = pins c"
    using w2 by (subst l3, simp add: wait_inv_def frame_simps)+
  have def: "set_dir_auth a c = (if snd (dir_auth c) \<ge> 0 \<and> snd (dir_auth c3) = CDIR_AUTH_UNKNOWN then
       do { (ls, c4) \<leftarrow> take_waiting WAIT_SINGLEAUTH [] c3; Some (log_call (OnServer (QueueWaiters ls)) c4) }
     else Some c3)"
    unfolding set_dir_auth_def Let_def c3_def c2_def by simp
  show thesis
  proof (cases "snd (dir_auth c) \<ge> 0 \<and> snd (dir_auth c3) = CDIR_AUTH_UNKNOWN")
    case False
    with def w3 show thesis by (intro that [of c3]) auto
  next
    case True
    obtain ls c4 where c4: "take_waiting WAIT_SINGLEAUTH [] c3 = Some (ls, c4)" "quiet c4 c3"
      using take_waiting_quiet [OF w3(1), of WAIT_SINGLEAUTH "[]"] by metis
    have q: "wait_inv c4" "dir_auth c4 = a" "co_state c4 = co_state c" "cd_inode c4 = cd_inode c" "pins c4 PIN_SUBTREE = pins c PIN_SUBTREE"
      using c4(2) w3 by (auto simp: quiet_def all_pin_defs cdir_pin_defs dest: same_dirw_fields)
    show thesis
      by (rule that [of "log_call (OnServer (QueueWaiters ls)) c4"])
        (use def True c4 q in \<open>simp_all add: wait_inv_def frame_simps log_call_dir_fields\<close>)
  qed
qed

lemma on_set_dir_auth:
  assumes "wait_inv (mc_dirs m d)"
  obtains m' where "on_dir d (set_dir_auth a) m = Some m'" "touched d m m'"
    "pins (mc_dirs m' d) PIN_SUBTREE = pins (mc_dirs m d) PIN_SUBTREE" "auths m' = (auths m)(d := a)"
proof -
  from set_dir_auth_wait [OF assms, of a] obtain c where c: "set_dir_auth a (mc_dirs m d) = Some c" "wait_inv c" "dir_auth c = a"
    "co_state c = co_state (mc_dirs m d)" "cd_inode c = cd_inode (mc_dirs m d)" "pins c PIN_SUBTREE = pins (mc_dirs m d) PIN_SUBTREE" by blast
  show thesis
    by (rule that [of "m\<lparr>mc_dirs := (mc_dirs m)(d := c)\<rparr>"])
      (use c in \<open>auto simp: on_dir_def touched_def auths_def\<close>)
qed

section \<open>Steps on the map\<close>

definition subs_ok :: "mdcache \<Rightarrow> bool" where
  "subs_ok m \<longleftrightarrow> om_ok (mc_subtrees m) \<and> (\<forall>r. sorted_wrt (<) (sub_bounds r m))"

lemma put_bounds_fields [simp]:
  "mc_dirs (put_bounds d bs m) = mc_dirs m" "mc_renames (put_bounds d bs m) = mc_renames m" "mc_log (put_bounds d bs m) = mc_log m"
  "mc_dirs (add_bound r x m) = mc_dirs m" "mc_renames (add_bound r x m) = mc_renames m" "mc_log (add_bound r x m) = mc_log m"
  "mc_dirs (del_bound r x m) = mc_dirs m" "mc_renames (del_bound r x m) = mc_renames m" "mc_log (del_bound r x m) = mc_log m"
  "mc_dirs (erase_subtree d m) = mc_dirs m" "mc_renames (erase_subtree d m) = mc_renames m" "mc_log (erase_subtree d m) = mc_log m"
  by (simp_all add: put_bounds_def add_bound_def del_bound_def erase_subtree_def)

lemma put_bounds_map:
  assumes "subs_ok m"
  shows "is_subtree x (put_bounds d bs m) \<longleftrightarrow> x = d \<or> is_subtree x m"
    "sub_bounds x (put_bounds d bs m) = (if x = d then bs else sub_bounds x m)"
    "sorted_wrt (<) bs \<Longrightarrow> subs_ok (put_bounds d bs m)"
  using assms by (auto simp: subs_ok_def is_subtree_def sub_bounds_def put_bounds_def)

lemma add_bound_map:
  assumes "subs_ok m"
  shows "is_subtree x (add_bound r y m) \<longleftrightarrow> x = r \<or> is_subtree x m"
    "set (sub_bounds x (add_bound r y m)) = (if x = r then insert y (set (sub_bounds x m)) else set (sub_bounds x m))"
    "subs_ok (add_bound r y m)"
proof -
  have "sorted_wrt (<) (os_insert y (sub_bounds r m))" using assms by (simp add: subs_ok_def os_insert_sorted)
  then show "is_subtree x (add_bound r y m) \<longleftrightarrow> x = r \<or> is_subtree x m" "subs_ok (add_bound r y m)"
    "set (sub_bounds x (add_bound r y m)) = (if x = r then insert y (set (sub_bounds x m)) else set (sub_bounds x m))"
    using assms by (simp_all add: add_bound_def put_bounds_map)
qed

lemma del_bound_map:
  assumes "subs_ok m"
  shows "is_subtree x (del_bound r y m) \<longleftrightarrow> x = r \<or> is_subtree x m"
    "set (sub_bounds x (del_bound r y m)) = (if x = r then set (sub_bounds x m) - {y} else set (sub_bounds x m))"
    "subs_ok (del_bound r y m)"
proof -
  have "sorted_wrt (<) (removeAll y (sub_bounds r m))"
    using assms by (simp add: subs_ok_def removeAll_filter_not_eq sorted_wrt_filter)
  then show "is_subtree x (del_bound r y m) \<longleftrightarrow> x = r \<or> is_subtree x m" "subs_ok (del_bound r y m)"
    "set (sub_bounds x (del_bound r y m)) = (if x = r then set (sub_bounds x m) - {y} else set (sub_bounds x m))"
    using assms by (simp_all add: del_bound_def put_bounds_map)
qed

lemma erase_subtree_map:
  assumes "subs_ok m"
  shows "is_subtree x (erase_subtree d m) \<longleftrightarrow> x \<noteq> d \<and> is_subtree x m"
    "set (sub_bounds x (erase_subtree d m)) = (if x = d then {} else set (sub_bounds x m))"
    "subs_ok (erase_subtree d m)"
  using assms by (auto simp: subs_ok_def is_subtree_def sub_bounds_def erase_subtree_def)

lemmas bound_maps = add_bound_map del_bound_map erase_subtree_map

lemma add_bounds_map:
  assumes "subs_ok m"
  shows "is_subtree x (fold (add_bound r) ys m) \<longleftrightarrow> (x = r \<and> ys \<noteq> []) \<or> is_subtree x m"
    "set (sub_bounds x (fold (add_bound r) ys m)) = (if x = r then set ys \<union> set (sub_bounds x m) else set (sub_bounds x m))"
    "subs_ok (fold (add_bound r) ys m)" "mc_dirs (fold (add_bound r) ys m) = mc_dirs m"
    "mc_renames (fold (add_bound r) ys m) = mc_renames m" "mc_log (fold (add_bound r) ys m) = mc_log m"
  using assms by (induction ys arbitrary: m) (auto simp: bound_maps split: if_splits)

lemma touched_map:
  assumes "touched d m m'"
  shows "is_subtree x m' = is_subtree x m" "sub_bounds x m' = sub_bounds x m" "subs_ok m' = subs_ok m"
  using assms by (simp_all add: touched_def is_subtree_def sub_bounds_def subs_ok_def)

text \<open>The bounds claimed by a new subtree.\<close>

lemma claim_bounds_ok:
  assumes "env_ok e" "subs_ok m" "is_subtree dir m" "is_subtree sroot m" "dir \<noteq> sroot" "\<forall>p\<in>set ps. me_up e p \<noteq> []"
  defines "mv \<equiv> {p \<in> set ps. above (dir_root m) (me_up e) p = Some dir}"
  obtains m' where "claim_bounds e dir sroot ps m = Some m'" "subs_ok m'" "mc_dirs m' = mc_dirs m" "mc_renames m' = mc_renames m"
    "mc_log m' = mc_log m" "\<And>x. is_subtree x m' = is_subtree x m"
    "\<And>x. set (sub_bounds x m') = (if x = dir then set (sub_bounds x m) \<union> mv else if x = sroot then set (sub_bounds x m) - mv else set (sub_bounds x m))"
proof -
  have "\<exists>m'. claim_bounds e dir sroot ps m = Some m' \<and> subs_ok m' \<and> mc_dirs m' = mc_dirs m \<and> mc_renames m' = mc_renames m \<and>
     mc_log m' = mc_log m \<and> (\<forall>x. is_subtree x m' = is_subtree x m) \<and>
     (\<forall>x. set (sub_bounds x m') = (if x = dir then set (sub_bounds x m) \<union> {p \<in> set ps. above (dir_root m) (me_up e) p = Some dir}
        else if x = sroot then set (sub_bounds x m) - {p \<in> set ps. above (dir_root m) (me_up e) p = Some dir} else set (sub_bounds x m)))"
    using assms(2-4,6)
  proof (induction ps arbitrary: m)
    case (Cons p ps)
    obtain q where q: "get_parent_dir e p = Some q" using Cons.prems(4) by (cases "me_up e p") (auto simp: get_parent_dir_def)
    have ab: "get_subtree_root e m q = above (dir_root m) (me_up e) p"
      using parent_root_above [OF assms(1), of m p] q by (simp add: parent_root_def)
    let ?m1 = "if get_subtree_root e m q = Some dir then del_bound sroot p (add_bound dir p m) else m"
    have m1: "subs_ok ?m1" "mc_dirs ?m1 = mc_dirs m" "mc_renames ?m1 = mc_renames m" "mc_log ?m1 = mc_log m"
      using Cons.prems(1) by (simp_all add: bound_maps)
    have s1: "is_subtree x ?m1 = is_subtree x m" for x using Cons.prems by (auto simp: bound_maps)
    have b1: "set (sub_bounds x ?m1) = (if above (dir_root m) (me_up e) p = Some dir then
        (if x = dir then insert p (set (sub_bounds x m)) else if x = sroot then set (sub_bounds x m) - {p} else set (sub_bounds x m))
        else set (sub_bounds x m))" for x using Cons.prems(1) assms(5) by (auto simp: bound_maps ab)
    have r1: "dir_root ?m1 = dir_root m" using m1(2) by (simp add: dir_root_def fun_eq_iff)
    have "\<exists>m'. claim_bounds e dir sroot ps ?m1 = Some m' \<and> subs_ok m' \<and> mc_dirs m' = mc_dirs ?m1 \<and> mc_renames m' = mc_renames ?m1 \<and>
     mc_log m' = mc_log ?m1 \<and> (\<forall>x. is_subtree x m' = is_subtree x ?m1) \<and>
     (\<forall>x. set (sub_bounds x m') = (if x = dir then set (sub_bounds x ?m1) \<union> {p \<in> set ps. above (dir_root m) (me_up e) p = Some dir}
        else if x = sroot then set (sub_bounds x ?m1) - {p \<in> set ps. above (dir_root m) (me_up e) p = Some dir} else set (sub_bounds x ?m1)))"
      using Cons.IH [of ?m1, unfolded r1] m1(1) s1 Cons.prems by simp
    then obtain m' where m': "claim_bounds e dir sroot ps ?m1 = Some m'" "subs_ok m'" "mc_dirs m' = mc_dirs m" "mc_renames m' = mc_renames m"
      "mc_log m' = mc_log m" "\<forall>x. is_subtree x m' = is_subtree x m"
      "\<forall>x. set (sub_bounds x m') = (if x = dir then set (sub_bounds x ?m1) \<union> {p \<in> set ps. above (dir_root m) (me_up e) p = Some dir}
        else if x = sroot then set (sub_bounds x ?m1) - {p \<in> set ps. above (dir_root m) (me_up e) p = Some dir} else set (sub_bounds x ?m1))"
      unfolding m1 s1 by blast
    show ?case
    proof (intro exI [of _ m'] conjI allI)
      show "claim_bounds e dir sroot (p # ps) m = Some m'" using q m'(1) by simp
      fix x show "is_subtree x m' = is_subtree x m" using m'(6) by simp
      show "set (sub_bounds x m') = (if x = dir then set (sub_bounds x m) \<union> {pa \<in> set (p # ps). above (dir_root m) (me_up e) pa = Some dir}
        else if x = sroot then set (sub_bounds x m) - {pa \<in> set (p # ps). above (dir_root m) (me_up e) pa = Some dir} else set (sub_bounds x m))"
        unfolding m'(7) [rule_format, of x] b1 using assms(5)
        by (cases "above (dir_root m) (me_up e) p = Some dir"; cases "x = dir"; cases "x = sroot") auto
    qed (use m' in simp_all)
  qed simp
  then show thesis using that unfolding mv_def by blast
qed

section \<open>The operations refine the abstract state\<close>

definition dirs_kept :: "mdcache \<Rightarrow> mdcache \<Rightarrow> bool" where
  "dirs_kept m m' \<longleftrightarrow> mc_renames m' = mc_renames m \<and>
     (\<forall>d. co_state (mc_dirs m' d) = co_state (mc_dirs m d) \<and> cd_inode (mc_dirs m' d) = cd_inode (mc_dirs m d))"

lemma dirs_kept_refl [simp]: "dirs_kept m m"
  by (simp add: dirs_kept_def)

lemma dirs_kept_trans [trans]: "dirs_kept a b \<Longrightarrow> dirs_kept b c \<Longrightarrow> dirs_kept a c"
  by (simp add: dirs_kept_def)

lemma touched_kept: "touched d m m' \<Longrightarrow> dirs_kept m m'"
  unfolding touched_def dirs_kept_def by metis

lemma subtree_inv_parts:
  assumes "subtree_inv e m"
  shows "subs_ok m" "is_subtree d m \<longleftrightarrow> dir_root m d" "wait_inv (mc_dirs m d)" "pins (mc_dirs m d) PIN_SUBTREE = (if dir_root m d then 1 else 0)"
    "dir_root m r \<Longrightarrow> set (sub_bounds r m) = {d. dir_root m d \<and> above (dir_root m) (me_up e) d = Some r}"
proof -
  have "sub_bounds r m = []" if "\<not> is_subtree r m" for r using that by (auto simp: is_subtree_def sub_bounds_def om_get_def)
  moreover have "sorted_wrt (<) (sub_bounds r m)" if "is_subtree r m" for r using assms that by (auto simp: subtree_inv_def subs_exact_def)
  ultimately have "sorted_wrt (<) (sub_bounds r m)" for r by (metis sorted_wrt.simps(1))
  then show "subs_ok m" using assms by (simp add: subs_ok_def subtree_inv_def subs_exact_def)
qed (use assms in \<open>auto simp: subtree_inv_def subs_exact_def dirs_pinned_def\<close>)

lemma subtree_invI:
  assumes "subs_ok m" "\<And>d. is_subtree d m \<longleftrightarrow> dir_root m d" "\<And>d. wait_inv (mc_dirs m d)"
    "\<And>d. pins (mc_dirs m d) PIN_SUBTREE = (if dir_root m d then 1 else 0)"
    "\<And>r. dir_root m r \<Longrightarrow> set (sub_bounds r m) = {d. dir_root m d \<and> above (dir_root m) (me_up e) d = Some r}"
    "rooted e (dir_root m)"
  shows "subtree_inv e m"
  using assms by (simp add: subtree_inv_def subs_exact_def dirs_pinned_def subs_ok_def)

lemma touched_wait: "touched d m m' \<Longrightarrow> (\<And>x. wait_inv (mc_dirs m x)) \<Longrightarrow> wait_inv (mc_dirs m' x)"
  by (cases "x = d") (auto simp: touched_def)

lemma touched_pins: "touched d m m' \<Longrightarrow> x \<noteq> d \<Longrightarrow> pins (mc_dirs m' x) = pins (mc_dirs m x)"
  by (auto simp: touched_def)

text \<open>Nothing is rooted beneath a base directory that is no subtree yet.\<close>

lemma no_roots_below_base:
  assumes "env_ok e" "rooted e R" "\<not> R b" "me_up e b = []" "R x"
  shows "b \<notin> set (me_up e x)"
  using assms(5)
proof (induction "length (me_up e x)" arbitrary: x rule: less_induct)
  case less
  show ?case
  proof
    assume b: "b \<in> set (me_up e x)"
    then have "me_up e x \<noteq> []" by auto
    then obtain y where y: "above R (me_up e) x = Some y" using assms(2) less.prems by (auto simp: rooted_def)
    have y2: "R y" "y \<in> set (me_up e x)" using above_SomeD [OF y] by simp_all
    have "b \<in> set (me_up e y)"
      using up_linear [OF env_up [OF assms(1)] y2(2) b] assms(3,4) y2(1) by auto
    moreover have "b \<notin> set (me_up e y)"
      by (rule less.hyps [OF up_less [OF env_up [OF assms(1)] y2(2)] y2(1)])
    ultimately show False by simp
  qed
qed

lemma rooted_add:
  assumes "env_ok e" "rooted e R" "me_up e d = [] \<or> above R (me_up e) d \<noteq> None"
  shows "rooted e (R(d := True))"
proof (cases "R d")
  case True
  then have "R(d := True) = R" by (simp add: fun_eq_iff)
  with assms(2) show ?thesis by simp
next
  case False
  show ?thesis
    using assms(2,3) unfolding rooted_def above_add [of "me_up e" R d, OF env_up [OF assms(1)] False] by auto
qed

lemma rooted_del:
  assumes "env_ok e" "rooted e R" "above R (me_up e) d = Some p"
  shows "rooted e (R(d := False))"
  using assms(2,3) unfolding rooted_def above_del [OF env_up [OF assms(1)]] by auto

text \<open>The three cases of setting the authority: at a root, at a base directory, at a new subtree.\<close>

lemma set_root_auth:
  assumes "subtree_inv e m" "a \<noteq> CDIR_AUTH_DEFAULT" "dir_root m d"
  obtains m' where "on_dir d (set_dir_auth a) m = Some m'" "subtree_inv e m'" "auths m' = (auths m)(d := a)"
    "dirs_kept m m'" "mc_log m' = mc_log m"
proof -
  note inv = subtree_inv_parts [OF assms(1)]
  obtain m' where m': "on_dir d (set_dir_auth a) m = Some m'" "touched d m m'"
    "pins (mc_dirs m' d) PIN_SUBTREE = pins (mc_dirs m d) PIN_SUBTREE" "auths m' = (auths m)(d := a)" by (rule on_set_dir_auth [OF inv(3)])
  have R: "dir_root m' = dir_root m" using assms(2,3) by (auto simp: dir_root_auths m'(4) fun_eq_iff)
  have "subtree_inv e m'"
  proof (rule subtree_invI)
    show "wait_inv (mc_dirs m' x)" for x by (rule touched_wait [OF m'(2) inv(3)])
    show "pins (mc_dirs m' x) PIN_SUBTREE = (if dir_root m' x then 1 else 0)" for x
      using touched_pins [OF m'(2), of x] m'(3) inv(4) R by (cases "x = d") simp_all
  qed (use inv(1,2,5) R touched_map [OF m'(2)] assms(1) in \<open>simp_all add: subtree_inv_def\<close>)
  then show thesis using that m' touched_kept by (auto simp: touched_def)
qed

text \<open>Entering a directory that is no subtree yet: the entry of the map, the pin and the authority.\<close>

lemma enter_subtree:
  assumes "subtree_inv e m" "a \<noteq> CDIR_AUTH_DEFAULT" "\<not> dir_root m d"
  obtains m1 m2 where "on_dir d (dget PIN_SUBTREE) (put_bounds d [] m) = Some m1" "on_dir d (set_dir_auth a) m1 = Some m2"
    "auths m1 = auths m" "is_subtree x m1 \<longleftrightarrow> x = d \<or> dir_root m x" "subs_ok m1" "subs_ok m2"
    "auths m2 = (auths m)(d := a)" "dir_root m2 = (dir_root m)(d := True)" "dirs_kept m m2" "mc_log m2 = mc_log m"
    "\<And>x. is_subtree x m2 \<longleftrightarrow> x = d \<or> dir_root m x" "\<And>x. sub_bounds x m2 = (if x = d then [] else sub_bounds x m)"
    "\<And>x. wait_inv (mc_dirs m2 x)" "\<And>x. pins (mc_dirs m2 x) PIN_SUBTREE = (if dir_root m2 x then 1 else 0)"
    "\<And>x. wait_inv (mc_dirs m1 x)"
proof -
  note inv = subtree_inv_parts [OF assms(1)]
  let ?m0 = "put_bounds d [] m"
  have w0: "wait_inv (mc_dirs ?m0 x)" for x using inv(3) by simp
  have s0: "subs_ok ?m0" "is_subtree x ?m0 \<longleftrightarrow> x = d \<or> dir_root m x" "sub_bounds x ?m0 = (if x = d then [] else sub_bounds x m)" for x
    using inv(1,2) by (simp_all add: put_bounds_map)
  obtain m1 where m1: "on_dir d (dget PIN_SUBTREE) ?m0 = Some m1" "touched d ?m0 m1"
    "pins (mc_dirs m1 d) PIN_SUBTREE = pins (mc_dirs ?m0 d) PIN_SUBTREE + 1" "auths m1 = auths ?m0" by (rule on_dget [OF w0])
  have w1: "wait_inv (mc_dirs m1 x)" for x by (rule touched_wait [OF m1(2) w0])
  obtain m2 where m2: "on_dir d (set_dir_auth a) m1 = Some m2" "touched d m1 m2"
    "pins (mc_dirs m2 d) PIN_SUBTREE = pins (mc_dirs m1 d) PIN_SUBTREE" "auths m2 = (auths m1)(d := a)" by (rule on_set_dir_auth [OF w1])
  have A: "auths m1 = auths m" "auths m2 = (auths m)(d := a)" using m1(4) m2(4) by (simp_all add: auths_def fun_eq_iff)
  have R: "dir_root m2 = (dir_root m)(d := True)" using assms(2) by (auto simp: dir_root_auths A fun_eq_iff)
  show thesis
  proof (rule that [OF m1(1) m2(1) A(1)])
    show "wait_inv (mc_dirs m2 x)" for x by (rule touched_wait [OF m2(2) w1])
    show "pins (mc_dirs m2 x) PIN_SUBTREE = (if dir_root m2 x then 1 else 0)" for x
      using touched_pins [OF m1(2), of x] touched_pins [OF m2(2), of x] m1(3) m2(3) inv(4) assms(3) R by (cases "x = d") simp_all
    have "dirs_kept m ?m0" by (simp add: dirs_kept_def)
    then show "dirs_kept m m2" using touched_kept [OF m1(2)] touched_kept [OF m2(2)] by (blast intro: dirs_kept_trans)
  qed (use A R s0 w1 touched_map [OF m1(2)] touched_map [OF m2(2)] m1(2) m2(2) in \<open>simp_all add: touched_def\<close>)
qed

lemma base_subtree:
  assumes "env_ok e" "subtree_inv e m" "a \<noteq> CDIR_AUTH_DEFAULT" "\<not> dir_root m d" "me_up e d = []"
  obtains m1 m2 where "on_dir d (dget PIN_SUBTREE) (put_bounds d [] m) = Some m1" "is_subtree d m1" "on_dir d (set_dir_auth a) m1 = Some m2"
    "auths m2 = (auths m)(d := a)" "subtree_inv e m2" "dirs_kept m m2" "mc_log m2 = mc_log m"
proof -
  let ?R = "dir_root m" and ?up = "me_up e"
  have rt: "rooted e ?R" using assms(2) by (simp add: subtree_inv_def)
  obtain m1 m2 where m: "on_dir d (dget PIN_SUBTREE) (put_bounds d [] m) = Some m1" "on_dir d (set_dir_auth a) m1 = Some m2"
    "is_subtree d m1 \<longleftrightarrow> d = d \<or> ?R d" "subs_ok m2"
    "auths m2 = (auths m)(d := a)" "dir_root m2 = ?R(d := True)" "dirs_kept m m2" "mc_log m2 = mc_log m"
    "\<And>x. is_subtree x m2 \<longleftrightarrow> x = d \<or> ?R x" "\<And>x. sub_bounds x m2 = (if x = d then [] else sub_bounds x m)"
    "\<And>x. wait_inv (mc_dirs m2 x)" "\<And>x. pins (mc_dirs m2 x) PIN_SUBTREE = (if dir_root m2 x then 1 else 0)"
    by (rule enter_subtree [OF assms(2,3,4), of d]) blast
  have ab: "above (?R(d := True)) ?up x = above ?R ?up x" if "?R x \<or> x = d" for x
  proof -
    have "d \<notin> set (?up x)" using that no_roots_below_base [OF assms(1) rt assms(4,5)] assms(5) by auto
    then show ?thesis by (simp add: above_add [of ?up ?R d, OF env_up [OF assms(1)] assms(4)])
  qed
  have "above ?R ?up x \<noteq> Some d" for x using assms(4) by (auto dest: above_SomeD)
  moreover have "above ?R ?up d = None" using assms(5) by (simp add: above_def)
  ultimately have eq: "{x. (?R(d := True)) x \<and> above (?R(d := True)) ?up x = Some r} = (if r = d then {} else {x. ?R x \<and> above ?R ?up x = Some r})" for r
    using ab by auto
  have "subtree_inv e m2"
  proof (rule subtree_invI)
    fix r assume "dir_root m2 r"
    then show "set (sub_bounds r m2) = {x. dir_root m2 x \<and> above (dir_root m2) ?up x = Some r}"
      unfolding m(6) eq m(10) using subtree_inv_parts(5) [OF assms(2), of r] by (simp split: if_splits)
  next
    show "rooted e (dir_root m2)" unfolding m(6) by (rule rooted_add [OF assms(1) rt]) (use assms(5) in simp)
    show "is_subtree x m2 = dir_root m2 x" for x using m(6,9) by simp
  qed (use m in simp_all)
  then show thesis using that m by simp
qed

lemma new_subtree:
  assumes "env_ok e" "subtree_inv e m" "a \<noteq> CDIR_AUTH_DEFAULT" "\<not> dir_root m d" "above (dir_root m) (me_up e) d = Some r"
  obtains m1 m2 m3 where "on_dir d (dget PIN_SUBTREE) (put_bounds d [] m) = Some m1" "on_dir d (set_dir_auth a) m1 = Some m2"
    "claim_bounds e d r (sub_bounds r m2) m2 = Some m3" "auths (add_bound r d m3) = (auths m)(d := a)" "subtree_inv e (add_bound r d m3)"
    "dirs_kept m (add_bound r d m3)" "mc_log (add_bound r d m3) = mc_log m"
proof -
  let ?R = "dir_root m" and ?up = "me_up e"
  note inv = subtree_inv_parts [OF assms(2)]
  have uo: "up_ok ?up" by (rule env_up [OF assms(1)])
  have r: "?R r" "r \<in> set (?up d)" "r \<noteq> d" using above_SomeD [OF assms(5)] assms(4) by auto
  obtain m1 m2 where m: "on_dir d (dget PIN_SUBTREE) (put_bounds d [] m) = Some m1" "on_dir d (set_dir_auth a) m1 = Some m2"
    "subs_ok m2" "auths m2 = (auths m)(d := a)" "dir_root m2 = ?R(d := True)" "dirs_kept m m2" "mc_log m2 = mc_log m"
    "\<And>x. is_subtree x m2 \<longleftrightarrow> x = d \<or> ?R x" "\<And>x. sub_bounds x m2 = (if x = d then [] else sub_bounds x m)"
    "\<And>x. wait_inv (mc_dirs m2 x)" "\<And>x. pins (mc_dirs m2 x) PIN_SUBTREE = (if dir_root m2 x then 1 else 0)"
    by (rule enter_subtree [OF assms(2,3,4)]) blast
  have ab: "above (?R(d := True)) ?up x = (if d \<in> set (?up x) \<and> above ?R ?up x = Some r then Some d else above ?R ?up x)" for x
    using above_add [of ?up ?R d x, OF uo assms(4)] assms(5) by simp
  have bnd: "\<forall>p\<in>set (sub_bounds r m2). ?up p \<noteq> []"
    using inv(5) [OF r(1)] r(3) by (auto simp: m(9) above_def)
  obtain m3 where m3: "claim_bounds e d r (sub_bounds r m2) m2 = Some m3" "subs_ok m3" "mc_dirs m3 = mc_dirs m2" "mc_renames m3 = mc_renames m2"
    "mc_log m3 = mc_log m2" "\<And>x. is_subtree x m3 = is_subtree x m2"
    "\<And>x. set (sub_bounds x m3) = (if x = d then set (sub_bounds x m2) \<union> {p \<in> set (sub_bounds r m2). above (dir_root m2) ?up p = Some d}
       else if x = r then set (sub_bounds x m2) - {p \<in> set (sub_bounds r m2). above (dir_root m2) ?up p = Some d} else set (sub_bounds x m2))"
    by (rule claim_bounds_ok [OF assms(1) m(3), of d r "sub_bounds r m2"]) (use m(8) r bnd in auto)
  let ?m4 = "add_bound r d m3"
  have A: "auths ?m4 = (auths m)(d := a)" using m(4) m3(3) by (simp add: auths_def fun_eq_iff)
  have R: "dir_root ?m4 = ?R(d := True)" using m(5) m3(3) by (simp add: dir_root_def fun_eq_iff)
  have b4: "set (sub_bounds x ?m4) = {y. (?R(d := True)) y \<and> above (?R(d := True)) ?up y = Some x}" if rx: "(?R(d := True)) x" for x
  proof -
    have nd: "above ?R ?up y \<noteq> Some d" for y using assms(4) by (auto dest: above_SomeD)
    have dd: "d \<notin> set (?up d)" by (rule up_irrefl [OF uo])
    have bs: "set (sub_bounds x ?m4) = (if x = d then {p \<in> set (sub_bounds r m). above (?R(d := True)) ?up p = Some d}
       else if x = r then insert d (set (sub_bounds r m) - {p \<in> set (sub_bounds r m). above (?R(d := True)) ?up p = Some d}) else set (sub_bounds x m))"
      using r(3) by (simp add: add_bound_map [OF m3(2)] m3(7) m(5,9))
    consider "x = d" | "x = r" | "x \<noteq> d" "x \<noteq> r" "?R x" using rx by (auto split: if_splits)
    then show ?thesis
    proof cases
      case 1
      with bs inv(5) [OF r(1)] nd dd show ?thesis by (auto simp: ab split: if_splits)
    next
      case 2
      with bs inv(5) [OF r(1)] r(3) dd assms(5) show ?thesis by (auto simp: ab split: if_splits)
    next
      case 3
      with bs inv(5) [of x] dd assms(5) show ?thesis by (auto simp: ab split: if_splits)
    qed
  qed
  have "subtree_inv e ?m4"
  proof (rule subtree_invI)
    show "rooted e (dir_root ?m4)" unfolding R
      by (rule rooted_add [OF assms(1)]) (use assms(2,5) in \<open>simp_all add: subtree_inv_def\<close>)
    show "is_subtree x ?m4 = dir_root ?m4 x" for x using m(8) m3(6) R r(1) by (auto simp: add_bound_map [OF m3(2)])
  qed (use b4 R m m3 add_bound_map(3) [OF m3(2)] in simp_all)
  moreover have "dirs_kept m ?m4" using m(6) m3(3,4) by (simp add: dirs_kept_def)
  ultimately show thesis using that m(1,2,7) m3(1,5) A by simp
qed

text \<open>What changes popularity counters only, or only calls outward, is invisible.\<close>

definition pops_only :: "mdcache \<Rightarrow> mdcache \<Rightarrow> bool" where
  "pops_only m m' \<longleftrightarrow> mc_subtrees m' = mc_subtrees m \<and> mc_renames m' = mc_renames m \<and>
     (\<forall>x. mc_dirs m' x = (mc_dirs m x)\<lparr>pop_auth_subtree := pop_auth_subtree (mc_dirs m' x)\<rparr>)"

lemma pops_only_refl [simp]: "pops_only m m"
  by (simp add: pops_only_def)

lemma pops_only_trans [trans]:
  assumes "pops_only a b" "pops_only b c"
  shows "pops_only a c"
proof -
  have "mc_dirs c x = (mc_dirs a x)\<lparr>pop_auth_subtree := pop_auth_subtree (mc_dirs c x)\<rparr>" for x
  proof -
    have "mc_dirs c x = (mc_dirs b x)\<lparr>pop_auth_subtree := pop_auth_subtree (mc_dirs c x)\<rparr>" using assms(2) unfolding pops_only_def by blast
    also have "mc_dirs b x = (mc_dirs a x)\<lparr>pop_auth_subtree := pop_auth_subtree (mc_dirs b x)\<rparr>" using assms(1) unfolding pops_only_def by blast
    finally show ?thesis by simp
  qed
  with assms show ?thesis unfolding pops_only_def by simp
qed

lemma pops_only_fields:
  assumes "pops_only m m'"
  shows "co_state (mc_dirs m' x) = co_state (mc_dirs m x)" "cd_inode (mc_dirs m' x) = cd_inode (mc_dirs m x)"
    "dir_auth (mc_dirs m' x) = dir_auth (mc_dirs m x)" "pins (mc_dirs m' x) = pins (mc_dirs m x)" "wait_inv (mc_dirs m' x) = wait_inv (mc_dirs m x)"
proof -
  have e: "mc_dirs m' x = (mc_dirs m x)\<lparr>pop_auth_subtree := pop_auth_subtree (mc_dirs m' x)\<rparr>" using assms unfolding pops_only_def by blast
  show "co_state (mc_dirs m' x) = co_state (mc_dirs m x)" "cd_inode (mc_dirs m' x) = cd_inode (mc_dirs m x)"
    "dir_auth (mc_dirs m' x) = dir_auth (mc_dirs m x)" "pins (mc_dirs m' x) = pins (mc_dirs m x)" "wait_inv (mc_dirs m' x) = wait_inv (mc_dirs m x)"
    by (subst e, simp add: wait_inv_def frame_simps)+
qed

lemma pops_only_inv:
  assumes "pops_only m m'"
  shows "auths m' = auths m" "dirs_kept m m'" "subtree_inv e m' = subtree_inv e m"
proof -
  show A: "auths m' = auths m" using pops_only_fields(3) [OF assms] by (simp add: auths_def fun_eq_iff)
  show "dirs_kept m m'" using assms pops_only_fields(1,2) [OF assms] by (simp add: dirs_kept_def pops_only_def)
  have "mc_subtrees m' = mc_subtrees m" using assms by (simp add: pops_only_def)
  with A show "subtree_inv e m' = subtree_inv e m"
    by (simp add: subtree_inv_def subs_exact_def dirs_pinned_def dir_root_auths pops_only_fields [OF assms] is_subtree_def sub_bounds_def)
qed

lemma pop_walk_only: "pops_only m (pop_walk f d ps m)"
proof (induction ps arbitrary: m)
  case (Cons p ps)
  obtain n r where nr: "f (pop_auth_subtree (mc_dirs m p)) (pop_auth_subtree (mc_dirs m d)) = (n, r)" by fastforce
  let ?d1 = "(mc_dirs m)(p := (mc_dirs m p)\<lparr>pop_auth_subtree := n\<rparr>)"
  let ?m1 = "m\<lparr>mc_dirs := ?d1(d := (?d1 d)\<lparr>pop_auth_subtree := r\<rparr>)\<rparr>"
  have s: "pops_only m ?m1" by (simp add: pops_only_def)
  have "pop_walk f d (p # ps) m = (if dir_root ?m1 p then ?m1 else pop_walk f d ps ?m1)" by (simp only: pop_walk.simps nr Let_def case_prod_conv)
  with s pops_only_trans [OF s Cons.IH] show ?case by simp
qed simp

lemma mc_do_only [simp]: "pops_only m (mc_do x m)"
  by (simp add: pops_only_def mc_do_def)

lemma fold_mc_do_only: "pops_only m (fold mc_do xs m)"
proof (induction xs arbitrary: m)
  case (Cons x xs)
  from pops_only_trans [OF mc_do_only Cons.IH] show ?case by simp
qed simp

lemma outward_only: "pops_only m (pop_sub e d m)" "pops_only m (pop_add e d m)" "pops_only m (eval_subtree_root d m)" "pops_only m (merge_writebehind e d m)"
  "pops_only m (subtree_merge_writebehind_finish d m)"
  unfolding pop_sub_def pop_add_def eval_subtree_root_def merge_writebehind_def subtree_merge_writebehind_finish_def
  by (simp_all add: pop_walk_only fold_mc_do_only del: fold_simps fold.simps)

lemma set_subtree_auth_ok:
  assumes "env_ok e" "subtree_inv e m" "a \<noteq> CDIR_AUTH_DEFAULT" "boot \<Longrightarrow> me_up e d = []" "\<not> boot \<Longrightarrow> near (dir_root m) (me_up e) d \<noteq> None"
  obtains n m' where "set_subtree_auth e boot d a m = Some (n, m')" "subtree_inv e m'" "auths m' = (auths m)(d := a)" "dirs_kept m m'"
    "mc_log m' = mc_log m"
proof (cases "dir_root m d")
  case True
  obtain m' where m': "on_dir d (set_dir_auth a) m = Some m'" "subtree_inv e m'" "auths m' = (auths m)(d := a)"
    "dirs_kept m m'" "mc_log m' = mc_log m" by (rule set_root_auth [OF assms(2,3) True])
  have "is_subtree d m" "get_subtree_root e m d = Some d" using subtree_inv_parts(2) [OF assms(2)] True by (simp_all add: get_subtree_root_def)
  with m' show thesis by (intro that [of False m']) (simp_all add: set_subtree_auth_def)
next
  case False
  have ns: "\<not> is_subtree d m" using subtree_inv_parts(2) [OF assms(2)] False by simp
  show thesis
  proof (cases boot)
    case True
    obtain m1 m2 where "on_dir d (dget PIN_SUBTREE) (put_bounds d [] m) = Some m1" "is_subtree d m1" "on_dir d (set_dir_auth a) m1 = Some m2"
      "auths m2 = (auths m)(d := a)" "subtree_inv e m2" "dirs_kept m m2" "mc_log m2 = mc_log m"
      by (rule base_subtree [OF assms(1,2,3) False assms(4) [OF True]])
    with True ns show thesis by (intro that [of False m2]) (simp_all add: set_subtree_auth_def)
  next
    case nb: False
    then obtain r where r: "above (dir_root m) (me_up e) d = Some r" using assms(5) False by (auto simp: near_def)
    have rr: "get_subtree_root e m d = Some r" "is_subtree r m" "r \<noteq> d"
      using r False above_SomeD [OF r] subtree_inv_parts(2) [OF assms(2)] by (auto simp: get_subtree_root_near near_def)
    obtain m1 m2 m3 where "on_dir d (dget PIN_SUBTREE) (put_bounds d [] m) = Some m1" "on_dir d (set_dir_auth a) m1 = Some m2"
      "claim_bounds e d r (sub_bounds r m2) m2 = Some m3" "auths (add_bound r d m3) = (auths m)(d := a)" "subtree_inv e (add_bound r d m3)"
      "dirs_kept m (add_bound r d m3)" "mc_log (add_bound r d m3) = mc_log m"
      by (rule new_subtree [OF assms(1,2,3) False r])
    with nb ns rr show thesis by (intro that [of True "add_bound r d m3"]) (simp_all add: set_subtree_auth_def)
  qed
qed

lemma adjust_ok:
  assumes "env_ok e" "subtree_inv e m" "a \<noteq> CDIR_AUTH_DEFAULT" "me_up e d = [] \<or> near (dir_root m) (me_up e) d \<noteq> None"
  obtains m' where "adjust_subtree_auth e d a ev m = Some m'" "subtree_inv e m'" "auths m' = (auths m)(d := a)" "dirs_kept m m'"
proof -
  have b: "me_base e d \<longleftrightarrow> me_up e d = []" by (rule env_base [OF assms(1)])
  obtain n m1 where m1: "set_subtree_auth e (me_base e d) d a m = Some (n, m1)" "subtree_inv e m1" "auths m1 = (auths m)(d := a)" "dirs_kept m m1"
    by (rule set_subtree_auth_ok [OF assms(1,2,3), of "me_base e d" d]) (use b assms(4) in auto)
  define m2 where "m2 = (if n then if ev \<and> \<not> no_eval e then eval_subtree_root d (pop_sub e d m1) else pop_sub e d m1 else m1)"
  have o: "pops_only m1 m2" using pops_only_trans [OF outward_only(1) outward_only(3)] outward_only(1) by (simp add: m2_def)
  have "adjust_subtree_auth e d a ev m = Some m2" using m1(1) by (simp add: adjust_subtree_auth_def m2_def Let_def)
  moreover have "subtree_inv e m2" using pops_only_inv(3) [OF o] m1(2) by blast
  moreover have "auths m2 = (auths m)(d := a)" using pops_only_inv(1) [OF o] m1(3) by (rule trans)
  moreover have "dirs_kept m m2" by (rule dirs_kept_trans [OF m1(4) pops_only_inv(2) [OF o]])
  ultimately show thesis by (rule that)
qed

lemma merge_roots:
  assumes "env_ok e" "subtree_inv e m" "dir_root m d" "above (dir_root m) (me_up e) d = Some p"
  obtains m1 m3 where "on_dir d (set_dir_auth CDIR_AUTH_DEFAULT) m = Some m1"
    "on_dir d (dput PIN_SUBTREE) (fold (add_bound p) (sub_bounds d m1) m1) = Some m3"
    "auths (del_bound p d (erase_subtree d m3)) = (auths m)(d := CDIR_AUTH_DEFAULT)" "subtree_inv e (del_bound p d (erase_subtree d m3))"
    "dirs_kept m (del_bound p d (erase_subtree d m3))"
proof -
  let ?R = "dir_root m" and ?up = "me_up e"
  note inv = subtree_inv_parts [OF assms(2)]
  have uo: "up_ok ?up" by (rule env_up [OF assms(1)])
  have p: "?R p" "p \<in> set (?up d)" using above_SomeD [OF assms(4)] by simp_all
  have pd: "p \<noteq> d" using p(2) up_irrefl [OF uo, of d] by auto
  obtain m1 where m1: "on_dir d (set_dir_auth CDIR_AUTH_DEFAULT) m = Some m1" "touched d m m1"
    "pins (mc_dirs m1 d) PIN_SUBTREE = pins (mc_dirs m d) PIN_SUBTREE" "auths m1 = (auths m)(d := CDIR_AUTH_DEFAULT)" by (rule on_set_dir_auth [OF inv(3)])
  note t1 = touched_map [OF m1(2)]
  let ?m2 = "fold (add_bound p) (sub_bounds d m1) m1"
  have ok1: "subs_ok m1" using t1(3) inv(1) by simp
  note f2 = add_bounds_map [OF ok1]
  have w1: "wait_inv (mc_dirs m1 x)" for x by (rule touched_wait [OF m1(2) inv(3)])
  have w2: "wait_inv (mc_dirs ?m2 x)" for x using w1 f2(4) by simp
  have pos: "0 < pins (mc_dirs ?m2 d) PIN_SUBTREE" using m1(3) inv(4) assms(3) f2(4) by simp
  obtain m3 where m3: "on_dir d (dput PIN_SUBTREE) ?m2 = Some m3" "touched d ?m2 m3"
    "pins (mc_dirs m3 d) PIN_SUBTREE = pins (mc_dirs ?m2 d) PIN_SUBTREE - 1" "auths m3 = auths ?m2" by (rule on_dput [OF w2 pos])
  note t3 = touched_map [OF m3(2)]
  let ?m4 = "del_bound p d (erase_subtree d m3)"
  have ok3: "subs_ok m3" using t3(3) f2(3) by simp
  have ok4: "subs_ok (erase_subtree d m3)" by (rule erase_subtree_map(3) [OF ok3])
  have "auths ?m2 = auths m1" using f2(4) by (simp add: auths_def fun_eq_iff)
  then have A: "auths ?m4 = (auths m)(d := CDIR_AUTH_DEFAULT)" using m3(4) m1(4) by (simp add: auths_def fun_eq_iff)
  have R: "dir_root ?m4 = ?R(d := False)" unfolding dir_root_auths A by (auto simp: fun_eq_iff)
  have ab: "above (?R(d := False)) ?up x = (if above ?R ?up x = Some d then Some p else above ?R ?up x)" for x
    using above_del [OF uo, of ?R d x] assms(4) by simp
  have b4: "set (sub_bounds x ?m4) = {y. (?R(d := False)) y \<and> above (?R(d := False)) ?up y = Some x}" if rx: "(?R(d := False)) x" for x
  proof -
    have xd: "x \<noteq> d" "?R x" using rx by (auto split: if_splits)
    have "set (sub_bounds x ?m4) = (if x = p then set (sub_bounds d m) \<union> set (sub_bounds x m) - {d} else set (sub_bounds x m))"
      using xd(1) by (simp add: del_bound_map(2) [OF ok4] erase_subtree_map(2) [OF ok3] t3(2) f2(2) t1(2))
    then show ?thesis using inv(5) [OF xd(2)] inv(5) [OF assms(3)] assms(4) xd by (auto simp: ab split: if_splits)
  qed
  have "subtree_inv e ?m4"
  proof (rule subtree_invI)
    show "rooted e (dir_root ?m4)" unfolding R by (rule rooted_del [OF assms(1) _ assms(4)]) (use assms(2) in \<open>simp add: subtree_inv_def\<close>)
    show "is_subtree x ?m4 = dir_root ?m4 x" for x
      using R p(1) pd inv(2) by (auto simp: del_bound_map(1) [OF ok4] erase_subtree_map(1) [OF ok3] t3(1) f2(1) t1(1))
    show "wait_inv (mc_dirs ?m4 x)" for x using touched_wait [OF m3(2) w2] by simp
    show "pins (mc_dirs ?m4 x) PIN_SUBTREE = (if dir_root ?m4 x then 1 else 0)" for x
      using touched_pins [OF m1(2), of x] touched_pins [OF m3(2), of x] m1(3) m3(3) inv(4) assms(3) R f2(4) by (cases "x = d") simp_all
  qed (use b4 R del_bound_map(3) [OF ok4] in simp_all)
  moreover have "dirs_kept m1 ?m2" using f2(4,5) by (simp add: dirs_kept_def)
  then have "dirs_kept m m3" using touched_kept [OF m1(2)] touched_kept [OF m3(2)] by (blast intro: dirs_kept_trans)
  then have "dirs_kept m ?m4" by (simp add: dirs_kept_def)
  ultimately show thesis using that m1(1) m3(1) A by blast
qed

text \<open>When a subtree is merged into its parent.\<close>

definition mergeable :: "mdc_env \<Rightarrow> mdcache \<Rightarrow> dir_ptr \<Rightarrow> bool" where
  "mergeable e m d \<longleftrightarrow> (\<exists>p. above (dir_root m) (me_up e) d = Some p \<and> auths m p = auths m d) \<and>
     snd (auths m d) = CDIR_AUTH_UNKNOWN \<and> \<not> state_test STATE_EXPORTBOUND (mc_dirs m d)"

lemma merge_at_ok:
  assumes "env_ok e" "subtree_inv e m" "dir_root m d"
  obtains m' where "try_subtree_merge_at e d ev m = Some m'" "subtree_inv e m'" "dirs_kept m m'"
    "auths m' = (if mergeable e m d then (auths m)(d := CDIR_AUTH_DEFAULT) else auths m)"
proof (cases "mergeable e m d")
  case True
  then obtain p where p: "above (dir_root m) (me_up e) d = Some p" "auths m p = auths m d" "snd (auths m d) = CDIR_AUTH_UNKNOWN"
    "\<not> state_test STATE_EXPORTBOUND (mc_dirs m d)" by (auto simp: mergeable_def)
  have pu: "p \<in> set (me_up e d)" using above_SomeD [OF p(1)] by simp
  then have nb: "\<not> me_base e d" using env_base [OF assms(1), of d] by auto
  have pd: "p \<noteq> d" using pu up_irrefl [OF env_up [OF assms(1)], of d] by auto
  obtain m1 m3 where m: "on_dir d (set_dir_auth CDIR_AUTH_DEFAULT) m = Some m1"
    "on_dir d (dput PIN_SUBTREE) (fold (add_bound p) (sub_bounds d m1) m1) = Some m3"
    "auths (del_bound p d (erase_subtree d m3)) = (auths m)(d := CDIR_AUTH_DEFAULT)" "subtree_inv e (del_bound p d (erase_subtree d m3))"
    "dirs_kept m (del_bound p d (erase_subtree d m3))" by (rule merge_roots [OF assms p(1)])
  define m4 where "m4 = del_bound p d (erase_subtree d m3)"
  define m5 where "m5 = pop_add e d m4"
  define m6 where "m6 = (if ev \<and> \<not> no_eval e then eval_subtree_root d m5 else m5)"
  define m7 where "m7 = merge_writebehind e d m6"
  have "pops_only m4 m5" "pops_only m5 m6" "pops_only m6 m7" by (simp_all add: m5_def m6_def m7_def outward_only)
  then have o: "pops_only m4 m7" by (blast intro: pops_only_trans)
  have "try_subtree_merge_at e d ev m = Some m7"
    using nb pd p m(1,2) subtree_inv_parts(2) [OF assms(2), of d] assms(3)
    by (simp add: try_subtree_merge_at_def parent_root_above [OF assms(1)] auths_def Let_def m4_def m5_def m6_def m7_def)
  moreover have "subtree_inv e m7" using pops_only_inv(3) [OF o] m(4) by (simp add: m4_def)
  moreover have "auths m7 = (auths m)(d := CDIR_AUTH_DEFAULT)" using pops_only_inv(1) [OF o] m(3) by (simp add: m4_def)
  moreover have "dirs_kept m m7" using m(5) pops_only_inv(2) [OF o] unfolding m4_def by (rule dirs_kept_trans)
  ultimately show thesis using that True by simp
next
  case False
  have s: "is_subtree d m" using subtree_inv_parts(2) [OF assms(2)] assms(3) by simp
  have "try_subtree_merge_at e d ev m = Some m"
  proof (cases "me_base e d")
    case True
    with s show ?thesis by (simp add: try_subtree_merge_at_def)
  next
    case nb: False
    then obtain p where "above (dir_root m) (me_up e) d = Some p"
      using assms(2,3) env_base [OF assms(1), of d] by (auto simp: subtree_inv_def rooted_def)
    with nb s False show ?thesis
      by (auto simp: try_subtree_merge_at_def parent_root_above [OF assms(1)] mergeable_def auths_def)
  qed
  with False assms(2) show thesis by (intro that [of m]) simp_all
qed

section \<open>Merging is invisible\<close>

lemma responsible_near: "near (roots A) (me_up e) x = Some r \<Longrightarrow> responsible e A x = Some (A r)"
  by (simp add: responsible_def)

lemma near_del:
  assumes "up_ok up"
  shows "near (R(d := False)) up x = (if near R up x = Some d then above R up d else near R up x)"
  using above_del [OF assms, of R d x] by (auto simp: near_def dest: above_SomeD)

text \<open>Dropping a root that has the authority of the root above it changes nobody's authority.\<close>

lemma roots_upd: "roots (A(d := CDIR_AUTH_DEFAULT)) = (roots A)(d := False)" "a \<noteq> CDIR_AUTH_DEFAULT \<Longrightarrow> roots (A(d := a)) = (roots A)(d := True)"
  by (auto simp: fun_eq_iff)

lemma responsible_merge:
  assumes "env_ok e" "above (roots A) (me_up e) d = Some p" "A p = A d"
  shows "responsible e (A(d := CDIR_AUTH_DEFAULT)) = responsible e A"
    "map_option (A(d := CDIR_AUTH_DEFAULT)) (above (roots (A(d := CDIR_AUTH_DEFAULT))) (me_up e) x) = map_option A (above (roots A) (me_up e) x)"
proof -
  have uo: "up_ok (me_up e)" using assms(1) by simp
  have pd: "p \<noteq> d" using above_SomeD [OF assms(2)] up_irrefl [OF uo, of d] by auto
  show "responsible e (A(d := CDIR_AUTH_DEFAULT)) = responsible e A"
  proof
    fix y
    show "responsible e (A(d := CDIR_AUTH_DEFAULT)) y = responsible e A y"
      unfolding responsible_def roots_upd near_del [OF uo] using assms(2,3) pd by (cases "near (roots A) (me_up e) y") auto
  qed
  show "map_option (A(d := CDIR_AUTH_DEFAULT)) (above (roots (A(d := CDIR_AUTH_DEFAULT))) (me_up e) x) = map_option A (above (roots A) (me_up e) x)"
    unfolding roots_upd above_del [OF uo] using assms(2,3) pd by (cases "above (roots A) (me_up e) x") auto
qed

text \<open>\<open>merged e m m'\<close>: some roots were merged, nothing else happened.\<close>

definition merged :: "mdc_env \<Rightarrow> mdcache \<Rightarrow> mdcache \<Rightarrow> bool" where
  "merged e m m' \<longleftrightarrow> subtree_inv e m' \<and> dirs_kept m m' \<and> responsible e (auths m') = responsible e (auths m) \<and>
     (\<forall>x. auths m' x = auths m x \<or> auths m' x = CDIR_AUTH_DEFAULT) \<and>
     (\<forall>x. map_option (auths m') (above (dir_root m') (me_up e) x) = map_option (auths m) (above (dir_root m) (me_up e) x))"

lemma merged_refl: "subtree_inv e m \<Longrightarrow> merged e m m"
  by (simp add: merged_def)

lemma merged_trans: "merged e a b \<Longrightarrow> merged e b c \<Longrightarrow> merged e a c"
  unfolding merged_def by (intro conjI; metis dirs_kept_trans)

text \<open>Whether a root can be merged does not change with other merges.\<close>

lemma mergeable_merged:
  assumes "merged e m m'" "dir_root m' x"
  shows "mergeable e m' x = mergeable e m x"
proof -
  have a: "auths m' x = auths m x" using assms by (auto simp: merged_def dir_root_auths)
  have m: "mergeable e n x \<longleftrightarrow> map_option (auths n) (above (dir_root n) (me_up e) x) = Some (auths n x) \<and>
     snd (auths n x) = CDIR_AUTH_UNKNOWN \<and> co_state (mc_dirs n x) AND STATE_EXPORTBOUND = 0" for n
    by (auto simp: mergeable_def state_test_def)
  show ?thesis unfolding m using assms(1) a by (simp add: merged_def dirs_kept_def)
qed

lemma merge_at_merged:
  assumes "env_ok e" "subtree_inv e m" "dir_root m d"
  obtains m' where "try_subtree_merge_at e d ev m = Some m'" "merged e m m'" "\<And>x. x \<noteq> d \<Longrightarrow> auths m' x = auths m x"
    "dir_root m' d \<longleftrightarrow> \<not> mergeable e m d"
proof -
  obtain m' where m': "try_subtree_merge_at e d ev m = Some m'" "subtree_inv e m'" "dirs_kept m m'"
    "auths m' = (if mergeable e m d then (auths m)(d := CDIR_AUTH_DEFAULT) else auths m)" by (rule merge_at_ok [OF assms])
  show thesis
  proof (cases "mergeable e m d")
    case True
    then obtain p where p: "above (roots (auths m)) (me_up e) d = Some p" "auths m p = auths m d" by (auto simp: mergeable_def dir_root_auths)
    have "merged e m m'" using m'(2,3) responsible_merge [OF assms(1) p] True m'(4) by (simp add: merged_def dir_root_auths)
    with m' True show thesis by (intro that [of m']) (simp_all add: dir_root_auths)
  next
    case False
    with m'(4) have e: "auths m' = auths m" by simp
    have "merged e m m'" using m'(2,3) by (simp add: merged_def dir_root_auths e)
    with m' False assms(3) show thesis by (intro that [of m']) (simp_all add: dir_root_auths)
  qed
qed

lemma merge_each:
  assumes "env_ok e" "subtree_inv e m" "\<forall>d\<in>set ds. dir_root m d" "distinct ds"
  obtains m' where "each_dir (\<lambda>p. try_subtree_merge_at e p True) ds m = Some m'" "merged e m m'" "\<And>x. x \<notin> set ds \<Longrightarrow> auths m' x = auths m x"
    "\<And>d. d \<in> set ds \<Longrightarrow> dir_root m' d \<longleftrightarrow> \<not> mergeable e m d"
proof -
  have "\<exists>m'. each_dir (\<lambda>p. try_subtree_merge_at e p True) ds m = Some m' \<and> merged e m m' \<and> (\<forall>x. x \<notin> set ds \<longrightarrow> auths m' x = auths m x) \<and>
      (\<forall>d\<in>set ds. dir_root m' d \<longleftrightarrow> \<not> mergeable e m d)"
    using assms(2-4)
  proof (induction ds arbitrary: m)
    case Nil
    then show ?case using merged_refl by simp
  next
    case (Cons d ds)
    obtain m1 where m1: "try_subtree_merge_at e d True m = Some m1" "merged e m m1" "\<And>x. x \<noteq> d \<Longrightarrow> auths m1 x = auths m x"
      "dir_root m1 d \<longleftrightarrow> \<not> mergeable e m d" by (rule merge_at_merged [OF assms(1) Cons.prems(1), of d True]) (use Cons.prems in auto)
    have r1: "\<forall>x\<in>set ds. dir_root m1 x"
    proof
      fix x assume x: "x \<in> set ds"
      with Cons.prems(3) have "x \<noteq> d" by auto
      from m1(3) [OF this] x Cons.prems(2) show "dir_root m1 x" by (simp add: dir_root_auths)
    qed
    obtain m2 where m2: "each_dir (\<lambda>p. try_subtree_merge_at e p True) ds m1 = Some m2" "merged e m1 m2" "\<forall>x. x \<notin> set ds \<longrightarrow> auths m2 x = auths m1 x"
      "\<forall>d\<in>set ds. dir_root m2 d \<longleftrightarrow> \<not> mergeable e m1 d"
      using Cons.IH [of m1] m1(2) r1 Cons.prems(3) by (auto simp: merged_def)
    show ?case
    proof (intro exI [of _ m2] conjI ballI)
      show "merged e m m2" by (rule merged_trans [OF m1(2) m2(2)])
      fix x assume x: "x \<in> set (d # ds)"
      show "dir_root m2 x \<longleftrightarrow> \<not> mergeable e m x"
      proof (cases "x = d")
        case True
        then have "auths m2 x = auths m1 x" using m2(3) Cons.prems(3) by simp
        then have "dir_root m2 x = dir_root m1 x" by (simp add: dir_root_auths)
        with True m1(4) show ?thesis by simp
      next
        case False
        with x m2(4) r1 mergeable_merged [OF m1(2), of x] show ?thesis by simp
      qed
    qed (use m1 m2 in auto)
  qed
  then show thesis using that by blast
qed

lemma merge_tree_merged:
  assumes "env_ok e" "subtree_inv e m" "dir_root m d"
  obtains m' where "try_subtree_merge e d m = Some m'" "merged e m m'" "\<And>x. x \<notin> set (d # sub_bounds d m) \<Longrightarrow> dir_root m' x = dir_root m x"
    "\<And>x. x \<in> set (d # sub_bounds d m) \<Longrightarrow> dir_root m' x \<Longrightarrow> \<not> mergeable e m' x"
proof -
  note inv = subtree_inv_parts [OF assms(2)]
  have bs: "set (sub_bounds d m) = {x. dir_root m x \<and> above (dir_root m) (me_up e) x = Some d}" by (rule inv(5) [OF assms(3)])
  have nd: "d \<notin> set (sub_bounds d m)" using up_irrefl [OF env_up [OF assms(1)], of d] by (auto simp: bs dest: above_SomeD)
  have ds: "distinct (sub_bounds d m)" using inv(1) by (auto simp: subs_ok_def strict_sorted_iff)
  obtain m1 where m1: "try_subtree_merge_at e d True m = Some m1" "merged e m m1" "\<And>x. x \<noteq> d \<Longrightarrow> auths m1 x = auths m x"
    "dir_root m1 d \<longleftrightarrow> \<not> mergeable e m d" by (rule merge_at_merged [OF assms, of True]) blast
  have i1: "subtree_inv e m1" using m1(2) by (simp add: merged_def)
  have r1: "\<forall>x\<in>set (sub_bounds d m). dir_root m1 x"
  proof
    fix x assume x: "x \<in> set (sub_bounds d m)"
    then have "x \<noteq> d" using nd by auto
    from m1(3) [OF this] x show "dir_root m1 x" by (simp add: dir_root_auths bs)
  qed
  obtain m2 where m2: "each_dir (\<lambda>p. try_subtree_merge_at e p True) (sub_bounds d m) m1 = Some m2" "merged e m1 m2"
    "\<And>x. x \<notin> set (sub_bounds d m) \<Longrightarrow> auths m2 x = auths m1 x" "\<And>x. x \<in> set (sub_bounds d m) \<Longrightarrow> dir_root m2 x \<longleftrightarrow> \<not> mergeable e m1 x"
    by (rule merge_each [OF assms(1) i1 r1 ds]) blast
  have mm: "merged e m m2" by (rule merged_trans [OF m1(2) m2(2)])
  show thesis
  proof (rule that [of m2])
    show "try_subtree_merge e d m = Some m2" using m1(1) m2(1) inv(2) assms(3) by (simp add: try_subtree_merge_def Let_def)
    fix x
    show "\<not> mergeable e m2 x" if "x \<in> set (d # sub_bounds d m)" "dir_root m2 x"
    proof (cases "x = d")
      case True
      have "auths m2 d = auths m1 d" by (rule m2(3) [OF nd])
      then have "\<not> mergeable e m d" using that(2) True m1(4) by (simp add: dir_root_auths)
      then show ?thesis using mergeable_merged [OF mm that(2)] True by simp
    next
      case False
      then show ?thesis using that m2(4) [of x] mergeable_merged [OF m2(2) that(2)] by simp
    qed
    show "dir_root m2 x = dir_root m x" if "x \<notin> set (d # sub_bounds d m)"
      using that m1(3) [of x] m2(3) [of x] by (simp add: dir_root_auths)
  qed (rule mm)
qed

text \<open>Merging is invisible and complete: started at any subtree of a consistent map it does not abort,
  leaves every directory with the authority it had and the map consistent, and what remains of the
  subtree and its former bounds cannot be merged any further.\<close>

lemma merge_invisible:
  assumes "env_ok e" "subtree_inv e m" "dir_root m d"
  shows "\<exists>m'. try_subtree_merge e d m = Some m' \<and> subtree_inv e m' \<and> responsible e (auths m') = responsible e (auths m) \<and>
     (\<forall>x\<in>set (d # sub_bounds d m). dir_root m' x \<longrightarrow> \<not> mergeable e m' x) \<and>
     (\<forall>x. x \<notin> set (d # sub_bounds d m) \<longrightarrow> dir_root m' x = dir_root m x)"
proof -
  obtain m' where "try_subtree_merge e d m = Some m'" "merged e m m'" "\<And>x. x \<notin> set (d # sub_bounds d m) \<Longrightarrow> dir_root m' x = dir_root m x"
    "\<And>x. x \<in> set (d # sub_bounds d m) \<Longrightarrow> dir_root m' x \<Longrightarrow> \<not> mergeable e m' x"
    by (rule merge_tree_merged [OF assms]) blast
  then show ?thesis by (intro exI [of _ m']) (auto simp: merged_def)
qed

section \<open>The bounds a subtree would have\<close>

lemma climb_past_ok:
  assumes "up_ok up" "r \<in> set (up d)" "t = r \<or> r \<in> set (up t)"
  shows "climb_past d r p (up t) t bs = Some (if d \<in> set (up t) then os_insert p bs else bs)"
  using assms(3)
proof (induction "up t" arbitrary: t bs)
  case Nil
  then have "t = r" by auto
  with Nil show ?case by simp
next
  case (Cons t1 ts)
  have u1: "up t1 = ts" by (rule up_step [OF assms(1) Cons.hyps(2) [symmetric]])
  show ?case
  proof (cases "t = r")
    case True
    have "d \<notin> set (up r)" using up_less [OF assms(1), of d r] up_less [OF assms(1) assms(2)] by auto
    with True show ?thesis by simp
  next
    case False
    have t1: "t1 = r \<or> r \<in> set (up t1)" using Cons.prems False Cons.hyps(2) [symmetric] u1 by auto
    have nd: "t1 = d \<Longrightarrow> d \<notin> set ts" using up_irrefl [OF assms(1), of d] u1 by auto
    from Cons.hyps(1) [OF u1 [symmetric] t1, of "if t1 = d then os_insert p bs else bs"] False nd u1
    show ?thesis by (simp add: Cons.hyps(2) [symmetric])
  qed
qed

lemma wouldbe_bounds_ok:
  assumes "up_ok (me_up e)" "r \<in> set (me_up e d)" "\<forall>p\<in>set ps. r \<in> set (me_up e p)" "sorted_wrt (<) bs"
  shows "\<exists>bs'. wouldbe_bounds e d r ps bs = Some bs' \<and> sorted_wrt (<) bs' \<and> set bs' = set bs \<union> {p \<in> set ps. d \<in> set (me_up e p)}"
  using assms(3,4)
proof (induction ps arbitrary: bs)
  case (Cons p ps)
  let ?b1 = "if d \<in> set (me_up e p) then os_insert p bs else bs"
  have c: "climb_past d r p (me_up e p) p bs = Some ?b1" by (rule climb_past_ok [OF assms(1,2)]) (use Cons.prems in simp)
  have "sorted_wrt (<) ?b1" using Cons.prems(2) by (simp add: os_insert_sorted)
  from Cons.IH [OF _ this] Cons.prems(1) obtain bs' where bs': "wouldbe_bounds e d r ps ?b1 = Some bs'" "sorted_wrt (<) bs'"
    "set bs' = set ?b1 \<union> {p \<in> set ps. d \<in> set (me_up e p)}" by auto
  have "wouldbe_bounds e d r (p # ps) bs = Some bs'" by (simp only: wouldbe_bounds.simps c Option.bind.bind_lunit bs'(1))
  moreover have "set bs' = set bs \<union> {q \<in> set (p # ps). d \<in> set (me_up e q)}" using bs'(3) by (auto split: if_splits)
  ultimately show ?case using bs'(2) by blast
qed simp

text \<open>C16: The prediction is exact: the bounds that \<^verbatim>\<open>get_wouldbe_subtree_bounds\<close> computes for a directory that
  lies in some subtree are the bounds the directory has once it has been made a subtree.\<close>

theorem wouldbe_bounds_exact:
  assumes "env_ok e" "subtree_inv e m" "a \<noteq> CDIR_AUTH_DEFAULT" "near (dir_root m) (me_up e) d \<noteq> None"
  shows "\<exists>m'. adjust_subtree_auth e d a ev m = Some m' \<and> get_wouldbe_subtree_bounds e d m = get_subtree_bounds d m'"
proof -
  note inv = subtree_inv_parts [OF assms(2)]
  have uo: "up_ok (me_up e)" using assms(1) by simp
  obtain m' where m': "adjust_subtree_auth e d a ev m = Some m'" "subtree_inv e m'" "auths m' = (auths m)(d := a)"
    by (rule adjust_ok [OF assms(1,2,3), of d ev]) (use assms(4) in auto)
  note inv' = subtree_inv_parts [OF m'(2)]
  have R': "dir_root m' = (dir_root m)(d := True)" using assms(3) by (auto simp: dir_root_auths m'(3) fun_eq_iff)
  then have s': "get_subtree_bounds d m' = Some (sub_bounds d m')" using inv'(2) [of d] by (simp add: get_subtree_bounds_def)
  have srt: "sorted_wrt (<) (sub_bounds d m')" using inv'(1) by (simp add: subs_ok_def)
  have "\<exists>bs. get_wouldbe_subtree_bounds e d m = Some bs \<and> sorted_wrt (<) bs \<and> set bs = set (sub_bounds d m')"
  proof (cases "dir_root m d")
    case True
    then have "dir_root m' = dir_root m" using R' by (auto simp: fun_eq_iff)
    then have "set (sub_bounds d m') = set (sub_bounds d m)" using inv(5) [OF True] inv'(5) [of d] True by simp
    then show ?thesis using True inv(1,2) by (simp add: get_wouldbe_subtree_bounds_def get_subtree_bounds_def subs_ok_def)
  next
    case False
    then obtain r where r: "above (dir_root m) (me_up e) d = Some r" using assms(4) by (auto simp: near_def)
    have rr: "dir_root m r" "r \<in> set (me_up e d)" using above_SomeD [OF r] by simp_all
    have bs: "set (sub_bounds r m) = {x. dir_root m x \<and> above (dir_root m) (me_up e) x = Some r}" by (rule inv(5) [OF rr(1)])
    then have "\<forall>p\<in>set (sub_bounds r m). r \<in> set (me_up e p)" by (auto dest: above_SomeD)
    from wouldbe_bounds_ok [OF uo rr(2) this, of "[]"] obtain bs' where bs': "wouldbe_bounds e d r (sub_bounds r m) [] = Some bs'" "sorted_wrt (<) bs'"
      "set bs' = {p \<in> set (sub_bounds r m). d \<in> set (me_up e p)}" by auto
    have dd: "d \<notin> set (me_up e d)" by (rule up_irrefl [OF uo])
    have nd: "above (dir_root m) (me_up e) x \<noteq> Some d" for x using False by (auto dest: above_SomeD)
    have "set (sub_bounds d m') = {x. (dir_root m' x) \<and> above (dir_root m') (me_up e) x = Some d}" by (rule inv'(5)) (simp add: R')
    also have "\<dots> = {x. dir_root m x \<and> d \<in> set (me_up e x) \<and> above (dir_root m) (me_up e) x = Some r}"
      unfolding R' above_add [of "me_up e" "dir_root m" d, OF uo False] r using dd nd by auto
    also have "\<dots> = set bs'" using bs'(3) bs by auto
    finally show ?thesis using bs' r False inv(2)
      by (simp add: get_wouldbe_subtree_bounds_def get_subtree_root_near near_def)
  qed
  then obtain bs where "get_wouldbe_subtree_bounds e d m = Some bs" "sorted_wrt (<) bs" "set bs = set (sub_bounds d m')" by blast
  moreover from this srt have "bs = sub_bounds d m'" by (metis strict_sorted_equal)
  ultimately show ?thesis using m'(1) s' by auto
qed

section \<open>Removing a subtree\<close>

text \<open>A subtree without bounds leaves the map and the bounds of its parent; its pin is dropped. The directory
  itself, which the caller is about to close, keeps its authority.\<close>

lemma remove_subtree_exact:
  assumes "env_ok e" "subtree_inv e m" "dir_root m d" "sub_bounds d m = []"
  shows "\<exists>m'. remove_subtree e d m = Some m' \<and> subs_exact e ((dir_root m)(d := False)) m' \<and> dirs_pinned ((dir_root m)(d := False)) m' \<and> auths m' = auths m"
proof -
  let ?R = "dir_root m" and ?up = "me_up e"
  note inv = subtree_inv_parts [OF assms(2)]
  have uo: "up_ok ?up" using assms(1) by simp
  let ?m0 = "erase_subtree d m"
  have pos: "0 < pins (mc_dirs ?m0 d) PIN_SUBTREE" "wait_inv (mc_dirs ?m0 x)" for x using inv(3,4) assms(3) by simp_all
  obtain m1 where m1: "on_dir d (dput PIN_SUBTREE) ?m0 = Some m1" "touched d ?m0 m1"
    "pins (mc_dirs m1 d) PIN_SUBTREE = pins (mc_dirs ?m0 d) PIN_SUBTREE - 1" "auths m1 = auths ?m0" by (rule on_dput [OF pos(2,1)])
  have A: "auths m1 = auths m" using m1(4) by (simp add: auths_def fun_eq_iff)
  have R1: "dir_root m1 = ?R" by (simp add: dir_root_auths A)
  note t1 = touched_map [OF m1(2)] erase_subtree_map [OF inv(1)]
  have ok1: "subs_ok m1" using t1 by simp
  have pn: "dirs_pinned (?R(d := False)) m1"
    unfolding dirs_pinned_def using touched_wait [OF m1(2) pos(2)] touched_pins [OF m1(2)] m1(3) inv(4) assms(3)
    by (auto split: if_splits)
  have nc: "above ?R ?up x \<noteq> Some d" if "?R x" for x using inv(5) [OF assms(3)] assms(4) that by auto
  then have ab: "above (?R(d := False)) ?up x = above ?R ?up x" if "?R x" for x using that above_del [OF uo, of ?R d x] by simp
  have ex: "subs_exact e (?R(d := False)) m2"
    if "subs_ok m2" "\<And>x. is_subtree x m2 \<longleftrightarrow> x \<noteq> d \<and> ?R x" "\<And>x. ?R x \<Longrightarrow> x \<noteq> d \<Longrightarrow> set (sub_bounds x m2) = set (sub_bounds x m) - {d}" for m2
    unfolding subs_exact_def using that inv(5) ab by (auto simp: subs_ok_def split: if_splits)
  have s1: "is_subtree x m1 \<longleftrightarrow> x \<noteq> d \<and> ?R x" "set (sub_bounds x m1) = (if x = d then {} else set (sub_bounds x m))" for x
    using t1 inv(2) by simp_all
  show ?thesis
  proof (cases "get_parent_dir e d")
    case None
    then have "?up d = []" by (cases "?up d") (simp_all add: get_parent_dir_def)
    then have "d \<notin> set (sub_bounds x m)" if "?R x" for x using inv(5) [OF that] by (auto simp: above_def)
    then have "subs_exact e (?R(d := False)) m1" by (intro ex [OF ok1]) (simp_all add: s1)
    with None m1(1) A pn assms(3,4) inv(2) show ?thesis by (simp add: remove_subtree_def)
  next
    case (Some q)
    then have "?up d \<noteq> []" by (auto simp: get_parent_dir_def split: list.splits)
    then obtain p where p: "above ?R ?up d = Some p" using assms(2,3) by (auto simp: subtree_inv_def rooted_def)
    have pp: "?R p" "p \<noteq> d" using above_SomeD [OF p] up_irrefl [OF uo, of d] by auto
    have gp: "get_subtree_root e m1 q = Some p" using parent_root_above [OF assms(1), of m1 d] Some p by (simp add: parent_root_def R1)
    have db: "d \<in> set (sub_bounds p m1)" using inv(5) [OF pp(1)] p assms(3) pp(2) by (simp add: s1)
    have "subs_exact e (?R(d := False)) (del_bound p d m1)"
    proof (rule ex)
      show "subs_ok (del_bound p d m1)" by (rule del_bound_map(3) [OF ok1])
      show "is_subtree x (del_bound p d m1) \<longleftrightarrow> x \<noteq> d \<and> ?R x" for x using pp by (auto simp: del_bound_map [OF ok1] s1)
      show "set (sub_bounds x (del_bound p d m1)) = set (sub_bounds x m) - {d}" if "?R x" "x \<noteq> d" for x
        using that inv(5) [OF that(1)] p by (auto simp: del_bound_map [OF ok1] s1)
    qed
    moreover have "dirs_pinned (?R(d := False)) (del_bound p d m1)" "auths (del_bound p d m1) = auths m"
      using pn A by (simp_all add: dirs_pinned_def auths_def fun_eq_iff)
    ultimately show ?thesis using Some m1(1) gp db assms(3,4) inv(2) by (simp add: remove_subtree_def)
  qed
qed

section \<open>Runs\<close>

text \<open>The operations the rest of the server uses, on the map and, after the colon, on the authorities.\<close>

datatype sub_op = OpAdjust dir_ptr mds_authority_t bool | OpMergeAt dir_ptr bool | OpMerge dir_ptr

fun sub_step :: "mdc_env \<Rightarrow> sub_op \<Rightarrow> mdcache \<Rightarrow> mdcache option" where
  "sub_step e (OpAdjust d a ev) m = adjust_subtree_auth e d a ev m"
| "sub_step e (OpMergeAt d ev) m = try_subtree_merge_at e d ev m"
| "sub_step e (OpMerge d) m = try_subtree_merge e d m"

text \<open>A subtree is made at a base directory or below an existing one, and merges start at subtrees.\<close>

fun sub_allowed :: "mdc_env \<Rightarrow> sub_op \<Rightarrow> mdcache \<Rightarrow> bool" where
  "sub_allowed e (OpAdjust d a ev) m \<longleftrightarrow> a \<noteq> CDIR_AUTH_DEFAULT \<and> (me_up e d = [] \<or> get_subtree_root e m d \<noteq> None)"
| "sub_allowed e (OpMergeAt d ev) m \<longleftrightarrow> dir_root m d"
| "sub_allowed e (OpMerge d) m \<longleftrightarrow> dir_root m d"

inductive sub_reach :: "mdc_env \<Rightarrow> mdcache \<Rightarrow> bool" for e where
  sub_start: "mc_subtrees m = [] \<Longrightarrow> (\<And>d. \<exists>api now inode fg auth. cdir_new api now inode fg auth = Some (mc_dirs m d)) \<Longrightarrow> sub_reach e m"
| sub_next: "sub_reach e m \<Longrightarrow> sub_allowed e op m \<Longrightarrow> sub_step e op m = Some m' \<Longrightarrow> sub_reach e m'"

lemma new_dir_wait: "cdir_new api now inode fg auth = Some c \<Longrightarrow> wait_inv c \<and> dir_auth c = CDIR_AUTH_DEFAULT \<and> pins c PIN_SUBTREE = 0"
  by (auto simp: cdir_new_def wait_inv_def co_inv_def co_wf_def pins_def get_pin_totals_def om_get_def split: if_splits)

lemma start_inv:
  assumes "mc_subtrees m = []" "\<And>d. \<exists>api now inode fg auth. cdir_new api now inode fg auth = Some (mc_dirs m d)"
  shows "subtree_inv e m" "auths m = (\<lambda>d. CDIR_AUTH_DEFAULT)"
proof -
  have w: "wait_inv (mc_dirs m d) \<and> dir_auth (mc_dirs m d) = CDIR_AUTH_DEFAULT \<and> pins (mc_dirs m d) PIN_SUBTREE = 0" for d
    using assms(2) [of d] new_dir_wait by blast
  then show A: "auths m = (\<lambda>d. CDIR_AUTH_DEFAULT)" by (simp add: auths_def fun_eq_iff)
  show "subtree_inv e m"
    by (rule subtree_invI) (use w assms(1) in \<open>simp_all add: dir_root_auths A subs_ok_def is_subtree_def sub_bounds_def om_get_def rooted_def\<close>)
qed

lemma sub_step_ok:
  assumes "env_ok e" "subtree_inv e m" "sub_allowed e op m"
  obtains m' where "sub_step e op m = Some m'" "subtree_inv e m'"
    "case op of OpAdjust d a ev \<Rightarrow> auths m' = (auths m)(d := a)
     | _ \<Rightarrow> responsible e (auths m') = responsible e (auths m)"
proof (cases op)
  case (OpAdjust d a ev)
  obtain m' where "adjust_subtree_auth e d a ev m = Some m'" "subtree_inv e m'" "auths m' = (auths m)(d := a)"
    by (rule adjust_ok [OF assms(1,2), of a d ev]) (use assms(3) OpAdjust get_subtree_root_near [of e m d] in auto)
  with OpAdjust show thesis by (intro that [of m']) simp_all
next
  case (OpMergeAt d ev)
  obtain m' where "try_subtree_merge_at e d ev m = Some m'" "merged e m m'"
    by (rule merge_at_merged [OF assms(1,2), of d ev]) (use assms(3) OpMergeAt in auto)
  with OpMergeAt show thesis by (intro that [of m']) (simp_all add: merged_def)
next
  case (OpMerge d)
  then have r: "dir_root m d" using assms(3) by simp
  obtain m' where "try_subtree_merge e d m = Some m'" "merged e m m'" by (rule merge_tree_merged [OF assms(1,2) r]) blast
  with OpMerge show thesis by (intro that [of m']) (simp_all add: merged_def)
qed

lemma sub_reach_inv: "sub_reach e m \<Longrightarrow> env_ok e \<Longrightarrow> subtree_inv e m"
proof (induction rule: sub_reach.induct)
  case (sub_start m)
  then show ?case by (intro start_inv(1))
next
  case (sub_next m op m')
  then show ?case using sub_step_ok [of e m op] by (metis option.inject)
qed

text \<open>C13: The subtree map is a faithful index. In every state that adjustments and merges lead to from an
  empty cache, the map has an entry for exactly the directories that are subtree roots, each pinned once;
  the bounds of an entry are exactly the roots next below it; the authority of a directory is that of the
  nearest root at or above it; and no permitted operation aborts, an adjustment changing the authority
  set on its directory and nothing else, a merge changing nobody's authority.\<close>

theorem subtree_map_refines:
  assumes "env_ok e" "sub_reach e m"
  shows "(\<forall>d. is_subtree d m \<longleftrightarrow> dir_root m d) \<and> (\<forall>d. pins (mc_dirs m d) PIN_SUBTREE = (if dir_root m d then 1 else 0)) \<and>
    (\<forall>r. dir_root m r \<longrightarrow> set (sub_bounds r m) = {d. dir_root m d \<and> parent_root e m d = Some r}) \<and>
    (\<forall>d r. get_subtree_root e m d = Some r \<longrightarrow> dir_authority e m d = auths m r) \<and>
    (\<forall>op. sub_allowed e op m \<longrightarrow> (\<exists>m'. sub_step e op m = Some m' \<and>
       (case op of OpAdjust d a ev \<Rightarrow> auths m' = (auths m)(d := a)
        | _ \<Rightarrow> responsible e (auths m') = responsible e (auths m))))"
proof (intro conjI allI impI)
  have inv: "subtree_inv e m" by (rule sub_reach_inv [OF assms(2,1)])
  note parts = subtree_inv_parts [OF inv]
  fix d r op
  show "is_subtree d m \<longleftrightarrow> dir_root m d" "pins (mc_dirs m d) PIN_SUBTREE = (if dir_root m d then 1 else 0)" by (rule parts)+
  show "dir_root m r \<Longrightarrow> set (sub_bounds r m) = {d. dir_root m d \<and> parent_root e m d = Some r}"
    using parts(5) by (simp add: parent_root_above [OF assms(1)])
  show "get_subtree_root e m d = Some r \<Longrightarrow> dir_authority e m d = auths m r"
    by (rule authority_near [OF assms(1)]) (simp add: get_subtree_root_near)
  show "sub_allowed e op m \<Longrightarrow> \<exists>m'. sub_step e op m = Some m' \<and> (case op of OpAdjust d a ev \<Rightarrow> auths m' = (auths m)(d := a)
        | _ \<Rightarrow> responsible e (auths m') = responsible e (auths m))"
    using sub_step_ok [OF assms(1) inv, of op] by metis
qed

section \<open>An example hierarchy\<close>

text \<open>\<open>tree_env up\<close>: a server that is active, in a hierarchy with the given chains.\<close>

definition tree_env :: "(dir_ptr \<Rightarrow> dir_ptr list) \<Rightarrow> mdc_env" where
  "tree_env up = \<lparr>me_up = up, me_projected_up = up, me_base = (\<lambda>d. up d = []),
     me_inode_authority = (\<lambda>A d. case find (roots A) (up d) of Some r \<Rightarrow> A r | None \<Rightarrow> CDIR_AUTH_UNDEF),
     me_can_auth_pin = (\<lambda>d. True), me_api = plain_api, me_now = 0, me_decayrate = 1,
     me_any_replay = False, me_resolve = False, me_clientreplay = False, me_active = True, me_stopping = False\<rparr>"

lemma tree_env_up [simp]: "me_up (tree_env up) = up"
  by (simp add: tree_env_def)

lemma tree_env_ok: "up_ok up \<Longrightarrow> env_ok (tree_env up)"
proof -
  assume u: "up_ok up"
  have "(case find (roots A) (up d) of Some r \<Rightarrow> A r | None \<Rightarrow> CDIR_AUTH_UNDEF) =
     (if A p \<noteq> CDIR_AUTH_DEFAULT then A p else case find (roots A) (up p) of Some r \<Rightarrow> A r | None \<Rightarrow> CDIR_AUTH_UNDEF)"
    if "up d = p # ps" for A d p ps using that up_step [OF u that] by simp
  with u show ?thesis by (simp add: env_ok_def tree_env_def)
qed

text \<open>The root directory 0 with a directory 1, which holds 2 and 3; 2 holds 4.\<close>

definition small_up :: "dir_ptr \<Rightarrow> dir_ptr list" where
  "small_up d = (if d = 1 then [0] else if d = 2 \<or> d = 3 then [1, 0] else if d = 4 then [2, 1, 0] else [])"

lemma small_up_ok: "up_ok small_up"
  by (auto simp: up_ok_def small_up_def split: if_splits)

definition empty_cache :: mdcache where
  "empty_cache = \<lparr>mc_dirs = (\<lambda>d. plain_dir), mc_subtrees = [], mc_renames = [], mc_log = []\<rparr>"

lemma empty_reach: "sub_reach e empty_cache"
proof (rule sub_start)
  fix d
  show "\<exists>api now inode fg auth. cdir_new api now inode fg auth = Some (mc_dirs empty_cache d)"
    using plain_dir_new unfolding empty_cache_def mdcache.simps by blast
qed (simp add: empty_cache_def)

lemma reach_adjust:
  assumes "env_ok e" "sub_reach e m" "auths m = A" "a \<noteq> CDIR_AUTH_DEFAULT" "me_up e d = [] \<or> find (roots A) (d # me_up e d) \<noteq> None"
  obtains m' where "sub_reach e m'" "auths m' = A(d := a)" "dirs_kept m m'"
proof -
  have al: "sub_allowed e (OpAdjust d a True) m" using assms(3-5) by (simp add: get_subtree_root_def dir_root_auths)
  obtain m' where m': "adjust_subtree_auth e d a True m = Some m'" "auths m' = (auths m)(d := a)" "dirs_kept m m'"
    by (rule adjust_ok [OF assms(1) sub_reach_inv [OF assms(2,1)] assms(4), of d True])
      (use al in \<open>auto simp: get_subtree_root_near\<close>)
  then have "sub_step e (OpAdjust d a True) m = Some m'" by simp
  from sub_next [OF assms(2) al this] m' assms(3) show thesis by (intro that [of m']) simp_all
qed

text \<open>Server 0 has the root, server 1 the directory 1, server 0 again the directories 2 and 4.\<close>

definition small_auths :: "dir_ptr \<Rightarrow> mds_authority_t" where
  "small_auths = (\<lambda>d. CDIR_AUTH_DEFAULT)(0 := (0, -2), 1 := (1, -2), 2 := (0, -2), 4 := (0, -2))"

lemma small_reach: "\<exists>m. sub_reach (tree_env small_up) m \<and> auths m = small_auths \<and> dirs_kept empty_cache m"
proof -
  let ?e = "tree_env small_up" and ?D = "\<lambda>d. CDIR_AUTH_DEFAULT"
  have ok: "env_ok ?e" by (rule tree_env_ok [OF small_up_ok])
  have e0: "auths empty_cache = ?D" by (simp add: auths_def empty_cache_def plain_dir_def cdir_new_def plain_inode_def fun_eq_iff)
  obtain m1 where m1: "sub_reach ?e m1" "auths m1 = ?D(0 := (0, -2))" "dirs_kept empty_cache m1"
    by (rule reach_adjust [OF ok empty_reach e0, of "(0, -2)" 0]) (simp_all add: cdir_auth_defs small_up_def)
  obtain m2 where m2: "sub_reach ?e m2" "auths m2 = ?D(0 := (0, -2), 1 := (1, -2))" "dirs_kept m1 m2"
    by (rule reach_adjust [OF ok m1(1,2), of "(1, -2)" 1]) (simp_all add: cdir_auth_defs small_up_def)
  obtain m3 where m3: "sub_reach ?e m3" "auths m3 = ?D(0 := (0, -2), 1 := (1, -2), 2 := (0, -2))" "dirs_kept m2 m3"
    by (rule reach_adjust [OF ok m2(1,2), of "(0, -2)" 2]) (simp_all add: cdir_auth_defs small_up_def)
  obtain m4 where "sub_reach ?e m4" "auths m4 = ?D(0 := (0, -2), 1 := (1, -2), 2 := (0, -2), 4 := (0, -2))" "dirs_kept m3 m4"
    by (rule reach_adjust [OF ok m3(1,2), of "(0, -2)" 4]) (simp_all add: cdir_auth_defs small_up_def)
  moreover from this m1 m2 m3 have "dirs_kept empty_cache m4" by (blast intro: dirs_kept_trans)
  ultimately show ?thesis unfolding small_auths_def by blast
qed

lemma small_roots: "dir_root m d \<longleftrightarrow> d = 0 \<or> d = 1 \<or> d = 2 \<or> d = 4" if "auths m = small_auths"
  using that by (simp add: dir_root_auths small_auths_def cdir_auth_defs)

theorem subtree_map_refines_witness:
  "\<exists>m. sub_reach (tree_env small_up) m \<and> is_subtree 2 m \<and> \<not> is_subtree 3 m \<and> set (sub_bounds 1 m) = {2} \<and>
     dir_authority (tree_env small_up) m 3 = (1, -2)"
proof -
  let ?e = "tree_env small_up"
  have ok: "env_ok ?e" by (rule tree_env_ok [OF small_up_ok])
  obtain m where m: "sub_reach ?e m" "auths m = small_auths" using small_reach by blast
  have R: "dir_root m = (\<lambda>d. d = 0 \<or> d = 1 \<or> d = 2 \<or> d = 4)" using small_roots [OF m(2)] by (simp add: fun_eq_iff)
  have g: "get_subtree_root ?e m 3 = Some 1" by (simp add: get_subtree_root_def R small_up_def)
  have p: "parent_root ?e m d = Some 1 \<longleftrightarrow> d = 2 \<or> d = 3" for d
    by (auto simp: parent_root_def get_parent_dir_def get_subtree_root_def R small_up_def)
  have "set (sub_bounds 1 m) = {2}" "dir_authority ?e m 3 = auths m 1" "is_subtree 2 m" "\<not> is_subtree 3 m"
    using subtree_map_refines [OF ok m(1)] g p R by auto
  with m show ?thesis by (auto simp: small_auths_def)
qed

lemma merge_invisible_witness:
  "\<exists>m m'. auths m = small_auths \<and> try_subtree_merge (tree_env small_up) 2 m = Some m' \<and>
     \<not> (dir_root m' 4 \<and> mergeable (tree_env small_up) m' 4) \<and> dir_root m' 0 \<and> 4 \<in> set (sub_bounds 2 m) \<and>
     responsible (tree_env small_up) (auths m') = responsible (tree_env small_up) small_auths"
proof -
  let ?e = "tree_env small_up"
  have ok: "env_ok ?e" by (rule tree_env_ok [OF small_up_ok])
  obtain m where m: "sub_reach ?e m" "auths m = small_auths" using small_reach by blast
  have inv: "subtree_inv ?e m" by (rule sub_reach_inv [OF m(1) ok])
  have R: "dir_root m = (\<lambda>d. d = 0 \<or> d = 1 \<or> d = 2 \<or> d = 4)" using small_roots [OF m(2)] by (simp add: fun_eq_iff)
  have b: "set (sub_bounds 2 m) = {4}" using subtree_inv_parts(5) [OF inv, of 2] by (auto simp: R above_def small_up_def)
  obtain m' where m': "try_subtree_merge ?e 2 m = Some m'" "subtree_inv ?e m'" "responsible ?e (auths m') = responsible ?e (auths m)"
    "\<forall>x\<in>set (2 # sub_bounds 2 m). dir_root m' x \<longrightarrow> \<not> mergeable ?e m' x" "\<forall>x. x \<notin> set (2 # sub_bounds 2 m) \<longrightarrow> dir_root m' x = dir_root m x"
    using merge_invisible [OF ok inv, of 2] R by auto
  with m R b show ?thesis by (intro exI [of _ m] exI [of _ m']) auto
qed

theorem wouldbe_bounds_exact_witness:
  "\<exists>m m'. auths m = small_auths \<and> adjust_subtree_auth (tree_env small_up) 3 (2, -2) True m = Some m' \<and>
     get_wouldbe_subtree_bounds (tree_env small_up) 3 m = get_subtree_bounds 3 m'"
proof -
  let ?e = "tree_env small_up"
  have ok: "env_ok ?e" by (rule tree_env_ok [OF small_up_ok])
  obtain m where m: "sub_reach ?e m" "auths m = small_auths" using small_reach by blast
  have inv: "subtree_inv ?e m" by (rule sub_reach_inv [OF m(1) ok])
  have R: "dir_root m = (\<lambda>d. d = 0 \<or> d = 1 \<or> d = 2 \<or> d = 4)" using small_roots [OF m(2)] by (simp add: fun_eq_iff)
  have "\<exists>m'. adjust_subtree_auth ?e 3 (2, -2) True m = Some m' \<and> get_wouldbe_subtree_bounds ?e 3 m = get_subtree_bounds 3 m'"
    by (rule wouldbe_bounds_exact [OF ok inv]) (simp_all add: cdir_auth_defs near_def above_def R small_up_def)
  with m show ?thesis by blast
qed

end
