(* ===== verification/Subtree_Bounds.thy ===== *)
theory Subtree_Bounds
  imports Subtree_Map Ino_Layout
begin

text \<open>
  Moving a subtree with given bounds (\<^verbatim>\<open>adjust_bounded_subtree_auth\<close>). The loops of the code may run for ever
  when an intervening subtree cannot be merged: they are partial functions, \<open>None\<close> where they do not
  return or abort.
\<close>

section \<open>Model\<close>

text \<open>\<^verbatim>\<open>while (subtrees[dir].count(t) == 0) t = get_subtree_root(t->get_parent_dir())\<close>.\<close>

partial_function (option) climb_to_bound :: "mdc_env \<Rightarrow> dir_ptr \<Rightarrow> dir_ptr \<Rightarrow> mdcache \<Rightarrow> dir_ptr option" where
  "climb_to_bound e dir t m =
     (if t \<in> set (sub_bounds dir m) then Some t
      else do { t1 \<leftarrow> parent_root e m t; climb_to_bound e dir t1 m })"

definition swallow :: "mdc_env \<Rightarrow> mds_authority_t \<Rightarrow> dir_ptr \<Rightarrow> mdcache \<Rightarrow> mdcache option" where
  "swallow e auth t m = do { m1 \<leftarrow> adjust_subtree_auth e t auth True m; try_subtree_merge_at e t True m1 }"

text \<open>The loop that swallows the subtrees between \<open>dir\<close> and the wanted bound.\<close>

partial_function (option) swallow_between :: "mdc_env \<Rightarrow> dir_ptr \<Rightarrow> mds_authority_t \<Rightarrow> dir_ptr \<Rightarrow> dir_ptr \<Rightarrow> mdcache \<Rightarrow> mdcache option" where
  "swallow_between e dir auth bound t m =
     do { t1 \<leftarrow> climb_to_bound e dir t m;
          m1 \<leftarrow> swallow e auth t1 m;
          t2 \<leftarrow> parent_root e m1 bound;
          if t2 = dir then Some m1 else swallow_between e dir auth bound t2 m1 }"

definition want_bound :: "mdc_env \<Rightarrow> dir_ptr \<Rightarrow> mds_authority_t \<Rightarrow> mds_authority_t \<Rightarrow> dir_ptr \<Rightarrow> mdcache \<Rightarrow> mdcache option" where
  "want_bound e dir oldauth auth bound m =
     (let m0 = sub_touch dir m
      in if bound \<in> set (sub_bounds dir m0) then Some m0
         else if get_subtree_root e m0 bound = Some dir then adjust_subtree_auth e bound oldauth True m0
         else do {
           t \<leftarrow> parent_root e m0 bound;
           let m1 = sub_touch t m0;
           m2 \<leftarrow> (if bound \<notin> set (sub_bounds t m1)
                 then do { assert_that (t \<noteq> dir); adjust_subtree_auth e bound (dir_authority e m1 t) True m1 }
                 else Some m1);
           swallow_between e dir auth bound t m2 })"

definition swallow_stray :: "mdc_env \<Rightarrow> dir_ptr list \<Rightarrow> mds_authority_t \<Rightarrow> dir_ptr \<Rightarrow> mdcache \<Rightarrow> mdcache option" where
  "swallow_stray e bounds auth p m = (if p \<in> set bounds then Some m else swallow e auth p m)"

partial_function (option) merge_strays :: "mdc_env \<Rightarrow> dir_ptr \<Rightarrow> dir_ptr list \<Rightarrow> mds_authority_t \<Rightarrow> mdcache \<Rightarrow> mdcache option" where
  "merge_strays e dir bounds auth m =
     (if sub_bounds dir m = [] then Some m
      else do { m1 \<leftarrow> each_dir (swallow_stray e bounds auth) (sub_bounds dir m) m;
                if sub_bounds dir m = sub_bounds dir m1 then Some m1 else merge_strays e dir bounds auth m1 })"

text \<open>The bootstrap test compares the number of the inode with that of the root, where
  \<^verbatim>\<open>adjust_subtree_auth\<close> asks for a base inode.\<close>

definition adjust_bounded_subtree_auth :: "mdc_env \<Rightarrow> dir_ptr \<Rightarrow> dir_ptr list \<Rightarrow> mds_authority_t \<Rightarrow> mdcache \<Rightarrow> mdcache option" where
  "adjust_bounded_subtree_auth e dir bounds auth m =
     do { let boot = (iv_ino (cd_inode (mc_dirs m dir)) = ucast MDS_INO_ROOT);
          let oldauth = dir_authority e m dir;
          (n, m1) \<leftarrow> set_subtree_auth e boot dir auth m;
          m2 \<leftarrow> each_dir (want_bound e dir oldauth auth) bounds m1;
          m3 \<leftarrow> merge_strays e dir bounds auth m2;
          _ \<leftarrow> verify_subtree_bounds dir bounds m3;
          Some m3 }"

section \<open>The loop invariant\<close>

text \<open>\<open>at_bound e B x\<close>: the directory is a bound or lies beneath one.\<close>

definition at_bound :: "mdc_env \<Rightarrow> dir_ptr list \<Rightarrow> dir_ptr \<Rightarrow> bool" where
  "at_bound e B x \<longleftrightarrow> (\<exists>b\<in>set B. x = b \<or> b \<in> set (me_up e x))"

text \<open>The bounds lie beneath the directory and none beneath another; what lies between is not being
  exported.\<close>

definition bounds_ok :: "mdc_env \<Rightarrow> dir_ptr \<Rightarrow> dir_ptr list \<Rightarrow> mdcache \<Rightarrow> bool" where
  "bounds_ok e dir B m \<longleftrightarrow> sorted_wrt (<) B \<and> (\<forall>b\<in>set B. dir \<in> set (me_up e b)) \<and> (\<forall>b\<in>set B. \<forall>c\<in>set B. c \<notin> set (me_up e b)) \<and>
     (\<forall>x. dir \<in> set (me_up e x) \<and> dir_root m x \<and> \<not> at_bound e B x \<longrightarrow> \<not> state_test STATE_EXPORTBOUND (mc_dirs m x))"

text \<open>The state while the bounds are adjusted: \<open>m0\<close> is the state at the start, \<open>D\<close> holds the bounds that are
  already in place.\<close>

definition adjusting :: "mdc_env \<Rightarrow> dir_ptr \<Rightarrow> dir_ptr list \<Rightarrow> mds_authority_t \<Rightarrow> mds_authority_t \<Rightarrow> mdcache \<Rightarrow> dir_ptr set \<Rightarrow> mdcache \<Rightarrow> bool" where
  "adjusting e dir B auth old m0 D m \<longleftrightarrow> subtree_inv e m \<and> dirs_kept m0 m \<and> auths m dir = auth \<and>
     (\<forall>x. x \<noteq> dir \<and> dir \<notin> set (me_up e x) \<longrightarrow> auths m x = auths m0 x) \<and>
     (\<forall>b\<in>set B. \<forall>x. b \<in> set (me_up e x) \<longrightarrow> auths m x = auths m0 x) \<and>
     (\<forall>b\<in>set B. dir_root m0 b \<longrightarrow> auths m b = auths m0 b) \<and>
     (\<forall>b\<in>set B. \<not> dir_root m0 b \<and> near (dir_root m0) (me_up e) b = near (dir_root m0) (me_up e) dir \<longrightarrow> auths m b \<in> {CDIR_AUTH_DEFAULT, old}) \<and>
     (\<forall>x. dir \<in> set (me_up e x) \<and> \<not> at_bound e B x \<and> dir_root m x \<longrightarrow> dir_root m0 x) \<and>
     (\<forall>b\<in>D. b \<in> set B \<and> dir_root m b \<and> above (dir_root m) (me_up e) b = Some dir)"

lemma adjustingD:
  assumes "adjusting e dir B auth old m0 D m"
  shows "subtree_inv e m" "dirs_kept m0 m" "auths m dir = auth"
    "x \<noteq> dir \<Longrightarrow> dir \<notin> set (me_up e x) \<Longrightarrow> auths m x = auths m0 x"
    "b \<in> set B \<Longrightarrow> b \<in> set (me_up e x) \<Longrightarrow> auths m x = auths m0 x"
    "b \<in> set B \<Longrightarrow> dir_root m0 b \<Longrightarrow> auths m b = auths m0 b"
    "b \<in> set B \<Longrightarrow> \<not> dir_root m0 b \<Longrightarrow> near (dir_root m0) (me_up e) b = near (dir_root m0) (me_up e) dir \<Longrightarrow> auths m b \<in> {CDIR_AUTH_DEFAULT, old}"
    "dir \<in> set (me_up e x) \<Longrightarrow> \<not> at_bound e B x \<Longrightarrow> dir_root m x \<Longrightarrow> dir_root m0 x"
    "b \<in> D \<Longrightarrow> b \<in> set B \<and> dir_root m b \<and> above (dir_root m) (me_up e) b = Some dir"
  using assms unfolding adjusting_def by blast+

lemma above_exists: "y \<in> set (up x) \<Longrightarrow> R y \<Longrightarrow> \<exists>z. above R up x = Some z"
  by (cases "above R up x") (auto simp: above_None)

text \<open>The root next below \<open>dir\<close> on the way up from a root beneath it.\<close>

lemma climb_bound_ok:
  assumes "env_ok e" "subtree_inv e m" "dir_root m dir" "dir_root m t" "dir \<in> set (me_up e t)"
  shows "\<exists>c. climb_to_bound e dir t m = Some c \<and> c \<in> set (sub_bounds dir m) \<and> (c = t \<or> c \<in> set (me_up e t))"
  using assms(4,5)
proof (induction "length (me_up e t)" arbitrary: t rule: less_induct)
  case less
  have uo: "up_ok (me_up e)" using assms(1) by simp
  obtain s where s: "above (dir_root m) (me_up e) t = Some s" using above_exists [of dir "me_up e" t "dir_root m"] less.prems(2) assms(3) by blast
  have sd: "dir_root m s" "s \<in> set (me_up e t)" using above_SomeD [OF s] by simp_all
  show ?case
  proof (cases "t \<in> set (sub_bounds dir m)")
    case True
    then show ?thesis by (subst climb_to_bound.simps) simp
  next
    case False
    then have "s \<noteq> dir" using s less.prems(1) subtree_inv_parts(5) [OF assms(2,3)] by auto
    then have d: "dir \<in> set (me_up e s)" using above_nearest [OF uo s less.prems(2) assms(3)] by auto
    obtain c where c: "climb_to_bound e dir s m = Some c" "c \<in> set (sub_bounds dir m)" "c = s \<or> c \<in> set (me_up e s)"
      using less.hyps [OF up_less [OF uo sd(2)] sd(1) d] by blast
    have "climb_to_bound e dir t m = Some c"
      using False c(1) s by (subst climb_to_bound.simps) (simp add: parent_root_above [OF assms(1)])
    moreover have "c \<in> set (me_up e t)" using c(3) sd(2) up_trans [OF uo sd(2)] by auto
    ultimately show ?thesis using c(2) by blast
  qed
qed

lemma swallow_ok:
  assumes "env_ok e" "bounds_ok e dir B m0" "auth \<noteq> CDIR_AUTH_DEFAULT" "snd auth = CDIR_AUTH_UNKNOWN"
    "adjusting e dir B auth old m0 D m" "dir_root m t" "above (dir_root m) (me_up e) t = Some dir" "\<not> at_bound e B t"
  obtains m' where "swallow e auth t m = Some m'" "adjusting e dir B auth old m0 D m'" "auths m' = (auths m)(t := CDIR_AUTH_DEFAULT)"
proof -
  note J = adjustingD [OF assms(5)]
  have uo: "up_ok (me_up e)" using assms(1) by simp
  have dt: "dir \<in> set (me_up e t)" "t \<noteq> dir" using above_SomeD [OF assms(7)] up_irrefl [OF uo, of dir] by auto
  obtain m1 where m1: "adjust_subtree_auth e t auth True m = Some m1" "subtree_inv e m1" "auths m1 = (auths m)(t := auth)" "dirs_kept m m1"
    by (rule adjust_ok [OF assms(1) J(1) assms(3), of t True]) (use assms(6) in \<open>auto simp: near_def\<close>)
  have R1: "dir_root m1 = dir_root m" using assms(3,6) by (auto simp: dir_root_auths m1(3) fun_eq_iff)
  have k1: "dirs_kept m0 m1" by (rule dirs_kept_trans [OF J(2) m1(4)])
  have "\<not> state_test STATE_EXPORTBOUND (mc_dirs m0 t)"
    using assms(2) dt(1) assms(8) J(8) [OF dt(1) assms(8,6)] unfolding bounds_ok_def by blast
  then have eb: "\<not> state_test STATE_EXPORTBOUND (mc_dirs m1 t)" using k1 by (simp add: dirs_kept_def state_test_def)
  have mg: "mergeable e m1 t" using assms(4,7) eb J(3) m1(3) dt(2) by (auto simp: mergeable_def R1)
  obtain m2 where m2: "try_subtree_merge_at e t True m1 = Some m2" "subtree_inv e m2" "dirs_kept m1 m2"
    "auths m2 = (if mergeable e m1 t then (auths m1)(t := CDIR_AUTH_DEFAULT) else auths m1)"
    by (rule merge_at_ok [OF assms(1) m1(2), of t True]) (use assms(6) R1 in simp)
  have A: "auths m2 = (auths m)(t := CDIR_AUTH_DEFAULT)" using m2(4) mg m1(3) by simp
  have R: "dir_root m2 = (dir_root m)(t := False)" by (simp add: dir_root_auths A fun_eq_iff)
  have nb: "b \<noteq> t" "b \<notin> set (me_up e t)" if "b \<in> set B" for b using assms(8) that by (auto simp: at_bound_def)
  have "adjusting e dir B auth old m0 D m2"
    unfolding adjusting_def
  proof (intro conjI allI ballI impI)
    show "dirs_kept m0 m2" by (rule dirs_kept_trans [OF k1 m2(3)])
    fix b assume b: "b \<in> D"
    have ab: "b \<in> set B" "dir_root m b" "above (dir_root m) (me_up e) b = Some dir" using J(9) [OF b] by simp_all
    show "b \<in> set B" by (rule ab)
    show "dir_root m2 b" using ab(2) nb(1) [OF ab(1)] by (simp add: R)
    show "above (dir_root m2) (me_up e) b = Some dir" using ab(3) dt(2) by (simp add: R above_del [OF uo])
  qed (use J A dt m2(2) nb in \<open>auto simp: R split: if_splits\<close>)
  with m1(1) m2(1) A show thesis by (intro that [of m2]) (simp_all add: swallow_def)
qed

lemma swallow_between_ok:
  assumes "env_ok e" "bounds_ok e dir B m0" "auth \<noteq> CDIR_AUTH_DEFAULT" "snd auth = CDIR_AUTH_UNKNOWN"
    "adjusting e dir B auth old m0 D m" "bound \<in> set B" "dir_root m bound" "dir_root m t" "t \<in> set (me_up e bound)" "dir \<in> set (me_up e t)"
  shows "\<exists>m'. swallow_between e dir auth bound t m = Some m' \<and> adjusting e dir B auth old m0 (insert bound D) m'"
  using assms(5,7-10)
proof (induction "card {x \<in> set (me_up e bound). dir_root m x}" arbitrary: m t rule: less_induct)
  case less
  note J = adjustingD [OF less.prems(1)]
  have uo: "up_ok (me_up e)" using assms(1) by simp
  have dr: "dir_root m dir" using J(3) assms(3) by (simp add: dir_root_auths)
  have db: "dir \<in> set (me_up e bound)" using assms(2,6) by (simp add: bounds_ok_def)
  obtain c where c: "climb_to_bound e dir t m = Some c" "c \<in> set (sub_bounds dir m)" "c = t \<or> c \<in> set (me_up e t)"
    using climb_bound_ok [OF assms(1) J(1) dr less.prems(3,5)] by blast
  have cb: "c \<in> set (me_up e bound)" using c(3) less.prems(4) up_trans [OF uo less.prems(4)] by auto
  have cr: "dir_root m c" "above (dir_root m) (me_up e) c = Some dir" using c(2) subtree_inv_parts(5) [OF J(1) dr] by auto
  have "\<not> at_bound e B c"
    using assms(2,6) cb up_trans [OF uo cb] unfolding at_bound_def bounds_ok_def by blast
  from swallow_ok [OF assms(1-4) less.prems(1) cr this]
  obtain m1 where m1: "swallow e auth c m = Some m1" "adjusting e dir B auth old m0 D m1" "auths m1 = (auths m)(c := CDIR_AUTH_DEFAULT)" by blast
  note J1 = adjustingD [OF m1(2)]
  have R1: "dir_root m1 = (dir_root m)(c := False)" by (simp add: dir_root_auths m1(3) fun_eq_iff)
  have cn: "c \<noteq> bound" "c \<noteq> dir" using cb up_irrefl [OF uo, of bound] above_SomeD [OF cr(2)] up_irrefl [OF uo, of dir] by auto
  have r1: "dir_root m1 bound" "dir_root m1 dir" using less.prems(2) dr cn by (simp_all add: R1)
  obtain t2 where t2: "above (dir_root m1) (me_up e) bound = Some t2" using above_exists [of dir "me_up e" bound "dir_root m1"] db r1(2) by blast
  have pr: "parent_root e m1 bound = Some t2" using t2 by (simp add: parent_root_above [OF assms(1)])
  show ?case
  proof (cases "t2 = dir")
    case True
    have "adjusting e dir B auth old m0 (insert bound D) m1"
      using m1(2) r1(1) t2 True assms(6) unfolding adjusting_def by blast
    moreover have "swallow_between e dir auth bound t m = Some m1"
      by (subst swallow_between.simps) (simp add: c(1) m1(1) pr True)
    ultimately show ?thesis by blast
  next
    case False
    have t2r: "dir_root m1 t2" "t2 \<in> set (me_up e bound)" using above_SomeD [OF t2] by simp_all
    have d2: "dir \<in> set (me_up e t2)" using above_nearest [OF uo t2 db r1(2)] False by auto
    have "{x \<in> set (me_up e bound). dir_root m1 x} \<subset> {x \<in> set (me_up e bound). dir_root m x}" using cb cr(1) by (auto simp: R1)
    then have "card {x \<in> set (me_up e bound). dir_root m1 x} < card {x \<in> set (me_up e bound). dir_root m x}" by (intro psubset_card_mono) simp_all
    from less.hyps [OF this m1(2) r1(1) t2r d2] obtain m' where m': "swallow_between e dir auth bound t2 m1 = Some m'"
      "adjusting e dir B auth old m0 (insert bound D) m'" by blast
    have "swallow_between e dir auth bound t m = Some m'"
      by (subst swallow_between.simps) (simp add: c(1) m1(1) pr False m'(1))
    with m'(2) show ?thesis by blast
  qed
qed

text \<open>Making a bound that is no subtree yet.\<close>

lemma new_bound_ok:
  assumes "env_ok e" "bounds_ok e dir B m0" "adjusting e dir B auth old m0 D m" "bound \<in> set B" "\<not> dir_root m bound" "a \<noteq> CDIR_AUTH_DEFAULT" "dir_root m dir"
    "near (dir_root m0) (me_up e) bound = near (dir_root m0) (me_up e) dir \<Longrightarrow> a = old"
  obtains m' where "adjust_subtree_auth e bound a True m = Some m'" "adjusting e dir B auth old m0 D m'" "auths m' = (auths m)(bound := a)"
proof -
  note J = adjustingD [OF assms(3)]
  have uo: "up_ok (me_up e)" using assms(1) by simp
  have db: "dir \<in> set (me_up e bound)" "bound \<noteq> dir" using assms(2,4) up_irrefl [OF uo, of dir] by (auto simp: bounds_ok_def)
  have nb: "bound \<notin> set (me_up e b)" "b \<notin> set (me_up e bound)" if "b \<in> set B" for b using assms(2,4) that by (auto simp: bounds_ok_def)
  have "near (dir_root m) (me_up e) bound \<noteq> None" using above_exists [of dir "me_up e" bound "dir_root m"] db(1) assms(7) by (auto simp: near_def)
  then obtain m1 where m1: "adjust_subtree_auth e bound a True m = Some m1" "subtree_inv e m1" "auths m1 = (auths m)(bound := a)" "dirs_kept m m1"
    using adjust_ok [OF assms(1) J(1) assms(6), of bound True] by blast
  have R: "dir_root m1 = (dir_root m)(bound := True)" using assms(6) by (auto simp: dir_root_auths m1(3) fun_eq_iff)
  have nr0: "\<not> dir_root m0 bound" using J(6) [OF assms(4)] assms(5) by (auto simp: dir_root_auths)
  have ab: "at_bound e B bound" using assms(4) by (auto simp: at_bound_def)
  have "adjusting e dir B auth old m0 D m1"
    unfolding adjusting_def
  proof (intro conjI allI ballI impI)
    show "dirs_kept m0 m1" by (rule dirs_kept_trans [OF J(2) m1(4)])
    fix b assume b: "b \<in> D"
    have bb: "b \<in> set B" "dir_root m b" "above (dir_root m) (me_up e) b = Some dir" using J(9) [OF b] by simp_all
    show "b \<in> set B" by (rule bb)
    show "dir_root m1 b" using bb(2) by (simp add: R)
    show "above (dir_root m1) (me_up e) b = Some dir"
      using bb(3) nb(1) [OF bb(1)] by (simp add: R above_add [of "me_up e" "dir_root m" bound, OF uo assms(5)])
  next
    fix b assume "b \<in> set B" "\<not> dir_root m0 b \<and> near (dir_root m0) (me_up e) b = near (dir_root m0) (me_up e) dir"
    then show "auths m1 b \<in> {CDIR_AUTH_DEFAULT, old}" using J(7) [of b] assms(8) by (auto simp: m1(3))
  qed (use J m1(2,3) db nb nr0 ab in \<open>auto simp: R split: if_splits\<close>)
  with m1 show thesis by (intro that [of m1])
qed

lemma want_bound_ok:
  assumes "env_ok e" "bounds_ok e dir B m0" "auth \<noteq> CDIR_AUTH_DEFAULT" "snd auth = CDIR_AUTH_UNKNOWN" "old \<noteq> CDIR_AUTH_DEFAULT"
    "adjusting e dir B auth old m0 D m" "bound \<in> set B"
  obtains m' where "want_bound e dir old auth bound m = Some m'" "adjusting e dir B auth old m0 (insert bound D) m'"
proof -
  note J = adjustingD [OF assms(6)]
  have uo: "up_ok (me_up e)" using assms(1) by simp
  have dr: "dir_root m dir" using J(3) assms(3) by (simp add: dir_root_auths)
  have db: "dir \<in> set (me_up e bound)" "bound \<noteq> dir" using assms(2,7) up_irrefl [OF uo, of dir] by (auto simp: bounds_ok_def)
  have tch: "sub_touch x m = m" if "dir_root m x" for x using that subtree_inv_parts(2) [OF J(1), of x] by (simp add: sub_touch_def)
  have bs: "set (sub_bounds dir m) = {d. dir_root m d \<and> above (dir_root m) (me_up e) d = Some dir}" by (rule subtree_inv_parts(5) [OF J(1) dr])
  obtain t where t: "above (dir_root m) (me_up e) bound = Some t" using above_exists [of dir "me_up e" bound "dir_root m"] db(1) dr by blast
  have tr: "dir_root m t" "t \<in> set (me_up e bound)" using above_SomeD [OF t] by simp_all
  show thesis
  proof (cases "t = dir")
    case True
    show thesis
    proof (cases "dir_root m bound")
      case r: True
      have "adjusting e dir B auth old m0 (insert bound D) m" using assms(6,7) r t True unfolding adjusting_def by blast
      then show thesis using r t True bs by (intro that [of m]) (simp_all add: want_bound_def tch [OF dr])
    next
      case False
      obtain m1 where m1: "adjust_subtree_auth e bound old True m = Some m1" "adjusting e dir B auth old m0 D m1" "auths m1 = (auths m)(bound := old)"
        by (rule new_bound_ok [OF assms(1,2,6,7) False assms(5) dr]) simp_all
      have R1: "dir_root m1 = (dir_root m)(bound := True)" using assms(5) by (auto simp: dir_root_auths m1(3) fun_eq_iff)
      have "above (dir_root m1) (me_up e) bound = Some dir"
        using t True up_irrefl [OF uo, of bound] by (simp add: R1 above_add [of "me_up e" "dir_root m" bound, OF uo False])
      then have "adjusting e dir B auth old m0 (insert bound D) m1" using m1(2) assms(7) unfolding adjusting_def by (auto simp: R1)
      moreover have "get_subtree_root e m bound = Some dir" using t True False by (simp add: get_subtree_root_near near_def)
      ultimately show thesis using False bs m1(1) by (intro that [of m1]) (simp_all add: want_bound_def tch [OF dr])
    qed
  next
    case False
    have dt: "dir \<in> set (me_up e t)" using above_nearest [OF uo t db(1) dr] False by auto
    have nbs: "bound \<notin> set (sub_bounds dir m)" using bs t False by auto
    have ng: "get_subtree_root e m bound \<noteq> Some dir" using t False db(2) by (auto simp: get_subtree_root_near near_def split: if_splits)
    have pr: "parent_root e m bound = Some t" using t by (simp add: parent_root_above [OF assms(1)])
    have bt: "bound \<in> set (sub_bounds t m) \<longleftrightarrow> dir_root m bound" using subtree_inv_parts(5) [OF J(1) tr(1)] t by auto
    have at: "auths m t \<noteq> CDIR_AUTH_DEFAULT" using tr(1) by (simp add: dir_root_auths)
    have ta: "dir_authority e m t = auths m t" using authority_near [OF assms(1), of m t t] tr(1) by (simp add: near_def)
    have far: "near (dir_root m0) (me_up e) bound \<noteq> near (dir_root m0) (me_up e) dir" if "\<not> dir_root m bound"
    proof
      assume eq: "near (dir_root m0) (me_up e) bound = near (dir_root m0) (me_up e) dir"
      have "\<not> at_bound e B t" using assms(2,7) tr(2) up_trans [OF uo tr(2)] unfolding at_bound_def bounds_ok_def by blast
      then have t0: "dir_root m0 t" using J(8) [OF dt] tr(1) by blast
      have "\<not> dir_root m0 bound" using J(6) [OF assms(7)] that by (auto simp: dir_root_auths)
      then have e2: "above (dir_root m0) (me_up e) bound = near (dir_root m0) (me_up e) dir" using eq by (simp add: near_def)
      obtain r where r: "above (dir_root m0) (me_up e) bound = Some r" using above_exists [of t "me_up e" bound "dir_root m0"] tr(2) t0 by blast
      have "t = r \<or> t \<in> set (me_up e r)" by (rule above_nearest [OF uo r tr(2) t0])
      moreover have "r = dir \<or> r \<in> set (me_up e dir)" using e2 r near_SomeD [of "dir_root m0" "me_up e" dir r] by simp
      ultimately have "t = dir \<or> t \<in> set (me_up e dir)" using up_trans [OF uo] by blast
      then show False using dt False up_less [OF uo dt] up_less [OF uo, of t dir] by auto
    qed
    have "\<exists>m2. (if bound \<notin> set (sub_bounds t m) then adjust_subtree_auth e bound (auths m t) True m else Some m) = Some m2 \<and>
        adjusting e dir B auth old m0 D m2 \<and> dir_root m2 = (dir_root m)(bound := True)"
    proof (cases "dir_root m bound")
      case True
      then have "dir_root m = (dir_root m)(bound := True)" by (simp add: fun_eq_iff)
      with True bt assms(6) show ?thesis by simp
    next
      case nr: False
      obtain m1 where m1: "adjust_subtree_auth e bound (auths m t) True m = Some m1" "adjusting e dir B auth old m0 D m1" "auths m1 = (auths m)(bound := auths m t)"
        by (rule new_bound_ok [OF assms(1,2,6,7) nr at dr]) (use far [OF nr] in simp_all)
      have "dir_root m1 = (dir_root m)(bound := True)" using at by (auto simp: dir_root_auths m1(3) fun_eq_iff)
      with m1 nr bt show ?thesis by auto
    qed
    then obtain m2 where m2: "(if bound \<notin> set (sub_bounds t m) then adjust_subtree_auth e bound (auths m t) True m else Some m) = Some m2"
      "adjusting e dir B auth old m0 D m2" "dir_root m2 = (dir_root m)(bound := True)" by blast
    have "dir_root m2 bound" "dir_root m2 t" using tr(1) m2(3) by simp_all
    from swallow_between_ok [OF assms(1-4) m2(2) assms(7) this tr(2) dt] obtain m' where m': "swallow_between e dir auth bound t m2 = Some m'"
      "adjusting e dir B auth old m0 (insert bound D) m'" by blast
    have "want_bound e dir old auth bound m = Some m'"
      using m2(1) m'(1) nbs ng pr False by (simp add: want_bound_def tch [OF dr] tch [OF tr(1)] ta Let_def split: if_splits)
    then show thesis using m'(2) by (rule that)
  qed
qed

lemma want_all_ok:
  assumes "env_ok e" "bounds_ok e dir B m0" "auth \<noteq> CDIR_AUTH_DEFAULT" "snd auth = CDIR_AUTH_UNKNOWN" "old \<noteq> CDIR_AUTH_DEFAULT"
    "adjusting e dir B auth old m0 D m" "set bs \<subseteq> set B"
  shows "\<exists>m'. each_dir (want_bound e dir old auth) bs m = Some m' \<and> adjusting e dir B auth old m0 (D \<union> set bs) m'"
  using assms(6,7)
proof (induction bs arbitrary: D m)
  case (Cons b bs)
  obtain m1 where m1: "want_bound e dir old auth b m = Some m1" "adjusting e dir B auth old m0 (insert b D) m1"
    by (rule want_bound_ok [OF assms(1-5) Cons.prems(1), of b]) (use Cons.prems(2) in auto)
  from Cons.IH [OF m1(2)] Cons.prems(2) m1(1) show ?case by auto
qed simp

text \<open>Once all bounds are in place, whatever else is next below lies above no bound's subtree.\<close>

lemma stray_not_at_bound:
  assumes "env_ok e" "bounds_ok e dir B m0" "adjusting e dir B auth old m0 (set B) m" "above (dir_root m) (me_up e) p = Some dir" "p \<notin> set B"
  shows "\<not> at_bound e B p"
proof
  assume "at_bound e B p"
  then obtain b where b: "b \<in> set B" "b \<in> set (me_up e p)" using assms(5) by (auto simp: at_bound_def)
  have uo: "up_ok (me_up e)" using assms(1) by simp
  have "dir_root m b" using adjustingD(9) [OF assms(3) b(1)] by simp
  from above_nearest [OF uo assms(4) b(2) this] have "b = dir \<or> b \<in> set (me_up e dir)" .
  moreover have "dir \<in> set (me_up e b)" using assms(2) b(1) by (simp add: bounds_ok_def)
  ultimately show False using up_less [OF uo, of dir b] up_less [OF uo, of b dir] by auto
qed

lemma stray_pass:
  assumes "env_ok e" "bounds_ok e dir B m0" "auth \<noteq> CDIR_AUTH_DEFAULT" "snd auth = CDIR_AUTH_UNKNOWN"
    "adjusting e dir B auth old m0 (set B) m" "\<forall>p\<in>set ps. dir_root m p \<and> above (dir_root m) (me_up e) p = Some dir" "distinct ps"
  shows "\<exists>m'. each_dir (swallow_stray e B auth) ps m = Some m' \<and> adjusting e dir B auth old m0 (set B) m' \<and>
     (\<forall>x. dir_root m' x \<longleftrightarrow> dir_root m x \<and> \<not> (x \<in> set ps \<and> x \<notin> set B)) \<and> (set ps \<subseteq> set B \<longrightarrow> m' = m)"
  using assms(5-7)
proof (induction ps arbitrary: m)
  case (Cons p ps)
  have uo: "up_ok (me_up e)" using assms(1) by simp
  show ?case
  proof (cases "p \<in> set B")
    case True
    then have s: "swallow_stray e B auth p m = Some m" by (simp add: swallow_stray_def)
    obtain m' where "each_dir (swallow_stray e B auth) ps m = Some m'" "adjusting e dir B auth old m0 (set B) m'"
      "\<forall>x. dir_root m' x \<longleftrightarrow> dir_root m x \<and> \<not> (x \<in> set ps \<and> x \<notin> set B)" "set ps \<subseteq> set B \<longrightarrow> m' = m"
      using Cons.IH [OF Cons.prems(1)] Cons.prems(2,3) by auto
    with True s show ?thesis by (intro exI [of _ m']) auto
  next
    case False
    have p: "dir_root m p" "above (dir_root m) (me_up e) p = Some dir" using Cons.prems(2) by simp_all
    obtain m1 where m1: "swallow e auth p m = Some m1" "adjusting e dir B auth old m0 (set B) m1" "auths m1 = (auths m)(p := CDIR_AUTH_DEFAULT)"
      by (rule swallow_ok [OF assms(1-4) Cons.prems(1) p stray_not_at_bound [OF assms(1,2) Cons.prems(1) p(2) False]])
    have R1: "dir_root m1 = (dir_root m)(p := False)" by (simp add: dir_root_auths m1(3) fun_eq_iff)
    have pd: "p \<noteq> dir" using above_SomeD [OF p(2)] up_irrefl [OF uo, of dir] by auto
    have "\<forall>q\<in>set ps. dir_root m1 q \<and> above (dir_root m1) (me_up e) q = Some dir"
      using Cons.prems(2,3) pd by (auto simp: R1 above_del [OF uo])
    then obtain m' where "each_dir (swallow_stray e B auth) ps m1 = Some m'" "adjusting e dir B auth old m0 (set B) m'"
      "\<forall>x. dir_root m' x \<longleftrightarrow> dir_root m1 x \<and> \<not> (x \<in> set ps \<and> x \<notin> set B)"
      using Cons.IH [OF m1(2)] Cons.prems(3) by auto
    moreover have "swallow_stray e B auth p m = Some m1" using False m1(1) by (simp add: swallow_stray_def)
    ultimately show ?thesis using False R1 by (intro exI [of _ m']) auto
  qed
qed simp

lemma finite_roots: "subtree_inv e m \<Longrightarrow> finite {x. dir_root m x}"
  using finite_dom_map_of [of "mc_subtrees m"] subtree_inv_parts(2) [of e m] by (simp add: dom_def is_subtree_def)

lemma merge_strays_ok:
  assumes "env_ok e" "bounds_ok e dir B m0" "auth \<noteq> CDIR_AUTH_DEFAULT" "snd auth = CDIR_AUTH_UNKNOWN" "adjusting e dir B auth old m0 (set B) m"
  shows "\<exists>m'. merge_strays e dir B auth m = Some m' \<and> adjusting e dir B auth old m0 (set B) m' \<and> set (sub_bounds dir m') = set B"
  using assms(5)
proof (induction "card {x. dir_root m x}" arbitrary: m rule: less_induct)
  case less
  note J = adjustingD [OF less.prems]
  have dr: "dir_root m dir" using J(3) assms(3) by (simp add: dir_root_auths)
  have bs: "set (sub_bounds dir m) = {d. dir_root m d \<and> above (dir_root m) (me_up e) d = Some dir}" by (rule subtree_inv_parts(5) [OF J(1) dr])
  have sup: "set B \<subseteq> set (sub_bounds dir m)" using J(9) bs by auto
  show ?case
  proof (cases "sub_bounds dir m = []")
    case True
    then show ?thesis using less.prems sup by (subst merge_strays.simps) simp
  next
    case ne: False
    have "distinct (sub_bounds dir m)" using subtree_inv_parts(1) [OF J(1)] by (auto simp: subs_ok_def strict_sorted_iff)
    moreover have "\<forall>p\<in>set (sub_bounds dir m). dir_root m p \<and> above (dir_root m) (me_up e) p = Some dir" using bs by blast
    ultimately obtain m1 where m1: "each_dir (swallow_stray e B auth) (sub_bounds dir m) m = Some m1"
      "adjusting e dir B auth old m0 (set B) m1" "\<forall>x. dir_root m1 x \<longleftrightarrow> dir_root m x \<and> \<not> (x \<in> set (sub_bounds dir m) \<and> x \<notin> set B)"
      "set (sub_bounds dir m) \<subseteq> set B \<longrightarrow> m1 = m" using stray_pass [OF assms(1-4) less.prems, of "sub_bounds dir m"] by blast
    show ?thesis
    proof (cases "set (sub_bounds dir m) \<subseteq> set B")
      case True
      then have "m1 = m" using m1(4) by simp
      then have "merge_strays e dir B auth m = Some m" using ne m1(1) by (subst merge_strays.simps) simp
      with True sup less.prems show ?thesis by blast
    next
      case False
      then obtain p where p: "p \<in> set (sub_bounds dir m)" "p \<notin> set B" by blast
      have dr1: "dir_root m1 dir" using adjustingD(3) [OF m1(2)] assms(3) by (simp add: dir_root_auths)
      have "p \<notin> set (sub_bounds dir m1)" using p m1(3) subtree_inv_parts(5) [OF adjustingD(1) [OF m1(2)] dr1] by auto
      then have ch: "sub_bounds dir m \<noteq> sub_bounds dir m1" using p(1) by auto
      have "{x. dir_root m1 x} \<subset> {x. dir_root m x}" using p bs m1(3) by auto
      then have "card {x. dir_root m1 x} < card {x. dir_root m x}" by (rule psubset_card_mono [OF finite_roots [OF J(1)]])
      from less.hyps [OF this m1(2)] obtain m' where "merge_strays e dir B auth m1 = Some m'" "adjusting e dir B auth old m0 (set B) m'"
        "set (sub_bounds dir m') = set B" by blast
      moreover from this(1) have "merge_strays e dir B auth m = Some m'" using ne m1(1) ch by (subst merge_strays.simps) simp
      ultimately show ?thesis by blast
    qed
  qed
qed

section \<open>The whole operation\<close>

lemma responsible_cong:
  assumes "\<And>y. y = x \<or> y \<in> set (me_up e x) \<Longrightarrow> A y = A' y"
  shows "responsible e A x = responsible e A' x"
proof -
  have "find (roots A) (x # me_up e x) = find (roots A') (x # me_up e x)" by (rule find_cong_on) (use assms in auto)
  then have n: "near (roots A) (me_up e) x = near (roots A') (me_up e) x" by (simp add: near_def above_def split: if_splits)
  then show ?thesis
  proof (cases "near (roots A') (me_up e) x")
    case (Some r)
    then have "A r = A' r" using assms [of r] near_SomeD [OF Some] by blast
    with n Some show ?thesis by (simp add: responsible_def)
  qed (simp add: responsible_def)
qed

lemma adjusting_start:
  assumes "subtree_inv e m1" "dirs_kept m m1" "auths m1 = (auths m)(dir := auth)" "bounds_ok e dir B m" "env_ok e"
  shows "adjusting e dir B auth old m {} m1"
proof -
  have uo: "up_ok (me_up e)" using assms(5) by simp
  have nd: "dir \<notin> set (me_up e dir)" by (rule up_irrefl [OF uo])
  have "dir \<noteq> b" if "b \<in> set B" for b using assms(4) that nd by (auto simp: bounds_ok_def)
  moreover have "b \<notin> set (me_up e dir)" if "b \<in> set B" for b
    using assms(4) that up_trans [OF uo, of b dir dir] nd by (auto simp: bounds_ok_def)
  ultimately show ?thesis using assms(1,2) nd unfolding adjusting_def dir_root_auths assms(3) by auto
qed

text \<open>What the authority of a directory is at the end.\<close>

lemma adjusted_inside:
  assumes "env_ok e" "subtree_inv e m" "auths m dir = auth" "auth \<noteq> CDIR_AUTH_DEFAULT" "set (sub_bounds dir m) = set B"
    "x = dir \<or> dir \<in> set (me_up e x)" "\<not> at_bound e B x"
  shows "responsible e (auths m) x = Some auth"
proof -
  have uo: "up_ok (me_up e)" using assms(1) by simp
  have dr: "dir_root m dir" using assms(3,4) by (simp add: dir_root_auths)
  have "near (dir_root m) (me_up e) x = Some dir"
  proof (cases "x = dir")
    case False
    then have dx: "dir \<in> set (me_up e x)" using assms(6) by simp
    have no: False if r: "dir_root m r" "dir \<in> set (me_up e r)" "r = x \<or> r \<in> set (me_up e x)" for r
    proof -
      obtain c where "c \<in> set (sub_bounds dir m)" "c = r \<or> c \<in> set (me_up e r)" using climb_bound_ok [OF assms(1,2) dr r(1,2)] by blast
      then have "c \<in> set B" "c = x \<or> c \<in> set (me_up e x)" using assms(5) r(3) up_trans [OF uo] by auto
      then show False using assms(7) by (auto simp: at_bound_def)
    qed
    obtain s where s: "above (dir_root m) (me_up e) x = Some s" using above_exists [of dir "me_up e" x "dir_root m"] dx dr by blast
    have "s = dir" using no [of s] above_SomeD [OF s] above_nearest [OF uo s dx dr] by auto
    with s no [of x] dx show ?thesis by (auto simp: near_def)
  qed (use dr in \<open>simp add: near_def\<close>)
  then show ?thesis using assms(3) by (simp add: responsible_def dir_root_auths)
qed

lemma adjusted_beneath:
  assumes "env_ok e" "adjusting e dir B auth old m0 (set B) m" "b \<in> set B" "x = b \<or> b \<in> set (me_up e x)"
    "dir_root m0 b \<or> near (dir_root m0) (me_up e) b = near (dir_root m0) (me_up e) dir" "near (dir_root m0) (me_up e) dir = Some r0" "auths m0 r0 = old"
  shows "responsible e (auths m) x = responsible e (auths m0) x"
proof -
  note J = adjustingD [OF assms(2)]
  have uo: "up_ok (me_up e)" using assms(1) by simp
  have br: "dir_root m b" using J(9) [OF assms(3)] by simp
  have rb: "map_option (auths m0) (near (dir_root m0) (me_up e) b) = Some (auths m b)"
  proof (cases "dir_root m0 b")
    case True
    then show ?thesis using J(6) [OF assms(3)] by (simp add: near_def)
  next
    case False
    then show ?thesis using assms(5-7) J(7) [OF assms(3) False] br by (auto simp: dir_root_auths)
  qed
  show ?thesis
  proof (cases "x = b")
    case True
    then show ?thesis using br rb by (auto simp: responsible_def near_def dir_root_auths split: if_splits)
  next
    case False
    then have bx: "b \<in> set (me_up e x)" using assms(4) by simp
    then obtain ys where ys: "me_up e x = ys @ b # me_up e b" using up_split [OF uo] by blast
    have same: "auths m y = auths m0 y" if "y \<in> set (x # ys)" for y
    proof (cases "y = x")
      case True
      then show ?thesis using J(5) [OF assms(3) bx] by simp
    next
      case False
      then obtain us vs where "ys = us @ y # vs" using \<open>y \<in> set (x # ys)\<close> by (auto dest: split_list)
      then have "me_up e y = vs @ b # me_up e b" using up_rest [OF uo, of x us y "vs @ b # me_up e b"] ys by simp
      then show ?thesis using J(5) [OF assms(3), of y] by simp
    qed
    have f: "find (roots (auths m)) (x # ys) = find (roots (auths m0)) (x # ys)" by (rule find_cong_on) (use same in auto)
    have nr: "near R (me_up e) x = (case find R (x # ys) of None \<Rightarrow> near R (me_up e) b | Some y \<Rightarrow> Some y)" for R
      using find_app [of R "x # ys" "b # me_up e b"] unfolding near_find ys by simp
    show ?thesis
    proof (cases "find (roots (auths m0)) (x # ys)")
      case None
      have "near (roots (auths m)) (me_up e) x = Some b" unfolding nr f None using br by (simp add: near_def dir_root_auths)
      moreover have "near (roots (auths m0)) (me_up e) x = near (roots (auths m0)) (me_up e) b" unfolding nr None by simp
      ultimately show ?thesis using rb by (auto simp: responsible_def dir_root_auths)
    next
      case (Some y)
      obtain us vs where "x # ys = us @ y # vs" using find_split [OF Some] by blast
      then have "y \<in> set (x # ys)" by (metis in_set_conv_decomp)
      then have "auths m y = auths m0 y" by (rule same)
      then show ?thesis unfolding responsible_def nr f Some by simp
    qed
  qed
qed

text \<open>C14: Moving a subtree with given bounds does what it says. When the new authority is unambiguous, the
  directory lies in some subtree, the bounds lie beneath it and not beneath each other, and nothing between
  them is being exported, the operation terminates without an assertion failing: the bounds of the
  directory are then exactly the given ones, everything from the directory down to them belongs to the
  new authority, everything outside keeps its authority, and so does what lies beneath a bound that was a
  subtree before or lay in the same subtree as the directory.\<close>

theorem bounded_adjustment:
  assumes "env_ok e" "subtree_inv e m" "auth \<noteq> CDIR_AUTH_DEFAULT" "snd auth = CDIR_AUTH_UNKNOWN" "bounds_ok e dir B m"
    "get_subtree_root e m dir \<noteq> None" "iv_ino (cd_inode (mc_dirs m dir)) = ucast MDS_INO_ROOT \<Longrightarrow> me_up e dir = []"
  shows "\<exists>m'. adjust_bounded_subtree_auth e dir B auth m = Some m' \<and> subtree_inv e m' \<and> sub_bounds dir m' = B \<and>
     (\<forall>x. (x = dir \<or> dir \<in> set (me_up e x)) \<and> \<not> at_bound e B x \<longrightarrow> responsible e (auths m') x = Some auth) \<and>
     (\<forall>x. x \<noteq> dir \<and> dir \<notin> set (me_up e x) \<longrightarrow> responsible e (auths m') x = responsible e (auths m) x) \<and>
     (\<forall>b\<in>set B. dir_root m b \<or> get_subtree_root e m b = get_subtree_root e m dir \<longrightarrow>
        (\<forall>x. x = b \<or> b \<in> set (me_up e x) \<longrightarrow> responsible e (auths m') x = responsible e (auths m) x))"
proof -
  have uo: "up_ok (me_up e)" using assms(1) by simp
  obtain r0 where r0: "near (dir_root m) (me_up e) dir = Some r0" using assms(6) by (auto simp: get_subtree_root_near)
  define old where "old = dir_authority e m dir"
  have old: "old = auths m r0" "old \<noteq> CDIR_AUTH_DEFAULT"
    using authority_near [OF assms(1) r0] near_SomeD [OF r0] by (simp_all add: old_def dir_root_auths)
  obtain n m1 where m1: "set_subtree_auth e (iv_ino (cd_inode (mc_dirs m dir)) = ucast MDS_INO_ROOT) dir auth m = Some (n, m1)"
    "subtree_inv e m1" "auths m1 = (auths m)(dir := auth)" "dirs_kept m m1"
    by (rule set_subtree_auth_ok [OF assms(1-3), of "iv_ino (cd_inode (mc_dirs m dir)) = ucast MDS_INO_ROOT" dir])
      (use assms(7) r0 in auto)
  have "adjusting e dir B auth old m {} m1" by (rule adjusting_start [OF m1(2,4,3) assms(5,1)])
  from want_all_ok [OF assms(1,5,3,4) old(2) this, of B] obtain m2 where m2: "each_dir (want_bound e dir old auth) B m1 = Some m2"
    "adjusting e dir B auth old m (set B) m2" by auto
  obtain m3 where m3: "merge_strays e dir B auth m2 = Some m3" "adjusting e dir B auth old m (set B) m3" "set (sub_bounds dir m3) = set B"
    using merge_strays_ok [OF assms(1,5,3,4) m2(2)] by blast
  note J = adjustingD [OF m3(2)]
  have "sorted_wrt (<) (sub_bounds dir m3)" "sorted_wrt (<) B" using subtree_inv_parts(1) [OF J(1)] assms(5) by (simp_all add: subs_ok_def bounds_ok_def)
  then have B: "sub_bounds dir m3 = B" using m3(3) by (metis strict_sorted_equal)
  have dr: "dir_root m3 dir" using J(3) assms(3) by (simp add: dir_root_auths)
  show ?thesis
  proof (intro exI [of _ m3] conjI allI ballI impI)
    show "adjust_bounded_subtree_auth e dir B auth m = Some m3"
      using m1(1) m2(1) m3(1) B subtree_inv_parts(2) [OF J(1), of dir] dr
      by (simp add: adjust_bounded_subtree_auth_def verify_subtree_bounds_def old_def Let_def)
    fix x
    show "responsible e (auths m3) x = Some auth" if "(x = dir \<or> dir \<in> set (me_up e x)) \<and> \<not> at_bound e B x"
      using adjusted_inside [OF assms(1) J(1,3) assms(3) m3(3)] that by blast
    show "responsible e (auths m3) x = responsible e (auths m) x" if "x \<noteq> dir \<and> dir \<notin> set (me_up e x)"
    proof (rule responsible_cong)
      fix y assume "y = x \<or> y \<in> set (me_up e x)"
      then have "y \<noteq> dir" "dir \<notin> set (me_up e y)" using that up_trans [OF uo] by blast+
      then show "auths m3 y = auths m y" by (rule J(4))
    qed
    fix b assume b: "b \<in> set B" "dir_root m b \<or> get_subtree_root e m b = get_subtree_root e m dir" "x = b \<or> b \<in> set (me_up e x)"
    show "responsible e (auths m3) x = responsible e (auths m) x"
      by (rule adjusted_beneath [OF assms(1) m3(2) b(1,3) _ r0 old(1) [symmetric]]) (use b(2) get_subtree_root_near in auto)
  qed (use J(1) B in simp_all)
qed

theorem bounded_adjustment_witness:
  "\<exists>m m'. auths m = small_auths \<and> adjust_bounded_subtree_auth (tree_env small_up) 1 [4] (2, -2) m = Some m' \<and> sub_bounds 1 m' = [4] \<and>
     responsible (tree_env small_up) (auths m') 2 = Some (2, -2) \<and> responsible (tree_env small_up) (auths m') 0 = Some (0, -2) \<and>
     responsible (tree_env small_up) (auths m') 4 = Some (0, -2)"
proof -
  let ?e = "tree_env small_up"
  have ok: "env_ok ?e" by (rule tree_env_ok [OF small_up_ok])
  obtain m where m: "sub_reach ?e m" "auths m = small_auths" "dirs_kept empty_cache m" using small_reach by blast
  have inv: "subtree_inv ?e m" by (rule sub_reach_inv [OF m(1) ok])
  have R: "dir_root m = (\<lambda>d. d = 0 \<or> d = 1 \<or> d = 2 \<or> d = 4)" using small_roots [OF m(2)] by (simp add: fun_eq_iff)
  have st: "co_state (mc_dirs m d) = co_state plain_dir" "cd_inode (mc_dirs m d) = plain_inode" for d
    using m(3) by (simp_all add: dirs_kept_def empty_cache_def plain_dir_def cdir_new_def plain_inode_def)
  have "\<not> state_test STATE_EXPORTBOUND plain_dir" by (simp add: plain_dir_def cdir_new_def plain_inode_def state_test_def) code_simp
  then have eb: "\<not> state_test STATE_EXPORTBOUND (mc_dirs m d)" for d using st(1) by (simp add: state_test_def)
  have bo: "bounds_ok ?e 1 [4] m" using eb by (simp add: bounds_ok_def small_up_def)
  have ino: "iv_ino (cd_inode (mc_dirs m 1)) \<noteq> ucast MDS_INO_ROOT" unfolding st plain_inode_def MDS_INO_ROOT_def by simp
  have g: "get_subtree_root ?e m 1 \<noteq> None" by (simp add: get_subtree_root_def R)
  have a: "(2, -2) \<noteq> CDIR_AUTH_DEFAULT" "snd (2, -2 :: mds_rank_t) = CDIR_AUTH_UNKNOWN" by (simp_all add: cdir_auth_defs)
  obtain m' where m': "adjust_bounded_subtree_auth ?e 1 [4] (2, -2) m = Some m'" "sub_bounds 1 m' = [4]"
    "\<forall>x. (x = 1 \<or> 1 \<in> set (me_up ?e x)) \<and> \<not> at_bound ?e [4] x \<longrightarrow> responsible ?e (auths m') x = Some (2, -2)"
    "\<forall>x. x \<noteq> 1 \<and> 1 \<notin> set (me_up ?e x) \<longrightarrow> responsible ?e (auths m') x = responsible ?e (auths m) x"
    "\<forall>b\<in>set [4]. dir_root m b \<or> get_subtree_root ?e m b = get_subtree_root ?e m 1 \<longrightarrow>
        (\<forall>x. x = b \<or> b \<in> set (me_up ?e x) \<longrightarrow> responsible ?e (auths m') x = responsible ?e (auths m) x)"
    using bounded_adjustment [OF ok inv a bo g] ino by blast
  have "responsible ?e (auths m') 2 = Some (2, -2)" using m'(3) by (simp add: small_up_def at_bound_def)
  moreover have "responsible ?e (auths m') 0 = responsible ?e small_auths 0" using m'(4) m(2) by (simp add: small_up_def)
  moreover have "responsible ?e (auths m') 4 = responsible ?e small_auths 4" using m'(5) m(2) R by simp
  moreover have "responsible ?e small_auths 0 = Some (0, -2)" "responsible ?e small_auths 4 = Some (0, -2)"
    by (simp_all add: responsible_def near_def small_auths_def cdir_auth_defs)
  ultimately show ?thesis using m(2) m'(1,2) by (intro exI [of _ m] exI [of _ m']) auto
qed

end
