(* ===== verification/Subtree_Rename.thy ===== *)
theory Subtree_Rename
  imports Subtree_Map
begin

text \<open>
  The subtree map after a directory inode has been linked elsewhere (\<^verbatim>\<open>project_subtree_rename\<close>,
  \<^verbatim>\<open>adjust_subtree_after_rename\<close>). When the operation runs the inode is already linked below its new
  parent: the environment has the chains after the rename. The fragments of the inode come from the inode:
  first those that are subtree roots (\<^verbatim>\<open>get_subtree_dirfrags\<close>), then the others (\<^verbatim>\<open>get_nested_dirfrags\<close>).
\<close>

section \<open>Model\<close>

definition project_subtree_rename :: "nat \<Rightarrow> dir_ptr \<Rightarrow> dir_ptr \<Rightarrow> mdcache \<Rightarrow> mdcache" where
  "project_subtree_rename diri olddir newdir m =
     m\<lparr>mc_renames := om_set diri (om_get [] diri (mc_renames m) @ [(olddir, newdir)]) (mc_renames m)\<rparr>"

definition pop_rename :: "nat \<Rightarrow> dir_ptr \<Rightarrow> dir_ptr \<Rightarrow> mdcache \<Rightarrow> mdcache option" where
  "pop_rename diri olddir newdir m =
     do { p \<leftarrow> map_of (mc_renames m) diri;
          assert_that (p \<noteq> []);
          assert_that (fst (hd p) = olddir);
          assert_that (snd (hd p) = newdir);
          Some (m\<lparr>mc_renames := (if tl p = [] then om_erase diri (mc_renames m) else om_set diri (tl p) (mc_renames m))\<rparr>) }"

text \<open>The bounds of the old parent that are no longer below it.\<close>

fun bounds_to_move :: "mdc_env \<Rightarrow> mdcache \<Rightarrow> dir_ptr \<Rightarrow> dir_ptr \<Rightarrow> dir_ptr list \<Rightarrow> dir_ptr list option" where
  "bounds_to_move e m oldparent newparent [] = Some []"
| "bounds_to_move e m oldparent newparent (b # bs) =
     do { broot \<leftarrow> parent_root e m b;
          assert_that (broot = oldparent \<or> broot = newparent);
          rest \<leftarrow> bounds_to_move e m oldparent newparent bs;
          Some (if broot \<noteq> oldparent then b # rest else rest) }"

definition rename_dirfrag :: "mdc_env \<Rightarrow> dir_ptr \<Rightarrow> dir_ptr \<Rightarrow> bool \<Rightarrow> dir_ptr \<Rightarrow> mdcache \<Rightarrow> mdcache option" where
  "rename_dirfrag e olddir newdir imported dir m =
     do { oldparent \<leftarrow> get_subtree_root e m olddir;
          newparent \<leftarrow> get_subtree_root e m newdir;
          if oldparent = newparent then Some m
          else if dir_root m dir then do {
            assert_that (dir \<in> set (sub_bounds oldparent m));
            let m1 = del_bound oldparent dir m;
            assert_that (is_subtree newparent m1);
            try_subtree_merge_at e dir (\<not> imported) (add_bound newparent dir m1) }
          else do {
            tomove \<leftarrow> bounds_to_move e m oldparent newparent (sub_bounds oldparent m);
            let m1 = fold (\<lambda>b m. add_bound newparent b (del_bound oldparent b m)) tomove m;
            if dir_authority e m1 oldparent \<noteq> dir_authority e m1 newparent
            then do { m2 \<leftarrow> adjust_subtree_auth e dir (dir_authority e m1 oldparent) (\<not> imported) m1;
                      try_subtree_merge_at e dir (\<not> imported) m2 }
            else Some m1 } }"

definition adjust_subtree_after_rename ::
    "mdc_env \<Rightarrow> nat \<Rightarrow> dir_ptr \<Rightarrow> dir_ptr \<Rightarrow> dir_ptr list \<Rightarrow> bool \<Rightarrow> bool \<Rightarrow> mdcache \<Rightarrow> mdcache option" where
  "adjust_subtree_after_rename e diri olddir newdir dfls pop imported m =
     do { m1 \<leftarrow> (if pop then pop_rename diri olddir newdir m else Some m);
          each_dir (rename_dirfrag e olddir newdir imported) dfls m1 }"

section \<open>Linking directories elsewhere\<close>

text \<open>\<open>relink F nd up\<close>: the chains after the directories \<open>F\<close> have been linked below \<open>nd\<close>.\<close>

fun relink_chain :: "'a set \<Rightarrow> 'a list \<Rightarrow> 'a list \<Rightarrow> 'a list" where
  "relink_chain F us [] = []"
| "relink_chain F us (y # ys) = y # (if y \<in> F then us else relink_chain F us ys)"

definition relink :: "'a set \<Rightarrow> 'a \<Rightarrow> ('a \<Rightarrow> 'a list) \<Rightarrow> 'a \<Rightarrow> 'a list" where
  "relink F nd up x = (if x \<in> F then nd # up nd else relink_chain F (nd # up nd) (up x))"

lemma relink_chain_away: "F \<inter> set ys = {} \<Longrightarrow> relink_chain F us ys = ys"
  by (induction ys) auto

lemma relink_away: "x \<notin> F \<Longrightarrow> F \<inter> set (up x) = {} \<Longrightarrow> relink F nd up x = up x"
  by (simp add: relink_def relink_chain_away)

lemma up_ok_relink:
  assumes "up_ok up" "nd \<notin> F" "F \<inter> set (up nd) = {}"
  shows "up_ok (relink F nd up)"
  unfolding up_ok_def
proof (intro allI impI)
  fix x p ps
  assume r: "relink F nd up x = p # ps"
  show "relink F nd up p = ps"
  proof (cases "x \<in> F")
    case True
    with r have "p = nd" "ps = up nd" by (auto simp: relink_def)
    with relink_away [of nd F up nd, OF assms(2,3)] show ?thesis by simp
  next
    case False
    with r obtain ys where u: "up x = p # ys" "ps = (if p \<in> F then nd # up nd else relink_chain F (nd # up nd) ys)"
      by (cases "up x") (auto simp: relink_def split: if_splits)
    have "up p = ys" by (rule up_step [OF assms(1) u(1)])
    with u show ?thesis by (simp add: relink_def)
  qed
qed

lemma relink_chain_twice:
  assumes "G \<inter> set us = {}"
  shows "relink_chain G us (relink_chain F us ys) = relink_chain (F \<union> G) us ys"
  by (induction ys) (auto simp: relink_chain_away [OF assms])

lemma relink_twice:
  assumes "nd \<notin> F" "F \<inter> set (up nd) = {}" "nd \<notin> G" "G \<inter> set (up nd) = {}"
  shows "relink G nd (relink F nd up) = relink (F \<union> G) nd up"
proof
  fix x
  have n: "relink F nd up nd = up nd" by (rule relink_away [of nd F up nd, OF assms(1,2)])
  have g: "G \<inter> set (nd # up nd) = {}" using assms(3,4) by auto
  show "relink G nd (relink F nd up) x = relink (F \<union> G) nd up x"
    unfolding relink_def [of G] n using relink_chain_twice [OF g, of F "up x"] relink_chain_away [OF g]
    by (auto simp: relink_def)
qed

text \<open>The first root or relinked directory on the way up: a directory passes the relinked ones when there is
  no root in between.\<close>

definition passes :: "('a \<Rightarrow> bool) \<Rightarrow> 'a set \<Rightarrow> ('a \<Rightarrow> 'a list) \<Rightarrow> 'a \<Rightarrow> bool" where
  "passes R F up x \<longleftrightarrow> x \<in> F \<or> (\<exists>y. find (\<lambda>y. R y \<or> y \<in> F) (up x) = Some y \<and> \<not> R y)"

lemma find_relink_chain:
  "find R (relink_chain F us ys) =
     (case find (\<lambda>y. R y \<or> y \<in> F) ys of None \<Rightarrow> None | Some y \<Rightarrow> if R y then Some y else find R us)"
  by (induction ys) auto

lemma find_first:
  assumes "up_ok up" "\<forall>f\<in>F. up f = od # up od"
  shows "find R (up x) = (case find (\<lambda>y. R y \<or> y \<in> F) (up x) of None \<Rightarrow> None | Some y \<Rightarrow> if R y then Some y else find R (od # up od))"
proof (cases "find (\<lambda>y. R y \<or> y \<in> F) (up x)")
  case None
  then have "find R (up x) = None" by (simp add: find_none)
  with None show ?thesis by simp
next
  case (Some y)
  obtain us vs where s: "up x = us @ y # vs" "R y \<or> y \<in> F" "\<forall>u\<in>set us. \<not> (R u \<or> u \<in> F)" using find_split [OF Some] by blast
  have v: "up y = vs" by (rule up_rest [OF assms(1) s(1)])
  have "find R us = None" using s(3) by (simp add: find_none)
  then have "find R (up x) = (if R y then Some y else find R (up y))" by (simp add: s(1) find_app v)
  with Some s(2) assms(2) show ?thesis by auto
qed

lemma above_relink:
  assumes "up_ok up" "\<forall>f\<in>F. up f = od # up od"
  shows "above R (relink F nd up) x = (if passes R F up x then near R up nd else above R up x)"
    "passes R F up x \<Longrightarrow> above R up x = near R up od"
proof -
  let ?h = "find (\<lambda>y. R y \<or> y \<in> F) (up x)"
  have f: "above R up x = (case ?h of None \<Rightarrow> None | Some y \<Rightarrow> if R y then Some y else near R up od)"
    unfolding above_def near_find by (rule find_first [OF assms])
  have r: "x \<notin> F \<Longrightarrow> above R (relink F nd up) x = (case ?h of None \<Rightarrow> None | Some y \<Rightarrow> if R y then Some y else near R up nd)"
    unfolding above_def near_find relink_def by (simp only: if_False find_relink_chain)
  have i: "x \<in> F \<Longrightarrow> above R (relink F nd up) x = near R up nd" "x \<in> F \<Longrightarrow> above R up x = near R up od"
    using assms(2) by (simp_all add: above_def relink_def near_find del: find.simps)
  show "above R (relink F nd up) x = (if passes R F up x then near R up nd else above R up x)"
    using f r i by (cases "x \<in> F"; cases ?h) (auto simp: passes_def)
  show "passes R F up x \<Longrightarrow> above R up x = near R up od"
    using f i by (cases "x \<in> F"; cases ?h) (auto simp: passes_def)
qed

text \<open>The map is exact for the new chains when the roots that pass the relinked directories have changed
  hands.\<close>

lemma relinked_inv:
  fixes R m F up
  defines "R \<equiv> dir_root m"
  defines "W \<equiv> {x. R x \<and> passes R F up x}"
  assumes "up_ok up" "\<forall>f\<in>F. up f = od # up od" "subtree_inv (e\<lparr>me_up := up\<rparr>) m" "near R up od = Some p0" "near R up nd = Some p1"
    "mc_dirs m1 = mc_dirs m" "subs_ok m1" "\<And>x. is_subtree x m1 = is_subtree x m"
    "\<And>x. set (sub_bounds x m1) = (if p0 = p1 then set (sub_bounds x m) else if x = p0 then set (sub_bounds x m) - W
       else if x = p1 then set (sub_bounds x m) \<union> W else set (sub_bounds x m))"
  shows "subtree_inv (e\<lparr>me_up := relink F nd up\<rparr>) m1"
proof -
  note inv = subtree_inv_parts [OF assms(5)]
  have R1: "dir_root m1 = R" using assms(8) by (simp add: R_def dir_root_def fun_eq_iff)
  have pr: "R p0" "R p1" using near_SomeD [OF assms(6)] near_SomeD [OF assms(7)] by simp_all
  have ab: "above R (relink F nd up) x = (if passes R F up x then Some p1 else above R up x)" "passes R F up x \<Longrightarrow> above R up x = Some p0" for x
    using above_relink [OF assms(3,4), of R] assms(6,7) by simp_all
  have b: "set (sub_bounds r m) = {d. R d \<and> above R up d = Some r}" if "R r" for r using inv(5) [of r] that by (simp add: R_def)
  show ?thesis
  proof (rule subtree_invI)
    fix r assume "dir_root m1 r"
    then have r: "R r" by (simp add: R1)
    show "set (sub_bounds r m1) = {d. dir_root m1 d \<and> above (dir_root m1) (me_up (e\<lparr>me_up := relink F nd up\<rparr>)) d = Some r}"
      unfolding assms(11) b [OF r] R1 W_def using ab by (auto split: if_splits)
  next
    show "rooted (e\<lparr>me_up := relink F nd up\<rparr>) (dir_root m1)"
      unfolding rooted_def
    proof (intro allI impI)
      fix d assume d: "dir_root m1 d \<and> me_up (e\<lparr>me_up := relink F nd up\<rparr>) d \<noteq> []"
      have "up d \<noteq> []" if "\<not> passes R F up d"
        using that d by (auto simp: passes_def relink_def split: if_splits)
      moreover have "above R up d \<noteq> None" if "up d \<noteq> []" using assms(5) d that R1 by (auto simp: subtree_inv_def rooted_def R_def)
      ultimately show "above (dir_root m1) (me_up (e\<lparr>me_up := relink F nd up\<rparr>)) d \<noteq> None" using ab R1 by auto
    qed
  qed (use inv(2-4) assms(8-10) R1 in \<open>simp_all add: R_def\<close>)
qed

section \<open>The loop over the fragments\<close>

text \<open>\<open>fs\<close> are the fragments still to be treated; the map is exact for the chains \<open>up\<close>, in which they are still
  linked at the old place.\<close>

definition renaming :: "mdc_env \<Rightarrow> (dir_ptr \<Rightarrow> dir_ptr list) \<Rightarrow> dir_ptr list \<Rightarrow> dir_ptr \<Rightarrow> dir_ptr \<Rightarrow> mdcache \<Rightarrow> bool" where
  "renaming e up fs od nd m \<longleftrightarrow> up_ok up \<and> me_up e = relink (set fs) nd up \<and> (\<forall>f\<in>set fs. up f = od # up od) \<and>
     nd \<notin> set fs \<and> set fs \<inter> set (up nd) = {} \<and> distinct fs \<and> subtree_inv (e\<lparr>me_up := up\<rparr>) m"

lemma renaming_away:
  assumes "renaming e up fs od nd m"
  shows "me_up e nd = up nd" "me_up e od = up od"
proof -
  show "me_up e nd = up nd" using assms relink_away [of nd "set fs" up nd] by (auto simp: renaming_def)
  have "od \<notin> set fs" "set fs \<inter> set (up od) = {}"
    using assms up_irrefl [of up] unfolding renaming_def by (metis list.set_intros(1), metis disjoint_iff list.set_intros(2))
  then show "me_up e od = up od" using assms relink_away [of od "set fs" up nd] by (auto simp: renaming_def)
qed

lemma renaming_roots:
  assumes "renaming e up fs od nd m"
  shows "get_subtree_root e m od = near (dir_root m) up od" "get_subtree_root e m nd = near (dir_root m) up nd"
  using renaming_away [OF assms] by (simp_all add: get_subtree_root_def near_find)

text \<open>Merging at a directory looks at its own chain only.\<close>

lemma merge_at_env:
  assumes "me_up e' d = me_up e d" "me_base e' d = me_base e d"
    "e' = e\<lparr>me_up := me_up e', me_base := me_base e', me_inode_authority := me_inode_authority e'\<rparr>" "env_ok e" "env_ok e'"
  shows "try_subtree_merge_at e' d ev m = try_subtree_merge_at e d ev m"
proof -
  have f: "me_api e' = me_api e" "me_now e' = me_now e" "me_decayrate e' = me_decayrate e" "no_eval e' = no_eval e"
    "me_can_auth_pin e' = me_can_auth_pin e" "me_clientreplay e' = me_clientreplay e" "me_active e' = me_active e" "me_stopping e' = me_stopping e"
    by (subst assms(3), simp add: no_eval_def)+
  have p: "parent_root e' m d = parent_root e m d" using assms(1) by (simp add: parent_root_above assms(4,5) above_def)
  show ?thesis
    by (simp only: try_subtree_merge_at_def p assms(1,2) f pop_add_def merge_writebehind_def)
qed

lemma subtree_inv_chains: "me_up e = me_up e' \<Longrightarrow> subtree_inv e m = subtree_inv e' m"
  by (simp add: subtree_inv_def subs_exact_def rooted_def)

lemma responsible_chains: "me_up e = me_up e' \<Longrightarrow> responsible e = responsible e'"
  by (intro ext) (simp add: responsible_def)

text \<open>The environment with other chains.\<close>

definition chain_env :: "mdc_env \<Rightarrow> (dir_ptr \<Rightarrow> dir_ptr list) \<Rightarrow> mdc_env" where
  "chain_env e up = e\<lparr>me_up := up, me_base := (\<lambda>d. up d = []), me_inode_authority := me_inode_authority (tree_env up)\<rparr>"

lemma chain_env_ok:
  assumes "up_ok up"
  shows "env_ok (chain_env e up)"
proof -
  have "env_ok (tree_env up)" by (rule tree_env_ok [OF assms])
  then show ?thesis unfolding env_ok_def chain_env_def by simp
qed

lemma renaming_step:
  assumes "renaming e up (f # fs) od nd m" "subtree_inv (e\<lparr>me_up := relink {f} nd up\<rparr>) m'"
  shows "renaming e (relink {f} nd up) fs od nd m'"
proof -
  have r: "up_ok up" "me_up e = relink (set (f # fs)) nd up" "\<forall>g\<in>set (f # fs). up g = od # up od" "nd \<notin> set (f # fs)"
    "set (f # fs) \<inter> set (up nd) = {}" "distinct (f # fs)" using assms(1) by (simp_all add: renaming_def)
  have od: "od \<noteq> f" "f \<notin> set (up od)"
    using r(3) up_irrefl [OF r(1), of f] by auto
  have n: "relink {f} nd up nd = up nd" by (rule relink_away) (use r(4,5) in auto)
  have o: "relink {f} nd up od = up od" by (rule relink_away) (use od in auto)
  have "relink {f} nd up g = od # up od" if "g \<in> set fs" for g
    using that r(3,6) od by (auto simp: relink_def relink_chain_away)
  moreover have "me_up e = relink (set fs) nd (relink {f} nd up)"
    using relink_twice [of nd "{f}" up "set fs"] r(2,4,5) by simp
  ultimately show ?thesis using r n o up_ok_relink [OF r(1), of nd "{f}"] assms(2) by (auto simp: renaming_def)
qed

text \<open>A fragment that is a root changes hands, and may be merged into its new parent.\<close>

lemma rename_root_step:
  assumes "env_ok e" "renaming e up (f # fs) od nd m" "dir_root m f" "near (dir_root m) up od = Some p0" "near (dir_root m) up nd = Some p1"
  obtains m' where "rename_dirfrag e od nd imp f m = Some m'" "renaming e (relink {f} nd up) fs od nd m'" "\<And>x. x \<noteq> f \<Longrightarrow> auths m' x = auths m x"
    "responsible (e\<lparr>me_up := relink {f} nd up\<rparr>) (auths m') = responsible (e\<lparr>me_up := up\<rparr>) (auths m)"
proof -
  let ?R = "dir_root m" and ?up = "relink {f} nd up"
  have r: "up_ok up" "me_up e = relink (set (f # fs)) nd up" "\<forall>g\<in>{f}. up g = od # up od" "nd \<notin> {f}" "{f} \<inter> set (up nd) = {}"
    "subtree_inv (e\<lparr>me_up := up\<rparr>) m" using assms(2) by (auto simp: renaming_def)
  note inv = subtree_inv_parts [OF r(6)]
  have g: "get_subtree_root e m od = Some p0" "get_subtree_root e m nd = Some p1" using renaming_roots [OF assms(2)] assms(4,5) by simp_all
  have pf: "passes ?R {f} up x \<longleftrightarrow> x = f" for x using assms(3) by (auto simp: passes_def dest!: find_split)
  have W: "{x. ?R x \<and> passes ?R {f} up x} = {f}" using pf assms(3) by auto
  have nr: "near ?R ?up x = near ?R up x" for x using above_relink(1) [OF r(1,3), of ?R nd x] pf assms(3) by (simp add: near_def)
  then have rs: "responsible (e\<lparr>me_up := ?up\<rparr>) (auths m) = responsible (e\<lparr>me_up := up\<rparr>) (auths m)"
    by (simp add: responsible_def fun_eq_iff dir_root_auths)
  show thesis
  proof (cases "p0 = p1")
    case True
    have i: "subtree_inv (e\<lparr>me_up := ?up\<rparr>) m"
      by (rule relinked_inv [OF r(1,3,6) assms(4,5)]) (use True inv(1) in simp_all)
    show thesis
      by (rule that [OF _ renaming_step [OF assms(2) i]]) (use g True rs in \<open>simp_all add: rename_dirfrag_def\<close>)
  next
    case False
    have pr: "?R p0" "?R p1" using near_SomeD [OF assms(4)] near_SomeD [OF assms(5)] by simp_all
    have fb: "f \<in> set (sub_bounds p0 m)"
      using inv(5) [OF pr(1)] above_relink(2) [OF r(1,3), of ?R f] pf assms(3,4) by simp
    define m1 where "m1 = add_bound p1 f (del_bound p0 f m)"
    have d1: "mc_dirs m1 = mc_dirs m" by (simp add: m1_def)
    have i1: "subtree_inv (e\<lparr>me_up := ?up\<rparr>) m1"
    proof (rule relinked_inv [OF r(1,3,6) assms(4,5) d1])
      show "subs_ok m1" using inv(1) by (simp add: m1_def bound_maps)
      show "is_subtree x m1 = is_subtree x m" for x using inv(1,2) pr by (auto simp: m1_def bound_maps)
      show "set (sub_bounds x m1) = (if p0 = p1 then set (sub_bounds x m) else if x = p0 then set (sub_bounds x m) - {x. ?R x \<and> passes ?R {f} up x}
         else if x = p1 then set (sub_bounds x m) \<union> {x. ?R x \<and> passes ?R {f} up x} else set (sub_bounds x m))" for x
        unfolding W using inv(1) False by (simp add: m1_def bound_maps)
    qed
    have uo: "up_ok ?up" by (rule up_ok_relink [OF r(1,4,5)])
    let ?e = "chain_env e ?up"
    have i2: "subtree_inv ?e m1" using i1 subtree_inv_chains [of ?e "e\<lparr>me_up := ?up\<rparr>"] by (simp add: chain_env_def)
    have R1: "dir_root m1 = ?R" using d1 by (simp add: dir_root_def fun_eq_iff)
    obtain m2 where m2: "try_subtree_merge_at ?e f (\<not> imp) m1 = Some m2" "merged ?e m1 m2" "\<And>x. x \<noteq> f \<Longrightarrow> auths m2 x = auths m1 x"
      by (rule merge_at_merged [OF chain_env_ok [OF uo] i2, of f "\<not> imp"]) (use assms(3) R1 in auto)
    have uf: "me_up ?e f = me_up e f" using r(2) by (simp add: chain_env_def relink_def)
    have "try_subtree_merge_at ?e f (\<not> imp) m1 = try_subtree_merge_at e f (\<not> imp) m1"
      by (rule merge_at_env [OF uf _ _ assms(1) chain_env_ok [OF uo]])
        (use env_base [OF assms(1), of f] uf in \<open>simp_all add: chain_env_def\<close>)
    then have m': "rename_dirfrag e od nd imp f m = Some m2"
      using g False assms(3) fb m2(1) inv(1,2) pr by (simp add: rename_dirfrag_def m1_def Let_def bound_maps)
    have a1: "auths m1 = auths m" using d1 by (simp add: auths_def fun_eq_iff)
    have i3: "subtree_inv (e\<lparr>me_up := ?up\<rparr>) m2" using m2(2) subtree_inv_chains [of ?e "e\<lparr>me_up := ?up\<rparr>"] by (simp add: merged_def chain_env_def)
    have "responsible ?e (auths m2) = responsible ?e (auths m)" using m2(2) a1 by (simp add: merged_def)
    then have "responsible (e\<lparr>me_up := ?up\<rparr>) (auths m2) = responsible (e\<lparr>me_up := up\<rparr>) (auths m)"
      using rs responsible_chains [of ?e "e\<lparr>me_up := ?up\<rparr>"] by (simp add: chain_env_def)
    then show thesis using that [OF m' renaming_step [OF assms(2) i3]] m2(3) a1 by auto
  qed
qed

text \<open>Fragments that are no roots: the bounds that went with them change hands together.\<close>

lemma bounds_to_move_ok:
  assumes "env_ok e" "\<forall>b\<in>set bs. above (dir_root m) (me_up e) b \<in> {Some p0, Some p1}"
  shows "bounds_to_move e m p0 p1 bs = Some (filter (\<lambda>b. above (dir_root m) (me_up e) b \<noteq> Some p0) bs)"
  using assms(2)
proof (induction bs)
  case (Cons b bs)
  then obtain r where "parent_root e m b = Some r" "above (dir_root m) (me_up e) b = Some r" "r = p0 \<or> r = p1"
    by (auto simp: parent_root_above [OF assms(1)])
  with Cons show ?case by simp
qed simp

lemma move_bounds_map:
  fixes ts
  assumes "subs_ok m" "is_subtree p0 m" "is_subtree p1 m" "p0 \<noteq> p1"
  defines "m' \<equiv> fold (\<lambda>b m. add_bound p1 b (del_bound p0 b m)) ts m"
  shows "subs_ok m' \<and> mc_dirs m' = mc_dirs m \<and> mc_renames m' = mc_renames m \<and> (\<forall>x. is_subtree x m' = is_subtree x m) \<and>
    (\<forall>x. set (sub_bounds x m') = (if x = p0 then set (sub_bounds x m) - set ts else if x = p1 then set (sub_bounds x m) \<union> set ts else set (sub_bounds x m)))"
  using assms(1-3) unfolding m'_def
proof (induction ts arbitrary: m)
  case (Cons t ts)
  let ?m1 = "add_bound p1 t (del_bound p0 t m)"
  have m1: "subs_ok ?m1" "\<And>x. is_subtree x ?m1 = is_subtree x m" using Cons.prems by (auto simp: bound_maps)
  have b1: "set (sub_bounds x ?m1) = (if x = p0 then set (sub_bounds x m) - {t} else if x = p1 then insert t (set (sub_bounds x m)) else set (sub_bounds x m))" for x
    using Cons.prems(1) assms(4) by (auto simp: bound_maps)
  from Cons.IH [OF m1(1)] Cons.prems(2,3) m1(2) show ?case unfolding b1 by auto
qed simp

lemma first_move:
  assumes "env_ok e" "renaming e up (f # fs) od nd m" "\<forall>g\<in>set (f # fs). \<not> dir_root m g"
    "near (dir_root m) up od = Some p0" "near (dir_root m) up nd = Some p1" "p0 \<noteq> p1"
  obtains m1 where "subtree_inv e m1" "mc_dirs m1 = mc_dirs m" "mc_renames m1 = mc_renames m"
    "rename_dirfrag e od nd imp f m = rename_dirfrag e od nd imp f m1"
proof -
  let ?R = "dir_root m" and ?F = "set (f # fs)"
  have r: "up_ok up" "me_up e = relink ?F nd up" "\<forall>g\<in>?F. up g = od # up od" "subtree_inv (e\<lparr>me_up := up\<rparr>) m" using assms(2) by (auto simp: renaming_def)
  note inv = subtree_inv_parts [OF r(4)]
  have g: "get_subtree_root e m od = Some p0" "get_subtree_root e m nd = Some p1" using renaming_roots [OF assms(2)] assms(4,5) by simp_all
  have pr: "?R p0" "?R p1" using near_SomeD [OF assms(4)] near_SomeD [OF assms(5)] by simp_all
  have ab: "above ?R (me_up e) x = (if passes ?R ?F up x then Some p1 else above ?R up x)" "passes ?R ?F up x \<Longrightarrow> above ?R up x = Some p0" for x
    using above_relink [OF r(1,3), of ?R] assms(4,5) by (simp_all add: r(2))
  have b0: "set (sub_bounds p0 m) = {d. ?R d \<and> above ?R up d = Some p0}" using inv(5) [OF pr(1)] by simp
  define ts where "ts = filter (\<lambda>b. above ?R (me_up e) b \<noteq> Some p0) (sub_bounds p0 m)"
  have ts: "bounds_to_move e m p0 p1 (sub_bounds p0 m) = Some ts" unfolding ts_def by (rule bounds_to_move_ok [OF assms(1)]) (use b0 ab in auto)
  have W: "set ts = {x. ?R x \<and> passes ?R ?F up x}" unfolding ts_def using b0 ab assms(6) by (auto split: if_splits)
  define m1 where "m1 = fold (\<lambda>b m. add_bound p1 b (del_bound p0 b m)) ts m"
  have m1: "subs_ok m1" "mc_dirs m1 = mc_dirs m" "mc_renames m1 = mc_renames m" "\<And>x. is_subtree x m1 = is_subtree x m"
    "\<And>x. set (sub_bounds x m1) = (if x = p0 then set (sub_bounds x m) - set ts else if x = p1 then set (sub_bounds x m) \<union> set ts else set (sub_bounds x m))"
    using move_bounds_map [of m p0 p1 ts] inv(1,2) pr assms(6) unfolding m1_def by simp_all
  have "subtree_inv (e\<lparr>me_up := relink ?F nd up\<rparr>) m1"
    by (rule relinked_inv [OF r(1,3,4) assms(4,5) m1(2,1,4)]) (use m1(5) assms(6) W in auto)
  then have i: "subtree_inv e m1" using subtree_inv_chains [of e "e\<lparr>me_up := relink ?F nd up\<rparr>"] r(2) by simp
  have R1: "dir_root m1 = ?R" using m1(2) by (simp add: dir_root_def fun_eq_iff)
  have g1: "get_subtree_root e m1 od = Some p0" "get_subtree_root e m1 nd = Some p1" using g by (simp_all add: get_subtree_root_def R1)
  have b1: "\<forall>b\<in>set (sub_bounds p0 m1). above ?R (me_up e) b = Some p0" using subtree_inv_parts(5) [OF i, of p0] pr(1) R1 by auto
  have "filter (\<lambda>b. above ?R (me_up e) b \<noteq> Some p0) (sub_bounds p0 m1) = []" using b1 by (simp add: filter_empty_conv)
  then have t1: "bounds_to_move e m1 p0 p1 (sub_bounds p0 m1) = Some []"
    using bounds_to_move_ok [OF assms(1), of "sub_bounds p0 m1" m1 p0 p1] b1 by (simp add: R1)
  have "rename_dirfrag e od nd imp f m = rename_dirfrag e od nd imp f m1"
    using g g1 assms(3,6) ts t1 R1 by (simp add: rename_dirfrag_def m1_def [symmetric])
  with i m1(2,3) show thesis by (rule that)
qed

lemma rename_mid_step:
  assumes "env_ok e" "subtree_inv e m" "\<not> dir_root m f" "me_up e f = nd # me_up e nd"
    "near (dir_root m) (me_up e) od = Some p0" "near (dir_root m) (me_up e) nd = Some p1" "p0 \<noteq> p1"
  obtains m' where "rename_dirfrag e od nd imp f m = Some m'" "subtree_inv e m'" 
    "auths m' = (if auths m p0 = auths m p1 then auths m else (auths m)(f := auths m p0))" "dirs_kept m m'"
proof -
  let ?R = "dir_root m"
  have g: "get_subtree_root e m od = Some p0" "get_subtree_root e m nd = Some p1" using assms(5,6) by (simp_all add: get_subtree_root_near)
  have pr: "?R p0" "?R p1" using near_SomeD [OF assms(5)] near_SomeD [OF assms(6)] by simp_all
  have b0: "\<forall>b\<in>set (sub_bounds p0 m). above ?R (me_up e) b = Some p0" using subtree_inv_parts(5) [OF assms(2) pr(1)] by auto
  then have "filter (\<lambda>b. above ?R (me_up e) b \<noteq> Some p0) (sub_bounds p0 m) = []" by (simp add: filter_empty_conv)
  then have t: "bounds_to_move e m p0 p1 (sub_bounds p0 m) = Some []"
    using bounds_to_move_ok [OF assms(1), of "sub_bounds p0 m" m p0 p1] b0 by simp
  have au: "dir_authority e m p0 = auths m p0" "dir_authority e m p1 = auths m p1"
    using authority_near [OF assms(1), of m] pr by (simp_all add: near_def)
  have af: "above ?R (me_up e) f = Some p1" using assms(4,6) by (simp add: above_def near_find)
  show thesis
  proof (cases "auths m p0 = auths m p1")
    case True
    show thesis by (rule that [of m]) (use True g assms(2,3,7) t au in \<open>simp_all add: rename_dirfrag_def\<close>)
  next
    case False
    have a0: "auths m p0 \<noteq> CDIR_AUTH_DEFAULT" using pr(1) by (simp add: dir_root_auths)
    obtain m1 where m1: "adjust_subtree_auth e f (auths m p0) (\<not> imp) m = Some m1" "subtree_inv e m1" "auths m1 = (auths m)(f := auths m p0)" "dirs_kept m m1"
      by (rule adjust_ok [OF assms(1,2) a0, of f "\<not> imp"]) (use af assms(3) in \<open>auto simp: near_def\<close>)
    have R1: "dir_root m1 = ?R(f := True)" using a0 by (auto simp: dir_root_auths m1(3) fun_eq_iff)
    have uo: "up_ok (me_up e)" using assms(1) by simp
    have a1: "above (dir_root m1) (me_up e) f = Some p1"
      using af up_irrefl [OF uo, of f] by (simp add: R1 above_add [of "me_up e" ?R f, OF uo assms(3)])
    have pf: "p1 \<noteq> f" using pr(2) assms(3) by auto
    have nm: "\<not> mergeable e m1 f" using a1 pf False by (auto simp: mergeable_def m1(3))
    obtain m2 where m2: "try_subtree_merge_at e f (\<not> imp) m1 = Some m2" "subtree_inv e m2" "dirs_kept m1 m2"
      "auths m2 = (if mergeable e m1 f then (auths m1)(f := CDIR_AUTH_DEFAULT) else auths m1)"
      by (rule merge_at_ok [OF assms(1) m1(2), of f "\<not> imp"]) (use R1 in simp)
    have "rename_dirfrag e od nd imp f m = Some m2" using g assms(3,7) t au False m1(1) m2(1) by (simp add: rename_dirfrag_def)
    moreover have "dirs_kept m m2" by (rule dirs_kept_trans [OF m1(4) m2(3)])
    ultimately show thesis using that m2(2,4) nm m1(3) False by simp
  qed
qed

lemma each_dir_app: "each_dir f (xs @ ys) m = do { m1 \<leftarrow> each_dir f xs m; each_dir f ys m1 }"
proof (induction xs arbitrary: m)
  case (Cons x xs)
  then show ?case by (cases "f x m") simp_all
qed simp

lemma near_except:
  assumes "f \<noteq> x" "f \<notin> set (up x)" "\<And>y. y \<noteq> f \<Longrightarrow> R y = R' y"
  shows "near R up x = near R' up x"
  unfolding near_find by (rule find_cong_on, rule assms(3)) (use assms(1,2) in auto)

lemma mid_loop:
  assumes "env_ok e" "subtree_inv e m" "\<forall>f\<in>set fs. \<not> dir_root m f \<and> me_up e f = nd # me_up e nd"
    "\<forall>f\<in>set fs. f \<noteq> od \<and> f \<notin> set (me_up e od) \<and> f \<noteq> nd \<and> f \<notin> set (me_up e nd)" "distinct fs"
    "near (dir_root m) (me_up e) od = Some p0" "near (dir_root m) (me_up e) nd = Some p1" "p0 \<noteq> p1"
  shows "\<exists>m'. each_dir (rename_dirfrag e od nd imp) fs m = Some m' \<and> subtree_inv e m' \<and>
    auths m' = (if auths m p0 = auths m p1 then auths m else (\<lambda>x. if x \<in> set fs then auths m p0 else auths m x))"
  using assms(2-7)
proof (induction fs arbitrary: m)
  case (Cons f fs)
  obtain m1 where m1: "rename_dirfrag e od nd imp f m = Some m1" "subtree_inv e m1"
    "auths m1 = (if auths m p0 = auths m p1 then auths m else (auths m)(f := auths m p0))"
    by (rule rename_mid_step [OF assms(1) Cons.prems(1) _ _ Cons.prems(5,6) assms(8), of f imp]) (use Cons.prems in auto)
  have pr: "dir_root m p0" "dir_root m p1" using near_SomeD [OF Cons.prems(5)] near_SomeD [OF Cons.prems(6)] by simp_all
  then have pf: "p0 \<noteq> f" "p1 \<noteq> f" using Cons.prems(2) by auto
  have R1: "dir_root m1 x = dir_root m x" if "x \<noteq> f" for x using that by (simp add: dir_root_auths m1(3))
  have a1: "auths m1 p0 = auths m p0" "auths m1 p1 = auths m p1" using pf by (simp_all add: m1(3))
  have "near (dir_root m1) (me_up e) od = Some p0" "near (dir_root m1) (me_up e) nd = Some p1"
    using near_except [of f od "me_up e" "dir_root m1" "dir_root m"] near_except [of f nd "me_up e" "dir_root m1" "dir_root m"]
      R1 Cons.prems(3,5,6) by simp_all
  moreover have "\<forall>g\<in>set fs. \<not> dir_root m1 g \<and> me_up e g = nd # me_up e nd"
    using Cons.prems(2,4) R1 by (metis distinct.simps(2) list.set_intros(2))
  ultimately obtain m' where m': "each_dir (rename_dirfrag e od nd imp) fs m1 = Some m'" "subtree_inv e m'"
    "auths m' = (if auths m1 p0 = auths m1 p1 then auths m1 else (\<lambda>x. if x \<in> set fs then auths m1 p0 else auths m1 x))"
    using Cons.IH [OF m1(2)] Cons.prems(3,4) by auto
  have "auths m' = (if auths m p0 = auths m p1 then auths m else (\<lambda>x. if x \<in> set (f # fs) then auths m p0 else auths m x))"
    unfolding m'(3) a1 m1(3) using pf by (auto simp: fun_eq_iff)
  with m1(1) m'(1,2) show ?case by auto
qed simp

lemma root_loop:
  assumes "env_ok e" "renaming e up (rs @ ns) od nd m" "\<forall>f\<in>set rs. dir_root m f" "near (dir_root m) up od = Some p0" "near (dir_root m) up nd = Some p1"
  shows "\<exists>up' m'. each_dir (rename_dirfrag e od nd imp) rs m = Some m' \<and> renaming e up' ns od nd m' \<and> (\<forall>x. x \<notin> set rs \<longrightarrow> auths m' x = auths m x) \<and>
    responsible (e\<lparr>me_up := up'\<rparr>) (auths m') = responsible (e\<lparr>me_up := up\<rparr>) (auths m) \<and>
    near (dir_root m') up' od = Some p0 \<and> near (dir_root m') up' nd = Some p1"
  using assms(2-5)
proof (induction rs arbitrary: up m)
  case (Cons f rs)
  have rn: "renaming e up (f # (rs @ ns)) od nd m" "dir_root m f" using Cons.prems(1,2) by simp_all
  obtain m1 where m1: "rename_dirfrag e od nd imp f m = Some m1" "renaming e (relink {f} nd up) (rs @ ns) od nd m1" "\<And>x. x \<noteq> f \<Longrightarrow> auths m1 x = auths m x"
    "responsible (e\<lparr>me_up := relink {f} nd up\<rparr>) (auths m1) = responsible (e\<lparr>me_up := up\<rparr>) (auths m)"
    by (rule rename_root_step [OF assms(1) rn Cons.prems(3,4), of imp]) blast
  have r: "up_ok up" "up f = od # up od" "nd \<noteq> f" "f \<notin> set (up nd)" "f \<notin> set rs" using rn(1) by (auto simp: renaming_def)
  have od: "f \<noteq> od" "f \<notin> set (up od)" using r(2) up_irrefl [OF r(1), of f] by auto
  have u: "relink {f} nd up od = up od" "relink {f} nd up nd = up nd" using relink_away [of od "{f}" up] relink_away [of nd "{f}" up] od r(3,4) by auto
  have R1: "dir_root m1 x = dir_root m x" if "x \<noteq> f" for x using m1(3) [OF that] by (simp add: dir_root_auths)
  have "near (dir_root m1) up od = Some p0" "near (dir_root m1) up nd = Some p1"
    using near_except [of f od up "dir_root m1" "dir_root m"] near_except [of f nd up "dir_root m1" "dir_root m"] R1 od r(3,4) Cons.prems(3,4) by auto
  then have n: "near (dir_root m1) (relink {f} nd up) od = Some p0" "near (dir_root m1) (relink {f} nd up) nd = Some p1"
    unfolding near_find u .
  have rt: "\<forall>g\<in>set rs. dir_root m1 g" using Cons.prems(2) R1 r(5) by (metis list.set_intros(2))
  from Cons.IH [OF m1(2) rt n] m1 show ?case by auto
qed auto

text \<open>The authorities the fragments receive make up for their move.\<close>

lemma mid_responsible:
  assumes "up_ok up" "\<forall>f\<in>F. up f = od # up od \<and> \<not> roots A f" "near (roots A) up od = Some p0" "near (roots A) up nd = Some p1"
  defines "A' \<equiv> (if A p0 = A p1 then A else (\<lambda>x. if x \<in> F then A p0 else A x))"
  shows "responsible (e\<lparr>me_up := relink F nd up\<rparr>) A' = responsible (e\<lparr>me_up := up\<rparr>) A"
proof
  fix x
  have F: "\<forall>f\<in>F. up f = od # up od" using assms(2) by blast
  have ab: "above (roots A) (relink F nd up) x = (if passes (roots A) F up x then Some p1 else above (roots A) up x)"
    "passes (roots A) F up x \<Longrightarrow> above (roots A) up x = Some p0"
    using above_relink [OF assms(1) F, of "roots A"] assms(3,4) by simp_all
  show "responsible (e\<lparr>me_up := relink F nd up\<rparr>) A' x = responsible (e\<lparr>me_up := up\<rparr>) A x"
  proof (cases "A p0 = A p1")
    case True
    then show ?thesis using ab by (auto simp: A'_def responsible_def near_def)
  next
    case False
    have A0: "A p0 \<noteq> CDIR_AUTH_DEFAULT" using near_SomeD [OF assms(3)] by simp
    have A': "A' = (\<lambda>x. if x \<in> F then A p0 else A x)" using False by (simp add: A'_def)
    have R': "roots A' = (\<lambda>y. roots A y \<or> y \<in> F)" using A0 by (auto simp: A' fun_eq_iff)
    let ?h = "find (\<lambda>y. roots A y \<or> y \<in> F) (up x)"
    have o: "above (roots A) up x = (case ?h of None \<Rightarrow> None | Some y \<Rightarrow> if roots A y then Some y else Some p0)"
      unfolding above_def find_first [OF assms(1) F, of "roots A" x] assms(3) [unfolded near_find] ..
    have n: "x \<notin> F \<Longrightarrow> above (roots A') (relink F nd up) x = ?h"
    proof -
      assume x: "x \<notin> F"
      have "find (roots A') (relink_chain F (nd # up nd) (up x)) = ?h"
        unfolding R' find_relink_chain by (auto split: option.splits dest!: find_split)
      then show ?thesis using x by (simp add: above_def relink_def)
    qed
    have h: "roots A y \<or> y \<in> F" if "?h = Some y" for y using find_split [OF that] by blast
    consider "x \<in> F" | "x \<notin> F" "roots A x" | "x \<notin> F" "\<not> roots A x" by blast
    then show ?thesis
    proof cases
      case 1
      have "above (roots A) up x = Some p0" using F 1 assms(3) by (simp add: above_def near_find)
      moreover have "\<not> roots A x" using assms(2) 1 by blast
      ultimately have "near (roots A) up x = Some p0" by (simp add: near_def)
      moreover have "near (roots A') (relink F nd up) x = Some x" "A' x = A p0" using 1 A0 by (simp_all add: near_def A')
      ultimately show ?thesis by (simp add: responsible_def)
    next
      case 2
      then show ?thesis by (simp add: responsible_def near_def A')
    next
      case 3
      have "near (roots A') (relink F nd up) x = ?h" "near (roots A) up x = above (roots A) up x" using 3 n [OF 3(1)] R' by (simp_all add: near_def)
      moreover have "map_option A' ?h = map_option A (above (roots A) up x)"
      proof (cases ?h)
        case (Some y)
        have "roots A y \<Longrightarrow> y \<notin> F" using assms(2) by blast
        with h [OF Some] show ?thesis unfolding o Some by (auto simp: A')
      qed (simp add: o)
      ultimately show ?thesis by (simp add: responsible_def)
    qed
  qed
qed

section \<open>The whole operation\<close>

lemma renames_invisible:
  "auths (m\<lparr>mc_renames := x\<rparr>) = auths m" "dir_root (m\<lparr>mc_renames := x\<rparr>) = dir_root m" "subtree_inv e (m\<lparr>mc_renames := x\<rparr>) = subtree_inv e m"
proof -
  show "auths (m\<lparr>mc_renames := x\<rparr>) = auths m" "dir_root (m\<lparr>mc_renames := x\<rparr>) = dir_root m" by (simp_all add: auths_def dir_root_def fun_eq_iff)
  then show "subtree_inv e (m\<lparr>mc_renames := x\<rparr>) = subtree_inv e m"
    by (simp add: subtree_inv_def subs_exact_def dirs_pinned_def is_subtree_def sub_bounds_def)
qed

lemma rename_loop:
  assumes "env_ok e" "renaming e up (rs @ ns) od nd m" "\<forall>f\<in>set rs. dir_root m f" "\<forall>f\<in>set ns. \<not> dir_root m f"
    "near (dir_root m) up od = Some p0" "near (dir_root m) up nd = Some p1"
  shows "\<exists>m'. each_dir (rename_dirfrag e od nd imp) (rs @ ns) m = Some m' \<and> subtree_inv e m' \<and>
    responsible e (auths m') = responsible (e\<lparr>me_up := up\<rparr>) (auths m)"
proof -
  obtain up1 m1 where m1: "each_dir (rename_dirfrag e od nd imp) rs m = Some m1" "renaming e up1 ns od nd m1" "\<forall>x. x \<notin> set rs \<longrightarrow> auths m1 x = auths m x"
    "responsible (e\<lparr>me_up := up1\<rparr>) (auths m1) = responsible (e\<lparr>me_up := up\<rparr>) (auths m)"
    "near (dir_root m1) up1 od = Some p0" "near (dir_root m1) up1 nd = Some p1" using root_loop [OF assms(1,2,3,5,6)] by blast
  have r: "up_ok up1" "me_up e = relink (set ns) nd up1" "\<forall>f\<in>set ns. up1 f = od # up1 od" "nd \<notin> set ns" "set ns \<inter> set (up1 nd) = {}"
    "distinct ns" "subtree_inv (e\<lparr>me_up := up1\<rparr>) m1" using m1(2) by (simp_all add: renaming_def)
  have ch: "me_up e nd = up1 nd" "me_up e od = up1 od" by (rule renaming_away [OF m1(2)])+
  have "set rs \<inter> set ns = {}" using assms(2) by (auto simp: renaming_def)
  then have nr: "\<forall>f\<in>set ns. \<not> dir_root m1 f" using assms(4) m1(3) by (auto simp: dir_root_auths)
  have e: "e\<lparr>me_up := relink (set ns) nd up1\<rparr> = e" using r(2) by simp
  have goal: "responsible e A' = responsible (e\<lparr>me_up := up1\<rparr>) (auths m1)"
    if "A' = (if auths m1 p0 = auths m1 p1 then auths m1 else (\<lambda>x. if x \<in> set ns then auths m1 p0 else auths m1 x))" for A'
    using mid_responsible [of up1 "set ns" od "auths m1" p0 nd p1 e, unfolded e] r(1,3) nr m1(5,6) that by (simp add: dir_root_auths)
  have "\<exists>m'. each_dir (rename_dirfrag e od nd imp) ns m1 = Some m' \<and> subtree_inv e m' \<and> responsible e (auths m') = responsible (e\<lparr>me_up := up1\<rparr>) (auths m1)"
  proof (cases "p0 = p1")
    case True
    have i: "subtree_inv e m1"
      using relinked_inv [OF r(1,3,7) m1(5,6) refl subtree_inv_parts(1) [OF r(7)]] True unfolding e by simp
    have g: "get_subtree_root e m1 od = Some p0" "get_subtree_root e m1 nd = Some p0" using renaming_roots [OF m1(2)] m1(5,6) True by simp_all
    have "each_dir (rename_dirfrag e od nd imp) ns m1 = Some m1" by (induction ns) (simp_all add: rename_dirfrag_def g)
    moreover have "responsible e (auths m1) = responsible (e\<lparr>me_up := up1\<rparr>) (auths m1)" by (rule goal) (use True in simp)
    ultimately show ?thesis using i by blast
  next
    case False
    show ?thesis
    proof (cases ns)
      case Nil
      have i: "subtree_inv e m1" using subtree_inv_chains [of e "e\<lparr>me_up := up1\<rparr>"] r(2,7) Nil by (simp add: relink_away fun_eq_iff)
      moreover have "responsible e (auths m1) = responsible (e\<lparr>me_up := up1\<rparr>) (auths m1)" by (rule goal) (use Nil in auto)
      ultimately show ?thesis using Nil by simp
    next
      case (Cons f fs)
      obtain m2 where m2: "subtree_inv e m2" "mc_dirs m2 = mc_dirs m1" "rename_dirfrag e od nd imp f m1 = rename_dirfrag e od nd imp f m2"
        by (rule first_move [OF assms(1) _ _ m1(5,6) False, of f fs imp]) (use m1(2) nr Cons in auto)
      have R2: "dir_root m2 = dir_root m1" "auths m2 = auths m1" using m2(2) by (simp_all add: dir_root_def auths_def fun_eq_iff)
      have odn: "f \<noteq> od \<and> f \<notin> set (up1 od)" if "f \<in> set ns" for f using r(3) that up_irrefl [OF r(1), of f] by auto
      have "\<exists>m'. each_dir (rename_dirfrag e od nd imp) ns m2 = Some m' \<and> subtree_inv e m' \<and>
          auths m' = (if auths m2 p0 = auths m2 p1 then auths m2 else (\<lambda>x. if x \<in> set ns then auths m2 p0 else auths m2 x))"
      proof (rule mid_loop [OF assms(1) m2(1) _ _ r(6) _ _ False])
        show "\<forall>f\<in>set ns. \<not> dir_root m2 f \<and> me_up e f = nd # me_up e nd" using nr R2 r(2) ch(1) by (simp add: relink_def)
        show "\<forall>f\<in>set ns. f \<noteq> od \<and> f \<notin> set (me_up e od) \<and> f \<noteq> nd \<and> f \<notin> set (me_up e nd)" using odn r(4,5) ch by auto
        show "near (dir_root m2) (me_up e) od = Some p0" "near (dir_root m2) (me_up e) nd = Some p1"
          using m1(5,6) unfolding near_find ch R2 .
      qed
      moreover have "each_dir (rename_dirfrag e od nd imp) ns m1 = each_dir (rename_dirfrag e od nd imp) ns m2" using m2(3) Cons by simp
      ultimately show ?thesis using goal unfolding R2 by auto
    qed
  qed
  then show ?thesis using m1(1,4) by (auto simp: each_dir_app)
qed

text \<open>C15: A rename moves no authority. When a directory inode has been linked elsewhere, with both its old
  and its new parent in some subtree, and its fragments that are subtree roots come first in the list,
  the adjustment does not abort; afterwards the map is exact for the new hierarchy, and every directory,
  those beneath the renamed one included, has the authority it had before the rename.\<close>

theorem rename_keeps_authority:
  assumes "env_ok e" "up_ok up" "me_up e = relink (set (rs @ ns)) newdir up" "\<forall>f\<in>set (rs @ ns). up f = olddir # up olddir"
    "newdir \<notin> set (rs @ ns)" "set (rs @ ns) \<inter> set (up newdir) = {}" "distinct (rs @ ns)"
    "subtree_inv (e\<lparr>me_up := up\<rparr>) m" "\<forall>f\<in>set rs. dir_root m f" "\<forall>f\<in>set ns. \<not> dir_root m f"
    "get_subtree_root (e\<lparr>me_up := up\<rparr>) m olddir \<noteq> None" "get_subtree_root (e\<lparr>me_up := up\<rparr>) m newdir \<noteq> None"
    "pop \<Longrightarrow> map_of (mc_renames m) diri = Some ((olddir, newdir) # later)"
  shows "\<exists>m'. adjust_subtree_after_rename e diri olddir newdir (rs @ ns) pop imported m = Some m' \<and> subtree_inv e m' \<and>
    responsible e (auths m') = responsible (e\<lparr>me_up := up\<rparr>) (auths m)"
proof -
  obtain p0 p1 where p: "near (dir_root m) up olddir = Some p0" "near (dir_root m) up newdir = Some p1"
    using assms(11,12) by (auto simp: get_subtree_root_near)
  obtain x where x: "(if pop then pop_rename diri olddir newdir m else Some m) = Some (m\<lparr>mc_renames := x\<rparr>)"
    using assms(13) by (cases pop) (auto simp: pop_rename_def intro: that [of "mc_renames m"])
  have "renaming e up (rs @ ns) olddir newdir (m\<lparr>mc_renames := x\<rparr>)"
    using assms(2-8) by (simp add: renaming_def renames_invisible)
  from rename_loop [OF assms(1) this, of p0 p1 imported] p assms(9,10) x show ?thesis
    by (simp add: renames_invisible adjust_subtree_after_rename_def)
qed

theorem rename_keeps_authority_witness:
  "\<exists>m m'. auths m = small_auths \<and>
     adjust_subtree_after_rename (tree_env (relink {3} 2 small_up)) 7 1 2 [3] True False (project_subtree_rename 7 1 2 m) = Some m' \<and>
     responsible (tree_env (relink {3} 2 small_up)) (auths m') 3 = Some (1, -2)"
proof -
  let ?up = "relink {3} 2 small_up" and ?e = "tree_env (relink {3} 2 small_up)"
  have uo: "up_ok ?up" by (rule up_ok_relink [OF small_up_ok]) (simp_all add: small_up_def)
  obtain m where m: "sub_reach (tree_env small_up) m" "auths m = small_auths" "dirs_kept empty_cache m" using small_reach by blast
  have R: "dir_root m = (\<lambda>d. d = 0 \<or> d = 1 \<or> d = 2 \<or> d = 4)" using small_roots [OF m(2)] by (simp add: fun_eq_iff)
  let ?m = "project_subtree_rename 7 1 2 m"
  have i0: "subtree_inv (tree_env small_up) m" by (rule sub_reach_inv [OF m(1) tree_env_ok [OF small_up_ok]])
  have i: "subtree_inv (?e\<lparr>me_up := small_up\<rparr>) ?m"
    using i0 subtree_inv_chains [of "?e\<lparr>me_up := small_up\<rparr>" "tree_env small_up"] by (simp add: project_subtree_rename_def renames_invisible)
  have R': "dir_root ?m = dir_root m" "auths ?m = auths m" by (simp_all add: project_subtree_rename_def renames_invisible)
  have rn: "map_of (mc_renames ?m) 7 = Some ((1, 2) # [])"
    using m(3) by (simp add: project_subtree_rename_def dirs_kept_def empty_cache_def om_get_def)
  have "\<exists>m'. adjust_subtree_after_rename ?e 7 1 2 ([] @ [3]) True False ?m = Some m' \<and> subtree_inv ?e m' \<and>
      responsible ?e (auths m') = responsible (?e\<lparr>me_up := small_up\<rparr>) (auths ?m)"
    by (rule rename_keeps_authority [OF tree_env_ok [OF uo] small_up_ok _ _ _ _ _ i _ _ _ _ rn])
      (simp_all add: small_up_def get_subtree_root_def R' [simplified] R [simplified])
  moreover have "responsible (?e\<lparr>me_up := small_up\<rparr>) (auths ?m) 3 = Some (1, -2)"
    unfolding R' m(2) by (simp add: responsible_def near_def above_def small_auths_def small_up_def cdir_auth_defs)
  ultimately show ?thesis using m(2) by auto
qed

end
