(* ===== verification/Config_Options.thy ===== *)
theory Config_Options
  imports C_Strings
begin

text \<open>
  The options of the daemon (\<^verbatim>\<open>src/src/common/config_opts.h\<close>) and the values they hold. The header is
  included several times with different meanings of its macros: as the table of names and types
  (\<open>config_optionsp\<close>), as the initialisation of the fields of \<^verbatim>\<open>md_config_t\<close> (\<open>init_val\<close>), and as the list
  of logging subsystems. Macros of other headers that the defaults use are the fields of
  \<open>build_macros\<close>; network addresses and unique identifiers are types the sources do not define.
\<close>

section \<open>Types and values\<close>

datatype opt_type = OPT_INT | OPT_LONGLONG | OPT_STR | OPT_DOUBLE | OPT_FLOAT | OPT_BOOL | OPT_ADDR | OPT_U32
  | OPT_U64 | OPT_UUID

datatype ('a, 'u) opt_value = VInt u32 | VLonglong u64 | VStr string | VDouble double | VFloat double | VBool bool
  | VAddr 'a | VU32 u32 | VU64 u64 | VUuid 'u

fun type_of :: "('a, 'u) opt_value \<Rightarrow> opt_type" where
  "type_of (VInt _) = OPT_INT"
| "type_of (VLonglong _) = OPT_LONGLONG"
| "type_of (VStr _) = OPT_STR"
| "type_of (VDouble _) = OPT_DOUBLE"
| "type_of (VFloat _) = OPT_FLOAT"
| "type_of (VBool _) = OPT_BOOL"
| "type_of (VAddr _) = OPT_ADDR"
| "type_of (VU32 _) = OPT_U32"
| "type_of (VU64 _) = OPT_U64"
| "type_of (VUuid _) = OPT_UUID"

text \<open>The expression in the third argument of \<^verbatim>\<open>OPTION\<close>.\<close>

datatype opt_default = DInt int | DReal double | DBool bool | DStr string | DAddr | DUuid

type_synonym opt_row = "string \<times> opt_type \<times> opt_default"

record build_macros =
  bm_str_hash_rjenkins :: int
  bm_crush_ruleset :: int
  bm_stripe_width :: int
  bm_pkglibdir :: string
  bm_libdir :: string
  bm_yasm :: bool

section \<open>Initial values\<close>

text \<open>The conversions of a default to the type of its field.\<close>

fun default_int :: "opt_default \<Rightarrow> int" where
  "default_int (DInt i) = i"
| "default_int (DReal r) = trunc_int r"
| "default_int (DBool b) = (if b then 1 else 0)"
| "default_int _ = 0"

fun default_real :: "opt_default \<Rightarrow> double" where
  "default_real (DInt i) = of_int i"
| "default_real (DReal r) = r"
| "default_real (DBool b) = (if b then 1 else 0)"
| "default_real _ = 0"

fun default_bool :: "opt_default \<Rightarrow> bool" where
  "default_bool (DInt i) = (i \<noteq> 0)"
| "default_bool (DReal r) = (r \<noteq> 0)"
| "default_bool (DBool b) = b"
| "default_bool _ = False"

fun default_str :: "opt_default \<Rightarrow> string" where
  "default_str (DStr s) = s"
| "default_str _ = []"

text \<open>The \<^verbatim>\<open>OPTION_OPT_*\<close> macros of the constructor; an address and an identifier start as the value of
  their default constructor.\<close>

fun init_val :: "'a \<Rightarrow> 'u \<Rightarrow> opt_type \<Rightarrow> opt_default \<Rightarrow> ('a, 'u) opt_value" where
  "init_val a0 u0 OPT_INT d = VInt (word_of_int (default_int d))"
| "init_val a0 u0 OPT_LONGLONG d = VLonglong (word_of_int (default_int d))"
| "init_val a0 u0 OPT_STR d = VStr (c_str (default_str d))"
| "init_val a0 u0 OPT_DOUBLE d = VDouble (default_real d)"
| "init_val a0 u0 OPT_FLOAT d = VFloat (default_real d)"
| "init_val a0 u0 OPT_BOOL d = VBool (default_bool d)"
| "init_val a0 u0 OPT_ADDR d = VAddr a0"
| "init_val a0 u0 OPT_U32 d = VU32 (word_of_int (default_int d))"
| "init_val a0 u0 OPT_U64 d = VU64 (word_of_int (default_int d))"
| "init_val a0 u0 OPT_UUID d = VUuid u0"

lemma init_val_type [simp]: "type_of (init_val a0 u0 t d) = t"
  by (cases t) simp_all

section \<open>The table\<close>

text \<open>Options of host, logging and transport.\<close>

definition common_options :: "opt_row list" where
  "common_options = [
   (''host'', OPT_STR, DStr ''localhost''),
   (''fsid'', OPT_UUID, DUuid),
   (''public_addr'', OPT_ADDR, DAddr),
   (''cluster_addr'', OPT_ADDR, DAddr),
   (''public_network'', OPT_STR, DStr ''''),
   (''cluster_network'', OPT_STR, DStr ''''),
   (''num_client'', OPT_INT, DInt 1),
   (''monmap'', OPT_STR, DStr ''''),
   (''mon_host'', OPT_STR, DStr ''''),
   (''lockdep'', OPT_BOOL, DBool False),
   (''run_dir'', OPT_STR, DStr ''/var/run/ceph''),
   (''admin_socket'', OPT_STR, DStr ''$run_dir/$cluster-$name.asok''),
   (''daemonize'', OPT_BOOL, DBool False),
   (''pid_file'', OPT_STR, DStr ''''),
   (''chdir'', OPT_STR, DStr ''/''),
   (''max_open_files'', OPT_LONGLONG, DInt 0),
   (''restapi_log_level'', OPT_STR, DStr ''''),
   (''restapi_base_url'', OPT_STR, DStr ''''),
   (''fatal_signal_handlers'', OPT_BOOL, DBool True),
   (''log_file'', OPT_STR, DStr ''/var/log/ceph/$cluster-$name.log''),
   (''log_max_new'', OPT_INT, DInt 1000),
   (''log_max_recent'', OPT_INT, DInt 10000),
   (''log_to_stderr'', OPT_BOOL, DBool True),
   (''err_to_stderr'', OPT_BOOL, DBool True),
   (''log_to_syslog'', OPT_BOOL, DBool False),
   (''err_to_syslog'', OPT_BOOL, DBool False),
   (''log_flush_on_exit'', OPT_BOOL, DBool True),
   (''log_stop_at_utilization'', OPT_FLOAT, DReal 0.97),
   (''clog_to_monitors'', OPT_STR, DStr ''default=true''),
   (''clog_to_syslog'', OPT_STR, DStr ''false''),
   (''clog_to_syslog_level'', OPT_STR, DStr ''info''),
   (''clog_to_syslog_facility'', OPT_STR, DStr ''default=daemon audit=local0''),
   (''mon_cluster_log_to_syslog'', OPT_STR, DStr ''default=false''),
   (''mon_cluster_log_to_syslog_level'', OPT_STR, DStr ''info''),
   (''mon_cluster_log_to_syslog_facility'', OPT_STR, DStr ''daemon''),
   (''mon_cluster_log_file'', OPT_STR, DStr ''default=/var/log/ceph/$cluster.$channel.log cluster=/var/log/ceph/$cluster.log''),
   (''mon_cluster_log_file_level'', OPT_STR, DStr ''info''),
   (''enable_experimental_unrecoverable_data_corrupting_features'', OPT_STR, DStr ''''),
   (''xio_trace_mempool'', OPT_BOOL, DBool False),
   (''xio_trace_msgcnt'', OPT_BOOL, DBool False),
   (''xio_trace_xcon'', OPT_BOOL, DBool False),
   (''xio_queue_depth'', OPT_INT, DInt 512),
   (''xio_mp_min'', OPT_INT, DInt 128),
   (''xio_mp_max_64'', OPT_INT, DInt 65536),
   (''xio_mp_max_256'', OPT_INT, DInt 8192),
   (''xio_mp_max_1k'', OPT_INT, DInt 8192),
   (''xio_mp_max_page'', OPT_INT, DInt 4096),
   (''xio_mp_max_hint'', OPT_INT, DInt 4096),
   (''xio_portal_threads'', OPT_INT, DInt 2)]"

text \<open>The logging subsystems with their log and gather levels.\<close>

definition subsys_rows :: "(string \<times> int \<times> int) list" where
  "subsys_rows = [
   (''none'', 0, 5),
   (''lockdep'', 0, 1),
   (''context'', 0, 1),
   (''crush'', 1, 1),
   (''mds'', 1, 5),
   (''mds_balancer'', 1, 5),
   (''mds_locker'', 1, 5),
   (''mds_log'', 1, 5),
   (''mds_log_expire'', 1, 5),
   (''mds_migrator'', 1, 5),
   (''buffer'', 0, 1),
   (''timer'', 0, 1),
   (''filer'', 0, 1),
   (''striper'', 0, 1),
   (''objecter'', 0, 1),
   (''rados'', 0, 5),
   (''rbd'', 0, 5),
   (''rbd_replay'', 0, 5),
   (''journaler'', 0, 5),
   (''objectcacher'', 0, 5),
   (''client'', 0, 5),
   (''osd'', 0, 5),
   (''optracker'', 0, 5),
   (''objclass'', 0, 5),
   (''filestore'', 1, 3),
   (''keyvaluestore'', 1, 3),
   (''journal'', 1, 3),
   (''ms'', 0, 5),
   (''mon'', 1, 5),
   (''monc'', 0, 10),
   (''paxos'', 1, 5),
   (''tp'', 0, 5),
   (''auth'', 1, 5),
   (''crypto'', 1, 5),
   (''finisher'', 1, 1),
   (''heartbeatmap'', 1, 5),
   (''perfcounter'', 1, 5),
   (''rgw'', 1, 5),
   (''civetweb'', 1, 10),
   (''javaclient'', 1, 5),
   (''asok'', 1, 5),
   (''throttle'', 1, 1),
   (''refs'', 0, 0),
   (''xio'', 1, 5)]"

text \<open>Options of keys and the messenger.\<close>

definition auth_ms_options :: "opt_row list" where
  "auth_ms_options = [
   (''key'', OPT_STR, DStr ''''),
   (''keyfile'', OPT_STR, DStr ''''),
   (''keyring'', OPT_STR, DStr ''/etc/ceph/$cluster.$name.keyring,/etc/ceph/$cluster.keyring,/etc/ceph/keyring,/etc/ceph/keyring.bin''),
   (''heartbeat_interval'', OPT_INT, DInt 5),
   (''heartbeat_file'', OPT_STR, DStr ''''),
   (''heartbeat_inject_failure'', OPT_INT, DInt 0),
   (''perf'', OPT_BOOL, DBool True),
   (''ms_type'', OPT_STR, DStr ''simple''),
   (''ms_tcp_nodelay'', OPT_BOOL, DBool True),
   (''ms_tcp_rcvbuf'', OPT_INT, DInt 0),
   (''ms_tcp_prefetch_max_size'', OPT_INT, DInt 4096),
   (''ms_initial_backoff'', OPT_DOUBLE, DReal 0.2),
   (''ms_max_backoff'', OPT_DOUBLE, DReal 15),
   (''ms_crc_data'', OPT_BOOL, DBool True),
   (''ms_crc_header'', OPT_BOOL, DBool True),
   (''ms_die_on_bad_msg'', OPT_BOOL, DBool False),
   (''ms_die_on_unhandled_msg'', OPT_BOOL, DBool False),
   (''ms_die_on_old_message'', OPT_BOOL, DBool False),
   (''ms_die_on_skipped_message'', OPT_BOOL, DBool False),
   (''ms_dispatch_throttle_bytes'', OPT_U64, DInt (100 * 2 ^ 20)),
   (''ms_bind_ipv6'', OPT_BOOL, DBool False),
   (''ms_bind_port_min'', OPT_INT, DInt 6800),
   (''ms_bind_port_max'', OPT_INT, DInt 7300),
   (''ms_bind_retry_count'', OPT_INT, DInt 3),
   (''ms_bind_retry_delay'', OPT_INT, DInt 5),
   (''ms_rwthread_stack_bytes'', OPT_U64, DInt (1024 * 2 ^ 10)),
   (''ms_tcp_read_timeout'', OPT_U64, DInt 900),
   (''ms_pq_max_tokens_per_priority'', OPT_U64, DInt 16777216),
   (''ms_pq_min_cost'', OPT_U64, DInt 65536),
   (''ms_inject_socket_failures'', OPT_U64, DInt 0),
   (''ms_inject_delay_type'', OPT_STR, DStr ''''),
   (''ms_inject_delay_msg_type'', OPT_STR, DStr ''''),
   (''ms_inject_delay_max'', OPT_DOUBLE, DInt 1),
   (''ms_inject_delay_probability'', OPT_DOUBLE, DInt 0),
   (''ms_inject_internal_delays'', OPT_DOUBLE, DInt 0),
   (''ms_dump_on_send'', OPT_BOOL, DBool False),
   (''ms_dump_corrupt_message_level'', OPT_INT, DInt 1),
   (''ms_async_op_threads'', OPT_INT, DInt 2),
   (''ms_async_set_affinity'', OPT_BOOL, DBool True),
   (''ms_async_affinity_cores'', OPT_STR, DStr ''''),
   (''inject_early_sigterm'', OPT_BOOL, DBool False)]"

text \<open>Options of the monitors and authentication.\<close>

definition mon_options :: "opt_row list" where
  "mon_options = [
   (''mon_data'', OPT_STR, DStr ''/var/lib/ceph/mon/$cluster-$id''),
   (''mon_initial_members'', OPT_STR, DStr ''''),
   (''mon_sync_fs_threshold'', OPT_INT, DInt 5),
   (''mon_compact_on_start'', OPT_BOOL, DBool False),
   (''mon_compact_on_bootstrap'', OPT_BOOL, DBool False),
   (''mon_compact_on_trim'', OPT_BOOL, DBool True),
   (''mon_tick_interval'', OPT_INT, DInt 5),
   (''mon_subscribe_interval'', OPT_DOUBLE, DInt 300),
   (''mon_delta_reset_interval'', OPT_DOUBLE, DInt 10),
   (''mon_osd_laggy_halflife'', OPT_INT, DInt (60 * 60)),
   (''mon_osd_laggy_weight'', OPT_DOUBLE, DReal 0.3),
   (''mon_osd_adjust_heartbeat_grace'', OPT_BOOL, DBool True),
   (''mon_osd_adjust_down_out_interval'', OPT_BOOL, DBool True),
   (''mon_osd_auto_mark_in'', OPT_BOOL, DBool False),
   (''mon_osd_auto_mark_auto_out_in'', OPT_BOOL, DBool True),
   (''mon_osd_auto_mark_new_in'', OPT_BOOL, DBool True),
   (''mon_osd_down_out_interval'', OPT_INT, DInt 300),
   (''mon_osd_down_out_subtree_limit'', OPT_STR, DStr ''rack''),
   (''mon_osd_min_up_ratio'', OPT_DOUBLE, DReal 0.3),
   (''mon_osd_min_in_ratio'', OPT_DOUBLE, DReal 0.3),
   (''mon_osd_max_op_age'', OPT_DOUBLE, DInt 32),
   (''mon_osd_max_split_count'', OPT_INT, DInt 32),
   (''mon_osd_allow_primary_temp'', OPT_BOOL, DBool False),
   (''mon_osd_allow_primary_affinity'', OPT_BOOL, DBool False),
   (''mon_stat_smooth_intervals'', OPT_INT, DInt 2),
   (''mon_lease'', OPT_FLOAT, DInt 5),
   (''mon_lease_renew_interval'', OPT_FLOAT, DInt 3),
   (''mon_lease_ack_timeout'', OPT_FLOAT, DReal 10),
   (''mon_clock_drift_allowed'', OPT_FLOAT, DReal 0.050),
   (''mon_clock_drift_warn_backoff'', OPT_FLOAT, DInt 5),
   (''mon_timecheck_interval'', OPT_FLOAT, DReal 300),
   (''mon_accept_timeout'', OPT_FLOAT, DReal 10),
   (''mon_pg_create_interval'', OPT_FLOAT, DReal 30),
   (''mon_pg_stuck_threshold'', OPT_INT, DInt 300),
   (''mon_pg_warn_min_per_osd'', OPT_INT, DInt 30),
   (''mon_pg_warn_max_per_osd'', OPT_INT, DInt 300),
   (''mon_pg_warn_max_object_skew'', OPT_FLOAT, DReal 10),
   (''mon_pg_warn_min_objects'', OPT_INT, DInt 10000),
   (''mon_pg_warn_min_pool_objects'', OPT_INT, DInt 1000),
   (''mon_cache_target_full_warn_ratio'', OPT_FLOAT, DReal 0.66),
   (''mon_osd_full_ratio'', OPT_FLOAT, DReal 0.95),
   (''mon_osd_nearfull_ratio'', OPT_FLOAT, DReal 0.85),
   (''mon_allow_pool_delete'', OPT_BOOL, DBool True),
   (''mon_globalid_prealloc'', OPT_U32, DInt 10000),
   (''mon_osd_report_timeout'', OPT_INT, DInt 900),
   (''mon_force_standby_active'', OPT_BOOL, DBool True),
   (''mon_warn_on_old_mons'', OPT_BOOL, DBool True),
   (''mon_warn_on_legacy_crush_tunables'', OPT_BOOL, DBool True),
   (''mon_warn_on_osd_down_out_interval_zero'', OPT_BOOL, DBool True),
   (''mon_warn_on_cache_pools_without_hit_sets'', OPT_BOOL, DBool True),
   (''mon_min_osdmap_epochs'', OPT_INT, DInt 500),
   (''mon_max_pgmap_epochs'', OPT_INT, DInt 500),
   (''mon_max_log_epochs'', OPT_INT, DInt 500),
   (''mon_max_mdsmap_epochs'', OPT_INT, DInt 500),
   (''mon_max_osd'', OPT_INT, DInt 10000),
   (''mon_probe_timeout'', OPT_DOUBLE, DReal 2),
   (''mon_slurp_timeout'', OPT_DOUBLE, DReal 10),
   (''mon_slurp_bytes'', OPT_INT, DInt (256 * 1024)),
   (''mon_client_bytes'', OPT_U64, DInt (100 * 2 ^ 20)),
   (''mon_daemon_bytes'', OPT_U64, DInt (400 * 2 ^ 20)),
   (''mon_max_log_entries_per_event'', OPT_INT, DInt 4096),
   (''mon_reweight_min_pgs_per_osd'', OPT_U64, DInt 10),
   (''mon_reweight_min_bytes_per_osd'', OPT_U64, DInt (100 * 1024 * 1024)),
   (''mon_health_data_update_interval'', OPT_FLOAT, DReal 60),
   (''mon_health_to_clog'', OPT_BOOL, DBool True),
   (''mon_health_to_clog_interval'', OPT_INT, DInt 3600),
   (''mon_health_to_clog_tick_interval'', OPT_DOUBLE, DReal 60),
   (''mon_data_avail_crit'', OPT_INT, DInt 5),
   (''mon_data_avail_warn'', OPT_INT, DInt 30),
   (''mon_data_size_warn'', OPT_U64, DInt (15 * 1024 * 1024 * 1024)),
   (''mon_config_key_max_entry_size'', OPT_INT, DInt 4096),
   (''mon_sync_timeout'', OPT_DOUBLE, DReal 60),
   (''mon_sync_max_payload_size'', OPT_U32, DInt 1048576),
   (''mon_sync_debug'', OPT_BOOL, DBool False),
   (''mon_sync_debug_leader'', OPT_INT, DInt (- 1)),
   (''mon_sync_debug_provider'', OPT_INT, DInt (- 1)),
   (''mon_sync_debug_provider_fallback'', OPT_INT, DInt (- 1)),
   (''mon_inject_sync_get_chunk_delay'', OPT_DOUBLE, DInt 0),
   (''mon_osd_min_down_reporters'', OPT_INT, DInt 1),
   (''mon_osd_min_down_reports'', OPT_INT, DInt 3),
   (''mon_osd_force_trim_to'', OPT_INT, DInt 0),
   (''mon_mds_force_trim_to'', OPT_INT, DInt 0),
   (''mon_debug_dump_transactions'', OPT_BOOL, DBool False),
   (''mon_debug_dump_location'', OPT_STR, DStr ''/var/log/ceph/$cluster-$name.tdump''),
   (''mon_inject_transaction_delay_max'', OPT_DOUBLE, DReal 10),
   (''mon_inject_transaction_delay_probability'', OPT_DOUBLE, DInt 0),
   (''mon_sync_provider_kill_at'', OPT_INT, DInt 0),
   (''mon_sync_requester_kill_at'', OPT_INT, DInt 0),
   (''mon_force_quorum_join'', OPT_BOOL, DBool False),
   (''mon_keyvaluedb'', OPT_STR, DStr ''leveldb''),
   (''paxos_stash_full_interval'', OPT_INT, DInt 25),
   (''paxos_max_join_drift'', OPT_INT, DInt 10),
   (''paxos_propose_interval'', OPT_DOUBLE, DReal 1),
   (''paxos_min_wait'', OPT_DOUBLE, DReal 0.05),
   (''paxos_min'', OPT_INT, DInt 500),
   (''paxos_trim_min'', OPT_INT, DInt 250),
   (''paxos_trim_max'', OPT_INT, DInt 500),
   (''paxos_service_trim_min'', OPT_INT, DInt 250),
   (''paxos_service_trim_max'', OPT_INT, DInt 500),
   (''paxos_kill_at'', OPT_INT, DInt 0),
   (''clock_offset'', OPT_DOUBLE, DInt 0),
   (''auth_cluster_required'', OPT_STR, DStr ''cephx''),
   (''auth_service_required'', OPT_STR, DStr ''cephx''),
   (''auth_client_required'', OPT_STR, DStr ''cephx, none''),
   (''auth_supported'', OPT_STR, DStr ''''),
   (''cephx_require_signatures'', OPT_BOOL, DBool False),
   (''cephx_cluster_require_signatures'', OPT_BOOL, DBool False),
   (''cephx_service_require_signatures'', OPT_BOOL, DBool False),
   (''cephx_sign_messages'', OPT_BOOL, DBool True),
   (''auth_mon_ticket_ttl'', OPT_DOUBLE, DInt (60 * 60 * 12)),
   (''auth_service_ticket_ttl'', OPT_DOUBLE, DInt (60 * 60)),
   (''auth_debug'', OPT_BOOL, DBool False),
   (''mon_client_hunt_interval'', OPT_DOUBLE, DReal 3),
   (''mon_client_ping_interval'', OPT_DOUBLE, DReal 10),
   (''mon_client_ping_timeout'', OPT_DOUBLE, DReal 30),
   (''mon_client_hunt_interval_backoff'', OPT_DOUBLE, DReal 2),
   (''mon_client_hunt_interval_max_multiple'', OPT_DOUBLE, DReal 10),
   (''mon_client_max_log_entries_per_message'', OPT_INT, DInt 1000),
   (''mon_max_pool_pg_num'', OPT_INT, DInt 65536),
   (''mon_pool_quota_warn_threshold'', OPT_INT, DInt 0),
   (''mon_pool_quota_crit_threshold'', OPT_INT, DInt 0)]"

text \<open>Options of the client and the object layer.\<close>

definition client_options :: "opt_row list" where
  "client_options = [
   (''client_cache_size'', OPT_INT, DInt 16384),
   (''client_cache_mid'', OPT_FLOAT, DReal 0.75),
   (''client_use_random_mds'', OPT_BOOL, DBool False),
   (''client_mount_timeout'', OPT_DOUBLE, DReal 300),
   (''client_tick_interval'', OPT_DOUBLE, DReal 1),
   (''client_trace'', OPT_STR, DStr ''''),
   (''client_readahead_min'', OPT_LONGLONG, DInt (128 * 1024)),
   (''client_readahead_max_bytes'', OPT_LONGLONG, DInt 0),
   (''client_readahead_max_periods'', OPT_LONGLONG, DInt 4),
   (''client_snapdir'', OPT_STR, DStr ''.snap''),
   (''client_mountpoint'', OPT_STR, DStr ''/''),
   (''client_notify_timeout'', OPT_INT, DInt 10),
   (''osd_client_watch_timeout'', OPT_INT, DInt 30),
   (''client_caps_release_delay'', OPT_INT, DInt 5),
   (''client_quota'', OPT_BOOL, DBool False),
   (''client_oc'', OPT_BOOL, DBool True),
   (''client_oc_size'', OPT_INT, DInt (1024 * 1024 * 200)),
   (''client_oc_max_dirty'', OPT_INT, DInt (1024 * 1024 * 100)),
   (''client_oc_target_dirty'', OPT_INT, DInt (1024 * 1024 * 8)),
   (''client_oc_max_dirty_age'', OPT_DOUBLE, DReal 5),
   (''client_oc_max_objects'', OPT_INT, DInt 1000),
   (''client_debug_force_sync_read'', OPT_BOOL, DBool False),
   (''client_debug_inject_tick_delay'', OPT_INT, DInt 0),
   (''client_max_inline_size'', OPT_U64, DInt 4096),
   (''client_inject_release_failure'', OPT_BOOL, DBool False),
   (''fuse_use_invalidate_cb'', OPT_BOOL, DBool False),
   (''fuse_allow_other'', OPT_BOOL, DBool True),
   (''fuse_default_permissions'', OPT_BOOL, DBool True),
   (''fuse_big_writes'', OPT_BOOL, DBool True),
   (''fuse_atomic_o_trunc'', OPT_BOOL, DBool True),
   (''fuse_debug'', OPT_BOOL, DBool False),
   (''fuse_multithreaded'', OPT_BOOL, DBool True),
   (''client_try_dentry_invalidate'', OPT_BOOL, DBool True),
   (''client_die_on_failed_remount'', OPT_BOOL, DBool True),
   (''crush_location'', OPT_STR, DStr ''''),
   (''objecter_tick_interval'', OPT_DOUBLE, DReal 5),
   (''objecter_timeout'', OPT_DOUBLE, DReal 10),
   (''objecter_inflight_op_bytes'', OPT_U64, DInt (1024 * 1024 * 100)),
   (''objecter_inflight_ops'', OPT_U64, DInt 1024),
   (''objecter_completion_locks_per_session'', OPT_U64, DInt 32),
   (''objecter_inject_no_watch_ping'', OPT_BOOL, DBool False),
   (''journaler_allow_split_entries'', OPT_BOOL, DBool True),
   (''journaler_write_head_interval'', OPT_INT, DInt 15),
   (''journaler_prefetch_periods'', OPT_INT, DInt 10),
   (''journaler_prezero_periods'', OPT_INT, DInt 5),
   (''journaler_batch_interval'', OPT_DOUBLE, DReal 0.001),
   (''journaler_batch_max'', OPT_U64, DInt 0)]"

text \<open>Options of the metadata server.\<close>

definition mds_options :: "build_macros \<Rightarrow> opt_row list" where
  "mds_options bm = [
   (''mds_data'', OPT_STR, DStr ''/var/lib/ceph/mds/$cluster-$id''),
   (''mds_max_file_size'', OPT_U64, DInt (1 * 2 ^ 40)),
   (''mds_cache_size'', OPT_INT, DInt 100000),
   (''mds_cache_mid'', OPT_FLOAT, DReal 0.7),
   (''mds_max_file_recover'', OPT_U32, DInt 32),
   (''mds_mem_max'', OPT_INT, DInt 1048576),
   (''mds_dir_max_commit_size'', OPT_INT, DInt 10),
   (''mds_decay_halflife'', OPT_FLOAT, DInt 5),
   (''mds_beacon_interval'', OPT_FLOAT, DInt 4),
   (''mds_beacon_grace'', OPT_FLOAT, DInt 15),
   (''mds_enforce_unique_name'', OPT_BOOL, DBool True),
   (''mds_blacklist_interval'', OPT_FLOAT, DReal (24.0 * 60.0)),
   (''mds_session_timeout'', OPT_FLOAT, DInt 60),
   (''mds_revoke_cap_timeout'', OPT_FLOAT, DInt 60),
   (''mds_recall_state_timeout'', OPT_FLOAT, DInt 60),
   (''mds_freeze_tree_timeout'', OPT_FLOAT, DInt 30),
   (''mds_session_autoclose'', OPT_FLOAT, DInt 300),
   (''mds_health_summarize_threshold'', OPT_INT, DInt 10),
   (''mds_reconnect_timeout'', OPT_FLOAT, DInt 45),
   (''mds_tick_interval'', OPT_FLOAT, DInt 5),
   (''mds_dirstat_min_interval'', OPT_FLOAT, DInt 1),
   (''mds_scatter_nudge_interval'', OPT_FLOAT, DInt 5),
   (''mds_client_prealloc_inos'', OPT_INT, DInt 1000),
   (''mds_early_reply'', OPT_BOOL, DBool True),
   (''mds_default_dir_hash'', OPT_INT, DInt (bm_str_hash_rjenkins bm)),
   (''mds_log'', OPT_BOOL, DBool True),
   (''mds_log_skip_corrupt_events'', OPT_BOOL, DBool False),
   (''mds_log_max_events'', OPT_INT, DInt (- 1)),
   (''mds_log_events_per_segment'', OPT_INT, DInt 1024),
   (''mds_log_segment_size'', OPT_INT, DInt 0),
   (''mds_log_max_segments'', OPT_INT, DInt 30),
   (''mds_log_max_expiring'', OPT_INT, DInt 20),
   (''mds_bal_sample_interval'', OPT_FLOAT, DReal 3),
   (''mds_bal_replicate_threshold'', OPT_FLOAT, DInt 8000),
   (''mds_bal_unreplicate_threshold'', OPT_FLOAT, DInt 0),
   (''mds_bal_frag'', OPT_BOOL, DBool False),
   (''mds_bal_split_size'', OPT_INT, DInt 10000),
   (''mds_bal_split_rd'', OPT_FLOAT, DInt 25000),
   (''mds_bal_split_wr'', OPT_FLOAT, DInt 10000),
   (''mds_bal_split_bits'', OPT_INT, DInt 3),
   (''mds_bal_merge_size'', OPT_INT, DInt 50),
   (''mds_bal_merge_rd'', OPT_FLOAT, DInt 1000),
   (''mds_bal_merge_wr'', OPT_FLOAT, DInt 1000),
   (''mds_bal_interval'', OPT_INT, DInt 10),
   (''mds_bal_fragment_interval'', OPT_INT, DInt 5),
   (''mds_bal_idle_threshold'', OPT_FLOAT, DInt 0),
   (''mds_bal_max'', OPT_INT, DInt (- 1)),
   (''mds_bal_max_until'', OPT_INT, DInt (- 1)),
   (''mds_bal_mode'', OPT_INT, DInt 0),
   (''mds_bal_min_rebalance'', OPT_FLOAT, DReal 0.1),
   (''mds_bal_min_start'', OPT_FLOAT, DReal 0.2),
   (''mds_bal_need_min'', OPT_FLOAT, DReal 0.8),
   (''mds_bal_need_max'', OPT_FLOAT, DReal 1.2),
   (''mds_bal_midchunk'', OPT_FLOAT, DReal 0.3),
   (''mds_bal_minchunk'', OPT_FLOAT, DReal 0.001),
   (''mds_bal_target_removal_min'', OPT_INT, DInt 5),
   (''mds_bal_target_removal_max'', OPT_INT, DInt 10),
   (''mds_replay_interval'', OPT_FLOAT, DReal 1),
   (''mds_bal_minoffload'', OPT_INT, DInt 10),
   (''mds_bal_lua'', OPT_INT, DInt 0),
   (''mds_bal_metaload'', OPT_STR, DStr ''''),
   (''mds_bal_mdsload'', OPT_STR, DStr ''-1''),
   (''mds_bal_when'', OPT_STR, DStr ''''),
   (''mds_bal_where'', OPT_STR, DStr ''''),
   (''mds_bal_howmuch'', OPT_STR, DStr ''''),
   (''mds_bal_print_dfs'', OPT_INT, DInt 10),
   (''mds_bal_print_dfs_metaload'', OPT_FLOAT, DReal 0),
   (''mds_bal_print_dfs_depth'', OPT_INT, DInt 4),
   (''mds_shutdown_check'', OPT_INT, DInt 0),
   (''mds_thrash_exports'', OPT_INT, DInt 0),
   (''mds_thrash_fragments'', OPT_INT, DInt 0),
   (''mds_dump_cache_on_map'', OPT_BOOL, DBool False),
   (''mds_dump_cache_after_rejoin'', OPT_BOOL, DBool False),
   (''mds_verify_scatter'', OPT_BOOL, DBool False),
   (''mds_debug_scatterstat'', OPT_BOOL, DBool False),
   (''mds_debug_frag'', OPT_BOOL, DBool False),
   (''mds_debug_auth_pins'', OPT_BOOL, DBool False),
   (''mds_debug_subtrees'', OPT_BOOL, DBool False),
   (''mds_kill_mdstable_at'', OPT_INT, DInt 0),
   (''mds_kill_export_at'', OPT_INT, DInt 0),
   (''mds_kill_import_at'', OPT_INT, DInt 0),
   (''mds_kill_link_at'', OPT_INT, DInt 0),
   (''mds_kill_rename_at'', OPT_INT, DInt 0),
   (''mds_kill_openc_at'', OPT_INT, DInt 0),
   (''mds_kill_journal_at'', OPT_INT, DInt 0),
   (''mds_kill_journal_expire_at'', OPT_INT, DInt 0),
   (''mds_kill_journal_replay_at'', OPT_INT, DInt 0),
   (''mds_journal_format'', OPT_U32, DInt 1),
   (''mds_kill_create_at'', OPT_INT, DInt 0),
   (''mds_inject_traceless_reply_probability'', OPT_DOUBLE, DInt 0),
   (''mds_wipe_sessions'', OPT_BOOL, DInt 0),
   (''mds_wipe_ino_prealloc'', OPT_BOOL, DInt 0),
   (''mds_skip_ino'', OPT_INT, DInt 0),
   (''max_mds'', OPT_INT, DInt 1),
   (''mds_standby_for_name'', OPT_STR, DStr ''''),
   (''mds_standby_for_rank'', OPT_INT, DInt (- 1)),
   (''mds_standby_replay'', OPT_BOOL, DBool False),
   (''mds_enable_op_tracker'', OPT_BOOL, DBool True),
   (''mds_op_history_size'', OPT_U32, DInt 20),
   (''mds_op_history_duration'', OPT_U32, DInt 600),
   (''mds_op_complaint_time'', OPT_FLOAT, DInt 30),
   (''mds_op_log_threshold'', OPT_INT, DInt 5),
   (''mds_snap_min_uid'', OPT_U32, DInt 0),
   (''mds_snap_max_uid'', OPT_U32, DInt 65536),
   (''mds_verify_backtrace'', OPT_U32, DInt 1),
   (''mds_action_on_write_error'', OPT_U32, DInt 1)]"

text \<open>Options of the object store daemon: pools, threads, maps.\<close>

definition osd_pool_options :: "build_macros \<Rightarrow> opt_row list" where
  "osd_pool_options bm = [
   (''osd_compact_leveldb_on_mount'', OPT_BOOL, DBool False),
   (''osd_max_backfills'', OPT_U64, DInt 10),
   (''osd_min_recovery_priority'', OPT_INT, DInt 0),
   (''osd_backfill_full_ratio'', OPT_FLOAT, DReal 0.85),
   (''osd_backfill_retry_interval'', OPT_DOUBLE, DReal 10),
   (''osd_agent_max_ops'', OPT_INT, DInt 4),
   (''osd_agent_min_evict_effort'', OPT_FLOAT, DReal 0.1),
   (''osd_agent_quantize_effort'', OPT_FLOAT, DReal 0.1),
   (''osd_agent_delay_time'', OPT_FLOAT, DReal 5),
   (''osd_agent_hist_halflife'', OPT_INT, DInt 1000),
   (''osd_agent_slop'', OPT_FLOAT, DReal 0.02),
   (''osd_uuid'', OPT_UUID, DUuid),
   (''osd_data'', OPT_STR, DStr ''/var/lib/ceph/osd/$cluster-$id''),
   (''osd_journal'', OPT_STR, DStr ''/var/lib/ceph/osd/$cluster-$id/journal''),
   (''osd_journal_size'', OPT_INT, DInt 5120),
   (''osd_max_write_size'', OPT_INT, DInt 90),
   (''osd_max_pgls'', OPT_U64, DInt 1024),
   (''osd_client_message_size_cap'', OPT_U64, DInt (500 * 1024 * 1024)),
   (''osd_client_message_cap'', OPT_U64, DInt 100),
   (''osd_pg_bits'', OPT_INT, DInt 6),
   (''osd_pgp_bits'', OPT_INT, DInt 6),
   (''osd_crush_chooseleaf_type'', OPT_INT, DInt 1),
   (''osd_pool_default_crush_rule'', OPT_INT, DInt (- 1)),
   (''osd_pool_default_crush_replicated_ruleset'', OPT_INT, DInt (bm_crush_ruleset bm)),
   (''osd_pool_erasure_code_stripe_width'', OPT_U32, DInt (bm_stripe_width bm)),
   (''osd_pool_default_size'', OPT_INT, DInt 3),
   (''osd_pool_default_min_size'', OPT_INT, DInt 0),
   (''osd_pool_default_pg_num'', OPT_INT, DInt 8),
   (''osd_pool_default_pgp_num'', OPT_INT, DInt 8),
   (''osd_pool_default_erasure_code_directory'', OPT_STR, DStr (bm_pkglibdir bm @ ''/erasure-code'')),
   (''osd_pool_default_erasure_code_profile'', OPT_STR, DStr ''plugin=jerasure technique=reed_sol_van k=2 m=1 ''),
   (''osd_erasure_code_plugins'', OPT_STR, DStr (''jerasure lrc'' @ (if bm_yasm bm then '' isa'' else []))),
   (''osd_allow_recovery_below_min_size'', OPT_BOOL, DBool True),
   (''osd_pool_default_flags'', OPT_INT, DInt 0),
   (''osd_pool_default_flag_hashpspool'', OPT_BOOL, DBool True),
   (''osd_pool_default_flag_nodelete'', OPT_BOOL, DBool False),
   (''osd_pool_default_flag_nopgchange'', OPT_BOOL, DBool False),
   (''osd_pool_default_flag_nosizechange'', OPT_BOOL, DBool False),
   (''osd_pool_default_hit_set_bloom_fpp'', OPT_FLOAT, DReal 0.05),
   (''osd_pool_default_cache_target_dirty_ratio'', OPT_FLOAT, DReal 0.4),
   (''osd_pool_default_cache_target_full_ratio'', OPT_FLOAT, DReal 0.8),
   (''osd_pool_default_cache_min_flush_age'', OPT_INT, DInt 0),
   (''osd_pool_default_cache_min_evict_age'', OPT_INT, DInt 0),
   (''osd_hit_set_min_size'', OPT_INT, DInt 1000),
   (''osd_hit_set_max_size'', OPT_INT, DInt 100000),
   (''osd_hit_set_namespace'', OPT_STR, DStr ''.ceph-internal''),
   (''osd_tier_default_cache_mode'', OPT_STR, DStr ''writeback''),
   (''osd_tier_default_cache_hit_set_count'', OPT_INT, DInt 4),
   (''osd_tier_default_cache_hit_set_period'', OPT_INT, DInt 1200),
   (''osd_tier_default_cache_hit_set_type'', OPT_STR, DStr ''bloom''),
   (''osd_tier_default_cache_min_read_recency_for_promote'', OPT_INT, DInt 1),
   (''osd_map_dedup'', OPT_BOOL, DBool True),
   (''osd_map_max_advance'', OPT_INT, DInt 200),
   (''osd_map_cache_size'', OPT_INT, DInt 500),
   (''osd_map_message_max'', OPT_INT, DInt 100),
   (''osd_map_share_max_epochs'', OPT_INT, DInt 100),
   (''osd_inject_bad_map_crc_probability'', OPT_FLOAT, DInt 0),
   (''osd_inject_failure_on_pg_removal'', OPT_BOOL, DBool False),
   (''osd_op_threads'', OPT_INT, DInt 2),
   (''osd_peering_wq_batch_size'', OPT_U64, DInt 20),
   (''osd_op_pq_max_tokens_per_priority'', OPT_U64, DInt 4194304),
   (''osd_op_pq_min_cost'', OPT_U64, DInt 65536),
   (''osd_disk_threads'', OPT_INT, DInt 1),
   (''osd_disk_thread_ioprio_class'', OPT_STR, DStr ''''),
   (''osd_disk_thread_ioprio_priority'', OPT_INT, DInt (- 1)),
   (''osd_recovery_threads'', OPT_INT, DInt 1),
   (''osd_recover_clone_overlap'', OPT_BOOL, DBool True),
   (''osd_op_num_threads_per_shard'', OPT_INT, DInt 2),
   (''osd_op_num_shards'', OPT_INT, DInt 5),
   (''osd_read_eio_on_bad_digest'', OPT_BOOL, DBool True),
   (''osd_recover_clone_overlap_limit'', OPT_INT, DInt 10),
   (''osd_backfill_scan_min'', OPT_INT, DInt 64)]"

text \<open>Options of the object store daemon: recovery, scrubbing, debugging.\<close>

definition osd_options :: "build_macros \<Rightarrow> opt_row list" where
  "osd_options bm = [
   (''osd_backfill_scan_max'', OPT_INT, DInt 512),
   (''osd_op_thread_timeout'', OPT_INT, DInt 15),
   (''osd_recovery_thread_timeout'', OPT_INT, DInt 30),
   (''osd_snap_trim_thread_timeout'', OPT_INT, DInt (60 * 60 * 1)),
   (''osd_snap_trim_sleep'', OPT_FLOAT, DInt 0),
   (''osd_scrub_thread_timeout'', OPT_INT, DInt 60),
   (''osd_scrub_finalize_thread_timeout'', OPT_INT, DInt (60 * 10)),
   (''osd_scrub_invalid_stats'', OPT_BOOL, DBool True),
   (''osd_remove_thread_timeout'', OPT_INT, DInt (60 * 60)),
   (''osd_command_thread_timeout'', OPT_INT, DInt (10 * 60)),
   (''osd_age'', OPT_FLOAT, DReal 0.8),
   (''osd_age_time'', OPT_INT, DInt 0),
   (''osd_heartbeat_addr'', OPT_ADDR, DAddr),
   (''osd_heartbeat_interval'', OPT_INT, DInt 6),
   (''osd_heartbeat_grace'', OPT_INT, DInt 20),
   (''osd_heartbeat_min_peers'', OPT_INT, DInt 10),
   (''osd_heartbeat_use_min_delay_socket'', OPT_BOOL, DBool False),
   (''osd_pg_max_concurrent_snap_trims'', OPT_U64, DInt 2),
   (''osd_heartbeat_min_healthy_ratio'', OPT_FLOAT, DReal 0.33),
   (''osd_mon_heartbeat_interval'', OPT_INT, DInt 30),
   (''osd_mon_report_interval_max'', OPT_INT, DInt 120),
   (''osd_mon_report_interval_min'', OPT_INT, DInt 5),
   (''osd_pg_stat_report_interval_max'', OPT_INT, DInt 500),
   (''osd_mon_ack_timeout'', OPT_INT, DInt 30),
   (''osd_default_data_pool_replay_window'', OPT_INT, DInt 45),
   (''osd_preserve_trimmed_log'', OPT_BOOL, DBool False),
   (''osd_auto_mark_unfound_lost'', OPT_BOOL, DBool False),
   (''osd_recovery_delay_start'', OPT_FLOAT, DInt 0),
   (''osd_recovery_max_active'', OPT_INT, DInt 15),
   (''osd_recovery_max_single_start'', OPT_INT, DInt 5),
   (''osd_recovery_max_chunk'', OPT_U64, DInt (8 * 2 ^ 20)),
   (''osd_copyfrom_max_chunk'', OPT_U64, DInt (8 * 2 ^ 20)),
   (''osd_push_per_object_cost'', OPT_U64, DInt 1000),
   (''osd_max_push_cost'', OPT_U64, DInt (8 * 2 ^ 20)),
   (''osd_max_push_objects'', OPT_U64, DInt 10),
   (''osd_recovery_forget_lost_objects'', OPT_BOOL, DBool False),
   (''osd_max_scrubs'', OPT_INT, DInt 1),
   (''osd_scrub_begin_hour'', OPT_INT, DInt 0),
   (''osd_scrub_end_hour'', OPT_INT, DInt 24),
   (''osd_scrub_load_threshold'', OPT_FLOAT, DReal 0.5),
   (''osd_scrub_min_interval'', OPT_FLOAT, DInt (60 * 60 * 24)),
   (''osd_scrub_max_interval'', OPT_FLOAT, DInt (7 * 60 * 60 * 24)),
   (''osd_scrub_chunk_min'', OPT_INT, DInt 5),
   (''osd_scrub_chunk_max'', OPT_INT, DInt 25),
   (''osd_scrub_sleep'', OPT_FLOAT, DInt 0),
   (''osd_deep_scrub_interval'', OPT_FLOAT, DInt (60 * 60 * 24 * 7)),
   (''osd_deep_scrub_stride'', OPT_INT, DInt 524288),
   (''osd_deep_scrub_update_digest_min_age'', OPT_INT, DInt (2 * 60 * 60)),
   (''osd_scan_list_ping_tp_interval'', OPT_U64, DInt 100),
   (''osd_auto_weight'', OPT_BOOL, DBool False),
   (''osd_class_dir'', OPT_STR, DStr (bm_libdir bm @ ''/rados-classes'')),
   (''osd_open_classes_on_start'', OPT_BOOL, DBool True),
   (''osd_check_for_log_corruption'', OPT_BOOL, DBool False),
   (''osd_use_stale_snap'', OPT_BOOL, DBool False),
   (''osd_rollback_to_cluster_snap'', OPT_STR, DStr ''''),
   (''osd_default_notify_timeout'', OPT_U32, DInt 30),
   (''osd_kill_backfill_at'', OPT_INT, DInt 0),
   (''osd_pg_epoch_persisted_max_stale'', OPT_U32, DInt 200),
   (''osd_min_pg_log_entries'', OPT_U32, DInt 3000),
   (''osd_max_pg_log_entries'', OPT_U32, DInt 10000),
   (''osd_pg_log_trim_min'', OPT_U32, DInt 100),
   (''osd_op_complaint_time'', OPT_FLOAT, DInt 30),
   (''osd_command_max_records'', OPT_INT, DInt 256),
   (''osd_max_pg_blocked_by'', OPT_U32, DInt 16),
   (''osd_op_log_threshold'', OPT_INT, DInt 5),
   (''osd_verify_sparse_read_holes'', OPT_BOOL, DBool False),
   (''osd_debug_drop_ping_probability'', OPT_DOUBLE, DInt 0),
   (''osd_debug_drop_ping_duration'', OPT_INT, DInt 0),
   (''osd_debug_drop_pg_create_probability'', OPT_DOUBLE, DInt 0),
   (''osd_debug_drop_pg_create_duration'', OPT_INT, DInt 1),
   (''osd_debug_drop_op_probability'', OPT_DOUBLE, DInt 0),
   (''osd_debug_op_order'', OPT_BOOL, DBool False),
   (''osd_debug_verify_snaps_on_info'', OPT_BOOL, DBool False),
   (''osd_debug_verify_stray_on_activate'', OPT_BOOL, DBool False),
   (''osd_debug_skip_full_check_in_backfill_reservation'', OPT_BOOL, DBool False),
   (''osd_debug_reject_backfill_probability'', OPT_DOUBLE, DInt 0),
   (''osd_debug_inject_copyfrom_error'', OPT_BOOL, DBool False),
   (''osd_enable_op_tracker'', OPT_BOOL, DBool True),
   (''osd_num_op_tracker_shard'', OPT_U32, DInt 32),
   (''osd_op_history_size'', OPT_U32, DInt 20),
   (''osd_op_history_duration'', OPT_U32, DInt 600),
   (''osd_target_transaction_size'', OPT_INT, DInt 30),
   (''osd_failsafe_full_ratio'', OPT_FLOAT, DReal 0.97),
   (''osd_failsafe_nearfull_ratio'', OPT_FLOAT, DReal 0.90),
   (''osd_pg_object_context_cache_count'', OPT_INT, DInt 64),
   (''osd_enable_degraded_writes'', OPT_BOOL, DBool True),
   (''osd_debug_pg_log_writeout'', OPT_BOOL, DBool False),
   (''threadpool_default_timeout'', OPT_INT, DInt 60)]"

text \<open>Options of key-value stores and memory store.\<close>

definition store_options :: "opt_row list" where
  "store_options = [
   (''threadpool_empty_queue_max_wait'', OPT_INT, DInt 2),
   (''leveldb_write_buffer_size'', OPT_U64, DInt (8 * 1024 * 1024)),
   (''leveldb_cache_size'', OPT_U64, DInt (128 * 1024 * 1024)),
   (''leveldb_block_size'', OPT_U64, DInt 0),
   (''leveldb_bloom_size'', OPT_INT, DInt 0),
   (''leveldb_max_open_files'', OPT_INT, DInt 0),
   (''leveldb_compression'', OPT_BOOL, DBool True),
   (''leveldb_paranoid'', OPT_BOOL, DBool False),
   (''leveldb_log'', OPT_STR, DStr ''/dev/null''),
   (''leveldb_compact_on_mount'', OPT_BOOL, DBool False),
   (''kinetic_host'', OPT_STR, DStr ''''),
   (''kinetic_port'', OPT_INT, DInt 8123),
   (''kinetic_user_id'', OPT_INT, DInt 1),
   (''kinetic_hmac_key'', OPT_STR, DStr ''asdfasdf''),
   (''kinetic_use_ssl'', OPT_BOOL, DBool False),
   (''rocksdb_compact_on_mount'', OPT_BOOL, DBool False),
   (''rocksdb_write_buffer_size'', OPT_U64, DInt 0),
   (''rocksdb_target_file_size_base'', OPT_U64, DInt 0),
   (''rocksdb_cache_size'', OPT_U64, DInt 0),
   (''rocksdb_block_size'', OPT_U64, DInt 0),
   (''rocksdb_bloom_size'', OPT_INT, DInt 0),
   (''rocksdb_write_buffer_num'', OPT_INT, DInt 0),
   (''rocksdb_background_compactions'', OPT_INT, DInt 0),
   (''rocksdb_background_flushes'', OPT_INT, DInt 0),
   (''rocksdb_max_open_files'', OPT_INT, DInt 0),
   (''rocksdb_compression'', OPT_STR, DStr ''''),
   (''rocksdb_paranoid'', OPT_BOOL, DBool False),
   (''rocksdb_log'', OPT_STR, DStr ''/dev/null''),
   (''rocksdb_level0_file_num_compaction_trigger'', OPT_U64, DInt 0),
   (''rocksdb_level0_slowdown_writes_trigger'', OPT_U64, DInt 0),
   (''rocksdb_level0_stop_writes_trigger'', OPT_U64, DInt 0),
   (''rocksdb_disableDataSync'', OPT_BOOL, DBool True),
   (''rocksdb_disableWAL'', OPT_BOOL, DBool False),
   (''rocksdb_num_levels'', OPT_INT, DInt 0),
   (''rocksdb_wal_dir'', OPT_STR, DStr ''''),
   (''rocksdb_info_log_level'', OPT_STR, DStr ''info''),
   (''osd_client_op_priority'', OPT_U32, DInt 63),
   (''osd_recovery_op_priority'', OPT_U32, DInt 10),
   (''osd_recovery_op_warn_multiple'', OPT_U32, DInt 16),
   (''osd_mon_shutdown_timeout'', OPT_DOUBLE, DInt 5),
   (''osd_max_object_size'', OPT_U64, DInt (100 * 1024 * 1024 * 1024)),
   (''osd_max_object_name_len'', OPT_U32, DInt 2048),
   (''osd_max_attr_name_len'', OPT_U32, DInt 100),
   (''osd_max_attr_size'', OPT_U64, DInt 0),
   (''osd_objectstore'', OPT_STR, DStr ''filestore''),
   (''osd_debug_override_acting_compat'', OPT_BOOL, DBool False),
   (''osd_bench_small_size_max_iops'', OPT_U32, DInt 100),
   (''osd_bench_large_size_max_throughput'', OPT_U64, DInt (100 * 2 ^ 20)),
   (''osd_bench_max_block_size'', OPT_U64, DInt (64 * 2 ^ 20)),
   (''osd_bench_duration'', OPT_U32, DInt 30),
   (''memstore_device_bytes'', OPT_U64, DInt (1024 * 1024 * 1024)),
   (''filestore_omap_backend'', OPT_STR, DStr ''leveldb''),
   (''filestore_debug_disable_sharded_check'', OPT_BOOL, DBool False),
   (''filestore_wbthrottle_enable'', OPT_BOOL, DBool True),
   (''filestore_wbthrottle_btrfs_bytes_start_flusher'', OPT_U64, DInt 41943040),
   (''filestore_wbthrottle_btrfs_bytes_hard_limit'', OPT_U64, DInt 419430400),
   (''filestore_wbthrottle_btrfs_ios_start_flusher'', OPT_U64, DInt 500),
   (''filestore_wbthrottle_btrfs_ios_hard_limit'', OPT_U64, DInt 5000),
   (''filestore_wbthrottle_btrfs_inodes_start_flusher'', OPT_U64, DInt 500),
   (''filestore_wbthrottle_xfs_bytes_start_flusher'', OPT_U64, DInt 41943040),
   (''filestore_wbthrottle_xfs_bytes_hard_limit'', OPT_U64, DInt 419430400)]"

text \<open>Options of file store, journal, key-value object store.\<close>

definition filestore_options :: "opt_row list" where
  "filestore_options = [
   (''filestore_wbthrottle_xfs_ios_start_flusher'', OPT_U64, DInt 500),
   (''filestore_wbthrottle_xfs_ios_hard_limit'', OPT_U64, DInt 5000),
   (''filestore_wbthrottle_xfs_inodes_start_flusher'', OPT_U64, DInt 500),
   (''filestore_wbthrottle_btrfs_inodes_hard_limit'', OPT_U64, DInt 5000),
   (''filestore_wbthrottle_xfs_inodes_hard_limit'', OPT_U64, DInt 5000),
   (''filestore_index_retry_probability'', OPT_DOUBLE, DInt 0),
   (''filestore_debug_inject_read_err'', OPT_BOOL, DBool False),
   (''filestore_debug_omap_check'', OPT_BOOL, DInt 0),
   (''filestore_omap_header_cache_size'', OPT_INT, DInt 1024),
   (''filestore_max_inline_xattr_size'', OPT_U32, DInt 0),
   (''filestore_max_inline_xattr_size_xfs'', OPT_U32, DInt 65536),
   (''filestore_max_inline_xattr_size_btrfs'', OPT_U32, DInt 2048),
   (''filestore_max_inline_xattr_size_other'', OPT_U32, DInt 512),
   (''filestore_max_inline_xattrs'', OPT_U32, DInt 0),
   (''filestore_max_inline_xattrs_xfs'', OPT_U32, DInt 10),
   (''filestore_max_inline_xattrs_btrfs'', OPT_U32, DInt 10),
   (''filestore_max_inline_xattrs_other'', OPT_U32, DInt 2),
   (''filestore_sloppy_crc'', OPT_BOOL, DBool False),
   (''filestore_sloppy_crc_block_size'', OPT_INT, DInt 65536),
   (''filestore_max_alloc_hint_size'', OPT_U64, DInt (1 * 2 ^ 20)),
   (''filestore_max_sync_interval'', OPT_DOUBLE, DInt 5),
   (''filestore_min_sync_interval'', OPT_DOUBLE, DReal 0.01),
   (''filestore_btrfs_snap'', OPT_BOOL, DBool True),
   (''filestore_btrfs_clone_range'', OPT_BOOL, DBool True),
   (''filestore_zfs_snap'', OPT_BOOL, DBool False),
   (''filestore_fsync_flushes_journal_data'', OPT_BOOL, DBool False),
   (''filestore_fiemap'', OPT_BOOL, DBool False),
   (''filestore_fadvise'', OPT_BOOL, DBool True),
   (''filestore_xfs_extsize'', OPT_BOOL, DBool True),
   (''filestore_journal_parallel'', OPT_BOOL, DBool False),
   (''filestore_journal_writeahead'', OPT_BOOL, DBool False),
   (''filestore_journal_trailing'', OPT_BOOL, DBool False),
   (''filestore_queue_max_ops'', OPT_INT, DInt 50),
   (''filestore_queue_max_bytes'', OPT_INT, DInt (100 * 2 ^ 20)),
   (''filestore_queue_committing_max_ops'', OPT_INT, DInt 500),
   (''filestore_queue_committing_max_bytes'', OPT_INT, DInt (100 * 2 ^ 20)),
   (''filestore_op_threads'', OPT_INT, DInt 2),
   (''filestore_op_thread_timeout'', OPT_INT, DInt 60),
   (''filestore_op_thread_suicide_timeout'', OPT_INT, DInt 180),
   (''filestore_commit_timeout'', OPT_FLOAT, DInt 600),
   (''filestore_fiemap_threshold'', OPT_INT, DInt 4096),
   (''filestore_merge_threshold'', OPT_INT, DInt 10),
   (''filestore_split_multiple'', OPT_INT, DInt 2),
   (''filestore_update_to'', OPT_INT, DInt 1000),
   (''filestore_blackhole'', OPT_BOOL, DBool False),
   (''filestore_fd_cache_size'', OPT_INT, DInt 128),
   (''filestore_fd_cache_shards'', OPT_INT, DInt 16),
   (''filestore_dump_file'', OPT_STR, DStr ''''),
   (''filestore_kill_at'', OPT_INT, DInt 0),
   (''filestore_inject_stall'', OPT_INT, DInt 0),
   (''filestore_fail_eio'', OPT_BOOL, DBool True),
   (''filestore_debug_verify_split'', OPT_BOOL, DBool False),
   (''journal_dio'', OPT_BOOL, DBool True),
   (''journal_aio'', OPT_BOOL, DBool True),
   (''journal_force_aio'', OPT_BOOL, DBool False),
   (''keyvaluestore_queue_max_ops'', OPT_INT, DInt 50),
   (''keyvaluestore_queue_max_bytes'', OPT_INT, DInt (100 * 2 ^ 20)),
   (''keyvaluestore_debug_check_backend'', OPT_BOOL, DInt 0),
   (''keyvaluestore_op_threads'', OPT_INT, DInt 2),
   (''keyvaluestore_op_thread_timeout'', OPT_INT, DInt 60),
   (''keyvaluestore_op_thread_suicide_timeout'', OPT_INT, DInt 180),
   (''keyvaluestore_default_strip_size'', OPT_INT, DInt 4096),
   (''keyvaluestore_max_expected_write_size'', OPT_U64, DInt (1 * 2 ^ 24)),
   (''keyvaluestore_header_cache_size'', OPT_INT, DInt 4096),
   (''keyvaluestore_backend'', OPT_STR, DStr ''leveldb''),
   (''journal_max_corrupt_search'', OPT_U64, DInt (10 * 2 ^ 20)),
   (''journal_block_align'', OPT_BOOL, DBool True),
   (''journal_write_header_frequency'', OPT_U64, DInt 0),
   (''journal_max_write_bytes'', OPT_INT, DInt (10 * 2 ^ 20)),
   (''journal_max_write_entries'', OPT_INT, DInt 100),
   (''journal_queue_max_ops'', OPT_INT, DInt 300),
   (''journal_queue_max_bytes'', OPT_INT, DInt (32 * 2 ^ 20)),
   (''journal_align_min_size'', OPT_INT, DInt (64 * 2 ^ 10)),
   (''journal_replay_from'', OPT_INT, DInt 0),
   (''journal_zero_on_create'', OPT_BOOL, DBool False),
   (''journal_ignore_corruption'', OPT_BOOL, DBool False),
   (''journal_discard'', OPT_BOOL, DBool False)]"

text \<open>Options of block devices.\<close>

definition rbd_options :: "opt_row list" where
  "rbd_options = [
   (''rados_mon_op_timeout'', OPT_DOUBLE, DInt 0),
   (''rados_osd_op_timeout'', OPT_DOUBLE, DInt 0),
   (''rbd_cache'', OPT_BOOL, DBool True),
   (''rbd_cache_writethrough_until_flush'', OPT_BOOL, DBool True),
   (''rbd_cache_size'', OPT_LONGLONG, DInt (32 * 2 ^ 20)),
   (''rbd_cache_max_dirty'', OPT_LONGLONG, DInt (24 * 2 ^ 20)),
   (''rbd_cache_target_dirty'', OPT_LONGLONG, DInt (16 * 2 ^ 20)),
   (''rbd_cache_max_dirty_age'', OPT_FLOAT, DReal 1),
   (''rbd_cache_max_dirty_object'', OPT_INT, DInt 0),
   (''rbd_cache_block_writes_upfront'', OPT_BOOL, DBool False),
   (''rbd_concurrent_management_ops'', OPT_INT, DInt 10),
   (''rbd_balance_snap_reads'', OPT_BOOL, DBool False),
   (''rbd_localize_snap_reads'', OPT_BOOL, DBool False),
   (''rbd_balance_parent_reads'', OPT_BOOL, DBool False),
   (''rbd_localize_parent_reads'', OPT_BOOL, DBool True),
   (''rbd_readahead_trigger_requests'', OPT_INT, DInt 10),
   (''rbd_readahead_max_bytes'', OPT_LONGLONG, DInt (512 * 1024)),
   (''rbd_readahead_disable_after_bytes'', OPT_LONGLONG, DInt (50 * 1024 * 1024)),
   (''rbd_clone_copy_on_read'', OPT_BOOL, DBool False),
   (''rbd_blacklist_on_break_lock'', OPT_BOOL, DBool True),
   (''rbd_blacklist_expire_seconds'', OPT_INT, DInt 0),
   (''rbd_request_timed_out_seconds'', OPT_INT, DInt 30),
   (''rbd_default_format'', OPT_INT, DInt 1),
   (''rbd_default_order'', OPT_INT, DInt 22),
   (''rbd_default_stripe_count'', OPT_U64, DInt 0),
   (''rbd_default_stripe_unit'', OPT_U64, DInt 0),
   (''rbd_default_features'', OPT_INT, DInt 3),
   (''nss_db_path'', OPT_STR, DStr '''')]"

text \<open>Options of the gateway, and the flags of the daemon itself.\<close>

definition rgw_options :: "opt_row list" where
  "rgw_options = [
   (''rgw_max_chunk_size'', OPT_INT, DInt (512 * 1024)),
   (''rgw_override_bucket_index_max_shards'', OPT_U32, DInt 0),
   (''rgw_bucket_index_max_aio'', OPT_U32, DInt 8),
   (''rgw_data'', OPT_STR, DStr ''/var/lib/ceph/radosgw/$cluster-$id''),
   (''rgw_enable_apis'', OPT_STR, DStr ''s3, swift, swift_auth, admin''),
   (''rgw_cache_enabled'', OPT_BOOL, DBool True),
   (''rgw_cache_lru_size'', OPT_INT, DInt 10000),
   (''rgw_socket_path'', OPT_STR, DStr ''''),
   (''rgw_host'', OPT_STR, DStr ''''),
   (''rgw_port'', OPT_STR, DStr ''''),
   (''rgw_dns_name'', OPT_STR, DStr ''''),
   (''rgw_script_uri'', OPT_STR, DStr ''''),
   (''rgw_request_uri'', OPT_STR, DStr ''''),
   (''rgw_swift_url'', OPT_STR, DStr ''''),
   (''rgw_swift_url_prefix'', OPT_STR, DStr ''swift''),
   (''rgw_swift_auth_url'', OPT_STR, DStr ''''),
   (''rgw_swift_auth_entry'', OPT_STR, DStr ''auth''),
   (''rgw_swift_tenant_name'', OPT_STR, DStr ''''),
   (''rgw_keystone_url'', OPT_STR, DStr ''''),
   (''rgw_keystone_admin_token'', OPT_STR, DStr ''''),
   (''rgw_keystone_admin_user'', OPT_STR, DStr ''''),
   (''rgw_keystone_admin_password'', OPT_STR, DStr ''''),
   (''rgw_keystone_admin_tenant'', OPT_STR, DStr ''''),
   (''rgw_keystone_accepted_roles'', OPT_STR, DStr ''Member, admin''),
   (''rgw_keystone_token_cache_size'', OPT_INT, DInt 10000),
   (''rgw_keystone_revocation_interval'', OPT_INT, DInt (15 * 60)),
   (''rgw_s3_auth_use_rados'', OPT_BOOL, DBool True),
   (''rgw_s3_auth_use_keystone'', OPT_BOOL, DBool False),
   (''rgw_admin_entry'', OPT_STR, DStr ''admin''),
   (''rgw_enforce_swift_acls'', OPT_BOOL, DBool True),
   (''rgw_swift_token_expiration'', OPT_INT, DInt (24 * 3600)),
   (''rgw_print_continue'', OPT_BOOL, DBool True),
   (''rgw_remote_addr_param'', OPT_STR, DStr ''REMOTE_ADDR''),
   (''rgw_op_thread_timeout'', OPT_INT, DInt (10 * 60)),
   (''rgw_op_thread_suicide_timeout'', OPT_INT, DInt 0),
   (''rgw_thread_pool_size'', OPT_INT, DInt 100),
   (''rgw_num_control_oids'', OPT_INT, DInt 8),
   (''rgw_zone'', OPT_STR, DStr ''''),
   (''rgw_zone_root_pool'', OPT_STR, DStr ''.rgw.root''),
   (''rgw_region'', OPT_STR, DStr ''''),
   (''rgw_region_root_pool'', OPT_STR, DStr ''.rgw.root''),
   (''rgw_default_region_info_oid'', OPT_STR, DStr ''default.region''),
   (''rgw_log_nonexistent_bucket'', OPT_BOOL, DBool False),
   (''rgw_log_object_name'', OPT_STR, DStr ''%Y-%m-%d-%H-%i-%n''),
   (''rgw_log_object_name_utc'', OPT_BOOL, DBool False),
   (''rgw_usage_max_shards'', OPT_INT, DInt 32),
   (''rgw_usage_max_user_shards'', OPT_INT, DInt 1),
   (''rgw_enable_ops_log'', OPT_BOOL, DBool False),
   (''rgw_enable_usage_log'', OPT_BOOL, DBool False),
   (''rgw_ops_log_rados'', OPT_BOOL, DBool True),
   (''rgw_ops_log_socket_path'', OPT_STR, DStr ''''),
   (''rgw_ops_log_data_backlog'', OPT_INT, DInt (5 * 2 ^ 20)),
   (''rgw_usage_log_flush_threshold'', OPT_INT, DInt 1024),
   (''rgw_usage_log_tick_interval'', OPT_INT, DInt 30),
   (''rgw_intent_log_object_name'', OPT_STR, DStr ''%Y-%m-%d-%i-%n''),
   (''rgw_intent_log_object_name_utc'', OPT_BOOL, DBool False),
   (''rgw_init_timeout'', OPT_INT, DInt 300),
   (''rgw_mime_types_file'', OPT_STR, DStr ''/etc/mime.types''),
   (''rgw_gc_max_objs'', OPT_INT, DInt 32),
   (''rgw_gc_obj_min_wait'', OPT_INT, DInt (2 * 3600)),
   (''rgw_gc_processor_max_time'', OPT_INT, DInt 3600),
   (''rgw_gc_processor_period'', OPT_INT, DInt 3600),
   (''rgw_s3_success_create_obj_status'', OPT_INT, DInt 0),
   (''rgw_resolve_cname'', OPT_BOOL, DBool False),
   (''rgw_obj_stripe_size'', OPT_INT, DInt (4 * 2 ^ 20)),
   (''rgw_extended_http_attrs'', OPT_STR, DStr ''''),
   (''rgw_exit_timeout_secs'', OPT_INT, DInt 120),
   (''rgw_get_obj_window_size'', OPT_INT, DInt (16 * 2 ^ 20)),
   (''rgw_get_obj_max_req_size'', OPT_INT, DInt (4 * 2 ^ 20)),
   (''rgw_relaxed_s3_bucket_names'', OPT_BOOL, DBool False),
   (''rgw_defer_to_bucket_acls'', OPT_STR, DStr ''''),
   (''rgw_list_buckets_max_chunk'', OPT_INT, DInt 1000),
   (''rgw_md_log_max_shards'', OPT_INT, DInt 64),
   (''rgw_num_zone_opstate_shards'', OPT_INT, DInt 128),
   (''rgw_opstate_ratelimit_sec'', OPT_INT, DInt 30),
   (''rgw_curl_wait_timeout_ms'', OPT_INT, DInt 1000),
   (''rgw_copy_obj_progress'', OPT_BOOL, DBool True),
   (''rgw_copy_obj_progress_every_bytes'', OPT_INT, DInt (1024 * 1024)),
   (''rgw_data_log_window'', OPT_INT, DInt 30),
   (''rgw_data_log_changes_size'', OPT_INT, DInt 1000),
   (''rgw_data_log_num_shards'', OPT_INT, DInt 128),
   (''rgw_data_log_obj_prefix'', OPT_STR, DStr ''data_log''),
   (''rgw_replica_log_obj_prefix'', OPT_STR, DStr ''replica_log''),
   (''rgw_bucket_quota_ttl'', OPT_INT, DInt 600),
   (''rgw_bucket_quota_soft_threshold'', OPT_DOUBLE, DReal 0.95),
   (''rgw_bucket_quota_cache_size'', OPT_INT, DInt 10000),
   (''rgw_expose_bucket'', OPT_BOOL, DBool False),
   (''rgw_frontends'', OPT_STR, DStr ''fastcgi, civetweb port=7480''),
   (''rgw_user_quota_bucket_sync_interval'', OPT_INT, DInt 180),
   (''rgw_user_quota_sync_interval'', OPT_INT, DInt (3600 * 24)),
   (''rgw_user_quota_sync_idle_users'', OPT_BOOL, DBool False),
   (''rgw_user_quota_sync_wait_time'', OPT_INT, DInt (3600 * 24)),
   (''rgw_multipart_min_part_size'', OPT_INT, DInt (5 * 1024 * 1024)),
   (''rgw_olh_pending_timeout_sec'', OPT_INT, DInt 3600),
   (''mutex_perf_counter'', OPT_BOOL, DBool False),
   (''throttler_perf_counter'', OPT_BOOL, DBool True),
   (''internal_safe_to_start_threads'', OPT_BOOL, DBool False)]"

text \<open>The rows in the order of the header, the table of names and types, and the fields a fresh object has.\<close>

definition config_rows :: "build_macros \<Rightarrow> opt_row list" where
  "config_rows bm = common_options @ auth_ms_options @ mon_options @ client_options @ mds_options bm @
     osd_pool_options bm @ osd_options bm @ store_options @ filestore_options @ rbd_options @ rgw_options"

definition rows_table :: "opt_row list \<Rightarrow> (string \<times> opt_type) list" where
  "rows_table rows = map (\<lambda>(n, t, d). (n, t)) rows"

definition config_optionsp :: "build_macros \<Rightarrow> (string \<times> opt_type) list" where
  "config_optionsp bm = rows_table (config_rows bm)"

section \<open>The version\<close>

text \<open>\<open>nice\<close> and \<open>git\<close> are the macros of the build.\<close>

definition ceph_version_to_str :: "string \<Rightarrow> string" where
  "ceph_version_to_str nice = nice"

definition git_version_to_str :: "string \<Rightarrow> string" where
  "git_version_to_str git = git"

definition pretty_version_to_str :: "string \<Rightarrow> string \<Rightarrow> string" where
  "pretty_version_to_str nice git =
     ''ceph version '' @ nice @ '' ('' @ git @
     ''). MSEVILLA - client: req logging, caps on dirs/files bug fix. MDS: lua migrations decisions; with howmuch. Client: debug send request.''"

end
