(* ===== verification/Config_Expand.thy ===== *)
theory Config_Expand
  imports Config_Options Ordered_Containers
begin

text \<open>
  The configuration object (\<^verbatim>\<open>md_config_t\<close> in \<^verbatim>\<open>src/src/common/config.cc\<close>): its state, reading a value as
  text, and the expansion of \<^verbatim>\<open>$variable\<close> references, which rewrites the values it meets on its way.

  What the sources only call is in \<open>conf_api\<close>: the number parsers of \<^verbatim>\<open>strtol.h\<close> (\<open>None\<close> is a non-empty
  error string), parsing and printing of addresses and identifiers, the normalisation of key names, the
  map of logging subsystems and the text of the daemon's name, process and context. The operations run
  under the lock of the object, so each is one step.
\<close>

section \<open>State\<close>

record ('a, 'u, 's) conf_api =
  ca_opts :: "(string \<times> opt_type) list"
  ca_sistrtoll :: "string \<Rightarrow> u64 option"
  ca_strtol :: "string \<Rightarrow> u32 option"
  ca_addr_parse :: "'a \<Rightarrow> string \<Rightarrow> bool \<times> 'a"
  ca_addr_str :: "'a \<Rightarrow> string"
  ca_uuid_parse :: "'u \<Rightarrow> string \<Rightarrow> bool \<times> 'u"
  ca_uuid_str :: "'u \<Rightarrow> string"
  ca_normalize :: "string \<Rightarrow> string"
  ca_sub_num :: "'s \<Rightarrow> nat"
  ca_sub_name :: "'s \<Rightarrow> nat \<Rightarrow> string"
  ca_log_level :: "'s \<Rightarrow> nat \<Rightarrow> int"
  ca_gather_level :: "'s \<Rightarrow> nat \<Rightarrow> int"
  ca_set_log :: "nat \<Rightarrow> int \<Rightarrow> 's \<Rightarrow> 's"
  ca_set_gather :: "nat \<Rightarrow> int \<Rightarrow> 's \<Rightarrow> 's"
  ca_name_str :: string
  ca_type_name :: string
  ca_id :: string
  ca_pid :: string
  ca_cctid :: string

type_synonym observer = nat

text \<open>The fields are keyed by their names. Observers are a multimap from key to observer, the pending
  keys a set.\<close>

record ('a, 'u, 's) conf =
  cf_val :: "string \<Rightarrow> ('a, 'u) opt_value"
  cf_cluster :: string
  cf_subsys :: 's
  cf_observers :: "(string \<times> observer) list"
  cf_changed :: "string list"

definition ENOENT :: int where "ENOENT = 2"
definition ENOMEM :: int where "ENOMEM = 12"
definition EINVAL :: int where "EINVAL = 22"
definition ENAMETOOLONG :: int where "ENAMETOOLONG = 36"
definition ENOSYS :: int where "ENOSYS = 38"

lemmas errno_defs = ENOENT_def ENOMEM_def EINVAL_def ENAMETOOLONG_def ENOSYS_def

fun str_of :: "('a, 'u) opt_value \<Rightarrow> string" where
  "str_of (VStr s) = s"
| "str_of _ = []"

fun bool_of :: "('a, 'u) opt_value \<Rightarrow> bool" where
  "bool_of (VBool b) = b"
| "bool_of _ = False"

definition set_field :: "string \<Rightarrow> ('a, 'u) opt_value \<Rightarrow> ('a, 'u, 's) conf \<Rightarrow> ('a, 'u, 's) conf" where
  "set_field n v st = st\<lparr>cf_val := (cf_val st)(n := v)\<rparr>"

text \<open>The constructor: every option has its default, nothing is observed or pending.\<close>

definition init_subsys :: "(string \<Rightarrow> int \<Rightarrow> int \<Rightarrow> 's \<Rightarrow> 's) \<Rightarrow> 's \<Rightarrow> 's" where
  "init_subsys add s = fold (\<lambda>(n, l, g). add n l g) subsys_rows s"

definition md_config_new :: "opt_row list \<Rightarrow> 'a \<Rightarrow> 'u \<Rightarrow> (string \<Rightarrow> int \<Rightarrow> int \<Rightarrow> 's \<Rightarrow> 's) \<Rightarrow> 's \<Rightarrow> ('a, 'u, 's) conf" where
  "md_config_new rows a0 u0 add s0 =
     \<lparr>cf_val = (\<lambda>n. case map_of rows n of Some (t, d) \<Rightarrow> init_val a0 u0 t d | None \<Rightarrow> VStr []),
      cf_cluster = ''ceph'', cf_subsys = init_subsys add s0, cf_observers = [], cf_changed = []\<rparr>"

section \<open>Reading a value as text\<close>

fun val_str :: "('a, 'u, 's) conf_api \<Rightarrow> ('a, 'u) opt_value \<Rightarrow> string" where
  "val_str api (VInt w) = int_str (sint w)"
| "val_str api (VLonglong w) = int_str (sint w)"
| "val_str api (VStr s) = s"
| "val_str api (VFloat x) = double_str x"
| "val_str api (VDouble x) = double_str x"
| "val_str api (VBool b) = (if b then ''true'' else ''false'')"
| "val_str api (VU32 w) = decimal (unat w)"
| "val_str api (VU64 w) = decimal (unat w)"
| "val_str api (VAddr x) = ca_addr_str api x"
| "val_str api (VUuid x) = ca_uuid_str api x"

text \<open>The loops over the table and over the subsystems, up to the first with the name.\<close>

fun find_sub :: "(nat \<Rightarrow> string) \<Rightarrow> string \<Rightarrow> nat list \<Rightarrow> nat option" where
  "find_sub nm k [] = None"
| "find_sub nm k (i # is) = (if k = ''debug_'' @ nm i then Some i else find_sub nm k is)"

definition sub_option :: "('a, 'u, 's) conf_api \<Rightarrow> 's \<Rightarrow> string \<Rightarrow> nat option" where
  "sub_option api s k = find_sub (ca_sub_name api s) k [0..<ca_sub_num api s]"

definition levels_str :: "('a, 'u, 's) conf_api \<Rightarrow> 's \<Rightarrow> nat \<Rightarrow> string" where
  "levels_str api s i = int_str (ca_log_level api s i) @ ''/'' @ int_str (ca_gather_level api s i)"

text \<open>\<^verbatim>\<open>_get_val\<close> with the result code and the buffer read as a C string. Length \<open>None\<close> is \<^verbatim>\<open>-1\<close>: the buffer
  is allocated, with 20 bytes for a subsystem (an allocation does not fail). \<^verbatim>\<open>old\<close> is what the buffer of
  the caller held.\<close>

definition get_val :: "('a, 'u, 's) conf_api \<Rightarrow> ('a, 'u, 's) conf \<Rightarrow> string option \<Rightarrow> nat option \<Rightarrow> string \<Rightarrow> int \<times> string" where
  "get_val api st key len old =
     (case key of None \<Rightarrow> (- EINVAL, old)
      | Some key \<Rightarrow>
          let k = ca_normalize api key in
          case map_of (ca_opts api) (c_str k) of
            Some t \<Rightarrow>
              let str = c_str (val_str api (cf_val st (c_str k)));
                  l = length str + 1
              in (case len of None \<Rightarrow> (0, str)
                  | Some len \<Rightarrow> (if l > len then - ENAMETOOLONG else 0, fst (snprintf old len str)))
          | None \<Rightarrow>
              (case sub_option api (cf_subsys st) k of
                 Some i \<Rightarrow>
                   let len = (case len of None \<Rightarrow> 20 | Some n \<Rightarrow> n);
                       (b, l) = snprintf old len (levels_str api (cf_subsys st) i)
                   in (if l = len then - ENAMETOOLONG else 0, b)
               | None \<Rightarrow> (- ENOENT, old)))"

section \<open>Expansion of variables\<close>

text \<open>The name behind a dollar sign, and the text behind the reference. An empty name is no reference.\<close>

definition valid_char :: "char \<Rightarrow> bool" where
  "valid_char c \<longleftrightarrow> (CHR ''a'' \<le> c \<and> c \<le> CHR ''z'') \<or> c = CHR ''_''"

definition read_var :: "string \<Rightarrow> string \<times> string" where
  "read_var cs =
     (case cs of
        c # ds \<Rightarrow>
          if c = CHR ''{'' then
            (case dropWhile valid_char ds of
               e # r \<Rightarrow> if e = CHR ''}'' then (takeWhile valid_char ds, r) else ([], cs)
             | [] \<Rightarrow> ([], cs))
          else (takeWhile valid_char cs, dropWhile valid_char cs)
      | [] \<Rightarrow> ([], []))"

definition meta_var :: "('a, 'u, 's) conf_api \<Rightarrow> ('a, 'u, 's) conf \<Rightarrow> string \<Rightarrow> string option" where
  "meta_var api st var =
     (if var = ''type'' then Some (ca_type_name api)
      else if var = ''cluster'' then Some (cf_cluster st)
      else if var = ''name'' then Some (c_str (ca_name_str api))
      else if var = ''host'' then Some (str_of (cf_val st ''host''))
      else if var = ''num'' then Some (c_str (ca_id api))
      else if var = ''id'' then Some (c_str (ca_id api))
      else if var = ''pid'' then Some (ca_pid api)
      else if var = ''cctid'' then Some (ca_cctid api)
      else None)"

text \<open>The message about a loop, with the options on the stack and their values.\<close>

definition loop_message :: "('a, 'u, 's) conf \<Rightarrow> string \<Rightarrow> string list \<Rightarrow> string \<Rightarrow> string" where
  "loop_message st n stk v =
     ''variable expansion loop at '' @ n @ ''='' @ v @ [CHR 0x0A] @ ''expansion stack: '' @ [CHR 0x0A] @
     concat (map (\<lambda>m. m @ ''='' @ str_of (cf_val st m) @ [CHR 0x0A]) stk)"

lemma dropWhile_shorter: "length (dropWhile P xs) \<le> length xs"
  by (induction xs) auto

lemma read_var_rest: "length (snd (read_var cs)) \<le> length cs"
  using dropWhile_shorter [of valid_char "tl cs"] dropWhile_shorter [of valid_char cs]
  by (auto simp: read_var_def split: list.splits if_splits)

lemma read_var_len: "(var, rest) = read_var cs \<Longrightarrow> length rest \<le> length cs"
  using read_var_rest [of cs] by (metis snd_conv)

text \<open>\<^verbatim>\<open>expand_meta\<close> with the option whose field is expanded, if any, and the stack of the options that are
  being expanded; \<open>expand_scan\<close> is its loop from the current position on. The results are the new value,
  whether a variable was found, the configuration with the fields rewritten on the way, and the
  messages. The caller's reference to a field is rewritten by \<open>expand_scan\<close> through \<open>set_field\<close>.\<close>

function (sequential) expand_meta :: "('a, 'u, 's) conf_api \<Rightarrow> string option \<Rightarrow> string list \<Rightarrow> string \<Rightarrow> ('a, 'u, 's) conf \<Rightarrow> string
    \<Rightarrow> string \<times> bool \<times> ('a, 'u, 's) conf \<times> string"
  and expand_scan :: "('a, 'u, 's) conf_api \<Rightarrow> string list \<Rightarrow> string \<Rightarrow> ('a, 'u, 's) conf \<Rightarrow> string
    \<Rightarrow> string \<times> bool \<times> ('a, 'u, 's) conf \<times> string"
where
  "expand_meta api None stk origval st oss =
     (if CHR ''$'' \<notin> set origval then (origval, False, st, oss)
      else expand_scan api stk origval st oss)"
| "expand_meta api (Some n) stk origval st oss =
     (if CHR ''$'' \<notin> set origval then (origval, False, st, oss)
      else if n \<in> set stk then (origval, False, st, oss @ loop_message st n stk origval)
      else expand_scan api (n # stk) origval st oss)"
| "expand_scan api stk [] st oss = ([], False, st, oss)"
| "expand_scan api stk (c # cs) st oss =
     (if c \<noteq> CHR ''$'' then
        (case expand_scan api stk cs st oss of (out, found, st', oss') \<Rightarrow> (c # out, found, st', oss'))
      else
        let (var, rest) = read_var cs in
        if var \<noteq> [] \<and> meta_var api st var \<noteq> None then
          (case expand_scan api stk rest st oss of (out, found, st', oss') \<Rightarrow> (the (meta_var api st var) @ out, True, st', oss'))
        else if var \<noteq> [] \<and> map_of (ca_opts api) var = Some OPT_STR then
          (case expand_meta api (Some var) stk (str_of (cf_val st var)) st oss of (v, _, st1, oss1) \<Rightarrow>
             (case expand_scan api stk rest (set_field var (VStr v) st1) oss1 of
                (out, found, st', oss') \<Rightarrow> (v @ out, True, st', oss')))
        else if var \<noteq> [] \<and> map_of (ca_opts api) var \<noteq> None then
          (case expand_scan api stk rest st oss of
             (out, found, st', oss') \<Rightarrow> (snd (get_val api st (Some var) None []) @ out, True, st', oss'))
        else
          (case expand_scan api stk cs st oss of (out, found, st', oss') \<Rightarrow> (CHR ''$'' # out, found, st', oss')))"
  by pat_completeness auto
termination
proof -
  let ?names = "\<lambda>api :: ('a, 'u, 's) conf_api. fst ` set (ca_opts api)"
  let ?m = "\<lambda>x. case x of
      Inl (api, Some n, stk, v, _) \<Rightarrow> (card (insert n (?names api) - set stk), 0)
    | Inl (api, None, stk, v, _) \<Rightarrow> (card (?names api - set stk), Suc (Suc (length v)))
    | Inr (api, stk, v, _) \<Rightarrow> (card (?names api - set stk), Suc (length v))"
  show ?thesis
  proof (relation "inv_image (less_than <*lex*> less_than) ?m", goal_cases)
    case 1
    then show ?case by auto
  next
    case (3 api n stk origval st oss)
    have "card (?names api - set (n # stk)) < card (insert n (?names api) - set stk)"
      using 3 by (intro psubset_card_mono) auto
    then show ?case by simp
  next
    case (5 api stk c cs st oss x var rest)
    then have "length rest \<le> length cs" using read_var_len by simp
    then show ?case using 5 by simp
  next
    case (6 api stk c cs st oss x var rest)
    then have "insert var (?names api) = ?names api" by (auto dest: map_of_SomeD intro: rev_image_eqI)
    then show ?case by simp
  next
    case (7 api stk c cs st oss x var rest)
    then have "length rest \<le> length cs" using read_var_len by simp
    then show ?case by simp
  next
    case (8 api stk c cs st oss x var rest)
    then have "length rest \<le> length cs" using read_var_len by simp
    then show ?case by simp
  qed auto
qed

text \<open>The overload without an option, and the expansion of all string options in the order of the table.\<close>

definition expand_value :: "('a, 'u, 's) conf_api \<Rightarrow> string \<Rightarrow> ('a, 'u, 's) conf \<Rightarrow> string \<Rightarrow> string \<times> bool \<times> ('a, 'u, 's) conf \<times> string" where
  "expand_value api v st oss = expand_meta api None [] v st oss"

definition expand_field :: "('a, 'u, 's) conf_api \<Rightarrow> string \<times> opt_type \<Rightarrow> ('a, 'u, 's) conf \<times> string \<Rightarrow> ('a, 'u, 's) conf \<times> string" where
  "expand_field api opt s =
     (if snd opt = OPT_STR then
        (case expand_meta api (Some (fst opt)) [] (str_of (cf_val (fst s) (fst opt))) (fst s) (snd s) of
           (v, _, st', oss') \<Rightarrow> (set_field (fst opt) (VStr v) st', oss'))
      else s)"

definition expand_all_meta :: "('a, 'u, 's) conf_api \<Rightarrow> ('a, 'u, 's) conf \<Rightarrow> ('a, 'u, 's) conf \<times> string" where
  "expand_all_meta api st = fold (expand_field api) (ca_opts api) (st, [])"

section \<open>What expansion computes\<close>

text \<open>The reference: substitution of an environment, in one pass from left to right. A reference to a
  name without a value stays, its dollar sign included.\<close>

function subst :: "(string \<Rightarrow> string option) \<Rightarrow> string \<Rightarrow> string" where
  "subst env [] = []"
| "subst env (c # cs) =
     (if c \<noteq> CHR ''$'' then c # subst env cs
      else
        let (var, rest) = read_var cs in
        (case (if var = [] then None else env var) of
           Some v \<Rightarrow> v @ subst env rest
         | None \<Rightarrow> c # subst env cs))"
  by pat_completeness auto
termination
  by (relation "measure (length \<circ> snd)") (auto simp: less_Suc_eq_le read_var_len)

text \<open>The names with a value that are met in this pass.\<close>

function uses :: "(string \<Rightarrow> bool) \<Rightarrow> string \<Rightarrow> string list" where
  "uses known [] = []"
| "uses known (c # cs) =
     (if c \<noteq> CHR ''$'' then uses known cs
      else
        let (var, rest) = read_var cs in
        if var \<noteq> [] \<and> known var then var # uses known rest else uses known cs)"
  by pat_completeness auto
termination
  by (relation "measure (length \<circ> snd)") (auto simp: less_Suc_eq_le read_var_len)

lemma subst_plain: "CHR ''$'' \<notin> set s \<Longrightarrow> subst env s = s"
  by (induction s) auto

lemma uses_plain: "CHR ''$'' \<notin> set s \<Longrightarrow> uses known s = []"
  by (induction s) auto

lemma subst_inert:
  assumes "uses (\<lambda>v. env v \<noteq> None) s = []"
  shows "subst env s = s"
  using assms by (induction env s rule: subst.induct) (auto simp: Let_def split: if_splits prod.splits option.splits)

text \<open>A name is known when it is a metavariable or an option.\<close>

definition known_var :: "('a, 'u, 's) conf_api \<Rightarrow> ('a, 'u, 's) conf \<Rightarrow> string \<Rightarrow> bool" where
  "known_var api st var \<longleftrightarrow> meta_var api st var \<noteq> None \<or> map_of (ca_opts api) var \<noteq> None"

definition is_str_opt :: "('a, 'u, 's) conf_api \<Rightarrow> string \<Rightarrow> bool" where
  "is_str_opt api n \<longleftrightarrow> map_of (ca_opts api) n = Some OPT_STR"

text \<open>The environment the references denote: a metavariable its text, a string option the expansion of
  its value, another option its printed value.\<close>

definition denotes :: "('a, 'u, 's) conf_api \<Rightarrow> ('a, 'u, 's) conf \<Rightarrow> (string \<Rightarrow> string option) \<Rightarrow> bool" where
  "denotes api st env \<longleftrightarrow>
     (\<forall>var. env var =
        (case meta_var api st var of Some v \<Rightarrow> Some v
         | None \<Rightarrow>
             (case map_of (ca_opts api) var of
                None \<Rightarrow> None
              | Some t \<Rightarrow> Some (if t = OPT_STR then subst env (str_of (cf_val st var))
                                else c_str (val_str api (cf_val st var))))))"

text \<open>References between string options do not go in circles.\<close>

definition acyclic_refs :: "('a, 'u, 's) conf_api \<Rightarrow> ('a, 'u, 's) conf \<Rightarrow> (string \<Rightarrow> nat) \<Rightarrow> bool" where
  "acyclic_refs api st rank \<longleftrightarrow>
     (\<forall>n. is_str_opt api n \<longrightarrow>
        (\<forall>m \<in> set (uses (known_var api st) (str_of (cf_val st n))).
           meta_var api st m = None \<longrightarrow> is_str_opt api m \<longrightarrow> rank m < rank n))"

definition resolved :: "('a, 'u, 's) conf \<Rightarrow> (string \<Rightarrow> string option) \<Rightarrow> string \<Rightarrow> string" where
  "resolved st env n = subst env (str_of (cf_val st n))"

text \<open>The states on the way: a string option holds its first value or its expansion, the rest is as it was.\<close>

definition on_the_way :: "('a, 'u, 's) conf_api \<Rightarrow> ('a, 'u, 's) conf \<Rightarrow> (string \<Rightarrow> string option) \<Rightarrow> ('a, 'u, 's) conf \<Rightarrow> bool" where
  "on_the_way api st0 env st \<longleftrightarrow>
     st = st0\<lparr>cf_val := cf_val st\<rparr> \<and>
     (\<forall>n. \<not> is_str_opt api n \<longrightarrow> cf_val st n = cf_val st0 n) \<and>
     (\<forall>n. is_str_opt api n \<longrightarrow> cf_val st n = cf_val st0 n \<or> cf_val st n = VStr (resolved st0 env n))"

definition settled :: "('a, 'u, 's) conf_api \<Rightarrow> ('a, 'u, 's) conf \<Rightarrow> (string \<Rightarrow> string option) \<Rightarrow> ('a, 'u, 's) conf \<Rightarrow> string set" where
  "settled api st0 env st = {n. is_str_opt api n \<and> cf_val st n = VStr (resolved st0 env n)}"

text \<open>What the theorems suppose of a configuration: the options are the members of one class, so their
  names differ, the normalisation of a key keeps the names of the options, the references do not go in
  circles, what they stand for holds no further reference, and the name of the host holds none at all.\<close>

definition expandable :: "('a, 'u, 's) conf_api \<Rightarrow> ('a, 'u, 's) conf \<Rightarrow> (string \<Rightarrow> string option) \<Rightarrow> (string \<Rightarrow> nat) \<Rightarrow> bool" where
  "expandable api st env rank \<longleftrightarrow>
     distinct (map fst (ca_opts api)) \<and>
     (\<forall>n \<in> fst ` set (ca_opts api). ca_normalize api n = n) \<and>
     denotes api st env \<and> acyclic_refs api st rank \<and>
     (\<forall>n. is_str_opt api n \<longrightarrow> uses (known_var api st) (resolved st env n) = []) \<and>
     CHR ''$'' \<notin> set (str_of (cf_val st ''host''))"

lemma read_var_name:
  assumes "read_var cs = (var, rest)"
  shows "\<forall>c\<in>set var. valid_char c"
  using assms by (auto simp: read_var_def split: list.splits if_splits dest: set_takeWhileD)

lemma c_str_name: "\<forall>c\<in>set n. valid_char c \<Longrightarrow> c_str n = n"
  by (auto simp: c_str_def takeWhile_eq_all_conv valid_char_def less_eq_char_def)

lemma get_val_option:
  assumes "map_of (ca_opts api) n = Some t" "ca_normalize api n = n" "c_str n = n"
  shows "get_val api st (Some n) None old = (0, c_str (val_str api (cf_val st n)))"
  using assms by (simp add: get_val_def)

lemma known_env: "denotes api st env \<Longrightarrow> (env v \<noteq> None) = known_var api st v"
proof -
  assume "denotes api st env"
  then have "env v = (case meta_var api st v of Some v \<Rightarrow> Some v
      | None \<Rightarrow> (case map_of (ca_opts api) v of None \<Rightarrow> None
         | Some t \<Rightarrow> Some (if t = OPT_STR then subst env (str_of (cf_val st v)) else c_str (val_str api (cf_val st v)))))"
    by (simp only: denotes_def)
  then show ?thesis by (simp add: known_var_def split: option.splits)
qed

lemma env_eq:
  assumes "denotes api st env"
  shows "env var = (case meta_var api st var of Some v \<Rightarrow> Some v
      | None \<Rightarrow> (case map_of (ca_opts api) var of None \<Rightarrow> None
         | Some t \<Rightarrow> Some (if t = OPT_STR then resolved st env var else c_str (val_str api (cf_val st var)))))"
  using assms unfolding denotes_def resolved_def by simp

lemma expandableD:
  assumes "expandable api st env rank"
  shows "distinct (map fst (ca_opts api))" "n \<in> fst ` set (ca_opts api) \<Longrightarrow> ca_normalize api n = n" "denotes api st env"
    "acyclic_refs api st rank" "is_str_opt api n \<Longrightarrow> uses (known_var api st) (resolved st env n) = []"
    "CHR ''$'' \<notin> set (str_of (cf_val st ''host''))"
  using assms unfolding expandable_def by blast+

lemma resolved_inert:
  assumes "expandable api st env rank" "is_str_opt api n"
  shows "subst env (resolved st env n) = resolved st env n"
proof (rule subst_inert)
  show "uses (\<lambda>v. env v \<noteq> None) (resolved st env n) = []"
    using expandableD(5) [OF assms] known_env [OF expandableD(3) [OF assms(1)]] by simp
qed

lemma on_the_way_refl [simp]: "on_the_way api st env st"
  by (simp add: on_the_way_def)

lemma way_host:
  assumes "expandable api st0 env rank" "on_the_way api st0 env st"
  shows "str_of (cf_val st ''host'') = str_of (cf_val st0 ''host'')"
proof -
  have "resolved st0 env ''host'' = str_of (cf_val st0 ''host'')"
    using expandableD(6) [OF assms(1)] by (simp add: resolved_def subst_plain)
  then show ?thesis using assms(2) unfolding on_the_way_def by (metis str_of.simps(1))
qed

lemma way_meta:
  assumes "expandable api st0 env rank" "on_the_way api st0 env st"
  shows "meta_var api st = meta_var api st0"
proof
  fix var
  have "cf_cluster st = cf_cluster st0" using assms(2) unfolding on_the_way_def by (metis conf.select_convs(2) conf.surjective conf.update_convs(1))
  then show "meta_var api st var = meta_var api st0 var" using way_host [OF assms] by (simp add: meta_var_def)
qed

lemma way_subst:
  assumes "expandable api st0 env rank" "on_the_way api st0 env st" "is_str_opt api n"
  shows "subst env (str_of (cf_val st n)) = resolved st0 env n"
  using assms(2,3) resolved_inert [OF assms(1,3)] unfolding on_the_way_def by (metis resolved_def str_of.simps(1))

definition below :: "('a, 'u, 's) conf_api \<Rightarrow> ('a, 'u, 's) conf \<Rightarrow> (string \<Rightarrow> nat) \<Rightarrow> string list \<Rightarrow> string list \<Rightarrow> bool" where
  "below api st rank stk us \<longleftrightarrow>
     (\<forall>u\<in>set us. meta_var api st u = None \<longrightarrow> is_str_opt api u \<longrightarrow> (\<forall>m\<in>set stk. rank u < rank m))"

lemma way_below:
  assumes "expandable api st0 env rank" "on_the_way api st0 env st" "is_str_opt api n" "\<forall>m\<in>set stk. rank n < rank m"
  shows "below api st0 rank (n # stk) (uses (known_var api st0) (str_of (cf_val st n)))"
proof (cases "cf_val st n = cf_val st0 n")
  case True
  then show ?thesis using expandableD(4) [OF assms(1)] assms(3,4) unfolding acyclic_refs_def below_def by fastforce
next
  case False
  then have "cf_val st n = VStr (resolved st0 env n)" using assms(2,3) by (auto simp: on_the_way_def)
  then show ?thesis using expandableD(5) [OF assms(1,3)] by (simp add: below_def)
qed

definition advances :: "('a, 'u, 's) conf_api \<Rightarrow> ('a, 'u, 's) conf \<Rightarrow> (string \<Rightarrow> string option) \<Rightarrow> ('a, 'u, 's) conf \<Rightarrow> ('a, 'u, 's) conf \<Rightarrow> bool" where
  "advances api st0 env st st' \<longleftrightarrow> on_the_way api st0 env st' \<and> settled api st0 env st \<subseteq> settled api st0 env st'"

lemma advances_trans: "advances api st0 env a b \<Longrightarrow> advances api st0 env b c \<Longrightarrow> advances api st0 env a c"
  by (auto simp: advances_def)

lemma same_but_val: "st = st0\<lparr>cf_val := cf_val st\<rparr> \<Longrightarrow> st\<lparr>cf_val := f\<rparr> = st0\<lparr>cf_val := f\<rparr>"
  by (cases st, cases st0) simp

lemma advances_field:
  assumes "on_the_way api st0 env st" "is_str_opt api n"
  shows "advances api st0 env st (set_field n (VStr (resolved st0 env n)) st)"
    "n \<in> settled api st0 env (set_field n (VStr (resolved st0 env n)) st)"
  using assms unfolding advances_def on_the_way_def settled_def set_field_def
  by (auto intro: same_but_val)

lemma expand_exact:
  assumes ex: "expandable api st0 env rank"
  shows "a = api \<Longrightarrow> on_the_way api st0 env st \<Longrightarrow>
      (case opt of None \<Rightarrow> below api st0 rank stk (uses (known_var api st0) v)
       | Some n \<Rightarrow> is_str_opt api n \<and> v = str_of (cf_val st n) \<and> (\<forall>m\<in>set stk. rank n < rank m)) \<Longrightarrow>
      \<exists>f st'. expand_meta a opt stk v st oss = (subst env v, f, st', oss) \<and> advances api st0 env st st'"
    and "a = api \<Longrightarrow> on_the_way api st0 env st \<Longrightarrow> below api st0 rank stk (uses (known_var api st0) v) \<Longrightarrow>
      \<exists>f st'. expand_scan a stk v st oss = (subst env v, f, st', oss) \<and> advances api st0 env st st'"
proof (induction a opt stk v st oss and a stk v st oss rule: expand_meta_expand_scan.induct)
  case (1 a stk v st oss)
  then show ?case by (auto simp: subst_plain advances_def)
next
  case (2 a n stk v st oss)
  show ?case
  proof (cases "CHR ''$'' \<in> set v")
    case True
    then have "n \<notin> set stk" "below api st0 rank (n # stk) (uses (known_var api st0) v)"
      using way_below [OF ex 2(3), of n stk] 2(4) by auto
    then show ?thesis using 2(1) 2(2,3) True by auto
  next
    case False
    then show ?thesis using 2(3) by (auto simp: subst_plain advances_def)
  qed
next
  case (3 a stk st oss)
  then show ?case by (auto simp: advances_def)
next
  case (4 a stk c cs st oss)
  note den = expandableD(3) [OF ex]
  note meta = way_meta [OF ex "4.prems"(2)]
  obtain var rest where rv: "read_var cs = (var, rest)" by fastforce
  note eqn = env_eq [OF den, of var]
  have kn: "known_var api st0 var \<longleftrightarrow> meta_var api st0 var \<noteq> None \<or> map_of (ca_opts api) var \<noteq> None"
    by (rule known_var_def)
  consider (char) "c \<noteq> CHR ''$''"
    | (stay) "c = CHR ''$''" "var = [] \<or> \<not> known_var api st0 var"
    | (meta) m where "c = CHR ''$''" "var \<noteq> []" "meta_var api st0 var = Some m"
    | (str) "c = CHR ''$''" "var \<noteq> []" "meta_var api st0 var = None" "map_of (ca_opts api) var = Some OPT_STR"
    | (other) t where "c = CHR ''$''" "var \<noteq> []" "meta_var api st0 var = None" "map_of (ca_opts api) var = Some t" "t \<noteq> OPT_STR"
    using kn by fastforce
  then show ?case
  proof cases
    case char
    then show ?thesis using "4.IH"(1) "4.prems" by fastforce
  next
    case stay
    then have "subst env (c # cs) = c # subst env cs" using rv known_env [OF den, of var] by auto
    then show ?thesis using "4.prems" "4.IH"(6) [OF _ rv [symmetric] refl] stay rv kn meta by fastforce
  next
    case (meta m)
    then have "env var = Some m" using eqn by simp
    then have "subst env (c # cs) = m @ subst env rest" using rv meta by simp
    moreover have "below api st0 rank stk (uses (known_var api st0) rest)" using "4.prems"(3) meta rv kn by (simp add: below_def)
    ultimately show ?thesis using "4.prems"(1-2) "4.IH"(2) [OF _ rv [symmetric] refl] meta rv \<open>meta_var api st = meta_var api st0\<close> by fastforce
  next
    case str
    then have so: "is_str_opt api var" by (simp add: is_str_opt_def)
    have "env var = Some (resolved st0 env var)" using eqn str by simp
    then have s: "subst env (c # cs) = resolved st0 env var @ subst env rest" using rv str by simp
    have us: "uses (known_var api st0) (c # cs) = var # uses (known_var api st0) rest" using str rv kn by simp
    then have "\<forall>m\<in>set stk. rank var < rank m" using "4.prems"(3) str so by (simp add: below_def)
    then obtain f1 st1 where e1: "expand_meta a (Some var) stk (str_of (cf_val st var)) st oss = (resolved st0 env var, f1, st1, oss)"
      and a1: "advances api st0 env st st1"
      using "4.IH"(3) [OF _ rv [symmetric] refl] "4.prems"(1,2) str so meta way_subst [OF ex "4.prems"(2) so] by fastforce
    let ?st2 = "set_field var (VStr (resolved st0 env var)) st1"
    have a2: "advances api st0 env st1 ?st2" using advances_field [OF _ so] a1 by (simp add: advances_def)
    have "below api st0 rank stk (uses (known_var api st0) rest)" using "4.prems"(3) us by (simp add: below_def)
    then obtain f3 st3 where e3: "expand_scan a stk rest ?st2 oss = (subst env rest, f3, st3, oss)"
      and a3: "advances api st0 env ?st2 st3"
      using "4.IH"(4) [OF _ rv [symmetric] refl] "4.prems"(1,2) str meta e1 a2 by (fastforce simp: advances_def)
    have "expand_scan a stk (c # cs) st oss = (resolved st0 env var @ subst env rest, True, st3, oss)"
      using str rv meta "4.prems"(1) e1 e3 by simp
    then show ?thesis using s advances_trans [OF a1 advances_trans [OF a2 a3]] by auto
  next
    case (other t)
    have "var \<in> fst ` set (ca_opts api)" using other(4) by (force dest: map_of_SomeD)
    then have g: "get_val api st (Some var) None [] = (0, c_str (val_str api (cf_val st var)))"
      using get_val_option [OF other(4) expandableD(2) [OF ex] c_str_name [OF read_var_name [OF rv]]] by blast
    have "cf_val st var = cf_val st0 var" using "4.prems"(2) other by (simp add: on_the_way_def is_str_opt_def)
    then have "env var = Some (snd (get_val api st (Some var) None []))" using eqn other g by simp
    then have "subst env (c # cs) = snd (get_val api st (Some var) None []) @ subst env rest" using rv other by simp
    moreover have "below api st0 rank stk (uses (known_var api st0) rest)" using "4.prems"(3) other rv kn by (simp add: below_def)
    ultimately show ?thesis using "4.prems"(1-2) "4.IH"(5) [OF _ rv [symmetric] refl] other rv meta by fastforce
  qed
qed

lemma expand_field_exact:
  assumes ex: "expandable api st0 env rank" and "on_the_way api st0 env st" "snd p = OPT_STR \<Longrightarrow> is_str_opt api (fst p)"
  shows "\<exists>st'. expand_field api p (st, oss) = (st', oss) \<and> advances api st0 env st st' \<and>
    (snd p = OPT_STR \<longrightarrow> fst p \<in> settled api st0 env st')"
proof (cases "snd p = OPT_STR")
  case True
  then have so: "is_str_opt api (fst p)" by (rule assms(3))
  obtain f st1 where e: "expand_meta api (Some (fst p)) [] (str_of (cf_val st (fst p))) st oss = (resolved st0 env (fst p), f, st1, oss)"
    and a: "advances api st0 env st st1"
  proof -
    have "\<exists>f st'. expand_meta api (Some (fst p)) [] (str_of (cf_val st (fst p))) st oss =
        (subst env (str_of (cf_val st (fst p))), f, st', oss) \<and> advances api st0 env st st'"
      by (rule expand_exact(1) [OF ex refl assms(2)]) (simp add: so)
    then show ?thesis using that way_subst [OF ex assms(2) so] by auto
  qed
  have w: "on_the_way api st0 env st1" using a by (simp add: advances_def)
  note f = advances_field [OF w so]
  show ?thesis using e True f advances_trans [OF a f(1)] by (auto simp: expand_field_def)
next
  case False
  then show ?thesis using assms(2) by (simp add: expand_field_def advances_def)
qed

lemma expand_fields_exact:
  assumes ex: "expandable api st0 env rank"
  shows "on_the_way api st0 env st \<Longrightarrow> \<forall>p\<in>set ps. snd p = OPT_STR \<longrightarrow> is_str_opt api (fst p) \<Longrightarrow>
    \<exists>st'. fold (expand_field api) ps (st, oss) = (st', oss) \<and> advances api st0 env st st' \<and>
      {n. (n, OPT_STR) \<in> set ps} \<subseteq> settled api st0 env st'"
proof (induction ps arbitrary: st)
  case Nil
  then show ?case by (simp add: advances_def)
next
  case (Cons p ps)
  obtain st1 where s1: "expand_field api p (st, oss) = (st1, oss)" "advances api st0 env st st1"
    "snd p = OPT_STR \<longrightarrow> fst p \<in> settled api st0 env st1"
    using expand_field_exact [OF ex Cons.prems(1), of p oss] Cons.prems(2) by auto
  obtain st2 where s2: "fold (expand_field api) ps (st1, oss) = (st2, oss)" "advances api st0 env st1 st2"
    "{n. (n, OPT_STR) \<in> set ps} \<subseteq> settled api st0 env st2"
    using Cons.IH [of st1] s1(2) Cons.prems(2) by (auto simp: advances_def)
  have "{n. (n, OPT_STR) \<in> set (p # ps)} \<subseteq> settled api st0 env st2"
    using s1(3) s2(2,3) by (auto simp: advances_def)
  then show ?case using s1(1) s2(1) advances_trans [OF s1(2) s2(2)] by auto
qed

definition expanded :: "('a, 'u, 's) conf_api \<Rightarrow> ('a, 'u, 's) conf \<Rightarrow> (string \<Rightarrow> string option) \<Rightarrow> ('a, 'u, 's) conf" where
  "expanded api st env = st\<lparr>cf_val := \<lambda>n. if is_str_opt api n then VStr (subst env (str_of (cf_val st n))) else cf_val st n\<rparr>"

lemma expand_all_expanded:
  assumes "expandable api st env rank"
  shows "expand_all_meta api st = (expanded api st env, [])"
proof -
  have tab: "is_str_opt api n \<longleftrightarrow> (n, OPT_STR) \<in> set (ca_opts api)" for n
    using expandableD(1) [OF assms] by (simp add: is_str_opt_def map_of_eq_Some_iff)
  then have "\<forall>p\<in>set (ca_opts api). snd p = OPT_STR \<longrightarrow> is_str_opt api (fst p)" by (metis prod.collapse)
  from expand_fields_exact [OF assms on_the_way_refl this]
  obtain st' where s: "expand_all_meta api st = (st', [])" "on_the_way api st env st'"
    "{n. (n, OPT_STR) \<in> set (ca_opts api)} \<subseteq> settled api st env st'"
    unfolding expand_all_meta_def advances_def by meson
  have "cf_val st' = cf_val (expanded api st env)"
  proof
    fix n
    show "cf_val st' n = cf_val (expanded api st env) n"
    proof (cases "is_str_opt api n")
      case True
      then have "n \<in> settled api st env st'" using s(3) tab by blast
      then show ?thesis using True by (simp add: settled_def expanded_def resolved_def)
    next
      case False
      then show ?thesis using s(2) by (simp add: on_the_way_def expanded_def)
    qed
  qed
  moreover have "st' = st\<lparr>cf_val := cf_val st'\<rparr>" using s(2) by (simp only: on_the_way_def)
  ultimately have "st' = expanded api st env" by (simp add: expanded_def)
  then show ?thesis using s(1) by simp
qed

lemma expanded_known [simp]: "known_var api (expanded api st env) = known_var api st"
  by (rule ext) (simp add: known_var_def meta_var_def expanded_def)

lemma expanded_expandable:
  assumes "expandable api st env rank"
  shows "expandable api (expanded api st env) env rank"
proof -
  let ?st = "expanded api st env"
  note e = expandableD [OF assms]
  have host: "subst env (str_of (cf_val st ''host'')) = str_of (cf_val st ''host'')" using e(6) by (rule subst_plain)
  have m: "meta_var api ?st = meta_var api st" using host by (auto simp: meta_var_def expanded_def)
  have v: "str_of (cf_val ?st n) = resolved st env n" if "is_str_opt api n" for n
    using that by (simp add: expanded_def resolved_def)
  have r: "resolved ?st env n = resolved st env n" if "is_str_opt api n" for n
    using v [OF that] resolved_inert [OF assms that] by (simp add: resolved_def)
  have "denotes api ?st env" unfolding denotes_def
  proof
    fix var
    show "env var = (case meta_var api ?st var of Some v \<Rightarrow> Some v
       | None \<Rightarrow> (case map_of (ca_opts api) var of None \<Rightarrow> None
          | Some t \<Rightarrow> Some (if t = OPT_STR then subst env (str_of (cf_val ?st var)) else c_str (val_str api (cf_val ?st var)))))"
      using env_eq [OF e(3), of var] r [of var] m
      by (auto simp: is_str_opt_def expanded_def resolved_def split: option.splits)
  qed
  moreover have "acyclic_refs api ?st rank" using v e(5) by (simp add: acyclic_refs_def)
  moreover have "\<forall>n. is_str_opt api n \<longrightarrow> uses (known_var api ?st) (resolved ?st env n) = []" using r e(5) by simp
  moreover have "CHR ''$'' \<notin> set (str_of (cf_val ?st ''host''))" using host e(6) by (auto simp: expanded_def)
  ultimately show ?thesis using e(1,2) unfolding expandable_def by blast
qed

lemma expanded_twice:
  assumes "expandable api st env rank"
  shows "expanded api (expanded api st env) env = expanded api st env"
  using resolved_inert [OF assms] by (auto simp: expanded_def resolved_def fun_eq_iff)

text \<open>C24: For a configuration whose references can be resolved, expanding all metavariables gives every string
  option the value its references denote: the text with each \<^verbatim>\<open>$name\<close> and \<^verbatim>\<open>${name}\<close> replaced by the
  metavariable, the printed option or the fully expanded string option of that name. Although the expansion
  rewrites fields while others that refer to them are being read, the order of the table does not matter, no
  loop is reported, no other field changes, and a second expansion changes nothing. Resolvable means: the
  references between string options do not go in circles (a value such as \<^verbatim>\<open>a=$a\<close>, for which the code reports
  a loop and keeps the text, is outside this statement); the resolved texts hold no further reference to a known
  name; the host name holds no \<open>$\<close>; and, of the table itself, the names of the options differ and are kept by
  the normalisation of keys.\<close>

theorem expand_all_exact:
  assumes "expandable api st env rank"
  shows "expand_all_meta api st =
      (st\<lparr>cf_val := \<lambda>n. if is_str_opt api n then VStr (subst env (str_of (cf_val st n))) else cf_val st n\<rparr>, []) \<and>
    expand_all_meta api (fst (expand_all_meta api st)) = (fst (expand_all_meta api st), [])"
  using expand_all_expanded [OF assms] expand_all_expanded [OF expanded_expandable [OF assms]] expanded_twice [OF assms]
  by (simp add: expanded_def)

section \<open>What an expansion leaves alone\<close>

text \<open>Whatever the references, only string options are rewritten, and with strings.\<close>

definition strings_only :: "('a, 'u, 's) conf_api \<Rightarrow> ('a, 'u, 's) conf \<Rightarrow> ('a, 'u, 's) conf \<Rightarrow> bool" where
  "strings_only api st st' \<longleftrightarrow>
     st' = st\<lparr>cf_val := cf_val st'\<rparr> \<and>
     (\<forall>n. cf_val st' n = cf_val st n \<or> (n, OPT_STR) \<in> set (ca_opts api) \<and> (\<exists>s. cf_val st' n = VStr s))"

lemma strings_only_refl [simp]: "strings_only api st st"
  by (simp add: strings_only_def)

lemma strings_only_trans: "strings_only api a b \<Longrightarrow> strings_only api b c \<Longrightarrow> strings_only api a c"
  unfolding strings_only_def by (metis same_but_val)

lemma strings_only_field: "(n, OPT_STR) \<in> set (ca_opts api) \<Longrightarrow> strings_only api st (set_field n (VStr s) st)"
  by (simp add: strings_only_def set_field_def)

lemma expand_strings_only:
  "strings_only api st (fst (snd (snd (expand_meta api opt stk v st oss))))"
  "strings_only api st (fst (snd (snd (expand_scan api stk v st oss))))"
proof (induction api opt stk v st oss and api stk v st oss rule: expand_meta_expand_scan.induct)
  case (4 api stk c cs st oss)
  obtain var rest where rv: "read_var cs = (var, rest)" by fastforce
  consider (char) "c \<noteq> CHR ''$''"
    | (meta) "c = CHR ''$''" "var \<noteq> []" "meta_var api st var \<noteq> None"
    | (str) "c = CHR ''$''" "var \<noteq> []" "meta_var api st var = None" "map_of (ca_opts api) var = Some OPT_STR"
    | (other) "c = CHR ''$''" "var \<noteq> []" "meta_var api st var = None" "map_of (ca_opts api) var \<noteq> Some OPT_STR" "map_of (ca_opts api) var \<noteq> None"
    | (stay) "c = CHR ''$''" "var = [] \<or> (meta_var api st var = None \<and> map_of (ca_opts api) var = None)"
    by fastforce
  then show ?case
  proof cases
    case char
    then show ?thesis using "4.IH"(1) by (auto split: prod.splits)
  next
    case meta
    then show ?thesis using "4.IH"(2) [OF _ rv [symmetric] refl] rv by (auto split: prod.splits)
  next
    case str
    obtain v f st1 oss1 where e: "expand_meta api (Some var) stk (str_of (cf_val st var)) st oss = (v, f, st1, oss1)"
      by (metis prod_cases4)
    have "strings_only api st st1" using "4.IH"(3) [OF _ rv [symmetric] refl] str e by simp
    moreover have "strings_only api st1 (set_field var (VStr v) st1)" using str by (simp add: strings_only_field map_of_SomeD)
    moreover have "strings_only api (set_field var (VStr v) st1) (fst (snd (snd (expand_scan api stk rest (set_field var (VStr v) st1) oss1))))"
      using "4.IH"(4) [OF _ rv [symmetric] refl] str e by simp
    ultimately show ?thesis using str rv e by (auto split: prod.splits intro: strings_only_trans)
  next
    case other
    then show ?thesis using "4.IH"(5) [OF _ rv [symmetric] refl] rv by (auto split: prod.splits)
  next
    case stay
    then show ?thesis using "4.IH"(6) [OF _ rv [symmetric] refl] rv by (auto split: prod.splits)
  qed
qed auto

lemma expand_value_strings_only: "expand_value api v st oss = (r, f, st', oss') \<Longrightarrow> strings_only api st st'"
  using expand_strings_only(1) [of api st None "[]" v oss] by (simp add: expand_value_def)

lemma expand_all_strings_only: "strings_only api st (fst (expand_all_meta api st))"
proof -
  have "set ps \<subseteq> set (ca_opts api) \<Longrightarrow> strings_only api (fst s) (fst (fold (expand_field api) ps s))" for ps s
  proof (induction ps arbitrary: s)
    case (Cons p ps)
    obtain v f st' oss' where e: "expand_meta api (Some (fst p)) [] (str_of (cf_val (fst s) (fst p))) (fst s) (snd s) = (v, f, st', oss')"
      by (metis prod_cases4)
    have "strings_only api (fst s) st'" using expand_strings_only(1) [of api "fst s" "Some (fst p)" "[]"] e by (metis fst_conv snd_conv)
    moreover have "strings_only api st' (set_field (fst p) (VStr v) st')" if "snd p = OPT_STR"
      using Cons.prems that by (intro strings_only_field) (metis list.set_intros(1) prod.collapse subsetD)
    ultimately have "strings_only api (fst s) (fst (expand_field api p s))"
      using e by (auto simp: expand_field_def intro: strings_only_trans)
    then show ?case using Cons.IH [of "expand_field api p s"] Cons.prems by (auto intro: strings_only_trans)
  qed simp
  from this [of "ca_opts api" "(st, [])"] show ?thesis by (simp add: expand_all_meta_def)
qed

lemma strings_only_fields:
  assumes "strings_only api st st'"
  shows "cf_cluster st' = cf_cluster st" "cf_subsys st' = cf_subsys st" "cf_observers st' = cf_observers st" "cf_changed st' = cf_changed st"
proof -
  have "st' = st\<lparr>cf_val := cf_val st'\<rparr>" using assms by (simp only: strings_only_def)
  then show "cf_cluster st' = cf_cluster st" "cf_subsys st' = cf_subsys st" "cf_observers st' = cf_observers st" "cf_changed st' = cf_changed st"
    by (metis conf.select_convs conf.surjective conf.update_convs(1))+
qed

section \<open>An instance\<close>

text \<open>A small instance: the paths of a daemon \<^verbatim>\<open>mds.a\<close>, with a reference from one string option to another.\<close>

definition sample_api :: "(unit, unit, nat) conf_api" where
  "sample_api =
     \<lparr>ca_opts = [(''host'', OPT_STR), (''admin_socket'', OPT_STR), (''run_dir'', OPT_STR), (''num_client'', OPT_INT), (''mon_host'', OPT_STR)],
      ca_sistrtoll = (\<lambda>s. case read_int s of Some (i, []) \<Rightarrow> Some (word_of_int i) | _ \<Rightarrow> None),
      ca_strtol = (\<lambda>s. case read_int s of Some (i, []) \<Rightarrow> Some (word_of_int i) | _ \<Rightarrow> None),
      ca_addr_parse = (\<lambda>a s. (s = [], a)), ca_addr_str = (\<lambda>a. ''-''), ca_uuid_parse = (\<lambda>u s. (s = [], u)), ca_uuid_str = (\<lambda>u. ''0''),
      ca_normalize = (\<lambda>k. k), ca_sub_num = (\<lambda>s. 1), ca_sub_name = (\<lambda>s i. ''mds''), ca_log_level = (\<lambda>s i. int s),
      ca_gather_level = (\<lambda>s i. int s), ca_set_log = (\<lambda>i l s. nat l), ca_set_gather = (\<lambda>i g s. s),
      ca_name_str = ''mds.a'', ca_type_name = ''mds'', ca_id = ''a'', ca_pid = ''7'', ca_cctid = ''99''\<rparr>"

definition sample_conf :: "(unit, unit, nat) conf" where
  "sample_conf =
     \<lparr>cf_val = (\<lambda>n. if n = ''host'' then VStr ''h'' else if n = ''admin_socket'' then VStr ''$run_dir/$cluster-$name.asok''
        else if n = ''run_dir'' then VStr ''/run/${num_client}$x'' else if n = ''num_client'' then VInt 3 else VStr []),
      cf_cluster = ''ceph'', cf_subsys = 5, cf_observers = [(''mon_host'', 4), (''run_dir'', 4)], cf_changed = []\<rparr>"

definition sample_env :: "string \<Rightarrow> string option" where
  "sample_env v = (case meta_var sample_api sample_conf v of Some w \<Rightarrow> Some w
     | None \<Rightarrow> if v = ''admin_socket'' then Some ''/run/3$x/ceph-mds.a.asok'' else if v = ''run_dir'' then Some ''/run/3$x''
       else if v = ''num_client'' then Some ''3'' else if v = ''mon_host'' then Some [] else None)"

lemmas sample_defs = sample_api_def sample_conf_def

lemma sample_opts: "map_of (ca_opts sample_api) v =
  (if v = ''host'' \<or> v = ''admin_socket'' \<or> v = ''run_dir'' \<or> v = ''mon_host'' then Some OPT_STR
   else if v = ''num_client'' then Some OPT_INT else None)"
  by (simp add: sample_api_def)

lemma sample_texts:
  "subst sample_env ''$run_dir/$cluster-$name.asok'' = ''/run/3$x/ceph-mds.a.asok''"
  "subst sample_env ''/run/${num_client}$x'' = ''/run/3$x''"
  "subst sample_env ''h'' = ''h''" "subst sample_env [] = []"
  "uses (known_var sample_api sample_conf) ''$run_dir/$cluster-$name.asok'' = [''run_dir'', ''cluster'', ''name'']"
  "uses (known_var sample_api sample_conf) ''/run/${num_client}$x'' = [''num_client'']"
  "uses (known_var sample_api sample_conf) ''/run/3$x/ceph-mds.a.asok'' = []"
  "uses (known_var sample_api sample_conf) ''/run/3$x'' = []"
  "uses (known_var sample_api sample_conf) ''h'' = []"
  by code_simp+

lemma sample_vals:
  "str_of (cf_val sample_conf ''host'') = ''h''" "str_of (cf_val sample_conf ''mon_host'') = []"
  "str_of (cf_val sample_conf ''run_dir'') = ''/run/${num_client}$x''"
  "str_of (cf_val sample_conf ''admin_socket'') = ''$run_dir/$cluster-$name.asok''"
  "c_str (val_str sample_api (cf_val sample_conf ''num_client'')) = ''3''"
  by code_simp+

declare subst.simps(2) [simp del] uses.simps(2) [simp del]

lemma sample_host: "meta_var sample_api sample_conf ''host'' = Some ''h''"
  by code_simp

lemma sample_denotes: "denotes sample_api sample_conf sample_env"
  unfolding denotes_def
proof
  fix v
  show "sample_env v = (case meta_var sample_api sample_conf v of Some v \<Rightarrow> Some v
     | None \<Rightarrow> (case map_of (ca_opts sample_api) v of None \<Rightarrow> None
        | Some t \<Rightarrow> Some (if t = OPT_STR then subst sample_env (str_of (cf_val sample_conf v)) else c_str (val_str sample_api (cf_val sample_conf v)))))"
  proof (cases "meta_var sample_api sample_conf v")
    case None
    then have "v \<noteq> ''host''" using sample_host by auto
    consider "v = ''admin_socket''" | "v = ''run_dir''" | "v = ''num_client''" | "v = ''mon_host''"
      | "v \<notin> {''admin_socket'', ''run_dir'', ''num_client'', ''mon_host''}" by blast
    then show ?thesis using None \<open>v \<noteq> ''host''\<close>
      by cases (simp_all add: sample_env_def sample_opts sample_vals sample_texts)
  qed (simp add: sample_env_def)
qed

lemma sample_str: "is_str_opt sample_api n \<longleftrightarrow> n \<in> {''host'', ''admin_socket'', ''run_dir'', ''mon_host''}"
  by (simp add: is_str_opt_def sample_opts)

lemma sample_expandable: "expandable sample_api sample_conf sample_env (\<lambda>n. if n = ''admin_socket'' then 1 else 0)"
proof -
  have "acyclic_refs sample_api sample_conf (\<lambda>n. if n = ''admin_socket'' then 1 else 0)"
    unfolding acyclic_refs_def sample_str by (auto simp: sample_vals sample_texts)
  moreover have "\<forall>n. is_str_opt sample_api n \<longrightarrow> uses (known_var sample_api sample_conf) (resolved sample_conf sample_env n) = []"
    unfolding sample_str by (auto simp: resolved_def sample_vals sample_texts)
  moreover have "distinct (map fst (ca_opts sample_api))" by (simp add: sample_api_def)
  ultimately show ?thesis using sample_denotes by (simp add: expandable_def sample_vals) (simp add: sample_api_def)
qed

theorem expand_all_exact_witness:
  "cf_val (fst (expand_all_meta sample_api sample_conf)) ''admin_socket'' = VStr ''/run/3$x/ceph-mds.a.asok'' \<and>
   cf_val (fst (expand_all_meta sample_api sample_conf)) ''num_client'' = VInt 3"
  using expand_all_exact [OF sample_expandable]
  by (simp add: sample_str sample_vals sample_texts) (simp add: sample_conf_def)

end
