(* ===== verification/Config_Set.thy ===== *)
theory Config_Set
  imports Config_Expand
begin

text \<open>
  Changing the configuration (\<^verbatim>\<open>src/src/common/config.cc\<close>): setting an option from text, observers and the
  notifications of \<^verbatim>\<open>apply_changes\<close>, values from a configuration file, and the comparison of two
  configurations. The configuration file (\<^verbatim>\<open>ConfFile\<close>) and the environment of the process are parameters;
  the calls of observers are returned in order.
\<close>

section \<open>Setting an option\<close>

text \<open>\<^verbatim>\<open>set_val_raw\<close>: the result code and the new state. \<^verbatim>\<open>int f\<close> keeps the low 32 bits of the parsed number. An
  address or identifier is parsed in place, so a failure may leave it changed.\<close>

definition set_int :: "('a, 'u, 's) conf_api \<Rightarrow> string \<Rightarrow> string \<Rightarrow> (u64 \<Rightarrow> ('a, 'u) opt_value) \<Rightarrow> ('a, 'u, 's) conf
    \<Rightarrow> int \<times> ('a, 'u, 's) conf" where
  "set_int api val n conv st =
     (case ca_sistrtoll api val of None \<Rightarrow> (- EINVAL, st) | Some f \<Rightarrow> (0, set_field n (conv f) st))"

definition set_bool :: "('a, 'u, 's) conf_api \<Rightarrow> string \<Rightarrow> string \<Rightarrow> ('a, 'u, 's) conf \<Rightarrow> int \<times> ('a, 'u, 's) conf" where
  "set_bool api val n st =
     (if strcaseeq val ''false'' then (0, set_field n (VBool False) st)
      else if strcaseeq val ''true'' then (0, set_field n (VBool True) st)
      else (case ca_strtol api val of None \<Rightarrow> (- EINVAL, st) | Some b \<Rightarrow> (0, set_field n (VBool (b \<noteq> 0)) st)))"

fun set_val_raw :: "('a, 'u, 's) conf_api \<Rightarrow> string \<Rightarrow> string \<times> opt_type \<Rightarrow> ('a, 'u, 's) conf \<Rightarrow> int \<times> ('a, 'u, 's) conf" where
  "set_val_raw api val (n, OPT_INT) st = set_int api val n (\<lambda>f. VInt (ucast f)) st"
| "set_val_raw api val (n, OPT_LONGLONG) st = set_int api val n VLonglong st"
| "set_val_raw api val (n, OPT_STR) st = (0, set_field n (VStr val) st)"
| "set_val_raw api val (n, OPT_FLOAT) st = (0, set_field n (VFloat (atof val)) st)"
| "set_val_raw api val (n, OPT_DOUBLE) st = (0, set_field n (VDouble (atof val)) st)"
| "set_val_raw api val (n, OPT_BOOL) st = set_bool api val n st"
| "set_val_raw api val (n, OPT_U32) st = set_int api val n (\<lambda>f. VU32 (ucast f)) st"
| "set_val_raw api val (n, OPT_U64) st = set_int api val n VU64 st"
| "set_val_raw api val (n, OPT_ADDR) st =
     (case cf_val st n of
        VAddr a \<Rightarrow> (case ca_addr_parse api a val of (ok, a') \<Rightarrow> (if ok then 0 else - EINVAL, set_field n (VAddr a') st))
      | _ \<Rightarrow> (- EINVAL, st))"
| "set_val_raw api val (n, OPT_UUID) st =
     (case cf_val st n of
        VUuid u \<Rightarrow> (case ca_uuid_parse api u val of (ok, u') \<Rightarrow> (if ok then 0 else - EINVAL, set_field n (VUuid u') st))
      | _ \<Rightarrow> (- EINVAL, st))"

definition set_val_impl :: "('a, 'u, 's) conf_api \<Rightarrow> string \<Rightarrow> string \<times> opt_type \<Rightarrow> ('a, 'u, 's) conf \<Rightarrow> int \<times> ('a, 'u, 's) conf" where
  "set_val_impl api val opt st =
     (case set_val_raw api val opt st of (ret, st') \<Rightarrow>
        if ret \<noteq> 0 then (ret, st')
        else (0, st'\<lparr>cf_changed := os_insert (fst opt) (cf_changed st')\<rparr>))"

text \<open>\<^verbatim>\<open>sscanf(..., "%d/%d", ...)\<close> and the two levels; one number serves for both.\<close>

definition set_levels :: "('a, 'u, 's) conf_api \<Rightarrow> string \<Rightarrow> nat \<Rightarrow> ('a, 'u, 's) conf \<Rightarrow> ('a, 'u, 's) conf option" where
  "set_levels api v i st =
     (case scan_pair v of [] \<Rightarrow> None
      | lg # r \<Rightarrow>
          let gather = (case r of [] \<Rightarrow> lg | g # _ \<Rightarrow> g)
          in Some (st\<lparr>cf_subsys := ca_set_gather api i gather (ca_set_log api i lg (cf_subsys st))\<rparr>))"

definition threads_started :: "('a, 'u, 's) conf \<Rightarrow> bool" where
  "threads_started st = bool_of (cf_val st ''internal_safe_to_start_threads'')"

definition observed :: "string \<Rightarrow> ('a, 'u, 's) conf \<Rightarrow> bool" where
  "observed n st \<longleftrightarrow> n \<in> fst ` set (cf_observers st)"

text \<open>\<^verbatim>\<open>set_val\<close>: result code, state and what goes to \<^verbatim>\<open>cerr\<close>. A null pointer is \<open>None\<close>.\<close>

definition set_val_key :: "('a, 'u, 's) conf_api \<Rightarrow> string \<Rightarrow> string \<Rightarrow> bool \<Rightarrow> ('a, 'u, 's) conf \<Rightarrow> int \<times> ('a, 'u, 's) conf" where
  "set_val_key api k v safe st =
     (case (if take 6 k = ''debug_'' then sub_option api (cf_subsys st) k else None) of
        Some i \<Rightarrow> (case set_levels api (c_str v) i st of Some st' \<Rightarrow> (0, st') | None \<Rightarrow> (- EINVAL, st))
      | None \<Rightarrow>
          (case map_of (ca_opts api) (c_str k) of
             Some t \<Rightarrow>
               if safe \<and> threads_started st \<and> (t = OPT_ADDR \<or> t = OPT_UUID) \<and> \<not> observed (c_str k) st then (- ENOSYS, st)
               else set_val_impl api (c_str v) (c_str k, t) st
           | None \<Rightarrow> (- ENOENT, st)))"

definition set_val :: "('a, 'u, 's) conf_api \<Rightarrow> string option \<Rightarrow> string option \<Rightarrow> bool \<Rightarrow> bool \<Rightarrow> ('a, 'u, 's) conf
    \<Rightarrow> int \<times> ('a, 'u, 's) conf \<times> string" where
  "set_val api key val meta safe st =
     (case key of None \<Rightarrow> (- EINVAL, st, [])
      | Some key \<Rightarrow>
          (case val of None \<Rightarrow> (- EINVAL, st, [])
           | Some val \<Rightarrow>
               (case (if meta then expand_value api val st [] else (val, False, st, [])) of (v, _, st1, err) \<Rightarrow>
                  (case set_val_key api (ca_normalize api key) v safe st1 of (ret, st2) \<Rightarrow> (ret, st2, err)))))"

text \<open>The default arguments of \<^verbatim>\<open>set_val\<close> are declared in a header outside the sources: \<open>meta\<close> and \<open>safe\<close>.\<close>

definition set_val_or_die :: "('a, 'u, 's) conf_api \<Rightarrow> bool \<Rightarrow> bool \<Rightarrow> string \<Rightarrow> string \<Rightarrow> ('a, 'u, 's) conf \<Rightarrow> ('a, 'u, 's) conf option" where
  "set_val_or_die api meta safe key val st =
     (case set_val api (Some key) (Some val) meta safe st of (ret, st', _) \<Rightarrow> if ret = 0 then Some st' else None)"

section \<open>Observers\<close>

definition add_observer :: "string list \<Rightarrow> observer \<Rightarrow> ('a, 'u, 's) conf \<Rightarrow> ('a, 'u, 's) conf" where
  "add_observer keys obs st = st\<lparr>cf_observers := fold (\<lambda>k m. mm_insert k obs m) keys (cf_observers st)\<rparr>"

text \<open>\<open>None\<close>: the assertion that the observer was registered fails.\<close>

definition remove_observer :: "observer \<Rightarrow> ('a, 'u, 's) conf \<Rightarrow> ('a, 'u, 's) conf option" where
  "remove_observer obs st =
     (if obs \<in> snd ` set (cf_observers st) then Some (st\<lparr>cf_observers := filter (\<lambda>p. snd p \<noteq> obs) (cf_observers st)\<rparr>)
      else None)"

definition internal_field :: "string \<Rightarrow> bool" where
  "internal_field s \<longleftrightarrow> s = ''internal_safe_to_start_threads''"

type_synonym calls = "(observer \<times> string list) list"

text \<open>The reverse map: the entries of one changed key, then of all.\<close>

definition note_key :: "string \<Rightarrow> observer \<Rightarrow> calls \<Rightarrow> calls" where
  "note_key key obs robs = om_set obs (os_insert key (om_get [] obs robs)) robs"

definition note_changed :: "(string \<times> observer) list \<Rightarrow> string \<Rightarrow> calls \<Rightarrow> calls" where
  "note_changed observers key robs = fold (\<lambda>p. note_key key (snd p)) (filter (\<lambda>p. fst p = key) observers) robs"

definition change_text :: "('a, 'u, 's) conf_api \<Rightarrow> ('a, 'u, 's) conf \<Rightarrow> string \<Rightarrow> string" where
  "change_text api st key =
     (case get_val api st (Some (c_str key)) (Some 128) [] of (ret, buf) \<Rightarrow>
        if ret = 0 \<and> \<not> internal_field key then key @ '' = '' @ [CHR 0x27] @ buf @ [CHR 0x27] @ '' '' else [])"

text \<open>\<^verbatim>\<open>_apply_changes\<close>: the state, the calls of \<^verbatim>\<open>handle_conf_change\<close> in order, the stream given and \<^verbatim>\<open>cerr\<close>.\<close>

definition apply_changes :: "('a, 'u, 's) conf_api \<Rightarrow> string option \<Rightarrow> ('a, 'u, 's) conf \<Rightarrow> ('a, 'u, 's) conf \<times> calls \<times> string option \<times> string" where
  "apply_changes api oss st =
     (case expand_all_meta api st of (st1, err) \<Rightarrow>
        let robs = fold (note_changed (cf_observers st1)) (cf_changed st1) [];
            oss' = map_option (\<lambda>s. s @ concat (map (change_text api st1) (cf_changed st1))) oss
        in (st1\<lparr>cf_changed := []\<rparr>, robs, oss', err))"

definition call_all_observers :: "('a, 'u, 's) conf_api \<Rightarrow> ('a, 'u, 's) conf \<Rightarrow> ('a, 'u, 's) conf \<times> calls \<times> string" where
  "call_all_observers api st =
     (case expand_all_meta api st of (st1, err) \<Rightarrow>
        (st1, fold (\<lambda>p. note_key (fst p) (snd p)) (cf_observers st1) [], err))"

section \<open>Values from a configuration file\<close>

text \<open>\<^verbatim>\<open>ConfFile\<close>: \<open>cp_parse\<close> reads a file and gives a result code, the parsed file and the errors it reports; \<open>cp_read\<close>
  looks a key up in a section; \<open>cp_list\<close> is \<^verbatim>\<open>get_str_list\<close>.\<close>

record 'f conf_files =
  cp_parse :: "string \<Rightarrow> int \<times> 'f \<times> string list"
  cp_read :: "'f \<Rightarrow> string \<Rightarrow> string \<Rightarrow> int \<times> string"
  cp_sections :: "'f \<Rightarrow> string list"
  cp_list :: "string \<Rightarrow> string list"

definition get_my_sections :: "('a, 'u, 's) conf_api \<Rightarrow> string list" where
  "get_my_sections api = [ca_name_str api, ca_type_name api, ''global'']"

definition get_all_sections :: "'f conf_files \<Rightarrow> 'f \<Rightarrow> string list" where
  "get_all_sections cp f = cp_sections cp f"

text \<open>The result code, what \<^verbatim>\<open>out\<close> holds on success, the state and \<^verbatim>\<open>cerr\<close>.\<close>

fun get_val_from_conf_file :: "('a, 'u, 's) conf_api \<Rightarrow> 'f conf_files \<Rightarrow> 'f \<Rightarrow> string list \<Rightarrow> string \<Rightarrow> bool \<Rightarrow> ('a, 'u, 's) conf
    \<Rightarrow> int \<times> string \<times> ('a, 'u, 's) conf \<times> string" where
  "get_val_from_conf_file api cp f [] key emeta st = (- ENOENT, [], st, [])"
| "get_val_from_conf_file api cp f (s # ss) key emeta st =
     (case cp_read cp f (c_str s) key of (ret, out) \<Rightarrow>
        if ret = 0 then
          (if emeta then (case expand_value api out st [] of (v, _, st', err) \<Rightarrow> (0, v, st', err)) else (0, out, st, []))
        else if ret \<noteq> - ENOENT then (ret, [], st, [])
        else get_val_from_conf_file api cp f ss key emeta st)"

definition load_option :: "('a, 'u, 's) conf_api \<Rightarrow> 'f conf_files \<Rightarrow> 'f \<Rightarrow> string list \<Rightarrow> string \<times> opt_type \<Rightarrow> ('a, 'u, 's) conf \<Rightarrow> ('a, 'u, 's) conf" where
  "load_option api cp f sections opt st =
     (case get_val_from_conf_file api cp f sections (fst opt) False st of (ret, val, st', _) \<Rightarrow>
        if ret = 0 then snd (set_val_impl api (c_str val) opt st') else st')"

definition load_subsys :: "('a, 'u, 's) conf_api \<Rightarrow> 'f conf_files \<Rightarrow> 'f \<Rightarrow> string list \<Rightarrow> nat \<Rightarrow> ('a, 'u, 's) conf \<Rightarrow> ('a, 'u, 's) conf" where
  "load_subsys api cp f sections i st =
     (case get_val_from_conf_file api cp f sections (c_str (''debug_'' @ ca_sub_name api (cf_subsys st) i)) False st of (ret, val, st', _) \<Rightarrow>
        if ret = 0 then (case set_levels api (c_str val) i st' of Some st2 \<Rightarrow> st2 | None \<Rightarrow> st') else st')"

text \<open>Section names in the style \<^verbatim>\<open>mds0\<close>, without a period behind the type.\<close>

definition old_style :: "string \<Rightarrow> bool" where
  "old_style s \<longleftrightarrow> (take 3 s = ''mds'' \<or> take 3 s = ''mon'' \<or> take 3 s = ''osd'') \<and> length s > 3 \<and> s ! 3 \<noteq> CHR ''.''"

fun joined :: "string \<Rightarrow> string list \<Rightarrow> string" where
  "joined sep [] = []"
| "joined sep [x] = x"
| "joined sep (x # y # r) = x @ sep @ joined sep (y # r)"

definition old_style_error :: "string list \<Rightarrow> string list" where
  "old_style_error names =
     (if names = [] then []
      else [''ERROR! old-style section name(s) found: '' @ joined '', '' names @
            ''. Please use the new style section names that include a period.''])"

text \<open>The loop that opens the first file that exists: the code, the file, the state, warnings and errors.\<close>

fun open_conf :: "('a, 'u, 's) conf_api \<Rightarrow> 'f conf_files \<Rightarrow> string list \<Rightarrow> ('a, 'u, 's) conf \<Rightarrow> string \<Rightarrow> string list
    \<Rightarrow> (int + 'f) \<times> ('a, 'u, 's) conf \<times> string \<times> string list" where
  "open_conf api cp [] st warn errs = (Inl (- EINVAL), st, warn, errs)"
| "open_conf api cp (c # cs) st warn errs =
     (case expand_value api c st warn of (fn, _, st1, warn1) \<Rightarrow>
        (case cp_parse cp (c_str fn) of (ret, f, es) \<Rightarrow>
           if ret = 0 then (Inr f, st1, warn1, errs @ es)
           else if ret \<noteq> - ENOENT then (Inl ret, st1, warn1, errs @ es)
           else open_conf api cp cs st1 warn1 (errs @ es)))"

definition parse_config_files_impl :: "('a, 'u, 's) conf_api \<Rightarrow> 'f conf_files \<Rightarrow> string list \<Rightarrow> ('a, 'u, 's) conf \<Rightarrow> string list
    \<Rightarrow> int \<times> ('a, 'u, 's) conf \<times> string \<times> string list" where
  "parse_config_files_impl api cp files st errs =
     (case open_conf api cp files st [] errs of
        (Inl ret, st1, warn, errs1) \<Rightarrow> (ret, st1, warn, errs1)
      | (Inr f, st1, warn, errs1) \<Rightarrow>
          let sections = get_my_sections api;
              st2 = fold (load_option api cp f sections) (ca_opts api) st1;
              st3 = fold (load_subsys api cp f sections) [0..<ca_sub_num api (cf_subsys st2)] st2
          in (0, st3, warn, errs1 @ old_style_error (filter old_style (cp_sections cp f))))"

definition CEPH_CONF_FILE_DEFAULT :: string where
  "CEPH_CONF_FILE_DEFAULT = ''/etc/ceph/$cluster.conf, ~/.ceph/$cluster.conf, $cluster.conf''"

text \<open>\<open>env\<close> is \<^verbatim>\<open>getenv("CEPH_CONF")\<close>, \<open>no_default\<close> the flag against the default file.\<close>

definition parse_config_files :: "('a, 'u, 's) conf_api \<Rightarrow> 'f conf_files \<Rightarrow> string option \<Rightarrow> string option \<Rightarrow> bool \<Rightarrow> string list
    \<Rightarrow> ('a, 'u, 's) conf \<Rightarrow> int \<times> ('a, 'u, 's) conf \<times> string \<times> string list" where
  "parse_config_files api cp files env no_default errs st =
     (if threads_started st then (- ENOSYS, st, [], errs)
      else
        (case (case files of Some c \<Rightarrow> Some c
               | None \<Rightarrow> (case env of Some c \<Rightarrow> Some c
                          | None \<Rightarrow> if no_default then None else Some CEPH_CONF_FILE_DEFAULT)) of
           None \<Rightarrow> (0, st, [], errs)
         | Some c \<Rightarrow> parse_config_files_impl api cp (cp_list cp c) st errs))"

definition parse_env :: "('a, 'u, 's) conf_api \<Rightarrow> bool \<Rightarrow> bool \<Rightarrow> string option \<Rightarrow> ('a, 'u, 's) conf \<Rightarrow> ('a, 'u, 's) conf option" where
  "parse_env api meta safe keyring st =
     (if threads_started st then Some st
      else (case keyring of None \<Rightarrow> Some st | Some k \<Rightarrow> set_val_or_die api meta safe ''keyring'' k st))"

section \<open>Search for a file\<close>

text \<open>The first file of the list that can be opened; \<open>opens\<close> is the file system.\<close>

fun first_open :: "(string \<Rightarrow> bool) \<Rightarrow> string list \<Rightarrow> string option" where
  "first_open opens [] = None"
| "first_open opens (f # fs) = (if opens (c_str f) then Some f else first_open opens fs)"

definition ceph_resolve_file_search :: "'f conf_files \<Rightarrow> (string \<Rightarrow> bool) \<Rightarrow> string \<Rightarrow> string option" where
  "ceph_resolve_file_search cp opens filename_list = first_open opens (cp_list cp filename_list)"

section \<open>Showing and comparing\<close>

text \<open>\<^verbatim>\<open>_show_config\<close>: the names and texts in the order in which they are printed or dumped.\<close>

definition show_entries :: "('a, 'u, 's) conf_api \<Rightarrow> ('a, 'u, 's) conf \<Rightarrow> (string \<times> string) list" where
  "show_entries api st =
     [(''name'', ca_name_str api), (''cluster'', cf_cluster st)] @
     map (\<lambda>i. (''debug_'' @ ca_sub_name api (cf_subsys st) i, levels_str api (cf_subsys st) i)) [0..<ca_sub_num api (cf_subsys st)] @
     map (\<lambda>(n, t). (n, snd (get_val api st (Some n) None []))) (ca_opts api)"

definition show_config :: "('a, 'u, 's) conf_api \<Rightarrow> ('a, 'u, 's) conf \<Rightarrow> string" where
  "show_config api st = concat (map (\<lambda>(n, v). n @ '' = '' @ v @ [CHR 0x0A]) (show_entries api st))"

text \<open>\<^verbatim>\<open>diff\<close>: the options with different texts (mine, the other's) and those the other does not have.\<close>

type_synonym diff_result = "(string \<times> string \<times> string) list \<times> string list"

definition diff_option :: "('a, 'u, 's) conf_api \<Rightarrow> ('a, 'u, 's) conf \<Rightarrow> ('a, 'u, 's) conf_api \<Rightarrow> ('a, 'u, 's) conf \<Rightarrow> string \<times> opt_type
    \<Rightarrow> diff_result \<Rightarrow> diff_result" where
  "diff_option api st api' other opt r =
     (case get_val api' other (Some (fst opt)) (Some 4096) [] of (err, other_val) \<Rightarrow>
        if err < 0 then
          (fst r, if err = - ENOENT then os_insert (fst opt) (snd r) else snd r)
        else
          (case get_val api st (Some (fst opt)) (Some 4096) [] of (err, local_val) \<Rightarrow>
             if err \<noteq> 0 \<or> local_val = other_val then r
             else (if fst opt \<in> fst ` set (fst r) then fst r else om_set (fst opt) (local_val, other_val) (fst r), snd r)))"

definition conf_diff :: "('a, 'u, 's) conf_api \<Rightarrow> ('a, 'u, 's) conf \<Rightarrow> ('a, 'u, 's) conf_api \<Rightarrow> ('a, 'u, 's) conf \<Rightarrow> diff_result \<Rightarrow> diff_result" where
  "conf_diff api st api' other r = fold (diff_option api st api' other) (ca_opts api) r"

section \<open>Well-formed configurations\<close>

text \<open>Every field holds a value of the type the table declares, so that no access reinterprets memory; the
  pending keys are options; the containers are in order.\<close>

definition typed :: "('a, 'u, 's) conf_api \<Rightarrow> ('a, 'u, 's) conf \<Rightarrow> bool" where
  "typed api st \<longleftrightarrow> (\<forall>(n, t)\<in>set (ca_opts api). type_of (cf_val st n) = t)"

definition conf_ok :: "('a, 'u, 's) conf_api \<Rightarrow> ('a, 'u, 's) conf \<Rightarrow> bool" where
  "conf_ok api st \<longleftrightarrow> typed api st \<and> sorted_wrt (<) (cf_changed st) \<and> set (cf_changed st) \<subseteq> fst ` set (ca_opts api) \<and>
     sorted (map fst (cf_observers st))"

lemma typed_field:
  assumes "distinct (map fst (ca_opts api))" "(n, type_of v) \<in> set (ca_opts api)" "typed api st"
  shows "typed api (set_field n v st)"
  using assms unfolding typed_def set_field_def by (auto dest: eq_key_imp_eq_value)

lemma set_field_fields [simp]:
  "cf_cluster (set_field n v st) = cf_cluster st" "cf_subsys (set_field n v st) = cf_subsys st"
  "cf_observers (set_field n v st) = cf_observers st" "cf_changed (set_field n v st) = cf_changed st"
  by (simp_all add: set_field_def)

lemma conf_ok_field:
  "distinct (map fst (ca_opts api)) \<Longrightarrow> (n, type_of v) \<in> set (ca_opts api) \<Longrightarrow> conf_ok api st \<Longrightarrow> conf_ok api (set_field n v st)"
  by (simp add: conf_ok_def typed_field)

lemma conf_ok_strings_only:
  assumes "distinct (map fst (ca_opts api))" "conf_ok api st" "strings_only api st st'"
  shows "conf_ok api st'"
proof -
  have "typed api st'" unfolding typed_def
  proof clarify
    fix n t
    assume t: "(n, t) \<in> set (ca_opts api)"
    then have "type_of (cf_val st n) = t" using assms(2) by (auto simp: conf_ok_def typed_def)
    moreover have "t = OPT_STR" if "(n, OPT_STR) \<in> set (ca_opts api)" using eq_key_imp_eq_value [OF assms(1) t that] .
    ultimately show "type_of (cf_val st' n) = t" using assms(3) by (metis strings_only_def type_of.simps(3))
  qed
  then show ?thesis using assms(2) strings_only_fields [OF assms(3)] by (simp add: conf_ok_def)
qed

text \<open>Setting an option changes its own field only.\<close>

lemma set_val_raw_cases:
  "snd (set_val_raw api val (n, t) st) = st \<or>
   (\<exists>v. snd (set_val_raw api val (n, t) st) = set_field n v st \<and> type_of v = t)"
  by (cases t) (auto simp: set_int_def set_bool_def split: option.splits opt_value.splits prod.splits)

lemma set_val_raw_stores:
  "fst (set_val_raw api val (n, t) st) = 0 \<Longrightarrow>
   \<exists>v. snd (set_val_raw api val (n, t) st) = set_field n v st \<and> type_of v = t"
  by (cases t) (auto simp: set_int_def set_bool_def errno_defs split: option.splits opt_value.splits prod.splits if_splits)

lemma conf_ok_raw:
  assumes "distinct (map fst (ca_opts api))" "(n, t) \<in> set (ca_opts api)" "conf_ok api st"
  shows "conf_ok api (snd (set_val_raw api val (n, t) st))"
  using set_val_raw_cases [of api val n t st] assms conf_ok_field by metis

lemma conf_ok_impl:
  assumes "distinct (map fst (ca_opts api))" "(n, t) \<in> set (ca_opts api)" "conf_ok api st"
  shows "conf_ok api (snd (set_val_impl api val (n, t) st))"
proof -
  obtain r st' where s: "set_val_raw api val (n, t) st = (r, st')" by fastforce
  then have "conf_ok api st'" using conf_ok_raw [OF assms, of val] by simp
  moreover from this have "conf_ok api (st'\<lparr>cf_changed := os_insert n (cf_changed st')\<rparr>)"
    using assms(2) by (auto simp: conf_ok_def typed_def rev_image_eqI)
  ultimately show ?thesis using s by (simp add: set_val_impl_def)
qed

lemma conf_ok_subsys [simp]: "conf_ok api (st\<lparr>cf_subsys := s\<rparr>) = conf_ok api st"
  by (simp add: conf_ok_def typed_def)

lemma set_levels_same: "set_levels api v i st = Some st' \<Longrightarrow> \<exists>s. st' = st\<lparr>cf_subsys := s\<rparr>"
  by (auto simp: set_levels_def Let_def split: list.splits)

lemma conf_ok_key:
  assumes "distinct (map fst (ca_opts api))" "conf_ok api st"
  shows "conf_ok api (snd (set_val_key api k v safe st))"
proof -
  have "conf_ok api (snd (set_val_impl api (c_str v) (c_str k, t) st))" if "map_of (ca_opts api) (c_str k) = Some t" for t
    using conf_ok_impl [OF assms(1) map_of_SomeD [OF that] assms(2)] .
  then show ?thesis using assms(2) by (auto simp: set_val_key_def split: option.splits dest!: set_levels_same)
qed

lemma conf_ok_set_val:
  assumes "distinct (map fst (ca_opts api))" "conf_ok api st"
  shows "conf_ok api (fst (snd (set_val api key val meta safe st)))"
proof (cases "key = None \<or> val = None")
  case True
  then show ?thesis using assms(2) by (auto simp: set_val_def split: option.splits)
next
  case False
  then obtain k v where kv: "key = Some k" "val = Some v" by auto
  obtain w f st1 err where e: "(if meta then expand_value api v st [] else (v, False, st, [])) = (w, f, st1, err)"
    by (metis prod_cases4)
  have "strings_only api st st1"
    using e expand_value_strings_only by (cases meta) (auto split: if_splits)
  from conf_ok_strings_only [OF assms this] have "conf_ok api (snd (set_val_key api (ca_normalize api k) w safe st1))"
    by (rule conf_ok_key [OF assms(1)])
  then show ?thesis using kv e by (auto simp: set_val_def split: prod.splits)
qed

lemma file_strings_only:
  "get_val_from_conf_file api cp f ss key emeta st = (r, v, st', err) \<Longrightarrow> strings_only api st st'"
  by (induction ss) (auto split: prod.splits if_splits dest: expand_value_strings_only)

lemma file_plain [simp]: "fst (snd (snd (get_val_from_conf_file api cp f ss key False st))) = st"
  by (induction ss) (auto split: prod.splits)

lemma conf_ok_load:
  assumes "distinct (map fst (ca_opts api))" "(n, t) \<in> set (ca_opts api)" "conf_ok api st"
  shows "conf_ok api (load_option api cp f ss (n, t) st)"
proof -
  obtain r v st' e where g: "get_val_from_conf_file api cp f ss n False st = (r, v, st', e)" by (metis prod_cases4)
  then have "st' = st" using file_plain [of api cp f ss n st] by simp
  then show ?thesis using g assms(3) conf_ok_impl [OF assms, of "c_str v"] by (simp add: load_option_def)
qed

lemma load_subsys_same: "\<exists>s. load_subsys api cp f ss i st = st\<lparr>cf_subsys := s\<rparr>"
proof -
  obtain r v st' e where g: "get_val_from_conf_file api cp f ss (c_str (''debug_'' @ ca_sub_name api (cf_subsys st) i)) False st = (r, v, st', e)"
    by (metis prod_cases4)
  moreover from g have "st' = st" using file_plain by (metis fst_conv snd_conv)
  moreover have "\<exists>s. st = st\<lparr>cf_subsys := s\<rparr>" by (rule exI [of _ "cf_subsys st"]) simp
  ultimately show ?thesis by (auto simp: load_subsys_def split: option.splits dest!: set_levels_same)
qed

lemma conf_ok_fold: "(\<And>x st. x \<in> set xs \<Longrightarrow> conf_ok api st \<Longrightarrow> conf_ok api (g x st)) \<Longrightarrow> conf_ok api st \<Longrightarrow> conf_ok api (fold g xs st)"
  by (induction xs arbitrary: st) auto

lemma open_conf_strings_only: "open_conf api cp cs st w es = (r, st', w', es') \<Longrightarrow> strings_only api st st'"
  by (induction cs arbitrary: st w es)
    (auto split: prod.splits if_splits dest!: expand_value_strings_only intro: strings_only_trans)

lemma conf_ok_files:
  assumes d: "distinct (map fst (ca_opts api))" and ok: "conf_ok api st"
  shows "conf_ok api (fst (snd (parse_config_files_impl api cp cs st errs)))"
proof -
  obtain r st1 w es where o: "open_conf api cp cs st [] errs = (r, st1, w, es)" by (metis prod_cases4)
  have ok1: "conf_ok api st1" using conf_ok_strings_only [OF d ok open_conf_strings_only [OF o]] .
  have "conf_ok api (fold (load_option api cp f ss) (ca_opts api) st1)" for f ss
    by (rule conf_ok_fold [OF _ ok1]) (auto intro: conf_ok_load [OF d])
  then have "conf_ok api (fold (load_subsys api cp f ss) is (fold (load_option api cp f ss) (ca_opts api) st1))" for f ss "is"
  proof (rule conf_ok_fold [rotated])
    fix i and st :: "('a, 'b, 'c) conf"
    assume "conf_ok api st"
    then show "conf_ok api (load_subsys api cp f ss i st)" using load_subsys_same [of api cp f ss i st] by auto
  qed
  then show ?thesis using ok1 o by (cases r) (simp_all add: parse_config_files_impl_def Let_def)
qed

section \<open>Notification of observers\<close>

definition calls_ok :: "calls \<Rightarrow> bool" where
  "calls_ok r \<longleftrightarrow> om_ok r \<and> (\<forall>p\<in>set r. snd p \<noteq> [] \<and> sorted_wrt (<) (snd p))"

lemma calls_get_sorted: "calls_ok r \<Longrightarrow> sorted_wrt (<) (om_get [] b r)"
  by (auto simp: calls_ok_def om_get_def split: option.splits dest!: map_of_SomeD)

lemma os_insert_nonempty [simp]: "os_insert x ys \<noteq> []"
  by (cases ys) auto

lemma note_key_calls:
  assumes "calls_ok r"
  shows "calls_ok (note_key k b r)"
    "set (om_get [] c (note_key k b r)) = (if c = b then insert k (set (om_get [] c r)) else set (om_get [] c r))"
proof -
  have om: "om_ok r" using assms by (simp add: calls_ok_def)
  have "\<forall>p\<in>set (note_key k b r). snd p \<noteq> [] \<and> sorted_wrt (<) (snd p)"
    using om_set_entries [of b "os_insert k (om_get [] b r)" r] assms calls_get_sorted [OF assms, of b]
    by (fastforce simp: note_key_def calls_ok_def)
  then show "calls_ok (note_key k b r)" using om by (simp add: calls_ok_def note_key_def)
  show "set (om_get [] c (note_key k b r)) = (if c = b then insert k (set (om_get [] c r)) else set (om_get [] c r))"
    using om by (simp add: note_key_def)
qed

definition note_pairs :: "(string \<times> observer) list \<Rightarrow> calls \<Rightarrow> calls" where
  "note_pairs ps r = fold (\<lambda>p. note_key (fst p) (snd p)) ps r"

lemma note_pairs_calls:
  "calls_ok r \<Longrightarrow> calls_ok (note_pairs ps r) \<and> (\<forall>c. set (om_get [] c (note_pairs ps r)) = set (om_get [] c r) \<union> {k. (k, c) \<in> set ps})"
proof (induction ps arbitrary: r)
  case (Cons p ps)
  from note_key_calls [OF Cons.prems] Cons.IH [of "note_key (fst p) (snd p) r"]
  show ?case by (cases p) (auto simp: note_pairs_def)
qed (simp add: note_pairs_def)

lemma note_changed_pairs: "note_changed os k = note_pairs (filter (\<lambda>p. fst p = k) os)"
  unfolding note_changed_def note_pairs_def by (intro ext fold_cong refl) simp

lemma fold_note_changed: "fold (note_changed os) ks r = note_pairs (concat (map (\<lambda>k. filter (\<lambda>p. fst p = k) os) ks)) r"
  by (induction ks arbitrary: r) (simp_all add: note_changed_pairs note_pairs_def)

lemma calls_exact:
  assumes "calls_ok r" "\<forall>c. set (om_get [] c r) = S c"
  shows "(c, ks) \<in> set r \<longleftrightarrow> ks \<noteq> [] \<and> sorted_wrt (<) ks \<and> set ks = S c"
proof
  have om: "om_ok r" using assms(1) by (simp add: calls_ok_def)
  have entry: "om_get [] c r = ks" if "(c, ks) \<in> set r" for ks
    using om_ok_distinct [OF om] that by (simp add: om_get_def)
  assume "(c, ks) \<in> set r"
  then show "ks \<noteq> [] \<and> sorted_wrt (<) ks \<and> set ks = S c" using assms entry by (fastforce simp: calls_ok_def)
next
  assume ks: "ks \<noteq> [] \<and> sorted_wrt (<) ks \<and> set ks = S c"
  then have ne: "om_get [] c r \<noteq> []" using assms(2) by (metis set_empty)
  then have "(c, om_get [] c r) \<in> set r" by (auto simp: om_get_def split: option.splits dest: map_of_SomeD)
  moreover have "om_get [] c r = ks"
    using ks assms(2) calls_get_sorted [OF assms(1), of c] by (metis strict_sorted_equal)
  ultimately show "(c, ks) \<in> set r" by simp
qed

lemma apply_changes_parts:
  assumes "apply_changes api oss st = (st', calls, oss', err)"
  shows "calls = note_pairs (concat (map (\<lambda>k. filter (\<lambda>p. fst p = k) (cf_observers st)) (cf_changed st))) []"
    "st' = (fst (expand_all_meta api st))\<lparr>cf_changed := []\<rparr>"
  using assms strings_only_fields [OF expand_all_strings_only [of api st]]
  by (auto simp: apply_changes_def Let_def fold_note_changed split: prod.splits)

text \<open>C25: Applying pending changes calls \<^verbatim>\<open>handle_conf_change\<close> once for each observer that tracks a changed key, with
  exactly the changed keys it tracks, in the order of the observers; observers without a changed key are
  not called; afterwards nothing is pending and the registrations are as before.\<close>

theorem observers_notified_exactly:
  assumes "apply_changes api oss st = (st', calls, oss', err)"
  shows "sorted_wrt (<) (map fst calls) \<and>
    (\<forall>obs keys. (obs, keys) \<in> set calls \<longleftrightarrow>
       keys \<noteq> [] \<and> sorted_wrt (<) keys \<and> set keys = {k \<in> set (cf_changed st). (k, obs) \<in> set (cf_observers st)}) \<and>
    cf_changed st' = [] \<and> cf_observers st' = cf_observers st"
proof -
  let ?ps = "concat (map (\<lambda>k. filter (\<lambda>p. fst p = k) (cf_observers st)) (cf_changed st))"
  note p = apply_changes_parts [OF assms]
  have e: "calls_ok []" by (simp add: calls_ok_def)
  have c: "calls_ok calls" "\<forall>c. set (om_get [] c calls) = {k \<in> set (cf_changed st). (k, c) \<in> set (cf_observers st)}"
    using note_pairs_calls [OF e, of ?ps] p(1) by (auto simp: om_get_def)
  have "sorted_wrt (<) (map fst calls)" using c(1) by (simp add: calls_ok_def)
  moreover have "cf_observers st' = cf_observers st" "cf_changed st' = []"
    using p(2) strings_only_fields [OF expand_all_strings_only [of api st]] by simp_all
  ultimately show ?thesis using calls_exact [OF c] by blast
qed

theorem observers_notified_exactly_witness:
  "let st = snd (set_val_impl sample_api ''h2'' (''mon_host'', OPT_STR) sample_conf);
       calls = fst (snd (apply_changes sample_api None st))
   in sorted_wrt (<) (map fst calls) \<and> (4, [''mon_host'']) \<in> set calls \<and> (5, [''mon_host'']) \<notin> set calls"
proof -
  let ?st = "snd (set_val_impl sample_api ''h2'' (''mon_host'', OPT_STR) sample_conf)"
  obtain st' calls oss' err where a: "apply_changes sample_api None ?st = (st', calls, oss', err)" by (metis prod_cases4)
  have c: "cf_changed ?st = [''mon_host'']" by code_simp
  have o: "cf_observers ?st = [(''mon_host'', 4), (''run_dir'', 4)]" by code_simp
  from observers_notified_exactly [OF a] show ?thesis by (simp add: a c o) blast
qed

section \<open>Reading and writing options\<close>

text \<open>The parser of \<^verbatim>\<open>strtol.h\<close> reads the decimal numbers of a \<^verbatim>\<open>long long\<close>.\<close>

definition parses_decimal :: "('a, 'u, 's) conf_api \<Rightarrow> bool" where
  "parses_decimal api \<longleftrightarrow> (\<forall>i. - (2 ^ 63) \<le> i \<longrightarrow> i < 2 ^ 63 \<longrightarrow> ca_sistrtoll api (int_str i) = Some (word_of_int i))"

lemma decimal_int_str: "decimal n = int_str (int n)"
  by (simp add: int_str_def)

lemma int_str_chars: "c \<in> set (int_str i) \<Longrightarrow> is_digit c \<or> c = CHR ''-''"
  using decimal_digits by (auto simp: int_str_def split: if_splits)

lemma int_str_free: "\<not> is_digit c \<Longrightarrow> c \<noteq> CHR ''-'' \<Longrightarrow> c \<notin> set (int_str i)"
  using int_str_chars by blast

lemma read_int_whole: "read_int (int_str i) = Some (i, [])"
proof -
  have "read_int (int_str i @ []) = Some (i, [])" by (rule read_int_str) simp
  then show ?thesis by (simp only: append_Nil2)
qed

lemma int_str_inj: "int_str a = int_str b \<longleftrightarrow> a = b"
  by (metis Pair_inject option.inject read_int_whole)

lemma int_str_text: "c_str (int_str i) = int_str i"
proof -
  have "\<not> is_digit (CHR 0x00)" by (simp add: is_digit_def less_eq_char_def)
  from int_str_free [OF this] show ?thesis by (auto simp: c_str_def takeWhile_eq_all_conv)
qed

lemma c_str_idem [simp]: "c_str (c_str s) = c_str s"
  by (auto simp: c_str_def takeWhile_eq_all_conv dest: set_takeWhileD)

lemma low_half: "ucast (word_of_int i :: u64) = (word_of_int i :: u32)"
  by (rule ucast_down_wi) (simp add: is_down)

text \<open>The types whose text determines the value. A number of type \<^verbatim>\<open>u64\<close> has to be one of a \<^verbatim>\<open>long long\<close>; a string
  holds no NUL.\<close>

fun readable :: "('a, 'u) opt_value \<Rightarrow> bool" where
  "readable (VStr s) = (c_str s = s)"
| "readable (VU64 w) = (uint w < 2 ^ 63)"
| "readable (VDouble _) = False"
| "readable (VFloat _) = False"
| "readable (VAddr _) = False"
| "readable (VUuid _) = False"
| "readable _ = True"

lemma set_of_text:
  assumes "parses_decimal api" "readable v" "cf_val st n = v"
  shows "set_val_raw api (c_str (val_str api v)) (n, type_of v) st = (0, set_field n v st)"
proof (cases v)
  case (VInt w)
  have b: "- (2 ^ 63) \<le> sint w" "sint w < 2 ^ 63" using sint_ge [of w] sint_lt [of w] by simp_all
  have "ucast (word_of_int (sint w) :: u64) = w" using low_half [of "sint w"] by simp
  then show ?thesis using VInt assms(1) b by (simp add: parses_decimal_def set_int_def int_str_text)
next
  case (VLonglong w)
  have b: "- (2 ^ 63) \<le> sint w" "sint w < 2 ^ 63" using sint_ge [of w] sint_lt [of w] by simp_all
  then show ?thesis using VLonglong assms(1) by (simp add: parses_decimal_def set_int_def int_str_text)
next
  case (VU32 w)
  have b: "- (2 ^ 63) \<le> uint w" "uint w < 2 ^ 63" using uint_lt2p [of w] order_trans [OF _ uint_ge_0 [of w]] by simp_all
  have "ucast (word_of_int (uint w) :: u64) = w" using low_half [of "uint w"] by simp
  then show ?thesis using VU32 assms(1) b by (simp add: parses_decimal_def set_int_def int_str_text decimal_int_str)
next
  case (VU64 w)
  then have b: "- (2 ^ 63) \<le> uint w" "uint w < 2 ^ 63" using order_trans [OF _ uint_ge_0 [of w]] assms(2) by simp_all
  then show ?thesis using VU64 assms(1) by (simp add: parses_decimal_def set_int_def int_str_text decimal_int_str)
next
  case (VBool b)
  then show ?thesis by (cases b) (simp_all add: set_bool_def strcaseeq_def c_str_def to_lower_def less_eq_char_def)
qed (use assms in auto)

definition option_key :: "('a, 'u, 's) conf_api \<Rightarrow> ('a, 'u, 's) conf \<Rightarrow> string \<Rightarrow> opt_type \<Rightarrow> bool" where
  "option_key api st n t \<longleftrightarrow> map_of (ca_opts api) n = Some t \<and> ca_normalize api n = n \<and> c_str n = n \<and>
     sub_option api (cf_subsys st) n = None"

lemma set_val_key_option:
  assumes "option_key api st n t" "\<not> (safe \<and> threads_started st \<and> (t = OPT_ADDR \<or> t = OPT_UUID) \<and> \<not> observed n st)"
  shows "set_val_key api n v safe st = set_val_impl api (c_str v) (n, t) st"
  using assms by (auto simp: set_val_key_def option_key_def)

lemma set_val_plain:
  assumes "CHR ''$'' \<notin> set v \<or> \<not> meta"
  shows "set_val api (Some n) (Some v) meta safe st =
    (case set_val_key api (ca_normalize api n) v safe st of (ret, st') \<Rightarrow> (ret, st', []))"
  using assms by (auto simp: set_val_def expand_value_def)

lemma get_val_of_option:
  assumes "option_key api st n t"
  shows "get_val api st (Some n) None old = (0, c_str (val_str api (cf_val st n)))"
  using assms by (intro get_val_option) (simp_all add: option_key_def)

lemma printed_without_dollar:
  assumes "readable v" "\<forall>s. v = VStr s \<longrightarrow> CHR ''$'' \<notin> set s"
  shows "CHR ''$'' \<notin> set (c_str (val_str api v))"
proof -
  have "CHR ''$'' \<notin> set (int_str i)" for i by (rule int_str_free) (simp_all add: is_digit_def less_eq_char_def)
  then have "CHR ''$'' \<notin> set (val_str api v)" using assms by (cases v) (auto simp: decimal_int_str)
  then show ?thesis by (auto simp: c_str_def dest: set_takeWhileD)
qed

text \<open>C27: What \<^verbatim>\<open>get_val\<close> prints for an integer, boolean or string option, \<^verbatim>\<open>set_val\<close> reads back: the call succeeds,
  the field holds the same value as before, and the option is pending for its observers. The option is one of
  the table, under its normalised name and not shadowed by a debug level of a subsystem. Its value is one the text
  determines: an \<^verbatim>\<open>int\<close>, \<^verbatim>\<open>long long\<close>, \<^verbatim>\<open>uint32_t\<close> or \<^verbatim>\<open>bool\<close> of any value, a \<^verbatim>\<open>uint64_t\<close> below 2^63 (larger ones are
  printed beyond the range of the parser, which reads a \<^verbatim>\<open>long long\<close>), or a string without NUL; where the call expands
  metavariables, a string without \<open>$\<close> as well. The number parser, which is library code, is taken to read
  the decimal text of every \<^verbatim>\<open>long long\<close>. Options of type \<^verbatim>\<open>float\<close>, \<^verbatim>\<open>double\<close>, address and \<^verbatim>\<open>uuid\<close> are not covered.\<close>

theorem set_reads_what_get_prints:
  assumes "parses_decimal api" "option_key api st n (type_of (cf_val st n))" "readable (cf_val st n)"
    "meta \<longrightarrow> (\<forall>s. cf_val st n = VStr s \<longrightarrow> CHR ''$'' \<notin> set s)"
  shows "set_val api (Some n) (Some (snd (get_val api st (Some n) None []))) meta safe st =
    (0, st\<lparr>cf_changed := os_insert n (cf_changed st)\<rparr>, [])"
proof -
  let ?v = "cf_val st n"
  have d: "CHR ''$'' \<notin> set (c_str (val_str api ?v)) \<or> \<not> meta" using printed_without_dollar [OF assms(3)] assms(4) by blast
  have t: "\<not> (type_of ?v = OPT_ADDR \<or> type_of ?v = OPT_UUID)" using assms(3) by (cases ?v) auto
  have "set_field n ?v st = st" by (simp add: set_field_def)
  then have "set_val_impl api (c_str (c_str (val_str api ?v))) (n, type_of ?v) st = (0, st\<lparr>cf_changed := os_insert n (cf_changed st)\<rparr>)"
    using set_of_text [OF assms(1,3) refl] by (simp add: set_val_impl_def)
  then show ?thesis
    using set_val_key_option [OF assms(2)] t get_val_of_option [OF assms(2)] assms(2) d
    by (simp add: set_val_plain option_key_def)
qed

lemma sample_parses: "parses_decimal sample_api"
  using read_int_str [of "[]"] by (simp add: parses_decimal_def sample_api_def)

lemma sample_key: "option_key sample_api sample_conf ''num_client'' OPT_INT"
  by (simp add: option_key_def sample_opts) code_simp

theorem set_reads_what_get_prints_witness:
  "set_val sample_api (Some ''num_client'') (Some (snd (get_val sample_api sample_conf (Some ''num_client'') None []))) True True sample_conf =
     (0, sample_conf\<lparr>cf_changed := os_insert ''num_client'' (cf_changed sample_conf)\<rparr>, [])"
proof -
  have "cf_val sample_conf ''num_client'' = VInt 3" by (simp add: sample_conf_def)
  then show ?thesis using set_reads_what_get_prints [OF sample_parses, of sample_conf "''num_client''" True True] sample_key by simp
qed

text \<open>An integer option accepts every number of a \<^verbatim>\<open>long long\<close> and keeps its low 32 bits without an error: what is
  read back is the number that was set exactly when it fits into an \<^verbatim>\<open>int\<close>.\<close>

lemma int_option_wraps:
  assumes "parses_decimal api" "option_key api st n OPT_INT" "- (2 ^ 63) \<le> i" "i < 2 ^ 63"
  shows "\<exists>st'. set_val api (Some n) (Some (int_str i)) meta safe st = (0, st', []) \<and>
    cf_val st' n = VInt (word_of_int i) \<and>
    (snd (get_val api st' (Some n) None []) = int_str i \<longleftrightarrow> - (2 ^ 31) \<le> i \<and> i < 2 ^ 31)"
proof -
  let ?st = "set_field n (VInt (word_of_int i)) st\<lparr>cf_changed := os_insert n (cf_changed st)\<rparr>"
  have "CHR ''$'' \<notin> set (int_str i)"
    by (rule int_str_free) (simp_all add: is_digit_def less_eq_char_def)
  then have "set_val api (Some n) (Some (int_str i)) meta safe st = (0, ?st, [])"
    using set_val_key_option [OF assms(2)] assms
    by (simp add: set_val_plain option_key_def int_str_text set_val_impl_def set_int_def parses_decimal_def low_half set_field_def)
  moreover have "cf_val ?st n = VInt (word_of_int i)" by (simp add: set_field_def)
  moreover have "option_key api ?st n OPT_INT" using assms(2) by (simp add: option_key_def set_field_def)
  moreover have "int_str (sint (word_of_int i :: u32)) = int_str i \<longleftrightarrow> - (2 ^ 31) \<le> i \<and> i < 2 ^ 31"
  proof -
    have "sint (word_of_int i :: u32) = i \<longleftrightarrow> - (2 ^ 31) \<le> i \<and> i < 2 ^ 31"
      by (simp add: sint_sbintrunc' signed_take_bit_int_eq_self_iff)
    then show ?thesis by (simp only: int_str_inj)
  qed
  ultimately show ?thesis using get_val_of_option [of api ?st n OPT_INT "[]"] by (auto simp: int_str_text)
qed

lemma int_option_wraps_witness:
  "\<exists>st'. set_val sample_api (Some ''num_client'') (Some (int_str 4294967298)) True True sample_conf = (0, st', []) \<and>
     cf_val st' ''num_client'' = VInt 2"
  using int_option_wraps [OF sample_parses sample_key, of 4294967298 True True] by auto

section \<open>The caller's buffer\<close>

text \<open>Reading an option into a buffer of \<open>len > 0\<close> bytes never writes past it, leaves the longest prefix of the text
  that fits with its terminator, and reports \<^verbatim>\<open>-ENAMETOOLONG\<close> exactly when something is missing.\<close>

lemma get_val_fits:
  assumes "option_key api st n t" "0 < len" "get_val api st (Some n) (Some len) old = (ret, buf)"
  shows "length buf < len \<and> buf = take (len - 1) (c_str (val_str api (cf_val st n))) \<and>
    (ret = - ENAMETOOLONG \<longleftrightarrow> buf \<noteq> c_str (val_str api (cf_val st n))) \<and> (ret = 0 \<or> ret = - ENAMETOOLONG)"
proof -
  let ?s = "c_str (val_str api (cf_val st n))"
  have g: "ret = (if length ?s + 1 > len then - ENAMETOOLONG else 0)" "buf = take (len - 1) ?s"
    using assms by (auto simp: option_key_def get_val_def snprintf_def Let_def)
  have "take (len - 1) ?s = ?s \<longleftrightarrow> length ?s < len" using assms(2) by auto
  then show ?thesis using g assms(2) by (auto simp: errno_defs)
qed

lemma get_val_fits_witness:
  "get_val sample_api sample_conf (Some ''run_dir'') (Some 6) [] = (- ENAMETOOLONG, ''/run/'')"
proof -
  obtain ret buf where g: "get_val sample_api sample_conf (Some ''run_dir'') (Some 6) [] = (ret, buf)" by fastforce
  have k: "option_key sample_api sample_conf ''run_dir'' OPT_STR" by (simp add: option_key_def sample_opts) code_simp
  have s: "c_str (val_str sample_api (cf_val sample_conf ''run_dir'')) = ''/run/${num_client}$x''" by code_simp
  from get_val_fits [OF k _ g] show ?thesis unfolding g s by simp
qed

text \<open>The levels of a logging subsystem that do not fit are cut off, but the error code is given only when the text
  is exactly as long as the buffer: with a longer text the truncated levels are reported as success.\<close>

lemma subsys_truncation_unreported:
  assumes "map_of (ca_opts api) (c_str k) = None" "ca_normalize api k = k" "sub_option api (cf_subsys st) k = Some i" "0 < len"
  shows "get_val api st (Some k) (Some len) old =
    (if length (levels_str api (cf_subsys st) i) = len then - ENAMETOOLONG else 0, take (len - 1) (levels_str api (cf_subsys st) i)) \<and>
    (length (levels_str api (cf_subsys st) i) > len \<longrightarrow>
       fst (get_val api st (Some k) (Some len) old) = 0 \<and>
       snd (get_val api st (Some k) (Some len) old) \<noteq> levels_str api (cf_subsys st) i)"
proof -
  have g: "get_val api st (Some k) (Some len) old =
    (if length (levels_str api (cf_subsys st) i) = len then - ENAMETOOLONG else 0, take (len - 1) (levels_str api (cf_subsys st) i))"
    using assms by (simp add: get_val_def snprintf_def Let_def)
  have "take (len - 1) s \<noteq> s" if "length s > len" for s :: string
    using that by (metis length_take less_imp_diff_less min.absorb4 nat_neq_iff)
  then show ?thesis using g by simp
qed

lemma subsys_truncation_unreported_witness:
  "get_val sample_api (sample_conf\<lparr>cf_subsys := 20\<rparr>) (Some ''debug_mds'') (Some 3) [] = (0, ''20'')"
proof -
  have "map_of (ca_opts sample_api) (c_str ''debug_mds'') = None" "ca_normalize sample_api ''debug_mds'' = ''debug_mds''"
    "sub_option sample_api (cf_subsys (sample_conf\<lparr>cf_subsys := 20\<rparr>)) ''debug_mds'' = Some 0"
    "levels_str sample_api (cf_subsys (sample_conf\<lparr>cf_subsys := 20\<rparr>)) 0 = ''20/20''"
    by code_simp+
  with subsys_truncation_unreported [OF this(1-3), of 3 "[]"] show ?thesis by simp
qed

section \<open>What a configuration file sets\<close>

text \<open>The value of a key: that of the first section that has it; an error other than a missing key stops the search.\<close>

fun first_value :: "'f conf_files \<Rightarrow> 'f \<Rightarrow> string list \<Rightarrow> string \<Rightarrow> string option" where
  "first_value cp f [] key = None"
| "first_value cp f (s # ss) key =
     (case cp_read cp f (c_str s) key of (ret, v) \<Rightarrow>
        if ret = 0 then Some v else if ret = - ENOENT then first_value cp f ss key else None)"

lemma file_first_value:
  "(case get_val_from_conf_file api cp f ss key False st of (ret, v, st', err) \<Rightarrow> if ret = 0 then Some v else None) = first_value cp f ss key"
  by (induction ss) (auto simp: errno_defs split: prod.splits)

definition file_value :: "('a, 'u, 's) conf_api \<Rightarrow> 'f conf_files \<Rightarrow> 'f \<Rightarrow> ('a, 'u, 's) conf \<Rightarrow> string \<times> opt_type \<Rightarrow> ('a, 'u) opt_value" where
  "file_value api cp f st opt =
     (case first_value cp f (get_my_sections api) (fst opt) of
        None \<Rightarrow> cf_val st (fst opt)
      | Some v \<Rightarrow> cf_val (snd (set_val_raw api (c_str v) opt st)) (fst opt))"

lemma load_option_first:
  "load_option api cp f ss opt st = (case first_value cp f ss (fst opt) of None \<Rightarrow> st | Some v \<Rightarrow> snd (set_val_impl api (c_str v) opt st))"
proof -
  obtain r v st' e where g: "get_val_from_conf_file api cp f ss (fst opt) False st = (r, v, st', e)" by (metis prod_cases4)
  then have "st' = st" using file_plain [of api cp f ss "fst opt" st] by simp
  then show ?thesis using g file_first_value [of api cp f ss "fst opt" st] by (cases "r = 0") (auto simp: load_option_def split: option.splits)
qed

lemma set_val_raw_local:
  assumes "cf_val st n = cf_val st' n"
  shows "cf_val (snd (set_val_raw api v (n, t) st)) n = cf_val (snd (set_val_raw api v (n, t) st')) n"
  using assms by (cases t) (auto simp: set_int_def set_bool_def set_field_def split: option.splits opt_value.splits prod.splits)

lemma set_val_impl_val: "cf_val (snd (set_val_impl api v opt st)) = cf_val (snd (set_val_raw api v opt st))"
  by (simp add: set_val_impl_def split: prod.splits)

lemma set_val_raw_other: "m \<noteq> n \<Longrightarrow> cf_val (snd (set_val_raw api v (n, t) st)) m = cf_val st m"
  using set_val_raw_cases [of api v n t st] by (auto simp: set_field_def)

lemma load_option_val:
  assumes "cf_val st n = cf_val st0 n"
  shows "cf_val (load_option api cp f (get_my_sections api) (n, t) st) m =
    (if m = n then file_value api cp f st0 (n, t) else cf_val st m)"
  using assms set_val_raw_local [of st n st0 api] set_val_raw_other
  by (auto simp: load_option_first file_value_def set_val_impl_val split: option.splits)

lemma load_options_val:
  "distinct (map fst opts) \<Longrightarrow> \<forall>p\<in>set opts. cf_val st (fst p) = cf_val st0 (fst p) \<Longrightarrow>
   cf_val (fold (load_option api cp f (get_my_sections api)) opts st) n =
     (case map_of opts n of Some t \<Rightarrow> file_value api cp f st0 (n, t) | None \<Rightarrow> cf_val st n)"
proof (induction opts arbitrary: st)
  case (Cons p opts)
  obtain m u where p: "p = (m, u)" by fastforce
  let ?st = "load_option api cp f (get_my_sections api) p st"
  have v: "cf_val ?st k = (if k = m then file_value api cp f st0 (m, u) else cf_val st k)" for k
    using load_option_val [of st m st0 api cp f u] Cons.prems p by simp
  have "\<forall>p\<in>set opts. cf_val ?st (fst p) = cf_val st0 (fst p)" using v Cons.prems p by auto
  moreover have "map_of opts m = None" using Cons.prems(1) p by (simp add: map_of_eq_None_iff)
  ultimately show ?case using Cons.IH [of ?st] Cons.prems(1) v p by (auto split: option.splits)
qed simp

lemma load_subsystems_val: "cf_val (fold (load_subsys api cp f ss) is st) = cf_val st"
proof (induction "is" arbitrary: st)
  case (Cons i "is")
  obtain s where "load_subsys api cp f ss i st = st\<lparr>cf_subsys := s\<rparr>" using load_subsys_same [of api cp f ss i st] by blast
  then show ?case using Cons [of "st\<lparr>cf_subsys := s\<rparr>"] by simp
qed simp

text \<open>C26: When a configuration file is read successfully, every option takes the value of the first of the sections
  \<^verbatim>\<open>type.id\<close>, \<^verbatim>\<open>type\<close>, \<^verbatim>\<open>global\<close> that sets it, as \<^verbatim>\<open>set_val_raw\<close> parses it; an option no section sets, or whose value does not
  parse, keeps its value (for an address, what the parser left). The order of the options does not matter.\<close>

theorem config_file_precedence:
  assumes "distinct (map fst (ca_opts api))" "open_conf api cp files st [] errs = (Inr f, st1, warn, errs1)" "(n, t) \<in> set (ca_opts api)"
    "parse_config_files_impl api cp files st errs = (ret, st', warn', errs')"
  shows "ret = 0 \<and> warn' = warn \<and>
    cf_val st' n =
      (case first_value cp f [ca_name_str api, ca_type_name api, ''global''] n of
         None \<Rightarrow> cf_val st1 n
       | Some v \<Rightarrow> cf_val (snd (set_val_raw api (c_str v) (n, t) st1)) n)"
proof -
  let ?st2 = "fold (load_option api cp f (get_my_sections api)) (ca_opts api) st1"
  have "ret = 0" "warn' = warn" "st' = fold (load_subsys api cp f (get_my_sections api)) [0..<ca_sub_num api (cf_subsys ?st2)] ?st2"
    using assms(2,4) by (auto simp: parse_config_files_impl_def Let_def)
  moreover have "cf_val ?st2 n = file_value api cp f st1 (n, t)" using load_options_val [OF assms(1), of st1 st1 api cp f n] assms(1,3) by (simp add: map_of_eq_Some_iff)
  ultimately show ?thesis by (simp add: load_subsystems_val file_value_def get_my_sections_def cong: option.case_cong)
qed

definition sample_files :: "(string \<times> string \<times> string) list conf_files" where
  "sample_files =
     \<lparr>cp_parse = (\<lambda>fn. if fn = ''/etc/ceph/ceph.conf'' then (0, [(''mds'', ''num_client'', ''8''), (''global'', ''num_client'', ''9'')], []) else (- ENOENT, [], [])),
      cp_read = (\<lambda>f s k. case map_of (map (\<lambda>(s, k, v). ((s, k), v)) f) (s, k) of Some v \<Rightarrow> (0, v) | None \<Rightarrow> (- ENOENT, [])),
      cp_sections = map fst, cp_list = (\<lambda>s. [s])\<rparr>"

theorem config_file_precedence_witness:
  "\<exists>st' errs. parse_config_files_impl sample_api sample_files [''/etc/ceph/$cluster.conf''] sample_conf [] = (0, st', [], errs) \<and>
     cf_val st' ''num_client'' = VInt 8"
proof -
  obtain ret st' w' es' where p: "parse_config_files_impl sample_api sample_files [''/etc/ceph/$cluster.conf''] sample_conf [] = (ret, st', w', es')"
    by (metis prod_cases4)
  have o: "open_conf sample_api sample_files [''/etc/ceph/$cluster.conf''] sample_conf [] [] =
      (Inr [(''mds'', ''num_client'', ''8''), (''global'', ''num_client'', ''9'')], sample_conf, [], [])"
    by (simp add: expand_value_def read_var_def valid_char_def less_eq_char_def meta_var_def) (simp add: sample_conf_def sample_files_def c_str_def)
  have d: "distinct (map fst (ca_opts sample_api))" "(''num_client'', OPT_INT) \<in> set (ca_opts sample_api)" by (simp_all add: sample_api_def)
  have v: "first_value sample_files [(''mds'', ''num_client'', ''8''), (''global'', ''num_client'', ''9'')]
      [ca_name_str sample_api, ca_type_name sample_api, ''global''] ''num_client'' = Some ''8''" by code_simp
  have "cf_val (snd (set_val_raw sample_api (c_str ''8'') (''num_client'', OPT_INT) sample_conf)) ''num_client'' = VInt 8" by code_simp
  with config_file_precedence [OF d(1) o d(2) p] v p show ?thesis by auto
qed

end
