(* ===== verification/Config_Args.thy ===== *)
theory Config_Args
  imports Config_Set
begin

text \<open>
  Options on the command line and injected at run time (\<^verbatim>\<open>parse_argv\<close>, \<^verbatim>\<open>parse_option\<close>, \<^verbatim>\<open>injectargs\<close>), and the runs of a
  configuration object under all its operations. The matching of single arguments (\<^verbatim>\<open>ceph_argparse\<close>) is a
  parameter: a function that matches the argument at the iterator consumes it.
\<close>

section \<open>Arguments\<close>

text \<open>A call returns \<open>None\<close> when the argument does not match; otherwise the value read, the arguments that are left and
  the iterator. \<open>ap_binary\<close> also returns what it prints.\<close>

record argparse =
  ap_witharg :: "string list \<Rightarrow> nat \<Rightarrow> string list \<Rightarrow> (string \<times> string list \<times> nat) option"
  ap_flag :: "string list \<Rightarrow> nat \<Rightarrow> string list \<Rightarrow> (string list \<times> nat) option"
  ap_binary :: "string list \<Rightarrow> nat \<Rightarrow> string \<Rightarrow> (int \<times> string \<times> string list \<times> nat) option"

text \<open>What \<^verbatim>\<open>parse_option\<close> changes: its result, the arguments, the iterator, the stream \<^verbatim>\<open>oss\<close> if there is one, and the
  configuration.\<close>

record ('a, 'u, 's) parse_state =
  ps_ret :: int
  ps_args :: "string list"
  ps_i :: nat
  ps_oss :: "string option"
  ps_conf :: "('a, 'u, 's) conf"

definition tell :: "string \<Rightarrow> string option \<Rightarrow> string option" where
  "tell s oss = map_option (\<lambda>t. t @ s) oss"

text \<open>The loop over the subsystems; \<open>None\<close> when none of them matches.\<close>

fun parse_subsys :: "('a, 'u, 's) conf_api \<Rightarrow> argparse \<Rightarrow> nat list \<Rightarrow> string list \<Rightarrow> nat \<Rightarrow> string option \<Rightarrow> ('a, 'u, 's) conf
    \<Rightarrow> ('a, 'u, 's) parse_state option" where
  "parse_subsys api ap [] args i oss st = None"
| "parse_subsys api ap (k # ks) args i oss st =
     (case ap_witharg ap args i [c_str (''--debug_'' @ ca_sub_name api (cf_subsys st) k)] of
        None \<Rightarrow> parse_subsys api ap ks args i oss st
      | Some (val, args', i') \<Rightarrow>
          Some (case scan_pair (c_str val) of
             [] \<Rightarrow> \<lparr>ps_ret = 0, ps_args = args', ps_i = i', ps_oss = oss, ps_conf = st\<rparr>
           | lg # r \<Rightarrow>
               let gather = (case r of [] \<Rightarrow> lg | g # _ \<Rightarrow> g);
                   name = ca_sub_name api (cf_subsys st) k
               in \<lparr>ps_ret = 0, ps_args = args', ps_i = i',
                   ps_oss = tell (''debug_'' @ name @ ''='' @ int_str lg @ ''/'' @ int_str gather @ '' '') oss,
                   ps_conf = st\<lparr>cf_subsys := ca_set_gather api k gather (ca_set_log api k lg (cf_subsys st))\<rparr>\<rparr>))"

text \<open>An option with an argument that matched. A message for \<^verbatim>\<open>cerr\<close> is not kept.\<close>

definition parse_value :: "('a, 'u, 's) conf_api \<Rightarrow> string \<times> opt_type \<Rightarrow> string \<Rightarrow> string list \<Rightarrow> nat \<Rightarrow> string option \<Rightarrow> ('a, 'u, 's) conf
    \<Rightarrow> ('a, 'u, 's) parse_state" where
  "parse_value api opt val args i oss st =
     (if oss \<noteq> None \<and> snd opt \<in> {OPT_STR, OPT_ADDR, OPT_UUID} \<and> \<not> observed (fst opt) st then
        \<lparr>ps_ret = - ENOSYS, ps_args = args, ps_i = i,
         ps_oss = tell (''You cannot change '' @ fst opt @ '' using injectargs.'' @ [CHR 0x0A]) oss, ps_conf = st\<rparr>
      else
        (case set_val_impl api (c_str val) opt st of (res, st') \<Rightarrow>
           if res \<noteq> 0 \<and> oss \<noteq> None then
             \<lparr>ps_ret = res, ps_args = args, ps_i = i,
              ps_oss = tell (''Parse error setting '' @ fst opt @ '' to '' @ [CHR 0x27] @ val @ [CHR 0x27] @ '' using injectargs.'' @ [CHR 0x0A]) oss,
              ps_conf = st'\<rparr>
           else \<lparr>ps_ret = 0, ps_args = args, ps_i = i, ps_oss = oss, ps_conf = st'\<rparr>))"

text \<open>The loop over the table; an argument that is no option is skipped.\<close>

fun parse_table :: "('a, 'u, 's) conf_api \<Rightarrow> argparse \<Rightarrow> (string \<times> opt_type) list \<Rightarrow> string list \<Rightarrow> nat \<Rightarrow> string option \<Rightarrow> ('a, 'u, 's) conf
    \<Rightarrow> ('a, 'u, 's) parse_state" where
  "parse_table api ap [] args i oss st = \<lparr>ps_ret = 0, ps_args = args, ps_i = i + 1, ps_oss = oss, ps_conf = st\<rparr>"
| "parse_table api ap (opt # opts) args i oss st =
     (if snd opt = OPT_BOOL then
        (case ap_binary ap args i (''--'' @ fst opt) of
           Some (res, msg, args', i') \<Rightarrow>
             let oss' = tell msg oss in
             if res = 0 then \<lparr>ps_ret = 0, ps_args = args', ps_i = i', ps_oss = oss', ps_conf = snd (set_val_impl api ''false'' opt st)\<rparr>
             else if res = 1 then \<lparr>ps_ret = 0, ps_args = args', ps_i = i', ps_oss = oss', ps_conf = snd (set_val_impl api ''true'' opt st)\<rparr>
             else \<lparr>ps_ret = res, ps_args = args', ps_i = i', ps_oss = oss', ps_conf = st\<rparr>
         | None \<Rightarrow>
             (case ap_flag ap args i [''--no-'' @ fst opt] of
                Some (args', i') \<Rightarrow>
                  \<lparr>ps_ret = 0, ps_args = args', ps_i = i', ps_oss = oss, ps_conf = snd (set_val_impl api ''false'' opt st)\<rparr>
              | None \<Rightarrow> parse_table api ap opts args i oss st))
      else
        (case ap_witharg ap args i [''--'' @ fst opt] of
           Some (val, args', i') \<Rightarrow> parse_value api opt val args' i' oss st
         | None \<Rightarrow> parse_table api ap opts args i oss st))"

definition parse_option :: "('a, 'u, 's) conf_api \<Rightarrow> argparse \<Rightarrow> string list \<Rightarrow> nat \<Rightarrow> string option \<Rightarrow> ('a, 'u, 's) conf \<Rightarrow> ('a, 'u, 's) parse_state" where
  "parse_option api ap args i oss st =
     (case parse_subsys api ap [0..<ca_sub_num api (cf_subsys st)] args i oss st of
        Some ps \<Rightarrow> ps
      | None \<Rightarrow> parse_table api ap (ca_opts api) args i oss st)"

text \<open>The loop of \<^verbatim>\<open>parse_injectargs\<close>, which may not end if the matching does not consume.\<close>

partial_function (option) parse_injectargs :: "('a, 'u, 's) conf_api \<Rightarrow> argparse \<Rightarrow> ('a, 'u, 's) parse_state \<Rightarrow> ('a, 'u, 's) parse_state option" where
  "parse_injectargs api ap ps =
     (if ps_i ps \<ge> length (ps_args ps) then Some ps
      else
        let r = parse_option api ap (ps_args ps) (ps_i ps) (ps_oss ps) (ps_conf ps)
        in parse_injectargs api ap (r\<lparr>ps_ret := if ps_ret r < 0 then ps_ret r else ps_ret ps\<rparr>))"

text \<open>The words of the text, cut at blanks; blanks at the front give an empty word.\<close>

lemma dropWhile_len: "length (dropWhile P xs) \<le> length xs"
  by (induction xs) auto

function split_args :: "string \<Rightarrow> string list" where
  "split_args [] = []"
| "split_args (c # cs) =
     takeWhile (\<lambda>x. x \<noteq> CHR '' '') (c # cs) #
     split_args (dropWhile (\<lambda>x. x = CHR '' '') (dropWhile (\<lambda>x. x \<noteq> CHR '' '') (c # cs)))"
  by pat_completeness auto
termination
proof (relation "measure length", goal_cases)
  case (2 c cs)
  show ?case
  proof (cases "c = CHR '' ''")
    case True
    then show ?thesis using dropWhile_len [of "\<lambda>x. x = CHR '' ''" cs] by simp
  next
    case False
    then show ?thesis
      using dropWhile_len [of "\<lambda>x. x = CHR '' ''" "dropWhile (\<lambda>x. x \<noteq> CHR '' '') cs"] dropWhile_len [of "\<lambda>x. x \<noteq> CHR '' ''" cs]
      by simp
  qed
qed simp

definition injectargs :: "('a, 'u, 's) conf_api \<Rightarrow> argparse \<Rightarrow> string \<Rightarrow> string \<Rightarrow> ('a, 'u, 's) conf
    \<Rightarrow> (int \<times> ('a, 'u, 's) conf \<times> calls \<times> string option \<times> string) option" where
  "injectargs api ap s oss st =
     (case parse_injectargs api ap \<lparr>ps_ret = 0, ps_args = split_args (c_str s), ps_i = 0, ps_oss = Some oss, ps_conf = st\<rparr> of
        None \<Rightarrow> None
      | Some ps \<Rightarrow>
          let (ret, oss') =
            (if ps_args ps \<noteq> [] then
               (- EINVAL, tell ('' failed to parse arguments: '' @ joined '','' (ps_args ps) @ [CHR 0x0A]) (ps_oss ps))
             else (ps_ret ps, ps_oss ps))
          in (case apply_changes api oss' (ps_conf ps) of (st', calls, oss2, err) \<Rightarrow> Some (ret, st', calls, oss2, err)))"

section \<open>The command line\<close>

record ('a, 'u, 's) argv_state =
  av_args :: "string list"
  av_i :: nat
  av_show_config :: bool
  av_show_value :: "string option"
  av_conf :: "('a, 'u, 's) conf"

text \<open>One round of the loop: it is left at a double dash, an assertion fails, the process exits, or it goes on.\<close>

datatype ('a, 'u, 's) argv_next = Leave | Die | ExitNow | Next "('a, 'u, 's) argv_state"

fun set_all_or_die :: "('a, 'u, 's) conf_api \<Rightarrow> bool \<Rightarrow> bool \<Rightarrow> (string \<times> string) list \<Rightarrow> ('a, 'u, 's) conf \<Rightarrow> ('a, 'u, 's) conf option" where
  "set_all_or_die api meta safe [] st = Some st"
| "set_all_or_die api meta safe ((k, v) # r) st =
     (case set_val_or_die api meta safe k v st of None \<Rightarrow> None | Some st' \<Rightarrow> set_all_or_die api meta safe r st')"

definition go_on :: "('a, 'u, 's) conf option \<Rightarrow> string list \<Rightarrow> nat \<Rightarrow> ('a, 'u, 's) argv_state \<Rightarrow> ('a, 'u, 's) argv_next" where
  "go_on c args i av = (case c of None \<Rightarrow> Die | Some st \<Rightarrow> Next (av\<lparr>av_args := args, av_i := i, av_conf := st\<rparr>))"

text \<open>The options with an argument that have a name of their own, in the order of the code.\<close>

definition short_options :: "(string list \<times> string) list" where
  "short_options =
     [([''--monmap'', ''-M''], ''monmap''), ([''--mon_host'', ''-m''], ''mon_host''), ([''--bind''], ''public_addr''),
      ([''--keyfile'', ''-K''], ''keyfile''), ([''--keyring'', ''-k''], ''keyring''), ([''--client_mountpoint'', ''-r''], ''client_mountpoint'')]"

fun argv_named :: "('a, 'u, 's) conf_api \<Rightarrow> argparse \<Rightarrow> bool \<Rightarrow> bool \<Rightarrow> (string list \<times> string) list \<Rightarrow> ('a, 'u, 's) argv_state \<Rightarrow> ('a, 'u, 's) argv_next" where
  "argv_named api ap meta safe [] av =
     (let r = parse_option api ap (av_args av) (av_i av) None (av_conf av)
      in Next (av\<lparr>av_args := ps_args r, av_i := ps_i r, av_conf := ps_conf r\<rparr>))"
| "argv_named api ap meta safe ((names, key) # r) av =
     (case ap_witharg ap (av_args av) (av_i av) names of
        Some (val, args, i) \<Rightarrow> go_on (set_val_or_die api meta safe key (c_str val) (av_conf av)) args i av
      | None \<Rightarrow> argv_named api ap meta safe r av)"

definition argv_step :: "('a, 'u, 's) conf_api \<Rightarrow> argparse \<Rightarrow> bool \<Rightarrow> bool \<Rightarrow> ('a, 'u, 's) argv_state \<Rightarrow> ('a, 'u, 's) argv_next" where
  "argv_step api ap meta safe av =
     (let args = av_args av; i = av_i av; st = av_conf av in
      if args ! i = ''--'' then Leave
      else (case ap_flag ap args i [''--show_conf''] of Some _ \<Rightarrow> ExitNow
      | None \<Rightarrow> (case ap_flag ap args i [''--show_config''] of Some (args', i') \<Rightarrow> Next (av\<lparr>av_args := args', av_i := i', av_show_config := True\<rparr>)
      | None \<Rightarrow> (case ap_witharg ap args i [''--show_config_value''] of
                   Some (val, args', i') \<Rightarrow> Next (av\<lparr>av_args := args', av_i := i', av_show_value := Some val\<rparr>)
      | None \<Rightarrow> (case ap_flag ap args i [''--foreground'', ''-f''] of
                   Some (args', i') \<Rightarrow> go_on (set_val_or_die api meta safe ''daemonize'' ''false'' st) args' i' av
      | None \<Rightarrow> (case ap_flag ap args i [''-d''] of
                   Some (args', i') \<Rightarrow>
                     go_on (set_all_or_die api meta safe [(''daemonize'', ''false''), (''log_file'', ''''), (''log_to_stderr'', ''true''),
                              (''err_to_stderr'', ''true''), (''log_to_syslog'', ''false'')] st) args' i' av
      | None \<Rightarrow> argv_named api ap meta safe short_options av))))))"

text \<open>How the call ends: it returns, the process exits after printing to \<^verbatim>\<open>cout\<close> (the dump of the file that
  \<^verbatim>\<open>--show_conf\<close> prints is outside the sources), or an assertion fails.\<close>

datatype ('a, 'u, 's) argv_end = Returned int "string list" "('a, 'u, 's) conf" | Exited int string | Aborted

definition argv_finish :: "('a, 'u, 's) conf_api \<Rightarrow> ('a, 'u, 's) argv_state \<Rightarrow> ('a, 'u, 's) argv_end" where
  "argv_finish api av =
     (if av_show_config av then Exited 0 (show_config api (fst (expand_all_meta api (av_conf av))))
      else (case av_show_value av of
          None \<Rightarrow> Returned 0 (av_args av) (av_conf av)
        | Some key \<Rightarrow>
            (case get_val api (av_conf av) (Some (c_str key)) None [] of (r, buf) \<Rightarrow>
               if r < 0 then Exited 1 []
               else (case expand_value api buf (av_conf av) [] of (s, _) \<Rightarrow> Exited 0 (s @ [CHR 0x0A])))))"

partial_function (option) argv_loop :: "('a, 'u, 's) conf_api \<Rightarrow> argparse \<Rightarrow> bool \<Rightarrow> bool \<Rightarrow> ('a, 'u, 's) argv_state \<Rightarrow> ('a, 'u, 's) argv_end option" where
  "argv_loop api ap meta safe av =
     (if av_i av \<ge> length (av_args av) then Some (argv_finish api av)
      else (case argv_step api ap meta safe av of
          Leave \<Rightarrow> Some (argv_finish api av)
        | Die \<Rightarrow> Some Aborted
        | ExitNow \<Rightarrow> Some (Exited 0 [])
        | Next av' \<Rightarrow> argv_loop api ap meta safe av'))"

definition parse_argv :: "('a, 'u, 's) conf_api \<Rightarrow> argparse \<Rightarrow> bool \<Rightarrow> bool \<Rightarrow> string list \<Rightarrow> ('a, 'u, 's) conf \<Rightarrow> ('a, 'u, 's) argv_end option" where
  "parse_argv api ap meta safe args st =
     (if threads_started st then Some (Returned (- ENOSYS) args st)
      else argv_loop api ap meta safe \<lparr>av_args = args, av_i = 0, av_show_config = False, av_show_value = None, av_conf = st\<rparr>)"

section \<open>Termination\<close>

text \<open>The contract of \<^verbatim>\<open>ceph_argparse\<close>: a match leaves fewer arguments behind the iterator.\<close>

definition left :: "string list \<Rightarrow> nat \<Rightarrow> nat" where
  "left args i = length args - i"

definition consumes :: "argparse \<Rightarrow> bool" where
  "consumes ap \<longleftrightarrow>
     (\<forall>args i names v args' i'. i < length args \<longrightarrow> ap_witharg ap args i names = Some (v, args', i') \<longrightarrow> left args' i' < left args i) \<and>
     (\<forall>args i names args' i'. i < length args \<longrightarrow> ap_flag ap args i names = Some (args', i') \<longrightarrow> left args' i' < left args i) \<and>
     (\<forall>args i name r m args' i'. i < length args \<longrightarrow> ap_binary ap args i name = Some (r, m, args', i') \<longrightarrow> left args' i' < left args i)"

lemma parse_subsys_consumes:
  "consumes ap \<Longrightarrow> i < length args \<Longrightarrow> parse_subsys api ap ks args i oss st = Some r \<Longrightarrow> left (ps_args r) (ps_i r) < left args i"
  by (induction ks) (auto simp: consumes_def Let_def split: option.splits list.splits)

lemma parse_value_args [simp]:
  "ps_args (parse_value api opt v args i oss st) = args" "ps_i (parse_value api opt v args i oss st) = i"
  by (simp_all add: parse_value_def split: prod.splits)

lemma parse_table_consumes:
  assumes "consumes ap" "i < length args"
  shows "left (ps_args (parse_table api ap opts args i oss st)) (ps_i (parse_table api ap opts args i oss st)) < left args i"
proof (induction opts)
  case Nil
  then show ?case using assms(2) by (simp add: left_def)
next
  case (Cons opt opts)
  then show ?case using assms by (auto simp: consumes_def Let_def split: option.splits)
qed

lemma parse_option_consumes:
  assumes "consumes ap" "i < length args"
  shows "left (ps_args (parse_option api ap args i oss st)) (ps_i (parse_option api ap args i oss st)) < left args i"
  using parse_subsys_consumes [OF assms] parse_table_consumes [OF assms] by (auto simp: parse_option_def split: option.splits)

lemma parse_injectargs_returns:
  assumes "consumes ap"
  shows "\<exists>r. parse_injectargs api ap ps = Some r \<and> ps_i r \<ge> length (ps_args r)"
proof (induction "left (ps_args ps) (ps_i ps)" arbitrary: ps rule: less_induct)
  case less
  show ?case
  proof (cases "ps_i ps \<ge> length (ps_args ps)")
    case False
    then show ?thesis
      using parse_option_consumes [OF assms, of "ps_i ps" "ps_args ps" api "ps_oss ps" "ps_conf ps"] less
      by (subst parse_injectargs.simps) (simp add: Let_def)
  qed (subst parse_injectargs.simps, simp)
qed

lemma argv_named_consumes:
  assumes "consumes ap" "av_i av < length (av_args av)" "argv_named api ap meta safe os av = Next av'"
  shows "left (av_args av') (av_i av') < left (av_args av) (av_i av)"
  using assms(3)
proof (induction os)
  case Nil
  then show ?case using parse_option_consumes [OF assms(1,2)] by (auto simp: Let_def)
next
  case (Cons p os)
  then show ?case using assms(1,2) by (cases p) (auto simp: consumes_def go_on_def split: option.splits)
qed

lemma argv_step_consumes:
  assumes "consumes ap" "av_i av < length (av_args av)" "argv_step api ap meta safe av = Next av'"
  shows "left (av_args av') (av_i av') < left (av_args av) (av_i av)"
  using assms argv_named_consumes [OF assms(1,2), of api meta safe short_options av']
  unfolding argv_step_def consumes_def by (auto simp: go_on_def Let_def split: option.splits if_splits)

text \<open>C28: Parsing the command line and injecting arguments always end, whatever the arguments, when every match consumes
  an argument: an argument that is no option is stepped over.\<close>

theorem argument_loops_terminate:
  assumes "consumes ap"
  shows "(\<exists>e. parse_argv api ap meta safe args st = Some e) \<and> (\<exists>r. injectargs api ap s oss st = Some r)"
proof
  have "\<exists>e. argv_loop api ap meta safe av = Some e" for av
  proof (induction "left (av_args av) (av_i av)" arbitrary: av rule: less_induct)
    case less
    then show ?case using argv_step_consumes [OF assms, of av api meta safe]
      by (subst argv_loop.simps) (auto split: argv_next.splits)
  qed
  then show "\<exists>e. parse_argv api ap meta safe args st = Some e" by (simp add: parse_argv_def)
  obtain r where "parse_injectargs api ap \<lparr>ps_ret = 0, ps_args = split_args (c_str s), ps_i = 0, ps_oss = Some oss, ps_conf = st\<rparr> = Some r"
    using parse_injectargs_returns [OF assms] by blast
  then show "\<exists>r. injectargs api ap s oss st = Some r" 
    unfolding injectargs_def Let_def case_prod_unfold by (simp only: option.case) blast
qed

text \<open>A matcher for the witnesses: the argument itself is the name, the next one its value.\<close>

definition sample_ap :: argparse where
  "sample_ap =
     \<lparr>ap_witharg = (\<lambda>args i names. if i + 1 < length args \<and> args ! i \<in> set names
        then Some (args ! (i + 1), take i args @ drop (i + 2) args, i) else None),
      ap_flag = (\<lambda>args i names. if i < length args \<and> args ! i \<in> set names then Some (take i args @ drop (i + 1) args, i) else None),
      ap_binary = (\<lambda>args i name. if i < length args \<and> args ! i = name then Some (1, [], take i args @ drop (i + 1) args, i) else None)\<rparr>"

lemma sample_consumes: "consumes sample_ap"
  by (auto simp: consumes_def sample_ap_def left_def split: if_splits)

theorem argument_loops_terminate_witness:
  "\<exists>r. injectargs sample_api sample_ap ''--num_client 5 x'' [] sample_conf = Some r"
  using argument_loops_terminate [OF sample_consumes, of sample_api True True "[]" sample_conf "''--num_client 5 x''" "[]"] by blast

section \<open>All runs of a configuration\<close>

lemma conf_ok_parse_value:
  assumes "distinct (map fst (ca_opts api))" "opt \<in> set (ca_opts api)" "conf_ok api st"
  shows "conf_ok api (ps_conf (parse_value api opt v args i oss st))"
  using assms conf_ok_impl [OF assms(1), of "fst opt" "snd opt" st "c_str v"] by (auto simp: parse_value_def split: prod.splits)

lemma conf_ok_parse_subsys:
  "conf_ok api st \<Longrightarrow> parse_subsys api ap ks args i oss st = Some r \<Longrightarrow> conf_ok api (ps_conf r)"
  by (induction ks) (auto simp: Let_def split: option.splits list.splits)

lemma conf_ok_parse_table:
  assumes "distinct (map fst (ca_opts api))" "conf_ok api st" "set opts \<subseteq> set (ca_opts api)"
  shows "conf_ok api (ps_conf (parse_table api ap opts args i oss st))"
  using assms(3)
proof (induction opts)
  case (Cons opt opts)
  then have o: "opt \<in> set (ca_opts api)" by simp
  have "conf_ok api (snd (set_val_impl api v opt st))" for v
    using conf_ok_impl [OF assms(1), of "fst opt" "snd opt" st v] o assms(2) by simp
  then show ?case using Cons assms(2) conf_ok_parse_value [OF assms(1) o assms(2)]
    by (auto simp: Let_def split: option.splits)
qed (simp add: assms(2))

lemma conf_ok_parse_option:
  assumes "distinct (map fst (ca_opts api))" "conf_ok api st"
  shows "conf_ok api (ps_conf (parse_option api ap args i oss st))"
  using conf_ok_parse_subsys [OF assms(2)] conf_ok_parse_table [OF assms order_refl]
  by (auto simp: parse_option_def split: option.splits)

lemma conf_ok_injected:
  assumes "distinct (map fst (ca_opts api))" "parse_injectargs api ap ps = Some r" "conf_ok api (ps_conf ps)"
  shows "conf_ok api (ps_conf r)"
proof -
  have "distinct (map fst (ca_opts api)) \<longrightarrow> conf_ok api (ps_conf ps) \<longrightarrow> conf_ok api (ps_conf r)"
    using assms(2)
  proof (rule parse_injectargs.raw_induct [rotated])
    fix inj :: "('a, 'b, 'c) conf_api \<Rightarrow> argparse \<Rightarrow> ('a, 'b, 'c) parse_state \<Rightarrow> ('a, 'b, 'c) parse_state option" and api ap ps r
    assume IH: "\<And>api ap ps r. inj api ap ps = Some r \<Longrightarrow>
        distinct (map fst (ca_opts api)) \<longrightarrow> conf_ok api (ps_conf ps) \<longrightarrow> conf_ok api (ps_conf r)"
      and body: "(if length (ps_args ps) \<le> ps_i ps then Some ps
        else let r = parse_option api ap (ps_args ps) (ps_i ps) (ps_oss ps) (ps_conf ps)
             in inj api ap (r\<lparr>ps_ret := if ps_ret r < 0 then ps_ret r else ps_ret ps\<rparr>)) = Some r"
    show "distinct (map fst (ca_opts api)) \<longrightarrow> conf_ok api (ps_conf ps) \<longrightarrow> conf_ok api (ps_conf r)"
    proof (intro impI)
      assume d: "distinct (map fst (ca_opts api))" and ok: "conf_ok api (ps_conf ps)"
      show "conf_ok api (ps_conf r)"
      proof (cases "length (ps_args ps) \<le> ps_i ps")
        case False
        then show ?thesis using body IH d conf_ok_parse_option [OF d ok] by (fastforce simp: Let_def)
      qed (use body ok in simp)
    qed
  qed
  then show ?thesis using assms(1,3) by blast
qed

lemma conf_ok_or_die:
  assumes "distinct (map fst (ca_opts api))" "conf_ok api st" "set_val_or_die api meta safe k v st = Some st'"
  shows "conf_ok api st'"
  using conf_ok_set_val [OF assms(1,2), of "Some k" "Some v" meta safe] assms(3)
  by (auto simp: set_val_or_die_def split: prod.splits if_splits)

lemma conf_ok_all_or_die:
  "distinct (map fst (ca_opts api)) \<Longrightarrow> conf_ok api st \<Longrightarrow> set_all_or_die api meta safe kvs st = Some st' \<Longrightarrow> conf_ok api st'"
proof (induction kvs arbitrary: st)
  case (Cons kv kvs)
  then show ?case using conf_ok_or_die by (cases kv) (fastforce split: option.splits)
qed simp

lemma conf_ok_argv_named:
  assumes "distinct (map fst (ca_opts api))" "conf_ok api (av_conf av)" "argv_named api ap meta safe os av = Next av'"
  shows "conf_ok api (av_conf av')"
  using assms(3)
proof (induction os)
  case Nil
  then show ?case using conf_ok_parse_option [OF assms(1,2)] by (auto simp: Let_def)
next
  case (Cons p os)
  then show ?case using conf_ok_or_die [OF assms(1,2)] by (cases p) (auto simp: go_on_def split: option.splits)
qed

lemma conf_ok_argv_step:
  assumes "distinct (map fst (ca_opts api))" "conf_ok api (av_conf av)" "argv_step api ap meta safe av = Next av'"
  shows "conf_ok api (av_conf av')"
  using assms(3) conf_ok_argv_named [OF assms(1,2), of ap meta safe short_options av'] conf_ok_or_die [OF assms(1,2)]
    conf_ok_all_or_die [OF assms(1,2)] assms(2)
  unfolding argv_step_def Let_def go_on_def by (auto simp del: set_all_or_die.simps split: option.splits if_splits)

lemma conf_ok_argv_loop:
  assumes "distinct (map fst (ca_opts api))" "argv_loop api ap meta safe av = Some (Returned ret args st)" "conf_ok api (av_conf av)"
  shows "conf_ok api st"
proof -
  have fin: "argv_finish api av = Returned ret args st \<Longrightarrow> st = av_conf av" for api :: "('a, 'b, 'c) conf_api" and av ret args st
    by (auto simp: argv_finish_def split: if_splits option.splits prod.splits)
  have "\<forall>ret args st. distinct (map fst (ca_opts api)) \<longrightarrow> conf_ok api (av_conf av) \<longrightarrow> e = Returned ret args st \<longrightarrow> conf_ok api st"
    if "argv_loop api ap meta safe av = Some e" for e
    using that
  proof (rule argv_loop.raw_induct [rotated])
    fix loop :: "('a, 'b, 'c) conf_api \<Rightarrow> argparse \<Rightarrow> bool \<Rightarrow> bool \<Rightarrow> ('a, 'b, 'c) argv_state \<Rightarrow> ('a, 'b, 'c) argv_end option"
      and api ap meta safe av e
    assume IH: "\<And>api ap meta safe av e. loop api ap meta safe av = Some e \<Longrightarrow>
        \<forall>ret args st. distinct (map fst (ca_opts api)) \<longrightarrow> conf_ok api (av_conf av) \<longrightarrow> e = Returned ret args st \<longrightarrow> conf_ok api st"
      and body: "(if length (av_args av) \<le> av_i av then Some (argv_finish api av)
        else (case argv_step api ap meta safe av of Leave \<Rightarrow> Some (argv_finish api av) | Die \<Rightarrow> Some Aborted
              | ExitNow \<Rightarrow> Some (Exited 0 []) | Next av' \<Rightarrow> loop api ap meta safe av')) = Some e"
    show "\<forall>ret args st. distinct (map fst (ca_opts api)) \<longrightarrow> conf_ok api (av_conf av) \<longrightarrow> e = Returned ret args st \<longrightarrow> conf_ok api st"
    proof (intro allI impI)
      fix ret args st
      assume d: "distinct (map fst (ca_opts api))" and ok: "conf_ok api (av_conf av)" and e: "e = Returned ret args st"
      show "conf_ok api st"
        using body e IH d ok conf_ok_argv_step [OF d ok] fin [of api av ret args st]
        by (auto split: if_splits argv_next.splits)
    qed
  qed
  then show ?thesis using assms by blast
qed

text \<open>One call on the object. The arguments of the calls are arbitrary.\<close>

inductive conf_step :: "('a, 'u, 's) conf_api \<Rightarrow> ('a, 'u, 's) conf \<Rightarrow> ('a, 'u, 's) conf \<Rightarrow> bool" for api where
  step_set: "set_val api key val meta safe st = (ret, st', err) \<Longrightarrow> conf_step api st st'"
| step_files: "parse_config_files api (cp :: nat conf_files) files env nodef errs st = (ret, st', w, errs') \<Longrightarrow> conf_step api st st'"
| step_lookup: "get_val_from_conf_file api (cp :: nat conf_files) f ss key emeta st = (ret, v, st', err) \<Longrightarrow> conf_step api st st'"
| step_env: "parse_env api meta safe keyring st = Some st' \<Longrightarrow> conf_step api st st'"
| step_argv: "parse_argv api ap meta safe args st = Some (Returned ret args' st') \<Longrightarrow> conf_step api st st'"
| step_inject: "injectargs api ap s oss st = Some (ret, st', calls, oss', err) \<Longrightarrow> conf_step api st st'"
| step_apply: "apply_changes api oss st = (st', calls, oss', err) \<Longrightarrow> conf_step api st st'"
| step_call_all: "call_all_observers api st = (st', calls, err) \<Longrightarrow> conf_step api st st'"
| step_add: "conf_step api st (add_observer keys obs st)"
| step_remove: "remove_observer obs st = Some st' \<Longrightarrow> conf_step api st st'"

inductive conf_run :: "('a, 'u, 's) conf_api \<Rightarrow> opt_row list \<Rightarrow> ('a, 'u, 's) conf \<Rightarrow> bool" for api rows where
  run_new: "conf_run api rows (md_config_new rows a0 u0 add s0)"
| run_step: "conf_run api rows st \<Longrightarrow> conf_step api st st' \<Longrightarrow> conf_run api rows st'"

lemma conf_ok_apply:
  assumes "distinct (map fst (ca_opts api))" "conf_ok api st" "apply_changes api oss st = (st', calls, oss', err)"
  shows "conf_ok api st'"
  using conf_ok_strings_only [OF assms(1,2) expand_all_strings_only] apply_changes_parts(2) [OF assms(3)]
  by (simp add: conf_ok_def typed_def)

lemma conf_ok_inject:
  assumes d: "distinct (map fst (ca_opts api))" and ok: "conf_ok api st" and "injectargs api ap s oss st = Some (ret, st', calls, oss', err)"
  shows "conf_ok api st'"
proof -
  obtain ps oss1 where p: "parse_injectargs api ap \<lparr>ps_ret = 0, ps_args = split_args (c_str s), ps_i = 0, ps_oss = Some oss, ps_conf = st\<rparr> = Some ps"
    and a: "apply_changes api oss1 (ps_conf ps) = (st', calls, oss', err)"
    using assms(3) unfolding injectargs_def Let_def by (auto split: option.splits prod.splits if_splits)
  have "conf_ok api (ps_conf ps)" using conf_ok_injected [OF d p] ok by simp
  from conf_ok_apply [OF d this a] show ?thesis .
qed

lemma conf_ok_observers:
  "conf_ok api st \<Longrightarrow> sorted (map fst os) \<Longrightarrow> conf_ok api (st\<lparr>cf_observers := os\<rparr>)"
  by (simp add: conf_ok_def typed_def)

lemma conf_ok_step:
  assumes d: "distinct (map fst (ca_opts api))" and "conf_step api st st'" "conf_ok api st"
  shows "conf_ok api st'"
  using assms(2,3)
proof (induction rule: conf_step.induct)
  case (step_set key val meta safe st ret st' err)
  then show ?case using conf_ok_set_val [OF d, of st key val meta safe] by simp
next
  case (step_files cp files env nodef errs st ret st' w errs')
  then show ?case using conf_ok_files [OF d, of st cp _ errs]
    unfolding parse_config_files_def by (auto split: if_splits option.splits) (metis fst_conv snd_conv)+
next
  case (step_lookup cp f ss key emeta st ret v st' err)
  then show ?case using conf_ok_strings_only [OF d _ file_strings_only [OF step_lookup(1)]] by blast
next
  case (step_env meta safe keyring st st')
  then show ?case using conf_ok_or_die [OF d] by (auto simp: parse_env_def split: if_splits option.splits)
next
  case (step_argv ap meta safe args st ret args' st')
  then show ?case using conf_ok_argv_loop [OF d] by (fastforce simp: parse_argv_def split: if_splits)
next
  case (step_inject ap s oss st ret st' calls oss' err)
  then show ?case using conf_ok_inject [OF d] by blast
next
  case (step_apply oss st st' calls oss' err)
  then show ?case using conf_ok_apply [OF d] by blast
next
  case (step_call_all st st' calls err)
  then show ?case using conf_ok_strings_only [OF d _ expand_all_strings_only, of st] by (auto simp: call_all_observers_def split: prod.splits)
next
  case (step_add st keys obs)
  have "sorted (map fst m) \<Longrightarrow> sorted (map fst (fold (\<lambda>k m. mm_insert k obs m) keys m))" for m
    by (induction keys arbitrary: m) auto
  then show ?case using step_add by (simp add: add_observer_def conf_ok_observers conf_ok_def typed_def)
next
  case (step_remove obs st st')
  have "sorted (map fst m) \<Longrightarrow> sorted (map fst (filter P m))" for m :: "(string \<times> observer) list" and P
    by (rule sorted_filter)
  then show ?case using step_remove by (auto simp: remove_observer_def conf_ok_def typed_def split: if_splits)
qed

lemma conf_ok_new:
  assumes "ca_opts api = rows_table rows" "distinct (map fst rows)"
  shows "conf_ok api (md_config_new rows a0 u0 add s0)"
proof -
  have "type_of (cf_val (md_config_new rows a0 u0 add s0) n) = t" if "(n, t) \<in> set (ca_opts api)" for n t
  proof -
    from that obtain dv where "(n, t, dv) \<in> set rows" by (auto simp: assms(1) rows_table_def)
    then have "map_of rows n = Some (t, dv)" using assms(2) by (simp add: map_of_eq_Some_iff)
    then show ?thesis by (simp add: md_config_new_def)
  qed
  then show ?thesis by (auto simp: conf_ok_def typed_def md_config_new_def)
qed

text \<open>C23: In every run of a configuration object, from its constructor through any sequence of settings, configuration
  files, command lines, injected arguments, notifications and changes of the observers, each field holds a
  value of the type its option is declared with, so that the casts of \<^verbatim>\<open>get_val\<close>, \<^verbatim>\<open>set_val_raw\<close> and \<^verbatim>\<open>expand_meta\<close> read
  what was stored; and the keys pending for observers are options.\<close>

theorem options_keep_their_types:
  assumes "conf_run api rows st" "ca_opts api = rows_table rows" "distinct (map fst rows)"
  shows "(\<forall>(n, t)\<in>set (ca_opts api). type_of (cf_val st n) = t) \<and> set (cf_changed st) \<subseteq> fst ` set (ca_opts api) \<and>
    sorted_wrt (<) (cf_changed st) \<and> sorted (map fst (cf_observers st))"
proof -
  have "map fst (ca_opts api) = map fst rows" by (simp add: assms(2) rows_table_def case_prod_unfold)
  then have d: "distinct (map fst (ca_opts api))" using assms(3) by simp
  have "conf_ok api st" using assms(1)
  proof (induction rule: conf_run.induct)
    case run_new
    then show ?case by (rule conf_ok_new [OF assms(2,3)])
  next
    case (run_step st st')
    then show ?case using conf_ok_step [OF d] by blast
  qed
  then show ?thesis by (simp add: conf_ok_def typed_def)
qed

definition sample_rows :: "opt_row list" where
  "sample_rows = [(''host'', OPT_STR, DStr ''h''), (''num_client'', OPT_INT, DInt 1), (''daemonize'', OPT_BOOL, DBool False)]"

theorem options_keep_their_types_witness:
  "let api = sample_api\<lparr>ca_opts := rows_table sample_rows\<rparr>;
       st = fst (snd (set_val api (Some ''num_client'') (Some ''12'') True True (md_config_new sample_rows () () (\<lambda>n l g s. s) 0)))
   in type_of (cf_val st ''num_client'') = OPT_INT \<and> conf_run api sample_rows st"
proof -
  let ?api = "sample_api\<lparr>ca_opts := rows_table sample_rows\<rparr>"
  let ?st0 = "md_config_new sample_rows () () (\<lambda>n l g s. s) 0"
  obtain ret st err where s: "set_val ?api (Some ''num_client'') (Some ''12'') True True ?st0 = (ret, st, err)"
    by (metis prod_cases3)
  have r: "conf_run ?api sample_rows st"
    using run_step [OF run_new step_set [OF s]] .
  have "(''num_client'', OPT_INT) \<in> set (ca_opts ?api)" by (simp add: sample_rows_def rows_table_def)
  moreover have "distinct (map fst sample_rows)" by (simp add: sample_rows_def)
  ultimately show ?thesis using options_keep_their_types [OF r] s r by auto
qed

end
