(* ===== verification/Mds_Daemon.thy ===== *)
theory Mds_Daemon
  imports Ordered_Containers
begin

text \<open>
  The daemon (\<^verbatim>\<open>src/src/mds/MDS.cc\<close>, \<^verbatim>\<open>MDS.h\<close>): its state, the states it asks the monitors for, booting and recovery, and
  the reaction to a new cluster map.

  \<^item> \<^verbatim>\<open>MDSMap\<close> is declared outside the sources: the record \<open>mdsmap\<close> holds the answers of its accessors. What is read of
    the journal, the object store client, the sessions, the cache and the configuration is in \<open>mds_env\<close>.
  \<^item> Calls on the other parts are logged in order and taken to return, so an abort in this model is one of \<^verbatim>\<open>MDS.cc\<close> itself; the
    assertions inside the parts that are called are not part of it. A completion that is handed to them is a value of \<open>mds_cont\<close>. Where a
    part calls back into the daemon, also at once, this is an event of its own, after the operation.
  \<^item> An operation is a function from the state to \<open>Inr\<close> a state, or to \<open>Inl\<close> the reason why the process has ended: a
    failed assertion, a null pointer followed, or the replacement of the process image in \<^verbatim>\<open>respawn\<close>. \<open>chain\<close> runs operations in sequence.
\<close>

section \<open>State\<close>

datatype daemon_state = STATE_NULL | STATE_DNE | STATE_STOPPED | STATE_BOOT | STATE_STANDBY | STATE_CREATING | STATE_STARTING
  | STATE_STANDBY_REPLAY | STATE_ONESHOT_REPLAY | STATE_REPLAY | STATE_RESOLVE | STATE_RECONNECT | STATE_REJOIN
  | STATE_CLIENTREPLAY | STATE_ACTIVE | STATE_STOPPING

type_synonym epoch_t = nat
type_synonym gid_t = nat
type_synonym addr_t = nat

record mdsmap =
  mm_epoch :: epoch_t
  mm_compat_writeable :: bool
  mm_rank :: "gid_t \<Rightarrow> mds_rank_t"
  mm_state :: "gid_t \<Rightarrow> daemon_state"
  mm_inc :: "gid_t \<Rightarrow> int"
  mm_info :: "(gid_t \<times> addr_t) list"
  mm_standby_for :: "gid_t \<Rightarrow> mds_rank_t"
  mm_named :: "string \<Rightarrow> gid_t"
  mm_gid :: "gid_t \<Rightarrow> gid_t"
  mm_in_state :: "daemon_state \<Rightarrow> mds_rank_t list"
  mm_failed :: "mds_rank_t list"
  mm_up :: "mds_rank_t list"
  mm_stopped :: "mds_rank_t list"
  mm_recovery :: "mds_rank_t list"
  mm_serving :: "mds_rank_t list"
  mm_have_inst :: "mds_rank_t \<Rightarrow> bool"
  mm_inst :: "mds_rank_t \<Rightarrow> addr_t"
  mm_down :: "mds_rank_t \<Rightarrow> bool"
  mm_resolving :: bool
  mm_rejoining :: bool
  mm_num_in :: nat
  mm_num_failed :: nat
  mm_tableserver :: mds_rank_t
  mm_root :: mds_rank_t
  mm_last_failure_osd_epoch :: epoch_t

datatype boot_step = MDS_BOOT_INITIAL | MDS_BOOT_OPEN_ROOT | MDS_BOOT_PREPARE_LOG | MDS_BOOT_REPLAY_DONE

datatype mds_cont = CreateFinish | BootStart boot_step | StandbyReplayRestart | StandbyReplayRestartFinish u64 | Noop

datatype mds_table = InoTable | SessionMap | SnapServer

text \<open>A call without arguments that matter is \<open>Do\<close> its name; calls that concern a peer, a table or take a completion carry
  these.\<close>

datatype mds_call = Do string | Peer string mds_rank_t | Table string mds_table | Async string mds_cont
  | BeaconWant daemon_state | BeaconMap epoch_t | SubGot epoch_t | MarkDown addr_t | SetMyName int | SetClientIncarnation int
  | Complete "context_t list" | SetRecoverySet "mds_rank_t list" | SetRank mds_table mds_rank_t | WaitForOsdMap epoch_t mds_cont
  | SkipInos nat | FinishRecovery "mds_rank_t list" | SendMapToClients epoch_t
  | SendMap mds_rank_t epoch_t addr_t | SendMsg mds_rank_t nat addr_t | SendForward nat mds_rank_t nat
  | OnDir string nat "mds_rank_t option" | BeaconInit daemon_state mds_rank_t

record mds_env =
  me_gid :: gid_t
  me_name :: string
  me_num :: "daemon_state \<Rightarrow> int"
  me_enforce_unique_name :: bool
  me_dump_cache_on_map :: bool
  me_dump_cache_after_rejoin :: bool
  me_kill_create_at :: int
  me_wipe_sessions :: bool
  me_wipe_ino_prealloc :: bool
  me_skip_ino :: nat
  me_journal_format :: int
  me_action_on_write_error :: int
  me_osd_epoch :: epoch_t
  me_osd_ready :: "epoch_t \<Rightarrow> bool"
  me_client_incarnation :: int
  me_objecter_initialized :: bool
  me_read_pos :: u64
  me_write_pos :: u64
  me_trimmed_pos :: u64
  me_stream_format :: int
  me_sessions_empty :: bool
  me_subtrees :: bool
  me_readlink_ok :: bool
  me_cwd_ok :: bool
  me_exec_ok :: bool

record mds =
  md_whoami :: mds_rank_t
  md_incarnation :: int
  md_standby_type :: daemon_state
  md_standby_replaying :: bool
  md_map :: mdsmap
  md_last_state :: daemon_state
  md_state :: daemon_state
  md_want_state :: daemon_state
  waiting_for_active :: "context_t list"
  waiting_for_replay :: "context_t list"
  waiting_for_reconnect :: "context_t list"
  waiting_for_resolve :: "context_t list"
  replay_queue :: "context_t list"
  waiting_for_active_peer :: "(mds_rank_t \<times> context_t list) list"
  waiting_for_mdsmap :: "(epoch_t \<times> context_t list) list"
  finished_queue :: "context_t list"
  peer_mdsmap_epoch :: "(mds_rank_t \<times> epoch_t) list"
  osd_epoch_barrier :: epoch_t
  last_client_mdsmap_bcast :: epoch_t
  md_hb :: bool
  md_tick_event :: bool
  md_log :: "mds_call list"

text \<open>The constructor; \<open>none\<close> is the constant for no rank, \<open>m0\<close> an empty map.\<close>

definition mds_new :: "mds_rank_t \<Rightarrow> mdsmap \<Rightarrow> mds" where
  "mds_new none m0 =
     \<lparr>md_whoami = none, md_incarnation = 0, md_standby_type = STATE_NULL, md_standby_replaying = False, md_map = m0,
      md_last_state = STATE_BOOT, md_state = STATE_BOOT, md_want_state = STATE_BOOT,
      waiting_for_active = [], waiting_for_replay = [], waiting_for_reconnect = [], waiting_for_resolve = [], replay_queue = [],
      waiting_for_active_peer = [], waiting_for_mdsmap = [], finished_queue = [], peer_mdsmap_epoch = [], osd_epoch_barrier = 0,
      last_client_mdsmap_bcast = 0, md_hb = True, md_tick_event = False, md_log = []\<rparr>"

section \<open>Sequences of operations\<close>

datatype mds_stop = AssertFailed | Respawned | NullDereference

type_synonym mds_op = "mds \<Rightarrow> mds_stop + mds"

fun chain :: "mds_op list \<Rightarrow> mds_op" where
  "chain [] s = Inr s"
| "chain (f # fs) s = (case f s of Inl e \<Rightarrow> Inl e | Inr s' \<Rightarrow> chain fs s')"

definition upd :: "(mds \<Rightarrow> mds) \<Rightarrow> mds_op" where "upd f s = Inr (f s)"
definition call :: "mds_call \<Rightarrow> mds_op" where "call c s = Inr (s\<lparr>md_log := md_log s @ [c]\<rparr>)"
definition calls_op :: "mds_call list \<Rightarrow> mds_op" where "calls_op cs s = Inr (s\<lparr>md_log := md_log s @ cs\<rparr>)"
definition provided :: "(mds \<Rightarrow> bool) \<Rightarrow> mds_op \<Rightarrow> mds_op" where "provided P f s = (if P s then f s else Inr s)"
definition branch :: "(mds \<Rightarrow> bool) \<Rightarrow> mds_op \<Rightarrow> mds_op \<Rightarrow> mds_op" where "branch P f g s = (if P s then f s else g s)"
definition require :: "(mds \<Rightarrow> bool) \<Rightarrow> mds_op" where "require P s = (if P s then Inr s else Inl AssertFailed)"

lemmas op_defs = upd_def call_def calls_op_def provided_def branch_def require_def

section \<open>Waiters\<close>

definition wait_for_active :: "context_t \<Rightarrow> mds \<Rightarrow> mds" where
  "wait_for_active c s = s\<lparr>waiting_for_active := waiting_for_active s @ [c]\<rparr>"

definition wait_for_active_peer :: "mds_rank_t \<Rightarrow> context_t \<Rightarrow> mds \<Rightarrow> mds" where
  "wait_for_active_peer who c s = s\<lparr>waiting_for_active_peer := om_set who (om_get [] who (waiting_for_active_peer s) @ [c]) (waiting_for_active_peer s)\<rparr>"

definition wait_for_replay :: "context_t \<Rightarrow> mds \<Rightarrow> mds" where
  "wait_for_replay c s = s\<lparr>waiting_for_replay := waiting_for_replay s @ [c]\<rparr>"

definition wait_for_reconnect :: "context_t \<Rightarrow> mds \<Rightarrow> mds" where
  "wait_for_reconnect c s = s\<lparr>waiting_for_reconnect := waiting_for_reconnect s @ [c]\<rparr>"

definition wait_for_resolve :: "context_t \<Rightarrow> mds \<Rightarrow> mds" where
  "wait_for_resolve c s = s\<lparr>waiting_for_resolve := waiting_for_resolve s @ [c]\<rparr>"

definition wait_for_mdsmap :: "epoch_t \<Rightarrow> context_t \<Rightarrow> mds \<Rightarrow> mds" where
  "wait_for_mdsmap e c s = s\<lparr>waiting_for_mdsmap := om_set e (om_get [] e (waiting_for_mdsmap s) @ [c]) (waiting_for_mdsmap s)\<rparr>"

definition enqueue_replay :: "context_t \<Rightarrow> mds \<Rightarrow> mds" where
  "enqueue_replay c s = s\<lparr>replay_queue := replay_queue s @ [c]\<rparr>"

definition queue_waiter :: "context_t \<Rightarrow> mds_op" where
  "queue_waiter c = chain [upd (\<lambda>s. s\<lparr>finished_queue := finished_queue s @ [c]\<rparr>), call (Do ''progress_thread.signal'')]"

definition queue_waiters :: "context_t list \<Rightarrow> mds_op" where
  "queue_waiters cs = chain [upd (\<lambda>s. s\<lparr>finished_queue := finished_queue s @ cs\<rparr>), call (Do ''progress_thread.signal'')]"

definition queue_one_replay :: mds_op where
  "queue_one_replay s =
     (case replay_queue s of [] \<Rightarrow> Inr s
      | c # cs \<Rightarrow> chain [queue_waiter c, upd (\<lambda>s. s\<lparr>replay_queue := cs\<rparr>)] s)"

text \<open>\<^verbatim>\<open>finish_contexts\<close> on one of the lists: it is emptied and its contexts are completed in order.\<close>

definition finish_active :: mds_op where
  "finish_active s = Inr (s\<lparr>waiting_for_active := [], md_log := md_log s @ [Complete (waiting_for_active s)]\<rparr>)"

definition finish_replay :: mds_op where
  "finish_replay s = Inr (s\<lparr>waiting_for_replay := [], md_log := md_log s @ [Complete (waiting_for_replay s)]\<rparr>)"

definition finish_reconnect :: mds_op where
  "finish_reconnect s = Inr (s\<lparr>waiting_for_reconnect := [], md_log := md_log s @ [Complete (waiting_for_reconnect s)]\<rparr>)"

definition finish_resolve :: mds_op where
  "finish_resolve s = Inr (s\<lparr>waiting_for_resolve := [], md_log := md_log s @ [Complete (waiting_for_resolve s)]\<rparr>)"

text \<open>One round of the first loop of \<^verbatim>\<open>_advance_queues\<close>: the queued contexts are completed in order; what they queue is the next
  round's.\<close>

definition drain_finished :: mds_op where
  "drain_finished s = Inr (s\<lparr>finished_queue := [], md_log := md_log s @ [Complete (finished_queue s)]\<rparr>)"

section \<open>Wanted state, end of the process\<close>

definition set_want_state :: "daemon_state \<Rightarrow> mds_op" where
  "set_want_state n = provided (\<lambda>s. md_want_state s \<noteq> n) (chain [upd (\<lambda>s. s\<lparr>md_want_state := n\<rparr>), call (BeaconWant n)])"

definition request_state :: "daemon_state \<Rightarrow> mds_op" where
  "request_state n = chain [set_want_state n, call (Do ''beacon.send'')]"

definition suicide :: "mds_env \<Rightarrow> mds_op" where
  "suicide e = chain
     [set_want_state STATE_DNE, call (Do ''mdlog.shutdown''), call (Do ''finisher.stop''), call (Do ''beacon.shutdown''),
      provided md_tick_event (chain [call (Do ''timer.cancel_event''), upd (\<lambda>s. s\<lparr>md_tick_event := False\<rparr>)]),
      calls_op [Do ''timer.cancel_all_events'', Do ''timer.shutdown''], call (Do ''clean_up_admin_socket''), call (Do ''mdcache.shutdown''),
      provided (\<lambda>_. me_objecter_initialized e) (call (Do ''objecter.shutdown'')),
      call (Do ''monc.shutdown''), call (Do ''op_tracker.on_shutdown''), call (Do ''progress_thread.shutdown''), call (Do ''messenger.shutdown''),
      provided md_hb (chain [call (Do ''heartbeat_map.remove_worker''), upd (\<lambda>s. s\<lparr>md_hb := False\<rparr>)])]"

text \<open>\<^verbatim>\<open>respawn\<close> returns only when \<^verbatim>\<open>execv\<close> fails.\<close>

definition respawn :: "mds_env \<Rightarrow> mds_op" where
  "respawn e = chain
     [require (\<lambda>_. me_readlink_ok e \<or> me_cwd_ok e),
      (\<lambda>s. if me_exec_ok e then Inl Respawned else suicide e s)]"

definition handle_write_error :: "mds_env \<Rightarrow> bool \<Rightarrow> mds_op" where
  "handle_write_error e blacklisted s =
     (if blacklisted then respawn e s
      else if me_action_on_write_error e \<ge> 2 then suicide e s
      else if me_action_on_write_error e = 1 then call (Do ''mdcache.force_readonly'') s
      else Inr s)"

section \<open>Booting and recovery\<close>

definition is_any_replay :: "mds \<Rightarrow> bool" where
  "is_any_replay s \<longleftrightarrow> md_state s = STATE_REPLAY \<or> md_state s = STATE_STANDBY_REPLAY \<or> md_state s = STATE_ONESHOT_REPLAY"

definition calc_recovery_set :: mds_op where
  "calc_recovery_set s = call (SetRecoverySet (filter (\<lambda>r. r \<noteq> md_whoami s) (mm_recovery (md_map s)))) s"

definition boot_create :: "mds_env \<Rightarrow> mds_op" where
  "boot_create e s = chain
     [call (Do ''mdcache.init_layouts''), calls_op [SetRank SnapServer (md_whoami s), SetRank InoTable (md_whoami s), SetRank SessionMap (md_whoami s)],
      call (Do ''mdlog.create''), call (Do ''mdlog.prepare_new_segment''),
      provided (\<lambda>s. md_whoami s = mm_root (md_map s)) (call (Do ''mdcache.create_empty_hierarchy'')),
      call (Do ''mdcache.create_mydir_hierarchy''), calls_op [Table ''reset'' InoTable, Table ''save'' InoTable], call (Table ''save'' SessionMap),
      provided (\<lambda>s. mm_tableserver (md_map s) = md_whoami s) (calls_op [Table ''reset'' SnapServer, Table ''save'' SnapServer]),
      require (\<lambda>_. me_kill_create_at e \<noteq> 1),
      call (Do ''mdlog.journal_segment_subtree_map''), call (Do ''mdlog.flush''), call (Async ''gather.activate'' CreateFinish)] s"

definition creating_done :: mds_op where
  "creating_done = request_state STATE_ACTIVE"

definition starting_done :: mds_op where
  "starting_done = chain
     [require (\<lambda>s. md_state s = STATE_STARTING), request_state STATE_ACTIVE, call (Do ''mdcache.open_root''), call (Do ''mdlog.start_new_segment'')]"

text \<open>The last pass waits for the map of the object stores that shuts the previous holder of the rank out.\<close>

definition standby_replay_restart :: "mds_env \<Rightarrow> mds_op" where
  "standby_replay_restart e = branch md_standby_replaying
     (call (Async ''journaler.reread_head_and_probe'' (StandbyReplayRestartFinish (me_read_pos e))))
     (\<lambda>s. let ep = mm_last_failure_osd_epoch (md_map s) in
          if me_osd_ready e ep then call (Async ''journaler.reread_head_and_probe'' (StandbyReplayRestartFinish (me_read_pos e))) s
          else call (WaitForOsdMap ep (BootStart MDS_BOOT_PREPARE_LOG)) s)"

definition replay_finish :: "mds_env \<Rightarrow> mds_op" where
  "replay_finish e = chain
     [call (Do ''journaler.set_writeable''), call (Do ''journaler.trim_tail''),
      provided (\<lambda>_. me_wipe_sessions e) (calls_op [Do ''sessionmap.wipe'', Table ''save'' SessionMap]),
      provided (\<lambda>_. me_wipe_ino_prealloc e) (calls_op [Do ''sessionmap.wipe_ino_prealloc'', Table ''save'' SessionMap]),
      provided (\<lambda>_. me_skip_ino e \<noteq> 0) (calls_op [SkipInos (me_skip_ino e), Table ''save'' InoTable]),
      branch (\<lambda>s. mm_num_in (md_map s) = 1 \<and> mm_num_failed (md_map s) = 0)
        (request_state STATE_RECONNECT) (request_state STATE_RESOLVE)]"

definition replay_done :: "mds_env \<Rightarrow> mds_op" where
  "replay_done e s =
     (if md_state s = STATE_ONESHOT_REPLAY then suicide e s
      else if md_state s = STATE_STANDBY_REPLAY then
        chain [require md_standby_replaying, call (Async ''timer.add_event_after'' StandbyReplayRestart)] s
      else if md_standby_replaying s then
        chain [upd (\<lambda>s. s\<lparr>md_standby_replaying := False\<rparr>), standby_replay_restart e] s
      else
        chain [require (\<lambda>_. me_read_pos e = me_write_pos e), require (\<lambda>s. md_state s \<noteq> STATE_STANDBY_REPLAY),
               branch (\<lambda>_. me_stream_format e < me_journal_format e)
                 (call (Async ''mdlog.reopen'' (BootStart MDS_BOOT_REPLAY_DONE))) (replay_finish e)] s)"

text \<open>The steps of \<^verbatim>\<open>boot_start\<close>. \<open>r\<close> is the result of the step before; \<open>eagain\<close> says that it is \<^verbatim>\<open>-EAGAIN\<close>.\<close>

fun boot_run :: "mds_env \<Rightarrow> boot_step \<Rightarrow> mds_op" where
  "boot_run e MDS_BOOT_INITIAL s = chain
     [call (Do ''mdcache.init_layouts''), calls_op [SetRank InoTable (md_whoami s), Table ''load'' InoTable],
      calls_op [SetRank SessionMap (md_whoami s), Table ''load'' SessionMap], call (Do ''mdlog.open''),
      provided (\<lambda>s. mm_tableserver (md_map s) = md_whoami s) (calls_op [SetRank SnapServer (md_whoami s), Table ''load'' SnapServer]),
      call (Async ''gather.activate'' (BootStart MDS_BOOT_OPEN_ROOT))] s"
| "boot_run e MDS_BOOT_OPEN_ROOT s = chain
     [call (Do ''mdcache.open_mydir_inode''),
      branch (\<lambda>s. md_state s = STATE_STARTING \<or> md_whoami s = mm_root (md_map s)) (call (Do ''mdcache.open_root_inode'')) (call (Do ''mdcache.create_root_inode'')),
      call (Async ''gather.activate'' (BootStart MDS_BOOT_PREPARE_LOG))] s"
| "boot_run e MDS_BOOT_PREPARE_LOG s = branch is_any_replay
     (call (Async ''mdlog.replay'' (BootStart MDS_BOOT_REPLAY_DONE))) (chain [call (Do ''mdlog.append''), starting_done]) s"
| "boot_run e MDS_BOOT_REPLAY_DONE s = chain [require is_any_replay, replay_done e] s"

definition boot_start :: "mds_env \<Rightarrow> boot_step \<Rightarrow> int \<Rightarrow> bool \<Rightarrow> mds_op" where
  "boot_start e step r eagain s =
     (if r < 0 \<and> \<not> (md_state s = STATE_STANDBY_REPLAY \<and> eagain) then suicide e s
      else chain
        [provided (\<lambda>_. r < 0) (respawn e), require (\<lambda>s. md_state s = STATE_STARTING \<or> is_any_replay s), boot_run e step] s)"

definition standby_replay_restart_finish :: "mds_env \<Rightarrow> int \<Rightarrow> bool \<Rightarrow> u64 \<Rightarrow> mds_op" where
  "standby_replay_restart_finish e r eagain old_read_pos s =
     (if old_read_pos < me_trimmed_pos e then respawn e s
      else chain [call (Do ''mdlog.standby_trim_segments''), boot_start e MDS_BOOT_PREPARE_LOG r eagain] s)"

definition replay_start :: "mds_env \<Rightarrow> mds_op" where
  "replay_start e = chain
     [provided (\<lambda>s. md_state s = STATE_STANDBY_REPLAY) (upd (\<lambda>s. s\<lparr>md_standby_replaying := True\<rparr>)),
      upd (\<lambda>s. s\<lparr>md_standby_type := STATE_NULL\<rparr>), calc_recovery_set,
      (\<lambda>s. let ep = mm_last_failure_osd_epoch (md_map s) in
           if me_osd_ready e ep then boot_start e MDS_BOOT_INITIAL 0 False s
           else call (WaitForOsdMap ep (BootStart MDS_BOOT_INITIAL)) s)]"

definition reopen_log :: mds_op where
  "reopen_log = call (Do ''mdcache.rollback_uncommitted_fragments'')"

definition resolve_start :: mds_op where
  "resolve_start = chain [reopen_log, call (Do ''mdcache.resolve_start''), finish_resolve]"

definition resolve_done :: mds_op where
  "resolve_done = request_state STATE_RECONNECT"

definition reconnect_start :: mds_op where
  "reconnect_start = chain
     [provided (\<lambda>s. md_last_state s = STATE_REPLAY) reopen_log, call (Do ''server.reconnect_clients''), finish_reconnect]"

definition reconnect_done :: mds_op where
  "reconnect_done = request_state STATE_REJOIN"

definition rejoin_joint_start :: mds_op where
  "rejoin_joint_start = call (Do ''mdcache.rejoin_send_rejoins'')"

definition rejoin_start :: mds_op where
  "rejoin_start = call (Do ''mdcache.rejoin_start'')"

definition rejoin_done :: "mds_env \<Rightarrow> mds_op" where
  "rejoin_done e = chain
     [calls_op [Do ''mdcache.show_subtrees'', Do ''mdcache.show_cache''],
      (\<lambda>s. if \<not> me_subtrees e then request_state STATE_STOPPED s
           else if replay_queue s = [] then request_state STATE_ACTIVE s
           else request_state STATE_CLIENTREPLAY s)]"

definition clientreplay_start :: mds_op where
  "clientreplay_start = chain [finish_replay, queue_one_replay]"

definition clientreplay_done :: mds_op where
  "clientreplay_done = request_state STATE_ACTIVE"

definition active_start :: mds_op where
  "active_start = chain
     [provided (\<lambda>s. md_last_state s = STATE_CREATING) (call (Do ''mdcache.open_root'')),
      call (Do ''mdcache.clean_open_file_lists''), call (Do ''mdcache.export_remaining_imported_caps''), finish_replay, finish_active]"

definition recovery_done :: "daemon_state \<Rightarrow> mds_op" where
  "recovery_done oldstate = chain
     [require (\<lambda>s. md_state s = STATE_CLIENTREPLAY \<or> md_state s = STATE_ACTIVE),
      provided (\<lambda>s. mm_tableserver (md_map s) = md_whoami s) (\<lambda>s. call (FinishRecovery (mm_serving (md_map s))) s),
      provided (\<lambda>_. oldstate \<noteq> STATE_CREATING)
        (calls_op [Do ''mdcache.start_recovered_truncates'', Do ''mdcache.do_file_recover'', Do ''mdcache.reissue_all_caps'', Do ''mdcache.populate_mydir''])]"

definition handle_mds_recovery :: "mds_rank_t \<Rightarrow> mds_op" where
  "handle_mds_recovery who = chain
     [call (Peer ''mdcache.handle_mds_recovery'' who),
      provided (\<lambda>s. mm_tableserver (md_map s) = md_whoami s) (call (Peer ''snapserver.handle_mds_recovery'' who)),
      (\<lambda>s. queue_waiters (om_get [] who (waiting_for_active_peer s)) s),
      upd (\<lambda>s. s\<lparr>waiting_for_active_peer := om_erase who (waiting_for_active_peer s)\<rparr>)]"

definition handle_mds_failure :: "mds_rank_t \<Rightarrow> mds_op" where
  "handle_mds_failure who = provided (\<lambda>s. who \<noteq> md_whoami s) (calls_op [Peer ''mdcache.handle_mds_failure'' who, Peer ''snapclient.handle_mds_failure'' who])"

definition stopping_start :: "mds_env \<Rightarrow> mds_op" where
  "stopping_start e = chain
     [provided (\<lambda>s. mm_num_in (md_map s) = 1 \<and> \<not> me_sessions_empty e) (suicide e), call (Do ''mdcache.shutdown_start'')]"

definition stopping_done :: mds_op where
  "stopping_done = request_state STATE_STOPPED"

definition bcast_mds_map :: mds_op where
  "bcast_mds_map = chain
     [(\<lambda>s. call (SendMapToClients (mm_epoch (md_map s))) s), upd (\<lambda>s. s\<lparr>last_client_mdsmap_bcast := mm_epoch (md_map s)\<rparr>)]"

definition set_osd_epoch_barrier :: "epoch_t \<Rightarrow> mds_op" where
  "set_osd_epoch_barrier ep = upd (\<lambda>s. s\<lparr>osd_epoch_barrier := ep\<rparr>)"

section \<open>A new cluster map\<close>

record map_msg =
  mp_epoch :: epoch_t
  mp_from_mds :: "mds_rank_t option"
  mp_map :: mdsmap

definition note_peer_epoch :: "map_msg \<Rightarrow> mds \<Rightarrow> mds" where
  "note_peer_epoch m s =
     (case mp_from_mds m of None \<Rightarrow> s
      | Some p \<Rightarrow> s\<lparr>peer_mdsmap_epoch := om_set p (max (om_get 0 p (peer_mdsmap_epoch s)) (mp_epoch m)) (peer_mdsmap_epoch s)\<rparr>)"

text \<open>Peers that are no longer in the map; the ranks in one of several states.\<close>

definition removed_addrs :: "mdsmap \<Rightarrow> mdsmap \<Rightarrow> addr_t list" where
  "removed_addrs old new = map snd (filter (\<lambda>p. map_of (mm_info new) (fst p) = None) (mm_info old))"

definition ranks_in :: "mdsmap \<Rightarrow> daemon_state list \<Rightarrow> mds_rank_t list" where
  "ranks_in m sts = fold (\<lambda>st acc. fold os_insert (mm_in_state m st) acc) sts []"

definition newly :: "mds_rank_t list \<Rightarrow> mds_rank_t list \<Rightarrow> mds_rank_t list" where
  "newly old new = filter (\<lambda>r. r \<notin> set old) new"

definition identify :: "mds_env \<Rightarrow> mds_op" where
  "identify e = upd (\<lambda>s. s\<lparr>md_whoami := mm_rank (md_map s) (me_gid e), md_state := mm_state (md_map s) (me_gid e),
     md_incarnation := mm_inc (md_map s) (me_gid e)\<rparr>)"

text \<open>The daemon is not in the map and does not replay for another.\<close>

definition dropped_out :: "mds_env \<Rightarrow> mds_op" where
  "dropped_out e s =
     (if md_want_state s = STATE_STANDBY then chain [upd (\<lambda>s. s\<lparr>md_state := STATE_BOOT\<rparr>), set_want_state STATE_BOOT] s
      else if md_want_state s = STATE_BOOT then Inr s
      else
        let existing = mm_named (md_map s) (me_name e) in
        if me_enforce_unique_name e \<and> existing \<noteq> 0 \<and> mm_gid (md_map s) existing > me_gid e then suicide e s
        else respawn e s)"

text \<open>The state has changed: start what belongs to the new one. \<open>old\<close> is the daemon before the map.\<close>

definition enter_state :: "mds_env \<Rightarrow> mds \<Rightarrow> mds_op" where
  "enter_state e old s =
     (if md_state s = STATE_ACTIVE then active_start s
      else if is_any_replay s then replay_start e s
      else if md_state s = STATE_RESOLVE then resolve_start s
      else if md_state s = STATE_RECONNECT then reconnect_start s
      else if md_state s = STATE_REJOIN then rejoin_start s
      else if md_state s = STATE_CLIENTREPLAY then clientreplay_start s
      else if md_state s = STATE_CREATING then boot_create e s
      else if md_state s = STATE_STARTING then boot_start e MDS_BOOT_INITIAL 0 False s
      else if md_state s = STATE_STOPPING then
        chain [require (\<lambda>_. md_state old = STATE_ACTIVE), stopping_start e] s
      else Inr s)"

definition state_changed :: "mds_env \<Rightarrow> mds \<Rightarrow> mds_op" where
  "state_changed e old = chain
     [(\<lambda>s. set_want_state (md_state s) s),
      branch (\<lambda>_. md_state old = STATE_STANDBY_REPLAY)
        (require (\<lambda>s. md_state s = STATE_REPLAY))
        (chain
          [provided (\<lambda>s. md_state s \<in> {STATE_ACTIVE, STATE_CLIENTREPLAY} \<and>
               md_state old \<in> {STATE_CREATING, STATE_REJOIN, STATE_RECONNECT}) (recovery_done (md_state old)),
           enter_state e old])]"

definition set_my_name :: "mds_env \<Rightarrow> mds \<Rightarrow> mds_op" where
  "set_my_name e old = provided (\<lambda>s. md_whoami old \<noteq> md_whoami s \<or> md_state old \<noteq> md_state s)
     (\<lambda>s. if md_state s \<in> {STATE_STANDBY_REPLAY, STATE_ONESHOT_REPLAY} then call (SetMyName (int (me_gid e))) s
          else call (SetMyName (md_whoami s)) s)"

definition peers_resolve :: "mds \<Rightarrow> mds_op" where
  "peers_resolve old = provided
     (\<lambda>s. md_state s \<in> {STATE_RESOLVE, STATE_RECONNECT, STATE_REJOIN, STATE_CLIENTREPLAY, STATE_ACTIVE, STATE_STOPPING} \<and>
          \<not> mm_resolving (md_map old) \<and> mm_resolving (md_map s))
     (chain [calc_recovery_set, call (Do ''mdcache.send_resolves'')])"

definition kick_peers :: "mds \<Rightarrow> mds_op" where
  "kick_peers old s =
     (let sts = [STATE_ACTIVE, STATE_CLIENTREPLAY, STATE_REJOIN]
      in calls_op (concat (map (\<lambda>r. [Peer ''mdcache.kick_discovers'' r, Peer ''mdcache.kick_open_ino_peers'' r])
           (filter (\<lambda>r. r \<noteq> md_whoami s) (newly (ranks_in (md_map old) sts) (ranks_in (md_map s) sts))))) s)"

definition peers_rejoin :: "mds_env \<Rightarrow> mds \<Rightarrow> mds_op" where
  "peers_rejoin e old = provided (\<lambda>s. md_state s \<in> {STATE_REJOIN, STATE_CLIENTREPLAY, STATE_ACTIVE, STATE_STOPPING})
     (chain
       [provided (\<lambda>s. \<not> mm_rejoining (md_map old) \<and> mm_rejoining (md_map s)) rejoin_joint_start,
        provided (\<lambda>s. me_dump_cache_after_rejoin e \<and> mm_rejoining (md_map old) \<and> \<not> mm_rejoining (md_map s)) (call (Do ''mdcache.dump_cache'')),
        provided (\<lambda>_. me_num e (md_state old) \<ge> me_num e STATE_REJOIN) (kick_peers old)])"

definition peers_recover :: "mds_env \<Rightarrow> mds \<Rightarrow> mds_op" where
  "peers_recover e old = provided
     (\<lambda>s. me_num e (md_state old) \<ge> me_num e STATE_CLIENTREPLAY \<and>
          md_state s \<in> {STATE_CLIENTREPLAY, STATE_ACTIVE, STATE_STOPPING})
     (\<lambda>s. let sts = [STATE_ACTIVE, STATE_CLIENTREPLAY]
          in chain (map handle_mds_recovery
               (filter (\<lambda>r. r \<noteq> md_whoami s) (newly (ranks_in (md_map old) sts) (ranks_in (md_map s) sts)))) s)"

definition peer_fails :: "mds \<Rightarrow> mds_rank_t \<Rightarrow> mds_op" where
  "peer_fails old r = chain [call (MarkDown (mm_inst (md_map old) r)), handle_mds_failure r]"

definition peers_fail :: "mds \<Rightarrow> mds_op" where
  "peers_fail old s = chain
     (map (peer_fails old) (newly (mm_failed (md_map old)) (mm_failed (md_map s))) @
      map (peer_fails old) (filter (\<lambda>r. mm_have_inst (md_map old) r \<and> mm_inst (md_map old) r \<noteq> mm_inst (md_map s) r) (mm_up (md_map s)))) s"

definition peers_stop :: "mds \<Rightarrow> mds_op" where
  "peers_stop old = provided (\<lambda>s. md_state s \<in> {STATE_CLIENTREPLAY, STATE_ACTIVE, STATE_STOPPING})
     (\<lambda>s. calls_op (map (Peer ''migrator.handle_mds_failure_or_stop'') (newly (mm_stopped (md_map old)) (mm_stopped (md_map s)))) s)"

text \<open>The waiters for an epoch up to that of the map, in the order of the epochs.\<close>

definition finish_mdsmap :: mds_op where
  "finish_mdsmap s =
     (let due = takeWhile (\<lambda>p. fst p \<le> mm_epoch (md_map s)) (waiting_for_mdsmap s);
          rest = dropWhile (\<lambda>p. fst p \<le> mm_epoch (md_map s)) (waiting_for_mdsmap s)
      in Inr (s\<lparr>waiting_for_mdsmap := rest, md_log := md_log s @ map (\<lambda>p. Complete (snd p)) due\<rparr>))"

definition follow_map :: "mds_env \<Rightarrow> mds \<Rightarrow> mds_op" where
  "follow_map e old = chain
     [set_my_name e old,
      provided (\<lambda>s. me_client_incarnation e \<noteq> md_incarnation s) (\<lambda>s. call (SetClientIncarnation (md_incarnation s)) s),
      provided (\<lambda>_. me_dump_cache_on_map e) (call (Do ''mdcache.dump_cache'')),
      provided (\<lambda>s. md_state old \<noteq> md_state s) (state_changed e old),
      peers_resolve old, peers_rejoin e old, peers_recover e old, peers_fail old, peers_stop old,
      provided (\<lambda>s. \<not> is_any_replay s) (call (Do ''balancer.try_rebalance'')),
      finish_mdsmap,
      provided (\<lambda>s. md_state s = STATE_ACTIVE) (set_osd_epoch_barrier (me_osd_epoch e))]"

definition adopt_state :: "mds_env \<Rightarrow> mds \<Rightarrow> mds_op" where
  "adopt_state e old s =
     (if md_state s = STATE_STANDBY then
        chain [set_want_state STATE_STANDBY, provided (\<lambda>s. me_num e (md_standby_type s) \<noteq> 0) (\<lambda>s. request_state (md_standby_type s) s)] s
      else if md_state s = STATE_STANDBY_REPLAY \<and> md_standby_type s \<noteq> STATE_NULL \<and> md_standby_type s \<noteq> STATE_STANDBY_REPLAY then
        chain [(\<lambda>s. set_want_state (md_standby_type s) s), call (Do ''beacon.send''), upd (\<lambda>s. s\<lparr>md_state := md_state old\<rparr>)] s
      else if md_whoami s < 0 \<and> md_state s \<notin> {STATE_STANDBY_REPLAY, STATE_ONESHOT_REPLAY} then dropped_out e s
      else chain
        [provided (\<lambda>s. md_whoami s < 0) (upd (\<lambda>s. s\<lparr>md_whoami := mm_standby_for (md_map s) (me_gid e)\<rparr>)), follow_map e old] s)"

definition take_map :: "mds_env \<Rightarrow> mdsmap \<Rightarrow> mds \<Rightarrow> mds_op" where
  "take_map e m old = chain
     [upd (\<lambda>s. s\<lparr>md_map := m\<rparr>), call (SubGot (mm_epoch m)),
      branch (\<lambda>_. \<not> mm_compat_writeable m) (suicide e)
        (chain
          [identify e, calls_op (map MarkDown (removed_addrs (md_map old) m)),
           provided (\<lambda>s. md_state s \<noteq> md_state old) (upd (\<lambda>s. s\<lparr>md_last_state := md_state old\<rparr>)),
           adopt_state e old]),
      call (BeaconMap (mm_epoch m))]"

definition handle_mds_map :: "mds_env \<Rightarrow> map_msg \<Rightarrow> mds_op" where
  "handle_mds_map e m s =
     (let s1 = note_peer_epoch m s in
      if mp_epoch m \<le> mm_epoch (md_map s1) then Inr s1 else take_map e (mp_map m) s1 s1)"

end
