(* ===== verification/Mds_Contract.thy ===== *)
theory Mds_Contract
  imports Mds_Daemon
begin

text \<open>
  What all operations of the daemon have in common, stated once. A relation between the states before and after that is reflexive and
  transitive goes through sequences (\<open>step_preorder\<close>); if it also admits the elementary steps (\<open>daemon_step\<close>) every operation of the
  daemon stays inside it. The two locales are interpreted on the accounts of the waiters, on the log with the known epochs of the
  peers, and on what the phases of a map leave alone.
\<close>

definition stays :: "(mds \<Rightarrow> mds \<Rightarrow> bool) \<Rightarrow> mds_op \<Rightarrow> bool" where
  "stays R f \<longleftrightarrow> (\<forall>s s'. f s = Inr s' \<longrightarrow> R s s')"

lemma staysD: "stays R f \<Longrightarrow> f s = Inr s' \<Longrightarrow> R s s'"
  by (simp add: stays_def)

lemma staysI: "(\<And>s s'. f s = Inr s' \<Longrightarrow> R s s') \<Longrightarrow> stays R f"
  by (simp add: stays_def)

text \<open>Operations that read the state to choose what they do.\<close>

lemma stays_read: "(\<And>x. stays R (f x)) \<Longrightarrow> stays R (\<lambda>s. f (g s) s)"
  by (simp add: stays_def)

lemma stays_Inl [simp]: "stays R (\<lambda>s. Inl x)"
  by (simp add: stays_def)

lemma stays_if [simp]: "stays R f \<Longrightarrow> stays R g \<Longrightarrow> stays R (\<lambda>s. if P s then f s else g s)"
  by (auto simp: stays_def)

lemma stays_branch [simp]: "stays R f \<Longrightarrow> stays R g \<Longrightarrow> stays R (branch P f g)"
  unfolding branch_def [abs_def] by (rule stays_if)

section \<open>Relations that go through sequences\<close>

locale step_preorder =
  fixes R :: "mds \<Rightarrow> mds \<Rightarrow> bool"
  assumes refl: "R s s"
    and trans: "R s t \<Longrightarrow> R t u \<Longrightarrow> R s u"
begin

lemma chain_Nil [simp]: "stays R (chain [])"
  by (simp add: stays_def refl)

lemma chain_Cons [simp]:
  assumes "stays R f" "stays R (chain fs)"
  shows "stays R (chain (f # fs))"
proof (rule staysI)
  fix s s'
  assume "chain (f # fs) s = Inr s'"
  then obtain t where "f s = Inr t" "chain fs t = Inr s'" by (cases "f s") auto
  then show "R s s'" using assms [THEN staysD] trans by blast
qed

lemma chain_all: "(\<And>f. f \<in> set fs \<Longrightarrow> stays R f) \<Longrightarrow> stays R (chain fs)"
  by (induction fs) auto

lemma each_read: "(\<And>x. stays R (f x)) \<Longrightarrow> stays R (\<lambda>s. chain (map f (xs s)) s)"
  by (rule stays_read [where f = "\<lambda>ys. chain (map f ys)"]) (rule chain_all, auto)

lemma keep_Inr [simp]: "stays R Inr"
  by (simp add: stays_def refl)

lemma keep_provided [simp]: "stays R f \<Longrightarrow> stays R (provided P f)"
  unfolding provided_def [abs_def] by (rule stays_if) simp_all

lemma keep_require [simp]: "stays R (require P)"
  by (simp add: stays_def require_def refl)

end

declare chain.simps [simp del]

section \<open>Relations that admit the elementary steps\<close>

fun completes :: "mds_call \<Rightarrow> context_t list" where
  "completes (Complete cs) = cs"
| "completes _ = []"

lemma no_completion [simp]:
  "concat (map (completes \<circ> Peer x) rs) = []" "concat (map (completes \<circ> MarkDown) as) = []"
  "concat (map completes (concat (map (\<lambda>r. [Peer x r, Peer y r]) rs))) = []"
  by (auto simp: concat_eq_Nil_conv)

locale daemon_step = step_preorder +
  assumes log_call: "concat (map completes cs) = [] \<Longrightarrow> R s (s\<lparr>md_log := md_log s @ cs\<rparr>)"
    and set_state: "R s (s\<lparr>md_state := x\<rparr>)"
    and set_want: "R s (s\<lparr>md_want_state := x\<rparr>)"
    and set_last: "R s (s\<lparr>md_last_state := x\<rparr>)"
    and set_rank: "R s (s\<lparr>md_whoami := w\<rparr>)"
    and set_place: "R s (s\<lparr>md_whoami := w, md_state := x, md_incarnation := i\<rparr>)"
    and set_map: "R s (s\<lparr>md_map := m\<rparr>)"
    and set_type: "R s (s\<lparr>md_standby_type := x\<rparr>)"
    and set_replaying: "R s (s\<lparr>md_standby_replaying := b\<rparr>)"
    and set_hb: "R s (s\<lparr>md_hb := b\<rparr>)"
    and set_tick: "R s (s\<lparr>md_tick_event := b\<rparr>)"
    and set_barrier: "R s (s\<lparr>osd_epoch_barrier := n\<rparr>)"
    and set_bcast: "R s (s\<lparr>last_client_mdsmap_bcast := n\<rparr>)"
    and end_active: "finish_active s = Inr t \<Longrightarrow> R s t"
    and end_replay: "finish_replay s = Inr t \<Longrightarrow> R s t"
    and end_reconnect: "finish_reconnect s = Inr t \<Longrightarrow> R s t"
    and end_resolve: "finish_resolve s = Inr t \<Longrightarrow> R s t"
    and end_mdsmap: "finish_mdsmap s = Inr t \<Longrightarrow> R s t"
    and end_queue: "drain_finished s = Inr t \<Longrightarrow> R s t"
    and next_replay: "queue_one_replay s = Inr t \<Longrightarrow> R s t"
    and next_peer: "chain [(\<lambda>s. queue_waiters (om_get [] who (waiting_for_active_peer s)) s),
        upd (\<lambda>s. s\<lparr>waiting_for_active_peer := om_erase who (waiting_for_active_peer s)\<rparr>)] s = Inr t \<Longrightarrow> R s t"
begin

lemma step_upd [simp]:
  "stays R (upd (\<lambda>s. s\<lparr>md_whoami := w s, md_state := x s, md_incarnation := i s\<rparr>))"
  "stays R (upd (\<lambda>s. s\<lparr>md_state := x s\<rparr>))" "stays R (upd (\<lambda>s. s\<lparr>md_want_state := x s\<rparr>))"
  "stays R (upd (\<lambda>s. s\<lparr>md_last_state := x s\<rparr>))" "stays R (upd (\<lambda>s. s\<lparr>md_whoami := w s\<rparr>))"
  "stays R (upd (\<lambda>s. s\<lparr>last_client_mdsmap_bcast := n s\<rparr>))"
  by (simp_all add: stays_def upd_def set_place set_state set_want set_last set_rank set_bcast)

lemma step_upd_const [simp]:
  "stays R (upd (md_state_update (\<lambda>_. x)))" "stays R (upd (md_want_state_update (\<lambda>_. x)))"
  "stays R (upd (md_standby_type_update (\<lambda>_. x)))" "stays R (upd (md_standby_replaying_update (\<lambda>_. b)))"
  "stays R (upd (md_hb_update (\<lambda>_. b)))" "stays R (upd (md_tick_event_update (\<lambda>_. b)))"
  "stays R (upd (osd_epoch_barrier_update (\<lambda>_. n)))" "stays R (upd (md_last_state_update (\<lambda>_. x)))"
  "stays R (upd (md_map_update (\<lambda>_. m)))"
  by (simp_all add: stays_def upd_def set_state set_want set_type set_replaying set_hb set_tick set_barrier set_last set_map)

lemma step_call [simp]:
  "completes c = [] \<Longrightarrow> stays R (call c)" "concat (map completes cs) = [] \<Longrightarrow> stays R (calls_op cs)"
  "(\<And>s. completes (c' s) = []) \<Longrightarrow> stays R (\<lambda>s. call (c' s) s)"
  "(\<And>s. concat (map completes (cs' s)) = []) \<Longrightarrow> stays R (\<lambda>s. calls_op (cs' s) s)"
  by (simp_all add: stays_def call_def calls_op_def log_call)

lemma step_ends [simp]:
  "stays R finish_active" "stays R finish_replay" "stays R finish_reconnect" "stays R finish_resolve"
  "stays R finish_mdsmap" "stays R drain_finished" "stays R queue_one_replay"
  by (rule staysI, rule end_active end_replay end_reconnect end_resolve end_mdsmap end_queue next_replay, assumption)+

lemma step_want [simp]:
  "stays R (set_want_state n)" "stays R (request_state n)"
  "stays R (\<lambda>s. set_want_state (g s) s)" "stays R (\<lambda>s. request_state (g s) s)"
proof -
  show *: "stays R (set_want_state n)" "stays R (request_state n)" for n
    by (simp_all add: set_want_state_def request_state_def)
  show "stays R (\<lambda>s. set_want_state (g s) s)" "stays R (\<lambda>s. request_state (g s) s)"
    by (rule stays_read, rule *)+
qed

end

section \<open>Every operation\<close>

context daemon_step
begin

lemma step_suicide [simp]: "stays R (suicide e)"
  by (simp add: suicide_def)

lemma step_respawn [simp]: "stays R (respawn e)"
  by (simp add: respawn_def)

lemma step_recovery [simp]: "stays R (handle_mds_recovery who)"
proof -
  have "stays R (chain [(\<lambda>s. queue_waiters (om_get [] who (waiting_for_active_peer s)) s),
      upd (\<lambda>s. s\<lparr>waiting_for_active_peer := om_erase who (waiting_for_active_peer s)\<rparr>)])"
    by (rule staysI) (rule next_peer)
  then show ?thesis unfolding handle_mds_recovery_def
    by (intro chain_Cons [of "call _"] chain_Cons [of "provided _ _"]) simp_all
qed

lemma step_calc [simp]: "stays R calc_recovery_set"
  unfolding calc_recovery_set_def [abs_def] by simp

lemma step_create [simp]: "stays R (boot_create e)"
  unfolding boot_create_def [abs_def] by (rule stays_read [where g = md_whoami]) simp

lemma step_starting [simp]: "stays R creating_done" "stays R starting_done"
  by (simp_all add: creating_done_def starting_done_def)

lemma step_restart [simp]: "stays R (standby_replay_restart e)"
  unfolding standby_replay_restart_def Let_def by simp

lemma step_replay_finish [simp]: "stays R (replay_finish e)"
  by (simp add: replay_finish_def)

lemma step_replay_done [simp]: "stays R (replay_done e)"
  unfolding replay_done_def [abs_def] by (intro stays_if) simp_all

lemma step_boot_run [simp]: "stays R (boot_run e step)"
proof (cases step)
  case MDS_BOOT_INITIAL
  show ?thesis unfolding MDS_BOOT_INITIAL boot_run.simps [abs_def] by (rule stays_read [where g = md_whoami]) simp
qed (simp_all add: boot_run.simps [abs_def])

lemma step_boot_start [simp]: "stays R (boot_start e step r eagain)"
  unfolding boot_start_def [abs_def] by (intro stays_if) simp_all

lemma step_restart_finish [simp]: "stays R (standby_replay_restart_finish e r eagain p)"
  unfolding standby_replay_restart_finish_def [abs_def] by (intro stays_if) simp_all

lemma step_replay_start [simp]: "stays R (replay_start e)"
  unfolding replay_start_def Let_def by (intro chain_Cons stays_if) simp_all

lemma step_phases [simp]:
  "stays R reopen_log" "stays R resolve_start" "stays R resolve_done" "stays R reconnect_start" "stays R reconnect_done"
  "stays R rejoin_joint_start" "stays R rejoin_start" "stays R (rejoin_done e)" "stays R clientreplay_start" "stays R clientreplay_done"
  "stays R active_start" "stays R (recovery_done os)" "stays R (handle_mds_failure who)" "stays R (stopping_start e)" "stays R stopping_done"
  "stays R bcast_mds_map" "stays R (set_osd_epoch_barrier ep)"
  by (simp_all add: reopen_log_def resolve_start_def resolve_done_def reconnect_start_def reconnect_done_def rejoin_joint_start_def
      rejoin_start_def rejoin_done_def clientreplay_start_def clientreplay_done_def active_start_def recovery_done_def
      handle_mds_failure_def stopping_start_def stopping_done_def bcast_mds_map_def set_osd_epoch_barrier_def)

lemma step_write_error [simp]: "stays R (handle_write_error e b)"
  unfolding handle_write_error_def [abs_def] by (intro stays_if) simp_all

lemma step_dropped [simp]: "stays R (dropped_out e)"
  unfolding dropped_out_def [abs_def] Let_def by (intro stays_if) simp_all

lemma step_enter [simp]: "stays R (enter_state e old)"
  unfolding enter_state_def [abs_def] by (intro stays_if) simp_all

lemma step_changed [simp]: "stays R (state_changed e old)"
  by (simp add: state_changed_def)

lemma step_my_name [simp]: "stays R (set_my_name e old)"
  unfolding set_my_name_def by simp

lemma step_kick [simp]: "stays R (kick_peers old)"
  unfolding kick_peers_def [abs_def] Let_def by simp

lemma step_peers [simp]:
  "stays R (peers_resolve old)" "stays R (peers_rejoin e old)" "stays R (peer_fails old r)" "stays R (peers_stop old)"
  by (simp_all add: peers_resolve_def peers_rejoin_def peer_fails_def peers_stop_def)

lemma step_recover [simp]: "stays R (peers_recover e old)"
  unfolding peers_recover_def Let_def by (intro keep_provided each_read) simp

lemma step_fail [simp]: "stays R (peers_fail old)"
proof -
  have "stays R (\<lambda>s. chain (map (peer_fails old) (xs s)) s)" for xs
    by (rule each_read) simp
  from this [of "\<lambda>s. newly (mm_failed (md_map old)) (mm_failed (md_map s)) @
      filter (\<lambda>r. mm_have_inst (md_map old) r \<and> mm_inst (md_map old) r \<noteq> mm_inst (md_map s) r) (mm_up (md_map s))"]
  show ?thesis by (simp add: peers_fail_def [abs_def])
qed

lemma step_follow [simp]: "stays R (follow_map e old)"
  by (simp add: follow_map_def)

lemma step_adopt [simp]: "stays R (adopt_state e old)"
  unfolding adopt_state_def [abs_def] by (intro stays_if) simp_all

lemma step_take [simp]: "stays R (take_map e m old)"
  by (simp add: take_map_def identify_def)

lemma step_map:
  assumes "handle_mds_map e m s = Inr s'"
  shows "R (note_peer_epoch m s) s'"
proof (cases "mp_epoch m \<le> mm_epoch (md_map (note_peer_epoch m s))")
  case True
  then show ?thesis using assms refl by (simp add: handle_mds_map_def Let_def)
next
  case False
  then have "take_map e (mp_map m) (note_peer_epoch m s) (note_peer_epoch m s) = Inr s'"
    using assms by (simp add: handle_mds_map_def Let_def)
  from staysD [OF step_take this] show ?thesis .
qed

end

section \<open>Events\<close>

text \<open>The operations that other parts of the server start, with the conditions under which they do: \<^verbatim>\<open>resolve_done\<close> is called in the
  state resolve only (\<^verbatim>\<open>maybe_resolve_finish\<close>), \<^verbatim>\<open>clientreplay_done\<close> and \<^verbatim>\<open>stopping_done\<close> from \<^verbatim>\<open>_dispatch\<close> in theirs. Maps are
  events of their own.\<close>

inductive mds_event :: "mds \<Rightarrow> mds_op \<Rightarrow> bool" where
  "mds_event s creating_done"
| "mds_event s (boot_start e step r eagain)"
| "mds_event s (standby_replay_restart e)"
| "mds_event s (standby_replay_restart_finish e r eagain p)"
| "md_state s = STATE_RESOLVE \<Longrightarrow> mds_event s resolve_done"
| "mds_event s reconnect_done"
| "mds_event s (rejoin_done e)"
| "mds_event s queue_one_replay"
| "md_state s = STATE_CLIENTREPLAY \<Longrightarrow> mds_event s clientreplay_done"
| "md_state s = STATE_STOPPING \<Longrightarrow> mds_event s stopping_done"
| "mds_event s (suicide e)"
| "mds_event s (respawn e)"
| "mds_event s (handle_write_error e blacklisted)"
| "mds_event s bcast_mds_map"
| "mds_event s drain_finished"

context daemon_step
begin

lemma step_event: "mds_event s f \<Longrightarrow> stays R f"
  by (cases rule: mds_event.cases) auto

end

end
