(* ===== verification/Mds_Waiters.thy ===== *)
theory Mds_Waiters
  imports Mds_Contract "HOL-Library.Multiset"
begin

text \<open>
  The waiters of the daemon: contexts are registered for a state, a peer or an epoch, and every operation hands them on
  without losing one or completing one twice. The accounts are a relation that admits the elementary steps, so the operations keep
  them by the lemmas of the contract.
\<close>

section \<open>The books\<close>

text \<open>The contexts that wait, and those that were completed, in order.\<close>

definition waiting :: "mds \<Rightarrow> context_t multiset" where
  "waiting s = mset (waiting_for_active s) + mset (waiting_for_replay s) + mset (waiting_for_reconnect s) + mset (waiting_for_resolve s) +
     mset (replay_queue s) + mset (finished_queue s) + mset (concat (map snd (waiting_for_active_peer s))) +
     mset (concat (map snd (waiting_for_mdsmap s)))"

definition completed :: "mds \<Rightarrow> context_t list" where
  "completed s = concat (map completes (md_log s))"

definition owing :: "mds \<Rightarrow> context_t multiset" where
  "owing s = waiting s + mset (completed s)"

definition maps_ok :: "mds \<Rightarrow> bool" where
  "maps_ok s \<longleftrightarrow> om_ok (waiting_for_active_peer s) \<and> om_ok (waiting_for_mdsmap s)"

definition balanced :: "mds \<Rightarrow> mds \<Rightarrow> bool" where
  "balanced s s' \<longleftrightarrow> (maps_ok s \<longrightarrow> maps_ok s' \<and> owing s' = owing s)"

lemmas book_defs = owing_def waiting_def completed_def maps_ok_def

lemma om_ok_dropWhile: "om_ok m \<Longrightarrow> om_ok (dropWhile P m)"
  by (induction m) auto

lemma balanced_mdsmap: "finish_mdsmap s = Inr t \<Longrightarrow> balanced s t"
proof -
  have "mset (concat (map snd (takeWhile P m))) + mset (concat (map snd (dropWhile P m))) = mset (concat (map snd m))"
    for P and m :: "(epoch_t \<times> context_t list) list"
    by (metis concat_append map_append mset_append takeWhile_dropWhile_id)
  moreover have "concat (map (completes \<circ> (\<lambda>p. Complete (snd p))) m) = concat (map snd m)" for m :: "(epoch_t \<times> context_t list) list"
    by (induction m) auto
  moreover assume "finish_mdsmap s = Inr t"
  ultimately show ?thesis
    by (auto simp: balanced_def finish_mdsmap_def Let_def book_defs om_ok_dropWhile union_assoc union_commute)
qed

lemma om_contexts_split:
  "om_ok m \<Longrightarrow> mset (concat (map snd (om_erase k m))) + mset (om_get [] k m) = mset (concat (map snd m))"
proof (induction m)
  case (Cons p m)
  show ?case
  proof (cases "fst p = k")
    case True
    then have "om_erase k m = m" using Cons.prems by (auto simp: om_erase_def filter_id_conv)
    then show ?thesis using True by (cases p) (simp add: om_erase_def om_get_def)
  next
    case False
    then show ?thesis using Cons by (cases p) (simp add: om_erase_def om_get_def)
  qed
qed (simp add: om_erase_def om_get_def)

lemma balanced_peer:
  assumes r: "chain [(\<lambda>s. queue_waiters (om_get [] who (waiting_for_active_peer s)) s),
      upd (\<lambda>s. s\<lparr>waiting_for_active_peer := om_erase who (waiting_for_active_peer s)\<rparr>)] s = Inr t"
  shows "balanced s t"
  unfolding balanced_def
proof
  assume ok: "maps_ok s"
  then have "om_ok (waiting_for_active_peer s)" by (simp add: maps_ok_def)
  from om_contexts_split [OF this, of who] ok r show "maps_ok t \<and> owing t = owing s"
    by (auto simp: queue_waiters_def op_defs chain.simps book_defs add.assoc add.commute)
qed

interpretation books: daemon_step balanced
proof unfold_locales
  show "queue_one_replay s = Inr t \<Longrightarrow> balanced s t" for s t
    by (cases "replay_queue s")
      (auto simp: balanced_def queue_one_replay_def queue_waiter_def op_defs chain.simps book_defs)
  show "finish_mdsmap s = Inr t \<Longrightarrow> balanced s t" for s t by (rule balanced_mdsmap)
  show "chain [(\<lambda>s. queue_waiters (om_get [] who (waiting_for_active_peer s)) s),
      upd (\<lambda>s. s\<lparr>waiting_for_active_peer := om_erase who (waiting_for_active_peer s)\<rparr>)] s = Inr t \<Longrightarrow> balanced s t" for who s t
    by (rule balanced_peer)
qed (auto simp: balanced_def book_defs finish_active_def finish_replay_def finish_reconnect_def finish_resolve_def drain_finished_def)

section \<open>Runs\<close>

inductive registers :: "context_t \<Rightarrow> (mds \<Rightarrow> mds) \<Rightarrow> bool" where
  "registers c (wait_for_active c)"
| "registers c (wait_for_active_peer who c)"
| "registers c (wait_for_replay c)"
| "registers c (wait_for_reconnect c)"
| "registers c (wait_for_resolve c)"
| "registers c (wait_for_mdsmap ep c)"
| "registers c (enqueue_replay c)"

text \<open>\<open>mds_run cs s\<close>: a run that registered the contexts \<open>cs\<close> so far is in state \<open>s\<close>.\<close>

inductive mds_run :: "context_t list \<Rightarrow> mds \<Rightarrow> bool" where
  run_new: "mds_run [] (mds_new none m0)"
| run_map: "mds_run cs s \<Longrightarrow> handle_mds_map e m s = Inr s' \<Longrightarrow> mds_run cs s'"
| run_event: "mds_run cs s \<Longrightarrow> mds_event s f \<Longrightarrow> f s = Inr s' \<Longrightarrow> mds_run cs s'"
| run_queue: "mds_run cs s \<Longrightarrow> queue_waiter c s = Inr s' \<Longrightarrow> mds_run (c # cs) s'"
| run_register: "mds_run cs s \<Longrightarrow> registers c f \<Longrightarrow> mds_run (c # cs) (f s)"

lemma note_peer_books [simp]: "owing (note_peer_epoch m s) = owing s" "maps_ok (note_peer_epoch m s) = maps_ok s"
  by (simp_all add: note_peer_epoch_def book_defs split: option.splits)

lemma om_contexts_add:
  "om_ok m \<Longrightarrow> mset (concat (map snd (om_set k (om_get [] k m @ [c]) m))) = add_mset c (mset (concat (map snd m)))"
proof (induction m)
  case (Cons p m)
  have k: "om_get [] k m = []" if "k \<le> fst p" "om_ok (p # m)"
    using that by (auto simp: om_get_def split: option.splits dest!: map_of_SomeD)
  obtain a b where p: "p = (a, b)" by fastforce
  consider "k < a" | "k = a" | "a < k" by (rule linorder_cases)
  then show ?case using Cons k p by cases (auto simp: om_get_def)
qed (simp add: om_get_def)

lemma owing_map:
  "mset (concat (map snd m)) = add_mset c (mset (concat (map snd (waiting_for_active_peer s)))) \<Longrightarrow>
     owing (s\<lparr>waiting_for_active_peer := m\<rparr>) = add_mset c (owing s)"
  "mset (concat (map snd n)) = add_mset c (mset (concat (map snd (waiting_for_mdsmap s)))) \<Longrightarrow>
     owing (s\<lparr>waiting_for_mdsmap := n\<rparr>) = add_mset c (owing s)"
  by (simp_all add: owing_def waiting_def completed_def)

lemma register_books:
  assumes "registers c f" and ok: "maps_ok s"
  shows "maps_ok (f s) \<and> owing (f s) = add_mset c (owing s)"
  using assms(1)
proof cases
  case (2 who)
  show ?thesis using ok unfolding 2 wait_for_active_peer_def
    by (intro conjI owing_map om_contexts_add) (simp_all add: maps_ok_def)
next
  case (6 ep)
  show ?thesis using ok unfolding 6 wait_for_mdsmap_def
    by (intro conjI owing_map om_contexts_add) (simp_all add: maps_ok_def)
qed (use ok in \<open>simp_all add: book_defs wait_for_active_def wait_for_replay_def wait_for_reconnect_def wait_for_resolve_def enqueue_replay_def\<close>)

lemma run_books: "mds_run cs s \<Longrightarrow> maps_ok s \<and> owing s = mset cs"
proof (induction rule: mds_run.induct)
  case (run_new none m0)
  show ?case by (simp add: mds_new_def book_defs)
next
  case (run_map cs s e m s')
  from books.step_map [OF run_map.hyps(2)] run_map.IH show ?case by (simp add: balanced_def)
next
  case (run_event cs s f s')
  from staysD [OF books.step_event [OF run_event.hyps(2)] run_event.hyps(3)] run_event.IH show ?case by (simp add: balanced_def)
next
  case (run_queue cs s c s')
  then show ?case by (auto simp: queue_waiter_def op_defs chain.simps book_defs)
next
  case (run_register cs s c f)
  then show ?case using register_books by auto
qed

text \<open>C17: No waiter is lost and none is completed twice. In every run of the daemon, over any sequence of cluster maps, boot
  and recovery steps, failures and shutdown, the contexts that were registered for a state, a peer, an
  epoch or for replay are exactly those that still wait in one of the queues together with those that have
  been completed, each as often as it was registered.\<close>

theorem no_waiter_lost:
  assumes "mds_run cs s"
  shows "waiting s + mset (completed s) = mset cs"
  using run_books [OF assms] by (simp add: owing_def)

section \<open>A run\<close>

text \<open>A cluster of one daemon with global identifier 5, in state \<open>st\<close>; rank 1 is listed as a peer in the states \<open>peers\<close>.\<close>

definition demo_map :: "epoch_t \<Rightarrow> daemon_state \<Rightarrow> daemon_state list \<Rightarrow> mdsmap" where
  "demo_map ep st peers =
     \<lparr>mm_epoch = ep, mm_compat_writeable = True, mm_rank = (\<lambda>_. 0), mm_state = (\<lambda>_. st), mm_inc = (\<lambda>_. 1), mm_info = [(5, 50)],
      mm_standby_for = (\<lambda>_. -1), mm_named = (\<lambda>_. 0), mm_gid = (\<lambda>g. g),
      mm_in_state = (\<lambda>x. if x \<in> set peers then [1] else []), mm_failed = [], mm_up = [0], mm_stopped = [], mm_recovery = [],
      mm_serving = [0], mm_have_inst = (\<lambda>r. r = 0), mm_inst = (\<lambda>_. 50), mm_down = (\<lambda>_. False), mm_resolving = False,
      mm_rejoining = False, mm_num_in = 1, mm_num_failed = 0, mm_tableserver = 0, mm_root = 0, mm_last_failure_osd_epoch = 0\<rparr>"

definition demo_env :: mds_env where
  "demo_env =
     \<lparr>me_gid = 5, me_name = ''a'', me_num = (\<lambda>st. if st = STATE_STANDBY_REPLAY then 8 else 13), me_enforce_unique_name = True, me_dump_cache_on_map = False,
      me_dump_cache_after_rejoin = False, me_kill_create_at = 0, me_wipe_sessions = False, me_wipe_ino_prealloc = False,
      me_skip_ino = 0, me_journal_format = 1, me_action_on_write_error = 1, me_osd_epoch = 4, me_osd_ready = (\<lambda>_. True),
      me_client_incarnation = 0, me_objecter_initialized = True, me_read_pos = 0, me_write_pos = 0, me_trimmed_pos = 0,
      me_stream_format = 1, me_sessions_empty = True, me_subtrees = True, me_readlink_ok = True, me_cwd_ok = True, me_exec_ok = True\<rparr>"

definition demo_start :: mds where
  "demo_start = wait_for_mdsmap 2 9 (wait_for_mdsmap 1 8 (wait_for_active 7 (mds_new (-1) (demo_map 0 STATE_BOOT []))))"

definition demo_msg :: "epoch_t \<Rightarrow> daemon_state \<Rightarrow> daemon_state list \<Rightarrow> map_msg" where
  "demo_msg ep st peers = \<lparr>mp_epoch = ep, mp_from_mds = None, mp_map = demo_map ep st peers\<rparr>"

theorem no_waiter_lost_witness:
  "\<exists>s. mds_run [9, 8, 7] s \<and> completed s = [7, 8] \<and> waiting s + mset [7, 8] = mset [9, 8, 7]"
proof -
  let ?s = "projr (handle_mds_map demo_env (demo_msg 1 STATE_ACTIVE []) demo_start)"
  have "\<not> isl (handle_mds_map demo_env (demo_msg 1 STATE_ACTIVE []) demo_start)" by code_simp
  then have s: "handle_mds_map demo_env (demo_msg 1 STATE_ACTIVE []) demo_start = Inr ?s"
    by (cases "handle_mds_map demo_env (demo_msg 1 STATE_ACTIVE []) demo_start") auto
  have "mds_run [9, 8, 7] demo_start" unfolding demo_start_def by (intro run_new run_register registers.intros)
  then have r: "mds_run [9, 8, 7] ?s" by (rule run_map) (rule s)
  have c: "completed ?s = [7, 8]" by code_simp
  from no_waiter_lost [OF r] c r show ?thesis by (intro exI [of _ ?s]) simp
qed

end
