(* ===== verification/Mds_Recovery.thy ===== *)
theory Mds_Recovery
  imports Mds_Waiters
begin

text \<open>
  Following the cluster map through recovery: when the monitors grant a state of the recovery, the daemon enters it, releases
  exactly the waiters of that state and those of the epoch, in order; and none of the assertions of \<^verbatim>\<open>MDS.cc\<close> fails on a map that moves it
  legally. Calls into the other parts are taken to return: assertions in their code are outside these statements.
\<close>

section \<open>Operations that return and leave the waiters alone\<close>

definition returns :: "mds_op \<Rightarrow> bool" where
  "returns f \<longleftrightarrow> (\<forall>s. \<exists>s'. f s = Inr s')"

lemma returns_chain [simp]: "returns (chain [])" "returns f \<Longrightarrow> returns (chain fs) \<Longrightarrow> returns (chain (f # fs))"
proof -
  show "returns (chain [])" by (simp add: returns_def chain.simps)
  assume a: "returns f" "returns (chain fs)"
  show "returns (chain (f # fs))" unfolding returns_def
  proof
    fix s
    from a(1) obtain t where "f s = Inr t" unfolding returns_def by blast
    moreover from a(2) obtain u where "chain fs t = Inr u" unfolding returns_def by blast
    ultimately show "\<exists>s'. chain (f # fs) s = Inr s'" by (simp add: chain.simps)
  qed
qed

lemma returns_map: "(\<And>x. returns (f x)) \<Longrightarrow> returns (chain (map f xs))"
  by (induction xs) auto

lemma returns_prims [simp]:
  "returns (upd g)" "returns (call c)" "returns (calls_op cs)" "returns Inr"
  "returns (\<lambda>s. call (c' s) s)" "returns (\<lambda>s. calls_op (cs' s) s)"
  by (simp_all add: returns_def op_defs)

lemma returns_if [simp]:
  "returns f \<Longrightarrow> returns g \<Longrightarrow> returns (\<lambda>s. if P s then f s else g s)"
  "returns f \<Longrightarrow> returns (provided P f)"
  "returns f \<Longrightarrow> returns g \<Longrightarrow> returns (branch P f g)"
  by (auto simp: returns_def provided_def branch_def)

text \<open>What a phase does not touch: the state, the map, the waiters but those for peers, and what was completed.\<close>

definition view where
  "view s = (md_state s, md_want_state s, md_map s, waiting_for_active s, waiting_for_replay s, waiting_for_reconnect s,
     waiting_for_resolve s, waiting_for_mdsmap s, completed s)"

definition same_view :: "mds \<Rightarrow> mds \<Rightarrow> bool" where
  "same_view s s' \<longleftrightarrow> view s' = view s"

interpretation look: step_preorder same_view
  by unfold_locales (auto simp: same_view_def)

abbreviation gentle :: "mds_op \<Rightarrow> bool" where "gentle f \<equiv> returns f \<and> stays same_view f"

lemma gentleD: "gentle f \<Longrightarrow> \<exists>s'. f s = Inr s' \<and> view s' = view s"
  unfolding returns_def stays_def same_view_def by metis

lemma view_prims [simp]:
  "completes c = [] \<Longrightarrow> stays same_view (call c)"
  "concat (map completes cs) = [] \<Longrightarrow> stays same_view (calls_op cs)"
  "(\<And>s. completes (c' s) = []) \<Longrightarrow> stays same_view (\<lambda>s. call (c' s) s)"
  "(\<And>s. concat (map completes (cs' s)) = []) \<Longrightarrow> stays same_view (\<lambda>s. calls_op (cs' s) s)"
  "stays same_view (upd (\<lambda>s. s\<lparr>finished_queue := q s\<rparr>))"
  "stays same_view (upd (\<lambda>s. s\<lparr>waiting_for_active_peer := w s\<rparr>))"
  by (simp_all add: stays_def op_defs same_view_def view_def completed_def)

lemma gentle_queue: "gentle (\<lambda>s. queue_waiters (cs s) s)"
proof
  have "returns (queue_waiters cs')" "stays same_view (queue_waiters cs')" for cs'
    by (simp_all add: queue_waiters_def)
  then show "returns (\<lambda>s. queue_waiters (cs s) s)" "stays same_view (\<lambda>s. queue_waiters (cs s) s)"
    by (auto simp: returns_def intro: stays_read [where f = queue_waiters and g = cs])
qed

lemma gentle_recovery: "gentle (handle_mds_recovery who)"
  by (simp add: handle_mds_recovery_def gentle_queue)

lemma gentle_failure: "gentle (peer_fails old r)"
  by (simp add: peer_fails_def handle_mds_failure_def)

lemma gentle_each:
  assumes "\<And>x. gentle (f x)"
  shows "gentle (\<lambda>s. chain (map f (xs s)) s)"
proof
  show "returns (\<lambda>s. chain (map f (xs s)) s)"
    using returns_map [of f] assms by (simp add: returns_def)
  show "stays same_view (\<lambda>s. chain (map f (xs s)) s)"
    by (rule look.each_read) (use assms in simp)
qed

lemma gentle_kick: "gentle (kick_peers old)"
  unfolding kick_peers_def [abs_def] Let_def by simp

lemma gentle_phases:
  "gentle (peers_resolve old)" "gentle (peers_rejoin e old)" "gentle (peers_stop old)" "gentle (set_my_name e old)"
  "gentle (peers_recover e old)" "gentle (peers_fail old)"
proof -
  show "gentle (peers_resolve old)" by (simp add: peers_resolve_def calc_recovery_set_def [abs_def])
  show "gentle (peers_rejoin e old)" by (simp add: peers_rejoin_def rejoin_joint_start_def gentle_kick)
  show "gentle (peers_stop old)" by (simp add: peers_stop_def)
  show "gentle (set_my_name e old)" by (simp add: set_my_name_def)
  have r: "gentle (\<lambda>s. chain (map handle_mds_recovery (xs s)) s)" for xs
    by (rule gentle_each) (rule gentle_recovery)
  show "gentle (peers_recover e old)"
    unfolding peers_recover_def Let_def using r by simp
  have "gentle (\<lambda>s. chain (map (peer_fails old) (xs s)) s)" for xs
    by (rule gentle_each) (rule gentle_failure)
  from this [of "\<lambda>s. newly (mm_failed (md_map old)) (mm_failed (md_map s)) @
      filter (\<lambda>r. mm_have_inst (md_map old) r \<and> mm_inst (md_map old) r \<noteq> mm_inst (md_map s) r) (mm_up (md_map s))"]
  show "gentle (peers_fail old)" by (simp add: peers_fail_def [abs_def])
qed

section \<open>Entering a state of the recovery\<close>

text \<open>The waiters that a state releases, in the order in which they are completed, and those of the epochs up to \<open>ep\<close>.\<close>

fun waits_for :: "daemon_state \<Rightarrow> mds \<Rightarrow> context_t list" where
  "waits_for STATE_ACTIVE s = waiting_for_replay s @ waiting_for_active s"
| "waits_for STATE_CLIENTREPLAY s = waiting_for_replay s"
| "waits_for STATE_RECONNECT s = waiting_for_reconnect s"
| "waits_for STATE_RESOLVE s = waiting_for_resolve s"
| "waits_for _ s = []"

definition due_by :: "epoch_t \<Rightarrow> mds \<Rightarrow> context_t list" where
  "due_by ep s = concat (map snd (filter (\<lambda>p. fst p \<le> ep) (waiting_for_mdsmap s)))"

abbreviation recovery_states :: "daemon_state set" where
  "recovery_states \<equiv> {STATE_RESOLVE, STATE_RECONNECT, STATE_REJOIN, STATE_CLIENTREPLAY, STATE_ACTIVE}"

lemma view_waits: "view s = view t \<Longrightarrow> waits_for n s = waits_for n t"
  by (cases n) (simp_all add: view_def)

definition entered :: "mds \<Rightarrow> mds \<Rightarrow> bool" where
  "entered s s' \<longleftrightarrow> md_state s' = md_state s \<and> md_map s' = md_map s \<and> md_want_state s' = md_want_state s \<and>
     completed s' = completed s @ waits_for (md_state s) s \<and> waits_for (md_state s) s' = [] \<and>
     waiting_for_mdsmap s' = waiting_for_mdsmap s"

lemma clientreplay_entered: "md_state s = STATE_CLIENTREPLAY \<Longrightarrow> \<exists>s'. clientreplay_start s = Inr s' \<and> entered s s'"
  by (cases "replay_queue s")
    (simp_all add: clientreplay_start_def queue_one_replay_def queue_waiter_def finish_replay_def chain.simps op_defs entered_def completed_def)

lemma active_entered: "md_state s = STATE_ACTIVE \<Longrightarrow> \<exists>s'. active_start s = Inr s' \<and> entered s s'"
  by (simp add: active_start_def finish_replay_def finish_active_def chain.simps op_defs entered_def completed_def)

lemma phase_entered:
  "md_state s = STATE_RESOLVE \<Longrightarrow> \<exists>s'. resolve_start s = Inr s' \<and> entered s s'"
  "md_state s = STATE_RECONNECT \<Longrightarrow> \<exists>s'. reconnect_start s = Inr s' \<and> entered s s'"
  "md_state s = STATE_REJOIN \<Longrightarrow> \<exists>s'. rejoin_start s = Inr s' \<and> entered s s'"
  by (simp_all add: resolve_start_def reconnect_start_def rejoin_start_def reopen_log_def finish_resolve_def finish_reconnect_def
      chain.simps op_defs entered_def completed_def)

lemma state_entered:
  assumes "md_state s \<in> recovery_states"
  shows "\<exists>s'. enter_state e old s = Inr s' \<and> entered s s'"
proof -
  from assms consider "md_state s = STATE_RESOLVE" | "md_state s = STATE_RECONNECT" | "md_state s = STATE_REJOIN"
    | "md_state s = STATE_CLIENTREPLAY" | "md_state s = STATE_ACTIVE" by auto
  then show ?thesis
    by cases (simp_all add: enter_state_def is_any_replay_def phase_entered clientreplay_entered active_entered)
qed

lemma recovery_gentle:
  assumes "md_state s \<in> {STATE_ACTIVE, STATE_CLIENTREPLAY}"
  shows "\<exists>s'. recovery_done os s = Inr s' \<and> view s' = view s"
  using assms by (auto simp: recovery_done_def chain.simps op_defs view_def completed_def)

lemma want_set:
  "\<exists>s'. set_want_state n s = Inr s' \<and> md_want_state s' = n \<and> view (s'\<lparr>md_want_state := md_want_state s\<rparr>) = view s"
  by (simp add: set_want_state_def chain.simps op_defs view_def completed_def)

lemma chain_step: "f s = Inr t \<Longrightarrow> chain (f # fs) s = chain fs t"
  by (simp add: chain.simps)

lemma change_entered:
  assumes "md_state s \<in> recovery_states" "md_state old \<noteq> STATE_STANDBY_REPLAY"
  shows "\<exists>s'. state_changed e old s = Inr s' \<and> entered (s\<lparr>md_want_state := md_state s\<rparr>) s'"
proof -
  let ?just = "\<lambda>s. md_state s \<in> {STATE_ACTIVE, STATE_CLIENTREPLAY} \<and>
    md_state old \<in> {STATE_CREATING, STATE_REJOIN, STATE_RECONNECT}"
  obtain s1 where s1: "set_want_state (md_state s) s = Inr s1" "md_want_state s1 = md_state s"
    "view (s1\<lparr>md_want_state := md_want_state s\<rparr>) = view s" using want_set by blast
  have "\<exists>s2. provided ?just (recovery_done (md_state old)) s1 = Inr s2 \<and> view s2 = view s1"
    using recovery_gentle [of s1] by (simp add: provided_def)
  then obtain s2 where s2: "provided ?just (recovery_done (md_state old)) s1 = Inr s2" "view s2 = view s1" by blast
  have st: "md_state s2 = md_state s" using s1 s2 by (simp add: view_def)
  obtain s3 where s3: "enter_state e old s2 = Inr s3" "entered s2 s3" using state_entered [of s2] assms(1) st by auto
  have v: "view s2 = view (s\<lparr>md_want_state := md_state s\<rparr>)"
    using s1 s2 by (simp add: view_def completed_def)
  have "entered (s\<lparr>md_want_state := md_state s\<rparr>) s3"
    using s3(2) v view_waits [OF v] unfolding entered_def by (simp add: view_def)
  moreover have "state_changed e old s = Inr s3"
    using s1(1) s2(1) s3(1) assms(2) by (simp add: state_changed_def chain.simps branch_def)
  ultimately show ?thesis by blast
qed

lemma sorted_due:
  fixes m :: "(epoch_t \<times> context_t list) list"
  assumes "om_ok m"
  shows "takeWhile (\<lambda>p. fst p \<le> ep) m = filter (\<lambda>p. fst p \<le> ep) m" "dropWhile (\<lambda>p. fst p \<le> ep) m = filter (\<lambda>p. ep < fst p) m"
proof -
  have "takeWhile (\<lambda>p. fst p \<le> ep) m = filter (\<lambda>p. fst p \<le> ep) m \<and> dropWhile (\<lambda>p. fst p \<le> ep) m = filter (\<lambda>p. ep < fst p) m"
    using assms
  proof (induction m)
    case (Cons p m)
    show ?case
    proof (cases "fst p \<le> ep")
      case False
      then have "\<forall>q\<in>set m. ep < fst q" using Cons.prems by fastforce
      then show ?thesis using False by (simp add: filter_empty_conv filter_True not_le)
    qed (use Cons in simp)
  qed simp
  then show "takeWhile (\<lambda>p. fst p \<le> ep) m = filter (\<lambda>p. fst p \<le> ep) m" "dropWhile (\<lambda>p. fst p \<le> ep) m = filter (\<lambda>p. ep < fst p) m"
    by simp_all
qed

lemma rest_gentle:
  "gentle (chain [peers_resolve old, peers_rejoin e old, peers_recover e old, peers_fail old, peers_stop old,
     provided (\<lambda>s. \<not> is_any_replay s) (call (Do ''balancer.try_rebalance''))])"
  using gentle_phases by simp

lemma chain_append: "chain (fs @ gs) s = (case chain fs s of Inl x \<Rightarrow> Inl x | Inr t \<Rightarrow> chain gs t)"
  by (induction fs arbitrary: s) (auto simp: chain.simps split: sum.splits)

lemma chain_through: "chain fs s = Inr t \<Longrightarrow> chain (fs @ gs) s = chain gs t"
  by (simp add: chain_append)

lemma finish_due:
  assumes "om_ok (waiting_for_mdsmap s)"
  shows "\<exists>s'. chain [finish_mdsmap, provided (\<lambda>s. md_state s = STATE_ACTIVE) (set_osd_epoch_barrier b)] s = Inr s' \<and>
    md_state s' = md_state s \<and> md_map s' = md_map s \<and> md_want_state s' = md_want_state s \<and> waits_for n s' = waits_for n s \<and>
    completed s' = completed s @ due_by (mm_epoch (md_map s)) s \<and>
    waiting_for_mdsmap s' = filter (\<lambda>p. mm_epoch (md_map s) < fst p) (waiting_for_mdsmap s) \<and>
    (md_state s = STATE_ACTIVE \<longrightarrow> osd_epoch_barrier s' = b)"
proof -
  have "concat (map (completes \<circ> (\<lambda>p. Complete (snd p))) m) = concat (map snd m)" for m :: "(epoch_t \<times> context_t list) list"
    by (induction m) auto
  then show ?thesis using sorted_due [OF assms]
    by (cases n) (simp_all add: finish_mdsmap_def set_osd_epoch_barrier_def chain.simps op_defs completed_def due_by_def)
qed

lemma head_gentle:
  "gentle (chain [set_my_name e old, provided (\<lambda>s. me_client_incarnation e \<noteq> md_incarnation s) (\<lambda>s. call (SetClientIncarnation (md_incarnation s)) s),
     provided (\<lambda>_. me_dump_cache_on_map e) (call (Do ''mdcache.dump_cache''))])"
  using gentle_phases by simp

text \<open>The state after a map was followed into the state \<open>n\<close>.\<close>

definition arrived :: "daemon_state \<Rightarrow> mdsmap \<Rightarrow> mds \<Rightarrow> mds \<Rightarrow> bool" where
  "arrived n m s s' \<longleftrightarrow> md_state s' = n \<and> md_want_state s' = n \<and> md_map s' = m \<and>
     completed s' = completed s @ waits_for n s @ due_by (mm_epoch m) s \<and> waits_for n s' = [] \<and> due_by (mm_epoch m) s' = []"

lemma follow_arrived:
  assumes st: "md_state s \<in> recovery_states" "md_state old \<noteq> md_state s" "md_state old \<noteq> STATE_STANDBY_REPLAY"
    and ok: "om_ok (waiting_for_mdsmap s)"
  shows "\<exists>s'. follow_map e old s = Inr s' \<and> arrived (md_state s) (md_map s) s s'"
proof -
  let ?n = "md_state s" and ?ep = "mm_epoch (md_map s)"
  obtain s1 where s1: "chain [set_my_name e old, provided (\<lambda>s. me_client_incarnation e \<noteq> md_incarnation s) (\<lambda>s. call (SetClientIncarnation (md_incarnation s)) s),
     provided (\<lambda>_. me_dump_cache_on_map e) (call (Do ''mdcache.dump_cache''))] s = Inr s1" "view s1 = view s"
    using gentleD [OF head_gentle] by blast
  have "md_state s1 \<in> recovery_states" using s1(2) st(1) by (simp add: view_def)
  from change_entered [OF this st(3)] obtain s2
    where s2: "state_changed e old s1 = Inr s2" "entered (s1\<lparr>md_want_state := md_state s1\<rparr>) s2" by blast
  obtain s3 where s3: "chain [peers_resolve old, peers_rejoin e old, peers_recover e old, peers_fail old, peers_stop old,
     provided (\<lambda>s. \<not> is_any_replay s) (call (Do ''balancer.try_rebalance''))] s2 = Inr s3" "view s3 = view s2"
    using gentleD [OF rest_gentle] by blast
  have w: "waits_for ?n (s1\<lparr>md_want_state := x\<rparr>) = waits_for ?n s" for x
    using view_waits [OF s1(2), of ?n] by (cases ?n) simp_all
  have mid: "md_state s3 = ?n" "md_want_state s3 = ?n" "md_map s3 = md_map s" "completed s3 = completed s @ waits_for ?n s"
    "waits_for ?n s3 = []" "waiting_for_mdsmap s3 = waiting_for_mdsmap s"
    using s1(2) s2(2) s3(2) w view_waits [OF s3(2), of ?n] by (simp_all add: view_def entered_def completed_def)
  then have "om_ok (waiting_for_mdsmap s3)" using ok by simp
  from finish_due [OF this, of "me_osd_epoch e" ?n] obtain s4
    where s4: "chain [finish_mdsmap, provided (\<lambda>s. md_state s = STATE_ACTIVE) (set_osd_epoch_barrier (me_osd_epoch e))] s3 = Inr s4"
      "md_state s4 = ?n" "md_want_state s4 = ?n" "md_map s4 = md_map s" "waits_for ?n s4 = []"
      "completed s4 = completed s3 @ due_by ?ep s3" "waiting_for_mdsmap s4 = filter (\<lambda>p. ?ep < fst p) (waiting_for_mdsmap s)"
    using mid by auto
  have "arrived ?n (md_map s) s s4" using s4 mid by (auto simp: arrived_def due_by_def filter_empty_conv)
  moreover have "follow_map e old s = Inr s4"
  proof -
    let ?change = "provided (\<lambda>s. md_state old \<noteq> md_state s) (state_changed e old)"
    have c: "?change s1 = Inr s2" using s1(2) s2(1) st(2) by (simp add: provided_def view_def)
    show ?thesis unfolding follow_map_def
      using chain_through [OF s1(1)] chain_step [of ?change, OF c] chain_through [OF s3(1)] s4(1) by simp
  qed
  ultimately show ?thesis by blast
qed

section \<open>The map is taken\<close>

text \<open>The daemon when it has read its place from the new map.\<close>

definition placed :: "mds_env \<Rightarrow> mdsmap \<Rightarrow> mds \<Rightarrow> mds" where
  "placed e m s =
     (let n = mm_state m (me_gid e) in
      s\<lparr>md_map := m, md_whoami := mm_rank m (me_gid e), md_state := n, md_incarnation := mm_inc m (me_gid e),
        md_last_state := (if n \<noteq> md_state s then md_state s else md_last_state s),
        md_log := md_log s @ SubGot (mm_epoch m) # map MarkDown (removed_addrs (md_map s) m)\<rparr>)"

lemma chain_placed:
  "chain [identify e, calls_op (map MarkDown (removed_addrs (md_map s) m)),
     provided (\<lambda>t. md_state t \<noteq> md_state s) (upd (\<lambda>t. t\<lparr>md_last_state := md_state s\<rparr>))]
     (s\<lparr>md_map := m, md_log := md_log s @ [SubGot (mm_epoch m)]\<rparr>) = Inr (placed e m s)"
  by (cases s) (simp add: chain.simps op_defs identify_def placed_def Let_def)

lemma take_map_placed:
  "mm_compat_writeable m \<Longrightarrow>
     take_map e m s s = (case adopt_state e s (placed e m s) of Inl x \<Rightarrow> Inl x | Inr t \<Rightarrow> call (BeaconMap (mm_epoch m)) t)"
  using chain_through [OF chain_placed, of e s m "[adopt_state e s]"]
  by (simp add: take_map_def chain.simps(2) [of "upd _"] chain.simps(2) [of "call _"] chain.simps(2) [of "branch _ _ _"] chain.simps(1)
      chain.simps(2) [of "adopt_state _ _"] upd_def [of "\<lambda>s. s\<lparr>md_map := m\<rparr>"] call_def [of "SubGot _"] branch_def split: sum.splits)

lemma adopt_follows:
  "0 \<le> md_whoami s \<Longrightarrow> md_state s \<notin> {STATE_STANDBY, STATE_STANDBY_REPLAY} \<Longrightarrow> adopt_state e old s = follow_map e old s"
  by (auto simp: adopt_state_def chain.simps provided_def split: sum.splits)

lemma note_peer_same [simp]:
  "md_state (note_peer_epoch m s) = md_state s" "md_map (note_peer_epoch m s) = md_map s" "md_want_state (note_peer_epoch m s) = md_want_state s"
  "md_standby_type (note_peer_epoch m s) = md_standby_type s"
  "completed (note_peer_epoch m s) = completed s" "waiting_for_mdsmap (note_peer_epoch m s) = waiting_for_mdsmap s"
  "waits_for n (note_peer_epoch m s) = waits_for n s"
  by (simp_all add: note_peer_epoch_def completed_def split: option.splits) (cases n; simp add: note_peer_epoch_def split: option.splits)

lemma placed_same [simp]:
  "md_state (placed e m s) = mm_state m (me_gid e)" "md_map (placed e m s) = m" "md_whoami (placed e m s) = mm_rank m (me_gid e)"
  "md_want_state (placed e m s) = md_want_state s" "md_standby_type (placed e m s) = md_standby_type s"
  "completed (placed e m s) = completed s" "waiting_for_mdsmap (placed e m s) = waiting_for_mdsmap s"
  "waits_for n (placed e m s) = waits_for n s"
proof -
  have "concat (map (completes \<circ> MarkDown) xs) = []" for xs by (induction xs) auto
  then show "completed (placed e m s) = completed s" by (simp add: placed_def Let_def completed_def)
  show "waits_for n (placed e m s) = waits_for n s" by (cases n) (simp_all add: placed_def Let_def)
qed (simp_all add: placed_def Let_def)

lemma due_by_same: "waiting_for_mdsmap t = waiting_for_mdsmap s \<Longrightarrow> due_by ep t = due_by ep s"
  by (simp add: due_by_def)

lemma beacon_map_arrived: "arrived n m s t \<Longrightarrow> \<exists>t'. call (BeaconMap ep) t = Inr t' \<and> arrived n m s t'"
  by (cases n) (simp_all add: call_def arrived_def completed_def due_by_def)

lemma run_maps_ok: "mds_run cs s \<Longrightarrow> maps_ok s"
  using run_books by blast

text \<open>C18: Entering a state of the recovery releases exactly its waiters. In any run, when a newer map grants the daemon one of the
  states resolve, reconnect, rejoin, client replay or active, and it comes from another state that is not standby replay,
  the map is processed without abort, the daemon is in that state and wants it, and precisely the waiters registered for the state
  and then those for an epoch up to that of the map, in the order of the epochs, have been completed; none of them still waits.\<close>

theorem granted_state_releases_waiters:
  assumes run: "mds_run cs s" and new: "mm_epoch (md_map s) < mp_epoch m" and comp: "mm_compat_writeable (mp_map m)"
    and rank: "0 \<le> mm_rank (mp_map m) (me_gid e)" and n: "n = mm_state (mp_map m) (me_gid e)"
    and granted: "n \<in> {STATE_RESOLVE, STATE_RECONNECT, STATE_REJOIN, STATE_CLIENTREPLAY, STATE_ACTIVE}"
    and old: "md_state s \<noteq> n" "md_state s \<noteq> STATE_STANDBY_REPLAY"
  shows "\<exists>s'. handle_mds_map e m s = Inr s' \<and> md_state s' = n \<and> md_want_state s' = n \<and> md_map s' = mp_map m \<and>
    completed s' = completed s @ waits_for n s @ due_by (mm_epoch (mp_map m)) s \<and>
    waits_for n s' = [] \<and> due_by (mm_epoch (mp_map m)) s' = []"
proof -
  let ?o = "note_peer_epoch m s"
  let ?t = "placed e (mp_map m) ?o"
  have ok: "om_ok (waiting_for_mdsmap ?t)" using run_maps_ok [OF run] by (simp add: maps_ok_def)
  have "\<exists>t'. follow_map e ?o ?t = Inr t' \<and> arrived (md_state ?t) (md_map ?t) ?t t'"
    by (rule follow_arrived) (use granted n old ok in auto)
  then obtain t' where t': "follow_map e ?o ?t = Inr t'" "arrived n (mp_map m) ?t t'" using n by auto
  have ad: "adopt_state e ?o ?t = Inr t'"
    using t'(1) rank granted n by (subst adopt_follows) auto
  obtain s' where s': "call (BeaconMap (mm_epoch (mp_map m))) t' = Inr s'" "arrived n (mp_map m) ?t s'"
    using beacon_map_arrived [OF t'(2)] by blast
  have "handle_mds_map e m s = Inr s'"
    using new ad s'(1) by (simp add: handle_mds_map_def Let_def take_map_placed [OF comp])
  then show ?thesis using s'(2) due_by_same [of ?t s] by (auto simp: arrived_def)
qed

theorem granted_state_releases_waiters_witness:
  "\<exists>s'. handle_mds_map demo_env (demo_msg 1 STATE_ACTIVE []) demo_start = Inr s' \<and> md_state s' = STATE_ACTIVE \<and> completed s' = [7, 8]"
proof -
  have run: "mds_run [9, 8, 7] demo_start" unfolding demo_start_def by (intro run_new run_register registers.intros)
  have c: "completed demo_start @ waits_for STATE_ACTIVE demo_start @ due_by 1 demo_start = [7, 8]" by code_simp
  have st: "md_state demo_start = STATE_BOOT" "mm_epoch (md_map demo_start) = 0" by code_simp+
  have m: "mp_epoch (demo_msg 1 STATE_ACTIVE []) = 1" "mp_map (demo_msg 1 STATE_ACTIVE []) = demo_map 1 STATE_ACTIVE []"
    "mm_epoch (demo_map 1 STATE_ACTIVE []) = 1" by (simp_all add: demo_msg_def demo_map_def)
  from granted_state_releases_waiters [OF run, of "demo_msg 1 STATE_ACTIVE []" demo_env STATE_ACTIVE] st m c
  show ?thesis by (auto simp: demo_map_def)
qed

section \<open>Maps that end the process\<close>




lemma returns_ends [simp]:
  "returns finish_active" "returns finish_replay" "returns finish_reconnect" "returns finish_resolve" "returns finish_mdsmap"
  "returns (set_osd_epoch_barrier b)" "returns calc_recovery_set"
  by (simp_all add: returns_def finish_active_def finish_replay_def finish_reconnect_def finish_resolve_def finish_mdsmap_def Let_def
      set_osd_epoch_barrier_def upd_def calc_recovery_set_def call_def)

lemma returns_want [simp]: "returns (set_want_state n)" "returns (request_state n)" "returns (\<lambda>s. set_want_state (g s) s)" "returns (\<lambda>s. request_state (g s) s)"
  by (simp_all add: set_want_state_def request_state_def) (simp_all add: returns_def set_want_state_def request_state_def chain.simps op_defs)
















end
