(* ===== verification/Mds_Dispatch.thy ===== *)
theory Mds_Dispatch
  imports Mds_Recovery
begin

text \<open>
  Messages of the daemon (\<^verbatim>\<open>src/src/mds/MDS.cc\<close>): sending to peers, dispatch, the deferral of messages while the monitors do not answer, the
  queue of finished contexts, the periodic work and the last part of the start.

  \<^item> What a message sets off in the other parts, and what the completion of a context does, are parameters: functions on the whole
    state, so that they may queue contexts and dispatch again (\<^verbatim>\<open>C_MDS_RetryMessage\<close>).
  \<^item> \<open>dp_handled\<close>, \<open>dp_put\<close> and \<open>dp_completed\<close> record the messages handed to the other parts, those dropped, and the contexts completed,
    each with the contexts its completion queued.
  \<^item> \<^verbatim>\<open>beacon.is_laggy()\<close> reads the clock: the answers are a sequence, \<open>dp_asked\<close> counts the questions.
  \<^item> The queues are emptied by loops that may run for ever: \<open>None\<close> is a call that does not return.
\<close>

section \<open>Sending to peers\<close>

definition send_map_first :: "mds_rank_t \<Rightarrow> mds_op" where
  "send_map_first r = provided (\<lambda>s. om_get 0 r (peer_mdsmap_epoch s) < mm_epoch (md_map s))
     (chain [(\<lambda>s. call (SendMap r (mm_epoch (md_map s)) (mm_inst (md_map s) r)) s),
             upd (\<lambda>s. s\<lparr>peer_mdsmap_epoch := om_set r (mm_epoch (md_map s)) (peer_mdsmap_epoch s)\<rparr>)])"

text \<open>Reading \<^verbatim>\<open>peer_mdsmap_epoch[r]\<close> enters a zero for a rank that is not there; the model leaves that entry out, it reads as zero.\<close>

definition send_message_mds :: "nat \<Rightarrow> mds_rank_t \<Rightarrow> mds_op" where
  "send_message_mds i r = provided (\<lambda>s. r \<in> set (mm_up (md_map s)))
     (chain [provided (\<lambda>s. r \<noteq> md_whoami s) (send_map_first r), (\<lambda>s. call (SendMsg r i (mm_inst (md_map s) r)) s)])"

section \<open>Messages\<close>

datatype entity = MonE nat | MdsE mds_rank_t | OsdE nat | ClientE nat

datatype entity_type = TYPE_MON | TYPE_MDS | TYPE_OSD | TYPE_CLIENT

datatype table_id = TABLE_ANCHOR | TABLE_SNAP | OTHER_TABLE

datatype msg_kind = MON_MAP | MDS_MAP map_msg | MON_COMMAND | MSG_COMMAND | OSD_MAP
  | CACHEEXPIRE | DIRUPDATE | OTHER_CACHE | EXPORTDIRDISCOVER | OTHER_MIGRATOR
  | CLIENT_SESSION | CLIENT_RECONNECT | CLIENT_REQUEST nat nat | SLAVE_REQUEST | HEARTBEAT | TABLE_REQUEST int table_id
  | MDS_LOCK | INODEFILECAPS | CLIENT_CAPS | CLIENT_CAPRELEASE | CLIENT_LEASE | OTHER_MSG

record message =
  mg_id :: nat
  mg_kind :: msg_kind
  mg_source :: entity
  mg_addr :: addr_t
  mg_peer :: "entity_type option"

text \<open>A request of a client is not passed on: the client is told where to go. \<open>CLIENT_REQUEST tid fwd\<close> carries the number of times that
  happened.\<close>

definition forward_message_mds :: "message \<Rightarrow> mds_rank_t \<Rightarrow> mds_op" where
  "forward_message_mds m r = chain
     [require (\<lambda>s. r \<noteq> md_whoami s),
      (\<lambda>s. case (mg_kind m, mg_source m) of
             (CLIENT_REQUEST tid fwd, ClientE c) \<Rightarrow> call (SendForward tid r (fwd + 1)) s
           | _ \<Rightarrow> chain [require (\<lambda>_. mg_kind m = DIRUPDATE \<or> mg_kind m = EXPORTDIRDISCOVER), send_map_first r,
                         (\<lambda>s. call (SendMsg r (mg_id m) (mm_inst (md_map s) r)) s)] s)]"

definition is_stale_message :: "mdsmap \<Rightarrow> message \<Rightarrow> bool" where
  "is_stale_message mm m =
     (case mg_source m of
        MdsE r \<Rightarrow>
          if \<not> mm_have_inst mm r \<or> mm_inst mm r \<noteq> mg_addr m \<or> mm_down mm r
          then \<not> ((case mg_kind m of MDS_MAP x \<Rightarrow> True | _ \<Rightarrow> False) \<or> mg_kind m = CACHEEXPIRE \<and> mm_inst mm r = mg_addr m)
          else False
      | _ \<Rightarrow> False)"

text \<open>\<^verbatim>\<open>ALLOW_MESSAGES_FROM\<close>\<close>

definition allowed :: "entity_type list \<Rightarrow> message \<Rightarrow> bool" where
  "allowed ts m = (case mg_peer m of None \<Rightarrow> True | Some t \<Rightarrow> t \<in> set ts)"

datatype handler = To_Command | To_Osd | To_Cache | To_Migrator | To_Server | To_Balancer | To_Table_Client | To_Table_Server | To_Locker
  | Filtered

section \<open>State\<close>

record dispatcher =
  dp_mds :: mds
  waiting_for_nolaggy :: "message list"
  dispatch_depth :: int
  dp_asked :: nat
  dp_handled :: "(handler \<times> message) list"
  dp_put :: "message list"
  dp_completed :: "(context_t \<times> context_t list) list"

type_synonym dp_op = "dispatcher \<Rightarrow> (mds_stop + dispatcher) option"

record dp_env =
  de_mds :: mds_env
  de_handler :: "handler \<Rightarrow> message \<Rightarrow> dp_op"
  de_complete :: "context_t \<Rightarrow> dp_op"
  de_laggy :: "nat \<Rightarrow> bool"
  de_cache_open :: bool
  de_client_requests :: nat
  de_shutdown_pass :: bool
  de_thrash_exports :: nat
  de_export_picks :: "nat \<Rightarrow> (nat \<times> bool \<times> bool \<times> mds_rank_t) option"
  de_num_inodes :: nat
  de_thrash_fragments :: nat
  de_frag_picks :: "nat \<Rightarrow> (nat \<times> bool \<times> bool \<times> bool) option"
  de_num_fragmenting :: nat
  de_logging :: bool

definition and_then :: "(mds_stop + dispatcher) option \<Rightarrow> dp_op \<Rightarrow> (mds_stop + dispatcher) option" where
  "and_then r f = Option.bind r (\<lambda>x. case x of Inl a \<Rightarrow> Some (Inl a) | Inr t \<Rightarrow> f t)"

lemma and_then_simps [simp]:
  "and_then None f = None" "and_then (Some (Inl x)) f = Some (Inl x)" "and_then (Some (Inr t)) f = f t"
  by (simp_all add: and_then_def)

text \<open>An operation of the daemon inside the dispatcher.\<close>

definition lift_op :: "mds_op \<Rightarrow> dp_op" where
  "lift_op f s = (case f (dp_mds s) of Inl x \<Rightarrow> Some (Inl x) | Inr m \<Rightarrow> Some (Inr (s\<lparr>dp_mds := m\<rparr>)))"

definition heartbeat_reset :: mds_op where
  "heartbeat_reset = branch md_hb (call (Do ''heartbeat_map.reset_timeout'')) (require (\<lambda>s. md_want_state s = STATE_DNE))"

definition ask_laggy :: "dp_env \<Rightarrow> dispatcher \<Rightarrow> bool \<times> dispatcher" where
  "ask_laggy d s = (de_laggy d (dp_asked s), s\<lparr>dp_asked := dp_asked s + 1\<rparr>)"

definition put_message :: "message \<Rightarrow> dispatcher \<Rightarrow> dispatcher" where
  "put_message m s = s\<lparr>dp_put := dp_put s @ [m]\<rparr>"

text \<open>The message goes to its handler, which drops the reference; a message from a peer of the wrong kind is dropped here.\<close>

definition hand_to :: "dp_env \<Rightarrow> handler \<Rightarrow> message \<Rightarrow> dp_op" where
  "hand_to d h m s = de_handler d h m (s\<lparr>dp_handled := dp_handled s @ [(h, m)]\<rparr>)"

definition allow_from :: "entity_type list \<Rightarrow> message \<Rightarrow> dp_op \<Rightarrow> dp_op" where
  "allow_from ts m f s = (if allowed ts m then f s else Some (Inr (put_message m (s\<lparr>dp_handled := dp_handled s @ [(Filtered, m)]\<rparr>))))"

text \<open>High priority: \<open>None\<close> is for messages of other types. A map of the object stores is not dropped here.\<close>

fun handle_core_message :: "dp_env \<Rightarrow> message \<Rightarrow> dp_op option" where
  "handle_core_message d m =
     (case mg_kind m of
        MON_MAP \<Rightarrow> Some (allow_from [TYPE_MON] m (\<lambda>s. Some (Inr (put_message m s))))
      | MDS_MAP x \<Rightarrow> Some (allow_from [TYPE_MON, TYPE_MDS] m
          (\<lambda>s. and_then (lift_op (handle_mds_map (de_mds d) x) s) (\<lambda>s. Some (Inr (put_message m s)))))
      | MON_COMMAND \<Rightarrow> Some (allow_from [TYPE_MON] m (hand_to d To_Command m))
      | MSG_COMMAND \<Rightarrow> Some (hand_to d To_Command m)
      | OSD_MAP \<Rightarrow> Some (allow_from [TYPE_MON, TYPE_OSD] m
          (\<lambda>s. and_then (lift_op (provided (\<lambda>s. md_state s = STATE_ACTIVE) (call (Do ''snapserver.check_osd_map''))) s)
            (\<lambda>s. and_then (hand_to d To_Osd m s) (lift_op (call (Do ''objecter.maybe_request_map''))))))
      | _ \<Rightarrow> None)"

fun table_handler :: "int \<Rightarrow> table_id \<Rightarrow> dp_env \<Rightarrow> message \<Rightarrow> dp_op" where
  "table_handler opc TABLE_ANCHOR d m s = Some (Inl NullDereference)"
| "table_handler opc TABLE_SNAP d m s = hand_to d (if opc < 0 then To_Table_Client else To_Table_Server) m s"
| "table_handler opc OTHER_TABLE d m s = Some (Inl AssertFailed)"

text \<open>Lower priority, deferred while the daemon is laggy; \<open>None\<close> is for unknown messages.\<close>

fun handle_deferrable_message :: "dp_env \<Rightarrow> message \<Rightarrow> dp_op option" where
  "handle_deferrable_message d m =
     (case mg_kind m of
        CACHEEXPIRE \<Rightarrow> Some (allow_from [TYPE_MDS] m (hand_to d To_Cache m))
      | DIRUPDATE \<Rightarrow> Some (allow_from [TYPE_MDS] m (hand_to d To_Cache m))
      | OTHER_CACHE \<Rightarrow> Some (allow_from [TYPE_MDS] m (hand_to d To_Cache m))
      | EXPORTDIRDISCOVER \<Rightarrow> Some (allow_from [TYPE_MDS] m (hand_to d To_Migrator m))
      | OTHER_MIGRATOR \<Rightarrow> Some (allow_from [TYPE_MDS] m (hand_to d To_Migrator m))
      | CLIENT_SESSION \<Rightarrow> Some (allow_from [TYPE_CLIENT] m (hand_to d To_Server m))
      | CLIENT_RECONNECT \<Rightarrow> Some (allow_from [TYPE_CLIENT] m (hand_to d To_Server m))
      | CLIENT_REQUEST tid fwd \<Rightarrow> Some (hand_to d To_Server m)
      | SLAVE_REQUEST \<Rightarrow> Some (allow_from [TYPE_MDS] m (hand_to d To_Server m))
      | HEARTBEAT \<Rightarrow> Some (allow_from [TYPE_MDS] m (hand_to d To_Balancer m))
      | TABLE_REQUEST opc t \<Rightarrow> Some (allow_from [TYPE_MDS] m (table_handler opc t d m))
      | MDS_LOCK \<Rightarrow> Some (allow_from [TYPE_MDS] m (hand_to d To_Locker m))
      | INODEFILECAPS \<Rightarrow> Some (allow_from [TYPE_MDS] m (hand_to d To_Locker m))
      | CLIENT_CAPS \<Rightarrow> Some (allow_from [TYPE_CLIENT] m (hand_to d To_Locker m))
      | CLIENT_CAPRELEASE \<Rightarrow> Some (allow_from [TYPE_CLIENT] m (hand_to d To_Locker m))
      | CLIENT_LEASE \<Rightarrow> Some (allow_from [TYPE_CLIENT] m (hand_to d To_Locker m))
      | _ \<Rightarrow> None)"

section \<open>The queues\<close>

text \<open>One context is completed, which may queue others; both are recorded when the completion returns. Then the contexts that were in the
  queue at the start of a round, in order.\<close>

definition complete_context :: "dp_env \<Rightarrow> context_t \<Rightarrow> dp_op" where
  "complete_context d c s = and_then (de_complete d c s)
     (\<lambda>t. Some (Inr (t\<lparr>dp_completed := dp_completed t @
        [(c, drop (length (finished_queue (dp_mds s))) (finished_queue (dp_mds t)))]\<rparr>)))"

fun complete_all :: "dp_env \<Rightarrow> context_t list \<Rightarrow> dp_op" where
  "complete_all d [] s = Some (Inr s)"
| "complete_all d (c # cs) s = and_then (complete_context d c s) (\<lambda>s. and_then (lift_op heartbeat_reset s) (complete_all d cs))"

partial_function (option) finish_loop :: "dp_env \<Rightarrow> dispatcher \<Rightarrow> (mds_stop + dispatcher) option" where
  "finish_loop d s =
     (if finished_queue (dp_mds s) = [] then Some (Inr s)
      else Option.bind (complete_all d (finished_queue (dp_mds s)) (s\<lparr>dp_mds := (dp_mds s)\<lparr>finished_queue := []\<rparr>\<rparr>))
        (\<lambda>r. case r of Inl x \<Rightarrow> Some (Inl x) | Inr t \<Rightarrow> finish_loop d t))"

definition handle_deferred :: "dp_env \<Rightarrow> message \<Rightarrow> dp_op" where
  "handle_deferred d m s = and_then
     (if is_stale_message (md_map (dp_mds s)) m then Some (Inr (put_message m s))
      else (case handle_deferrable_message d m of None \<Rightarrow> Some (Inr s) | Some f \<Rightarrow> f s))
     (lift_op heartbeat_reset)"

partial_function (option) nolaggy_loop :: "dp_env \<Rightarrow> dispatcher \<Rightarrow> (mds_stop + dispatcher) option" where
  "nolaggy_loop d s =
     (case waiting_for_nolaggy s of
        [] \<Rightarrow> Some (Inr s)
      | m # ms \<Rightarrow>
          (case ask_laggy d s of (laggy, s1) \<Rightarrow>
             if laggy then Some (Inr s1)
             else Option.bind (handle_deferred d m (s1\<lparr>waiting_for_nolaggy := ms\<rparr>))
               (\<lambda>r. case r of Inl x \<Rightarrow> Some (Inl x) | Inr t \<Rightarrow> nolaggy_loop d t)))"

definition advance_queues :: "dp_env \<Rightarrow> dp_op" where
  "advance_queues d s = and_then (finish_loop d s) (nolaggy_loop d)"

section \<open>Dispatch\<close>

text \<open>The test switches that export or fragment directories at random; the picks are what the random choices gave.\<close>

fun thrash_exports :: "dp_env \<Rightarrow> nat list \<Rightarrow> mds_op" where
  "thrash_exports d [] s = Inr s"
| "thrash_exports d (i # is) s =
     (if md_state s \<noteq> STATE_ACTIVE \<or> length (mm_in_state (md_map s) STATE_ACTIVE) < 2 \<or> de_num_inodes d < 10 then Inr s
      else case de_export_picks d i of
          None \<Rightarrow> thrash_exports d is s
        | Some (dir, linked, auth, dest) \<Rightarrow>
            if linked \<and> auth then chain [call (OnDir ''migrator.export_dir_nicely'' dir (Some dest)), thrash_exports d is] s
            else thrash_exports d is s)"

fun thrash_fragments :: "dp_env \<Rightarrow> nat list \<Rightarrow> mds_op" where
  "thrash_fragments d [] s = Inr s"
| "thrash_fragments d (i # is) s =
     (if md_state s \<noteq> STATE_ACTIVE \<or> de_num_fragmenting d > 5 then Inr s
      else case de_frag_picks d i of
          None \<Rightarrow> thrash_fragments d is s
        | Some (dir, linked, auth, split) \<Rightarrow>
            if linked \<and> auth
            then chain [call (OnDir (if split then ''mdcache.split_dir'' else ''balancer.queue_merge'') dir None), thrash_fragments d is] s
            else thrash_fragments d is s)"

text \<open>What is done after a message when the daemon is not laggy.\<close>

definition housekeeping :: "dp_env \<Rightarrow> mds_op" where
  "housekeeping d = chain
     [provided (\<lambda>s. md_state s = STATE_CLIENTREPLAY \<and> de_cache_open d \<and> replay_queue s = [] \<and>
          md_want_state s = STATE_CLIENTREPLAY \<and> de_client_requests d = 0) clientreplay_done,
      thrash_exports d [0..<de_thrash_exports d], thrash_fragments d [0..<de_thrash_fragments d],
      provided (\<lambda>_. de_logging d) (call (Do ''mlogger'')),
      provided (\<lambda>s. md_state s = STATE_STOPPING)
        (chain [call (Do ''mdlog.trim''), call (Do ''mdcache.shutdown_pass''), provided (\<lambda>_. de_shutdown_pass d) stopping_done])]"

text \<open>The result is that of \<^verbatim>\<open>_dispatch\<close>, which is false for a message that is not known.\<close>

definition after_message :: "dp_env \<Rightarrow> dp_op" where
  "after_message d s =
     (if dispatch_depth s > 1 then Some (Inr s)
      else and_then (advance_queues d s)
        (\<lambda>s. case ask_laggy d s of (laggy, s1) \<Rightarrow> if laggy then Some (Inr s1) else lift_op (housekeeping d) s1))"

definition dispatch_message :: "dp_env \<Rightarrow> message \<Rightarrow> dispatcher \<Rightarrow> bool \<times> (mds_stop + dispatcher) option" where
  "dispatch_message d m s =
     (if is_stale_message (md_map (dp_mds s)) m then (True, Some (Inr (put_message m s)))
      else case handle_core_message d m of
          Some f \<Rightarrow> (True, and_then (f s) (after_message d))
        | None \<Rightarrow>
            (case ask_laggy d s of (laggy, s1) \<Rightarrow>
               if laggy then (True, after_message d (s1\<lparr>waiting_for_nolaggy := waiting_for_nolaggy s1 @ [m]\<rparr>))
               else case handle_deferrable_message d m of
                   None \<Rightarrow> (False, Some (Inr (put_message m s1)))
                 | Some f \<Rightarrow> (True, and_then (f s1) (after_message d))))"

definition inner_dispatch :: "dp_env \<Rightarrow> message \<Rightarrow> dp_op" where
  "inner_dispatch d m s = and_then (snd (dispatch_message d m (s\<lparr>dispatch_depth := dispatch_depth s + 1\<rparr>)))
     (\<lambda>s. Some (Inr (s\<lparr>dispatch_depth := dispatch_depth s - 1\<rparr>)))"

definition ms_dispatch :: "dp_env \<Rightarrow> message \<Rightarrow> dp_op" where
  "ms_dispatch d m s = and_then (lift_op heartbeat_reset s)
     (\<lambda>s. if md_want_state (dp_mds s) = STATE_DNE then Some (Inr (put_message m s)) else inner_dispatch d m s)"

text \<open>The context that dispatches a message again, and one round of the thread that works the queues off.\<close>

definition retry_message :: "dp_env \<Rightarrow> message \<Rightarrow> dp_op" where
  "retry_message d m = inner_dispatch d m"

definition progress_ready :: "dp_env \<Rightarrow> dispatcher \<Rightarrow> bool" where
  "progress_ready d s \<longleftrightarrow> finished_queue (dp_mds s) \<noteq> [] \<or> waiting_for_nolaggy s \<noteq> [] \<and> \<not> de_laggy d (dp_asked s)"

section \<open>Periodic work and the start\<close>

definition reset_tick :: mds_op where
  "reset_tick = chain [provided md_tick_event (call (Do ''timer.cancel_event'')), upd (\<lambda>s. s\<lparr>md_tick_event := True\<rparr>), call (Do ''timer.add_event_after'')]"

definition mds_tick :: "bool \<Rightarrow> bool \<Rightarrow> mds_op" where
  "mds_tick laggy logging = chain
     [heartbeat_reset, upd (\<lambda>s. s\<lparr>md_tick_event := False\<rparr>), reset_tick,
      provided (\<lambda>_. \<not> laggy) (chain
        [calls_op [Do ''progress_thread.signal'', Do ''mdlog.flush''],
         provided (\<lambda>s. md_state s \<in> {STATE_ACTIVE, STATE_STOPPING})
           (calls_op [Do ''mdcache.trim'', Do ''mdcache.trim_client_leases'', Do ''mdcache.check_memory_usage'', Do ''mdlog.trim'']),
         call (Do ''balancer.get_load''), provided (\<lambda>_. logging) (calls_op [Do ''logger'', Do ''mdcache.log_stat'']),
         provided (\<lambda>s. md_state s \<in> {STATE_CLIENTREPLAY, STATE_ACTIVE, STATE_STOPPING}) (calls_op [Do ''locker.tick'', Do ''server.find_idle_sessions'']),
         provided (\<lambda>s. md_state s = STATE_RECONNECT) (call (Do ''server.reconnect_tick'')),
         provided (\<lambda>s. md_state s = STATE_ACTIVE)
           (calls_op [Do ''balancer.tick'', Do ''mdcache.find_stale_fragment_freeze'', Do ''migrator.find_stale_export_freeze'', Do ''snapserver.check_osd_map'']),
         calls_op [Do ''beacon.notify_health'', Do ''check_ops_in_flight'']])]"

record init_env =
  ie_standby_replay :: bool
  ie_standby_for_rank :: mds_rank_t
  ie_standby_for_name :: string
  ie_any :: mds_rank_t
  ie_by_name :: mds_rank_t
  ie_matched_active :: mds_rank_t

definition standby_for :: "init_env \<Rightarrow> daemon_state \<Rightarrow> daemon_state \<Rightarrow> mds_rank_t" where
  "standby_for i wanted type =
     (if wanted = STATE_STANDBY_REPLAY \<and> ie_standby_for_rank i = -1
      then if ie_standby_for_name i = [] then ie_any i else ie_by_name i
      else if type = STATE_NULL \<and> ie_standby_for_name i \<noteq> [] then ie_matched_active i
      else ie_standby_for_rank i)"

text \<open>The last part of \<^verbatim>\<open>MDS::init\<close>, from where the monitors and the object stores are reached.\<close>

definition init_daemon :: "mds_env \<Rightarrow> init_env \<Rightarrow> daemon_state \<Rightarrow> mds_op" where
  "init_daemon e i wanted0 =
     (let wanted = (if wanted0 = STATE_BOOT \<and> ie_standby_replay i then STATE_STANDBY_REPLAY else wanted0)
      in chain
        [provided (\<lambda>s. md_want_state s = STATE_DNE) (suicide e), call (Do ''timer.init''),
         upd (\<lambda>s. s\<lparr>md_want_state := wanted\<rparr>),
         provided (\<lambda>_. wanted \<in> {STATE_STANDBY_REPLAY, STATE_ONESHOT_REPLAY}) (chain
           [calls_op [Do ''conf.set_val_or_die'', Do ''conf.apply_changes''],
            provided (\<lambda>_. wanted = STATE_ONESHOT_REPLAY \<and> ie_standby_for_rank i = -1 \<and> ie_standby_for_name i = []) (suicide e),
            upd (\<lambda>s. s\<lparr>md_want_state := STATE_BOOT, md_standby_type := wanted\<rparr>)]),
         (\<lambda>s. call (BeaconInit (md_want_state s) (standby_for i wanted (md_standby_type s))) s),
         upd (\<lambda>s. s\<lparr>md_whoami := -1\<rparr>), call (SetMyName (-1)), reset_tick,
         calls_op [Do ''progress_thread.create'', Do ''create_logger'', Do ''set_up_admin_socket'', Do ''conf.add_observer'']])"

lemma suicide_ends: "\<exists>t. suicide e s = Inr t \<and> \<not> md_hb t \<and> md_want_state t = STATE_DNE"
  by (cases "md_want_state s = STATE_DNE"; cases "md_tick_event s"; cases "me_objecter_initialized e"; cases "md_hb s")
    (simp_all add: suicide_def set_want_state_def chain.simps op_defs)

lemma reset_tick_returns: "\<exists>t. reset_tick s = Inr t \<and> md_hb t = md_hb s \<and> md_want_state t = md_want_state s"
  by (simp add: reset_tick_def chain.simps op_defs)

text \<open>A start that gives up goes on and aborts later. When a one-shot replay is asked for without naming a daemon to replay for, the start tears the
  process down, yet sets the wanted state back to booting and returns as if it had succeeded: the heartbeat handle is gone
  while the wanted state is not that of a daemon that ends, so the next message, or the next tick, fails the assertion on exactly that.\<close>

lemma oneshot_start_aborts_later:
  assumes "ie_standby_for_rank i = -1" "ie_standby_for_name i = []"
  shows "\<exists>t. init_daemon e i STATE_ONESHOT_REPLAY s = Inr t \<and> \<not> md_hb t \<and> md_want_state t = STATE_BOOT \<and>
    (\<forall>d m p. dp_mds p = t \<longrightarrow> ms_dispatch d m p = Some (Inl AssertFailed)) \<and> (\<forall>b l. mds_tick b l t = Inl AssertFailed)"
proof -
  have "\<exists>u. provided (\<lambda>s. md_want_state s = STATE_DNE) (suicide e) s = Inr u" using suicide_ends [of e s] by (auto simp: provided_def)
  then obtain u where u: "provided (\<lambda>s. md_want_state s = STATE_DNE) (suicide e) s = Inr u" by blast
  let ?u = "u\<lparr>md_want_state := STATE_ONESHOT_REPLAY,
    md_log := md_log u @ [Do ''timer.init'', Do ''conf.set_val_or_die'', Do ''conf.apply_changes'']\<rparr>"
  obtain v where v: "suicide e ?u = Inr v" "\<not> md_hb v" using suicide_ends by blast
  let ?v = "v\<lparr>md_want_state := STATE_BOOT, md_standby_type := STATE_ONESHOT_REPLAY, md_whoami := -1,
    md_log := md_log v @ [BeaconInit STATE_BOOT (standby_for i STATE_ONESHOT_REPLAY STATE_ONESHOT_REPLAY), SetMyName (-1)]\<rparr>"
  obtain w where w: "reset_tick ?v = Inr w" "md_hb w = md_hb v" "md_want_state w = STATE_BOOT" using reset_tick_returns [of ?v] by auto
  obtain t where t: "init_daemon e i STATE_ONESHOT_REPLAY s = Inr t" "\<not> md_hb t" "md_want_state t = STATE_BOOT"
    using assms u v w
    by (simp add: init_daemon_def chain.simps op_defs)
  then have "heartbeat_reset t = Inl AssertFailed" by (simp add: heartbeat_reset_def op_defs)
  with t show ?thesis
    by (intro exI [of _ t]) (simp add: ms_dispatch_def lift_op_def mds_tick_def chain.simps)
qed

lemma oneshot_start_aborts_later_witness:
  "\<exists>t. init_daemon demo_env \<lparr>ie_standby_replay = False, ie_standby_for_rank = -1, ie_standby_for_name = [], ie_any = -2, ie_by_name = -3,
      ie_matched_active = -4\<rparr> STATE_ONESHOT_REPLAY (mds_new (-1) (demo_map 0 STATE_BOOT [])) = Inr t \<and> mds_tick False False t = Inl AssertFailed"
  using oneshot_start_aborts_later [of "\<lparr>ie_standby_replay = False, ie_standby_for_rank = -1, ie_standby_for_name = [], ie_any = -2, ie_by_name = -3,
      ie_matched_active = -4\<rparr>" demo_env "mds_new (-1) (demo_map 0 STATE_BOOT [])"] by auto

section \<open>Peers have the map before the message\<close>

text \<open>The log grows and the epochs that the peers are known to have change only where a map is sent or received.\<close>

definition extends :: "mds \<Rightarrow> mds \<Rightarrow> bool" where
  "extends s s' \<longleftrightarrow> peer_mdsmap_epoch s' = peer_mdsmap_epoch s \<and> (\<exists>cs. md_log s' = md_log s @ cs)"

interpretation talk: daemon_step extends
proof unfold_locales
  show "extends s t \<Longrightarrow> extends t u \<Longrightarrow> extends s u" for s t u by (auto simp: extends_def)
  show "queue_one_replay s = Inr t \<Longrightarrow> extends s t" for s t
    by (cases "replay_queue s") (auto simp: extends_def queue_one_replay_def queue_waiter_def op_defs chain.simps)
  show "finish_mdsmap s = Inr t \<Longrightarrow> extends s t" for s t by (auto simp: extends_def finish_mdsmap_def Let_def)
  show "chain [(\<lambda>s. queue_waiters (om_get [] who (waiting_for_active_peer s)) s),
      upd (\<lambda>s. s\<lparr>waiting_for_active_peer := om_erase who (waiting_for_active_peer s)\<rparr>)] s = Inr t \<Longrightarrow> extends s t" for who s t
    by (auto simp: extends_def queue_waiters_def op_defs chain.simps)
qed (auto simp: extends_def finish_active_def finish_replay_def finish_reconnect_def finish_resolve_def drain_finished_def)

text \<open>\<open>mds_talk H s\<close>: a run of the daemon with its messages; \<open>H\<close> holds the peers that sent their map and its epoch.\<close>

inductive mds_talk :: "(mds_rank_t \<times> epoch_t) set \<Rightarrow> mds \<Rightarrow> bool" where
  talk_new: "mds_talk {} (mds_new none m0)"
| talk_map: "mds_talk H s \<Longrightarrow> handle_mds_map e m s = Inr s' \<Longrightarrow>
    mds_talk (case mp_from_mds m of None \<Rightarrow> H | Some p \<Rightarrow> insert (p, mp_epoch m) H) s'"
| talk_event: "mds_talk H s \<Longrightarrow> mds_event s f \<Longrightarrow> f s = Inr s' \<Longrightarrow> mds_talk H s'"
| talk_queue: "mds_talk H s \<Longrightarrow> queue_waiter c s = Inr s' \<Longrightarrow> mds_talk H s'"
| talk_register: "mds_talk H s \<Longrightarrow> registers c f \<Longrightarrow> mds_talk H (f s)"
| talk_send: "mds_talk H s \<Longrightarrow> send_message_mds i r s = Inr s' \<Longrightarrow> mds_talk H s'"
| talk_forward: "mds_talk H s \<Longrightarrow> forward_message_mds m r s = Inr s' \<Longrightarrow> mds_talk H s'"

definition accounted :: "(mds_rank_t \<times> epoch_t) set \<Rightarrow> mds \<Rightarrow> bool" where
  "accounted H s \<longleftrightarrow> om_ok (peer_mdsmap_epoch s) \<and>
     (\<forall>r. let ep = om_get 0 r (peer_mdsmap_epoch s) in 0 < ep \<longrightarrow> (r, ep) \<in> H \<or> (\<exists>a. SendMap r ep a \<in> set (md_log s)))"

lemma accounted_extends: "accounted H s \<Longrightarrow> extends s s' \<Longrightarrow> accounted H s'"
  unfolding accounted_def extends_def Let_def by (metis Un_iff set_append)

lemma accounted_note: "accounted H s \<Longrightarrow> accounted (case mp_from_mds m of None \<Rightarrow> H | Some p \<Rightarrow> insert (p, mp_epoch m) H) (note_peer_epoch m s)"
  by (auto simp: accounted_def note_peer_epoch_def Let_def max_def split: option.splits)

lemma send_map_first_step:
  "\<exists>s'. send_map_first r s = Inr s' \<and> md_map s' = md_map s \<and> (accounted H s \<longrightarrow> accounted H s' \<and> mm_epoch (md_map s) \<le> om_get 0 r (peer_mdsmap_epoch s'))"
  by (auto simp: send_map_first_def chain.simps op_defs accounted_def Let_def)

lemma accounted_call: "accounted H s \<Longrightarrow> accounted H (s\<lparr>md_log := md_log s @ cs\<rparr>)"
  by (rule accounted_extends) (auto simp: extends_def)

lemma accounted_send: "accounted H s \<Longrightarrow> send_message_mds i r s = Inr s' \<Longrightarrow> accounted H s'"
  using send_map_first_step [of r s H]
  by (auto simp: send_message_mds_def chain.simps op_defs accounted_call split: if_splits)

lemma accounted_forward: "accounted H s \<Longrightarrow> forward_message_mds m r s = Inr s' \<Longrightarrow> accounted H s'"
  using send_map_first_step [of r s H]
  by (auto simp: forward_message_mds_def chain.simps op_defs accounted_call split: if_splits msg_kind.splits entity.splits)

lemma talk_accounted: "mds_talk H s \<Longrightarrow> accounted H s"
proof (induction rule: mds_talk.induct)
  case (talk_new none m0)
  show ?case by (simp add: accounted_def mds_new_def om_get_def)
next
  case (talk_map H s e m s')
  from accounted_note [OF talk_map.IH] talk.step_map [OF talk_map.hyps(2)] show ?case by (rule accounted_extends)
next
  case (talk_event H s f s')
  from talk_event.IH staysD [OF talk.step_event [OF talk_event.hyps(2)] talk_event.hyps(3)] show ?case by (rule accounted_extends)
next
  case (talk_queue H s c s')
  from talk_queue.IH show ?case
    by (rule accounted_extends) (use talk_queue.hyps(2) in \<open>auto simp: extends_def queue_waiter_def op_defs chain.simps\<close>)
next
  case (talk_register H s c f)
  from talk_register.hyps(2) have "extends s (f s)"
    by cases (simp_all add: extends_def wait_for_active_def wait_for_active_peer_def wait_for_replay_def wait_for_reconnect_def
        wait_for_resolve_def wait_for_mdsmap_def enqueue_replay_def)
  with talk_register.IH show ?case by (rule accounted_extends)
qed (auto dest: accounted_send accounted_forward)

text \<open>C20: A peer has a map at least as new as the sender's before it gets a message. In every run with cluster maps, recovery and messages to peers,
  when a message is sent to a rank that is up and is not the daemon itself, the message is the last thing sent, and before it a map of at
  least the daemon's current epoch was sent to that rank, or was received from it.\<close>

theorem peer_has_map_before_message:
  assumes run: "mds_talk H s" and send: "send_message_mds i r s = Inr s'" and up: "r \<in> set (mm_up (md_map s))"
    and other: "r \<noteq> md_whoami s" and ep: "0 < mm_epoch (md_map s)"
  shows "\<exists>before E. md_log s' = before @ [SendMsg r i (mm_inst (md_map s) r)] \<and> mm_epoch (md_map s) \<le> E \<and>
    ((r, E) \<in> H \<or> (\<exists>a. SendMap r E a \<in> set before))"
proof -
  obtain t where t: "send_map_first r s = Inr t" "md_map t = md_map s" "accounted H t"
      "mm_epoch (md_map s) \<le> om_get 0 r (peer_mdsmap_epoch t)"
    using send_map_first_step [of r s H] talk_accounted [OF run] by auto
  have "md_log s' = md_log t @ [SendMsg r i (mm_inst (md_map s) r)]"
    using send up other t(1,2) by (auto simp: send_message_mds_def chain.simps op_defs)
  moreover have "(r, om_get 0 r (peer_mdsmap_epoch t)) \<in> H \<or> (\<exists>a. SendMap r (om_get 0 r (peer_mdsmap_epoch t)) a \<in> set (md_log t))"
    using t(3,4) ep by (auto simp: accounted_def Let_def)
  ultimately show ?thesis using t(4) by blast
qed

theorem peer_has_map_before_message_witness:
  "\<exists>s s'. mds_talk {} s \<and> send_message_mds 3 0 s = Inr s' \<and>
    (\<exists>before E. md_log s' = before @ [SendMsg 0 3 50] \<and> 1 \<le> E \<and> (\<exists>a. SendMap 0 E a \<in> set before))"
proof -
  let ?m = "\<lparr>mp_epoch = 1, mp_from_mds = None, mp_map = (demo_map 1 STATE_ACTIVE [])\<lparr>mm_rank := (\<lambda>_. 1)\<rparr>\<rparr>"
  let ?r = "handle_mds_map demo_env ?m (mds_new (-1) (demo_map 0 STATE_BOOT []))"
  let ?s = "projr ?r"
  have "\<not> isl ?r" by code_simp
  then have s: "?r = Inr ?s" by (cases ?r) auto
  from talk_map [OF talk_new s] have run: "mds_talk {} ?s" by simp
  have at: "mm_up (md_map ?s) = [0]" "md_whoami ?s = 1" "mm_epoch (md_map ?s) = 1" "mm_inst (md_map ?s) 0 = 50" by code_simp+
  then have "\<exists>s'. send_message_mds 3 0 ?s = Inr s'" using send_map_first_step [of 0 ?s "{}"]
    by (auto simp: send_message_mds_def chain.simps op_defs)
  then obtain s' where s': "send_message_mds 3 0 ?s = Inr s'" by blast
  from peer_has_map_before_message [OF run s'] at
  have "\<exists>before E. md_log s' = before @ [SendMsg 0 3 50] \<and> 1 \<le> E \<and> (\<exists>a. SendMap 0 E a \<in> set before)" by simp
  with run s' show ?thesis by blast
qed

section \<open>The queues are worked off\<close>

text \<open>\<open>went s ks hs t\<close>: from \<open>s\<close> to \<open>t\<close> the contexts \<open>ks\<close> were completed and the messages \<open>hs\<close> handed on, while the deferred messages, the map
  and the depth stayed; the monitors may have been asked.\<close>

definition alive :: "dispatcher \<Rightarrow> bool" where
  "alive s \<longleftrightarrow> md_hb (dp_mds s) \<or> md_want_state (dp_mds s) = STATE_DNE"

definition went :: "dispatcher \<Rightarrow> (context_t \<times> context_t list) list \<Rightarrow> (handler \<times> message) list \<Rightarrow> dispatcher \<Rightarrow> bool" where
  "went s ks hs t \<longleftrightarrow> waiting_for_nolaggy t = waiting_for_nolaggy s \<and> md_map (dp_mds t) = md_map (dp_mds s) \<and>
     dp_handled t = dp_handled s @ hs \<and> dp_completed t = dp_completed s @ ks \<and> dp_asked s \<le> dp_asked t \<and>
     dispatch_depth t = dispatch_depth s \<and> (alive s \<longrightarrow> alive t)"

definition ready :: "dp_env \<Rightarrow> int \<Rightarrow> dispatcher \<Rightarrow> bool" where
  "ready d n s \<longleftrightarrow> alive s \<and> (\<forall>k\<ge>dp_asked s. \<not> de_laggy d k) \<and> dispatch_depth s = n"

lemma went_refl [simp]: "went s [] [] s"
  by (simp add: went_def)

lemma went_trans: "went s ks hs t \<Longrightarrow> went t ks' hs' u \<Longrightarrow> went s (ks @ ks') (hs @ hs') u"
  by (simp add: went_def)

lemma went_ready: "went s ks hs t \<Longrightarrow> ready d n s \<Longrightarrow> ready d n t"
  by (simp add: went_def ready_def)

text \<open>What the other parts must do for the queues to empty, asked only of live states in which the monitors answer and the depth is \<open>n\<close>. A
  completion returns and queues only contexts of smaller rank, so no chain of contexts queues itself for ever; it may hand messages on, as
  the retry of a message does, unless \<open>quiet\<close>. The handler of a deferrable message returns. Neither defers a message or changes the
  map, which only the handler of a map does: a map is never deferred.\<close>

definition calm :: "bool \<Rightarrow> int \<Rightarrow> (context_t \<Rightarrow> nat) \<Rightarrow> dp_env \<Rightarrow> bool" where
  "calm quiet n rank d \<longleftrightarrow>
     (\<forall>c s. ready d n s \<longrightarrow> (\<exists>ls hs t. de_complete d c s = Some (Inr t) \<and> went s [] hs t \<and> (quiet \<longrightarrow> hs = []) \<and>
        finished_queue (dp_mds t) = finished_queue (dp_mds s) @ ls \<and> (\<forall>x\<in>set ls. rank x < rank c))) \<and>
     (\<forall>h m s. h \<notin> {To_Command, To_Osd} \<longrightarrow> ready d n s \<longrightarrow> (\<exists>t. de_handler d h m s = Some (Inr t) \<and> went s [] [] t))"

text \<open>The simplest such parts: they ask nothing and hand nothing on, in whatever state.\<close>

definition same_frame :: "dispatcher \<Rightarrow> dispatcher \<Rightarrow> bool" where
  "same_frame s t \<longleftrightarrow> waiting_for_nolaggy t = waiting_for_nolaggy s \<and> md_map (dp_mds t) = md_map (dp_mds s) \<and>
     dp_handled t = dp_handled s \<and> dp_completed t = dp_completed s \<and> dp_asked t = dp_asked s \<and>
     dispatch_depth t = dispatch_depth s \<and> (alive s \<longrightarrow> alive t)"

definition tame :: "(context_t \<Rightarrow> nat) \<Rightarrow> dp_env \<Rightarrow> bool" where
  "tame rank d \<longleftrightarrow>
     (\<forall>c s. \<exists>ls t. de_complete d c s = Some (Inr t) \<and> same_frame s t \<and>
        finished_queue (dp_mds t) = finished_queue (dp_mds s) @ ls \<and> (\<forall>x\<in>set ls. rank x < rank c)) \<and>
     (\<forall>h m s. \<exists>t. de_handler d h m s = Some (Inr t) \<and> same_frame s t)"

lemma same_frame_went: "same_frame s t \<Longrightarrow> went s [] [] t"
  by (simp add: same_frame_def went_def)

lemma tame_calm: "tame rank d \<Longrightarrow> calm True n rank d"
  unfolding tame_def calm_def using same_frame_went by metis

lemma heartbeat_went:
  "ready d n s \<Longrightarrow> \<exists>t. lift_op heartbeat_reset s = Some (Inr t) \<and> went s [] [] t \<and> finished_queue (dp_mds t) = finished_queue (dp_mds s)"
  by (auto simp: ready_def alive_def lift_op_def heartbeat_reset_def op_defs went_def)

lemma complete_context_went:
  assumes "calm quiet n rank d" "ready d n s"
  shows "\<exists>ls hs t. complete_context d c s = Some (Inr t) \<and> went s [(c, ls)] hs t \<and> (quiet \<longrightarrow> hs = []) \<and>
    finished_queue (dp_mds t) = finished_queue (dp_mds s) @ ls \<and> (\<forall>x\<in>set ls. rank x < rank c)"
proof -
  obtain ls hs t where t: "de_complete d c s = Some (Inr t)" "went s [] hs t" "quiet \<longrightarrow> hs = []"
      "finished_queue (dp_mds t) = finished_queue (dp_mds s) @ ls" "\<forall>x\<in>set ls. rank x < rank c"
    using assms unfolding calm_def by meson
  then have "went s [(c, ls)] hs (t\<lparr>dp_completed := dp_completed t @ [(c, ls)]\<rparr>)" by (simp add: went_def alive_def)
  with t show ?thesis by (intro exI [of _ ls] exI [of _ hs]) (simp add: complete_context_def)
qed

lemma complete_all_went:
  assumes "calm quiet n rank d" "ready d n s"
  shows "\<exists>ks hs t. complete_all d cs s = Some (Inr t) \<and> went s ks hs t \<and> (quiet \<longrightarrow> hs = []) \<and> map fst ks = cs \<and>
    finished_queue (dp_mds t) = finished_queue (dp_mds s) @ concat (map snd ks) \<and> (\<forall>(c, ls)\<in>set ks. \<forall>x\<in>set ls. rank x < rank c)"
  using assms(2)
proof (induction cs arbitrary: s)
  case (Cons c cs)
  from complete_context_went [OF assms(1) Cons.prems, of c] obtain ls hs t where t: "complete_context d c s = Some (Inr t)"
      "went s [(c, ls)] hs t" "quiet \<longrightarrow> hs = []" "finished_queue (dp_mds t) = finished_queue (dp_mds s) @ ls" "\<forall>x\<in>set ls. rank x < rank c"
    by blast
  from heartbeat_went [OF went_ready [OF t(2) Cons.prems]] obtain u where u: "lift_op heartbeat_reset t = Some (Inr u)" "went t [] [] u"
      "finished_queue (dp_mds u) = finished_queue (dp_mds t)" by blast
  have su: "went s [(c, ls)] hs u" using went_trans [OF t(2) u(2)] by simp
  from Cons.IH [OF went_ready [OF su Cons.prems]] obtain ks hs' v where v: "complete_all d cs u = Some (Inr v)" "went u ks hs' v"
      "quiet \<longrightarrow> hs' = []" "map fst ks = cs" "finished_queue (dp_mds v) = finished_queue (dp_mds u) @ concat (map snd ks)"
      "\<forall>(c, ls)\<in>set ks. \<forall>x\<in>set ls. rank x < rank c" by blast
  have "complete_all d (c # cs) s = Some (Inr v)" "went s ((c, ls) # ks) (hs @ hs') v"
    using t(1) u(1) v(1) went_trans [OF su v(2)] by simp_all
  with t(3-5) u(3) v(3-6) show ?case by (intro exI [of _ "(c, ls) # ks"] exI [of _ "hs @ hs'"]) auto
qed (auto intro!: exI [of _ "[]"])

text \<open>The rounds of the first loop, taken together, complete the contexts in the order of one queue: those that were there, then what each
  completion queued, in the order of the completions.\<close>

lemma finish_loop_ends:
  assumes "calm quiet n rank d" "ready d n s" "\<forall>c\<in>set (finished_queue (dp_mds s)). rank c < b"
  shows "\<exists>ks hs t. finish_loop d s = Some (Inr t) \<and> went s ks hs t \<and> (quiet \<longrightarrow> hs = []) \<and> finished_queue (dp_mds t) = [] \<and>
    map fst ks = finished_queue (dp_mds s) @ concat (map snd ks)"
  using assms(2,3)
proof (induction b arbitrary: s)
  case 0
  then have "finished_queue (dp_mds s) = []" by simp
  then show ?case by (subst finish_loop.simps) (auto intro!: exI [of _ "[]"])
next
  case (Suc b)
  show ?case
  proof (cases "finished_queue (dp_mds s) = []")
    case True
    then show ?thesis by (subst finish_loop.simps) (auto intro!: exI [of _ "[]"])
  next
    case False
    let ?q = "finished_queue (dp_mds s)"
    let ?s = "s\<lparr>dp_mds := (dp_mds s)\<lparr>finished_queue := []\<rparr>\<rparr>"
    have f: "went s [] [] ?s" by (simp add: went_def alive_def)
    from complete_all_went [OF assms(1) went_ready [OF f Suc.prems(1)], of ?q] obtain ks hs t
      where t: "complete_all d ?q ?s = Some (Inr t)" "went ?s ks hs t" "quiet \<longrightarrow> hs = []" "map fst ks = ?q"
        "finished_queue (dp_mds t) = concat (map snd ks)" "\<forall>(c, ls)\<in>set ks. \<forall>x\<in>set ls. rank x < rank c" by auto
    have st: "went s ks hs t" using went_trans [OF f t(2)] by simp
    have "\<forall>x\<in>set (finished_queue (dp_mds t)). rank x < b"
    proof
      fix x assume "x \<in> set (finished_queue (dp_mds t))"
      then obtain c ls where c: "(c, ls) \<in> set ks" "x \<in> set ls" using t(5) by auto
      then have "c \<in> set ?q" using t(4) by (metis fst_conv image_eqI list.set_map)
      then have "rank x < rank c" "rank c < Suc b" using c t(6) Suc.prems(2) by auto
      then show "rank x < b" by simp
    qed
    from Suc.IH [OF went_ready [OF st Suc.prems(1)] this] obtain ks' hs' u where u: "finish_loop d t = Some (Inr u)" "went t ks' hs' u"
        "quiet \<longrightarrow> hs' = []" "finished_queue (dp_mds u) = []" "map fst ks' = finished_queue (dp_mds t) @ concat (map snd ks')" by blast
    have "finish_loop d s = Some (Inr u)" using False t(1) u(1) by (subst finish_loop.simps) simp
    moreover have "went s (ks @ ks') (hs @ hs') u" by (rule went_trans [OF st u(2)])
    moreover have "map fst (ks @ ks') = ?q @ concat (map snd (ks @ ks'))" using t(4,5) u(5) by simp
    ultimately show ?thesis using t(3) u(3,4) by (intro exI [of _ "ks @ ks'"] exI [of _ "hs @ hs'"]) auto
  qed
qed

text \<open>Where a deferred message goes: nowhere when it is stale by then or not known.\<close>

definition handed :: "mdsmap \<Rightarrow> message \<Rightarrow> (handler \<times> message) list" where
  "handed mm m =
     (if is_stale_message mm m then []
      else case mg_kind m of
          CLIENT_REQUEST tid fwd \<Rightarrow> [(To_Server, m)]
        | TABLE_REQUEST opc t \<Rightarrow> [(if allowed [TYPE_MDS] m then if opc < 0 then To_Table_Client else To_Table_Server else Filtered, m)]
        | k \<Rightarrow>
            if k \<in> {MDS_LOCK, INODEFILECAPS} then [(if allowed [TYPE_MDS] m then To_Locker else Filtered, m)]
            else if k \<in> {CLIENT_CAPS, CLIENT_CAPRELEASE, CLIENT_LEASE} then [(if allowed [TYPE_CLIENT] m then To_Locker else Filtered, m)]
            else if k \<in> {CLIENT_SESSION, CLIENT_RECONNECT} then [(if allowed [TYPE_CLIENT] m then To_Server else Filtered, m)]
            else if k = SLAVE_REQUEST then [(if allowed [TYPE_MDS] m then To_Server else Filtered, m)]
            else if k = HEARTBEAT then [(if allowed [TYPE_MDS] m then To_Balancer else Filtered, m)]
            else if k \<in> {CACHEEXPIRE, DIRUPDATE, OTHER_CACHE} then [(if allowed [TYPE_MDS] m then To_Cache else Filtered, m)]
            else if k \<in> {EXPORTDIRDISCOVER, OTHER_MIGRATOR} then [(if allowed [TYPE_MDS] m then To_Migrator else Filtered, m)]
            else [])"

definition table_ok :: "message \<Rightarrow> bool" where
  "table_ok m = (case mg_kind m of TABLE_REQUEST opc t \<Rightarrow> t = TABLE_SNAP | _ \<Rightarrow> True)"

lemma hand_to_after:
  assumes "calm quiet n rank d" "ready d n s" "h \<notin> {To_Command, To_Osd}"
  shows "\<exists>t. hand_to d h m s = Some (Inr t) \<and> went s [] [(h, m)] t"
proof -
  let ?s = "s\<lparr>dp_handled := dp_handled s @ [(h, m)]\<rparr>"
  have "ready d n ?s" using assms(2) by (simp add: ready_def alive_def)
  then obtain t where "de_handler d h m ?s = Some (Inr t)" "went ?s [] [] t" using assms unfolding calm_def by blast
  then show ?thesis by (auto simp: hand_to_def went_def alive_def)
qed

lemma allow_after:
  assumes "calm quiet n rank d" "ready d n s" "h \<notin> {To_Command, To_Osd}"
  shows "\<exists>t. allow_from ts m (hand_to d h m) s = Some (Inr t) \<and> went s [] [(if allowed ts m then h else Filtered, m)] t"
  using hand_to_after [OF assms, of m] by (auto simp: allow_from_def went_def put_message_def alive_def)

lemma deferrable_after:
  assumes "calm quiet n rank d" "ready d n s" "table_ok m" "\<not> is_stale_message mm m" "handle_deferrable_message d m = Some f"
  shows "\<exists>t. f s = Some (Inr t) \<and> went s [] (handed mm m) t"
proof (cases "mg_kind m")
  case (TABLE_REQUEST opc t)
  have "t = TABLE_SNAP" using assms(3) TABLE_REQUEST by (simp add: table_ok_def)
  moreover have "table_handler opc TABLE_SNAP d m = hand_to d (if opc < 0 then To_Table_Client else To_Table_Server) m" by (rule ext) simp
  ultimately show ?thesis using assms(4,5) TABLE_REQUEST
    by (auto simp: handed_def split del: if_split intro!: allow_after [OF assms(1,2)]) (simp_all split: if_splits)
next
  case (CLIENT_REQUEST tid fwd)
  then show ?thesis using assms(4,5) hand_to_after [OF assms(1,2), of To_Server m] by (auto simp: handed_def)
qed (use assms(4,5) in \<open>auto simp: handed_def split del: if_split intro!: allow_after [OF assms(1,2)]\<close>)

lemma handed_unknown: "handle_deferrable_message d m = None \<Longrightarrow> handed mm m = []"
  by (auto simp: handed_def split: msg_kind.splits)

lemma deferred_after:
  assumes "calm quiet n rank d" "ready d n s" "table_ok m"
  shows "\<exists>t. handle_deferred d m s = Some (Inr t) \<and> went s [] (handed (md_map (dp_mds s)) m) t"
proof -
  let ?r = "if is_stale_message (md_map (dp_mds s)) m then Some (Inr (put_message m s))
    else (case handle_deferrable_message d m of None \<Rightarrow> Some (Inr s) | Some f \<Rightarrow> f s)"
  have "\<exists>t. ?r = Some (Inr t) \<and> went s [] (handed (md_map (dp_mds s)) m) t"
  proof (cases "is_stale_message (md_map (dp_mds s)) m")
    case True
    then show ?thesis by (simp add: handed_def went_def put_message_def alive_def)
  next
    case False
    show ?thesis
    proof (cases "handle_deferrable_message d m")
      case None
      then show ?thesis using False handed_unknown [OF None] by (simp add: went_def del: handle_deferrable_message.simps)
    next
      case (Some f)
      from deferrable_after [OF assms False Some] show ?thesis
        using False Some by (simp del: handle_deferrable_message.simps)
    qed
  qed
  then obtain t where t: "?r = Some (Inr t)" "went s [] (handed (md_map (dp_mds s)) m) t" by blast
  from heartbeat_went [OF went_ready [OF t(2) assms(2)]] obtain u where u: "lift_op heartbeat_reset t = Some (Inr u)" "went t [] [] u" by blast
  have "handle_deferred d m s = Some (Inr u)" unfolding handle_deferred_def t(1) by (simp add: u(1))
  with went_trans [OF t(2) u(2)] show ?thesis by auto
qed

lemma nolaggy_loop_ends:
  assumes "calm quiet n rank d" "ready d n s" "\<forall>m\<in>set (waiting_for_nolaggy s). table_ok m"
  shows "\<exists>t. nolaggy_loop d s = Some (Inr t) \<and> waiting_for_nolaggy t = [] \<and> ready d n t \<and> dp_asked s \<le> dp_asked t \<and>
    dp_completed t = dp_completed s \<and>
    dp_handled t = dp_handled s @ concat (map (handed (md_map (dp_mds s))) (waiting_for_nolaggy s))"
  using assms(2,3)
proof (induction "waiting_for_nolaggy s" arbitrary: s)
  case Nil
  then show ?case by (subst nolaggy_loop.simps) simp
next
  case (Cons m ms)
  let ?s = "s\<lparr>dp_asked := dp_asked s + 1, waiting_for_nolaggy := ms\<rparr>"
  have a: "ready d n ?s" using Cons.prems(1) by (simp add: ready_def alive_def)
  have q: "waiting_for_nolaggy s = m # ms" using Cons.hyps(2) by simp
  have "table_ok m" using Cons.prems(2) q by simp
  from deferred_after [OF assms(1) a this] obtain t where t: "handle_deferred d m ?s = Some (Inr t)"
    "went ?s [] (handed (md_map (dp_mds s)) m) t" by auto
  have "ms = waiting_for_nolaggy t" "\<forall>m\<in>set (waiting_for_nolaggy t). table_ok m"
    using t(2) Cons.prems q by (simp_all add: went_def)
  from Cons.hyps(1) [OF this(1) went_ready [OF t(2) a] this(2)] obtain u where u: "nolaggy_loop d t = Some (Inr u)" "waiting_for_nolaggy u = []"
      "ready d n u" "dp_asked t \<le> dp_asked u" "dp_completed u = dp_completed t"
      "dp_handled u = dp_handled t @ concat (map (handed (md_map (dp_mds t))) (waiting_for_nolaggy t))" by blast
  have "\<not> de_laggy d (dp_asked s)" using Cons.prems(1) by (simp add: ready_def)
  then have "nolaggy_loop d s = Some (Inr u)" using q t(1) u(1) by (subst nolaggy_loop.simps) (simp add: ask_laggy_def)
  then show ?case using u(2-6) t(2) q by (simp add: went_def)
qed

lemma advance_queues_ends:
  assumes "calm quiet n rank d" "ready d n s" "\<forall>m\<in>set (waiting_for_nolaggy s). table_ok m"
  shows "\<exists>u t ks hs. finish_loop d s = Some (Inr u) \<and> finished_queue (dp_mds u) = [] \<and> advance_queues d s = Some (Inr t) \<and>
    waiting_for_nolaggy t = [] \<and> ready d n t \<and> dp_asked s \<le> dp_asked t \<and>
    dp_completed u = dp_completed s @ ks \<and> dp_completed t = dp_completed s @ ks \<and>
    map fst ks = finished_queue (dp_mds s) @ concat (map snd ks) \<and> (quiet \<longrightarrow> hs = []) \<and>
    dp_handled t = dp_handled s @ hs @ concat (map (handed (md_map (dp_mds s))) (waiting_for_nolaggy s))"
proof -
  have "\<forall>c\<in>set (finished_queue (dp_mds s)). rank c < Suc (Max (rank ` set (finished_queue (dp_mds s))))"
    by (auto simp: less_Suc_eq_le)
  from finish_loop_ends [OF assms(1,2) this] obtain ks hs u where u: "finish_loop d s = Some (Inr u)" "went s ks hs u" "quiet \<longrightarrow> hs = []"
      "finished_queue (dp_mds u) = []" "map fst ks = finished_queue (dp_mds s) @ concat (map snd ks)" by blast
  have "\<forall>m\<in>set (waiting_for_nolaggy u). table_ok m" using u(2) assms(3) by (simp add: went_def)
  from nolaggy_loop_ends [OF assms(1) went_ready [OF u(2) assms(2)] this] obtain t where t: "nolaggy_loop d u = Some (Inr t)"
      "waiting_for_nolaggy t = []" "ready d n t" "dp_asked u \<le> dp_asked t" "dp_completed t = dp_completed u"
      "dp_handled t = dp_handled u @ concat (map (handed (md_map (dp_mds u))) (waiting_for_nolaggy u))" by blast
  have "advance_queues d s = Some (Inr t)" using u(1) t(1) by (simp add: advance_queues_def)
  then show ?thesis using u t unfolding went_def
    by (intro exI [of _ u] exI [of _ t] exI [of _ ks] exI [of _ hs]) simp
qed

text \<open>C21: The queues of the daemon are worked off, in order. Under the conditions below, one call of \<^verbatim>\<open>_advance_queues\<close> returns. The first
  loop completes contexts exactly in the order of one queue: first those that were queued, then, in the order of the completions, all that each
  completion queued in turn, every one of them once per time it was queued, until none is left. Then every deferred message leaves its
  queue, and those that are not stale and are known have been handed to their handlers (or filtered, when the peer is of the wrong kind) in the order
  in which they were deferred, after whatever the completions themselves handed on. Conditions: the monitors answer from now on; the heartbeat
  handle is there, or the daemon is to end; a deferred table request is for the snap table (one for another table aborts); and in such states
  with the same dispatch depth a completion, and the handler of a deferrable message, returns, keeps the map and the deferred messages and does
  not end the process, a completion only appends to the queue, only contexts of smaller rank, and a handler
  dispatches no message itself; completions that are \<open>quiet\<close> hand nothing on. So a completion that retries a message is covered where it does not run the queues again, that is inside a
  dispatch; maps are core messages, never deferred, and a completion that retries one is not covered.\<close>

theorem queues_worked_off:
  assumes "calm quiet (dispatch_depth s) rank d" "alive s" "\<forall>k\<ge>dp_asked s. \<not> de_laggy d k" "\<forall>m\<in>set (waiting_for_nolaggy s). table_ok m"
  shows "\<exists>u t ks hs. finish_loop d s = Some (Inr u) \<and> finished_queue (dp_mds u) = [] \<and>
    dp_completed u = dp_completed s @ ks \<and> map fst ks = finished_queue (dp_mds s) @ concat (map snd ks) \<and>
    advance_queues d s = Some (Inr t) \<and> waiting_for_nolaggy t = [] \<and> dp_completed t = dp_completed u \<and> (quiet \<longrightarrow> hs = []) \<and>
    dp_handled t = dp_handled s @ hs @ concat (map (handed (md_map (dp_mds s))) (waiting_for_nolaggy s))"
proof -
  have "ready d (dispatch_depth s) s" using assms(2,3) by (simp add: ready_def)
  from advance_queues_ends [OF assms(1) this assms(4)] show ?thesis by metis
qed

text \<open>An environment whose handlers only take the message; context \<open>n + 1\<close> queues context \<open>n\<close>. The monitors are silent at the first question
  only.\<close>

definition demo_complete :: "context_t \<Rightarrow> dp_op" where
  "demo_complete c s = Some (Inr (if c = 0 then s else s\<lparr>dp_mds := (dp_mds s)\<lparr>finished_queue := finished_queue (dp_mds s) @ [c - 1]\<rparr>\<rparr>))"

definition demo_dp :: dp_env where
  "demo_dp = \<lparr>de_mds = demo_env, de_handler = (\<lambda>h m s. Some (Inr s)), de_complete = demo_complete, de_laggy = (\<lambda>k. k = 0), de_cache_open = True,
     de_client_requests = 0, de_shutdown_pass = False, de_thrash_exports = 0, de_export_picks = (\<lambda>_. None), de_num_inodes = 0,
     de_thrash_fragments = 0, de_frag_picks = (\<lambda>_. None), de_num_fragmenting = 0, de_logging = False\<rparr>"

definition demo_request :: "nat \<Rightarrow> message" where
  "demo_request i = \<lparr>mg_id = i, mg_kind = CLIENT_REQUEST i 0, mg_source = ClientE 4, mg_addr = 70, mg_peer = Some TYPE_CLIENT\<rparr>"

definition demo_dispatcher :: dispatcher where
  "demo_dispatcher = \<lparr>dp_mds = (mds_new (-1) (demo_map 1 STATE_ACTIVE []))\<lparr>md_state := STATE_ACTIVE, finished_queue := [2]\<rparr>,
     waiting_for_nolaggy = [demo_request 1], dispatch_depth = 0, dp_asked = 1, dp_handled = [], dp_put = [], dp_completed = []\<rparr>"

lemma demo_tame: "tame (\<lambda>c. c) demo_dp"
  by (auto simp: tame_def demo_dp_def demo_complete_def same_frame_def alive_def)

lemma demo_handed: "handed mm (demo_request i) = [(To_Server, demo_request i)]"
  by (simp add: handed_def demo_request_def is_stale_message_def)

text \<open>The same, except that completing context 0 dispatches a request again, as \<^verbatim>\<open>C_MDS_RetryMessage\<close> does.\<close>

definition demo_retry :: dp_env where
  "demo_retry = demo_dp\<lparr>de_complete := (\<lambda>c. if c = 0 then retry_message demo_dp (demo_request 9) else demo_complete c)\<rparr>"

lemma demo_retries:
  assumes "ready demo_retry 1 s"
  shows "retry_message demo_dp (demo_request 9) s =
    Some (Inr (s\<lparr>dp_asked := dp_asked s + 1, dp_handled := dp_handled s @ [(To_Server, demo_request 9)]\<rparr>))"
  using assms by (auto simp: ready_def demo_retry_def demo_dp_def retry_message_def inner_dispatch_def dispatch_message_def ask_laggy_def
      demo_request_def is_stale_message_def hand_to_def after_message_def)

lemma demo_calm: "calm False 1 (\<lambda>c. c) demo_retry"
proof -
  have "\<exists>ls hs t. de_complete demo_retry c s = Some (Inr t) \<and> went s [] hs t \<and> finished_queue (dp_mds t) = finished_queue (dp_mds s) @ ls \<and>
      (\<forall>x\<in>set ls. x < c)" if r: "ready demo_retry 1 s" for c s
  proof (cases "c = 0")
    case True
    then show ?thesis using demo_retries [OF r]
      by (intro exI [of _ "[]"] exI [of _ "[(To_Server, demo_request 9)]"]) (simp add: demo_retry_def went_def alive_def)
  next
    case False
    then show ?thesis by (intro exI [of _ "[c - 1]"] exI [of _ "[]"]) (simp add: demo_retry_def demo_complete_def went_def alive_def)
  qed
  moreover have "\<exists>t. de_handler demo_retry h m s = Some (Inr t) \<and> went s [] [] t" for h m s by (simp add: demo_retry_def demo_dp_def)
  ultimately show ?thesis by (simp add: calm_def)
qed

theorem queues_worked_off_witness:
  "\<exists>t ks hs. advance_queues demo_retry (demo_dispatcher\<lparr>dispatch_depth := 1\<rparr>) = Some (Inr t) \<and> waiting_for_nolaggy t = [] \<and>
     dp_completed t = ks \<and> map fst ks = 2 # concat (map snd ks) \<and> dp_handled t = hs @ [(To_Server, demo_request 1)]"
proof -
  let ?s = "demo_dispatcher\<lparr>dispatch_depth := 1\<rparr>"
  have c: "calm False (dispatch_depth ?s) (\<lambda>c. c) demo_retry" using demo_calm by simp
  have a: "alive ?s" by (simp add: demo_dispatcher_def alive_def mds_new_def)
  have l: "\<forall>k\<ge>dp_asked ?s. \<not> de_laggy demo_retry k" by (simp add: demo_dispatcher_def demo_retry_def demo_dp_def)
  have k: "\<forall>m\<in>set (waiting_for_nolaggy ?s). table_ok m" by (simp add: demo_dispatcher_def table_ok_def demo_request_def)
  have f: "finished_queue (dp_mds ?s) = [2]" "dp_completed ?s = []" "waiting_for_nolaggy ?s = [demo_request 1]" "dp_handled ?s = []"
    by (simp_all add: demo_dispatcher_def)
  from queues_worked_off [OF c a l k] show ?thesis unfolding f by (auto simp: demo_handed)
qed

lemma log_returns: "returns f \<Longrightarrow> \<exists>t. chain [call c, f] s = Inr t"
proof -
  assume "returns f"
  then have "returns (chain [call c, f])" by simp
  then show ?thesis unfolding returns_def by blast
qed

lemma thrash_returns: "returns (thrash_exports d is)" "returns (thrash_fragments d is)"
proof (induction "is")
  case (Cons i "is")
  show "returns (thrash_exports d (i # is))" using log_returns [OF Cons(1)] Cons(1) unfolding returns_def
    by (auto split: option.splits)
  show "returns (thrash_fragments d (i # is))" using log_returns [OF Cons(2)] Cons(2) unfolding returns_def
    by (auto split: option.splits)
qed (simp_all add: returns_def)

lemma housekeeping_returns: "returns (housekeeping d)"
  using thrash_returns by (simp add: housekeeping_def clientreplay_done_def stopping_done_def)

lemma housekeeping_keeps: "\<exists>t'. lift_op (housekeeping d) t = Some (Inr t') \<and> dp_handled t' = dp_handled t"
  using housekeeping_returns [of d] unfolding returns_def lift_op_def by (metis (no_types, lifting) dispatcher.select_convs(5) dispatcher.surjective dispatcher.update_convs(1) sum.case(2))

text \<open>C22: A message can overtake older ones. When requests are deferred because the monitors did not answer and a further request arrives once they
  do, it is handled at once, before the deferred ones, although these arrived earlier: the
  handlers see the later request first.\<close>

theorem late_request_overtakes:
  assumes tame: "tame rank d" and alive: "alive s" and answers: "\<forall>k\<ge>dp_asked s. \<not> de_laggy d k"
    and known: "\<forall>m\<in>set (waiting_for_nolaggy s). table_ok m" and top: "dispatch_depth s = 1"
    and req: "mg_kind m = CLIENT_REQUEST tid fwd" "mg_source m = ClientE c"
  shows "\<exists>t. snd (dispatch_message d m s) = Some (Inr t) \<and>
    dp_handled t = dp_handled s @ (To_Server, m) # concat (map (handed (md_map (dp_mds s))) (waiting_for_nolaggy s))"
proof -
  let ?s = "s\<lparr>dp_asked := dp_asked s + 1\<rparr>"
  note calm = tame_calm [OF tame, of 1]
  have r: "ready d 1 ?s" using alive answers top by (simp add: ready_def alive_def)
  from hand_to_after [OF calm r, of To_Server m] obtain u where u: "hand_to d To_Server m ?s = Some (Inr u)" "went ?s [] [(To_Server, m)] u" by auto
  have "\<forall>m\<in>set (waiting_for_nolaggy u). table_ok m" using u(2) known by (simp add: went_def)
  from advance_queues_ends [OF calm went_ready [OF u(2) r] this] obtain t where t: "advance_queues d u = Some (Inr t)" "dp_asked u \<le> dp_asked t"
    "dp_handled t = dp_handled u @ concat (map (handed (md_map (dp_mds u))) (waiting_for_nolaggy u))" by auto
  let ?t = "t\<lparr>dp_asked := dp_asked t + 1\<rparr>"
  obtain t' where t': "lift_op (housekeeping d) ?t = Some (Inr t')" "dp_handled t' = dp_handled t"
    using housekeeping_keeps [of d ?t] by auto
  have "\<not> de_laggy d (dp_asked t)" "dispatch_depth u = 1" using answers t(2) u(2) top by (simp_all add: went_def)
  then have "after_message d u = Some (Inr t')" using t(1) t'(1) by (simp add: after_message_def ask_laggy_def)
  moreover have "snd (dispatch_message d m s) = and_then (hand_to d To_Server m ?s) (after_message d)"
    using req answers by (simp add: dispatch_message_def ask_laggy_def is_stale_message_def)
  ultimately show ?thesis using u t(3) t'(2) by (auto simp: went_def)
qed

theorem late_request_overtakes_witness:
  "\<exists>t. snd (dispatch_message demo_dp (demo_request 2) (demo_dispatcher\<lparr>dispatch_depth := 1\<rparr>)) = Some (Inr t) \<and>
     map (mg_id \<circ> snd) (dp_handled t) = [2, 1]"
proof -
  let ?s = "demo_dispatcher\<lparr>dispatch_depth := 1\<rparr>"
  have a: "alive ?s" by (simp add: demo_dispatcher_def alive_def mds_new_def)
  have l: "\<forall>k\<ge>dp_asked ?s. \<not> de_laggy demo_dp k" by (simp add: demo_dispatcher_def demo_dp_def)
  have k: "\<forall>m\<in>set (waiting_for_nolaggy ?s). table_ok m" by (simp add: demo_dispatcher_def table_ok_def demo_request_def)
  have m: "mg_kind (demo_request 2) = CLIENT_REQUEST 2 0" "mg_source (demo_request 2) = ClientE 4" "dispatch_depth ?s = 1"
    by (simp_all add: demo_request_def)
  from late_request_overtakes [OF demo_tame a l k m(3,1,2)] show ?thesis
    by (auto simp: demo_dispatcher_def demo_handed) (simp_all add: demo_request_def)
qed

text \<open>A deferred message that is not known is neither handed on nor dropped; the same message is dropped when it is dispatched at once.\<close>

lemma unknown_deferred_leaks:
  assumes "mg_kind m = OTHER_MSG" "\<not> is_stale_message (md_map (dp_mds s)) m" "alive s"
  shows "\<exists>t. handle_deferred d m s = Some (Inr t) \<and> dp_put t = dp_put s \<and> dp_handled t = dp_handled s"
    and "\<not> de_laggy d (dp_asked s) \<Longrightarrow> \<exists>t. dispatch_message d m s = (False, Some (Inr t)) \<and> dp_put t = dp_put s @ [m]"
  using assms
  by (auto simp: handle_deferred_def lift_op_def heartbeat_reset_def op_defs alive_def dispatch_message_def ask_laggy_def put_message_def)

end
