(* ===== verification/Spec2Isabelle.thy ===== *)
theory Spec2Isabelle
  imports Mds_Prelude Ordered_Containers Cache_Object Ino_Layout Stat_Types Dentry_Key Load_Vectors
    CDir_Base CDir_Versions CDir_Items CDir_Freeze CDir_Frame CDir_Fragment CDir_Commit CDir_Store CDir_Protocol
    Balancer_Plan Balancer_Targets Balancer_Exports Balancer_Rebalance Balancer_Custom
    Balancer_Beat Balancer_Frag Balancer_Tick Balancer_Hits Beacon_Model
    Subtree_Map Subtree_Bounds Subtree_Rename C_Strings Config_Options Config_Expand Config_Set Config_Args
    Mds_Daemon Mds_Contract Mds_Waiters Mds_Recovery Mds_Dispatch
begin

text \<open>
  \<^bold>\<open>The program.\<close> The repository is a metadata server of a distributed file system whose load balancing can be
  programmed in Lua. A cluster of such servers shares one file hierarchy. Each server caches directory
  fragments (\<^verbatim>\<open>CDir\<close>), is responsible for some subtrees of the hierarchy, and hands subtrees over to other servers
  when it is overloaded. Its parts, under \<^verbatim>\<open>src/src/mds\<close>, and how they meet:

  \<^item> \<^verbatim>\<open>mdstypes.h\<close>: the data that everything else shares: cached objects with their pins, replicas and waiters,
    inode numbers, statistics, names of entries, load counters.
  \<^item> \<^verbatim>\<open>CDir.cc\<close>, \<^verbatim>\<open>CDir.h\<close>: a directory fragment: its entries, versions, auth pins and freezing, splitting and merging,
    fetching from and committing to the object store, export to another server.
  \<^item> \<^verbatim>\<open>MDCache.cc\<close>: the cache of one server; modelled here is the subtree map, which says who is responsible for which
    directory and which the balancer and the migration of subtrees work on.
  \<^item> \<^verbatim>\<open>MDBalancer.cc\<close>: the balancer: servers exchange their loads in heartbeats, a server decides how much to give
    to whom, by its own rule or by the Lua script, and chooses the fragments to export.
  \<^item> \<^verbatim>\<open>Beacon.cc\<close>: the sign of life sent to the monitors, and the health report.
  \<^item> \<^verbatim>\<open>MDS.cc\<close>, \<^verbatim>\<open>MDS.h\<close>: the daemon around them: it follows the cluster map through boot, recovery and shutdown, starts the phases
    of the cache and the server, keeps the contexts that wait for a state, a peer or an epoch, and dispatches messages.
  \<^item> \<^verbatim>\<open>common/config.cc\<close>, \<^verbatim>\<open>common/config_opts.h\<close>: the options that all of these read: their table, setting them from files,
    arguments and at run time, and telling observers of changes.

  \<^bold>\<open>The theories.\<close>

  \<^item> \<open>Mds_Prelude\<close>, \<open>Ordered_Containers\<close>: scalars, assertions, and the standard containers as sorted lists, with the
    locale \<open>dict\<close> for what an ordered map promises.
  \<^item> \<open>Cache_Object\<close> (\<^verbatim>\<open>MDSCacheObject\<close>): pins, replicas, waiters. In every state reached by its operations the reference
    count is the sum of the pins and a pin is held exactly for what it stands for. The virtual hooks of the
    class are the parameters of the locale \<open>co_hooks\<close>, interpreted for directories in \<open>CDir_Base\<close>.
  \<^item> \<open>Ino_Layout\<close>, \<open>Stat_Types\<close>, \<open>Dentry_Key\<close>, \<open>Load_Vectors\<close>: the value types of \<^verbatim>\<open>mdstypes.h\<close>, with the round trip of
    encoded entry names.
  \<^item> \<open>CDir_Base\<close>, \<open>CDir_Versions\<close>, \<open>CDir_Items\<close>, \<open>CDir_Freeze\<close>: the state of a fragment; its versions and its dirty flag
    (invariant over all runs, import as the inverse of export); its entries (refinement of a map from names to
    linkages, the four counters agree with the entries); its freezing (refinement of a machine with five modes,
    completion of a freeze, and its safety: the pins and calls agree with the state also in runs with the unguarded pins that the cache takes
    on frozen fragments of a split, while a frozen fragment is free of pins in the runs without them).
  \<^item> \<open>CDir_Frame\<close>: locales for views of a fragment that an operation leaves alone, interpreted by the theories after it.
  \<^item> \<open>CDir_Fragment\<close>: \<^verbatim>\<open>split\<close> and \<^verbatim>\<open>merge\<close>: a split distributes the entries, conserves the statistics that are owed to
    the inode, and a merge undoes it.
  \<^item> \<open>CDir_Commit\<close>, \<open>CDir_Store\<close>, \<open>CDir_Protocol\<close>: fetch and commit. However a commit is cut into operations on the
    store, it leaves there what one direct write would; the versions of a commit and the waiters for it follow
    a protocol, in which a completion wakes exactly the waiters it serves.
  \<^item> \<open>Subtree_Map\<close>, \<open>Subtree_Bounds\<close>, \<open>Subtree_Rename\<close>: the subtree map as an exact index of the authorities set on
    directories; merging changes nobody's authority; moving a subtree with given bounds terminates with exactly
    these bounds; a rename moves no authority. They use the fragments of \<open>CDir_Base\<close> and \<open>CDir_Freeze\<close>.
  \<^item> \<open>Balancer_Plan\<close>, \<open>Balancer_Targets\<close>: the loads and the matching of exporters with importers: it terminates, gives
    no server more than it takes and takes from none more than it has, and balances in odd epochs.
  \<^item> \<open>Balancer_Exports\<close>, \<open>Balancer_Rebalance\<close>: choosing what to export: only eligible, disjoint fragments and, where no script
    selects them, within a bound.
  \<^item> \<open>Balancer_Custom\<close>: the Lua balancer around the script: what the script prints is what is exported.
  \<^item> \<open>Balancer_Beat\<close>, \<open>Balancer_Tick\<close>, \<open>Balancer_Frag\<close>, \<open>Balancer_Hits\<close>: gathering of loads, periodic work, requests to split
    and merge fragments, popularity counters.
  \<^item> \<open>Beacon_Model\<close>: sequence numbers and acknowledgements refine the set of outstanding beacons.
  \<^item> \<open>C_Strings\<close>: conversions between numbers and text of the C library.
  \<^item> \<open>Config_Options\<close>, \<open>Config_Expand\<close>: the table of options and the state of \<^verbatim>\<open>md_config_t\<close>; where the references can be
    resolved, the expansion of variables gives each string option the value its references denote and is idempotent.
  \<^item> \<open>Config_Set\<close>, \<open>Config_Args\<close>: setting and reading options (round trip, precedence of file sections, exact notification
    of observers), command line and injected arguments (termination); in every run each option keeps its type.

  \<^item> \<open>Mds_Daemon\<close>: the state of the daemon, its operations from booting to shutdown, and the reaction to a cluster map, each
    as an operation that ends in a state or in the reason why the process ended.
  \<^item> \<open>Mds_Contract\<close>: the locales \<open>step_preorder\<close> and \<open>daemon_step\<close>: a relation that admits the elementary steps holds across every
    operation. They are interpreted in the three theories after it.
  \<^item> \<open>Mds_Waiters\<close>: no waiting context is lost or completed twice, in any run.
  \<^item> \<open>Mds_Recovery\<close>: a state granted during recovery releases exactly its waiters and those of the epoch; the maps on which one
    of the assertions of \<^verbatim>\<open>MDS.cc\<close> fails, exactly (calls into the cache, the balancer and the other parts are taken to return).
  \<^item> \<open>Mds_Dispatch\<close>: sending, dispatch, deferral and the queues: a peer has the map before a message; the queues are worked off in
    order, every queued context completed, those queued by completions included; a message may overtake deferred ones. What the other
    parts do with a message or in a completion is a parameter; \<open>calm\<close> states what the theorem on the queues asks of it.

  \<^bold>\<open>Conventions.\<close> A function that may fail an \<^verbatim>\<open>assert\<close>, or dereference a null pointer, returns an option, and \<open>None\<close> is the abort;
  in the daemon, where a process may also be replaced, it returns a sum, and in its message queues \<open>None\<close> is a call that does not return.
  Objects whose classes are declared outside the sources (inodes, dentries, the journal, the locker, the migrator,
  the monitor client, the messenger, Lua, decaying counters, fragment numbers) are not given definitions: what the
  code reads of them is a field of a record or a parameter, with the laws it relies on as named hypotheses
  (\<open>env_ok\<close>, \<open>frag_law\<close>, and the fields of the environments), and what it calls on them is recorded, in order, in a log
  (\<open>cd_log\<close>, \<open>bal_log\<close>, \<open>mc_log\<close>, \<open>bc_log\<close>, \<open>md_log\<close>), so that theorems can say which calls are made. Where such calls change what is
  read later, the environment is a function of the log. Unsigned numbers are words of their width; \<^verbatim>\<open>int\<close> is
  unbounded, its overflow being undefined in the code; floating point numbers and times are exact rationals.

  \<^bold>\<open>Recursion and fuel.\<close> Loops over containers are structural recursions. \<^verbatim>\<open>auth_unpin\<close> and \<^verbatim>\<open>maybe_finish_freeze\<close> call
  each other; they are defined with fuel 4 and 3: a freeze is finished at most once in such a chain, which then
  unpins once more, and the refinement theorems hold for these values, so the fuel is never used up. Loops that
  might not end are partial functions that return \<open>None\<close> when they do not: the matching of exporters with importers,
  the climb of fragment numbers, the loops of \<^verbatim>\<open>adjust_bounded_subtree_auth\<close>, the loops over arguments,
  the two loops of \<^verbatim>\<open>_advance_queues\<close>; the theorems on them include that
  they return.

  \<^bold>\<open>Not modelled.\<close> Of \<^verbatim>\<open>MDCache.cc\<close> all but the subtree map: discovery, resolve and rejoin, trimming, snapshots and
  the journaling helpers work on inodes, locks and messages that are declared elsewhere. \<^verbatim>\<open>Server.cc\<close>: handlers of client
  requests over the same. Of \<^verbatim>\<open>MDS.cc\<close> the administration socket and the \<^verbatim>\<open>tell\<close> commands, the
  authorisation and sessions of clients, the performance counters, and the start up to where the monitors and object stores answer. \<^verbatim>\<open>Client.cc\<close>: the other
  end of the protocol. The distinctness of the names in the table of options is a hypothesis (they are members of one
  class). The debugging output, the encoders of messages, and code
  that is never called (\<^verbatim>\<open>import_pop_map\<close>) are left out.
\<close>

end
